(* ===== verification/Prelude.thy ===== *)
theory Prelude
  imports Main "HOL-Library.Word" "HOL-Library.Multiset" "HOL-Library.Monad_Syntax"
    "HOL-Library.Code_Target_Numeral"
begin

text \<open>
  Shared vocabulary of the development: the machine integer types of the program, the
  collections of facts its proofs draw on, and generic lemmas on lists, options and words
  that more than one component needs.
\<close>

section \<open>Machine integers and bytes\<close>

type_synonym u8 = "8 word"
type_synonym u16 = "16 word"
type_synonym u32 = "32 word"
type_synonym u64 = "64 word"

named_theorems word_nat \<open>moving unsigned words to natural numbers\<close>

lemma unat_min [word_nat]: "unat (min (a :: 'n::len word) b) = min (unat a) (unat b)"
  by (simp add: min_def word_le_nat_alt)

lemma unat_minus_min [word_nat]:
  "unat ((a :: 'n::len word) - min a b) = unat a - min (unat a) (unat b)"
  by (simp add: unat_sub min_def word_le_nat_alt)

lemma minus_min_eq_0: "a - min a b = 0 \<or> b - min a b = (0 :: 'n::len word)"
  by (simp add: min_def)

section \<open>Lists\<close>

lemma split_at_nth: "i < length xs \<Longrightarrow> xs = take i xs @ xs ! i # drop (Suc i) xs"
  by (rule id_take_nth_drop)

lemma update_at_split:
  "i < length xs \<Longrightarrow> xs[i := y] = take i xs @ y # drop (Suc i) xs"
  by (rule upd_conv_take_nth_drop)

lemma filter_neq_id: "x \<notin> set xs \<Longrightarrow> filter (\<lambda>y. y \<noteq> x) xs = xs"
  by (induction xs) auto

lemma filter_fst_notin:
  "k \<notin> fst ` set xs \<Longrightarrow> filter (\<lambda>p. fst p \<noteq> k) xs = xs"
  by (induction xs) auto

lemma filter_fst_split:
  "distinct (map fst (xs @ (k, v) # ys)) \<Longrightarrow>
   filter (\<lambda>p. fst p \<noteq> k) (xs @ (k, v) # ys) = xs @ ys"
  by (simp add: filter_fst_notin)

lemma distinct_map_fst_split:
  assumes "distinct (map fst xs)" and "map_of xs k = Some v"
  obtains ys zs where "xs = ys @ (k, v) # zs" and "k \<notin> fst ` set (ys @ zs)"
proof -
  from assms(2) have "(k, v) \<in> set xs" by (rule map_of_SomeD)
  then obtain ys zs where xs: "xs = ys @ (k, v) # zs" by (auto simp: in_set_conv_decomp)
  with assms(1) have "k \<notin> fst ` set (ys @ zs)" by auto
  with xs show thesis by (rule that)
qed

end
