(* ===== verification/Message_Queue.thy ===== *)
theory Message_Queue
  imports Prelude
begin

text \<open>
  The queue between threads (\<open>moodycamel::ConcurrentQueue\<close>, includes/concurrentqueue.h) as
  its clients see it: one stream of elements per producer, in the order the producer enqueued
  them. \<open>Queue_Properties\<close> proves that the lock-free code implements these streams.
\<close>

section \<open>Streams\<close>

type_synonym 'a cqueue = "nat \<Rightarrow> 'a list"

definition cq_empty :: "'a cqueue" where
  "cq_empty = (\<lambda>_. [])"

text \<open>\<open>enqueue\<close> by the producer \<open>p\<close>, and the \<open>dequeue\<close> of one producer.\<close>

definition cq_enqueue :: "nat \<Rightarrow> 'a \<Rightarrow> 'a cqueue \<Rightarrow> 'a cqueue" where
  "cq_enqueue p x q = q(p := q p @ [x])"

definition cq_dequeue :: "nat \<Rightarrow> 'a cqueue \<Rightarrow> ('a \<times> 'a cqueue) option" where
  "cq_dequeue p q = (case q p of [] \<Rightarrow> None | x # xs \<Rightarrow> Some (x, q(p := xs)))"

section \<open>Dequeuing from any producer\<close>

text \<open>
  \<open>try_dequeue\<close> as it runs while no other thread touches the queue; \<open>ps\<close> is the list of
  producers, from the tail. The first loop picks the fullest of the first three streams that
  are not empty.
\<close>

fun best_producer :: "'a cqueue \<Rightarrow> nat list \<Rightarrow> nat \<Rightarrow> nat option \<Rightarrow> nat \<Rightarrow> nat \<times> nat option" where
  "best_producer q [] non_empty best best_size = (non_empty, best)"
| "best_producer q (p # ps) non_empty best best_size =
     (if non_empty \<ge> 3 then (non_empty, best)
      else if length (q p) > 0 then
        (if length (q p) > best_size then best_producer q ps (non_empty + 1) (Some p) (length (q p))
         else best_producer q ps (non_empty + 1) best best_size)
      else best_producer q ps non_empty best best_size)"

fun dequeue_any :: "'a cqueue \<Rightarrow> nat list \<Rightarrow> ('a \<times> 'a cqueue) option" where
  "dequeue_any q [] = None"
| "dequeue_any q (p # ps) = (case cq_dequeue p q of Some r \<Rightarrow> Some r | None \<Rightarrow> dequeue_any q ps)"

definition try_dequeue :: "nat list \<Rightarrow> 'a cqueue \<Rightarrow> ('a \<times> 'a cqueue) option" where
  "try_dequeue ps q =
     (case best_producer q ps 0 None 0 of
        (non_empty, Some b) \<Rightarrow>
          (case cq_dequeue b q of
             Some r \<Rightarrow> Some r
           | None \<Rightarrow> dequeue_any q (filter (\<lambda>p. p \<noteq> b) ps))
      | _ \<Rightarrow> None)"

text \<open>The variant without the choice.\<close>

definition try_dequeue_non_interleaved :: "nat list \<Rightarrow> 'a cqueue \<Rightarrow> ('a \<times> 'a cqueue) option" where
  "try_dequeue_non_interleaved ps q = dequeue_any q ps"

lemma best_producer_kept: "best_producer q ps k (Some b) m \<noteq> (k', None)"
  by (induction ps arbitrary: k b m) simp_all

lemma best_producer_nonempty:
  "best_producer q ps k b m = (k', Some r) \<Longrightarrow> b = Some r \<or> (r \<in> set ps \<and> q r \<noteq> [])"
  by (induction q ps k b m rule: best_producer.induct) (auto split: if_splits)

lemma best_producer_None:
  "best_producer q ps 0 None 0 = (k', None) \<Longrightarrow> p \<in> set ps \<Longrightarrow> q p = []"
  by (induction ps) (auto simp: best_producer_kept split: if_splits)

lemma best_producer_empty: "(\<forall>p \<in> set ps. q p = []) \<Longrightarrow> best_producer q ps k b m = (k, b)"
  by (induction ps) auto

lemma try_dequeue_eq:
  "try_dequeue ps q = (case snd (best_producer q ps 0 None 0) of Some b \<Rightarrow> cq_dequeue b q | None \<Rightarrow> None)"
  by (auto simp: try_dequeue_def cq_dequeue_def dest: best_producer_nonempty split: prod.split option.split list.split)

lemma try_dequeue_None_iff: "try_dequeue ps q = None \<longleftrightarrow> (\<forall>p \<in> set ps. q p = [])"
proof
  assume n: "try_dequeue ps q = None"
  obtain k b where b: "best_producer q ps 0 None 0 = (k, b)" by fastforce
  show "\<forall>p \<in> set ps. q p = []"
  proof (cases b)
    case None
    with b best_producer_None show ?thesis by blast
  next
    case (Some r)
    with b have "q r \<noteq> []" using best_producer_nonempty by fastforce
    with n b Some show ?thesis by (simp add: try_dequeue_eq cq_dequeue_def split: list.splits)
  qed
qed (simp add: try_dequeue_eq best_producer_empty)

lemma try_dequeue_Some:
  assumes "try_dequeue ps q = Some (x, q')"
  obtains p xs where "p \<in> set ps" "q p = x # xs" "q' = q(p := xs)"
proof -
  obtain k b where b: "best_producer q ps 0 None 0 = (k, b)" by fastforce
  with assms obtain r where r: "b = Some r" "cq_dequeue r q = Some (x, q')"
    by (auto simp: try_dequeue_eq split: option.splits)
  with b have "r \<in> set ps" using best_producer_nonempty by fastforce
  with r(2) that show thesis by (auto simp: cq_dequeue_def split: list.splits)
qed

lemma dequeue_any_None_iff: "dequeue_any q ps = None \<longleftrightarrow> (\<forall>p \<in> set ps. q p = [])"
  by (induction ps) (auto simp: cq_dequeue_def split: list.splits)

end
