(* ===== verification/Queue_Blocks.thy ===== *)
theory Queue_Blocks
  imports Message_Queue
begin

text \<open>
  The memory of the concurrent queue (includes/concurrentqueue.h): blocks of 32 elements, the pool of
  blocks that the queue allocates at its construction, and the free list through which used blocks return.
  A block is known by its address, a natural number; reading or writing a block that does not exist is
  undefined behaviour (\<open>None\<close>). The free list is a bag here, whose operations are one step each;
  \<open>Free_Properties\<close> proves that the lock-free code implements a bag.
\<close>

unbundle bit_operations_syntax

section \<open>Indices that wrap around\<close>

definition circular_less_than :: "u64 \<Rightarrow> u64 \<Rightarrow> bool" where
  "circular_less_than a b \<longleftrightarrow> push_bit 63 1 < a - b"

abbreviation BLOCK_SIZE :: u64 where "BLOCK_SIZE \<equiv> 32"

definition block_offset :: "u64 \<Rightarrow> nat" where
  "block_offset idx = unat (idx AND (BLOCK_SIZE - 1))"

section \<open>Steps\<close>

text \<open>
  A step may be not possible in the thread's phase, undefined behaviour (a violated assertion
  included), or lead to the next state.
\<close>

datatype ('s, 'e) step_result = Disabled | Fault | Next 's "'e option"

section \<open>Blocks\<close>

text \<open>A place for an element holds one or is raw memory (\<open>None\<close>).\<close>

record 'a block =
  elements :: "'a option list"
  completely_dequeued :: u64
  dynamically_allocated :: bool

definition new_block :: "bool \<Rightarrow> 'a block" where
  "new_block dynamic = \<lparr> elements = replicate 32 None, completely_dequeued = 0, dynamically_allocated = dynamic \<rparr>"

definition reset_empty :: "'a block \<Rightarrow> 'a block" where
  "reset_empty b = b\<lparr> completely_dequeued := 0 \<rparr>"

text \<open>\<open>set_empty\<close> counts an element; the result says whether it was the last one of the block. \<open>None\<close> is
  the violated assertion.\<close>

definition set_empty :: "'a block \<Rightarrow> (bool \<times> 'a block) option" where
  "set_empty b =
     (if completely_dequeued b < BLOCK_SIZE
      then Some (completely_dequeued b = BLOCK_SIZE - 1, b\<lparr> completely_dequeued := completely_dequeued b + 1 \<rparr>)
      else None)"

text \<open>The constructor of an element needs raw memory; moving out of an element and destroying it leaves raw memory.\<close>

definition construct_at :: "u64 \<Rightarrow> 'a \<Rightarrow> 'a block \<Rightarrow> 'a block option" where
  "construct_at idx x b =
     (if elements b ! block_offset idx = None then Some (b\<lparr> elements := (elements b)[block_offset idx := Some x] \<rparr>) else None)"

definition move_from :: "u64 \<Rightarrow> 'a block \<Rightarrow> ('a \<times> 'a block) option" where
  "move_from idx b =
     (case elements b ! block_offset idx of
        Some x \<Rightarrow> Some (x, b\<lparr> elements := (elements b)[block_offset idx := None] \<rparr>)
      | None \<Rightarrow> None)"

section \<open>The pool\<close>

text \<open>The initial pool is an array: its blocks have the addresses below \<open>pool_size\<close>.\<close>

record 'a block_pool =
  block_at :: "nat \<Rightarrow> 'a block option"
  free_list :: "nat list"
  pool_index :: u64
  pool_size :: u64

definition update_block :: "nat \<Rightarrow> 'a block \<Rightarrow> 'a block_pool \<Rightarrow> 'a block_pool" where
  "update_block b blk p = p\<lparr> block_at := (block_at p)(b := Some blk) \<rparr>"

definition populate_initial_block_list :: "u64 \<Rightarrow> 'a block_pool" where
  "populate_initial_block_list n =
     \<lparr> block_at = (\<lambda>b. if b < unat n then Some (new_block False) else None), free_list = [], pool_index = 0, pool_size = n \<rparr>"

text \<open>\<open>try_get_block_from_initial_pool\<close> looks at the index first, and then draws a number.\<close>

definition initial_pool_exhausted :: "'a block_pool \<Rightarrow> bool" where
  "initial_pool_exhausted p \<longleftrightarrow> pool_index p \<ge> pool_size p"

definition take_from_initial_pool :: "'a block_pool \<Rightarrow> nat option \<times> 'a block_pool" where
  "take_from_initial_pool p =
     (if pool_index p < pool_size p then Some (unat (pool_index p)) else None, p\<lparr> pool_index := pool_index p + 1 \<rparr>)"

text \<open>
  \<open>try_get\<close> of the free list may return any of its nodes, for threads that put nodes back at the same time
  link them in any order, or none, while a node waits to be linked. What it returns is an argument.
\<close>

definition try_get_block_from_free_list :: "nat option \<Rightarrow> 'a block_pool \<Rightarrow> nat option \<times> 'a block_pool" where
  "try_get_block_from_free_list answer p =
     (case answer of
        Some b \<Rightarrow> if b \<in> set (free_list p) then (Some b, p\<lparr> free_list := remove1 b (free_list p) \<rparr>) else (None, p)
      | None \<Rightarrow> (None, p))"

text \<open>
  \<open>create\<close>: what the allocator answers is an argument, the address of the new block or \<open>None\<close> for a null
  pointer; an address that is in use counts as the null pointer, for the allocator returns none.
\<close>

definition create_block :: "nat option \<Rightarrow> 'a block_pool \<Rightarrow> nat option \<times> 'a block_pool" where
  "create_block answer p =
     (case answer of
        Some b \<Rightarrow> if block_at p b = None then (Some b, update_block b (new_block True) p) else (None, p)
      | None \<Rightarrow> (None, p))"

definition add_block_to_free_list :: "nat \<Rightarrow> 'a block_pool \<Rightarrow> 'a block_pool option" where
  "add_block_to_free_list b p =
     (case block_at p b of
        None \<Rightarrow> None
      | Some blk \<Rightarrow>
          Some (if dynamically_allocated blk then p\<lparr> block_at := (block_at p)(b := None) \<rparr>
                else p\<lparr> free_list := b # free_list p \<rparr>))"

end
