(* ===== verification/Queue_Producer.thy ===== *)
theory Queue_Producer
  imports Queue_Blocks
begin

text \<open>
  The lock-free queue of one producer (\<open>ImplicitProducer\<close>, includes/concurrentqueue.h): its owner
  enqueues, any number of consumers dequeue. Every access to memory that another thread may write is a
  step of its own, and the threads' steps interleave; the phase of a thread is the place in the code it
  has reached, with the local variables that are still in use. (The assertion behind the search for an entry
  is checked together with the search's last load, and a call on the free list is one step.) The memory is
  sequentially consistent here.
  The elements are of a type whose construction and assignment throw nothing, as those of the program's
  queues are; \<open>MAX_SUBQUEUE_SIZE\<close> is the largest \<open>size_t\<close> by default, for which the check of the size is
  compiled away.
\<close>

section \<open>State\<close>

text \<open>
  The block index is a ring of pointers to entries; an entry gives the block for the index at which the
  block starts. A larger ring takes over the entries, and the old one stays readable, so a pointer to an
  entry is its position among all entries, and a pointer to a ring its position among all rings.
\<close>

record index_entry =
  entry_key :: u64
  entry_value :: "nat option"

record index_header =
  capacity :: u64
  index_tail :: u64
  ring :: "nat list"

datatype 'a enqueue_phase =
    Idle
  | Load_head 'a
  | Load_entry 'a
  | Grow_index 'a
  | Store_key 'a nat u64
  | Store_tail 'a nat u64
  | Requisition 'a nat
  | Take_initial 'a nat
  | Take_free 'a nat
  | Allocate 'a nat
  | Rewind nat
  | Clear_value nat
  | Reset_count 'a nat nat
  | Publish 'a nat nat
  | Construct 'a
  | Store_index 'a

datatype 'a dequeue_phase =
    Not_dequeuing
  | Load_overcommit u64
  | Compare_counts u64 u64
  | Take_ticket u64
  | Recheck u64 u64
  | Claim_index u64 u64
  | Give_back u64 u64
  | Load_index u64
  | Load_index_tail u64 nat
  | Load_key u64 nat u64
  | Load_value u64 nat
  | Move_element u64 nat nat
  | Count_element u64 nat nat 'a
  | Unlink_block u64 nat nat 'a
  | Free_block u64 nat 'a

record 'a producer =
  tail_index :: u64
  head_index :: u64
  dequeue_optimistic_count :: u64
  dequeue_overcommit :: u64
  tail_block :: "nat option"
  next_block_index_capacity :: u64
  block_index :: "nat option"
  headers :: "index_header list"
  entries :: "index_entry list"
  enqueuing :: "'a enqueue_phase"
  dequeuing :: "nat \<Rightarrow> 'a dequeue_phase"

text \<open>
  What a step shows of itself: an element is enqueued when the tail is stored, a consumer has looked at the
  queue when it has loaded the tail, has got an element when it has claimed an index, and returns with the
  element or with the answer that the queue is empty.
\<close>

datatype 'a queue_event =
    Enqueued 'a
  | Enqueue_failed
  | Looked nat
  | Claimed nat
  | Dequeued nat 'a
  | Found_empty nat

section \<open>The block index\<close>

abbreviation INVALID_BLOCK_BASE :: u64 where "INVALID_BLOCK_BASE \<equiv> 1"

definition ring_at :: "index_header \<Rightarrow> u64 \<Rightarrow> nat" where
  "ring_at h i = ring h ! unat i"

text \<open>
  The loop of \<open>new_block_index\<close> over the old ring, from behind its tail round to the tail; \<open>room\<close> is how many
  places the new ring has. \<open>None\<close> is a loop that runs beyond them.
\<close>

fun copy_ring :: "nat \<Rightarrow> index_header \<Rightarrow> u64 \<Rightarrow> nat list option" where
  "copy_ring 0 h prev_pos = None"
| "copy_ring (Suc room) h prev_pos =
     (let pos = (prev_pos + 1) AND (capacity h - 1)
      in if pos = index_tail h then Some [ring_at h pos]
         else map_option ((#) (ring_at h pos)) (copy_ring room h pos))"

definition current_header :: "'a producer \<Rightarrow> index_header option" where
  "current_header P = map_option (\<lambda>h. headers P ! h) (block_index P)"

text \<open>
  \<open>new_block_index\<close>; \<open>answer\<close> says whether the memory could be allocated. \<open>None\<close> is the violated assertion that
  the loop has copied as many entries as the old ring had, or writing beyond the new ring.
\<close>

definition new_block_index :: "bool \<Rightarrow> 'a producer \<Rightarrow> (bool \<times> 'a producer) option" where
  "new_block_index answer P =
     (let next_capacity = next_block_index_capacity P;
          prev = current_header P;
          prev_capacity = (case prev of None \<Rightarrow> 0 | Some h \<Rightarrow> capacity h);
          entry_count = (case prev of None \<Rightarrow> next_capacity | Some h \<Rightarrow> capacity h);
          copied = (case prev of None \<Rightarrow> Some [] | Some h \<Rightarrow> copy_ring (unat next_capacity) h (index_tail h));
          fresh = map (\<lambda>i. length (entries P) + i) [0..<unat entry_count]
      in if \<not> answer then Some (False, P)
         else case copied of
             None \<Rightarrow> None
           | Some old \<Rightarrow>
               if length old \<noteq> unat prev_capacity \<or> unat next_capacity < length old + length fresh then None
               else Some (True, P\<lparr>
                 headers := headers P @ [\<lparr> capacity = next_capacity,
                   index_tail = (prev_capacity - 1) AND (next_capacity - 1), ring = old @ fresh \<rparr>],
                 entries := entries P @ replicate (unat entry_count) \<lparr> entry_key = INVALID_BLOCK_BASE, entry_value = None \<rparr>,
                 block_index := Some (length (headers P)),
                 next_block_index_capacity := push_bit 1 next_capacity \<rparr>))"

text \<open>
  The constructor. The indices start at 0; other starting values stand for a queue that is empty after
  any number of operations.
\<close>

definition implicit_producer :: "bool \<Rightarrow> u64 \<Rightarrow> u64 \<Rightarrow> 'a producer" where
  "implicit_producer answer start failures = snd (the (new_block_index answer
     \<lparr> tail_index = start, head_index = start, dequeue_optimistic_count = start + failures,
       dequeue_overcommit = failures, tail_block = None, next_block_index_capacity = 32, block_index = None,
       headers = [], entries = [], enqueuing = Idle, dequeuing = (\<lambda>_. Not_dequeuing) \<rparr>))"

text \<open>The part of \<open>get_block_index_index_for_index\<close> that computes: the position of the entry for an index.\<close>

definition signed_quotient :: "u64 \<Rightarrow> u64 \<Rightarrow> u64" where
  "signed_quotient a b = word_of_int (sgn (sint a) * sgn (sint b) * (\<bar>sint a\<bar> div \<bar>sint b\<bar>))"

definition index_position :: "index_header \<Rightarrow> u64 \<Rightarrow> u64 \<Rightarrow> u64 \<Rightarrow> u64" where
  "index_position h tail tail_base idx =
     (tail + signed_quotient ((idx AND NOT (BLOCK_SIZE - 1)) - tail_base) BLOCK_SIZE) AND (capacity h - 1)"

text \<open>The number of elements, for the choice of a producer.\<close>

definition size_approx :: "'a producer \<Rightarrow> u64" where
  "size_approx P = (if circular_less_than (head_index P) (tail_index P) then tail_index P - head_index P else 0)"

section \<open>Enqueuing\<close>

definition set_enqueuing :: "'a enqueue_phase \<Rightarrow> 'a producer \<Rightarrow> 'a producer" where
  "set_enqueuing ph P = P\<lparr> enqueuing := ph \<rparr>"

definition call_enqueue :: "'a \<Rightarrow> 'a producer \<Rightarrow> 'a block_pool \<Rightarrow> ('a producer \<times> 'a block_pool, 'a queue_event) step_result" where
  "call_enqueue x P p =
     (if enqueuing P \<noteq> Idle then Disabled
      else if tail_index P AND (BLOCK_SIZE - 1) = 0 then Next (set_enqueuing (Load_head x) P, p) None
      else Next (set_enqueuing (Construct x) P, p) None)"

definition update_header :: "nat \<Rightarrow> u64 \<Rightarrow> 'a producer \<Rightarrow> 'a producer" where
  "update_header h t P = P\<lparr> headers := (headers P)[h := (headers P ! h)\<lparr> index_tail := t \<rparr>] \<rparr>"

definition next_entry :: "index_header \<Rightarrow> u64 \<times> nat" where
  "next_entry h = (let t = (index_tail h + 1) AND (capacity h - 1) in (t, ring_at h t))"

text \<open>The steps of the owner; \<open>answer\<close> is what the allocator or the free list says when it is asked.\<close>

definition enqueue_step :: "nat option \<Rightarrow> 'a producer \<Rightarrow> 'a block_pool \<Rightarrow> ('a producer \<times> 'a block_pool, 'a queue_event) step_result" where
  "enqueue_step answer P p =
     (case enqueuing P of
        Idle \<Rightarrow> Disabled
      | Load_head x \<Rightarrow>
          (let head = head_index P
           in if circular_less_than (tail_index P) head then Fault
              else if \<not> circular_less_than head (tail_index P + BLOCK_SIZE) \<or> block_index P = None
              then Next (set_enqueuing Idle P, p) (Some Enqueue_failed)
              else Next (set_enqueuing (Load_entry x) P, p) None)
      | Load_entry x \<Rightarrow>
          (case current_header P of
             None \<Rightarrow> Fault
           | Some h \<Rightarrow>
               (let (t, e) = next_entry h
                in if entry_key (entries P ! e) = INVALID_BLOCK_BASE \<or> entry_value (entries P ! e) = None
                   then Next (set_enqueuing (Store_key x e t) P, p) None
                   else Next (set_enqueuing (Grow_index x) P, p) None))
      | Grow_index x \<Rightarrow>
          (case new_block_index (answer \<noteq> None) P of
             None \<Rightarrow> Fault
           | Some (False, P1) \<Rightarrow> Next (set_enqueuing Idle P1, p) (Some Enqueue_failed)
           | Some (True, P1) \<Rightarrow>
               (case current_header P1 of
                  None \<Rightarrow> Fault
                | Some h \<Rightarrow>
                    (let (t, e) = next_entry h
                     in if entry_key (entries P1 ! e) \<noteq> INVALID_BLOCK_BASE then Fault
                        else Next (set_enqueuing (Store_key x e t) P1, p) None)))
      | Store_key x e t \<Rightarrow>
          Next (set_enqueuing (Store_tail x e t)
            (P\<lparr> entries := (entries P)[e := (entries P ! e)\<lparr> entry_key := tail_index P \<rparr>] \<rparr>), p) None
      | Store_tail x e t \<Rightarrow>
          (case block_index P of
             None \<Rightarrow> Fault
           | Some h \<Rightarrow> Next (set_enqueuing (Requisition x e) (update_header h t P), p) None)
      | Requisition x e \<Rightarrow>
          if initial_pool_exhausted p then Next (set_enqueuing (Take_free x e) P, p) None
          else Next (set_enqueuing (Take_initial x e) P, p) None
      | Take_initial x e \<Rightarrow>
          (case take_from_initial_pool p of
             (None, p1) \<Rightarrow> Next (set_enqueuing (Take_free x e) P, p1) None
           | (Some b, p1) \<Rightarrow> Next (set_enqueuing (Reset_count x e b) P, p1) None)
      | Take_free x e \<Rightarrow>
          (case try_get_block_from_free_list answer p of
             (None, p1) \<Rightarrow> Next (set_enqueuing (Allocate x e) P, p1) None
           | (Some b, p1) \<Rightarrow> Next (set_enqueuing (Reset_count x e b) P, p1) None)
      | Allocate x e \<Rightarrow>
          (case create_block answer p of
             (None, p1) \<Rightarrow> Next (set_enqueuing (Rewind e) P, p1) None
           | (Some b, p1) \<Rightarrow> Next (set_enqueuing (Reset_count x e b) P, p1) None)
      | Rewind e \<Rightarrow>
          (case block_index P of
             None \<Rightarrow> Fault
           | Some h \<Rightarrow>
               (let hd = headers P ! h
                in Next (set_enqueuing (Clear_value e)
                     (update_header h ((index_tail hd - 1) AND (capacity hd - 1)) P), p) None))
      | Clear_value e \<Rightarrow>
          Next (set_enqueuing Idle (P\<lparr> entries := (entries P)[e := (entries P ! e)\<lparr> entry_value := None \<rparr>] \<rparr>), p) (Some Enqueue_failed)
      | Reset_count x e b \<Rightarrow>
          (case block_at p b of
             None \<Rightarrow> Fault
           | Some blk \<Rightarrow> Next (set_enqueuing (Publish x e b) P, update_block b (reset_empty blk) p) None)
      | Publish x e b \<Rightarrow>
          Next (set_enqueuing (Construct x)
            (P\<lparr> entries := (entries P)[e := (entries P ! e)\<lparr> entry_value := Some b \<rparr>], tail_block := Some b \<rparr>), p) None
      | Construct x \<Rightarrow>
          (case Option.bind (tail_block P) (\<lambda>b. map_option (Pair b) (Option.bind (block_at p b) (construct_at (tail_index P) x))) of
             None \<Rightarrow> Fault
           | Some (b, blk) \<Rightarrow> Next (set_enqueuing (Store_index x) P, update_block b blk p) None)
      | Store_index x \<Rightarrow> Next (set_enqueuing Idle (P\<lparr> tail_index := 1 + tail_index P \<rparr>), p) (Some (Enqueued x)))"

section \<open>Dequeuing\<close>

definition set_dequeuing :: "nat \<Rightarrow> 'a dequeue_phase \<Rightarrow> 'a producer \<Rightarrow> 'a producer" where
  "set_dequeuing c ph P = P\<lparr> dequeuing := (dequeuing P)(c := ph) \<rparr>"

text \<open>The call, with its first load.\<close>

definition call_dequeue :: "nat \<Rightarrow> 'a producer \<Rightarrow> 'a block_pool \<Rightarrow> ('a producer \<times> 'a block_pool, 'a queue_event) step_result" where
  "call_dequeue c P p =
     (if dequeuing P c \<noteq> Not_dequeuing then Disabled
      else Next (set_dequeuing c (Load_overcommit (tail_index P)) P, p) (Some (Looked c)))"

text \<open>The steps of the consumer \<open>c\<close>.\<close>

definition dequeue_step :: "nat \<Rightarrow> 'a producer \<Rightarrow> 'a block_pool \<Rightarrow> ('a producer \<times> 'a block_pool, 'a queue_event) step_result" where
  "dequeue_step c P p =
     (case dequeuing P c of
        Not_dequeuing \<Rightarrow> Disabled
      | Load_overcommit tail \<Rightarrow> Next (set_dequeuing c (Compare_counts tail (dequeue_overcommit P)) P, p) None
      | Compare_counts tail overcommit \<Rightarrow>
          if circular_less_than (dequeue_optimistic_count P - overcommit) tail
          then Next (set_dequeuing c (Take_ticket overcommit) P, p) None
          else Next (set_dequeuing c Not_dequeuing P, p) (Some (Found_empty c))
      | Take_ticket overcommit \<Rightarrow>
          Next (set_dequeuing c (Recheck overcommit (dequeue_optimistic_count P))
            (P\<lparr> dequeue_optimistic_count := dequeue_optimistic_count P + 1 \<rparr>), p) None
      | Recheck overcommit my_dequeue_count \<Rightarrow>
          if circular_less_than (my_dequeue_count - overcommit) (tail_index P)
          then Next (set_dequeuing c (Claim_index overcommit my_dequeue_count) P, p) None
          else Next (set_dequeuing c (Give_back overcommit my_dequeue_count) P, p) None
      | Claim_index overcommit my_dequeue_count \<Rightarrow>
          Next (set_dequeuing c (Load_index (head_index P)) (P\<lparr> head_index := head_index P + 1 \<rparr>), p) (Some (Claimed c))
      | Give_back overcommit my_dequeue_count \<Rightarrow>
          Next (set_dequeuing c Not_dequeuing (P\<lparr> dequeue_overcommit := dequeue_overcommit P + 1 \<rparr>), p) (Some (Found_empty c))
      | Load_index i \<Rightarrow>
          (case block_index P of None \<Rightarrow> Fault | Some h \<Rightarrow> Next (set_dequeuing c (Load_index_tail i h) P, p) None)
      | Load_index_tail i h \<Rightarrow> Next (set_dequeuing c (Load_key i h (index_tail (headers P ! h))) P, p) None
      | Load_key i h tail \<Rightarrow>
          (let hd = headers P ! h;
               tail_base = entry_key (entries P ! ring_at hd tail);
               e = ring_at hd (index_position hd tail tail_base i)
           in if tail_base = INVALID_BLOCK_BASE
                \<or> entry_key (entries P ! e) \<noteq> i AND NOT (BLOCK_SIZE - 1) \<or> entry_value (entries P ! e) = None
              then Fault else Next (set_dequeuing c (Load_value i e) P, p) None)
      | Load_value i e \<Rightarrow>
          (case entry_value (entries P ! e) of
             None \<Rightarrow> Fault | Some b \<Rightarrow> Next (set_dequeuing c (Move_element i e b) P, p) None)
      | Move_element i e b \<Rightarrow>
          (case Option.bind (block_at p b) (move_from i) of
             None \<Rightarrow> Fault
           | Some (x, blk) \<Rightarrow> Next (set_dequeuing c (Count_element i e b x) P, update_block b blk p) None)
      | Count_element i e b x \<Rightarrow>
          (case Option.bind (block_at p b) set_empty of
             None \<Rightarrow> Fault
           | Some (True, blk) \<Rightarrow> Next (set_dequeuing c (Unlink_block i e b x) P, update_block b blk p) None
           | Some (False, blk) \<Rightarrow> Next (set_dequeuing c Not_dequeuing P, update_block b blk p) (Some (Dequeued c x)))
      | Unlink_block i e b x \<Rightarrow>
          Next (set_dequeuing c (Free_block i b x)
            (P\<lparr> entries := (entries P)[e := (entries P ! e)\<lparr> entry_value := None \<rparr>] \<rparr>), p) None
      | Free_block i b x \<Rightarrow>
          (case add_block_to_free_list b p of
             None \<Rightarrow> Fault
           | Some p1 \<Rightarrow> Next (set_dequeuing c Not_dequeuing P, p1) (Some (Dequeued c x))))"

end
