(* ===== verification/Queue_Arith.thy ===== *)
theory Queue_Arith
  imports Queue_Producer
begin

text \<open>
  Indices that wrap around 2^64, counted from the start of a run: \<open>w + of_nat n\<close> is the \<open>n\<close>-th one. As
  long as a run makes fewer than 2^62 of them, the circular comparison, the offset in a block and the
  position in the block index mean what they say of \<open>n\<close>.
\<close>

section \<open>Indices\<close>

lemma of_nat_u64_inj: "m < 2 ^ 64 \<Longrightarrow> n < 2 ^ 64 \<Longrightarrow> (of_nat m :: u64) = of_nat n \<longleftrightarrow> m = n"
  by (simp add: word_of_nat_eq_iff take_bit_nat_eq_self_iff take_bit_nat_eq_self)

lemma unat_of_nat_u64: "n < 2 ^ 64 \<Longrightarrow> unat (of_nat n :: u64) = n"
  by (simp add: unsigned_of_nat take_bit_nat_eq_self)

lemma circular_less_than_iff:
  assumes "m < 2 ^ 62" and "n < 2 ^ 62"
  shows "circular_less_than (w + of_nat m) (w + of_nat n) \<longleftrightarrow> m < n"
proof (cases "m < n")
  case True
  then have "(of_nat m - of_nat n :: u64) = - of_nat (n - m)" by (simp add: of_nat_diff)
  moreover have "unat (- of_nat (n - m) :: u64) = 2 ^ 64 - (n - m)"
  proof -
    have "- of_nat (n - m) = (of_nat (2 ^ 64 - (n - m)) :: u64)" using True assms by (simp add: of_nat_diff)
    moreover have "2 ^ 64 - (n - m) < (2 :: nat) ^ 64" using True by simp
    ultimately show ?thesis by (simp only: unat_of_nat_u64)
  qed
  ultimately show ?thesis using True assms
    by (simp add: circular_less_than_def word_less_nat_alt)
next
  case False
  then have "(of_nat m - of_nat n :: u64) = of_nat (m - n)" by (simp add: of_nat_diff)
  moreover have "unat (of_nat (m - n) :: u64) = m - n" using assms by (simp add: unat_of_nat_u64)
  ultimately show ?thesis using False assms
    by (simp add: circular_less_than_def word_less_nat_alt)
qed

section \<open>Blocks of 32\<close>

lemma unat_and_31: "unat ((x :: u64) AND 31) = unat x mod 32"
  proof -
  have "x AND 31 = take_bit 5 x" by (simp add: take_bit_eq_mask mask_eq_exp_minus_1)
  then show ?thesis by (simp only: unsigned_take_bit_eq) (simp add: take_bit_eq_mod)
qed

lemma unat_plus_of_nat_mod:
  assumes "w AND 31 = (0 :: u64)"
  shows "unat (w + of_nat n) mod 32 = n mod 32"
proof -
  have "unat w mod 32 = 0" using unat_and_31 [of w] assms by simp
  moreover have "unat (w + of_nat n) mod 32 = (unat w + n) mod 2 ^ 64 mod 32"
    by (simp add: unat_word_ariths unsigned_of_nat take_bit_eq_mod mod_simps)
  moreover have "(unat w + n) mod 2 ^ 64 mod 32 = (unat w + n) mod 32" by (simp add: mod_mod_cancel)
  ultimately show ?thesis by (metis add_0 mod_add_left_eq)
qed

lemma and_31_index: "w AND 31 = (0 :: u64) \<Longrightarrow> (w + of_nat n) AND 31 = of_nat (n mod 32)"
  by (rule word_unat_eq_iff [THEN iffD2])
    (simp add: unat_and_31 unat_plus_of_nat_mod unat_of_nat_u64 less_le_trans [OF mod_less_divisor])

lemma block_offset_index: "w AND 31 = 0 \<Longrightarrow> block_offset (w + of_nat n) = n mod 32"
  by (simp add: block_offset_def unat_and_31 unat_plus_of_nat_mod)

lemma block_base_index:
  assumes "w AND 31 = (0 :: u64)"
  shows "(w + of_nat n) AND NOT 31 = w + of_nat (32 * (n div 32))"
proof -
  have "(w + of_nat n) AND NOT 31 = (w + of_nat n) - ((w + of_nat n) AND 31)"
    by (subst disjunctive_diff_eq_and_not) (auto intro: bit_eqI simp: bit_simps)
  also have "\<dots> = w + of_nat (n - n mod 32)" by (simp add: and_31_index assms of_nat_diff)
  finally show ?thesis by (simp add: minus_mod_eq_mult_div)
qed

section \<open>Positions in the block index\<close>

definition ring_back :: "index_header \<Rightarrow> u64 \<Rightarrow> nat \<Rightarrow> nat" where
  "ring_back h t a = ring_at h ((t - of_nat a) AND (capacity h - 1))"

lemma sint_neg_of_nat: "n < 2 ^ 63 \<Longrightarrow> sint (- of_nat n :: u64) = - int n"
proof -
  assume n: "n < 2 ^ 63"
  have "sint (- of_nat n :: u64) = sint (of_int (- int n) :: u64)" by simp
  also have "\<dots> = signed_take_bit 63 (- int n)" by (simp only: signed_of_int) simp
  also have "\<dots> = - int n" using n by (intro signed_take_bit_int_eq_self) simp_all
  finally show ?thesis .
qed

lemma signed_quotient_back:
  assumes "32 * d < 2 ^ 63"
  shows "signed_quotient (- of_nat (32 * d)) 32 = - of_nat d"
  using assms sint_neg_of_nat [of "32 * d"]
  by (cases "d = 0") (simp_all add: signed_quotient_def sgn_if)

lemma index_position_back:
  assumes w: "w AND 31 = 0" and k: "n div 32 < N" and N: "N \<le> 2 ^ 57"
  shows "index_position h t (w + of_nat (32 * (N - 1))) (w + of_nat n) = (t - of_nat (N - 1 - n div 32)) AND (capacity h - 1)"
proof -
  have "(w + of_nat (32 * (n div 32))) - (w + of_nat (32 * (N - 1))) = (- of_nat (32 * (N - 1 - n div 32)) :: u64)"
    using k by (simp add: of_nat_diff algebra_simps)
  moreover have "32 * (N - 1 - n div 32) < 2 ^ 63" using N by simp
  ultimately show ?thesis
    using block_base_index [OF w, of n] signed_quotient_back [of "N - 1 - n div 32"]
    by (simp only: index_position_def flip: diff_conv_add_uminus) (simp del: of_nat_mult)
qed

text \<open>Rings have a power of two of entries.\<close>

definition ring_ok :: "nat \<Rightarrow> index_header \<Rightarrow> bool" where
  "ring_ok n h \<longleftrightarrow>
     (\<exists>j<60. capacity h = 2 ^ j) \<and> length (ring h) = unat (capacity h) \<and> distinct (ring h) \<and>
     set (ring h) \<subseteq> {..<n} \<and> index_tail h AND (capacity h - 1) = index_tail h"

lemma and_capacity: "(x :: u64) AND (2 ^ j - 1) = take_bit j x"
  by (simp add: take_bit_eq_mask mask_eq_exp_minus_1)

lemma capacity_power:
  assumes "j < 64"
  shows "unat (2 ^ j :: u64) = 2 ^ j"
proof -
  have "(2 ^ j :: u64) = of_nat (2 ^ j)" by simp
  moreover have "(2 :: nat) ^ j < 2 ^ 64" by (rule power_strict_increasing [OF assms]) simp
  ultimately show ?thesis by (simp only: unat_of_nat_u64)
qed

lemma unat_and_capacity: "unat ((x :: u64) AND (2 ^ j - 1)) = unat x mod 2 ^ j"
  by (simp only: and_capacity unsigned_take_bit_eq) (simp only: take_bit_eq_mod)

lemma and_capacity_eq_iff:
  assumes "m \<le> n" and "n - m < 2 ^ j" and "j < 64"
    and "((t :: u64) - of_nat m) AND (2 ^ j - 1) = (t - of_nat n) AND (2 ^ j - 1)"
  shows "m = n"
proof -
  let ?d = "n - m"
  have pow: "(2 :: nat) ^ j dvd 2 ^ 64" using assms(3) by (intro le_imp_power_dvd) simp
  have "t - of_nat m = (t - of_nat n) + of_nat ?d" using assms(1) by (simp add: of_nat_diff)
  moreover have "?d < 2 ^ 64" using assms(2) power_strict_increasing [OF assms(3), of "2 :: nat"] by simp
  ultimately have "unat (t - of_nat m) = (unat (t - of_nat n) + ?d) mod 2 ^ 64"
    by (simp only: unat_word_ariths(1)) (simp add: unat_of_nat_u64)
  then have "(unat (t - of_nat n) + ?d) mod 2 ^ 64 mod 2 ^ j = unat (t - of_nat n) mod 2 ^ j"
    using arg_cong [OF assms(4), of unat] by (simp only: unat_and_capacity)
  then have "(unat (t - of_nat n) + ?d) mod 2 ^ j = unat (t - of_nat n) mod 2 ^ j"
    by (simp only: mod_mod_cancel [OF pow])
  then have "2 ^ j dvd ?d" by (simp only: mod_eq_dvd_iff_nat [OF le_add1] add_diff_cancel_left')
  with assms(1,2) show ?thesis using nat_dvd_not_less by auto
qed

end
