(* ===== verification/Queue_Invariant.thy ===== *)
theory Queue_Invariant
  imports Queue_Arith
begin

text \<open>
  The invariant of the lock-free queue of one producer. Auxiliary state, the record \<open>ghost\<close>, counts what
  the words of the program count modulo 2^64 and remembers what they stand for: the elements enqueued so
  far, the fate of every ticket a consumer has drawn, and for every block of 32 indices the entry of the
  block index and the block that serve it.
\<close>

section \<open>Auxiliary state\<close>

text \<open>A ticket is a value of \<open>dequeueOptimisticCount\<close>: its holder is undecided until it has looked at the tail again.\<close>

datatype fate = Undecided | Accepted | Taken | Rejected | Refunded

record 'a ghost =
  origin :: u64
  refunds :: u64
  history :: "'a list"
  fates :: "fate list"
  seen :: "nat list"
  opened :: nat
  keyed :: nat
  published :: nat
  entry_of :: "nat \<Rightarrow> nat"
  home_of :: "nat \<Rightarrow> nat"
  newest :: "nat list"

definition claims :: "'a ghost \<Rightarrow> nat" where
  "claims g = count_list (fates g) Taken"

definition nth_index :: "'a ghost \<Rightarrow> nat \<Rightarrow> u64" where
  "nth_index g n = origin g + of_nat n"

abbreviation enqueued :: "'a ghost \<Rightarrow> nat" where "enqueued g \<equiv> length (history g)"

section \<open>What a consumer holds\<close>

fun ticket_of :: "'a dequeue_phase \<Rightarrow> u64 option" where
  "ticket_of (Recheck ov my) = Some my"
| "ticket_of (Claim_index ov my) = Some my"
| "ticket_of (Give_back ov my) = Some my"
| "ticket_of _ = None"

text \<open>The index a consumer has claimed, until it is done with the block.\<close>

fun index_of :: "'a dequeue_phase \<Rightarrow> u64 option" where
  "index_of (Load_index i) = Some i"
| "index_of (Load_index_tail i h) = Some i"
| "index_of (Load_key i h t) = Some i"
| "index_of (Load_value i e) = Some i"
| "index_of (Move_element i e b) = Some i"
| "index_of (Count_element i e b x) = Some i"
| "index_of (Unlink_block i e b x) = Some i"
| "index_of _ = None"

fun uncounted_index :: "'a dequeue_phase \<Rightarrow> u64 option" where
  "uncounted_index (Unlink_block i e b x) = None"
| "uncounted_index ph = index_of ph"

fun unmoved_index :: "'a dequeue_phase \<Rightarrow> u64 option" where
  "unmoved_index (Unlink_block i e b x) = None"
| "unmoved_index (Count_element i e b x) = None"
| "unmoved_index ph = index_of ph"

definition holds :: "('a dequeue_phase \<Rightarrow> u64 option) \<Rightarrow> (nat \<Rightarrow> 'a dequeue_phase) \<Rightarrow> u64 set" where
  "holds f d = {i. \<exists>c. f (d c) = Some i}"

abbreviation held :: "(nat \<Rightarrow> 'a dequeue_phase) \<Rightarrow> u64 set" where "held \<equiv> holds index_of"
abbreviation uncounted :: "(nat \<Rightarrow> 'a dequeue_phase) \<Rightarrow> u64 set" where "uncounted \<equiv> holds uncounted_index"
abbreviation unmoved :: "(nat \<Rightarrow> 'a dequeue_phase) \<Rightarrow> u64 set" where "unmoved \<equiv> holds unmoved_index"

text \<open>A block of indices is live until the last consumer of one of its elements has unlinked it.\<close>

definition in_use :: "'a ghost \<Rightarrow> u64 set \<Rightarrow> nat \<Rightarrow> bool" where
  "in_use g I k \<longleftrightarrow> (\<exists>n. n div 32 = k \<and> (claims g \<le> n \<or> nth_index g n \<in> I))"

section \<open>The counters\<close>

definition inv_counters :: "'a ghost \<Rightarrow> u64 \<Rightarrow> u64 \<Rightarrow> u64 \<Rightarrow> u64 \<Rightarrow> bool" where
  "inv_counters g tail head optimistic overcommit \<longleftrightarrow>
     origin g AND 31 = 0 \<and>
     tail = nth_index g (enqueued g) \<and> head = nth_index g (claims g) \<and>
     optimistic = nth_index g (length (fates g)) + refunds g \<and>
     overcommit = refunds g + of_nat (count_list (fates g) Refunded) \<and>
     length (seen g) = length (fates g) \<and>
     (\<forall>m < length (fates g). seen g ! m \<le> count_list (take m (fates g)) Refunded) \<and>
     (\<forall>m < length (fates g). fates g ! m \<in> {Accepted, Taken} \<longrightarrow> m < enqueued g + seen g ! m)"

definition has_ticket :: "'a ghost \<Rightarrow> fate \<Rightarrow> u64 \<Rightarrow> u64 \<Rightarrow> bool" where
  "has_ticket g f ov my \<longleftrightarrow>
     (\<exists>m < length (fates g). my = nth_index g m + refunds g \<and> ov = refunds g + of_nat (seen g ! m) \<and> fates g ! m = f)"

definition has_seen :: "'a ghost \<Rightarrow> u64 \<Rightarrow> bool" where
  "has_seen g ov \<longleftrightarrow> (\<exists>n \<le> count_list (fates g) Refunded. ov = refunds g + of_nat n)"

fun ticket_ok :: "'a ghost \<Rightarrow> 'a dequeue_phase \<Rightarrow> bool" where
  "ticket_ok g (Compare_counts t ov) = has_seen g ov"
| "ticket_ok g (Take_ticket ov) = has_seen g ov"
| "ticket_ok g (Recheck ov my) = has_ticket g Undecided ov my"
| "ticket_ok g (Claim_index ov my) = has_ticket g Accepted ov my"
| "ticket_ok g (Give_back ov my) = has_ticket g Rejected ov my"
| "ticket_ok g _ = True"

definition inv_tickets :: "'a ghost \<Rightarrow> (nat \<Rightarrow> 'a dequeue_phase) \<Rightarrow> bool" where
  "inv_tickets g d \<longleftrightarrow>
     (\<forall>c. ticket_ok g (d c)) \<and>
     (\<forall>c c' my. ticket_of (d c) = Some my \<and> ticket_of (d c') = Some my \<longrightarrow> c = c')"

section \<open>The block index\<close>

text \<open>
  Read from position \<open>t\<close> backwards, the ring has the entries of the blocks \<open>N - 1\<close>, \<open>N - 2\<close> down to \<open>k\<close>.
\<close>

definition window :: "(nat \<Rightarrow> nat) \<Rightarrow> index_header \<Rightarrow> u64 \<Rightarrow> nat \<Rightarrow> nat \<Rightarrow> bool" where
  "window ent h t N k \<longleftrightarrow>
     N - 1 - k < unat (capacity h) \<and> (\<forall>k'. k \<le> k' \<and> k' < N \<longrightarrow> ring_back h t (N - 1 - k') = ent k')"

text \<open>The block index before it has been published for the next block, and what each ring is good for.\<close>

definition inv_rings :: "'a ghost \<Rightarrow> (nat \<Rightarrow> bool) \<Rightarrow> index_header list \<Rightarrow> nat option \<Rightarrow> nat \<Rightarrow> u64 \<Rightarrow> bool" where
  "inv_rings g lv hs cur entry_count next_capacity \<longleftrightarrow>
     length (newest g) = length hs \<and>
     (\<forall>h < length hs. ring_ok entry_count (hs ! h)) \<and>
     (\<forall>h < length hs. cur \<noteq> Some h \<longrightarrow> newest g ! h \<le> published g) \<and>
     (\<forall>h < length hs. \<forall>k < newest g ! h. lv k \<longrightarrow> window (entry_of g) (hs ! h) (index_tail (hs ! h)) (newest g ! h) k) \<and>
     (case cur of
        None \<Rightarrow> hs = [] \<and> keyed g = 0 \<and> entry_count = 0
      | Some h \<Rightarrow> h < length hs \<and> newest g ! h = opened g \<and> set (ring (hs ! h)) = {..<entry_count} \<and>
          next_capacity = 2 * capacity (hs ! h) \<and> unat (capacity (hs ! h)) \<le> 2 * enqueued g + 32 \<and>
          (opened g < keyed g \<longrightarrow>
             (\<forall>k < keyed g. lv k \<longrightarrow> window (entry_of g) (hs ! h) (index_tail (hs ! h) + 1) (keyed g) k)))"

definition inv_entries :: "'a ghost \<Rightarrow> (nat \<Rightarrow> bool) \<Rightarrow> index_entry list \<Rightarrow> bool" where
  "inv_entries g lv es \<longleftrightarrow>
     published g \<le> opened g \<and> opened g \<le> keyed g \<and> keyed g \<le> published g + 1 \<and>
     (\<forall>k < keyed g. entry_of g k < length es) \<and>
     (\<forall>k k'. lv k \<and> k \<le> k' \<and> k' < keyed g \<longrightarrow> entry_key (es ! entry_of g k') = nth_index g (32 * k')) \<and>
     (\<forall>k < published g. lv k \<longrightarrow> entry_value (es ! entry_of g k) = Some (home_of g k)) \<and>
     (\<forall>e < length es. entry_value (es ! e) \<noteq> None \<longrightarrow> (\<exists>k < published g. lv k \<and> entry_of g k = e))"

text \<open>The owner of the queue; the next free entry of the ring is the one behind its tail.\<close>

definition settled :: "'a ghost \<Rightarrow> nat option \<Rightarrow> bool" where
  "settled g tb \<longleftrightarrow>
     opened g = published g \<and> published g = (enqueued g + 31) div 32 \<and>
     (enqueued g mod 32 \<noteq> 0 \<longrightarrow> tb = Some (home_of g (enqueued g div 32)))"

definition at_boundary :: "'a ghost \<Rightarrow> bool" where
  "at_boundary g \<longleftrightarrow> opened g = published g \<and> enqueued g = 32 * published g"

definition next_place :: "index_header list \<Rightarrow> nat option \<Rightarrow> nat \<Rightarrow> u64 \<Rightarrow> bool" where
  "next_place hs cur e t \<longleftrightarrow> (\<exists>h. cur = Some h \<and> next_entry (hs ! h) = (t, e))"

definition fits :: "'a ghost \<Rightarrow> (nat \<Rightarrow> bool) \<Rightarrow> index_header list \<Rightarrow> nat option \<Rightarrow> bool" where
  "fits g lv hs cur \<longleftrightarrow> (\<exists>h. cur = Some h \<and> (\<forall>k < opened g. lv k \<longrightarrow> opened g - k < unat (capacity (hs ! h))))"

fun writer_ok :: "'a ghost \<Rightarrow> (nat \<Rightarrow> bool) \<Rightarrow> index_header list \<Rightarrow> nat option \<Rightarrow> nat option \<Rightarrow> 'a enqueue_phase \<Rightarrow> bool" where
  "writer_ok g lv hs cur tb Idle \<longleftrightarrow> settled g tb"
| "writer_ok g lv hs cur tb (Load_head x) \<longleftrightarrow> settled g tb \<and> enqueued g mod 32 = 0"
| "writer_ok g lv hs cur tb (Load_entry x) \<longleftrightarrow> at_boundary g \<and> cur \<noteq> None"
| "writer_ok g lv hs cur tb (Grow_index x) \<longleftrightarrow>
     at_boundary g \<and> keyed g = opened g \<and> (\<exists>h. cur = Some h \<and> unat (capacity (hs ! h)) \<le> opened g)"
| "writer_ok g lv hs cur tb (Store_key x e t) \<longleftrightarrow> at_boundary g \<and> next_place hs cur e t \<and> fits g lv hs cur"
| "writer_ok g lv hs cur tb (Store_tail x e t) \<longleftrightarrow>
     at_boundary g \<and> next_place hs cur e t \<and> keyed g = opened g + 1 \<and> entry_of g (opened g) = e"
| "writer_ok g lv hs cur tb (Requisition x e) \<longleftrightarrow>
     opened g = published g + 1 \<and> enqueued g = 32 * published g \<and> entry_of g (published g) = e \<and> cur \<noteq> None"
| "writer_ok g lv hs cur tb (Take_initial x e) \<longleftrightarrow>
     opened g = published g + 1 \<and> enqueued g = 32 * published g \<and> entry_of g (published g) = e \<and> cur \<noteq> None"
| "writer_ok g lv hs cur tb (Take_free x e) \<longleftrightarrow>
     opened g = published g + 1 \<and> enqueued g = 32 * published g \<and> entry_of g (published g) = e \<and> cur \<noteq> None"
| "writer_ok g lv hs cur tb (Allocate x e) \<longleftrightarrow>
     opened g = published g + 1 \<and> enqueued g = 32 * published g \<and> entry_of g (published g) = e \<and> cur \<noteq> None"
| "writer_ok g lv hs cur tb (Rewind e) \<longleftrightarrow>
     opened g = published g + 1 \<and> enqueued g = 32 * published g \<and> entry_of g (published g) = e \<and> cur \<noteq> None"
| "writer_ok g lv hs cur tb (Clear_value e) \<longleftrightarrow> at_boundary g \<and> keyed g = opened g + 1 \<and> entry_of g (opened g) = e \<and> cur \<noteq> None"
| "writer_ok g lv hs cur tb (Reset_count x e b) \<longleftrightarrow>
     opened g = published g + 1 \<and> enqueued g = 32 * published g \<and> entry_of g (published g) = e \<and> cur \<noteq> None"
| "writer_ok g lv hs cur tb (Publish x e b) \<longleftrightarrow>
     opened g = published g + 1 \<and> enqueued g = 32 * published g \<and> entry_of g (published g) = e \<and> cur \<noteq> None"
| "writer_ok g lv hs cur tb (Construct x) \<longleftrightarrow>
     opened g = published g \<and> published g = enqueued g div 32 + 1 \<and> tb = Some (home_of g (enqueued g div 32))"
| "writer_ok g lv hs cur tb (Store_index x) \<longleftrightarrow>
     opened g = published g \<and> published g = enqueued g div 32 + 1 \<and> tb = Some (home_of g (enqueued g div 32))"

section \<open>The consumers\<close>

definition claimed :: "'a ghost \<Rightarrow> u64 \<Rightarrow> nat \<Rightarrow> bool" where
  "claimed g i n \<longleftrightarrow> n < claims g \<and> i = nth_index g n"

fun reader_ok :: "'a ghost \<Rightarrow> index_header list \<Rightarrow> 'a dequeue_phase \<Rightarrow> bool" where
  "reader_ok g hs (Load_index i) \<longleftrightarrow> (\<exists>n. claimed g i n)"
| "reader_ok g hs (Load_index_tail i h) \<longleftrightarrow> (\<exists>n. claimed g i n \<and> h < length hs \<and> n div 32 < newest g ! h)"
| "reader_ok g hs (Load_key i h t) \<longleftrightarrow>
     (\<exists>n N. claimed g i n \<and> h < length hs \<and> n div 32 < N \<and> N \<le> keyed g \<and> t AND (capacity (hs ! h) - 1) = t \<and>
       window (entry_of g) (hs ! h) t N (n div 32))"
| "reader_ok g hs (Load_value i e) \<longleftrightarrow> (\<exists>n. claimed g i n \<and> e = entry_of g (n div 32))"
| "reader_ok g hs (Move_element i e b) \<longleftrightarrow> (\<exists>n. claimed g i n \<and> e = entry_of g (n div 32) \<and> b = home_of g (n div 32))"
| "reader_ok g hs (Count_element i e b x) \<longleftrightarrow>
     (\<exists>n. claimed g i n \<and> e = entry_of g (n div 32) \<and> b = home_of g (n div 32) \<and> x = history g ! n)"
| "reader_ok g hs (Unlink_block i e b x) \<longleftrightarrow>
     (\<exists>n. claimed g i n \<and> e = entry_of g (n div 32) \<and> b = home_of g (n div 32) \<and> x = history g ! n \<and>
       32 * (n div 32) + 32 \<le> claims g)"
| "reader_ok g hs (Free_block i b x) \<longleftrightarrow> (\<exists>n. claimed g i n \<and> x = history g ! n)"
| "reader_ok g hs _ \<longleftrightarrow> True"

text \<open>No two consumers hold the same index, and who unlinks a block is the last one in it.\<close>

definition inv_readers :: "'a ghost \<Rightarrow> index_header list \<Rightarrow> (nat \<Rightarrow> 'a dequeue_phase) \<Rightarrow> bool" where
  "inv_readers g hs d \<longleftrightarrow>
     (\<forall>c. reader_ok g hs (d c)) \<and>
     (\<forall>c c' i. index_of (d c) = Some i \<and> index_of (d c') = Some i \<longrightarrow> c = c') \<and>
     (\<forall>c c' i e b x n i' n'. d c = Unlink_block i e b x \<and> claimed g i n \<and> index_of (d c') = Some i' \<and> claimed g i' n' \<and>
        n' div 32 = n div 32 \<longrightarrow> c = c')"

section \<open>The blocks\<close>

text \<open>What is in the place of the \<open>n\<close>-th element: it is there from its construction until it is moved out.\<close>

definition content :: "'a ghost \<Rightarrow> u64 set \<Rightarrow> 'a enqueue_phase \<Rightarrow> nat \<Rightarrow> 'a option" where
  "content g U ph n =
     (if n < claims g then if nth_index g n \<in> U then Some (history g ! n) else None
      else if n < enqueued g then Some (history g ! n)
      else case ph of Store_index x \<Rightarrow> if n = enqueued g then Some x else None | _ \<Rightarrow> None)"

definition block_ok :: "'a ghost \<Rightarrow> u64 set \<Rightarrow> u64 set \<Rightarrow> 'a enqueue_phase \<Rightarrow> nat \<Rightarrow> 'a block \<Rightarrow> bool" where
  "block_ok g U C ph k b \<longleftrightarrow>
     length (elements b) = 32 \<and>
     unat (completely_dequeued b) = card {n. n div 32 = k \<and> n < claims g \<and> nth_index g n \<notin> C} \<and>
     (\<forall>n. n div 32 = k \<longrightarrow> elements b ! (n mod 32) = content g U ph n)"

definition inv_blocks :: "'a ghost \<Rightarrow> (nat \<Rightarrow> bool) \<Rightarrow> u64 set \<Rightarrow> u64 set \<Rightarrow> 'a enqueue_phase \<Rightarrow> 'a block_pool \<Rightarrow> bool" where
  "inv_blocks g lv U C ph p \<longleftrightarrow>
     (\<forall>k < published g. lv k \<longrightarrow> (\<exists>b. block_at p (home_of g k) = Some b \<and> block_ok g U C ph k b))"

text \<open>What a block is used for: it serves a block of indices, or the owner has got it and not published it yet, or a
  consumer has unlinked it and not freed it yet.\<close>

datatype usage = Home nat | Fresh | Leaving nat

fun uses :: "'a ghost \<Rightarrow> (nat \<Rightarrow> bool) \<Rightarrow> 'a enqueue_phase \<Rightarrow> (nat \<Rightarrow> 'a dequeue_phase) \<Rightarrow> usage \<Rightarrow> nat \<Rightarrow> bool" where
  "uses g lv ph d (Home k) b \<longleftrightarrow> k < published g \<and> lv k \<and> b = home_of g k"
| "uses g lv ph d Fresh b \<longleftrightarrow> (\<exists>x e. ph = Reset_count x e b \<or> ph = Publish x e b)"
| "uses g lv ph d (Leaving c) b \<longleftrightarrow> (\<exists>i x. d c = Free_block i b x)"

definition raw :: "'a block \<Rightarrow> bool" where
  "raw b \<longleftrightarrow> elements b = replicate 32 None"

text \<open>The blocks that are free: those on the free list and what is left of the initial pool.\<close>

definition spare :: "'a block_pool \<Rightarrow> nat set" where
  "spare p = set (free_list p) \<union> {unat (pool_index p)..<unat (pool_size p)}"

definition pool_ok :: "nat \<Rightarrow> 'a block_pool \<Rightarrow> bool" where
  "pool_ok N p \<longleftrightarrow>
     distinct (free_list p) \<and> unat (pool_index p) \<le> N \<and>
     set (free_list p) \<inter> {unat (pool_index p)..<unat (pool_size p)} = {} \<and>
     (\<forall>b \<in> spare p. \<exists>blk. block_at p b = Some blk \<and> raw blk)"

lemma pool_ok_mono [simp]: "pool_ok N p \<Longrightarrow> pool_ok (Suc N) p"
  by (simp add: pool_ok_def)

text \<open>What is known of a block by its use.\<close>

definition fit_for :: "'a enqueue_phase \<Rightarrow> usage \<Rightarrow> 'a block \<Rightarrow> bool" where
  "fit_for ph u b \<longleftrightarrow>
     (case u of
        Home k \<Rightarrow> True
      | Fresh \<Rightarrow> raw b \<and> ((\<exists>x e b. ph = Publish x e b) \<longrightarrow> completely_dequeued b = 0)
      | Leaving c \<Rightarrow> raw b)"

definition inv_usage :: "'a ghost \<Rightarrow> (nat \<Rightarrow> bool) \<Rightarrow> 'a enqueue_phase \<Rightarrow> (nat \<Rightarrow> 'a dequeue_phase) \<Rightarrow> 'a block_pool \<Rightarrow> bool" where
  "inv_usage g lv ph d p \<longleftrightarrow>
     (\<forall>u u' b. uses g lv ph d u b \<and> uses g lv ph d u' b \<longrightarrow> u = u') \<and>
     (\<forall>u b. uses g lv ph d u b \<longrightarrow> b \<notin> spare p \<and> (\<exists>blk. block_at p b = Some blk \<and> fit_for ph u blk))"

section \<open>The invariant\<close>

abbreviation alive :: "'a ghost \<Rightarrow> 'a producer \<Rightarrow> nat \<Rightarrow> bool" where
  "alive g P \<equiv> in_use g (held (dequeuing P))"

definition counter_inv :: "nat \<Rightarrow> 'a ghost \<Rightarrow> 'a producer \<Rightarrow> bool" where
  "counter_inv N g P \<longleftrightarrow>
     enqueued g \<le> N \<and> length (fates g) \<le> N \<and> N < 2 ^ 56 \<and>
     inv_counters g (tail_index P) (head_index P) (dequeue_optimistic_count P) (dequeue_overcommit P) \<and>
     inv_tickets g (dequeuing P)"

definition structure_inv :: "'a ghost \<Rightarrow> 'a producer \<Rightarrow> 'a block_pool \<Rightarrow> bool" where
  "structure_inv g P p \<longleftrightarrow>
     inv_rings g (alive g P) (headers P) (block_index P) (length (entries P)) (next_block_index_capacity P) \<and>
     inv_entries g (alive g P) (entries P) \<and>
     writer_ok g (alive g P) (headers P) (block_index P) (tail_block P) (enqueuing P) \<and>
     inv_readers g (headers P) (dequeuing P) \<and>
     inv_blocks g (alive g P) (unmoved (dequeuing P)) (uncounted (dequeuing P)) (enqueuing P) p \<and>
     inv_usage g (alive g P) (enqueuing P) (dequeuing P) p"

definition producer_inv :: "nat \<Rightarrow> 'a ghost \<Rightarrow> 'a producer \<Rightarrow> 'a block_pool \<Rightarrow> bool" where
  "producer_inv N g P p \<longleftrightarrow> counter_inv N g P \<and> structure_inv g P p"

section \<open>Consequences\<close>

lemma nth_index_eq_iff: "m < 2 ^ 64 \<Longrightarrow> n < 2 ^ 64 \<Longrightarrow> nth_index g m = nth_index g n \<longleftrightarrow> m = n"
  by (simp add: nth_index_def of_nat_u64_inj)

lemma count_take_mono: "m \<le> n \<Longrightarrow> count_list (take m xs) x \<le> count_list (take n xs) x"
  by (metis count_list_append le_add1 le_add_diff_inverse take_add)

lemma claims_card: "claims g = card {m. m < length (fates g) \<and> fates g ! m = Taken}"
  by (simp add: claims_def count_list_eq_length_filter length_filter_conv_card eq_commute)

lemma count_refunded_card:
  "m \<le> length xs \<Longrightarrow> count_list (take m xs) x = card {j. j < m \<and> xs ! j = x}"
  by (auto simp: count_list_eq_length_filter length_filter_conv_card intro!: arg_cong [where f = card])

text \<open>
  The reason why a claimed index is never beyond the tail: of the tickets up to the highest accepted one,
  those that were given back before it was drawn are more than its holder had seen.
\<close>

lemma accepted_card:
  assumes "inv_counters g ti hi oc ov"
  shows "card {m. m < length (fates g) \<and> fates g ! m \<in> {Accepted, Taken}} \<le> enqueued g"
proof -
  let ?A = "{m. m < length (fates g) \<and> fates g ! m \<in> {Accepted, Taken}}"
  show ?thesis
  proof (cases "?A = {}")
    case False
    have fin: "finite ?A" by simp
    let ?m = "Max ?A"
    let ?R = "{j. j < ?m \<and> fates g ! j = Refunded}"
    have m: "?m \<in> ?A" using Max_in [OF fin False] .
    have "?A \<subseteq> {..?m} - ?R" using Max_ge [OF fin] by auto
    then have "card ?A \<le> card ({..?m} - ?R)" by (intro card_mono) auto
    also have "\<dots> = Suc ?m - card ?R" by (subst card_Diff_subset) auto
    finally have "card ?A \<le> Suc ?m - card ?R" .
    moreover have "seen g ! ?m \<le> count_list (take ?m (fates g)) Refunded" and "?m < enqueued g + seen g ! ?m"
      using assms m by (auto simp: inv_counters_def)
    moreover have "count_list (take ?m (fates g)) Refunded = card ?R"
      using m by (intro count_refunded_card) auto
    ultimately show ?thesis by linarith
  next
    case True
    show ?thesis by (simp only: True card.empty le0)
  qed
qed

lemma claims_le: "inv_counters g ti hi oc ov \<Longrightarrow> claims g \<le> enqueued g"
  by (rule order_trans [OF _ accepted_card]) (auto simp: claims_card intro!: card_mono)

lemma claims_less:
  assumes "inv_counters g ti hi oc ov" and "m < length (fates g)" and "fates g ! m = Accepted"
  shows "claims g < enqueued g"
proof -
  let ?A = "{j. j < length (fates g) \<and> fates g ! j \<in> {Accepted, Taken}}"
  have fin: "finite ?A" by simp
  have "{j. j < length (fates g) \<and> fates g ! j = Taken} \<subseteq> ?A - {m}" using assms(2,3) by auto
  with fin have "claims g \<le> card (?A - {m})" unfolding claims_card by (intro card_mono) auto
  also have "\<dots> < card ?A" using assms(2,3) fin by (intro card_Diff1_less) auto
  also have "\<dots> \<le> enqueued g" by (rule accepted_card [OF assms(1)])
  finally show ?thesis .
qed

lemma claims_le_fates: "claims g \<le> length (fates g)"
  by (simp add: claims_def count_le_length)

subsection \<open>Sets of indices that consumers hold\<close>

lemma holds_same: "f ph = f (d c) \<Longrightarrow> holds f (d(c := ph)) = holds f d"
  unfolding holds_def by (rule Collect_cong) (metis fun_upd_apply)

lemma holds_new: "f (d c) = None \<Longrightarrow> f ph = Some i \<Longrightarrow> holds f (d(c := ph)) = insert i (holds f d)"
  unfolding holds_def insert_Collect by (rule Collect_cong) (metis fun_upd_apply option.inject option.discI)

lemma holds_gone:
  assumes "f (d c) = Some i" and "f ph = None" and "\<And>c'. f (d c') = Some i \<Longrightarrow> c' = c"
  shows "holds f (d(c := ph)) = holds f d - {i}"
proof -
  have "(\<exists>c'. f ((d(c := ph)) c') = Some j) \<longleftrightarrow> (\<exists>c'. f (d c') = Some j) \<and> j \<noteq> i" for j
    using assms by (metis fun_upd_apply option.inject option.discI)
  then show ?thesis by (auto simp: holds_def)
qed

lemma uncounted_index_Some: "uncounted_index ph = Some i \<Longrightarrow> index_of ph = Some i"
  by (cases ph) auto

lemma unmoved_index_Some: "unmoved_index ph = Some i \<Longrightarrow> uncounted_index ph = Some i"
  by (cases ph) auto

lemma index_claimed: "reader_ok g hs ph \<Longrightarrow> index_of ph = Some i \<Longrightarrow> \<exists>n. claimed g i n"
  by (cases ph) auto

lemma held_claimed: "inv_readers g hs d \<Longrightarrow> i \<in> held d \<Longrightarrow> \<exists>n. claimed g i n"
  by (auto simp: holds_def inv_readers_def dest: index_claimed)

end
