(* ===== verification/Queue_Consumer.thy ===== *)
theory Queue_Consumer
  imports Queue_Invariant
begin

text \<open>
  Every step of a consumer keeps the invariant. Most steps change nothing but the phase of the consumer;
  drawing a ticket, deciding it and claiming an index change the auxiliary state; moving an element out,
  counting it and unlinking the block change the structure.
\<close>

section \<open>What a step may do to the blocks\<close>

text \<open>
  The blocks a producer uses; a step takes new ones from the spare ones or the allocator only, gives them
  back to the spare ones, and leaves all other blocks as they are.
\<close>

definition owned :: "'a ghost \<Rightarrow> 'a producer \<Rightarrow> nat set" where
  "owned g P = {b. \<exists>u. uses g (alive g P) (enqueuing P) (dequeuing P) u b}"

definition frame :: "'a ghost \<Rightarrow> 'a producer \<Rightarrow> 'a block_pool \<Rightarrow> 'a ghost \<Rightarrow> 'a producer \<Rightarrow> 'a block_pool \<Rightarrow> bool" where
  "frame g P p g' P' p' \<longleftrightarrow>
     (\<forall>b. b \<notin> owned g P \<and> b \<notin> spare p \<and> block_at p b \<noteq> None \<longrightarrow> block_at p' b = block_at p b) \<and>
     owned g' P' \<subseteq> owned g P \<union> spare p \<union> {b. block_at p b = None} \<and>
     spare p' \<subseteq> spare p \<union> owned g P"

lemma frame_same: "owned g' P' \<subseteq> owned g P \<Longrightarrow> frame g P p g' P' p"
  by (auto simp: frame_def)

section \<open>What a step has to do\<close>

text \<open>
  The abstract queue: the elements between head and tail, and for each consumer the element it has taken and
  not returned yet. An element is taken at the moment its index is claimed.
\<close>

type_synonym 'a stream = "'a list \<times> (nat \<Rightarrow> 'a option)"

fun stream_event :: "'a queue_event option \<Rightarrow> 'a stream \<Rightarrow> 'a stream option" where
  "stream_event (Some (Enqueued x)) (xs, taken) = Some (xs @ [x], taken)"
| "stream_event (Some (Claimed c)) (xs, taken) =
     (case xs of x # ys \<Rightarrow> if taken c = None then Some (ys, taken(c \<mapsto> x)) else None | [] \<Rightarrow> None)"
| "stream_event (Some (Dequeued c x)) (xs, taken) = (if taken c = Some x then Some (xs, taken(c := None)) else None)"
| "stream_event _ (xs, taken) = Some (xs, taken)"

fun claim_of :: "'a dequeue_phase \<Rightarrow> u64 option" where
  "claim_of (Free_block i b x) = Some i"
| "claim_of ph = index_of ph"

definition taken_by :: "'a ghost \<Rightarrow> 'a dequeue_phase \<Rightarrow> 'a option" where
  "taken_by g ph = map_option (\<lambda>i. history g ! unat (i - origin g)) (claim_of ph)"

definition stream_of :: "'a ghost \<Rightarrow> (nat \<Rightarrow> 'a dequeue_phase) \<Rightarrow> 'a stream" where
  "stream_of g d = (drop (claims g) (history g), \<lambda>c. taken_by g (d c))"

definition leads_to :: "nat \<Rightarrow> 'a ghost \<Rightarrow> 'a producer \<Rightarrow> 'a block_pool \<Rightarrow> 'a queue_event option \<Rightarrow> 'a ghost \<Rightarrow> 'a producer \<Rightarrow> 'a block_pool \<Rightarrow> bool" where
  "leads_to N g P p e g' P' p' \<longleftrightarrow>
     producer_inv (N + 1) g' P' p' \<and> pool_ok (N + 1) p' \<and> frame g P p g' P' p' \<and>
     stream_event e (stream_of g (dequeuing P)) = Some (stream_of g' (dequeuing P'))"

definition step_ok :: "nat \<Rightarrow> 'a ghost \<Rightarrow> 'a producer \<Rightarrow> 'a block_pool \<Rightarrow> ('a producer \<times> 'a block_pool, 'a queue_event) step_result \<Rightarrow> bool" where
  "step_ok N g P p r \<longleftrightarrow>
     (case r of Disabled \<Rightarrow> True | Fault \<Rightarrow> False | Next (P', p') e \<Rightarrow> \<exists>g'. leads_to N g P p e g' P' p')"

lemma step_ok_simps [simp]:
  "step_ok N g P p Disabled" "\<not> step_ok N g P p Fault"
  "step_ok N g P p (Next (P', p') e) \<longleftrightarrow> (\<exists>g'. leads_to N g P p e g' P' p')"
  by (simp_all add: step_ok_def)

section \<open>Steps that change the phase only\<close>

lemma set_dequeuing_simps [simp]:
  "tail_index (set_dequeuing c ph P) = tail_index P" "head_index (set_dequeuing c ph P) = head_index P"
  "dequeue_optimistic_count (set_dequeuing c ph P) = dequeue_optimistic_count P"
  "dequeue_overcommit (set_dequeuing c ph P) = dequeue_overcommit P"
  "tail_block (set_dequeuing c ph P) = tail_block P" "next_block_index_capacity (set_dequeuing c ph P) = next_block_index_capacity P"
  "block_index (set_dequeuing c ph P) = block_index P" "headers (set_dequeuing c ph P) = headers P"
  "entries (set_dequeuing c ph P) = entries P" "enqueuing (set_dequeuing c ph P) = enqueuing P"
  "dequeuing (set_dequeuing c ph P) = (dequeuing P)(c := ph)"
  by (simp_all add: set_dequeuing_def)

text \<open>A phase that holds the same.\<close>

definition like_phase :: "'a dequeue_phase \<Rightarrow> 'a dequeue_phase \<Rightarrow> bool" where
  "like_phase ph ph' \<longleftrightarrow>
     index_of ph' = index_of ph \<and> uncounted_index ph' = uncounted_index ph \<and> unmoved_index ph' = unmoved_index ph \<and>
     (\<forall>i b x. ph \<noteq> Free_block i b x \<and> ph' \<noteq> Free_block i b x) \<and>
     (\<forall>i e b x. ph \<noteq> Unlink_block i e b x \<and> ph' \<noteq> Unlink_block i e b x)"

lemma like_phase_holds:
  "like_phase (d c) ph \<Longrightarrow> held (d(c := ph)) = held d \<and> uncounted (d(c := ph)) = uncounted d \<and> unmoved (d(c := ph)) = unmoved d"
  by (simp add: like_phase_def holds_same)

lemma uses_like:
  assumes "like_phase (d c) ph"
  shows "uses g lv eq (d(c := ph)) u b = uses g lv eq d u b"
  using assms by (cases u) (auto simp: like_phase_def)

lemma inv_readers_upd:
  assumes "inv_readers g hs d" and "reader_ok g hs ph" and "index_of ph = index_of (d c) \<or> index_of ph = None"
    and "\<And>i e b x. ph \<noteq> Unlink_block i e b x"
  shows "inv_readers g hs (d(c := ph))"
proof -
  have idx: "index_of ((d(c := ph)) a) = Some i \<Longrightarrow> index_of (d a) = Some i" for a i
    using assms(3) by (auto split: if_splits)
  have un: "(d(c := ph)) a = Unlink_block i e b x \<Longrightarrow> d a = Unlink_block i e b x" for a i e b x
    using assms(4) by (auto split: if_splits)
  from assms(1,2) show ?thesis
    unfolding inv_readers_def by (intro conjI) (simp, blast dest: idx, meson idx un)
qed

lemma structure_quiet:
  assumes "structure_inv g P p" and "like_phase (dequeuing P c) ph" and "reader_ok g (headers P) ph"
  shows "structure_inv g (set_dequeuing c ph P) p"
  using assms like_phase_holds [where d = "dequeuing P", OF assms(2)]
  by (auto simp: structure_inv_def inv_usage_def uses_like like_phase_def intro!: inv_readers_upd)

lemma owned_quiet:
  assumes "like_phase (dequeuing P c) ph"
  shows "owned g (set_dequeuing c ph P) = owned g P"
  using like_phase_holds [where d = "dequeuing P", OF assms] by (simp add: owned_def uses_like [where d = "dequeuing P", OF assms])

lemma inv_tickets_upd:
  assumes "inv_tickets g d" and "ticket_ok g ph" and "ticket_of ph = ticket_of (d c) \<or> ticket_of ph = None"
  shows "inv_tickets g (d(c := ph))"
proof -
  have tk: "ticket_of ((d(c := ph)) a) = Some i \<Longrightarrow> ticket_of (d a) = Some i" for a i
    using assms(3) by (auto split: if_splits)
  have uq: "a = a'" if "ticket_of ((d(c := ph)) a) = Some i" "ticket_of ((d(c := ph)) a') = Some i" for a a' i
    using assms(1) tk [OF that(1)] tk [OF that(2)] unfolding inv_tickets_def by blast
  have "\<forall>a. ticket_ok g ((d(c := ph)) a)" using assms(1,2) by (simp add: inv_tickets_def)
  with uq show ?thesis unfolding inv_tickets_def by blast
qed

lemma counter_quiet:
  assumes "counter_inv N g P" and "ticket_ok g ph" and "ticket_of ph = ticket_of (dequeuing P c) \<or> ticket_of ph = None"
  shows "counter_inv N g (set_dequeuing c ph P)"
  using assms by (simp add: counter_inv_def inv_tickets_upd)

lemma counter_inv_mono: "counter_inv N g P \<Longrightarrow> N + 1 < 2 ^ 56 \<Longrightarrow> counter_inv (N + 1) g P"
  by (simp add: counter_inv_def)

lemma taken_by_like: "like_phase ph ph' \<Longrightarrow> taken_by g ph' = taken_by g ph"
  by (cases ph; cases ph') (auto simp: taken_by_def like_phase_def)

lemma stream_of_upd: "taken_by g ph = taken_by g (d c) \<Longrightarrow> stream_of g (d(c := ph)) = stream_of g d"
  by (auto simp: stream_of_def)

lemma quiet_step:
  assumes inv: "producer_inv N g P p" "N + 1 < 2 ^ 56" "pool_ok N p"
    and ph: "like_phase (dequeuing P c) ph" "reader_ok g (headers P) ph" "ticket_ok g ph"
      "ticket_of ph = ticket_of (dequeuing P c) \<or> ticket_of ph = None"
    and e: "e = None \<or> (\<exists>c. e = Some (Found_empty c)) \<or> (\<exists>c. e = Some (Looked c)) \<or> e = Some Enqueue_failed"
  shows "step_ok N g P p (Next (set_dequeuing c ph P, p) e)"
proof -
  have "producer_inv (N + 1) g (set_dequeuing c ph P) p"
    using inv ph counter_inv_mono [of N g "set_dequeuing c ph P"] by (simp add: producer_inv_def structure_quiet counter_quiet)
  moreover have "stream_of g (dequeuing (set_dequeuing c ph P)) = stream_of g (dequeuing P)"
    using stream_of_upd [of g ph "dequeuing P" c] taken_by_like [OF ph(1)] by simp
  ultimately show ?thesis
    using inv e ph(1) by (auto simp: leads_to_def frame_same owned_quiet stream_of_def)
qed

section \<open>Tickets\<close>

lemma fates_rings [simp]: "inv_rings (g\<lparr>fates := F, seen := S\<rparr>) lv hs cur n cap = inv_rings g lv hs cur n cap"
  by (simp add: inv_rings_def cong: option.case_cong)

lemma fates_entries [simp]: "inv_entries (g\<lparr>fates := F, seen := S\<rparr>) lv es = inv_entries g lv es"
  by (simp add: inv_entries_def nth_index_def)

lemma fates_writer [simp]: "writer_ok (g\<lparr>fates := F, seen := S\<rparr>) lv hs cur tb ph = writer_ok g lv hs cur tb ph"
  by (cases ph) (simp_all add: settled_def at_boundary_def fits_def)

lemma fates_uses [simp]: "uses (g\<lparr>fates := F, seen := S\<rparr>) lv ph d u b = uses g lv ph d u b"
  by (cases u) simp_all

lemma fates_usage [simp]: "inv_usage (g\<lparr>fates := F, seen := S\<rparr>) lv ph d p = inv_usage g lv ph d p"
  by (simp add: inv_usage_def)

lemma fates_irrelevant:
  assumes "claims (g\<lparr>fates := F, seen := S\<rparr>) = claims g"
  shows "structure_inv (g\<lparr>fates := F, seen := S\<rparr>) P p = structure_inv g P p"
    and "owned (g\<lparr>fates := F, seen := S\<rparr>) P = owned g P"
proof -
  let ?g = "g\<lparr>fates := F, seen := S\<rparr>"
  have l: "in_use ?g I = in_use g I" for I using assms by (simp add: in_use_def nth_index_def fun_eq_iff)
  have cl: "claimed ?g = claimed g" using assms by (simp add: claimed_def nth_index_def fun_eq_iff)
  have r: "reader_ok ?g hs ph = reader_ok g hs ph" for hs ph by (cases ph) (simp_all add: cl assms)
  have c: "content ?g = content g" using assms by (simp add: content_def nth_index_def fun_eq_iff cong: enqueue_phase.case_cong)
  have b: "block_ok ?g = block_ok g" using assms by (simp add: block_ok_def c nth_index_def fun_eq_iff)
  have "inv_readers ?g hs d = inv_readers g hs d" for hs d by (simp add: inv_readers_def r cl)
  moreover have "inv_blocks ?g lv U C ph p = inv_blocks g lv U C ph p" for lv U C ph by (simp add: inv_blocks_def b)
  ultimately show "structure_inv ?g P p = structure_inv g P p"
    by (simp only: structure_inv_def l fates_rings fates_entries fates_writer fates_usage)
  show "owned ?g P = owned g P" by (simp add: owned_def l)
qed

lemma count_update:
  "m < length xs \<Longrightarrow> xs ! m \<noteq> x \<Longrightarrow>
   count_list (take j (xs[m := y])) x = count_list (take j xs) x + (if y = x \<and> m < j then 1 else 0)"
proof (induction xs arbitrary: m j)
  case (Cons z zs)
  then show ?case by (cases m; cases j) auto
qed simp

lemma count_update_all:
  "m < length xs \<Longrightarrow> xs ! m \<noteq> x \<Longrightarrow> count_list (xs[m := y]) x = count_list xs x + (if y = x then 1 else 0)"
  using count_update [of m xs x "length xs" y] by simp

lemma has_ticket_unique:
  assumes "has_ticket g f ov my" and "length (fates g) < 2 ^ 62"
  obtains m where "m < length (fates g)" "my = nth_index g m + refunds g" "ov = refunds g + of_nat (seen g ! m)" "fates g ! m = f"
    "\<And>m'. m' < length (fates g) \<Longrightarrow> my = nth_index g m' + refunds g \<Longrightarrow> m' = m"
proof -
  obtain m where m: "m < length (fates g)" "my = nth_index g m + refunds g" "ov = refunds g + of_nat (seen g ! m)" "fates g ! m = f"
    using assms(1) by (auto simp: has_ticket_def)
  moreover have "m' = m" if "m' < length (fates g)" "my = nth_index g m' + refunds g" for m'
    using that m assms(2) by (simp add: nth_index_eq_iff)
  ultimately show thesis by (rule that)
qed

lemma ticket_phase: "ticket_of ph = Some my \<Longrightarrow> ticket_ok g ph \<Longrightarrow> \<exists>f ov. has_ticket g f ov my"
  by (cases ph) auto

text \<open>Deciding a ticket: the other tickets keep their fates.\<close>

definition decide :: "nat \<Rightarrow> fate \<Rightarrow> 'a ghost \<Rightarrow> 'a ghost" where
  "decide m f g = g\<lparr> fates := (fates g)[m := f], seen := seen g \<rparr>"

lemma ticket_ok_decide:
  assumes "ticket_ok g ph" and "m < length (fates g)" and "fates g ! m \<noteq> Refunded" and "length (fates g) < 2 ^ 62"
    and "ticket_of ph \<noteq> Some (nth_index g m + refunds g)"
  shows "ticket_ok (decide m f g) ph"
proof -
  have s: "has_seen g ov \<Longrightarrow> has_seen (decide m f g) ov" for ov
  proof -
    have "count_list (fates g) Refunded \<le> count_list (fates (decide m f g)) Refunded"
      using count_update_all [OF assms(2,3), of f] by (simp add: decide_def)
    then show "has_seen g ov \<Longrightarrow> has_seen (decide m f g) ov"
      by (auto simp: has_seen_def decide_def intro: order_trans)
  qed
  have t: "has_ticket g f' ov my \<Longrightarrow> my \<noteq> nth_index g m + refunds g \<Longrightarrow> has_ticket (decide m f g) f' ov my" for f' ov my
  proof -
    assume "has_ticket g f' ov my" and my: "my \<noteq> nth_index g m + refunds g"
    then obtain j where j: "j < length (fates g)" "my = nth_index g j + refunds g" "ov = refunds g + of_nat (seen g ! j)" "fates g ! j = f'"
      by (auto simp: has_ticket_def)
    with my have "j \<noteq> m" by auto
    with j show "has_ticket (decide m f g) f' ov my"
      unfolding has_ticket_def by (intro exI [of _ j]) (simp add: decide_def nth_index_def)
  qed
  show ?thesis using assms(1,5) by (cases ph) (auto intro: s t)
qed

lemma inv_tickets_decide:
  assumes "inv_tickets g d" and "ticket_of (d c) = Some (nth_index g m + refunds g)"
    and "m < length (fates g)" and "fates g ! m \<noteq> Refunded" and "length (fates g) < 2 ^ 62"
    and "ticket_ok (decide m f g) ph" and "ticket_of ph = ticket_of (d c) \<or> ticket_of ph = None"
  shows "inv_tickets (decide m f g) (d(c := ph))"
proof -
  have "ticket_ok (decide m f g) ((d(c := ph)) a)" for a
  proof (cases "a = c")
    case False
    then have "ticket_of (d a) \<noteq> Some (nth_index g m + refunds g)" using assms(1,2) by (auto simp: inv_tickets_def)
    with False show ?thesis using assms(1,3,4,5) by (simp add: inv_tickets_def ticket_ok_decide)
  qed (simp add: assms(6))
  moreover have tk: "ticket_of ((d(c := ph)) a) = Some i \<Longrightarrow> ticket_of (d a) = Some i" for a i
    using assms(7) by (auto split: if_splits)
  have "a = a'" if "ticket_of ((d(c := ph)) a) = Some i" "ticket_of ((d(c := ph)) a') = Some i" for a a' i
    using assms(1) tk [OF that(1)] tk [OF that(2)] unfolding inv_tickets_def by blast
  ultimately show ?thesis unfolding inv_tickets_def by blast
qed

lemma inv_counters_decide:
  assumes "inv_counters g ti hi oc ov" and "m < length (fates g)"
    and "fates g ! m \<noteq> Refunded" and "fates g ! m \<noteq> Taken"
    and "f \<in> {Accepted, Taken} \<Longrightarrow> m < enqueued g + seen g ! m"
  shows "inv_counters (decide m f g) ti (hi + (if f = Taken then 1 else 0)) oc (ov + (if f = Refunded then 1 else 0))"
proof -
  have "seen g ! j \<le> count_list (take j ((fates g)[m := f])) Refunded" if "j < length (fates g)" for j
    using assms(1) that count_update [OF assms(2,3), of j f] by (fastforce simp: inv_counters_def)
  moreover have "j < enqueued g + seen g ! j" if "j < length (fates g)" "(fates g)[m := f] ! j \<in> {Accepted, Taken}" for j
    using assms(1,2,5) that by (cases "j = m") (auto simp: inv_counters_def)
  ultimately show ?thesis using assms(1)
    by (auto simp: inv_counters_def decide_def claims_def nth_index_def count_update_all [OF assms(2,3)]
      count_update_all [OF assms(2,4)] algebra_simps)
qed

text \<open>The ghost state changes the fates of tickets only, and the consumer holds no index.\<close>

lemma ticket_step:
  assumes inv: "producer_inv N g P p" "N + 1 < 2 ^ 56" "pool_ok N p"
    and ph: "like_phase (dequeuing P c) ph" "reader_ok g (headers P) ph"
    and g': "g' = g\<lparr>fates := F, seen := S\<rparr>" "claims g' = claims g"
    and P': "P' = set_dequeuing c ph (P\<lparr> dequeue_optimistic_count := oc, dequeue_overcommit := ov \<rparr>)"
    and c: "counter_inv (N + 1) g' P'"
    and e: "e = None \<or> (\<exists>c. e = Some (Found_empty c))"
  shows "step_ok N g P p (Next (P', p) e)"
proof -
  have "structure_inv g' P' p"
    using inv(1) structure_quiet [OF _ ph, of p] fates_irrelevant(1) [OF g'(2) [unfolded g'(1)], of P' p]
    by (simp add: producer_inv_def P' g'(1) structure_inv_def)
  moreover have "owned g' P' = owned g P"
    using owned_quiet [OF ph(1), of g] fates_irrelevant(2) [OF g'(2) [unfolded g'(1)], of P'] by (simp add: P' g'(1) owned_def)
  moreover have "stream_of g' (dequeuing P') = stream_of g (dequeuing P)"
    using stream_of_upd [of g ph "dequeuing P" c] taken_by_like [OF ph(1), of g] g'(2)
    by (simp add: P' g'(1) stream_of_def taken_by_def)
  ultimately have "leads_to N g P p e g' P' p"
    using c e inv(3) by (auto simp: leads_to_def producer_inv_def frame_same stream_of_def)
  then show ?thesis by auto
qed

text \<open>Drawing a ticket.\<close>

definition draw :: "nat \<Rightarrow> 'a ghost \<Rightarrow> 'a ghost" where
  "draw o' g = g\<lparr> fates := fates g @ [Undecided], seen := seen g @ [o'] \<rparr>"

lemma claims_draw [simp]: "claims (draw o' g) = claims g"
  by (simp add: draw_def claims_def)

lemma inv_counters_draw:
  assumes "inv_counters g ti hi oc ov" and "o' \<le> count_list (fates g) Refunded"
  shows "inv_counters (draw o' g) ti hi (oc + 1) ov"
  using assms by (auto simp: inv_counters_def draw_def claims_def nth_index_def nth_append less_Suc_eq)

lemma has_ticket_draw:
  "length (seen g) = length (fates g) \<Longrightarrow> has_ticket g f ov my \<Longrightarrow> has_ticket (draw o' g) f ov my"
  unfolding has_ticket_def draw_def nth_index_def by (auto simp: nth_append intro: less_SucI)

lemma ticket_ok_draw: "length (seen g) = length (fates g) \<Longrightarrow> ticket_ok g ph \<Longrightarrow> ticket_ok (draw o' g) ph"
  by (cases ph) (auto intro: has_ticket_draw, auto simp: has_seen_def draw_def)

lemma take_ticket_counter:
  assumes "counter_inv N g P" and "N + 1 < 2 ^ 56" and c: "dequeuing P c = Take_ticket ov"
  obtains o' where "counter_inv (N + 1) (draw o' g)
    (set_dequeuing c (Recheck ov (dequeue_optimistic_count P)) (P\<lparr> dequeue_optimistic_count := dequeue_optimistic_count P + 1,
       dequeue_overcommit := dequeue_overcommit P \<rparr>))"
proof -
  have t: "inv_tickets g (dequeuing P)" and k: "inv_counters g (tail_index P) (head_index P) (dequeue_optimistic_count P) (dequeue_overcommit P)"
    using assms(1) by (simp_all add: counter_inv_def)
  then have l: "length (seen g) = length (fates g)" by (simp add: inv_counters_def)
  have "ticket_ok g (dequeuing P c)" using t by (simp add: inv_tickets_def)
  then obtain o' where o': "o' \<le> count_list (fates g) Refunded" "ov = refunds g + of_nat o'" using c by (auto simp: has_seen_def)
  let ?my = "dequeue_optimistic_count P" and ?g = "draw o' g"
  let ?d = "(dequeuing P)(c := Recheck ov ?my)"
  have my: "?my = nth_index g (length (fates g)) + refunds g" using k by (simp add: inv_counters_def)
  have "has_ticket ?g Undecided ov ?my"
    unfolding has_ticket_def by (intro exI [of _ "length (fates g)"]) (simp add: draw_def my o' nth_index_def nth_append l)
  then have ok: "ticket_ok ?g (?d a)" for a using t l by (simp add: inv_tickets_def ticket_ok_draw)
  have fresh: "ticket_of (dequeuing P a) \<noteq> Some ?my" for a
  proof
    assume "ticket_of (dequeuing P a) = Some ?my"
    then obtain f v where "has_ticket g f v ?my" using t ticket_phase by (fastforce simp: inv_tickets_def)
    then show False using assms(1,2) my by (auto simp: has_ticket_def counter_inv_def nth_index_eq_iff)
  qed
  have "a = a'" if "ticket_of (?d a) = Some i" "ticket_of (?d a') = Some i" for a a' i
    using that t fresh [of a] fresh [of a'] unfolding inv_tickets_def by (auto split: if_splits)
  with ok have "inv_tickets ?g ?d" unfolding inv_tickets_def by blast
  moreover have "enqueued ?g \<le> N + 1" "length (fates ?g) \<le> N + 1" using assms(1) by (simp_all add: counter_inv_def draw_def)
  ultimately have "counter_inv (N + 1) ?g (set_dequeuing c (Recheck ov ?my) (P\<lparr> dequeue_optimistic_count := ?my + 1,
       dequeue_overcommit := dequeue_overcommit P \<rparr>))"
    using assms(2) inv_counters_draw [OF k o'(1)] by (simp add: counter_inv_def)
  then show thesis by (rule that)
qed

lemma step_take_ticket:
  assumes inv: "producer_inv N g P p" "N + 1 < 2 ^ 56" "pool_ok N p" and c: "dequeuing P c = Take_ticket ov"
  shows "step_ok N g P p (dequeue_step c P p)"
proof -
  from inv(1) have "counter_inv N g P" by (simp add: producer_inv_def)
  from take_ticket_counter [OF this inv(2) c] obtain o' where
    k: "counter_inv (N + 1) (draw o' g) (set_dequeuing c (Recheck ov (dequeue_optimistic_count P)) (P\<lparr> dequeue_optimistic_count := dequeue_optimistic_count P + 1, dequeue_overcommit := dequeue_overcommit P \<rparr>))" .
  have "step_ok N g P p (Next (set_dequeuing c (Recheck ov (dequeue_optimistic_count P)) (P\<lparr> dequeue_optimistic_count := dequeue_optimistic_count P + 1, dequeue_overcommit := dequeue_overcommit P \<rparr>), p) None)"
    by (rule ticket_step [OF inv _ _ draw_def claims_draw refl k]) (simp_all add: c like_phase_def)
  then show ?thesis by (simp add: dequeue_step_def c set_dequeuing_def)
qed

text \<open>Deciding it.\<close>

lemma decide_counter:
  assumes "counter_inv N g P" and "N + 1 < 2 ^ 56" and "ticket_of (dequeuing P c) = Some (nth_index g m + refunds g)"
    and "m < length (fates g)" and "fates g ! m \<noteq> Refunded" "fates g ! m \<noteq> Taken"
    and "f \<in> {Accepted, Taken} \<Longrightarrow> m < enqueued g + seen g ! m"
    and "ticket_ok (decide m f g) ph" and "ticket_of ph = ticket_of (dequeuing P c) \<or> ticket_of ph = None"
  shows "counter_inv (N + 1) (decide m f g) (set_dequeuing c ph (P\<lparr> head_index := head_index P + (if f = Taken then 1 else 0), dequeue_optimistic_count := dequeue_optimistic_count P,
      dequeue_overcommit := dequeue_overcommit P + (if f = Refunded then 1 else 0) \<rparr>))"
proof -
  have k: "inv_counters g (tail_index P) (head_index P) (dequeue_optimistic_count P) (dequeue_overcommit P)"
    and t: "inv_tickets g (dequeuing P)" and l: "length (fates g) < 2 ^ 62"
    using assms(1) by (simp_all add: counter_inv_def)
  have "enqueued (decide m f g) \<le> N + 1" "length (fates (decide m f g)) \<le> N + 1"
    using assms(1) by (simp_all add: counter_inv_def decide_def)
  moreover have "inv_tickets (decide m f g) ((dequeuing P)(c := ph))"
    using inv_tickets_decide [OF t assms(3,4,5) l assms(8,9)] .
  ultimately show ?thesis
    using assms(2) inv_counters_decide [OF k assms(4-7)] by (simp add: counter_inv_def)
qed

lemma seen_le:
  assumes "inv_counters g ti hi oc ov" and "m < length (fates g)"
  shows "seen g ! m \<le> m"
proof -
  have "seen g ! m \<le> count_list (take m (fates g)) Refunded" using assms by (simp add: inv_counters_def)
  also have "\<dots> \<le> m" using count_le_length [of "take m (fates g)"] by (rule order_trans) simp
  finally show ?thesis .
qed

lemma recheck_iff:
  assumes "counter_inv N g P" and "m < length (fates g)"
  shows "circular_less_than ((nth_index g m + refunds g) - (refunds g + of_nat (seen g ! m))) (tail_index P)
    \<longleftrightarrow> m < enqueued g + seen g ! m"
proof -
  have k: "inv_counters g (tail_index P) (head_index P) (dequeue_optimistic_count P) (dequeue_overcommit P)"
    using assms(1) by (simp add: counter_inv_def)
  have s: "seen g ! m \<le> m" by (rule seen_le [OF k assms(2)])
  then have "(nth_index g m + refunds g) - (refunds g + of_nat (seen g ! m)) = origin g + of_nat (m - seen g ! m)"
    by (simp add: nth_index_def of_nat_diff)
  moreover have "tail_index P = origin g + of_nat (enqueued g)" using k by (simp add: inv_counters_def nth_index_def)
  moreover have "m - seen g ! m < 2 ^ 62" "enqueued g < 2 ^ 62" using assms by (auto simp: counter_inv_def)
  ultimately show ?thesis using s by (simp only: circular_less_than_iff) linarith
qed

lemma claims_decide: "m < length (fates g) \<Longrightarrow> fates g ! m \<noteq> Taken \<Longrightarrow> claims (decide m f g) = claims g + (if f = Taken then 1 else 0)"
  by (simp add: decide_def claims_def count_update_all)

lemma step_recheck:
  assumes inv: "producer_inv N g P p" "N + 1 < 2 ^ 56" "pool_ok N p" and c: "dequeuing P c = Recheck ov my"
  shows "step_ok N g P p (dequeue_step c P p)"
proof -
  have k: "counter_inv N g P" using inv(1) by (simp add: producer_inv_def)
  then have "ticket_ok g (dequeuing P c)" and l: "length (fates g) < 2 ^ 62" by (simp_all add: counter_inv_def inv_tickets_def)
  with c obtain m where m: "m < length (fates g)" "my = nth_index g m + refunds g" "ov = refunds g + of_nat (seen g ! m)"
    "fates g ! m = Undecided" by (auto simp: has_ticket_def)
  define go where "go \<longleftrightarrow> m < enqueued g + seen g ! m"
  let ?ph = "if go then Claim_index ov my else Give_back ov my" and ?f = "if go then Accepted else Rejected"
  have ok: "has_ticket (decide m f g) f ov my" for f
    unfolding has_ticket_def using m by (intro exI [of _ m]) (simp add: decide_def nth_index_def)
  have "counter_inv (N + 1) (decide m ?f g) (set_dequeuing c ?ph (P\<lparr> head_index := head_index P + (if ?f = Taken then 1 else 0),
     dequeue_optimistic_count := dequeue_optimistic_count P, dequeue_overcommit := dequeue_overcommit P + (if ?f = Refunded then 1 else 0) \<rparr>))"
    by (rule decide_counter [OF k inv(2), where m = m]) (auto simp: c m go_def ok [unfolded m] split: if_splits)
  then have k': "counter_inv (N + 1) (decide m ?f g) (set_dequeuing c ?ph (P\<lparr> dequeue_optimistic_count := dequeue_optimistic_count P,
     dequeue_overcommit := dequeue_overcommit P \<rparr>))" by (cases go) (simp_all add: counter_inv_def)
  have "claims (decide m ?f g) = claims g" using m by (simp add: claims_decide)
  then have "step_ok N g P p (Next (set_dequeuing c ?ph (P\<lparr> dequeue_optimistic_count := dequeue_optimistic_count P,
     dequeue_overcommit := dequeue_overcommit P \<rparr>), p) None)"
    by (intro ticket_step [OF inv _ _ decide_def _ refl k']) (simp_all add: c like_phase_def)
  moreover have "circular_less_than (my - ov) (tail_index P) = go"
    unfolding m go_def by (rule recheck_iff [OF k m(1)])
  ultimately show ?thesis by (cases go) (simp_all add: dequeue_step_def c)
qed

lemma step_give_back:
  assumes inv: "producer_inv N g P p" "N + 1 < 2 ^ 56" "pool_ok N p" and c: "dequeuing P c = Give_back ov my"
  shows "step_ok N g P p (dequeue_step c P p)"
proof -
  have k: "counter_inv N g P" using inv(1) by (simp add: producer_inv_def)
  then have "ticket_ok g (dequeuing P c)" and l: "length (fates g) < 2 ^ 62" by (simp_all add: counter_inv_def inv_tickets_def)
  with c obtain m where m: "m < length (fates g)" "my = nth_index g m + refunds g" "ov = refunds g + of_nat (seen g ! m)"
    "fates g ! m = Rejected" by (auto simp: has_ticket_def)
  have "counter_inv (N + 1) (decide m Refunded g) (set_dequeuing c Not_dequeuing (P\<lparr> head_index := head_index P + (if Refunded = Taken then 1 else 0),
     dequeue_optimistic_count := dequeue_optimistic_count P, dequeue_overcommit := dequeue_overcommit P + (if Refunded = Refunded then 1 else 0) \<rparr>))"
    by (rule decide_counter [OF k inv(2), where m = m]) (auto simp: c m)
  then have k': "counter_inv (N + 1) (decide m Refunded g) (set_dequeuing c Not_dequeuing (P\<lparr> dequeue_optimistic_count := dequeue_optimistic_count P, dequeue_overcommit := dequeue_overcommit P + 1 \<rparr>))" by (simp add: counter_inv_def)
  have "claims (decide m Refunded g) = claims g" using m by (simp add: claims_decide)
  then have "step_ok N g P p (Next (set_dequeuing c Not_dequeuing (P\<lparr> dequeue_optimistic_count := dequeue_optimistic_count P,
     dequeue_overcommit := dequeue_overcommit P + 1 \<rparr>), p) (Some (Found_empty c)))"
    by (intro ticket_step [OF inv _ _ decide_def _ refl k']) (simp_all add: c like_phase_def)
  then show ?thesis by (simp add: dequeue_step_def c set_dequeuing_def)
qed

end
