(* ===== verification/Queue_Claim.thy ===== *)
theory Queue_Claim
  imports Queue_Consumer
begin

text \<open>
  The steps of a consumer from the claim of an index to the return of the element keep the invariant.
\<close>

section \<open>Claiming an index\<close>

lemma nth_index_less: "nth_index g n = nth_index g m \<Longrightarrow> n \<le> m \<Longrightarrow> m < 2 ^ 64 \<Longrightarrow> n = m"
  by (simp add: nth_index_eq_iff)

lemma nth_index_decide [simp]: "nth_index (decide m f g) = nth_index g"
  by (simp add: nth_index_def decide_def fun_eq_iff)

lemma decide_fields: "history (decide m f g) = history g" "origin (decide m f g) = origin g"
  by (simp_all add: decide_def)

lemma live_claim:
  assumes "claims g' = Suc (claims g)" and "nth_index g' = nth_index g" and "claims g < 2 ^ 64"
  shows "in_use g' (insert (nth_index g (claims g)) I) = in_use g I"
proof (intro ext iffI)
  fix k
  assume "in_use g' (insert (nth_index g (claims g)) I) k"
  then obtain n where n: "n div 32 = k" "Suc (claims g) \<le> n \<or> nth_index g n = nth_index g (claims g) \<or> nth_index g n \<in> I"
    using assms(1,2) by (auto simp: in_use_def)
  then have "claims g \<le> n \<or> nth_index g n \<in> I"
    using nth_index_less [OF _ _ assms(3), of g n] by linarith
  with n(1) show "in_use g I k" by (auto simp: in_use_def)
next
  fix k
  assume "in_use g I k"
  then obtain n where "n div 32 = k" "claims g \<le> n \<or> nth_index g n \<in> I" by (auto simp: in_use_def)
  then show "in_use g' (insert (nth_index g (claims g)) I) k"
    using assms(1,2) le_neq_implies_less [of "claims g" n] by (auto simp: in_use_def Suc_le_eq)
qed

lemma content_claim:
  assumes "claims g' = Suc (claims g)" and "nth_index g' = nth_index g" and "history g' = history g" and "claims g < enqueued g"
    and "enqueued g < 2 ^ 64"
  shows "content g' (insert (nth_index g (claims g)) U) ph n = content g U ph n"
proof -
  consider "n < claims g" | "n = claims g" | "claims g < n" by linarith
  then show ?thesis
    using assms nth_index_less [of g n "claims g"] by cases (auto simp: content_def cong: enqueue_phase.case_cong)
qed

lemma counted_claim:
  assumes "nth_index g' = nth_index g" and "claims g < 2 ^ 64"
  shows "{n. n div 32 = k \<and> n < Suc (claims g) \<and> nth_index g' n \<notin> insert (nth_index g (claims g)) C} =
    {n. n div 32 = k \<and> n < claims g \<and> nth_index g n \<notin> C}"
proof -
  have "nth_index g n \<noteq> nth_index g (claims g)" if "n < claims g" for n
    using nth_index_less [OF _ _ assms(2), of g n] that by auto
  with assms(1) show ?thesis by (auto simp: less_Suc_eq)
qed

lemma claimed_claim: "claims g' = Suc (claims g) \<Longrightarrow> nth_index g' = nth_index g \<Longrightarrow> claimed g i n \<Longrightarrow> claimed g' i n"
  by (simp add: claimed_def)

lemma reader_ok_claim:
  assumes "reader_ok g hs ph" and "claims g' = Suc (claims g)" and "g' = g\<lparr>fates := F, seen := S\<rparr>"
  shows "reader_ok g' hs ph"
proof -
  have "nth_index g' = nth_index g" by (simp add: assms(3) nth_index_def fun_eq_iff)
  then have cl: "claimed g i n \<Longrightarrow> claimed g' i n" for i n using assms(2) by (simp add: claimed_def)
  show ?thesis
    using assms(1) by (cases ph) (auto simp: assms(2) intro: cl, auto simp: assms(3) intro: cl [unfolded assms(3)])
qed

lemma block_below: "(n :: nat) div 32 = m div 32 \<Longrightarrow> 32 * (m div 32) + 32 \<le> c \<Longrightarrow> n < c"
  using div_mult_mod_eq [of n 32] mod_less_divisor [of 32 n] by linarith

text \<open>The new index is held by nobody.\<close>

lemma fresh_index:
  assumes "inv_readers g hs d" and "claims g < 2 ^ 64"
  shows "nth_index g (claims g) \<notin> held d"
proof
  assume "nth_index g (claims g) \<in> held d"
  then obtain n where "claimed g (nth_index g (claims g)) n" using held_claimed [OF assms(1)] by blast
  then show False using nth_index_less [of g n "claims g"] assms(2) by (auto simp: claimed_def)
qed

lemma inv_readers_claim:
  assumes inv: "inv_readers g hs d" and g': "claims g' = Suc (claims g)" "g' = g\<lparr>fates := F, seen := S\<rparr>"
    and "claims g < 2 ^ 64"
  shows "inv_readers g' hs (d(c := Load_index (nth_index g (claims g))))"
proof -
  let ?i = "nth_index g (claims g)" and ?d = "d(c := Load_index (nth_index g (claims g)))"
  have ix: "nth_index g' = nth_index g" by (simp add: g'(2) nth_index_def fun_eq_iff)
  have cl: "claimed g' ?i (claims g)" by (simp add: claimed_def g'(1) ix)
  have "reader_ok g' hs (?d a)" for a
    using inv reader_ok_claim [OF _ g'] cl by (auto simp: inv_readers_def)
  moreover have fresh: "index_of (d a) \<noteq> Some ?i" for a
    using fresh_index [OF inv assms(4)] by (auto simp: holds_def)
  have "a = a'" if "index_of (?d a) = Some i" "index_of (?d a') = Some i" for a a' i
    using inv that fresh [of a] fresh [of a'] unfolding inv_readers_def by (auto split: if_splits)
  moreover have "a = a'"
    if un: "?d a = Unlink_block i e b x" and n: "claimed g' i n" "index_of (?d a') = Some i'" "claimed g' i' n'" "n' div 32 = n div 32"
    for a a' i e b x n i' n'
  proof -
    have u: "d a = Unlink_block i e b x" using un by (auto split: if_splits)
    then have "reader_ok g hs (Unlink_block i e b x)" using inv by (metis inv_readers_def)
    then obtain m where m: "claimed g i m" "32 * (m div 32) + 32 \<le> claims g" by auto
    have "m = n" using m(1) n(1) g'(1) assms(4) by (auto simp: claimed_def ix nth_index_eq_iff)
    with m(2) have "n' < claims g" by (intro block_below [OF n(4)]) simp
    have i': "i' = nth_index g n'" using n(3) by (simp add: claimed_def ix)
    with \<open>n' < claims g\<close> have "i' \<noteq> ?i" using nth_index_less [of g n' "claims g"] assms(4) by auto
    with n(2) have "index_of (d a') = Some i'" by (auto split: if_splits)
    moreover have "claimed g i' n'" using i' \<open>n' < claims g\<close> by (simp add: claimed_def)
    moreover note c3 = inv [unfolded inv_readers_def, THEN conjunct2, THEN conjunct2, rule_format, of a i e b x n a' i' n']
    ultimately show ?thesis using u m(1) n(4) \<open>m = n\<close> by (intro c3) simp
  qed
  ultimately show ?thesis unfolding inv_readers_def by blast
qed

lemma block_ok_claim:
  assumes "claims g' = Suc (claims g)" and "nth_index g' = nth_index g" and "history g' = history g" and "claims g < enqueued g"
    and "enqueued g < 2 ^ 64"
  shows "block_ok g' (insert (nth_index g (claims g)) U) (insert (nth_index g (claims g)) C) ph k b = block_ok g U C ph k b"
  using assms(4,5) unfolding block_ok_def assms(1) content_claim [OF assms] counted_claim [OF assms(2) less_trans [OF assms(4,5)]] by simp

lemma structure_claim:
  assumes inv: "structure_inv g P p" and g': "claims g' = Suc (claims g)" "g' = g\<lparr>fates := F, seen := S\<rparr>"
    and less: "claims g < enqueued g" "enqueued g < 2 ^ 64"
    and c: "index_of (dequeuing P c) = None" "\<And>i b x. dequeuing P c \<noteq> Free_block i b x"
    and P': "P' = set_dequeuing c (Load_index (nth_index g (claims g))) (P\<lparr> head_index := h \<rparr>)"
  shows "structure_inv g' P' p" and "owned g' P' = owned g P"
proof -
  let ?i = "nth_index g (claims g)" and ?d = "dequeuing P"
  have ix: "nth_index g' = nth_index g" and hist: "history g' = history g" by (simp_all add: g'(2) nth_index_def fun_eq_iff)
  have b: "claims g < 2 ^ 64" using less by simp
  have n: "uncounted_index (?d c) = None" "unmoved_index (?d c) = None"
    using c(1) uncounted_index_Some unmoved_index_Some by (metis option.exhaust)+
  have held: "held (dequeuing P') = insert ?i (held ?d)" using c(1) by (simp add: P' holds_new)
  have sets: "uncounted (dequeuing P') = insert ?i (uncounted ?d)" "unmoved (dequeuing P') = insert ?i (unmoved ?d)"
    using n by (simp_all add: P' holds_new)
  have lv: "alive g' P' = alive g P" unfolding held by (rule live_claim [OF g'(1) ix b])
  have us: "uses g' lv ph (dequeuing P') u a = uses g lv ph ?d u a" for lv ph u a
    unfolding g'(2) using c(2) by (cases u) (simp_all add: P')
  have pub: "published g' = published g" "home_of g' = home_of g" by (simp_all add: g'(2))
  have "inv_readers g' (headers P) (dequeuing P')"
    using inv inv_readers_claim [OF _ g' b] by (simp add: structure_inv_def P')
  moreover have "inv_blocks g' (alive g P) (unmoved (dequeuing P')) (uncounted (dequeuing P')) (enqueuing P) p"
    using inv by (simp add: structure_inv_def inv_blocks_def sets block_ok_claim [OF g'(1) ix hist less] pub)
  moreover have "inv_usage g' (alive g P) (enqueuing P) (dequeuing P') p"
    using inv by (simp add: structure_inv_def inv_usage_def us)
  moreover have "inv_rings g' lv hs cur n cap = inv_rings g lv hs cur n cap" "inv_entries g' lv es = inv_entries g lv es"
    "writer_ok g' lv hs cur tb ph = writer_ok g lv hs cur tb ph" for lv hs cur n cap es tb ph by (simp_all add: g'(2))
  ultimately show "structure_inv g' P' p" using inv unfolding structure_inv_def lv by (simp add: P')
  show "owned g' P' = owned g P" unfolding owned_def lv us by (simp add: P')
qed

lemma step_claim_index:
  assumes inv: "producer_inv N g P p" "N + 1 < 2 ^ 56" "pool_ok N p" and c: "dequeuing P c = Claim_index ov my"
  shows "step_ok N g P p (dequeue_step c P p)"
proof -
  have k: "counter_inv N g P" and st: "structure_inv g P p" using inv(1) by (simp_all add: producer_inv_def)
  then have "ticket_ok g (dequeuing P c)" and bnd: "enqueued g < 2 ^ 64"
    and ic: "inv_counters g (tail_index P) (head_index P) (dequeue_optimistic_count P) (dequeue_overcommit P)"
    by (simp_all add: counter_inv_def inv_tickets_def)
  with c obtain m where m: "m < length (fates g)" "my = nth_index g m + refunds g" "ov = refunds g + of_nat (seen g ! m)"
    "fates g ! m = Accepted" by (auto simp: has_ticket_def)
  let ?i = "nth_index g (claims g)" and ?g = "decide m Taken g"
  let ?P = "set_dequeuing c (Load_index ?i) (P\<lparr> head_index := head_index P + 1 \<rparr>)"
  have less: "claims g < enqueued g" by (rule claims_less [OF ic m(1,4)])
  have hd: "head_index P = ?i" using ic by (simp add: inv_counters_def)
  have acc: "m < enqueued g + seen g ! m" using ic m(1,4) by (auto simp: inv_counters_def)
  have cl: "claims ?g = Suc (claims g)" using m by (simp add: claims_decide)
  have "counter_inv (N + 1) ?g (set_dequeuing c (Load_index ?i) (P\<lparr> head_index := head_index P + (if Taken = Taken then 1 else 0),
     dequeue_optimistic_count := dequeue_optimistic_count P, dequeue_overcommit := dequeue_overcommit P + (if Taken = Refunded then 1 else 0) \<rparr>))"
    by (rule decide_counter [OF k inv(2), where m = m]) (auto simp: c m acc)
  then have k': "counter_inv (N + 1) ?g ?P" by (simp add: counter_inv_def)
  have free: "index_of (dequeuing P c) = None" "\<And>i b x. dequeuing P c \<noteq> Free_block i b x" by (simp_all add: c)
  note st' = structure_claim [OF st cl decide_def less bnd free refl, of "head_index P + 1"]
  have "unat (?i - origin g) = claims g" using less bnd by (simp add: nth_index_def unat_of_nat_u64)
  then have "stream_event (Some (Claimed c)) (stream_of g (dequeuing P)) = Some (stream_of ?g (dequeuing ?P))"
    using less Cons_nth_drop_Suc [of "claims g" "history g", symmetric]
    by (auto simp: stream_of_def cl taken_by_def c decide_fields fun_eq_iff)
  then have "leads_to N g P p (Some (Claimed c)) ?g ?P p"
    using k' st' inv(3) by (auto simp: leads_to_def producer_inv_def frame_same)
  then show ?thesis by (auto simp: dequeue_step_def c hd)
qed

section \<open>Finding the block\<close>

lemma writer_published:
  assumes "writer_ok g lv hs cur tb ph"
  shows "enqueued g \<le> 32 * published g" and "published g \<le> enqueued g + 1"
proof -
  have a: "n \<le> 32 * ((n + 31) div 32)" "(n + 31) div 32 \<le> n + 1" for n :: nat
    using div_mult_mod_eq [of "n + 31" 32] mod_less_divisor [of 32 "n + 31"] by linarith+
  have b: "n \<le> 32 * (n div 32 + 1)" "n div 32 + 1 \<le> n + 1" for n :: nat
    using div_mult_mod_eq [of n 32] mod_less_divisor [of 32 n, simplified] by (simp_all only: distrib_left)
  show "enqueued g \<le> 32 * published g" "published g \<le> enqueued g + 1"
    using assms a [of "enqueued g"] b [of "enqueued g"] by (cases ph; auto simp: settled_def at_boundary_def)+
qed

lemma claimed_live: "claimed g i n \<Longrightarrow> index_of (d c) = Some i \<Longrightarrow> in_use g (held d) (n div 32)"
  by (auto simp: in_use_def holds_def claimed_def)

lemma claimed_published:
  assumes "structure_inv g P p" and "counter_inv N g P" and "claimed g i n"
  shows "n div 32 < published g" and "n < enqueued g"
proof -
  have "claims g \<le> enqueued g" using assms(2) by (auto simp: counter_inv_def intro: claims_le)
  moreover have "enqueued g \<le> 32 * published g"
    using assms(1) by (auto simp: structure_inv_def intro: writer_published)
  ultimately show "n div 32 < published g" "n < enqueued g" using assms(3) by (auto simp: claimed_def)
qed

lemma keyed_bound:
  assumes "structure_inv g P p" and "counter_inv N g P"
  shows "keyed g \<le> 2 ^ 57"
proof -
  have "writer_ok g (alive g P) (headers P) (block_index P) (tail_block P) (enqueuing P)"
    using assms(1) by (simp add: structure_inv_def)
  then have "published g \<le> enqueued g + 1" by (rule writer_published)
  moreover have "keyed g \<le> published g + 1" using assms(1) by (simp add: structure_inv_def inv_entries_def)
  moreover have "enqueued g < 2 ^ 56" using assms(2) by (simp add: counter_inv_def)
  ultimately show ?thesis by simp
qed

lemma index_not_invalid:
  assumes "inv_counters g ti hi oc ov"
  shows "nth_index g (32 * k) \<noteq> 1"
proof
  assume "nth_index g (32 * k) = 1"
  then have "(origin g + of_nat (32 * k)) AND 31 = (1 :: u64) AND 31" by (simp add: nth_index_def)
  moreover have "origin g AND 31 = 0" using assms by (simp add: inv_counters_def)
  ultimately show False using and_31_index [of "origin g" "32 * k"] by simp
qed

lemma reader_index:
  assumes "structure_inv g P p" and "index_of (dequeuing P c) = Some i"
  obtains n where "claimed g i n" "alive g P (n div 32)" "reader_ok g (headers P) (dequeuing P c)"
proof -
  have "reader_ok g (headers P) (dequeuing P c)" using assms(1) by (simp add: structure_inv_def inv_readers_def)
  moreover from index_claimed [OF this assms(2)] obtain n where "claimed g i n" by blast
  ultimately show thesis using claimed_live [of g i n "dequeuing P" c] assms(2) by (intro that)
qed

lemma load_index_ok:
  assumes "structure_inv g P p" and "counter_inv N g P" and "dequeuing P c = Load_index i"
  obtains h where "block_index P = Some h" "reader_ok g (headers P) (Load_index_tail i h)"
proof -
  obtain n where n: "claimed g i n" using reader_index [OF assms(1), of c] assms(3) by auto
  have pub: "n div 32 < published g" by (rule claimed_published [OF assms(1,2) n])
  have r: "inv_rings g (alive g P) (headers P) (block_index P) (length (entries P)) (next_block_index_capacity P)"
    and e: "inv_entries g (alive g P) (entries P)" using assms(1) by (simp_all add: structure_inv_def)
  then obtain h where h: "block_index P = Some h"
    using pub by (cases "block_index P") (auto simp: inv_rings_def inv_entries_def)
  with r e pub n have "reader_ok g (headers P) (Load_index_tail i h)"
    by (auto simp: inv_rings_def inv_entries_def)
  with h show thesis by (rule that)
qed

lemma load_index_tail_ok:
  assumes "structure_inv g P p" and "dequeuing P c = Load_index_tail i h"
  shows "reader_ok g (headers P) (Load_key i h (index_tail (headers P ! h)))"
proof -
  have r: "inv_rings g (alive g P) (headers P) (block_index P) (length (entries P)) (next_block_index_capacity P)"
    and e: "inv_entries g (alive g P) (entries P)"
    and "reader_ok g (headers P) (dequeuing P c)" using assms(1) by (simp_all add: structure_inv_def inv_readers_def)
  then obtain n where n: "claimed g i n" "h < length (headers P)" "n div 32 < newest g ! h" using assms(2) by auto
  have "alive g P (n div 32)" using claimed_live [OF n(1), of "dequeuing P" c] assms(2) by simp
  with r n have "window (entry_of g) (headers P ! h) (index_tail (headers P ! h)) (newest g ! h) (n div 32)"
    by (simp add: inv_rings_def)
  moreover have "newest g ! h \<le> keyed g"
    using r e n(2) by (cases "block_index P = Some h") (auto simp: inv_rings_def inv_entries_def)
  moreover have "index_tail (headers P ! h) AND (capacity (headers P ! h) - 1) = index_tail (headers P ! h)"
    using r n(2) by (simp add: inv_rings_def ring_ok_def)
  ultimately show ?thesis using n by auto
qed

lemma load_key_ok:
  assumes st: "structure_inv g P p" and k: "counter_inv N g P" and c: "dequeuing P c = Load_key i h t"
  defines "hdr \<equiv> headers P ! h"
  defines "e \<equiv> ring_at hdr (index_position hdr t (entry_key (entries P ! ring_at hdr t)) i)"
  shows "entry_key (entries P ! ring_at hdr t) \<noteq> 1" and "entry_key (entries P ! e) = i AND NOT (BLOCK_SIZE - 1)"
    and "entry_value (entries P ! e) \<noteq> None" and "reader_ok g (headers P) (Load_value i e)"
proof -
  have en: "inv_entries g (alive g P) (entries P)"
    and rd: "reader_ok g (headers P) (dequeuing P c)" using st by (simp_all add: structure_inv_def inv_readers_def)
  have ic: "inv_counters g (tail_index P) (head_index P) (dequeue_optimistic_count P) (dequeue_overcommit P)"
    using k by (simp add: counter_inv_def)
  have "reader_ok g (headers P) (Load_key i h t)" using rd c by simp
  then obtain n N where n: "claimed g i n" "n div 32 < N" "N \<le> keyed g" "t AND (capacity hdr - 1) = t" "window (entry_of g) hdr t N (n div 32)"
    using rd c by (auto simp: hdr_def)
  have w: "origin g AND 31 = 0" using ic by (simp add: inv_counters_def)
  have lv: "alive g P (n div 32)" using claimed_live [OF n(1), of "dequeuing P" c] c by simp
  have "ring_back hdr t 0 = entry_of g (N - 1)" using n(2,5) by (auto simp: window_def dest: spec [of _ "N - 1"])
  then have tail: "ring_at hdr t = entry_of g (N - 1)" by (simp add: ring_back_def n(4))
  have key: "entry_key (entries P ! entry_of g k') = nth_index g (32 * k')" if "n div 32 \<le> k'" "k' < keyed g" for k'
    using en lv that by (auto simp: inv_entries_def)
  have base: "entry_key (entries P ! ring_at hdr t) = origin g + of_nat (32 * (N - 1))"
    using n(2,3) key [of "N - 1"] by (simp add: tail nth_index_def)
  then show "entry_key (entries P ! ring_at hdr t) \<noteq> 1" using index_not_invalid [OF ic, of "N - 1"] by (simp add: nth_index_def)
  have i: "i = origin g + of_nat n" using n(1) by (simp add: claimed_def nth_index_def)
  have "N \<le> 2 ^ 57" using n(3) keyed_bound [OF st k] by linarith
  then have "e = ring_back hdr t (N - 1 - n div 32)"
    unfolding e_def base i ring_back_def by (subst index_position_back [OF w n(2)]) simp_all
  also have "\<dots> = entry_of g (n div 32)" using n(2,5) by (simp add: window_def)
  finally have e: "e = entry_of g (n div 32)" .
  show "entry_key (entries P ! e) = i AND NOT (BLOCK_SIZE - 1)"
    using key [of "n div 32"] n(2,3) block_base_index [OF w, of n] by (simp add: e i nth_index_def)
  have "n div 32 < published g" by (rule claimed_published [OF st k n(1)])
  then show "entry_value (entries P ! e) \<noteq> None" using en lv by (simp add: inv_entries_def e)
  show "reader_ok g (headers P) (Load_value i e)" using n(1) e by auto
qed

lemma load_value_ok:
  assumes st: "structure_inv g P p" and k: "counter_inv N g P" and c: "dequeuing P c = Load_value i e"
  obtains b where "entry_value (entries P ! e) = Some b" "reader_ok g (headers P) (Move_element i e b)"
proof -
  have en: "inv_entries g (alive g P) (entries P)" using st by (simp add: structure_inv_def)
  obtain n where n: "claimed g i n" "e = entry_of g (n div 32)" using reader_index [OF st, of c] c by auto
  have "n div 32 < published g" by (rule claimed_published [OF st k n(1)])
  moreover have "alive g P (n div 32)" using claimed_live [OF n(1), of "dequeuing P" c] c by simp
  ultimately have "entry_value (entries P ! e) = Some (home_of g (n div 32))" using en by (simp add: inv_entries_def n(2))
  then show thesis using n by (intro that) auto
qed

end
