(* ===== verification/Queue_Release.thy ===== *)
theory Queue_Release
  imports Queue_Claim
begin

text \<open>
  Moving an element out, counting it, and unlinking and freeing the block with the last one keep the invariant.
\<close>

section \<open>Changing a block in use\<close>

lemma update_block_at [simp]: "block_at (update_block b blk p) = (block_at p)(b := Some blk)"
  by (simp add: update_block_def)

lemma spare_update [simp]: "spare (update_block b blk p) = spare p"
  by (simp add: spare_def update_block_def)

lemma pool_ok_update: "pool_ok N p \<Longrightarrow> b \<notin> spare p \<Longrightarrow> pool_ok N (update_block b blk p)"
  by (auto simp: pool_ok_def update_block_def spare_def)

lemma inv_usage_update:
  assumes "inv_usage g lv ph d p" and "uses g lv ph d (Home k) b"
  shows "inv_usage g lv ph d (update_block b blk p)"
proof -
  have "fit_for ph u blk" if "uses g lv ph d u b" for u
    using assms that unfolding inv_usage_def by (auto simp: fit_for_def simp del: uses.simps split: usage.split)
  with assms show ?thesis unfolding inv_usage_def by (auto simp del: uses.simps)
qed

lemma frame_update:
  assumes "owned g' P' \<subseteq> owned g P" and "b \<in> owned g P"
  shows "frame g P p g' P' (update_block b blk p)"
  using assms by (auto simp: frame_def)

lemma inv_blocks_update:
  assumes "inv_blocks g lv U C ph p" and "inv_usage g lv ph d p" and "k < published g" and "lv k"
    and "block_ok g U' C' ph' k blk"
    and "\<And>k' b. k' \<noteq> k \<Longrightarrow> block_ok g U C ph k' b \<Longrightarrow> block_ok g U' C' ph' k' b"
  shows "inv_blocks g lv U' C' ph' (update_block (home_of g k) blk p)"
  unfolding inv_blocks_def
proof (intro allI impI)
  fix k'
  assume k': "k' < published g" "lv k'"
  show "\<exists>b. block_at (update_block (home_of g k) blk p) (home_of g k') = Some b \<and> block_ok g U' C' ph' k' b"
  proof (cases "k' = k")
    case False
    have "home_of g k' \<noteq> home_of g k"
    proof
      assume "home_of g k' = home_of g k"
      then have "uses g lv ph d (Home k) (home_of g k)" "uses g lv ph d (Home k') (home_of g k)" using assms(3,4) k' by simp_all
      then have "Home k = Home k'" using assms(2) unfolding inv_usage_def by blast
      with False show False by simp
    qed
    moreover obtain b where "block_at p (home_of g k') = Some b" "block_ok g U C ph k' b"
      using assms(1) k' by (auto simp: inv_blocks_def)
    ultimately show ?thesis using assms(6) [OF False] by auto
  qed (use assms(5) in auto)
qed

lemma owned_home: "k < published g \<Longrightarrow> alive g P k \<Longrightarrow> home_of g k \<in> owned g P"
  by (auto simp: owned_def intro: exI [of _ "Home k"])

lemma home_not_spare:
  assumes "inv_usage g lv ph d p" and "k < published g" and "lv k"
  shows "home_of g k \<notin> spare p"
  using assms unfolding inv_usage_def by (metis uses.simps(1))

lemma reader_block:
  assumes st: "structure_inv g P p" and k: "counter_inv N g P" and c: "index_of (dequeuing P c) = Some i" and n: "claimed g i n"
  obtains blk where "block_at p (home_of g (n div 32)) = Some blk"
    "block_ok g (unmoved (dequeuing P)) (uncounted (dequeuing P)) (enqueuing P) (n div 32) blk"
    "n div 32 < published g" "alive g P (n div 32)"
proof -
  have "n div 32 < published g" "alive g P (n div 32)"
    using claimed_published [OF st k n] claimed_live [where d = "dequeuing P" and c = c, OF n c] by simp_all
  moreover from this obtain blk where "block_at p (home_of g (n div 32)) = Some blk"
    "block_ok g (unmoved (dequeuing P)) (uncounted (dequeuing P)) (enqueuing P) (n div 32) blk"
    using st by (auto simp: structure_inv_def inv_blocks_def)
  ultimately show thesis using that by blast
qed

lemma claimed_bound: "counter_inv N g P \<Longrightarrow> claimed g i n \<Longrightarrow> n < 2 ^ 64"
  using claims_le_fates [of g] by (simp add: counter_inv_def claimed_def)

lemma claimed_unique: "counter_inv N g P \<Longrightarrow> claimed g i n \<Longrightarrow> claimed g i m \<Longrightarrow> m = n"
  using claimed_bound [of N g P i n] claimed_bound [of N g P i m] by (auto simp: claimed_def nth_index_eq_iff)

lemma structure_unique:
  assumes "structure_inv g P p" and "index_of (dequeuing P c) = Some i" and "index_of (dequeuing P c') = Some i"
  shows "c' = c"
  using assms unfolding structure_inv_def inv_readers_def by metis

lemma index_offset:
  assumes "counter_inv N g P" and "claimed g i n"
  shows "block_offset i = n mod 32"
proof -
  have "origin g AND 31 = 0" using assms(1) by (simp add: counter_inv_def inv_counters_def)
  then show ?thesis using assms(2) block_offset_index [of "origin g" n] by (simp add: claimed_def nth_index_def)
qed

lemma content_remove:
  assumes "counter_inv N g P" and "claimed g i n" and "m \<noteq> n"
  shows "content g (U - {i}) ph m = content g U ph m"
proof -
  have "nth_index g m \<noteq> i" if "m < claims g"
    using claimed_unique [OF assms(1,2), of m] assms(3) that by (auto simp: claimed_def)
  then show ?thesis by (auto simp: content_def)
qed

lemma block_ok_remove_unmoved:
  assumes "counter_inv N g P" and "claimed g i n" and "k \<noteq> n div 32" and "block_ok g U C ph k b"
  shows "block_ok g (U - {i}) C ph k b"
  using assms(4) content_remove [OF assms(1,2), of _ U ph] assms(3) by (auto simp: block_ok_def)

lemma block_ok_move:
  assumes k: "counter_inv N g P" and n: "claimed g i n" and b: "block_ok g U C ph (n div 32) b"
  shows "block_ok g (U - {i}) C ph (n div 32) (b\<lparr> elements := (elements b)[n mod 32 := None] \<rparr>)"
proof -
  have "(elements b)[n mod 32 := None] ! (m mod 32) = content g (U - {i}) ph m" if m: "m div 32 = n div 32" for m
  proof (cases "m = n")
    case True
    then show ?thesis using b n by (simp add: block_ok_def content_def claimed_def)
  next
    case False
    then have "m mod 32 \<noteq> n mod 32" using m by (metis div_mult_mod_eq)
    then show ?thesis using b m content_remove [OF k n False, of U ph] by (simp add: block_ok_def)
  qed
  then show ?thesis using b by (simp add: block_ok_def)
qed

section \<open>Moving the element out\<close>

lemma move_ok:
  assumes st: "structure_inv g P p" and k: "counter_inv N g P" and c: "dequeuing P c = Move_element i e b"
  obtains n blk where "claimed g i n" "b = home_of g (n div 32)" "n div 32 < published g" "alive g P (n div 32)"
    "block_at p b = Some blk" "move_from i blk = Some (history g ! n, blk\<lparr> elements := (elements blk)[n mod 32 := None] \<rparr>)"
    "block_ok g (unmoved (dequeuing P)) (uncounted (dequeuing P)) (enqueuing P) (n div 32) blk"
    "reader_ok g (headers P) (Count_element i e b (history g ! n))"
proof -
  have "reader_ok g (headers P) (Move_element i e b)" using st c by (metis structure_inv_def inv_readers_def)
  then obtain n where n: "claimed g i n" "e = entry_of g (n div 32)" "b = home_of g (n div 32)" by auto
  have ix: "index_of (dequeuing P c) = Some i" using c by simp
  obtain blk where b: "block_at p b = Some blk" "n div 32 < published g" "alive g P (n div 32)"
    "block_ok g (unmoved (dequeuing P)) (uncounted (dequeuing P)) (enqueuing P) (n div 32) blk"
    using reader_block [OF st k ix n(1)] n(3) by metis
  have "i \<in> unmoved (dequeuing P)" using c by (auto simp: holds_def intro!: exI [of _ c])
  then have "elements blk ! (n mod 32) = Some (history g ! n)"
    using b(4) n(1) by (auto simp: block_ok_def content_def claimed_def)
  then have "move_from i blk = Some (history g ! n, blk\<lparr> elements := (elements blk)[n mod 32 := None] \<rparr>)"
    by (simp add: move_from_def index_offset [OF k n(1)])
  then show thesis using n b by (intro that) auto
qed

lemma step_move:
  assumes inv: "producer_inv N g P p" "N + 1 < 2 ^ 56" "pool_ok N p" and c: "dequeuing P c = Move_element i e b"
  shows "step_ok N g P p (dequeue_step c P p)"
proof -
  have st: "structure_inv g P p" and k: "counter_inv N g P" using inv(1) by (simp_all add: producer_inv_def)
  obtain n blk where n: "claimed g i n" "b = home_of g (n div 32)" "n div 32 < published g" "alive g P (n div 32)"
    "block_at p b = Some blk" "move_from i blk = Some (history g ! n, blk\<lparr> elements := (elements blk)[n mod 32 := None] \<rparr>)"
    "block_ok g (unmoved (dequeuing P)) (uncounted (dequeuing P)) (enqueuing P) (n div 32) blk"
    "reader_ok g (headers P) (Count_element i e b (history g ! n))" by (rule move_ok [OF st k c])
  let ?x = "history g ! n" and ?blk = "blk\<lparr> elements := (elements blk)[n mod 32 := None] \<rparr>"
  let ?ph = "Count_element i e b ?x" and ?p = "update_block b (blk\<lparr> elements := (elements blk)[n mod 32 := None] \<rparr>) p"
  let ?P = "set_dequeuing c ?ph P"
  let ?d = "dequeuing P"
  have held: "held (?d(c := ?ph)) = held ?d" "uncounted (?d(c := ?ph)) = uncounted ?d" by (simp_all add: holds_same c)
  have un: "unmoved (?d(c := ?ph)) = unmoved ?d - {i}"
  proof (rule holds_gone)
    show "c' = c" if "unmoved_index (?d c') = Some i" for c'
      using structure_unique [OF st, of c i c'] that c unmoved_index_Some uncounted_index_Some by fastforce
  qed (simp_all add: c)
  have us: "uses g lv ph (?d(c := ?ph)) u a = uses g lv ph ?d u a" for lv ph u a using c by (cases u) auto
  have usg: "inv_usage g (alive g P) (enqueuing P) ?d p" and bl: "inv_blocks g (alive g P) (unmoved ?d) (uncounted ?d) (enqueuing P) p"
    using st by (simp_all add: structure_inv_def)
  have "inv_usage g (alive g P) (enqueuing P) (?d(c := ?ph)) ?p"
    using inv_usage_update [OF usg, of "n div 32" b] n(2-4) unfolding inv_usage_def us by simp
  moreover have "inv_blocks g (alive g P) (unmoved ?d - {i}) (uncounted ?d) (enqueuing P) ?p"
    unfolding n(2) by (rule inv_blocks_update [where d = ?d, OF bl usg n(3,4) block_ok_move [OF k n(1,7)] block_ok_remove_unmoved [OF k n(1)]])
  moreover have "inv_readers g (headers P) (?d(c := ?ph))"
    using st n(8) by (intro inv_readers_upd) (auto simp: structure_inv_def c)
  ultimately have "structure_inv g ?P ?p" using st by (simp add: structure_inv_def held un)
  moreover have "counter_inv (N + 1) g ?P" using counter_inv_mono [OF counter_quiet [OF k] inv(2)] by simp
  moreover have "owned g ?P = owned g P" by (simp add: owned_def held us)
  then have "frame g P p g ?P ?p" using owned_home [OF n(3,4)] n(2) by (intro frame_update) auto
  moreover have "pool_ok N ?p" using inv(3) home_not_spare [OF usg n(3,4)] n(2) by (simp add: pool_ok_update)
  moreover have "stream_of g (dequeuing ?P) = stream_of g ?d" by (simp add: stream_of_upd taken_by_def c)
  ultimately have "leads_to N g P p None g ?P ?p" by (simp add: leads_to_def producer_inv_def stream_of_def)
  then show ?thesis using n(5,6) by (auto simp: dequeue_step_def c)
qed

section \<open>Counting it\<close>

definition counted :: "'a ghost \<Rightarrow> u64 set \<Rightarrow> nat \<Rightarrow> nat set" where
  "counted g C k = {n. n div 32 = k \<and> n < claims g \<and> nth_index g n \<notin> C}"

lemma block_range: "{n :: nat. n div 32 = k} = {32 * k..<32 * k + 32}"
proof -
  have "n div 32 = k \<longleftrightarrow> 32 * k \<le> n \<and> n < 32 * k + 32" for n :: nat
  proof
    show "n div 32 = k \<Longrightarrow> 32 * k \<le> n \<and> n < 32 * k + 32"
      using div_mult_mod_eq [of n 32] mod_less_divisor [of 32 n] by linarith
    show "32 * k \<le> n \<and> n < 32 * k + 32 \<Longrightarrow> n div 32 = k" by (rule div_nat_eqI, linarith, simp only: mult_Suc_right, linarith)
  qed
  then show ?thesis by (simp only: set_eq_iff mem_Collect_eq atLeastLessThan_iff) simp
qed

lemma counted_subset: "counted g C k \<subseteq> {32 * k..<32 * k + 32}"
  using block_range [of k] by (auto simp: counted_def)

lemma counted_finite: "finite (counted g C k)"
  by (rule finite_subset [OF counted_subset]) simp

lemma counted_remove:
  assumes "counter_inv N g P" and "claimed g i n"
  shows "counted g (C - {i}) k = (if k = n div 32 then insert n (counted g C k) else counted g C k)"
proof -
  have "nth_index g m = i \<longleftrightarrow> m = n" if "m < claims g" for m
    using claimed_unique [OF assms, of m] assms(2) that by (auto simp: claimed_def)
  then show ?thesis using assms(2) by (auto simp: counted_def claimed_def)
qed

lemma block_ok_counted:
  "block_ok g U C ph k b \<longleftrightarrow>
     length (elements b) = 32 \<and> unat (completely_dequeued b) = card (counted g C k) \<and>
     (\<forall>n. n div 32 = k \<longrightarrow> elements b ! (n mod 32) = content g U ph n)"
  by (simp add: block_ok_def counted_def)

lemma block_ok_count:
  assumes k: "counter_inv N g P" and n: "claimed g i n" and "i \<in> C" and b: "block_ok g U C ph (n div 32) b"
  shows "completely_dequeued b < 32"
    and "block_ok g U (C - {i}) ph (n div 32) (b\<lparr> completely_dequeued := completely_dequeued b + 1 \<rparr>)"
    and "completely_dequeued b = 31 \<longleftrightarrow> counted g (C - {i}) (n div 32) = {m. m div 32 = n div 32}"
proof -
  let ?k = "n div 32"
  have fresh: "n \<notin> counted g C ?k" using n assms(3) by (simp add: counted_def claimed_def)
  have ins: "counted g (C - {i}) ?k = insert n (counted g C ?k)" by (simp add: counted_remove [OF k n])
  have card: "card (counted g (C - {i}) ?k) = Suc (card (counted g C ?k))"
    using fresh counted_finite [of g C ?k] by (simp add: ins)
  have "card (counted g (C - {i}) ?k) \<le> card {32 * ?k..<32 * ?k + 32}"
    by (rule card_mono [OF _ counted_subset]) simp
  then have le: "card (counted g C ?k) \<le> 31" using card by simp
  have u: "unat (completely_dequeued b) = card (counted g C ?k)" using b by (simp add: block_ok_counted)
  with le show "completely_dequeued b < 32" by (simp add: word_less_nat_alt)
  have "unat (completely_dequeued b + 1) = Suc (unat (completely_dequeued b))"
    using u le by (simp add: unat_word_ariths)
  then show "block_ok g U (C - {i}) ph ?k (b\<lparr> completely_dequeued := completely_dequeued b + 1 \<rparr>)"
    using b card by (simp add: block_ok_counted)
  have "completely_dequeued b = 31 \<longleftrightarrow> unat (completely_dequeued b) = 31" by (simp add: word_unat_eq_iff)
  also have "\<dots> \<longleftrightarrow> card (counted g (C - {i}) ?k) = card {m. m div 32 = ?k}" by (simp add: u card block_range)
  also have "\<dots> \<longleftrightarrow> counted g (C - {i}) ?k = {m. m div 32 = ?k}"
    unfolding block_range using card_subset_eq [OF _ counted_subset, of ?k g "C - {i}"] by auto
  finally show "completely_dequeued b = 31 \<longleftrightarrow> counted g (C - {i}) ?k = {m. m div 32 = ?k}" .
qed

lemma block_ok_remove_uncounted:
  assumes "counter_inv N g P" and "claimed g i n" and "k \<noteq> n div 32" and "block_ok g U C ph k b"
  shows "block_ok g U (C - {i}) ph k b"
  using assms(4) counted_remove [OF assms(1,2), of C k] assms(3) by (simp add: block_ok_counted)

lemma uncounted_held: "i \<in> uncounted d \<Longrightarrow> i \<in> held d"
  by (auto simp: holds_def dest: uncounted_index_Some)

text \<open>Giving up an index leaves the block alive as long as another one of it is not counted.\<close>

lemma live_remove:
  assumes k: "counter_inv N g P" and n: "claimed g i n" and "C \<subseteq> I - {i}" and "counted g C (n div 32) \<noteq> {m. m div 32 = n div 32}"
  shows "in_use g (I - {i}) = in_use g I"
proof (intro ext iffI)
  fix j
  assume "in_use g I j"
  then obtain m where m: "m div 32 = j" "claims g \<le> m \<or> nth_index g m \<in> I" by (auto simp: in_use_def)
  show "in_use g (I - {i}) j"
  proof (cases "claims g \<le> m \<or> nth_index g m \<noteq> i")
    case True
    with m show ?thesis by (auto simp: in_use_def)
  next
    case False
    then have "m = n" using claimed_unique [OF k n, of m] by (simp add: claimed_def)
    obtain m' where "m' div 32 = n div 32" "\<not> (m' < claims g \<and> nth_index g m' \<notin> C)"
      using assms(4) unfolding counted_def by blast
    with m(1) \<open>m = n\<close> assms(3) show ?thesis by (auto simp: in_use_def)
  qed
qed (auto simp: in_use_def)

lemma uncounted_gone:
  assumes st: "structure_inv g P p" and c: "uncounted_index (dequeuing P c) = Some i" "uncounted_index ph = None"
  shows "uncounted ((dequeuing P)(c := ph)) = uncounted (dequeuing P) - {i}"
proof (rule holds_gone)
  show "c' = c" if "uncounted_index (dequeuing P c') = Some i" for c'
    using structure_unique [OF st, of c i c'] that c uncounted_index_Some by metis
qed (use c in simp_all)

lemma held_gone:
  assumes st: "structure_inv g P p" and c: "index_of (dequeuing P c) = Some i" "index_of ph = None"
  shows "held ((dequeuing P)(c := ph)) = held (dequeuing P) - {i}"
proof (rule holds_gone [where f = index_of and d = "dequeuing P" and c = c, OF c])
  show "c' = c" if "index_of (dequeuing P c') = Some i" for c' by (rule structure_unique [OF st c(1) that])
qed

lemma count_ok:
  assumes st: "structure_inv g P p" and k: "counter_inv N g P" and c: "dequeuing P c = Count_element i e b x"
  obtains n blk where "claimed g i n" "e = entry_of g (n div 32)" "b = home_of g (n div 32)" "x = history g ! n"
    "n div 32 < published g" "alive g P (n div 32)" "block_at p b = Some blk" "completely_dequeued blk < 32"
    "inv_blocks g (alive g P) (unmoved (dequeuing P)) (uncounted (dequeuing P) - {i}) (enqueuing P)
       (update_block b (blk\<lparr> completely_dequeued := completely_dequeued blk + 1 \<rparr>) p)"
    "completely_dequeued blk = 31 \<longleftrightarrow> counted g (uncounted (dequeuing P) - {i}) (n div 32) = {m. m div 32 = n div 32}"
proof -
  have "reader_ok g (headers P) (Count_element i e b x)" using st c by (metis structure_inv_def inv_readers_def)
  then obtain n where n: "claimed g i n" "e = entry_of g (n div 32)" "b = home_of g (n div 32)" "x = history g ! n" by auto
  have ix: "index_of (dequeuing P c) = Some i" using c by simp
  obtain blk where b: "block_at p b = Some blk" "n div 32 < published g" "alive g P (n div 32)"
    "block_ok g (unmoved (dequeuing P)) (uncounted (dequeuing P)) (enqueuing P) (n div 32) blk"
    using reader_block [OF st k ix n(1)] n(3) by metis
  have i: "i \<in> uncounted (dequeuing P)" using c by (auto simp: holds_def intro!: exI [of _ c])
  note cnt = block_ok_count [OF k n(1) i b(4)]
  have usg: "inv_usage g (alive g P) (enqueuing P) (dequeuing P) p"
    and bl: "inv_blocks g (alive g P) (unmoved (dequeuing P)) (uncounted (dequeuing P)) (enqueuing P) p"
    using st by (simp_all add: structure_inv_def)
  have "inv_blocks g (alive g P) (unmoved (dequeuing P)) (uncounted (dequeuing P) - {i}) (enqueuing P)
       (update_block b (blk\<lparr> completely_dequeued := completely_dequeued blk + 1 \<rparr>) p)"
    unfolding n(3) by (rule inv_blocks_update [where d = "dequeuing P", OF bl usg b(2,3) cnt(2) block_ok_remove_uncounted [OF k n(1)]])
  then show thesis using n b cnt(1,3) by (intro that) auto
qed

lemma uses_upd:
  assumes "\<And>i b x. d c \<noteq> Free_block i b x" and "\<And>i b x. ph \<noteq> Free_block i b x"
  shows "uses g lv eq (d(c := ph)) u a = uses g lv eq d u a"
  using assms by (cases u) auto

lemma step_count_last:
  assumes inv: "producer_inv N g P p" "N + 1 < 2 ^ 56" "pool_ok N p" and c: "dequeuing P c = Count_element i e b x"
    and n: "claimed g i n" "e = entry_of g (n div 32)" "b = home_of g (n div 32)" "x = history g ! n"
      "n div 32 < published g" "alive g P (n div 32)"
    and bl: "inv_blocks g (alive g P) (unmoved (dequeuing P)) (uncounted (dequeuing P) - {i}) (enqueuing P) (update_block b blk p)"
    and full: "counted g (uncounted (dequeuing P) - {i}) (n div 32) = {m. m div 32 = n div 32}"
  shows "leads_to N g P p None g (set_dequeuing c (Unlink_block i e b x) P) (update_block b blk p)"
proof -
  have st: "structure_inv g P p" and k: "counter_inv N g P" using inv(1) by (simp_all add: producer_inv_def)
  let ?ph = "Unlink_block i e b x" and ?d = "dequeuing P"
  let ?P = "set_dequeuing c ?ph P" and ?p = "update_block b blk p"
  have usg: "inv_usage g (alive g P) (enqueuing P) ?d p" and rd: "inv_readers g (headers P) ?d"
    using st by (simp_all add: structure_inv_def)
  have sets: "held (?d(c := ?ph)) = held ?d" "unmoved (?d(c := ?ph)) = unmoved ?d" by (simp_all add: holds_same c)
  have un: "uncounted (?d(c := ?ph)) = uncounted ?d - {i}" by (rule uncounted_gone [OF st]) (simp_all add: c)
  have us: "uses g lv ph (?d(c := ?ph)) u a = uses g lv ph ?d u a" for lv ph u a by (rule uses_upd) (simp_all add: c)
  have all: "m < claims g \<and> nth_index g m \<notin> uncounted ?d - {i}" if "m div 32 = n div 32" for m
    using full that unfolding counted_def by blast
  have "32 * (n div 32) + 31 < claims g" using all [of "32 * (n div 32) + 31"] by simp
  then have ok: "reader_ok g (headers P) ?ph" using n(1-4) by auto
  have alone: "c' = c" if i': "index_of (?d c') = Some i'" "claimed g i' n'" "n' div 32 = n div 32" for c' i' n'
  proof (cases "i' = i")
    case True
    with structure_unique [OF st, of c i c'] i'(1) c show ?thesis by simp
  next
    case False
    have "i' = nth_index g n'" using i'(2) by (simp add: claimed_def)
    with all [OF i'(3)] False have "i' \<notin> uncounted ?d" by simp
    then have "uncounted_index (?d c') = None" using i'(1) uncounted_index_Some [of "?d c'"]
      by (cases "uncounted_index (?d c')") (auto simp: holds_def)
    with i'(1) obtain e' b' x' where u: "?d c' = Unlink_block i' e' b' x'" by (cases "?d c'") auto
    have "index_of (?d c) = Some i" using c by simp
    then show ?thesis using rd u i'(2,3) n(1) unfolding inv_readers_def by metis
  qed
  have "inv_readers g (headers P) (?d(c := ?ph))"
  proof -
    have ix: "index_of ((?d(c := ?ph)) a) = index_of (?d a)" for a by (simp add: c)
    have "reader_ok g (headers P) ((?d(c := ?ph)) a)" for a using rd ok by (simp add: inv_readers_def)
    moreover have "a = a'" if "index_of ((?d(c := ?ph)) a) = Some j" "index_of ((?d(c := ?ph)) a') = Some j" for a a' j
      using that rd unfolding ix inv_readers_def by metis
    moreover have "a = a'" if u: "(?d(c := ?ph)) a = Unlink_block j e' b' x'" and m: "claimed g j m" "index_of ((?d(c := ?ph)) a') = Some j'"
      "claimed g j' m'" "m' div 32 = m div 32" for a a' j e' b' x' m j' m'
    proof (cases "a = c")
      case True
      with u have "j = i" by simp
      with m(1) n(1) k have "m = n" using claimed_unique by metis
      with alone [of a' j' m'] m True show ?thesis unfolding ix by simp
    next
      case False
      with u have "?d a = Unlink_block j e' b' x'" by simp
      with m rd show ?thesis unfolding ix inv_readers_def by metis
    qed
    ultimately show ?thesis unfolding inv_readers_def by blast
  qed
  moreover have "inv_usage g (alive g P) (enqueuing P) (?d(c := ?ph)) ?p"
    using inv_usage_update [OF usg, of "n div 32" b] n unfolding inv_usage_def us by simp
  ultimately have "structure_inv g ?P ?p" using st bl by (simp add: structure_inv_def sets un)
  moreover have "counter_inv (N + 1) g ?P" using counter_inv_mono [OF counter_quiet [OF k] inv(2)] by simp
  moreover have "owned g ?P = owned g P" by (simp add: owned_def sets us)
  then have "frame g P p g ?P ?p" using owned_home [OF n(5,6)] n(3) by (intro frame_update) auto
  moreover have "pool_ok N ?p" using inv(3) home_not_spare [OF usg n(5,6)] n(3) by (simp add: pool_ok_update)
  moreover have "stream_of g (dequeuing ?P) = stream_of g ?d" by (simp add: stream_of_upd taken_by_def c)
  ultimately show ?thesis by (simp add: leads_to_def producer_inv_def stream_of_def)
qed

lemma stream_return:
  assumes "taken_by g (d c) = Some x" and "taken_by g ph = None"
  shows "stream_event (Some (Dequeued c x)) (stream_of g d) = Some (stream_of g (d(c := ph)))"
  using assms by (auto simp: stream_of_def)

lemma taken_claimed: "counter_inv N g P \<Longrightarrow> claimed g i n \<Longrightarrow> claim_of ph = Some i \<Longrightarrow> taken_by g ph = Some (history g ! n)"
  using claimed_bound [of N g P i n] by (auto simp: taken_by_def claimed_def nth_index_def unat_of_nat_u64)

lemma step_count_more:
  assumes inv: "producer_inv N g P p" "N + 1 < 2 ^ 56" "pool_ok N p" and c: "dequeuing P c = Count_element i e b x"
    and n: "claimed g i n" "b = home_of g (n div 32)" "x = history g ! n" "n div 32 < published g" "alive g P (n div 32)"
    and bl: "inv_blocks g (alive g P) (unmoved (dequeuing P)) (uncounted (dequeuing P) - {i}) (enqueuing P) (update_block b blk p)"
    and more: "counted g (uncounted (dequeuing P) - {i}) (n div 32) \<noteq> {m. m div 32 = n div 32}"
  shows "leads_to N g P p (Some (Dequeued c x)) g (set_dequeuing c Not_dequeuing P) (update_block b blk p)"
proof -
  have st: "structure_inv g P p" and k: "counter_inv N g P" using inv(1) by (simp_all add: producer_inv_def)
  let ?ph = "Not_dequeuing" and ?d = "dequeuing P"
  let ?P = "set_dequeuing c ?ph P" and ?p = "update_block b blk p"
  have usg: "inv_usage g (alive g P) (enqueuing P) ?d p" and rd: "inv_readers g (headers P) ?d"
    using st by (simp_all add: structure_inv_def)
  have sets: "held (?d(c := ?ph)) = held ?d - {i}" "unmoved (?d(c := ?ph)) = unmoved ?d"
    by (rule held_gone [OF st]) (simp_all add: c holds_same)
  have un: "uncounted (?d(c := ?ph)) = uncounted ?d - {i}" by (rule uncounted_gone [OF st]) (simp_all add: c)
  have us: "uses g lv ph (?d(c := ?ph)) u a = uses g lv ph ?d u a" for lv ph u a by (rule uses_upd) (simp_all add: c)
  have lv: "in_use g (held ?d - {i}) = alive g P"
    by (rule live_remove [OF k n(1) _ more]) (use uncounted_held in auto)
  have "inv_readers g (headers P) (?d(c := ?ph))" by (rule inv_readers_upd [OF rd]) simp_all
  moreover have "inv_usage g (alive g P) (enqueuing P) (?d(c := ?ph)) ?p"
    using inv_usage_update [OF usg, of "n div 32" b] n unfolding inv_usage_def us by simp
  ultimately have "structure_inv g ?P ?p" using st bl by (simp add: structure_inv_def sets un lv)
  moreover have "counter_inv (N + 1) g ?P" using counter_inv_mono [OF counter_quiet [OF k] inv(2)] by simp
  moreover have "owned g ?P = owned g P" by (simp add: owned_def sets us lv)
  then have "frame g P p g ?P ?p" using owned_home [OF n(4,5)] n(2) by (intro frame_update) auto
  moreover have "pool_ok N ?p" using inv(3) home_not_spare [OF usg n(4,5)] n(2) by (simp add: pool_ok_update)
  moreover have "stream_event (Some (Dequeued c x)) (stream_of g ?d) = Some (stream_of g (dequeuing ?P))"
    using taken_claimed [OF k n(1), of "?d c"] stream_return [of g ?d c x ?ph] c n(3) by (simp add: taken_by_def)
  ultimately show ?thesis by (simp add: leads_to_def producer_inv_def)
qed

lemma step_count:
  assumes inv: "producer_inv N g P p" "N + 1 < 2 ^ 56" "pool_ok N p" and c: "dequeuing P c = Count_element i e b x"
  shows "step_ok N g P p (dequeue_step c P p)"
proof -
  have st: "structure_inv g P p" and k: "counter_inv N g P" using inv(1) by (simp_all add: producer_inv_def)
  obtain n blk where n: "claimed g i n" "e = entry_of g (n div 32)" "b = home_of g (n div 32)" "x = history g ! n"
    "n div 32 < published g" "alive g P (n div 32)" and b: "block_at p b = Some blk" "completely_dequeued blk < 32"
    and bl: "inv_blocks g (alive g P) (unmoved (dequeuing P)) (uncounted (dequeuing P) - {i}) (enqueuing P)
       (update_block b (blk\<lparr> completely_dequeued := completely_dequeued blk + 1 \<rparr>) p)"
    and full: "completely_dequeued blk = 31 \<longleftrightarrow> counted g (uncounted (dequeuing P) - {i}) (n div 32) = {m. m div 32 = n div 32}"
    by (rule count_ok [OF st k c])
  show ?thesis
  proof (cases "completely_dequeued blk = 31")
    case True
    with full step_count_last [OF inv c n bl] show ?thesis by (auto simp: dequeue_step_def c b set_empty_def)
  next
    case False
    with full step_count_more [OF inv c n(1,3-6) bl] show ?thesis by (auto simp: dequeue_step_def c b set_empty_def)
  qed
qed

section \<open>Unlinking and freeing the block\<close>

lemma inv_rings_antimono:
  assumes "inv_rings g lv hs cur m cap" and "\<And>k. lv' k \<Longrightarrow> lv k"
  shows "inv_rings g lv' hs cur m cap"
  using assms unfolding inv_rings_def by (cases cur) auto

lemma writer_ok_antimono:
  assumes "writer_ok g lv hs cur tb ph" and "\<And>k. lv' k \<Longrightarrow> lv k"
  shows "writer_ok g lv' hs cur tb ph"
  using assms by (cases ph) (auto simp: fits_def)

lemma unlinked_live:
  assumes st: "structure_inv g P p" and k: "counter_inv N g P" and c: "dequeuing P c = Unlink_block i e b x" and n: "claimed g i n"
  shows "in_use g (held (dequeuing P) - {i}) = (\<lambda>j. alive g P j \<and> j \<noteq> n div 32)"
proof (intro ext iffI)
  have "reader_ok g (headers P) (Unlink_block i e b x)" using st c by (metis structure_inv_def inv_readers_def)
  then obtain n' where "claimed g i n'" and below: "32 * (n' div 32) + 32 \<le> claims g" by auto
  then have n': "n' = n" using claimed_unique [OF k n] by simp
  have rd: "inv_readers g (headers P) (dequeuing P)" using st by (simp add: structure_inv_def)
  fix j
  assume "in_use g (held (dequeuing P) - {i}) j"
  then obtain m where m: "m div 32 = j" "claims g \<le> m \<or> nth_index g m \<in> held (dequeuing P) - {i}" by (auto simp: in_use_def)
  have "j \<noteq> n div 32"
  proof
    assume "j = n div 32"
    with m(1) below n' have less: "m < claims g" by (intro block_below [of m n]) simp_all
    with m(2) have "nth_index g m \<in> held (dequeuing P)" "nth_index g m \<noteq> i" by auto
    then obtain c' where c': "index_of (dequeuing P c') = Some (nth_index g m)" by (auto simp: holds_def)
    have "claimed g (nth_index g m) m" using less by (simp add: claimed_def)
    with rd c n c' m(1) \<open>j = n div 32\<close> have "c = c'" unfolding inv_readers_def by metis
    with c' c \<open>nth_index g m \<noteq> i\<close> show False by simp
  qed
  with m show "alive g P j \<and> j \<noteq> n div 32" by (auto simp: in_use_def)
next
  fix j
  assume a: "alive g P j \<and> j \<noteq> n div 32"
  then obtain m where m: "m div 32 = j" "claims g \<le> m \<or> nth_index g m \<in> held (dequeuing P)" by (auto simp: in_use_def)
  have "claims g \<le> m \<or> nth_index g m \<noteq> i"
    using claimed_unique [OF k n, of m] a m(1) by (auto simp: claimed_def not_le)
  with m show "in_use g (held (dequeuing P) - {i}) j" by (auto simp: in_use_def)
qed

lemma unlinked_raw:
  assumes st: "structure_inv g P p" and k: "counter_inv N g P" and c: "dequeuing P c = Unlink_block i e b x" and n: "claimed g i n"
    and b: "block_ok g (unmoved (dequeuing P)) C ph (n div 32) blk"
  shows "raw blk"
proof -
  have "reader_ok g (headers P) (Unlink_block i e b x)" using st c by (metis structure_inv_def inv_readers_def)
  then obtain n' where "claimed g i n'" and below: "32 * (n' div 32) + 32 \<le> claims g" by auto
  then have n': "n' = n" using claimed_unique [OF k n] by simp
  have gone: "i' \<notin> unmoved (dequeuing P)" if "claimed g i' m" "m div 32 = n div 32" for i' m
  proof
    assume "i' \<in> unmoved (dequeuing P)"
    then obtain c' where c': "unmoved_index (dequeuing P c') = Some i'" by (auto simp: holds_def)
    then have "index_of (dequeuing P c') = Some i'" using unmoved_index_Some uncounted_index_Some by metis
    with st c n that have "c = c'" unfolding structure_inv_def inv_readers_def by metis
    with c c' show False by simp
  qed
  have "elements blk ! j = None" if "j < 32" for j
  proof -
    let ?m = "32 * (n div 32) + j"
    have m: "?m div 32 = n div 32" "?m mod 32 = j" using that by simp_all
    have "claimed g (nth_index g ?m) ?m" using below that n' by (simp add: claimed_def)
    with gone m(1) have "content g (unmoved (dequeuing P)) ph ?m = None" by (simp add: content_def claimed_def)
    moreover have "elements blk ! (?m mod 32) = content g (unmoved (dequeuing P)) ph ?m"
      using b m(1) unfolding block_ok_def by blast
    ultimately show ?thesis using m(2) by simp
  qed
  moreover have "length (elements blk) = 32" using b by (simp add: block_ok_def)
  ultimately show ?thesis unfolding raw_def by (intro nth_equalityI) simp_all
qed

lemma inv_entries_unlink:
  assumes en: "inv_entries g lv es" and n: "k < published g" "lv k" and inj: "\<And>j. j < published g \<Longrightarrow> lv j \<Longrightarrow> home_of g j = home_of g k \<Longrightarrow> j = k"
  shows "inv_entries g (\<lambda>j. lv j \<and> j \<noteq> k) (es[entry_of g k := (es ! entry_of g k)\<lparr> entry_value := None \<rparr>])"
proof -
  let ?e = "entry_of g k"
  let ?es = "es[?e := (es ! ?e)\<lparr> entry_value := None \<rparr>]"
  have e: "?e < length es" using en n by (simp add: inv_entries_def)
  have key: "entry_key (?es ! a) = entry_key (es ! a)" for a using e by (cases "a = ?e") simp_all
  have other: "entry_of g j \<noteq> ?e" if "j < published g" "lv j" "j \<noteq> k" for j
    using en n inj that unfolding inv_entries_def by (metis option.inject)
  have "entry_value (?es ! entry_of g j) = Some (home_of g j)" if "j < published g" "lv j \<and> j \<noteq> k" for j
    using en other [of j] that by (auto simp: inv_entries_def nth_list_update)
  moreover have "\<exists>j < published g. (lv j \<and> j \<noteq> k) \<and> entry_of g j = a" if "a < length ?es" "entry_value (?es ! a) \<noteq> None" for a
  proof -
    have "a \<noteq> ?e" using that e by auto
    with that en show ?thesis by (auto simp: inv_entries_def)
  qed
  ultimately show ?thesis using en unfolding inv_entries_def key by auto
qed

lemma step_unlink:
  assumes inv: "producer_inv N g P p" "N + 1 < 2 ^ 56" "pool_ok N p" and c: "dequeuing P c = Unlink_block i e b x"
  shows "step_ok N g P p (dequeue_step c P p)"
proof -
  have st: "structure_inv g P p" and k: "counter_inv N g P" using inv(1) by (simp_all add: producer_inv_def)
  have "reader_ok g (headers P) (Unlink_block i e b x)" using st c by (metis structure_inv_def inv_readers_def)
  then obtain n where n: "claimed g i n" "e = entry_of g (n div 32)" "b = home_of g (n div 32)" "x = history g ! n" by auto
  let ?ph = "Free_block i b x" and ?d = "dequeuing P" and ?k = "n div 32"
  let ?es = "(entries P)[e := (entries P ! e)\<lparr> entry_value := None \<rparr>]"
  let ?P = "set_dequeuing c ?ph (P\<lparr> entries := ?es \<rparr>)" and ?lv = "\<lambda>j. alive g P j \<and> j \<noteq> ?k"
  have ix: "index_of (?d c) = Some i" using c by simp
  obtain blk where b: "block_at p b = Some blk" "?k < published g" "alive g P ?k"
    "block_ok g (unmoved ?d) (uncounted ?d) (enqueuing P) ?k blk" using reader_block [OF st k ix n(1)] n(3) by metis
  have en: "inv_entries g (alive g P) (entries P)" and usg: "inv_usage g (alive g P) (enqueuing P) ?d p"
    and rd: "inv_readers g (headers P) ?d" using st by (simp_all add: structure_inv_def)
  have sets: "uncounted (?d(c := ?ph)) = uncounted ?d" "unmoved (?d(c := ?ph)) = unmoved ?d" by (simp_all add: holds_same c)
  have held: "held (?d(c := ?ph)) = held ?d - {i}" by (rule held_gone [OF st]) (simp_all add: c)
  have lv: "alive g ?P = ?lv" using unlinked_live [OF st k c n(1)] by (simp add: held)
  have home: "j = ?k" if "j < published g" "alive g P j" "home_of g j = home_of g ?k" for j
    using usg that b(2,3) unfolding inv_usage_def by (metis uses.simps(1) usage.inject(1))
  have us: "uses g ?lv eq (?d(c := ?ph)) u a \<longleftrightarrow> (if u = Leaving c then a = b else u \<noteq> Home ?k \<and> uses g (alive g P) eq ?d u a)" for eq u a
    by (cases u) (auto simp: c)
  have usb: "uses g (alive g P) (enqueuing P) ?d (Home ?k) b" using b(2,3) n(3) by simp
  have notc: "\<not> uses g (alive g P) (enqueuing P) ?d (Leaving c) a" for a by (simp add: c)
  have rw: "raw blk" by (rule unlinked_raw [OF st k c n(1) b(4)])
  have "inv_usage g ?lv (enqueuing P) (?d(c := ?ph)) p"
    using usg usb b(1) rw unfolding inv_usage_def us by (auto simp: fit_for_def simp del: uses.simps)
  moreover have "inv_entries g ?lv ?es" unfolding n(2) by (rule inv_entries_unlink [OF en b(2,3) home])
  moreover have "inv_readers g (headers P) (?d(c := ?ph))"
    by (rule inv_readers_upd [OF rd]) (use n in auto)
  moreover have "inv_blocks g ?lv (unmoved ?d) (uncounted ?d) (enqueuing P) p"
    using st by (simp add: structure_inv_def inv_blocks_def)
  ultimately have "structure_inv g ?P p"
    using st unfolding structure_inv_def lv by (auto simp: sets intro: inv_rings_antimono writer_ok_antimono)
  moreover have "counter_inv (N + 1) g ?P"
    using counter_inv_mono [OF counter_quiet [OF k, of ?ph c] inv(2)] by (simp add: counter_inv_def)
  moreover have "owned g ?P \<subseteq> owned g P"
    unfolding owned_def lv using usb by (auto simp: us simp del: uses.simps split: if_splits)
  then have "frame g P p g ?P p" by (rule frame_same)
  moreover have "stream_of g (dequeuing ?P) = stream_of g ?d" by (simp add: stream_of_upd taken_by_def c)
  ultimately have "leads_to N g P p None g ?P p" using inv(3) by (simp add: leads_to_def producer_inv_def stream_of_def)
  then show ?thesis by (auto simp: dequeue_step_def c)
qed

lemma step_free:
  assumes inv: "producer_inv N g P p" "N + 1 < 2 ^ 56" "pool_ok N p" and c: "dequeuing P c = Free_block i b x"
  shows "step_ok N g P p (dequeue_step c P p)"
proof -
  have st: "structure_inv g P p" and k: "counter_inv N g P" using inv(1) by (simp_all add: producer_inv_def)
  have "reader_ok g (headers P) (Free_block i b x)" using st c by (metis structure_inv_def inv_readers_def)
  then obtain n where n: "claimed g i n" "x = history g ! n" by auto
  let ?ph = "Not_dequeuing" and ?d = "dequeuing P"
  let ?P = "set_dequeuing c ?ph P"
  have usg: "inv_usage g (alive g P) (enqueuing P) ?d p" and rd: "inv_readers g (headers P) ?d"
    and bl: "inv_blocks g (alive g P) (unmoved ?d) (uncounted ?d) (enqueuing P) p"
    using st by (simp_all add: structure_inv_def)
  have sets: "held (?d(c := ?ph)) = held ?d" "uncounted (?d(c := ?ph)) = uncounted ?d" "unmoved (?d(c := ?ph)) = unmoved ?d"
    by (simp_all add: holds_same c)
  have us: "uses g lv eq (?d(c := ?ph)) u a \<longleftrightarrow> u \<noteq> Leaving c \<and> uses g lv eq ?d u a" for lv eq u a
    by (cases u) auto
  have usb: "uses g (alive g P) (enqueuing P) ?d (Leaving c) b" by (simp add: c)
  then obtain blk where b: "block_at p b = Some blk" "raw blk" "b \<notin> spare p"
    using usg unfolding inv_usage_def by (fastforce simp: fit_for_def simp del: uses.simps)
  have only: "u = Leaving c" if "uses g (alive g P) (enqueuing P) ?d u b" for u
    using usg usb that unfolding inv_usage_def by blast
  define p1 where "p1 = (if dynamically_allocated blk then p\<lparr> block_at := (block_at p)(b := None) \<rparr> else p\<lparr> free_list := b # free_list p \<rparr>)"
  have add: "add_block_to_free_list b p = Some p1" by (simp add: add_block_to_free_list_def b p1_def)
  have at: "block_at p1 a = block_at p a" if "a \<noteq> b" for a using that by (simp add: p1_def)
  have sp: "spare p1 \<subseteq> insert b (spare p)" by (auto simp: spare_def p1_def)
  have home: "home_of g j \<noteq> b" if "j < published g" "alive g P j" for j
    using only [of "Home j"] that by auto
  have "pool_ok N p1" using inv(3) b unfolding pool_ok_def p1_def by (auto simp: spare_def)
  moreover have "inv_blocks g (alive g P) (unmoved ?d) (uncounted ?d) (enqueuing P) p1"
    using bl home at unfolding inv_blocks_def by metis
  moreover have "inv_usage g (alive g P) (enqueuing P) (?d(c := ?ph)) p1"
  proof -
    have "a \<notin> spare p1 \<and> (\<exists>blk. block_at p1 a = Some blk \<and> fit_for (enqueuing P) u blk)"
      if "u \<noteq> Leaving c" "uses g (alive g P) (enqueuing P) ?d u a" for u a
    proof -
      have "a \<noteq> b" using only that by blast
      moreover have "a \<notin> spare p \<and> (\<exists>blk. block_at p a = Some blk \<and> fit_for (enqueuing P) u blk)"
        using usg that(2) unfolding inv_usage_def by blast
      ultimately show ?thesis using sp at [of a] by auto
    qed
    then show ?thesis using usg unfolding inv_usage_def us by blast
  qed
  moreover have "inv_readers g (headers P) (?d(c := ?ph))" by (rule inv_readers_upd [OF rd]) simp_all
  ultimately have "structure_inv g ?P p1" "pool_ok N p1" using st by (simp_all add: structure_inv_def sets)
  moreover have "counter_inv (N + 1) g ?P" using counter_inv_mono [OF counter_quiet [OF k] inv(2)] by simp
  moreover have "frame g P p g ?P p1"
  proof -
    have "b \<in> owned g P" using usb unfolding owned_def by blast
    moreover have "owned g ?P \<subseteq> owned g P" unfolding owned_def by (auto simp: us sets simp del: uses.simps)
    ultimately show ?thesis using sp unfolding frame_def by (intro conjI allI impI, metis at, auto)
  qed
  moreover have "stream_event (Some (Dequeued c x)) (stream_of g ?d) = Some (stream_of g (dequeuing ?P))"
    using taken_claimed [OF k n(1), of "?d c"] stream_return [of g ?d c x ?ph] c n(2) by (simp add: taken_by_def)
  ultimately have "leads_to N g P p (Some (Dequeued c x)) g ?P p1" by (simp add: leads_to_def producer_inv_def)
  then show ?thesis by (auto simp: dequeue_step_def c add)
qed

section \<open>Every step\<close>

lemma call_dequeue_ok:
  assumes inv: "producer_inv N g P p" "N + 1 < 2 ^ 56" "pool_ok N p"
  shows "step_ok N g P p (call_dequeue c P p)"
proof (cases "dequeuing P c = Not_dequeuing")
  case True
  then have "step_ok N g P p (Next (set_dequeuing c (Load_overcommit (tail_index P)) P, p) (Some (Looked c)))"
    by (intro quiet_step [OF inv]) (simp_all add: like_phase_def)
  with True show ?thesis by (simp add: call_dequeue_def)
qed (simp add: call_dequeue_def)

lemma seen_overcommit:
  assumes "counter_inv N g P"
  shows "has_seen g (dequeue_overcommit P)"
  using assms by (auto simp: counter_inv_def inv_counters_def has_seen_def)

lemma dequeue_step_ok:
  assumes inv: "producer_inv N g P p" "N + 1 < 2 ^ 56" "pool_ok N p"
  shows "step_ok N g P p (dequeue_step c P p)"
proof -
  have st: "structure_inv g P p" and k: "counter_inv N g P" using inv(1) by (simp_all add: producer_inv_def)
  have tk: "ticket_ok g (dequeuing P c)" using k by (simp add: counter_inv_def inv_tickets_def)
  note quiet = quiet_step [OF inv, of c]
  show ?thesis
  proof (cases "dequeuing P c")
    case (Load_overcommit t)
    then show ?thesis using seen_overcommit [OF k]
      by (simp add: dequeue_step_def del: step_ok_simps) (intro quiet; simp add: like_phase_def)
  next
    case (Compare_counts t ov)
    then show ?thesis using tk
      by (simp add: dequeue_step_def del: step_ok_simps) (intro conjI impI quiet; simp add: like_phase_def)
  next
    case (Load_index i)
    from load_index_ok [OF st k Load_index] obtain h where "block_index P = Some h" "reader_ok g (headers P) (Load_index_tail i h)" .
    with Load_index show ?thesis
      by (simp add: dequeue_step_def del: step_ok_simps reader_ok.simps) (intro quiet; simp add: like_phase_def)
  next
    case (Load_index_tail i h)
    with load_index_tail_ok [OF st] have "reader_ok g (headers P) (Load_key i h (index_tail (headers P ! h)))" by blast
    with Load_index_tail show ?thesis
      by (simp add: dequeue_step_def del: step_ok_simps reader_ok.simps) (intro quiet; simp add: like_phase_def)
  next
    case (Load_key i h t)
    let ?hdr = "headers P ! h"
    let ?e = "ring_at ?hdr (index_position ?hdr t (entry_key (entries P ! ring_at ?hdr t)) i)"
    have "step_ok N g P p (Next (set_dequeuing c (Load_value i ?e) P, p) None)"
      by (intro quiet load_key_ok(4) [OF st k Load_key]) (simp_all add: Load_key like_phase_def)
    then show ?thesis using load_key_ok(1-3) [OF st k Load_key]
      by (simp add: dequeue_step_def Load_key Let_def)
  next
    case (Load_value i e)
    from load_value_ok [OF st k Load_value] obtain b where
      "entry_value (entries P ! e) = Some b" "reader_ok g (headers P) (Move_element i e b)" .
    with Load_value show ?thesis
      by (simp add: dequeue_step_def del: step_ok_simps reader_ok.simps) (intro quiet; simp add: like_phase_def)
  qed (use step_take_ticket [OF inv] step_recheck [OF inv] step_claim_index [OF inv] step_give_back [OF inv] step_move [OF inv]
      step_count [OF inv] step_unlink [OF inv] step_free [OF inv] in \<open>simp_all add: dequeue_step_def\<close>)
qed

end
