(* ===== verification/Queue_Owner.thy ===== *)
theory Queue_Owner
  imports Queue_Release
begin

text \<open>
  Every step of the owner of the queue keeps the invariant: opening a block of indices in the block index,
  getting a block for it, publishing it, and storing an element.
\<close>

section \<open>The auxiliary state of the block index\<close>

lemma set_enqueuing_simps [simp]:
  "tail_index (set_enqueuing ph P) = tail_index P" "head_index (set_enqueuing ph P) = head_index P"
  "dequeue_optimistic_count (set_enqueuing ph P) = dequeue_optimistic_count P"
  "dequeue_overcommit (set_enqueuing ph P) = dequeue_overcommit P"
  "tail_block (set_enqueuing ph P) = tail_block P" "next_block_index_capacity (set_enqueuing ph P) = next_block_index_capacity P"
  "block_index (set_enqueuing ph P) = block_index P" "headers (set_enqueuing ph P) = headers P"
  "entries (set_enqueuing ph P) = entries P" "enqueuing (set_enqueuing ph P) = ph"
  "dequeuing (set_enqueuing ph P) = dequeuing P"
  by (simp_all add: set_enqueuing_def)

lemma update_header_simps [simp]:
  "tail_index (update_header h t P) = tail_index P" "head_index (update_header h t P) = head_index P"
  "dequeue_optimistic_count (update_header h t P) = dequeue_optimistic_count P"
  "dequeue_overcommit (update_header h t P) = dequeue_overcommit P"
  "tail_block (update_header h t P) = tail_block P" "next_block_index_capacity (update_header h t P) = next_block_index_capacity P"
  "block_index (update_header h t P) = block_index P"
  "headers (update_header h t P) = (headers P)[h := (headers P ! h)\<lparr> index_tail := t \<rparr>]"
  "entries (update_header h t P) = entries P" "enqueuing (update_header h t P) = enqueuing P"
  "dequeuing (update_header h t P) = dequeuing P"
  by (simp_all add: update_header_def)

text \<open>States that differ in the block index only count the same.\<close>

definition same_counts :: "'a ghost \<Rightarrow> 'a ghost \<Rightarrow> bool" where
  "same_counts g g' \<longleftrightarrow>
     origin g' = origin g \<and> refunds g' = refunds g \<and> history g' = history g \<and> fates g' = fates g \<and> seen g' = seen g"

lemma same_counts_refl [simp]: "same_counts g g"
  by (simp add: same_counts_def)

lemma same_countsD:
  assumes "same_counts g g'"
  shows "claims g' = claims g" "nth_index g' = nth_index g" "history g' = history g" "origin g' = origin g"
    "in_use g' I = in_use g I" "claimed g' = claimed g" "content g' = content g" "block_ok g' = block_ok g"
    "taken_by g' = taken_by g" "stream_of g' = stream_of g"
proof -
  show c: "claims g' = claims g" and n: "nth_index g' = nth_index g" and h: "history g' = history g" and o: "origin g' = origin g"
    using assms by (simp_all add: same_counts_def claims_def nth_index_def fun_eq_iff)
  show "in_use g' I = in_use g I" by (simp add: in_use_def c n fun_eq_iff)
  show "claimed g' = claimed g" by (simp add: claimed_def c n fun_eq_iff)
  show d: "content g' = content g" by (simp add: content_def c n h fun_eq_iff cong: enqueue_phase.case_cong)
  show "block_ok g' = block_ok g" by (simp add: block_ok_def c n d fun_eq_iff)
  show t: "taken_by g' = taken_by g" by (simp add: taken_by_def h o fun_eq_iff)
  show "stream_of g' = stream_of g" by (simp add: stream_of_def c h t fun_eq_iff)
qed

lemma same_counts_counters:
  assumes "same_counts g g'"
  shows "inv_counters g' a b c d = inv_counters g a b c d" and "inv_tickets g' dq = inv_tickets g dq"
proof -
  have f: "refunds g' = refunds g" "fates g' = fates g" "seen g' = seen g" "origin g' = origin g" "history g' = history g"
    using assms by (simp_all add: same_counts_def)
  note s = same_countsD [OF assms]
  show "inv_counters g' a b c d = inv_counters g a b c d" by (simp add: inv_counters_def f s)
  have "ticket_ok g' ph = ticket_ok g ph" for ph by (cases ph) (simp_all add: has_seen_def has_ticket_def f s)
  then show "inv_tickets g' dq = inv_tickets g dq" by (simp add: inv_tickets_def)
qed

text \<open>
  What is left to show for a step of the owner that does not store the index: the parts of the invariant
  that speak of what it has changed.
\<close>

lemma owner_step_ok:
  assumes inv: "producer_inv N g P p" "N + 1 < 2 ^ 56"
    and g': "same_counts g g'"
    and P': "tail_index P' = tail_index P" "head_index P' = head_index P" "dequeuing P' = dequeuing P"
      "dequeue_optimistic_count P' = dequeue_optimistic_count P" "dequeue_overcommit P' = dequeue_overcommit P"
    and rings: "inv_rings g' (alive g P) (headers P') (block_index P') (length (entries P')) (next_block_index_capacity P')"
    and ents: "inv_entries g' (alive g P) (entries P')"
    and writer: "writer_ok g' (alive g P) (headers P') (block_index P') (tail_block P') (enqueuing P')"
    and readers: "\<And>c. reader_ok g (headers P) (dequeuing P c) \<Longrightarrow> reader_ok g' (headers P') (dequeuing P c)"
    and blocks: "inv_blocks g' (alive g P) (unmoved (dequeuing P)) (uncounted (dequeuing P)) (enqueuing P') p'"
    and usage: "inv_usage g' (alive g P) (enqueuing P') (dequeuing P) p'" and pool: "pool_ok (N + 1) p'"
    and frame: "frame g P p g' P' p'" and e: "e = None \<or> e = Some Enqueue_failed"
  shows "step_ok N g P p (Next (P', p') e)"
proof -
  note s = same_countsD [OF g']
  have st: "structure_inv g P p" and k: "counter_inv N g P" using inv(1) by (simp_all add: producer_inv_def)
  have "inv_readers g' (headers P') (dequeuing P)"
    using st readers by (simp add: structure_inv_def inv_readers_def s)
  then have "structure_inv g' P' p'"
    using rings ents writer blocks usage by (simp add: structure_inv_def P' s)
  moreover have "counter_inv (N + 1) g' P'"
    using k inv(2) by (simp add: counter_inv_def same_counts_counters [OF g'] P') (use g' in \<open>simp add: same_counts_def\<close>)
  moreover have "stream_event e (stream_of g (dequeuing P)) = Some (stream_of g' (dequeuing P'))"
    using e by (auto simp: P' s stream_of_def)
  ultimately have "leads_to N g P p e g' P' p'" using pool frame by (simp add: leads_to_def producer_inv_def)
  then show ?thesis by auto
qed

lemma reader_ok_same:
  assumes "reader_ok g hs ph" and g': "same_counts g g'" and "keyed g \<le> keyed g'"
    and "\<And>i n. claimed g i n \<Longrightarrow> entry_of g' (n div 32) = entry_of g (n div 32) \<and> home_of g' (n div 32) = home_of g (n div 32)"
    and "\<And>i n h. claimed g i n \<Longrightarrow> h < length hs \<Longrightarrow> n div 32 < newest g ! h \<Longrightarrow> h < length hs' \<and> n div 32 < newest g' ! h"
    and "\<And>h. h < length hs \<Longrightarrow> h < length hs' \<and> capacity (hs' ! h) = capacity (hs ! h) \<and> ring (hs' ! h) = ring (hs ! h)"
    and "\<And>k. k < keyed g \<Longrightarrow> entry_of g' k = entry_of g k"
  shows "reader_ok g' hs' ph"
proof (cases ph)
  case (Load_key i h t)
  with assms(1) obtain n N where n: "claimed g i n" "h < length hs" "n div 32 < N" "N \<le> keyed g" "t AND (capacity (hs ! h) - 1) = t"
    "window (entry_of g) (hs ! h) t N (n div 32)" by auto
  have "window (entry_of g') (hs' ! h) t N (n div 32)"
    using n assms(6) [OF n(2)] assms(7) by (simp add: window_def ring_back_def ring_at_def)
  with n assms(3) assms(6) [OF n(2)] have "claimed g i n \<and> h < length hs' \<and> n div 32 < N \<and> N \<le> keyed g' \<and>
    t AND (capacity (hs' ! h) - 1) = t \<and> window (entry_of g') (hs' ! h) t N (n div 32)" by simp
  then show ?thesis unfolding Load_key reader_ok.simps same_countsD [OF g'] by blast
qed (use assms(1,4,5) in \<open>auto simp: same_countsD [OF g']\<close>)

section \<open>Steps that change the phase only\<close>

definition no_element :: "'a enqueue_phase \<Rightarrow> bool" where
  "no_element ph \<longleftrightarrow> (\<forall>x. ph \<noteq> Store_index x)"

definition no_block :: "'a enqueue_phase \<Rightarrow> bool" where
  "no_block ph \<longleftrightarrow> (\<forall>x e b. ph \<noteq> Reset_count x e b \<and> ph \<noteq> Publish x e b)"

lemma content_no_element: "no_element ph \<Longrightarrow> no_element ph' \<Longrightarrow> content g U ph' = content g U ph"
  by (auto simp: content_def no_element_def fun_eq_iff split: enqueue_phase.split)

lemma block_ok_no_element: "no_element ph \<Longrightarrow> no_element ph' \<Longrightarrow> block_ok g U C ph' = block_ok g U C ph"
  by (simp add: block_ok_def fun_eq_iff content_no_element [of ph ph'])

lemma inv_blocks_no_element:
  "inv_blocks g lv U C ph p \<Longrightarrow> no_element ph \<Longrightarrow> no_element ph' \<Longrightarrow> inv_blocks g lv U C ph' p"
  by (simp add: inv_blocks_def block_ok_no_element [of ph ph'])

lemma uses_no_block: "no_block ph \<Longrightarrow> no_block ph' \<Longrightarrow> uses g lv ph' d u b = uses g lv ph d u b"
  by (cases u) (auto simp: no_block_def)

lemma fit_no_block: "no_block ph \<Longrightarrow> no_block ph' \<Longrightarrow> uses g lv ph d u b \<Longrightarrow> fit_for ph' u blk = fit_for ph u blk"
  by (cases u) (auto simp: no_block_def fit_for_def)

lemma inv_usage_no_block:
  assumes "inv_usage g lv ph d p" and "no_block ph" and "no_block ph'"
  shows "inv_usage g lv ph' d p"
  using assms(1) fit_no_block [OF assms(2,3)] unfolding inv_usage_def uses_no_block [OF assms(2,3)] by metis

lemma uses_fields:
  assumes "published g' = published g" and "\<And>k. k < published g \<Longrightarrow> home_of g' k = home_of g k"
  shows "uses g' lv ph d u b = uses g lv ph d u b"
  using assms by (cases u) auto

lemma owned_no_block:
  assumes "same_counts g g'" and "no_block (enqueuing P)" and "no_block (enqueuing P')" and "dequeuing P' = dequeuing P"
    and "published g' = published g" and "home_of g' = home_of g"
  shows "owned g' P' = owned g P"
  using assms by (simp add: owned_def uses_fields [of g' g] same_countsD [OF assms(1)] uses_no_block [of "enqueuing P" "enqueuing P'"])

text \<open>Steps that change the block index, but neither publish a block nor touch one.\<close>

lemma index_step:
  assumes inv: "producer_inv N g P p" "N + 1 < 2 ^ 56" "pool_ok N p"
    and g': "same_counts g g'" "published g' = published g" "home_of g' = home_of g"
    and P': "tail_index P' = tail_index P" "head_index P' = head_index P" "dequeuing P' = dequeuing P"
      "dequeue_optimistic_count P' = dequeue_optimistic_count P" "dequeue_overcommit P' = dequeue_overcommit P"
    and ph: "no_element (enqueuing P)" "no_element (enqueuing P')" "no_block (enqueuing P)" "no_block (enqueuing P')"
    and rings: "inv_rings g' (alive g P) (headers P') (block_index P') (length (entries P')) (next_block_index_capacity P')"
    and ents: "inv_entries g' (alive g P) (entries P')"
    and writer: "writer_ok g' (alive g P) (headers P') (block_index P') (tail_block P') (enqueuing P')"
    and readers: "\<And>c. reader_ok g (headers P) (dequeuing P c) \<Longrightarrow> reader_ok g' (headers P') (dequeuing P c)"
    and e: "e = None \<or> e = Some Enqueue_failed"
  shows "step_ok N g P p (Next (P', p) e)"
proof (rule owner_step_ok [OF inv(1,2) g'(1) P' rings ents writer readers _ _ _ _ e])
  have bl: "inv_blocks g (alive g P) (unmoved (dequeuing P)) (uncounted (dequeuing P)) (enqueuing P) p"
    and us: "inv_usage g (alive g P) (enqueuing P) (dequeuing P) p"
    using inv(1) by (simp_all add: producer_inv_def structure_inv_def)
  show "inv_blocks g' (alive g P) (unmoved (dequeuing P)) (uncounted (dequeuing P)) (enqueuing P') p"
    using inv_blocks_no_element [OF bl ph(1,2)] by (simp add: inv_blocks_def g' same_countsD [OF g'(1)])
  show "inv_usage g' (alive g P) (enqueuing P') (dequeuing P) p"
    using inv_usage_no_block [OF us ph(3,4)] uses_fields [of g' g] g' by (simp add: inv_usage_def)
  show "frame g P p g' P' p"
    by (rule frame_same) (simp add: owned_no_block [OF g'(1) ph(3,4) P'(3) g'(2,3)])
  show "pool_ok (N + 1) p" using inv(3) by simp
qed

lemma phase_step:
  assumes inv: "producer_inv N g P p" "N + 1 < 2 ^ 56" "pool_ok N p"
    and ph: "no_element (enqueuing P)" "no_element ph" "no_block (enqueuing P)" "no_block ph"
    and writer: "writer_ok g (alive g P) (headers P) (block_index P) (tail_block P) ph"
    and e: "e = None \<or> e = Some Enqueue_failed"
  shows "step_ok N g P p (Next (set_enqueuing ph P, p) e)"
  by (rule index_step [OF inv, where g' = g]) (use inv(1) ph writer e in \<open>simp_all add: producer_inv_def structure_inv_def\<close>)

lemma round_up:
  assumes "(n :: nat) mod 32 \<noteq> 0"
  shows "(n + 31) div 32 = n div 32 + 1"
proof (rule div_nat_eqI)
  have "n mod 32 < 32" by simp
  with assms div_mult_mod_eq [of n 32] show "32 * (n div 32 + 1) \<le> n + 31" "n + 31 < 32 * Suc (n div 32 + 1)"
    by (simp_all only: mult_Suc_right distrib_left)
qed

lemma tail_offset:
  assumes "counter_inv N g P"
  shows "tail_index P AND (BLOCK_SIZE - 1) = 0 \<longleftrightarrow> enqueued g mod 32 = 0"
proof -
  have "origin g AND 31 = 0" and t: "tail_index P = origin g + of_nat (enqueued g)"
    using assms by (simp_all add: counter_inv_def inv_counters_def nth_index_def)
  then have "tail_index P AND 31 = of_nat (enqueued g mod 32)" by (simp only: t and_31_index)
  moreover have "enqueued g mod 32 < 2 ^ 64" by (rule less_trans [of _ 32]) simp_all
  ultimately show ?thesis using of_nat_u64_inj [of "enqueued g mod 32" 0] by simp
qed

lemma call_enqueue_ok:
  assumes inv: "producer_inv N g P p" "N + 1 < 2 ^ 56" "pool_ok N p"
  shows "step_ok N g P p (call_enqueue x P p)"
proof (cases "enqueuing P = Idle")
  case True
  have k: "counter_inv N g P" and s: "settled g (tail_block P)"
    using inv(1) True by (simp_all add: producer_inv_def structure_inv_def)
  from s show ?thesis
    using True round_up [of "enqueued g"] tail_offset [OF k] by (auto simp: call_enqueue_def settled_def no_element_def no_block_def simp del: step_ok_simps intro!: phase_step [OF inv])
qed (simp add: call_enqueue_def)

lemma step_load_head:
  assumes inv: "producer_inv N g P p" "N + 1 < 2 ^ 56" "pool_ok N p" and ph: "enqueuing P = Load_head x"
  shows "step_ok N g P p (enqueue_step a P p)"
proof -
  have k: "counter_inv N g P" and s: "settled g (tail_block P)" "enqueued g mod 32 = 0"
    using inv(1) ph by (simp_all add: producer_inv_def structure_inv_def)
  have ic: "inv_counters g (tail_index P) (head_index P) (dequeue_optimistic_count P) (dequeue_overcommit P)"
    using k by (simp add: counter_inv_def)
  have le: "claims g \<le> enqueued g" by (rule claims_le [OF ic])
  have "enqueued g < 2 ^ 62" "claims g < 2 ^ 62" using k le by (simp_all add: counter_inv_def)
  then have nf: "\<not> circular_less_than (tail_index P) (head_index P)"
    using ic le circular_less_than_iff [of "enqueued g" "claims g" "origin g"] by (simp add: inv_counters_def nth_index_def)
  have "enqueued g = 32 * published g" using s by (auto simp: settled_def)
  then have "at_boundary g" using s by (simp add: at_boundary_def settled_def)
  with s have w: "writer_ok g (alive g P) (headers P) (block_index P) (tail_block P) Idle"
    "block_index P \<noteq> None \<Longrightarrow> writer_ok g (alive g P) (headers P) (block_index P) (tail_block P) (Load_entry x)" by auto
  show ?thesis using nf w ph
    by (auto simp: enqueue_step_def Let_def no_element_def no_block_def simp del: step_ok_simps writer_ok.simps intro!: phase_step [OF inv])
qed

end
