(* ===== verification/Queue_Index.thy ===== *)
theory Queue_Index
  imports Queue_Owner
begin

text \<open>
  The owner opens the next block of indices: it looks at the entry behind the tail of the ring, grows the
  ring when that entry is in use, and stores the key and the tail, or takes them back.
\<close>

section \<open>Positions in a ring\<close>

lemma ring_okE:
  assumes "ring_ok n h"
  obtains j where "j < 60" "capacity h = 2 ^ j" "unat (capacity h) = 2 ^ j" "length (ring h) = 2 ^ j" "distinct (ring h)"
    "set (ring h) \<subseteq> {..<n}" "index_tail h AND (capacity h - 1) = index_tail h"
proof -
  obtain j where j: "j < 60" "capacity h = 2 ^ j" using assms by (auto simp: ring_ok_def)
  then have "unat (capacity h) = 2 ^ j" using capacity_power [of j] by simp
  with assms j show thesis by (intro that) (auto simp: ring_ok_def)
qed

lemma ring_back_nth:
  assumes "ring_ok n h"
  shows "ring_back h t a = ring h ! unat ((t - of_nat a) AND (capacity h - 1))"
    and "unat ((t - of_nat a) AND (capacity h - 1)) < length (ring h)"
proof -
  from assms obtain j where j: "capacity h = 2 ^ j" "length (ring h) = 2 ^ j" by (rule ring_okE)
  show "ring_back h t a = ring h ! unat ((t - of_nat a) AND (capacity h - 1))" by (simp add: ring_back_def ring_at_def)
  show "unat ((t - of_nat a) AND (capacity h - 1)) < length (ring h)" by (simp add: j unat_and_capacity)
qed

lemma ring_back_in: "ring_ok n h \<Longrightarrow> ring_back h t a \<in> set (ring h)"
  using ring_back_nth [of n h t a] by simp

lemma ring_back_less: "ring_ok n h \<Longrightarrow> ring_back h t a < n"
  using ring_back_in [of n h t a] by (auto simp: ring_ok_def)

lemma ring_back_inj:
  assumes h: "ring_ok n h" and eq: "ring_back h t a = ring_back h t b" and a: "a < unat (capacity h)" and b: "b < unat (capacity h)"
  shows "a = b"
proof -
  from h obtain j where j: "j < 60" "capacity h = 2 ^ j" "unat (capacity h) = 2 ^ j" "distinct (ring h)" by (rule ring_okE)
  have "unat ((t - of_nat a) AND (capacity h - 1)) = unat ((t - of_nat b) AND (capacity h - 1))"
    using eq ring_back_nth [OF h] j(4) by (simp add: nth_eq_iff_index_eq)
  then have e: "(t - of_nat a) AND (2 ^ j - 1) = (t - of_nat b) AND (2 ^ j - 1)" by (simp add: j word_unat_eq_iff)
  show ?thesis
  proof (cases "a \<le> b")
    case True
    moreover have "b - a < 2 ^ j" using b j(3) by linarith
    ultimately show ?thesis using and_capacity_eq_iff [OF _ _ _ e] j(1) by simp
  next
    case False
    moreover have "a - b < 2 ^ j" using a j(3) by linarith
    ultimately show ?thesis using and_capacity_eq_iff [OF _ _ _ e [symmetric]] j(1) by simp
  qed
qed

lemma ring_back_shift: "ring_back h (t + 1) (Suc a) = ring_back h t a"
  by (simp add: ring_back_def)

lemma take_bit_plus_take_bit:
  assumes "j < 64"
  shows "take_bit j (take_bit j x + y) = take_bit j (x + y :: u64)"
proof -
  have pow: "(2 :: nat) ^ j dvd 2 ^ 64" using assms by (intro le_imp_power_dvd) simp
  have u: "unat (take_bit j z) = unat z mod 2 ^ j" for z :: u64 by (simp only: unsigned_take_bit_eq) (simp only: take_bit_eq_mod)
  have "unat (take_bit j (take_bit j x + y)) = (unat x mod 2 ^ j + unat y) mod 2 ^ 64 mod 2 ^ j"
    unfolding u unat_word_ariths(1) by simp
  also have "\<dots> = (unat x + unat y) mod 2 ^ 64 mod 2 ^ j" by (simp only: mod_mod_cancel [OF pow] mod_add_left_eq)
  also have "\<dots> = unat (take_bit j (x + y))" unfolding u unat_word_ariths(1) by simp
  finally show ?thesis by (simp add: word_unat_eq_iff)
qed

lemma ring_back_masked:
  assumes "ring_ok n h"
  shows "ring_back h ((t AND (capacity h - 1)) + x) a = ring_back h (t + x) a"
proof -
  from assms obtain j where j: "j < 60" "capacity h = 2 ^ j" by (rule ring_okE)
  have "take_bit j (take_bit j t + (x - of_nat a)) = take_bit j (t + (x - of_nat a))"
    using j(1) by (intro take_bit_plus_take_bit) simp
  then show ?thesis by (simp add: ring_back_def j and_capacity algebra_simps)
qed

lemma ring_back_wrap:
  assumes "ring_ok n h"
  shows "ring_back h t (unat (capacity h) - 1) = ring_back h (t + 1) 0"
proof -
  from assms obtain j where j: "capacity h = 2 ^ j" "unat (capacity h) = 2 ^ j" "j < 60" by (rule ring_okE)
  have "(of_nat (2 ^ j - 1) :: u64) = 2 ^ j - 1" by (simp add: of_nat_diff)
  then have "t - of_nat (2 ^ j - 1) = (t + 1) + - (2 ^ j)" by simp
  moreover have "take_bit j ((t + 1) + - (2 ^ j)) = take_bit j (t + 1 :: u64)"
  proof -
    have "take_bit j (2 ^ j) = (0 :: u64)" by (rule bit_eqI) (simp add: bit_simps)
    with j(3) show ?thesis using take_bit_plus_take_bit [of j "2 ^ j" "t + 1 - 2 ^ j"] by simp
  qed
  moreover have "(t + 1) - of_nat 0 = t + 1" by simp
  ultimately have "take_bit j (t - of_nat (2 ^ j - 1)) = take_bit j ((t + 1) - of_nat 0)" by (simp only:)
  then show ?thesis unfolding ring_back_def j(2) unfolding j(1) and_capacity by (simp only:)
qed

lemma window_fields: "capacity h' = capacity h \<Longrightarrow> ring h' = ring h \<Longrightarrow> window ent h' t N k = window ent h t N k"
  by (simp add: window_def ring_back_def ring_at_def)

section \<open>The current ring\<close>

lemma published_live:
  assumes "structure_inv g P p" and "counter_inv N g P" and "published g \<le> k"
  shows "alive g P k"
proof -
  have "claims g \<le> enqueued g" using assms(2) by (auto simp: counter_inv_def intro: claims_le)
  moreover have "enqueued g \<le> 32 * published g"
    using assms(1) by (auto simp: structure_inv_def intro: writer_published)
  ultimately have "claims g \<le> 32 * k" using assms(3) by linarith
  then show ?thesis unfolding in_use_def by (intro exI [of _ "32 * k"]) simp
qed

lemma current_ring:
  assumes "structure_inv g P p" and "block_index P = Some h"
  shows "h < length (headers P)" "ring_ok (length (entries P)) (headers P ! h)" "newest g ! h = opened g"
    "set (ring (headers P ! h)) = {..<length (entries P)}" "next_block_index_capacity P = 2 * capacity (headers P ! h)"
    "unat (capacity (headers P ! h)) \<le> 2 * enqueued g + 32"
    "\<And>k. k < opened g \<Longrightarrow> alive g P k \<Longrightarrow> window (entry_of g) (headers P ! h) (index_tail (headers P ! h)) (opened g) k"
    "\<And>k. opened g < keyed g \<Longrightarrow> k < keyed g \<Longrightarrow> alive g P k \<Longrightarrow>
       window (entry_of g) (headers P ! h) (index_tail (headers P ! h) + 1) (keyed g) k"
  using assms by (auto simp: structure_inv_def inv_rings_def)

lemma structure_entries:
  assumes "structure_inv g P p"
  shows "published g \<le> opened g" "opened g \<le> keyed g" "keyed g \<le> published g + 1"
    "\<And>k. k < keyed g \<Longrightarrow> entry_of g k < length (entries P)"
    "\<And>k k'. alive g P k \<Longrightarrow> k \<le> k' \<Longrightarrow> k' < keyed g \<Longrightarrow> entry_key (entries P ! entry_of g k') = nth_index g (32 * k')"
    "\<And>k. k < published g \<Longrightarrow> alive g P k \<Longrightarrow> entry_value (entries P ! entry_of g k) = Some (home_of g k)"
    "\<And>e. e < length (entries P) \<Longrightarrow> entry_value (entries P ! e) \<noteq> None \<Longrightarrow> \<exists>k < published g. alive g P k \<and> entry_of g k = e"
proof -
  have "inv_entries g (alive g P) (entries P)" using assms by (simp add: structure_inv_def)
  note i = this [unfolded inv_entries_def]
  show "published g \<le> opened g" "opened g \<le> keyed g" "keyed g \<le> published g + 1" using i by simp_all
  show "\<And>k. k < keyed g \<Longrightarrow> entry_of g k < length (entries P)" using i by blast
  show "\<And>k k'. alive g P k \<Longrightarrow> k \<le> k' \<Longrightarrow> k' < keyed g \<Longrightarrow> entry_key (entries P ! entry_of g k') = nth_index g (32 * k')"
    using i by blast
  show "\<And>k. k < published g \<Longrightarrow> alive g P k \<Longrightarrow> entry_value (entries P ! entry_of g k) = Some (home_of g k)" using i by blast
  show "\<And>e. e < length (entries P) \<Longrightarrow> entry_value (entries P ! e) \<noteq> None \<Longrightarrow> \<exists>k < published g. alive g P k \<and> entry_of g k = e"
    using i by blast
qed

lemma windowD: "window ent h t N k \<Longrightarrow> N - 1 - k < unat (capacity h)"
  "window ent h t N k \<Longrightarrow> k \<le> k' \<Longrightarrow> k' < N \<Longrightarrow> ring_back h t (N - 1 - k') = ent k'"
  by (simp_all add: window_def)

lemma next_entry_back: "next_entry h = ((index_tail h + 1) AND (capacity h - 1), ring_back h (index_tail h + 1) 0)"
  by (simp add: next_entry_def ring_back_def Let_def)

text \<open>If the next entry serves a live block already, the ring is full.\<close>

lemma next_entry_full:
  assumes st: "structure_inv g P p" and h: "block_index P = Some h" and k: "k < opened g" "alive g P k"
    and e: "entry_of g k = ring_back (headers P ! h) (index_tail (headers P ! h) + 1) 0"
  shows "opened g - k = unat (capacity (headers P ! h))"
proof -
  let ?h = "headers P ! h"
  note cur = current_ring [OF st h]
  have w: "window (entry_of g) ?h (index_tail ?h) (opened g) k" by (rule cur(7) [OF k])
  have "ring_back ?h (index_tail ?h) (opened g - 1 - k) = ring_back ?h (index_tail ?h) (unat (capacity ?h) - 1)"
    using windowD(2) [OF w, of k] k(1) e ring_back_wrap [OF cur(2)] by simp
  moreover have "opened g - 1 - k < unat (capacity ?h)" by (rule windowD(1) [OF w])
  ultimately have "opened g - 1 - k = unat (capacity ?h) - 1" using ring_back_inj [OF cur(2)] by simp
  with \<open>opened g - 1 - k < unat (capacity ?h)\<close> k(1) show ?thesis by linarith
qed

lemma load_entry_usable:
  assumes st: "structure_inv g P p" and k: "counter_inv N g P" and h: "block_index P = Some h"
    and b: "at_boundary g" and e: "e = ring_back (headers P ! h) (index_tail (headers P ! h) + 1) 0"
    and usable: "entry_key (entries P ! e) = 1 \<or> entry_value (entries P ! e) = None"
  shows "fits g (alive g P) (headers P) (block_index P)"
proof -
  note cur = current_ring [OF st h] and en = structure_entries [OF st]
  have ic: "inv_counters g (tail_index P) (head_index P) (dequeue_optimistic_count P) (dequeue_overcommit P)"
    using k by (simp add: counter_inv_def)
  have "opened g - j < unat (capacity (headers P ! h))" if j: "j < opened g" "alive g P j" for j
  proof -
    have "opened g - j \<noteq> unat (capacity (headers P ! h))"
    proof
      assume full: "opened g - j = unat (capacity (headers P ! h))"
      have "entry_of g j = ring_back (headers P ! h) (index_tail (headers P ! h)) (opened g - 1 - j)"
        using windowD(2) [OF cur(7) [OF j], of j] j by simp
      also have "opened g - 1 - j = unat (capacity (headers P ! h)) - 1" using full by simp
      finally have ej: "entry_of g j = e" by (simp only: ring_back_wrap [OF cur(2)] e)
      have "entry_key (entries P ! e) = nth_index g (32 * j)"
        using en(5) [OF j(2) order_refl] j(1) en(2) ej by simp
      moreover have "entry_value (entries P ! e) = Some (home_of g j)" using en(6) [of j] j b ej by (simp add: at_boundary_def)
      ultimately show False using usable index_not_invalid [OF ic] by simp
    qed
    moreover have "opened g - 1 - j < unat (capacity (headers P ! h))" by (rule windowD(1) [OF cur(7) [OF j]])
    ultimately show ?thesis by linarith
  qed
  then show ?thesis by (auto simp: fits_def h)
qed

lemma load_entry_used:
  assumes st: "structure_inv g P p" and k: "counter_inv N g P" and h: "block_index P = Some h"
    and b: "at_boundary g" and e: "e = ring_back (headers P ! h) (index_tail (headers P ! h) + 1) 0"
    and used: "entry_value (entries P ! e) \<noteq> None"
  shows "keyed g = opened g" and "unat (capacity (headers P ! h)) \<le> opened g"
proof -
  note cur = current_ring [OF st h] and en = structure_entries [OF st]
  have "e < length (entries P)" unfolding e by (rule ring_back_less [OF cur(2)])
  then obtain j where j: "j < published g" "alive g P j" "entry_of g j = e" using en(7) [OF _ used] by blast
  have "j < opened g" using j(1) b by (simp add: at_boundary_def)
  from next_entry_full [OF st h this j(2)] show "unat (capacity (headers P ! h)) \<le> opened g" using j(3) e by simp
  show "keyed g = opened g"
  proof (rule ccontr)
    assume "keyed g \<noteq> opened g"
    then have key: "keyed g = Suc (opened g)" using en(1-3) b by (simp add: at_boundary_def)
    then have w: "window (entry_of g) (headers P ! h) (index_tail (headers P ! h) + 1) (keyed g) j"
      using cur(8) [of j] \<open>j < opened g\<close> j(2) by simp
    have "ring_back (headers P ! h) (index_tail (headers P ! h) + 1) (opened g - j) = e"
      using windowD(2) [OF w, of j] key \<open>j < opened g\<close> j(3) by simp
    moreover have "opened g - j < unat (capacity (headers P ! h))" using windowD(1) [OF w] key by simp
    moreover have "0 < unat (capacity (headers P ! h))" using calculation(2) by linarith
    ultimately have "opened g - j = 0" using ring_back_inj [OF cur(2), of _ "opened g - j" 0] e by simp
    with \<open>j < opened g\<close> show False by simp
  qed
qed

lemma step_load_entry:
  assumes inv: "producer_inv N g P p" "N + 1 < 2 ^ 56" "pool_ok N p" and ph: "enqueuing P = Load_entry x"
  shows "step_ok N g P p (enqueue_step a P p)"
proof -
  have st: "structure_inv g P p" and k: "counter_inv N g P" using inv(1) by (simp_all add: producer_inv_def)
  have "writer_ok g (alive g P) (headers P) (block_index P) (tail_block P) (Load_entry x)"
    using st ph by (metis structure_inv_def)
  then obtain h where b: "at_boundary g" and h: "block_index P = Some h" by auto
  let ?h = "headers P ! h"
  let ?e = "ring_back ?h (index_tail ?h + 1) 0" and ?t = "(index_tail ?h + 1) AND (capacity ?h - 1)"
  have cur: "current_header P = Some ?h" by (simp add: current_header_def h)
  show ?thesis
  proof (cases "entry_key (entries P ! ?e) = 1 \<or> entry_value (entries P ! ?e) = None")
    case True
    have "next_place (headers P) (block_index P) ?e ?t" by (simp add: next_place_def h next_entry_back)
    then have "step_ok N g P p (Next (set_enqueuing (Store_key x ?e ?t) P, p) None)"
      using load_entry_usable [OF st k h b refl True] b
      by (intro phase_step [OF inv]) (simp_all add: ph no_element_def no_block_def)
    with True show ?thesis by (simp add: enqueue_step_def ph cur next_entry_back)
  next
    case False
    with load_entry_used [OF st k h b refl] have "step_ok N g P p (Next (set_enqueuing (Grow_index x) P, p) None)"
      using b h by (intro phase_step [OF inv]) (simp_all add: ph no_element_def no_block_def)
    with False show ?thesis by (auto simp: enqueue_step_def ph cur next_entry_back)
  qed
qed

section \<open>Growing the ring\<close>

lemma copy_ring_map:
  assumes h: "ring_ok n h" and "a \<le> unat (capacity h)" and "0 < a" and "a \<le> room"
  shows "copy_ring room h ((index_tail h - of_nat a) AND (capacity h - 1)) =
    Some (map (\<lambda>i. ring_back h (index_tail h) (a - 1 - i)) [0..<a])"
  using assms(2-)
proof (induction a arbitrary: room)
  case (Suc a)
  from h obtain j where j: "j < 60" "capacity h = 2 ^ j" "unat (capacity h) = 2 ^ j" "index_tail h AND (capacity h - 1) = index_tail h"
    by (rule ring_okE)
  let ?t = "index_tail h"
  obtain r where room: "room = Suc r" using Suc.prems(3) by (cases room) auto
  have "take_bit j (take_bit j (?t - of_nat (Suc a)) + 1) = take_bit j ((?t - of_nat (Suc a)) + 1)"
    using j(1) by (intro take_bit_plus_take_bit) simp
  also have "(?t - of_nat (Suc a)) + 1 = ?t - of_nat a" by simp
  finally have pos: "(((?t - of_nat (Suc a)) AND (capacity h - 1)) + 1) AND (capacity h - 1) = (?t - of_nat a) AND (capacity h - 1)"
    by (simp only: j(2) and_capacity)
  have end_iff: "(?t - of_nat a) AND (capacity h - 1) = ?t \<longleftrightarrow> a = 0"
  proof
    assume "(?t - of_nat a) AND (capacity h - 1) = ?t"
    then have "(?t - of_nat 0) AND (2 ^ j - 1) = (?t - of_nat a) AND (2 ^ j - 1)" using j(2,4) by simp
    moreover have "a - 0 < 2 ^ j" using Suc.prems(1) j(3) by simp
    ultimately show "a = 0" using and_capacity_eq_iff [of 0 a j ?t] j(1) by simp
  qed (use j(4) in simp)
  have step: "copy_ring room h ((?t - of_nat (Suc a)) AND (capacity h - 1)) =
    (if a = 0 then Some [ring_back h ?t a]
     else map_option ((#) (ring_back h ?t a)) (copy_ring r h ((?t - of_nat a) AND (capacity h - 1))))"
    unfolding room copy_ring.simps pos Let_def end_iff by (simp add: ring_back_def)
  have m: "map (\<lambda>i. ring_back h ?t (Suc a - 1 - i)) [0..<Suc a] = ring_back h ?t a # map (\<lambda>i. ring_back h ?t (a - 1 - i)) [0..<a]"
    by (simp add: upt_conv_Cons map_Suc_upt [symmetric] o_def del: upt_Suc)
  show ?case
  proof (cases "a = 0")
    case True
    then show ?thesis unfolding step m by simp
  next
    case False
    then have "copy_ring r h ((?t - of_nat a) AND (capacity h - 1)) = Some (map (\<lambda>i. ring_back h ?t (a - 1 - i)) [0..<a])"
      using Suc.prems room by (intro Suc.IH) simp_all
    then show ?thesis unfolding step m using False by (simp only: if_False option.map)
  qed
qed simp

lemma copy_ring_whole:
  assumes h: "ring_ok n h" and room: "unat (capacity h) \<le> room"
  shows "copy_ring room h (index_tail h) =
    Some (map (\<lambda>i. ring_back h (index_tail h) (unat (capacity h) - 1 - i)) [0..<unat (capacity h)])"
proof -
  from h obtain j where j: "j < 60" "capacity h = 2 ^ j" "unat (capacity h) = 2 ^ j" "index_tail h AND (capacity h - 1) = index_tail h"
    by (rule ring_okE)
  have "take_bit j (2 ^ j) = (0 :: u64)" by (rule bit_eqI) (simp add: bit_simps)
  then have "take_bit j (index_tail h - 2 ^ j) = take_bit j (index_tail h)"
    using take_bit_plus_take_bit [of j "2 ^ j" "index_tail h - 2 ^ j"] j(1) by simp
  moreover have "(of_nat (2 ^ j) :: u64) = 2 ^ j" by simp
  ultimately have "(index_tail h - of_nat (unat (capacity h))) AND (capacity h - 1) = index_tail h"
    using j(4) unfolding j(3) unfolding j(2) and_capacity by (simp only:)
  moreover have "0 < unat (capacity h)" by (simp add: j(3))
  ultimately show ?thesis using copy_ring_map [OF h order_refl _ room] by (simp only: simp_thms)
qed

lemma old_ring:
  assumes h: "ring_ok n h" and full: "set (ring h) = {..<n}"
  defines "r \<equiv> the (copy_ring (unat (2 * capacity h)) h (index_tail h))"
  assumes room: "unat (capacity h) \<le> unat (2 * capacity h)"
  shows "length r = unat (capacity h)" "distinct r" "set r = {..<n}" "n = unat (capacity h)"
    and "a < unat (capacity h) \<Longrightarrow> r ! (unat (capacity h) - 1 - a) = ring_back h (index_tail h) a"
proof -
  let ?c = "unat (capacity h)"
  have r: "r = map (\<lambda>i. ring_back h (index_tail h) (?c - 1 - i)) [0..<?c]" unfolding r_def copy_ring_whole [OF h room] by (rule option.sel)
  then show l: "length r = ?c" by simp
  have "inj_on (\<lambda>i. ring_back h (index_tail h) (?c - 1 - i)) {0..<?c}"
  proof (rule inj_onI)
    fix i j
    assume "i \<in> {0..<?c}" "j \<in> {0..<?c}" "ring_back h (index_tail h) (?c - 1 - i) = ring_back h (index_tail h) (?c - 1 - j)"
    then have "i < ?c" "j < ?c" and "?c - 1 - i = ?c - 1 - j"
      using ring_back_inj [OF h, of "index_tail h" "?c - 1 - i" "?c - 1 - j"] by simp_all
    then show "i = j" by linarith
  qed
  then show d: "distinct r" by (simp add: r distinct_map)
  have dr: "distinct (ring h)" "length (ring h) = ?c" using h unfolding ring_ok_def by blast+
  have "card {..<n} = ?c" using distinct_card [OF dr(1)] dr(2) unfolding full by (simp only:)
  then show n: "n = ?c" by (simp only: card_lessThan)
  have "set r \<subseteq> {..<n}" using ring_back_in [OF h] full by (auto simp: r)
  then show "set r = {..<n}" using distinct_card [OF d] l n by (intro card_subset_eq) simp_all
  show "a < ?c \<Longrightarrow> r ! (?c - 1 - a) = ring_back h (index_tail h) a" by (simp add: r)
qed

definition grown :: "nat \<Rightarrow> index_header \<Rightarrow> index_header" where
  "grown n h = \<lparr> capacity = 2 * capacity h, index_tail = (capacity h - 1) AND (2 * capacity h - 1),
     ring = the (copy_ring (unat (2 * capacity h)) h (index_tail h)) @ map (\<lambda>i. n + i) [0..<unat (capacity h)] \<rparr>"

lemma grown_ring:
  assumes h: "ring_ok n h" and full: "set (ring h) = {..<n}" and small: "unat (capacity h) < 2 ^ 57"
  shows "ring_ok (n + unat (capacity h)) (grown n h)" "set (ring (grown n h)) = {..<n + unat (capacity h)}"
    "capacity (grown n h) = 2 * capacity h" "unat (capacity (grown n h)) = 2 * unat (capacity h)"
    "a < unat (capacity h) \<Longrightarrow> ring_back (grown n h) (index_tail (grown n h)) a = ring_back h (index_tail h) a"
    "ring_back (grown n h) (index_tail (grown n h) + 1) 0 = n"
proof -
  from h obtain j where j: "j < 60" "capacity h = 2 ^ j" "unat (capacity h) = 2 ^ j" by (rule ring_okE)
  have pj: "0 < (2 :: nat) ^ j" by simp
  have j57: "j < 57" using small j(3) power_less_imp_less_exp [of "2 :: nat" j 57] by simp
  let ?c = "unat (capacity h)" and ?g = "grown n h"
  have cap: "2 * capacity h = 2 ^ Suc j" by (simp add: j(2))
  show "capacity ?g = 2 * capacity h" by (simp add: grown_def)
  have capg: "capacity ?g = 2 ^ Suc j" unfolding cap [symmetric] by (simp add: grown_def)
  have uc: "unat (2 * capacity h) = 2 * ?c" unfolding cap using capacity_power [of "Suc j"] j57 j(3) by simp
  then show "unat (capacity ?g) = 2 * ?c" by (simp add: grown_def)
  have "?c \<le> unat (2 * capacity h)" by (simp add: uc)
  note old = old_ring [OF h full this]
  show st: "set (ring ?g) = {..<n + ?c}" 
  proof -
    have "set (ring ?g) = {..<n} \<union> (+) n ` {0..<?c}" by (simp add: grown_def old(3))
    also have "\<dots> = {..<n + ?c}" by (simp add: image_add_atLeastLessThan ivl_disj_un_one)
    finally show ?thesis .
  qed
  have tl: "unat (index_tail ?g) = ?c - 1" "index_tail ?g = capacity h - 1"
  proof -
    have u: "unat (capacity h - 1) = ?c - 1"
    proof -
      have "capacity h - 1 = of_nat (2 ^ j - 1)" by (simp add: j(2) of_nat_diff)
      moreover have "2 ^ j - 1 < (2 :: nat) ^ 64" using j57 power_strict_increasing [of j 64 "2 :: nat"] by simp
      ultimately show ?thesis using j(3) unat_of_nat_u64 [of "2 ^ j - 1"] by (simp only:)
    qed
    have "unat ((capacity h - 1) AND (2 ^ Suc j - 1)) = (?c - 1) mod 2 ^ Suc j" by (simp only: unat_and_capacity u)
    also have "\<dots> = ?c - 1" by (rule mod_less) (use pj in \<open>unfold j(3) power_Suc, linarith\<close>)
    finally show "unat (index_tail ?g) = ?c - 1" by (simp add: grown_def cap del: power_Suc)
    then show "index_tail ?g = capacity h - 1" by (simp only: word_unat_eq_iff u)
  qed
  have len: "length (ring ?g) = 2 * ?c" using old(1) by (simp add: grown_def)
  have "{..<n} \<inter> (+) n ` {0..<?c} = {}" by auto
  then have dis: "distinct (ring ?g)" unfolding grown_def by (simp add: old(2,3) distinct_map)
  have "index_tail ?g AND (2 * capacity h - 1) = index_tail ?g"
    by (simp add: grown_def cap and_capacity del: power_Suc)
  then show "ring_ok (n + ?c) ?g" using len dis st uc cap j57 unfolding ring_ok_def
    by (intro conjI exI [of _ "Suc j"]) (simp_all add: grown_def del: power_Suc)
  have pos: "0 < ?c" by (simp add: j(3))
  show "ring_back ?g (index_tail ?g) a = ring_back h (index_tail h) a" if a: "a < ?c"
  proof -
    have "unat ((index_tail ?g - of_nat a) AND (capacity ?g - 1)) = ?c - 1 - a"
    proof -
      have "(of_nat (m - 1 - a) :: u64) = of_nat m - 1 - of_nat a" if "a < m" for m using that by (simp add: of_nat_diff)
      from this [OF a] have "index_tail ?g - of_nat a = of_nat (?c - 1 - a)" by (simp add: tl(2))
      moreover have "unat (of_nat (?c - 1 - a) :: u64) = ?c - 1 - a" using small by (intro unat_of_nat_u64) simp
      moreover have "(?c - 1 - a) mod 2 ^ Suc j = ?c - 1 - a" by (rule mod_less) (use pj in \<open>unfold j(3) power_Suc, linarith\<close>)
      ultimately show ?thesis by (simp only: capg unat_and_capacity)
    qed
    moreover have "?c - 1 - a < ?c" using pos by simp
    ultimately show ?thesis using old(1) old(5) [OF a] by (simp add: ring_back_def ring_at_def nth_append grown_def)
  qed
  show "ring_back ?g (index_tail ?g + 1) 0 = n"
  proof -
    have "?c mod 2 ^ Suc j = ?c" by (rule mod_less) (use pj in \<open>unfold j(3) power_Suc, linarith\<close>)
    then have "unat ((index_tail ?g + 1) AND (capacity ?g - 1)) = ?c"
      unfolding tl(2) capg by (simp only: unat_and_capacity diff_add_cancel)
    then show ?thesis using old(1) pos by (simp add: ring_back_def ring_at_def nth_append grown_def)
  qed
qed

abbreviation empty_entry :: index_entry where
  "empty_entry \<equiv> \<lparr> entry_key = INVALID_BLOCK_BASE, entry_value = None \<rparr>"

lemma new_block_index_grown:
  assumes cur: "current_header P = Some h" "next_block_index_capacity P = 2 * capacity h"
    and h: "ring_ok n h" and uc: "unat (2 * capacity h) = 2 * unat (capacity h)"
  shows "new_block_index True P = Some (True, P\<lparr> headers := headers P @ [grown (length (entries P)) h],
    entries := entries P @ replicate (unat (capacity h)) empty_entry,
    block_index := Some (length (headers P)), next_block_index_capacity := 2 * next_block_index_capacity P \<rparr>)"
proof -
  have "copy_ring (unat (2 * capacity h)) h (index_tail h) =
    Some (map (\<lambda>i. ring_back h (index_tail h) (unat (capacity h) - 1 - i)) [0..<unat (capacity h)])"
    by (rule copy_ring_whole [OF h]) (simp add: uc)
  then show ?thesis by (simp add: new_block_index_def Let_def grown_def push_bit_eq_mult cur uc)
qed

lemma grown_window:
  assumes w: "window ent h (index_tail h) N k" and h: "ring_ok n h" "set (ring h) = {..<n}" "unat (capacity h) < 2 ^ 57"
  shows "window ent (grown n h) (index_tail (grown n h)) N k"
proof -
  note gr = grown_ring [OF h]
  have less: "N - 1 - k' < unat (capacity h)" if "k \<le> k'" for k' using windowD(1) [OF w] that by linarith
  have "ring_back (grown n h) (index_tail (grown n h)) (N - 1 - k') = ent k'" if "k \<le> k'" "k' < N" for k'
    using gr(5) [OF less [OF that(1)]] windowD(2) [OF w that] by simp
  moreover have "N - 1 - k < unat (capacity (grown n h))" using windowD(1) [OF w] gr(4) by linarith
  ultimately show ?thesis by (simp add: window_def)
qed

lemma inv_entries_append:
  assumes "inv_entries g lv es"
  shows "inv_entries g lv (es @ replicate m empty_entry)"
proof -
  let ?es = "es @ replicate m empty_entry"
  have at: "?es ! e = (if e < length es then es ! e else empty_entry)" if "e < length ?es" for e
    using that by (auto simp: nth_append)
  have in_es: "entry_of g k < length es" if "k < keyed g" for k using assms that by (simp add: inv_entries_def)
  have "published g \<le> keyed g" using assms by (simp add: inv_entries_def)
  then have "?es ! entry_of g k = es ! entry_of g k" if "k < published g \<or> k < keyed g" for k
    using in_es [of k] that by (auto simp: nth_append)
  moreover have "entry_value (?es ! e) \<noteq> None \<Longrightarrow> e < length ?es \<Longrightarrow> e < length es \<and> entry_value (es ! e) \<noteq> None" for e
    using at [of e] by (auto split: if_splits)
  ultimately show ?thesis using assms in_es unfolding inv_entries_def by (auto intro: trans_less_add1)
qed

lemma newest_entries [simp]: "inv_entries (g\<lparr>newest := ns\<rparr>) lv es = inv_entries g lv es"
  by (simp add: inv_entries_def nth_index_def)

lemma step_grow:
  assumes inv: "producer_inv N g P p" "N + 1 < 2 ^ 56" "pool_ok N p" and ph: "enqueuing P = Grow_index x"
  shows "step_ok N g P p (enqueue_step a P p)"
proof -
  have st: "structure_inv g P p" and k: "counter_inv N g P" using inv(1) by (simp_all add: producer_inv_def)
  have "writer_ok g (alive g P) (headers P) (block_index P) (tail_block P) (Grow_index x)"
    using st ph by (metis structure_inv_def)
  then obtain h where b: "at_boundary g" and key: "keyed g = opened g" and h: "block_index P = Some h"
    and full: "unat (capacity (headers P ! h)) \<le> opened g" by auto
  note cur = current_ring [OF st h]
  let ?h = "headers P ! h" and ?n = "length (entries P)" and ?m = "length (headers P)"
  let ?g' = "g\<lparr> newest := newest g @ [opened g] \<rparr>"
  show ?thesis
  proof (cases a)
    case None
    have "new_block_index False P = Some (False, P)" by (simp add: new_block_index_def)
    moreover have "step_ok N g P p (Next (set_enqueuing Idle P, p) (Some Enqueue_failed))"
      using b by (intro phase_step [OF inv]) (auto simp: ph no_element_def no_block_def settled_def at_boundary_def)
    ultimately show ?thesis by (simp add: enqueue_step_def ph None)
  next
    case (Some r)
    have "opened g \<le> enqueued g" "enqueued g < 2 ^ 56" using b k by (simp_all add: at_boundary_def counter_inv_def)
    then have small: "unat (capacity ?h) < 2 ^ 57" using full by simp
    note gr = grown_ring [OF cur(2,4) small]
    define P1 where "P1 = P\<lparr> headers := headers P @ [grown ?n ?h], entries := entries P @ replicate (unat (capacity ?h)) empty_entry,
      block_index := Some ?m, next_block_index_capacity := 2 * next_block_index_capacity P \<rparr>"
    have nb: "new_block_index True P = Some (True, P1)"
      unfolding P1_def by (rule new_block_index_grown [OF _ _ cur(2)]) (use gr(3,4) in \<open>simp_all add: current_header_def h cur(5)\<close>)
    let ?t = "(index_tail (grown ?n ?h) + 1) AND (capacity (grown ?n ?h) - 1)"
    have ne: "next_entry (grown ?n ?h) = (?t, ?n)" by (simp add: next_entry_back gr(6))
    have pos: "0 < unat (capacity ?h)" using ring_okE [OF cur(2)] by (metis zero_less_power zero_less_numeral)
    let ?P' = "set_enqueuing (Store_key x ?n ?t) P1"
    have st': "step_ok N g P p (Next (?P', p) None)"
    proof (rule index_step [OF inv, where g' = ?g'])
      have r: "inv_rings g (alive g P) (headers P) (block_index P) ?n (next_block_index_capacity P)"
        using st by (simp add: structure_inv_def)
      then have l: "length (newest g) = ?m" by (simp add: inv_rings_def)
      have old: "ring_ok (?n + unat (capacity ?h)) (headers P ! i)" if "i < ?m" for i
        using r that unfolding inv_rings_def ring_ok_def by fastforce
      have w: "window (entry_of g) (grown ?n ?h) (index_tail (grown ?n ?h)) (opened g) j" if "j < opened g" "alive g P j" for j
        by (rule grown_window [OF cur(7) [OF that] cur(2,4) small])
      have le: "newest g ! i \<le> published g" if "i < ?m" for i
        using r that h cur(3) b by (cases "i = h") (auto simp: inv_rings_def at_boundary_def)
      show "inv_rings ?g' (alive g P) (headers ?P') (block_index ?P') (length (entries ?P')) (next_block_index_capacity ?P')"
        unfolding inv_rings_def
      proof (intro conjI allI impI)
        fix i
        assume "i < length (headers ?P')"
        then show "ring_ok (length (entries ?P')) (headers ?P' ! i)"
          using old [of i] gr(1) by (cases "i < ?m") (auto simp: P1_def nth_append less_Suc_eq)
      next
        fix i
        assume "i < length (headers ?P')" "block_index ?P' \<noteq> Some i"
        then show "newest ?g' ! i \<le> published ?g'" using le [of i] l by (auto simp: P1_def nth_append less_Suc_eq)
      next
        fix i j
        assume "i < length (headers ?P')" "j < newest ?g' ! i" "alive g P j"
        then show "window (entry_of ?g') (headers ?P' ! i) (index_tail (headers ?P' ! i)) (newest ?g' ! i) j"
          using w [of j] r l by (cases "i < ?m") (auto simp: P1_def nth_append less_Suc_eq inv_rings_def)
      next
        show "case block_index ?P' of
            None \<Rightarrow> headers ?P' = [] \<and> keyed ?g' = 0 \<and> length (entries ?P') = 0
          | Some i \<Rightarrow> i < length (headers ?P') \<and> newest ?g' ! i = opened ?g' \<and> set (ring (headers ?P' ! i)) = {..<length (entries ?P')} \<and>
              next_block_index_capacity ?P' = 2 * capacity (headers ?P' ! i) \<and>
              unat (capacity (headers ?P' ! i)) \<le> 2 * enqueued ?g' + 32 \<and>
              (opened ?g' < keyed ?g' \<longrightarrow>
                (\<forall>j < keyed ?g'. alive g P j \<longrightarrow> window (entry_of ?g') (headers ?P' ! i) (index_tail (headers ?P' ! i) + 1) (keyed ?g') j))"
          using l gr(2-4) cur(5) key full \<open>opened g \<le> enqueued g\<close> by (simp add: P1_def nth_append)
      qed (simp add: P1_def l)
      have "inv_entries g (alive g P) (entries P)" using st by (simp add: structure_inv_def)
      from inv_entries_append [OF this] show "inv_entries ?g' (alive g P) (entries ?P')" by (simp add: P1_def)
      have "opened g - j < 2 * unat (capacity ?h)" if "j < opened g" "alive g P j" for j
        using windowD(1) [OF cur(7) [OF that]] pos by linarith
      then show "writer_ok ?g' (alive g P) (headers ?P') (block_index ?P') (tail_block ?P') (enqueuing ?P')"
        using b gr(4) ne by (simp add: P1_def at_boundary_def next_place_def fits_def nth_append)
      fix c
      assume "reader_ok g (headers P) (dequeuing P c)"
      then show "reader_ok ?g' (headers ?P') (dequeuing P c)"
        by (rule reader_ok_same) (use l in \<open>auto simp: same_counts_def P1_def nth_append\<close>)
    qed (simp_all add: same_counts_def P1_def ph no_element_def no_block_def)
    have "entry_key (entries P1 ! ?n) = INVALID_BLOCK_BASE" using pos by (simp add: P1_def nth_append)
    moreover have "current_header P1 = Some (grown ?n ?h)" by (simp add: P1_def current_header_def)
    ultimately show ?thesis using st' by (simp add: enqueue_step_def ph Some nb ne)
  qed
qed

end
