(* ===== verification/Queue_Open.thy ===== *)
theory Queue_Open
  imports Queue_Index
begin

text \<open>
  The owner stores the key and the tail of the block index, gets a block and publishes it, and takes the
  entry back when there is no block to get.
\<close>

section \<open>The entry\<close>

lemma window_cong: "(\<And>k. k < N \<Longrightarrow> ent' k = ent k) \<Longrightarrow> window ent' h t N j = window ent h t N j"
  by (auto simp: window_def)

lemma next_place_back:
  assumes "next_place (headers P) (block_index P) e t"
  obtains h where "block_index P = Some h" "e = ring_back (headers P ! h) (index_tail (headers P ! h) + 1) 0"
    "t = (index_tail (headers P ! h) + 1) AND (capacity (headers P ! h) - 1)"
  using assms by (auto simp: next_place_def next_entry_back)

lemma newest_opened:
  assumes st: "structure_inv g P p" and i: "i < length (headers P)"
  shows "newest g ! i \<le> opened g"
proof (cases "block_index P = Some i")
  case True
  then show ?thesis using current_ring(3) [OF st True] by simp
next
  case False
  then have "newest g ! i \<le> published g" using st i by (simp add: structure_inv_def inv_rings_def)
  then show ?thesis using structure_entries(1) [OF st] by linarith
qed

text \<open>The window of the next block: the entries that serve live blocks, and the next one.\<close>

lemma next_window:
  assumes st: "structure_inv g P p" and k: "counter_inv N g P" and h: "block_index P = Some h"
    and e: "e = ring_back (headers P ! h) (index_tail (headers P ! h) + 1) 0"
    and fit: "\<And>j. j < opened g \<Longrightarrow> alive g P j \<Longrightarrow> opened g - j < unat (capacity (headers P ! h))"
    and j: "j < opened g + 1" "alive g P j"
  shows "window ((entry_of g)(opened g := e)) (headers P ! h) (index_tail (headers P ! h) + 1) (opened g + 1) j"
proof -
  note cur = current_ring [OF st h]
  let ?h = "headers P ! h" and ?ent = "(entry_of g)(opened g := e)"
  have "0 < unat (capacity ?h)" using ring_okE [OF cur(2)] by (metis zero_less_power zero_less_numeral)
  then have "opened g + 1 - 1 - j < unat (capacity ?h)" using fit [of j] j by (cases "j = opened g") simp_all
  moreover have "ring_back ?h (index_tail ?h + 1) (opened g + 1 - 1 - k') = ?ent k'" if "j \<le> k'" "k' < opened g + 1" for k'
  proof (cases "k' = opened g")
    case False
    then have "k' < opened g" using that by simp
    then have "opened g + 1 - 1 - k' = Suc (opened g - 1 - k')" by simp
    moreover have "ring_back ?h (index_tail ?h) (opened g - 1 - k') = entry_of g k'"
      using cur(7) [of j] that \<open>k' < opened g\<close> j by (intro windowD(2)) auto
    ultimately show ?thesis using False ring_back_shift [of ?h "index_tail ?h" "opened g - 1 - k'"] by simp
  qed (simp add: e)
  ultimately show ?thesis by (simp add: window_def)
qed

lemma keyed_entry:
  assumes st: "structure_inv g P p" and k: "counter_inv N g P" and h: "block_index P = Some h"
    and e: "e = ring_back (headers P ! h) (index_tail (headers P ! h) + 1) 0" and less: "opened g < keyed g"
  shows "keyed g = opened g + 1" and "entry_of g (opened g) = e"
proof -
  note en = structure_entries [OF st]
  show key: "keyed g = opened g + 1" using en(1,3) less by linarith
  have "alive g P (opened g)" by (rule published_live [OF st k en(1)])
  then have "window (entry_of g) (headers P ! h) (index_tail (headers P ! h) + 1) (keyed g) (opened g)"
    using current_ring(8) [OF st h less] less by simp
  from windowD(2) [OF this order_refl less] show "entry_of g (opened g) = e" using key e by simp
qed

lemma window_distinct:
  assumes w: "window ent h t N j" and h: "ring_ok n h" and ab: "j \<le> a" "a < N" "j \<le> b" "b < N" and eq: "ent a = ent b"
  shows "a = b"
proof -
  have "ring_back h t (N - 1 - a) = ring_back h t (N - 1 - b)" using windowD(2) [OF w] ab eq by simp
  moreover have "N - 1 - a < unat (capacity h)" "N - 1 - b < unat (capacity h)" using windowD(1) [OF w] ab by linarith+
  ultimately have "N - 1 - a = N - 1 - b" using ring_back_inj [OF h] by blast
  then show ?thesis using ab by linarith
qed

lemma step_store_key:
  assumes inv: "producer_inv N g P p" "N + 1 < 2 ^ 56" "pool_ok N p" and ph: "enqueuing P = Store_key x e t"
  shows "step_ok N g P p (enqueue_step a P p)"
proof -
  have st: "structure_inv g P p" and k: "counter_inv N g P" using inv(1) by (simp_all add: producer_inv_def)
  have wr: "writer_ok g (alive g P) (headers P) (block_index P) (tail_block P) (Store_key x e t)"
    using st ph by (metis structure_inv_def)
  then have b: "at_boundary g" and np: "next_place (headers P) (block_index P) e t" by simp_all
  from np obtain h where h: "block_index P = Some h" and e: "e = ring_back (headers P ! h) (index_tail (headers P ! h) + 1) 0"
    by (rule next_place_back)
  have fit: "opened g - j < unat (capacity (headers P ! h))" if "j < opened g" "alive g P j" for j
    using wr h that by (auto simp: fits_def)
  note cur = current_ring [OF st h] and en = structure_entries [OF st]
  let ?ent = "(entry_of g)(opened g := e)"
  let ?g' = "g\<lparr> keyed := opened g + 1, entry_of := ?ent \<rparr>"
  let ?es = "(entries P)[e := (entries P ! e)\<lparr> entry_key := tail_index P \<rparr>]"
  let ?P' = "set_enqueuing (Store_tail x e t) (P\<lparr> entries := ?es \<rparr>)"
  have e_less: "e < length (entries P)" unfolding e by (rule ring_back_less [OF cur(2)])
  have pub: "published g = opened g" and T: "enqueued g = 32 * opened g" using b by (simp_all add: at_boundary_def)
  have same: "?ent j = entry_of g j" if "j < keyed g" for j
    using keyed_entry [OF st k h e] that en(3) pub by (cases "j = opened g") auto
  have win: "window ?ent (headers P ! h) (index_tail (headers P ! h) + 1) (opened g + 1) j" if "j < opened g + 1" "alive g P j" for j
    by (rule next_window [OF st k h e fit that])
  have other: "entry_of g k' \<noteq> e" if "k' < opened g" "j \<le> k'" "alive g P j" for j k'
  proof -
    have "window ?ent (headers P ! h) (index_tail (headers P ! h) + 1) (opened g + 1) j" using that by (intro win) auto
    from window_distinct [OF this cur(2), where a = k' and b = "opened g"] that show ?thesis by auto
  qed
  have val: "entry_value (?es ! i) = entry_value (entries P ! i)" for i using e_less by (cases "i = e") simp_all
  have "step_ok N g P p (Next (?P', p) None)"
  proof (rule index_step [OF inv, where g' = ?g'])
    show "inv_entries ?g' (alive g P) (entries ?P')"
      unfolding inv_entries_def
    proof (intro conjI allI impI)
      fix j
      assume "j < keyed ?g'"
      then show "entry_of ?g' j < length (entries ?P')" using e_less en(2) en(4) [of j] by auto
    next
      fix j k'
      assume j: "alive g P j \<and> j \<le> k' \<and> k' < keyed ?g'"
      have "tail_index P = nth_index g (32 * opened g)" using k T by (simp add: counter_inv_def inv_counters_def)
      moreover have "entry_key (entries P ! entry_of g k') = nth_index g (32 * k')" if "k' \<noteq> opened g"
        using en(2) en(5) [where k = j and k' = k'] j that by simp
      ultimately show "entry_key (entries ?P' ! entry_of ?g' k') = nth_index ?g' (32 * k')"
        using e_less other [of k' j] j by (cases "k' = opened g") (auto simp: nth_index_def)
    next
      fix j
      assume "j < published ?g'" "alive g P j"
      then show "entry_value (entries ?P' ! entry_of ?g' j) = Some (home_of ?g' j)" using en(6) [of j] pub by (simp add: val)
    next
      fix i
      assume "i < length (entries ?P')" "entry_value (entries ?P' ! i) \<noteq> None"
      then obtain j where "j < published g" "alive g P j" "entry_of g j = i" using en(7) [of i] by (auto simp: val)
      then show "\<exists>j < published ?g'. alive g P j \<and> entry_of ?g' j = i" using pub by (intro exI [of _ j]) simp
    qed (simp_all add: pub)
    have r: "inv_rings g (alive g P) (headers P) (block_index P) (length (entries P)) (next_block_index_capacity P)"
      using st by (simp add: structure_inv_def)
    have w: "window ?ent (headers P ! i) tl (newest g ! i) j = window (entry_of g) (headers P ! i) tl (newest g ! i) j"
      if "i < length (headers P)" for i j tl
      using newest_opened [OF st that] by (intro window_cong) auto
    show "inv_rings ?g' (alive g P) (headers ?P') (block_index ?P') (length (entries ?P')) (next_block_index_capacity ?P')"
      using r win by (auto simp: inv_rings_def h w)
    show "writer_ok ?g' (alive g P) (headers ?P') (block_index ?P') (tail_block ?P') (enqueuing ?P')"
      using b np by (simp add: at_boundary_def)
    fix c
    assume rd: "reader_ok g (headers P) (dequeuing P c)"
    have lt: "n div 32 < opened g" if "claimed g i n" for i n using claimed_published(1) [OF st k that] pub by simp
    then show "reader_ok ?g' (headers ?P') (dequeuing P c)"
      using en(2,3) pub same by (intro reader_ok_same [OF rd]) (auto simp: same_counts_def dest: lt)
  qed (simp_all add: same_counts_def ph no_element_def no_block_def)
  then show ?thesis by (simp add: enqueue_step_def ph)
qed

section \<open>The tail of the ring\<close>

lemma ring_ok_tail:
  assumes "ring_ok n h"
  shows "ring_ok n (h\<lparr> index_tail := t AND (capacity h - 1) \<rparr>)"
  using assms by (auto simp: ring_ok_def and_capacity)

lemma window_masked:
  assumes "ring_ok n h"
  shows "window ent (h\<lparr> index_tail := u \<rparr>) ((t AND (capacity h - 1)) + x) N j = window ent h (t + x) N j"
proof -
  have "ring_back (h\<lparr> index_tail := u \<rparr>) ((t AND (capacity h - 1)) + x) i = ring_back h (t + x) i" for i
    using ring_back_masked [OF assms, of t x i] by (simp add: ring_back_def ring_at_def)
  then show ?thesis by (simp add: window_def)
qed

text \<open>Moving the tail of the current ring, so that it is good for the blocks below \<open>N\<close>.\<close>

definition move_tail :: "nat \<Rightarrow> nat \<Rightarrow> 'a ghost \<Rightarrow> 'a ghost" where
  "move_tail h N g = g\<lparr> opened := N, newest := (newest g)[h := N] \<rparr>"

lemma move_tail_step:
  assumes inv: "producer_inv N g P p" "N + 1 < 2 ^ 56" "pool_ok N p"
    and ph: "no_element (enqueuing P)" "no_element ph" "no_block (enqueuing P)" "no_block ph"
    and h: "block_index P = Some h" and M: "published g \<le> M" "M \<le> keyed g"
    and win: "\<And>j. j < M \<Longrightarrow> alive g P j \<Longrightarrow> window (entry_of g) (headers P ! h) t M j"
    and next_win: "\<And>j. M < keyed g \<Longrightarrow> j < keyed g \<Longrightarrow> alive g P j \<Longrightarrow> window (entry_of g) (headers P ! h) (t + 1) (keyed g) j"
    and writer: "writer_ok (move_tail h M g) (alive g P) ((headers P)[h := (headers P ! h)\<lparr> index_tail := t AND (capacity (headers P ! h) - 1) \<rparr>])
      (block_index P) (tail_block P) ph"
  shows "step_ok N g P p (Next (set_enqueuing ph (update_header h (t AND (capacity (headers P ! h) - 1)) P), p) None)"
proof (rule index_step [OF inv, where g' = "move_tail h M g"])
  have st: "structure_inv g P p" and k: "counter_inv N g P" using inv(1) by (simp_all add: producer_inv_def)
  note cur = current_ring [OF st h] and en = structure_entries [OF st]
  let ?t = "t AND (capacity (headers P ! h) - 1)" and ?g' = "move_tail h M g"
  let ?P' = "set_enqueuing ph (update_header h ?t P)" and ?hdr = "(headers P ! h)\<lparr> index_tail := t AND (capacity (headers P ! h) - 1) \<rparr>"
  have r: "inv_rings g (alive g P) (headers P) (block_index P) (length (entries P)) (next_block_index_capacity P)"
    using st by (simp add: structure_inv_def)
  have l: "length (newest g) = length (headers P)" using r by (simp add: inv_rings_def)
  have masked: "window (entry_of g) ?hdr (?t + x) n j = window (entry_of g) (headers P ! h) (t + x) n j" for x n j
    by (rule window_masked [OF cur(2)])
  have w0: "window (entry_of g) ?hdr ?t n j = window (entry_of g) (headers P ! h) t n j" for n j using masked [of 0] by simp
  show "inv_rings ?g' (alive g P) (headers ?P') (block_index ?P') (length (entries ?P')) (next_block_index_capacity ?P')"
    unfolding inv_rings_def
  proof (intro conjI allI impI)
    fix i
    assume "i < length (headers ?P')"
    then show "ring_ok (length (entries ?P')) (headers ?P' ! i)"
      using r ring_ok_tail [OF cur(2), of t] by (cases "i = h") (auto simp: inv_rings_def)
  next
    fix i
    assume "i < length (headers ?P')" "block_index ?P' \<noteq> Some i"
    then show "newest ?g' ! i \<le> published ?g'" using r h by (auto simp: inv_rings_def move_tail_def)
  next
    fix i j
    assume "i < length (headers ?P')" "j < newest ?g' ! i" "alive g P j"
    then show "window (entry_of ?g') (headers ?P' ! i) (index_tail (headers ?P' ! i)) (newest ?g' ! i) j"
      using r win [of j] l by (cases "i = h") (auto simp: inv_rings_def move_tail_def w0)
  next
    show "case block_index ?P' of
        None \<Rightarrow> headers ?P' = [] \<and> keyed ?g' = 0 \<and> length (entries ?P') = 0
      | Some i \<Rightarrow> i < length (headers ?P') \<and> newest ?g' ! i = opened ?g' \<and> set (ring (headers ?P' ! i)) = {..<length (entries ?P')} \<and>
          next_block_index_capacity ?P' = 2 * capacity (headers ?P' ! i) \<and>
          unat (capacity (headers ?P' ! i)) \<le> 2 * enqueued ?g' + 32 \<and>
          (opened ?g' < keyed ?g' \<longrightarrow>
            (\<forall>j < keyed ?g'. alive g P j \<longrightarrow> window (entry_of ?g') (headers ?P' ! i) (index_tail (headers ?P' ! i) + 1) (keyed ?g') j))"
      using cur(1,4,5,6) l next_win by (simp add: h move_tail_def masked)
  qed (simp add: move_tail_def l)
  have ie: "inv_entries g (alive g P) (entries P)" using st by (simp add: structure_inv_def)
  then show "inv_entries ?g' (alive g P) (entries ?P')"
    using M by (auto simp: move_tail_def inv_entries_def nth_index_def)
  show "writer_ok ?g' (alive g P) (headers ?P') (block_index ?P') (tail_block ?P') (enqueuing ?P')" using writer by simp
  fix c
  assume rd: "reader_ok g (headers P) (dequeuing P c)"
  have "n div 32 < M" if "claimed g i n" for i n using claimed_published(1) [OF st k that] M(1) by simp
  then have "n div 32 < newest ?g' ! i" if "claimed g j n" "i < length (headers P)" "n div 32 < newest g ! i" for i j n
    using that l by (cases "i = h") (auto simp: move_tail_def)
  moreover have "capacity (headers ?P' ! i) = capacity (headers P ! i) \<and> ring (headers ?P' ! i) = ring (headers P ! i)"
    if "i < length (headers P)" for i using that by (cases "i = h") auto
  ultimately show "reader_ok ?g' (headers ?P') (dequeuing P c)"
    by (intro reader_ok_same [OF rd]) (auto simp: same_counts_def move_tail_def)
qed (use ph in \<open>simp_all add: same_counts_def move_tail_def\<close>)

lemma step_store_tail:
  assumes inv: "producer_inv N g P p" "N + 1 < 2 ^ 56" "pool_ok N p" and ph: "enqueuing P = Store_tail x e t"
  shows "step_ok N g P p (enqueue_step a P p)"
proof -
  have st: "structure_inv g P p" using inv(1) by (simp add: producer_inv_def)
  have "writer_ok g (alive g P) (headers P) (block_index P) (tail_block P) (Store_tail x e t)"
    using st ph by (metis structure_inv_def)
  then have b: "at_boundary g" and np: "next_place (headers P) (block_index P) e t"
    and key: "keyed g = opened g + 1" "entry_of g (opened g) = e" by simp_all
  from np obtain h where h: "block_index P = Some h" and t: "t = (index_tail (headers P ! h) + 1) AND (capacity (headers P ! h) - 1)"
    by (rule next_place_back)
  note cur = current_ring [OF st h] and en = structure_entries [OF st]
  have "step_ok N g P p (Next (set_enqueuing (Requisition x e) (update_header h t P), p) None)"
    unfolding t
  proof (rule move_tail_step [OF inv _ _ _ _ h, where M = "keyed g"])
    show "window (entry_of g) (headers P ! h) (index_tail (headers P ! h) + 1) (keyed g) j" if "j < keyed g" "alive g P j" for j
      using cur(8) key(1) that by simp
  qed (use b key en(1-3) in \<open>simp_all add: ph no_element_def no_block_def move_tail_def at_boundary_def h\<close>)
  then show ?thesis by (simp add: enqueue_step_def ph h)
qed

lemma step_rewind:
  assumes inv: "producer_inv N g P p" "N + 1 < 2 ^ 56" "pool_ok N p" and ph: "enqueuing P = Rewind e"
  shows "step_ok N g P p (enqueue_step a P p)"
proof -
  have st: "structure_inv g P p" using inv(1) by (simp add: producer_inv_def)
  have "writer_ok g (alive g P) (headers P) (block_index P) (tail_block P) (Rewind e)"
    using st ph by (metis structure_inv_def)
  then obtain h where op: "opened g = published g + 1" and T: "enqueued g = 32 * published g" and e: "entry_of g (published g) = e"
    and h: "block_index P = Some h" by auto
  note cur = current_ring [OF st h] and en = structure_entries [OF st]
  have key: "keyed g = published g + 1" using en(2,3) op by simp
  let ?h = "headers P ! h"
  have "step_ok N g P p (Next (set_enqueuing (Clear_value e) (update_header h ((index_tail ?h - 1) AND (capacity ?h - 1)) P), p) None)"
  proof (rule move_tail_step [OF inv _ _ _ _ h, where M = "published g"])
    show "window (entry_of g) ?h (index_tail ?h - 1 + 1) (keyed g) j" if "j < keyed g" "alive g P j" for j
      using cur(7) [of j] that key op by simp
    show "window (entry_of g) ?h (index_tail ?h - 1) (published g) j" if "j < published g" "alive g P j" for j
    proof -
      have w: "window (entry_of g) ?h (index_tail ?h) (opened g) j" using that op by (intro cur(7)) simp_all
      have "ring_back ?h (index_tail ?h - 1) (published g - 1 - k') = entry_of g k'" if "j \<le> k'" "k' < published g" for k'
        using windowD(2) [OF w that(1)] that op ring_back_shift [of ?h "index_tail ?h - 1" "published g - 1 - k'"]
        by (simp add: Suc_diff_Suc)
      moreover have "published g - 1 - j < unat (capacity ?h)" using windowD(1) [OF w] op by simp
      ultimately show ?thesis by (simp add: window_def)
    qed
  qed (use T e key in \<open>simp_all add: ph no_element_def no_block_def move_tail_def at_boundary_def h\<close>)
  then show ?thesis by (simp add: enqueue_step_def ph h Let_def)
qed

lemma step_clear:
  assumes inv: "producer_inv N g P p" "N + 1 < 2 ^ 56" "pool_ok N p" and ph: "enqueuing P = Clear_value e"
  shows "step_ok N g P p (enqueue_step a P p)"
proof -
  have st: "structure_inv g P p" and k: "counter_inv N g P" using inv(1) by (simp_all add: producer_inv_def)
  have "writer_ok g (alive g P) (headers P) (block_index P) (tail_block P) (Clear_value e)"
    using st ph by (metis structure_inv_def)
  then obtain h where b: "at_boundary g" and key: "keyed g = opened g + 1" and e: "entry_of g (opened g) = e" and h: "block_index P = Some h" by auto
  note cur = current_ring [OF st h] and en = structure_entries [OF st]
  have pub: "published g = opened g" and T: "enqueued g = 32 * opened g" using b by (simp_all add: at_boundary_def)
  let ?es = "(entries P)[e := (entries P ! e)\<lparr> entry_value := None \<rparr>]"
  let ?P' = "set_enqueuing Idle (P\<lparr> entries := ?es \<rparr>)"
  have e_less: "e < length (entries P)" using en(4) [of "opened g"] key e by simp
  have other: "entry_of g j \<noteq> e" if "j < published g" "alive g P j" for j
  proof -
    have "window (entry_of g) (headers P ! h) (index_tail (headers P ! h) + 1) (keyed g) j" using cur(8) [of j] that key pub by simp
    from window_distinct [OF this cur(2), where a = j and b = "opened g"] that key pub e show ?thesis by auto
  qed
  have fields: "entry_key (?es ! i) = entry_key (entries P ! i)" for i using e_less by (cases "i = e") simp_all
  have "step_ok N g P p (Next (?P', p) (Some Enqueue_failed))"
  proof (rule index_step [OF inv, where g' = g])
    have ie: "inv_entries g (alive g P) (entries P)" using st by (simp add: structure_inv_def)
    have "entry_value (?es ! entry_of g j) = Some (home_of g j)" if "j < published g" "alive g P j" for j
      using other [OF that] en(6) [OF that] by (auto simp: nth_list_update)
    moreover have "\<exists>j < published g. alive g P j \<and> entry_of g j = i" if "i < length ?es" "entry_value (?es ! i) \<noteq> None" for i
      using that e_less en(7) [of i] by (cases "i = e") auto
    ultimately show "inv_entries g (alive g P) (entries ?P')"
      using ie unfolding inv_entries_def by (auto simp: fields)
    show "inv_rings g (alive g P) (headers ?P') (block_index ?P') (length (entries ?P')) (next_block_index_capacity ?P')"
      using st by (simp add: structure_inv_def)
    show "writer_ok g (alive g P) (headers ?P') (block_index ?P') (tail_block ?P') (enqueuing ?P')"
      using T pub by (simp add: settled_def)
  qed (simp_all add: ph no_element_def no_block_def)
  then show ?thesis by (simp add: enqueue_step_def ph)
qed

section \<open>Getting a block\<close>

text \<open>What a call on the pool that returns a block does to the pool, and what one that returns none.\<close>

definition got_block :: "nat \<Rightarrow> 'a block_pool \<Rightarrow> nat \<Rightarrow> 'a block_pool \<Rightarrow> bool" where
  "got_block N p b p1 \<longleftrightarrow>
     (\<exists>blk. block_at p1 b = Some blk \<and> raw blk) \<and> (b \<in> spare p \<or> block_at p b = None) \<and> b \<notin> spare p1 \<and>
     spare p1 \<subseteq> spare p \<and> pool_ok (N + 1) p1 \<and> (\<forall>c. c \<noteq> b \<longrightarrow> block_at p1 c = block_at p c)"

definition got_none :: "nat \<Rightarrow> 'a block_pool \<Rightarrow> 'a block_pool \<Rightarrow> bool" where
  "got_none N p p1 \<longleftrightarrow> spare p1 = spare p \<and> pool_ok (N + 1) p1 \<and> block_at p1 = block_at p"

lemma take_initial_ok:
  assumes ok: "pool_ok N p" and N: "N + 1 < 2 ^ 56" and take: "take_from_initial_pool p = (r, p1)"
  shows "case r of Some b \<Rightarrow> got_block N p b p1 | None \<Rightarrow> got_none N p p1"
proof -
  have p1: "p1 = p\<lparr> pool_index := pool_index p + 1 \<rparr>" using take by (auto simp: take_from_initial_pool_def)
  have "unat (pool_index p) \<le> N" using ok by (simp add: pool_ok_def)
  moreover from this N have "unat (pool_index p) + 1 < 2 ^ 64" by simp
  ultimately have u: "unat (pool_index p + 1) = Suc (unat (pool_index p))" "Suc (unat (pool_index p)) \<le> N + 1"
    by (simp_all add: unat_word_ariths)
  show ?thesis
  proof (cases "pool_index p < pool_size p")
    case True
    then have r: "r = Some (unat (pool_index p))" using take by (simp add: take_from_initial_pool_def)
    have less: "unat (pool_index p) < unat (pool_size p)" using True by (simp add: word_less_nat_alt)
    have sp: "spare p = insert (unat (pool_index p)) (spare p1)" "unat (pool_index p) \<notin> spare p1"
      using ok less by (auto simp: spare_def p1 u(1) pool_ok_def)
    have "pool_ok (N + 1) p1" using ok less sp u(2) by (auto simp: pool_ok_def p1 u(1) spare_def)
    moreover have "\<exists>blk. block_at p1 (unat (pool_index p)) = Some blk \<and> raw blk" using ok sp(1) by (auto simp: pool_ok_def p1)
    ultimately show ?thesis using sp by (auto simp: r got_block_def p1)
  next
    case False
    then have r: "r = None" using take by (simp add: take_from_initial_pool_def)
    have "unat (pool_size p) \<le> unat (pool_index p)" using False by (simp add: word_less_nat_alt)
    then have sp: "spare p1 = spare p" "{unat (pool_index p1)..<unat (pool_size p1)} = {}" by (auto simp: spare_def p1 u(1))
    then have "pool_ok (N + 1) p1" using ok u(2) unfolding pool_ok_def by (auto simp: p1 u(1))
    with sp(1) show ?thesis by (simp add: r got_none_def p1)
  qed
qed

lemma take_free_ok:
  assumes ok: "pool_ok N p" and take: "try_get_block_from_free_list a p = (r, p1)"
  shows "case r of Some b \<Rightarrow> got_block N p b p1 | None \<Rightarrow> got_none N p p1"
proof (cases r)
  case None
  then have "p1 = p" using take by (auto simp: try_get_block_from_free_list_def split: option.splits if_splits)
  then show ?thesis using None ok by (simp add: got_none_def)
next
  case (Some b)
  then have b: "b \<in> set (free_list p)" and p1: "p1 = p\<lparr> free_list := remove1 b (free_list p) \<rparr>"
    using take by (auto simp: try_get_block_from_free_list_def split: option.splits if_splits)
  have sp: "spare p = insert b (spare p1)" "b \<notin> spare p1"
    using ok b by (auto simp: spare_def p1 pool_ok_def)
  have "pool_ok (N + 1) p1" using ok sp by (auto simp: pool_ok_def p1 spare_def)
  moreover have "\<exists>blk. block_at p1 b = Some blk \<and> raw blk" using ok sp(1) by (auto simp: pool_ok_def p1)
  ultimately show ?thesis using sp by (auto simp: Some got_block_def p1)
qed

lemma allocate_ok:
  assumes ok: "pool_ok N p" and create: "create_block a p = (r, p1)"
  shows "case r of Some b \<Rightarrow> got_block N p b p1 | None \<Rightarrow> got_none N p p1"
proof (cases r)
  case None
  then have "p1 = p" using create by (auto simp: create_block_def split: option.splits if_splits)
  then show ?thesis using None ok by (simp add: got_none_def)
next
  case (Some b)
  then have p1: "p1 = update_block b (new_block True) p" and b: "block_at p b = None"
    using create by (auto simp: create_block_def split: option.splits if_splits)
  have nb: "b \<notin> spare p" using ok b by (auto simp: pool_ok_def)
  then have "pool_ok N p1" using ok by (simp add: p1 pool_ok_update)
  then show ?thesis using b nb by (auto simp: Some got_block_def p1 raw_def new_block_def)
qed

end
