(* ===== verification/Queue_Publish.thy ===== *)
theory Queue_Publish
  imports Queue_Open
begin

text \<open>
  The owner gets a block, publishes it, constructs the element in it and stores the tail of the queue.
\<close>

section \<open>The new block\<close>

text \<open>Steps that change blocks that serve no block of indices, and the owner's phase.\<close>

lemma inv_blocks_other:
  assumes "inv_blocks g lv U C ph p" and "no_element ph" and "no_element ph'"
    and "\<And>k. k < published g \<Longrightarrow> lv k \<Longrightarrow> block_at p' (home_of g k) = block_at p (home_of g k)"
  shows "inv_blocks g lv U C ph' p'"
  using assms(1,4) by (simp add: inv_blocks_def block_ok_no_element [OF assms(2,3)])

lemma got_none_step:
  assumes inv: "producer_inv N g P p" "N + 1 < 2 ^ 56" and none: "got_none N p p1"
    and ph: "no_element (enqueuing P)" "no_element ph" "no_block (enqueuing P)" "no_block ph"
    and writer: "writer_ok g (alive g P) (headers P) (block_index P) (tail_block P) ph"
  shows "step_ok N g P p (Next (set_enqueuing ph P, p1) None)"
proof -
  let ?d = "dequeuing P"
  have st: "structure_inv g P p" using inv(1) by (simp add: producer_inv_def)
  have p1: "spare p1 = spare p" "block_at p1 = block_at p" "pool_ok (N + 1) p1" using none by (simp_all add: got_none_def)
  have bl: "inv_blocks g (alive g P) (unmoved ?d) (uncounted ?d) (enqueuing P) p" and us: "inv_usage g (alive g P) (enqueuing P) ?d p"
    using st by (simp_all add: structure_inv_def)
  show ?thesis
  proof (rule owner_step_ok [OF inv, where g' = g])
    show "inv_blocks g (alive g P) (unmoved ?d) (uncounted ?d) (enqueuing (set_enqueuing ph P)) p1"
      using inv_blocks_no_element [OF bl ph(1,2)] by (simp add: inv_blocks_def p1)
    show "inv_usage g (alive g P) (enqueuing (set_enqueuing ph P)) ?d p1"
      using inv_usage_no_block [OF us ph(3,4)] by (simp add: inv_usage_def p1)
    have "owned g (set_enqueuing ph P) = owned g P" by (rule owned_no_block) (use ph in \<open>simp_all add: same_counts_def\<close>)
    then show "frame g P p g (set_enqueuing ph P) p1" by (auto simp: frame_def p1)
  qed (use st writer p1(3) in \<open>simp_all add: structure_inv_def same_counts_def\<close>)
qed

lemma got_block_step:
  assumes inv: "producer_inv N g P p" "N + 1 < 2 ^ 56" and got: "got_block N p b p1"
    and old: "no_element (enqueuing P)" "no_block (enqueuing P)"
    and wr: "writer_ok g (alive g P) (headers P) (block_index P) (tail_block P) (Reset_count x e b)"
  shows "step_ok N g P p (Next (set_enqueuing (Reset_count x e b) P, p1) None)"
proof -
  have st: "structure_inv g P p" using inv(1) by (simp add: producer_inv_def)
  obtain blk where blk: "block_at p1 b = Some blk" "raw blk" "b \<in> spare p \<or> block_at p b = None" "b \<notin> spare p1"
    "spare p1 \<subseteq> spare p" "pool_ok (N + 1) p1" and same: "\<And>c. c \<noteq> b \<Longrightarrow> block_at p1 c = block_at p c"
    using got unfolding got_block_def by blast
  let ?old = "enqueuing P" and ?ph = "Reset_count x e b" and ?d = "dequeuing P"
  let ?P' = "set_enqueuing ?ph P"
  have us: "inv_usage g (alive g P) ?old ?d p" and bl: "inv_blocks g (alive g P) (unmoved ?d) (uncounted ?d) ?old p"
    using st by (simp_all add: structure_inv_def)
  have ub: "c \<noteq> b" if "uses g (alive g P) ?old ?d u c" for u c
    using us that blk(3) unfolding inv_usage_def by fastforce
  have u': "uses g (alive g P) ?ph ?d u c \<longleftrightarrow> (if u = Fresh then c = b else uses g (alive g P) ?old ?d u c)" for u c
    by (cases u) auto
  have nf: "\<not> uses g (alive g P) ?old ?d Fresh c" for c using old(2) by (auto simp: no_block_def)
  show ?thesis
  proof (rule owner_step_ok [OF inv, where g' = g])
    have "home_of g k \<noteq> b" if "k < published g" "alive g P k" for k using ub [of "Home k"] that by auto
    then show "inv_blocks g (alive g P) (unmoved ?d) (uncounted ?d) (enqueuing ?P') p1"
      using same by (intro inv_blocks_other [OF bl old(1)]) (simp_all add: no_element_def)
    have "u = u'" if "uses g (alive g P) ?ph ?d u c" "uses g (alive g P) ?ph ?d u' c" for u u' c
    proof (cases "u = Fresh \<or> u' = Fresh")
      case True
      then show ?thesis using that ub [of u c] ub [of u' c] unfolding u' by (auto simp del: uses.simps split: if_splits)
    next
      case False
      then have "uses g (alive g P) ?old ?d u c" "uses g (alive g P) ?old ?d u' c"
        using that unfolding u' by (simp_all del: uses.simps)
      then show ?thesis using us unfolding inv_usage_def by blast
    qed
    moreover have "c \<notin> spare p1 \<and> (\<exists>blk. block_at p1 c = Some blk \<and> fit_for ?ph u blk)" if "uses g (alive g P) ?ph ?d u c" for u c
    proof (cases "u = Fresh")
      case True
      with that u' blk show ?thesis by (simp add: fit_for_def del: uses.simps)
    next
      case False
      with that have o: "uses g (alive g P) ?old ?d u c" unfolding u' by simp
      then have "c \<notin> spare p \<and> (\<exists>blk. block_at p c = Some blk \<and> fit_for ?old u blk)"
        using us unfolding inv_usage_def by blast
      with False ub [OF o] same [of c] blk(5) show ?thesis by (auto simp: fit_for_def split: usage.split)
    qed
    ultimately show "inv_usage g (alive g P) (enqueuing ?P') ?d p1" unfolding inv_usage_def by auto
    have "owned g ?P' \<subseteq> insert b (owned g P)" unfolding owned_def by (auto simp: u' simp del: uses.simps split: if_splits)
    then show "frame g P p g ?P' p1" using blk(3,5) same unfolding frame_def by (intro conjI allI impI, metis, auto)
    show "writer_ok g (alive g P) (headers ?P') (block_index ?P') (tail_block ?P') (enqueuing ?P')" using wr by simp
  qed (use st blk(6) in \<open>simp_all add: structure_inv_def\<close>)
qed

text \<open>The steps in which the owner asks for a block; all of them know the same.\<close>

definition asks :: "'a \<Rightarrow> nat \<Rightarrow> 'a enqueue_phase \<Rightarrow> bool" where
  "asks x e ph \<longleftrightarrow> ph \<in> {Requisition x e, Take_initial x e, Take_free x e, Allocate x e}"

lemma asks_ok:
  assumes inv: "producer_inv N g P p" "N + 1 < 2 ^ 56" and ph: "asks x e (enqueuing P)"
  shows "got_block N p b p1 \<Longrightarrow> step_ok N g P p (Next (set_enqueuing (Reset_count x e b) P, p1) None)"
    and "asks x e ph' \<or> ph' = Rewind e \<Longrightarrow> got_none N p p1 \<Longrightarrow> step_ok N g P p (Next (set_enqueuing ph' P, p1) None)"
proof -
  have "structure_inv g P p" using inv(1) by (simp add: producer_inv_def)
  then have wr: "writer_ok g (alive g P) (headers P) (block_index P) (tail_block P) (enqueuing P)" by (simp add: structure_inv_def)
  have old: "no_element (enqueuing P)" "no_block (enqueuing P)" using ph by (auto simp: asks_def no_element_def no_block_def)
  show "step_ok N g P p (Next (set_enqueuing (Reset_count x e b) P, p1) None)" if "got_block N p b p1"
    using wr ph by (intro got_block_step [OF inv that old]) (auto simp: asks_def)
  show "step_ok N g P p (Next (set_enqueuing ph' P, p1) None)" if "asks x e ph' \<or> ph' = Rewind e" "got_none N p p1"
    using wr ph that(1) old by (intro got_none_step [OF inv that(2)]) (auto simp: asks_def no_element_def no_block_def)
qed

lemma step_asks:
  assumes inv: "producer_inv N g P p" "N + 1 < 2 ^ 56" "pool_ok N p" and ph: "asks x e (enqueuing P)"
  shows "step_ok N g P p (enqueue_step a P p)"
proof -
  note ok = asks_ok [OF inv(1,2) ph]
  have "got_none N p p" using inv(3) by (simp add: got_none_def)
  then have nxt: "step_ok N g P p (Next (set_enqueuing (Take_free x e) P, p) None)" "step_ok N g P p (Next (set_enqueuing (Take_initial x e) P, p) None)"
    by (intro ok(2); simp add: asks_def)+
  have call: "step_ok N g P p (case r of (None, p1) \<Rightarrow> Next (set_enqueuing ph' P, p1) None
      | (Some b, p1) \<Rightarrow> Next (set_enqueuing (Reset_count x e b) P, p1) None)"
    if "case fst r of Some b \<Rightarrow> got_block N p b (snd r) | None \<Rightarrow> got_none N p (snd r)" "asks x e ph' \<or> ph' = Rewind e" for r ph'
    using that(1) ok(1) ok(2) [OF that(2)] by (cases r; cases "fst r") (simp_all del: step_ok_simps)
  show ?thesis
  proof (cases "enqueuing P")
    case (Take_initial y f)
    have "step_ok N g P p (case take_from_initial_pool p of (None, p1) \<Rightarrow> Next (set_enqueuing (Take_free x e) P, p1) None
      | (Some b, p1) \<Rightarrow> Next (set_enqueuing (Reset_count x e b) P, p1) None)"
      by (rule call, rule take_initial_ok [OF inv(3,2)]) (simp_all add: asks_def)
    then show ?thesis using ph Take_initial by (simp add: asks_def enqueue_step_def del: step_ok_simps)
  next
    case (Take_free y f)
    have "step_ok N g P p (case try_get_block_from_free_list a p of (None, p1) \<Rightarrow> Next (set_enqueuing (Allocate x e) P, p1) None
      | (Some b, p1) \<Rightarrow> Next (set_enqueuing (Reset_count x e b) P, p1) None)"
      by (rule call, rule take_free_ok [OF inv(3)]) (simp_all add: asks_def)
    then show ?thesis using ph Take_free by (simp add: asks_def enqueue_step_def del: step_ok_simps)
  next
    case (Allocate y f)
    have "step_ok N g P p (case create_block a p of (None, p1) \<Rightarrow> Next (set_enqueuing (Rewind e) P, p1) None
      | (Some b, p1) \<Rightarrow> Next (set_enqueuing (Reset_count x e b) P, p1) None)"
      by (rule call, rule allocate_ok [OF inv(3)]) (simp_all add: asks_def)
    then show ?thesis using ph Allocate by (simp add: asks_def enqueue_step_def del: step_ok_simps)
  qed (use ph nxt in \<open>simp_all add: asks_def enqueue_step_def del: step_ok_simps\<close>)
qed

lemma step_reset:
  assumes inv: "producer_inv N g P p" "N + 1 < 2 ^ 56" "pool_ok N p" and ph: "enqueuing P = Reset_count x e b"
  shows "step_ok N g P p (enqueue_step a P p)"
proof -
  have st: "structure_inv g P p" using inv(1) by (simp add: producer_inv_def)
  let ?old = "Reset_count x e b" and ?ph = "Publish x e b" and ?d = "dequeuing P"
  let ?P' = "set_enqueuing ?ph P"
  have wr: "writer_ok g (alive g P) (headers P) (block_index P) (tail_block P) ?old"
    and us: "inv_usage g (alive g P) ?old ?d p" and bl: "inv_blocks g (alive g P) (unmoved ?d) (uncounted ?d) ?old p"
    using st ph by (metis structure_inv_def)+
  have fresh: "uses g (alive g P) ?old ?d Fresh b" by simp
  then obtain blk where blk: "block_at p b = Some blk" "raw blk" "b \<notin> spare p"
    using us unfolding inv_usage_def by (fastforce simp: fit_for_def simp del: uses.simps)
  let ?p = "update_block b (reset_empty blk) p"
  have only: "u = Fresh" if "uses g (alive g P) ?old ?d u b" for u using us fresh that unfolding inv_usage_def by blast
  have u': "uses g (alive g P) ?ph ?d u c = uses g (alive g P) ?old ?d u c" for u c by (cases u) auto
  have fb: "c = b" if "uses g (alive g P) ?old ?d Fresh c" for c using that by simp
  have "step_ok N g P p (Next (?P', ?p) None)"
  proof (rule owner_step_ok [OF inv(1,2), where g' = g])
    have "home_of g k \<noteq> b" if "k < published g" "alive g P k" for k using only [of "Home k"] that by auto
    then show "inv_blocks g (alive g P) (unmoved ?d) (uncounted ?d) (enqueuing ?P') ?p"
      by (intro inv_blocks_other [OF bl]) (simp_all add: no_element_def)
    have "c \<notin> spare ?p \<and> (\<exists>blk. block_at ?p c = Some blk \<and> fit_for ?ph u blk)" if u: "uses g (alive g P) ?old ?d u c" for u c
    proof (cases "c = b")
      case True
      then have "u = Fresh" using only u by simp
      with True blk show ?thesis by (simp add: fit_for_def reset_empty_def raw_def)
    next
      case False
      then have "u \<noteq> Fresh" using u fb by blast
      moreover have "c \<notin> spare p \<and> (\<exists>blk. block_at p c = Some blk \<and> fit_for ?old u blk)"
        using us u unfolding inv_usage_def by blast
      ultimately show ?thesis using False by (cases u) (auto simp: fit_for_def)
    qed
    then show "inv_usage g (alive g P) (enqueuing ?P') ?d ?p"
      using us unfolding inv_usage_def set_enqueuing_simps u' by blast
    have "owned g ?P' = owned g P" unfolding owned_def ph set_enqueuing_simps u' by simp
    moreover have "b \<in> owned g P" unfolding owned_def ph using fresh by blast
    ultimately show "frame g P p g ?P' ?p" by (intro frame_update) simp_all
    show "writer_ok g (alive g P) (headers ?P') (block_index ?P') (tail_block ?P') (enqueuing ?P')" using wr by simp
  qed (use st inv(3) blk(3) in \<open>simp_all add: structure_inv_def pool_ok_update\<close>)
  then show ?thesis using blk(1) by (simp add: enqueue_step_def ph)
qed

section \<open>Publishing it\<close>

lemma block_ok_new:
  assumes "counter_inv N g P" and "enqueued g \<le> 32 * k" and "raw blk" and "completely_dequeued blk = 0" and "no_element ph"
  shows "block_ok g U C ph k blk"
proof -
  have le: "claims g \<le> enqueued g" using assms(1) by (auto simp: counter_inv_def intro: claims_le)
  have ge: "32 * k \<le> n" if "n div 32 = k" for n using that div_mult_mod_eq [of n 32] by linarith
  have "counted g C k = {}" using ge le assms(2) by (fastforce simp: counted_def)
  moreover have "content g U ph n = None" if "n div 32 = k" for n
    using ge [OF that] le assms(2,5) by (auto simp: content_def no_element_def split: enqueue_phase.split)
  ultimately show ?thesis using assms(3,4) by (simp add: block_ok_counted raw_def)
qed

lemma publish_index [simp]: "nth_index (g\<lparr>published := n, home_of := f\<rparr>) = nth_index g"
  by (simp add: nth_index_def fun_eq_iff)

lemma inv_entries_publish:
  assumes en: "inv_entries g lv es" and k: "opened g = published g + 1" and e: "entry_of g (published g) = e" and lv: "lv (published g)"
    and other: "\<And>j. j < published g \<Longrightarrow> lv j \<Longrightarrow> entry_of g j \<noteq> e"
  shows "inv_entries (g\<lparr> published := published g + 1, home_of := (home_of g)(published g := b) \<rparr>) lv
    (es[e := (es ! e)\<lparr> entry_value := Some b \<rparr>])"
proof -
  let ?g = "g\<lparr> published := published g + 1, home_of := (home_of g)(published g := b) \<rparr>"
  let ?es = "es[e := (es ! e)\<lparr> entry_value := Some b \<rparr>]"
  have e_less: "e < length es" using en k e by (auto simp: inv_entries_def)
  have key: "entry_key (?es ! i) = entry_key (es ! i)" for i using e_less by (cases "i = e") simp_all
  have val: "entry_value (?es ! entry_of g j) = Some (home_of ?g j)" if "j < published g + 1" "lv j" for j
  proof (cases "j = published g")
    case False
    with that have j: "j < published g" by simp
    with other [OF j that(2)] en that(2) show ?thesis by (simp add: inv_entries_def nth_list_update)
  qed (use e e_less in simp)
  have ex: "\<exists>j < published g + 1. lv j \<and> entry_of g j = i" if i: "i < length ?es" "entry_value (?es ! i) \<noteq> None" for i
  proof (cases "i = e")
    case True
    with e lv show ?thesis by (intro exI [of _ "published g"]) simp
  next
    case False
    with i have "i < length es" "entry_value (es ! i) \<noteq> None" by simp_all
    then obtain j where "j < published g" "lv j" "entry_of g j = i" using en unfolding inv_entries_def by blast
    then show ?thesis by (intro exI [of _ j]) simp
  qed
  show ?thesis unfolding inv_entries_def
    using en k val ex by (intro conjI allI impI) (auto simp: inv_entries_def key)
qed

lemma step_publish:
  assumes inv: "producer_inv N g P p" "N + 1 < 2 ^ 56" "pool_ok N p" and ph: "enqueuing P = Publish x e b"
  shows "step_ok N g P p (enqueue_step a P p)"
proof -
  have st: "structure_inv g P p" and k: "counter_inv N g P" using inv(1) by (simp_all add: producer_inv_def)
  let ?old = "Publish x e b" and ?ph = "Construct x" and ?d = "dequeuing P" and ?q = "published g"
  let ?g = "g\<lparr> published := ?q + 1, home_of := (home_of g)(?q := b) \<rparr>"
  let ?es = "(entries P)[e := (entries P ! e)\<lparr> entry_value := Some b \<rparr>]"
  let ?P' = "set_enqueuing ?ph (P\<lparr> entries := ?es, tail_block := Some b \<rparr>)"
  have us: "inv_usage g (alive g P) ?old ?d p" and bl: "inv_blocks g (alive g P) (unmoved ?d) (uncounted ?d) ?old p"
    and "writer_ok g (alive g P) (headers P) (block_index P) (tail_block P) ?old"
    using st ph by (metis structure_inv_def)+
  then obtain h where op: "opened g = ?q + 1" and T: "enqueued g = 32 * ?q" and e: "entry_of g ?q = e" and h: "block_index P = Some h" by auto
  note cur = current_ring [OF st h] and en = structure_entries [OF st]
  have lv: "alive g P ?q" by (rule published_live [OF st k order_refl])
  have fresh: "uses g (alive g P) ?old ?d Fresh b" by simp
  then obtain blk where blk: "block_at p b = Some blk" "raw blk" "completely_dequeued blk = 0" "b \<notin> spare p"
    using us unfolding inv_usage_def by (fastforce simp: fit_for_def simp del: uses.simps)
  have only: "u = Fresh" if "uses g (alive g P) ?old ?d u b" for u using us fresh that unfolding inv_usage_def by blast
  have u': "uses ?g (alive g P) ?ph ?d u c \<longleftrightarrow> (if u = Home ?q then c = b else u \<noteq> Fresh \<and> uses g (alive g P) ?old ?d u c)" for u c
    using lv by (cases u) auto
  have other: "entry_of g j \<noteq> e" if "j < ?q" "alive g P j" for j
  proof -
    have "window (entry_of g) (headers P ! h) (index_tail (headers P ! h)) (opened g) j" using that op by (intro cur(7)) simp_all
    from window_distinct [OF this cur(2), where a = j and b = ?q] that op e show ?thesis by auto
  qed
  have sc: "same_counts g ?g" by (simp add: same_counts_def)
  have "step_ok N g P p (Next (?P', p) None)"
  proof (rule owner_step_ok [OF inv(1,2) sc])
    show "inv_blocks ?g (alive g P) (unmoved ?d) (uncounted ?d) (enqueuing ?P') p"
      unfolding inv_blocks_def same_countsD [OF sc]
    proof (intro allI impI)
      fix j
      assume j: "j < published ?g" "alive g P j"
      show "\<exists>b'. block_at p (home_of ?g j) = Some b' \<and> block_ok g (unmoved ?d) (uncounted ?d) (enqueuing ?P') j b'"
      proof (cases "j = ?q")
        case True
        then show ?thesis using blk block_ok_new [OF k _ blk(2,3), of ?q ?ph] T by (simp add: no_element_def)
      next
        case False
        with j bl have "\<exists>b'. block_at p (home_of g j) = Some b' \<and> block_ok g (unmoved ?d) (uncounted ?d) ?old j b'"
          by (simp add: inv_blocks_def)
        with False show ?thesis by (simp add: block_ok_no_element [of ?old ?ph] no_element_def)
      qed
    qed
    have "u = u'" if "uses ?g (alive g P) ?ph ?d u c" "uses ?g (alive g P) ?ph ?d u' c" for u u' c
    proof (cases "u = Home ?q \<or> u' = Home ?q")
      case True
      then show ?thesis using that only [of u] only [of u'] unfolding u' by (auto simp del: uses.simps split: if_splits)
    next
      case False
      then have "uses g (alive g P) ?old ?d u c" "uses g (alive g P) ?old ?d u' c" using that unfolding u' by (simp_all del: uses.simps)
      then show ?thesis using us unfolding inv_usage_def by blast
    qed
    moreover have "c \<notin> spare p \<and> (\<exists>blk. block_at p c = Some blk \<and> fit_for ?ph u blk)" if "uses ?g (alive g P) ?ph ?d u c" for u c
    proof (cases "u = Home ?q")
      case True
      with that blk show ?thesis unfolding u' by (simp add: fit_for_def)
    next
      case False
      with that have "u \<noteq> Fresh" "uses g (alive g P) ?old ?d u c" unfolding u' by (simp_all del: uses.simps)
      moreover from this have "c \<notin> spare p \<and> (\<exists>blk. block_at p c = Some blk \<and> fit_for ?old u blk)"
        using us unfolding inv_usage_def by blast
      ultimately show ?thesis by (cases u) (auto simp: fit_for_def)
    qed
    ultimately show "inv_usage ?g (alive g P) (enqueuing ?P') ?d p" unfolding inv_usage_def by auto
    have "c \<in> owned g P" if c: "uses ?g (alive g P) ?ph ?d u c" for u c
      using c fresh unfolding owned_def ph u' by (auto simp del: uses.simps split: if_splits)
    then have "owned ?g ?P' \<subseteq> owned g P" unfolding owned_def [of ?g] same_countsD [OF sc] by (auto simp del: uses.simps)
    then show "frame g P p ?g ?P' p" by (rule frame_same)
    have ie: "inv_entries g (alive g P) (entries P)" using st by (simp add: structure_inv_def)
    show "inv_entries ?g (alive g P) (entries ?P')"
      using inv_entries_publish [OF ie op e lv other, of b] by simp
    have r: "inv_rings g (alive g P) (headers P) (block_index P) (length (entries P)) (next_block_index_capacity P)"
      using st by (simp add: structure_inv_def)
    then show "inv_rings ?g (alive g P) (headers ?P') (block_index ?P') (length (entries ?P')) (next_block_index_capacity ?P')"
      by (auto simp: inv_rings_def h)
    show "writer_ok ?g (alive g P) (headers ?P') (block_index ?P') (tail_block ?P') (enqueuing ?P')" using op T by simp
    fix c
    assume rd: "reader_ok g (headers P) (dequeuing P c)"
    have lt: "n div 32 < ?q" if "claimed g i n" for i n using claimed_published(1) [OF st k that] .
    show "reader_ok ?g (headers ?P') (dequeuing P c)"
      by (rule reader_ok_same [OF rd sc]) (auto dest: lt)
  qed (use inv(3) in simp_all)
  then show ?thesis by (simp add: enqueue_step_def ph)
qed

section \<open>Storing the element\<close>

lemma tail_block_offset:
  assumes "counter_inv N g P"
  shows "block_offset (tail_index P) = enqueued g mod 32"
proof -
  have "origin g AND 31 = 0" and "tail_index P = origin g + of_nat (enqueued g)"
    using assms by (simp_all add: counter_inv_def inv_counters_def nth_index_def)
  then show ?thesis by (simp only: block_offset_index)
qed

lemma content_construct:
  assumes "claims g \<le> enqueued g" and "no_element ph"
  shows "content g U (Store_index x) n = (if n = enqueued g then Some x else content g U ph n)"
  using assms by (auto simp: content_def no_element_def split: enqueue_phase.split)

lemma block_ok_construct:
  assumes le: "claims g \<le> enqueued g" and ph: "no_element ph" and b: "block_ok g U C ph (enqueued g div 32) blk"
  shows "elements blk ! (enqueued g mod 32) = None"
    and "block_ok g U C (Store_index x) (enqueued g div 32) (blk\<lparr> elements := (elements blk)[enqueued g mod 32 := Some x] \<rparr>)"
proof -
  let ?T = "enqueued g"
  have "content g U ph ?T = None" using le ph by (auto simp: content_def no_element_def split: enqueue_phase.split)
  with b show "elements blk ! (?T mod 32) = None" by (simp add: block_ok_def)
  have "(elements blk)[?T mod 32 := Some x] ! (n mod 32) = content g U (Store_index x) n" if n: "n div 32 = ?T div 32" for n
  proof (cases "n = ?T")
    case True
    then show ?thesis using b content_construct [OF le ph, of U x n] by (simp add: block_ok_def)
  next
    case False
    then have "n mod 32 \<noteq> ?T mod 32" using n by (metis div_mult_mod_eq)
    then show ?thesis using b n False content_construct [OF le ph, of U x n] by (simp add: block_ok_def)
  qed
  then show "block_ok g U C (Store_index x) (?T div 32) (blk\<lparr> elements := (elements blk)[?T mod 32 := Some x] \<rparr>)"
    using b by (simp add: block_ok_def)
qed

lemma block_ok_construct_other:
  assumes "claims g \<le> enqueued g" and "no_element ph" and "k \<noteq> enqueued g div 32" and "block_ok g U C ph k blk"
  shows "block_ok g U C (Store_index x) k blk"
  using assms(3,4) content_construct [OF assms(1,2), of U x] by (auto simp: block_ok_def)

lemma step_construct:
  assumes inv: "producer_inv N g P p" "N + 1 < 2 ^ 56" "pool_ok N p" and ph: "enqueuing P = Construct x"
  shows "step_ok N g P p (enqueue_step a P p)"
proof -
  have st: "structure_inv g P p" and k: "counter_inv N g P" using inv(1) by (simp_all add: producer_inv_def)
  let ?d = "dequeuing P" and ?T = "enqueued g"
  let ?P' = "set_enqueuing (Store_index x) P"
  have us: "inv_usage g (alive g P) (Construct x) ?d p" and bl: "inv_blocks g (alive g P) (unmoved ?d) (uncounted ?d) (Construct x) p"
    and wr: "writer_ok g (alive g P) (headers P) (block_index P) (tail_block P) (Construct x)"
    using st ph by (metis structure_inv_def)+
  have pub: "?T div 32 < published g" and tb: "tail_block P = Some (home_of g (?T div 32))" using wr by simp_all
  have le: "claims g \<le> ?T" using k by (auto simp: counter_inv_def intro: claims_le)
  have lv: "alive g P (?T div 32)" unfolding in_use_def using le by (intro exI [of _ ?T]) simp
  obtain blk where blk: "block_at p (home_of g (?T div 32)) = Some blk" "block_ok g (unmoved ?d) (uncounted ?d) (Construct x) (?T div 32) blk"
    using bl pub lv unfolding inv_blocks_def by blast
  have ne: "no_element (Construct x)" "no_block (Construct x)" "no_block (Store_index x)" by (simp_all add: no_element_def no_block_def)
  note new = block_ok_construct [OF le ne(1) blk(2)]
  let ?blk = "blk\<lparr> elements := (elements blk)[?T mod 32 := Some x] \<rparr>"
  let ?p = "update_block (home_of g (?T div 32)) ?blk p"
  have "step_ok N g P p (Next (?P', ?p) None)"
  proof (rule owner_step_ok [OF inv(1,2), where g' = g])
    show "inv_blocks g (alive g P) (unmoved ?d) (uncounted ?d) (enqueuing ?P') ?p"
      unfolding set_enqueuing_simps
      by (rule inv_blocks_update [OF bl us pub lv new(2) block_ok_construct_other [OF le ne(1)]])
    have "inv_usage g (alive g P) (Construct x) ?d ?p" using pub lv by (intro inv_usage_update [OF us, of "?T div 32"]) simp
    from inv_usage_no_block [OF this ne(2,3)] show "inv_usage g (alive g P) (enqueuing ?P') ?d ?p" by simp
    have "owned g ?P' = owned g P" by (rule owned_no_block) (simp_all add: ph ne)
    then show "frame g P p g ?P' ?p" using owned_home [OF pub lv] by (intro frame_update) simp_all
    show "pool_ok (N + 1) ?p" using pool_ok_update [OF inv(3) home_not_spare [OF us pub lv]] by simp
    show "writer_ok g (alive g P) (headers ?P') (block_index ?P') (tail_block ?P') (enqueuing ?P')" using wr by simp
  qed (use st in \<open>simp_all add: structure_inv_def\<close>)
  moreover have "construct_at (tail_index P) x blk = Some ?blk"
    using new(1) by (simp add: construct_at_def tail_block_offset [OF k])
  ultimately show ?thesis using blk(1) by (simp add: enqueue_step_def ph tb)
qed

definition store_element :: "'a \<Rightarrow> 'a ghost \<Rightarrow> 'a ghost" where
  "store_element x g = g\<lparr> history := history g @ [x] \<rparr>"

lemma store_element_fields [simp]:
  "history (store_element x g) = history g @ [x]" "origin (store_element x g) = origin g" "claims (store_element x g) = claims g"
  "nth_index (store_element x g) = nth_index g" "in_use (store_element x g) I = in_use g I" "claimed (store_element x g) = claimed g"
  "published (store_element x g) = published g" "home_of (store_element x g) = home_of g" "entry_of (store_element x g) = entry_of g"
  by (simp_all add: store_element_def claims_def nth_index_def in_use_def claimed_def fun_eq_iff)

lemma counter_inv_append:
  assumes "counter_inv N g P" and "N + 1 < 2 ^ 56"
  shows "counter_inv (N + 1) (store_element x g) (set_enqueuing Idle (P\<lparr> tail_index := 1 + tail_index P \<rparr>))"
proof -
  have "ticket_ok (store_element x g) ph = ticket_ok g ph" for ph
    by (cases ph) (simp_all add: has_seen_def has_ticket_def store_element_def nth_index_def)
  then have "inv_tickets (store_element x g) (dequeuing P)" using assms(1) by (simp add: counter_inv_def inv_tickets_def)
  moreover have "inv_counters (store_element x g) (1 + tail_index P) (head_index P) (dequeue_optimistic_count P) (dequeue_overcommit P)"
    using assms(1) by (auto simp: counter_inv_def inv_counters_def store_element_def claims_def nth_index_def intro: less_SucI)
  moreover have "enqueued (store_element x g) \<le> N + 1" "length (fates (store_element x g)) \<le> N + 1"
    using assms(1) by (simp_all add: counter_inv_def store_element_def)
  ultimately show ?thesis using assms(2) by (simp add: counter_inv_def)
qed

lemma block_ok_append:
  assumes "claims g \<le> enqueued g" and "no_element ph"
  shows "block_ok (store_element x g) U C ph k b = block_ok g U C (Store_index x) k b"
proof -
  have "content (store_element x g) U ph n = content g U (Store_index x) n" for n
    using assms by (auto simp: content_def no_element_def nth_append split: enqueue_phase.split)
  then show ?thesis by (simp add: block_ok_def)
qed

lemma reader_ok_append:
  assumes "claims g \<le> enqueued g" and "reader_ok g hs ph"
  shows "reader_ok (store_element x g) hs ph"
proof -
  have old: "(history g @ [x]) ! n = history g ! n" if "claimed g i n" for i n
    using that assms(1) by (simp add: claimed_def nth_append)
  have f: "newest (store_element x g) = newest g" "keyed (store_element x g) = keyed g" by (simp_all add: store_element_def)
  show ?thesis using assms(2) by (cases ph) (auto simp: f old)
qed

lemma settled_append:
  assumes "published g = enqueued g div 32 + 1" and "opened g = published g" and "tb = Some (home_of g (enqueued g div 32))"
  shows "settled (store_element x g) tb"
proof -
  let ?T = "enqueued g"
  have d: "(Suc ?T + 31) div 32 = ?T div 32 + 1" by (simp add: div_add_self2)
  have "Suc ?T div 32 = ?T div 32" if "Suc ?T mod 32 \<noteq> 0" using that by (simp add: div_Suc)
  with assms d show ?thesis by (simp add: settled_def store_element_def)
qed

lemma step_store_index:
  assumes inv: "producer_inv N g P p" "N + 1 < 2 ^ 56" "pool_ok N p" and ph: "enqueuing P = Store_index x"
  shows "step_ok N g P p (enqueue_step a P p)"
proof -
  have st: "structure_inv g P p" and k: "counter_inv N g P" using inv(1) by (simp_all add: producer_inv_def)
  let ?d = "dequeuing P" and ?g = "store_element x g"
  let ?P' = "set_enqueuing Idle (P\<lparr> tail_index := 1 + tail_index P \<rparr>)"
  have us: "inv_usage g (alive g P) (Store_index x) ?d p" and bl: "inv_blocks g (alive g P) (unmoved ?d) (uncounted ?d) (Store_index x) p"
    and wr: "writer_ok g (alive g P) (headers P) (block_index P) (tail_block P) (Store_index x)"
    and rd: "inv_readers g (headers P) ?d"
    using st ph by (metis structure_inv_def)+
  have le: "claims g \<le> enqueued g" using k by (auto simp: counter_inv_def intro: claims_le)
  have nb: "no_block (Store_index x)" "no_block Idle" "no_element Idle" by (simp_all add: no_block_def no_element_def)
  have lv: "alive ?g ?P' = alive g P" by simp
  have "inv_rings ?g (alive g P) (headers P) (block_index P) (length (entries P)) (next_block_index_capacity P)"
    using st by (cases "block_index P") (auto simp: structure_inv_def inv_rings_def store_element_def)
  moreover have "inv_entries ?g (alive g P) (entries P)"
    using st by (auto simp: structure_inv_def inv_entries_def store_element_def nth_index_def)
  moreover have "writer_ok ?g (alive g P) (headers P) (block_index P) (tail_block P) Idle"
    using wr by (simp add: settled_append)
  moreover have "inv_readers ?g (headers P) ?d"
    using rd reader_ok_append [OF le] unfolding inv_readers_def store_element_fields by blast
  moreover have "inv_blocks ?g (alive g P) (unmoved ?d) (uncounted ?d) Idle p"
    using bl by (simp add: inv_blocks_def block_ok_append [OF le nb(3)])
  moreover have "inv_usage ?g (alive g P) Idle ?d p"
    using inv_usage_no_block [OF us nb(1,2)] uses_fields [of ?g g] by (simp add: inv_usage_def)
  ultimately have "structure_inv ?g ?P' p" unfolding structure_inv_def lv by simp
  moreover have "owned ?g ?P' = owned g P"
    unfolding owned_def lv by (simp add: ph uses_fields [of ?g g] uses_no_block [OF nb(1,2)])
  moreover have "stream_event (Some (Enqueued x)) (stream_of g ?d) = Some (stream_of ?g (dequeuing ?P'))"
  proof -
    have "taken_by ?g (?d c) = taken_by g (?d c)" for c
    proof (cases "claim_of (?d c)")
      case (Some i)
      have "reader_ok g (headers P) (?d c)" using rd by (simp add: inv_readers_def)
      with Some obtain n where "claimed g i n" by (cases "?d c") auto
      then have "unat (i - origin g) < enqueued g"
        using le k claims_le_fates [of g] by (simp add: claimed_def nth_index_def counter_inv_def unat_of_nat_u64)
      with Some show ?thesis by (simp add: taken_by_def nth_append)
    qed (simp add: taken_by_def)
    then show ?thesis using le by (simp add: stream_of_def)
  qed
  ultimately have "leads_to N g P p (Some (Enqueued x)) ?g ?P' p"
    using counter_inv_append [OF k inv(2), of x] inv(3) by (simp add: leads_to_def producer_inv_def frame_same)
  then show ?thesis by (auto simp: enqueue_step_def ph)
qed

section \<open>Every step of the owner\<close>

lemma enqueue_step_ok:
  assumes inv: "producer_inv N g P p" "N + 1 < 2 ^ 56" "pool_ok N p"
  shows "step_ok N g P p (enqueue_step a P p)"
  by (cases "enqueuing P")
    (use step_load_head [OF inv] step_load_entry [OF inv] step_grow [OF inv] step_store_key [OF inv] step_store_tail [OF inv]
      step_asks [OF inv] step_rewind [OF inv] step_clear [OF inv] step_reset [OF inv] step_publish [OF inv]
      step_construct [OF inv] step_store_index [OF inv] in \<open>simp_all add: asks_def enqueue_step_def\<close>)

end
