(* ===== verification/Queue_System.thy ===== *)
theory Queue_System
  imports Queue_Publish
begin

text \<open>
  The concurrent queue as a whole: the queues of all producers on the pool of blocks they share. A run is a
  list of labels, one for each step: which thread calls or moves, and what the allocator answers. A label
  whose thread cannot move is skipped. The queue implements the streams of \<open>Message_Queue\<close>: one
  list of elements per producer.
\<close>

section \<open>Runs\<close>

record 'a queue_state =
  producers :: "nat \<Rightarrow> 'a producer"
  pool :: "'a block_pool"

datatype 'a queue_label =
    Call_enqueue nat 'a
  | Step_owner nat "nat option"
  | Call_dequeue nat nat
  | Step_consumer nat nat

fun label_producer :: "'a queue_label \<Rightarrow> nat" where
  "label_producer (Call_enqueue q x) = q"
| "label_producer (Step_owner q a) = q"
| "label_producer (Call_dequeue q c) = q"
| "label_producer (Step_consumer q c) = q"

fun producer_step :: "'a queue_label \<Rightarrow> 'a producer \<Rightarrow> 'a block_pool \<Rightarrow> ('a producer \<times> 'a block_pool, 'a queue_event) step_result" where
  "producer_step (Call_enqueue q x) = call_enqueue x"
| "producer_step (Step_owner q a) = enqueue_step a"
| "producer_step (Call_dequeue q c) = call_dequeue c"
| "producer_step (Step_consumer q c) = dequeue_step c"

definition queue_step :: "'a queue_label \<Rightarrow> 'a queue_state \<Rightarrow> ('a queue_state, nat \<times> 'a queue_event) step_result" where
  "queue_step l s =
     (let q = label_producer l
      in case producer_step l (producers s q) (pool s) of
           Disabled \<Rightarrow> Disabled
         | Fault \<Rightarrow> Fault
         | Next (P, p) e \<Rightarrow> Next \<lparr> producers = (producers s)(q := P), pool = p \<rparr> (map_option (Pair q) e))"

text \<open>\<open>None\<close> is a run into undefined behaviour; otherwise the events of the run and the final state.\<close>

fun run_queue :: "'a queue_label list \<Rightarrow> 'a queue_state \<Rightarrow> ((nat \<times> 'a queue_event) list \<times> 'a queue_state) option" where
  "run_queue [] s = Some ([], s)"
| "run_queue (l # ls) s =
     (case queue_step l s of
        Disabled \<Rightarrow> run_queue ls s
      | Fault \<Rightarrow> None
      | Next s1 e \<Rightarrow> map_option (\<lambda>(es, s2). ((case e of None \<Rightarrow> es | Some x \<Rightarrow> x # es), s2)) (run_queue ls s1))"

text \<open>
  The queue with \<open>n\<close> blocks in its pool, before its producers enqueue: for each of them whether its block
  index could be allocated, the index it starts at, and the number of dequeues that have failed before.
\<close>

definition fresh_queue :: "(nat \<Rightarrow> bool) \<Rightarrow> (nat \<Rightarrow> u64) \<Rightarrow> (nat \<Rightarrow> u64) \<Rightarrow> u64 \<Rightarrow> 'a queue_state" where
  "fresh_queue ok start failures n =
     \<lparr> producers = (\<lambda>q. implicit_producer (ok q) (start q) (failures q)), pool = populate_initial_block_list n \<rparr>"

section \<open>The invariant of the whole\<close>

definition queue_inv :: "nat \<Rightarrow> (nat \<Rightarrow> 'a ghost) \<Rightarrow> 'a queue_state \<Rightarrow> bool" where
  "queue_inv N gs s \<longleftrightarrow>
     pool_ok N (pool s) \<and> (\<forall>q. producer_inv N (gs q) (producers s q) (pool s)) \<and>
     (\<forall>q q'. q \<noteq> q' \<longrightarrow> owned (gs q) (producers s q) \<inter> owned (gs q') (producers s q') = {})"

text \<open>A step of another producer does not touch what a producer uses.\<close>

lemma producer_inv_frame:
  assumes inv: "producer_inv N g Q p" and N: "N + 1 < 2 ^ 56"
    and same: "\<And>b. b \<in> owned g Q \<Longrightarrow> block_at p' b = block_at p b" and sp: "spare p' \<inter> owned g Q = {}"
  shows "producer_inv (N + 1) g Q p'"
proof -
  let ?d = "dequeuing Q"
  have st: "structure_inv g Q p" using inv by (simp add: producer_inv_def)
  have own: "b \<in> owned g Q" if "uses g (alive g Q) (enqueuing Q) ?d u b" for u b using that unfolding owned_def by blast
  have "inv_blocks g (alive g Q) (unmoved ?d) (uncounted ?d) (enqueuing Q) p"
    and us: "inv_usage g (alive g Q) (enqueuing Q) ?d p" using st by (simp_all add: structure_inv_def)
  then have "inv_blocks g (alive g Q) (unmoved ?d) (uncounted ?d) (enqueuing Q) p'"
    using same owned_home [of _ g Q] by (simp add: inv_blocks_def)
  moreover have "inv_usage g (alive g Q) (enqueuing Q) ?d p'"
    unfolding inv_usage_def
  proof (intro conjI allI impI)
    fix u b
    assume u: "uses g (alive g Q) (enqueuing Q) ?d u b"
    show "b \<notin> spare p'" using own [OF u] sp by blast
    show "\<exists>blk. block_at p' b = Some blk \<and> fit_for (enqueuing Q) u blk"
      using us u same [OF own [OF u]] unfolding inv_usage_def by simp
  qed (use us in \<open>unfold inv_usage_def, blast\<close>)
  ultimately have "structure_inv g Q p'" using st by (simp add: structure_inv_def)
  then show ?thesis using inv N by (simp add: producer_inv_def counter_inv_def)
qed

lemma producer_step_ok:
  assumes "producer_inv N g P p" and "N + 1 < 2 ^ 56" and "pool_ok N p"
  shows "step_ok N g P p (producer_step l P p)"
  using call_enqueue_ok [OF assms] enqueue_step_ok [OF assms] call_dequeue_ok [OF assms] dequeue_step_ok [OF assms]
  by (cases l) simp_all

lemma queue_inv_step:
  assumes inv: "queue_inv N gs s" and N: "N + 1 < 2 ^ 56"
    and l: "leads_to N (gs q) (producers s q) (pool s) e g P p"
  shows "queue_inv (N + 1) (gs(q := g)) \<lparr> producers = (producers s)(q := P), pool = p \<rparr>"
proof -
  have lt: "producer_inv (N + 1) g P p" "pool_ok (N + 1) p" and fr: "frame (gs q) (producers s q) (pool s) g P p"
    using l by (simp_all add: leads_to_def)
  have disj: "owned (gs r) (producers s r) \<inter> owned (gs r') (producers s r') = {}" if "r \<noteq> r'" for r r'
    using inv that by (simp add: queue_inv_def)
  have use: "b \<notin> spare (pool s) \<and> block_at (pool s) b \<noteq> None" if "b \<in> owned (gs r) (producers s r)" for r b
  proof -
    have "inv_usage (gs r) (alive (gs r) (producers s r)) (enqueuing (producers s r)) (dequeuing (producers s r)) (pool s)"
      using inv by (simp add: queue_inv_def producer_inv_def structure_inv_def)
    with that show ?thesis unfolding owned_def inv_usage_def by fastforce
  qed
  have other: "producer_inv (N + 1) (gs r) (producers s r) p" if "r \<noteq> q" for r
  proof (rule producer_inv_frame)
    show "producer_inv N (gs r) (producers s r) (pool s)" using inv by (simp add: queue_inv_def)
    show "block_at p b = block_at (pool s) b" if b: "b \<in> owned (gs r) (producers s r)" for b
      using fr use [OF b] disj [OF \<open>r \<noteq> q\<close>] b unfolding frame_def by blast
    show "spare p \<inter> owned (gs r) (producers s r) = {}"
      using fr use [of _ r] disj [OF \<open>r \<noteq> q\<close>] unfolding frame_def by blast
  qed (rule N)
  have "owned (gs r) (producers s r) \<inter> owned g P = {}" if "r \<noteq> q" for r
    using fr use [of _ r] disj [OF that] unfolding frame_def by blast
  then show ?thesis
    using lt other disj unfolding queue_inv_def by (auto simp: Int_commute)
qed

section \<open>The streams\<close>

text \<open>The streams of all producers, with what each consumer has taken from each producer and not returned yet.\<close>

type_synonym 'a streams = "'a cqueue \<times> (nat \<Rightarrow> nat \<Rightarrow> 'a option)"

fun streams_event :: "nat \<times> 'a queue_event \<Rightarrow> 'a streams \<Rightarrow> 'a streams option" where
  "streams_event (q, Enqueued x) (xs, taken) = Some (cq_enqueue q x xs, taken)"
| "streams_event (q, Claimed c) (xs, taken) =
     (case cq_dequeue q xs of
        Some (x, ys) \<Rightarrow> if taken q c = None then Some (ys, taken(q := (taken q)(c \<mapsto> x))) else None
      | None \<Rightarrow> None)"
| "streams_event (q, Dequeued c x) (xs, taken) =
     (if taken q c = Some x then Some (xs, taken(q := (taken q)(c := None))) else None)"
| "streams_event _ (xs, taken) = Some (xs, taken)"

fun streams_events :: "(nat \<times> 'a queue_event) list \<Rightarrow> 'a streams \<Rightarrow> 'a streams option" where
  "streams_events [] t = Some t"
| "streams_events (e # es) t = Option.bind (streams_event e t) (streams_events es)"

definition streams_of :: "(nat \<Rightarrow> 'a ghost) \<Rightarrow> 'a queue_state \<Rightarrow> 'a streams" where
  "streams_of gs s = (\<lambda>q. fst (stream_of (gs q) (dequeuing (producers s q))), \<lambda>q. snd (stream_of (gs q) (dequeuing (producers s q))))"

lemma streams_event_lift:
  assumes "stream_event (Some e) (xs q, taken q) = Some (ys, t)"
  shows "streams_event (q, e) (xs, taken) = Some (xs(q := ys), taken(q := t))"
  using assms by (cases e) (auto simp: cq_enqueue_def cq_dequeue_def split: list.splits if_splits)

lemma queue_step_streams:
  assumes l: "leads_to N (gs q) (producers s q) (pool s) e g P p"
  defines "s' \<equiv> \<lparr> producers = (producers s)(q := P), pool = p \<rparr>"
  shows "(case e of None \<Rightarrow> streams_of (gs(q := g)) s' = streams_of gs s
    | Some x \<Rightarrow> streams_event (q, x) (streams_of gs s) = Some (streams_of (gs(q := g)) s'))"
proof -
  obtain xs taken where t: "stream_of (gs q) (dequeuing (producers s q)) = (xs, taken)" by fastforce
  obtain ys t' where t': "stream_of g (dequeuing P) = (ys, t')" by fastforce
  have ev: "stream_event e (xs, taken) = Some (ys, t')" using l by (simp add: leads_to_def t t')
  have new: "streams_of (gs(q := g)) s' = ((fst (streams_of gs s))(q := ys), (snd (streams_of gs s))(q := t'))"
    by (auto simp: streams_of_def s'_def t' fun_eq_iff)
  have at: "fst (streams_of gs s) q = xs" "snd (streams_of gs s) q = taken" by (simp_all add: streams_of_def t)
  show ?thesis
  proof (cases e)
    case None
    with ev at new show ?thesis by (auto simp: prod_eq_iff fun_eq_iff)
  next
    case (Some x)
    then have "stream_event (Some x) (fst (streams_of gs s) q, snd (streams_of gs s) q) = Some (ys, t')" using ev at by simp
    from streams_event_lift [where xs = "fst (streams_of gs s)" and taken = "snd (streams_of gs s)" and q = q, OF this]
    show ?thesis by (simp add: new Some)
  qed
qed

lemma run_queue_streams:
  assumes "queue_inv N gs s" and "N + length ls < 2 ^ 56"
  shows "\<exists>es s' gs'. run_queue ls s = Some (es, s') \<and> queue_inv (N + length ls) gs' s' \<and>
    streams_events es (streams_of gs s) = Some (streams_of gs' s')"
  using assms
proof (induction ls arbitrary: N gs s)
  case (Cons l ls)
  let ?q = "label_producer l"
  have N: "N + 1 < 2 ^ 56" using Cons.prems(2) by simp
  have "step_ok N (gs ?q) (producers s ?q) (pool s) (producer_step l (producers s ?q) (pool s))"
    using Cons.prems(1) N by (intro producer_step_ok) (auto simp: queue_inv_def)
  moreover have mono: "queue_inv (N + 1) gs s"
    using Cons.prems(1) N by (auto simp: queue_inv_def producer_inv_def counter_inv_def le_SucI)
  ultimately show ?case
  proof (cases "producer_step l (producers s ?q) (pool s)")
    case Disabled
    then show ?thesis using Cons.IH [OF mono] Cons.prems(2) by (simp add: queue_step_def)
  next
    case (Next r e)
    obtain P p where r: "r = (P, p)" by (cases r)
    then obtain g where l: "leads_to N (gs ?q) (producers s ?q) (pool s) e g P p"
      using \<open>step_ok N (gs ?q) (producers s ?q) (pool s) (producer_step l (producers s ?q) (pool s))\<close> Next by auto
    let ?s = "\<lparr> producers = (producers s)(?q := P), pool = p \<rparr>"
    have "N + 1 + length ls < 2 ^ 56" using Cons.prems(2) by simp
    from Cons.IH [OF queue_inv_step [OF Cons.prems(1) N l] this]
    obtain es s' gs' where ih: "run_queue ls ?s = Some (es, s')" "queue_inv (N + 1 + length ls) gs' s'"
      "streams_events es (streams_of (gs(?q := g)) ?s) = Some (streams_of gs' s')" by blast
    show ?thesis
      using queue_step_streams [where gs = gs and s = s and q = ?q and e = e and g = g and P = P and p = p, OF l] ih
      by (cases e) (auto simp: queue_step_def Next r Let_def)
  qed simp
qed auto

end
