(* ===== verification/Queue_Properties.thy ===== *)
theory Queue_Properties
  imports Queue_System
begin

text \<open>
  The properties of the concurrent queue: the invariant holds at first, so that no run from a new queue comes
  to undefined behaviour, and all runs are runs of the streams; a dequeue has its result after a bounded number of steps
  of its own thread.
\<close>

section \<open>The new queue\<close>

definition fresh_ghost :: "bool \<Rightarrow> u64 \<Rightarrow> u64 \<Rightarrow> 'a ghost" where
  "fresh_ghost ok start failures =
     \<lparr> origin = start, refunds = failures, history = [], fates = [], seen = [], opened = 0, keyed = 0, published = 0,
       entry_of = (\<lambda>_. 0), home_of = (\<lambda>_. 0), newest = (if ok then [0] else []) \<rparr>"

lemma implicit_producer_simps:
  "implicit_producer ok start failures =
     \<lparr> tail_index = start, head_index = start, dequeue_optimistic_count = start + failures,
       dequeue_overcommit = failures, tail_block = None, next_block_index_capacity = (if ok then 64 else 32),
       block_index = (if ok then Some 0 else None),
       headers = (if ok then [\<lparr> capacity = 32, index_tail = 31, ring = [0..<32] \<rparr>] else []),
       entries = (if ok then replicate 32 \<lparr> entry_key = INVALID_BLOCK_BASE, entry_value = None \<rparr> else []),
       enqueuing = Idle, dequeuing = (\<lambda>_. Not_dequeuing) \<rparr>"
  by (simp add: implicit_producer_def new_block_index_def current_header_def map_nth Let_def)

lemma holds_idle: "f Not_dequeuing = None \<Longrightarrow> holds f (\<lambda>_. Not_dequeuing) = {}"
  by (simp add: holds_def)

lemma fresh_unused:
  "\<not> uses (fresh_ghost ok start failures) lv (enqueuing (implicit_producer ok' start' failures'))
    (dequeuing (implicit_producer ok' start' failures')) u b"
  by (cases u) (simp_all add: implicit_producer_simps fresh_ghost_def)

lemma fresh_producer_inv:
  fixes p :: "'a block_pool"
  assumes "start AND 31 = 0"
  shows "producer_inv 0 (fresh_ghost ok start failures) (implicit_producer ok start failures) p"
proof -
  let ?g = "fresh_ghost ok start failures :: 'a ghost" and ?P = "implicit_producer ok start failures :: 'a producer"
  have c: "counter_inv 0 ?g ?P"
    using assms by (simp add: counter_inv_def inv_counters_def inv_tickets_def fresh_ghost_def implicit_producer_simps claims_def nth_index_def)
  have r: "ring_ok 32 \<lparr> capacity = 32, index_tail = 31, ring = [0..<32] \<rparr>"
    by (auto simp: ring_ok_def intro!: exI [of _ 5])
  have rings: "inv_rings ?g lv (headers ?P) (block_index ?P) (length (entries ?P)) (next_block_index_capacity ?P)" for lv
    using r by (auto simp: inv_rings_def fresh_ghost_def implicit_producer_simps)
  have "inv_entries ?g lv (entries ?P)" for lv
    by (auto simp: inv_entries_def fresh_ghost_def implicit_producer_simps)
  moreover have "writer_ok ?g lv (headers ?P) (block_index ?P) (tail_block ?P) (enqueuing ?P)" for lv
    by (simp add: implicit_producer_simps settled_def fresh_ghost_def)
  moreover have "inv_readers ?g (headers ?P) (dequeuing ?P)"
    by (simp add: inv_readers_def implicit_producer_simps)
  moreover have "inv_blocks ?g lv U C ph p" for lv U C ph
    by (simp add: inv_blocks_def fresh_ghost_def)
  moreover have "inv_usage ?g lv (enqueuing ?P) (dequeuing ?P) p" for lv
    unfolding inv_usage_def using fresh_unused by blast
  ultimately show ?thesis using c rings by (simp add: producer_inv_def structure_inv_def)
qed

lemma fresh_owned: "owned (fresh_ghost ok start failures) (implicit_producer ok start failures) = {}"
  unfolding owned_def using fresh_unused by blast

lemma fresh_pool_ok: "pool_ok 0 (populate_initial_block_list n)"
  by (auto simp: pool_ok_def populate_initial_block_list_def spare_def raw_def new_block_def)

lemma fresh_queue_inv:
  assumes "\<And>q. start q AND 31 = 0"
  shows "queue_inv 0 (\<lambda>q. fresh_ghost (ok q) (start q) (failures q)) (fresh_queue ok start failures n)"
  using assms by (simp add: queue_inv_def fresh_queue_def fresh_pool_ok fresh_owned fresh_producer_inv)

abbreviation no_streams :: "'a streams" where "no_streams \<equiv> (cq_empty, \<lambda>_ _. None)"

lemma fresh_streams: "streams_of (\<lambda>q. fresh_ghost (ok q) (start q) (failures q)) (fresh_queue ok start failures n) = no_streams"
  by (simp add: streams_of_def fresh_queue_def implicit_producer_simps stream_of_def fresh_ghost_def cq_empty_def taken_by_def)

lemma fresh_run:
  assumes "\<And>q. start q AND 31 = 0" and "length ls < 2 ^ 56"
  shows "\<exists>es s gs. run_queue ls (fresh_queue ok start failures n) = Some (es, s) \<and> queue_inv (length ls) gs s \<and>
    streams_events es no_streams = Some (streams_of gs s)"
  using run_queue_streams [OF fresh_queue_inv [where start = start and ok = ok and failures = failures and n = n, OF assms(1)], where ls = ls] assms(2) by (simp add: fresh_streams)

section \<open>A run to look at\<close>

text \<open>Producer 0 enqueues 7 into a queue with one block, and consumer 0 dequeues it; every step by itself.\<close>

definition one_round :: "nat queue_label list" where
  "one_round =
     (let w = Step_owner 0 None; r = Step_consumer 0 0
      in [Call_enqueue 0 7, w, w, w, w, w, w, w, w, w, w, Call_dequeue 0 0, r, r, r, r, r, r, r, r, r, r, r])"

definition one_block :: "nat queue_state" where
  "one_block = fresh_queue (\<lambda>_. True) (\<lambda>_. 0) (\<lambda>_. 0) 1"

lemmas step_defs = enqueue_step_def call_enqueue_def dequeue_step_def call_dequeue_def set_enqueuing_def set_dequeuing_def Let_def
  circular_less_than_def current_header_def next_entry_def ring_at_def update_header_def initial_pool_exhausted_def
  take_from_initial_pool_def update_block_def reset_empty_def construct_at_def block_offset_def
  index_position_def signed_quotient_def move_from_def set_empty_def new_block_def queue_step_def
  fresh_queue_def implicit_producer_simps populate_initial_block_list_def

lemma one_round_events:
  "\<exists>s. run_queue one_round one_block = Some ([(0, Enqueued 7), (0, Looked 0), (0, Claimed 0), (0, Dequeued 0 7)], s) \<and>
     dequeuing (producers s 0) 0 = Not_dequeuing"
  by (simp add: one_round_def one_block_def step_defs)

section \<open>Safety and refinement\<close>

lemma less_head_tail:
  assumes "unat (t - h) < 2 ^ 56"
  shows "circular_less_than h t \<longleftrightarrow> t - h \<noteq> 0"
proof -
  let ?d = "t - h"
  have lt: "uint ?d < 2 ^ 56" using assms by (simp add: nat_less_iff flip: nat_uint_eq)
  have "circular_less_than h t \<longleftrightarrow> 2 ^ 63 < uint (- ?d)" by (simp add: circular_less_than_def word_less_def)
  also have "uint (- ?d) = (- uint ?d) mod 2 ^ 64" by (simp only: uint_word_ariths) simp
  also have "\<dots> = (if uint ?d = 0 then 0 else 2 ^ 64 - uint ?d)"
    using lt by (simp add: zmod_zminus1_eq_if)
  finally show ?thesis using lt by (simp add: uint_0_iff split: if_splits)
qed

text \<open>What the invariant says of the words of a producer and of its consumers at rest.\<close>

lemma streams_of_state:
  assumes "queue_inv N gs s"
  shows "length (fst (streams_of gs s) q) = unat (tail_index (producers s q) - head_index (producers s q)) \<and>
    unat (tail_index (producers s q) - head_index (producers s q)) < 2 ^ 56 \<and>
    (dequeuing (producers s q) c = Not_dequeuing \<longrightarrow> snd (streams_of gs s) q c = None)"
proof -
  let ?g = "gs q" and ?P = "producers s q"
  have inv: "counter_inv N ?g ?P" using assms by (simp add: queue_inv_def producer_inv_def)
  then have "inv_counters ?g (tail_index ?P) (head_index ?P) (dequeue_optimistic_count ?P) (dequeue_overcommit ?P)"
    by (simp add: counter_inv_def)
  then have le: "claims ?g \<le> enqueued ?g" and ix: "tail_index ?P = nth_index ?g (enqueued ?g)" "head_index ?P = nth_index ?g (claims ?g)"
    by (auto simp: claims_le) (simp_all add: inv_counters_def)
  have "tail_index ?P - head_index ?P = of_nat (enqueued ?g - claims ?g)"
    unfolding ix nth_index_def by (simp add: of_nat_diff [OF le])
  moreover have small: "enqueued ?g - claims ?g < 2 ^ 56"
  proof -
    have "enqueued ?g \<le> N" "N < 2 ^ 56" using inv by (simp_all only: counter_inv_def)
    then show ?thesis by linarith
  qed
  ultimately have "unat (tail_index ?P - head_index ?P) = enqueued ?g - claims ?g"
    by (simp add: unat_of_nat)
  with small show ?thesis by (simp add: streams_of_def stream_of_def taken_by_def)
qed

lemma size_approx_gap:
  assumes "unat (tail_index P - head_index P) < 2 ^ 56"
  shows "size_approx P = tail_index P - head_index P"
  using less_head_tail [OF assms] by (simp add: size_approx_def)

text \<open>
  C15: The lock-free queue is free of undefined behaviour: whatever the order in which the owners and any
  number of consumers of any number of producers make their steps on the shared blocks, and whatever the
  allocator answers, in fewer than 2^56 steps no assertion of the implicit producers' enqueue, dequeue and
  index growth fails, the copy of the ring stays inside the new one, no missing block or index is used, no
  element is constructed over another one or moved out of raw memory. The free list is one step here; its
  own assertion is the subject of \<open>Free_Properties\<close>.
\<close>

theorem queue_never_faults:
  assumes "\<And>q. start q AND 31 = 0" and "length ls < 2 ^ 56"
  shows "run_queue ls (fresh_queue ok start failures n) \<noteq> None"
  using fresh_run [where start = start, OF assms, where ok = ok and failures = failures and n = n] by fastforce

theorem queue_never_faults_witness:
  "run_queue one_round (fresh_queue (\<lambda>q. q = 0) (\<lambda>_. - 32) (\<lambda>_. 3) 0) \<noteq> None"
  by (rule queue_never_faults) (simp_all add: one_round_def Let_def)

text \<open>
  C7: The lock-free queue implements the streams of elements that its clients rely on: the events of every
  run, in their order, are events of one list of elements for each producer. An enqueue appends its
  element, a claim takes the first one, a dequeue returns what its consumer has taken; nothing is lost,
  doubled or reordered. At the end \<open>size_approx\<close> is the length of the list, and a consumer at rest holds nothing.
\<close>

theorem queue_refines_streams:
  assumes "\<And>q. start q AND 31 = 0" and "length ls < 2 ^ 56" and "run_queue ls (fresh_queue ok start failures n) = Some (es, s)"
  shows "\<exists>xs taken. streams_events es no_streams = Some (xs, taken) \<and>
    (\<forall>q. length (xs q) = unat (size_approx (producers s q))) \<and>
    (\<forall>q c. dequeuing (producers s q) c = Not_dequeuing \<longrightarrow> taken q c = None)"
proof -
  from fresh_run [where start = start, OF assms(1,2), where ok = ok and failures = failures and n = n] assms(3)
  obtain gs where "queue_inv (length ls) gs s" "streams_events es no_streams = Some (streams_of gs s)" by auto
  moreover from this have "length (fst (streams_of gs s) q) = unat (size_approx (producers s q))" for q
    using streams_of_state [of "length ls" gs s q] by (simp add: size_approx_gap)
  ultimately show ?thesis using streams_of_state [of "length ls" gs s]
    by (intro exI [of _ "fst (streams_of gs s)"] exI [of _ "snd (streams_of gs s)"]) simp
qed

theorem queue_refines_streams_witness:
  "\<exists>s xs taken. run_queue one_round one_block = Some ([(0, Enqueued 7), (0, Looked 0), (0, Claimed 0), (0, Dequeued 0 7)], s) \<and>
    streams_events [(0, Enqueued 7), (0, Looked 0), (0, Claimed 0), (0, Dequeued 0 (7 :: nat))] no_streams = Some (xs, taken) \<and>
    length (xs 0) = unat (size_approx (producers s 0)) \<and> taken 0 0 = None"
proof -
  obtain s where r: "run_queue one_round one_block = Some ([(0, Enqueued 7), (0, Looked 0), (0, Claimed 0), (0, Dequeued 0 7)], s)"
    and idle: "dequeuing (producers s 0) 0 = Not_dequeuing" using one_round_events by blast
  have "length one_round < 2 ^ 56" by (simp add: one_round_def Let_def)
  from queue_refines_streams [where start = "\<lambda>_. 0", OF _ this r [unfolded one_block_def]] idle r
  show ?thesis by auto
qed

section \<open>Bounded calls\<close>

text \<open>
  A bound on the steps of a thread: \<open>own\<close> are the labels of its steps, \<open>ret\<close> the events with which its calls
  return, and \<open>rank\<close> bounds the steps its call still takes, 0 while there is none. Other threads do not make the
  rank larger.
\<close>

locale ranked =
  fixes own :: "'a queue_label \<Rightarrow> bool" and ret :: "nat \<times> 'a queue_event \<Rightarrow> bool" and rank :: "'a queue_state \<Rightarrow> nat"
  assumes can_step: "own l \<Longrightarrow> 0 < rank s \<Longrightarrow> queue_step l s \<noteq> Disabled"
    and no_delay: "0 < rank s \<Longrightarrow> queue_step l s = Next s' e \<Longrightarrow> (\<And>x. e = Some x \<Longrightarrow> \<not> ret x) \<Longrightarrow>
      0 < rank s' \<and> rank s' + (if own l then 1 else 0) \<le> rank s"
begin

lemma progress:
  assumes "0 < rank s" and "run_queue ls s = Some (es, s')" and "\<And>x. x \<in> set es \<Longrightarrow> \<not> ret x"
  shows "0 < rank s' \<and> rank s' + length (filter own ls) \<le> rank s"
  using assms
proof (induction ls arbitrary: s es)
  case (Cons l ls)
  show ?case
  proof (cases "queue_step l s")
    case Disabled
    with Cons can_step [of l s] show ?thesis by (auto split: if_splits)
  next
    case (Next s1 e)
    then obtain es1 where r: "run_queue ls s1 = Some (es1, s')" and es: "es = (case e of None \<Rightarrow> es1 | Some x \<Rightarrow> x # es1)"
      using Cons.prems(2) by auto
    have "0 < rank s1 \<and> rank s1 + (if own l then 1 else 0) \<le> rank s"
      using no_delay [OF Cons.prems(1) Next] Cons.prems(3) by (auto simp: es)
    moreover have "\<And>x. x \<in> set es1 \<Longrightarrow> \<not> ret x" using Cons.prems(3) by (auto simp: es split: option.splits)
    then have "0 < rank s1 \<Longrightarrow> 0 < rank s' \<and> rank s' + length (filter own ls) \<le> rank s1" using Cons.IH r by blast
    ultimately show ?thesis by (auto split: if_splits)
  qed (use Cons.prems(2) in simp)
qed simp

end

fun dequeue_rank :: "'a dequeue_phase \<Rightarrow> nat" where
  "dequeue_rank Not_dequeuing = 0"
| "dequeue_rank (Load_overcommit t) = 13"
| "dequeue_rank (Compare_counts t ov) = 12"
| "dequeue_rank (Take_ticket ov) = 11"
| "dequeue_rank (Recheck ov my) = 10"
| "dequeue_rank (Claim_index ov my) = 9"
| "dequeue_rank (Give_back ov my) = 2"
| "dequeue_rank (Load_index i) = 8"
| "dequeue_rank (Load_index_tail i h) = 7"
| "dequeue_rank (Load_key i h t) = 6"
| "dequeue_rank (Load_value i e) = 5"
| "dequeue_rank (Move_element i e b) = 4"
| "dequeue_rank (Count_element i e b x) = 3"
| "dequeue_rank (Unlink_block i e b x) = 2"
| "dequeue_rank (Free_block i b x) = 1"

text \<open>The events with which a call of \<open>enqueue\<close> or \<open>dequeue\<close> returns.\<close>

fun enqueue_returns :: "'a queue_event \<Rightarrow> bool" where
  "enqueue_returns (Enqueued x) = True"
| "enqueue_returns Enqueue_failed = True"
| "enqueue_returns _ = False"

fun dequeue_returns :: "nat \<Rightarrow> 'a queue_event \<Rightarrow> bool" where
  "dequeue_returns c (Dequeued c' x) = (c' = c)"
| "dequeue_returns c (Found_empty c') = (c' = c)"
| "dequeue_returns c _ = False"

text \<open>Every step of a consumer lowers its rank, or returns, and keeps the other threads' phases.\<close>

definition rank_step :: "('p \<Rightarrow> nat) \<Rightarrow> ('e \<Rightarrow> bool) \<Rightarrow> 'p \<Rightarrow> 'p \<Rightarrow> 'e option \<Rightarrow> bool" where
  "rank_step rank ret ph ph' e \<longleftrightarrow> (\<exists>x. e = Some x \<and> ret x) \<or> 0 < rank ph' \<and> rank ph' < rank ph"

lemma dequeue_step_rank:
  assumes "dequeue_step c P p = Next (P', p') e"
  shows "rank_step dequeue_rank (dequeue_returns c) (dequeuing P c) (dequeuing P' c) e \<and>
    (\<forall>c'. c' \<noteq> c \<longrightarrow> dequeuing P' c' = dequeuing P c') \<and> enqueuing P' = enqueuing P \<and> \<not> (\<exists>x. e = Some x \<and> enqueue_returns x)"
  using assms
  by (cases "dequeuing P c")
    (auto simp: dequeue_step_def rank_step_def Let_def split: if_splits option.splits bool.splits)

lemma enqueue_step_dequeuing: "enqueue_step a P p = Next (P', p') e \<Longrightarrow> dequeuing P' = dequeuing P"
  by (cases "enqueuing P")
    (auto simp: enqueue_step_def set_enqueuing_def update_header_def new_block_index_def Let_def
      split: if_splits option.splits prod.splits bool.splits)

lemma enqueue_step_events: "enqueue_step a P p = Next (P', p') e \<Longrightarrow> e = Some x \<Longrightarrow> enqueue_returns x"
  by (cases "enqueuing P")
    (auto simp: enqueue_step_def Let_def split: if_splits option.splits prod.splits bool.splits)

lemma enqueue_returns_other: "enqueue_returns x \<Longrightarrow> \<not> dequeue_returns c x"
  by (cases x) auto

lemma call_enqueue_ranks:
  "call_enqueue x P p = Next (P', p') e \<Longrightarrow> enqueuing P = Idle \<and> e = None \<and> dequeuing P' = dequeuing P"
  by (auto simp: call_enqueue_def set_enqueuing_def split: if_splits)

lemma call_dequeue_ranks:
  "call_dequeue c P p = Next (P', p') e \<Longrightarrow>
     dequeuing P c = Not_dequeuing \<and> e = Some (Looked c) \<and> enqueuing P' = enqueuing P \<and> (\<forall>c'. c' \<noteq> c \<longrightarrow> dequeuing P' c' = dequeuing P c')"
  by (auto simp: call_dequeue_def set_dequeuing_def split: if_splits)

lemma queue_step_NextE:
  assumes "queue_step l s = Next s' e"
  obtains P p x where "producer_step l (producers s (label_producer l)) (pool s) = Next (P, p) x"
    and "s' = \<lparr> producers = (producers s)(label_producer l := P), pool = p \<rparr>" and "e = map_option (Pair (label_producer l)) x"
  using assms by (auto simp: queue_step_def Let_def split: step_result.splits)

lemma dequeue_enabled: "dequeue_step c P p = Disabled \<longleftrightarrow> dequeuing P c = Not_dequeuing"
  by (cases "dequeuing P c") (simp_all add: dequeue_step_def Let_def split: option.split bool.split prod.split)

definition dequeue_return :: "nat \<Rightarrow> nat \<Rightarrow> nat \<times> 'a queue_event \<Rightarrow> bool" where
  "dequeue_return q c x \<longleftrightarrow> fst x = q \<and> dequeue_returns c (snd x)"

lemma producer_step_dequeuing:
  assumes "producer_step l P p = Next (P', p') e"
  shows "dequeuing P' c = dequeuing P c \<or> dequeuing P c = Not_dequeuing \<or> l = Step_consumer (label_producer l) c"
proof (cases l)
  case (Call_dequeue q c')
  then show ?thesis using assms call_dequeue_ranks [of c' P p P' p' e] by (cases "c' = c") auto
next
  case (Step_consumer q c')
  then show ?thesis using assms dequeue_step_rank [of c' P p P' p' e] by (cases "c' = c") auto
qed (use assms in \<open>auto dest: call_enqueue_ranks enqueue_step_dequeuing\<close>)

lemma dequeue_no_delay:
  assumes rank: "0 < dequeue_rank (dequeuing (producers s q) c)" and nxt: "queue_step l s = Next s' e"
    and ret: "\<And>x. e = Some x \<Longrightarrow> \<not> dequeue_return q c x"
  shows "0 < dequeue_rank (dequeuing (producers s' q) c) \<and>
    dequeue_rank (dequeuing (producers s' q) c) + (if l = Step_consumer q c then 1 else 0) \<le> dequeue_rank (dequeuing (producers s q) c)"
  using nxt
proof (rule queue_step_NextE)
  fix P p x
  assume step: "producer_step l (producers s (label_producer l)) (pool s) = Next (P, p) x"
    and s': "s' = \<lparr> producers = (producers s)(label_producer l := P), pool = p \<rparr>" and e: "e = map_option (Pair (label_producer l)) x"
  have same: "dequeuing P c = dequeuing (producers s q) c \<or> l = Step_consumer q c" if "label_producer l = q"
    using producer_step_dequeuing [OF step, of c] that rank by auto
  show ?thesis
  proof (cases "l = Step_consumer q c")
    case True
    then show ?thesis
      using dequeue_step_rank [of c "producers s q" "pool s" P p x] step ret
      by (auto simp: s' e rank_step_def dequeue_return_def)
  next
    case False
    then show ?thesis using same rank by (auto simp: s')
  qed
qed

interpretation dequeuer: ranked "\<lambda>l. l = Step_consumer q c" "dequeue_return q c" "\<lambda>s. dequeue_rank (dequeuing (producers s q) c)"
  for q c
proof
  fix l :: "'a queue_label" and s :: "'a queue_state"
  assume "l = Step_consumer q c" and "0 < dequeue_rank (dequeuing (producers s q) c)"
  then show "queue_step l s \<noteq> Disabled"
    by (auto simp: queue_step_def Let_def dequeue_enabled split: step_result.split)
qed (rule dequeue_no_delay)

lemma dequeue_rank_le: "dequeue_rank ph \<le> 13" by (cases ph) simp_all
lemma filter_const: "filter (\<lambda>l. l = x) ls = replicate (count_list ls x) x"
  by (induction ls) auto

lemma run_queue_append:
  "run_queue (ls @ ls') s = (case run_queue ls s of None \<Rightarrow> None
     | Some (es, s1) \<Rightarrow> map_option (\<lambda>(es', s2). (es @ es', s2)) (run_queue ls' s1))"
  by (induction ls arbitrary: s)
    (auto simp: option.map_comp comp_def split_def option.map_ident split: step_result.split option.split)

lemma fresh_run_on:
  assumes "\<And>q. start q AND 31 = 0" and "length (ls @ ls') < 2 ^ 56" and "run_queue ls (fresh_queue ok start failures n) = Some (es, s)"
  shows "\<exists>es' s'. run_queue ls' s = Some (es', s')"
  using fresh_run [where start = start and ls = "ls @ ls'" and ok = ok and failures = failures and n = n, OF assms(1,2)] assms(3)
  by (auto simp: run_queue_append)

lemma last_rank: "dequeue_rank ph = 1 \<Longrightarrow> \<exists>i b x. ph = Free_block i b x"
  by (cases ph) simp_all

text \<open>
  C26: A dequeue takes a bounded number of steps up to the last one: in every run of the queue, whatever the
  other threads do in between, a consumer in a dequeue of one producer has, before it has made 12 steps more,
  returned, with an element or with the answer that there is none, or holds its element and has only the
  emptied block to give to the free list, whose \<open>add\<close> has no such bound in the code.
\<close>

theorem dequeue_bounded:
  assumes "\<And>q. start q AND 31 = 0" and "length (ls @ ls') < 2 ^ 56" and "run_queue ls (fresh_queue ok start failures n) = Some (es, s)"
    and "dequeuing (producers s q) c \<noteq> Not_dequeuing" and "12 \<le> count_list ls' (Step_consumer q c)"
  shows "\<exists>es' s'. run_queue ls' s = Some (es', s') \<and>
    ((\<exists>e. (q, e) \<in> set es' \<and> dequeue_returns c e) \<or> (\<exists>i b x. dequeuing (producers s' q) c = Free_block i b x))"
proof -
  from fresh_run_on [where start = start, OF assms(1-3)] obtain es' s' where r: "run_queue ls' s = Some (es', s')" by blast
  have "\<exists>i b x. dequeuing (producers s' q) c = Free_block i b x" if none: "\<not> (\<exists>e. (q, e) \<in> set es' \<and> dequeue_returns c e)"
  proof (rule last_rank)
    have "0 < dequeue_rank (dequeuing (producers s q) c)" using assms(4) by (cases "dequeuing (producers s q) c") simp_all
    moreover have "\<not> dequeue_return q c x" if "x \<in> set es'" for x
      using that none by (metis dequeue_return_def prod.collapse)
    ultimately show "dequeue_rank (dequeuing (producers s' q) c) = 1"
      using dequeuer.progress [of s q c ls' es' s', OF _ r] assms(5) dequeue_rank_le [of "dequeuing (producers s q) c"]
      by (simp add: filter_const)
  qed
  with r show ?thesis by blast
qed

theorem dequeue_bounded_witness:
  "\<exists>s es' s'. run_queue [Call_dequeue 0 0] one_block = Some ([(0, Looked 0)], s) \<and>
    run_queue (Call_enqueue 0 7 # replicate 12 (Step_consumer 0 0)) s = Some (es', s') \<and>
    ((\<exists>e. (0, e) \<in> set es' \<and> dequeue_returns 0 e) \<or> (\<exists>i b x. dequeuing (producers s' 0) 0 = Free_block i b x))"
proof -
  obtain s where r: "run_queue [Call_dequeue 0 0] one_block = Some ([(0, Looked 0)], s)"
    and ph: "dequeuing (producers s 0) 0 = Load_overcommit 0" by (simp add: one_block_def step_defs)
  have "12 \<le> count_list (Call_enqueue 0 7 # replicate 12 (Step_consumer 0 0)) (Step_consumer 0 0 :: nat queue_label)"
    by (simp add: numeral_eq_Suc)
  from dequeue_bounded [where start = "\<lambda>_. 0", OF _ _ r [unfolded one_block_def] _ this] ph
  have "\<exists>es' s'. run_queue (Call_enqueue 0 7 # replicate 12 (Step_consumer 0 0)) s = Some (es', s') \<and>
    ((\<exists>e. (0, e) \<in> set es' \<and> dequeue_returns 0 e) \<or> (\<exists>i b x. dequeuing (producers s' 0) 0 = Free_block i b x))"
    by (simp del: run_queue.simps)
  with r show ?thesis by blast
qed

end
