(* ===== verification/Queue_Single.thy ===== *)
theory Queue_Single
  imports Queue_Properties
begin

text \<open>
  A queue with one consumer, as the program's threads use theirs: no ticket is ever given back, and the
  answer that the queue is empty is true at the moment at which the consumer looked at it.
\<close>

section \<open>Runs by their events\<close>

lemma run_queue_event:
  assumes "run_queue ls s = Some (es1 @ x # es2, s')"
  shows "\<exists>ls1 l ls2 s1 s2. ls = ls1 @ l # ls2 \<and> run_queue ls1 s = Some (es1, s1) \<and> queue_step l s1 = Next s2 (Some x) \<and>
    run_queue ls2 s2 = Some (es2, s')"
  using assms
proof (induction ls arbitrary: s es1)
  case (Cons l ls)
  show ?case
  proof (cases "queue_step l s")
    case Disabled
    then have "run_queue ls s = Some (es1 @ x # es2, s')" using Cons.prems by simp
    from Cons.IH [OF this] obtain ls1 k ls2 t1 t2 where
      "ls = ls1 @ k # ls2" "run_queue ls1 s = Some (es1, t1)" "queue_step k t1 = Next t2 (Some x)" "run_queue ls2 t2 = Some (es2, s')"
      by blast
    then show ?thesis using Disabled
      by (intro exI [of _ "l # ls1"] exI [of _ k] exI [of _ ls2] exI [of _ t1] exI [of _ t2]) simp
  next
    case (Next s1 e)
    then obtain es where r: "run_queue ls s1 = Some (es, s')" and es: "es1 @ x # es2 = (case e of None \<Rightarrow> es | Some y \<Rightarrow> y # es)"
      using Cons.prems by auto
    show ?thesis
    proof (cases "es1 = [] \<and> e = Some x")
      case True
      then show ?thesis using Next r es by (intro exI [of _ "[]"] exI [of _ l] exI [of _ ls] exI [of _ s] exI [of _ s1]) simp
    next
      case False
      then obtain es1' where es': "es = es1' @ x # es2" and es1: "es1 = (case e of None \<Rightarrow> es1' | Some y \<Rightarrow> y # es1')"
        using es by (cases e; cases es1) auto
      from Cons.IH [OF r [unfolded es']] obtain ls1 k ls2 t1 t2 where
        "ls = ls1 @ k # ls2" "run_queue ls1 s1 = Some (es1', t1)" "queue_step k t1 = Next t2 (Some x)" "run_queue ls2 t2 = Some (es2, s')"
        by blast
      then show ?thesis using Next
        by (intro exI [of _ "l # ls1"] exI [of _ k] exI [of _ ls2] exI [of _ t1] exI [of _ t2]) (auto simp: es1)
    qed
  qed (use Cons.prems in simp)
qed simp

section \<open>The words of a producer with one consumer\<close>

fun draws :: "'a dequeue_phase \<Rightarrow> bool" where
  "draws (Recheck ov my) = True"
| "draws (Claim_index ov my) = True"
| "draws _ = False"

fun solo_phase :: "u64 \<Rightarrow> u64 \<Rightarrow> u64 \<Rightarrow> 'a dequeue_phase \<Rightarrow> bool" where
  "solo_phase f h t (Load_overcommit l) \<longleftrightarrow> unat (l - h) \<le> unat (t - h)"
| "solo_phase f h t (Compare_counts l ov) \<longleftrightarrow> unat (l - h) \<le> unat (t - h) \<and> ov = f"
| "solo_phase f h t (Take_ticket ov) \<longleftrightarrow> ov = f \<and> t - h \<noteq> 0"
| "solo_phase f h t (Recheck ov my) \<longleftrightarrow> ov = f \<and> my = h + f \<and> t - h \<noteq> 0"
| "solo_phase f h t (Give_back ov my) \<longleftrightarrow> False"
| "solo_phase f h t _ \<longleftrightarrow> True"

definition solo :: "u64 \<Rightarrow> nat \<Rightarrow> 'a producer \<Rightarrow> bool" where
  "solo f c P \<longleftrightarrow>
     (\<forall>c'. c' \<noteq> c \<longrightarrow> dequeuing P c' = Not_dequeuing) \<and> dequeue_overcommit P = f \<and>
     dequeue_optimistic_count P = head_index P + f + (if draws (dequeuing P c) then 1 else 0) \<and>
     solo_phase f (head_index P) (tail_index P) (dequeuing P c)"

lemma unat_gap_Suc:
  fixes t h :: u64
  assumes "unat (t - h) < 2 ^ 56"
  shows "unat ((1 + t) - h) = Suc (unat (t - h))"
proof -
  have "1 + t - h = 1 + (t - h)" by simp
  then have "unat ((1 + t) - h) = (1 + unat (t - h)) mod 2 ^ 64" by (simp only: unat_word_ariths) simp
  with assms show ?thesis by simp
qed

lemma solo_phase_tail:
  assumes "unat (t - h) < 2 ^ 56" and "solo_phase f h t ph"
  shows "solo_phase f h (1 + t) ph"
proof -
  have gap: "unat ((1 + t) - h) = Suc (unat (t - h))" by (rule unat_gap_Suc [OF assms(1)])
  then have "(1 + t) - h \<noteq> 0" by (metis nat.simps(3) unat_0)
  with gap assms(2) show ?thesis by (cases ph) auto
qed

lemma enqueue_step_words:
  assumes "enqueue_step a P p = Next (P', p') e"
  shows "head_index P' = head_index P \<and> dequeue_optimistic_count P' = dequeue_optimistic_count P \<and>
    dequeue_overcommit P' = dequeue_overcommit P \<and> dequeuing P' = dequeuing P \<and>
    (tail_index P' = tail_index P \<or> tail_index P' = 1 + tail_index P)"
  using assms
  by (cases "enqueuing P")
    (auto simp: enqueue_step_def set_enqueuing_def update_header_def new_block_index_def Let_def split: if_splits option.splits prod.splits bool.splits)

lemma solo_dequeue:
  assumes "solo f c P" and "unat (tail_index P - head_index P) < 2 ^ 56" and "dequeue_step c P p = Next (P', p') e"
  shows "solo f c P'"
proof (cases "dequeuing P c")
  case (Compare_counts l ov)
  then have "solo_phase f (head_index P) (tail_index P) (Compare_counts l ov)"
    and "dequeue_optimistic_count P - ov = head_index P" using assms(1) by (simp_all add: solo_def)
  moreover have "circular_less_than (head_index P) l \<Longrightarrow> tail_index P - head_index P \<noteq> 0"
  proof
    assume "circular_less_than (head_index P) l" and eq: "tail_index P - head_index P = 0"
    moreover from this have "unat (l - head_index P) = 0"
      using \<open>solo_phase f (head_index P) (tail_index P) (Compare_counts l ov)\<close> by simp
    ultimately show False using less_head_tail [of l "head_index P"] by (simp add: unat_eq_0)
  qed
  ultimately show ?thesis
    using assms(1,3) Compare_counts by (auto simp: dequeue_step_def solo_def set_dequeuing_def split: if_splits)
next
  case (Recheck ov my)
  then have "my - ov = head_index P" "tail_index P - head_index P \<noteq> 0" using assms(1) by (simp_all add: solo_def)
  with less_head_tail [OF assms(2)] show ?thesis
    using assms(1,3) Recheck by (auto simp: dequeue_step_def solo_def set_dequeuing_def)
qed (use assms(1,3) in \<open>auto simp: dequeue_step_def solo_def set_dequeuing_def Let_def split: if_splits option.splits bool.splits\<close>)

lemma solo_step:
  assumes "solo f c P" and "unat (tail_index P - head_index P) < 2 ^ 56" and "\<And>q c'. l = Call_dequeue q c' \<Longrightarrow> c' = c"
    and step: "producer_step l P p = Next (P', p') e"
  shows "solo f c P'"
proof (cases l)
  case (Call_enqueue q x)
  then show ?thesis using assms(1) step by (auto simp: call_enqueue_def set_enqueuing_def solo_def split: if_splits)
next
  case (Step_owner q a)
  then show ?thesis
    using assms(1) enqueue_step_words [of a P p P' p' e] step solo_phase_tail [OF assms(2)] by (auto simp: solo_def)
next
  case (Call_dequeue q c')
  then show ?thesis using assms(1,3) step by (auto simp: call_dequeue_def set_dequeuing_def solo_def split: if_splits)
next
  case (Step_consumer q c')
  then show ?thesis
    using assms(1,2) step solo_dequeue [of f c P p P' p' e] by (cases "c' = c") (auto simp: solo_def dequeue_step_def)
qed

section \<open>Runs with one consumer\<close>

abbreviation only_consumer :: "nat \<Rightarrow> nat \<Rightarrow> 'a queue_label list \<Rightarrow> bool" where
  "only_consumer q c ls \<equiv> \<forall>c'. Call_dequeue q c' \<in> set ls \<longrightarrow> c' = c"

lemma queue_gap:
  assumes "queue_inv N gs s"
  shows "unat (tail_index (producers s q) - head_index (producers s q)) < 2 ^ 56"
  using streams_of_state [OF assms] by blast

lemma fresh_gap:
  assumes "\<And>q. start q AND 31 = 0" and "length ls < 2 ^ 56" and "run_queue ls (fresh_queue ok start failures n) = Some (es, s)"
  shows "unat (tail_index (producers s q) - head_index (producers s q)) < 2 ^ 56"
  using fresh_run [where start = start and ok = ok and failures = failures and n = n, OF assms(1,2)] assms(3) queue_gap by auto

lemma run_queue_snoc:
  assumes "run_queue (ls @ [l]) s = Some (es, s')"
  obtains es1 s1 where "run_queue ls s = Some (es1, s1)" and "queue_step l s1 = Disabled \<and> s' = s1 \<and> es = es1
    \<or> (\<exists>e. queue_step l s1 = Next s' e \<and> es = es1 @ (case e of None \<Rightarrow> [] | Some x \<Rightarrow> [x]))"
  using assms by (auto simp: run_queue_append split: option.splits step_result.splits)

lemma solo_fresh_run:
  assumes "\<And>q. start q AND 31 = 0" and "length ls < 2 ^ 56" and "only_consumer q c ls"
    and "run_queue ls (fresh_queue ok start failures n) = Some (es, s)"
  shows "solo (failures q) c (producers s q)"
  using assms(2-)
proof (induction ls arbitrary: es s rule: rev_induct)
  case Nil
  then show ?case by (auto simp: fresh_queue_def implicit_producer_simps solo_def)
next
  case (snoc l ls)
  have len: "length ls < 2 ^ 56" and only: "only_consumer q c ls" using snoc.prems by auto
  from snoc.prems(3) show ?case
  proof (rule run_queue_snoc)
    fix es1 s1
    assume r: "run_queue ls (fresh_queue ok start failures n) = Some (es1, s1)" and
      l: "queue_step l s1 = Disabled \<and> s = s1 \<and> es = es1 \<or>
        (\<exists>e. queue_step l s1 = Next s e \<and> es = es1 @ (case e of None \<Rightarrow> [] | Some x \<Rightarrow> [x]))"
    have ih: "solo (failures q) c (producers s1 q)" using snoc.IH len only r by blast
    show ?thesis
    proof (cases "queue_step l s1")
      case (Next s2 e)
      with l have "queue_step l s1 = Next s e" by auto
      then show ?thesis
      proof (rule queue_step_NextE)
        fix P p x
        assume step: "producer_step l (producers s1 (label_producer l)) (pool s1) = Next (P, p) x"
          and s': "s = \<lparr> producers = (producers s1)(label_producer l := P), pool = p \<rparr>"
        have "solo (failures q) c P" if "label_producer l = q"
          using snoc.prems(2) step that
          by (intro solo_step [OF ih fresh_gap [where start = start, OF assms(1) len r]]) auto
        then show ?thesis using ih by (auto simp: s')
      qed
    qed (use l ih in auto)
  qed
qed

text \<open>What a consumer knows after it has looked: how far the tail it has read was from the head.\<close>

definition looked :: "u64 \<Rightarrow> nat \<Rightarrow> 'a producer \<Rightarrow> bool" where
  "looked d c P \<longleftrightarrow>
     (\<forall>t. dequeuing P c = Load_overcommit t \<longrightarrow> t - head_index P = d) \<and>
     (\<forall>t ov. dequeuing P c = Compare_counts t ov \<longrightarrow> t - head_index P = d)"

lemma looked_step:
  assumes "looked d c P" and "solo f c P" and "\<And>q c'. l = Call_dequeue q c' \<Longrightarrow> c' = c"
    and step: "producer_step l P p = Next (P', p') e" and "e \<noteq> Some (Looked c)"
  shows "looked d c P'"
proof (cases l)
  case (Call_enqueue q x)
  then show ?thesis using assms(1) step by (auto simp: call_enqueue_def set_enqueuing_def looked_def split: if_splits)
next
  case (Step_owner q a)
  then show ?thesis using assms(1) enqueue_step_words [of a P p P' p' e] step by (simp add: looked_def)
next
  case (Call_dequeue q c')
  then show ?thesis using assms(3,5) call_dequeue_ranks [of c' P p P' p' e] step by auto
next
  case (Step_consumer q c')
  then have "c' = c" using assms(2) step by (cases "c' = c") (auto simp: solo_def dequeue_step_def)
  then show ?thesis using assms(1) step Step_consumer
    by (cases "dequeuing P c")
      (auto simp: dequeue_step_def looked_def set_dequeuing_def Let_def split: if_splits option.splits bool.splits)
qed

lemma looked_run:
  assumes "\<And>q. start q AND 31 = 0" and "length (ls @ ls') < 2 ^ 56" and "only_consumer q c (ls @ ls')"
    and "run_queue ls (fresh_queue ok start failures n) = Some (es, s)" and "looked d c (producers s q)"
    and "run_queue ls' s = Some (es', s')" and "(q, Looked c) \<notin> set es'"
  shows "looked d c (producers s' q)"
  using assms(2,3,6,7)
proof (induction ls' arbitrary: es' s' rule: rev_induct)
  case Nil
  then show ?case using assms(5) by simp
next
  case (snoc l ls')
  have len: "length (ls @ ls') < 2 ^ 56" and only: "only_consumer q c (ls @ ls')" using snoc.prems(1,2) by auto
  from snoc.prems(3) show ?case
  proof (rule run_queue_snoc)
    fix es1 s1
    assume r: "run_queue ls' s = Some (es1, s1)" and
      l: "queue_step l s1 = Disabled \<and> s' = s1 \<and> es' = es1 \<or>
        (\<exists>e. queue_step l s1 = Next s' e \<and> es' = es1 @ (case e of None \<Rightarrow> [] | Some x \<Rightarrow> [x]))"
    have "(q, Looked c) \<notin> set es1" using l snoc.prems(4) by auto
    then have ih: "looked d c (producers s1 q)" using snoc.IH [OF len only r] by blast
    have sol: "solo (failures q) c (producers s1 q)"
      using solo_fresh_run [where start = start and ls = "ls @ ls'" and ok = ok and n = n, OF assms(1) len only] assms(4) r
      by (simp add: run_queue_append)
    show ?thesis
    proof (cases "queue_step l s1")
      case (Next s2 e)
      with l have n: "queue_step l s1 = Next s' e" and e: "e \<noteq> Some (q, Looked c)" using snoc.prems(4) by auto
      from n show ?thesis
      proof (rule queue_step_NextE)
        fix P p x
        assume step: "producer_step l (producers s1 (label_producer l)) (pool s1) = Next (P, p) x"
          and s': "s' = \<lparr> producers = (producers s1)(label_producer l := P), pool = p \<rparr>" and x: "e = map_option (Pair (label_producer l)) x"
        have "looked d c P" if "label_producer l = q"
          using snoc.prems(2) step that e x by (intro looked_step [OF ih sol, of l]) auto
        then show ?thesis using ih by (auto simp: s')
      qed
    qed (use l ih in auto)
  qed
qed

section \<open>The answer that the queue is empty\<close>

lemma dequeue_step_event:
  "dequeue_step c P p = Next r (Some e) \<Longrightarrow> e = Claimed c \<or> e = Found_empty c \<or> (\<exists>x. e = Dequeued c x)"
  by (cases "dequeuing P c") (auto simp: dequeue_step_def Let_def split: if_splits option.splits bool.splits)

lemma consumer_event:
  assumes "producer_step l P p = Next (P', p') (Some e)" and "\<not> enqueue_returns e"
  shows "(\<exists>q c. l = Call_dequeue q c \<and> e = Looked c \<and> call_dequeue c P p = Next (P', p') (Some e)) \<or>
    (\<exists>q c. l = Step_consumer q c \<and> e \<noteq> Looked c \<and> dequeue_step c P p = Next (P', p') (Some e) \<and>
      (e = Claimed c \<or> e = Found_empty c \<or> (\<exists>x. e = Dequeued c x)))"
  using assms enqueue_step_events [of _ P p P' p' "Some e" e] call_enqueue_ranks [of _ P p P' p' "Some e"]
    call_dequeue_ranks [of _ P p P' p' "Some e"] dequeue_step_event [of _ P p "(P', p')" e]
  by (cases l) auto

lemma found_empty_step:
  assumes "solo f c P" and "looked d c P" and "unat d < 2 ^ 56"
    and step: "producer_step l P p = Next (P', p') (Some (Found_empty c))"
  shows "d = 0"
proof -
  have "dequeue_step c P p = Next (P', p') (Some (Found_empty c))"
    using consumer_event [OF step] by auto
  then obtain t ov where ph: "dequeuing P c = Compare_counts t ov" and "\<not> circular_less_than (dequeue_optimistic_count P - ov) t"
    using assms(1) by (cases "dequeuing P c")
      (auto simp: dequeue_step_def solo_def Let_def split: if_splits option.splits bool.splits)
  moreover have "dequeue_optimistic_count P - ov = head_index P" using assms(1) ph by (simp add: solo_def)
  moreover have "t - head_index P = d" using assms(2) ph by (simp add: looked_def)
  ultimately show ?thesis using less_head_tail [of t "head_index P"] assms(3) by simp
qed

text \<open>
  C16: With one consumer, as the threads of the program have it, the answer of a dequeue that a producer's
  queue is empty is right: the stream of that producer was empty at the moment at which the dequeue read
  the tail, its first step. So a dequeue that begins after an enqueue has returned does not miss the element.
\<close>

theorem single_consumer_empty:
  assumes "\<And>q. start q AND 31 = 0" and "length ls < 2 ^ 56" and "\<forall>c'. Call_dequeue q c' \<in> set ls \<longrightarrow> c' = c"
    and "run_queue ls (fresh_queue ok start failures n) = Some (es1 @ (q, Looked c) # es2 @ (q, Found_empty c) # es3, s)"
    and "(q, Looked c) \<notin> set es2"
  shows "\<exists>xs taken. streams_events es1 no_streams = Some (xs, taken) \<and> xs q = []"
proof -
  from run_queue_event [OF assms(4)] obtain ls1 l ls2 s1 s2 where
    ls: "ls = ls1 @ l # ls2" and r1: "run_queue ls1 (fresh_queue ok start failures n) = Some (es1, s1)" and
    l: "queue_step l s1 = Next s2 (Some (q, Looked c))" and r2: "run_queue ls2 s2 = Some (es2 @ (q, Found_empty c) # es3, s)"
    by blast
  from run_queue_event [OF r2] obtain ls3 k ls4 s3 s4 where
    ls2: "ls2 = ls3 @ k # ls4" and r3: "run_queue ls3 s2 = Some (es2, s3)" and k: "queue_step k s3 = Next s4 (Some (q, Found_empty c))"
    by blast
  let ?d = "tail_index (producers s1 q) - head_index (producers s1 q)"
  have small: "length ls1 < 2 ^ 56" "length ((ls1 @ [l]) @ ls3) < 2 ^ 56" using assms(2) by (simp_all add: ls ls2)
  have only: "only_consumer q c ((ls1 @ [l]) @ ls3)" using assms(3) by (auto simp: ls ls2)
  from fresh_run [where start = start and ok = ok and failures = failures and n = n, OF assms(1) small(1)] r1
  obtain gs where gs: "queue_inv (length ls1) gs s1" "streams_events es1 no_streams = Some (streams_of gs s1)" by auto
  have r1': "run_queue (ls1 @ [l]) (fresh_queue ok start failures n) = Some (es1 @ [(q, Looked c)], s2)"
    using r1 l by (simp add: run_queue_append)
  have "looked ?d c (producers s2 q)"
    using l
  proof (rule queue_step_NextE)
    fix P p x
    assume step: "producer_step l (producers s1 (label_producer l)) (pool s1) = Next (P, p) x"
      and s2: "s2 = \<lparr> producers = (producers s1)(label_producer l := P), pool = p \<rparr>"
      and x: "Some (q, Looked c) = map_option (Pair (label_producer l)) x"
    then have q: "label_producer l = q" and x: "x = Some (Looked c)" by (cases x; simp)+
    have "call_dequeue c (producers s1 q) (pool s1) = Next (P, p) x"
      using consumer_event [of l "producers s1 q" "pool s1" P p "Looked c"] step unfolding q x by auto
    then show ?thesis by (auto simp: s2 q call_dequeue_def set_dequeuing_def looked_def split: if_splits)
  qed
  from looked_run [where start = start, OF assms(1) small(2) only r1' this r3 assms(5)]
  have look: "looked ?d c (producers s3 q)" .
  have "run_queue ((ls1 @ [l]) @ ls3) (fresh_queue ok start failures n) = Some ((es1 @ [(q, Looked c)]) @ es2, s3)"
    by (subst run_queue_append) (simp only: r1' r3 option.case prod.case option.map)
  from solo_fresh_run [where start = start, OF assms(1) small(2) only this]
  have sol: "solo (failures q) c (producers s3 q)" .
  from k have "?d = 0"
  proof (rule queue_step_NextE)
    fix P p x
    assume "producer_step k (producers s3 (label_producer k)) (pool s3) = Next (P, p) x"
      and "Some (q, Found_empty c) = map_option (Pair (label_producer k)) x"
    moreover from this have "label_producer k = q" "x = Some (Found_empty c)" by (cases x; simp)+
    ultimately show ?thesis using found_empty_step [OF sol look queue_gap [OF gs(1)], of k "pool s3" P p] by simp
  qed
  then show ?thesis using gs streams_of_state [OF gs(1), of q] by (intro exI [of _ "fst (streams_of gs s1)"] exI [of _ "snd (streams_of gs s1)"]) simp
qed

lemma empty_round_events:
  "\<exists>s. run_queue (one_round @ [Call_dequeue 0 0, Step_consumer 0 0, Step_consumer 0 0]) one_block =
     Some ([(0, Enqueued 7), (0, Looked 0), (0, Claimed 0), (0, Dequeued 0 7)] @ (0, Looked 0) # [] @ (0, Found_empty 0) # [], s)"
  by (simp add: one_round_def one_block_def step_defs)

theorem single_consumer_empty_witness:
  "\<exists>xs taken. streams_events [(0, Enqueued 7), (0, Looked 0), (0, Claimed 0), (0, Dequeued 0 (7 :: nat))] no_streams = Some (xs, taken) \<and> xs 0 = []"
proof -
  obtain s where r: "run_queue (one_round @ [Call_dequeue 0 0, Step_consumer 0 0, Step_consumer 0 0]) one_block =
    Some ([(0, Enqueued 7), (0, Looked 0), (0, Claimed 0), (0, Dequeued 0 7)] @ (0, Looked 0) # [] @ (0, Found_empty 0) # [], s)"
    using empty_round_events by blast
  show ?thesis
    by (rule single_consumer_empty [where start = "\<lambda>_. 0", OF _ _ _ r [unfolded one_block_def]]) (simp_all add: one_round_def Let_def)
qed

end
