(* ===== verification/Free_List.thy ===== *)
theory Free_List
  imports Queue_Blocks
begin

text \<open>
  The lock-free free list (\<open>FreeList\<close>, includes/concurrentqueue.h), through which the blocks of the queue
  return: a linked stack whose nodes count the threads that look at them, so that no node is put back while
  another thread still reads its successor. Every access to shared memory is a step. A node that is put back
  while others look at it is not linked at once; the last one that looks at it links it.
\<close>

section \<open>State\<close>

abbreviation SHOULD_BE_ON_FREELIST :: u32 where "SHOULD_BE_ON_FREELIST \<equiv> 0x80000000"
abbreviation REFS_MASK :: u32 where "REFS_MASK \<equiv> 0x7FFFFFFF"

text \<open>\<open>add_knowing_refcount_is_zero\<close> is called by \<open>add\<close>, or by \<open>try_get\<close>, which goes on with its head afterwards.\<close>

datatype free_caller = By_add | By_get "nat option"

text \<open>The places in \<open>add\<close>, \<open>add_knowing_refcount_is_zero\<close> and \<open>try_get\<close>, with the node and the local variables.\<close>

datatype free_phase =
    Resting
  | Mark nat
  | Load_top nat free_caller
  | Store_next nat "nat option" free_caller
  | Store_refs nat "nat option" free_caller
  | Swap_in nat "nat option" free_caller
  | Undo nat "nat option" free_caller
  | Load_list_head
  | Load_refs nat
  | Raise_refs nat u32
  | Load_next nat
  | Swap_out nat "nat option"
  | Check_flag nat
  | Drop_two nat
  | Drop_one nat "nat option"

text \<open>\<open>with_clients\<close> are the nodes that the callers have; a caller adds only nodes it has.\<close>

record free_list_state =
  free_list_head :: "nat option"
  free_list_refs :: "nat \<Rightarrow> u32"
  free_list_next :: "nat \<Rightarrow> nat option"
  with_clients :: "nat \<Rightarrow> bool"
  free_phases :: "nat \<Rightarrow> free_phase"

datatype free_label = Call_add nat nat | Call_get nat | Step nat

text \<open>A node is free from the moment it is marked, and taken when the head is moved past it.\<close>

datatype free_event = Freed nat | Taken_out nat nat | Returned nat "nat option"

section \<open>Steps\<close>

definition set_free_phase :: "nat \<Rightarrow> free_phase \<Rightarrow> free_list_state \<Rightarrow> free_list_state" where
  "set_free_phase t ph s = s\<lparr> free_phases := (free_phases s)(t := ph) \<rparr>"

definition set_refs :: "nat \<Rightarrow> u32 \<Rightarrow> free_list_state \<Rightarrow> free_list_state" where
  "set_refs n r s = s\<lparr> free_list_refs := (free_list_refs s)(n := r) \<rparr>"

text \<open>The head of the loop of \<open>try_get\<close>.\<close>

definition get_loop :: "nat \<Rightarrow> nat option \<Rightarrow> free_list_state \<Rightarrow> (free_list_state, free_event) step_result" where
  "get_loop t head s =
     (case head of
        None \<Rightarrow> Next (set_free_phase t Resting s) (Some (Returned t None))
      | Some n \<Rightarrow> Next (set_free_phase t (Load_refs n) s) None)"

definition return_to :: "nat \<Rightarrow> free_caller \<Rightarrow> free_list_state \<Rightarrow> (free_list_state, free_event) step_result" where
  "return_to t caller s =
     (case caller of By_add \<Rightarrow> Next (set_free_phase t Resting s) None | By_get head \<Rightarrow> get_loop t head s)"

text \<open>\<open>add\<close> and \<open>add_knowing_refcount_is_zero\<close>.\<close>

definition add_step :: "nat \<Rightarrow> free_list_state \<Rightarrow> (free_list_state, free_event) step_result" where
  "add_step t s =
     (case free_phases s t of
        Mark n \<Rightarrow>
          (let refs = free_list_refs s n; s1 = set_refs n (refs + SHOULD_BE_ON_FREELIST) s
           in if refs = 0 then Next (set_free_phase t (Load_top n By_add) s1) (Some (Freed n))
              else Next (set_free_phase t Resting s1) (Some (Freed n)))
      | Load_top n caller \<Rightarrow> Next (set_free_phase t (Store_next n (free_list_head s) caller) s) None
      | Store_next n head caller \<Rightarrow>
          Next (set_free_phase t (Store_refs n head caller) (s\<lparr> free_list_next := (free_list_next s)(n := head) \<rparr>)) None
      | Store_refs n head caller \<Rightarrow> Next (set_free_phase t (Swap_in n head caller) (set_refs n 1 s)) None
      | Swap_in n head caller \<Rightarrow>
          if free_list_head s = head then return_to t caller (s\<lparr> free_list_head := Some n \<rparr>)
          else Next (set_free_phase t (Undo n (free_list_head s) caller) s) None
      | Undo n head caller \<Rightarrow>
          (let refs = free_list_refs s n; s1 = set_refs n (refs + (SHOULD_BE_ON_FREELIST - 1)) s
           in if refs = 1 then Next (set_free_phase t (Store_next n head caller) s1) None else return_to t caller s1)
      | _ \<Rightarrow> Disabled)"

definition get_step :: "nat \<Rightarrow> free_list_state \<Rightarrow> (free_list_state, free_event) step_result" where
  "get_step t s =
     (case free_phases s t of
        Load_list_head \<Rightarrow> get_loop t (free_list_head s) s
      | Load_refs head \<Rightarrow>
          (let refs = free_list_refs s head
           in if refs AND REFS_MASK = 0 then Next (set_free_phase t Load_list_head s) None
              else Next (set_free_phase t (Raise_refs head refs) s) None)
      | Raise_refs head refs \<Rightarrow>
          if free_list_refs s head = refs then Next (set_free_phase t (Load_next head) (set_refs head (refs + 1) s)) None
          else Next (set_free_phase t Load_list_head s) None
      | Load_next head \<Rightarrow> Next (set_free_phase t (Swap_out head (free_list_next s head)) s) None
      | Swap_out head successor \<Rightarrow>
          if free_list_head s = Some head
          then Next (set_free_phase t (Check_flag head) (s\<lparr> free_list_head := successor \<rparr>)) (Some (Taken_out t head))
          else Next (set_free_phase t (Drop_one head (free_list_head s)) s) None
      | Check_flag head \<Rightarrow>
          if free_list_refs s head AND SHOULD_BE_ON_FREELIST = 0 then Next (set_free_phase t (Drop_two head) s) None else Fault
      | Drop_two head \<Rightarrow>
          Next (set_free_phase t Resting
            (set_refs head (free_list_refs s head - 2) (s\<lparr> with_clients := (with_clients s)(head := True) \<rparr>)))
            (Some (Returned t (Some head)))
      | Drop_one prev_head head \<Rightarrow>
          (let refs = free_list_refs s prev_head; s1 = set_refs prev_head (refs - 1) s
           in if refs = SHOULD_BE_ON_FREELIST + 1 then Next (set_free_phase t (Load_top prev_head (By_get head)) s1) None
              else get_loop t head s1)
      | _ \<Rightarrow> Disabled)"

fun free_step :: "free_label \<Rightarrow> free_list_state \<Rightarrow> (free_list_state, free_event) step_result" where
  "free_step (Call_add t n) s =
     (if free_phases s t = Resting \<and> with_clients s n
      then Next (set_free_phase t (Mark n) (s\<lparr> with_clients := (with_clients s)(n := False) \<rparr>)) None else Disabled)"
| "free_step (Call_get t) s = (if free_phases s t = Resting then Next (set_free_phase t Load_list_head s) None else Disabled)"
| "free_step (Step t) s = (case add_step t s of Disabled \<Rightarrow> get_step t s | r \<Rightarrow> r)"

text \<open>The empty list; all nodes are its clients' at first.\<close>

definition new_free_list :: "free_list_state" where
  "new_free_list =
     \<lparr> free_list_head = None, free_list_refs = (\<lambda>_. 0), free_list_next = (\<lambda>_. None), with_clients = (\<lambda>_. True),
       free_phases = (\<lambda>_. Resting) \<rparr>"

fun run_free_list :: "free_label list \<Rightarrow> free_list_state \<Rightarrow> (free_event list \<times> free_list_state) option" where
  "run_free_list [] s = Some ([], s)"
| "run_free_list (l # ls) s =
     (case free_step l s of
        Disabled \<Rightarrow> run_free_list ls s
      | Fault \<Rightarrow> None
      | Next s1 e \<Rightarrow> map_option (\<lambda>(es, s2). ((case e of None \<Rightarrow> es | Some x \<Rightarrow> x # es), s2)) (run_free_list ls s1))"

section \<open>The invariant\<close>

text \<open>Where a node is: a caller has it, a thread is about to link it or has just taken it out, it is linked, or it
  waits for the last thread that looks at it.\<close>

datatype whereabouts = Client | Linked | Waiting | With nat

fun node_of :: "free_phase \<Rightarrow> nat option" where
  "node_of (Mark n) = Some n"
| "node_of (Load_top n k) = Some n"
| "node_of (Store_next n h k) = Some n"
| "node_of (Store_refs n h k) = Some n"
| "node_of (Swap_in n h k) = Some n"
| "node_of (Undo n h k) = Some n"
| "node_of (Check_flag n) = Some n"
| "node_of (Drop_two n) = Some n"
| "node_of _ = None"

text \<open>The node of which a thread holds a reference.\<close>

fun ref_of :: "free_phase \<Rightarrow> nat option" where
  "ref_of (Load_next n) = Some n"
| "ref_of (Swap_out n x) = Some n"
| "ref_of (Check_flag n) = Some n"
| "ref_of (Drop_two n) = Some n"
| "ref_of (Drop_one n x) = Some n"
| "ref_of _ = None"

text \<open>What a reference count has besides the references of the threads.\<close>

fun phase_extra :: "free_phase \<Rightarrow> u32" where
  "phase_extra (Load_top n k) = SHOULD_BE_ON_FREELIST"
| "phase_extra (Store_next n h k) = SHOULD_BE_ON_FREELIST"
| "phase_extra (Store_refs n h k) = SHOULD_BE_ON_FREELIST"
| "phase_extra (Swap_in n h k) = 1"
| "phase_extra (Undo n h k) = 1"
| "phase_extra (Check_flag n) = 1"
| "phase_extra (Drop_two n) = 1"
| "phase_extra _ = 0"

fun extra :: "(nat \<Rightarrow> free_phase) \<Rightarrow> whereabouts \<Rightarrow> u32" where
  "extra ph Client = 0"
| "extra ph Linked = 1"
| "extra ph Waiting = SHOULD_BE_ON_FREELIST"
| "extra ph (With t) = phase_extra (ph t)"

definition looking :: "(nat \<Rightarrow> free_phase) \<Rightarrow> nat \<Rightarrow> nat set" where
  "looking ph n = {t. ref_of (ph t) = Some n}"

fun linked :: "(nat \<Rightarrow> nat option) \<Rightarrow> nat option \<Rightarrow> nat list \<Rightarrow> bool" where
  "linked nx h [] = (h = None)"
| "linked nx h (n # ns) = (h = Some n \<and> linked nx (nx n) ns)"

text \<open>What a thread knows in its phase; with no reference around, nobody can look at a node that is being linked.\<close>

fun phase_knows :: "free_list_state \<Rightarrow> free_phase \<Rightarrow> bool" where
  "phase_knows s (Load_top n k) \<longleftrightarrow> looking (free_phases s) n = {}"
| "phase_knows s (Store_next n h k) \<longleftrightarrow> looking (free_phases s) n = {}"
| "phase_knows s (Store_refs n h k) \<longleftrightarrow> looking (free_phases s) n = {} \<and> free_list_next s n = h"
| "phase_knows s (Swap_in n h k) \<longleftrightarrow> free_list_next s n = h"
| "phase_knows s (Raise_refs n r) \<longleftrightarrow> r AND REFS_MASK \<noteq> 0"
| "phase_knows s (Swap_out n x) \<longleftrightarrow> free_list_next s n = x"
| "phase_knows s _ \<longleftrightarrow> True"

definition free_inv :: "nat \<Rightarrow> (nat \<Rightarrow> whereabouts) \<Rightarrow> nat list \<Rightarrow> free_list_state \<Rightarrow> bool" where
  "free_inv M own ns s \<longleftrightarrow>
     M \<le> 2 ^ 30 \<and> (\<forall>t \<ge> M. free_phases s t = Resting) \<and>
     (\<forall>n. with_clients s n \<longleftrightarrow> own n = Client) \<and>
     (\<forall>t n. node_of (free_phases s t) = Some n \<longleftrightarrow> own n = With t) \<and>
     (\<forall>n. n \<in> set ns \<longleftrightarrow> own n = Linked) \<and>
     distinct ns \<and> linked (free_list_next s) (free_list_head s) ns \<and>
     (\<forall>n. own n = Waiting \<longrightarrow> looking (free_phases s) n \<noteq> {}) \<and>
     (\<forall>n. free_list_refs s n = of_nat (card (looking (free_phases s) n)) + extra (free_phases s) (own n)) \<and>
     (\<forall>t. phase_knows s (free_phases s t))"

subsection \<open>Consequences\<close>

lemma looking_upd: "looking (ph(t := p)) n = (looking ph n - {t}) \<union> (if ref_of p = Some n then {t} else {})"
  by (auto simp: looking_def split: if_splits)

lemma looking_self: "t \<in> looking ph n \<longleftrightarrow> ref_of (ph t) = Some n"
  by (simp add: looking_def)

lemma looking_bound:
  assumes "free_inv M own ns s"
  shows "finite (looking (free_phases s) n) \<and> card (looking (free_phases s) n) \<le> 2 ^ 30"
proof -
  have "ref_of (free_phases s t) = None" if "t \<ge> M" for t using assms that by (simp add: free_inv_def)
  then have "looking (free_phases s) n \<subseteq> {..<M}" 
    by (auto simp: looking_def) (metis linorder_not_less option.discI)
  moreover from this have "card (looking (free_phases s) n) \<le> M" using card_mono [of "{..<M}"] by fastforce
  moreover have "M \<le> 2 ^ 30" using assms by (simp only: free_inv_def)
  ultimately show ?thesis using finite_subset by (meson finite_lessThan order_trans)
qed

lemma card_looking_new:
  assumes "finite (looking ph n)" and "ref_of (ph t) = None" and "ref_of p = Some n"
  shows "card (looking (ph(t := p)) n) = Suc (card (looking ph n))"
  using assms by (simp add: looking_upd looking_self)

lemma card_looking_gone:
  assumes "finite (looking ph n)" and "ref_of (ph t) = Some n" and "ref_of p = None"
  shows "Suc (card (looking (ph(t := p)) n)) = card (looking ph n)"
  using assms card_Suc_Diff1 [of "looking ph n" t] by (simp add: looking_upd looking_self)

lemma looking_same: "ref_of p = ref_of (ph t) \<Longrightarrow> looking (ph(t := p)) n = looking ph n"
  by (auto simp: looking_def split: if_splits)

text \<open>A step concerns one node.\<close>

lemma free_inv_local:
  assumes inv: "free_inv M own ns s" and t: "t < M" and ph: "free_phases s' = (free_phases s)(t := ph')"
    and other: "\<And>m. m \<noteq> n \<Longrightarrow> node_of (free_phases s t) \<noteq> Some m \<and> ref_of (free_phases s t) \<noteq> Some m \<and> node_of ph' \<noteq> Some m \<and> ref_of ph' \<noteq> Some m"
    and same: "\<And>m. m \<noteq> n \<Longrightarrow> free_list_refs s' m = free_list_refs s m \<and> with_clients s' m = with_clients s m \<and>
      own' m = own m \<and> free_list_next s' m = free_list_next s m"
    and mine: "\<And>t'. t' \<noteq> t \<Longrightarrow> own' n = With t' \<longleftrightarrow> own n = With t'"
    and refs: "free_list_refs s' n = of_nat (card (looking (free_phases s') n)) + extra (free_phases s') (own' n)"
    and waiting: "own' n = Waiting \<Longrightarrow> looking (free_phases s') n \<noteq> {}"
    and client: "with_clients s' n \<longleftrightarrow> own' n = Client" and node: "node_of ph' = Some n \<longleftrightarrow> own' n = With t"
    and knows: "phase_knows s' ph'"
    and nxt: "free_list_next s' n = free_list_next s n \<or> looking (free_phases s) n = {} \<and> own n = With t"
    and early: "ref_of ph' = Some n \<Longrightarrow> ref_of (free_phases s t) = None \<Longrightarrow> free_list_refs s n AND REFS_MASK \<noteq> 0"
    and list: "distinct ns' \<and> linked (free_list_next s') (free_list_head s') ns'" "\<And>m. m \<in> set ns' \<longleftrightarrow> own' m = Linked"
  shows "free_inv M own' ns' s'"
proof -
  have look: "looking (free_phases s') m = looking (free_phases s) m" if "m \<noteq> n" for m
    using other [OF that] by (auto simp: ph looking_def split: if_splits)
  have own: "node_of (free_phases s t') = Some m \<longleftrightarrow> own m = With t'" for t' m using inv by (simp add: free_inv_def)
  have ex: "extra (free_phases s') (own m) = extra (free_phases s) (own m)" if "m \<noteq> n" for m
    using other [OF that] own [of t m] by (cases "own m") (auto simp: ph)
  have know: "phase_knows s' (free_phases s t')" if t': "t' \<noteq> t" for t'
  proof -
    have k: "phase_knows s (free_phases s t')" using inv by (simp add: free_inv_def)
    have nx: "free_list_next s' m = free_list_next s m" if "own m = With t' \<or> ref_of (free_phases s t') = Some m" for m
      using that nxt same [of m] t' by (cases "m = n") (auto simp: looking_def)
    have none: "looking (free_phases s') m = {}" if e: "looking (free_phases s) m = {}" "own m = With t'" "phase_extra (free_phases s t') = SHOULD_BE_ON_FREELIST" for m
    proof (cases "m = n")
      case True
      have "free_list_refs s n = SHOULD_BE_ON_FREELIST" using inv e by (simp add: free_inv_def True)
      then have "ref_of ph' \<noteq> Some n \<or> ref_of (free_phases s t) \<noteq> None" using early by auto
      then have "t \<notin> looking (free_phases s') n" using e(1) other by (auto simp: True ph looking_def) (metis option.exhaust)
      then show ?thesis using e(1) by (auto simp: True ph looking_upd split: if_splits)
    qed (use e look in simp)
    have mine': "node_of (free_phases s t') = Some m \<Longrightarrow> own m = With t'" for m using own by blast
    show ?thesis using k nx none mine' by (cases "free_phases s t'") auto
  qed
  show ?thesis
    unfolding free_inv_def
  proof (intro conjI allI impI)
    show "M \<le> 2 ^ 30" using inv by (simp only: free_inv_def)
    show "free_phases s' t' = Resting" if "M \<le> t'" for t' using inv t that by (simp add: free_inv_def ph)
    show "with_clients s' m = (own' m = Client)" for m
      using client same [of m] inv by (cases "m = n") (simp_all add: free_inv_def)
    show "node_of (free_phases s' t') = Some m \<longleftrightarrow> own' m = With t'" for t' m
      using node mine [of t'] own [of t' m] own [of t m] other [of m] same [of m] by (cases "m = n"; cases "t' = t") (auto simp: ph)
    show "m \<in> set ns' \<longleftrightarrow> own' m = Linked" for m by (rule list(2))
    show "distinct ns'" "linked (free_list_next s') (free_list_head s') ns'" using list(1) by auto
    show "looking (free_phases s') m \<noteq> {}" if "own' m = Waiting" for m
      using waiting that same [of m] look [of m] inv by (cases "m = n") (simp_all add: free_inv_def)
    show "free_list_refs s' m = of_nat (card (looking (free_phases s') m)) + extra (free_phases s') (own' m)" for m
      using refs same [of m] look [of m] ex [of m] inv by (cases "m = n") (simp_all add: free_inv_def)
    show "phase_knows s' (free_phases s' t')" for t' using know [of t'] knows by (cases "t' = t") (simp_all add: ph)
  qed
qed

lemma linked_other: "n \<notin> set ns \<Longrightarrow> linked (nx(n := h')) h ns \<longleftrightarrow> linked nx h ns"
  by (induction ns arbitrary: h) auto

lemma set_free_phase_simps [simp]:
  "free_list_head (set_free_phase t ph s) = free_list_head s" "free_list_refs (set_free_phase t ph s) = free_list_refs s"
  "free_list_next (set_free_phase t ph s) = free_list_next s" "with_clients (set_free_phase t ph s) = with_clients s"
  "free_phases (set_free_phase t ph s) = (free_phases s)(t := ph)"
  by (simp_all add: set_free_phase_def)

lemma set_refs_simps [simp]:
  "free_list_head (set_refs n r s) = free_list_head s" "free_list_refs (set_refs n r s) = (free_list_refs s)(n := r)"
  "free_list_next (set_refs n r s) = free_list_next s" "with_clients (set_refs n r s) = with_clients s"
  "free_phases (set_refs n r s) = free_phases s"
  by (simp_all add: set_refs_def)

text \<open>A step that changes nothing but a local variable.\<close>

lemma free_inv_quiet:
  assumes inv: "free_inv M own ns s" and t: "t < M"
    and ph: "node_of ph' = node_of (free_phases s t)" "ref_of ph' = ref_of (free_phases s t)" "phase_extra ph' = phase_extra (free_phases s t)"
    and knows: "phase_knows (set_free_phase t ph' s) ph'"
  shows "free_inv M own ns (set_free_phase t ph' s)"
proof -
  let ?n = "the (case node_of (free_phases s t) of None \<Rightarrow> ref_of (free_phases s t) | Some n \<Rightarrow> Some n)"
  have n: "node_of (free_phases s t) \<noteq> Some m \<and> ref_of (free_phases s t) \<noteq> Some m" if "m \<noteq> ?n" for m
    using that by (cases "free_phases s t") auto
  have ex: "extra ((free_phases s)(t := ph')) w = extra (free_phases s) w" for w using ph(3) by (cases w) simp_all
  have "linked (free_list_next s) (free_list_head s) ns" "distinct ns" "\<And>m. m \<in> set ns \<longleftrightarrow> own m = Linked"
    "\<And>m. node_of (free_phases s t) = Some m \<longleftrightarrow> own m = With t" "\<And>m. with_clients s m \<longleftrightarrow> own m = Client"
    "\<And>m. own m = Waiting \<Longrightarrow> looking (free_phases s) m \<noteq> {}"
    "\<And>m. free_list_refs s m = of_nat (card (looking (free_phases s) m)) + extra (free_phases s) (own m)"
    using inv by (simp_all add: free_inv_def)
  then show ?thesis
    by (intro free_inv_local [OF inv t, where n = ?n and ph' = ph']) (use n ph knows in \<open>auto simp: looking_same ex\<close>)
qed

section \<open>The bag of free nodes\<close>

text \<open>The free nodes, and the node that a thread has taken out and not returned yet.\<close>

type_synonym bag = "nat set \<times> (nat \<Rightarrow> nat option)"

fun bag_event :: "free_event \<Rightarrow> bag \<Rightarrow> bag option" where
  "bag_event (Freed n) (F, taken) = (if n \<in> F then None else Some (insert n F, taken))"
| "bag_event (Taken_out t n) (F, taken) = (if n \<in> F \<and> taken t = None then Some (F - {n}, taken(t \<mapsto> n)) else None)"
| "bag_event (Returned t x) (F, taken) = (if taken t = x then Some (F, taken(t := None)) else None)"

fun bag_events :: "free_event list \<Rightarrow> bag \<Rightarrow> bag option" where
  "bag_events [] b = Some b"
| "bag_events (e # es) b = Option.bind (bag_event e b) (bag_events es)"

fun out_node :: "free_phase \<Rightarrow> nat option" where
  "out_node (Mark n) = Some n"
| "out_node (Check_flag n) = Some n"
| "out_node (Drop_two n) = Some n"
| "out_node _ = None"

fun taken_node :: "free_phase \<Rightarrow> nat option" where
  "taken_node (Check_flag n) = Some n"
| "taken_node (Drop_two n) = Some n"
| "taken_node _ = None"

definition bag_of :: "free_list_state \<Rightarrow> bag" where
  "bag_of s = ({n. \<not> with_clients s n \<and> (\<forall>t. out_node (free_phases s t) \<noteq> Some n)}, \<lambda>t. taken_node (free_phases s t))"

definition kept :: "nat \<Rightarrow> free_list_state \<Rightarrow> free_event option \<Rightarrow> free_list_state \<Rightarrow> bool" where
  "kept M s e s' \<longleftrightarrow>
     (\<exists>own ns. free_inv M own ns s') \<and> (case e of None \<Rightarrow> bag_of s' = bag_of s | Some x \<Rightarrow> bag_event x (bag_of s) = Some (bag_of s'))"

lemma bag_of_same:
  assumes "free_phases s' = (free_phases s)(t := ph')" and "with_clients s' = with_clients s"
    and "out_node ph' = out_node (free_phases s t)" and "taken_node ph' = taken_node (free_phases s t)"
  shows "bag_of s' = bag_of s"
  using assms by (auto simp: bag_of_def fun_eq_iff)

lemma kept_quiet:
  assumes "free_inv M own ns s" and "t < M" and "node_of ph' = node_of (free_phases s t)" and "ref_of ph' = ref_of (free_phases s t)"
    and "phase_extra ph' = phase_extra (free_phases s t)" and "phase_knows (set_free_phase t ph' s) ph'"
    and "out_node ph' = out_node (free_phases s t)" and "taken_node ph' = taken_node (free_phases s t)"
  shows "kept M s None (set_free_phase t ph' s)"
  using free_inv_quiet [OF assms(1-6)] bag_of_same [of "set_free_phase t ph' s" s t ph'] assms(7,8) by (auto simp: kept_def)

definition kept_by :: "nat \<Rightarrow> free_list_state \<Rightarrow> (free_list_state, free_event) step_result \<Rightarrow> bool" where
  "kept_by M s r \<longleftrightarrow> (case r of Disabled \<Rightarrow> True | Fault \<Rightarrow> False | Next s' e \<Rightarrow> kept M s e s')"

lemma kept_by_simps [simp]: "kept_by M s Disabled" "\<not> kept_by M s Fault" "kept_by M s (Next s' e) = kept M s e s'"
  by (simp_all add: kept_by_def)

end
