(* ===== verification/Free_Steps.thy ===== *)
theory Free_Steps
  imports Free_List
begin

text \<open>Every step of every thread keeps the invariant of the free list, and is a step of the bag of free nodes.\<close>

section \<open>Reference counts\<close>

lemma of_nat_u32_inj: "m < 2 ^ 32 \<Longrightarrow> n < 2 ^ 32 \<Longrightarrow> (of_nat m :: u32) = of_nat n \<longleftrightarrow> m = n"
  by (simp add: word_of_nat_eq_iff take_bit_nat_eq_self_iff take_bit_nat_eq_self)

lemma count_zero: "R \<le> 2 ^ 30 \<Longrightarrow> (of_nat R = (0 :: u32)) \<longleftrightarrow> R = 0"
  using of_nat_u32_inj [of R 0] by simp

lemma count_flag:
  assumes R: "R \<le> 2 ^ 30"
  shows "(of_nat R + 1 :: u32) AND SHOULD_BE_ON_FREELIST = 0"
proof -
  have "\<not> bit (Suc R) 31" using R by (simp add: bit_iff_odd)
  then have "\<not> bit (of_nat (Suc R) :: u32) 31" by (simp only: bit_of_nat_iff simp_thms)
  then have "(of_nat (Suc R) :: u32) AND 2 ^ 31 = 0" by (simp only: and_exp_eq_0_iff_not_bit not_False_eq_True)
  then show ?thesis by (simp add: add.commute)
qed

text \<open>The count that tells the last thread that it has to link the node.\<close>

lemma count_last:
  assumes R: "R \<le> 2 ^ 30" and x: "x \<in> {0, 1, SHOULD_BE_ON_FREELIST}"
  shows "of_nat R + x = SHOULD_BE_ON_FREELIST + 1 \<longleftrightarrow> x = SHOULD_BE_ON_FREELIST \<and> R = 1"
proof -
  have "(of_nat R :: u32) = of_nat (0x80000001 :: nat) \<longleftrightarrow> R = 0x80000001"
    "(of_nat (Suc R) :: u32) = of_nat (0x80000001 :: nat) \<longleftrightarrow> Suc R = 0x80000001"
    "(of_nat R :: u32) = of_nat 1 \<longleftrightarrow> R = 1"
    by (rule of_nat_u32_inj; use R in simp)+
  with x R show ?thesis by (auto simp: add.commute)
qed

section \<open>What the invariant says\<close>

lemma free_invD:
  assumes "free_inv M own ns s"
  shows "node_of (free_phases s t) = Some n \<longleftrightarrow> own n = With t" "with_clients s n \<longleftrightarrow> own n = Client"
    "n \<in> set ns \<longleftrightarrow> own n = Linked" "distinct ns" "linked (free_list_next s) (free_list_head s) ns"
    "own n = Waiting \<Longrightarrow> looking (free_phases s) n \<noteq> {}"
    "free_list_refs s n = of_nat (card (looking (free_phases s) n)) + extra (free_phases s) (own n)"
    "phase_knows s (free_phases s t)"
  using assms by (simp_all add: free_inv_def)

lemma extra_values: "extra ph w \<in> {0, 1, SHOULD_BE_ON_FREELIST}"
proof (cases w)
  case (With t)
  then show ?thesis by (cases "ph t") simp_all
qed simp_all

lemma not_free:
  assumes "free_inv M own ns s" and "out_node (free_phases s t) = Some n"
  shows "n \<notin> fst (bag_of s)"
  using assms(2) by (auto simp: bag_of_def)

lemma is_free:
  assumes inv: "free_inv M own ns s" and "own n \<noteq> Client" and "\<And>t. own n = With t \<Longrightarrow> out_node (free_phases s t) = None"
  shows "n \<in> fst (bag_of s)"
proof -
  have "out_node (free_phases s t) \<noteq> Some n" for t
  proof
    assume o: "out_node (free_phases s t) = Some n"
    then have "node_of (free_phases s t) = Some n" by (cases "free_phases s t") simp_all
    then have "own n = With t" by (simp add: free_invD(1) [OF inv])
    with o assms(3) show False by simp
  qed
  then show ?thesis using assms(2) free_invD(2) [OF inv, of n] by (simp add: bag_of_def)
qed

section \<open>Phases at which a call goes on or returns\<close>

definition idle_phase :: "free_phase \<Rightarrow> bool" where
  "idle_phase ph \<longleftrightarrow> ph = Resting \<or> (\<exists>n. ph = Load_refs n)"

lemma idle_phase_simps [simp]:
  "idle_phase ph \<Longrightarrow> node_of ph = None" "idle_phase ph \<Longrightarrow> ref_of ph = None" "idle_phase ph \<Longrightarrow> phase_extra ph = 0"
  "idle_phase ph \<Longrightarrow> out_node ph = None" "idle_phase ph \<Longrightarrow> taken_node ph = None" "idle_phase ph \<Longrightarrow> phase_knows s ph"
  by (auto simp: idle_phase_def)

lemma get_loop_idle:
  "\<exists>ph e. get_loop t h s = Next (set_free_phase t ph s) e \<and> idle_phase ph \<and> (e = None \<or> e = Some (Returned t None))"
  by (cases h) (auto simp: get_loop_def idle_phase_def)

lemma return_to_idle:
  "\<exists>ph e. return_to t k s = Next (set_free_phase t ph s) e \<and> idle_phase ph \<and> (e = None \<or> e = Some (Returned t None))"
  using get_loop_idle by (cases k) (auto simp: return_to_def idle_phase_def)

lemma kept_idle:
  assumes "\<And>ph. idle_phase ph \<Longrightarrow> free_inv M own ns (set_free_phase t ph r)"
    and "with_clients r = with_clients s" and "free_phases r = free_phases s"
    and "out_node (free_phases s t) = None" and "taken_node (free_phases s t) = None"
  shows "kept_by M s (get_loop t h r)" and "kept_by M s (return_to t k r)"
proof -
  have bag: "bag_of (set_free_phase t ph r) = bag_of s" if "idle_phase ph" for ph
    using that assms(2-) by (intro bag_of_same [where t = t and ph' = ph]) simp_all
  have tk: "(snd (bag_of s)) t = None" "(snd (bag_of s))(t := None) = snd (bag_of s)" using assms(5) by (auto simp: bag_of_def)
  have "bag_event (Returned t None) (bag_of s) = Some (bag_of s)"
    using tk by (cases "bag_of s") simp
  then have "kept M s e (set_free_phase t ph r)" if "idle_phase ph" "e = None \<or> e = Some (Returned t None)" for ph e
    using that assms(1) [OF that(1)] bag [OF that(1)] by (auto simp: kept_def)
  then show "kept_by M s (get_loop t h r)" "kept_by M s (return_to t k r)"
    using get_loop_idle [of t h r] return_to_idle [of t k r] by auto
qed

lemma bag_of_step:
  assumes inv: "free_inv M own ns s" and ph: "free_phases s' = (free_phases s)(t := ph')"
    and out: "\<And>m. m \<noteq> n \<Longrightarrow> out_node (free_phases s t) \<noteq> Some m \<and> out_node ph' \<noteq> Some m \<and> with_clients s' m = with_clients s m"
    and own: "\<And>t'. t' \<noteq> t \<Longrightarrow> own n \<noteq> With t'"
  shows "bag_of s' = ((if with_clients s' n \<or> out_node ph' = Some n then fst (bag_of s) - {n} else insert n (fst (bag_of s))),
    (snd (bag_of s))(t := taken_node ph'))"
proof -
  have n: "out_node (free_phases s t') \<noteq> Some n" if "t' \<noteq> t" for t'
    using free_invD(1) [OF inv, of t' n] own [OF that] by (cases "free_phases s t'") auto
  have "m \<in> fst (bag_of s') \<longleftrightarrow> m \<in> fst (bag_of s)" if "m \<noteq> n" for m
    using out [OF that] by (auto simp: bag_of_def ph)
  then have "\<forall>m. m = n \<or> (m \<in> fst (bag_of s') \<longleftrightarrow> m \<in> fst (bag_of s))" by blast
  moreover have "n \<in> fst (bag_of s') \<longleftrightarrow> \<not> with_clients s' n \<and> out_node ph' \<noteq> Some n"
    using n by (auto simp: bag_of_def ph)
  moreover have "snd (bag_of s') = (snd (bag_of s))(t := taken_node ph')"
    by (auto simp: bag_of_def ph)
  ultimately show ?thesis unfolding prod_eq_iff by (auto simp: set_eq_iff)
qed

section \<open>Putting a node back\<close>

lemma card_bound:
  assumes inv: "free_inv M own ns s"
  shows "finite (looking (free_phases s) n)" "card (looking (free_phases s) n) \<le> 2 ^ 30"
  using looking_bound [OF inv] by auto

lemma nobody:
  assumes inv: "free_inv M own ns s"
  shows "of_nat (card (looking (free_phases s) n)) = (0 :: u32) \<longleftrightarrow> looking (free_phases s) n = {}"
  using count_zero [OF card_bound(2) [OF inv]] card_bound(1) [OF inv] by simp

lemma mine: "free_inv M own ns s \<Longrightarrow> node_of (free_phases s t) = Some n \<Longrightarrow> own n = With t"
  by (simp add: free_invD(1))

lemma refs: "free_inv M own ns s \<Longrightarrow> free_list_refs s n = of_nat (card (looking (free_phases s) n)) + extra (free_phases s) (own n)"
  by (rule free_invD(7))

lemma mark_step:
  assumes inv: "free_inv M own ns s" and t: "t < M" and ph: "free_phases s t = Mark n"
  shows "kept_by M s (add_step t s)"
proof -
  have own: "own n = With t" using mine [OF inv] ph by simp
  have r: "free_list_refs s n = of_nat (card (looking (free_phases s) n))" by (simp add: refs [OF inv] own ph)
  let ?s = "set_refs n (free_list_refs s n + SHOULD_BE_ON_FREELIST) s"
  have bag: "bag_event (Freed n) (bag_of s) = Some (bag_of (set_free_phase t ph' ?s))"
    if "out_node ph' = None" "taken_node ph' = None" for ph'
    using bag_of_step [OF inv, of "set_free_phase t ph' ?s" t ph' n] that ph own not_free [OF inv, of t n] free_invD(2) [OF inv, of n]
    by (cases "bag_of s") (auto simp: bag_of_def)
  have "free_inv M own ns (set_free_phase t (Load_top n By_add) ?s)" if "looking (free_phases s) n = {}"
    by (rule free_inv_local [OF inv t, where n = n and ph' = "Load_top n By_add"])
      (use ph own that r free_invD [OF inv] in \<open>auto simp: looking_same\<close>)
  moreover have "free_inv M (own(n := Waiting)) ns (set_free_phase t Resting ?s)" if "looking (free_phases s) n \<noteq> {}"
    by (rule free_inv_local [OF inv t, where n = n and ph' = Resting])
      (use ph own that r free_invD [OF inv] in \<open>auto simp: looking_same\<close>)
  ultimately show ?thesis
    using bag nobody [OF inv, of n] by (auto simp: add_step_def ph kept_def Let_def r)
qed

lemma store_next_step:
  assumes inv: "free_inv M own ns s" and t: "t < M" and ph: "free_phases s t = Store_next n h k"
  shows "kept_by M s (add_step t s)"
proof -
  let ?s = "set_free_phase t (Store_refs n h k) (s\<lparr> free_list_next := (free_list_next s)(n := h) \<rparr>)"
  have own: "own n = With t" using mine [OF inv] ph by simp
  then have n: "n \<notin> set ns" by (simp add: free_invD(3) [OF inv])
  have look: "looking (free_phases s) n = {}" using free_invD(8) [OF inv, of t] ph by simp
  have "free_inv M own ns ?s"
    by (rule free_inv_local [OF inv t, where n = n and ph' = "Store_refs n h k"])
      (use ph own look n free_invD [OF inv] in \<open>auto simp: looking_same linked_other\<close>)
  moreover have "bag_of ?s = bag_of s" by (rule bag_of_same [where t = t and ph' = "Store_refs n h k"]) (simp_all add: ph)
  ultimately show ?thesis by (auto simp: add_step_def ph kept_def)
qed

lemma store_refs_step:
  assumes inv: "free_inv M own ns s" and t: "t < M" and ph: "free_phases s t = Store_refs n h k"
  shows "kept_by M s (add_step t s)"
proof -
  let ?s = "set_free_phase t (Swap_in n h k) (set_refs n 1 s)"
  have own: "own n = With t" using mine [OF inv] ph by simp
  have look: "looking (free_phases s) n = {}" "free_list_next s n = h" using free_invD(8) [OF inv, of t] ph by simp_all
  have "free_inv M own ns ?s"
    by (rule free_inv_local [OF inv t, where n = n and ph' = "Swap_in n h k"])
      (use ph own look free_invD [OF inv] in \<open>auto simp: looking_same\<close>)
  moreover have "bag_of ?s = bag_of s" by (rule bag_of_same [where t = t and ph' = "Swap_in n h k"]) (simp_all add: ph)
  ultimately show ?thesis by (auto simp: add_step_def ph kept_def)
qed

lemma swap_in_step:
  assumes inv: "free_inv M own ns s" and t: "t < M" and ph: "free_phases s t = Swap_in n h k"
  shows "kept_by M s (add_step t s)"
proof (cases "free_list_head s = h")
  case True
  have own: "own n = With t" using mine [OF inv] ph by simp
  have nx: "free_list_next s n = h" using free_invD(8) [OF inv, of t] ph by simp
  have r: "free_list_refs s n = of_nat (card (looking (free_phases s) n)) + 1" by (simp add: refs [OF inv] own ph)
  have "free_inv M (own(n := Linked)) (n # ns) (set_free_phase t ph' (s\<lparr> free_list_head := Some n \<rparr>))" if "idle_phase ph'" for ph'
    by (rule free_inv_local [OF inv t, where n = n and ph' = ph'])
      (use that ph own nx True r free_invD [OF inv] in \<open>auto simp: looking_same\<close>)
  from kept_idle(2) [OF this, of s] True ph show ?thesis by (simp add: add_step_def)
next
  case False
  then show ?thesis
    using kept_quiet [OF inv t, of "Undo n (free_list_head s) k"] ph by (simp add: add_step_def)
qed

lemma undo_step:
  assumes inv: "free_inv M own ns s" and t: "t < M" and ph: "free_phases s t = Undo n h k"
  shows "kept_by M s (add_step t s)"
proof -
  have own: "own n = With t" using mine [OF inv] ph by simp
  have r: "free_list_refs s n = of_nat (card (looking (free_phases s) n)) + 1" by (simp add: refs [OF inv] own ph)
  let ?s = "set_refs n (free_list_refs s n + (SHOULD_BE_ON_FREELIST - 1)) s"
  show ?thesis
  proof (cases "looking (free_phases s) n = {}")
    case True
    have "free_inv M own ns (set_free_phase t (Store_next n h k) ?s)"
      by (rule free_inv_local [OF inv t, where n = n and ph' = "Store_next n h k"])
        (use ph own r True free_invD [OF inv] in \<open>auto simp: looking_same\<close>)
    moreover have "bag_of (set_free_phase t (Store_next n h k) ?s) = bag_of s" by (rule bag_of_same [where t = t and ph' = "Store_next n h k"]) (simp_all add: ph)
    ultimately show ?thesis using True by (auto simp: add_step_def ph r kept_def)
  next
    case False
    have "free_inv M (own(n := Waiting)) ns (set_free_phase t ph' ?s)" if "idle_phase ph'" for ph'
      by (rule free_inv_local [OF inv t, where n = n and ph' = ph'])
        (use that ph own r False free_invD [OF inv] in \<open>auto simp: looking_same\<close>)
    from kept_idle(2) [OF this, of s] have "kept_by M s (return_to t k ?s)" by (simp add: ph)
    moreover have "free_list_refs s n \<noteq> 1" using nobody [OF inv, of n] False by (simp add: r)
    ultimately show ?thesis by (simp add: add_step_def ph Let_def)
  qed
qed

lemma add_step_ok:
  assumes inv: "free_inv M own ns s" and t: "t < M"
  shows "kept_by M s (add_step t s)"
proof (cases "free_phases s t")
  case (Load_top n k)
  then show ?thesis
    using kept_quiet [OF inv t, of "Store_next n (free_list_head s) k"] free_invD(8) [OF inv, of t]
    by (simp add: add_step_def looking_same)
qed (use mark_step [OF inv t] store_next_step [OF inv t] store_refs_step [OF inv t] swap_in_step [OF inv t] undo_step [OF inv t] in \<open>simp_all add: add_step_def\<close>)

section \<open>Getting a node\<close>

lemma raise_refs_step:
  assumes inv: "free_inv M own ns s" and t: "t < M" and ph: "free_phases s t = Raise_refs n r"
  shows "kept_by M s (get_step t s)"
proof (cases "free_list_refs s n = r")
  case True
  let ?s = "set_free_phase t (Load_next n) (set_refs n (r + 1) s)"
  have "r AND REFS_MASK \<noteq> 0" using free_invD(8) [OF inv, of t] ph by simp
  moreover have "own n \<noteq> With t" using free_invD(1) [OF inv, of t n] ph by simp
  moreover from this have "extra ((free_phases s)(t := Load_next n)) (own n) = extra (free_phases s) (own n)" by (cases "own n") auto
  moreover have "card (looking ((free_phases s)(t := Load_next n)) n) = Suc (card (looking (free_phases s) n))"
    by (rule card_looking_new [OF card_bound(1) [OF inv]]) (simp_all add: ph)
  ultimately have "free_inv M own ns ?s"
    by (intro free_inv_local [OF inv t, where n = n and ph' = "Load_next n"])
      (use ph True free_invD [OF inv] in \<open>auto simp: looking_upd\<close>)
  moreover have "bag_of ?s = bag_of s" by (rule bag_of_same [where t = t and ph' = "Load_next n"]) (simp_all add: ph)
  ultimately show ?thesis using True by (auto simp: get_step_def ph kept_def)
next
  case False
  then show ?thesis using kept_quiet [OF inv t, of Load_list_head] ph by (simp add: get_step_def)
qed

lemma swap_out_step:
  assumes inv: "free_inv M own ns s" and t: "t < M" and ph: "free_phases s t = Swap_out n x"
  shows "kept_by M s (get_step t s)"
proof (cases "free_list_head s = Some n")
  case True
  let ?s = "set_free_phase t (Check_flag n) (s\<lparr> free_list_head := x \<rparr>)"
  obtain ns1 where ns: "ns = n # ns1" using free_invD(5) [OF inv] True by (cases ns) auto
  have own: "own n = Linked" using free_invD(3) [OF inv, of n] ns by simp
  have x: "free_list_next s n = x" using free_invD(8) [OF inv, of t] ph by simp
  have l: "linked (free_list_next s) x ns1" "n \<notin> set ns1" "distinct ns1"
    using free_invD(4,5) [OF inv] ns x by auto
  have mem: "m \<in> set ns1 \<longleftrightarrow> (own(n := With t)) m = Linked" for m
    using free_invD(3) [OF inv, of m] l(2) by (auto simp: ns)
  have "free_inv M (own(n := With t)) ns1 ?s"
    by (rule free_inv_local [OF inv t, where n = n and ph' = "Check_flag n"])
      (use ph own l x mem free_invD [OF inv] in \<open>auto simp: looking_same\<close>)
  moreover have "n \<in> fst (bag_of s)" by (rule is_free [OF inv]) (simp_all add: own)
  then have "bag_event (Taken_out t n) (bag_of s) = Some (bag_of ?s)"
    using bag_of_step [OF inv, of ?s t "Check_flag n" n] ph own by (cases "bag_of s") (auto simp: bag_of_def)
  ultimately show ?thesis using True by (auto simp: get_step_def ph kept_def)
next
  case False
  then show ?thesis using kept_quiet [OF inv t, of "Drop_one n (free_list_head s)"] ph by (simp add: get_step_def)
qed

lemma check_flag_step:
  assumes inv: "free_inv M own ns s" and t: "t < M" and ph: "free_phases s t = Check_flag n"
  shows "kept_by M s (get_step t s)"
proof -
  have "own n = With t" using mine [OF inv] ph by simp
  then have "free_list_refs s n = of_nat (card (looking (free_phases s) n)) + 1" by (simp add: refs [OF inv] ph)
  then have "free_list_refs s n AND SHOULD_BE_ON_FREELIST = 0" using count_flag [OF card_bound(2) [OF inv], of n] by simp
  then show ?thesis using kept_quiet [OF inv t, of "Drop_two n"] ph by (simp add: get_step_def)
qed

lemma drop_two_step:
  assumes inv: "free_inv M own ns s" and t: "t < M" and ph: "free_phases s t = Drop_two n"
  shows "kept_by M s (get_step t s)"
proof -
  let ?s = "set_free_phase t Resting (set_refs n (free_list_refs s n - 2) (s\<lparr> with_clients := (with_clients s)(n := True) \<rparr>))"
  have own: "own n = With t" using mine [OF inv] ph by simp
  have c: "Suc (card (looking ((free_phases s)(t := Resting)) n)) = card (looking (free_phases s) n)"
    by (rule card_looking_gone [OF card_bound(1) [OF inv]]) (simp_all add: ph)
  have "free_list_refs s n = of_nat (card (looking (free_phases s) n)) + 1" by (simp add: refs [OF inv] own ph)
  then have "free_list_refs s n - 2 = of_nat (card (looking ((free_phases s)(t := Resting)) n))"
    by (simp only: c [symmetric] of_nat_Suc) simp
  then have "free_inv M (own(n := Client)) ns ?s"
    by (intro free_inv_local [OF inv t, where n = n and ph' = Resting])
      (use ph own free_invD [OF inv] in \<open>auto simp: looking_upd\<close>)
  moreover have "bag_event (Returned t (Some n)) (bag_of s) = Some (bag_of ?s)"
    using bag_of_step [OF inv, of ?s t Resting n] ph own not_free [OF inv, of t n] by (cases "bag_of s") (auto simp: bag_of_def)
  ultimately show ?thesis by (auto simp: get_step_def ph kept_def)
qed

lemma drop_one_step:
  assumes inv: "free_inv M own ns s" and t: "t < M" and ph: "free_phases s t = Drop_one n x"
  shows "kept_by M s (get_step t s)"
proof -
  let ?s = "set_refs n (free_list_refs s n - 1) s" and ?R = "card (looking (free_phases s) n)"
  have c: "Suc (card (looking ((free_phases s)(t := ph')) n)) = ?R" if "ref_of ph' = None" for ph'
    by (rule card_looking_gone [OF card_bound(1) [OF inv]]) (simp_all add: ph that)
  have notmine: "own n \<noteq> With t" using free_invD(1) [OF inv, of t n] ph by simp
  then have ex: "extra ((free_phases s)(t := ph')) (own n) = extra (free_phases s) (own n)" for ph' by (cases "own n") auto
  have seen: "looking (free_phases s) n \<noteq> {}" using looking_self [of t "free_phases s" n] ph by auto
  have last: "free_list_refs s n = SHOULD_BE_ON_FREELIST + 1 \<longleftrightarrow> extra (free_phases s) (own n) = SHOULD_BE_ON_FREELIST \<and> ?R = 1"
    unfolding refs [OF inv] by (rule count_last [OF card_bound(2) [OF inv] extra_values])
  have wait: "own n = Waiting" if "extra (free_phases s) (own n) = SHOULD_BE_ON_FREELIST"
  proof (cases "own n")
    case (With t')
    then have "node_of (free_phases s t') = Some n" by (simp add: free_invD(1) [OF inv])
    then show ?thesis using that With seen free_invD(8) [OF inv, of t'] by (cases "free_phases s t'") simp_all
  qed (use that in simp_all)
  show ?thesis
  proof (cases "free_list_refs s n = SHOULD_BE_ON_FREELIST + 1")
    case True
    then have own: "own n = Waiting" and R: "?R = 1" using last wait by auto
    then have none: "looking ((free_phases s)(t := Load_top n (By_get x))) n = {}"
      using c [of "Load_top n (By_get x)"] card_bound(1) [OF inv, of n] by (simp add: looking_upd)
    have "free_inv M (own(n := With t)) ns (set_free_phase t (Load_top n (By_get x)) ?s)"
      by (rule free_inv_local [OF inv t, where n = n and ph' = "Load_top n (By_get x)"])
        (use ph own none True free_invD [OF inv] in auto)
    moreover have "bag_of (set_free_phase t (Load_top n (By_get x)) ?s) = bag_of s"
      by (rule bag_of_same [where t = t and ph' = "Load_top n (By_get x)"]) (simp_all add: ph)
    ultimately show ?thesis using True by (auto simp: get_step_def ph kept_def Let_def)
  next
    case False
    have "free_inv M own ns (set_free_phase t ph' ?s)" if i: "idle_phase ph'" for ph'
    proof (rule free_inv_local [OF inv t, where n = n and ph' = ph'])
      have "of_nat ?R - 1 = (of_nat (card (looking ((free_phases s)(t := ph')) n)) :: u32)"
        using i by (simp only: c [of ph', symmetric] idle_phase_simps of_nat_Suc) simp
      then show "free_list_refs (set_free_phase t ph' ?s) n =
          of_nat (card (looking (free_phases (set_free_phase t ph' ?s)) n)) + extra (free_phases (set_free_phase t ph' ?s)) (own n)"
        by (simp add: refs [OF inv] ex algebra_simps)
      show "looking (free_phases (set_free_phase t ph' ?s)) n \<noteq> {}" if "own n = Waiting"
      proof -
        have "?R \<noteq> 1" using False last that by auto
        with c [of ph'] i have "card (looking ((free_phases s)(t := ph')) n) \<noteq> 0" by auto
        then show ?thesis by auto
      qed
    qed (use i ph notmine free_invD [OF inv] in auto)
    from kept_idle(1) [OF this, of s] have "kept_by M s (get_loop t x ?s)" by (simp add: ph)
    then show ?thesis using False by (simp add: get_step_def ph Let_def)
  qed
qed

lemma get_step_ok:
  assumes inv: "free_inv M own ns s" and t: "t < M"
  shows "kept_by M s (get_step t s)"
proof (cases "free_phases s t")
  case Load_list_head
  have "free_inv M own ns (set_free_phase t ph' s)" if "idle_phase ph'" for ph'
    using free_inv_quiet [OF inv t, of ph'] that Load_list_head by auto
  from kept_idle(1) [OF this, of s] show ?thesis by (simp add: get_step_def Load_list_head)
next
  case (Load_refs n)
  then show ?thesis
    using kept_quiet [OF inv t, of Load_list_head] kept_quiet [OF inv t, of "Raise_refs n (free_list_refs s n)"]
    by (simp add: get_step_def Let_def)
next
  case (Load_next n)
  then show ?thesis using kept_quiet [OF inv t, of "Swap_out n (free_list_next s n)"] by (simp add: get_step_def)
qed (use raise_refs_step [OF inv t] swap_out_step [OF inv t] check_flag_step [OF inv t] drop_two_step [OF inv t] drop_one_step [OF inv t] in \<open>simp_all add: get_step_def\<close>)

end
