(* ===== verification/Free_Properties.thy ===== *)
theory Free_Properties
  imports Free_Steps
begin

text \<open>The properties of the lock-free free list: it is a bag, and at rest it has all of its nodes.\<close>

section \<open>Runs\<close>

fun label_thread :: "free_label \<Rightarrow> nat" where
  "label_thread (Call_add t n) = t"
| "label_thread (Call_get t) = t"
| "label_thread (Step t) = t"

lemma call_add_ok:
  assumes inv: "free_inv M own ns s" and t: "t < M" and ph: "free_phases s t = Resting" and c: "with_clients s n"
  shows "kept M s None (set_free_phase t (Mark n) (s\<lparr> with_clients := (with_clients s)(n := False) \<rparr>))"
proof -
  let ?s = "set_free_phase t (Mark n) (s\<lparr> with_clients := (with_clients s)(n := False) \<rparr>)"
  have own: "own n = Client" using c by (simp add: free_invD(2) [OF inv])
  have "free_inv M (own(n := With t)) ns ?s"
    by (rule free_inv_local [OF inv t, where n = n and ph' = "Mark n"])
      (use ph own free_invD [OF inv] in \<open>auto simp: looking_same\<close>)
  moreover have "bag_of ?s = bag_of s"
    using bag_of_step [OF inv, of ?s t "Mark n" n] ph own c by (cases "bag_of s") (auto simp: bag_of_def)
  ultimately show ?thesis by (auto simp: kept_def)
qed

lemma free_step_ok:
  assumes inv: "free_inv M own ns s" and t: "label_thread l < M"
  shows "kept_by M s (free_step l s)"
proof (cases l)
  case (Call_add t n)
  then show ?thesis using call_add_ok [OF inv, of t n] assms(2) by simp
next
  case (Call_get t)
  then show ?thesis using kept_quiet [OF inv, of t Load_list_head] assms(2) by simp
next
  case (Step t)
  then show ?thesis using add_step_ok [OF inv, of t] get_step_ok [OF inv, of t] assms(2)
    by (cases "add_step t s") simp_all
qed

lemma run_free_list_ok:
  assumes "free_inv M own ns s" and "\<forall>l \<in> set ls. label_thread l < M"
  shows "\<exists>es s' own' ns'. run_free_list ls s = Some (es, s') \<and> free_inv M own' ns' s' \<and> bag_events es (bag_of s) = Some (bag_of s')"
  using assms
proof (induction ls arbitrary: s own ns)
  case (Cons l ls)
  have k: "kept_by M s (free_step l s)" using free_step_ok [OF Cons.prems(1)] Cons.prems(2) by simp
  have ls: "\<forall>l \<in> set ls. label_thread l < M" using Cons.prems(2) by simp
  show ?case
  proof (cases "free_step l s")
    case Disabled
    then show ?thesis using Cons.IH [OF Cons.prems(1) ls] by simp
  next
    case (Next s1 e)
    with k obtain own1 ns1 where i: "free_inv M own1 ns1 s1"
      and ev: "case e of None \<Rightarrow> bag_of s1 = bag_of s | Some x \<Rightarrow> bag_event x (bag_of s) = Some (bag_of s1)"
      by (auto simp: kept_def)
    from Cons.IH [OF i ls] obtain es s' own' ns' where "run_free_list ls s1 = Some (es, s')" "free_inv M own' ns' s'"
      "bag_events es (bag_of s1) = Some (bag_of s')" by blast
    with Next ev show ?thesis by (cases e) auto
  qed (use k in simp)
qed auto

lemma new_free_list_inv: "M \<le> 2 ^ 30 \<Longrightarrow> free_inv M (\<lambda>_. Client) [] new_free_list"
  unfolding free_inv_def by (auto simp: new_free_list_def looking_def)

lemma bag_of_new: "bag_of new_free_list = ({}, \<lambda>_. None)"
  by (simp add: bag_of_def new_free_list_def)

lemma new_free_list_run:
  assumes "\<forall>l \<in> set ls. label_thread l < 2 ^ 30"
  shows "\<exists>es s own ns. run_free_list ls new_free_list = Some (es, s) \<and> free_inv (2 ^ 30) own ns s \<and>
    bag_events es ({}, \<lambda>_. None) = Some (bag_of s)"
  using run_free_list_ok [OF new_free_list_inv [OF order_refl] assms] by (simp add: bag_of_new)

section \<open>A bag\<close>

text \<open>
  C27: The lock-free free list is a bag, under every interleaving of \<open>add\<close> and \<open>try_get\<close> by fewer than 2^30
  threads: a node is taken out only if it has been added and not been taken out since, by one thread only, and this
  thread returns it; the assertion of the code holds. So no block of the queue is handed out twice.
\<close>

theorem free_list_refines_bag:
  assumes "\<forall>l \<in> set ls. label_thread l < 2 ^ 30"
  shows "\<exists>es s F taken. run_free_list ls new_free_list = Some (es, s) \<and> bag_events es ({}, \<lambda>_. None) = Some (F, taken)"
  using new_free_list_run [OF assms] by (metis surj_pair)

theorem free_list_refines_bag_witness:
  "\<exists>es s F taken. run_free_list [Call_add 0 5, Step 0, Step 0, Call_get 1, Step 1, Step 0, Step 0, Step 0, Step 1, Step 1] new_free_list =
    Some (es, s) \<and> bag_events es ({}, \<lambda>_. None) = Some (F, taken)"
  by (rule free_list_refines_bag) simp

section \<open>At rest\<close>

lemma rest_list:
  assumes inv: "free_inv M own ns s" and rest: "\<And>t. free_phases s t = Resting"
  shows "set ns = {n. \<not> with_clients s n} \<and> (\<forall>n. free_list_refs s n = (if with_clients s n then 0 else 1))"
proof -
  have own: "own n = (if with_clients s n then Client else Linked)" for n
  proof (cases "own n")
    case Waiting
    then show ?thesis using free_invD(6) [OF inv, of n] rest by (simp add: looking_def)
  next
    case (With t)
    then show ?thesis using free_invD(1) [OF inv, of t n] rest by simp
  qed (simp_all add: free_invD(2) [OF inv])
  have "looking (free_phases s) n = {}" for n using rest by (simp add: looking_def)
  then show ?thesis using free_invD(3,7) [OF inv] by (auto simp: own)
qed

text \<open>
  The free list loses no node: when all threads have returned, a \<open>try_get\<close> by one thread returns a node
  that is in the list if there is any, after 7 steps, and \<open>None\<close> only if all nodes are with the clients.
\<close>

theorem free_list_get_at_rest:
  assumes "\<forall>l \<in> set ls. label_thread l < 2 ^ 30" and "run_free_list ls new_free_list = Some (es, s)"
    and "\<forall>t. free_phases s t = Resting"
  shows "\<exists>s'. if \<forall>n. with_clients s n then run_free_list (Call_get t # replicate 7 (Step t)) s = Some ([Returned t None], s')
    else \<exists>n. \<not> with_clients s n \<and> run_free_list (Call_get t # replicate 7 (Step t)) s = Some ([Taken_out t n, Returned t (Some n)], s')"
proof -
  from new_free_list_run [OF assms(1)] assms(2) obtain own ns where inv: "free_inv (2 ^ 30) own ns s" by auto
  have ns: "set ns = {n. \<not> with_clients s n}" and refs: "\<And>n. free_list_refs s n = (if with_clients s n then 0 else 1)"
    using rest_list [OF inv] assms(3) by auto
  have l: "linked (free_list_next s) (free_list_head s) ns" by (rule free_invD(5) [OF inv])
  note defs = numeral_eq_Suc add_step_def get_step_def get_loop_def return_to_def set_free_phase_def set_refs_def Let_def
  show ?thesis
  proof (cases ns)
    case Nil
    then show ?thesis using ns l assms(3) by (simp add: defs)
  next
    case (Cons n ns')
    then have "\<not> with_clients s n" "free_list_head s = Some n" using ns l by auto
    then show ?thesis using assms(3) refs [of n] by (auto simp: defs)
  qed
qed

theorem free_list_get_at_rest_witness:
  "\<exists>s s' n. run_free_list [Call_add 0 5, Step 0, Step 0, Step 0, Step 0, Step 0] new_free_list = Some ([Freed 5], s) \<and>
    run_free_list (Call_get 1 # replicate 7 (Step 1)) s = Some ([Taken_out 1 n, Returned 1 (Some n)], s')"
proof -
  obtain s where r: "run_free_list [Call_add 0 5, Step 0, Step 0, Step 0, Step 0, Step 0] new_free_list = Some ([Freed 5], s)"
    and s: "\<forall>t. free_phases s t = Resting" "\<not> with_clients s 5"
    by (simp add: new_free_list_def add_step_def get_step_def get_loop_def return_to_def set_free_phase_def set_refs_def)
  from free_list_get_at_rest [OF _ r s(1), of 1] s(2) r show ?thesis by (auto split: if_splits simp del: run_free_list.simps)
qed

end
