(* ===== verification/Hive_Group.thy ===== *)
theory Hive_Group
  imports Prelude
begin

text \<open>
  One memory block of \<open>plf::hive\<close> (includes/plf_hive.h), the container that holds the orders
  of a price level: its element slots, its jump-counting skipfield and the doubly linked
  free list threaded through its erased slots.

  The element type is trivially destructible, so ending an object's life writes nothing. A
  slot holds an object or none, and the two 16-bit links the free list writes into the
  memory of an erased element. Skipfield nodes are 16 bits wide: numbers here, with the
  reduction of every cast written out as \<open>sk16\<close>.
\<close>

section \<open>Slots, skipfield and group\<close>

record 'a slot =
  obj :: "'a option"
  fl_prev :: nat
  fl_next :: nat

definition SKIP_MAX :: nat where "SKIP_MAX = 65535"

definition sk16 :: "nat \<Rightarrow> nat" where "sk16 n = n mod 65536"

text \<open>
  A group. \<open>g_addr\<close> is its address; the links to the next and the previous group are the
  position in the list the hive keeps.
\<close>

record 'a group =
  g_addr :: nat
  skipfield :: "nat list"
  elements :: "'a slot list"
  free_list_head :: nat
  g_capacity :: nat
  g_size :: nat

definition new_group :: "nat \<Rightarrow> nat \<Rightarrow> 'a group" where
  "new_group addr elements_per_group =
     \<lparr> g_addr = addr, skipfield = replicate (elements_per_group + 1) 0,
       elements = replicate elements_per_group \<lparr> obj = None, fl_prev = 0, fl_next = 0 \<rparr>,
       free_list_head = SKIP_MAX, g_capacity = elements_per_group, g_size = 1 \<rparr>"

definition group_reset :: "nat \<Rightarrow> 'a group \<Rightarrow> 'a group" where
  "group_reset increment g =
     g\<lparr> free_list_head := SKIP_MAX, g_size := increment,
        skipfield := replicate (g_capacity g) 0 @ drop (g_capacity g) (skipfield g) \<rparr>"

definition construct_element :: "nat \<Rightarrow> 'a \<Rightarrow> 'a slot list \<Rightarrow> 'a slot list" where
  "construct_element i x els = els[i := (els ! i)\<lparr> obj := Some x \<rparr>]"

definition destroy_element :: "nat \<Rightarrow> 'a slot list \<Rightarrow> 'a slot list" where
  "destroy_element i els = els[i := (els ! i)\<lparr> obj := None \<rparr>]"

section \<open>Writing the free list\<close>

definition edit_free_list_prev :: "nat \<Rightarrow> nat \<Rightarrow> 'a slot list \<Rightarrow> 'a slot list" where
  "edit_free_list_prev location value els = els[location := (els ! location)\<lparr> fl_prev := value \<rparr>]"

definition edit_free_list_next :: "nat \<Rightarrow> nat \<Rightarrow> 'a slot list \<Rightarrow> 'a slot list" where
  "edit_free_list_next location value els = els[location := (els ! location)\<lparr> fl_next := value \<rparr>]"

definition edit_free_list_head :: "nat \<Rightarrow> nat \<Rightarrow> 'a slot list \<Rightarrow> 'a slot list" where
  "edit_free_list_head location value els =
     els[location := (els ! location)\<lparr> fl_prev := value, fl_next := SKIP_MAX \<rparr>]"

lemmas free_list_edits =
  edit_free_list_prev_def edit_free_list_next_def edit_free_list_head_def

section \<open>Reusing a slot: the group's part of \<open>update_skipblock\<close>\<close>

text \<open>
  The slot at the start \<open>i\<close> of a skipblock is taken: the block shrinks by its first node
  or disappears, and its free list node moves along or is unlinked.
\<close>

definition shrink_skipblock :: "nat \<Rightarrow> nat \<Rightarrow> 'a group \<Rightarrow> 'a group" where
  "shrink_skipblock i prev_free_list_index g =
     (let new_value = sk16 (skipfield g ! i + 65535) in
      if new_value \<noteq> 0 then
        let sk = (skipfield g)[i + 1 := new_value, i + new_value := new_value];
            head = sk16 (free_list_head g + 1);
            els = (if prev_free_list_index \<noteq> SKIP_MAX
                   then edit_free_list_next prev_free_list_index head (elements g)
                   else elements g)
        in g\<lparr> skipfield := sk[i := 0],
              elements := edit_free_list_head (i + 1) prev_free_list_index els,
              free_list_head := head, g_size := sk16 (g_size g + 1) \<rparr>
      else
        let els = (if prev_free_list_index \<noteq> SKIP_MAX
                   then edit_free_list_next prev_free_list_index SKIP_MAX (elements g)
                   else elements g)
        in g\<lparr> skipfield := (skipfield g)[i := 0], elements := els,
              free_list_head := prev_free_list_index, g_size := sk16 (g_size g + 1) \<rparr>)"

section \<open>Erasing a slot: the skipfield and free list part of \<open>erase\<close>\<close>

text \<open>
  The four cases of the source, by whether the neighbouring slots are erased. The second
  component is \<open>update_value\<close>, the distance to the next element.
\<close>

definition erase_skipblock :: "nat \<Rightarrow> 'a group \<Rightarrow> 'a group \<times> nat" where
  "erase_skipblock i g =
     (let sk = skipfield g; els = elements g;
          prev_skipfield = sk ! (i - (if i \<noteq> 0 then 1 else 0)) \<noteq> 0;
          after_skipfield = sk ! (i + 1) \<noteq> 0
      in if \<not> (prev_skipfield \<or> after_skipfield) then
           let els1 = (if free_list_head g \<noteq> SKIP_MAX
                       then edit_free_list_next (free_list_head g) i els else els)
           in (g\<lparr> skipfield := sk[i := 1],
                  elements := edit_free_list_head i (free_list_head g) els1,
                  free_list_head := i \<rparr>, 1)
         else if prev_skipfield \<and> \<not> after_skipfield then
           let v = sk16 (sk ! (i - 1) + 1)
           in (g\<lparr> skipfield := sk[i := v, i - sk ! (i - 1) := v] \<rparr>, 1)
         else if \<not> prev_skipfield \<and> after_skipfield then
           let following_value = sk16 (sk ! (i + 1) + 1);
               following_previous = fl_prev (els ! (i + 1));
               following_next = fl_next (els ! (i + 1));
               els1 = edit_free_list_next i following_next
                        (edit_free_list_prev i following_previous els);
               els2 = (if following_previous \<noteq> SKIP_MAX
                       then edit_free_list_next following_previous i els1 else els1);
               els3 = (if following_next \<noteq> SKIP_MAX
                       then edit_free_list_prev following_next i els2 else els2)
           in (g\<lparr> skipfield := sk[i := following_value, i + following_value - 1 := following_value],
                  elements := els3,
                  free_list_head := (if following_next \<noteq> SKIP_MAX then free_list_head g else i) \<rparr>,
               following_value)
         else
           let sk1 = sk[i := 1];
               preceding_value = sk1 ! (i - 1);
               following_value = sk16 (sk1 ! (i + 1) + 1);
               joined = sk16 (preceding_value + following_value);
               following_previous = fl_prev (els ! (i + 1));
               following_next = fl_next (els ! (i + 1));
               els1 = (if following_previous \<noteq> SKIP_MAX
                       then edit_free_list_next following_previous following_next els else els);
               els2 = (if following_next \<noteq> SKIP_MAX
                       then edit_free_list_prev following_next following_previous els1 else els1)
           in (g\<lparr> skipfield := sk1[i + following_value - 1 := joined, i - preceding_value := joined],
                  elements := els2,
                  free_list_head := (if following_next \<noteq> SKIP_MAX then free_list_head g
                                     else following_previous) \<rparr>,
               following_value))"

section \<open>The skipfield invariant\<close>

text \<open>
  \<open>run sk s k\<close>: the slots \<open>s, \<dots>, s + k - 1\<close> are a maximal block of erased slots. The
  jump-counting pattern stores the length of every such block in its first and in its last
  node; the node after the last slot is always 0.
\<close>

definition run :: "nat list \<Rightarrow> nat \<Rightarrow> nat \<Rightarrow> bool" where
  "run sk s k \<longleftrightarrow> 0 < k \<and> s + k < length sk \<and> (\<forall>j. s \<le> j \<and> j < s + k \<longrightarrow> sk ! j \<noteq> 0)
     \<and> sk ! (s + k) = 0 \<and> (s = 0 \<or> sk ! (s - 1) = 0)"

definition skip_ok :: "nat list \<Rightarrow> nat \<Rightarrow> bool" where
  "skip_ok sk n \<longleftrightarrow> length sk = n + 1 \<and> sk ! n = 0
     \<and> (\<forall>s k. run sk s k \<longrightarrow> sk ! s = k \<and> sk ! (s + k - 1) = k)"

definition block_start :: "nat list \<Rightarrow> nat \<Rightarrow> bool" where
  "block_start sk s \<longleftrightarrow> s < length sk \<and> sk ! s \<noteq> 0 \<and> (s = 0 \<or> sk ! (s - 1) = 0)"

lemma skip_okD:
  assumes "skip_ok sk n" and "run sk s k"
  shows "sk ! s = k" and "sk ! (s + k - 1) = k"
  using assms by (auto simp: skip_ok_def)

lemma run_from_start:
  assumes "sk ! (length sk - 1) = 0" and "block_start sk s"
  shows "\<exists>k. run sk s k"
proof -
  let ?P = "\<lambda>j. s \<le> j \<and> sk ! j = 0"
  from assms have s: "s < length sk" "sk ! s \<noteq> 0" by (auto simp: block_start_def)
  with assms(1) have ex: "?P (length sk - 1)" by auto
  define e where "e = (LEAST j. ?P j)"
  from ex have e: "?P e" unfolding e_def by (rule LeastI)
  from ex have "e \<le> length sk - 1" unfolding e_def by (rule Least_le)
  moreover have "sk ! j \<noteq> 0" if "s \<le> j" "j < e" for j
  proof -
    from that have "\<not> ?P j" unfolding e_def by (intro not_less_Least)
    with that show ?thesis by simp
  qed
  moreover from e s have "s < e" by (cases "s = e") auto
  ultimately have "run sk s (e - s)"
    using assms(2) e s by (auto simp: run_def block_start_def)
  then show ?thesis ..
qed

lemma start_of_dead:
  "i < length sk \<Longrightarrow> sk ! i \<noteq> 0 \<Longrightarrow>
   \<exists>s \<le> i. block_start sk s \<and> (\<forall>j. s \<le> j \<and> j \<le> i \<longrightarrow> sk ! j \<noteq> 0)"
proof (induction i)
  case 0
  then show ?case by (auto simp: block_start_def)
next
  case (Suc i)
  show ?case
  proof (cases "sk ! i = 0")
    case True
    with Suc.prems show ?thesis
      by (intro exI [of _ "Suc i"]) (auto simp: block_start_def le_less_Suc_eq)
  next
    case False
    with Suc obtain s where s: "s \<le> i" "block_start sk s"
      "\<forall>j. s \<le> j \<and> j \<le> i \<longrightarrow> sk ! j \<noteq> 0" by auto
    with Suc.prems(2) have "\<forall>j. s \<le> j \<and> j \<le> Suc i \<longrightarrow> sk ! j \<noteq> 0"
      using le_Suc_eq by auto
    with s show ?thesis by (intro exI [of _ s]) auto
  qed
qed

text \<open>The block that ends just before a live slot, and the block that starts after one.\<close>

lemma run_before:
  assumes "skip_ok sk n" and "i < n" and "sk ! i = 0" and "i \<noteq> 0" and "sk ! (i - 1) \<noteq> 0"
  shows "sk ! (i - 1) \<le> i" and "run sk (i - sk ! (i - 1)) (sk ! (i - 1))"
proof -
  from assms have len: "length sk = n + 1" by (simp add: skip_ok_def)
  with assms obtain s where s: "s \<le> i - 1" "block_start sk s"
    "\<forall>j. s \<le> j \<and> j \<le> i - 1 \<longrightarrow> sk ! j \<noteq> 0"
    using start_of_dead [of "i - 1" sk] by (metis One_nat_def Suc_eq_plus1 less_Suc_eq less_imp_diff_less)
  have r: "run sk s (i - s)"
    using s assms len by (auto simp: run_def block_start_def)
  from skip_okD(2) [OF assms(1) r] s(1) assms(4) have k: "sk ! (i - 1) = i - s" by simp
  with s(1) show "sk ! (i - 1) \<le> i" by simp
  from k r s(1) assms(4) show "run sk (i - sk ! (i - 1)) (sk ! (i - 1))" by simp
qed

lemma run_after:
  assumes "skip_ok sk n" and "i < n" and "sk ! i = 0" and "sk ! (i + 1) \<noteq> 0"
  shows "run sk (i + 1) (sk ! (i + 1))"
proof -
  from assms have len: "length sk = n + 1" "sk ! n = 0" by (auto simp: skip_ok_def)
  with assms have "block_start sk (i + 1)"
    by (auto simp: block_start_def)
  with len obtain k where r: "run sk (i + 1) k" using run_from_start [of sk "i + 1"] by auto
  from skip_okD(1) [OF assms(1) r] r show ?thesis by simp
qed

lemma run_at_start:
  assumes "skip_ok sk n" and "block_start sk i"
  shows "run sk i (sk ! i)"
proof -
  from assms obtain k where r: "run sk i k"
    using run_from_start [of sk i] by (auto simp: skip_ok_def)
  from skip_okD(1) [OF assms(1) r] r show ?thesis by simp
qed

text \<open>
  Erasing the live slot \<open>i\<close>: it joins the block of length \<open>a\<close> on its left and the block of
  length \<open>b\<close> on its right (either may be missing). Whatever the code writes inside the new
  block, the pattern is kept when both its ends hold its length.
\<close>

definition joins :: "nat list \<Rightarrow> nat \<Rightarrow> nat \<Rightarrow> nat \<Rightarrow> bool" where
  "joins sk i a b \<longleftrightarrow> i + 1 < length sk \<and> sk ! i = 0
     \<and> (a = 0 \<and> (i = 0 \<or> sk ! (i - 1) = 0) \<or> a \<le> i \<and> run sk (i - a) a)
     \<and> (b = 0 \<and> sk ! (i + 1) = 0 \<or> run sk (i + 1) b)"

lemma joins_dead:
  "joins sk i a b \<Longrightarrow> i - a \<le> j \<Longrightarrow> j \<le> i + b \<Longrightarrow> j \<noteq> i \<Longrightarrow> sk ! j \<noteq> 0"
  by (cases "j < i") (auto simp: joins_def run_def)

lemma joins_ends:
  "joins sk i a b \<Longrightarrow> a \<le> i \<and> i + b + 1 < length sk \<and> sk ! (i + b + 1) = 0
     \<and> (a = i \<or> sk ! (i - a - 1) = 0)"
  by (auto simp: joins_def run_def)

lemma run_joined:
  assumes j: "joins sk i a b" and len: "length sk' = length sk"
    and dead: "\<And>j. j < length sk \<Longrightarrow> sk' ! j \<noteq> 0 \<longleftrightarrow> sk ! j \<noteq> 0 \<or> j = i"
  shows "run sk' (i - a) (a + 1 + b)"
proof -
  have ends: "a \<le> i" "i + b + 1 < length sk" "sk ! (i + b + 1) = 0"
    "a = i \<or> sk ! (i - a - 1) = 0"
    using joins_ends [OF j] by auto
  have "sk' ! l \<noteq> 0" if "i - a \<le> l" "l < i - a + (a + 1 + b)" for l
    using dead [of l] joins_dead [OF j that(1)] that ends by (cases "l = i") auto
  moreover have "sk' ! (i - a + (a + 1 + b)) = 0"
    using dead [of "i + b + 1"] ends by simp
  moreover have "i - a = 0 \<or> sk' ! (i - a - 1) = 0"
  proof (cases "a = i")
    case False
    with ends have "i - a - 1 < length sk" "i - a - 1 \<noteq> i" by linarith+
    with dead [of "i - a - 1"] ends False show ?thesis by simp
  qed simp
  ultimately show ?thesis using ends len by (simp add: run_def)
qed

lemma run_elsewhere:
  assumes j: "joins sk i a b" and len: "length sk' = length sk"
    and dead: "\<And>j. j < length sk \<Longrightarrow> sk' ! j \<noteq> 0 \<longleftrightarrow> sk ! j \<noteq> 0 \<or> j = i"
    and r: "run sk' s k"
  shows "s = i - a \<and> k = a + 1 + b \<or> run sk s k \<and> (s + k < i - a \<or> i + b < s)"
proof -
  have ends: "a \<le> i" "i + b + 1 < length sk" using joins_ends [OF j] by auto
  have J: "run sk' (i - a) (a + 1 + b)" by (rule run_joined [OF j len dead])
  then have Jd: "\<And>l. i - a \<le> l \<Longrightarrow> l \<le> i + b \<Longrightarrow> sk' ! l \<noteq> 0"
    using ends by (auto simp: run_def)
  from r have r': "0 < k" "s + k < length sk" "\<And>l. s \<le> l \<Longrightarrow> l < s + k \<Longrightarrow> sk' ! l \<noteq> 0"
    "sk' ! (s + k) = 0" "s = 0 \<or> sk' ! (s - 1) = 0"
    using len by (auto simp: run_def)
  from J have J': "sk' ! (i + b + 1) = 0" "i - a = 0 \<or> sk' ! (i - a - 1) = 0"
    using ends by (auto simp: run_def)
  have agree: "sk' ! l \<noteq> 0 \<longleftrightarrow> sk ! l \<noteq> 0" if "l < length sk" "l \<noteq> i" for l
    using dead [OF that(1)] that(2) by simp
  consider "s + k < i - a" | "i + b < s" | "s + k \<ge> i - a" "s \<le> i + b" by linarith
  then show ?thesis
  proof cases
    case 1
    have "sk ! l \<noteq> 0" if "s \<le> l" "l < s + k" for l
      using r'(2) r'(3) [OF that] agree [of l] that 1 ends by auto
    moreover have "sk ! (s + k) = 0" using r'(2,4) agree [of "s + k"] 1 ends by auto
    moreover have "s = 0 \<or> sk ! (s - 1) = 0"
    proof -
      from 1 r'(2) have "s - 1 < length sk" "s - 1 \<noteq> i" by linarith+
      with r'(5) agree [of "s - 1"] show ?thesis by auto
    qed
    ultimately have "run sk s k" using r'(1,2) by (simp add: run_def)
    with 1 show ?thesis by simp
  next
    case 2
    have "sk ! l \<noteq> 0" if "s \<le> l" "l < s + k" for l
      using r'(2) r'(3) [OF that] agree [of l] that 2 ends by auto
    moreover have "sk ! (s + k) = 0" using r'(2,4) agree [of "s + k"] 2 ends by auto
    moreover have "s = 0 \<or> sk ! (s - 1) = 0"
    proof -
      from 2 r'(5) have z: "sk' ! (s - 1) = 0" by simp
      with dead [of i] ends have "s - 1 \<noteq> i" by auto
      with z agree [of "s - 1"] r'(2) show ?thesis by simp
    qed
    ultimately have "run sk s k" using r'(1,2) by (simp add: run_def)
    with 2 show ?thesis by simp
  next
    case 3
    have ge: "s + k > i + b" using Jd [of "s + k"] r'(4) 3(1) by linarith
    have "s + k = i + b + 1"
      using ge r'(3) [of "i + b + 1"] J'(1) 3(2) by linarith
    moreover have "s = i - a"
    proof (rule ccontr)
      assume "s \<noteq> i - a"
      then consider "s < i - a" | "i - a < s" by linarith
      then show False
      proof cases
        case 1
        then have "s \<le> i - a - 1" "i - a - 1 < s + k" using ge by linarith+
        then have "sk' ! (i - a - 1) \<noteq> 0" by (rule r'(3))
        with J'(2) 1 show False by simp
      next
        case 2
        with 3(2) have "i - a \<le> s - 1" "s - 1 \<le> i + b" "s \<noteq> 0" by linarith+
        with r'(5) Jd [of "s - 1"] show False by simp
      qed
    qed
    ultimately show ?thesis using ends by linarith
  qed
qed

lemma skip_ok_joined:
  assumes ok: "skip_ok sk n" and j: "joins sk i a b" and len: "length sk' = length sk"
    and dead: "\<And>j. j < length sk \<Longrightarrow> sk' ! j \<noteq> 0 \<longleftrightarrow> sk ! j \<noteq> 0 \<or> j = i"
    and rest: "\<And>j. j < length sk \<Longrightarrow> j < i - a \<or> i + b < j \<Longrightarrow> sk' ! j = sk ! j"
    and vals: "sk' ! (i - a) = a + 1 + b" "sk' ! (i + b) = a + 1 + b"
  shows "skip_ok sk' n"
  unfolding skip_ok_def
proof (intro conjI allI impI)
  have ends: "a \<le> i" "i + b + 1 < length sk" using joins_ends [OF j] by auto
  from ok show "length sk' = n + 1" by (simp add: len skip_ok_def)
  from ok rest [of n] ends show "sk' ! n = 0" by (auto simp: skip_ok_def)
  fix s k assume "run sk' s k"
  with run_elsewhere [OF j len dead] consider "s = i - a" "k = a + 1 + b"
    | "run sk s k" "s + k < i - a \<or> i + b < s" by blast
  then show "sk' ! s = k" "sk' ! (s + k - 1) = k"
  proof (atomize(full), cases)
    case 1
    with vals ends show "sk' ! s = k \<and> sk' ! (s + k - 1) = k" by simp
  next
    case 2
    then have "0 < k" "s < length sk" "s + k - 1 < length sk" by (auto simp: run_def)
    note l = this(2,3)
    from \<open>0 < k\<close> 2(2) have out: "s < i - a \<or> i + b < s" "s + k - 1 < i - a \<or> i + b < s + k - 1"
      by linarith+
    show "sk' ! s = k \<and> sk' ! (s + k - 1) = k"
      unfolding rest [OF l(1) out(1)] rest [OF l(2) out(2)] using skip_okD [OF ok 2(1)] by simp
  qed
qed

text \<open>
  Reusing the first slot \<open>i\<close> of a block of length \<open>k\<close>: the block shrinks to the \<open>k - 1\<close> slots
  after it.
\<close>

lemma run_shrunk:
  assumes r0: "run sk i k0" and len: "length sk' = length sk"
    and dead: "\<And>j. j < length sk \<Longrightarrow> sk' ! j \<noteq> 0 \<longleftrightarrow> sk ! j \<noteq> 0 \<and> j \<noteq> i"
    and r: "run sk' s k"
  shows "s = i + 1 \<and> k + 1 = k0 \<or> run sk s k \<and> (s + k < i \<or> i + k0 < s)"
proof -
  from r0 have i: "0 < k0" "i + k0 < length sk" "sk ! (i + k0) = 0"
    "\<And>l. i \<le> l \<Longrightarrow> l < i + k0 \<Longrightarrow> sk ! l \<noteq> 0" "i = 0 \<or> sk ! (i - 1) = 0"
    by (auto simp: run_def)
  from r len have s: "0 < k" "s + k < length sk" "\<And>l. s \<le> l \<Longrightarrow> l < s + k \<Longrightarrow> sk' ! l \<noteq> 0"
    "sk' ! (s + k) = 0" "s = 0 \<or> sk' ! (s - 1) = 0"
    by (auto simp: run_def)
  have zi: "sk' ! i = 0" using dead [of i] i by auto
  have sl: "sk ! l \<noteq> 0 \<and> l \<noteq> i" if "s \<le> l" "l < s + k" for l
    using dead [of l] s(2) s(3) [OF that] that by simp
  have notin: "s + k \<le> i \<or> i < s" using sl [of i] by linarith
  consider "s + k < i" | "i + k0 < s" | "s + k = i" | "i < s" "s \<le> i + k0"
    using notin by linarith
  then show ?thesis
  proof cases
    case 1
    moreover have "sk ! (s + k) = 0" using dead [of "s + k"] s(2,4) 1 by auto
    moreover have "s = 0 \<or> sk ! (s - 1) = 0"
    proof -
      from 1 s(2) have "s - 1 < length sk" "s - 1 \<noteq> i" by linarith+
      with s(5) dead [of "s - 1"] show ?thesis by auto
    qed
    ultimately show ?thesis using s sl by (auto simp: run_def)
  next
    case 2
    moreover have "sk ! (s + k) = 0" using dead [of "s + k"] s(2,4) 2 by auto
    moreover have "s = 0 \<or> sk ! (s - 1) = 0"
    proof -
      from 2 s(2) i(1) have "s - 1 < length sk" "s - 1 \<noteq> i" by linarith+
      with s(5) dead [of "s - 1"] show ?thesis by auto
    qed
    ultimately show ?thesis using s sl by (auto simp: run_def)
  next
    case 3
    with s(1) have "s \<le> i - 1" "i - 1 < s + k" "i \<noteq> 0" by linarith+
    with sl [of "i - 1"] i(5) show ?thesis by simp
  next
    case 4
    have "s \<noteq> i + k0" using i(3) sl [of s] s(1) by auto
    with 4 have lt: "s < i + k0" by simp
    have "s = i + 1"
    proof (rule ccontr)
      assume "s \<noteq> i + 1"
      with 4 have "i \<le> s - 1" "s - 1 < i + k0" "s - 1 \<noteq> i" "s - 1 < length sk" "s \<noteq> 0"
        using i(2) by linarith+
      with i(4) [of "s - 1"] dead [of "s - 1"] s(5) show False by auto
    qed
    moreover have "\<not> s + k < i + k0"
      using i(4) [of "s + k"] dead [of "s + k"] s(2,4) 4 by auto
    moreover have "\<not> i + k0 < s + k"
      using i(3) sl [of "i + k0"] lt by auto
    ultimately show ?thesis by linarith
  qed
qed

lemma skip_ok_shrunk:
  assumes ok: "skip_ok sk n" and r0: "run sk i k0" and len: "length sk' = length sk"
    and dead: "\<And>j. j < length sk \<Longrightarrow> sk' ! j \<noteq> 0 \<longleftrightarrow> sk ! j \<noteq> 0 \<and> j \<noteq> i"
    and rest: "\<And>j. j < length sk \<Longrightarrow> j < i \<or> i + k0 \<le> j \<Longrightarrow> sk' ! j = sk ! j"
    and vals: "1 < k0 \<Longrightarrow> sk' ! (i + 1) = k0 - 1 \<and> sk' ! (i + k0 - 1) = k0 - 1"
  shows "skip_ok sk' n"
  unfolding skip_ok_def
proof (intro conjI allI impI)
  from r0 have i: "0 < k0" "i + k0 < length sk" by (auto simp: run_def)
  from ok show "length sk' = n + 1" by (simp add: len skip_ok_def)
  from ok i have "i + k0 \<le> n" by (simp add: skip_ok_def)
  then show "sk' ! n = 0" using ok rest [of n] by (simp add: skip_ok_def)
  fix s k assume r: "run sk' s k"
  then have k: "0 < k" by (simp add: run_def)
  from run_shrunk [OF r0 len dead r] consider "s = i + 1" "k + 1 = k0"
    | "run sk s k" "s + k < i \<or> i + k0 < s" by blast
  then show "sk' ! s = k" "sk' ! (s + k - 1) = k"
  proof (atomize(full), cases)
    case 1
    with k vals show "sk' ! s = k \<and> sk' ! (s + k - 1) = k" by auto
  next
    case 2
    then have l: "s < length sk" "s + k - 1 < length sk" by (auto simp: run_def)
    from 2 k have out: "s < i \<or> i + k0 \<le> s" "s + k - 1 < i \<or> i + k0 \<le> s + k - 1" by linarith+
    show "sk' ! s = k \<and> sk' ! (s + k - 1) = k"
      unfolding rest [OF l(1) out(1)] rest [OF l(2) out(2)] using skip_okD [OF ok 2(1)] by simp
  qed
qed

section \<open>The free list\<close>

text \<open>
  \<open>fl_seg els nx h is nx' h'\<close>: following the \<open>prev\<close> links from slot \<open>h\<close>, whose \<open>next\<close> link is
  \<open>nx\<close>, visits the slots \<open>is\<close> and leaves at \<open>h'\<close>, coming from \<open>nx'\<close>.
\<close>

fun fl_seg :: "'a slot list \<Rightarrow> nat \<Rightarrow> nat \<Rightarrow> nat list \<Rightarrow> nat \<Rightarrow> nat \<Rightarrow> bool" where
  "fl_seg els nx h [] nx' h' \<longleftrightarrow> nx = nx' \<and> h = h'"
| "fl_seg els nx h (i # is) nx' h' \<longleftrightarrow>
     h = i \<and> fl_next (els ! i) = nx \<and> fl_seg els i (fl_prev (els ! i)) is nx' h'"

definition free_list :: "'a slot list \<Rightarrow> nat \<Rightarrow> nat list \<Rightarrow> bool" where
  "free_list els h is \<longleftrightarrow> (\<exists>nx'. fl_seg els SKIP_MAX h is nx' SKIP_MAX)"

lemma fl_seg_append:
  "fl_seg els nx h (is @ js) nx'' h'' \<longleftrightarrow>
     (\<exists>nx' h'. fl_seg els nx h is nx' h' \<and> fl_seg els nx' h' js nx'' h'')"
  by (induction "is" arbitrary: nx h) auto

lemma fl_seg_cong:
  assumes "\<And>i. i \<in> set is \<Longrightarrow> fl_prev (els' ! i) = fl_prev (els ! i) \<and> fl_next (els' ! i) = fl_next (els ! i)"
  shows "fl_seg els' nx h is nx' h' \<longleftrightarrow> fl_seg els nx h is nx' h'"
  using assms by (induction "is" arbitrary: nx h) auto

lemma fl_seg_frame:
  assumes "x \<notin> set is" and "\<And>i. i \<noteq> x \<Longrightarrow> els' ! i = els ! i"
  shows "fl_seg els' nx h is nx' h' \<longleftrightarrow> fl_seg els nx h is nx' h'"
  using assms by (intro fl_seg_cong) metis

lemma fl_seg_last:
  "fl_seg els nx h is nx' h' \<Longrightarrow> nx' = (if is = [] then nx else last is) \<and>
     h = (if is = [] then h' else hd is)"
  by (induction "is" arbitrary: nx h) auto

lemma fl_seg_set_next:
  assumes "fl_seg els nx h is nx' h'" and "is \<noteq> []" and "distinct is" and "set is \<subseteq> {..<length els}"
  shows "fl_seg (edit_free_list_next h w els) w h is nx' h'"
proof -
  from assms obtain js where js: "is = h # js" by (cases "is") auto
  with assms have "fl_seg els h (fl_prev (els ! h)) js nx' h'" "h \<notin> set js" "h < length els"
    by auto
  moreover from this have
    "fl_seg (edit_free_list_next h w els) h (fl_prev (els ! h)) js nx' h' \<longleftrightarrow>
     fl_seg els h (fl_prev (els ! h)) js nx' h'"
    by (intro fl_seg_cong) (auto simp: edit_free_list_next_def nth_list_update)
  ultimately show ?thesis by (simp add: js edit_free_list_next_def)
qed

lemma fl_seg_set_prev:
  assumes "fl_seg els nx h is nx' h'" and "is \<noteq> []" and "distinct is" and "set is \<subseteq> {..<length els}"
  shows "fl_seg (edit_free_list_prev nx' w els) nx h is nx' w"
proof -
  from fl_seg_last [OF assms(1)] assms(2) have l: "nx' = last is" by simp
  from assms(2) obtain js where js: "is = js @ [last is]" by (metis append_butlast_last_id)
  have "fl_seg els nx h (js @ [nx']) nx' h'" using assms(1) js l by simp
  then obtain a b where ab: "fl_seg els nx h js a b" "fl_seg els a b [nx'] nx' h'"
    by (auto simp: fl_seg_append)
  have "nx' \<notin> set js" using js assms(3) l by (metis distinct_append disjoint_insert(1) list.simps(15))
  then have "fl_seg (edit_free_list_prev nx' w els) nx h js a b"
    using ab(1) by (subst fl_seg_frame [of nx']) (auto simp: edit_free_list_prev_def)
  moreover have "nx' < length els" using last_in_set [OF assms(2)] assms(4) l by auto
  then have "fl_seg (edit_free_list_prev nx' w els) a b [nx'] nx' w"
    using ab(2) by (simp add: edit_free_list_prev_def)
  ultimately have "fl_seg (edit_free_list_prev nx' w els) nx h (js @ [nx']) nx' w"
    by (auto simp: fl_seg_append)
  then show ?thesis using js l by simp
qed

lemma length_edits [simp]:
  "length (edit_free_list_prev i v els) = length els"
  "length (edit_free_list_next i v els) = length els"
  "length (edit_free_list_head i v els) = length els"
  "length (construct_element i x els) = length els"
  "length (destroy_element i els) = length els"
  by (simp_all add: free_list_edits construct_element_def destroy_element_def)

lemma obj_edits [simp]:
  "obj (edit_free_list_prev i v els ! j) = obj (els ! j)"
  "obj (edit_free_list_next i v els ! j) = obj (els ! j)"
  "obj (edit_free_list_head i v els ! j) = obj (els ! j)"
  by (cases "i < length els"; cases "i = j"; simp add: free_list_edits list_update_beyond)+

lemma links_untouched [simp]:
  "i \<noteq> j \<Longrightarrow> edit_free_list_prev i v els ! j = els ! j"
  "i \<noteq> j \<Longrightarrow> edit_free_list_next i v els ! j = els ! j"
  "i \<noteq> j \<Longrightarrow> edit_free_list_head i v els ! j = els ! j"
  by (simp_all add: free_list_edits)

lemma fl_prev_edit_next [simp]: "fl_prev (edit_free_list_next i v els ! j) = fl_prev (els ! j)"
  by (cases "i < length els"; cases "i = j"; simp add: free_list_edits list_update_beyond)

lemma fl_next_edit_prev [simp]: "fl_next (edit_free_list_prev i v els ! j) = fl_next (els ! j)"
  by (cases "i < length els"; cases "i = j"; simp add: free_list_edits list_update_beyond)

definition links_ok :: "'a slot list \<Rightarrow> nat \<Rightarrow> nat list \<Rightarrow> bool" where
  "links_ok els h is \<longleftrightarrow> free_list els h is \<and> distinct is \<and> set is \<subseteq> {..<length els}
     \<and> length els < SKIP_MAX"

lemma links_ok_head:
  assumes "links_ok els h is"
  shows "h = (if is = [] then SKIP_MAX else hd is)" and "h \<noteq> SKIP_MAX \<longleftrightarrow> is \<noteq> []"
proof -
  from assms show h: "h = (if is = [] then SKIP_MAX else hd is)"
    by (auto simp: links_ok_def free_list_def dest: fl_seg_last)
  show "h \<noteq> SKIP_MAX \<longleftrightarrow> is \<noteq> []"
  proof (cases "is = []")
    case False
    then have "hd is \<in> set is" by simp
    with assms have "hd is < SKIP_MAX" unfolding links_ok_def
      by (metis lessThan_iff less_trans subsetD)
    with h False show ?thesis by simp
  qed (use h in simp)
qed

lemma links_ok_push:
  assumes ok: "links_ok els h is" and i: "i \<notin> set is" "i < length els"
  shows "links_ok (edit_free_list_head i h
           (if h \<noteq> SKIP_MAX then edit_free_list_next h i els else els)) i (i # is)"
proof -
  define els1 where "els1 = (if h \<noteq> SKIP_MAX then edit_free_list_next h i els else els)"
  from ok obtain e where seg: "fl_seg els SKIP_MAX h is e SKIP_MAX"
    and d: "distinct is" "set is \<subseteq> {..<length els}" "length els < SKIP_MAX"
    by (auto simp: links_ok_def free_list_def)
  have "\<exists>e. fl_seg els1 i h is e SKIP_MAX"
  proof (cases "is = []")
    case True
    with links_ok_head [OF ok] show ?thesis by simp
  next
    case False
    with links_ok_head [OF ok] have "els1 = edit_free_list_next h i els" by (simp add: els1_def)
    with fl_seg_set_next [OF seg False d(1,2)] show ?thesis by auto
  qed
  then obtain e where e: "fl_seg els1 i h is e SKIP_MAX" ..
  have len: "length els1 = length els" by (simp add: els1_def)
  have "fl_seg (edit_free_list_head i h els1) i h is e SKIP_MAX"
    using e i(1) by (subst fl_seg_frame [of i]) auto
  moreover have "fl_prev (edit_free_list_head i h els1 ! i) = h"
    "fl_next (edit_free_list_head i h els1 ! i) = SKIP_MAX"
    using i(2) len by (simp_all add: edit_free_list_head_def)
  ultimately have "free_list (edit_free_list_head i h els1) i (i # is)"
    by (auto simp: free_list_def)
  then show ?thesis using d i len by (simp add: links_ok_def els1_def [symmetric])
qed

lemma links_ok_split:
  assumes "links_ok els h (as @ j # bs)"
  obtains e where "fl_seg els SKIP_MAX h as (fl_next (els ! j)) j"
    "fl_seg els j (fl_prev (els ! j)) bs e SKIP_MAX"
    "fl_next (els ! j) \<noteq> SKIP_MAX \<longleftrightarrow> as \<noteq> []" "fl_prev (els ! j) \<noteq> SKIP_MAX \<longleftrightarrow> bs \<noteq> []"
    "as \<noteq> [] \<Longrightarrow> fl_next (els ! j) = last as" "bs \<noteq> [] \<Longrightarrow> fl_prev (els ! j) = hd bs"
proof -
  from assms obtain e where seg: "fl_seg els SKIP_MAX h as (fl_next (els ! j)) j"
      "fl_seg els j (fl_prev (els ! j)) bs e SKIP_MAX"
    by (auto simp: links_ok_def free_list_def fl_seg_append)
  have b: "x < SKIP_MAX" if "x \<in> set (as @ j # bs)" for x
    using assms that unfolding links_ok_def by (meson lessThan_iff less_trans subsetD)
  have "as \<noteq> [] \<Longrightarrow> last as < SKIP_MAX" "bs \<noteq> [] \<Longrightarrow> hd bs < SKIP_MAX"
    by (auto intro!: b)
  with fl_seg_last [OF seg(1)] fl_seg_last [OF seg(2)]
  have "fl_next (els ! j) \<noteq> SKIP_MAX \<longleftrightarrow> as \<noteq> []" "fl_prev (els ! j) \<noteq> SKIP_MAX \<longleftrightarrow> bs \<noteq> []"
    "as \<noteq> [] \<Longrightarrow> fl_next (els ! j) = last as" "bs \<noteq> [] \<Longrightarrow> fl_prev (els ! j) = hd bs"
    by auto
  with seg show thesis by (rule that)
qed

text \<open>
  \<open>relink\<close> rewires the neighbours of node \<open>j\<close>: the node before it in the list gets \<open>pv\<close> as its
  \<open>prev\<close> link, the node after it gets \<open>nx\<close> as its \<open>next\<close> link.
\<close>

definition relink :: "nat \<Rightarrow> nat \<Rightarrow> nat \<Rightarrow> nat \<Rightarrow> 'a slot list \<Rightarrow> 'a slot list" where
  "relink p n nx pv els =
     (let els1 = (if p \<noteq> SKIP_MAX then edit_free_list_next p nx els else els)
      in if n \<noteq> SKIP_MAX then edit_free_list_prev n pv els1 else els1)"

lemma length_relink [simp]: "length (relink p n nx pv els) = length els"
  by (simp add: relink_def Let_def)

lemma obj_relink [simp]: "obj (relink p n nx pv els ! i) = obj (els ! i)"
  by (simp add: relink_def Let_def)

lemma relink_untouched:
  "i \<noteq> p \<Longrightarrow> i \<noteq> n \<Longrightarrow> relink p n nx pv els ! i = els ! i"
  by (simp add: relink_def Let_def)

lemma relink_segs:
  assumes ok: "links_ok els h (as @ j # bs)"
    and p: "p = fl_prev (els ! j)" and n: "n = fl_next (els ! j)"
  shows "fl_seg (relink p n nx pv els) SKIP_MAX (if n \<noteq> SKIP_MAX then h else pv) as n pv"
    and "\<exists>e. fl_seg (relink p n nx pv els) nx p bs e SKIP_MAX"
proof -
  obtain e where seg: "fl_seg els SKIP_MAX h as n j" "fl_seg els j p bs e SKIP_MAX"
    and ends: "n \<noteq> SKIP_MAX \<longleftrightarrow> as \<noteq> []" "p \<noteq> SKIP_MAX \<longleftrightarrow> bs \<noteq> []"
      "as \<noteq> [] \<Longrightarrow> n = last as" "bs \<noteq> [] \<Longrightarrow> p = hd bs"
    using links_ok_split [OF ok] p n by metis
  from ok have d: "distinct as" "distinct bs" "set as \<inter> set bs = {}"
    "set as \<subseteq> {..<length els}" "set bs \<subseteq> {..<length els}"
    by (auto simp: links_ok_def)
  define els1 where "els1 = (if p \<noteq> SKIP_MAX then edit_free_list_next p nx els else els)"
  have len: "length els1 = length els" by (simp add: els1_def)
  have pa: "p \<notin> set as" if "p \<noteq> SKIP_MAX" using ends that d(3) by auto
  have nb: "n \<notin> set bs" if "n \<noteq> SKIP_MAX" using ends that d(3) last_in_set by fastforce
  have as1: "fl_seg els1 SKIP_MAX h as n j"
    using seg(1) pa iffD2 [OF fl_seg_frame [of p as els1 els]] by (cases "p = SKIP_MAX") (auto simp: els1_def)
  have bs1: "\<exists>e. fl_seg els1 nx p bs e SKIP_MAX"
    using fl_seg_set_next [OF seg(2) _ d(2,5)] seg(2) ends(2)
    by (cases "bs = []") (auto simp: els1_def)
  have R: "relink p n nx pv els = (if n \<noteq> SKIP_MAX then edit_free_list_prev n pv els1 else els1)"
    by (simp add: relink_def els1_def)
  show "fl_seg (relink p n nx pv els) SKIP_MAX (if n \<noteq> SKIP_MAX then h else pv) as n pv"
    using fl_seg_set_prev [OF as1 _ d(1)] d(4) as1 ends(1) len R by (cases "as = []") auto
  from bs1 obtain e where "fl_seg els1 nx p bs e SKIP_MAX" ..
  then have "fl_seg (relink p n nx pv els) nx p bs e SKIP_MAX"
    unfolding R using nb iffD2 [OF fl_seg_frame [of n bs "edit_free_list_prev n pv els1" els1]]
    by (cases "n = SKIP_MAX") auto
  then show "\<exists>e. fl_seg (relink p n nx pv els) nx p bs e SKIP_MAX" ..
qed

lemma links_ok_unlink:
  assumes ok: "links_ok els h (as @ j # bs)"
    and p: "p = fl_prev (els ! j)" and n: "n = fl_next (els ! j)"
  shows "links_ok (relink p n n p els) (if n \<noteq> SKIP_MAX then h else p) (as @ bs)"
  using relink_segs [OF assms, of n p] ok by (auto simp: links_ok_def free_list_def fl_seg_append)

lemma links_ok_replace:
  assumes ok: "links_ok els h (as @ j # bs)" and i: "i \<notin> set (as @ bs)" "i < length els" "i \<noteq> j"
    and p: "p = fl_prev (els ! j)" and n: "n = fl_next (els ! j)"
  shows "links_ok (relink p n i i (edit_free_list_next i n (edit_free_list_prev i p els)))
           (if n \<noteq> SKIP_MAX then h else i) (as @ i # bs)"
proof -
  define els0 where "els0 = edit_free_list_next i n (edit_free_list_prev i p els)"
  have frame: "els0 ! l = els ! l" if "l \<noteq> i" for l using that by (simp add: els0_def)
  have ok0: "links_ok els0 h (as @ j # bs)"
  proof -
    from ok obtain e where "fl_seg els SKIP_MAX h (as @ j # bs) e SKIP_MAX"
      by (auto simp: links_ok_def free_list_def)
    then have "fl_seg els0 SKIP_MAX h (as @ j # bs) e SKIP_MAX"
      using i frame by (subst fl_seg_frame [of i]) auto
    with ok show ?thesis by (auto simp: links_ok_def free_list_def els0_def)
  qed
  have pn: "p = fl_prev (els0 ! j)" "n = fl_next (els0 ! j)" using p n frame [of j] i(3) by auto
  from ok0 pn i have inot: "i \<noteq> p \<or> p = SKIP_MAX" "i \<noteq> n \<or> n = SKIP_MAX"
    by (auto elim!: links_ok_split)
  have iMax: "i \<noteq> SKIP_MAX" using ok i(2) by (auto simp: links_ok_def)
  define R where "R = relink p n i i els0"
  have Ri: "R ! i = els0 ! i" unfolding R_def using inot iMax by (intro relink_untouched) auto
  have "fl_next (R ! i) = n" "fl_prev (R ! i) = p"
    using i(2) by (simp_all add: Ri els0_def edit_free_list_next_def edit_free_list_prev_def)
  with relink_segs [OF ok0 pn, of i i] have "free_list R (if n \<noteq> SKIP_MAX then h else i) (as @ i # bs)"
    by (auto simp: free_list_def fl_seg_append R_def)
  then show ?thesis using ok i(1,2) by (auto simp: links_ok_def R_def els0_def)
qed

section \<open>The group operations keep both structures\<close>

definition free_ok :: "'a group \<Rightarrow> bool" where
  "free_ok g \<longleftrightarrow> (\<exists>is. links_ok (elements g) (free_list_head g) is
     \<and> set is = {s. block_start (skipfield g) s})"

lemma joins_neighbours:
  assumes ok: "skip_ok sk n" and i: "i < n" "sk ! i = 0"
  shows "joins sk i (if i = 0 then 0 else sk ! (i - 1)) (sk ! (i + 1))"
proof -
  from ok have "length sk = n + 1" by (simp add: skip_ok_def)
  then show ?thesis
    using i run_before [OF ok i] run_after [OF ok i] by (auto simp: joins_def)
qed

text \<open>What all four cases of \<open>erase\<close> leave in the skipfield.\<close>

lemma joins_write:
  assumes ok: "skip_ok sk n" and j: "joins sk i a b" and len: "length sk' = length sk"
    and w: "\<And>j. j < length sk \<Longrightarrow>
      sk' ! j = (if j = i - a \<or> j = i + b then a + b + 1 else if j = i then 1 else sk ! j)"
  shows "skip_ok sk' n" and "\<And>j. j < length sk \<Longrightarrow> sk' ! j \<noteq> 0 \<longleftrightarrow> sk ! j \<noteq> 0 \<or> j = i"
proof -
  have ends: "a \<le> i" "i + b + 1 < length sk" using joins_ends [OF j] by auto
  show dead: "sk' ! j \<noteq> 0 \<longleftrightarrow> sk ! j \<noteq> 0 \<or> j = i" if "j < length sk" for j
    using joins_dead [OF j, of "i - a"] joins_dead [OF j, of "i + b"] w [OF that] ends by auto
  have rest: "sk' ! j = sk ! j" if "j < length sk" "j < i - a \<or> i + b < j" for j
    using w [OF that(1)] that(2) ends by auto
  show "skip_ok sk' n"
    using w [of "i - a"] w [of "i + b"] ends by (intro skip_ok_joined [OF ok j len dead rest]) auto
qed

lemma block_start_joined:
  assumes "length sk' = length sk" and "i + 1 < length sk" and "sk ! i = 0"
    and "\<And>j. j < length sk \<Longrightarrow> sk' ! j \<noteq> 0 \<longleftrightarrow> sk ! j \<noteq> 0 \<or> j = i"
  shows "block_start sk' s \<longleftrightarrow> (if s = i then i = 0 \<or> sk ! (i - 1) = 0
           else s \<noteq> i + 1 \<and> block_start sk s)"
proof (cases "s < length sk")
  case True
  then have "s - 1 < length sk" by simp
  with True show ?thesis
    using assms(1-3) assms(4) [of s] assms(4) [of "s - 1"] by (cases "s = 0") (auto simp: block_start_def)
qed (use assms(1-3) in \<open>auto simp: block_start_def\<close>)

lemma erase_skipblock_skip:
  assumes ok: "skip_ok (skipfield g) n" and n: "n < SKIP_MAX"
    and i: "i < n" "skipfield g ! i = 0"
    and e: "erase_skipblock i g = (g', d)"
  defines "a \<equiv> if i = 0 then 0 else skipfield g ! (i - 1)" and "b \<equiv> skipfield g ! (i + 1)"
  shows "d = b + 1" and "length (skipfield g') = length (skipfield g)"
    and "\<And>j. j < length (skipfield g) \<Longrightarrow> skipfield g' ! j =
      (if j = i - a \<or> j = i + b then a + b + 1 else if j = i then 1 else skipfield g ! j)"
proof -
  have J: "joins (skipfield g) i a b" unfolding a_def b_def by (rule joins_neighbours [OF ok i])
  have ends: "a \<le> i" "i + b + 1 < length (skipfield g)" "length (skipfield g) = n + 1"
    using joins_ends [OF J] ok by (auto simp: skip_ok_def)
  then have small: "a + b + 1 < 65536" using n by (simp add: SKIP_MAX_def)
  have A: "skipfield g ! (i - (if i \<noteq> 0 then 1 else 0)) = a" using i(2) by (auto simp: a_def)
  have B: "skipfield g ! (i + 1) = b" by (simp add: b_def)
  have A1: "a \<noteq> 0 \<Longrightarrow> skipfield g ! (i - 1) = a" "a \<noteq> 0 \<Longrightarrow> i \<noteq> 0" by (auto simp: a_def split: if_splits)
  from e have e': "erase_skipblock i g = (g', d)" .
  consider "a = 0" "b = 0" | "a \<noteq> 0" "b = 0" | "a = 0" "b \<noteq> 0" | "a \<noteq> 0" "b \<noteq> 0" by blast
  then have "d = b + 1 \<and> (\<exists>c. c = (if a = 0 \<or> b = 0 then a + b + 1 else 1) \<and>
      skipfield g' = (skipfield g)[i := c, i + b := a + b + 1, i - a := a + b + 1])"
  proof cases
    case 1
    with e' have "skipfield g' = (skipfield g)[i := 1]" "d = 1"
      unfolding erase_skipblock_def Let_def A B by auto
    with 1 show ?thesis by simp
  next
    case 2
    with A1 have "skipfield g ! (i - Suc 0) = a" by simp
    with 2 e' small have "skipfield g' = (skipfield g)[i := a + 1, i - a := a + 1]" "d = 1"
      unfolding erase_skipblock_def Let_def A B by (auto simp: sk16_def)
    with 2 show ?thesis by simp
  next
    case 3
    with e' small have "skipfield g' = (skipfield g)[i := b + 1, i + b := b + 1]" "d = b + 1"
      unfolding erase_skipblock_def Let_def A B by (auto simp: sk16_def)
    with 3 show ?thesis by (intro conjI exI [of _ "b + 1"]) (simp_all add: list_update_swap)
  next
    case 4
    then have "skipfield g ! (i - Suc 0) = a" "skipfield g ! Suc i = b" "i \<noteq> 0"
      using A1 B by simp_all
    with 4 e' small have
      "skipfield g' = (skipfield g)[i := 1, i + b := a + b + 1, i - a := a + b + 1]" "d = b + 1"
      unfolding erase_skipblock_def Let_def A B by (auto simp: sk16_def)
    with 4 show ?thesis by (intro conjI exI [of _ 1]) simp_all
  qed
  then obtain c where c: "d = b + 1" "c = (if a = 0 \<or> b = 0 then a + b + 1 else 1)"
    "skipfield g' = (skipfield g)[i := c, i + b := a + b + 1, i - a := a + b + 1]" by blast
  have "skipfield g' ! j = (if j = i - a \<or> j = i + b then a + b + 1 else if j = i then 1
      else skipfield g ! j)" if "j < length (skipfield g)" for j
    using that c(2) ends unfolding c(3) by (auto simp: nth_list_update)
  with c show "d = b + 1" "length (skipfield g') = length (skipfield g)"
    "\<And>j. j < length (skipfield g) \<Longrightarrow> skipfield g' ! j =
      (if j = i - a \<or> j = i + b then a + b + 1 else if j = i then 1 else skipfield g ! j)"
    by simp_all
qed

lemma erase_skipblock_frame:
  assumes "erase_skipblock i g = (g', d)"
  shows "g_addr g' = g_addr g" "g_capacity g' = g_capacity g" "g_size g' = g_size g"
    "length (elements g') = length (elements g)"
    "obj (elements g' ! j) = obj (elements g ! j)"
proof -
  have g': "g' = fst (erase_skipblock i g)" using assms by simp
  show "g_addr g' = g_addr g" "g_capacity g' = g_capacity g" "g_size g' = g_size g"
    "length (elements g') = length (elements g)" "obj (elements g' ! j) = obj (elements g ! j)"
    unfolding g' erase_skipblock_def Let_def relink_def [symmetric, unfolded Let_def] by simp_all
qed

lemma erase_skipblock_free:
  assumes ok: "skip_ok (skipfield g) n" and n: "n < SKIP_MAX"
    and i: "i < n" "skipfield g ! i = 0" and len: "length (elements g) = n"
    and fr: "free_ok g" and e: "erase_skipblock i g = (g', d)"
  shows "free_ok g'"
proof -
  let ?sk = "skipfield g"
  define a where "a = (if i = 0 then 0 else ?sk ! (i - 1))"
  define b where "b = ?sk ! (i + 1)"
  have J: "joins ?sk i a b" unfolding a_def b_def by (rule joins_neighbours [OF ok i])
  note fields = erase_skipblock_skip [OF ok n i e, folded a_def b_def]
  have lsk: "length ?sk = n + 1" using ok by (simp add: skip_ok_def)
  have starts: "block_start (skipfield g') s \<longleftrightarrow>
      (if s = i then a = 0 else s \<noteq> i + 1 \<and> block_start ?sk s)" for s
    using block_start_joined [OF fields(2) _ i(2) joins_write(2) [OF ok J fields(2,3)], of s]
      i(1) lsk by (auto simp: a_def)
  have ni: "\<not> block_start ?sk i" using i by (simp add: block_start_def)
  have nb: "block_start ?sk (i + 1) \<longleftrightarrow> b \<noteq> 0"
    using i lsk by (simp add: block_start_def b_def)
  from fr obtain "is" where L: "links_ok (elements g) (free_list_head g) is"
    and S: "set is = {s. block_start ?sk s}" by (auto simp: free_ok_def)
  have A: "?sk ! (i - (if i \<noteq> 0 then 1 else 0)) = a" using i(2) by (auto simp: a_def)
  have B: "?sk ! (i + 1) = b" by (simp add: b_def)
  let ?p = "fl_prev (elements g ! (i + 1))" and ?n = "fl_next (elements g ! (i + 1))"
  consider "a = 0" "b = 0" | "a \<noteq> 0" "b = 0" | "b \<noteq> 0" by blast
  then show ?thesis
  proof cases
    case 1
    have "i \<notin> set is" using S ni by simp
    with L i len have "links_ok (elements g') (free_list_head g') (i # is)"
      using e links_ok_push [OF L] unfolding erase_skipblock_def Let_def A B 1 by auto
    moreover have "set (i # is) = {s. block_start (skipfield g') s}"
      using S 1 nb starts by auto
    ultimately show ?thesis unfolding free_ok_def by blast
  next
    case 2
    have "links_ok (elements g') (free_list_head g') is"
      using e L 2 unfolding erase_skipblock_def Let_def A B by auto
    moreover have "set is = {s. block_start (skipfield g') s}"
      using S 2 nb ni starts by auto
    ultimately show ?thesis unfolding free_ok_def by blast
  next
    case 3
    with nb S have "i + 1 \<in> set is" by simp
    then obtain as bs where dec: "is = as @ (i + 1) # bs" by (auto simp: in_set_conv_decomp)
    with L have dist: "i + 1 \<notin> set (as @ bs)" by (auto simp: links_ok_def)
    have inot: "i \<notin> set (as @ bs)" using S ni dec by auto
    have rest: "s \<in> set (as @ bs) \<longleftrightarrow> s \<noteq> i + 1 \<and> block_start ?sk s" for s
      using S dec dist by auto
    show ?thesis
    proof (cases "a = 0")
      case True
      have "links_ok (elements g') (free_list_head g') (as @ i # bs)"
        using e 3 True links_ok_replace [OF L [unfolded dec] inot _ _ refl refl] i len
        unfolding erase_skipblock_def Let_def A B by (auto simp: relink_def Let_def)
      moreover have "set (as @ i # bs) = {s. block_start (skipfield g') s}"
        using rest starts True by auto
      ultimately show ?thesis unfolding free_ok_def by blast
    next
      case False
      have "links_ok (elements g') (free_list_head g') (as @ bs)"
        using e 3 False links_ok_unlink [OF L [unfolded dec] refl refl]
        unfolding erase_skipblock_def Let_def A B by (auto simp: relink_def Let_def)
      moreover have "set (as @ bs) = {s. block_start (skipfield g') s}"
        using rest starts False inot by auto
      ultimately show ?thesis unfolding free_ok_def by blast
    qed
  qed
qed


lemma erase_skipblock_correct:
  assumes "skip_ok (skipfield g) n" and "n < SKIP_MAX"
    and "i < n" and "skipfield g ! i = 0" and "erase_skipblock i g = (g', d)"
  shows "skip_ok (skipfield g') n"
    and "\<And>j. j \<le> n \<Longrightarrow> skipfield g' ! j \<noteq> 0 \<longleftrightarrow> skipfield g ! j \<noteq> 0 \<or> j = i"
    and "i + d \<le> n" and "skipfield g ! (i + d) = 0"
    and "\<And>j. i < j \<Longrightarrow> j < i + d \<Longrightarrow> skipfield g ! j \<noteq> 0" and "0 < d"
proof -
  note J = joins_neighbours [OF assms(1,3,4)] and fields = erase_skipblock_skip [OF assms]
  have len: "length (skipfield g) = n + 1" using assms(1) by (simp add: skip_ok_def)
  show "skip_ok (skipfield g') n" by (rule joins_write(1) [OF assms(1) J fields(2,3)])
  show "skipfield g' ! j \<noteq> 0 \<longleftrightarrow> skipfield g ! j \<noteq> 0 \<or> j = i" if "j \<le> n" for j
    using joins_write(2) [OF assms(1) J fields(2,3), of j] that len by simp
  from joins_ends [OF J] fields(1) len show "i + d \<le> n" "skipfield g ! (i + d) = 0" "0 < d" by auto
  show "skipfield g ! j \<noteq> 0" if "i < j" "j < i + d" for j
    using joins_dead [OF J, of j] that fields(1) by simp
qed

lemma shrink_skipblock_correct:
  assumes ok: "skip_ok (skipfield g) n" and n: "n < SKIP_MAX" and len: "length (elements g) = n"
    and fr: "free_ok g" and i: "free_list_head g = i" "i \<noteq> SKIP_MAX"
    and p: "p = fl_prev (elements g ! i)"
  defines "g' \<equiv> shrink_skipblock i p g"
  shows "i < n" and "skipfield g ! i \<noteq> 0" and "skip_ok (skipfield g') n" and "free_ok g'"
    and "\<And>j. j \<le> n \<Longrightarrow> skipfield g' ! j \<noteq> 0 \<longleftrightarrow> skipfield g ! j \<noteq> 0 \<and> j \<noteq> i"
    and "free_list_head g' = SKIP_MAX \<longleftrightarrow> sk16 (skipfield g ! i + 65535) = 0 \<and> p = SKIP_MAX"
proof -
  let ?sk = "skipfield g"
  from fr obtain "is" where L: "links_ok (elements g) i is" and S: "set is = {s. block_start ?sk s}"
    by (auto simp: free_ok_def i(1))
  from links_ok_head [OF L] i obtain bs where bs: "is = i # bs" by (cases "is") auto
  with S have st: "block_start ?sk i" by auto
  then have r: "run ?sk i (?sk ! i)" by (rule run_at_start [OF ok])
  define k where "k = ?sk ! i"
  have lsk: "length ?sk = n + 1" using ok by (simp add: skip_ok_def)
  have k: "0 < k" "i + k \<le> n" "k < 65536" "run ?sk i k"
    using r n lsk by (auto simp: run_def k_def SKIP_MAX_def)
  show "i < n" "?sk ! i \<noteq> 0" using k by (auto simp: k_def)
  have nv: "sk16 (?sk ! i + 65535) = k - 1"
  proof -
    have "k + 65535 = (k - 1) + 65536" using k(1) by simp
    then have "(k + 65535) mod 65536 = (k - 1) mod 65536" by (metis mod_add_self2)
    then show ?thesis using k(3) by (simp add: sk16_def k_def [symmetric])
  qed
  have last: "?sk ! (i + k - 1) = k" using skip_okD(2) [OF ok k(4)] .
  have sk': "skipfield g' = (if k = 1 then ?sk[i := 0]
      else ?sk[i + 1 := k - 1, i + (k - 1) := k - 1, i := 0])"
    using k(1) by (auto simp: g'_def shrink_skipblock_def Let_def nv)
  have nz: "?sk ! j \<noteq> 0" if "i \<le> j" "j < i + k" for j using k(4) that by (simp add: run_def)
  have dead: "skipfield g' ! j \<noteq> 0 \<longleftrightarrow> ?sk ! j \<noteq> 0 \<and> j \<noteq> i" if "j < length ?sk" for j
    using that nz [of "i + 1"] nz [of "i + (k - 1)"] k(1,2) lsk by (auto simp: sk' nth_list_update)
  show "skip_ok (skipfield g') n"
  proof (rule skip_ok_shrunk [OF ok k(4) _ dead])
    show "skipfield g' ! j = ?sk ! j" if "j < length ?sk" "j < i \<or> i + k \<le> j" for j
      using that k(1) by (auto simp: sk' nth_list_update)
    show "skipfield g' ! (i + 1) = k - 1 \<and> skipfield g' ! (i + k - 1) = k - 1" if "1 < k"
      using that k(2) lsk by (auto simp: sk' nth_list_update)
  qed (simp_all add: sk')
  show "skipfield g' ! j \<noteq> 0 \<longleftrightarrow> ?sk ! j \<noteq> 0 \<and> j \<noteq> i" if "j \<le> n" for j
    using dead [of j] that lsk by simp
  have starts: "block_start (skipfield g') s \<longleftrightarrow>
      (if s = i + 1 then 1 < k else s \<noteq> i \<and> block_start ?sk s)" for s
  proof (cases "s < length ?sk")
    case True
    note D = dead [OF this]
    from True have D1: "skipfield g' ! (s - 1) \<noteq> 0 \<longleftrightarrow> ?sk ! (s - 1) \<noteq> 0 \<and> s - 1 \<noteq> i"
      by (intro dead) simp
    have len': "length (skipfield g') = length ?sk" by (simp add: sk')
    have nxt: "?sk ! (i + 1) \<noteq> 0 \<longleftrightarrow> 1 < k"
    proof (cases "k = 1")
      case True
      with k(4) show ?thesis by (simp add: run_def)
    qed (use nz [of "i + 1"] k(1) in simp)
    consider "s = i" | "s = i + 1" | "s \<noteq> i" "s \<noteq> i + 1" by blast
    then show ?thesis
    proof cases
      case 2
      with True D D1 nxt len' show ?thesis by (simp add: block_start_def)
    next
      case 3
      then have "s \<noteq> 0 \<Longrightarrow> s - 1 \<noteq> i" by linarith
      with 3 True D D1 len' show ?thesis by (auto simp: block_start_def)
    qed (use D in \<open>simp add: block_start_def\<close>)
  qed (use k lsk in \<open>auto simp: block_start_def sk'\<close>)
  have d: "distinct (i # bs)" "set (i # bs) \<subseteq> {..<n}" using L bs len by (auto simp: links_ok_def)
  have U: "links_ok (relink p SKIP_MAX SKIP_MAX p (elements g)) p bs"
    and nx: "fl_next (elements g ! i) = SKIP_MAX"
  proof -
    from L bs have "links_ok (elements g) i ([] @ i # bs)" by simp
    moreover from L bs show "fl_next (elements g ! i) = SKIP_MAX"
      by (auto simp: links_ok_def free_list_def)
    ultimately show "links_ok (relink p SKIP_MAX SKIP_MAX p (elements g)) p bs"
      using links_ok_unlink [of "elements g" i "[]" i bs] p by simp
  qed
  have rest: "s \<in> set bs \<longleftrightarrow> s \<noteq> i \<and> block_start ?sk s" for s
  proof -
    have "s \<in> set is \<longleftrightarrow> block_start ?sk s" by (simp add: S)
    with bs d(1) show ?thesis by auto
  qed
  have i1: "i + 1 \<notin> set bs" using rest [of "i + 1"] nz [of i] k(1) by (simp add: block_start_def)
  show "free_ok g'"
  proof (cases "k = 1")
    case True
    have "elements g' = relink p SKIP_MAX SKIP_MAX p (elements g)" "free_list_head g' = p"
      unfolding g'_def shrink_skipblock_def Let_def nv using True by (simp_all add: relink_def)
    with U have "links_ok (elements g') (free_list_head g') bs" by simp
    moreover have "set bs = {s. block_start (skipfield g') s}"
      using rest starts True i1 by auto
    ultimately show ?thesis unfolding free_ok_def by blast
  next
    case False
    have h: "sk16 (free_list_head g + 1) = i + 1"
      using i k(2) n by (simp add: sk16_def SKIP_MAX_def)
    have "(if p \<noteq> SKIP_MAX then edit_free_list_next p (i + 1) (relink p SKIP_MAX SKIP_MAX p (elements g))
           else relink p SKIP_MAX SKIP_MAX p (elements g)) =
          (if p \<noteq> SKIP_MAX then edit_free_list_next p (i + 1) (elements g) else elements g)"
      by (cases "p < n") (simp_all add: relink_def Let_def edit_free_list_next_def len list_update_beyond)
    with links_ok_push [OF U i1] k False len
    have "links_ok (elements g') (free_list_head g') ((i + 1) # bs)"
      by (auto simp: g'_def shrink_skipblock_def Let_def nv h simp del: One_nat_def)
    moreover have "set ((i + 1) # bs) = {s. block_start (skipfield g') s}"
      using rest starts False k i1 by auto
    ultimately show ?thesis unfolding free_ok_def by blast
  qed
  show "free_list_head g' = SKIP_MAX \<longleftrightarrow> sk16 (?sk ! i + 65535) = 0 \<and> p = SKIP_MAX"
    using k i n by (auto simp: g'_def shrink_skipblock_def Let_def nv sk16_def SKIP_MAX_def)
qed

lemma shrink_skipblock_frame:
  "g_addr (shrink_skipblock i p g) = g_addr g" "g_capacity (shrink_skipblock i p g) = g_capacity g"
  "g_size (shrink_skipblock i p g) = sk16 (g_size g + 1)"
  "length (elements (shrink_skipblock i p g)) = length (elements g)"
  "obj (elements (shrink_skipblock i p g) ! j) = obj (elements g ! j)"
  by (simp_all add: shrink_skipblock_def Let_def)


end
