(* ===== verification/Bag_Interface.thy ===== *)
theory Bag_Interface
  imports Prelude
begin

text \<open>
  What the order book relies on of the container that holds the orders of a price level: a
  sequence of elements at stable positions. The laws say where an inserted element may
  appear, that erasing removes exactly one element, and that neither operation moves
  another one. The container's model interprets the locale in the theory Hive.
\<close>

section \<open>Containers with stable positions\<close>

locale stable_bag =
  fixes inv :: "'h \<Rightarrow> bool"
    and seq :: "'h \<Rightarrow> ('p \<times> 'a) list"
    and ins :: "'a \<Rightarrow> 'h \<Rightarrow> 'h \<times> 'p"
    and del :: "'p \<Rightarrow> 'h \<Rightarrow> 'h option"
    and get :: "'p \<Rightarrow> 'h \<Rightarrow> 'a option"
    and put :: "'p \<Rightarrow> 'a \<Rightarrow> 'h \<Rightarrow> 'h option"
    and first :: "'h \<Rightarrow> 'p option"
    and is_empty :: "'h \<Rightarrow> bool"
  assumes seq_distinct: "inv h \<Longrightarrow> distinct (map fst (seq h))"
    and ins_inv: "inv h \<Longrightarrow> inv (fst (ins x h))"
    and ins_seq: "inv h \<Longrightarrow> \<exists>xs ys. seq h = xs @ ys \<and> seq (fst (ins x h)) = xs @ (snd (ins x h), x) # ys"
    and del_live: "inv h \<Longrightarrow> p \<in> fst ` set (seq h) \<Longrightarrow>
      \<exists>h'. del p h = Some h' \<and> inv h' \<and> seq h' = filter (\<lambda>q. fst q \<noteq> p) (seq h)"
    and del_dead: "inv h \<Longrightarrow> p \<notin> fst ` set (seq h) \<Longrightarrow> del p h = None"
    and get_seq: "inv h \<Longrightarrow> get p h = map_of (seq h) p"
    and put_live: "inv h \<Longrightarrow> p \<in> fst ` set (seq h) \<Longrightarrow>
      \<exists>h'. put p x h = Some h' \<and> inv h' \<and>
           seq h' = map (\<lambda>q. if fst q = p then (p, x) else q) (seq h)"
    and first_seq: "inv h \<Longrightarrow> first h = (case seq h of [] \<Rightarrow> None | q # _ \<Rightarrow> Some (fst q))"
    and is_empty_seq: "inv h \<Longrightarrow> is_empty h \<longleftrightarrow> seq h = []"
begin

definition elems :: "'h \<Rightarrow> 'a list" where "elems h = map snd (seq h)"

lemma is_empty_elems: "inv h \<Longrightarrow> is_empty h \<longleftrightarrow> elems h = []"
  by (simp add: is_empty_seq elems_def)

lemma ins_fresh:
  assumes "inv h"
  shows "snd (ins x h) \<notin> fst ` set (seq h)"
proof -
  obtain xs ys where "seq h = xs @ ys" "seq (fst (ins x h)) = xs @ (snd (ins x h), x) # ys"
    using ins_seq [OF assms] by blast
  with seq_distinct [OF ins_inv [OF assms], of x] show ?thesis by auto
qed

lemma ins_elems: "inv h \<Longrightarrow> \<exists>xs ys. elems h = xs @ ys \<and> elems (fst (ins x h)) = xs @ x # ys"
  using ins_seq [of h x] unfolding elems_def by fastforce

lemma mset_ins: "inv h \<Longrightarrow> mset (elems (fst (ins x h))) = add_mset x (mset (elems h))"
  using ins_elems [of h x] by auto

lemma ins_not_empty: "inv h \<Longrightarrow> \<not> is_empty (fst (ins x h))"
  using ins_elems [of h x] by (auto simp: is_empty_elems ins_inv)

lemma get_ins:
  assumes "inv h"
  shows "get q (fst (ins x h)) = (if q = snd (ins x h) then Some x else get q h)"
proof -
  obtain xs ys where *: "seq h = xs @ ys" "seq (fst (ins x h)) = xs @ (snd (ins x h), x) # ys"
    using ins_seq [OF assms] by blast
  have "map_of xs (snd (ins x h)) = None"
    using ins_fresh [OF assms, of x] * by (auto simp: map_of_eq_None_iff)
  with * show ?thesis
    by (auto simp: get_seq assms ins_inv map_add_def split: option.splits)
qed

lemma get_del:
  assumes "inv h" and "del p h = Some h'"
  shows "inv h'" and "seq h' = filter (\<lambda>q. fst q \<noteq> p) (seq h)"
    and "get q h' = (if q = p then None else get q h)" and "get p h \<noteq> None"
proof -
  have p: "p \<in> fst ` set (seq h)" using del_dead [OF assms(1), of p] assms(2) by force
  with del_live [OF assms(1) p] assms(2)
  show 1: "inv h'" and 2: "seq h' = filter (\<lambda>q. fst q \<noteq> p) (seq h)" by auto
  from p show "get p h \<noteq> None" by (auto simp: get_seq assms(1) map_of_eq_None_iff)
  have "map_of (filter (\<lambda>q. fst q \<noteq> p) xs) q = (if q = p then None else map_of xs q)" for xs :: "('p \<times> 'a) list"
    by (induction xs) auto
  then show "get q h' = (if q = p then None else get q h)"
    by (simp add: get_seq assms(1) 1 2)
qed

lemma get_some_iff: "inv h \<Longrightarrow> get p h = Some x \<longleftrightarrow> (p, x) \<in> set (seq h)"
  by (simp add: get_seq seq_distinct)

lemma del_defined: "inv h \<Longrightarrow> get p h = Some x \<Longrightarrow> \<exists>h'. del p h = Some h'"
  using del_live [of h p] by (force simp: get_some_iff)

lemma mset_del:
  assumes "inv h" and "get p h = Some x" and "del p h = Some h'"
  shows "mset (elems h) = add_mset x (mset (elems h'))"
proof -
  from assms(1,2) have "(p, x) \<in> set (seq h)" by (simp add: get_some_iff)
  then obtain xs ys where s: "seq h = xs @ (p, x) # ys" by (auto simp: in_set_conv_decomp)
  with seq_distinct [OF assms(1)] have "seq h' = xs @ ys"
    unfolding get_del(2) [OF assms(1,3)] by (simp add: filter_fst_notin)
  with s show ?thesis by (simp add: elems_def)
qed

lemma put_defined: "inv h \<Longrightarrow> get p h \<noteq> None \<Longrightarrow> \<exists>h'. put p x h = Some h' \<and> inv h' \<and>
    seq h' = map (\<lambda>q. if fst q = p then (p, x) else q) (seq h)"
  using put_live [of h p x] by (auto simp: get_some_iff) force

text \<open>The first position: what it holds, and the sequence after its element is changed or erased.\<close>

lemma first_none_iff: "inv h \<Longrightarrow> first h = None \<longleftrightarrow> elems h = []"
  by (auto simp: first_seq elems_def split: list.splits)

lemma first_elems:
  assumes "inv h" and "first h = Some p"
  shows "\<exists>x xs. elems h = x # xs \<and> get p h = Some x"
  using assms by (auto simp: first_seq elems_def get_seq split: list.splits)

lemma put_first:
  assumes "inv h" and "first h = Some p" and "elems h = x # xs"
  shows "\<exists>h'. put p y h = Some h' \<and> inv h' \<and> elems h' = y # xs \<and> first h' = Some p
    \<and> map fst (seq h') = map fst (seq h)"
proof -
  obtain ss where s: "seq h = (p, x) # ss" "map snd ss = xs"
    using assms by (auto simp: first_seq elems_def split: list.splits)
  have "get p h \<noteq> None" by (simp add: get_seq assms(1) s(1))
  then obtain h' where h': "put p y h = Some h'" "inv h'"
    "seq h' = map (\<lambda>q. if fst q = p then (p, y) else q) (seq h)"
    using put_defined [OF assms(1)] by blast
  have "map (\<lambda>q. if fst q = p then (p, y) else q) ss = ss"
    using seq_distinct [OF assms(1)] s(1) by (intro map_idI) force
  with h' s show ?thesis by (auto simp: elems_def first_seq)
qed

lemma del_first:
  assumes "inv h" and "first h = Some p" and "elems h = x # xs"
  shows "\<exists>h'. del p h = Some h' \<and> inv h' \<and> elems h' = xs \<and> seq h' = tl (seq h)"
proof -
  obtain ss where s: "seq h = (p, x) # ss" "map snd ss = xs"
    using assms by (auto simp: first_seq elems_def split: list.splits)
  have "p \<in> fst ` set (seq h)" by (simp add: s(1))
  then obtain h' where "del p h = Some h'" "inv h'" "seq h' = filter (\<lambda>q. fst q \<noteq> p) (seq h)"
    using del_live [OF assms(1)] by blast
  moreover have "filter (\<lambda>q. fst q \<noteq> p) ss = ss"
    using seq_distinct [OF assms(1)] s(1) by (intro filter_fst_notin) auto
  ultimately show ?thesis using s by (auto simp: elems_def)
qed

end

end
