(* ===== verification/Hive.thy ===== *)
theory Hive
  imports Hive_Group Bag_Interface
begin

text \<open>
  The container \<open>plf::hive\<close> (includes/plf_hive.h) built from the groups of \<open>Hive_Group\<close>:
  the operations the order book calls, their invariant, and the proof that they meet the
  container interface \<open>stable_bag\<close>.

  The chain of groups and the two lists of groups the hive keeps (groups with erased slots,
  retained empty groups) are intrusive linked lists in the source and lists here. An
  iterator is the hive, group and slot it points into: the element pointer and the skipfield
  pointer of the source always have the same index. A group is allocated at an address the
  hive has not used before. \<open>None\<close> stands for undefined behaviour: using an iterator
  that points at no element.
\<close>

section \<open>State\<close>

record hive_iterator =
  it_hive :: nat
  it_group :: nat
  it_index :: nat

record 'a hive =
  h_id :: nat
  groups :: "'a group list"
  unused_groups :: "'a group list"
  erasure_groups :: "nat list"
  begin_pos :: "nat \<times> nat"
  end_pos :: "nat \<times> nat"
  total_size :: nat
  total_capacity :: nat
  min_block_capacity :: nat
  max_block_capacity :: nat
  next_addr :: nat

text \<open>
  The default capacity limits depend on the sizes of the hive, of a group and of an element.
\<close>

definition block_capacity_default_max :: nat where
  "block_capacity_default_max = min (min SKIP_MAX 8192) (2 ^ 63 - 1)"

definition block_capacity_default_min :: "nat \<Rightarrow> nat \<Rightarrow> nat \<Rightarrow> nat" where
  "block_capacity_default_min sizeof_hive sizeof_group sizeof_element =
     (let adaptive_size = sk16 ((sizeof_hive + sizeof_group) * 2 div sizeof_element)
      in max 8 (min adaptive_size block_capacity_default_max))"

definition hive_new :: "nat \<Rightarrow> nat \<Rightarrow> nat \<Rightarrow> 'a hive" where
  "hive_new ident mn mx =
     \<lparr> h_id = ident, groups = [], unused_groups = [], erasure_groups = [], begin_pos = (0, 0),
       end_pos = (0, 0), total_size = 0, total_capacity = 0, min_block_capacity = mn,
       max_block_capacity = mx, next_addr = 0 \<rparr>"

section \<open>Following group pointers\<close>

fun find_group :: "nat \<Rightarrow> 'a group list \<Rightarrow> 'a group option" where
  "find_group a [] = None"
| "find_group a (g # gs) = (if g_addr g = a then Some g else find_group a gs)"

fun next_group :: "nat \<Rightarrow> 'a group list \<Rightarrow> 'a group option" where
  "next_group a [] = None"
| "next_group a [g] = None"
| "next_group a (g # n # gs) = (if g_addr g = a then Some n else next_group a (n # gs))"

fun previous_group :: "nat \<Rightarrow> 'a group list \<Rightarrow> 'a group option" where
  "previous_group a [] = None"
| "previous_group a [g] = None"
| "previous_group a (g # n # gs) = (if g_addr n = a then Some g else previous_group a (n # gs))"

definition upd_group :: "'a group \<Rightarrow> 'a group list \<Rightarrow> 'a group list" where
  "upd_group g gs = map (\<lambda>g'. if g_addr g' = g_addr g then g else g') gs"

definition remove_group :: "nat \<Rightarrow> 'a group list \<Rightarrow> 'a group list" where
  "remove_group a gs = filter (\<lambda>g. g_addr g \<noteq> a) gs"

definition iter_at :: "'a hive \<Rightarrow> nat \<times> nat \<Rightarrow> hive_iterator" where
  "iter_at h p = \<lparr> it_hive = h_id h, it_group = fst p, it_index = snd p \<rparr>"

text \<open>The first live slot of a group, as its first skipfield node gives it.\<close>

definition group_front :: "'a group \<Rightarrow> nat \<times> nat" where
  "group_front g = (g_addr g, skipfield g ! 0)"

section \<open>Reading\<close>

definition hive_begin :: "'a hive \<Rightarrow> hive_iterator" where
  "hive_begin h = iter_at h (begin_pos h)"

definition hive_end :: "'a hive \<Rightarrow> hive_iterator" where
  "hive_end h = iter_at h (end_pos h)"

definition hive_empty :: "'a hive \<Rightarrow> bool" where
  "hive_empty h \<longleftrightarrow> total_size h = 0"

definition hive_deref :: "hive_iterator \<Rightarrow> 'a hive \<Rightarrow> 'a option" where
  "hive_deref it h =
     (if it_hive it \<noteq> h_id h then None
      else case find_group (it_group it) (groups h) of
             None \<Rightarrow> None
           | Some g \<Rightarrow> if it_index it < g_capacity g then obj (elements g ! it_index it) else None)"

text \<open>Assigning through a reference to the element.\<close>

definition hive_assign :: "hive_iterator \<Rightarrow> 'a \<Rightarrow> 'a hive \<Rightarrow> 'a hive option" where
  "hive_assign it x h =
     (case hive_deref it h of
        None \<Rightarrow> None
      | Some _ \<Rightarrow>
          (case find_group (it_group it) (groups h) of
             None \<Rightarrow> None
           | Some g \<Rightarrow> Some (h\<lparr> groups := upd_group
               (g\<lparr> elements := construct_element (it_index it) x (elements g) \<rparr>) (groups h) \<rparr>)))"

text \<open>The comparison a loop head makes: \<open>None\<close> when \<open>begin()\<close> equals \<open>end()\<close>.\<close>

definition hive_first :: "'a hive \<Rightarrow> hive_iterator option" where
  "hive_first h = (if hive_begin h = hive_end h then None else Some (hive_begin h))"

definition hive_next :: "hive_iterator \<Rightarrow> 'a hive \<Rightarrow> hive_iterator option" where
  "hive_next it h =
     (case find_group (it_group it) (groups h) of
        None \<Rightarrow> None
      | Some g \<Rightarrow>
          let i = it_index it + 1; i' = i + skipfield g ! i
          in if i' = g_capacity g then
               (case next_group (g_addr g) (groups h) of
                  None \<Rightarrow> Some (iter_at h (g_addr g, i'))
                | Some n \<Rightarrow> Some (iter_at h (group_front n)))
             else Some (iter_at h (g_addr g, i')))"

section \<open>Insertion\<close>

definition insert_into_empty :: "'a \<Rightarrow> 'a hive \<Rightarrow> 'a hive \<times> hive_iterator" where
  "insert_into_empty x h =
     (let a = next_addr h; g = new_group a (min_block_capacity h);
          h1 = h\<lparr> groups := [g\<lparr> elements := construct_element 0 x (elements g) \<rparr>],
                 begin_pos := (a, 0), end_pos := (a, 1), total_size := 1,
                 total_capacity := min_block_capacity h, next_addr := a + 1 \<rparr>
      in (h1, iter_at h1 (a, 0)))"

definition insert_at_end :: "'a \<Rightarrow> 'a group \<Rightarrow> 'a hive \<Rightarrow> 'a hive \<times> hive_iterator" where
  "insert_at_end x g h =
     (let i = snd (end_pos h);
          g1 = g\<lparr> elements := construct_element i x (elements g), g_size := sk16 (g_size g + 1) \<rparr>;
          h1 = h\<lparr> groups := upd_group g1 (groups h), end_pos := (g_addr g, i + 1),
                 total_size := total_size h + 1 \<rparr>
      in (h1, iter_at h (end_pos h)))"

definition insert_in_new_group :: "'a \<Rightarrow> 'a hive \<Rightarrow> 'a hive \<times> hive_iterator" where
  "insert_in_new_group x h =
     (let (n, h1) =
        (case unused_groups h of
           [] \<Rightarrow>
             let new_group_size = sk16 (min (total_size h) (max_block_capacity h))
             in (new_group (next_addr h) new_group_size,
                 h\<lparr> next_addr := next_addr h + 1,
                    total_capacity := total_capacity h + new_group_size \<rparr>)
         | u # us \<Rightarrow> (group_reset 1 u, h\<lparr> unused_groups := us \<rparr>));
          n1 = n\<lparr> elements := construct_element 0 x (elements n) \<rparr>;
          h2 = h1\<lparr> groups := groups h1 @ [n1], end_pos := (g_addr n, 1),
                  total_size := total_size h1 + 1 \<rparr>
      in (h2, iter_at h2 (g_addr n, 0)))"

definition update_skipblock :: "nat \<Rightarrow> nat \<Rightarrow> 'a group \<Rightarrow> 'a hive \<Rightarrow> 'a hive" where
  "update_skipblock i prev_free_list_index g h =
     (let g1 = shrink_skipblock i prev_free_list_index g;
          removed = sk16 (skipfield g ! i + 65535) = 0 \<and> prev_free_list_index = SKIP_MAX
      in h\<lparr> groups := upd_group g1 (groups h),
            erasure_groups := (if removed then tl (erasure_groups h) else erasure_groups h),
            begin_pos := (if g_addr g = fst (begin_pos h) \<and> i < snd (begin_pos h)
                          then (g_addr g, i) else begin_pos h),
            total_size := total_size h + 1 \<rparr>)"

definition insert_in_erased :: "'a \<Rightarrow> 'a group \<Rightarrow> 'a hive \<Rightarrow> 'a hive \<times> hive_iterator" where
  "insert_in_erased x g h =
     (let i = free_list_head g;
          prev_free_list_index = fl_prev (elements g ! i);
          g1 = g\<lparr> elements := construct_element i x (elements g) \<rparr>
      in (update_skipblock i prev_free_list_index g1 h, iter_at h (g_addr g, i)))"

definition hive_insert :: "'a \<Rightarrow> 'a hive \<Rightarrow> 'a hive \<times> hive_iterator" where
  "hive_insert x h =
     (case find_group (fst (end_pos h)) (groups h) of
        None \<Rightarrow> insert_into_empty x h
      | Some last_group \<Rightarrow>
          (case erasure_groups h of
             [] \<Rightarrow> if snd (end_pos h) \<noteq> g_capacity last_group
                   then insert_at_end x last_group h
                   else insert_in_new_group x h
           | e # _ \<Rightarrow>
               (case find_group e (groups h) of
                  None \<Rightarrow> insert_into_empty x h
                | Some g \<Rightarrow> insert_in_erased x g h)))"

section \<open>Erasure\<close>

definition remove_from_groups_with_erasures_list :: "nat \<Rightarrow> 'a hive \<Rightarrow> 'a hive" where
  "remove_from_groups_with_erasures_list a h =
     h\<lparr> erasure_groups := filter (\<lambda>b. b \<noteq> a) (erasure_groups h) \<rparr>"

definition reset_only_group_left :: "'a group \<Rightarrow> 'a hive \<Rightarrow> 'a hive" where
  "reset_only_group_left g h =
     h\<lparr> erasure_groups := [], groups := [group_reset 0 g],
        begin_pos := (g_addr g, 0), end_pos := (g_addr g, 0) \<rparr>"

definition add_group_to_unused_groups_list :: "'a group \<Rightarrow> 'a hive \<Rightarrow> 'a hive" where
  "add_group_to_unused_groups_list g h = h\<lparr> unused_groups := g # unused_groups h \<rparr>"

text \<open>\<open>g\<close> is the group whose slot \<open>i\<close> has been destroyed and which still holds elements.\<close>

definition erase_in_group :: "nat \<Rightarrow> 'a group \<Rightarrow> 'a hive \<Rightarrow> 'a hive \<times> (nat \<times> nat)" where
  "erase_in_group i g h =
     (let alone = \<not> (skipfield g ! (i - (if i \<noteq> 0 then 1 else 0)) \<noteq> 0 \<or> skipfield g ! (i + 1) \<noteq> 0);
          (g1, update_value) = erase_skipblock i g;
          er = (if alone \<and> free_list_head g = SKIP_MAX then g_addr g # erasure_groups h
                else erasure_groups h);
          ret = (if i + update_value = g_capacity g \<and> g_addr g \<noteq> fst (end_pos h)
                 then (case next_group (g_addr g) (groups h) of
                         None \<Rightarrow> (g_addr g, i + update_value)
                       | Some n \<Rightarrow> group_front n)
                 else (g_addr g, i + update_value))
      in (h\<lparr> groups := upd_group g1 (groups h), erasure_groups := er,
             begin_pos := (if (g_addr g, i) = begin_pos h then ret else begin_pos h) \<rparr>, ret))"

text \<open>\<open>g\<close> is the group whose only element has been destroyed.\<close>

definition erase_empty_group :: "'a group \<Rightarrow> 'a hive \<Rightarrow> 'a hive \<times> (nat \<times> nat)" where
  "erase_empty_group g h =
     (let a = g_addr g;
          in_front_block = (a = fst (begin_pos h));
          listed = (free_list_head g \<noteq> SKIP_MAX);
          unlist = (\<lambda>h'. if listed then remove_from_groups_with_erasures_list a h' else h')
      in case next_group a (groups h) of
           None \<Rightarrow>
             if in_front_block then
               let h1 = reset_only_group_left g h in (h1, end_pos h1)
             else
               (case previous_group a (groups h) of
                  None \<Rightarrow> (h, end_pos h)
                | Some p \<Rightarrow>
                    let h1 = add_group_to_unused_groups_list g
                               (unlist (h\<lparr> groups := remove_group a (groups h),
                                           end_pos := (g_addr p, g_capacity p) \<rparr>))
                    in (h1, end_pos h1))
         | Some n \<Rightarrow>
             if in_front_block then
               (unlist (h\<lparr> groups := remove_group a (groups h), begin_pos := group_front n,
                           total_capacity := total_capacity h - g_capacity g \<rparr>), group_front n)
             else
               let h1 = unlist (h\<lparr> groups := remove_group a (groups h) \<rparr>);
                   h2 = (if g_addr n \<noteq> fst (end_pos h)
                         then h1\<lparr> total_capacity := total_capacity h1 - g_capacity g \<rparr>
                         else add_group_to_unused_groups_list g h1)
               in (h2, group_front n))"

definition hive_erase :: "hive_iterator \<Rightarrow> 'a hive \<Rightarrow> ('a hive \<times> hive_iterator) option" where
  "hive_erase it h =
     (case hive_deref it h of
        None \<Rightarrow> None
      | Some _ \<Rightarrow>
          (case find_group (it_group it) (groups h) of
             None \<Rightarrow> None
           | Some g \<Rightarrow>
               let i = it_index it;
                   g1 = g\<lparr> elements := destroy_element i (elements g),
                          g_size := sk16 (g_size g + 65535) \<rparr>;
                   h1 = h\<lparr> groups := upd_group g1 (groups h), total_size := total_size h - 1 \<rparr>;
                   (h2, ret) = (if g_size g1 \<noteq> 0 then erase_in_group i g1 h1
                                else erase_empty_group g1 h1)
               in Some (h2, iter_at h2 ret)))"

definition hive_del :: "hive_iterator \<Rightarrow> 'a hive \<Rightarrow> 'a hive option" where
  "hive_del it h = map_option fst (hive_erase it h)"

section \<open>The elements of a hive, in iteration order\<close>

fun live_from :: "nat \<Rightarrow> nat \<Rightarrow> nat \<Rightarrow> 'a slot list \<Rightarrow> (hive_iterator \<times> 'a) list" where
  "live_from ident a i [] = []"
| "live_from ident a i (s # ss) =
     (case obj s of None \<Rightarrow> [] | Some x \<Rightarrow> [(\<lparr> it_hive = ident, it_group = a, it_index = i \<rparr>, x)])
     @ live_from ident a (Suc i) ss"

definition group_seq :: "nat \<Rightarrow> 'a group \<Rightarrow> (hive_iterator \<times> 'a) list" where
  "group_seq ident g = live_from ident (g_addr g) 0 (elements g)"

definition hive_seq :: "'a hive \<Rightarrow> (hive_iterator \<times> 'a) list" where
  "hive_seq h = concat (map (group_seq (h_id h)) (groups h))"

definition live_count :: "'a slot list \<Rightarrow> nat" where
  "live_count els = length (filter (\<lambda>s. obj s \<noteq> None) els)"

lemma live_from_append:
  "live_from ident a i (xs @ ys) = live_from ident a i xs @ live_from ident a (i + length xs) ys"
  by (induction xs arbitrary: i) auto

lemma length_live_from: "length (live_from ident a i els) = live_count els"
  by (induction els arbitrary: i) (auto simp: live_count_def split: option.splits)

lemma live_from_cong:
  "map obj xs = map obj ys \<Longrightarrow> live_from ident a i xs = live_from ident a i ys"
proof (induction xs arbitrary: ys i)
  case (Cons x xs)
  then obtain y ys' where "ys = y # ys'" "obj y = obj x" "map obj xs = map obj ys'" by (cases ys) auto
  with Cons.IH [of ys'] show ?case by simp
qed simp

lemma live_count_cong: "map obj xs = map obj ys \<Longrightarrow> live_count xs = live_count ys"
  using live_from_cong [of xs ys 0 0 0] length_live_from by metis

lemma in_live_from:
  "(p, x) \<in> set (live_from ident a i els) \<longleftrightarrow>
     (\<exists>j < length els. p = \<lparr> it_hive = ident, it_group = a, it_index = i + j \<rparr> \<and> obj (els ! j) = Some x)"
proof (induction els arbitrary: i)
  case (Cons s els)
  have *: "(\<exists>j < Suc (length els). P j) \<longleftrightarrow> P 0 \<or> (\<exists>j < length els. P (Suc j))" for P
    by (metis less_Suc_eq_0_disj)
  show ?case by (auto simp: Cons * split: option.splits)
qed simp

lemma distinct_live_from: "distinct (map fst (live_from ident a i els))"
proof (induction els arbitrary: i)
  case (Cons s els)
  have "\<lparr> it_hive = ident, it_group = a, it_index = i \<rparr> \<notin> fst ` set (live_from ident a (Suc i) els)"
    by (auto simp: in_live_from)
  with Cons show ?case by (auto split: option.splits)
qed simp

text \<open>Changing the object of one slot.\<close>

definition slot_seq :: "hive_iterator \<Rightarrow> 'a option \<Rightarrow> (hive_iterator \<times> 'a) list" where
  "slot_seq p o1 = (case o1 of None \<Rightarrow> [] | Some x \<Rightarrow> [(p, x)])"

lemma live_from_slot:
  assumes "j < length els" and "map obj els' = map obj (els[j := s])"
  shows "\<exists>xs ys.
      live_from ident a i els =
        xs @ slot_seq \<lparr> it_hive = ident, it_group = a, it_index = i + j \<rparr> (obj (els ! j)) @ ys
      \<and> live_from ident a i els' =
        xs @ slot_seq \<lparr> it_hive = ident, it_group = a, it_index = i + j \<rparr> (obj s) @ ys"
proof -
  let ?xs = "live_from ident a i (take j els)"
  let ?ys = "live_from ident a (i + Suc j) (drop (Suc j) els)"
  from assms(1) have t: "length (take j els) = j" by simp
  have "live_from ident a i els = live_from ident a i (take j els @ els ! j # drop (Suc j) els)"
    using split_at_nth [OF assms(1)] by simp
  then have 1: "live_from ident a i els = ?xs @ live_from ident a (i + j) (els ! j # drop (Suc j) els)"
    by (simp only: live_from_append t)
  have "live_from ident a i els' = live_from ident a i (take j els @ s # drop (Suc j) els)"
    using live_from_cong [OF assms(2)] update_at_split [OF assms(1)] by simp
  then have 2: "live_from ident a i els' = ?xs @ live_from ident a (i + j) (s # drop (Suc j) els)"
    by (simp only: live_from_append t)
  from 1 2 show ?thesis
    by (intro exI [of _ ?xs] exI [of _ ?ys]) (simp add: slot_seq_def split: option.splits)
qed

lemma live_count_slot:
  assumes "j < length els" and "map obj els' = map obj (els[j := s])"
  shows "live_count els' + (if obj (els ! j) = None then 0 else 1) =
         live_count els + (if obj s = None then 0 else 1)"
  using live_from_slot [OF assms, of 0 0 0] length_live_from [of 0 0 0 els] length_live_from [of 0 0 0 els']
  by (auto simp: slot_seq_def split: option.splits)

section \<open>The invariant\<close>

text \<open>\<open>group_inv u g\<close>: the first \<open>u\<close> slots of \<open>g\<close> have been used; those not erased hold an object.\<close>

definition group_inv :: "nat \<Rightarrow> 'a group \<Rightarrow> bool" where
  "group_inv u g \<longleftrightarrow> 0 < g_capacity g \<and> g_capacity g < SKIP_MAX \<and> u \<le> g_capacity g
     \<and> length (elements g) = g_capacity g \<and> skip_ok (skipfield g) (g_capacity g) \<and> free_ok g
     \<and> (\<forall>i < g_capacity g. obj (elements g ! i) = None \<longleftrightarrow> skipfield g ! i \<noteq> 0 \<or> u \<le> i)
     \<and> (\<forall>i < g_capacity g. u \<le> i \<longrightarrow> skipfield g ! i = 0)
     \<and> g_size g = live_count (elements g)"

definition unused_ok :: "'a group \<Rightarrow> bool" where
  "unused_ok g \<longleftrightarrow> 0 < g_capacity g \<and> g_capacity g < SKIP_MAX
     \<and> length (elements g) = g_capacity g \<and> length (skipfield g) = g_capacity g + 1
     \<and> skipfield g ! g_capacity g = 0 \<and> (\<forall>s \<in> set (elements g). obj s = None)"

definition front_ok :: "nat \<Rightarrow> 'a group \<Rightarrow> bool" where
  "front_ok b g \<longleftrightarrow> (if g_size g = 0 then b = 0
     else b < g_capacity g \<and> obj (elements g ! b) \<noteq> None \<and> (\<forall>j < b. obj (elements g ! j) = None))"

definition used :: "'a hive \<Rightarrow> 'a group \<Rightarrow> nat" where
  "used h g = (if g_addr g = fst (end_pos h) then snd (end_pos h) else g_capacity g)"

definition chain_ok :: "'a hive \<Rightarrow> bool" where
  "chain_ok h \<longleftrightarrow> groups h \<noteq> []
     \<and> (\<forall>g \<in> set (groups h). group_inv (used h g) g)
     \<and> (\<forall>g \<in> set (groups h). g_size g = 0 \<longrightarrow> groups h = [g] \<and> snd (end_pos h) = 0)
     \<and> fst (end_pos h) = g_addr (last (groups h))
     \<and> fst (begin_pos h) = g_addr (hd (groups h)) \<and> front_ok (snd (begin_pos h)) (hd (groups h))"

definition hive_inv :: "'a hive \<Rightarrow> bool" where
  "hive_inv h \<longleftrightarrow> 0 < min_block_capacity h \<and> min_block_capacity h \<le> max_block_capacity h
     \<and> max_block_capacity h < SKIP_MAX
     \<and> distinct (map g_addr (groups h @ unused_groups h))
     \<and> (\<forall>g \<in> set (groups h @ unused_groups h). g_addr g < next_addr h)
     \<and> (\<forall>g \<in> set (unused_groups h). unused_ok g)
     \<and> total_size h = sum_list (map g_size (groups h))
     \<and> distinct (erasure_groups h)
     \<and> set (erasure_groups h) = g_addr ` {g \<in> set (groups h). free_list_head g \<noteq> SKIP_MAX}
     \<and> (if groups h = [] then unused_groups h = [] \<and> begin_pos h = end_pos h else chain_ok h)"


section \<open>Group operations and the invariant\<close>

lemma skip_ok_zero: "length sk = n + 1 \<Longrightarrow> (\<And>j. j \<le> n \<Longrightarrow> sk ! j = 0) \<Longrightarrow> skip_ok sk n"
  by (auto simp: skip_ok_def run_def)

lemma free_ok_zero:
  assumes "\<And>j. j < length (skipfield g) \<Longrightarrow> skipfield g ! j = 0"
    and "free_list_head g = SKIP_MAX" and "length (elements g) < SKIP_MAX"
  shows "free_ok g"
  using assms unfolding free_ok_def
  by (intro exI [of _ "[]"]) (auto simp: links_ok_def free_list_def block_start_def)

lemma free_ok_obj:
  assumes "free_ok g" and "skipfield g' = skipfield g" and "free_list_head g' = free_list_head g"
    and "length (elements g') = length (elements g)"
    and "\<And>i. fl_prev (elements g' ! i) = fl_prev (elements g ! i) \<and> fl_next (elements g' ! i) = fl_next (elements g ! i)"
  shows "free_ok g'"
proof -
  from assms(1) obtain "is" where "links_ok (elements g) (free_list_head g) is"
    "set is = {s. block_start (skipfield g) s}" by (auto simp: free_ok_def)
  moreover have "fl_seg (elements g') a b is c d \<longleftrightarrow> fl_seg (elements g) a b is c d" for a b c d
    by (intro fl_seg_cong assms(5))
  ultimately have "links_ok (elements g') (free_list_head g') is"
    by (simp add: links_ok_def free_list_def assms(3,4))
  with assms(2) \<open>set is = _\<close> show ?thesis by (auto simp: free_ok_def)
qed

lemma links_construct [simp]:
  "fl_prev (construct_element i x els ! j) = fl_prev (els ! j)"
  "fl_next (construct_element i x els ! j) = fl_next (els ! j)"
  "fl_prev (destroy_element i els ! j) = fl_prev (els ! j)"
  "fl_next (destroy_element i els ! j) = fl_next (els ! j)"
  by (cases "i < length els"; cases "i = j";
      simp add: construct_element_def destroy_element_def list_update_beyond)+

lemma obj_construct: "i < length els \<Longrightarrow> j < length els \<Longrightarrow>
    obj (construct_element i x els ! j) = (if j = i then Some x else obj (els ! j))"
  by (simp add: construct_element_def nth_list_update)

lemma obj_destroy: "i < length els \<Longrightarrow> j < length els \<Longrightarrow>
    obj (destroy_element i els ! j) = (if j = i then None else obj (els ! j))"
  by (simp add: destroy_element_def nth_list_update)

lemma live_count_construct:
  "i < length els \<Longrightarrow> obj (els ! i) = None \<Longrightarrow> live_count (construct_element i x els) = live_count els + 1"
  using live_count_slot [of i els "construct_element i x els" "(els ! i)\<lparr> obj := Some x \<rparr>"]
  by (simp add: construct_element_def)

lemma live_count_destroy:
  "i < length els \<Longrightarrow> obj (els ! i) \<noteq> None \<Longrightarrow> live_count (destroy_element i els) + 1 = live_count els"
  using live_count_slot [of i els "destroy_element i els" "(els ! i)\<lparr> obj := None \<rparr>"]
  by (auto simp: destroy_element_def)

lemma live_count_le: "live_count els \<le> length els"
  by (simp add: live_count_def)

lemma live_count_0_iff: "live_count els = 0 \<longleftrightarrow> (\<forall>i < length els. obj (els ! i) = None)"
  by (simp add: live_count_def filter_empty_conv all_set_conv_all_nth)

lemma group_invI:
  assumes "0 < g_capacity g" and "g_capacity g < SKIP_MAX" and "u \<le> g_capacity g"
    and "length (elements g) = g_capacity g" and "skip_ok (skipfield g) (g_capacity g)" and "free_ok g"
    and "\<And>i. i < g_capacity g \<Longrightarrow> obj (elements g ! i) = None \<longleftrightarrow> skipfield g ! i \<noteq> 0 \<or> u \<le> i"
    and "\<And>i. i < g_capacity g \<Longrightarrow> u \<le> i \<Longrightarrow> skipfield g ! i = 0"
    and "g_size g = live_count (elements g)"
  shows "group_inv u g"
  using assms by (simp add: group_inv_def)

lemma group_invD:
  assumes "group_inv u g"
  shows "0 < g_capacity g" "g_capacity g < SKIP_MAX" "u \<le> g_capacity g"
    "length (elements g) = g_capacity g" "skip_ok (skipfield g) (g_capacity g)" "free_ok g"
    "\<And>i. i < g_capacity g \<Longrightarrow> obj (elements g ! i) = None \<longleftrightarrow> skipfield g ! i \<noteq> 0 \<or> u \<le> i"
    "\<And>i. i < g_capacity g \<Longrightarrow> u \<le> i \<Longrightarrow> skipfield g ! i = 0"
    "g_size g = live_count (elements g)"
  using assms by (auto simp: group_inv_def)

lemma group_inv_fresh:
  assumes "length (elements g) = g_capacity g" and "0 < g_capacity g" and "g_capacity g < SKIP_MAX"
    and "length (skipfield g) = g_capacity g + 1" and "\<And>j. j \<le> g_capacity g \<Longrightarrow> skipfield g ! j = 0"
    and "free_list_head g = SKIP_MAX" and "g_size g = 1"
    and "\<And>j. j < g_capacity g \<Longrightarrow> obj (elements g ! j) = None"
  shows "group_inv 1 (g\<lparr> elements := construct_element 0 x (elements g) \<rparr>)"
proof -
  have "live_count (elements g) = 0" using assms(1,8) by (simp add: live_count_0_iff)
  then have "live_count (construct_element 0 x (elements g)) = 1"
    using live_count_construct [of 0 "elements g" x] assms(1,2,8) by simp
  note c = this
  let ?g = "g\<lparr> elements := construct_element 0 x (elements g) \<rparr>"
  show ?thesis
  proof (rule group_invI)
    show "skip_ok (skipfield ?g) (g_capacity ?g)" using assms(4,5) by (simp add: skip_ok_zero)
    show "free_ok ?g" using assms by (intro free_ok_zero) auto
    show "obj (elements ?g ! i) = None \<longleftrightarrow> skipfield ?g ! i \<noteq> 0 \<or> 1 \<le> i" if "i < g_capacity ?g" for i
      using that assms(1,2,5,8) by (auto simp: obj_construct)
  qed (use assms c in simp_all)
qed

lemma group_inv_new:
  "0 < n \<Longrightarrow> n < SKIP_MAX \<Longrightarrow>
   group_inv 1 ((new_group a n)\<lparr> elements := construct_element 0 x (elements (new_group a n)) \<rparr>)"
  by (intro group_inv_fresh) (auto simp: new_group_def nth_Cons')

lemma group_inv_reuse:
  assumes "unused_ok g"
  shows "group_inv 1 ((group_reset 1 g)\<lparr> elements := construct_element 0 x (elements (group_reset 1 g)) \<rparr>)"
proof (intro group_inv_fresh)
  have l: "length (skipfield g) = g_capacity g + 1" "skipfield g ! g_capacity g = 0"
    using assms by (auto simp: unused_ok_def)
  then have "drop (g_capacity g) (skipfield g) = [0]"
    by (metis Cons_nth_drop_Suc Suc_eq_plus1 drop_all le_refl lessI)
  then show "skipfield (group_reset 1 g) ! j = 0" if "j \<le> g_capacity (group_reset 1 g)" for j
    using that by (auto simp: group_reset_def nth_append)
qed (use assms in \<open>auto simp: group_reset_def unused_ok_def\<close>)

lemma group_inv_append:
  assumes "group_inv u g" and "u < g_capacity g"
  shows "group_inv (u + 1) (g\<lparr> elements := construct_element u x (elements g), g_size := sk16 (g_size g + 1) \<rparr>)"
proof -
  have n: "obj (elements g ! u) = None" and len: "length (elements g) = g_capacity g"
    using assms by (auto simp: group_inv_def)
  then have "sk16 (g_size g + 1) = live_count (construct_element u x (elements g))"
    using assms live_count_construct [of u "elements g" x] live_count_le [of "elements g"]
    by (simp add: group_inv_def sk16_def SKIP_MAX_def)
  note c = this
  note I = group_invD [OF assms(1)]
  let ?g = "g\<lparr> elements := construct_element u x (elements g), g_size := sk16 (g_size g + 1) \<rparr>"
  show ?thesis
  proof (rule group_invI)
    show "free_ok ?g" using I(6) by (rule free_ok_obj) simp_all
    show "obj (elements ?g ! i) = None \<longleftrightarrow> skipfield ?g ! i \<noteq> 0 \<or> u + 1 \<le> i" if "i < g_capacity ?g" for i
    proof -
      have "obj (elements ?g ! i) = (if i = u then Some x else obj (elements g ! i))"
        using that assms(2) I(4) by (simp add: obj_construct)
      moreover have "skipfield g ! u = 0" using assms(2) by (intro I(8)) simp_all
      moreover have "obj (elements g ! i) = None \<longleftrightarrow> skipfield g ! i \<noteq> 0 \<or> u \<le> i"
        using that by (intro I(7)) simp
      ultimately show ?thesis by (cases "i = u") (simp, simp, linarith)
    qed
  qed (use assms(2) c I(1-5) I(8) in simp_all)
qed

lemma group_inv_assign:
  assumes "group_inv u g" and "i < g_capacity g" and "obj (elements g ! i) \<noteq> None"
  shows "group_inv u (g\<lparr> elements := construct_element i x (elements g) \<rparr>)"
proof -
  have len: "length (elements g) = g_capacity g" using assms by (simp add: group_inv_def)
  have "live_count (construct_element i x (elements g)) = live_count (elements g)"
    using assms live_count_slot [of i "elements g" "construct_element i x (elements g)"
      "(elements g ! i)\<lparr> obj := Some x \<rparr>"] len
    by (auto simp: construct_element_def)
  note c = this
  note I = group_invD [OF assms(1)]
  let ?g = "g\<lparr> elements := construct_element i x (elements g) \<rparr>"
  show ?thesis
  proof (rule group_invI)
    show "free_ok ?g" using I(6) by (rule free_ok_obj) simp_all
    show "obj (elements ?g ! j) = None \<longleftrightarrow> skipfield ?g ! j \<noteq> 0 \<or> u \<le> j" if "j < g_capacity ?g" for j
    proof -
      have "obj (elements ?g ! j) = (if j = i then Some x else obj (elements g ! j))"
        using that assms(2) I(4) by (simp add: obj_construct)
      with I(7) [of j] that assms(2,3) show ?thesis by (cases "j = i") simp_all
    qed
  qed (use assms(2) c I(1-5) I(8,9) in simp_all)
qed


lemma free_head_iff:
  assumes "free_ok g" and "length (skipfield g) = n + 1" and "skipfield g ! n = 0"
  shows "free_list_head g \<noteq> SKIP_MAX \<longleftrightarrow> (\<exists>j < n. skipfield g ! j \<noteq> 0)"
proof -
  from assms(1) obtain "is" where L: "links_ok (elements g) (free_list_head g) is"
    "set is = {s. block_start (skipfield g) s}" by (auto simp: free_ok_def)
  have "free_list_head g \<noteq> SKIP_MAX \<longleftrightarrow> (\<exists>s. block_start (skipfield g) s)"
    using links_ok_head(2) [OF L(1)] L(2) by (cases "is") auto
  also have "\<dots> \<longleftrightarrow> (\<exists>j < n. skipfield g ! j \<noteq> 0)"
  proof
    assume "\<exists>s. block_start (skipfield g) s"
    then obtain s where "s < n + 1" "skipfield g ! s \<noteq> 0" by (auto simp: block_start_def assms(2))
    with assms(3) show "\<exists>j < n. skipfield g ! j \<noteq> 0" by (intro exI [of _ s]) (auto simp: less_Suc_eq)
  next
    assume "\<exists>j < n. skipfield g ! j \<noteq> 0"
    then show "\<exists>s. block_start (skipfield g) s"
      using start_of_dead [of _ "skipfield g"] assms(2) by (metis Suc_eq_plus1 less_SucI)
  qed
  finally show ?thesis .
qed

lemma group_free_head:
  assumes "group_inv u g"
  shows "free_list_head g \<noteq> SKIP_MAX \<longleftrightarrow> (\<exists>j < g_capacity g. skipfield g ! j \<noteq> 0)"
  using free_head_iff [of g "g_capacity g"] group_invD(5,6) [OF assms] by (simp add: skip_ok_def)

lemma group_inv_erase:
  assumes g: "group_inv u g" and i: "i < g_capacity g" "obj (elements g ! i) \<noteq> None"
    and g1: "g1 = g\<lparr> elements := destroy_element i (elements g), g_size := sk16 (g_size g + 65535) \<rparr>"
    and e: "erase_skipblock i g1 = (g2, d)"
  shows "group_inv u g2" and "g_size g2 + 1 = g_size g"
    and "\<And>j. j < g_capacity g \<Longrightarrow> obj (elements g2 ! j) = (if j = i then None else obj (elements g ! j))"
    and "g_addr g2 = g_addr g" and "g_capacity g2 = g_capacity g" and "free_list_head g2 \<noteq> SKIP_MAX"
    and "i < u" and "i + d \<le> u" and "0 < d" and "\<And>j. i < j \<Longrightarrow> j < i + d \<Longrightarrow> obj (elements g ! j) = None"
    and "i + d < u \<Longrightarrow> obj (elements g ! (i + d)) \<noteq> None" and "g_size g1 + 1 = g_size g"
proof -
  note I = group_invD [OF g]
  have sk: "skipfield g1 = skipfield g" "free_list_head g1 = free_list_head g" "g_capacity g1 = g_capacity g"
    "length (elements g1) = g_capacity g" "g_addr g1 = g_addr g"
    by (simp_all add: g1 I(4))
  have live: "skipfield g ! i = 0" "i < u" using I(7) [OF i(1)] i(2) by auto
  then show "i < u" by simp
  have f1: "free_ok g1" by (rule free_ok_obj [OF I(6)]) (simp_all add: g1)
  have C: "skip_ok (skipfield g1) (g_capacity g)" "skipfield g1 ! i = 0" using I(5) live sk by simp_all
  note K = erase_skipblock_correct [OF C(1) I(2) i(1) C(2) e, unfolded sk]
  have F: "g_addr g2 = g_addr g" "g_capacity g2 = g_capacity g" "g_size g2 = g_size g1"
    "length (elements g2) = g_capacity g" "obj (elements g2 ! j) = obj (elements g1 ! j)" for j
    using erase_skipblock_frame [OF e] sk by simp_all
  then show "g_addr g2 = g_addr g" "g_capacity g2 = g_capacity g" by simp_all
  have cnt: "live_count (destroy_element i (elements g)) + 1 = live_count (elements g)"
    using i I(4) by (intro live_count_destroy) auto
  have "g_size g + 65535 = live_count (destroy_element i (elements g)) + 65536"
    using cnt I(9) by simp
  then have "sk16 (g_size g + 65535) = live_count (destroy_element i (elements g)) mod 65536"
    unfolding sk16_def by (metis mod_add_self2)
  then have size1: "g_size g1 = live_count (destroy_element i (elements g))"
    using live_count_le [of "destroy_element i (elements g)"] I(2,4) by (simp add: g1 SKIP_MAX_def)
  with cnt I(9) show s1: "g_size g1 + 1 = g_size g" by simp
  then show "g_size g2 + 1 = g_size g" using F by simp
  show o: "obj (elements g2 ! j) = (if j = i then None else obj (elements g ! j))" if "j < g_capacity g" for j
    using that i I(4) F(5) by (simp add: g1 obj_destroy)
  have used: "j < u" if "skipfield g ! j \<noteq> 0" "j < g_capacity g" for j
    using I(8) [OF that(2)] that(1) by fastforce
  show "group_inv u g2"
  proof (rule group_invI)
    show "free_ok g2"
      by (rule erase_skipblock_free [OF C(1) I(2) i(1) C(2) sk(4) f1 e])
    show "obj (elements g2 ! j) = None \<longleftrightarrow> skipfield g2 ! j \<noteq> 0 \<or> u \<le> j" if "j < g_capacity g2" for j
      using o [of j] K(2) [of j] I(7) [of j] that F(2) by auto
    show "skipfield g2 ! j = 0" if "j < g_capacity g2" "u \<le> j" for j
      using K(2) [of j] I(8) [of j] that F(2) live by auto
    have "map obj (elements g2) = map obj (elements g1)"
      using F sk by (intro nth_equalityI) simp_all
    then have "live_count (elements g2) = live_count (elements g1)" by (rule live_count_cong)
    then show "g_size g2 = live_count (elements g2)" using F(3) size1 by (simp add: g1)
  qed (use I(1-3) F K(1) in simp_all)
  from group_free_head [OF this] show "free_list_head g2 \<noteq> SKIP_MAX"
    using K(2) [of i] i F(2) by auto
  have dead: "skipfield g ! j \<noteq> 0" if "i < j" "j < i + d" for j using K(5) that by simp
  show "0 < d" using K(6) .
  show du: "i + d \<le> u"
  proof (cases "d = 1")
    case False
    with K(6) have "i < i + d - 1" "i + d - 1 < i + d" by linarith+
    with dead [of "i + d - 1"] used [of "i + d - 1"] K(3) show ?thesis by linarith
  qed (use live(2) in simp)
  show "obj (elements g ! j) = None" if "i < j" "j < i + d" for j
    using dead [OF that] I(7) [of j] that K(3) by simp
  show "obj (elements g ! (i + d)) \<noteq> None" if "i + d < u"
    using K(4) I(3) I(7) [of "i + d"] that by simp
qed

lemma group_inv_shrink:
  assumes g: "group_inv u g" and i: "free_list_head g = i" "i \<noteq> SKIP_MAX"
    and g1: "g1 = g\<lparr> elements := construct_element i x (elements g) \<rparr>"
    and g2: "g2 = shrink_skipblock i (fl_prev (elements g ! i)) g1"
  shows "group_inv u g2" and "g_size g2 = g_size g + 1" and "i < g_capacity g" and "obj (elements g ! i) = None"
    and "\<And>j. j < g_capacity g \<Longrightarrow> obj (elements g2 ! j) = (if j = i then Some x else obj (elements g ! j))"
    and "g_addr g2 = g_addr g" and "g_capacity g2 = g_capacity g"
    and "free_list_head g2 = SKIP_MAX \<longleftrightarrow>
           sk16 (skipfield g1 ! i + 65535) = 0 \<and> fl_prev (elements g ! i) = SKIP_MAX"
proof -
  note I = group_invD [OF g]
  have sk: "skipfield g1 = skipfield g" "free_list_head g1 = i" "length (elements g1) = g_capacity g"
    "fl_prev (elements g1 ! i) = fl_prev (elements g ! i)" "g_size g1 = g_size g"
    by (simp_all add: g1 I(4) i(1))
  have f1: "free_ok g1" by (rule free_ok_obj [OF I(6)]) (simp_all add: g1)
  have C: "skip_ok (skipfield g1) (g_capacity g)" using I(5) sk by simp
  note K = shrink_skipblock_correct [OF C I(2) sk(3) f1 sk(2) i(2) sk(4) [symmetric], folded g2]
  have F: "g_addr g2 = g_addr g" "g_capacity g2 = g_capacity g" "g_size g2 = sk16 (g_size g + 1)"
    "length (elements g2) = g_capacity g" "obj (elements g2 ! j) = obj (elements g1 ! j)" for j
    using shrink_skipblock_frame [of i "fl_prev (elements g ! i)" g1] sk I(4) by (simp_all add: g1 g2)
  show "g_addr g2 = g_addr g" "g_capacity g2 = g_capacity g" by (fact F)+
  show ic: "i < g_capacity g" by (rule K(1))
  show n: "obj (elements g ! i) = None" using I(7) [OF ic] K(2) sk by simp
  have cnt: "live_count (construct_element i x (elements g)) = live_count (elements g) + 1"
    using ic n I(4) by (intro live_count_construct) auto
  have "live_count (elements g) + 1 \<le> g_capacity g"
    using live_count_le [of "construct_element i x (elements g)"] cnt I(4) by simp
  then show s: "g_size g2 = g_size g + 1" using F(3) I(2,9) by (simp add: sk16_def SKIP_MAX_def)
  show o: "obj (elements g2 ! j) = (if j = i then Some x else obj (elements g ! j))" if "j < g_capacity g" for j
    using that ic I(4) F(5) by (simp add: g1 obj_construct)
  show "group_inv u g2"
  proof (rule group_invI)
    have iu: "i < u" using I(8) [OF ic] K(2) sk by fastforce
    show "obj (elements g2 ! j) = None \<longleftrightarrow> skipfield g2 ! j \<noteq> 0 \<or> u \<le> j" if "j < g_capacity g2" for j
      using o [of j] K(5) [of j] I(7) [of j] that F(2) sk iu by auto
    show "skipfield g2 ! j = 0" if "j < g_capacity g2" "u \<le> j" for j
      using K(5) [of j] I(8) [of j] that F(2) sk by auto
    have "map obj (elements g2) = map obj (elements g1)"
      using F sk by (intro nth_equalityI) simp_all
    then have "live_count (elements g2) = live_count (elements g1)" by (rule live_count_cong)
    then show "g_size g2 = live_count (elements g2)" using s cnt I(9) by (simp add: g1)
  qed (use I(1-3) F K(3,4) in simp_all)
  show "free_list_head g2 = SKIP_MAX \<longleftrightarrow>
      sk16 (skipfield g1 ! i + 65535) = 0 \<and> fl_prev (elements g ! i) = SKIP_MAX"
    by (rule K(6))
qed

section \<open>The chain of groups\<close>

lemma find_group_split:
  "find_group a gs = Some g \<Longrightarrow> \<exists>as bs. gs = as @ g # bs \<and> g_addr g = a"
proof (induction gs)
  case (Cons g' gs)
  show ?case
  proof (cases "g_addr g' = a")
    case True
    with Cons.prems show ?thesis by (intro exI [of _ "[]"] exI [of _ gs]) auto
  next
    case False
    with Cons obtain as bs where "gs = as @ g # bs" "g_addr g = a" by auto
    then show ?thesis by (intro exI [of _ "g' # as"] exI [of _ bs]) auto
  qed
qed simp

lemma find_group_eq:
  "distinct (map g_addr (as @ g # bs)) \<Longrightarrow> find_group (g_addr g) (as @ g # bs) = Some g"
  by (induction as) auto

lemma find_group_None: "find_group a gs = None \<longleftrightarrow> a \<notin> g_addr ` set gs"
  by (induction gs) auto

lemma upd_group_eq:
  assumes "distinct (map g_addr (as @ g # bs))" and "g_addr g' = g_addr g"
  shows "upd_group g' (as @ g # bs) = as @ g' # bs"
proof -
  have *: "map (\<lambda>x. if g_addr x = g_addr g then g' else x) gs = gs" if "g_addr g \<notin> g_addr ` set gs" for gs
    using that by (induction gs) auto
  from assms have "g_addr g \<notin> g_addr ` set as" "g_addr g \<notin> g_addr ` set bs" by auto
  then show ?thesis using assms(2) by (simp add: upd_group_def *)
qed

lemma remove_group_eq:
  assumes "distinct (map g_addr (as @ g # bs))"
  shows "remove_group (g_addr g) (as @ g # bs) = as @ bs"
proof -
  have *: "filter (\<lambda>x. g_addr x \<noteq> g_addr g) gs = gs" if "g_addr g \<notin> g_addr ` set gs" for gs :: "'a group list"
    using that by (induction gs) auto
  from assms have "g_addr g \<notin> g_addr ` set as" "g_addr g \<notin> g_addr ` set bs" by auto
  then show ?thesis by (simp add: remove_group_def *)
qed

lemma next_group_eq:
  "distinct (map g_addr (as @ g # bs)) \<Longrightarrow>
   next_group (g_addr g) (as @ g # bs) = (case bs of [] \<Rightarrow> None | n # _ \<Rightarrow> Some n)"
proof (induction as)
  case Nil
  then show ?case by (cases bs) auto
next
  case (Cons a as)
  obtain z zs where z: "as @ g # bs = z # zs" by (cases as) auto
  have "g_addr a \<noteq> g_addr g" using Cons.prems by auto
  with z have "next_group (g_addr g) ((a # as) @ g # bs) = next_group (g_addr g) (as @ g # bs)" by simp
  with Cons show ?case by simp
qed

lemma previous_group_eq:
  "distinct (map g_addr (as @ p # g # bs)) \<Longrightarrow> previous_group (g_addr g) (as @ p # g # bs) = Some p"
proof (induction as)
  case (Cons a as)
  obtain z zs where z: "as @ p # g # bs = z # zs" by (cases as) auto
  with Cons.prems have "g_addr z \<noteq> g_addr g" by (cases as) auto
  with z have "previous_group (g_addr g) ((a # as) @ p # g # bs) = previous_group (g_addr g) (as @ p # g # bs)" by simp
  with Cons show ?case by simp
qed simp

lemma hive_invD:
  assumes "hive_inv h"
  shows "distinct (map g_addr (groups h))" "distinct (erasure_groups h)"
    "total_size h = sum_list (map g_size (groups h))"
    "set (erasure_groups h) = g_addr ` {g \<in> set (groups h). free_list_head g \<noteq> SKIP_MAX}"
    "groups h \<noteq> [] \<Longrightarrow> chain_ok h"
  using assms by (auto simp: hive_inv_def)

lemma hive_inv_group:
  assumes "hive_inv h" and "g \<in> set (groups h)"
  shows "group_inv (used h g) g" "g_size g = 0 \<Longrightarrow> groups h = [g]"
proof -
  from assms(2) have "chain_ok h" using hive_invD(5) [OF assms(1)] by force
  then show "group_inv (used h g) g" "g_size g = 0 \<Longrightarrow> groups h = [g]"
    using assms(2) by (simp_all add: chain_ok_def)
qed

text \<open>Replacing one group of the chain.\<close>

lemma hive_inv_replace:
  assumes inv: "hive_inv h" and gs: "groups h = as @ g # bs"
    and addr: "g_addr g' = g_addr g" "g_capacity g' = g_capacity g"
    and h': "groups h' = as @ g' # bs" "unused_groups h' = unused_groups h"
      "next_addr h' = next_addr h" "min_block_capacity h' = min_block_capacity h"
      "max_block_capacity h' = max_block_capacity h"
    and size: "total_size h' + g_size g = total_size h + g_size g'" "0 < g_size g'"
    and e: "fst (end_pos h') = fst (end_pos h)" "bs \<noteq> [] \<Longrightarrow> end_pos h' = end_pos h"
    and g': "group_inv (used h' g') g'"
    and er: "distinct (erasure_groups h')" "set (erasure_groups h') =
      (set (erasure_groups h) - {g_addr g}) \<union> (if free_list_head g' \<noteq> SKIP_MAX then {g_addr g} else {})"
    and b: "fst (begin_pos h') = fst (begin_pos h)" "as \<noteq> [] \<Longrightarrow> begin_pos h' = begin_pos h"
      "as = [] \<Longrightarrow> front_ok (snd (begin_pos h')) g'"
  shows "hive_inv h'"
proof -
  have ch: "chain_ok h" using inv gs by (auto simp: hive_inv_def)
  have d: "g_addr x \<noteq> g_addr g" if "x \<in> set (as @ bs)" for x
  proof -
    have "g_addr g \<notin> g_addr ` set (as @ bs)" using hive_invD(1) [OF inv, unfolded gs] by auto
    with that show ?thesis by (metis imageI)
  qed
  have u: "used h' x = used h x" if "x \<in> set (as @ bs)" for x
  proof (cases "bs = []")
    case True
    with ch gs have "fst (end_pos h) = g_addr g" by (simp add: chain_ok_def)
    with d [OF that] e(1) show ?thesis by (simp add: used_def)
  next
    case False
    with e(2) show ?thesis by (simp add: used_def)
  qed
  have ne: "g_size x \<noteq> 0" if "x \<in> set (as @ bs)" for x
  proof
    assume "g_size x = 0"
    with that gs have "as @ g # bs = [x]" using hive_inv_group(2) [OF inv, of x] by simp
    with d [OF that] show False by (cases as) auto
  qed
  have pos: "g_size x \<noteq> 0" if "x \<in> set (groups h')" for x
    using that ne size(2) h'(1) by auto
  have "chain_ok h'"
    unfolding chain_ok_def
  proof (intro conjI ballI impI)
    show "group_inv (used h' x) x" if "x \<in> set (groups h')" for x
      using that ch u g' gs h'(1) by (auto simp: chain_ok_def)
    show "fst (end_pos h') = g_addr (last (groups h'))"
      using ch e(1) gs h'(1) addr by (cases "bs = []") (auto simp: chain_ok_def)
    show "fst (begin_pos h') = g_addr (hd (groups h'))"
      using ch b(1) gs h'(1) addr by (cases as) (auto simp: chain_ok_def)
    show "front_ok (snd (begin_pos h')) (hd (groups h'))"
      using ch b gs h'(1) by (cases as) (auto simp: chain_ok_def)
  qed (use pos h'(1) in auto)
  moreover have "set (erasure_groups h') = g_addr ` {x \<in> set (groups h'). free_list_head x \<noteq> SKIP_MAX}"
  proof -
    have "set (erasure_groups h) - {g_addr g} = g_addr ` {x \<in> set (as @ bs). free_list_head x \<noteq> SKIP_MAX}"
      unfolding hive_invD(4) [OF inv] gs using d by auto
    moreover have "{x \<in> set (groups h'). free_list_head x \<noteq> SKIP_MAX} =
        {x \<in> set (as @ bs). free_list_head x \<noteq> SKIP_MAX} \<union> (if free_list_head g' \<noteq> SKIP_MAX then {g'} else {})"
      using h'(1) by auto
    ultimately show ?thesis using er(2) addr by (simp add: image_Un split: if_splits)
  qed
  ultimately show ?thesis
    using inv gs h' addr size(1) er(1) by (simp add: hive_inv_def)
qed

section \<open>The sequence of elements under changes of one group\<close>

lemma hive_seq_slot:
  assumes gs: "groups h = as @ g # bs" and gs': "groups h' = as @ g' # bs"
    and same: "h_id h' = h_id h" "g_addr g' = g_addr g" "length (elements g') = length (elements g)"
    and i: "i < length (elements g)"
    and o: "\<And>j. j < length (elements g) \<Longrightarrow>
      obj (elements g' ! j) = (if j = i then o1 else obj (elements g ! j))"
  shows "\<exists>xs ys. hive_seq h = xs @ slot_seq (iter_at h (g_addr g, i)) (obj (elements g ! i)) @ ys
     \<and> hive_seq h' = xs @ slot_seq (iter_at h (g_addr g, i)) o1 @ ys"
proof -
  have "map obj (elements g') = map obj ((elements g)[i := (elements g ! i)\<lparr> obj := o1 \<rparr>])"
    using o same(3) i by (intro nth_equalityI) (auto simp: nth_list_update)
  from live_from_slot [OF i this, of "h_id h" "g_addr g" 0, unfolded add_0]
  obtain xs ys where "group_seq (h_id h) g = xs @ slot_seq (iter_at h (g_addr g, i)) (obj (elements g ! i)) @ ys"
    "group_seq (h_id h') g' = xs @ slot_seq (iter_at h (g_addr g, i)) o1 @ ys"
    by (auto simp: group_seq_def iter_at_def same)
  then show ?thesis
    by (intro exI [of _ "concat (map (group_seq (h_id h)) as) @ xs"]
          exI [of _ "ys @ concat (map (group_seq (h_id h)) bs)"])
       (simp add: hive_seq_def gs gs' same(1))
qed

lemma in_group_seq:
  "(p, x) \<in> set (group_seq ident g) \<longleftrightarrow> (\<exists>j < length (elements g).
     p = \<lparr> it_hive = ident, it_group = g_addr g, it_index = j \<rparr> \<and> obj (elements g ! j) = Some x)"
  by (auto simp: group_seq_def in_live_from)

lemma distinct_concat_groups:
  "distinct (map g_addr gs) \<Longrightarrow> distinct (map fst (concat (map (group_seq ident) gs)))"
proof (induction gs)
  case (Cons g gs)
  have "fst ` set (group_seq ident g) \<inter> fst ` set (concat (map (group_seq ident) gs)) = {}"
    using Cons.prems by (auto simp: in_group_seq)
  with Cons show ?case by (auto simp: group_seq_def distinct_live_from)
qed simp

lemma hive_seq_distinct: "hive_inv h \<Longrightarrow> distinct (map fst (hive_seq h))"
  unfolding hive_seq_def by (intro distinct_concat_groups hive_invD(1))

lemma hive_deref_seq:
  assumes "hive_inv h"
  shows "hive_deref p h = map_of (hive_seq h) p"
proof -
  have *: "hive_deref p h = Some x \<longleftrightarrow> (p, x) \<in> set (hive_seq h)" for x
  proof
    assume d: "hive_deref p h = Some x"
    then obtain g where g: "find_group (it_group p) (groups h) = Some g" "it_hive p = h_id h"
      "it_index p < g_capacity g" "obj (elements g ! it_index p) = Some x"
      by (auto simp: hive_deref_def split: if_splits option.splits)
    from find_group_split [OF g(1)] have gin: "g \<in> set (groups h)" "g_addr g = it_group p" by auto
    with g hive_inv_group(1) [OF assms gin(1)] show "(p, x) \<in> set (hive_seq h)"
      by (auto simp: hive_seq_def in_group_seq group_inv_def intro!: bexI [of _ g])
  next
    assume "(p, x) \<in> set (hive_seq h)"
    then obtain g j where g: "g \<in> set (groups h)" "j < length (elements g)"
      "p = \<lparr> it_hive = h_id h, it_group = g_addr g, it_index = j \<rparr>" "obj (elements g ! j) = Some x"
      by (auto simp: hive_seq_def in_group_seq)
    from g(1) obtain as bs where "groups h = as @ g # bs" by (auto simp: in_set_conv_decomp)
    then have "find_group (g_addr g) (groups h) = Some g"
      using find_group_eq hive_invD(1) [OF assms] by metis
    with g hive_inv_group(1) [OF assms g(1)] show "hive_deref p h = Some x"
      by (simp add: hive_deref_def group_inv_def)
  qed
  show ?thesis
    using * hive_seq_distinct [OF assms] by (cases "hive_deref p h"; cases "map_of (hive_seq h) p") auto
qed

section \<open>Insertion meets its contract\<close>

lemma live_from_dead: "\<forall>s \<in> set els. obj s = None \<Longrightarrow> live_from ident a i els = []"
  by (induction els arbitrary: i) auto

lemma live_from_last:
  assumes "u < length els" and "\<And>j. u \<le> j \<Longrightarrow> j < length els \<Longrightarrow> obj (els ! j) = None"
  shows "live_from ident a i (construct_element u x els) =
    live_from ident a i els @ [(\<lparr> it_hive = ident, it_group = a, it_index = i + u \<rparr>, x)]"
proof -
  let ?rest = "drop (Suc u) els"
  have d: "\<forall>s \<in> set ?rest. obj s = None" using assms(2) by (auto simp: set_conv_nth)
  have t: "length (take u els) = u" using assms(1) by simp
  have "live_from ident a i els = live_from ident a i (take u els @ els ! u # ?rest)"
    using split_at_nth [OF assms(1)] by simp
  also have "\<dots> = live_from ident a i (take u els)"
    using assms by (simp add: live_from_append live_from_dead [OF d])
  finally have 1: "live_from ident a i els = live_from ident a i (take u els)" .
  have "construct_element u x els = take u els @ (els ! u)\<lparr> obj := Some x \<rparr> # ?rest"
    using update_at_split [OF assms(1)] by (simp add: construct_element_def)
  then show ?thesis
    unfolding 1 using t by (simp add: live_from_append live_from_dead [OF d])
qed

text \<open>The last group of the chain holds the past-the-end position.\<close>

lemma last_group:
  assumes inv: "hive_inv h" and g: "find_group (fst (end_pos h)) (groups h) = Some g"
  shows "\<exists>as. groups h = as @ [g]" and "g_addr g = fst (end_pos h)" and "g \<in> set (groups h)"
    and "used h g = snd (end_pos h)" and "chain_ok h" and "group_inv (snd (end_pos h)) g"
proof -
  obtain as bs where s: "groups h = as @ g # bs" "g_addr g = fst (end_pos h)"
    using find_group_split [OF g] by blast
  show c: "chain_ok h" using hive_invD(5) [OF inv] s by simp
  have d: "distinct (map g_addr (as @ g # bs))" using hive_invD(1) [OF inv] s by simp
  have "bs = []"
  proof (rule ccontr)
    assume "bs \<noteq> []"
    then have "g_addr (last bs) \<in> g_addr ` set bs" "last (groups h) = last bs" using s by auto
    moreover have "fst (end_pos h) = g_addr (last (groups h))" using c by (auto simp: chain_ok_def)
    ultimately have "g_addr g \<in> g_addr ` set bs" using s(2) by metis
    with d show False by simp
  qed
  with s show "\<exists>as. groups h = as @ [g]" by auto
  show "g_addr g = fst (end_pos h)" by (fact s)
  show "g \<in> set (groups h)" using s by simp
  show u: "used h g = snd (end_pos h)" using s by (simp add: used_def)
  then show "group_inv (snd (end_pos h)) g"
    using hive_inv_group(1) [OF inv, of g] s by simp
qed

lemma find_end_None: "hive_inv h \<Longrightarrow> find_group (fst (end_pos h)) (groups h) = None \<longleftrightarrow> groups h = []"
  using hive_invD(5) [of h] by (cases "groups h = []") (auto simp: find_group_None chain_ok_def)

lemma insert_into_empty_ok:
  fixes h :: "'a hive"
  assumes inv: "hive_inv h" and e: "groups h = []" and h': "insert_into_empty x h = (h', p)"
  shows "hive_inv h'" and "hive_seq h' = hive_seq h @ [(p, x)]"
proof -
  have m: "0 < min_block_capacity h" "min_block_capacity h < SKIP_MAX" "unused_groups h = []"
    using inv e by (auto simp: hive_inv_def)
  define n :: "'a group" where "n = new_group (next_addr h) (min_block_capacity h)"
  define n1 where "n1 = n\<lparr> elements := construct_element 0 x (elements n) \<rparr>"
  have n: "group_inv 1 n1" unfolding n1_def n_def by (rule group_inv_new [OF m(1,2)])
  have H: "h' = h\<lparr> groups := [n1], begin_pos := (next_addr h, 0), end_pos := (next_addr h, 1),
      total_size := 1, total_capacity := min_block_capacity h, next_addr := next_addr h + 1 \<rparr>"
    "p = \<lparr> it_hive = h_id h, it_group = next_addr h, it_index = 0 \<rparr>"
    using h' by (auto simp: insert_into_empty_def Let_def n1_def n_def iter_at_def)
  have N: "g_addr n1 = next_addr h" "g_size n1 = 1" "free_list_head n1 = SKIP_MAX" "g_addr n = next_addr h"
    "g_capacity n1 = min_block_capacity h" "elements n1 = construct_element 0 x (elements n)"
    "length (elements n) = min_block_capacity h"
    by (simp_all add: n1_def n_def new_group_def)
  have "front_ok 0 n1"
    using N m by (simp add: front_ok_def obj_construct)
  with n N have "chain_ok h'" by (simp add: H chain_ok_def used_def)
  then show "hive_inv h'"
    using inv N e m by (simp add: H hive_inv_def)
  have "obj (elements n ! j) = None" if "j < length (elements n)" for j
    using that by (simp add: n_def new_group_def)
  then have "live_from i a 0 (elements n) = []" for i a
    by (intro live_from_dead) (auto simp: set_conv_nth)
  with live_from_last [of 0 "elements n" "h_id h" "next_addr h" 0 x] m N
    \<open>\<And>j. j < length (elements n) \<Longrightarrow> obj (elements n ! j) = None\<close>
  show "hive_seq h' = hive_seq h @ [(p, x)]"
    by (simp add: hive_seq_def H e group_seq_def)
qed

lemma insert_at_end_ok:
  assumes inv: "hive_inv h" and g: "find_group (fst (end_pos h)) (groups h) = Some g"
    and e: "erasure_groups h = []" and ne: "snd (end_pos h) \<noteq> g_capacity g"
    and h': "insert_at_end x g h = (h', p)"
  shows "hive_inv h'" and "hive_seq h' = hive_seq h @ [(p, x)]"
proof -
  note L = last_group [OF inv g]
  note I = group_invD [OF L(6)]
  obtain as where gs: "groups h = as @ [g]" using L(1) by blast
  define u where "u = snd (end_pos h)"
  define g1 where "g1 = g\<lparr> elements := construct_element u x (elements g), g_size := sk16 (g_size g + 1) \<rparr>"
  have u: "u < g_capacity g" using I(3) ne by (simp add: u_def)
  have G: "group_inv (u + 1) g1" unfolding g1_def by (rule group_inv_append [OF L(6) [folded u_def] u])
  have d: "distinct (map g_addr (as @ [g]))" using hive_invD(1) [OF inv] gs by simp
  have A: "g_addr g1 = g_addr g" "g_capacity g1 = g_capacity g" "free_list_head g1 = free_list_head g"
    "elements g1 = construct_element u x (elements g)"
    by (simp_all add: g1_def)
  have H: "h' = h\<lparr> groups := as @ [g1], end_pos := (g_addr g, u + 1), total_size := total_size h + 1 \<rparr>"
    "p = \<lparr> it_hive = h_id h, it_group = g_addr g, it_index = u \<rparr>"
    using h' upd_group_eq [of as g "[]" g1] d L(2)
    by (auto simp: insert_at_end_def Let_def g1_def u_def gs iter_at_def)
  have dead: "obj (elements g ! j) = None" if "u \<le> j" "j < length (elements g)" for j
    using I(7) [of j] that I(4) by (simp add: u_def)
  have s1: "g_size g1 = g_size g + 1"
    using group_invD(9) [OF G] I(9) A(4) live_count_construct [of u "elements g" x] dead [of u] u I(4) by simp
  have fh: "free_list_head g = SKIP_MAX" using hive_invD(4) [OF inv] e L(3) by auto
  show "hive_inv h'"
  proof (rule hive_inv_replace [OF inv gs A(1,2)])
    show "group_inv (used h' g1) g1" using G A by (simp add: used_def H)
    show "front_ok (snd (begin_pos h')) g1" if "as = []"
    proof -
      have f: "front_ok (snd (begin_pos h)) g" using L(5) that by (simp add: chain_ok_def gs)
      show ?thesis
      proof (cases "g_size g = 0")
        case True
        then have "u = 0" using L(3,5) by (auto simp: chain_ok_def u_def)
        with True f s1 I(1,4) show ?thesis by (simp add: front_ok_def H A obj_construct)
      next
        case False
        with f have "snd (begin_pos h) < g_capacity g" "obj (elements g ! snd (begin_pos h)) \<noteq> None"
          "\<And>j. j < snd (begin_pos h) \<Longrightarrow> obj (elements g ! j) = None" by (auto simp: front_ok_def)
        moreover have "snd (begin_pos h) < u"
          using dead [of "snd (begin_pos h)"] calculation(1,2) I(4) by linarith
        ultimately show ?thesis using u I(4) s1 by (auto simp: front_ok_def H A obj_construct)
      qed
    qed
  qed (use L(2) s1 e fh in \<open>simp_all add: H A\<close>)
  have "group_seq (h_id h) g1 = group_seq (h_id h) g @ [(p, x)]"
    using live_from_last [of u "elements g" "h_id h" "g_addr g" 0 x] dead u I(4)
    by (simp add: group_seq_def A H)
  then show "hive_seq h' = hive_seq h @ [(p, x)]" by (simp add: hive_seq_def H gs)
qed

lemma sk16_small: "n < 65536 \<Longrightarrow> sk16 n = n"
  by (simp add: sk16_def)

lemma addr_inj:
  "distinct (map g_addr gs) \<Longrightarrow> x \<in> set gs \<Longrightarrow> y \<in> set gs \<Longrightarrow> g_addr x = g_addr y \<Longrightarrow> x = y"
  by (auto simp: distinct_map inj_on_def)

text \<open>A group with one element is linked at the end of a chain whose last group is full.\<close>

lemma hive_inv_link:
  assumes inv: "hive_inv h" and g: "find_group (fst (end_pos h)) (groups h) = Some g"
    and full: "snd (end_pos h) = g_capacity g" and n: "group_inv 1 n" "g_size n = 1" "free_list_head n = SKIP_MAX"
    and h': "groups h' = groups h @ [n]" "end_pos h' = (g_addr n, 1)" "total_size h' = total_size h + 1"
      "begin_pos h' = begin_pos h" "erasure_groups h' = erasure_groups h"
      "min_block_capacity h' = min_block_capacity h" "max_block_capacity h' = max_block_capacity h"
    and fresh: "distinct (map g_addr (groups h' @ unused_groups h'))"
      "\<forall>g \<in> set (groups h' @ unused_groups h'). g_addr g < next_addr h'"
      "\<forall>g \<in> set (unused_groups h'). unused_ok g"
  shows "hive_inv h'"
proof -
  note L = last_group [OF inv g]
  have pos: "g_size x \<noteq> 0" if "x \<in> set (groups h)" for x
    using that L(5) group_invD(1) [OF L(6)] full by (auto simp: chain_ok_def)
  have u: "used h' x = used h x" if "x \<in> set (groups h)" for x
  proof -
    have "g_addr n \<notin> g_addr ` set (groups h)" using fresh(1) h'(1) by auto
    with that have "g_addr x \<noteq> g_addr n" by (metis imageI)
    moreover have "g_addr x = g_addr g \<Longrightarrow> x = g"
      using addr_inj [OF hive_invD(1) [OF inv] that L(3)] by simp
    ultimately show ?thesis using full L(2) by (auto simp: used_def h'(2))
  qed
  have ne: "groups h \<noteq> []" using L(3) by auto
  have "chain_ok h'"
    unfolding chain_ok_def
  proof (intro conjI ballI impI)
    show "group_inv (used h' x) x" if "x \<in> set (groups h')" for x
    proof (cases "x \<in> set (groups h)")
      case True
      then show ?thesis using u [OF True] hive_inv_group(1) [OF inv True] by simp
    next
      case False
      with that have "x = n" using h'(1) by simp
      with n(1) show ?thesis by (simp add: used_def h'(2))
    qed
    show "groups h' = [x]" "snd (end_pos h') = 0" if "x \<in> set (groups h')" "g_size x = 0" for x
      using that(2) pos n(2) that(1)[unfolded h'(1)] by (cases "x \<in> set (groups h)"; force)+
    show "fst (begin_pos h') = g_addr (hd (groups h'))" "front_ok (snd (begin_pos h')) (hd (groups h'))"
      using L(5) ne by (auto simp: chain_ok_def h')
  qed (simp_all add: h')
  moreover have "set (erasure_groups h') = g_addr ` {x \<in> set (groups h'). free_list_head x \<noteq> SKIP_MAX}"
    using hive_invD(4) [OF inv] n(3) by (auto simp: h')
  ultimately show ?thesis
    using inv fresh n(2) by (simp add: hive_inv_def h')
qed

lemma insert_in_new_group_ok:
  fixes h :: "'a hive"
  assumes inv: "hive_inv h" and g: "find_group (fst (end_pos h)) (groups h) = Some g"
    and e: "erasure_groups h = []" and full: "snd (end_pos h) = g_capacity g"
    and h': "insert_in_new_group x h = (h', p)"
  shows "hive_inv h'" and "hive_seq h' = hive_seq h @ [(p, x)]"
proof -
  note L = last_group [OF inv g]
  have g0: "0 < g_capacity g" using group_invD(1) [OF L(6)] .
  have m: "0 < max_block_capacity h" "max_block_capacity h < SKIP_MAX" using inv by (auto simp: hive_inv_def)
  have "g_size g \<noteq> 0" using L(3,5) full g0 by (auto simp: chain_ok_def)
  moreover have "g_size g \<le> total_size h"
    unfolding hive_invD(3) [OF inv] using L(3) by (intro member_le_sum_list) auto
  ultimately have t: "0 < total_size h" by linarith
  define k where "k = min (total_size h) (max_block_capacity h)"
  have k: "sk16 k = k" "0 < k" "k < SKIP_MAX"
    using t m by (auto simp: k_def sk16_def SKIP_MAX_def)
  define n :: "'a group" where
    "n = (case unused_groups h of [] \<Rightarrow> new_group (next_addr h) k | u # us \<Rightarrow> group_reset 1 u)"
  define n1 where "n1 = n\<lparr> elements := construct_element 0 x (elements n) \<rparr>"
  have U: "\<forall>g \<in> set (unused_groups h). unused_ok g" using inv by (simp add: hive_inv_def)
  have N: "group_inv 1 n1"
    using group_inv_new [OF k(2,3)] group_inv_reuse U
    by (auto simp: n1_def n_def split: list.splits)
  have N1: "g_size n1 = 1" "free_list_head n1 = SKIP_MAX" "g_addr n1 = g_addr n" "length (elements n) = g_capacity n"
    using U by (auto simp: n1_def n_def new_group_def group_reset_def unused_ok_def split: list.splits)
  have H: "groups h' = groups h @ [n1]" "end_pos h' = (g_addr n, 1)" "total_size h' = total_size h + 1"
    "begin_pos h' = begin_pos h" "erasure_groups h' = erasure_groups h" "h_id h' = h_id h"
    "min_block_capacity h' = min_block_capacity h" "max_block_capacity h' = max_block_capacity h"
    "p = \<lparr> it_hive = h_id h, it_group = g_addr n, it_index = 0 \<rparr>"
    and R: "unused_groups h' = tl (unused_groups h)"
      "next_addr h' = (if unused_groups h = [] then next_addr h + 1 else next_addr h)"
    using h' k(1) by (auto simp: insert_in_new_group_def Let_def n1_def n_def k_def iter_at_def split: list.splits)
  have D: "distinct (map g_addr (groups h @ unused_groups h))"
    "\<forall>g \<in> set (groups h @ unused_groups h). g_addr g < next_addr h" using inv by (auto simp: hive_inv_def)
  have addr: "g_addr n = (case unused_groups h of [] \<Rightarrow> next_addr h | u # us \<Rightarrow> g_addr u)"
    by (simp add: n_def new_group_def group_reset_def split: list.splits)
  show "hive_inv h'"
  proof (rule hive_inv_link [OF inv g full N N1(1,2) H(1)])
    show "distinct (map g_addr (groups h' @ unused_groups h'))"
      using D addr by (cases "unused_groups h") (auto simp: H R N1)
    show "\<forall>g \<in> set (groups h' @ unused_groups h'). g_addr g < next_addr h'"
      using D addr by (cases "unused_groups h") (auto simp: H R N1)
    show "\<forall>g \<in> set (unused_groups h'). unused_ok g"
      using U by (cases "unused_groups h") (auto simp: R)
  qed (simp_all add: H N1)
  have "obj (elements n ! j) = None" if "j < length (elements n)" for j
    using that U by (auto simp: n_def new_group_def group_reset_def unused_ok_def split: list.splits)
  then have "live_from i a 0 (elements n) = []" and "\<And>j. j < length (elements n) \<Longrightarrow> obj (elements n ! j) = None" for i a
    by (auto intro!: live_from_dead simp: set_conv_nth)
  with live_from_last [of 0 "elements n" "h_id h" "g_addr n" 0 x] group_invD(1) [OF N] N1(4)
  have "group_seq (h_id h) n1 = [(p, x)]"
    by (simp add: group_seq_def n1_def H)
  then show "hive_seq h' = hive_seq h @ [(p, x)]" by (simp add: hive_seq_def H)
qed

lemma insert_in_erased_ok:
  assumes inv: "hive_inv h" and e: "erasure_groups h = a # er"
    and g: "find_group a (groups h) = Some g" and h': "insert_in_erased x g h = (h', p)"
  shows "hive_inv h'" and "\<exists>xs ys. hive_seq h = xs @ ys \<and> hive_seq h' = xs @ (p, x) # ys"
    and "\<exists>as bs g'. groups h = as @ g # bs \<and> groups h' = as @ g' # bs \<and> g_addr g' = g_addr g \<and> h_id h' = h_id h
      \<and> p = iter_at h (g_addr g, free_list_head g) \<and> length (elements g') = length (elements g)
      \<and> (\<forall>j < length (elements g). obj (elements g' ! j) = (if j = free_list_head g then Some x else obj (elements g ! j)))"
proof -
  obtain as bs where gs: "groups h = as @ g # bs" "g_addr g = a" using find_group_split [OF g] by blast
  have gin: "g \<in> set (groups h)" by (simp add: gs)
  have d: "distinct (map g_addr (as @ g # bs))" using hive_invD(1) [OF inv] gs by simp
  note G = hive_inv_group(1) [OF inv gin]
  have ch: "chain_ok h" using hive_invD(5) [OF inv] gin by force
  define i where "i = free_list_head g"
  have i: "i \<noteq> SKIP_MAX"
  proof -
    obtain g' where "g' \<in> set (groups h)" "g_addr g' = a" "free_list_head g' \<noteq> SKIP_MAX"
      using hive_invD(4) [OF inv] e by (metis (mono_tags, lifting) imageE list.set_intros(1) mem_Collect_eq)
    moreover from this have "g' = g"
      using addr_inj [OF hive_invD(1) [OF inv]] gin gs(2) by simp
    ultimately show ?thesis by (simp add: i_def)
  qed
  define g1 where "g1 = g\<lparr> elements := construct_element i x (elements g) \<rparr>"
  define g2 where "g2 = shrink_skipblock i (fl_prev (elements g ! i)) g1"
  note S = group_inv_shrink [OF G i_def [symmetric] i g1_def g2_def]
  have up: "upd_group g2 (groups h) = as @ g2 # bs" using upd_group_eq [OF d S(6)] gs(1) by simp
  have u: "h' = update_skipblock i (fl_prev (elements g ! i)) g1 h" "p = iter_at h (a, i)" "g_addr g1 = a"
    using h' gs(2) by (simp_all add: insert_in_erased_def Let_def i_def g1_def)
  have H: "h' = h\<lparr> groups := as @ g2 # bs,
      erasure_groups := (if free_list_head g2 = SKIP_MAX then er else erasure_groups h),
      begin_pos := (if a = fst (begin_pos h) \<and> i < snd (begin_pos h) then (a, i) else begin_pos h),
      total_size := total_size h + 1 \<rparr>" "p = \<lparr> it_hive = h_id h, it_group = a, it_index = i \<rparr>"
    unfolding u(1,2) update_skipblock_def Let_def g2_def [symmetric] S(8) [symmetric] up u(3) e
    by (simp_all add: iter_at_def)
  have s0: "g_size g \<noteq> 0"
  proof
    assume "g_size g = 0"
    then have "snd (end_pos h) = 0" "groups h = [g]" using ch gin by (auto simp: chain_ok_def)
    then have "used h g = 0" using ch by (simp add: chain_ok_def used_def)
    with group_invD(8) [OF G] have "\<forall>j < g_capacity g. skipfield g ! j = 0" by simp
    with group_free_head [OF G] i show False by (auto simp: i_def)
  qed
  have er: "a \<notin> set er" "distinct er" using hive_invD(2) [OF inv] e by auto
  show "hive_inv h'"
  proof (rule hive_inv_replace [OF inv gs(1) S(6,7)])
    show "as \<noteq> [] \<Longrightarrow> begin_pos h' = begin_pos h"
      using ch d gs by (cases as) (auto simp: H chain_ok_def)
    show "front_ok (snd (begin_pos h')) g2" if "as = []"
    proof -
      have f: "front_ok (snd (begin_pos h)) g" "fst (begin_pos h) = a"
        using ch that gs by (simp_all add: chain_ok_def)
      with s0 have b: "snd (begin_pos h) < g_capacity g" "obj (elements g ! snd (begin_pos h)) \<noteq> None"
        "\<And>j. j < snd (begin_pos h) \<Longrightarrow> obj (elements g ! j) = None" by (auto simp: front_ok_def)
      with S(4) have "snd (begin_pos h) \<noteq> i" by auto
      with b f(2) S(2,3,5,7) show ?thesis by (auto simp: front_ok_def H)
    qed
    show "group_inv (used h' g2) g2" using S(1,6,7) by (simp add: used_def H split: if_splits)
  qed (use S(2) e gs(2) er in \<open>auto simp: H\<close>)
  have len: "length (elements g2) = length (elements g)"
    using group_invD(4) [OF G] group_invD(4) [OF S(1)] S(7) by simp
  have "\<exists>xs ys. hive_seq h = xs @ slot_seq (iter_at h (g_addr g, i)) (obj (elements g ! i)) @ ys
     \<and> hive_seq h' = xs @ slot_seq (iter_at h (g_addr g, i)) (Some x) @ ys"
    using S(3,5,6) len group_invD(4) [OF G] by (intro hive_seq_slot [of h as g bs h' g2]) (simp_all add: gs(1) H)
  then show "\<exists>xs ys. hive_seq h = xs @ ys \<and> hive_seq h' = xs @ (p, x) # ys"
    using S(4) by (simp add: slot_seq_def iter_at_def H gs(2))
  show "\<exists>as bs g'. groups h = as @ g # bs \<and> groups h' = as @ g' # bs \<and> g_addr g' = g_addr g \<and> h_id h' = h_id h
      \<and> p = iter_at h (g_addr g, free_list_head g) \<and> length (elements g') = length (elements g)
      \<and> (\<forall>j < length (elements g). obj (elements g' ! j) = (if j = free_list_head g then Some x else obj (elements g ! j)))"
    using S(5,6) len group_invD(4) [OF G]
    by (intro exI [of _ as] exI [of _ bs] exI [of _ g2]) (simp add: gs H iter_at_def i_def [symmetric])
qed

text \<open>The law of insertion; when no slot is erased the new element comes last.\<close>

lemma hive_insert_ok:
  assumes inv: "hive_inv h" and h': "hive_insert x h = (h', p)"
  shows "hive_inv h'" and "\<exists>xs ys. hive_seq h = xs @ ys \<and> hive_seq h' = xs @ (p, x) # ys"
    and "erasure_groups h = [] \<Longrightarrow> hive_seq h' = hive_seq h @ [(p, x)]"
proof -
  have "hive_inv h' \<and> (hive_seq h' = hive_seq h @ [(p, x)] \<or> erasure_groups h \<noteq> [] \<and>
    (\<exists>xs ys. hive_seq h = xs @ ys \<and> hive_seq h' = xs @ (p, x) # ys))"
  proof (cases "find_group (fst (end_pos h)) (groups h)")
    case None
    then have "groups h = []" using find_end_None [OF inv] by simp
    with insert_into_empty_ok [OF inv this] h' None show ?thesis by (simp add: hive_insert_def)
  next
    case (Some g)
    show ?thesis
    proof (cases "erasure_groups h")
      case Nil
      show ?thesis
        using insert_at_end_ok [OF inv Some Nil] insert_in_new_group_ok [OF inv Some Nil] h' Some Nil
        by (simp add: hive_insert_def split: if_splits)
    next
      case (Cons a er)
      then have "a \<in> g_addr ` set (groups h)" using hive_invD(4) [OF inv] by auto
      then obtain g' where g': "find_group a (groups h) = Some g'"
        using find_group_None [of a "groups h"] by auto
      with h' Some Cons have "insert_in_erased x g' h = (h', p)" by (simp add: hive_insert_def)
      from insert_in_erased_ok [OF inv Cons g' this] Cons show ?thesis by simp
    qed
  qed
  then show "hive_inv h'" "\<exists>xs ys. hive_seq h = xs @ ys \<and> hive_seq h' = xs @ (p, x) # ys"
    "erasure_groups h = [] \<Longrightarrow> hive_seq h' = hive_seq h @ [(p, x)]" by force+
qed

section \<open>Erasure meets its contract\<close>

lemma group_front_ok:
  assumes g: "group_inv u g" and ne: "g_size g \<noteq> 0"
  shows "front_ok (skipfield g ! 0) g"
proof -
  note I = group_invD [OF g]
  from ne obtain j where j: "j < g_capacity g" "obj (elements g ! j) \<noteq> None"
    using I(4,9) by (auto simp: live_count_0_iff)
  then have ju: "skipfield g ! j = 0" "j < u" using I(7) [of j] by auto
  show ?thesis
  proof (cases "skipfield g ! 0 = 0")
    case True
    with I(7) [of 0] I(1) ju have "obj (elements g ! 0) \<noteq> None" by simp
    with True ne I(1) show ?thesis by (simp add: front_ok_def)
  next
    case False
    define k where "k = skipfield g ! 0"
    have "block_start (skipfield g) 0" using False I(5) by (simp add: block_start_def skip_ok_def)
    from run_at_start [OF I(5) this] have r: "run (skipfield g) 0 k" by (simp add: k_def)
    then have k: "\<And>l. l < k \<Longrightarrow> skipfield g ! l \<noteq> 0" "skipfield g ! k = 0" by (auto simp: run_def)
    have "k \<le> j" using k(1) [of j] ju by (meson not_less)
    then have "k < u" "k < g_capacity g" using ju j by simp_all
    then have "obj (elements g ! k) \<noteq> None" using I(7) [of k] k(2) by simp
    moreover have "obj (elements g ! l) = None" if "l < k" for l
      using I(7) [of l] k(1) [OF that] that \<open>k < g_capacity g\<close> by simp
    ultimately show ?thesis using ne \<open>k < g_capacity g\<close> by (simp add: front_ok_def k_def)
  qed
qed

text \<open>A group whose elements are all gone leaves the chain.\<close>

lemma hive_inv_unlink:
  assumes inv: "hive_inv h" and gs: "groups h = as @ g # bs" and ne: "as @ bs \<noteq> []"
    and h': "groups h' = as @ bs" "next_addr h' = next_addr h"
      "min_block_capacity h' = min_block_capacity h" "max_block_capacity h' = max_block_capacity h"
      "total_size h' + g_size g = total_size h" "erasure_groups h' = filter (\<lambda>b. b \<noteq> g_addr g) (erasure_groups h)"
    and unused: "unused_groups h' = unused_groups h \<or> unused_groups h' = g1 # unused_groups h"
      "unused_ok g1" "g_addr g1 = g_addr g"
    and b: "as \<noteq> [] \<Longrightarrow> begin_pos h' = begin_pos h" "as = [] \<Longrightarrow> begin_pos h' = group_front (hd bs)"
    and e: "bs \<noteq> [] \<Longrightarrow> end_pos h' = end_pos h"
      "bs = [] \<Longrightarrow> end_pos h' = (g_addr (last as), g_capacity (last as))"
  shows "hive_inv h'"
proof -
  have ch: "chain_ok h" using inv gs by (auto simp: hive_inv_def)
  have D: "distinct (map g_addr (as @ g # bs))" using hive_invD(1) [OF inv] gs by simp
  have d: "g_addr x \<noteq> g_addr g" if "x \<in> set (as @ bs)" for x
  proof -
    have "g_addr g \<notin> g_addr ` set (as @ bs)" using D by auto
    with that show ?thesis by (metis imageI)
  qed
  have pos: "g_size x \<noteq> 0" if "x \<in> set (as @ bs)" for x
  proof
    assume "g_size x = 0"
    with that gs have "as @ g # bs = [x]" using hive_inv_group(2) [OF inv, of x] by simp
    with d [OF that] show False by (cases as) auto
  qed
  have ends: "fst (end_pos h) = g_addr (last (groups h))" "fst (begin_pos h) = g_addr (hd (groups h))"
    "front_ok (snd (begin_pos h)) (hd (groups h))" using ch by (auto simp: chain_ok_def)
  have u: "used h' x = used h x" if "x \<in> set (as @ bs)" for x
  proof (cases "bs = []")
    case True
    then have "fst (end_pos h) = g_addr g" using ends gs by simp
    with d [OF that] have "used h x = g_capacity x" by (simp add: used_def)
    moreover have "x = last as" if "g_addr x = g_addr (last as)"
      using that \<open>x \<in> set (as @ bs)\<close> True D ne by (intro addr_inj [of as]) auto
    ultimately show ?thesis using e(2) [OF True] by (auto simp: used_def)
  next
    case False
    with e(1) show ?thesis by (simp add: used_def)
  qed
  have gi: "group_inv (used h x) x" if "x \<in> set (as @ bs)" for x
    using hive_inv_group(1) [OF inv, of x] that gs by auto
  have "chain_ok h'"
    unfolding chain_ok_def h'(1)
  proof (intro conjI ballI impI)
    show "group_inv (used h' x) x" if "x \<in> set (as @ bs)" for x
      using gi [OF that] u [OF that] by simp
    show "fst (end_pos h') = g_addr (last (as @ bs))"
      using e ends(1) gs by (cases "bs = []") auto
    show "fst (begin_pos h') = g_addr (hd (as @ bs))"
      using b ends(2) gs by (cases as) (auto simp: group_front_def)
    show "front_ok (snd (begin_pos h')) (hd (as @ bs))"
    proof (cases "as = []")
      case True
      with ne have "hd bs \<in> set (as @ bs)" by simp
      from group_front_ok [OF gi [OF this] pos [OF this]] b(2) True show ?thesis
        by (simp add: group_front_def)
    next
      case False
      with b(1) ends(3) gs show ?thesis by simp
    qed
  qed (use pos ne in auto)
  moreover have "set (erasure_groups h') = g_addr ` {x \<in> set (as @ bs). free_list_head x \<noteq> SKIP_MAX}"
  proof -
    have "set (erasure_groups h') = set (erasure_groups h) - {g_addr g}" using h'(6) by auto
    then show ?thesis unfolding hive_invD(4) [OF inv] gs using d by auto
  qed
  moreover have "distinct (map g_addr (groups h' @ unused_groups h'))"
    "\<forall>x \<in> set (groups h' @ unused_groups h'). g_addr x < next_addr h'"
    "\<forall>x \<in> set (unused_groups h'). unused_ok x"
  proof -
    have i: "distinct (map g_addr ((as @ g # bs) @ unused_groups h))"
      "\<forall>x \<in> set ((as @ g # bs) @ unused_groups h). g_addr x < next_addr h"
      "\<forall>x \<in> set (unused_groups h). unused_ok x"
      using inv gs by (auto simp: hive_inv_def)
    show "distinct (map g_addr (groups h' @ unused_groups h'))"
      using i(1) unused(1) by (elim disjE) (auto simp: h'(1) unused(3))
    show "\<forall>x \<in> set (groups h' @ unused_groups h'). g_addr x < next_addr h'"
      using i(2) unused(1) by (elim disjE) (auto simp: h'(1,2) unused(3))
    show "\<forall>x \<in> set (unused_groups h'). unused_ok x"
      using i(3) unused(1,2) by auto
  qed
  ultimately show ?thesis
    using inv gs h' ne by (auto simp: hive_inv_def)
qed

lemma hive_seq_erase:
  assumes inv: "hive_inv h" and gs: "groups h = as @ g # bs" and gs': "groups h' = as @ g' # bs"
    and same: "h_id h' = h_id h" "g_addr g' = g_addr g" "length (elements g') = length (elements g)"
    and i: "i < length (elements g)" "obj (elements g ! i) \<noteq> None"
    and o: "\<And>j. j < length (elements g) \<Longrightarrow>
      obj (elements g' ! j) = (if j = i then None else obj (elements g ! j))"
  shows "hive_seq h' = filter (\<lambda>q. fst q \<noteq> iter_at h (g_addr g, i)) (hive_seq h)"
proof -
  obtain y where y: "obj (elements g ! i) = Some y" using i(2) by auto
  obtain xs ys where s: "hive_seq h = xs @ (iter_at h (g_addr g, i), y) # ys" "hive_seq h' = xs @ ys"
    using hive_seq_slot [OF gs gs' same i(1), of None] o by (auto simp: slot_seq_def y)
  with hive_seq_distinct [OF inv] show ?thesis by (simp add: filter_fst_notin)
qed

lemma erase_in_group_ok:
  assumes inv: "hive_inv h" and gs: "groups h = as @ g # bs"
    and i: "i < g_capacity g" "obj (elements g ! i) \<noteq> None"
    and g1: "g1 = g\<lparr> elements := destroy_element i (elements g), g_size := sk16 (g_size g + 65535) \<rparr>"
    and h1: "h1 = h\<lparr> groups := as @ g1 # bs, total_size := total_size h - 1 \<rparr>"
    and s: "g_size g1 \<noteq> 0" and e: "erase_in_group i g1 h1 = (h', ret)"
  shows "hive_inv h' \<and> (\<exists>g2. groups h' = as @ g2 # bs \<and> g_addr g2 = g_addr g
      \<and> length (elements g2) = length (elements g) \<and> h_id h' = h_id h
      \<and> (\<forall>j < length (elements g). obj (elements g2 ! j) = (if j = i then None else obj (elements g ! j))))"
proof -
  have gin: "g \<in> set (groups h)" by (simp add: gs)
  note G = hive_inv_group(1) [OF inv gin]
  note I = group_invD [OF G]
  have ch: "chain_ok h" using hive_invD(5) [OF inv] gin by force
  have D: "distinct (map g_addr (as @ g # bs))" using hive_invD(1) [OF inv] gs by simp
  obtain g2 d where e2: "erase_skipblock i g1 = (g2, d)" by fastforce
  note E = group_inv_erase [OF G i g1 e2]
  have a: "g_addr g1 = g_addr g" "skipfield g1 = skipfield g" "free_list_head g1 = free_list_head g"
    "g_capacity g1 = g_capacity g" by (simp_all add: g1)
  have up: "upd_group g2 (as @ g1 # bs) = as @ g2 # bs"
    using D E(4) a by (intro upd_group_eq) simp_all
  have t: "1 \<le> total_size h"
  proof -
    have "g_size g \<le> total_size h" unfolding hive_invD(3) [OF inv] using gin by (intro member_le_sum_list) auto
    with E(2) show ?thesis by linarith
  qed
  define er where "er = (if (\<not> (skipfield g ! (i - (if i \<noteq> 0 then 1 else 0)) \<noteq> 0 \<or> skipfield g ! (i + 1) \<noteq> 0))
      \<and> free_list_head g = SKIP_MAX then g_addr g # erasure_groups h else erasure_groups h)"
  have H: "groups h' = as @ g2 # bs" "erasure_groups h' = er" "total_size h' = total_size h - 1"
    "begin_pos h' = (if (g_addr g, i) = begin_pos h then ret else begin_pos h)"
    "end_pos h' = end_pos h" "unused_groups h' = unused_groups h" "next_addr h' = next_addr h"
    "min_block_capacity h' = min_block_capacity h" "max_block_capacity h' = max_block_capacity h" "h_id h' = h_id h"
    and R: "i + d \<noteq> g_capacity g \<Longrightarrow> ret = (g_addr g, i + d)"
    using e unfolding erase_in_group_def e2 a Let_def by (auto simp: h1 up er_def)
  have er: "set er = insert (g_addr g) (set (erasure_groups h))" "distinct er"
  proof -
    have alone: "skipfield g ! j = 0" if "free_list_head g = SKIP_MAX" "j \<le> g_capacity g" for j
      using group_free_head [OF G] that I(5) by (cases "j = g_capacity g") (auto simp: skip_ok_def)
    have l: "free_list_head g \<noteq> SKIP_MAX \<longleftrightarrow> g_addr g \<in> set (erasure_groups h)"
      unfolding hive_invD(4) [OF inv] using addr_inj [OF hive_invD(1) [OF inv] gin] gin by auto
    have "er = (if free_list_head g = SKIP_MAX then g_addr g # erasure_groups h else erasure_groups h)"
    proof (cases "free_list_head g = SKIP_MAX")
      case True
      have "i - (if i \<noteq> 0 then 1 else 0) \<le> g_capacity g" "i + 1 \<le> g_capacity g" using i(1) by auto
      from alone [OF True this(1)] alone [OF True this(2)] True show ?thesis by (simp add: er_def)
    qed (simp add: er_def)
    with l show "set er = insert (g_addr g) (set (erasure_groups h))" "distinct er"
      using hive_invD(2) [OF inv] by auto
  qed
  have "hive_inv h'"
  proof (rule hive_inv_replace [OF inv gs E(4,5) H(1,6,7,8,9)])
    show "group_inv (used h' g2) g2" using E(1,4,5) H(5) by (simp add: used_def split: if_splits)
    have nofront: "begin_pos h' = begin_pos h" if "as \<noteq> []"
    proof -
      have "fst (begin_pos h) \<noteq> g_addr g" using ch D gs that by (cases as) (auto simp: chain_ok_def)
      then show ?thesis using H(4) by (auto simp: prod_eq_iff)
    qed
    show "as \<noteq> [] \<Longrightarrow> begin_pos h' = begin_pos h" by (rule nofront)
    have g20: "g_size g2 \<noteq> 0" using E(2,12) s by linarith
    have f: "fst (begin_pos h') = g_addr g \<and> front_ok (snd (begin_pos h')) g2" if "as = []"
    proof -
      have b: "fst (begin_pos h) = g_addr g" "front_ok (snd (begin_pos h)) g"
        using ch gs that by (simp_all add: chain_ok_def)
      moreover have "g_size g \<noteq> 0" using E(2) by simp
      ultimately have b2: "snd (begin_pos h) < g_capacity g" "obj (elements g ! snd (begin_pos h)) \<noteq> None"
        "\<And>j. j < snd (begin_pos h) \<Longrightarrow> obj (elements g ! j) = None" by (auto simp: front_ok_def)
      show ?thesis
      proof (cases "i = snd (begin_pos h)")
        case True
        have dead: "obj (elements g2 ! j) = None" if "j < i + d" for j
          using E(3) [of j] b2(3) [of j] E(8) E(10) [of j] that I(3) True by (cases "j < i") auto
        obtain j where j: "j < g_capacity g" "obj (elements g2 ! j) \<noteq> None"
          using g20 group_invD(4,9) [OF E(1)] E(5) by (auto simp: live_count_0_iff)
        with dead have "i + d \<le> j" by (meson not_less)
        moreover have "j < used h g" using group_invD(7) [OF E(1), of j] j E(5) by auto
        ultimately have l: "i + d < used h g" "i + d < g_capacity g" using j(1) by linarith+
        have o: "obj (elements g2 ! (i + d)) \<noteq> None" using E(3) [OF l(2)] E(9) E(11) [OF l(1)] by simp
        have "begin_pos h' = (g_addr g, i + d)" using R l(2) H(4) b(1) True by (auto simp: prod_eq_iff)
        with o dead l(2) g20 E(5) show ?thesis by (simp add: front_ok_def)
      next
        case False
        then have "begin_pos h' = begin_pos h" using H(4) by (auto simp: prod_eq_iff)
        with b(1) b2 g20 E(3,5) False show ?thesis by (auto simp: front_ok_def)
      qed
    qed
    then show "as = [] \<Longrightarrow> front_ok (snd (begin_pos h')) g2" by simp
    show "fst (begin_pos h') = fst (begin_pos h)"
      using f nofront ch gs by (cases "as = []") (auto simp: chain_ok_def)
  qed (use t E(2,6,12) s er H in auto)
  moreover have "length (elements g2) = length (elements g)"
    using group_invD(4) [OF E(1)] E(5) I(4) by simp
  ultimately show ?thesis using H(1,10) E(3,4) I(4) by auto
qed

lemma erase_empty_group_ok:
  assumes inv: "hive_inv h" and gs: "groups h = as @ g # bs"
    and i: "i < g_capacity g" "obj (elements g ! i) \<noteq> None"
    and g1: "g1 = g\<lparr> elements := destroy_element i (elements g), g_size := sk16 (g_size g + 65535) \<rparr>"
    and h1: "h1 = h\<lparr> groups := as @ g1 # bs, total_size := total_size h - 1 \<rparr>"
    and s: "g_size g1 = 0" and e: "erase_empty_group g1 h1 = (h', ret)"
  shows "hive_inv h' \<and> hive_seq h' = hive_seq h1"
proof -
  have gin: "g \<in> set (groups h)" by (simp add: gs)
  note G = hive_inv_group(1) [OF inv gin]
  note I = group_invD [OF G]
  have ch: "chain_ok h" using hive_invD(5) [OF inv] gin by force
  have D: "distinct (map g_addr (as @ g # bs))" using hive_invD(1) [OF inv] gs by simp
  obtain g2 d where "erase_skipblock i g1 = (g2, d)" by fastforce
  note size = group_inv_erase(12) [OF G i g1 this]
  have a: "g_addr g1 = g_addr g" "free_list_head g1 = free_list_head g" "g_capacity g1 = g_capacity g"
    "skipfield g1 = skipfield g" "elements g1 = destroy_element i (elements g)" by (simp_all add: g1)
  have "live_count (elements g1) = 0"
    using live_count_destroy [of i "elements g"] i I(4,9) size s by (simp add: a)
  then have dead: "\<forall>s \<in> set (elements g1). obj s = None"
    by (simp add: live_count_def filter_empty_conv)
  have un: "unused_ok g1" using I(1,2,4,5) dead a by (simp add: unused_ok_def skip_ok_def)
  have D1: "distinct (map g_addr (as @ g1 # bs))" using D a by simp
  have seq: "hive_seq h1 = concat (map (group_seq (h_id h)) as) @ concat (map (group_seq (h_id h)) bs)"
    by (simp add: hive_seq_def h1 group_seq_def live_from_dead [OF dead])
  have l: "free_list_head g \<noteq> SKIP_MAX \<longleftrightarrow> g_addr g \<in> set (erasure_groups h)"
    unfolding hive_invD(4) [OF inv] using addr_inj [OF hive_invD(1) [OF inv] gin] gin by auto
  have fl: "filter (\<lambda>b. b \<noteq> g_addr g) (erasure_groups h) = erasure_groups h" if "free_list_head g = SKIP_MAX"
    using l that by (intro filter_True) auto
  have front: "g_addr g = fst (begin_pos h) \<longleftrightarrow> as = []"
    using ch D gs by (cases as) (auto simp: chain_ok_def)
  have nx: "next_group (g_addr g) (as @ g1 # bs) = (if bs = [] then None else Some (hd bs))"
    using next_group_eq [OF D1] a(1) by (simp split: list.splits)
  have rm: "remove_group (g_addr g) (as @ g1 # bs) = as @ bs" using remove_group_eq [OF D1] a(1) by simp
  have ts: "total_size h - 1 + g_size g = total_size h"
  proof -
    have "g_size g \<le> total_size h" unfolding hive_invD(3) [OF inv] using gin by (intro member_le_sum_list) auto
    with size s show ?thesis by linarith
  qed
  show ?thesis
  proof (cases "as @ bs = []")
    case True
    then have H: "h' = h\<lparr> total_size := 0, erasure_groups := [], groups := [group_reset 0 g1],
        begin_pos := (g_addr g, 0), end_pos := (g_addr g, 0) \<rparr>"
      using e nx front ts hive_invD(3) [OF inv] gs size s
      by (auto simp: erase_empty_group_def Let_def a h1 reset_only_group_left_def)
    have l1: "length (skipfield g) = g_capacity g + 1" "skipfield g ! g_capacity g = 0"
      using I(5) by (auto simp: skip_ok_def)
    then have "drop (g_capacity g) (skipfield g) = [0]"
      by (metis Cons_nth_drop_Suc Suc_eq_plus1 drop_all le_refl lessI)
    then have z: "skipfield (group_reset 0 g1) ! j = 0" if "j \<le> g_capacity g" for j
      using that by (auto simp: group_reset_def nth_append a)
    have r: "g_capacity (group_reset 0 g1) = g_capacity g" "elements (group_reset 0 g1) = elements g1"
      "g_addr (group_reset 0 g1) = g_addr g" "free_list_head (group_reset 0 g1) = SKIP_MAX"
      "g_size (group_reset 0 g1) = 0" "length (skipfield (group_reset 0 g1)) = g_capacity g + 1"
      using l1 by (simp_all add: group_reset_def a)
    have len: "length (elements g1) = g_capacity g" using un a by (simp add: unused_ok_def)
    have "group_inv 0 (group_reset 0 g1)"
    proof (rule group_invI)
      show "skip_ok (skipfield (group_reset 0 g1)) (g_capacity (group_reset 0 g1))"
        unfolding r by (rule skip_ok_zero [OF r(6) z])
      show "free_ok (group_reset 0 g1)"
        using z r len I(2) by (intro free_ok_zero) auto
    qed (use I(1,2) r len dead z \<open>live_count (elements g1) = 0\<close> in auto)
    then have "chain_ok h'" using r by (simp add: chain_ok_def H used_def front_ok_def)
    then have "hive_inv h'" using inv True gs r by (auto simp: hive_inv_def H)
    moreover have "hive_seq h' = hive_seq h1"
      unfolding seq using True by (simp add: hive_seq_def H group_seq_def r live_from_dead [OF dead])
    ultimately show ?thesis ..
  next
    case False
    have H: "groups h' = as @ bs" "next_addr h' = next_addr h" "h_id h' = h_id h"
      "min_block_capacity h' = min_block_capacity h" "max_block_capacity h' = max_block_capacity h"
      "total_size h' = total_size h - 1"
      "erasure_groups h' = filter (\<lambda>b. b \<noteq> g_addr g) (erasure_groups h)"
      "unused_groups h' = unused_groups h \<or> unused_groups h' = g1 # unused_groups h"
      "as \<noteq> [] \<Longrightarrow> begin_pos h' = begin_pos h" "as = [] \<Longrightarrow> begin_pos h' = group_front (hd bs)"
      "bs \<noteq> [] \<Longrightarrow> end_pos h' = end_pos h"
      "bs = [] \<Longrightarrow> end_pos h' = (g_addr (last as), g_capacity (last as))"
    proof -
      have pv: "previous_group (g_addr g) (as @ [g1]) = Some (last as)" if "as \<noteq> []" "bs = []"
      proof -
        have as': "as = butlast as @ [last as]" using that(1) by simp
        with previous_group_eq [of "butlast as" "last as" g1 "[]"] D1 a(1) that(2) show ?thesis
          by (metis append.assoc append_Cons append_Nil)
      qed
      note defs = erase_empty_group_def Let_def a h1 add_group_to_unused_groups_list_def
        remove_from_groups_with_erasures_list_def
      have "as \<noteq> [] \<or> bs \<noteq> []" using False by simp
      then consider "bs \<noteq> []" "as = []" | "bs \<noteq> []" "as \<noteq> []" | "bs = []" "as \<noteq> []" by blast
      then have "groups h' = as @ bs \<and> next_addr h' = next_addr h \<and> h_id h' = h_id h
        \<and> min_block_capacity h' = min_block_capacity h \<and> max_block_capacity h' = max_block_capacity h
        \<and> total_size h' = total_size h - 1
        \<and> erasure_groups h' = filter (\<lambda>b. b \<noteq> g_addr g) (erasure_groups h)
        \<and> (unused_groups h' = unused_groups h \<or> unused_groups h' = g1 # unused_groups h)
        \<and> begin_pos h' = (if as = [] then group_front (hd bs) else begin_pos h)
        \<and> end_pos h' = (if bs = [] then (g_addr (last as), g_capacity (last as)) else end_pos h)"
        using e pv fl nx rm front by cases (auto simp: defs split: if_splits)
      then show "groups h' = as @ bs" "next_addr h' = next_addr h" "h_id h' = h_id h"
        "min_block_capacity h' = min_block_capacity h" "max_block_capacity h' = max_block_capacity h"
        "total_size h' = total_size h - 1"
        "erasure_groups h' = filter (\<lambda>b. b \<noteq> g_addr g) (erasure_groups h)"
        "unused_groups h' = unused_groups h \<or> unused_groups h' = g1 # unused_groups h"
        "as \<noteq> [] \<Longrightarrow> begin_pos h' = begin_pos h" "as = [] \<Longrightarrow> begin_pos h' = group_front (hd bs)"
        "bs \<noteq> [] \<Longrightarrow> end_pos h' = end_pos h"
        "bs = [] \<Longrightarrow> end_pos h' = (g_addr (last as), g_capacity (last as))"
        by simp_all
    qed
    have "hive_inv h'"
      using H(6) ts un a by (intro hive_inv_unlink [OF inv gs False H(1,2,4,5) _ H(7,8) _ _ H(9-12)]) simp_all
    moreover have "hive_seq h' = hive_seq h1" unfolding seq by (simp add: hive_seq_def H(1,3))
    ultimately show ?thesis ..
  qed
qed

lemma length_construct: "length (construct_element i x els) = length els"
  by (simp add: construct_element_def)

lemma hive_deref_group:
  assumes inv: "hive_inv h" and p: "hive_deref p h = Some y"
  shows "\<exists>as g bs. groups h = as @ g # bs \<and> find_group (it_group p) (groups h) = Some g
    \<and> it_index p < g_capacity g \<and> obj (elements g ! it_index p) = Some y \<and> p = iter_at h (g_addr g, it_index p)"
proof -
  obtain g where g: "find_group (it_group p) (groups h) = Some g" "it_hive p = h_id h"
    "it_index p < g_capacity g" "obj (elements g ! it_index p) = Some y"
    using p by (auto simp: hive_deref_def split: if_splits option.splits)
  obtain as bs where "groups h = as @ g # bs" "g_addr g = it_group p" using find_group_split [OF g(1)] by blast
  with g show ?thesis by (intro exI [of _ as] exI [of _ g] exI [of _ bs]) (simp add: iter_at_def)
qed

lemma hive_del_ok:
  assumes inv: "hive_inv h" and p: "hive_deref p h = Some y"
  shows "\<exists>h'. hive_del p h = Some h' \<and> hive_inv h' \<and> hive_seq h' = filter (\<lambda>q. fst q \<noteq> p) (hive_seq h)"
proof -
  define i where "i = it_index p"
  obtain as g bs where gs: "groups h = as @ g # bs" and f: "find_group (it_group p) (groups h) = Some g"
    and i: "i < g_capacity g" "obj (elements g ! i) = Some y" and pe: "p = iter_at h (g_addr g, i)"
    using hive_deref_group [OF inv p] unfolding i_def by blast
  have len: "length (elements g) = g_capacity g"
    using group_invD(4) [OF hive_inv_group(1) [OF inv]] gs by auto
  have D: "distinct (map g_addr (as @ g # bs))" using hive_invD(1) [OF inv] gs by simp
  define g1 where "g1 = g\<lparr> elements := destroy_element i (elements g), g_size := sk16 (g_size g + 65535) \<rparr>"
  define h1 where "h1 = h\<lparr> groups := as @ g1 # bs, total_size := total_size h - 1 \<rparr>"
  have up: "upd_group g1 (groups h) = as @ g1 # bs" unfolding gs by (rule upd_group_eq [OF D]) (simp add: g1_def)
  obtain h' ret where e: "(if g_size g1 \<noteq> 0 then erase_in_group i g1 h1 else erase_empty_group g1 h1) = (h', ret)"
    by (meson surj_pair)
  have del: "hive_del p h = Some h'"
    unfolding hive_del_def hive_erase_def p f Let_def option.case i_def [symmetric] g1_def [symmetric]
      up h1_def [symmetric] e prod.case by simp
  have o: "obj (elements g ! i) \<noteq> None" using i(2) by simp
  have seq1: "hive_seq h1 = filter (\<lambda>q. fst q \<noteq> p) (hive_seq h)"
    unfolding pe using i o len
    by (intro hive_seq_erase [OF inv gs, of h1 g1]) (simp_all add: h1_def g1_def obj_destroy)
  have "hive_inv h' \<and> hive_seq h' = filter (\<lambda>q. fst q \<noteq> p) (hive_seq h)"
  proof (cases "g_size g1 = 0")
    case True
    with erase_empty_group_ok [OF inv gs i(1) o g1_def h1_def True] e seq1 show ?thesis by simp
  next
    case False
    from erase_in_group_ok [OF inv gs i(1) o g1_def h1_def False] e False
    obtain g2 where g2: "hive_inv h'" "groups h' = as @ g2 # bs" "g_addr g2 = g_addr g"
      "length (elements g2) = length (elements g)" "h_id h' = h_id h"
      "\<And>j. j < length (elements g) \<Longrightarrow> obj (elements g2 ! j) = (if j = i then None else obj (elements g ! j))"
      by auto
    from hive_seq_erase [OF inv gs g2(2,5,3,4) _ o g2(6)] i(1) len g2(1) show ?thesis by (simp add: pe)
  qed
  with del show ?thesis by blast
qed

lemma hive_assign_ok:
  assumes inv: "hive_inv h" and p: "hive_deref p h = Some y"
  shows "\<exists>h'. hive_assign p x h = Some h' \<and> hive_inv h'
    \<and> hive_seq h' = map (\<lambda>q. if fst q = p then (p, x) else q) (hive_seq h)"
proof -
  define i where "i = it_index p"
  obtain as g bs where gs: "groups h = as @ g # bs" and f: "find_group (it_group p) (groups h) = Some g"
    and i: "i < g_capacity g" "obj (elements g ! i) = Some y" and pe: "p = iter_at h (g_addr g, i)"
    using hive_deref_group [OF inv p] unfolding i_def by blast
  have gin: "g \<in> set (groups h)" by (simp add: gs)
  note G = hive_inv_group(1) [OF inv gin]
  note I = group_invD [OF G]
  have ch: "chain_ok h" using hive_invD(5) [OF inv] gin by force
  have D: "distinct (map g_addr (as @ g # bs))" using hive_invD(1) [OF inv] gs by simp
  define g1 where "g1 = g\<lparr> elements := construct_element i x (elements g) \<rparr>"
  define h1 where "h1 = h\<lparr> groups := as @ g1 # bs \<rparr>"
  have up: "upd_group g1 (groups h) = as @ g1 # bs" unfolding gs by (rule upd_group_eq [OF D]) (simp add: g1_def)
  have asg: "hive_assign p x h = Some h1"
    by (simp add: hive_assign_def p f i_def [symmetric] g1_def [symmetric] up h1_def)
  have g1: "g_addr g1 = g_addr g" "g_capacity g1 = g_capacity g" "g_size g1 = g_size g"
    "free_list_head g1 = free_list_head g" "elements g1 = construct_element i x (elements g)"
    by (simp_all add: g1_def)
  have s0: "g_size g \<noteq> 0" using I(4,9) i by (auto simp: live_count_0_iff)
  have l: "free_list_head g \<noteq> SKIP_MAX \<longleftrightarrow> g_addr g \<in> set (erasure_groups h)"
    unfolding hive_invD(4) [OF inv] using addr_inj [OF hive_invD(1) [OF inv] gin] gin by auto
  have inv1: "hive_inv h1"
  proof (rule hive_inv_replace [OF inv gs g1(1,2)])
    show "group_inv (used h1 g1) g1"
      unfolding g1_def using group_inv_assign [OF G i(1), of x] i(2)
      by (simp add: used_def h1_def split: if_splits)
    show "front_ok (snd (begin_pos h1)) g1" if "as = []"
      using ch that gs i I(4) g1 s0 by (auto simp: chain_ok_def h1_def front_ok_def obj_construct)
  qed (use l hive_invD(2) [OF inv] s0 g1 in \<open>auto simp: h1_def\<close>)
  obtain xs ys where s: "hive_seq h = xs @ (p, y) # ys" "hive_seq h1 = xs @ (p, x) # ys"
    using hive_seq_slot [OF gs, of h1 g1 i "Some x"] I(4) i g1
      length_construct
    by (auto simp: h1_def obj_construct slot_seq_def pe)
  have "map (\<lambda>q. if fst q = p then (p, x) else q) zs = zs" if "p \<notin> fst ` set zs" for zs
    using that by (intro map_idI) force
  moreover have "p \<notin> fst ` set xs" "p \<notin> fst ` set ys" using hive_seq_distinct [OF inv] s(1) by auto
  ultimately show ?thesis using asg inv1 s by simp
qed

lemma hive_del_dead: "hive_deref p h = None \<Longrightarrow> hive_del p h = None"
  by (simp add: hive_del_def hive_erase_def)

lemma length_hive_seq:
  assumes inv: "hive_inv h"
  shows "length (hive_seq h) = total_size h"
proof -
  have "map (length \<circ> group_seq (h_id h)) (groups h) = map g_size (groups h)"
    using group_invD(9) [OF hive_inv_group(1) [OF inv]] by (simp add: group_seq_def length_live_from)
  then show ?thesis
    unfolding hive_invD(3) [OF inv] hive_seq_def length_concat map_map by (simp only:)
qed

lemma live_from_first:
  assumes "b < length els" and "obj (els ! b) = Some x" and "\<And>j. j < b \<Longrightarrow> obj (els ! j) = None"
  shows "\<exists>xs. live_from ident a i els = (\<lparr> it_hive = ident, it_group = a, it_index = i + b \<rparr>, x) # xs"
proof -
  have "\<forall>s \<in> set (take b els). obj s = None" using assms by (auto simp: set_conv_nth)
  from live_from_dead [OF this] have "live_from ident a i (take b els @ els ! b # drop (Suc b) els) =
      (\<lparr> it_hive = ident, it_group = a, it_index = i + b \<rparr>, x) # live_from ident a (i + Suc b) (drop (Suc b) els)"
    using assms(1,2) by (simp add: live_from_append)
  with split_at_nth [OF assms(1)] show ?thesis by metis
qed

lemma hive_first_seq:
  assumes inv: "hive_inv h"
  shows "hive_first h = (case hive_seq h of [] \<Rightarrow> None | q # _ \<Rightarrow> Some (fst q))"
proof (cases "groups h")
  case Nil
  with inv have "begin_pos h = end_pos h" by (simp add: hive_inv_def)
  with Nil show ?thesis by (simp add: hive_first_def hive_begin_def hive_end_def hive_seq_def)
next
  case (Cons g gs)
  then have ch: "chain_ok h" using hive_invD(5) [OF inv] by simp
  then have b: "fst (begin_pos h) = g_addr g" "front_ok (snd (begin_pos h)) g"
    "fst (end_pos h) = g_addr (last (groups h))" using Cons by (auto simp: chain_ok_def)
  have G: "group_inv (used h g) g" using hive_inv_group(1) [OF inv] Cons by simp
  note I = group_invD [OF G]
  show ?thesis
  proof (cases "g_size g = 0")
    case True
    then have "gs = []" "snd (end_pos h) = 0" using ch Cons by (auto simp: chain_ok_def)
    moreover from this b True have "begin_pos h = end_pos h"
      using Cons by (simp add: front_ok_def prod_eq_iff)
    moreover have "length (hive_seq h) = 0"
      unfolding length_hive_seq [OF inv] hive_invD(3) [OF inv] using Cons \<open>gs = []\<close> True by simp
    ultimately show ?thesis by (simp add: hive_first_def hive_begin_def hive_end_def)
  next
    case False
    then obtain x where x: "snd (begin_pos h) < g_capacity g" "obj (elements g ! snd (begin_pos h)) = Some x"
      "\<And>j. j < snd (begin_pos h) \<Longrightarrow> obj (elements g ! j) = None"
      using b(2) by (auto simp: front_ok_def)
    have lt: "snd (begin_pos h) < used h g" using I(7) [OF x(1)] x(2) by auto
    have "begin_pos h \<noteq> end_pos h"
    proof
      assume "begin_pos h = end_pos h"
      with lt b(1) show False by (simp add: used_def)
    qed
    then have "hive_first h = Some (iter_at h (begin_pos h))"
      by (auto simp: hive_first_def hive_begin_def hive_end_def iter_at_def prod_eq_iff)
    moreover obtain xs where "group_seq (h_id h) g = (iter_at h (begin_pos h), x) # xs"
      using live_from_first [of "snd (begin_pos h)" "elements g" x "h_id h" "g_addr g" 0] x I(4) b(1)
      by (auto simp: group_seq_def iter_at_def)
    ultimately show ?thesis by (simp add: hive_seq_def Cons)
  qed
qed

lemma hive_inv_new: "0 < mn \<Longrightarrow> mn \<le> mx \<Longrightarrow> mx < SKIP_MAX \<Longrightarrow> hive_inv (hive_new ident mn mx)"
  by (simp add: hive_inv_def hive_new_def)

lemma hive_seq_new: "hive_seq (hive_new ident mn mx) = []"
  by (simp add: hive_seq_def hive_new_def)

text \<open>The hive is a container with stable positions.\<close>

interpretation hv: stable_bag hive_inv hive_seq hive_insert hive_del hive_deref hive_assign hive_first hive_empty
proof (unfold_locales, goal_cases)
  case (1 h) then show ?case by (rule hive_seq_distinct)
next
  case (2 h x) then show ?case by (metis hive_insert_ok(1) prod.collapse)
next
  case (3 h x) then show ?case by (metis hive_insert_ok(2) prod.collapse)
next
  case (4 h p)
  then obtain y where "hive_deref p h = Some y" by (auto simp: hive_deref_seq hive_seq_distinct)
  then show ?case by (rule hive_del_ok [OF 4(1)])
next
  case (5 h p) then show ?case by (simp add: hive_del_dead hive_deref_seq map_of_eq_None_iff)
next
  case (6 h p) then show ?case by (rule hive_deref_seq)
next
  case (7 h p x)
  then obtain y where "hive_deref p h = Some y" by (auto simp: hive_deref_seq hive_seq_distinct)
  then show ?case by (rule hive_assign_ok [OF 7(1)])
next
  case (8 h) then show ?case by (rule hive_first_seq)
next
  case (9 h) then show ?case using length_hive_seq [of h] by (auto simp: hive_empty_def)
qed

section \<open>Iteration visits the elements in the order of the sequence\<close>

lemma skip_jump:
  assumes g: "group_inv u g" and i: "i < g_capacity g" "obj (elements g ! i) \<noteq> None"
  defines "j \<equiv> i + 1 + skipfield g ! (i + 1)"
  shows "j \<le> u" "i < j" "\<And>k. i < k \<Longrightarrow> k < j \<Longrightarrow> obj (elements g ! k) = None"
    "j < u \<Longrightarrow> obj (elements g ! j) \<noteq> None"
proof -
  note I = group_invD [OF g]
  have live: "skipfield g ! i = 0" "i < u" using I(7) [OF i(1)] i(2) by auto
  show "i < j" by (simp add: j_def)
  have "j \<le> u \<and> (\<forall>k. i < k \<longrightarrow> k < j \<longrightarrow> obj (elements g ! k) = None) \<and> (j < u \<longrightarrow> obj (elements g ! j) \<noteq> None)"
  proof (cases "skipfield g ! (i + 1) = 0")
    case True
    then have "j = i + 1" by (simp add: j_def)
    with live True I(3) I(7) [of "i + 1"] show ?thesis by auto
  next
    case False
    have r: "run (skipfield g) (i + 1) (skipfield g ! (i + 1))"
      by (rule run_after [OF I(5) i(1) live(1) False])
    then have d: "\<And>k. i < k \<Longrightarrow> k < j \<Longrightarrow> skipfield g ! k \<noteq> 0" "skipfield g ! j = 0" "j < length (skipfield g)"
      by (auto simp: run_def j_def)
    have len: "length (skipfield g) = g_capacity g + 1" using I(5) by (simp add: skip_ok_def)
    have "j - 1 < u" using d(1) [of "j - 1"] I(8) [of "j - 1"] len d(3) False by (force simp: j_def)
    then have "j \<le> u" by simp
    moreover have "obj (elements g ! k) = None" if "i < k" "k < j" for k
      using d(1) [OF that] I(7) [of k] that d(3) len by simp
    moreover have "obj (elements g ! j) \<noteq> None" if "j < u"
      using I(7) [of j] d(2) that I(3) by simp
    ultimately show ?thesis by blast
  qed
  then show "j \<le> u" "\<And>k. i < k \<Longrightarrow> k < j \<Longrightarrow> obj (elements g ! k) = None"
    "j < u \<Longrightarrow> obj (elements g ! j) \<noteq> None" by blast+
qed

lemma live_from_drop:
  assumes "k \<le> j" "j < length els" "obj (els ! j) = Some y" "\<And>l. k \<le> l \<Longrightarrow> l < j \<Longrightarrow> obj (els ! l) = None"
  shows "\<exists>zs. live_from ident a k (drop k els) = (\<lparr> it_hive = ident, it_group = a, it_index = j \<rparr>, y) # zs"
  using live_from_first [of "j - k" "drop k els" y ident a k] assms by auto

lemma group_seq_at:
  assumes "i < length (elements g)" "obj (elements g ! i) = Some x"
  shows "group_seq ident g = live_from ident (g_addr g) 0 (take i (elements g))
    @ (\<lparr> it_hive = ident, it_group = g_addr g, it_index = i \<rparr>, x)
    # live_from ident (g_addr g) (i + 1) (drop (i + 1) (elements g))"
proof -
  have "elements g = take i (elements g) @ elements g ! i # drop (Suc i) (elements g)"
    using split_at_nth [OF assms(1)] by simp
  then have "group_seq ident g = live_from ident (g_addr g) 0 (take i (elements g) @ elements g ! i # drop (Suc i) (elements g))"
    by (simp add: group_seq_def)
  with assms show ?thesis by (simp add: live_from_append)
qed

lemma distinct_split_unique:
  assumes "distinct (map fst (xs @ (p, x) # ys))" and "xs @ (p, x) # ys = xs' @ (p, x) # ys'"
  shows "ys = ys'"
proof -
  have "p \<notin> fst ` set xs" "p \<notin> fst ` set ys" using assms(1) by simp_all
  then have "(p, x) \<notin> set xs" "(p, x) \<notin> set ys" by force+
  with assms(2) show ?thesis by (simp add: append_Cons_eq_iff)
qed

lemma hive_next_ok:
  assumes inv: "hive_inv h" and s: "hive_seq h = xs @ (p, x) # ys"
  shows "hive_next p h = Some (case ys of [] \<Rightarrow> hive_end h | q # _ \<Rightarrow> fst q)"
proof -
  define i where "i = it_index p"
  have "hive_deref p h = Some x" using hv.get_some_iff [OF inv] s by simp
  then obtain as g bs where gs: "groups h = as @ g # bs" and f: "find_group (it_group p) (groups h) = Some g"
    and i: "i < g_capacity g" "obj (elements g ! i) = Some x" and pe: "p = iter_at h (g_addr g, i)"
    using hive_deref_group [OF inv] unfolding i_def by blast
  have gin: "g \<in> set (groups h)" by (simp add: gs)
  note G = hive_inv_group(1) [OF inv gin]
  note I = group_invD [OF G]
  have ch: "chain_ok h" using hive_invD(5) [OF inv] gin by force
  have D: "distinct (map g_addr (as @ g # bs))" using hive_invD(1) [OF inv] gs by simp
  define j where "j = i + 1 + skipfield g ! (i + 1)"
  have o: "obj (elements g ! i) \<noteq> None" using i(2) by simp
  note J = skip_jump [OF G i(1) o, folded j_def]
  let ?rest = "live_from (h_id h) (g_addr g) (i + 1) (drop (i + 1) (elements g))"
  have "hive_seq h = (concat (map (group_seq (h_id h)) as) @ live_from (h_id h) (g_addr g) 0 (take i (elements g)))
      @ (p, x) # (?rest @ concat (map (group_seq (h_id h)) bs))"
    using group_seq_at [of i g x "h_id h"] i I(4) by (simp add: hive_seq_def gs pe iter_at_def)
  with s hive_seq_distinct [OF inv] have ys: "ys = ?rest @ concat (map (group_seq (h_id h)) bs)"
    by (intro distinct_split_unique [of xs p x ys "concat (map (group_seq (h_id h)) as)
        @ live_from (h_id h) (g_addr g) 0 (take i (elements g))"]) simp_all
  have nx: "next_group (g_addr g) (groups h) = (if bs = [] then None else Some (hd bs))"
    using next_group_eq [OF D] gs by (simp split: list.splits)
  have R: "hive_next p h = (if j = g_capacity g \<and> bs \<noteq> [] then Some (iter_at h (group_front (hd bs)))
      else Some (iter_at h (g_addr g, j)))"
    using nx by (simp add: hive_next_def f Let_def i_def [symmetric] j_def)
  show ?thesis
  proof (cases "j < used h g")
    case True
    then obtain y where y: "obj (elements g ! j) = Some y" "j < g_capacity g" using J(4) I(3) by auto
    have "\<exists>zs. ?rest = (\<lparr> it_hive = h_id h, it_group = g_addr g, it_index = j \<rparr>, y) # zs"
      using y J(2,3) I(4) by (intro live_from_drop) auto
    with ys y(2) R show ?thesis by (auto simp: iter_at_def)
  next
    case False
    then have j: "j = used h g" using J(1) by simp
    have "obj (elements g ! k) = None" if "i + 1 \<le> k" "k < length (elements g)" for k
      using J(3) [of k] I(7) [of k] that j I(4) by (cases "k < j") auto
    then have "\<forall>s \<in> set (drop (i + 1) (elements g)). obj s = None"
      by (auto simp: set_conv_nth)
    from live_from_dead [OF this] have rest: "?rest = []" .
    show ?thesis
    proof (cases "bs = []")
      case True
      then have "g_addr g = fst (end_pos h)" using ch gs by (simp add: chain_ok_def)
      then have "end_pos h = (g_addr g, j)" using j by (simp add: used_def prod_eq_iff)
      with R True ys rest show ?thesis by (simp add: hive_end_def)
    next
      case c: False
      then obtain n bs' where bs: "bs = n # bs'" by (cases bs) auto
      have "g_addr g \<notin> g_addr ` set bs" using D by simp
      then have "g_addr g \<noteq> g_addr (last bs)" using last_in_set [OF c] by (metis imageI)
      then have "j = g_capacity g" using j ch gs c by (simp add: used_def chain_ok_def)
      have nin: "n \<in> set (groups h)" by (simp add: gs bs)
      have ns: "g_size n \<noteq> 0" using hive_inv_group(2) [OF inv nin] gs bs by (cases as) auto
      note N = group_invD [OF hive_inv_group(1) [OF inv nin]]
      have "front_ok (skipfield n ! 0) n" by (rule group_front_ok [OF hive_inv_group(1) [OF inv nin] ns])
      then obtain y where "skipfield n ! 0 < length (elements n)" "obj (elements n ! (skipfield n ! 0)) = Some y"
        "\<And>k. k < skipfield n ! 0 \<Longrightarrow> obj (elements n ! k) = None" using ns N(4) by (auto simp: front_ok_def)
      note y = this
      obtain zs where "group_seq (h_id h) n = (iter_at h (group_front n), y) # zs"
        using live_from_first [of "skipfield n ! 0" "elements n" y "h_id h" "g_addr n" 0] y
        by (auto simp: group_seq_def iter_at_def group_front_def)
      with R \<open>j = g_capacity g\<close> bs ys rest show ?thesis by simp
    qed
  qed
qed

section \<open>Reusing a slot\<close>

text \<open>
  When nothing has been erased before, the element that is inserted next takes the slot of the element erased
  last, and with it its place in the sequence, as long as the block holds another element.
\<close>

lemma erase_first_in_group:
  assumes inv: "hive_inv h" and gs: "groups h = as @ g # bs" and er: "erasure_groups h = []"
    and i: "i < g_capacity g"
    and g1: "g1 = g\<lparr> elements := destroy_element i (elements g), g_size := sk16 (g_size g + 65535) \<rparr>"
    and e: "erase_in_group i g1 (h\<lparr> groups := as @ g1 # bs, total_size := total_size h - 1 \<rparr>) = (h', ret)"
  shows "erasure_groups h' = [g_addr g]" and "\<exists>g2. groups h' = as @ g2 # bs \<and> g_addr g2 = g_addr g \<and> free_list_head g2 = i"
proof -
  have gin: "g \<in> set (groups h)" by (simp add: gs)
  note G = hive_inv_group(1) [OF inv gin]
  note I = group_invD [OF G]
  have D: "distinct (map g_addr (as @ g # bs))" using hive_invD(1) [OF inv] gs by simp
  have f: "free_list_head g = SKIP_MAX" using hive_invD(4) [OF inv] er gin by auto
  then have z: "skipfield g ! j = 0" if "j \<le> g_capacity g" for j
    using group_free_head [OF G] that I(5) by (cases "j = g_capacity g") (auto simp: skip_ok_def)
  have zi: "skipfield g ! (i - (if i \<noteq> 0 then 1 else 0)) = 0" "skipfield g ! (i + 1) = 0" using i by (auto intro!: z)
  define g2 where "g2 = g1\<lparr> skipfield := (skipfield g1)[i := 1],
    elements := edit_free_list_head i (free_list_head g1) (elements g1), free_list_head := i \<rparr>"
  have a: "g_addr g1 = g_addr g" "skipfield g1 = skipfield g" "free_list_head g1 = SKIP_MAX"
    by (simp_all add: g1 f)
  have e2: "erase_skipblock i g1 = (g2, 1)"
    unfolding erase_skipblock_def Let_def a zi by (simp add: g2_def a)
  have up: "upd_group g2 (as @ g1 # bs) = as @ g2 # bs"
    using D a by (intro upd_group_eq) (simp_all add: g2_def)
  have "groups h' = as @ g2 # bs \<and> erasure_groups h' = [g_addr g]"
    using e unfolding erase_in_group_def e2 a Let_def zi by (auto simp: up er)
  then show "erasure_groups h' = [g_addr g]" "\<exists>g2. groups h' = as @ g2 # bs \<and> g_addr g2 = g_addr g \<and> free_list_head g2 = i"
    using a(1) by (auto simp: g2_def)
qed

lemma hive_reuse:
  assumes inv: "hive_inv h" and er: "erasure_groups h = []" and seq: "hive_seq h = xs @ (p, b) # ys"
    and other: "q \<in> fst ` set (xs @ ys)" "it_group q = it_group p" and del: "hive_del p h = Some h'"
  shows "hive_seq (fst (hive_insert x h')) = xs @ (p, x) # ys"
proof -
  have pb: "hive_deref p h = Some b" using hv.get_some_iff [OF inv] seq by simp
  define i where "i = it_index p"
  obtain as g bs where gs: "groups h = as @ g # bs" and f: "find_group (it_group p) (groups h) = Some g"
    and i: "i < g_capacity g" "obj (elements g ! i) = Some b" and pe: "p = iter_at h (g_addr g, i)"
    using hive_deref_group [OF inv pb] unfolding i_def by blast
  have gin: "g \<in> set (groups h)" by (simp add: gs)
  have len: "length (elements g) = g_capacity g" using group_invD(4) [OF hive_inv_group(1) [OF inv gin]] .
  have D: "distinct (map g_addr (as @ g # bs))" using hive_invD(1) [OF inv] gs by simp
  define g1 where "g1 = g\<lparr> elements := destroy_element i (elements g), g_size := sk16 (g_size g + 65535) \<rparr>"
  define h1 where "h1 = h\<lparr> groups := as @ g1 # bs, total_size := total_size h - 1 \<rparr>"
  have up: "upd_group g1 (groups h) = as @ g1 # bs" unfolding gs by (rule upd_group_eq [OF D]) (simp add: g1_def)
  obtain h2 ret where e: "(if g_size g1 \<noteq> 0 then erase_in_group i g1 h1 else erase_empty_group g1 h1) = (h2, ret)"
    by (meson surj_pair)
  have "hive_del p h = Some h2"
    unfolding hive_del_def hive_erase_def pb f Let_def option.case i_def [symmetric] g1_def [symmetric]
      up h1_def [symmetric] e prod.case by simp
  with del have h2: "h2 = h'" by simp
  have o: "obj (elements g ! i) \<noteq> None" using i(2) by simp
  have two: "g_size g1 \<noteq> 0"
  proof -
    obtain y where y: "(q, y) \<in> set (hive_seq h)" "q \<noteq> p"
      using other(1) seq hive_seq_distinct [OF inv] by force
    then obtain gq j where gq: "gq \<in> set (groups h)" "j < length (elements gq)" "obj (elements gq ! j) = Some y"
      "q = \<lparr> it_hive = h_id h, it_group = g_addr gq, it_index = j \<rparr>" by (auto simp: hive_seq_def in_group_seq)
    then have "gq = g" using addr_inj [OF hive_invD(1) [OF inv], of gq g] gin other(2) pe by (simp add: iter_at_def)
    with gq y(2) pe have j: "j \<noteq> i" "j < g_capacity g" "obj (elements g ! j) = Some y" by (auto simp: iter_at_def len)
    obtain g2 d where e2: "erase_skipblock i g1 = (g2, d)" by fastforce
    note E = group_inv_erase [OF hive_inv_group(1) [OF inv gin] i(1) o g1_def e2]
    have "obj (elements g2 ! j) \<noteq> None" using E(3) [OF j(2)] j by simp
    then have "live_count (elements g2) \<noteq> 0"
      using group_invD(4) [OF E(1)] E(5) j(2) by (auto simp: live_count_0_iff)
    then have "g_size g2 \<noteq> 0" using group_invD(9) [OF E(1)] by simp
    with E(2,12) show ?thesis by linarith
  qed
  with e h2 have e1: "erase_in_group i g1 h1 = (h', ret)" by simp
  obtain g2 where g2: "hive_inv h'" "groups h' = as @ g2 # bs" "g_addr g2 = g_addr g"
    "length (elements g2) = length (elements g)" "h_id h' = h_id h"
    "\<And>j. j < length (elements g) \<Longrightarrow> obj (elements g2 ! j) = (if j = i then None else obj (elements g ! j))"
    using erase_in_group_ok [OF inv gs i(1) o g1_def h1_def two e1] by auto
  have er': "erasure_groups h' = [g_addr g]" and "free_list_head g2 = i"
    using erase_first_in_group [OF inv gs er i(1) g1_def e1 [unfolded h1_def]] g2(2) by auto
  have f2: "find_group (g_addr g) (groups h') = Some g2"
    using find_group_eq [of as g2 bs] D g2(2,3) by simp
  obtain g0 where g0: "find_group (fst (end_pos h')) (groups h') = Some g0"
    using find_end_None [OF g2(1)] g2(2) by (cases "find_group (fst (end_pos h')) (groups h')") auto
  obtain h'' p' where ins: "insert_in_erased x g2 h' = (h'', p')" by fastforce
  have hi: "hive_insert x h' = (h'', p')" by (simp add: hive_insert_def g0 er' f2 ins)
  obtain as' bs' g3 where g3: "groups h' = as' @ g2 # bs'" "groups h'' = as' @ g3 # bs'" "g_addr g3 = g_addr g"
    "h_id h'' = h_id h" "length (elements g3) = length (elements g)"
    "\<And>j. j < length (elements g) \<Longrightarrow> obj (elements g3 ! j) = (if j = i then Some x else obj (elements g ! j))"
    using insert_in_erased_ok(3) [OF g2(1) er' f2 ins] g2(3-6) \<open>free_list_head g2 = i\<close> by auto
  have "g2 \<notin> set as" "g2 \<notin> set bs" using hive_invD(1) [OF g2(1)] g2(2) by auto
  then have "as' = as \<and> bs' = bs" using append_Cons_eq_iff [of g2 as bs as' bs'] g3(1) g2(2) by simp
  then have "groups h'' = as @ g3 # bs" using g3(2) by simp
  from hive_seq_slot [OF gs this g3(4,3,5) _ g3(6)] i(1) len
  obtain us vs where u: "hive_seq h = us @ slot_seq p (Some b) @ vs" "hive_seq h'' = us @ slot_seq p (Some x) @ vs"
    by (auto simp: pe i(2))
  have "(p, b) \<notin> set xs" "(p, b) \<notin> set ys" using seq hive_seq_distinct [OF inv] by (auto simp: rev_image_eqI)
  then have "us = xs \<and> vs = ys" using append_Cons_eq_iff [of "(p, b)" xs ys us vs] u(1) seq by (simp add: slot_seq_def)
  with u(2) hi show ?thesis by (simp add: slot_seq_def)
qed

end
