(* ===== verification/Ordered_Map.thy ===== *)
theory Ordered_Map
  imports Prelude
begin

text \<open>
  \<open>std::map\<close>, the container of the price levels: what the order book relies on of it, as a
  locale, and its model, an association list in ascending key order. Iterators into the map
  are keys here: the source never uses one after its entry is erased.
\<close>

section \<open>The interface\<close>

locale ordered_map =
  fixes ok :: "'m \<Rightarrow> bool"
    and entries :: "'m \<Rightarrow> ('k::linorder \<times> 'v) list"
    and find :: "'k \<Rightarrow> 'm \<Rightarrow> 'v option"
    and put :: "'k \<Rightarrow> 'v \<Rightarrow> 'm \<Rightarrow> 'm"
    and erase :: "'k \<Rightarrow> 'm \<Rightarrow> 'm"
    and first :: "'m \<Rightarrow> ('k \<times> 'v) option"
    and last_entry :: "'m \<Rightarrow> ('k \<times> 'v) option"
  assumes sorted_entries: "ok m \<Longrightarrow> sorted_wrt (<) (map fst (entries m))"
    and find_entries: "ok m \<Longrightarrow> find k m = map_of (entries m) k"
    and put_ok: "ok m \<Longrightarrow> ok (put k v m)"
    and put_old: "ok m \<Longrightarrow> entries m = xs @ (k, v0) # ys \<Longrightarrow> entries (put k v m) = xs @ (k, v) # ys"
    and put_new: "ok m \<Longrightarrow> find k m = None \<Longrightarrow>
      \<exists>xs ys. entries m = xs @ ys \<and> entries (put k v m) = xs @ (k, v) # ys"
    and erase_ok: "ok m \<Longrightarrow> ok (erase k m)"
    and erase_entries: "ok m \<Longrightarrow> entries (erase k m) = filter (\<lambda>e. fst e \<noteq> k) (entries m)"
    and first_entries: "ok m \<Longrightarrow> first m = (case entries m of [] \<Rightarrow> None | e # _ \<Rightarrow> Some e)"
    and last_entries: "ok m \<Longrightarrow> last_entry m = (if entries m = [] then None else Some (last (entries m)))"
begin

lemma distinct_keys: "ok m \<Longrightarrow> distinct (map fst (entries m))"
  using sorted_entries strict_sorted_iff by blast

lemma find_some_iff: "ok m \<Longrightarrow> find k m = Some v \<longleftrightarrow> (k, v) \<in> set (entries m)"
  by (simp add: find_entries distinct_keys)

lemma find_put:
  assumes "ok m"
  shows "find k' (put k v m) = (if k' = k then Some v else find k' m)"
proof (cases "find k m")
  case None
  then obtain xs ys where *: "entries m = xs @ ys" "entries (put k v m) = xs @ (k, v) # ys"
    using put_new [OF assms] by blast
  have "k \<notin> fst ` set xs" using None by (auto simp: find_entries assms * map_of_eq_None_iff)
  then have "map_of xs k = None" by (simp add: map_of_eq_None_iff)
  with * show ?thesis
    by (auto simp: find_entries put_ok assms map_add_def split: option.splits)
next
  case (Some v0)
  then have "(k, v0) \<in> set (entries m)" by (simp add: find_some_iff assms)
  then obtain xs ys where *: "entries m = xs @ (k, v0) # ys" by (auto simp: in_set_conv_decomp)
  with put_old [OF assms this] have **: "entries (put k v m) = xs @ (k, v) # ys" by simp
  have "k \<notin> fst ` set xs" using distinct_keys [OF assms] * by auto
  then have "map_of xs k = None" by (simp add: map_of_eq_None_iff)
  with * ** show ?thesis
    by (auto simp: find_entries put_ok assms map_add_def split: option.splits)
qed

lemma find_erase: "ok m \<Longrightarrow> find k' (erase k m) = (if k' = k then None else find k' m)"
proof -
  assume m: "ok m"
  have "map_of (filter (\<lambda>e. fst e \<noteq> k) es) k' = (if k' = k then None else map_of es k')" for es :: "('k \<times> 'v) list"
    by (induction es) auto
  with m show ?thesis by (simp add: find_entries erase_ok erase_entries)
qed

text \<open>The two ends of the map hold its least and its greatest key.\<close>

lemma first_none_iff: "ok m \<Longrightarrow> first m = None \<longleftrightarrow> (\<forall>k. find k m = None)"
  by (cases "entries m") (auto simp: first_entries find_entries split: if_splits)

lemma last_none_iff: "ok m \<Longrightarrow> last_entry m = None \<longleftrightarrow> (\<forall>k. find k m = None)"
  by (cases "entries m") (auto simp: last_entries find_entries split: if_splits)

lemma first_least:
  assumes m: "ok m" and f: "first m = Some (k, v)"
  shows "find k m = Some v" and "find k' m = Some v' \<Longrightarrow> k \<le> k'"
proof -
  obtain es where es: "entries m = (k, v) # es" using f m by (auto simp: first_entries split: list.splits)
  then show "find k m = Some v" by (simp add: find_some_iff m)
  assume "find k' m = Some v'"
  then have "(k', v') \<in> set (entries m)" by (simp add: find_some_iff m)
  with sorted_entries [OF m] es show "k \<le> k'" by (force simp: less_imp_le)
qed

lemma last_greatest:
  assumes m: "ok m" and f: "last_entry m = Some (k, v)"
  shows "find k m = Some v" and "find k' m = Some v' \<Longrightarrow> k' \<le> k"
proof -
  have ne: "entries m \<noteq> []" "last (entries m) = (k, v)" using f m by (auto simp: last_entries split: if_splits)
  then obtain es where es: "entries m = es @ [(k, v)]" by (metis append_butlast_last_id)
  then show "find k m = Some v" by (simp add: find_some_iff m)
  assume "find k' m = Some v'"
  then have "(k', v') \<in> set (entries m)" by (simp add: find_some_iff m)
  with sorted_entries [OF m] es show "k' \<le> k" by (force simp: sorted_wrt_append less_imp_le)
qed

text \<open>Changing or erasing the entry at either end.\<close>

lemma put_first: "ok m \<Longrightarrow> entries m = (k, v0) # es \<Longrightarrow> entries (put k v m) = (k, v) # es"
  using put_old [of m "[]" k v0 es v] by simp

lemma put_last: "ok m \<Longrightarrow> entries m = es @ [(k, v0)] \<Longrightarrow> entries (put k v m) = es @ [(k, v)]"
  using put_old [of m es k v0 "[]" v] by simp

lemma erase_at:
  assumes m: "ok m" and e: "entries m = xs @ (k, v) # ys"
  shows "entries (erase k m) = xs @ ys"
proof -
  have d: "distinct (map fst (xs @ (k, v) # ys))" using distinct_keys [OF m] e by simp
  then have "filter (\<lambda>e. fst e \<noteq> k) xs = xs" "filter (\<lambda>e. fst e \<noteq> k) ys = ys"
    by (auto intro!: filter_fst_notin)
  then show ?thesis by (simp add: erase_entries m e)
qed

end

section \<open>The model\<close>

type_synonym ('k, 'v) omap = "('k \<times> 'v) list"

definition omap_ok :: "('k::linorder, 'v) omap \<Rightarrow> bool" where
  "omap_ok m \<longleftrightarrow> sorted_wrt (<) (map fst m)"

definition omap_entries :: "('k, 'v) omap \<Rightarrow> ('k \<times> 'v) list" where
  "omap_entries m = m"

fun omap_find :: "'k::linorder \<Rightarrow> ('k, 'v) omap \<Rightarrow> 'v option" where
  "omap_find k [] = None"
| "omap_find k ((a, b) # m) = (if k < a then None else if k = a then Some b else omap_find k m)"

fun omap_put :: "'k::linorder \<Rightarrow> 'v \<Rightarrow> ('k, 'v) omap \<Rightarrow> ('k, 'v) omap" where
  "omap_put k v [] = [(k, v)]"
| "omap_put k v ((a, b) # m) =
     (if k < a then (k, v) # (a, b) # m
      else if k = a then (k, v) # m
      else (a, b) # omap_put k v m)"

fun omap_erase :: "'k::linorder \<Rightarrow> ('k, 'v) omap \<Rightarrow> ('k, 'v) omap" where
  "omap_erase k [] = []"
| "omap_erase k ((a, b) # m) = (if k = a then m else (a, b) # omap_erase k m)"

text \<open>\<open>begin()\<close> and \<open>prev(end())\<close>.\<close>

fun omap_begin :: "('k, 'v) omap \<Rightarrow> ('k \<times> 'v) option" where
  "omap_begin [] = None"
| "omap_begin (e # m) = Some e"

fun omap_rbegin :: "('k, 'v) omap \<Rightarrow> ('k \<times> 'v) option" where
  "omap_rbegin [] = None"
| "omap_rbegin [e] = Some e"
| "omap_rbegin (_ # e # m) = omap_rbegin (e # m)"

lemma omap_ok_Cons: "omap_ok ((a, b) # m) \<longleftrightarrow> (\<forall>k \<in> fst ` set m. a < k) \<and> omap_ok m"
  by (auto simp: omap_ok_def)

lemma omap_put_keys: "fst ` set (omap_put k v m) = insert k (fst ` set m)"
  by (induction k v m rule: omap_put.induct) auto

lemma omap_put_ok: "omap_ok m \<Longrightarrow> omap_ok (omap_put k v m)"
  by (induction k v m rule: omap_put.induct) (auto simp: omap_ok_Cons omap_put_keys)

lemma omap_find_eq: "omap_ok m \<Longrightarrow> omap_find k m = map_of m k"
proof (induction k m rule: omap_find.induct)
  case (2 k a b m)
  then have "k < a \<Longrightarrow> map_of m k = None" by (auto simp: omap_ok_Cons map_of_eq_None_iff)
  with 2 show ?case by (auto simp: omap_ok_Cons)
qed simp

lemma omap_put_old: "omap_ok (xs @ (k, v0) # ys) \<Longrightarrow> omap_put k v (xs @ (k, v0) # ys) = xs @ (k, v) # ys"
proof (induction xs)
  case (Cons x xs)
  then have "fst x < k" "omap_ok (xs @ (k, v0) # ys)" by (cases x; force simp: omap_ok_Cons)+
  with Cons.IH show ?case by (cases x) auto
qed simp

lemma omap_put_new:
  "omap_ok m \<Longrightarrow> map_of m k = None \<Longrightarrow> \<exists>xs ys. m = xs @ ys \<and> omap_put k v m = xs @ (k, v) # ys"
proof (induction k v m rule: omap_put.induct)
  case (2 k v a b m)
  show ?case
  proof (cases "k < a")
    case True
    then show ?thesis by (intro exI [of _ "[]"] exI [of _ "(a, b) # m"]) auto
  next
    case False
    with 2 obtain xs ys where "m = xs @ ys" "omap_put k v m = xs @ (k, v) # ys"
      by (auto simp: omap_ok_Cons split: if_splits)
    with False 2 show ?thesis by (intro exI [of _ "(a, b) # xs"] exI [of _ ys]) auto
  qed
qed auto

lemma omap_erase_eq: "omap_ok m \<Longrightarrow> omap_erase k m = filter (\<lambda>e. fst e \<noteq> k) m"
proof (induction k m rule: omap_erase.induct)
  case (2 k a b m)
  have "filter (\<lambda>e. fst e \<noteq> a) m = m" using 2 by (intro filter_fst_notin) (auto simp: omap_ok_Cons)
  with 2 show ?case by (auto simp: omap_ok_Cons)
qed simp

lemma omap_erase_ok: "omap_ok m \<Longrightarrow> omap_ok (omap_erase k m)"
  by (simp add: omap_erase_eq) (auto simp: omap_ok_def sorted_wrt_map sorted_wrt_filter)

lemma omap_rbegin_eq: "omap_rbegin m = (if m = [] then None else Some (last m))"
  by (induction m rule: omap_rbegin.induct) auto

interpretation om: ordered_map omap_ok omap_entries omap_find omap_put omap_erase omap_begin omap_rbegin
proof (unfold_locales, unfold omap_entries_def)
  show "sorted_wrt (<) (map fst m)" if "omap_ok m" for m :: "('k::linorder, 'v) omap"
    using that by (simp add: omap_ok_def)
  show "omap_begin m = (case m of [] \<Rightarrow> None | e # _ \<Rightarrow> Some e)" for m :: "('k::linorder, 'v) omap"
    by (cases m) auto
  show "omap_ok (omap_erase k m)" if "omap_ok m" for k and m :: "('k::linorder, 'v) omap"
    using that by (rule omap_erase_ok)
qed (auto simp: omap_put_ok omap_find_eq omap_put_old omap_put_new omap_erase_eq omap_rbegin_eq)

end
