(* ===== verification/Order_Types.thy ===== *)
theory Order_Types
  imports Prelude
begin

unbundle bit_operations_syntax

text \<open>
  The data every component exchanges (includes/types.h): the enumerations, the packed
  record \<open>order_t\<close>, the 16-byte order identifier and its hash function.

  The enumerations of the source have a fixed underlying type, so a cast from a byte may
  give a value that is none of the enumerators, and the code tests for that. They are
  therefore bytes here, with the enumerators as named values. A \<open>char\<close> array is a
  list of bytes; \<open>size_t\<close> is 64 bits wide.
\<close>

section \<open>Enumerations and constants\<close>

type_synonym order_kind = u8
type_synonym order_side = u8
type_synonym order_status = u8

definition TICKER_LEN :: nat where "TICKER_LEN = 4"
definition ORDER_ID_LEN :: nat where "ORDER_ID_LEN = 16"

abbreviation (input) LMT :: order_kind where "LMT \<equiv> 0"
abbreviation (input) MKT :: order_kind where "MKT \<equiv> 1"

abbreviation (input) BUY :: order_side where "BUY \<equiv> 0"
abbreviation (input) SELL :: order_side where "SELL \<equiv> 1"

abbreviation (input) NEW :: order_status where "NEW \<equiv> 0"
abbreviation (input) PARTIALLY_FILLED :: order_status where "PARTIALLY_FILLED \<equiv> 1"
abbreviation (input) FILLED :: order_status where "FILLED \<equiv> 2"
abbreviation (input) CANCELLED :: order_status where "CANCELLED \<equiv> 3"

section \<open>Order identifiers\<close>

text \<open>\<open>order_id_key\<close> wraps the 16 bytes of an identifier.\<close>

datatype order_id_key = Order_Id_Key (key_bytes: "u8 list")

text \<open>
  \<open>memcmp(a, b, n)\<close> compares the first \<open>n\<close> bytes as unsigned numbers and returns a
  value whose sign is the sign of the first difference.
\<close>

fun memcmp :: "u8 list \<Rightarrow> u8 list \<Rightarrow> nat \<Rightarrow> int" where
  "memcmp (a # as) (b # bs) (Suc n) =
     (if a = b then memcmp as bs n else uint a - uint b)"
| "memcmp _ _ _ = 0"

definition key_eq :: "order_id_key \<Rightarrow> order_id_key \<Rightarrow> bool" where
  "key_eq a b \<longleftrightarrow> memcmp (key_bytes a) (key_bytes b) 16 = 0"

definition key_ok :: "order_id_key \<Rightarrow> bool" where
  "key_ok k \<longleftrightarrow> length (key_bytes k) = ORDER_ID_LEN"

lemma memcmp_eq_0_iff:
  "length as = n \<Longrightarrow> length bs = n \<Longrightarrow> memcmp as bs n = 0 \<longleftrightarrow> as = bs"
  by (induction as bs n rule: memcmp.induct) (auto simp: word_uint_eq_iff)

text \<open>
  On identifiers of the declared length the comparison operator of the source is equality,
  which is why the other components may compare keys with \<open>=\<close>.
\<close>

lemma key_eq_iff: "key_ok a \<Longrightarrow> key_ok b \<Longrightarrow> key_eq a b \<longleftrightarrow> a = b"
  by (cases a; cases b) (simp add: key_eq_def key_ok_def ORDER_ID_LEN_def memcmp_eq_0_iff)

section \<open>The hash of an identifier\<close>

text \<open>
  The hash function casts each \<open>char\<close> to \<open>size_t\<close>. \<open>char\<close> is signed on the platforms the
  build targets, so the cast extends the sign.
\<close>

definition fnv_prime :: u64 where "fnv_prime = 1099511628211"
definition fnv_offset :: u64 where "fnv_offset = 14695981039346656037"

fun hash_loop :: "u64 \<Rightarrow> u8 list \<Rightarrow> u64" where
  "hash_loop hash [] = hash"
| "hash_loop hash (c # cs) = hash_loop ((hash XOR scast c) * fnv_prime) cs"

definition order_id_hasher :: "order_id_key \<Rightarrow> u64" where
  "order_id_hasher key = hash_loop fnv_offset (take 16 (key_bytes key))"

text \<open>The published FNV-1a hash takes each octet as an unsigned number.\<close>

fun fnv1a :: "u64 \<Rightarrow> u8 list \<Rightarrow> u64" where
  "fnv1a hash [] = hash"
| "fnv1a hash (c # cs) = fnv1a ((hash XOR ucast c) * fnv_prime) cs"

lemma scast_ascii: "c < 128 \<Longrightarrow> (scast (c :: u8) :: u64) = ucast c"
proof -
  assume "c < 128"
  then have "uint c < 128" by (simp add: word_less_alt)
  then have "signed_take_bit 7 (uint c) = uint c"
    by (intro signed_take_bit_int_eq_self) (auto intro: order_trans [OF _ uint_ge_0])
  then have "sint c = uint c" by (simp add: sint_uint)
  then show ?thesis by (simp add: scast_eq)
qed

lemma hash_loop_ascii: "(\<forall>c \<in> set cs. c < 128) \<Longrightarrow> hash_loop h cs = fnv1a h cs"
  by (induction h cs rule: hash_loop.induct) (simp_all add: scast_ascii)

section \<open>Orders\<close>

record order_t =
  o_order_id :: "u8 list"
  o_timestamp :: u64
  o_qty :: u64
  o_ticker :: "u8 list"
  o_price :: u32
  o_kind :: u8
  o_side :: u8
  o_status :: u8
  o_post_only :: bool

definition make_order_t ::
  "u64 \<Rightarrow> u8 list \<Rightarrow> u8 list \<Rightarrow> order_kind \<Rightarrow> order_side \<Rightarrow> order_status \<Rightarrow> u32 \<Rightarrow> u64 \<Rightarrow> bool \<Rightarrow> order_t"
where
  "make_order_t timestamp order_id ticker kind side status price qty post_only =
     \<lparr> o_order_id = take ORDER_ID_LEN order_id, o_timestamp = timestamp, o_qty = qty,
       o_ticker = take TICKER_LEN ticker, o_price = price, o_kind = kind, o_side = side,
       o_status = status, o_post_only = post_only \<rparr>"

text \<open>The key under which an order is filed: a copy of its identifier.\<close>

definition key_of :: "order_t \<Rightarrow> order_id_key" where
  "key_of o1 = Order_Id_Key (take ORDER_ID_LEN (o_order_id o1))"

section \<open>Properties\<close>

text \<open>
  The comparison of two identifiers is equality: \<open>memcmp\<close> over the 16 bytes finds no
  difference exactly when the identifiers are the same.
\<close>

theorem key_eq_correct:
  assumes "key_ok a" and "key_ok b"
  shows "key_eq a b \<longleftrightarrow> a = b"
  by (rule key_eq_iff [OF assms])

theorem key_eq_correct_witness:
  "key_eq (Order_Id_Key (replicate 16 65)) (Order_Id_Key (replicate 15 65 @ [66]))
    \<longleftrightarrow> Order_Id_Key (replicate 16 65) = Order_Id_Key (replicate 15 65 @ [66])"
  by (rule key_eq_correct) (simp_all add: key_ok_def ORDER_ID_LEN_def)

text \<open>
  The hash of an identifier made of ASCII characters is its 64-bit FNV-1a hash, and it
  depends on nothing but the 16 bytes that the comparison looks at.
\<close>

theorem order_id_hash_fnv1a:
  assumes "\<forall>c \<in> set (take 16 bs). c < 128"
  shows "order_id_hasher (Order_Id_Key bs) = fnv1a fnv_offset (take 16 bs)"
  using assms by (simp add: order_id_hasher_def hash_loop_ascii)

theorem order_id_hash_fnv1a_witness:
  "order_id_hasher (Order_Id_Key (replicate 16 65)) = fnv1a fnv_offset (replicate 16 65)"
  using order_id_hash_fnv1a [of "replicate 16 65"] by simp

text \<open>
  For a byte above 127 the hash is not FNV-1a: the cast of the signed \<open>char\<close> sets the upper
  56 bits of the operand.
\<close>

theorem order_id_hash_sign_extends:
  "order_id_hasher (Order_Id_Key (128 # replicate 15 0)) \<noteq> fnv1a fnv_offset (128 # replicate 15 0)"
proof -
  have "(scast (128 :: u8) :: u64) = 0xFFFFFFFFFFFFFF80" by (simp add: scast_eq)
  moreover have "replicate 15 (0 :: u8) = [0, 0, 0, 0, 0, 0, 0, 0, 0, 0, 0, 0, 0, 0, 0]"
    by (simp add: numeral_eq_Suc)
  ultimately show ?thesis
    by (simp add: order_id_hasher_def fnv_offset_def fnv_prime_def)
qed

end
