(* ===== verification/Log_Events.thy ===== *)
theory Log_Events
  imports Order_Types
begin

text \<open>
  The events of the log (includes/logger.h, src/logger.cpp): \<open>log_event_t\<close> with its default
  constructor, the four functions that build an event for the order book, and the line of
  text an event becomes.
\<close>

section \<open>Events\<close>

datatype log_event_kind = PRICE_LEVEL_UPDATE | TRADE_REPORT | MODIFY | CANCEL

record log_event_t =
  ev_timestamp :: u64
  ev_order_id :: "u8 list"
  ev_kind :: log_event_kind
  ev_price :: u32
  ev_qty :: u64
  ev_side :: order_side
  ev_order_id_secondary :: "u8 list"
  ev_price_secondary :: u32
  ev_qty_secondary :: u64
  ev_side_secondary :: order_side

definition new_log_event :: log_event_t where
  "new_log_event =
     \<lparr> ev_timestamp = 0, ev_order_id = replicate ORDER_ID_LEN 0, ev_kind = PRICE_LEVEL_UPDATE,
       ev_price = 0, ev_qty = 0, ev_side = BUY,
       ev_order_id_secondary = replicate ORDER_ID_LEN 0, ev_price_secondary = 0,
       ev_qty_secondary = 0, ev_side_secondary = BUY \<rparr>"

text \<open>
  The functions \<open>log_*\<close> of the source build an event and push it. Here they return the
  event; pushing it is a step of the theory \<open>Logger\<close>.
\<close>

definition log_price_level_update :: "u64 \<Rightarrow> u8 list \<Rightarrow> u32 \<Rightarrow> u64 \<Rightarrow> order_side \<Rightarrow> log_event_t" where
  "log_price_level_update ts ord_id price qty side =
     new_log_event\<lparr> ev_timestamp := ts, ev_kind := PRICE_LEVEL_UPDATE,
       ev_order_id := take ORDER_ID_LEN ord_id, ev_price := price, ev_qty := qty, ev_side := side \<rparr>"

definition log_trade_report :: "u64 \<Rightarrow> u8 list \<Rightarrow> u32 \<Rightarrow> u64 \<Rightarrow> u8 list \<Rightarrow> u32 \<Rightarrow> log_event_t" where
  "log_trade_report ts buy_id buy_price matched_qty sell_id sell_price =
     new_log_event\<lparr> ev_timestamp := ts, ev_kind := TRADE_REPORT,
       ev_order_id := take ORDER_ID_LEN buy_id, ev_price := buy_price, ev_qty := matched_qty, ev_side := BUY,
       ev_order_id_secondary := take ORDER_ID_LEN sell_id, ev_price_secondary := sell_price,
       ev_qty_secondary := matched_qty, ev_side_secondary := SELL \<rparr>"

definition log_modify_order ::
  "u64 \<Rightarrow> u8 list \<Rightarrow> u32 \<Rightarrow> u64 \<Rightarrow> order_side \<Rightarrow> u8 list \<Rightarrow> u32 \<Rightarrow> u64 \<Rightarrow> order_side \<Rightarrow> log_event_t" where
  "log_modify_order ts old_id old_price old_qty old_side new_id new_price new_qty new_side =
     new_log_event\<lparr> ev_timestamp := ts, ev_kind := MODIFY,
       ev_order_id := take ORDER_ID_LEN new_id, ev_price := new_price, ev_qty := new_qty, ev_side := new_side,
       ev_order_id_secondary := take ORDER_ID_LEN old_id, ev_price_secondary := old_price,
       ev_qty_secondary := old_qty, ev_side_secondary := old_side \<rparr>"

definition log_cancel_order :: "u64 \<Rightarrow> u8 list \<Rightarrow> u32 \<Rightarrow> u64 \<Rightarrow> order_side \<Rightarrow> log_event_t" where
  "log_cancel_order ts ord_id price qty side =
     new_log_event\<lparr> ev_timestamp := ts, ev_kind := CANCEL,
       ev_order_id := take ORDER_ID_LEN ord_id, ev_price := price, ev_qty := qty, ev_side := side \<rparr>"

lemmas log_constructors = log_price_level_update_def log_trade_report_def log_modify_order_def
  log_cancel_order_def new_log_event_def

section \<open>The line of an event\<close>

text \<open>Decimal digits, as \<open>operator<<\<close> prints an unsigned number.\<close>

fun show_nat :: "nat \<Rightarrow> string" where
  "show_nat n = (if n < 10 then [char_of (48 + n)] else show_nat (n div 10) @ [char_of (48 + n mod 10)])"

declare show_nat.simps [simp del]

definition show_word :: "'n::len word \<Rightarrow> string" where
  "show_word w = show_nat (unat w)"

definition show_id :: "u8 list \<Rightarrow> string" where
  "show_id bs = map (\<lambda>b. char_of (unat b)) (take ORDER_ID_LEN bs)"

fun show_kind :: "log_event_kind \<Rightarrow> string" where
  "show_kind PRICE_LEVEL_UPDATE = ''\"type\":\"price_level_update\"''"
| "show_kind TRADE_REPORT = ''\"type\":\"trade_report\"''"
| "show_kind MODIFY = ''\"type\":\"modify\"''"
| "show_kind CANCEL = ''\"type\":\"cancel\"''"

definition event_to_line :: "log_event_t \<Rightarrow> string" where
  "event_to_line ev =
     ''{'' @ show_kind (ev_kind ev)
     @ '',\"timestamp\":'' @ show_word (ev_timestamp ev)
     @ '',\"order_id\":\"'' @ show_id (ev_order_id ev) @ ''\"''
     @ '',\"price\":'' @ show_word (ev_price ev)
     @ '',\"qty\":'' @ show_word (ev_qty ev)
     @ '',\"side\":'' @ show_word (ev_side ev)
     @ (if ev_kind ev = TRADE_REPORT \<or> ev_kind ev = MODIFY then
          '',\"order_id_secondary\":\"'' @ show_id (ev_order_id_secondary ev) @ ''\"''
          @ '',\"price_secondary\":'' @ show_word (ev_price_secondary ev)
          @ '',\"qty_secondary\":'' @ show_word (ev_qty_secondary ev)
          @ '',\"side_secondary\":'' @ show_word (ev_side_secondary ev)
        else [])
     @ ''}''"

section \<open>Lines determine their events\<close>

text \<open>An event the constructors can build from identifiers of the declared length.\<close>

definition event_ok :: "log_event_t \<Rightarrow> bool" where
  "event_ok e \<longleftrightarrow> length (ev_order_id e) = ORDER_ID_LEN \<and> length (ev_order_id_secondary e) = ORDER_ID_LEN
     \<and> (ev_kind e \<in> {PRICE_LEVEL_UPDATE, CANCEL} \<longrightarrow>
          ev_order_id_secondary e = replicate ORDER_ID_LEN 0 \<and> ev_price_secondary e = 0
          \<and> ev_qty_secondary e = 0 \<and> ev_side_secondary e = BUY)"

lemma event_ok_constructors:
  "ORDER_ID_LEN \<le> length i \<Longrightarrow> event_ok (log_price_level_update ts i p q s)"
  "ORDER_ID_LEN \<le> length i \<Longrightarrow> event_ok (log_cancel_order ts i p q s)"
  "ORDER_ID_LEN \<le> length i \<Longrightarrow> ORDER_ID_LEN \<le> length j \<Longrightarrow> event_ok (log_trade_report ts i p q j p')"
  "ORDER_ID_LEN \<le> length i \<Longrightarrow> ORDER_ID_LEN \<le> length j \<Longrightarrow> event_ok (log_modify_order ts j p' q' s' i p q s)"
  by (simp_all add: event_ok_def log_constructors)

text \<open>Reading decimal digits back.\<close>

definition is_digit :: "char \<Rightarrow> bool" where
  "is_digit c \<longleftrightarrow> 48 \<le> (of_char c :: nat) \<and> (of_char c :: nat) \<le> 57"

definition read_nat :: "string \<Rightarrow> nat" where
  "read_nat s = foldl (\<lambda>a c. 10 * a + (of_char c - 48)) 0 s"

lemma show_nat_digits: "c \<in> set (show_nat n) \<Longrightarrow> is_digit c"
proof (induction n rule: show_nat.induct)
  case (1 n)
  show ?case
  proof (cases "n < 10")
    case True
    with 1 show ?thesis by (simp add: show_nat.simps [of n] is_digit_def)
  next
    case False
    with 1 show ?thesis by (auto simp: show_nat.simps [of n] is_digit_def)
  qed
qed

lemma read_show_nat: "read_nat (show_nat n) = n"
proof (induction n rule: show_nat.induct)
  case (1 n)
  show ?case
  proof (cases "n < 10")
    case True
    then show ?thesis by (simp add: show_nat.simps [of n] read_nat_def)
  next
    case False
    then have "read_nat (show_nat n) = 10 * read_nat (show_nat (n div 10)) + n mod 10"
      by (simp add: show_nat.simps [of n] read_nat_def)
    with 1 [OF False] show ?thesis by simp
  qed
qed

lemma split_at_first:
  "xs @ c # r = ys @ c # r' \<Longrightarrow> c \<notin> set xs \<Longrightarrow> c \<notin> set ys \<Longrightarrow> xs = ys \<and> r = r'"
proof (induction xs arbitrary: ys)
  case Nil
  then show ?case by (cases ys) auto
next
  case (Cons x xs)
  then show ?case by (cases ys) auto
qed

lemma show_word_peel:
  assumes "show_word (a :: 'n::len word) @ c # r = show_word b @ c # r'" and "\<not> is_digit c"
  shows "a = b \<and> r = r'"
proof -
  have "c \<notin> set (show_word a)" "c \<notin> set (show_word b)"
    using show_nat_digits assms(2) by (auto simp: show_word_def)
  with assms(1) have *: "show_word a = show_word b \<and> r = r'"
    by (intro split_at_first)
  then have "unat a = unat b" using read_show_nat unfolding show_word_def by metis
  with * show ?thesis by (simp add: word_unat_eq_iff)
qed

lemma show_id_peel:
  assumes "show_id a @ r = show_id b @ r'" and "length a = ORDER_ID_LEN" "length b = ORDER_ID_LEN"
  shows "a = b \<and> r = r'"
proof -
  have "show_id a = show_id b" "r = r'" using assms by (simp_all add: show_id_def)
  moreover have "inj (\<lambda>b :: u8. (char_of (unat b) :: char))"
  proof (rule injI)
    fix x y :: u8
    assume "(char_of (unat x) :: char) = char_of (unat y)"
    moreover have "unat x < 256" "unat y < 256" by (rule order_less_le_trans [OF unsigned_less], simp)+
    ultimately have "unat x = unat y" by (metis of_char_of mod_less)
    then show "x = y" by (simp add: word_unat_eq_iff)
  qed
  ultimately show ?thesis using assms by (simp add: show_id_def inj_map_eq_map)
qed

lemma not_digit [simp]: "\<not> is_digit CHR '',''" "\<not> is_digit CHR ''}''"
  by (simp_all add: is_digit_def)

lemma event_prefix:
  assumes "event_to_line e @ r = event_to_line e' @ r'" and "event_ok e" "event_ok e'"
  shows "e = e' \<and> r = r'"
proof -
  have len: "length (ev_order_id e) = ORDER_ID_LEN" "length (ev_order_id e') = ORDER_ID_LEN"
    "length (ev_order_id_secondary e) = ORDER_ID_LEN" "length (ev_order_id_secondary e') = ORDER_ID_LEN"
    using assms(2,3) by (auto simp: event_ok_def)
  have k: "ev_kind e = ev_kind e'"
    using assms(1) by (cases "ev_kind e"; cases "ev_kind e'") (simp_all add: event_to_line_def)
  let ?two = "ev_kind e = TRADE_REPORT \<or> ev_kind e = MODIFY"
  define tl1 where "tl1 f = (if ?two then
      '',\"order_id_secondary\":\"'' @ show_id (ev_order_id_secondary f) @ ''\"''
      @ '',\"price_secondary\":'' @ show_word (ev_price_secondary f)
      @ '',\"qty_secondary\":'' @ show_word (ev_qty_secondary f)
      @ '',\"side_secondary\":'' @ show_word (ev_side_secondary f) else [])" for f :: log_event_t
  have l: "event_to_line f = ''{'' @ show_kind (ev_kind f)
     @ '',\"timestamp\":'' @ show_word (ev_timestamp f)
     @ '',\"order_id\":\"'' @ show_id (ev_order_id f) @ ''\"''
     @ '',\"price\":'' @ show_word (ev_price f) @ '',\"qty\":'' @ show_word (ev_qty f)
     @ '',\"side\":'' @ show_word (ev_side f) @ tl1 f @ ''}''" if "f = e \<or> f = e'" for f
    using that k by (auto simp: event_to_line_def tl1_def)
  from assms(1) have 1: "show_word (ev_timestamp e) @ CHR '','' # (''\"order_id\":\"'' @ show_id (ev_order_id e) @ ''\",\"price\":''
      @ show_word (ev_price e) @ '',\"qty\":'' @ show_word (ev_qty e) @ '',\"side\":'' @ show_word (ev_side e) @ tl1 e @ CHR ''}'' # r)
    = show_word (ev_timestamp e') @ CHR '','' # (''\"order_id\":\"'' @ show_id (ev_order_id e') @ ''\",\"price\":''
      @ show_word (ev_price e') @ '',\"qty\":'' @ show_word (ev_qty e') @ '',\"side\":'' @ show_word (ev_side e') @ tl1 e' @ CHR ''}'' # r')"
    by (simp add: l k)
  note P1 = show_word_peel [OF 1 not_digit(1)]
  then have "show_id (ev_order_id e) @ ''\",\"price\":''
      @ show_word (ev_price e) @ '',\"qty\":'' @ show_word (ev_qty e) @ '',\"side\":'' @ show_word (ev_side e) @ tl1 e @ CHR ''}'' # r
    = show_id (ev_order_id e') @ ''\",\"price\":''
      @ show_word (ev_price e') @ '',\"qty\":'' @ show_word (ev_qty e') @ '',\"side\":'' @ show_word (ev_side e') @ tl1 e' @ CHR ''}'' # r'"
    by simp
  note P2 = show_id_peel [OF this len(1,2)]
  then have 3: "show_word (ev_price e) @ CHR '','' # (''\"qty\":'' @ show_word (ev_qty e) @ '',\"side\":'' @ show_word (ev_side e) @ tl1 e @ CHR ''}'' # r)
    = show_word (ev_price e') @ CHR '','' # (''\"qty\":'' @ show_word (ev_qty e') @ '',\"side\":'' @ show_word (ev_side e') @ tl1 e' @ CHR ''}'' # r')"
    by simp
  note P3 = show_word_peel [OF 3 not_digit(1)]
  then have 4: "show_word (ev_qty e) @ CHR '','' # (''\"side\":'' @ show_word (ev_side e) @ tl1 e @ CHR ''}'' # r)
    = show_word (ev_qty e') @ CHR '','' # (''\"side\":'' @ show_word (ev_side e') @ tl1 e' @ CHR ''}'' # r')"
    by simp
  note P4 = show_word_peel [OF 4 not_digit(1)]
  then have 5: "show_word (ev_side e) @ tl1 e @ CHR ''}'' # r = show_word (ev_side e') @ tl1 e' @ CHR ''}'' # r'"
    by simp
  show ?thesis
  proof (cases ?two)
    case False
    then have "show_word (ev_side e) @ CHR ''}'' # r = show_word (ev_side e') @ CHR ''}'' # r'"
      using 5 by (simp add: tl1_def)
    note P5 = show_word_peel [OF this not_digit(2)]
    have "ev_kind e \<in> {PRICE_LEVEL_UPDATE, CANCEL}" using False by (cases "ev_kind e") auto
    then have "ev_order_id_secondary e = ev_order_id_secondary e'" "ev_price_secondary e = ev_price_secondary e'"
      "ev_qty_secondary e = ev_qty_secondary e'" "ev_side_secondary e = ev_side_secondary e'"
      using assms(2,3) k by (auto simp: event_ok_def)
    with P1 P2 P3 P4 P5 k show ?thesis by simp
  next
    case True
    define tl2 where "tl2 f r = ''\",\"price_secondary\":'' @ show_word (ev_price_secondary f)
      @ '',\"qty_secondary\":'' @ show_word (ev_qty_secondary f)
      @ '',\"side_secondary\":'' @ show_word (ev_side_secondary f) @ CHR ''}'' # r" for f :: log_event_t and r
    have t: "tl1 f @ CHR ''}'' # r = CHR '','' # (''\"order_id_secondary\":\"'' @ show_id (ev_order_id_secondary f) @ tl2 f r)" for f r
      using True by (simp add: tl1_def tl2_def)
    from 5 have 5: "show_word (ev_side e) @ CHR '','' # (''\"order_id_secondary\":\"'' @ show_id (ev_order_id_secondary e) @ tl2 e r)
      = show_word (ev_side e') @ CHR '','' # (''\"order_id_secondary\":\"'' @ show_id (ev_order_id_secondary e') @ tl2 e' r')"
      unfolding t .
    note P5 = show_word_peel [OF 5 not_digit(1)]
    then have "show_id (ev_order_id_secondary e) @ tl2 e r = show_id (ev_order_id_secondary e') @ tl2 e' r'" by simp
    note P6 = show_id_peel [OF this len(3,4)]
    then have 7: "show_word (ev_price_secondary e) @ CHR '','' # (''\"qty_secondary\":'' @ show_word (ev_qty_secondary e)
        @ '',\"side_secondary\":'' @ show_word (ev_side_secondary e) @ CHR ''}'' # r)
      = show_word (ev_price_secondary e') @ CHR '','' # (''\"qty_secondary\":'' @ show_word (ev_qty_secondary e')
        @ '',\"side_secondary\":'' @ show_word (ev_side_secondary e') @ CHR ''}'' # r')"
      by (simp add: tl2_def)
    note P7 = show_word_peel [OF 7 not_digit(1)]
    then have 8: "show_word (ev_qty_secondary e) @ CHR '','' # (''\"side_secondary\":'' @ show_word (ev_side_secondary e) @ CHR ''}'' # r)
      = show_word (ev_qty_secondary e') @ CHR '','' # (''\"side_secondary\":'' @ show_word (ev_side_secondary e') @ CHR ''}'' # r')"
      by simp
    note P8 = show_word_peel [OF 8 not_digit(1)]
    then have "show_word (ev_side_secondary e) @ CHR ''}'' # r = show_word (ev_side_secondary e') @ CHR ''}'' # r'" by simp
    note P9 = show_word_peel [OF this not_digit(2)]
    from P1 P2 P3 P4 P5 P6 P7 P8 P9 k show ?thesis by simp
  qed
qed

text \<open>The text of the log file: one line per event.\<close>

definition log_text :: "log_event_t list \<Rightarrow> string" where
  "log_text evs = concat (map (\<lambda>e. event_to_line e @ [CHR 0x0A]) evs)"

lemma log_text_inj:
  "log_text es = log_text es' \<Longrightarrow> \<forall>e \<in> set es. event_ok e \<Longrightarrow> \<forall>e \<in> set es'. event_ok e \<Longrightarrow> es = es'"
proof (induction es arbitrary: es')
  case Nil
  then show ?case by (cases es') (simp_all add: log_text_def)
next
  case (Cons e es)
  then obtain e' es1 where es': "es' = e' # es1" by (cases es') (simp_all add: log_text_def)
  from Cons.prems(1) have "event_to_line e @ CHR 0x0A # log_text es = event_to_line e' @ CHR 0x0A # log_text es1"
    by (simp add: log_text_def es')
  moreover have "event_ok e" "event_ok e'" using Cons.prems(2,3) es' by simp_all
  ultimately have "e = e'" "log_text es = log_text es1"
    using event_prefix [of e "CHR 0x0A # log_text es" e' "CHR 0x0A # log_text es1"] by simp_all
  with Cons es' show ?case by simp
qed

section \<open>Properties\<close>

text \<open>
  C36: the log is lossless: the text written for a list of events determines the list. Every
  event the four logging functions build meets the condition (\<open>event_ok_constructors\<close>). No line
  is a prefix of another, whatever bytes the identifiers contain, because their length is fixed.
\<close>

theorem log_text_lossless:
  assumes "log_text es = log_text es'" and "\<forall>e \<in> set es. event_ok e" and "\<forall>e \<in> set es'. event_ok e"
  shows "es = es'"
  by (rule log_text_inj [OF assms])

theorem log_text_lossless_witness:
  "[log_cancel_order 1 (replicate 16 44) 100 5 BUY] = [log_cancel_order 1 (replicate 16 44) 100 (2 + 3) BUY]"
  by (rule log_text_lossless) (simp_all add: event_ok_constructors ORDER_ID_LEN_def)

end
