(* ===== verification/Orderbook.thy ===== *)
theory Orderbook
  imports Hive Ordered_Map Log_Events
begin

text \<open>
  The order book of one symbol (includes/orderbook.h, src/orderbook.cpp): two maps from
  prices to price levels, each level a hive of orders with the sum of their quantities, and
  the table that finds an order by its identifier.

  An operation returns its result, the events it pushes to the logger (none without a
  logger) and the new book. \<open>None\<close> stands for undefined behaviour: dereferencing an iterator
  that points at no order, or the end iterator of a map.

  With a logger, \<open>modify\<close> and \<open>cancel\<close> read the fields they log from an order they have already erased. The
  standard leaves that undefined: for such a read the parameter \<open>dead\<close> gives \<open>None\<close>, or, for a platform on
  which the memory can still be read, some order. The argument of \<open>dead\<close> is the order that was there.

  The container \<open>robin_hood::unordered_map\<close> is a finite map here.
\<close>

section \<open>State\<close>

definition MAX_PRICE :: u32 where "MAX_PRICE = 20000"

datatype order_result =
  SUCCESS | DUPLICATE_ID | ORDER_NOT_FOUND | INVALID_SIDE | INVALID_PRICE | NO_MATCH

record order_location =
  loc_price :: u32
  location_in_hive :: hive_iterator

record price_level =
  orders :: "order_t hive"
  total_qty :: u64

text \<open>
  \<open>next_hive\<close> numbers the hives in the order of their creation, so that an iterator
  identifies the hive it points into.
\<close>

record orderbook =
  bids :: "(u32, price_level) omap"
  asks :: "(u32, price_level) omap"
  order_id_lookup :: "order_id_key \<Rightarrow> order_location option"
  log_attached :: bool
  next_hive :: nat

definition new_orderbook :: "bool \<Rightarrow> orderbook" where
  "new_orderbook log_instance =
     \<lparr> bids = [], asks = [], order_id_lookup = (\<lambda>_. None), log_attached = log_instance, next_hive = 0 \<rparr>"

text \<open>A level as it is created: an empty hive with the default capacity limits, no quantity.\<close>

definition new_price_level :: "nat \<Rightarrow> price_level" where
  "new_price_level ident =
     \<lparr> orders = hive_new ident (block_capacity_default_min 88 64 44) block_capacity_default_max,
       total_qty = 0 \<rparr>"

section \<open>Choosing and updating a side\<close>

definition container :: "order_side \<Rightarrow> orderbook \<Rightarrow> (u32, price_level) omap" where
  "container side ob = (if side = BUY then bids ob else asks ob)"

definition set_container :: "order_side \<Rightarrow> (u32, price_level) omap \<Rightarrow> orderbook \<Rightarrow> orderbook" where
  "set_container side m ob = (if side = BUY then ob\<lparr> bids := m \<rparr> else ob\<lparr> asks := m \<rparr>)"

definition log_event :: "log_event_t \<Rightarrow> orderbook \<Rightarrow> log_event_t list" where
  "log_event ev ob = (if log_attached ob then [ev] else [])"

text \<open>\<open>operator[]\<close> of the map: the level at a price, created on demand.\<close>

definition level_at :: "order_side \<Rightarrow> u32 \<Rightarrow> orderbook \<Rightarrow> price_level \<times> orderbook" where
  "level_at side price ob =
     (case omap_find price (container side ob) of
        Some level \<Rightarrow> (level, ob)
      | None \<Rightarrow> (new_price_level (next_hive ob), ob\<lparr> next_hive := next_hive ob + 1 \<rparr>))"

text \<open>Inserting an order at its price, with the quantity of the level.\<close>

definition insert_at_level :: "order_side \<Rightarrow> order_t \<Rightarrow> orderbook \<Rightarrow> hive_iterator \<times> orderbook" where
  "insert_at_level side order ob =
     (let (level, ob1) = level_at side (o_price order) ob;
          (h, it) = hive_insert order (orders level);
          level1 = level\<lparr> orders := h, total_qty := total_qty level + o_qty order \<rparr>
      in (it, set_container side (omap_put (o_price order) level1 (container side ob1)) ob1))"

text \<open>
  Erasing the order at \<open>it\<close>, which has quantity \<open>qty\<close>, from the level at \<open>price\<close>; a level
  that becomes empty is erased.
\<close>

definition erase_at_level :: "order_side \<Rightarrow> u32 \<Rightarrow> hive_iterator \<Rightarrow> u64 \<Rightarrow> orderbook \<Rightarrow> orderbook option" where
  "erase_at_level side price it qty ob = do {
     level \<leftarrow> omap_find price (container side ob);
     h \<leftarrow> hive_del it (orders level);
     Some (if hive_empty h then set_container side (omap_erase price (container side ob)) ob
           else set_container side (omap_put price
                  (level\<lparr> orders := h, total_qty := total_qty level - qty \<rparr>) (container side ob)) ob)
   }"

text \<open>Dereferencing an iterator: the order it points at, in whichever level holds its hive.\<close>

fun find_hive :: "nat \<Rightarrow> (u32, price_level) omap \<Rightarrow> order_t hive option" where
  "find_hive ident [] = None"
| "find_hive ident ((p, l) # ls) = (if h_id (orders l) = ident then Some (orders l) else find_hive ident ls)"

definition deref :: "hive_iterator \<Rightarrow> orderbook \<Rightarrow> order_t option" where
  "deref it ob = do { h \<leftarrow> find_hive (it_hive it) (bids ob @ asks ob); hive_deref it h }"

section \<open>Operations\<close>

definition book_contains :: "order_id_key \<Rightarrow> orderbook \<Rightarrow> bool" where
  "book_contains ident ob \<longleftrightarrow> order_id_lookup ob ident \<noteq> None"

definition best_bid :: "orderbook \<Rightarrow> u32 option" where
  "best_bid ob = (if bids ob = [] then None else map_option fst (omap_rbegin (bids ob)))"

definition best_ask :: "orderbook \<Rightarrow> u32 option" where
  "best_ask ob = (if asks ob = [] then None else map_option fst (omap_begin (asks ob)))"

definition book_add :: "order_t \<Rightarrow> orderbook \<Rightarrow> (order_result \<times> log_event_t list) \<times> orderbook" where
  "book_add order ob =
     (let key = key_of order; side = o_side order in
      if book_contains key ob then ((DUPLICATE_ID, []), ob)
      else if side \<noteq> BUY \<and> side \<noteq> SELL then ((INVALID_SIDE, []), ob)
      else if o_price order > MAX_PRICE then ((INVALID_PRICE, []), ob)
      else
        let (it, ob1) = insert_at_level side order ob;
            loc = \<lparr> loc_price = o_price order, location_in_hive = it \<rparr>;
            ob2 = ob1\<lparr> order_id_lookup := (order_id_lookup ob1)(key \<mapsto> loc) \<rparr>;
            ev = log_price_level_update (o_timestamp order) (o_order_id order) (o_price order) (o_qty order) side
        in ((SUCCESS, log_event ev ob2), ob2))"

definition book_modify ::
  "(order_t \<Rightarrow> order_t option) \<Rightarrow> order_id_key \<Rightarrow> order_t \<Rightarrow> orderbook
    \<Rightarrow> ((order_result \<times> log_event_t list) \<times> orderbook) option" where
  "book_modify dead ident new_order ob =
     (case order_id_lookup ob ident of
        None \<Rightarrow> Some ((ORDER_NOT_FOUND, []), ob)
      | Some loc \<Rightarrow>
          let new_side = o_side new_order in
          if new_side \<noteq> BUY \<and> new_side \<noteq> SELL then Some ((INVALID_SIDE, []), ob)
          else if o_price new_order > MAX_PRICE then Some ((INVALID_PRICE, []), ob)
          else do {
            old_order \<leftarrow> deref (location_in_hive loc) ob;
            ob1 \<leftarrow> erase_at_level (o_side old_order) (o_price old_order) (location_in_hive loc) (o_qty old_order) ob;
            let (it, ob2) = insert_at_level new_side new_order ob1;
            let loc1 = \<lparr> loc_price = o_price new_order, location_in_hive = it \<rparr>;
            let ob3 = ob2\<lparr> order_id_lookup := (order_id_lookup ob2)(ident \<mapsto> loc1) \<rparr>;
            if log_attached ob3 then do {
              old \<leftarrow> dead old_order;
              let ev = log_modify_order (o_timestamp new_order) (o_order_id old) (o_price old) (o_qty old) (o_side old)
                         (o_order_id new_order) (o_price new_order) (o_qty new_order) new_side;
              Some ((SUCCESS, [ev]), ob3)
            } else Some ((SUCCESS, []), ob3)
          })"

definition book_cancel ::
  "(order_t \<Rightarrow> order_t option) \<Rightarrow> order_id_key \<Rightarrow> orderbook
    \<Rightarrow> ((order_result \<times> log_event_t list) \<times> orderbook) option" where
  "book_cancel dead ident ob =
     (case order_id_lookup ob ident of
        None \<Rightarrow> Some ((ORDER_NOT_FOUND, []), ob)
      | Some loc \<Rightarrow> do {
          stored \<leftarrow> deref (location_in_hive loc) ob;
          ob1 \<leftarrow> erase_at_level (o_side stored) (loc_price loc) (location_in_hive loc) (o_qty stored) ob;
          let ob2 = ob1\<lparr> order_id_lookup := (order_id_lookup ob1)(ident := None) \<rparr>;
          if log_attached ob2 then do {
            old \<leftarrow> dead stored;
            let ev = log_cancel_order (o_timestamp old) (o_order_id old) (o_price old) (o_qty old) (o_side old);
            Some ((SUCCESS, [ev]), ob2)
          } else Some ((SUCCESS, []), ob2)
        })"

section \<open>Matching\<close>

text \<open>
  An order whose quantity a trade has brought to zero leaves its level and the table; the
  level itself is erased at the end of the iteration.
\<close>

definition erase_if_filled ::
  "hive_iterator \<Rightarrow> order_t \<Rightarrow> order_t hive \<times> (order_id_key \<Rightarrow> order_location option)
    \<Rightarrow> (order_t hive \<times> (order_id_key \<Rightarrow> order_location option)) option" where
  "erase_if_filled it o1 s =
     (if o_qty o1 = 0 then do { h \<leftarrow> hive_del it (fst s); Some (h, (snd s)(key_of o1 := None)) }
      else Some s)"

definition store_level :: "order_side \<Rightarrow> u32 \<Rightarrow> price_level \<Rightarrow> orderbook \<Rightarrow> orderbook" where
  "store_level side price level ob =
     set_container side
       (if hive_empty (orders level) then omap_erase price (container side ob)
        else omap_put price level (container side ob)) ob"

text \<open>One iteration of the loop of \<open>execute\<close>: \<open>Some None\<close> is the \<open>break\<close>.\<close>

definition execute_step :: "u64 \<Rightarrow> orderbook \<Rightarrow> (log_event_t list \<times> orderbook) option option" where
  "execute_step match_ts ob =
     (case (omap_rbegin (bids ob), omap_begin (asks ob)) of
        (Some (bid_price, bid_level), Some (ask_price, ask_level)) \<Rightarrow>
          if bid_price < ask_price then Some None
          else (case (hive_first (orders bid_level), hive_first (orders ask_level)) of
            (Some b_it, Some a_it) \<Rightarrow> do {
              buy \<leftarrow> hive_deref b_it (orders bid_level);
              sell \<leftarrow> hive_deref a_it (orders ask_level);
              let m = min (o_qty buy) (o_qty sell);
              let buy1 = buy\<lparr> o_qty := o_qty buy - m \<rparr>;
              let sell1 = sell\<lparr> o_qty := o_qty sell - m \<rparr>;
              let ev = log_trade_report match_ts (o_order_id buy1) bid_price m (o_order_id sell1) ask_price;
              bh \<leftarrow> hive_assign b_it buy1 (orders bid_level);
              ah \<leftarrow> hive_assign a_it sell1 (orders ask_level);
              (bh1, lookup1) \<leftarrow> erase_if_filled b_it buy1 (bh, order_id_lookup ob);
              (ah1, lookup2) \<leftarrow> erase_if_filled a_it sell1 (ah, lookup1);
              let ob1 = store_level BUY bid_price
                          (bid_level\<lparr> orders := bh1, total_qty := total_qty bid_level - m \<rparr>) ob;
              let ob2 = store_level SELL ask_price
                          (ask_level\<lparr> orders := ah1, total_qty := total_qty ask_level - m \<rparr>) ob1;
              Some (Some (log_event ev ob, ob2\<lparr> order_id_lookup := lookup2 \<rparr>))
            }
          | _ \<Rightarrow> Some None)
      | _ \<Rightarrow> Some None)"

text \<open>
  The loop has no bound in the source: the value is \<open>None\<close> also when it does not end.
\<close>

partial_function (option) execute_loop :: "u64 \<Rightarrow> log_event_t list \<Rightarrow> orderbook
    \<Rightarrow> (log_event_t list \<times> orderbook) option" where
  "execute_loop match_ts evs ob =
     (case execute_step match_ts ob of
        None \<Rightarrow> None
      | Some None \<Rightarrow> Some (evs, ob)
      | Some (Some (ev, ob1)) \<Rightarrow> execute_loop match_ts (evs @ ev) ob1)"

declare execute_loop.simps [code]

definition execute :: "u64 \<Rightarrow> orderbook \<Rightarrow> (log_event_t list \<times> orderbook) option" where
  "execute match_ts ob = execute_loop match_ts [] ob"

end
