(* ===== verification/Book_Inv.thy ===== *)
theory Book_Inv
  imports Orderbook
begin

text \<open>
  The invariant of the order book and the effect of inserting and erasing one order at a
  price level. Everything about the containers comes from the two interfaces, \<open>hv\<close> for the
  hive of a level and \<open>om\<close> for the maps of levels.
\<close>


section \<open>Which hive a position belongs to\<close>

lemma hive_seq_ids: "(p, x) \<in> set (hive_seq h) \<Longrightarrow> it_hive p = h_id h"
  by (auto simp: hive_seq_def in_group_seq)

lemma h_id_insert: "h_id (fst (hive_insert x h)) = h_id h"
  by (simp add: hive_insert_def insert_into_empty_def insert_at_end_def insert_in_new_group_def
      insert_in_erased_def update_skipblock_def Let_def split: option.splits list.splits)

lemma h_id_erase_empty_group: "h_id (fst (erase_empty_group g h)) = h_id h"
  by (simp add: erase_empty_group_def Let_def remove_from_groups_with_erasures_list_def
      reset_only_group_left_def add_group_to_unused_groups_list_def split: option.splits)

lemma h_id_del: "hive_del p h = Some h' \<Longrightarrow> h_id h' = h_id h"
proof -
  have 1: "erase_in_group i g h1 = (h2, r) \<Longrightarrow> h_id h2 = h_id h1" for i and g :: "'a group" and h1 h2 r
    by (auto simp: erase_in_group_def Let_def split: prod.splits)
  have 2: "erase_empty_group g h1 = (h2, r) \<Longrightarrow> h_id h2 = h_id h1" for g :: "'a group" and h1 h2 r
    using h_id_erase_empty_group [of g h1] by simp
  assume "hive_del p h = Some h'"
  then show ?thesis
    by (auto simp: hive_del_def hive_erase_def Let_def split: option.splits prod.splits if_splits dest!: 1 2)
qed

lemma h_id_assign: "hive_assign p x h = Some h' \<Longrightarrow> h_id h' = h_id h"
  by (auto simp: hive_assign_def split: option.splits)

section \<open>The invariant\<close>

definition is_side :: "order_side \<Rightarrow> bool" where
  "is_side s \<longleftrightarrow> s = BUY \<or> s = SELL"

definition level_orders :: "price_level \<Rightarrow> order_t list" where
  "level_orders l = hv.elems (orders l)"

lemma level_orders_code [code]: "level_orders l = map snd (hive_seq (orders l))"
  by (simp add: level_orders_def hv.elems_def)

definition find_level :: "order_side \<Rightarrow> u32 \<Rightarrow> orderbook \<Rightarrow> price_level option" where
  "find_level s p ob = omap_find p (container s ob)"

definition order_ok :: "order_side \<Rightarrow> u32 \<Rightarrow> order_t \<Rightarrow> bool" where
  "order_ok s p o1 \<longleftrightarrow> o_side o1 = s \<and> o_price o1 = p \<and> length (o_order_id o1) = ORDER_ID_LEN"

definition level_ok :: "order_side \<Rightarrow> u32 \<Rightarrow> price_level \<Rightarrow> bool" where
  "level_ok s p l \<longleftrightarrow> hive_inv (orders l) \<and> level_orders l \<noteq> [] \<and> p \<le> MAX_PRICE
     \<and> (\<forall>o1 \<in> set (level_orders l). order_ok s p o1)
     \<and> total_qty l = sum_list (map o_qty (level_orders l))"

definition levels_inv :: "orderbook \<Rightarrow> bool" where
  "levels_inv ob \<longleftrightarrow> (\<forall>s. is_side s \<longrightarrow> omap_ok (container s ob))
     \<and> (\<forall>s p l. is_side s \<longrightarrow> find_level s p ob = Some l \<longrightarrow>
          level_ok s p l \<and> h_id (orders l) < next_hive ob)
     \<and> (\<forall>s p l s' p' l'. is_side s \<longrightarrow> is_side s' \<longrightarrow> find_level s p ob = Some l \<longrightarrow>
          find_level s' p' ob = Some l' \<longrightarrow> h_id (orders l) = h_id (orders l') \<longrightarrow> s = s' \<and> p = p')"

text \<open>The order \<open>o1\<close> stands in the book at the location \<open>loc\<close>.\<close>

definition located :: "orderbook \<Rightarrow> order_location \<Rightarrow> order_t \<Rightarrow> bool" where
  "located ob loc o1 \<longleftrightarrow> (\<exists>s l. is_side s \<and> find_level s (loc_price loc) ob = Some l
     \<and> (location_in_hive loc, o1) \<in> set (hive_seq (orders l)))"

definition book_inv :: "orderbook \<Rightarrow> bool" where
  "book_inv ob \<longleftrightarrow> levels_inv ob
     \<and> (\<forall>k loc. order_id_lookup ob k = Some loc \<longleftrightarrow> (\<exists>o1. located ob loc o1 \<and> key_of o1 = k))"

lemma is_side_simps [simp]: "is_side BUY" "is_side SELL" by (simp_all add: is_side_def)

lemma ex_side: "(\<exists>s. is_side s \<and> P s) \<longleftrightarrow> P BUY \<or> P SELL"
  by (auto simp: is_side_def)

lemma container_set:
  "is_side s \<Longrightarrow> is_side s' \<Longrightarrow> container s (set_container s' m ob) = (if s = s' then m else container s ob)"
  by (auto simp: is_side_def container_def set_container_def)

lemma set_container_frame [simp]:
  "order_id_lookup (set_container s m ob) = order_id_lookup ob" "log_attached (set_container s m ob) = log_attached ob"
  "next_hive (set_container s m ob) = next_hive ob"
  by (simp_all add: set_container_def)

lemma container_frame [simp]:
  "container s (ob\<lparr> order_id_lookup := x \<rparr>) = container s ob" "container s (ob\<lparr> next_hive := n \<rparr>) = container s ob"
  by (simp_all add: container_def)

lemma find_level_frame [simp]:
  "find_level s p (ob\<lparr> order_id_lookup := x \<rparr>) = find_level s p ob"
  "find_level s p (ob\<lparr> next_hive := n \<rparr>) = find_level s p ob"
  by (simp_all add: find_level_def)

lemma levels_inv_frame [simp]:
  "levels_inv (ob\<lparr> order_id_lookup := x \<rparr>) = levels_inv ob"
  "located (ob\<lparr> order_id_lookup := x \<rparr>) loc o1 = located ob loc o1"
  by (simp_all add: levels_inv_def located_def)

lemma levels_invD:
  assumes "levels_inv ob"
  shows "is_side s \<Longrightarrow> omap_ok (container s ob)"
    and "is_side s \<Longrightarrow> find_level s p ob = Some l \<Longrightarrow> level_ok s p l"
    and "is_side s \<Longrightarrow> find_level s p ob = Some l \<Longrightarrow> h_id (orders l) < next_hive ob"
    and "is_side s \<Longrightarrow> is_side s' \<Longrightarrow> find_level s p ob = Some l \<Longrightarrow> find_level s' p' ob = Some l' \<Longrightarrow>
      h_id (orders l) = h_id (orders l') \<Longrightarrow> s = s' \<and> p = p'"
  using assms unfolding levels_inv_def by blast+

lemma level_okD:
  assumes "level_ok s p l"
  shows "hive_inv (orders l)" "level_orders l \<noteq> []" "p \<le> MAX_PRICE"
    "o1 \<in> set (level_orders l) \<Longrightarrow> order_ok s p o1"
    "total_qty l = sum_list (map o_qty (level_orders l))"
  using assms by (auto simp: level_ok_def)

lemma in_level: "(it, o1) \<in> set (hive_seq (orders l)) \<Longrightarrow> o1 \<in> set (level_orders l)"
  by (force simp: level_orders_def hv.elems_def)

text \<open>One level of the book is replaced, added or removed.\<close>

lemma levels_inv_upd:
  assumes inv: "levels_inv ob" and s: "is_side s"
    and ok: "\<And>s'. is_side s' \<Longrightarrow> omap_ok (container s' ob')"
    and find: "\<And>s' p'. is_side s' \<Longrightarrow>
      find_level s' p' ob' = (if s' = s \<and> p' = p then lo else find_level s' p' ob)"
    and n: "next_hive ob \<le> next_hive ob'"
    and lo: "\<And>l. lo = Some l \<Longrightarrow> level_ok s p l \<and> h_id (orders l) < next_hive ob' \<and>
      (\<forall>s' p' l'. is_side s' \<longrightarrow> find_level s' p' ob = Some l' \<longrightarrow> h_id (orders l') = h_id (orders l) \<longrightarrow> s' = s \<and> p' = p)"
  shows "levels_inv ob'"
  unfolding levels_inv_def
proof (intro conjI allI impI)
  fix s1 p1 l1 assume 1: "is_side s1" "find_level s1 p1 ob' = Some l1"
  have c1: "s1 = s \<and> p1 = p \<and> lo = Some l1 \<or> \<not> (s1 = s \<and> p1 = p) \<and> find_level s1 p1 ob = Some l1"
    using 1 find [OF 1(1), of p1] by (simp split: if_splits)
  then show "level_ok s1 p1 l1" "h_id (orders l1) < next_hive ob'"
    using lo levels_invD(2,3) [OF inv 1(1), of p1 l1] n by fastforce+
  fix s2 p2 l2 assume 2: "is_side s2" "find_level s2 p2 ob' = Some l2" "h_id (orders l1) = h_id (orders l2)"
  have c2: "s2 = s \<and> p2 = p \<and> lo = Some l2 \<or> \<not> (s2 = s \<and> p2 = p) \<and> find_level s2 p2 ob = Some l2"
    using 2 find [OF 2(1), of p2] by (simp split: if_splits)
  have "s1 = s2 \<and> p1 = p2"
    using c1
  proof (elim disjE conjE)
    assume a: "s1 = s" "p1 = p" "lo = Some l1"
    from c2 lo [OF a(3)] 2 a show ?thesis by metis
  next
    assume a: "\<not> (s1 = s \<and> p1 = p)" "find_level s1 p1 ob = Some l1"
    from c2 show ?thesis
    proof (elim disjE conjE)
      assume "s2 = s" "p2 = p" "lo = Some l2"
      with lo [of l2] 1(1) 2(3) a show ?thesis by metis
    next
      assume "find_level s2 p2 ob = Some l2"
      from levels_invD(4) [OF inv 1(1) 2(1) a(2) this 2(3)] show ?thesis .
    qed
  qed
  then show "s1 = s2" "p1 = p2" by simp_all
qed (rule ok)

lemma located_upd:
  assumes "is_side s"
    and "\<And>s' p'. is_side s' \<Longrightarrow> find_level s' p' ob' = (if s' = s \<and> p' = p then lo else find_level s' p' ob)"
  shows "located ob' loc o1 \<longleftrightarrow>
    (\<exists>l. lo = Some l \<and> loc_price loc = p \<and> (location_in_hive loc, o1) \<in> set (hive_seq (orders l)))
    \<or> (\<exists>s' l. is_side s' \<and> \<not> (s' = s \<and> loc_price loc = p) \<and> find_level s' (loc_price loc) ob = Some l
         \<and> (location_in_hive loc, o1) \<in> set (hive_seq (orders l)))"
  using assms unfolding located_def by (auto split: if_splits)

lemma located_same_level:
  assumes inv: "levels_inv ob" and "is_side s" "is_side s'"
    and "find_level s p ob = Some l" "(it, o1) \<in> set (hive_seq (orders l))"
    and "find_level s' p' ob = Some l'" "(it, o2) \<in> set (hive_seq (orders l'))"
  shows "s = s'" "p = p'" "l = l'" "o1 = o2"
proof -
  have "h_id (orders l) = h_id (orders l')" using assms(5,7) hive_seq_ids by metis
  with levels_invD(4) [OF inv assms(2,3,4,6)] show "s = s'" "p = p'" by auto
  with assms show l: "l = l'" by simp
  have "hive_inv (orders l)" using level_okD(1) levels_invD(2) [OF inv assms(2,4)] by blast
  with l assms(5,7) show "o1 = o2" using hv.get_some_iff by (metis option.inject)
qed

lemma located_fun:
  assumes "levels_inv ob" and "located ob loc o1" and "located ob loc o2"
  shows "o1 = o2"
  using assms(2,3) located_same_level(4) [OF assms(1)] unfolding located_def by blast

lemma located_order:
  assumes "levels_inv ob" and "located ob loc o1"
  shows "is_side (o_side o1)" "o_price o1 = loc_price loc" "o_price o1 \<le> MAX_PRICE"
    "length (o_order_id o1) = ORDER_ID_LEN"
    "\<exists>l. find_level (o_side o1) (o_price o1) ob = Some l \<and> (location_in_hive loc, o1) \<in> set (hive_seq (orders l))"
proof -
  obtain s l where s: "is_side s" "find_level s (loc_price loc) ob = Some l"
    "(location_in_hive loc, o1) \<in> set (hive_seq (orders l))" using assms(2) by (auto simp: located_def)
  with levels_invD(2) [OF assms(1) s(1,2)] have "order_ok s (loc_price loc) o1" "loc_price loc \<le> MAX_PRICE"
    by (auto dest: level_okD in_level)
  with s show "is_side (o_side o1)" "o_price o1 = loc_price loc" "o_price o1 \<le> MAX_PRICE"
    "length (o_order_id o1) = ORDER_ID_LEN"
    "\<exists>l. find_level (o_side o1) (o_price o1) ob = Some l \<and> (location_in_hive loc, o1) \<in> set (hive_seq (orders l))"
    by (auto simp: order_ok_def)
qed

text \<open>Dereferencing the iterator of a location finds the order.\<close>

lemma find_hive_None: "find_hive i m = None \<longleftrightarrow> (\<forall>p l. (p, l) \<in> set m \<longrightarrow> h_id (orders l) \<noteq> i)"
  by (induction i m rule: find_hive.induct) auto

lemma find_hive_Some: "find_hive i m = Some h \<Longrightarrow> \<exists>p l. (p, l) \<in> set m \<and> orders l = h \<and> h_id h = i"
  by (induction i m rule: find_hive.induct) (auto split: if_splits)

lemma find_level_iff: "levels_inv ob \<Longrightarrow> is_side s \<Longrightarrow> find_level s p ob = Some l \<longleftrightarrow> (p, l) \<in> set (container s ob)"
  using om.find_some_iff [OF levels_invD(1)] by (simp add: find_level_def omap_entries_def)

lemma deref_located:
  assumes inv: "levels_inv ob" and loc: "located ob loc o1"
  shows "deref (location_in_hive loc) ob = Some o1"
proof -
  obtain s l where s: "is_side s" "find_level s (loc_price loc) ob = Some l"
    "(location_in_hive loc, o1) \<in> set (hive_seq (orders l))" using loc by (auto simp: located_def)
  have i: "it_hive (location_in_hive loc) = h_id (orders l)" using hive_seq_ids [OF s(3)] .
  have "set (bids ob @ asks ob) = {e. \<exists>s. is_side s \<and> e \<in> set (container s ob)}"
    by (auto simp: ex_side container_def)
  then have in_book: "(p', l') \<in> set (bids ob @ asks ob) \<longleftrightarrow> (\<exists>s'. is_side s' \<and> find_level s' p' ob = Some l')" for p' l'
    using find_level_iff [OF inv] by auto
  have "find_hive (h_id (orders l)) (bids ob @ asks ob) = Some (orders l)"
  proof (cases "find_hive (h_id (orders l)) (bids ob @ asks ob)")
    case None
    have m: "(loc_price loc, l) \<in> set (bids ob @ asks ob)"
      unfolding in_book using s by (intro exI [of _ s]) simp
    from None [unfolded find_hive_None, rule_format, OF m] show ?thesis by simp
  next
    case (Some h)
    then obtain p' l' where l': "(p', l') \<in> set (bids ob @ asks ob)" "orders l' = h" "h_id h = h_id (orders l)"
      using find_hive_Some by blast
    then obtain s' where "is_side s'" "find_level s' p' ob = Some l'" using in_book by blast
    with levels_invD(4) [OF inv s(1) this(1) s(2) this(2)] l' s(2) show ?thesis using Some by auto
  qed
  moreover have "hive_deref (location_in_hive loc) (orders l) = Some o1"
    using hv.get_some_iff [OF level_okD(1) [OF levels_invD(2) [OF inv s(1,2)]]] s(3) by simp
  ultimately show ?thesis by (simp add: deref_def i)
qed

section \<open>Inserting and erasing one order\<close>

lemma find_level_put:
  assumes "levels_inv ob" and s: "is_side s" "is_side s'"
  shows "find_level s' p' (set_container s (omap_put p l (container s ob)) ob) =
    (if s' = s \<and> p' = p then Some l else find_level s' p' ob)"
  using om.find_put [OF levels_invD(1) [OF assms(1,2)]] s by (auto simp: find_level_def container_set)

lemma find_level_erase:
  assumes "levels_inv ob" and s: "is_side s" "is_side s'"
  shows "find_level s' p' (set_container s (omap_erase p (container s ob)) ob) =
    (if s' = s \<and> p' = p then None else find_level s' p' ob)"
  using om.find_erase [OF levels_invD(1) [OF assms(1,2)]] s by (auto simp: find_level_def container_set)

lemma ok_put:
  assumes "levels_inv ob" and "is_side s" "is_side s'"
  shows "omap_ok (container s' (set_container s (omap_put p l (container s ob)) ob))"
    and "omap_ok (container s' (set_container s (omap_erase p (container s ob)) ob))"
  using levels_invD(1) [OF assms(1)] assms(2,3) by (auto simp: container_set om.put_ok om.erase_ok)

lemma default_capacities:
  "0 < block_capacity_default_min 88 64 44"
  "block_capacity_default_min 88 64 44 \<le> block_capacity_default_max"
  "block_capacity_default_max < SKIP_MAX"
  by (simp_all add: block_capacity_default_min_def block_capacity_default_max_def sk16_def SKIP_MAX_def)

text \<open>The level \<open>operator[]\<close> returns: well formed, possibly empty, with a hive of its own.\<close>

lemma level_at_ok:
  assumes inv: "levels_inv ob" and s: "is_side s" and e: "level_at s p ob = (l, ob1)"
  shows "hive_inv (orders l)" "\<And>o1. o1 \<in> set (level_orders l) \<Longrightarrow> order_ok s p o1"
    "total_qty l = sum_list (map o_qty (level_orders l))" "h_id (orders l) < next_hive ob1"
    "levels_inv ob1" "\<And>s. container s ob1 = container s ob" "order_id_lookup ob1 = order_id_lookup ob"
    "log_attached ob1 = log_attached ob"
    "\<And>s' p' l'. is_side s' \<Longrightarrow> find_level s' p' ob = Some l' \<Longrightarrow> h_id (orders l') = h_id (orders l) \<Longrightarrow>
      s' = s \<and> p' = p"
    "set (hive_seq (orders l)) = (case find_level s p ob of None \<Rightarrow> {} | Some l \<Rightarrow> set (hive_seq (orders l)))"
    "level_orders l = (case find_level s p ob of None \<Rightarrow> [] | Some l \<Rightarrow> level_orders l)"
proof -
  have "hive_inv (orders l) \<and> (\<forall>o1. o1 \<in> set (level_orders l) \<longrightarrow> order_ok s p o1)
    \<and> total_qty l = sum_list (map o_qty (level_orders l)) \<and> h_id (orders l) < next_hive ob1
    \<and> levels_inv ob1 \<and> (\<forall>s. container s ob1 = container s ob) \<and> order_id_lookup ob1 = order_id_lookup ob
    \<and> log_attached ob1 = log_attached ob
    \<and> (\<forall>s' p' l'. is_side s' \<longrightarrow> find_level s' p' ob = Some l' \<longrightarrow> h_id (orders l') = h_id (orders l) \<longrightarrow>
      s' = s \<and> p' = p)
    \<and> set (hive_seq (orders l)) = (case find_level s p ob of None \<Rightarrow> {} | Some l \<Rightarrow> set (hive_seq (orders l)))
    \<and> level_orders l = (case find_level s p ob of None \<Rightarrow> [] | Some l \<Rightarrow> level_orders l)"
  proof (cases "find_level s p ob")
    case None
    then have E: "l = new_price_level (next_hive ob)" "ob1 = ob\<lparr> next_hive := next_hive ob + 1 \<rparr>"
      using e by (simp_all add: level_at_def find_level_def)
    have "levels_inv ob1"
    proof (rule levels_inv_upd [OF inv s, of _ p "find_level s p ob"])
      show "omap_ok (container s' ob1)" if "is_side s'" for s'
        using levels_invD(1) [OF inv that] E by simp
    qed (use E None in auto)
    moreover have "h_id (orders l') \<noteq> next_hive ob" if "is_side s'" "find_level s' p' ob = Some l'" for s' p' l'
      using levels_invD(3) [OF inv that] by simp
    ultimately show ?thesis
      using E None hive_inv_new [OF default_capacities]
      by (auto simp: new_price_level_def level_orders_def hv.elems_def hive_seq_new) (auto simp: hive_new_def)
  next
    case (Some l0)
    then have E: "l = l0" "ob1 = ob"
      using e by (simp_all add: level_at_def find_level_def)
    have "s' = s \<and> p' = p" if "is_side s'" "find_level s' p' ob = Some l'" "h_id (orders l') = h_id (orders l)" for s' p' l'
      using levels_invD(4) [OF inv that(1) s that(2) Some] that(3) E by simp
    with Some E levels_invD(2,3) [OF inv s Some] inv show ?thesis
      by (auto dest: level_okD)
  qed
  then show "hive_inv (orders l)" "\<And>o1. o1 \<in> set (level_orders l) \<Longrightarrow> order_ok s p o1"
    "total_qty l = sum_list (map o_qty (level_orders l))" "h_id (orders l) < next_hive ob1"
    "levels_inv ob1" "\<And>s. container s ob1 = container s ob" "order_id_lookup ob1 = order_id_lookup ob"
    "log_attached ob1 = log_attached ob"
    "\<And>s' p' l'. is_side s' \<Longrightarrow> find_level s' p' ob = Some l' \<Longrightarrow> h_id (orders l') = h_id (orders l) \<Longrightarrow>
      s' = s \<and> p' = p"
    "set (hive_seq (orders l)) = (case find_level s p ob of None \<Rightarrow> {} | Some l \<Rightarrow> set (hive_seq (orders l)))"
    "level_orders l = (case find_level s p ob of None \<Rightarrow> [] | Some l \<Rightarrow> level_orders l)"
    by blast+
qed

lemma located_at_level:
  "located ob loc o1 \<longleftrightarrow> (\<exists>s' l. is_side s' \<and> find_level s' (loc_price loc) ob = Some l
     \<and> (location_in_hive loc, o1) \<in> set (hive_seq (orders l)))"
  by (simp add: located_def)

lemma insert_at_level_ok:
  assumes inv: "levels_inv ob" and s: "is_side s" and o1: "order_ok s (o_price order) order" "o_price order \<le> MAX_PRICE"
    and e: "insert_at_level s order ob = (it, ob')"
  defines "loc \<equiv> \<lparr> loc_price = o_price order, location_in_hive = it \<rparr>"
  shows "levels_inv ob'" "order_id_lookup ob' = order_id_lookup ob" "log_attached ob' = log_attached ob"
    "located ob' loc' x \<longleftrightarrow> located ob loc' x \<or> loc' = loc \<and> x = order" "\<not> located ob loc x"
    "\<exists>l l0 xs ys. find_level s (o_price order) ob' = Some l \<and> level_orders l = xs @ order # ys \<and>
      (case find_level s (o_price order) ob of None \<Rightarrow> [] | Some l \<Rightarrow> level_orders l) = xs @ ys"
proof -
  obtain l ob1 where l: "level_at s (o_price order) ob = (l, ob1)" by fastforce
  obtain h it' where h: "hive_insert order (orders l) = (h, it')" by fastforce
  note L = level_at_ok [OF inv s l]
  define l1 where "l1 = l\<lparr> orders := h, total_qty := total_qty l + o_qty order \<rparr>"
  have E: "it' = it" "ob' = set_container s (omap_put (o_price order) l1 (container s ob1)) ob1"
    using e by (simp_all add: insert_at_level_def l h l1_def)
  show lk: "order_id_lookup ob' = order_id_lookup ob" "log_attached ob' = log_attached ob" using L(7,8) E by simp_all
  have h1: "hive_inv h" using hv.ins_inv [OF L(1), of order] h by simp
  obtain xs ys where x: "level_orders l = xs @ ys" "level_orders l1 = xs @ order # ys"
    using hv.ins_elems [OF L(1), of order] h by (auto simp: level_orders_def l1_def)
  have hid: "h_id h = h_id (orders l)" using h_id_insert [of order "orders l"] h by simp
  obtain us vs where seq: "hive_seq (orders l) = us @ vs" "hive_seq h = us @ (it, order) # vs"
    using hv.ins_seq [OF L(1), of order] h E by auto
  have "level_ok s (o_price order) l1"
    unfolding level_ok_def using h1 x L(2,3) o1 by (auto simp: l1_def)
  note lo1 = this
  have F: "find_level s' p' ob' = (if s' = s \<and> p' = o_price order then Some l1 else find_level s' p' ob)"
    if "is_side s'" for s' p'
    using find_level_put [OF L(5) s that] L(6) E by (simp add: find_level_def)
  show "levels_inv ob'"
  proof (rule levels_inv_upd [OF L(5) s, where p = "o_price order" and lo = "Some l1"])
    show "omap_ok (container s' ob')" if "is_side s'" for s' using ok_put(1) [OF L(5) s that] E by simp
    show "find_level s' p' ob' = (if s' = s \<and> p' = o_price order then Some l1 else find_level s' p' ob1)"
      if "is_side s'" for s' p' using F [OF that] L(6) by (simp add: find_level_def)
    show "level_ok s (o_price order) l' \<and> h_id (orders l') < next_hive ob' \<and>
      (\<forall>s' p' l'a. is_side s' \<longrightarrow> find_level s' p' ob1 = Some l'a \<longrightarrow> h_id (orders l'a) = h_id (orders l') \<longrightarrow>
        s' = s \<and> p' = o_price order)" if "Some l1 = Some l'" for l'
      using that lo1 L(4,6,9) E hid by (auto simp: l1_def find_level_def)
  qed (simp add: E)
  have L10: "(location_in_hive loc', x) \<in> set (hive_seq (orders l)) \<longleftrightarrow>
      (\<exists>l. find_level s (o_price order) ob = Some l \<and> (location_in_hive loc', x) \<in> set (hive_seq (orders l)))" for loc' x
    unfolding L(10) by (auto split: option.splits)
  show "located ob' loc' x \<longleftrightarrow> located ob loc' x \<or> loc' = loc \<and> x = order" for loc' x
  proof -
    have "located ob' loc' x \<longleftrightarrow> loc_price loc' = o_price order \<and> (location_in_hive loc', x) \<in> set (hive_seq h)
      \<or> (\<exists>s' l. is_side s' \<and> \<not> (s' = s \<and> loc_price loc' = o_price order)
         \<and> find_level s' (loc_price loc') ob = Some l \<and> (location_in_hive loc', x) \<in> set (hive_seq (orders l)))"
      by (subst located_upd [OF s F]) (simp_all add: l1_def)
    also have "(location_in_hive loc', x) \<in> set (hive_seq h) \<longleftrightarrow>
      location_in_hive loc' = it \<and> x = order \<or> (location_in_hive loc', x) \<in> set (hive_seq (orders l))"
      by (auto simp: seq)
    finally show ?thesis
      unfolding L10 located_def loc_def using s by (cases loc') auto
  qed
  have "it \<notin> fst ` set (hive_seq (orders l))" using hv.ins_fresh [OF L(1), of order] h E by simp
  moreover have "it_hive it = h_id (orders l)"
    using hive_seq_ids [of it order h] seq(2) hid by simp
  ultimately show "\<not> located ob loc x" for x
  proof (intro notI)
    assume i: "it \<notin> fst ` set (hive_seq (orders l))" "it_hive it = h_id (orders l)" "located ob loc x"
    then obtain s' l' where l': "is_side s'" "find_level s' (o_price order) ob = Some l'" "(it, x) \<in> set (hive_seq (orders l'))"
      by (auto simp: located_def loc_def)
    with i(2) hive_seq_ids have "h_id (orders l') = h_id (orders l)" by metis
    with L(9) l' have "s' = s" by blast
    with l' L10 [of loc x] i(1) show False by (force simp: loc_def)
  qed
  show "\<exists>l l0 xs ys. find_level s (o_price order) ob' = Some l \<and> level_orders l = xs @ order # ys \<and>
      (case find_level s (o_price order) ob of None \<Rightarrow> [] | Some l \<Rightarrow> level_orders l) = xs @ ys"
    using F [OF s] x L(11) by auto
qed

lemma sum_list_mset_qty: "mset xs = mset ys \<Longrightarrow> sum_list (map o_qty xs) = sum_list (map o_qty ys)"
  by (metis mset_map sum_mset_sum_list)

lemma erase_at_level_ok:
  assumes inv: "levels_inv ob" and loc: "located ob loc x"
  shows "\<exists>ob'. erase_at_level (o_side x) (loc_price loc) (location_in_hive loc) (o_qty x) ob = Some ob'
    \<and> levels_inv ob' \<and> order_id_lookup ob' = order_id_lookup ob \<and> log_attached ob' = log_attached ob
    \<and> (\<forall>loc' y. located ob' loc' y \<longleftrightarrow> located ob loc' y \<and> loc' \<noteq> loc)"
proof -
  define s p it where "s = o_side x" and "p = loc_price loc" and "it = location_in_hive loc"
  obtain l where s: "is_side s" and l: "find_level s p ob = Some l" "(it, x) \<in> set (hive_seq (orders l))"
    using located_order [OF inv loc] by (auto simp: s_def p_def it_def)
  note L = level_okD [OF levels_invD(2) [OF inv s l(1)]]
  have g: "hive_deref it (orders l) = Some x" using hv.get_some_iff [OF L(1)] l(2) by simp
  obtain h where h: "hive_del it (orders l) = Some h" using hv.del_defined [OF L(1) g] by blast
  note D = hv.get_del [OF L(1) h]
  have m: "mset (level_orders l) = add_mset x (mset (hv.elems h))"
    unfolding level_orders_def by (rule hv.mset_del [OF L(1) g h])
  define l1 where "l1 = l\<lparr> orders := h, total_qty := total_qty l - o_qty x \<rparr>"
  define lo where "lo = (if hive_empty h then None else Some l1)"
  define ob' where "ob' = (if hive_empty h then set_container s (omap_erase p (container s ob)) ob
      else set_container s (omap_put p l1 (container s ob)) ob)"
  have E: "erase_at_level s p it (o_qty x) ob = Some ob'"
    using l(1) h by (simp add: erase_at_level_def find_level_def ob'_def l1_def)
  have F: "find_level s' p' ob' = (if s' = s \<and> p' = p then lo else find_level s' p' ob)" if "is_side s'" for s' p'
    by (cases "hive_empty h") (simp_all add: ob'_def lo_def find_level_put [OF inv s that] find_level_erase [OF inv s that])
  have hid: "h_id h = h_id (orders l)" by (rule h_id_del [OF h])
  have "levels_inv ob'"
  proof (rule levels_inv_upd [OF inv s, where p = p and lo = lo])
    show "omap_ok (container s' ob')" if "is_side s'" for s' using ok_put [OF inv s that] by (simp add: ob'_def)
    show "find_level s' p' ob' = (if s' = s \<and> p' = p then lo else find_level s' p' ob)" if "is_side s'" for s' p'
      by (rule F [OF that])
    show "next_hive ob \<le> next_hive ob'" by (simp add: ob'_def)
    show "level_ok s p l' \<and> h_id (orders l') < next_hive ob' \<and>
      (\<forall>s' p' l'a. is_side s' \<longrightarrow> find_level s' p' ob = Some l'a \<longrightarrow> h_id (orders l'a) = h_id (orders l') \<longrightarrow>
        s' = s \<and> p' = p)" if lo': "lo = Some l'" for l'
    proof (intro conjI allI impI)
      have l': "l' = l1" "\<not> hive_empty h" using lo' by (auto simp: lo_def split: if_splits)
      have q: "total_qty l = o_qty x + sum_list (map o_qty (hv.elems h))"
        unfolding L(5) using sum_list_mset_qty [of "level_orders l" "x # hv.elems h"] m by simp
      have "set (hv.elems h) \<subseteq> set (level_orders l)" using m by (metis set_mset_add_mset_insert set_mset_mset subset_insertI)
      then show "level_ok s p l'"
        using L(3,4) D(1) hv.is_empty_elems [OF D(1)] l' q by (auto simp: level_ok_def l1_def level_orders_def)
      show "h_id (orders l') < next_hive ob'" using levels_invD(3) [OF inv s l(1)] l' hid by (simp add: l1_def ob'_def)
      fix s' p' la assume a: "is_side s'" "find_level s' p' ob = Some la" "h_id (orders la) = h_id (orders l')"
      have "s' = s \<and> p' = p" using levels_invD(4) [OF inv a(1) s a(2) l(1)] a(3) l' hid by (simp add: l1_def)
      then show "s' = s" "p' = p" by simp_all
    qed
  qed
  moreover have "located ob' loc' y \<longleftrightarrow> located ob loc' y \<and> loc' \<noteq> loc" for loc' y
  proof -
    have seqs: "(location_in_hive loc', y) \<in> set (hive_seq h) \<longleftrightarrow>
        (location_in_hive loc', y) \<in> set (hive_seq (orders l)) \<and> location_in_hive loc' \<noteq> it" by (simp add: D(2))
    have lo: "(\<exists>l. lo = Some l \<and> loc_price loc' = p \<and> (location_in_hive loc', y) \<in> set (hive_seq (orders l))) \<longleftrightarrow>
      loc_price loc' = p \<and> (location_in_hive loc', y) \<in> set (hive_seq h)"
      using hv.is_empty_seq [OF D(1)] by (auto simp: lo_def l1_def)
    have "located ob' loc' y \<longleftrightarrow>
      loc_price loc' = p \<and> (location_in_hive loc', y) \<in> set (hive_seq (orders l)) \<and> location_in_hive loc' \<noteq> it
      \<or> (\<exists>s' l. is_side s' \<and> \<not> (s' = s \<and> loc_price loc' = p)
         \<and> find_level s' (loc_price loc') ob = Some l \<and> (location_in_hive loc', y) \<in> set (hive_seq (orders l)))"
      by (subst located_upd [OF s F]) (simp_all add: lo seqs)
    moreover have "location_in_hive loc' \<noteq> it" if "is_side s'" "\<not> (s' = s \<and> loc_price loc' = p)"
      "find_level s' (loc_price loc') ob = Some la" "(location_in_hive loc', y) \<in> set (hive_seq (orders la))" for s' la
      using located_same_level(1,2) [OF inv that(1) s that(3,4) l(1)] l(2) that(2) by metis
    moreover have "loc' = loc \<longleftrightarrow> loc_price loc' = p \<and> location_in_hive loc' = it"
      by (cases loc; cases loc') (auto simp: p_def it_def)
    moreover have "located ob loc' y \<longleftrightarrow>
      loc_price loc' = p \<and> (location_in_hive loc', y) \<in> set (hive_seq (orders l))
      \<or> (\<exists>s' l. is_side s' \<and> \<not> (s' = s \<and> loc_price loc' = p)
         \<and> find_level s' (loc_price loc') ob = Some l \<and> (location_in_hive loc', y) \<in> set (hive_seq (orders l)))"
      using located_upd [OF s, of ob p "Some l" ob loc' y] l(1) by simp
    ultimately show ?thesis by blast
  qed
  moreover have "order_id_lookup ob' = order_id_lookup ob" "log_attached ob' = log_attached ob"
    by (simp_all add: ob'_def)
  ultimately show ?thesis using E by (auto simp: s_def p_def it_def)
qed

section \<open>The invariant is kept\<close>

lemma book_invD:
  assumes "book_inv ob"
  shows "levels_inv ob" "order_id_lookup ob k = Some loc \<longleftrightarrow> (\<exists>o1. located ob loc o1 \<and> key_of o1 = k)"
  using assms by (auto simp: book_inv_def)

lemma book_inv_new: "book_inv (new_orderbook b)"
  by (auto simp: book_inv_def levels_inv_def located_def find_level_def container_def new_orderbook_def omap_ok_def)

definition order_wf :: "order_t \<Rightarrow> bool" where
  "order_wf o1 \<longleftrightarrow> length (o_order_id o1) = ORDER_ID_LEN"

text \<open>Two orders of a book with the same key are the same order at the same place.\<close>

lemma located_key_inj:
  "book_inv ob \<Longrightarrow> located ob loc x \<Longrightarrow> located ob loc' y \<Longrightarrow> key_of x = key_of y \<Longrightarrow> loc = loc' \<and> x = y"
  by (metis book_invD located_fun option.inject)

text \<open>Taking the order of a key out of the book, and filing a new order under it.\<close>

lemma book_inv_remove:
  assumes inv: "book_inv ob" and loc: "located ob loc x"
    and ob': "levels_inv ob'" "order_id_lookup ob' = (order_id_lookup ob)(key_of x := None)"
      "\<And>loc' y. located ob' loc' y \<longleftrightarrow> located ob loc' y \<and> loc' \<noteq> loc"
  shows "book_inv ob'"
  unfolding book_inv_def
proof (intro conjI allI)
  fix k loc'
  show "order_id_lookup ob' k = Some loc' \<longleftrightarrow> (\<exists>o1. located ob' loc' o1 \<and> key_of o1 = k)"
  proof (cases "k = key_of x")
    case True
    have "loc' = loc" if "located ob loc' y" "key_of y = key_of x" for y
      using located_key_inj [OF inv loc that(1)] that(2) by simp
    with True show ?thesis by (auto simp: ob'(2,3))
  next
    case False
    have "loc' \<noteq> loc" if "located ob loc' y" "key_of y = k" for y
      using located_fun [OF book_invD(1) [OF inv] loc, of y] that False by auto
    with False book_invD(2) [OF inv, of k loc'] show ?thesis by (auto simp: ob'(2,3))
  qed
qed (rule ob'(1))

lemma book_inv_file:
  assumes k: "\<And>loc' y. located ob loc' y \<Longrightarrow> key_of y \<noteq> key_of x"
    and lk: "\<And>k loc'. k \<noteq> key_of x \<Longrightarrow> order_id_lookup ob k = Some loc' \<longleftrightarrow> (\<exists>y. located ob loc' y \<and> key_of y = k)"
    and ob': "levels_inv ob'" "order_id_lookup ob' = (order_id_lookup ob)(key_of x \<mapsto> loc)"
      "\<And>loc' y. located ob' loc' y \<longleftrightarrow> located ob loc' y \<or> loc' = loc \<and> y = x"
  shows "book_inv ob'"
  unfolding book_inv_def
proof (intro conjI allI)
  fix k1 loc'
  show "order_id_lookup ob' k1 = Some loc' \<longleftrightarrow> (\<exists>o1. located ob' loc' o1 \<and> key_of o1 = k1)"
    using lk [of k1 loc'] k by (cases "k1 = key_of x") (auto simp: ob'(2,3))
qed (rule ob'(1))

end
