(* ===== verification/Book_Spec.thy ===== *)
theory Book_Spec
  imports Book_Inv
begin

text \<open>
  What the order book promises its callers: a table of orders by identifier, with three
  operations on it. The detailed operations implement them (refinement by \<open>book_map\<close>), keep
  the invariant, never run into undefined behaviour, and the best prices they report are
  those of the table.
\<close>

section \<open>The abstract book\<close>

type_synonym book_abs = "order_id_key \<Rightarrow> order_t option"

definition book_map :: "orderbook \<Rightarrow> book_abs" where
  "book_map ob k =
     (case order_id_lookup ob k of None \<Rightarrow> None | Some loc \<Rightarrow> deref (location_in_hive loc) ob)"

definition spec_check :: "order_t \<Rightarrow> order_result" where
  "spec_check o1 =
     (if \<not> is_side (o_side o1) then INVALID_SIDE else if MAX_PRICE < o_price o1 then INVALID_PRICE else SUCCESS)"

definition spec_add :: "order_t \<Rightarrow> book_abs \<Rightarrow> order_result \<times> book_abs" where
  "spec_add o1 m =
     (if m (key_of o1) \<noteq> None then (DUPLICATE_ID, m)
      else if spec_check o1 = SUCCESS then (SUCCESS, m(key_of o1 \<mapsto> o1))
      else (spec_check o1, m))"

definition spec_modify :: "order_id_key \<Rightarrow> order_t \<Rightarrow> book_abs \<Rightarrow> order_result \<times> book_abs" where
  "spec_modify k o1 m =
     (if m k = None then (ORDER_NOT_FOUND, m)
      else if spec_check o1 = SUCCESS then (SUCCESS, m(k \<mapsto> o1))
      else (spec_check o1, m))"

definition spec_cancel :: "order_id_key \<Rightarrow> book_abs \<Rightarrow> order_result \<times> book_abs" where
  "spec_cancel k m = (if m k = None then (ORDER_NOT_FOUND, m) else (SUCCESS, m(k := None)))"

section \<open>Refinement\<close>

lemma book_map_iff:
  assumes inv: "book_inv ob"
  shows "book_map ob k = Some x \<longleftrightarrow> (\<exists>loc. located ob loc x \<and> key_of x = k)"
proof (cases "order_id_lookup ob k")
  case None
  then have "\<not> (\<exists>loc o1. located ob loc o1 \<and> key_of o1 = k)"
    using book_invD(2) [OF inv, of k] by (metis option.distinct(1))
  with None show ?thesis by (auto simp: book_map_def)
next
  case (Some loc)
  then obtain y where y: "located ob loc y" "key_of y = k" using book_invD(2) [OF inv] by blast
  then have "book_map ob k = Some y"
    using deref_located [OF book_invD(1) [OF inv] y(1)] Some by (simp add: book_map_def)
  moreover have "x = y" if "located ob loc' x" "key_of x = k" for loc'
    using located_key_inj [OF inv y(1) that(1)] that(2) y(2) by simp
  ultimately show ?thesis using y by (metis option.inject)
qed

lemma book_map_lookup: "book_inv ob \<Longrightarrow> book_map ob k = None \<longleftrightarrow> order_id_lookup ob k = None"
proof -
  assume inv: "book_inv ob"
  have "(\<exists>x. book_map ob k = Some x) \<longleftrightarrow> (\<exists>loc. order_id_lookup ob k = Some loc)"
    unfolding book_map_iff [OF inv] book_invD(2) [OF inv] by blast
  then show ?thesis by (metis not_Some_eq)
qed

lemma book_map_eqI:
  assumes "book_inv ob'" and "\<And>k x. (\<exists>loc. located ob' loc x \<and> key_of x = k) \<longleftrightarrow> m k = Some x"
  shows "book_map ob' = m"
proof
  show "book_map ob' k = m k" for k
    using book_map_iff [OF assms(1), of k] assms(2) [of _ k] by (metis option.exhaust)
qed

lemma book_add_cases:
  assumes inv: "book_inv ob" and wf: "order_wf x" and s: "is_side (o_side x)" and p: "o_price x \<le> MAX_PRICE"
    and new: "order_id_lookup ob (key_of x) = None"
    and e: "insert_at_level (o_side x) x ob = (it, ob1)"
    and ob': "ob' = ob1\<lparr> order_id_lookup := (order_id_lookup ob1)
      (key_of x \<mapsto> \<lparr> loc_price = o_price x, location_in_hive = it \<rparr>) \<rparr>"
  shows "book_inv ob'" "book_map ob' = (book_map ob)(key_of x \<mapsto> x)" "log_attached ob' = log_attached ob"
proof -
  have ok: "order_ok (o_side x) (o_price x) x" using wf by (simp add: order_ok_def order_wf_def)
  note I = insert_at_level_ok [OF book_invD(1) [OF inv] s ok p e]
  have k: "key_of y \<noteq> key_of x" if "located ob loc y" for loc y
    using book_invD(2) [OF inv, of "key_of x" loc] new that by auto
  show 1: "book_inv ob'"
  proof (rule book_inv_file [OF k])
    show "levels_inv ob'" using I(1) by (simp add: ob')
  qed (use I(2,4) book_invD(2) [OF inv] in \<open>auto simp: ob'\<close>)
  show "book_map ob' = (book_map ob)(key_of x \<mapsto> x)"
  proof (rule book_map_eqI [OF 1])
    show "(\<exists>loc. located ob' loc y \<and> key_of y = k1) \<longleftrightarrow> ((book_map ob)(key_of x \<mapsto> x)) k1 = Some y" for k1 y
      using book_map_iff [OF inv, of k1 y] k I(4) by (auto simp: ob')
  qed
  show "log_attached ob' = log_attached ob" using I(3) by (simp add: ob')
qed

lemma book_add_ok:
  assumes inv: "book_inv ob" and wf: "order_wf x" and e: "book_add x ob = ((r, evs), ob')"
  shows "book_inv ob'" and "spec_add x (book_map ob) = (r, book_map ob')"
    and "evs = (if r = SUCCESS \<and> log_attached ob then
      [log_price_level_update (o_timestamp x) (o_order_id x) (o_price x) (o_qty x) (o_side x)] else [])"
proof -
  have "book_inv ob' \<and> spec_add x (book_map ob) = (r, book_map ob') \<and> evs = (if r = SUCCESS \<and> log_attached ob then
      [log_price_level_update (o_timestamp x) (o_order_id x) (o_price x) (o_qty x) (o_side x)] else [])"
  proof (cases "order_id_lookup ob (key_of x) \<noteq> None \<or> \<not> is_side (o_side x) \<or> MAX_PRICE < o_price x")
    case True
    have "book_add x ob = ((if order_id_lookup ob (key_of x) \<noteq> None then DUPLICATE_ID else spec_check x, []), ob)"
      unfolding book_add_def book_contains_def Let_def spec_check_def is_side_def
      using True unfolding is_side_def by (auto simp del: split_paired_Ex)
    then have "ob' = ob" "evs = []" "r = (if order_id_lookup ob (key_of x) \<noteq> None then DUPLICATE_ID else spec_check x)"
      using e by simp_all
    moreover have "r \<noteq> SUCCESS" using True calculation(3) by (auto simp: spec_check_def)
    ultimately show ?thesis
      using inv book_map_lookup [OF inv, of "key_of x"] by (auto simp: spec_add_def)
  next
    case False
    obtain it ob1 where i: "insert_at_level (o_side x) x ob = (it, ob1)" by fastforce
    from False have f: "order_id_lookup ob (key_of x) = None" "is_side (o_side x)" "o_price x \<le> MAX_PRICE" by auto
    note C = book_add_cases [OF inv wf f(2,3,1) i refl]
    have "ob' = ob1\<lparr> order_id_lookup := (order_id_lookup ob1)
        (key_of x \<mapsto> \<lparr> loc_price = o_price x, location_in_hive = it \<rparr>) \<rparr>" "r = SUCCESS"
      "evs = log_event (log_price_level_update (o_timestamp x) (o_order_id x) (o_price x) (o_qty x) (o_side x)) ob'"
      using e i f(1,2) leD [OF f(3)] unfolding book_add_def book_contains_def is_side_def Let_def by auto
    moreover have "spec_add x (book_map ob) = (SUCCESS, (book_map ob)(key_of x \<mapsto> x))"
      using f(1,2) leD [OF f(3)] book_map_lookup [OF inv, of "key_of x"] by (simp add: spec_add_def spec_check_def)
    ultimately show ?thesis using C by (simp add: log_event_def)
  qed
  then show "book_inv ob'" "spec_add x (book_map ob) = (r, book_map ob')"
    "evs = (if r = SUCCESS \<and> log_attached ob then
      [log_price_level_update (o_timestamp x) (o_order_id x) (o_price x) (o_qty x) (o_side x)] else [])" by auto
qed

lemma book_remove:
  assumes inv: "book_inv ob" and l: "order_id_lookup ob k = Some loc"
  shows "\<exists>x ob1. deref (location_in_hive loc) ob = Some x \<and> located ob loc x \<and> key_of x = k
    \<and> erase_at_level (o_side x) (loc_price loc) (location_in_hive loc) (o_qty x) ob = Some ob1
    \<and> o_price x = loc_price loc \<and> levels_inv ob1 \<and> order_id_lookup ob1 = order_id_lookup ob
    \<and> log_attached ob1 = log_attached ob
    \<and> (\<forall>loc' y. located ob1 loc' y \<longleftrightarrow> located ob loc' y \<and> loc' \<noteq> loc)
    \<and> book_inv (ob1\<lparr> order_id_lookup := (order_id_lookup ob1)(k := None) \<rparr>)
    \<and> book_map (ob1\<lparr> order_id_lookup := (order_id_lookup ob1)(k := None) \<rparr>) = (book_map ob)(k := None)"
proof -
  obtain x where x: "located ob loc x" "key_of x = k" using book_invD(2) [OF inv] l by blast
  obtain ob1 where e: "erase_at_level (o_side x) (loc_price loc) (location_in_hive loc) (o_qty x) ob = Some ob1"
    "levels_inv ob1" "order_id_lookup ob1 = order_id_lookup ob" "log_attached ob1 = log_attached ob"
    "\<And>loc' y. located ob1 loc' y \<longleftrightarrow> located ob loc' y \<and> loc' \<noteq> loc"
    using erase_at_level_ok [OF book_invD(1) [OF inv] x(1)] by blast
  let ?ob = "ob1\<lparr> order_id_lookup := (order_id_lookup ob1)(k := None) \<rparr>"
  have 1: "book_inv ?ob" by (rule book_inv_remove [OF inv x(1)]) (use e x in simp_all)
  moreover have "book_map ?ob = (book_map ob)(k := None)"
  proof (rule book_map_eqI [OF 1])
    show "(\<exists>loc'. located ?ob loc' y \<and> key_of y = k1) \<longleftrightarrow> ((book_map ob)(k := None)) k1 = Some y" for k1 y
    proof (cases "k1 = k")
      case True
      have "loc' = loc" if "located ob loc' y" "key_of y = k" for loc'
        using located_key_inj [OF inv x(1) that(1)] that(2) x(2) by simp
      with True show ?thesis by (auto simp: e(5))
    next
      case False
      have "key_of y = k" if "located ob loc y"
        using located_fun [OF book_invD(1) [OF inv] x(1) that] x(2) by simp
      with False show ?thesis using book_map_iff [OF inv, of k1 y] by (auto simp: e(5))
    qed
  qed
  ultimately show ?thesis
    using x e deref_located [OF book_invD(1) [OF inv] x(1)] located_order(2) [OF book_invD(1) [OF inv] x(1)] by blast
qed

lemma book_cancel_ok:
  assumes inv: "book_inv ob"
  shows "case book_cancel dead k ob of
      None \<Rightarrow> log_attached ob \<and> (\<exists>x. book_map ob k = Some x \<and> dead x = None)
    | Some ((r, evs), ob') \<Rightarrow> book_inv ob' \<and> spec_cancel k (book_map ob) = (r, book_map ob')
        \<and> (case book_map ob k of
            Some x \<Rightarrow> if log_attached ob then \<exists>y. dead x = Some y
              \<and> evs = [log_cancel_order (o_timestamp y) (o_order_id y) (o_price y) (o_qty y) (o_side y)] else evs = []
          | None \<Rightarrow> evs = [])"
proof (cases "order_id_lookup ob k")
  case None
  then have "book_map ob k = None" by (simp add: book_map_lookup [OF inv])
  with None inv show ?thesis by (auto simp: book_cancel_def spec_cancel_def)
next
  case (Some loc)
  obtain x ob1 where R: "deref (location_in_hive loc) ob = Some x" "located ob loc x" "key_of x = k"
    "erase_at_level (o_side x) (loc_price loc) (location_in_hive loc) (o_qty x) ob = Some ob1"
    "log_attached ob1 = log_attached ob"
    "book_inv (ob1\<lparr> order_id_lookup := (order_id_lookup ob1)(k := None) \<rparr>)"
    "book_map (ob1\<lparr> order_id_lookup := (order_id_lookup ob1)(k := None) \<rparr>) = (book_map ob)(k := None)"
    using book_remove [OF inv Some] by blast
  then have "book_map ob k = Some x" using book_map_iff [OF inv] by blast
  with R Some show ?thesis
    by (auto simp: book_cancel_def spec_cancel_def Let_def split: Option.bind_split)
qed

lemma book_modify_ok:
  assumes inv: "book_inv ob" and wf: "order_wf x" and key: "key_of x = k"
  shows "case book_modify dead k x ob of
      None \<Rightarrow> log_attached ob \<and> spec_check x = SUCCESS \<and> (\<exists>y. book_map ob k = Some y \<and> dead y = None)
    | Some ((r, evs), ob') \<Rightarrow> book_inv ob' \<and> spec_modify k x (book_map ob) = (r, book_map ob')
        \<and> (case book_map ob k of
            Some y \<Rightarrow> if log_attached ob \<and> r = SUCCESS then \<exists>z. dead y = Some z
              \<and> evs = [log_modify_order (o_timestamp x) (o_order_id z) (o_price z) (o_qty z) (o_side z)
                 (o_order_id x) (o_price x) (o_qty x) (o_side x)] else evs = []
          | None \<Rightarrow> evs = [])"
proof (cases "order_id_lookup ob k")
  case None
  then have "book_map ob k = None" by (simp add: book_map_lookup [OF inv])
  with None inv show ?thesis by (auto simp: book_modify_def spec_modify_def)
next
  case (Some loc)
  obtain y ob1 where R: "deref (location_in_hive loc) ob = Some y" "located ob loc y" "key_of y = k"
    "erase_at_level (o_side y) (loc_price loc) (location_in_hive loc) (o_qty y) ob = Some ob1" "o_price y = loc_price loc"
    "levels_inv ob1" "order_id_lookup ob1 = order_id_lookup ob" "log_attached ob1 = log_attached ob"
    "\<And>loc' z. located ob1 loc' z \<longleftrightarrow> located ob loc' z \<and> loc' \<noteq> loc"
    using book_remove [OF inv Some] by blast
  then have m: "book_map ob k = Some y" using book_map_iff [OF inv] by blast
  show ?thesis
  proof (cases "is_side (o_side x) \<and> o_price x \<le> MAX_PRICE")
    case False
    with Some m inv show ?thesis
      by (auto simp: book_modify_def spec_modify_def spec_check_def is_side_def Let_def)
  next
    case True
    then have s: "is_side (o_side x)" "o_price x \<le> MAX_PRICE" by auto
    obtain it ob2 where i: "insert_at_level (o_side x) x ob1 = (it, ob2)" by fastforce
    define ob3 where "ob3 = ob2\<lparr> order_id_lookup := (order_id_lookup ob2)
      (k \<mapsto> \<lparr> loc_price = o_price x, location_in_hive = it \<rparr>) \<rparr>"
    have ok: "order_ok (o_side x) (o_price x) x" using wf by (simp add: order_ok_def order_wf_def)
    note I = insert_at_level_ok [OF R(6) s(1) ok s(2) i]
    have k: "key_of z \<noteq> key_of x" if "located ob1 loc' z" for loc' z
      using located_key_inj [OF inv R(2), of loc' z] R(3,9) that key by auto
    have inv3: "book_inv ob3"
    proof (rule book_inv_file [OF k])
      show "levels_inv ob3" using I(1) by (simp add: ob3_def)
      show "order_id_lookup ob1 k1 = Some loc' \<longleftrightarrow> (\<exists>z. located ob1 loc' z \<and> key_of z = k1)" if "k1 \<noteq> key_of x" for k1 loc'
      proof -
        have "loc' \<noteq> loc" if "located ob loc' z" "key_of z = k1" for z
          using located_fun [OF book_invD(1) [OF inv] R(2), of z] that \<open>k1 \<noteq> key_of x\<close> R(3) key by auto
        with book_invD(2) [OF inv, of k1 loc'] show ?thesis by (auto simp: R(7,9))
      qed
    qed (use I(2,4) key in \<open>auto simp: ob3_def\<close>)
    have "book_map ob3 = (book_map ob)(k \<mapsto> x)"
    proof (rule book_map_eqI [OF inv3])
      show "(\<exists>loc'. located ob3 loc' z \<and> key_of z = k1) \<longleftrightarrow> ((book_map ob)(k \<mapsto> x)) k1 = Some z" for k1 z
      proof (cases "k1 = k")
        case True
        then show ?thesis using k I(4) key by (auto simp: ob3_def)
      next
        case False
        have "located ob loc z \<Longrightarrow> key_of z = k" using located_fun [OF book_invD(1) [OF inv] R(2), of z] R(3) by simp
        then show ?thesis using False I(4) key R(9) book_map_iff [OF inv, of k1 z] by (auto simp: ob3_def)
      qed
    qed
    moreover have "book_modify dead k x ob = (if log_attached ob3 then
        (case dead y of None \<Rightarrow> None | Some z \<Rightarrow> Some ((SUCCESS, [log_modify_order (o_timestamp x)
          (o_order_id z) (o_price z) (o_qty z) (o_side z) (o_order_id x) (o_price x) (o_qty x) (o_side x)]), ob3))
        else Some ((SUCCESS, []), ob3))"
      using s(1) leD [OF s(2)] R(1,4,5) i Some
      unfolding book_modify_def is_side_def Let_def ob3_def by (auto split: option.split)
    moreover have "log_attached ob3 = log_attached ob" using I(3) R(8) by (simp add: ob3_def)
    ultimately show ?thesis
      using inv3 m s(1) leD [OF s(2)] by (auto simp: spec_modify_def spec_check_def split: option.split)
  qed
qed

section \<open>What the book reports\<close>

lemma level_nonempty:
  assumes inv: "book_inv ob" and s: "is_side s" and l: "find_level s p ob = Some l"
  shows "\<exists>x. x \<in> ran (book_map ob) \<and> o_side x = s \<and> o_price x = p"
proof -
  note L = level_okD [OF levels_invD(2) [OF book_invD(1) [OF inv] s l]]
  obtain x where "x \<in> set (level_orders l)" using L(2) by (cases "level_orders l") auto
  then obtain it where x: "(it, x) \<in> set (hive_seq (orders l))" by (auto simp: level_orders_def hv.elems_def)
  have "located ob \<lparr> loc_price = p, location_in_hive = it \<rparr> x" using s l x by (auto simp: located_def)
  then have "book_map ob (key_of x) = Some x" using book_map_iff [OF inv] by blast
  moreover have "order_ok s p x" using L(4) in_level [OF x] .
  ultimately show ?thesis by (auto simp: order_ok_def ran_def)
qed

lemma level_of_order:
  assumes inv: "book_inv ob" and x: "x \<in> ran (book_map ob)"
  shows "is_side (o_side x)" "\<exists>l. find_level (o_side x) (o_price x) ob = Some l"
proof -
  obtain loc where "located ob loc x" using x book_map_iff [OF inv] by (auto simp: ran_def)
  then show "is_side (o_side x)" "\<exists>l. find_level (o_side x) (o_price x) ob = Some l"
    using located_order [OF book_invD(1) [OF inv]] by blast+
qed

lemma best_bid_level: "best_bid ob = map_option fst (omap_rbegin (container BUY ob))"
  by (simp add: best_bid_def container_def)

lemma best_ask_level: "best_ask ob = map_option fst (omap_begin (container SELL ob))"
  by (simp add: best_ask_def container_def)

lemma best_bid_ok:
  assumes inv: "book_inv ob"
  shows "case best_bid ob of
      None \<Rightarrow> \<forall>x \<in> ran (book_map ob). o_side x \<noteq> BUY
    | Some p \<Rightarrow> (\<exists>x \<in> ran (book_map ob). o_side x = BUY \<and> o_price x = p)
        \<and> (\<forall>x \<in> ran (book_map ob). o_side x = BUY \<longrightarrow> o_price x \<le> p)"
proof -
  have ok: "omap_ok (container BUY ob)" using levels_invD(1) [OF book_invD(1) [OF inv]] by simp
  have F: "find_level BUY p ob = omap_find p (container BUY ob)" for p by (simp add: find_level_def)
  show ?thesis
  proof (cases "omap_rbegin (container BUY ob)")
    case None
    then have "\<And>p. find_level BUY p ob = None" using om.last_none_iff [OF ok] F by simp
    then have "\<forall>x \<in> ran (book_map ob). o_side x \<noteq> BUY" using level_of_order(2) [OF inv] by force
    with None show ?thesis by (simp add: best_bid_level)
  next
    case (Some e)
    obtain p l where e: "e = (p, l)" by fastforce
    note G = om.last_greatest [OF ok, of p l]
    have l: "find_level BUY p ob = Some l" using G(1) Some e F by simp
    have "o_price x \<le> p" if "x \<in> ran (book_map ob)" "o_side x = BUY" for x
      using level_of_order(2) [OF inv that(1)] that(2) G(2) Some e F by auto
    with level_nonempty [OF inv _ l] Some e show ?thesis by (auto simp: best_bid_level)
  qed
qed

lemma best_ask_ok:
  assumes inv: "book_inv ob"
  shows "case best_ask ob of
      None \<Rightarrow> \<forall>x \<in> ran (book_map ob). o_side x \<noteq> SELL
    | Some p \<Rightarrow> (\<exists>x \<in> ran (book_map ob). o_side x = SELL \<and> o_price x = p)
        \<and> (\<forall>x \<in> ran (book_map ob). o_side x = SELL \<longrightarrow> p \<le> o_price x)"
proof -
  have ok: "omap_ok (container SELL ob)" using levels_invD(1) [OF book_invD(1) [OF inv]] by simp
  have F: "find_level SELL p ob = omap_find p (container SELL ob)" for p by (simp add: find_level_def)
  show ?thesis
  proof (cases "omap_begin (container SELL ob)")
    case None
    then have "\<And>p. find_level SELL p ob = None" using om.first_none_iff [OF ok] F by simp
    then have "\<forall>x \<in> ran (book_map ob). o_side x \<noteq> SELL" using level_of_order(2) [OF inv] by force
    with None show ?thesis by (simp add: best_ask_level)
  next
    case (Some e)
    obtain p l where e: "e = (p, l)" by fastforce
    note G = om.first_least [OF ok, of p l]
    have l: "find_level SELL p ob = Some l" using G(1) Some e F by simp
    have "p \<le> o_price x" if "x \<in> ran (book_map ob)" "o_side x = SELL" for x
      using level_of_order(2) [OF inv that(1)] that(2) G(2) Some e F by auto
    with level_nonempty [OF inv _ l] Some e show ?thesis by (auto simp: best_ask_level)
  qed
qed

text \<open>No order occurs twice in a level.\<close>

lemma level_distinct:
  assumes inv: "book_inv ob" and s: "is_side s" and l: "find_level s p ob = Some l"
  shows "distinct (level_orders l)"
proof -
  have loc: "located ob \<lparr> loc_price = p, location_in_hive = it \<rparr> x" if "(it, x) \<in> set (hive_seq (orders l))" for it x
    using s l that by (auto simp: located_def)
  have "inj_on snd (set (hive_seq (orders l)))"
    using loc located_key_inj [OF inv] by (fastforce intro!: inj_onI)
  moreover have "distinct (hive_seq (orders l))"
    using hv.seq_distinct [OF level_okD(1) [OF levels_invD(2) [OF book_invD(1) [OF inv] s l]]]
    by (simp add: distinct_map)
  ultimately show ?thesis by (simp add: level_orders_def hv.elems_def distinct_map)
qed

text \<open>The levels of a side are the prices of its orders, and each holds the orders at its price.\<close>

lemma level_none:
  assumes inv: "book_inv ob" and "is_side s" and "find_level s p ob = None"
  shows "{x \<in> ran (book_map ob). o_side x = s \<and> o_price x = p} = {}"
  using level_of_order(2) [OF inv] assms(3) by force

lemma level_set:
  assumes inv: "book_inv ob" and s: "is_side s" and l: "find_level s p ob = Some l"
  shows "set (level_orders l) = {x \<in> ran (book_map ob). o_side x = s \<and> o_price x = p}"
proof (intro equalityI subsetI)
  note lv = book_invD(1) [OF inv]
  note L = level_okD [OF levels_invD(2) [OF lv s l]]
  fix x assume x: "x \<in> set (level_orders l)"
  then obtain it where "(it, x) \<in> set (hive_seq (orders l))" by (auto simp: level_orders_def hv.elems_def)
  then have "located ob \<lparr> loc_price = p, location_in_hive = it \<rparr> x" using s l by (auto simp: located_def)
  then have "book_map ob (key_of x) = Some x" using book_map_iff [OF inv] by blast
  with L(4) [OF x] show "x \<in> {x \<in> ran (book_map ob). o_side x = s \<and> o_price x = p}"
    by (auto simp: order_ok_def ran_def)
next
  fix x assume x: "x \<in> {x \<in> ran (book_map ob). o_side x = s \<and> o_price x = p}"
  then obtain loc where "located ob loc x" using book_map_iff [OF inv] by (auto simp: ran_def)
  with located_order(5) [OF book_invD(1) [OF inv] this] x l show "x \<in> set (level_orders l)" by (auto dest: in_level)
qed

lemma log_attached_add: "log_attached (snd (book_add x ob)) = log_attached ob"
  by (simp add: book_add_def Let_def insert_at_level_def level_at_def split: prod.splits option.splits)

section \<open>Books built by adding orders\<close>

lemma book_inv_add: "book_inv ob \<Longrightarrow> order_wf x \<Longrightarrow> book_inv (snd (book_add x ob))"
  using book_add_ok(1) [of ob x] by (cases "book_add x ob") (metis prod.collapse snd_conv)

text \<open>
  The books on which the properties are instantiated: two bids and an ask that do not cross,
  and the same book with an ask that does.
\<close>

definition ex_order :: "u8 \<Rightarrow> order_side \<Rightarrow> u32 \<Rightarrow> u64 \<Rightarrow> order_t" where
  "ex_order i side price qty =
     make_order_t (ucast i) (replicate 16 i) [65, 66, 67, 68] LMT side NEW price qty False"

definition ex_book :: orderbook where
  "ex_book = snd (book_add (ex_order 3 SELL 103 7) (snd (book_add (ex_order 2 BUY 101 5)
     (snd (book_add (ex_order 1 BUY 100 10) (new_orderbook True))))))"

definition ex_crossed :: orderbook where
  "ex_crossed = snd (book_add (ex_order 4 SELL 100 12) ex_book)"

lemma ran_book_add:
  assumes "book_inv ob" and "order_wf x" and "ran (book_map ob) \<subseteq> A" and "x \<in> A"
  shows "ran (book_map (snd (book_add x ob))) \<subseteq> A"
proof -
  obtain r evs ob' where e: "book_add x ob = ((r, evs), ob')" by (metis prod.collapse)
  have "book_map ob' = book_map ob \<or> book_map ob (key_of x) = None \<and> book_map ob' = (book_map ob)(key_of x \<mapsto> x)"
    using book_add_ok(2) [OF assms(1,2) e] by (auto simp: spec_add_def split: if_splits)
  with assms(3,4) show ?thesis by (auto simp: e ran_map_upd)
qed

lemma order_wf_ex: "order_wf (ex_order i side price qty)"
  by (simp add: order_wf_def ex_order_def make_order_t_def ORDER_ID_LEN_def)

lemma book_inv_ex: "book_inv ex_book" "book_inv ex_crossed"
  unfolding ex_crossed_def ex_book_def by (intro book_inv_add book_inv_new order_wf_ex)+

lemma ran_ex_crossed:
  "ran (book_map ex_crossed) \<subseteq> {ex_order 1 BUY 100 10, ex_order 2 BUY 101 5, ex_order 3 SELL 103 7, ex_order 4 SELL 100 12}"
proof -
  have e: "ran (book_map (new_orderbook True)) \<subseteq> A" for A by (simp add: ran_def book_map_def new_orderbook_def)
  show ?thesis
    unfolding ex_crossed_def ex_book_def
    by (intro ran_book_add book_inv_add book_inv_new order_wf_ex e) simp_all
qed

end
