(* ===== verification/Matching.thy ===== *)
theory Matching
  imports Book_Spec
begin

text \<open>
  The matching loop \<open>execute\<close> (src/orderbook.cpp). Flattening the two sides of a book gives two
  lists of orders in the order in which the loop takes them: best price first, and within a
  level in the order of the hive. One iteration of the loop is one step of a reference
  matcher on these lists, so the whole loop returns and its result is that of the reference
  matcher; what the reference matcher guarantees then holds of the book.
\<close>

section \<open>The reference matcher\<close>

record trade =
  t_buy_id :: "u8 list"
  t_buy_price :: u32
  t_qty :: u64
  t_sell_id :: "u8 list"
  t_sell_price :: u32

definition reduce_qty :: "u64 \<Rightarrow> order_t \<Rightarrow> order_t" where
  "reduce_qty m x = x\<lparr> o_qty := o_qty x - m \<rparr>"

definition keep_open :: "order_t \<Rightarrow> order_t list \<Rightarrow> order_t list" where
  "keep_open x xs = (if o_qty x = 0 then xs else x # xs)"

definition trade_of :: "order_t \<Rightarrow> order_t \<Rightarrow> trade" where
  "trade_of b s = \<lparr> t_buy_id = o_order_id b, t_buy_price = o_price b, t_qty = min (o_qty b) (o_qty s),
     t_sell_id = o_order_id s, t_sell_price = o_price s \<rparr>"

lemma keep_open_length:
  "length (keep_open x xs) \<le> Suc (length xs)" "o_qty x = 0 \<Longrightarrow> length (keep_open x xs) = length xs"
  by (simp_all add: keep_open_def)

function match_orders :: "order_t list \<Rightarrow> order_t list \<Rightarrow> trade list \<times> order_t list \<times> order_t list" where
  "match_orders [] ss = ([], [], ss)"
| "match_orders (b # bs) [] = ([], b # bs, [])"
| "match_orders (b # bs) (s # ss) =
     (if o_price b < o_price s then ([], b # bs, s # ss)
      else let m = min (o_qty b) (o_qty s);
               (ts, bs', ss') = match_orders (keep_open (reduce_qty m b) bs) (keep_open (reduce_qty m s) ss)
           in (trade_of b s # ts, bs', ss'))"
  by pat_completeness auto

lemma match_decreases:
  "length (keep_open (reduce_qty (min (o_qty b) (o_qty s)) b) bs)
   + length (keep_open (reduce_qty (min (o_qty b) (o_qty s)) s) ss) < length (b # bs) + length (s # ss)"
  by (cases "o_qty b \<le> o_qty s") (auto simp: keep_open_def reduce_qty_def min_def)

termination match_orders
  by (relation "measure (\<lambda>(bs, ss). length bs + length ss)") (auto intro: match_decreases [simplified])

text \<open>The two sides of a book, in matching order.\<close>

definition flatten :: "(u32, price_level) omap \<Rightarrow> order_t list" where
  "flatten m = concat (map (\<lambda>e. level_orders (snd e)) m)"

definition buy_list :: "orderbook \<Rightarrow> order_t list" where
  "buy_list ob = flatten (rev (bids ob))"

definition sell_list :: "orderbook \<Rightarrow> order_t list" where
  "sell_list ob = flatten (asks ob)"

definition trade_event :: "u64 \<Rightarrow> trade \<Rightarrow> log_event_t" where
  "trade_event ts t = log_trade_report ts (t_buy_id t) (t_buy_price t) (t_qty t) (t_sell_id t) (t_sell_price t)"

section \<open>Filling the first order of a level\<close>

lemma pair_list_eq: "map fst xs = map fst ys \<Longrightarrow> map snd xs = map snd ys \<Longrightarrow> xs = ys"
  by (metis zip_map_fst_snd)

lemma reduce_qty_simps [simp]:
  "o_price (reduce_qty m x) = o_price x" "o_side (reduce_qty m x) = o_side x"
  "o_order_id (reduce_qty m x) = o_order_id x" "key_of (reduce_qty m x) = key_of x"
  "o_qty (reduce_qty m x) = o_qty x - m" "order_ok s p (reduce_qty m x) = order_ok s p x"
  by (simp_all add: reduce_qty_def key_of_def order_ok_def)

text \<open>On the hive: the first order is reduced, and erased when nothing is left of it.\<close>

lemma fill_hive:
  assumes inv: "hive_inv h" and f: "hive_first h = Some it" and e: "hv.elems h = x # xs"
  shows "hive_deref it h = Some x \<and> (\<exists>h0 h1. hive_assign it (reduce_qty m x) h = Some h0
    \<and> erase_if_filled it (reduce_qty m x) (h0, lk) =
        Some (h1, if o_qty x = m then lk(key_of x := None) else lk)
    \<and> hive_inv h1 \<and> h_id h1 = h_id h
    \<and> hive_seq h1 = (if o_qty x = m then [] else [(it, reduce_qty m x)]) @ tl (hive_seq h)
    \<and> hv.elems h1 = keep_open (reduce_qty m x) xs)"
proof -
  have g: "hive_deref it h = Some x" using hv.first_elems [OF inv f] e by auto
  obtain h0 where h0: "hive_assign it (reduce_qty m x) h = Some h0" "hive_inv h0" "hv.elems h0 = reduce_qty m x # xs"
    "hive_first h0 = Some it" "map fst (hive_seq h0) = map fst (hive_seq h)"
    using hv.put_first [OF inv f e] by blast
  obtain ss where ss: "hive_seq h = (it, x) # ss" "map snd ss = xs"
    using f e inv by (auto simp: hive_first_seq hv.elems_def split: list.splits)
  have "hive_seq h0 = (it, reduce_qty m x) # ss"
    using h0(3,5) ss by (intro pair_list_eq) (simp_all add: hv.elems_def)
  note s0 = this
  show ?thesis
  proof (cases "o_qty x = m")
    case True
    obtain h1 where h1: "hive_del it h0 = Some h1" "hive_inv h1" "hv.elems h1 = xs" "hive_seq h1 = tl (hive_seq h0)"
      using hv.del_first [OF h0(2,4,3)] by blast
    have "h_id h1 = h_id h" using h_id_del [OF h1(1)] h_id_assign [OF h0(1)] by simp
    with True g h0 h1 s0 ss show ?thesis
      by (simp add: erase_if_filled_def keep_open_def)
  next
    case False
    have "h_id h0 = h_id h" using h_id_assign [OF h0(1)] by simp
    with False g h0 s0 ss show ?thesis
      by (auto simp: erase_if_filled_def keep_open_def)
  qed
qed

text \<open>On the book: the invariant is kept, and only the level of the order changes.\<close>

lemma fill_book:
  assumes inv: "book_inv ob" and s: "is_side s" and l: "find_level s p ob = Some l"
    and f: "hive_first (orders l) = Some it" and e: "level_orders l = x # xs"
    and h1: "hive_inv h1" "h_id h1 = h_id (orders l)" "hv.elems h1 = keep_open (reduce_qty m x) xs"
      "hive_seq h1 = (if o_qty x = m then [] else [(it, reduce_qty m x)]) @ tl (hive_seq (orders l))"
    and ob': "ob' = (store_level s p (l\<lparr> orders := h1, total_qty := total_qty l - m \<rparr>) ob)
      \<lparr> order_id_lookup := (if o_qty x = m then (order_id_lookup ob)(key_of x := None) else order_id_lookup ob) \<rparr>"
  shows "book_inv ob'"
proof -
  note lv = book_invD(1) [OF inv]
  note L = level_okD [OF levels_invD(2) [OF lv s l]]
  define loc where "loc = \<lparr> loc_price = p, location_in_hive = it \<rparr>"
  define l1 where "l1 = l\<lparr> orders := h1, total_qty := total_qty l - m \<rparr>"
  define lo where "lo = (if hive_empty h1 then None else Some l1)"
  obtain ss where ss: "hive_seq (orders l) = (it, x) # ss" "map snd ss = xs"
    using f e L(1) by (auto simp: hive_first_seq level_orders_def hv.elems_def split: list.splits)
  have nit: "it \<notin> fst ` set ss" using hv.seq_distinct [OF L(1)] ss by simp
  have xl: "located ob loc x" using s l ss by (auto simp: located_def loc_def)
  have F: "find_level s' p' ob' = (if s' = s \<and> p' = p then lo else find_level s' p' ob)" if "is_side s'" for s' p'
  proof -
    have "find_level s' p' ob' = find_level s' p' (if hive_empty h1
        then set_container s (omap_erase p (container s ob)) ob else set_container s (omap_put p l1 (container s ob)) ob)"
      by (simp add: ob' store_level_def l1_def)
    then show ?thesis
      by (cases "hive_empty h1")
        (simp_all only: lo_def if_True if_False find_level_put [OF lv s that] find_level_erase [OF lv s that])
  qed
  have "levels_inv ob'"
  proof (rule levels_inv_upd [OF lv s, where p = p and lo = lo])
    show "omap_ok (container s' ob')" if "is_side s'" for s'
      using ok_put [OF lv s that] by (simp add: ob' store_level_def)
    show "find_level s' p' ob' = (if s' = s \<and> p' = p then lo else find_level s' p' ob)" if "is_side s'" for s' p'
      by (rule F [OF that])
    show "next_hive ob \<le> next_hive ob'" by (simp add: ob' store_level_def)
    show "level_ok s p l' \<and> h_id (orders l') < next_hive ob' \<and>
      (\<forall>s' p' l'a. is_side s' \<longrightarrow> find_level s' p' ob = Some l'a \<longrightarrow> h_id (orders l'a) = h_id (orders l') \<longrightarrow>
        s' = s \<and> p' = p)" if lo': "lo = Some l'" for l'
    proof (intro conjI allI impI)
      have l': "l' = l1" "\<not> hive_empty h1" using lo' by (auto simp: lo_def split: if_splits)
      have "total_qty l - m = sum_list (map o_qty (keep_open (reduce_qty m x) xs))"
        by (auto simp: L(5) e keep_open_def)
      moreover have "hv.elems h1 \<noteq> []" using hv.is_empty_elems [OF h1(1)] l'(2) by simp
      ultimately show "level_ok s p l'"
        using L(3,4) h1(1,3) e l'(1) by (auto simp: level_ok_def l1_def level_orders_def keep_open_def)
      show "h_id (orders l') < next_hive ob'"
        using levels_invD(3) [OF lv s l] l'(1) h1(2) by (simp add: l1_def ob' store_level_def)
      fix s' p' la assume a: "is_side s'" "find_level s' p' ob = Some la" "h_id (orders la) = h_id (orders l')"
      have "s' = s \<and> p' = p" using levels_invD(4) [OF lv a(1) s a(2) l] a(3) l'(1) h1(2) by (simp add: l1_def)
      then show "s' = s" "p' = p" by simp_all
    qed
  qed
  note inv' = this
  have N: "located ob' loc' y \<longleftrightarrow> located ob loc' y \<and> loc' \<noteq> loc \<or> o_qty x \<noteq> m \<and> loc' = loc \<and> y = reduce_qty m x" for loc' y
  proof -
    have lo: "(\<exists>l. lo = Some l \<and> loc_price loc' = p \<and> (location_in_hive loc', y) \<in> set (hive_seq (orders l))) \<longleftrightarrow>
      loc_price loc' = p \<and> (location_in_hive loc', y) \<in> set (hive_seq h1)"
      using hv.is_empty_seq [OF h1(1)] by (auto simp: lo_def l1_def)
    let ?R = "\<exists>s' l. is_side s' \<and> \<not> (s' = s \<and> loc_price loc' = p)
         \<and> find_level s' (loc_price loc') ob = Some l \<and> (location_in_hive loc', y) \<in> set (hive_seq (orders l))"
    have 1: "located ob' loc' y \<longleftrightarrow> loc_price loc' = p \<and> (location_in_hive loc', y) \<in> set (hive_seq h1) \<or> ?R"
      by (subst located_upd [OF s F]) (simp_all add: lo)
    have 2: "located ob loc' y \<longleftrightarrow> loc_price loc' = p \<and> (location_in_hive loc', y) \<in> set (hive_seq (orders l)) \<or> ?R"
      using located_upd [OF s, of ob p "Some l" ob loc' y] l by simp
    have 3: "loc' = loc \<longleftrightarrow> loc_price loc' = p \<and> location_in_hive loc' = it"
      by (cases loc') (auto simp: loc_def)
    have 4: "location_in_hive loc' \<noteq> it" if r: "?R"
    proof -
      obtain s' la where a: "is_side s'" "\<not> (s' = s \<and> loc_price loc' = p)"
        "find_level s' (loc_price loc') ob = Some la" "(location_in_hive loc', y) \<in> set (hive_seq (orders la))"
        using r by blast
      show ?thesis
        using located_same_level(1,2) [OF lv a(1) s a(3,4) l] a(2) ss(1) by (metis list.set_intros(1))
    qed
    have 5: "(location_in_hive loc', y) \<in> set (hive_seq h1) \<longleftrightarrow>
        (location_in_hive loc', y) \<in> set (hive_seq (orders l)) \<and> location_in_hive loc' \<noteq> it
        \<or> o_qty x \<noteq> m \<and> location_in_hive loc' = it \<and> y = reduce_qty m x"
      using nit by (auto simp: h1(4) ss(1) image_iff)
    show ?thesis unfolding 1 2 3 5 using 4 by blast
  qed
  show ?thesis
  proof (cases "o_qty x = m")
    case True
    show ?thesis
      by (rule book_inv_remove [OF inv xl inv']) (use True N in \<open>simp_all add: ob' store_level_def\<close>)
  next
    case False
    show ?thesis
      unfolding book_inv_def
    proof (intro conjI allI)
      fix k loc'
      have "(\<exists>o1. located ob' loc' o1 \<and> key_of o1 = k) \<longleftrightarrow> (\<exists>o1. located ob loc' o1 \<and> key_of o1 = k)"
      proof (cases "loc' = loc")
        case True
        have "located ob' loc' y \<longleftrightarrow> y = reduce_qty m x" for y using N [of loc' y] True False by simp
        moreover have "located ob loc' y \<longleftrightarrow> y = x" for y using located_fun [OF lv xl, of y] xl True by blast
        ultimately show ?thesis by simp
      next
        case c: False
        with N show ?thesis by simp
      qed
      then show "order_id_lookup ob' k = Some loc' \<longleftrightarrow> (\<exists>o1. located ob' loc' o1 \<and> key_of o1 = k)"
        using book_invD(2) [OF inv, of k loc'] False by (simp add: ob' store_level_def)
    qed (rule inv')
  qed
qed

section \<open>One iteration of the loop\<close>

lemma flatten_simps [simp]:
  "flatten [] = []" "flatten (e # m) = level_orders (snd e) @ flatten m" "flatten (m @ m') = flatten m @ flatten m'"
  by (simp_all add: flatten_def)

lemma store_best:
  assumes "hive_inv (orders l1)"
  shows "omap_ok (bids ob) \<Longrightarrow> bids ob = es @ [(p, l)] \<Longrightarrow>
      buy_list (store_level BUY p l1 ob) = level_orders l1 @ flatten (rev es)"
    and "omap_ok (asks ob) \<Longrightarrow> asks ob = (p, l) # es \<Longrightarrow>
      sell_list (store_level SELL p l1 ob) = level_orders l1 @ flatten es"
proof -
  have e: "hive_empty (orders l1) \<longleftrightarrow> level_orders l1 = []"
    unfolding level_orders_def by (rule hv.is_empty_elems [OF assms])
  show "buy_list (store_level BUY p l1 ob) = level_orders l1 @ flatten (rev es)"
    if "omap_ok (bids ob)" "bids ob = es @ [(p, l)]"
    using that e om.erase_at [of "bids ob" es p l "[]"] om.put_last [of "bids ob" es p l l1]
    by (simp add: buy_list_def store_level_def set_container_def container_def omap_entries_def)
  show "sell_list (store_level SELL p l1 ob) = level_orders l1 @ flatten es"
    if "omap_ok (asks ob)" "asks ob = (p, l) # es"
    using that e om.erase_at [of "asks ob" "[]" p l es] om.put_first [of "asks ob" p l es l1]
    by (simp add: sell_list_def store_level_def set_container_def container_def omap_entries_def)
qed

lemma store_level_frame [simp]:
  "asks (store_level BUY p l ob) = asks ob" "bids (store_level SELL p l ob) = bids ob"
  "sell_list (store_level BUY p l ob) = sell_list ob" "buy_list (store_level SELL p l ob) = buy_list ob"
  "log_attached (store_level s p l ob) = log_attached ob" "order_id_lookup (store_level s p l ob) = order_id_lookup ob"
  by (simp_all add: store_level_def set_container_def sell_list_def buy_list_def)

lemma lists_lookup [simp]:
  "buy_list (ob\<lparr> order_id_lookup := f \<rparr>) = buy_list ob" "sell_list (ob\<lparr> order_id_lookup := f \<rparr>) = sell_list ob"
  by (simp_all add: buy_list_def sell_list_def)

lemma store_level_lookup: "store_level s p l (ob\<lparr> order_id_lookup := f \<rparr>) = (store_level s p l ob)\<lparr> order_id_lookup := f \<rparr>"
  by (simp add: store_level_def set_container_def)

text \<open>The best level of a side and its first order.\<close>

lemma best_level:
  assumes inv: "book_inv ob" and s: "is_side s" and l: "find_level s p ob = Some l"
  shows "\<exists>x xs it. level_orders l = x # xs \<and> hive_first (orders l) = Some it \<and> o_price x = p"
proof -
  note L = level_okD [OF levels_invD(2) [OF book_invD(1) [OF inv] s l]]
  obtain x xs where x: "level_orders l = x # xs" using L(2) by (cases "level_orders l") auto
  then obtain it where "hive_first (orders l) = Some it"
    using hv.first_none_iff [OF L(1)] by (cases "hive_first (orders l)") (auto simp: level_orders_def)
  with x L(4) [of x] show ?thesis by (auto simp: order_ok_def)
qed

lemma best_levels:
  assumes inv: "book_inv ob"
  shows "omap_rbegin (bids ob) = Some (p, l) \<Longrightarrow>
      \<exists>es. bids ob = es @ [(p, l)] \<and> find_level BUY p ob = Some l"
    and "omap_begin (asks ob) = Some (p, l) \<Longrightarrow>
      \<exists>es. asks ob = (p, l) # es \<and> find_level SELL p ob = Some l"
proof -
  have ok: "omap_ok (bids ob)" "omap_ok (asks ob)"
    using levels_invD(1) [OF book_invD(1) [OF inv], of BUY] levels_invD(1) [OF book_invD(1) [OF inv], of SELL]
    by (simp_all add: container_def)
  show "\<exists>es. bids ob = es @ [(p, l)] \<and> find_level BUY p ob = Some l" if b: "omap_rbegin (bids ob) = Some (p, l)"
  proof -
    have "bids ob \<noteq> []" "last (bids ob) = (p, l)" using b by (auto simp: omap_rbegin_eq split: if_splits)
    then have "bids ob = butlast (bids ob) @ [(p, l)]" by (metis append_butlast_last_id)
    moreover have "find_level BUY p ob = Some l"
      using om.last_greatest(1) [OF ok(1) b] by (simp add: find_level_def container_def)
    ultimately show ?thesis by blast
  qed
  show "\<exists>es. asks ob = (p, l) # es \<and> find_level SELL p ob = Some l" if b: "omap_begin (asks ob) = Some (p, l)"
    using b om.first_least(1) [OF ok(2) b] by (cases "asks ob") (auto simp: find_level_def container_def)
qed

lemma execute_step_trade:
  assumes inv: "book_inv ob" and b: "omap_rbegin (bids ob) = Some (bp, bl)" and a: "omap_begin (asks ob) = Some (ap, al)"
    and c: "\<not> bp < ap"
  shows "\<exists>b bs s ss ob'. buy_list ob = b # bs \<and> sell_list ob = s # ss \<and> \<not> o_price b < o_price s
    \<and> execute_step ts ob = Some (Some (log_event (trade_event ts (trade_of b s)) ob, ob'))
    \<and> book_inv ob' \<and> log_attached ob' = log_attached ob
    \<and> buy_list ob' = keep_open (reduce_qty (min (o_qty b) (o_qty s)) b) bs
    \<and> sell_list ob' = keep_open (reduce_qty (min (o_qty b) (o_qty s)) s) ss"
proof -
  obtain bes where B: "bids ob = bes @ [(bp, bl)]" "find_level BUY bp ob = Some bl" using best_levels(1) [OF inv b] by blast
  obtain aes where A: "asks ob = (ap, al) # aes" "find_level SELL ap ob = Some al" using best_levels(2) [OF inv a] by blast
  have ok: "omap_ok (bids ob)" "omap_ok (asks ob)"
    using levels_invD(1) [OF book_invD(1) [OF inv], of BUY] levels_invD(1) [OF book_invD(1) [OF inv], of SELL]
    by (simp_all add: container_def)
  obtain x xs bi where x: "level_orders bl = x # xs" "hive_first (orders bl) = Some bi" "o_price x = bp"
    using best_level [OF inv _ B(2)] by auto
  obtain y ys ai where y: "level_orders al = y # ys" "hive_first (orders al) = Some ai" "o_price y = ap"
    using best_level [OF inv _ A(2)] by auto
  define m where "m = min (o_qty x) (o_qty y)"
  have bh: "hive_inv (orders bl)" and ah: "hive_inv (orders al)"
    using level_okD(1) [OF levels_invD(2) [OF book_invD(1) [OF inv] _ B(2)]]
      level_okD(1) [OF levels_invD(2) [OF book_invD(1) [OF inv] _ A(2)]] by simp_all
  define lk1 where "lk1 = (if o_qty x = m then (order_id_lookup ob)(key_of x := None) else order_id_lookup ob)"
  obtain h0 h1 where H: "hive_deref bi (orders bl) = Some x" "hive_assign bi (reduce_qty m x) (orders bl) = Some h0"
    "erase_if_filled bi (reduce_qty m x) (h0, order_id_lookup ob) = Some (h1, lk1)"
    and H1: "hive_inv h1" "h_id h1 = h_id (orders bl)" "hv.elems h1 = keep_open (reduce_qty m x) xs"
      "hive_seq h1 = (if o_qty x = m then [] else [(bi, reduce_qty m x)]) @ tl (hive_seq (orders bl))"
    using fill_hive [OF bh x(2) x(1) [unfolded level_orders_def], of m "order_id_lookup ob"] unfolding lk1_def by blast
  define lk2 where "lk2 = (if o_qty y = m then lk1(key_of y := None) else lk1)"
  obtain k0 k1 where K: "hive_deref ai (orders al) = Some y" "hive_assign ai (reduce_qty m y) (orders al) = Some k0"
    "erase_if_filled ai (reduce_qty m y) (k0, lk1) = Some (k1, lk2)"
    and K1: "hive_inv k1" "h_id k1 = h_id (orders al)" "hv.elems k1 = keep_open (reduce_qty m y) ys"
      "hive_seq k1 = (if o_qty y = m then [] else [(ai, reduce_qty m y)]) @ tl (hive_seq (orders al))"
    using fill_hive [OF ah y(2) y(1) [unfolded level_orders_def], of m lk1] unfolding lk2_def by blast
  define bl1 where "bl1 = bl\<lparr> orders := h1, total_qty := total_qty bl - m \<rparr>"
  define al1 where "al1 = al\<lparr> orders := k1, total_qty := total_qty al - m \<rparr>"
  define ob1 where "ob1 = (store_level BUY bp bl1 ob)\<lparr> order_id_lookup := lk1 \<rparr>"
  define ob2 where "ob2 = (store_level SELL ap al1 ob1)\<lparr> order_id_lookup := lk2 \<rparr>"
  have ob2: "ob2 = (store_level SELL ap al1 (store_level BUY bp bl1 ob))\<lparr> order_id_lookup := lk2 \<rparr>"
    by (simp add: ob2_def ob1_def store_level_lookup)
  have "execute_step ts ob = Some (Some (log_event (trade_event ts (trade_of x y)) ob, ob2))"
    using a b c x y H K
    by (simp add: execute_step_def m_def [symmetric] reduce_qty_def [symmetric] ob2 bl1_def al1_def
        trade_event_def trade_of_def)
  moreover have inv1: "book_inv ob1"
    using fill_book [OF inv _ B(2) x(2,1) H1] by (simp add: ob1_def lk1_def bl1_def)
  moreover have "book_inv ob2"
  proof -
    have "find_level SELL ap ob1 = Some al" using A(2) by (simp add: ob1_def find_level_def container_def)
    moreover have "order_id_lookup ob1 = lk1" by (simp add: ob1_def)
    ultimately show ?thesis
      using fill_book [OF inv1 _ _ y(2,1) K1, of SELL ap ob2] by (simp add: ob2_def lk2_def al1_def)
  qed
  moreover have "buy_list ob2 = keep_open (reduce_qty m x) (xs @ flatten (rev bes))"
    using store_best(1) [OF _ ok(1) B(1), of bl1] H1(1,3)
    by (simp add: ob2 bl1_def level_orders_def keep_open_def)
  moreover have "sell_list ob2 = keep_open (reduce_qty m y) (ys @ flatten aes)"
    using store_best(2) [of al1 ob1 ap al aes] ok(2) A(1) K1(1,3)
    by (simp add: ob2_def ob1_def al1_def level_orders_def keep_open_def)
  moreover have "buy_list ob = x # xs @ flatten (rev bes)" by (simp add: buy_list_def B(1) x(1))
  moreover have "sell_list ob = y # ys @ flatten aes" by (simp add: sell_list_def A(1) y(1))
  ultimately show ?thesis using c x(3) y(3) by (auto simp: m_def ob2)
qed

lemma execute_step_stop:
  assumes inv: "book_inv ob" and c: "execute_step ts ob = Some None"
  shows "match_orders (buy_list ob) (sell_list ob) = ([], buy_list ob, sell_list ob)"
proof (cases "omap_rbegin (bids ob)")
  case None
  then have "bids ob = []" by (simp add: omap_rbegin_eq split: if_splits)
  then show ?thesis by (simp add: buy_list_def)
next
  case b: (Some bp)
  obtain bpr bl where bp: "bp = (bpr, bl)" by fastforce
  note b = b [unfolded bp]
  show ?thesis
  proof (cases "omap_begin (asks ob)")
    case None
    then have "asks ob = []" by (cases "asks ob") auto
    then show ?thesis by (cases "buy_list ob") (simp_all add: sell_list_def)
  next
    case a: (Some ap)
    obtain apr al where ap: "ap = (apr, al)" by fastforce
    note a = a [unfolded ap]
    have lt: "bpr < apr"
      using execute_step_trade [OF inv b a, of ts] c by auto
    obtain bes where B: "bids ob = bes @ [(bpr, bl)]" "find_level BUY bpr ob = Some bl" using best_levels(1) [OF inv b] by blast
    obtain aes where A: "asks ob = (apr, al) # aes" "find_level SELL apr ob = Some al" using best_levels(2) [OF inv a] by blast
    obtain x xs where x: "level_orders bl = x # xs" "o_price x = bpr" using best_level [OF inv _ B(2)] by auto
    obtain y ys where y: "level_orders al = y # ys" "o_price y = apr" using best_level [OF inv _ A(2)] by auto
    show ?thesis using lt by (simp add: buy_list_def sell_list_def A(1) B(1) x y)
  qed
qed

lemma execute_step_cases:
  assumes inv: "book_inv ob"
  shows "execute_step ts ob = Some None \<or> (\<exists>b bs s ss ob'. buy_list ob = b # bs \<and> sell_list ob = s # ss
    \<and> \<not> o_price b < o_price s
    \<and> execute_step ts ob = Some (Some (log_event (trade_event ts (trade_of b s)) ob, ob'))
    \<and> book_inv ob' \<and> log_attached ob' = log_attached ob
    \<and> buy_list ob' = keep_open (reduce_qty (min (o_qty b) (o_qty s)) b) bs
    \<and> sell_list ob' = keep_open (reduce_qty (min (o_qty b) (o_qty s)) s) ss)"
proof (cases "\<exists>bp bl ap al. omap_rbegin (bids ob) = Some (bp, bl) \<and> omap_begin (asks ob) = Some (ap, al) \<and> \<not> bp < ap")
  case True
  then show ?thesis using execute_step_trade [OF inv] by blast
next
  case False
  then have "execute_step ts ob = Some None"
    by (auto simp: execute_step_def split: option.splits)
  then show ?thesis by simp
qed

section \<open>The loop\<close>

lemma execute_loop_stop: "execute_step ts ob = Some None \<Longrightarrow> execute_loop ts evs ob = Some (evs, ob)"
  by (simp add: execute_loop.simps)

lemma execute_loop_trade:
  "execute_step ts ob = Some (Some (ev, ob1)) \<Longrightarrow> execute_loop ts evs ob = execute_loop ts (evs @ ev) ob1"
  by (subst execute_loop.simps) simp

lemma execute_loop_ok:
  "book_inv ob \<Longrightarrow> \<exists>trades ob'.
     execute_loop ts evs ob = Some (evs @ (if log_attached ob then map (trade_event ts) trades else []), ob')
     \<and> book_inv ob' \<and> log_attached ob' = log_attached ob
     \<and> match_orders (buy_list ob) (sell_list ob) = (trades, buy_list ob', sell_list ob')"
proof (induction "length (buy_list ob) + length (sell_list ob)" arbitrary: ob evs rule: less_induct)
  case less
  from execute_step_cases [OF less.prems, of ts] show ?case
  proof (elim disjE exE conjE)
    assume "execute_step ts ob = Some None"
    with execute_step_stop [OF less.prems this] less.prems show ?thesis
      by (simp add: execute_loop_stop)
  next
    fix b bs s ss ob1
    assume l: "buy_list ob = b # bs" "sell_list ob = s # ss" and p: "\<not> o_price b < o_price s"
      and st: "execute_step ts ob = Some (Some (log_event (trade_event ts (trade_of b s)) ob, ob1))"
      and 1: "book_inv ob1" "log_attached ob1 = log_attached ob"
        "buy_list ob1 = keep_open (reduce_qty (min (o_qty b) (o_qty s)) b) bs"
        "sell_list ob1 = keep_open (reduce_qty (min (o_qty b) (o_qty s)) s) ss"
    have "length (buy_list ob1) + length (sell_list ob1) < length (buy_list ob) + length (sell_list ob)"
      unfolding 1 l by (rule match_decreases)
    from less.hyps [OF this 1(1), of "evs @ log_event (trade_event ts (trade_of b s)) ob"]
    obtain trades ob' where
      e: "execute_loop ts (evs @ log_event (trade_event ts (trade_of b s)) ob) ob1 =
        Some ((evs @ log_event (trade_event ts (trade_of b s)) ob)
          @ (if log_attached ob then map (trade_event ts) trades else []), ob')"
      and r: "book_inv ob'" "log_attached ob' = log_attached ob"
        "match_orders (buy_list ob1) (sell_list ob1) = (trades, buy_list ob', sell_list ob')"
      using 1(2) by auto
    have "match_orders (buy_list ob) (sell_list ob) = (trade_of b s # trades, buy_list ob', sell_list ob')"
      using p r(3) by (simp add: l 1(3,4) Let_def)
    moreover have "execute_loop ts evs ob =
        Some (evs @ (if log_attached ob then map (trade_event ts) (trade_of b s # trades) else []), ob')"
      unfolding execute_loop_trade [OF st] e by (simp add: log_event_def)
    ultimately show ?thesis using r by blast
  qed
qed

lemma execute_ok:
  "book_inv ob \<Longrightarrow> \<exists>trades ob'.
     execute ts ob = Some (if log_attached ob then map (trade_event ts) trades else [], ob')
     \<and> book_inv ob' \<and> log_attached ob' = log_attached ob
     \<and> match_orders (buy_list ob) (sell_list ob) = (trades, buy_list ob', sell_list ob')"
  using execute_loop_ok [of ob ts "[]"] by (simp add: execute_def)

end
