(* ===== verification/Execution.thy ===== *)
theory Execution
  imports Matching
begin

text \<open>
  What matching guarantees. The facts are proved once of the reference matcher, by induction
  along its recursion, and carried over to \<open>execute\<close> by the refinement of the theory
  \<open>Matching\<close>.
\<close>

section \<open>The reference matcher\<close>

lemma match_uncrossed:
  "match_orders bs ss = (ts, bs', ss') \<Longrightarrow> bs' = [] \<or> ss' = [] \<or> o_price (hd bs') < o_price (hd ss')"
  by (induction bs ss arbitrary: ts rule: match_orders.induct) (auto simp: Let_def split: if_splits prod.splits)

lemma match_uncrossed_id:
  "bs = [] \<or> ss = [] \<or> o_price (hd bs) < o_price (hd ss) \<Longrightarrow> match_orders bs ss = ([], bs, ss)"
  by (cases bs; cases ss) auto

definition volume :: "order_t list \<Rightarrow> nat" where
  "volume xs = sum_list (map (\<lambda>x. unat (o_qty x)) xs)"

lemma volume_simps [simp]: "volume [] = 0" "volume (x # xs) = unat (o_qty x) + volume xs"
  by (simp_all add: volume_def)

lemma volume_keep_open:
  "m \<le> o_qty x \<Longrightarrow> volume (keep_open (reduce_qty m x) xs) + unat m = unat (o_qty x) + volume xs"
  by (auto simp: keep_open_def unat_sub word_le_nat_alt)

lemma match_volume:
  "match_orders bs ss = (ts, bs', ss') \<Longrightarrow>
     volume bs = volume bs' + sum_list (map (\<lambda>t. unat (t_qty t)) ts)
   \<and> volume ss = volume ss' + sum_list (map (\<lambda>t. unat (t_qty t)) ts)"
proof (induction bs ss arbitrary: ts rule: match_orders.induct)
  case (3 b bs s ss)
  show ?case
  proof (cases "o_price b < o_price s")
    case True
    with 3 show ?thesis by simp
  next
    case False
    define m where "m = min (o_qty b) (o_qty s)"
    obtain ts1 where t: "match_orders (keep_open (reduce_qty m b) bs) (keep_open (reduce_qty m s) ss) = (ts1, bs', ss')"
      "ts = trade_of b s # ts1"
      using 3(2) False by (auto simp: Let_def m_def split: prod.splits)
    have "m \<le> o_qty b" "m \<le> o_qty s" by (simp_all add: m_def)
    note v = volume_keep_open [OF this(1), of bs] volume_keep_open [OF this(2), of ss]
    from 3(1) [OF False m_def t(1)] v t(2)
    show ?thesis by (simp add: trade_of_def m_def)
  qed
qed auto

text \<open>Every trade removes an order, so there are at most as many trades as orders.\<close>

lemma match_length:
  "match_orders bs ss = (ts, bs', ss') \<Longrightarrow> length ts + length bs' + length ss' \<le> length bs + length ss"
proof (induction bs ss arbitrary: ts rule: match_orders.induct)
  case (3 b bs s ss)
  show ?case
  proof (cases "o_price b < o_price s")
    case False
    define m where "m = min (o_qty b) (o_qty s)"
    obtain ts1 where t: "match_orders (keep_open (reduce_qty m b) bs) (keep_open (reduce_qty m s) ss) = (ts1, bs', ss')"
      "ts = trade_of b s # ts1"
      using 3(2) False by (auto simp: Let_def m_def split: prod.splits)
    from 3(1) [OF False m_def t(1)] match_decreases [of b s bs ss] t(2)
    show ?thesis by (simp add: m_def)
  qed (use 3 in simp)
qed auto

text \<open>
  What is left of a side: a suffix of it, whose first order may have been reduced. Orders are
  served strictly in the order of the list.
\<close>

definition served :: "order_t list \<Rightarrow> order_t list \<Rightarrow> bool" where
  "served xs ys \<longleftrightarrow> (\<exists>pre. xs = pre @ ys)
     \<or> (\<exists>pre x rest m. xs = pre @ x # rest \<and> m < o_qty x \<and> ys = reduce_qty m x # rest)"

lemma served_refl: "served xs xs" by (auto simp: served_def)

lemma served_Cons: "served xs ys \<Longrightarrow> served (x # xs) ys"
  unfolding served_def by (metis append_Cons)

lemma served_step:
  assumes "served (keep_open (reduce_qty m x) xs) ys" and "m \<le> o_qty x"
  shows "served (x # xs) ys"
proof (cases "o_qty x = m")
  case True
  with assms have "served xs ys" by (simp add: keep_open_def)
  then show ?thesis by (rule served_Cons)
next
  case False
  then have m: "m < o_qty x" using assms(2) by simp
  have s: "served (reduce_qty m x # xs) ys" using assms(1) False by (simp add: keep_open_def)
  have head: "served (x # xs) (reduce_qty m x # xs)"
    unfolding served_def using m by (metis append_Nil)
  from s consider pre where "reduce_qty m x # xs = pre @ ys"
    | pre y rest k where "reduce_qty m x # xs = pre @ y # rest" "k < o_qty y" "ys = reduce_qty k y # rest"
    unfolding served_def by blast
  then show ?thesis
  proof cases
    case 1
    show ?thesis
    proof (cases pre)
      case Nil
      with 1 head show ?thesis by simp
    next
      case (Cons p pre')
      with 1 have "x # xs = (x # pre') @ ys" by simp
      then show ?thesis unfolding served_def by blast
    qed
  next
    case 2
    show ?thesis
    proof (cases pre)
      case Nil
      with 2 have y: "y = reduce_qty m x" "rest = xs" by simp_all
      have "m + k < o_qty x"
      proof -
        have "unat k < unat (o_qty x) - unat m" using 2(2) y m by (simp add: word_less_nat_alt unat_sub)
        then have "unat m + unat k < unat (o_qty x)" by simp
        moreover have "unat (o_qty x) < 2 ^ 64"
          by (rule order_less_le_trans [OF unsigned_less]) simp
        ultimately show ?thesis by (simp add: word_less_nat_alt unat_word_ariths)
      qed
      moreover have "ys = reduce_qty (m + k) x # xs" using 2(3) y by (simp add: reduce_qty_def diff_diff_eq)
      ultimately show ?thesis unfolding served_def by (metis append_Nil)
    next
      case (Cons p pre')
      with 2 have "x # xs = (x # pre') @ y # rest" by simp
      with 2(2,3) show ?thesis unfolding served_def by blast
    qed
  qed
qed

lemma match_served:
  "match_orders bs ss = (ts, bs', ss') \<Longrightarrow> served bs bs' \<and> served ss ss'"
proof (induction bs ss arbitrary: ts rule: match_orders.induct)
  case (3 b bs s ss)
  show ?case
  proof (cases "o_price b < o_price s")
    case False
    define m where "m = min (o_qty b) (o_qty s)"
    obtain ts1 where t: "match_orders (keep_open (reduce_qty m b) bs) (keep_open (reduce_qty m s) ss) = (ts1, bs', ss')"
      using 3(2) False by (auto simp: Let_def m_def split: prod.splits)
    have "m \<le> o_qty b" "m \<le> o_qty s" by (simp_all add: m_def)
    with 3(1) [OF False m_def t] show ?thesis by (blast intro: served_step)
  qed (use 3 in \<open>auto intro: served_refl\<close>)
qed (auto intro: served_refl)

text \<open>A trade is between two orders of the lists, at prices that cross.\<close>

definition valid_trade :: "order_t list \<Rightarrow> order_t list \<Rightarrow> trade \<Rightarrow> bool" where
  "valid_trade bs ss t \<longleftrightarrow>
     (\<exists>b \<in> set bs. t_buy_id t = o_order_id b \<and> t_buy_price t = o_price b \<and> t_qty t \<le> o_qty b)
   \<and> (\<exists>s \<in> set ss. t_sell_id t = o_order_id s \<and> t_sell_price t = o_price s \<and> t_qty t \<le> o_qty s)
   \<and> t_sell_price t \<le> t_buy_price t"

lemma keep_open_weaken:
  assumes "m \<le> o_qty x" and "y \<in> set (keep_open (reduce_qty m x) xs)"
  shows "\<exists>z \<in> set (x # xs). o_order_id y = o_order_id z \<and> o_price y = o_price z \<and> o_qty y \<le> o_qty z"
  using assms by (auto simp: keep_open_def word_sub_le split: if_splits)

lemma valid_trade_weaken:
  assumes "m \<le> o_qty b" "m \<le> o_qty s"
    and "valid_trade (keep_open (reduce_qty m b) bs) (keep_open (reduce_qty m s) ss) t"
  shows "valid_trade (b # bs) (s # ss) t"
proof -
  from assms(3) obtain x y where x: "x \<in> set (keep_open (reduce_qty m b) bs)"
      "t_buy_id t = o_order_id x" "t_buy_price t = o_price x" "t_qty t \<le> o_qty x"
    and y: "y \<in> set (keep_open (reduce_qty m s) ss)"
      "t_sell_id t = o_order_id y" "t_sell_price t = o_price y" "t_qty t \<le> o_qty y"
    and c: "t_sell_price t \<le> t_buy_price t" by (auto simp: valid_trade_def)
  obtain x' where x': "x' \<in> set (b # bs)" "o_order_id x = o_order_id x'" "o_price x = o_price x'" "o_qty x \<le> o_qty x'"
    using keep_open_weaken [OF assms(1) x(1)] by blast
  obtain y' where y': "y' \<in> set (s # ss)" "o_order_id y = o_order_id y'" "o_price y = o_price y'" "o_qty y \<le> o_qty y'"
    using keep_open_weaken [OF assms(2) y(1)] by blast
  have "t_qty t \<le> o_qty x'" "t_qty t \<le> o_qty y'" using x(4) x'(4) y(4) y'(4) by simp_all
  with x x' y y' c show ?thesis unfolding valid_trade_def by metis
qed

lemma match_valid:
  "match_orders bs ss = (ts, bs', ss') \<Longrightarrow> t \<in> set ts \<Longrightarrow> valid_trade bs ss t"
proof (induction bs ss arbitrary: ts rule: match_orders.induct)
  case (3 b bs s ss)
  show ?case
  proof (cases "o_price b < o_price s")
    case False
    define m where "m = min (o_qty b) (o_qty s)"
    obtain ts1 where t: "match_orders (keep_open (reduce_qty m b) bs) (keep_open (reduce_qty m s) ss) = (ts1, bs', ss')"
      "ts = trade_of b s # ts1"
      using 3(2) False by (auto simp: Let_def m_def split: prod.splits)
    have m: "m \<le> o_qty b" "m \<le> o_qty s" by (simp_all add: m_def)
    show ?thesis
    proof (cases "t = trade_of b s")
      case True
      then show ?thesis using False by (simp add: valid_trade_def trade_of_def)
    next
      case c: False
      with 3(3) t(2) have "t \<in> set ts1" by simp
      from valid_trade_weaken [OF m 3(1) [OF False m_def t(1) this]] show ?thesis .
    qed
  qed (use 3 in simp)
qed auto

text \<open>With positive quantities, every trade has a positive quantity and so has every order left.\<close>

definition all_open :: "order_t list \<Rightarrow> bool" where
  "all_open xs \<longleftrightarrow> (\<forall>x \<in> set xs. o_qty x \<noteq> 0)"

lemma match_open:
  "match_orders bs ss = (ts, bs', ss') \<Longrightarrow> all_open bs \<Longrightarrow> all_open ss \<Longrightarrow>
   (\<forall>t \<in> set ts. t_qty t \<noteq> 0) \<and> all_open bs' \<and> all_open ss'"
proof (induction bs ss arbitrary: ts rule: match_orders.induct)
  case (3 b bs s ss)
  show ?case
  proof (cases "o_price b < o_price s")
    case False
    define m where "m = min (o_qty b) (o_qty s)"
    obtain ts1 where t: "match_orders (keep_open (reduce_qty m b) bs) (keep_open (reduce_qty m s) ss) = (ts1, bs', ss')"
      "ts = trade_of b s # ts1"
      using 3(2) False by (auto simp: Let_def m_def split: prod.splits)
    have "all_open (keep_open (reduce_qty m b) bs)" "all_open (keep_open (reduce_qty m s) ss)"
      using 3(3,4) by (auto simp: all_open_def keep_open_def)
    from 3(1) [OF False m_def t(1) this] 3(3,4) t(2) show ?thesis
      by (simp add: trade_of_def all_open_def min_def)
  qed (use 3 in simp)
qed auto

section \<open>The sides of a book as lists\<close>

lemma set_flatten: "x \<in> set (flatten m) \<longleftrightarrow> (\<exists>p l. (p, l) \<in> set m \<and> x \<in> set (level_orders l))"
  unfolding flatten_def by force

lemma side_levels:
  assumes inv: "book_inv ob" and s: "is_side s" and e: "(p, l) \<in> set (container s ob)"
  shows "level_ok s p l"
  using levels_invD(2) [OF book_invD(1) [OF inv] s] find_level_iff [OF book_invD(1) [OF inv] s] e by blast

lemma flatten_sorted_up:
  assumes "sorted_wrt (<) (map fst m)" and "\<And>p l. (p, l) \<in> set m \<Longrightarrow> level_ok s p l"
  shows "sorted_wrt (\<lambda>x y. o_price x \<le> o_price y) (flatten m)"
    and "sorted_wrt (\<lambda>x y. o_price y \<le> o_price x) (flatten (rev m))"
proof -
  have price: "o_price x = p" if "(p, l) \<in> set m" "x \<in> set (level_orders l)" for p l x
    using level_okD(4) [OF assms(2) [OF that(1)] that(2)] by (simp add: order_ok_def)
  have one: "sorted_wrt (\<lambda>x y. o_price x \<le> o_price y) (level_orders l)"
    "sorted_wrt (\<lambda>x y. o_price y \<le> o_price x) (level_orders l)" if "(p, l) \<in> set m" for p l
    using price [OF that] by (auto intro!: sorted_wrt_mono_rel [of "level_orders l" "\<lambda>_ _. True"] simp: sorted_wrt_iff_nth_less)
  have "sorted_wrt (\<lambda>x y. o_price x \<le> o_price y) (flatten n) \<and> sorted_wrt (\<lambda>x y. o_price y \<le> o_price x) (flatten (rev n))"
    if "sorted_wrt (<) (map fst n)" "set n \<subseteq> set m" for n
    using that
  proof (induction n)
    case (Cons e n)
    obtain p l where e: "e = (p, l)" by fastforce
    have "o_price x \<le> o_price y" if a: "x \<in> set (level_orders l)" "y \<in> set (flatten n)" for x y
    proof -
      obtain p' l' where y: "(p', l') \<in> set n" "y \<in> set (level_orders l')" using a(2) by (auto simp: set_flatten)
      with Cons.prems e have "p < p'" by force
      moreover have "o_price x = p" "o_price y = p'" using price Cons.prems(2) y a(1) e by auto
      ultimately show ?thesis by simp
    qed
    with Cons one [of p l] e show ?case by (auto simp: sorted_wrt_append set_flatten)
  qed simp
  with assms(1) show "sorted_wrt (\<lambda>x y. o_price x \<le> o_price y) (flatten m)"
    "sorted_wrt (\<lambda>x y. o_price y \<le> o_price x) (flatten (rev m))" by blast+
qed

lemma in_side_list:
  assumes inv: "book_inv ob" and s: "is_side s"
  shows "x \<in> set (flatten (container s ob)) \<longleftrightarrow> x \<in> ran (book_map ob) \<and> o_side x = s"
proof
  assume "x \<in> set (flatten (container s ob))"
  then obtain p l where l: "(p, l) \<in> set (container s ob)" "x \<in> set (level_orders l)" by (auto simp: set_flatten)
  then obtain it where it: "(it, x) \<in> set (hive_seq (orders l))" by (auto simp: level_orders_def hv.elems_def)
  have f: "find_level s p ob = Some l" using find_level_iff [OF book_invD(1) [OF inv] s] l(1) by blast
  have "located ob \<lparr> loc_price = p, location_in_hive = it \<rparr> x" using s f it by (auto simp: located_def)
  then have "book_map ob (key_of x) = Some x" using book_map_iff [OF inv] by blast
  moreover have "o_side x = s" using level_okD(4) [OF side_levels [OF inv s l(1)] l(2)] by (simp add: order_ok_def)
  ultimately show "x \<in> ran (book_map ob) \<and> o_side x = s" by (auto simp: ran_def)
next
  assume x: "x \<in> ran (book_map ob) \<and> o_side x = s"
  then obtain loc where "located ob loc x" using book_map_iff [OF inv] by (auto simp: ran_def)
  from located_order(5) [OF book_invD(1) [OF inv] this] x obtain l where
    "find_level s (o_price x) ob = Some l" "(location_in_hive loc, x) \<in> set (hive_seq (orders l))" by auto
  then show "x \<in> set (flatten (container s ob))"
    using find_level_iff [OF book_invD(1) [OF inv] s] by (auto simp: set_flatten dest: in_level)
qed

lemma side_list_distinct:
  assumes inv: "book_inv ob" and s: "is_side s"
  shows "distinct (flatten (container s ob))"
proof -
  have ok: "sorted_wrt (<) (map fst (container s ob))"
    using levels_invD(1) [OF book_invD(1) [OF inv] s] by (simp add: omap_ok_def)
  have "distinct (flatten n)" if "sorted_wrt (<) (map fst n)" "set n \<subseteq> set (container s ob)" for n
    using that
  proof (induction n)
    case (Cons e n)
    obtain p l where e: "e = (p, l)" by fastforce
    have lk: "level_ok s p' l'" if "(p', l') \<in> set (e # n)" for p' l'
      using side_levels [OF inv s] Cons.prems(2) that by blast
    have price: "o_price x = p'" if "(p', l') \<in> set (e # n)" "x \<in> set (level_orders l')" for p' l' x
      using level_okD(4) [OF lk [OF that(1)] that(2)] by (simp add: order_ok_def)
    have "x \<notin> set (flatten n)" if x: "x \<in> set (level_orders l)" for x
    proof
      assume "x \<in> set (flatten n)"
      then obtain p' l' where y: "(p', l') \<in> set n" "x \<in> set (level_orders l')" by (auto simp: set_flatten)
      then have "p' = p" using price [of p' l' x] price [of p l x] x e by simp
      moreover have "p < p'" using Cons.prems(1) y(1) e by force
      ultimately show False by simp
    qed
    moreover have "distinct (level_orders l)"
      using level_distinct [OF inv s] find_level_iff [OF book_invD(1) [OF inv] s] Cons.prems(2) e by auto
    ultimately show ?case using Cons e by auto
  qed simp
  with ok show ?thesis by blast
qed

lemma flatten_rev: "set (flatten (rev m)) = set (flatten m)" "distinct (flatten (rev m)) = distinct (flatten m)"
proof -
  have "mset (flatten (rev m)) = mset (flatten m)" by (induction m) auto
  then show "set (flatten (rev m)) = set (flatten m)" "distinct (flatten (rev m)) = distinct (flatten m)"
    by (metis mset_eq_setD, metis mset_eq_imp_distinct_iff)
qed

lemma book_lists_ok:
  assumes inv: "book_inv ob"
  shows "set (buy_list ob) = {x \<in> ran (book_map ob). o_side x = BUY}" "distinct (buy_list ob)"
    "sorted_wrt (\<lambda>x y. o_price y \<le> o_price x) (buy_list ob)"
    "set (sell_list ob) = {x \<in> ran (book_map ob). o_side x = SELL}" "distinct (sell_list ob)"
    "sorted_wrt (\<lambda>x y. o_price x \<le> o_price y) (sell_list ob)"
proof -
  have c: "container BUY ob = bids ob" "container SELL ob = asks ob" by (simp_all add: container_def)
  have ok: "sorted_wrt (<) (map fst (container s ob))" if "is_side s" for s
    using levels_invD(1) [OF book_invD(1) [OF inv] that] by (simp add: omap_ok_def)
  show "set (buy_list ob) = {x \<in> ran (book_map ob). o_side x = BUY}"
    using in_side_list [OF inv, of BUY] by (auto simp: buy_list_def flatten_rev c)
  show "set (sell_list ob) = {x \<in> ran (book_map ob). o_side x = SELL}"
    using in_side_list [OF inv, of SELL] by (auto simp: sell_list_def c)
  show "distinct (buy_list ob)" "distinct (sell_list ob)"
    using side_list_distinct [OF inv, of BUY] side_list_distinct [OF inv, of SELL]
    by (simp_all add: buy_list_def sell_list_def flatten_rev c)
  show "sorted_wrt (\<lambda>x y. o_price y \<le> o_price x) (buy_list ob)"
    unfolding buy_list_def using flatten_sorted_up(2) [of "bids ob" BUY] ok [of BUY] side_levels [OF inv, of BUY]
    by (simp add: c)
  show "sorted_wrt (\<lambda>x y. o_price x \<le> o_price y) (sell_list ob)"
    unfolding sell_list_def using flatten_sorted_up(1) [of "asks ob" SELL] ok [of SELL] side_levels [OF inv, of SELL]
    by (simp add: c)
qed

lemma best_of_lists:
  assumes inv: "book_inv ob"
  shows "best_bid ob = (case buy_list ob of [] \<Rightarrow> None | x # _ \<Rightarrow> Some (o_price x))"
    "best_ask ob = (case sell_list ob of [] \<Rightarrow> None | x # _ \<Rightarrow> Some (o_price x))"
proof -
  show "best_bid ob = (case buy_list ob of [] \<Rightarrow> None | x # _ \<Rightarrow> Some (o_price x))"
  proof (cases "omap_rbegin (bids ob)")
    case None
    then have "bids ob = []" by (simp add: omap_rbegin_eq split: if_splits)
    then show ?thesis by (simp add: best_bid_def buy_list_def)
  next
    case (Some e)
    obtain p l where e: "e = (p, l)" by fastforce
    obtain es where B: "bids ob = es @ [(p, l)]" "find_level BUY p ob = Some l"
      using best_levels(1) [OF inv Some [unfolded e]] by blast
    obtain x xs where x: "level_orders l = x # xs" "o_price x = p" using best_level [OF inv _ B(2)] by auto
    show ?thesis using Some e B(1) x by (simp add: best_bid_def buy_list_def)
  qed
  show "best_ask ob = (case sell_list ob of [] \<Rightarrow> None | x # _ \<Rightarrow> Some (o_price x))"
  proof (cases "asks ob")
    case Nil
    then show ?thesis by (simp add: best_ask_def sell_list_def)
  next
    case (Cons e es)
    obtain p l where e: "e = (p, l)" by fastforce
    have b: "omap_begin (asks ob) = Some (p, l)" using Cons e by simp
    have f: "find_level SELL p ob = Some l" using best_levels(2) [OF inv b] by blast
    obtain x xs where x: "level_orders l = x # xs" "o_price x = p" using best_level [OF inv _ f] by auto
    show ?thesis using Cons e x by (simp add: best_ask_def sell_list_def)
  qed
qed

end
