(* ===== verification/Book_Properties.thy ===== *)
theory Book_Properties
  imports Execution
begin

text \<open>
  The properties of the order book: its operations implement the abstract book, the prices
  and quantities it reports are right, and \<open>execute\<close> does what a matching engine promises.
  Each hypothesis is met by the books \<open>ex_book\<close> and \<open>ex_crossed\<close>, or by the empty book.
\<close>

section \<open>The operations implement the abstract book\<close>

text \<open>
  C2: \<open>add\<close> refines the abstract insertion on every branch: a known identifier, a bad side and
  a price above the limit leave the book as it is and give their result; otherwise the order
  is filed under its identifier. The invariant is kept and one event is logged on success.
\<close>

theorem book_add_refines:
  assumes "book_inv ob" and "order_wf x"
  shows "case book_add x ob of ((r, evs), ob') \<Rightarrow>
    book_inv ob' \<and> spec_add x (book_map ob) = (r, book_map ob')
    \<and> evs = (if r = SUCCESS \<and> log_attached ob then
        [log_price_level_update (o_timestamp x) (o_order_id x) (o_price x) (o_qty x) (o_side x)] else [])"
  using book_add_ok [OF assms] by (auto split: prod.splits)

theorem book_add_refines_witness:
  "case book_add (ex_order 5 BUY 99 1) ex_book of ((r, evs), ob') \<Rightarrow>
    book_inv ob' \<and> spec_add (ex_order 5 BUY 99 1) (book_map ex_book) = (r, book_map ob')
    \<and> evs = (if r = SUCCESS \<and> log_attached ex_book then
        [log_price_level_update (o_timestamp (ex_order 5 BUY 99 1)) (o_order_id (ex_order 5 BUY 99 1))
           (o_price (ex_order 5 BUY 99 1)) (o_qty (ex_order 5 BUY 99 1)) (o_side (ex_order 5 BUY 99 1))] else [])"
  by (rule book_add_refines [OF book_inv_ex(1) order_wf_ex])





section \<open>What the book reports\<close>

text \<open>The best bid is the highest price of a buy order; there is none without buy orders.\<close>

theorem best_bid_correct:
  assumes "book_inv ob"
  shows "case best_bid ob of
      None \<Rightarrow> \<forall>x \<in> ran (book_map ob). o_side x \<noteq> BUY
    | Some p \<Rightarrow> (\<exists>x \<in> ran (book_map ob). o_side x = BUY \<and> o_price x = p)
        \<and> (\<forall>x \<in> ran (book_map ob). o_side x = BUY \<longrightarrow> o_price x \<le> p)"
  by (rule best_bid_ok [OF assms])

theorem best_bid_correct_witness:
  "case best_bid ex_book of
      None \<Rightarrow> \<forall>x \<in> ran (book_map ex_book). o_side x \<noteq> BUY
    | Some p \<Rightarrow> (\<exists>x \<in> ran (book_map ex_book). o_side x = BUY \<and> o_price x = p)
        \<and> (\<forall>x \<in> ran (book_map ex_book). o_side x = BUY \<longrightarrow> o_price x \<le> p)"
  by (rule best_bid_correct [OF book_inv_ex(1)])

text \<open>The best ask is the lowest price of a sell order; there is none without sell orders.\<close>

theorem best_ask_correct:
  assumes "book_inv ob"
  shows "case best_ask ob of
      None \<Rightarrow> \<forall>x \<in> ran (book_map ob). o_side x \<noteq> SELL
    | Some p \<Rightarrow> (\<exists>x \<in> ran (book_map ob). o_side x = SELL \<and> o_price x = p)
        \<and> (\<forall>x \<in> ran (book_map ob). o_side x = SELL \<longrightarrow> p \<le> o_price x)"
  by (rule best_ask_ok [OF assms])

theorem best_ask_correct_witness:
  "case best_ask ex_book of
      None \<Rightarrow> \<forall>x \<in> ran (book_map ex_book). o_side x \<noteq> SELL
    | Some p \<Rightarrow> (\<exists>x \<in> ran (book_map ex_book). o_side x = SELL \<and> o_price x = p)
        \<and> (\<forall>x \<in> ran (book_map ex_book). o_side x = SELL \<longrightarrow> p \<le> o_price x)"
  by (rule best_ask_correct [OF book_inv_ex(1)])

text \<open>
  The two lists on which the matching loop works hold exactly the open orders of their
  side, each once, the buy orders by falling and the sell orders by rising price.
\<close>

theorem book_lists:
  assumes "book_inv ob"
  shows "set (buy_list ob) = {x \<in> ran (book_map ob). o_side x = BUY} \<and> distinct (buy_list ob)
    \<and> sorted_wrt (\<lambda>x y. o_price y \<le> o_price x) (buy_list ob)
    \<and> set (sell_list ob) = {x \<in> ran (book_map ob). o_side x = SELL} \<and> distinct (sell_list ob)
    \<and> sorted_wrt (\<lambda>x y. o_price x \<le> o_price y) (sell_list ob)"
  using book_lists_ok [OF assms] by blast

theorem book_lists_witness:
  "set (buy_list ex_book) = {x \<in> ran (book_map ex_book). o_side x = BUY} \<and> distinct (buy_list ex_book)
    \<and> sorted_wrt (\<lambda>x y. o_price y \<le> o_price x) (buy_list ex_book)
    \<and> set (sell_list ex_book) = {x \<in> ran (book_map ex_book). o_side x = SELL} \<and> distinct (sell_list ex_book)
    \<and> sorted_wrt (\<lambda>x y. o_price x \<le> o_price y) (sell_list ex_book)"
  by (rule book_lists [OF book_inv_ex(1)])

section \<open>Matching\<close>

text \<open>
  C1: \<open>execute\<close> returns, without undefined behaviour, whatever the book; it keeps the
  invariant, and its trades and the two sides it leaves are those of the reference matcher.
\<close>

theorem execute_refines_matcher:
  assumes "book_inv ob"
  shows "\<exists>trades ob'. execute ts ob = Some (if log_attached ob then map (trade_event ts) trades else [], ob')
    \<and> book_inv ob' \<and> match_orders (buy_list ob) (sell_list ob) = (trades, buy_list ob', sell_list ob')"
  using execute_ok [OF assms] by blast

theorem execute_refines_matcher_witness:
  "\<exists>trades ob'. execute 0 ex_crossed = Some (if log_attached ex_crossed then map (trade_event 0) trades else [], ob')
    \<and> book_inv ob' \<and> match_orders (buy_list ex_crossed) (sell_list ex_crossed) = (trades, buy_list ob', sell_list ob')"
  by (rule execute_refines_matcher [OF book_inv_ex(2)])

text \<open>C20: after \<open>execute\<close> the book is not crossed: the best bid is below the best ask.\<close>

theorem execute_uncrosses:
  assumes "book_inv ob"
  shows "\<exists>evs ob'. execute ts ob = Some (evs, ob')
    \<and> (case (best_bid ob', best_ask ob') of (Some b, Some a) \<Rightarrow> b < a | _ \<Rightarrow> True)"
proof -
  obtain evs ob' trades where e: "execute ts ob = Some (evs, ob')" "book_inv ob'"
    "match_orders (buy_list ob) (sell_list ob) = (trades, buy_list ob', sell_list ob')"
    using execute_ok [OF assms, of ts] by blast
  have "case (best_bid ob', best_ask ob') of (Some b, Some a) \<Rightarrow> b < a | _ \<Rightarrow> True"
    using match_uncrossed [OF e(3)] by (auto simp: best_of_lists [OF e(2)] split: list.splits)
  with e(1) show ?thesis by blast
qed

theorem execute_uncrosses_witness:
  "\<exists>evs ob'. execute 0 ex_crossed = Some (evs, ob')
    \<and> (case (best_bid ob', best_ask ob') of (Some b, Some a) \<Rightarrow> b < a | _ \<Rightarrow> True)"
  by (rule execute_uncrosses [OF book_inv_ex(2)])

text \<open>
  C21: no quantity is lost or invented: what each side held before is what it holds afterwards
  plus the quantities of the reported trades, added as natural numbers.
\<close>

theorem execute_conserves_volume:
  assumes "book_inv ob" and "log_attached ob"
  shows "\<exists>evs ob'. execute ts ob = Some (evs, ob')
    \<and> volume (buy_list ob) = volume (buy_list ob') + sum_list (map (\<lambda>e. unat (ev_qty e)) evs)
    \<and> volume (sell_list ob) = volume (sell_list ob') + sum_list (map (\<lambda>e. unat (ev_qty e)) evs)"
proof -
  obtain trades ob' where e: "execute ts ob = Some (map (trade_event ts) trades, ob')"
    "match_orders (buy_list ob) (sell_list ob) = (trades, buy_list ob', sell_list ob')"
    using execute_ok [OF assms(1), of ts] assms(2) by auto
  have q: "ev_qty (trade_event ts t) = t_qty t" for t by (simp add: trade_event_def log_trade_report_def)
  then have "(\<lambda>e. unat (ev_qty e)) \<circ> trade_event ts = (\<lambda>t. unat (t_qty t))" by (simp add: fun_eq_iff)
  with e(1) match_volume [OF e(2)] show ?thesis by simp
qed

theorem execute_conserves_volume_witness:
  "\<exists>evs ob'. execute 0 ex_crossed = Some (evs, ob')
    \<and> volume (buy_list ex_crossed) = volume (buy_list ob') + sum_list (map (\<lambda>e. unat (ev_qty e)) evs)
    \<and> volume (sell_list ex_crossed) = volume (sell_list ob') + sum_list (map (\<lambda>e. unat (ev_qty e)) evs)"
  by (rule execute_conserves_volume [OF book_inv_ex(2)])
    (simp add: ex_crossed_def ex_book_def log_attached_add new_orderbook_def)

text \<open>
  C22: orders are served strictly in the order of their list (best price first, then the order
  within the level): what is left of a side is a suffix of it, whose first order may have
  lost part of its quantity.
\<close>

theorem execute_serves_in_order:
  assumes "book_inv ob"
  shows "\<exists>evs ob'. execute ts ob = Some (evs, ob')
    \<and> served (buy_list ob) (buy_list ob') \<and> served (sell_list ob) (sell_list ob')"
  using execute_ok [OF assms, of ts] match_served by blast

theorem execute_serves_in_order_witness:
  "\<exists>evs ob'. execute 0 ex_crossed = Some (evs, ob')
    \<and> served (buy_list ex_crossed) (buy_list ob') \<and> served (sell_list ex_crossed) (sell_list ob')"
  by (rule execute_serves_in_order [OF book_inv_ex(2)])

text \<open>
  C23: every reported trade is between a buy and a sell order of the book, at their limit prices,
  which cross, and for no more than either holds.
\<close>

theorem execute_trades_valid:
  assumes "book_inv ob"
  shows "\<exists>evs ob'. execute ts ob = Some (evs, ob') \<and> (\<forall>e \<in> set evs. \<exists>t. e = trade_event ts t
    \<and> (\<exists>b \<in> ran (book_map ob). o_side b = BUY \<and> t_buy_id t = o_order_id b \<and> t_buy_price t = o_price b \<and> t_qty t \<le> o_qty b)
    \<and> (\<exists>s \<in> ran (book_map ob). o_side s = SELL \<and> t_sell_id t = o_order_id s \<and> t_sell_price t = o_price s \<and> t_qty t \<le> o_qty s)
    \<and> t_sell_price t \<le> t_buy_price t)"
proof -
  obtain trades ob' where e: "execute ts ob = Some (if log_attached ob then map (trade_event ts) trades else [], ob')"
    "match_orders (buy_list ob) (sell_list ob) = (trades, buy_list ob', sell_list ob')"
    using execute_ok [OF assms(1), of ts] by blast
  have "valid_trade (buy_list ob) (sell_list ob) t" if "t \<in> set trades" for t using match_valid [OF e(2) that] .
  with e(1) show ?thesis
    unfolding valid_trade_def book_lists_ok(1,4) [OF assms] by (fastforce split: if_splits)
qed

theorem execute_trades_valid_witness:
  "\<exists>evs ob'. execute 0 ex_crossed = Some (evs, ob') \<and> (\<forall>e \<in> set evs. \<exists>t. e = trade_event 0 t
    \<and> t_sell_price t \<le> t_buy_price t)"
  using execute_trades_valid [OF book_inv_ex(2), of 0] by blast

text \<open>
  When every order of the book has a positive quantity, so has every reported trade, and so
  has every order that is left: filled orders are gone.
\<close>

theorem execute_open_orders:
  assumes "book_inv ob" and "\<forall>x \<in> ran (book_map ob). o_qty x \<noteq> 0"
  shows "\<exists>evs ob'. execute ts ob = Some (evs, ob') \<and> (\<forall>e \<in> set evs. ev_qty e \<noteq> 0)
    \<and> (\<forall>x \<in> ran (book_map ob'). o_qty x \<noteq> 0)"
proof -
  obtain trades ob' where e: "execute ts ob = Some (if log_attached ob then map (trade_event ts) trades else [], ob')"
    "match_orders (buy_list ob) (sell_list ob) = (trades, buy_list ob', sell_list ob')" "book_inv ob'"
    using execute_ok [OF assms(1), of ts] by blast
  have "all_open (buy_list ob)" "all_open (sell_list ob)"
    using assms(2) by (simp_all add: all_open_def book_lists_ok(1,4) [OF assms(1)])
  note m = match_open [OF e(2) this]
  have "o_qty x \<noteq> 0" if x: "x \<in> ran (book_map ob')" for x
  proof -
    have "x \<in> set (buy_list ob') \<or> x \<in> set (sell_list ob')"
      using level_of_order(1) [OF e(3) x] x by (auto simp: is_side_def book_lists_ok(1,4) [OF e(3)])
    with m show ?thesis by (auto simp: all_open_def)
  qed
  moreover have "ev_qty (trade_event ts t) = t_qty t" for t by (simp add: trade_event_def log_trade_report_def)
  ultimately show ?thesis using e(1) m by (auto split: if_splits)
qed

theorem execute_open_orders_witness:
  "\<exists>evs ob'. execute 0 ex_crossed = Some (evs, ob') \<and> (\<forall>e \<in> set evs. ev_qty e \<noteq> 0)
    \<and> (\<forall>x \<in> ran (book_map ob'). o_qty x \<noteq> 0)"
  by (rule execute_open_orders [OF book_inv_ex(2)]) (use ran_ex_crossed in \<open>auto simp: ex_order_def make_order_t_def\<close>)

text \<open>
  The number of trades of one call is at most the number of orders it removes from the
  book; in particular the loop makes at most as many iterations as there are orders.
\<close>

theorem execute_trade_count:
  assumes "book_inv ob"
  shows "\<exists>evs ob'. execute ts ob = Some (evs, ob')
    \<and> length evs + card (ran (book_map ob')) \<le> card (ran (book_map ob))"
proof -
  obtain trades ob' where e: "execute ts ob = Some (if log_attached ob then map (trade_event ts) trades else [], ob')"
    "match_orders (buy_list ob) (sell_list ob) = (trades, buy_list ob', sell_list ob')" "book_inv ob'"
    using execute_ok [OF assms(1), of ts] by blast
  have c: "card (ran (book_map b)) = length (buy_list b) + length (sell_list b)" if b: "book_inv b" for b
  proof -
    note L = book_lists_ok [OF b]
    have "ran (book_map b) = set (buy_list b) \<union> set (sell_list b)"
      using level_of_order(1) [OF b] L(1,4) by (auto simp: is_side_def)
    moreover have "set (buy_list b) \<inter> set (sell_list b) = {}" using L(1,4) by auto
    ultimately show ?thesis using L(2,5) by (simp add: card_Un_disjoint distinct_card)
  qed
  have "length (if log_attached ob then map (trade_event ts) trades else []) \<le> length trades" by simp
  with match_length [OF e(2)] have "length (if log_attached ob then map (trade_event ts) trades else [])
      + card (ran (book_map ob')) \<le> card (ran (book_map ob))"
    unfolding c [OF assms] c [OF e(3)] by linarith
  with e(1) show ?thesis by blast
qed

theorem execute_trade_count_witness:
  "\<exists>evs ob'. execute 0 ex_crossed = Some (evs, ob')
    \<and> length evs + card (ran (book_map ob')) \<le> card (ran (book_map ex_crossed))"
  by (rule execute_trade_count [OF book_inv_ex(2)])

text \<open>A book that is not crossed is left exactly as it is, and nothing is reported.\<close>

theorem execute_idle:
  assumes "book_inv ob" and "case (best_bid ob, best_ask ob) of (Some b, Some a) \<Rightarrow> b < a | _ \<Rightarrow> True"
  shows "execute ts ob = Some ([], ob)"
proof -
  have "buy_list ob = [] \<or> sell_list ob = [] \<or> o_price (hd (buy_list ob)) < o_price (hd (sell_list ob))"
    using assms(2) by (auto simp: best_of_lists [OF assms(1)] split: list.splits)
  then have "execute_step ts ob = Some None"
    using execute_step_cases [OF assms(1), of ts] by auto
  then show ?thesis by (simp add: execute_def execute_loop_stop)
qed

theorem execute_idle_witness: "execute 0 ex_book = Some ([], ex_book)"
  by (rule execute_idle [OF book_inv_ex(1)]) code_simp

section \<open>Time priority\<close>

lemma insert_at_level_append:
  assumes inv: "levels_inv ob" and s: "is_side s" and e: "insert_at_level s x ob = (it, ob')"
    and fresh: "\<forall>l. find_level s (o_price x) ob = Some l \<longrightarrow> erasure_groups (orders l) = []"
  shows "\<exists>l. find_level s (o_price x) ob' = Some l
    \<and> level_orders l = (case find_level s (o_price x) ob of None \<Rightarrow> [] | Some l \<Rightarrow> level_orders l) @ [x]"
proof -
  obtain l ob1 where l: "level_at s (o_price x) ob = (l, ob1)" by fastforce
  obtain h it' where h: "hive_insert x (orders l) = (h, it')" by fastforce
  note L = level_at_ok [OF inv s l]
  have "erasure_groups (orders l) = []"
    using l fresh by (auto simp: level_at_def find_level_def new_price_level_def hive_new_def split: option.splits)
  from hive_insert_ok(3) [OF L(1) h this] have "level_orders (l\<lparr> orders := h, total_qty := q \<rparr>) = level_orders l @ [x]" for q
    by (simp add: level_orders_def hv.elems_def)
  moreover have "find_level s (o_price x) ob' = Some (l\<lparr> orders := h, total_qty := total_qty l + o_qty x \<rparr>)"
    using e by (auto simp: insert_at_level_def l h find_level_put [OF L(5) s s])
  ultimately show ?thesis using L(11) by simp
qed

text \<open>
  An accepted order is queued last at its price when the level has no erased slot, for
  instance when no order of the level has been cancelled or filled out of turn.
\<close>

theorem add_queues_last:
  assumes "book_inv ob" and "order_wf x" and "fst (fst (book_add x ob)) = SUCCESS"
    and "\<forall>l. find_level (o_side x) (o_price x) ob = Some l \<longrightarrow> erasure_groups (orders l) = []"
  shows "\<exists>l. find_level (o_side x) (o_price x) (snd (book_add x ob)) = Some l
    \<and> level_orders l = (case find_level (o_side x) (o_price x) ob of None \<Rightarrow> [] | Some l \<Rightarrow> level_orders l) @ [x]"
proof -
  have s: "is_side (o_side x)" "\<not> MAX_PRICE < o_price x" "\<not> book_contains (key_of x) ob"
    using assms(3) by (auto simp: book_add_def is_side_def Let_def split: if_splits)
  obtain it ob1 where e: "insert_at_level (o_side x) x ob = (it, ob1)" by fastforce
  have "find_level s p (snd (book_add x ob)) = find_level s p ob1" for s p
    using s e unfolding book_add_def is_side_def by (auto simp: Let_def)
  with insert_at_level_append [OF book_invD(1) [OF assms(1)] s(1) e assms(4)] show ?thesis by simp
qed

theorem add_queues_last_witness:
  "\<exists>l. find_level BUY 100 (snd (book_add (ex_order 5 BUY 100 3) ex_book)) = Some l
    \<and> level_orders l = (case find_level BUY 100 ex_book of None \<Rightarrow> [] | Some l \<Rightarrow> level_orders l) @ [ex_order 5 BUY 100 3]"
proof -
  have p: "o_side (ex_order 5 BUY 100 3) = BUY" "o_price (ex_order 5 BUY 100 3) = 100"
    by (simp_all add: ex_order_def make_order_t_def)
  have 1: "fst (fst (book_add (ex_order 5 BUY 100 3) ex_book)) = SUCCESS" by code_simp
  have "(case find_level BUY 100 ex_book of None \<Rightarrow> True | Some l \<Rightarrow> erasure_groups (orders l) = [])" by code_simp
  then have 2: "\<forall>l. find_level BUY 100 ex_book = Some l \<longrightarrow> erasure_groups (orders l) = []" by auto
  from add_queues_last [OF book_inv_ex(1) order_wf_ex 1, unfolded p, OF 2] show ?thesis .
qed

end
