(* ===== verification/Book_Runs.thy ===== *)
theory Book_Runs
  imports Book_Properties
begin

text \<open>
  The order book over any sequence of its public operations: what its price levels hold, and two ways in which
  the operations, each right by itself, do not give what a matching engine promises: a slot that is used again
  breaks time priority, and a modification under a foreign identifier breaks the table.
\<close>

section \<open>Runs\<close>

datatype book_op =
    Op_add order_t
  | Op_modify order_t
  | Op_cancel order_id_key
  | Op_execute u64

text \<open>A call of the book; a modification is called with the identifier of the new order, as the exchanges do.\<close>

fun book_call :: "(order_t \<Rightarrow> order_t option) \<Rightarrow> book_op \<Rightarrow> orderbook \<Rightarrow> orderbook option" where
  "book_call dead (Op_add x) ob = Some (snd (book_add x ob))"
| "book_call dead (Op_modify x) ob = map_option snd (book_modify dead (key_of x) x ob)"
| "book_call dead (Op_cancel k) ob = map_option snd (book_cancel dead k ob)"
| "book_call dead (Op_execute ts) ob = map_option snd (execute ts ob)"

fun book_calls :: "(order_t \<Rightarrow> order_t option) \<Rightarrow> book_op list \<Rightarrow> orderbook \<Rightarrow> orderbook option" where
  "book_calls dead [] ob = Some ob"
| "book_calls dead (c # cs) ob = (case book_call dead c ob of None \<Rightarrow> None | Some ob1 \<Rightarrow> book_calls dead cs ob1)"

fun op_wf :: "book_op \<Rightarrow> bool" where
  "op_wf (Op_add x) = order_wf x"
| "op_wf (Op_modify x) = order_wf x"
| "op_wf _ = True"

lemma book_call_inv:
  assumes "book_inv ob" and "op_wf c" and "book_call dead c ob = Some ob'"
  shows "book_inv ob'"
proof (cases c)
  case (Op_add x)
  with assms show ?thesis by (auto intro: book_inv_add)
next
  case (Op_modify x)
  with assms book_modify_ok [OF assms(1) _ refl, where x = x and dead = dead] show ?thesis by (auto split: option.splits)
next
  case (Op_cancel k)
  with assms book_cancel_ok [OF assms(1), where k = k and dead = dead] show ?thesis by (auto split: option.splits)
next
  case (Op_execute ts)
  with assms execute_ok [OF assms(1), of ts] show ?thesis by auto
qed

lemma book_calls_inv:
  "book_inv ob \<Longrightarrow> list_all op_wf cs \<Longrightarrow> book_calls dead cs ob = Some ob' \<Longrightarrow> book_inv ob'"
  by (induction cs arbitrary: ob) (auto split: option.splits dest: book_call_inv)

text \<open>
  C34: Whatever operations a book has gone through since it was created, with whatever results, it has a level
  exactly at the prices at which an order of that side is open; the level holds just these orders, each once,
  and its quantity, which every operation changes by differences, is the sum of theirs (modulo 2^64).
\<close>

theorem book_levels_add_up:
  assumes "list_all op_wf cs" and "book_calls dead cs (new_orderbook lg) = Some ob" and "is_side s"
  shows "case find_level s p ob of
      None \<Rightarrow> {x \<in> ran (book_map ob). o_side x = s \<and> o_price x = p} = {}
    | Some l \<Rightarrow> level_orders l \<noteq> [] \<and> distinct (level_orders l)
        \<and> set (level_orders l) = {x \<in> ran (book_map ob). o_side x = s \<and> o_price x = p}
        \<and> total_qty l = sum_list (map o_qty (level_orders l))"
proof -
  have inv: "book_inv ob" by (rule book_calls_inv [OF book_inv_new assms(1,2)])
  show ?thesis
  proof (cases "find_level s p ob")
    case None
    with level_none [OF inv assms(3)] show ?thesis by simp
  next
    case (Some l)
    note L = level_okD [OF levels_invD(2) [OF book_invD(1) [OF inv] assms(3) Some]]
    from L(2,5) level_distinct [OF inv assms(3) Some] level_set [OF inv assms(3) Some] Some show ?thesis by simp
  qed
qed

definition ex_calls :: "book_op list" where
  "ex_calls = [Op_add (ex_order 1 BUY 100 10), Op_add (ex_order 2 BUY 100 5), Op_add (ex_order 3 SELL 100 4),
     Op_execute 0, Op_modify (ex_order 2 BUY 100 8)]"

lemma ex_calls_run: "\<exists>ob l. book_calls Some ex_calls (new_orderbook True) = Some ob \<and> find_level BUY 100 ob = Some l"
proof -
  have "(case book_calls Some ex_calls (new_orderbook True) of None \<Rightarrow> False | Some ob \<Rightarrow> find_level BUY 100 ob \<noteq> None)"
    by code_simp
  then show ?thesis by (auto split: option.splits)
qed

theorem book_levels_add_up_witness:
  "\<exists>ob l. book_calls Some ex_calls (new_orderbook True) = Some ob \<and> find_level BUY 100 ob = Some l
    \<and> level_orders l \<noteq> [] \<and> total_qty l = sum_list (map o_qty (level_orders l))"
proof -
  obtain ob l where r: "book_calls Some ex_calls (new_orderbook True) = Some ob" "find_level BUY 100 ob = Some l"
    using ex_calls_run by blast
  have "list_all op_wf ex_calls" by (simp add: ex_calls_def order_wf_ex)
  from book_levels_add_up [OF this r(1), of BUY 100] r show ?thesis by simp
qed

section \<open>Time priority\<close>

lemma find_level_cancel:
  assumes inv: "book_inv ob" and s: "is_side s" and l: "find_level s p ob = Some l"
    and pos: "(it, b) \<in> set (hive_seq (orders l))" and two: "level_orders l \<noteq> [b]"
    and c: "book_cancel dead (key_of b) ob = Some (r, ob1)"
  shows "\<exists>h. hive_del it (orders l) = Some h \<and> find_level s p ob1 = Some (l\<lparr> orders := h, total_qty := total_qty l - o_qty b \<rparr>)"
proof -
  note lv = book_invD(1) [OF inv]
  note L = level_okD [OF levels_invD(2) [OF lv s l]]
  have b: "order_ok s p b" using L(4) in_level [OF pos] .
  have loc: "located ob \<lparr> loc_price = p, location_in_hive = it \<rparr> b" using s l pos by (auto simp: located_def)
  then have lk: "order_id_lookup ob (key_of b) = Some \<lparr> loc_price = p, location_in_hive = it \<rparr>"
    using book_invD(2) [OF inv] by blast
  have d: "deref it ob = Some b" using deref_located [OF lv loc] by simp
  obtain h where h: "hive_del it (orders l) = Some h"
    using hv.del_defined [OF L(1)] hv.get_some_iff [OF L(1)] pos by blast
  note D = hv.get_del [OF L(1) h]
  have "hive_seq h \<noteq> []"
  proof
    assume e: "hive_seq h = []"
    have "hive_deref it (orders l) = Some b" using hv.get_some_iff [OF L(1)] pos by simp
    from hv.mset_del [OF L(1) this h] e have "mset (level_orders l) = {#b#}" by (simp add: level_orders_def hv.elems_def)
    with two show False by simp
  qed
  then have "\<not> hive_empty h" using hv.is_empty_seq [OF D(1)] by simp
  then have "find_level s p ob1 = Some (l\<lparr> orders := h, total_qty := total_qty l - o_qty b \<rparr>)"
    using c b l find_level_put [OF lv s s, of p]
    by (auto simp: book_cancel_def lk d erase_at_level_def find_level_def [symmetric] h order_ok_def Let_def
        split: if_splits Option.bind_splits)
  with h show ?thesis by blast
qed

text \<open>
  C38: Time priority is lost when an order is cancelled. In any book, take a level from which nothing has been erased, and
  cancel an order \<open>b\<close> of it that shares its memory block with another one. The order \<open>x\<close> that is added next at that price
  takes the place of \<open>b\<close>: it stands before all orders \<open>ys\<close> that stood behind \<open>b\<close> and are older than \<open>x\<close>, and
  \<open>execute\<close>, which serves a level from its front, fills it before them.
\<close>

theorem slot_reuse_breaks_time_priority:
  assumes "book_inv ob" and "is_side s" and "find_level s p ob = Some l" and "erasure_groups (orders l) = []"
    and "hive_seq (orders l) = xs @ (it, b) # ys" and "\<exists>q \<in> fst ` set (xs @ ys). it_group q = it_group it"
    and "book_cancel dead (key_of b) ob = Some (r, ob1)"
    and "order_wf x" and "o_side x = s" and "o_price x = p" and "key_of x = key_of b \<or> book_map ob (key_of x) = None"
  shows "fst (fst (book_add x ob1)) = SUCCESS
    \<and> (\<exists>l'. find_level s p (snd (book_add x ob1)) = Some l' \<and> level_orders l' = map snd xs @ x # map snd ys)"
proof -
  note lv = book_invD(1) [OF assms(1)]
  note L = level_okD [OF levels_invD(2) [OF lv assms(2,3)]]
  have pos: "(it, b) \<in> set (hive_seq (orders l))" by (simp add: assms(5))
  have lo: "level_orders l = map snd xs @ b # map snd ys" by (simp add: level_orders_def hv.elems_def assms(5))
  then have "level_orders l \<noteq> [b]" using assms(6) by (cases xs) auto
  from find_level_cancel [OF assms(1-3) pos this assms(7)] obtain h where
    h: "hive_del it (orders l) = Some h" "find_level s p ob1 = Some (l\<lparr> orders := h, total_qty := total_qty l - o_qty b \<rparr>)" by blast
  have inv1: "book_inv ob1" and "spec_cancel (key_of b) (book_map ob) = (fst r, book_map ob1)"
    using book_cancel_ok [OF assms(1), where k = "key_of b" and dead = dead] assms(7) by (cases r; auto)+
  then have n: "book_map ob1 (key_of x) = None"
    using assms(11) by (auto simp: spec_cancel_def split: if_splits dest!: fun_cong [where x = "key_of x"])
  then have n': "order_id_lookup ob1 (key_of x) = None" using book_map_lookup [OF inv1] by simp
  have mp: "\<not> MAX_PRICE < p" using L(3) by simp
  obtain q where q: "q \<in> fst ` set (xs @ ys)" "it_group q = it_group it" using assms(6) by blast
  obtain h2 it2 where i: "hive_insert x h = (h2, it2)" by fastforce
  have seq: "hive_seq h2 = xs @ (it, x) # ys" using hive_reuse [OF L(1) assms(4,5) q h(1), of x] i by simp
  have at: "level_at s p ob1 = (l\<lparr> orders := h, total_qty := total_qty l - o_qty b \<rparr>, ob1)"
    using h(2) by (simp add: level_at_def find_level_def)
  obtain it3 ob3 where i3: "insert_at_level s x ob1 = (it3, ob3)" by fastforce
  have f3: "find_level s p ob3 = Some (l\<lparr> orders := h2, total_qty := total_qty l - o_qty b + o_qty x \<rparr>)"
    using i3 find_level_put [OF book_invD(1) [OF inv1] assms(2,2), of p]
    by (auto simp: insert_at_level_def assms(10) at i)
  have "fst (fst (book_add x ob1)) = SUCCESS \<and> find_level s p (snd (book_add x ob1)) = find_level s p ob3"
    using assms(2,9,10) n' mp i3 unfolding book_add_def book_contains_def is_side_def by (auto simp: Let_def)
  with f3 seq show ?thesis by (simp add: level_orders_def hv.elems_def)
qed

text \<open>Three buy orders at one price, in the order 1, 2, 3; order 2 is cancelled and order 4 arrives.\<close>

definition ex_queue :: orderbook where
  "ex_queue = snd (book_add (ex_order 3 BUY 100 10) (snd (book_add (ex_order 2 BUY 100 10)
     (snd (book_add (ex_order 1 BUY 100 10) (new_orderbook True))))))"

lemma ex_queue_level:
  "\<exists>l. find_level BUY 100 ex_queue = Some l \<and> erasure_groups (orders l) = [] \<and>
    hive_seq (orders l) = [(\<lparr> it_hive = 0, it_group = 0, it_index = 0 \<rparr>, ex_order 1 BUY 100 10)]
      @ (\<lparr> it_hive = 0, it_group = 0, it_index = 1 \<rparr>, ex_order 2 BUY 100 10)
      # [(\<lparr> it_hive = 0, it_group = 0, it_index = 2 \<rparr>, ex_order 3 BUY 100 10)]"
proof -
  have "(case find_level BUY 100 ex_queue of None \<Rightarrow> False | Some l \<Rightarrow> erasure_groups (orders l) = [] \<and>
    hive_seq (orders l) = [(\<lparr> it_hive = 0, it_group = 0, it_index = 0 \<rparr>, ex_order 1 BUY 100 10)]
      @ (\<lparr> it_hive = 0, it_group = 0, it_index = 1 \<rparr>, ex_order 2 BUY 100 10)
      # [(\<lparr> it_hive = 0, it_group = 0, it_index = 2 \<rparr>, ex_order 3 BUY 100 10)])"
    by code_simp
  then show ?thesis by (auto split: option.splits)
qed

theorem slot_reuse_breaks_time_priority_witness:
  "\<exists>r ob1 l'. book_cancel Some (key_of (ex_order 2 BUY 100 10)) ex_queue = Some (r, ob1)
    \<and> find_level BUY 100 (snd (book_add (ex_order 4 BUY 100 10) ob1)) = Some l'
    \<and> level_orders l' = [ex_order 1 BUY 100 10, ex_order 4 BUY 100 10, ex_order 3 BUY 100 10]"
proof -
  have inv: "book_inv ex_queue" unfolding ex_queue_def by (intro book_inv_add book_inv_new order_wf_ex)+
  obtain l where l: "find_level BUY 100 ex_queue = Some l" "erasure_groups (orders l) = []"
    "hive_seq (orders l) = [(\<lparr> it_hive = 0, it_group = 0, it_index = 0 \<rparr>, ex_order 1 BUY 100 10)]
      @ (\<lparr> it_hive = 0, it_group = 0, it_index = 1 \<rparr>, ex_order 2 BUY 100 10)
      # [(\<lparr> it_hive = 0, it_group = 0, it_index = 2 \<rparr>, ex_order 3 BUY 100 10)]" using ex_queue_level by blast
  obtain r ob1 where c: "book_cancel Some (key_of (ex_order 2 BUY 100 10)) ex_queue = Some (r, ob1)"
    using book_cancel_ok [OF inv, where k = "key_of (ex_order 2 BUY 100 10)" and dead = Some] by (auto split: option.splits)
  have f: "o_side (ex_order 4 BUY 100 10) = BUY" "o_price (ex_order 4 BUY 100 10) = 100" by (simp_all add: ex_order_def make_order_t_def)
  have "order_id_lookup ex_queue (key_of (ex_order 4 BUY 100 10)) = None" by code_simp
  then have "book_map ex_queue (key_of (ex_order 4 BUY 100 10)) = None" by (simp add: book_map_def)
  from slot_reuse_breaks_time_priority [OF inv _ l _ c order_wf_ex f disjI2 [OF this]] c show ?thesis by auto
qed

section \<open>Foreign identifiers\<close>

text \<open>
  C39: \<open>modify\<close> does not compare the identifier it is called with to that of the new order. Whenever the two differ,
  the identifier of the order is not in the book and the order is acceptable, the modification succeeds and breaks
  the table: the order stands in the book under the identifier \<open>k\<close> and cannot be cancelled under its own. When a
  trade fills it, the matching loop removes an entry for its own identifier, and the entry for \<open>k\<close> is left with
  an iterator to an erased element.
\<close>

theorem modify_foreign_id_dangles:
  assumes "book_inv ob" and "book_map ob k \<noteq> None" and "order_wf x" and "spec_check x = SUCCESS"
    and "key_of x \<noteq> k" and "book_map ob (key_of x) = None" and "book_modify dead k x ob = Some (r, ob')"
  shows "fst r = SUCCESS \<and> \<not> book_inv ob' \<and> book_map ob' k = Some x
    \<and> book_cancel dead' (key_of x) ob' = Some ((ORDER_NOT_FOUND, []), ob')
    \<and> (\<exists>loc. order_id_lookup ob' k = Some loc \<and> (\<forall>h h' lookup'. hive_inv h
        \<and> erase_if_filled (location_in_hive loc) (x\<lparr> o_qty := 0 \<rparr>) (h, order_id_lookup ob') = Some (h', lookup')
        \<longrightarrow> lookup' k = Some loc \<and> hive_deref (location_in_hive loc) h' = None))"
proof -
  obtain loc where l: "order_id_lookup ob k = Some loc"
    using assms(2) by (auto simp: book_map_lookup [OF assms(1)])
  obtain y ob1 where R: "deref (location_in_hive loc) ob = Some y"
    "erase_at_level (o_side y) (loc_price loc) (location_in_hive loc) (o_qty y) ob = Some ob1" "o_price y = loc_price loc"
    "levels_inv ob1" "order_id_lookup ob1 = order_id_lookup ob"
    using book_remove [OF assms(1) l] by blast
  have s: "is_side (o_side x)" "o_price x \<le> MAX_PRICE" using assms(4) by (auto simp: spec_check_def split: if_splits)
  obtain it ob2 where i: "insert_at_level (o_side x) x ob1 = (it, ob2)" by fastforce
  define loc1 where "loc1 = \<lparr> loc_price = o_price x, location_in_hive = it \<rparr>"
  define ob3 where "ob3 = ob2\<lparr> order_id_lookup := (order_id_lookup ob2)(k \<mapsto> loc1) \<rparr>"
  have "order_ok (o_side x) (o_price x) x" using assms(3) by (simp add: order_ok_def order_wf_def)
  note I = insert_at_level_ok [OF R(4) s(1) this s(2) i, folded loc1_def]
  have e: "fst r = SUCCESS" "ob' = ob3"
    using assms(7) s(1) leD [OF s(2)] R(1-3) i l unfolding book_modify_def is_side_def Let_def ob3_def loc1_def
    by (auto split: if_splits Option.bind_splits)
  have lv: "levels_inv ob3" and loc3: "located ob3 loc1 x" using I(1,4) by (simp_all add: ob3_def)
  have k: "order_id_lookup ob3 k = Some loc1" "order_id_lookup ob3 (key_of x) = None"
    using I(2) R(5) assms(5,6) book_map_lookup [OF assms(1), of "key_of x"] by (simp_all add: ob3_def)
  have "\<not> book_inv ob3" using book_invD(2) [of ob3 "key_of x" loc1] loc3 k(2) by auto
  moreover have "book_map ob3 k = Some x" using deref_located [OF lv loc3] by (simp add: book_map_def k(1))
  moreover have "book_cancel dead' (key_of x) ob3 = Some ((ORDER_NOT_FOUND, []), ob3)"
    by (simp add: book_cancel_def k(2))
  moreover have "lookup' k = Some loc1 \<and> hive_deref (location_in_hive loc1) h' = None"
    if "hive_inv h" "erase_if_filled (location_in_hive loc1) (x\<lparr> o_qty := 0 \<rparr>) (h, order_id_lookup ob3) = Some (h', lookup')" for h h' lookup'
  proof -
    from that(2) have d: "hive_del (location_in_hive loc1) h = Some h'" and "lookup' = (order_id_lookup ob3)(key_of x := None)"
      by (auto simp: erase_if_filled_def key_of_def split: Option.bind_splits)
    with hv.get_del(3) [OF that(1) d] k(1) assms(5) show ?thesis by simp
  qed
  ultimately show ?thesis using e k(1) by blast
qed

theorem modify_foreign_id_dangles_witness:
  "\<exists>r ob'. book_modify Some (key_of (ex_order 1 BUY 100 10)) (ex_order 5 BUY 99 10) ex_book = Some (r, ob')
    \<and> \<not> book_inv ob' \<and> book_map ob' (key_of (ex_order 1 BUY 100 10)) = Some (ex_order 5 BUY 99 10)"
proof -
  have n: "order_id_lookup ex_book (key_of (ex_order 5 BUY 99 10)) = None" "order_id_lookup ex_book (key_of (ex_order 1 BUY 100 10)) \<noteq> None"
    by code_simp+
  have c: "spec_check (ex_order 5 BUY 99 10) = SUCCESS" "key_of (ex_order 5 BUY 99 10) \<noteq> key_of (ex_order 1 BUY 100 10)"
    by code_simp+
  have m: "book_map ex_book (key_of (ex_order 1 BUY 100 10)) \<noteq> None" "book_map ex_book (key_of (ex_order 5 BUY 99 10)) = None"
    using n by (simp_all add: book_map_lookup [OF book_inv_ex(1)])
  have "book_modify Some (key_of (ex_order 1 BUY 100 10)) (ex_order 5 BUY 99 10) ex_book \<noteq> None" by code_simp
  then obtain r ob' where r: "book_modify Some (key_of (ex_order 1 BUY 100 10)) (ex_order 5 BUY 99 10) ex_book = Some (r, ob')" by auto
  from modify_foreign_id_dangles [OF book_inv_ex(1) m(1) order_wf_ex c m(2) r] r show ?thesis by blast
qed

end
