(* ===== verification/Container_Properties.thy ===== *)
theory Container_Properties
  imports Hive
begin

text \<open>
  The properties of the element container: each operation of the concrete hive, with its
  skipfields, free lists and chain of groups, acts on the sequence of its elements as its
  contract says, whichever of its internal paths it takes.
\<close>

text \<open>A hive with an erased slot, on which the properties are instantiated.\<close>

definition ex_hive :: "nat hive" where
  "ex_hive = fst (hive_insert 30 (fst (hive_insert 20 (fst (hive_insert 10 (hive_new 0 8 8192))))))"

lemma hive_inv_ex: "hive_inv ex_hive"
  unfolding ex_hive_def by (intro hv.ins_inv hive_inv_new) (simp_all add: SKIP_MAX_def)

text \<open>
  C30: inserting keeps the invariant and puts the new element at a fresh position somewhere in
  the sequence; the elements already there keep their positions and their order.
\<close>

theorem hive_insert_contract:
  assumes "hive_inv h"
  shows "case hive_insert x h of (h', p) \<Rightarrow> hive_inv h' \<and> p \<notin> fst ` set (hive_seq h)
    \<and> (\<exists>xs ys. hive_seq h = xs @ ys \<and> hive_seq h' = xs @ (p, x) # ys)"
  using hv.ins_inv [OF assms, of x] hv.ins_fresh [OF assms, of x] hv.ins_seq [OF assms, of x]
  by (cases "hive_insert x h") simp

theorem hive_insert_contract_witness:
  "case hive_insert 40 ex_hive of (h', p) \<Rightarrow> hive_inv h' \<and> p \<notin> fst ` set (hive_seq ex_hive)
    \<and> (\<exists>xs ys. hive_seq ex_hive = xs @ ys \<and> hive_seq h' = xs @ (p, 40) # ys)"
  by (rule hive_insert_contract [OF hive_inv_ex])

text \<open>
  C31: erasing at a position that holds an element removes exactly that element, keeping the
  positions and the order of all others; any other position is undefined behaviour.
\<close>

theorem hive_erase_contract:
  assumes "hive_inv h"
  shows "if p \<in> fst ` set (hive_seq h)
    then \<exists>h'. hive_del p h = Some h' \<and> hive_inv h' \<and> hive_seq h' = filter (\<lambda>q. fst q \<noteq> p) (hive_seq h)
    else hive_del p h = None"
  using hv.del_live [OF assms, of p] hv.del_dead [OF assms, of p] by simp

theorem hive_erase_contract_witness:
  "if hive_begin ex_hive \<in> fst ` set (hive_seq ex_hive)
    then \<exists>h'. hive_del (hive_begin ex_hive) ex_hive = Some h' \<and> hive_inv h'
      \<and> hive_seq h' = filter (\<lambda>q. fst q \<noteq> hive_begin ex_hive) (hive_seq ex_hive)
    else hive_del (hive_begin ex_hive) ex_hive = None"
  by (rule hive_erase_contract [OF hive_inv_ex])

text \<open>
  Iterating from \<open>begin()\<close> with the increment operator visits exactly the elements of the
  sequence, in its order, and ends at \<open>end()\<close>.
\<close>

theorem hive_iteration:
  assumes "hive_inv h" and "hive_seq h = xs @ (p, x) # ys"
  shows "hive_deref p h = Some x \<and> (xs = [] \<longrightarrow> hive_first h = Some p)
    \<and> hive_next p h = Some (case ys of [] \<Rightarrow> hive_end h | q # _ \<Rightarrow> fst q)"
  using hive_next_ok [OF assms] hive_first_seq [OF assms(1)] hv.get_some_iff [OF assms(1), of p x] assms(2) by simp

theorem hive_iteration_witness:
  "hive_deref (hive_begin ex_hive) ex_hive = Some 10
    \<and> hive_next (hive_begin ex_hive) ex_hive = Some \<lparr> it_hive = 0, it_group = 0, it_index = 1 \<rparr>"
proof -
  have "hive_seq ex_hive = [] @ (hive_begin ex_hive, 10) #
      [(\<lparr> it_hive = 0, it_group = 0, it_index = 1 \<rparr>, 20), (\<lparr> it_hive = 0, it_group = 0, it_index = 2 \<rparr>, 30)]"
    by code_simp
  from hive_iteration [OF hive_inv_ex this] show ?thesis by simp
qed

text \<open>
  As long as no slot is erased, a new element is visited last: insertion order is iteration
  order, across blocks and block sizes.
\<close>

theorem hive_appends:
  assumes "hive_inv h" and "erasure_groups h = []"
  shows "case hive_insert x h of (h', p) \<Rightarrow> hive_seq h' = hive_seq h @ [(p, x)]"
  using hive_insert_ok(3) [OF assms(1) _ assms(2), of x] by (auto split: prod.splits)

theorem hive_appends_witness:
  "case hive_insert 40 ex_hive of (h', p) \<Rightarrow> hive_seq h' = hive_seq ex_hive @ [(p, 40)]"
  by (rule hive_appends [OF hive_inv_ex]) code_simp

end
