(* ===== verification/Robin_Hood.thy ===== *)
theory Robin_Hood
  imports Prelude
begin

unbundle bit_operations_syntax

text \<open>
  The hash map the order book keeps its identifiers in (\<open>robin_hood::unordered_map\<close>,
  includes/robin_hood.h, class \<open>detail::Table\<close> with flat nodes and a maximal load of 80
  percent): open addressing with robin hood hashing, one info byte per slot and backward shift
  deletion.

  Slots and info bytes are lists. An info byte is a natural number, with \<open>mod 256\<close> where the
  source casts to a byte; \<open>InfoType\<close> and the sizes do not wrap, which would take a table of
  2^32 info steps or 2^64 slots. Reading or writing outside the arrays, and using a slot that
  holds no node, is undefined behaviour. \<open>Throws\<close> is the exception \<open>overflow_error\<close>. Memory
  allocation succeeds. The hash function is an argument.
\<close>

section \<open>Outcomes\<close>

datatype 'a outcome = Done 'a | Throws | Undefined

fun and_then :: "'a outcome \<Rightarrow> ('a \<Rightarrow> 'b outcome) \<Rightarrow> 'b outcome" where
  "and_then (Done x) f = f x"
| "and_then Throws f = Throws"
| "and_then Undefined f = Undefined"

definition defined :: "'a option \<Rightarrow> 'a outcome" where
  "defined x = (case x of Some y \<Rightarrow> Done y | None \<Rightarrow> Undefined)"

section \<open>State\<close>

record ('k, 'v) table =
  mHashMultiplier :: u64
  mKeyVals :: "('k \<times> 'v) option list"
  mInfo :: "nat list"
  mNumElements :: nat
  mMask :: nat
  mMaxNumElementsAllowed :: nat
  mInfoInc :: nat
  mInfoHashShift :: nat

definition InitialNumElements :: nat where "InitialNumElements = 8"
definition InitialInfoNumBits :: nat where "InitialInfoNumBits = 5"
definition InitialInfoInc :: nat where "InitialInfoInc = 2 ^ InitialInfoNumBits"
definition InfoMask :: u64 where "InfoMask = of_nat InitialInfoInc - 1"
definition InitialInfoHashShift :: nat where "InitialInfoHashShift = 0"

text \<open>
  A table without storage points its arrays at the member \<open>mMask\<close>, which is zero: no slot, and
  eight zero bytes where the info bytes are read.
\<close>

definition empty_table :: "('k, 'v) table" where
  "empty_table =
     \<lparr> mHashMultiplier = 0xc4ceb9fe1a85ec53, mKeyVals = [], mInfo = replicate 8 0, mNumElements = 0,
       mMask = 0, mMaxNumElementsAllowed = 0, mInfoInc = InitialInfoInc, mInfoHashShift = InitialInfoHashShift \<rparr>"

section \<open>Sizes\<close>

definition calcMaxNumElementsAllowed :: "nat \<Rightarrow> nat" where
  "calcMaxNumElementsAllowed maxElements =
     (if maxElements \<le> (2 ^ 64 - 1) div 100 then maxElements * 80 div 100 else (maxElements div 100) * 80)"

definition calcNumElementsWithBuffer :: "nat \<Rightarrow> nat" where
  "calcNumElementsWithBuffer numElements = numElements + min (calcMaxNumElementsAllowed numElements) 255"

definition calcNumBytesInfo :: "nat \<Rightarrow> nat" where
  "calcNumBytesInfo numElements = numElements + 8"

definition initData :: "nat \<Rightarrow> ('k, 'v) table \<Rightarrow> ('k, 'v) table" where
  "initData max_elements t =
     (let b = calcNumElementsWithBuffer max_elements in
      t\<lparr> mNumElements := 0, mMask := max_elements - 1,
         mMaxNumElementsAllowed := calcMaxNumElementsAllowed max_elements,
         mKeyVals := replicate b None, mInfo := (replicate (calcNumBytesInfo b) 0)[b := 1],
         mInfoInc := InitialInfoInc, mInfoHashShift := InitialInfoHashShift \<rparr>)"

section \<open>Probing\<close>

text \<open>The home slot of a key and the info value an entry has there.\<close>

definition keyToIdx :: "('k \<Rightarrow> u64) \<Rightarrow> ('k, 'v) table \<Rightarrow> 'k \<Rightarrow> nat \<times> nat" where
  "keyToIdx hash t key =
     (let h0 = hash key * mHashMultiplier t; h = h0 XOR drop_bit 33 h0
      in (unat (drop_bit InitialInfoNumBits h AND of_nat (mMask t)),
          mInfoInc t + unat (drop_bit (mInfoHashShift t) (h AND InfoMask))))"

definition info_at :: "nat list \<Rightarrow> nat \<Rightarrow> nat option" where
  "info_at infos idx = (if idx < length infos then Some (infos ! idx) else None)"

function nextWhileLess :: "nat \<Rightarrow> nat list \<Rightarrow> nat \<Rightarrow> nat \<Rightarrow> (nat \<times> nat) option" where
  "nextWhileLess inc infos info idx =
     (if idx < length infos then
        if info < infos ! idx then nextWhileLess inc infos (info + inc) (idx + 1) else Some (info, idx)
      else None)"
  by pat_completeness auto
termination nextWhileLess
  by (relation "measure (\<lambda>(inc, infos, info, idx). length infos - idx)") auto

text \<open>The loop of \<open>insert_move\<close>, which skips equal info values too.\<close>

function nextWhileLessEq :: "nat \<Rightarrow> nat list \<Rightarrow> nat \<Rightarrow> nat \<Rightarrow> (nat \<times> nat) option" where
  "nextWhileLessEq inc infos info idx =
     (if idx < length infos then
        if info \<le> infos ! idx then nextWhileLessEq inc infos (info + inc) (idx + 1) else Some (info, idx)
      else None)"
  by pat_completeness auto
termination nextWhileLessEq
  by (relation "measure (\<lambda>(inc, infos, info, idx). length infos - idx)") auto

function nextEmpty :: "nat list \<Rightarrow> nat \<Rightarrow> nat option" where
  "nextEmpty infos idx =
     (if idx < length infos then if infos ! idx \<noteq> 0 then nextEmpty infos (idx + 1) else Some idx else None)"
  by pat_completeness auto
termination nextEmpty
  by (relation "measure (\<lambda>(infos, idx). length infos - idx)") auto

text \<open>Does the entry at \<open>idx\<close> have this info value and this key?\<close>

definition entry_matches :: "nat list \<Rightarrow> ('k \<times> 'v) option list \<Rightarrow> 'k \<Rightarrow> nat \<Rightarrow> nat \<Rightarrow> bool option" where
  "entry_matches infos kvs key info idx =
     (if idx < length infos then
        if infos ! idx = info then
          if idx < length kvs then (case kvs ! idx of Some (k, v) \<Rightarrow> Some (k = key) | None \<Rightarrow> None) else None
        else Some False
      else None)"

text \<open>The loop of \<open>findIdx\<close>, unrolled twice; the inner \<open>None\<close> is a key that is not there.\<close>

function findLoop :: "nat \<Rightarrow> nat list \<Rightarrow> ('k \<times> 'v) option list \<Rightarrow> 'k \<Rightarrow> nat \<Rightarrow> nat \<Rightarrow> nat option option" where
  "findLoop inc infos kvs key info idx =
     (case entry_matches infos kvs key info idx of
        None \<Rightarrow> None
      | Some True \<Rightarrow> Some (Some idx)
      | Some False \<Rightarrow>
          (case entry_matches infos kvs key (info + inc) (idx + 1) of
             None \<Rightarrow> None
           | Some True \<Rightarrow> Some (Some (idx + 1))
           | Some False \<Rightarrow>
               if idx + 2 < length infos then
                 if info + 2 * inc \<le> infos ! (idx + 2) then findLoop inc infos kvs key (info + 2 * inc) (idx + 2)
                 else Some None
               else None))"
  by pat_completeness auto
termination findLoop
  by (relation "measure (\<lambda>(inc, infos, kvs, key, info, idx). length infos - idx)") auto

text \<open>The index of \<open>end()\<close>: the info bytes follow the slots in memory.\<close>

definition endIdx :: "('k, 'v) table \<Rightarrow> nat" where
  "endIdx t = (if mMask t = 0 then 0 else length (mKeyVals t))"

definition findIdx :: "('k \<Rightarrow> u64) \<Rightarrow> 'k \<Rightarrow> ('k, 'v) table \<Rightarrow> nat option" where
  "findIdx hash key t =
     (let (idx, info) = keyToIdx hash t key in
      map_option (\<lambda>r. case r of Some i \<Rightarrow> i | None \<Rightarrow> endIdx t)
        (findLoop (mInfoInc t) (mInfo t) (mKeyVals t) key info idx))"

section \<open>Shifting\<close>

function shiftUpNodes :: "('k \<times> 'v) option list \<Rightarrow> nat \<Rightarrow> nat \<Rightarrow> ('k \<times> 'v) option list" where
  "shiftUpNodes kvs idx insertion_idx =
     (if idx \<le> insertion_idx then kvs
      else shiftUpNodes (kvs[idx := kvs ! (idx - 1)]) (idx - 1) insertion_idx)"
  by pat_completeness auto
termination shiftUpNodes
  by (relation "measure (\<lambda>(kvs, idx, ins). idx)") auto

text \<open>The info bytes, and whether one of them reached its limit.\<close>

function shiftUpInfo :: "nat \<Rightarrow> nat list \<Rightarrow> nat \<Rightarrow> nat \<Rightarrow> bool \<Rightarrow> nat list \<times> bool" where
  "shiftUpInfo inc infos idx insertion_idx full =
     (if idx \<le> insertion_idx then (infos, full)
      else let b = (infos ! (idx - 1) + inc) mod 256
           in shiftUpInfo inc (infos[idx := b]) (idx - 1) insertion_idx (full \<or> b + inc > 255))"
  by pat_completeness auto
termination shiftUpInfo
  by (relation "measure (\<lambda>(inc, infos, idx, ins, full). idx)") (auto simp: Let_def)

definition shiftUp :: "nat \<Rightarrow> nat \<Rightarrow> ('k, 'v) table \<Rightarrow> ('k, 'v) table" where
  "shiftUp startIdx insertion_idx t =
     (let (infos, full) = shiftUpInfo (mInfoInc t) (mInfo t) startIdx insertion_idx False
      in t\<lparr> mKeyVals := shiftUpNodes (mKeyVals t) startIdx insertion_idx, mInfo := infos,
            mMaxNumElementsAllowed := (if full then 0 else mMaxNumElementsAllowed t) \<rparr>)"

function shiftDownLoop :: "nat \<Rightarrow> nat list \<Rightarrow> ('k \<times> 'v) option list \<Rightarrow> nat
    \<Rightarrow> (nat list \<times> ('k \<times> 'v) option list) option" where
  "shiftDownLoop inc infos kvs idx =
     (if idx + 1 < length infos \<and> idx < length kvs then
        if infos ! (idx + 1) \<ge> 2 * inc then
          if idx + 1 < length kvs then
            shiftDownLoop inc (infos[idx := (infos ! (idx + 1) - inc) mod 256]) (kvs[idx := kvs ! (idx + 1)]) (idx + 1)
          else None
        else Some (infos[idx := 0], kvs[idx := None])
      else None)"
  by pat_completeness auto
termination shiftDownLoop
  by (relation "measure (\<lambda>(inc, infos, kvs, idx). length kvs - idx)") auto

definition shiftDown :: "nat \<Rightarrow> ('k, 'v) table \<Rightarrow> ('k, 'v) table option" where
  "shiftDown idx t =
     map_option (\<lambda>(infos, kvs). t\<lparr> mInfo := infos, mKeyVals := kvs \<rparr>)
       (shiftDownLoop (mInfoInc t) (mInfo t) (mKeyVals t) idx)"

section \<open>Growing\<close>

text \<open>All info bytes are halved, eight at a time, and the sentinel is restored.\<close>

definition halveInfo :: "nat \<Rightarrow> nat list \<Rightarrow> nat list" where
  "halveInfo b infos = map (\<lambda>i. if i < 8 * ((b + 7) div 8) then infos ! i div 2 else infos ! i) [0..<length infos]"

definition try_increase_info :: "('k, 'v) table \<Rightarrow> ('k, 'v) table option" where
  "try_increase_info t =
     (if mInfoInc t \<le> 2 then None
      else let b = calcNumElementsWithBuffer (mMask t + 1)
           in Some (t\<lparr> mInfoInc := mInfoInc t div 2, mInfoHashShift := mInfoHashShift t + 1,
                       mInfo := (halveInfo b (mInfo t))[b := 1],
                       mMaxNumElementsAllowed := calcMaxNumElementsAllowed (mMask t + 1) \<rparr>))"

text \<open>Makes room at \<open>insertion_idx\<close> and counts the entry that will be put there.\<close>

definition openSpot :: "nat \<Rightarrow> nat \<Rightarrow> ('k, 'v) table \<Rightarrow> (nat \<times> ('k, 'v) table) option" where
  "openSpot info insertion_idx t = do {
     idx \<leftarrow> nextEmpty (mInfo t) insertion_idx;
     let t1 = (if info + mInfoInc t > 255 then t\<lparr> mMaxNumElementsAllowed := 0 \<rparr> else t);
     let t2 = (if idx \<noteq> insertion_idx then shiftUp idx insertion_idx t1 else t1);
     if insertion_idx < length (mKeyVals t) \<and> idx < length (mKeyVals t)
     then Some (idx, t2\<lparr> mInfo := (mInfo t2)[insertion_idx := info mod 256], mNumElements := mNumElements t2 + 1 \<rparr>)
     else None
   }"

definition putNode :: "nat \<Rightarrow> 'k \<Rightarrow> 'v \<Rightarrow> ('k, 'v) table \<Rightarrow> ('k, 'v) table" where
  "putNode idx key val t = t\<lparr> mKeyVals := (mKeyVals t)[idx := Some (key, val)] \<rparr>"

definition insert_move :: "('k \<Rightarrow> u64) \<Rightarrow> 'k \<times> 'v \<Rightarrow> ('k, 'v) table \<Rightarrow> ('k, 'v) table outcome" where
  "insert_move hash keyval t =
     and_then
       (if mMaxNumElementsAllowed t = 0
        then (case try_increase_info t of Some t1 \<Rightarrow> Done t1 | None \<Rightarrow> Throws) else Done t)
       (\<lambda>t1. let (idx, info) = keyToIdx hash t1 (fst keyval) in
          defined (do {
            (info1, insertion_idx) \<leftarrow> nextWhileLessEq (mInfoInc t1) (mInfo t1) info idx;
            (e, t2) \<leftarrow> openSpot (info1 mod 256) insertion_idx t1;
            Some (putNode insertion_idx (fst keyval) (snd keyval) t2)
          }))"

text \<open>Moving the entries of the old arrays, from slot \<open>i\<close> on.\<close>

fun moveNodes :: "('k \<Rightarrow> u64) \<Rightarrow> (nat \<times> ('k \<times> 'v) option) list \<Rightarrow> ('k, 'v) table \<Rightarrow> ('k, 'v) table outcome" where
  "moveNodes hash [] t = Done t"
| "moveNodes hash ((b, kv) # rest) t =
     (if b \<noteq> 0 then
        (case kv of
           Some keyval \<Rightarrow> and_then (insert_move hash keyval t) (moveNodes hash rest)
         | None \<Rightarrow> Undefined)
      else moveNodes hash rest t)"

definition rehashPowerOfTwo :: "('k \<Rightarrow> u64) \<Rightarrow> nat \<Rightarrow> ('k, 'v) table \<Rightarrow> ('k, 'v) table outcome" where
  "rehashPowerOfTwo hash numBuckets t =
     (let b = calcNumElementsWithBuffer (mMask t + 1); t1 = initData numBuckets t in
      if b > 1 then moveNodes hash (zip (take b (mInfo t)) (mKeyVals t)) t1 else Done t1)"

definition nextHashMultiplier :: "('k, 'v) table \<Rightarrow> ('k, 'v) table" where
  "nextHashMultiplier t = t\<lparr> mHashMultiplier := mHashMultiplier t + 0xc4ceb9fe1a85ec54 \<rparr>"

definition increase_size :: "('k \<Rightarrow> u64) \<Rightarrow> ('k, 'v) table \<Rightarrow> ('k, 'v) table outcome" where
  "increase_size hash t =
     (if mMask t = 0 then Done (initData InitialNumElements t)
      else
        let maxAllowed = calcMaxNumElementsAllowed (mMask t + 1) in
        case (if mNumElements t < maxAllowed then try_increase_info t else None) of
          Some t1 \<Rightarrow> Done t1
        | None \<Rightarrow>
            if mNumElements t * 2 < maxAllowed
            then rehashPowerOfTwo hash (mMask t + 1) (nextHashMultiplier t)
            else rehashPowerOfTwo hash ((mMask t + 1) * 2) t)"

section \<open>Inserting\<close>

datatype insertion_state = overflow_error | key_found | new_node | overwrite_node

text \<open>The loop over entries with the info value sought: a match, or the place where it ends.\<close>

function matchLoop :: "nat \<Rightarrow> nat list \<Rightarrow> ('k \<times> 'v) option list \<Rightarrow> 'k \<Rightarrow> nat \<Rightarrow> nat \<Rightarrow> (bool \<times> nat \<times> nat) option" where
  "matchLoop inc infos kvs key info idx =
     (if idx < length infos then
        if info = infos ! idx then
          (case entry_matches infos kvs key info idx of
             None \<Rightarrow> None
           | Some True \<Rightarrow> Some (True, info, idx)
           | Some False \<Rightarrow> matchLoop inc infos kvs key (info + inc) (idx + 1))
        else Some (False, info, idx)
      else None)"
  by pat_completeness auto
termination matchLoop
  by (relation "measure (\<lambda>(inc, infos, kvs, key, info, idx). length infos - idx)") auto

primrec prepareLoop :: "nat \<Rightarrow> ('k \<Rightarrow> u64) \<Rightarrow> 'k \<Rightarrow> ('k, 'v) table
    \<Rightarrow> ((nat \<times> insertion_state) \<times> ('k, 'v) table) outcome" where
  "prepareLoop 0 hash key t = Done ((0, overflow_error), t)"
| "prepareLoop (Suc n) hash key t =
     (let (idx, info) = keyToIdx hash t key in
      and_then
        (defined (do {
           (info1, idx1) \<leftarrow> nextWhileLess (mInfoInc t) (mInfo t) info idx;
           matchLoop (mInfoInc t) (mInfo t) (mKeyVals t) key info1 idx1
         }))
        (\<lambda>(found, info2, idx2).
           if found then Done ((idx2, key_found), t)
           else if mNumElements t \<ge> mMaxNumElementsAllowed t then
             and_then (increase_size hash t) (prepareLoop n hash key)
           else
             and_then (defined (openSpot info2 idx2 t))
               (\<lambda>(e, t1). Done ((idx2, if e = idx2 then new_node else overwrite_node), t1))))"

definition insertKeyPrepareEmptySpot ::
  "('k \<Rightarrow> u64) \<Rightarrow> 'k \<Rightarrow> ('k, 'v) table \<Rightarrow> ((nat \<times> insertion_state) \<times> ('k, 'v) table) outcome" where
  "insertKeyPrepareEmptySpot hash key t = prepareLoop 256 hash key t"

text \<open>
  \<open>operator[]\<close>: the slot of the key, whose value is \<open>dflt\<close> when the key is new; and the assignment
  to the value it refers to.
\<close>

definition subscript :: "('k \<Rightarrow> u64) \<Rightarrow> 'v \<Rightarrow> 'k \<Rightarrow> ('k, 'v) table \<Rightarrow> (nat \<times> ('k, 'v) table) outcome" where
  "subscript hash dflt key t =
     and_then (insertKeyPrepareEmptySpot hash key t)
       (\<lambda>((idx, state), t1). case state of
          key_found \<Rightarrow> Done (idx, t1)
        | new_node \<Rightarrow> Done (idx, putNode idx key dflt t1)
        | overwrite_node \<Rightarrow> Done (idx, putNode idx key dflt t1)
        | overflow_error \<Rightarrow> Throws)"

definition setSecond :: "nat \<Rightarrow> 'v \<Rightarrow> ('k, 'v) table \<Rightarrow> ('k, 'v) table outcome" where
  "setSecond idx val t =
     (if idx < length (mKeyVals t) then
        (case mKeyVals t ! idx of
           Some (k, v) \<Rightarrow> Done (t\<lparr> mKeyVals := (mKeyVals t)[idx := Some (k, val)] \<rparr>)
         | None \<Rightarrow> Undefined)
      else Undefined)"

definition subscript_assign :: "('k \<Rightarrow> u64) \<Rightarrow> 'v \<Rightarrow> 'k \<Rightarrow> 'v \<Rightarrow> ('k, 'v) table \<Rightarrow> ('k, 'v) table outcome" where
  "subscript_assign hash dflt key val t =
     and_then (subscript hash dflt key t) (\<lambda>(idx, t1). setSecond idx val t1)"

definition emplace :: "('k \<Rightarrow> u64) \<Rightarrow> 'k \<times> 'v \<Rightarrow> ('k, 'v) table \<Rightarrow> ((nat \<times> bool) \<times> ('k, 'v) table) outcome" where
  "emplace hash n t =
     and_then (insertKeyPrepareEmptySpot hash (fst n) t)
       (\<lambda>((idx, state), t1). case state of
          key_found \<Rightarrow> Done ((idx, False), t1)
        | new_node \<Rightarrow> Done ((idx, True), putNode idx (fst n) (snd n) t1)
        | overwrite_node \<Rightarrow> Done ((idx, True), putNode idx (fst n) (snd n) t1)
        | overflow_error \<Rightarrow> Throws)"

definition insertOrAssignImpl :: "('k \<Rightarrow> u64) \<Rightarrow> 'k \<Rightarrow> 'v \<Rightarrow> ('k, 'v) table \<Rightarrow> ((nat \<times> bool) \<times> ('k, 'v) table) outcome" where
  "insertOrAssignImpl hash key obj t =
     and_then (insertKeyPrepareEmptySpot hash key t)
       (\<lambda>((idx, state), t1). case state of
          key_found \<Rightarrow> and_then (setSecond idx obj t1) (\<lambda>t2. Done ((idx, False), t2))
        | new_node \<Rightarrow> Done ((idx, True), putNode idx key obj t1)
        | overwrite_node \<Rightarrow> Done ((idx, True), putNode idx key obj t1)
        | overflow_error \<Rightarrow> Throws)"

definition try_emplace_impl :: "('k \<Rightarrow> u64) \<Rightarrow> 'k \<Rightarrow> 'v \<Rightarrow> ('k, 'v) table \<Rightarrow> ((nat \<times> bool) \<times> ('k, 'v) table) outcome" where
  "try_emplace_impl hash key val t =
     and_then (insertKeyPrepareEmptySpot hash key t)
       (\<lambda>((idx, state), t1). case state of
          key_found \<Rightarrow> Done ((idx, False), t1)
        | new_node \<Rightarrow> Done ((idx, True), putNode idx key val t1)
        | overwrite_node \<Rightarrow> Done ((idx, True), putNode idx key val t1)
        | overflow_error \<Rightarrow> Throws)"

section \<open>Looking up and erasing\<close>

definition table_count :: "('k \<Rightarrow> u64) \<Rightarrow> 'k \<Rightarrow> ('k, 'v) table \<Rightarrow> nat outcome" where
  "table_count hash key t =
     and_then (defined (findIdx hash key t)) (\<lambda>idx. Done (if idx \<noteq> endIdx t then 1 else 0))"

definition contains :: "('k \<Rightarrow> u64) \<Rightarrow> 'k \<Rightarrow> ('k, 'v) table \<Rightarrow> bool outcome" where
  "contains hash key t = and_then (table_count hash key t) (\<lambda>n. Done (n = 1))"

text \<open>\<open>at\<close>; the exception for a missing key is \<open>Throws\<close>.\<close>

definition table_at :: "('k \<Rightarrow> u64) \<Rightarrow> 'k \<Rightarrow> ('k, 'v) table \<Rightarrow> 'v outcome" where
  "table_at hash key t =
     and_then (defined (findIdx hash key t))
       (\<lambda>idx. if idx = endIdx t then Throws
              else if idx < length (mKeyVals t) then
                (case mKeyVals t ! idx of Some (k, v) \<Rightarrow> Done v | None \<Rightarrow> Undefined)
              else Undefined)"

text \<open>\<open>erase\<close> by a position, and by a key with the number of erased entries.\<close>

definition erase_pos :: "nat \<Rightarrow> ('k, 'v) table \<Rightarrow> ('k, 'v) table option" where
  "erase_pos idx t = map_option (\<lambda>t1. t1\<lparr> mNumElements := mNumElements t1 - 1 \<rparr>) (shiftDown idx t)"

function eraseLoop :: "('k, 'v) table \<Rightarrow> 'k \<Rightarrow> nat \<Rightarrow> nat \<Rightarrow> (nat \<times> ('k, 'v) table) option" where
  "eraseLoop t key info idx =
     (case entry_matches (mInfo t) (mKeyVals t) key info idx of
        None \<Rightarrow> None
      | Some True \<Rightarrow> map_option (\<lambda>t1. (1, t1)) (erase_pos idx t)
      | Some False \<Rightarrow>
          if idx + 1 < length (mInfo t) then
            if info + mInfoInc t \<le> mInfo t ! (idx + 1) then eraseLoop t key (info + mInfoInc t) (idx + 1)
            else Some (0, t)
          else None)"
  by pat_completeness auto
termination eraseLoop
  by (relation "measure (\<lambda>(t, key, info, idx). length (mInfo t) - idx)") auto

definition erase_key :: "('k \<Rightarrow> u64) \<Rightarrow> 'k \<Rightarrow> ('k, 'v) table \<Rightarrow> (nat \<times> ('k, 'v) table) option" where
  "erase_key hash key t = (let (idx, info) = keyToIdx hash t key in eraseLoop t key info idx)"

definition table_size :: "('k, 'v) table \<Rightarrow> nat" where "table_size t = mNumElements t"

definition table_empty :: "('k, 'v) table \<Rightarrow> bool" where "table_empty t \<longleftrightarrow> mNumElements t = 0"

text \<open>\<open>clear\<close> keeps the storage.\<close>

definition clear :: "('k, 'v) table \<Rightarrow> ('k, 'v) table" where
  "clear t =
     (if table_empty t then t
      else let b = calcNumElementsWithBuffer (mMask t + 1)
           in t\<lparr> mNumElements := 0, mInfo := (replicate (calcNumBytesInfo b) 0)[b := 1],
                 mInfoInc := InitialInfoInc, mInfoHashShift := InitialInfoHashShift \<rparr>)"

section \<open>Reserving and compacting\<close>

text \<open>
  The bucket count is doubled until it suffices. Sizes are 64 bits wide here, so doubling ends in
  zero after at most 61 steps; the loop gets fuel for one test more.
\<close>

primrec growSize :: "nat \<Rightarrow> nat \<Rightarrow> nat \<Rightarrow> nat option" where
  "growSize 0 required newSize = None"
| "growSize (Suc fuel) required newSize =
     (if calcMaxNumElementsAllowed newSize < required \<and> newSize \<noteq> 0
      then growSize fuel required (newSize * 2 mod 2 ^ 64) else Some newSize)"

definition reserve_impl :: "('k \<Rightarrow> u64) \<Rightarrow> nat \<Rightarrow> bool \<Rightarrow> ('k, 'v) table \<Rightarrow> ('k, 'v) table outcome" where
  "reserve_impl hash c forceRehash t =
     and_then (defined (growSize 62 (max c (mNumElements t)) InitialNumElements))
       (\<lambda>newSize. if newSize = 0 then Throws
          else if forceRehash \<or> newSize > mMask t + 1 then rehashPowerOfTwo hash newSize t
          else Done t)"

definition reserve :: "('k \<Rightarrow> u64) \<Rightarrow> nat \<Rightarrow> ('k, 'v) table \<Rightarrow> ('k, 'v) table outcome" where
  "reserve hash c t = reserve_impl hash c False t"

definition rehash :: "('k \<Rightarrow> u64) \<Rightarrow> nat \<Rightarrow> ('k, 'v) table \<Rightarrow> ('k, 'v) table outcome" where
  "rehash hash c t = reserve_impl hash c True t"

definition compact_table :: "('k \<Rightarrow> u64) \<Rightarrow> ('k, 'v) table \<Rightarrow> ('k, 'v) table outcome" where
  "compact_table hash t =
     and_then (defined (growSize 62 (mNumElements t) InitialNumElements))
       (\<lambda>newSize. if newSize = 0 then Throws
          else if newSize < mMask t + 1 then rehashPowerOfTwo hash newSize t
          else Done t)"

section \<open>Whole tables\<close>

text \<open>\<open>init\<close> after the storage has been given away; the multiplier is kept.\<close>

definition init_table :: "('k, 'v) table \<Rightarrow> ('k, 'v) table" where
  "init_table t =
     t\<lparr> mKeyVals := [], mInfo := replicate 8 0, mNumElements := 0, mMask := 0, mMaxNumElementsAllowed := 0,
        mInfoInc := InitialInfoInc, mInfoHashShift := InitialInfoHashShift \<rparr>"

text \<open>Moving constructs (or assigns to) the first table and leaves the second, another table.\<close>

definition move_construct :: "('k, 'v) table \<Rightarrow> ('k, 'v) table \<times> ('k, 'v) table" where
  "move_construct other = (if mMask other \<noteq> 0 then (other, init_table other) else (empty_table, other))"

definition move_assign :: "('k, 'v) table \<Rightarrow> ('k, 'v) table \<Rightarrow> ('k, 'v) table \<times> ('k, 'v) table" where
  "move_assign t other = (if mMask other \<noteq> 0 then (other, init_table other) else (clear t, other))"

definition copy_construct :: "('k, 'v) table \<Rightarrow> ('k, 'v) table" where
  "copy_construct other = (if table_empty other then empty_table else other)"

definition copy_assign :: "('k, 'v) table \<Rightarrow> ('k, 'v) table \<Rightarrow> ('k, 'v) table" where
  "copy_assign t other =
     (if table_empty other then (if mMask t = 0 then t else init_table t) else other)"

section \<open>Iterating\<close>

text \<open>
  An iterator is the index of its slot. \<open>fastForward\<close> reads eight info bytes at a time and then
  counts the zero bytes before the first other one.
\<close>

function fastForward :: "nat list \<Rightarrow> nat \<Rightarrow> nat option" where
  "fastForward infos idx =
     (if idx + 8 \<le> length infos then
        if \<forall>b \<in> set (take 8 (drop idx infos)). b = 0 then fastForward infos (idx + 8)
        else Some (idx + length (takeWhile (\<lambda>b. b = 0) (take 8 (drop idx infos))))
      else None)"
  by pat_completeness auto
termination fastForward
  by (relation "measure (\<lambda>(infos, idx). length infos - idx)") auto

definition begin_idx :: "('k, 'v) table \<Rightarrow> nat option" where
  "begin_idx t = (if table_empty t then Some (endIdx t) else fastForward (mInfo t) 0)"

definition next_idx :: "('k, 'v) table \<Rightarrow> nat \<Rightarrow> nat option" where
  "next_idx t idx = fastForward (mInfo t) (idx + 1)"

text \<open>
  The loop of \<open>operator==\<close> over the entries from \<open>idx\<close> to the end, with at most \<open>fuel\<close> steps:
  does the predicate hold of all of them?
\<close>

primrec all_entries :: "nat \<Rightarrow> ('k \<times> 'v \<Rightarrow> bool outcome) \<Rightarrow> ('k, 'v) table \<Rightarrow> nat \<Rightarrow> bool outcome" where
  "all_entries 0 P t idx = Undefined"
| "all_entries (Suc fuel) P t idx =
     (if idx = endIdx t then Done True
      else if idx < length (mKeyVals t) then
        (case mKeyVals t ! idx of
           None \<Rightarrow> Undefined
         | Some e \<Rightarrow> and_then (P e)
             (\<lambda>b. if \<not> b then Done False else and_then (defined (next_idx t idx)) (all_entries fuel P t)))
      else Undefined)"

text \<open>Does the table have the key of the entry, with an equal value?\<close>

definition has :: "('k \<Rightarrow> u64) \<Rightarrow> ('k, 'v) table \<Rightarrow> 'k \<times> 'v \<Rightarrow> bool outcome" where
  "has hash t e =
     and_then (defined (findIdx hash (fst e) t))
       (\<lambda>idx. if idx = endIdx t then Done False
              else if idx < length (mKeyVals t) then
                (case mKeyVals t ! idx of Some (k, v) \<Rightarrow> Done (v = snd e) | None \<Rightarrow> Undefined)
              else Undefined)"

definition table_equal :: "('k \<Rightarrow> u64) \<Rightarrow> ('k, 'v) table \<Rightarrow> ('k, 'v) table \<Rightarrow> bool outcome" where
  "table_equal hash t other =
     (if table_size other \<noteq> table_size t then Done False
      else and_then (defined (begin_idx other)) (all_entries (length (mKeyVals other) + 1) (has hash t) other))"

declare nextWhileLess.simps [simp del] nextWhileLessEq.simps [simp del] nextEmpty.simps [simp del]
  findLoop.simps [simp del] shiftUpNodes.simps [simp del] shiftUpInfo.simps [simp del]
  shiftDownLoop.simps [simp del] matchLoop.simps [simp del] eraseLoop.simps [simp del]
  fastForward.simps [simp del]

end
