(* ===== verification/Robin_Probe.thy ===== *)
theory Robin_Probe
  imports Robin_Hood
begin

text \<open>
  Robin hood probing on the lists of info bytes and slots: what the info bytes say about the
  entries, and what the loops of the hash map find and do. The home slot and the info value at
  home of a key are the functions \<open>hm\<close> and \<open>ib\<close>, \<open>inc\<close> is the step of the info values and \<open>n\<close>
  the number of buckets.
\<close>

section \<open>The invariant of the slots\<close>

definition probing :: "('k \<Rightarrow> nat) \<Rightarrow> ('k \<Rightarrow> nat) \<Rightarrow> nat \<Rightarrow> nat \<Rightarrow> bool" where
  "probing hm ib inc n \<longleftrightarrow> 2 \<le> inc \<and> (\<forall>k. hm k < n \<and> inc \<le> ib k \<and> ib k < 2 * inc)"

lemma probingD:
  assumes "probing hm ib inc n"
  shows "2 \<le> inc" "hm k < n" "inc \<le> ib k" "ib k < 2 * inc"
  using assms by (auto simp: probing_def)

definition stored :: "nat list \<Rightarrow> ('k \<times> 'v) option list \<Rightarrow> nat \<Rightarrow> 'k \<Rightarrow> 'v \<Rightarrow> bool" where
  "stored infos kvs i k v \<longleftrightarrow> i < length kvs \<and> infos ! i \<noteq> 0 \<and> kvs ! i = Some (k, v)"

definition sentinel_ok :: "nat list \<Rightarrow> ('k \<times> 'v) option list \<Rightarrow> bool" where
  "sentinel_ok infos kvs \<longleftrightarrow> length infos = length kvs + 8 \<and> infos ! length kvs = 1
     \<and> (\<forall>i. length kvs < i \<and> i < length infos \<longrightarrow> infos ! i = 0)"

definition entries_ok :: "('k \<Rightarrow> nat) \<Rightarrow> ('k \<Rightarrow> nat) \<Rightarrow> nat \<Rightarrow> nat list \<Rightarrow> ('k \<times> 'v) option list \<Rightarrow> bool" where
  "entries_ok hm ib inc infos kvs \<longleftrightarrow> (\<forall>i < length kvs. infos ! i \<noteq> 0 \<longrightarrow>
     (\<exists>k v. kvs ! i = Some (k, v) \<and> hm k \<le> i \<and> infos ! i = ib k + inc * (i - hm k) \<and> infos ! i \<le> 255))"

definition steps_ok :: "nat \<Rightarrow> nat list \<Rightarrow> ('k \<times> 'v) option list \<Rightarrow> bool" where
  "steps_ok inc infos kvs \<longleftrightarrow> (\<forall>i. Suc i < length kvs \<longrightarrow> 2 * inc \<le> infos ! Suc i \<longrightarrow> infos ! Suc i \<le> infos ! i + inc)"

definition keys_distinct :: "nat list \<Rightarrow> ('k \<times> 'v) option list \<Rightarrow> bool" where
  "keys_distinct infos kvs \<longleftrightarrow> (\<forall>i j k v w. stored infos kvs i k v \<longrightarrow> stored infos kvs j k w \<longrightarrow> i = j)"

definition slots_ok :: "('k \<Rightarrow> nat) \<Rightarrow> ('k \<Rightarrow> nat) \<Rightarrow> nat \<Rightarrow> nat \<Rightarrow> nat list \<Rightarrow> ('k \<times> 'v) option list \<Rightarrow> bool" where
  "slots_ok hm ib inc n infos kvs \<longleftrightarrow> probing hm ib inc n \<and> n \<le> length kvs \<and> sentinel_ok infos kvs
     \<and> entries_ok hm ib inc infos kvs \<and> steps_ok inc infos kvs \<and> keys_distinct infos kvs"

lemma slots_okD:
  assumes "slots_ok hm ib inc n infos kvs"
  shows "probing hm ib inc n" "n \<le> length kvs" "sentinel_ok infos kvs"
    "entries_ok hm ib inc infos kvs" "steps_ok inc infos kvs" "keys_distinct infos kvs"
  using assms by (auto simp: slots_ok_def)

lemma sentinelD:
  assumes "sentinel_ok infos kvs"
  shows "length infos = length kvs + 8" "infos ! length kvs = 1"
    "length kvs < i \<Longrightarrow> i < length kvs + 8 \<Longrightarrow> infos ! i = 0"
    "length kvs \<le> i \<Longrightarrow> i < length kvs + 8 \<Longrightarrow> infos ! i \<le> 1"
  using assms by (auto simp: sentinel_ok_def le_less)

lemma entriesE:
  assumes "entries_ok hm ib inc infos kvs" "i < length kvs" "infos ! i \<noteq> 0"
  obtains k v where "stored infos kvs i k v" "kvs ! i = Some (k, v)" "hm k \<le> i"
    "infos ! i = ib k + inc * (i - hm k)" "infos ! i \<le> 255"
  using assms unfolding entries_ok_def stored_def by metis

lemma stored_info:
  assumes "slots_ok hm ib inc n infos kvs" "stored infos kvs i k v"
  shows "i < length kvs" "hm k \<le> i" "infos ! i = ib k + inc * (i - hm k)" "infos ! i \<le> 255"
  using assms by (auto simp: slots_ok_def entries_ok_def stored_def)

lemma occupied_ge:
  assumes "slots_ok hm ib inc n infos kvs" "i < length kvs" "infos ! i \<noteq> 0"
  shows "inc \<le> infos ! i"
  by (rule entriesE [OF slots_okD(4) [OF assms(1)] assms(2,3)])
     (use probingD(3) [OF slots_okD(1) [OF assms(1)]] in \<open>simp add: trans_le_add1\<close>)

lemma occupied_ge_all:
  assumes "slots_ok hm ib inc n infos kvs" "inc \<le> infos ! i" "i < length infos"
  shows "i < length kvs"
proof (rule ccontr)
  assume "\<not> i < length kvs"
  with assms(3) sentinelD(1) [OF slots_okD(3) [OF assms(1)]] sentinelD(4) [OF slots_okD(3) [OF assms(1)], of i]
  have "infos ! i \<le> 1" by simp
  with assms(2) probingD(1) [OF slots_okD(1) [OF assms(1)]] show False by simp
qed

lemma steps_all:
  assumes "slots_ok hm ib inc n infos kvs" "Suc i < length infos" "2 * inc \<le> infos ! Suc i"
  shows "infos ! Suc i \<le> infos ! i + inc"
proof -
  have "Suc i < length kvs" using occupied_ge_all [OF assms(1) _ assms(2)] assms(3) by simp
  with slots_okD(5) [OF assms(1)] assms(3) show ?thesis by (simp add: steps_ok_def)
qed

text \<open>The info values between the home slot of an entry and the entry.\<close>

lemma prefix_infos:
  assumes ok: "slots_ok hm ib inc n infos kvs" and s: "stored infos kvs i k v"
    and j: "hm k \<le> j" "j \<le> i"
  shows "ib k + inc * (j - hm k) \<le> infos ! j"
  using j(2,1)
proof (induction j rule: inc_induct)
  case base
  then show ?case using stored_info [OF ok s] by simp
next
  case (step j)
  have len: "Suc j < length infos"
    using step.hyps stored_info(1) [OF ok s] sentinelD(1) [OF slots_okD(3) [OF ok]] by simp
  have e: "ib k + inc * (Suc j - hm k) = ib k + inc * (j - hm k) + inc"
    using step.prems by (simp add: Suc_diff_le)
  have "2 * inc \<le> infos ! Suc j"
    using step.IH step.prems e probingD(3) [OF slots_okD(1) [OF ok], of k] by simp
  from steps_all [OF ok len this] step.IH step.prems e show ?case by simp
qed

section \<open>Looking a key up\<close>

definition probe_info :: "('k \<Rightarrow> nat) \<Rightarrow> ('k \<Rightarrow> nat) \<Rightarrow> nat \<Rightarrow> 'k \<Rightarrow> nat \<Rightarrow> nat" where
  "probe_info hm ib inc k i = ib k + inc * (i - hm k)"

lemma probe_info_Suc [simp]: "hm k \<le> i \<Longrightarrow> probe_info hm ib inc k (Suc i) = probe_info hm ib inc k i + inc"
  by (simp add: probe_info_def Suc_diff_le)

lemma probe_info_home [simp]: "probe_info hm ib inc k (hm k) = ib k"
  by (simp add: probe_info_def)

lemma entry_matches_stored:
  assumes ok: "slots_ok hm ib inc n infos kvs" and i: "i < length infos" "hm k \<le> i"
  shows "entry_matches infos kvs k (probe_info hm ib inc k i) i = Some (\<exists>v. stored infos kvs i k v)"
proof (cases "infos ! i = probe_info hm ib inc k i")
  case True
  have "inc \<le> infos ! i" using True probingD(3) [OF slots_okD(1) [OF ok], of k] by (simp add: probe_info_def)
  with occupied_ge_all [OF ok this i(1)] probingD(1) [OF slots_okD(1) [OF ok]]
  have "i < length kvs" "infos ! i \<noteq> 0" by auto
  then show ?thesis using True i entriesE [OF slots_okD(4) [OF ok]]
    by (auto simp: entry_matches_def stored_def split: option.splits) (metis option.distinct(1))
next
  case False
  then show ?thesis using i stored_info(3) [OF ok]
    by (auto simp: entry_matches_def probe_info_def)
qed

text \<open>No entry of the key is at or after a slot with a smaller info value.\<close>

lemma absent_from:
  assumes ok: "slots_ok hm ib inc n infos kvs" and "hm k \<le> i" "infos ! i < probe_info hm ib inc k i"
    and "stored infos kvs j k v"
  shows "j < i"
proof (rule ccontr)
  assume "\<not> j < i"
  then have "i \<le> j" by simp
  from prefix_infos [OF ok assms(4,2) this] assms(3) show False by (simp add: probe_info_def)
qed

lemma probe_in_range:
  assumes ok: "slots_ok hm ib inc n infos kvs" and "probe_info hm ib inc k i \<le> infos ! i" "i < length infos"
  shows "i < length kvs"
  using occupied_ge_all [OF ok _ assms(3)] assms(2) probingD(3) [OF slots_okD(1) [OF ok], of k]
  by (simp add: probe_info_def)

lemma findLoop_stored:
  assumes ok: "slots_ok hm ib inc n infos kvs"
  shows "hm k \<le> i \<Longrightarrow> i < length kvs + 1 \<Longrightarrow> (\<forall>j v. stored infos kvs j k v \<longrightarrow> i \<le> j)
    \<Longrightarrow> \<exists>r. findLoop inc infos kvs k (probe_info hm ib inc k i) i = Some r
      \<and> (case r of Some j \<Rightarrow> \<exists>v. stored infos kvs j k v | None \<Rightarrow> \<forall>j v. \<not> stored infos kvs j k v)"
proof (induction "length infos - i" arbitrary: i rule: less_induct)
  case less
  let ?p = "probe_info hm ib inc k"
  note len = sentinelD(1) [OF slots_okD(3) [OF ok]]
  have m0: "entry_matches infos kvs k (?p i) i = Some (\<exists>v. stored infos kvs i k v)"
    using entry_matches_stored [OF ok, of i k] less.prems len by simp
  have m1: "entry_matches infos kvs k (?p i + inc) (i + 1) = Some (\<exists>v. stored infos kvs (i + 1) k v)"
    using entry_matches_stored [OF ok, of "i + 1" k] less.prems len by simp
  have p2: "?p i + 2 * inc = ?p (i + 2)" using less.prems(1) by simp
  note unf = findLoop.simps [of inc infos kvs k "?p i" i] m0 m1 p2
  show ?case
  proof (cases "(\<exists>v. stored infos kvs i k v) \<or> (\<exists>v. stored infos kvs (i + 1) k v)")
    case True
    then show ?thesis using unf
      by (cases "\<exists>v. stored infos kvs i k v") auto
  next
    case False
    then have e: "(\<exists>v. stored infos kvs i k v) = False" "(\<exists>v. stored infos kvs (i + 1) k v) = False"
      by blast+
    have ge: "\<forall>j v. stored infos kvs j k v \<longrightarrow> i + 2 \<le> j"
    proof (intro allI impI)
      fix j v assume s: "stored infos kvs j k v"
      with False less.prems(3) have "i \<le> j" "j \<noteq> i" "j \<noteq> i + 1" by auto
      then show "i + 2 \<le> j" by simp
    qed
    have l2: "i + 2 < length infos" using less.prems(2) len by simp
    show ?thesis
    proof (cases "?p (i + 2) \<le> infos ! (i + 2)")
      case True
      with probe_in_range [OF ok _ l2] have "i + 2 < length kvs + 1" by fastforce
      have fl: "findLoop inc infos kvs k (?p i) i = findLoop inc infos kvs k (?p (i + 2)) (i + 2)"
        unfolding findLoop.simps [of inc infos kvs k "?p i" i] m0 m1 p2 e using True l2 by simp
      have d: "length infos - (i + 2) < length infos - i" using l2 by simp
      show ?thesis unfolding fl by (rule less.hyps [OF d _ \<open>i + 2 < length kvs + 1\<close> ge]) (use less.prems(1) in simp)
    next
      case stop: False
      have "\<not> stored infos kvs j k v" for j v
        using absent_from [OF ok, of k "i + 2" j v] stop ge less.prems(1) by fastforce
      moreover have "findLoop inc infos kvs k (?p i) i = Some None"
        unfolding findLoop.simps [of inc infos kvs k "?p i" i] m0 m1 p2 e using stop l2 by simp
      ultimately show ?thesis by simp
    qed
  qed
qed

section \<open>The place of a new key\<close>

text \<open>
  A place where the key can be inserted: all slots from the home slot up to it have info values
  at least as large as those of the key there, and its own is smaller.
\<close>

definition insertion_point :: "('k \<Rightarrow> nat) \<Rightarrow> ('k \<Rightarrow> nat) \<Rightarrow> nat \<Rightarrow> nat list \<Rightarrow> ('k \<times> 'v) option list \<Rightarrow> 'k \<Rightarrow> nat \<Rightarrow> bool" where
  "insertion_point hm ib inc infos kvs k p \<longleftrightarrow> hm k \<le> p \<and> p \<le> length kvs \<and> infos ! p < probe_info hm ib inc k p
     \<and> (\<forall>j. hm k \<le> j \<and> j < p \<longrightarrow> probe_info hm ib inc k j \<le> infos ! j)"

lemma insertion_point_absent:
  assumes ok: "slots_ok hm ib inc n infos kvs" and p: "insertion_point hm ib inc infos kvs k p"
    and "\<forall>j v. stored infos kvs j k v \<longrightarrow> p \<le> j"
  shows "\<not> stored infos kvs j k v"
  using absent_from [OF ok, of k p j v] p assms(3) by (auto simp: insertion_point_def)

lemma nextWhileLess_probe:
  assumes ok: "slots_ok hm ib inc n infos kvs"
  shows "hm k \<le> i \<Longrightarrow> i \<le> length kvs \<Longrightarrow> \<exists>p. nextWhileLess inc infos (probe_info hm ib inc k i) i = Some (probe_info hm ib inc k p, p)
    \<and> i \<le> p \<and> p \<le> length kvs \<and> infos ! p \<le> probe_info hm ib inc k p
    \<and> (\<forall>j. i \<le> j \<and> j < p \<longrightarrow> probe_info hm ib inc k j < infos ! j)"
proof (induction "length infos - i" arbitrary: i rule: less_induct)
  case less
  let ?p = "probe_info hm ib inc k"
  have li: "i < length infos" using sentinelD(1) [OF slots_okD(3) [OF ok]] less.prems by simp
  note unf = nextWhileLess.simps [of inc infos "?p i" i]
  show ?case
  proof (cases "?p i < infos ! i")
    case True
    with probe_in_range [OF ok _ li, of k] have "Suc i \<le> length kvs" by simp
    from less.hyps [OF diff_less_mono2 [OF lessI li] _ this] less.prems(1) obtain p where
      p: "nextWhileLess inc infos (?p (Suc i)) (Suc i) = Some (?p p, p)" "Suc i \<le> p" "p \<le> length kvs"
        "infos ! p \<le> ?p p" "\<forall>j. Suc i \<le> j \<and> j < p \<longrightarrow> ?p j < infos ! j" by auto
    have "?p j < infos ! j" if "i \<le> j" "j < p" for j
      using p(5) True that by (cases "j = i") auto
    with p True less.prems(1) li unf show ?thesis by auto
  next
    case False
    with less.prems li unf show ?thesis by (intro exI [of _ i]) auto
  qed
qed

lemma nextWhileLessEq_probe:
  assumes ok: "slots_ok hm ib inc n infos kvs"
  shows "hm k \<le> i \<Longrightarrow> i \<le> length kvs \<Longrightarrow> \<exists>p. nextWhileLessEq inc infos (probe_info hm ib inc k i) i = Some (probe_info hm ib inc k p, p)
    \<and> i \<le> p \<and> p \<le> length kvs \<and> infos ! p < probe_info hm ib inc k p
    \<and> (\<forall>j. i \<le> j \<and> j < p \<longrightarrow> probe_info hm ib inc k j \<le> infos ! j)"
proof (induction "length infos - i" arbitrary: i rule: less_induct)
  case less
  let ?p = "probe_info hm ib inc k"
  have li: "i < length infos" using sentinelD(1) [OF slots_okD(3) [OF ok]] less.prems by simp
  note unf = nextWhileLessEq.simps [of inc infos "?p i" i]
  show ?case
  proof (cases "?p i \<le> infos ! i")
    case True
    with probe_in_range [OF ok _ li, of k] have "Suc i \<le> length kvs" by simp
    from less.hyps [OF diff_less_mono2 [OF lessI li] _ this] less.prems(1) obtain p where
      p: "nextWhileLessEq inc infos (?p (Suc i)) (Suc i) = Some (?p p, p)" "Suc i \<le> p" "p \<le> length kvs"
        "infos ! p < ?p p" "\<forall>j. Suc i \<le> j \<and> j < p \<longrightarrow> ?p j \<le> infos ! j" by auto
    have "?p j \<le> infos ! j" if "i \<le> j" "j < p" for j
      using p(5) True that by (cases "j = i") auto
    with p True less.prems(1) li unf show ?thesis by auto
  next
    case False
    with less.prems li unf show ?thesis by (intro exI [of _ i]) auto
  qed
qed

lemma matchLoop_probe:
  assumes ok: "slots_ok hm ib inc n infos kvs"
  shows "hm k \<le> i \<Longrightarrow> i \<le> length kvs \<Longrightarrow> infos ! i \<le> probe_info hm ib inc k i
    \<Longrightarrow> (\<forall>j v. stored infos kvs j k v \<longrightarrow> i \<le> j)
    \<Longrightarrow> (\<forall>j. hm k \<le> j \<and> j < i \<longrightarrow> probe_info hm ib inc k j \<le> infos ! j)
    \<Longrightarrow> \<exists>found p. matchLoop inc infos kvs k (probe_info hm ib inc k i) i = Some (found, probe_info hm ib inc k p, p)
      \<and> (if found then \<exists>v. stored infos kvs p k v
         else insertion_point hm ib inc infos kvs k p \<and> (\<forall>j v. \<not> stored infos kvs j k v))"
proof (induction "length infos - i" arbitrary: i rule: less_induct)
  case less
  let ?p = "probe_info hm ib inc k"
  have li: "i < length infos" using sentinelD(1) [OF slots_okD(3) [OF ok]] less.prems by simp
  note m = entry_matches_stored [OF ok li less.prems(1)]
  note unf = matchLoop.simps [of inc infos kvs k "?p i" i] m
  show ?case
  proof (cases "infos ! i = ?p i")
    case eq: True
    show ?thesis
    proof (cases "\<exists>v. stored infos kvs i k v")
      case True
      with li unf eq show ?thesis by (intro exI [of _ True] exI [of _ i]) auto
    next
      case False
      have lk: "i < length kvs" using probe_in_range [OF ok _ li, of k] eq by simp
      have lS: "Suc i < length infos" using lk sentinelD(1) [OF slots_okD(3) [OF ok]] by simp
      have le: "infos ! Suc i \<le> ?p (Suc i)"
      proof (cases "2 * inc \<le> infos ! Suc i")
        case True
        from steps_all [OF ok lS True] eq less.prems(1) show ?thesis by simp
      next
        case False
        then show ?thesis using probingD(3) [OF slots_okD(1) [OF ok], of k] less.prems(1)
          by (simp add: probe_info_def Suc_diff_le)
      qed
      have ge: "\<forall>j v. stored infos kvs j k v \<longrightarrow> Suc i \<le> j"
        using False less.prems(4) by (metis Suc_leI le_neq_implies_less)
      have pre: "\<forall>j. hm k \<le> j \<and> j < Suc i \<longrightarrow> ?p j \<le> infos ! j"
        using less.prems(5) eq by (auto simp: less_Suc_eq)
      from less.hyps [OF _ _ _ le ge pre] less.prems(1) lk li False eq unf show ?thesis by simp
    qed
  next
    case False
    then have "insertion_point hm ib inc infos kvs k i"
      using less.prems by (simp add: insertion_point_def)
    with insertion_point_absent [OF ok this less.prems(4)] False li unf show ?thesis
      by (intro exI [of _ False] exI [of _ i]) auto
  qed
qed

section \<open>Room for a new entry\<close>

definition occupied :: "nat list \<Rightarrow> ('k \<times> 'v) option list \<Rightarrow> nat set" where
  "occupied infos kvs = {i. i < length kvs \<and> infos ! i \<noteq> 0}"

lemma finite_occupied [simp]: "finite (occupied infos kvs)"
  by (simp add: occupied_def)

lemma nextEmpty_first:
  "e < length infos \<Longrightarrow> infos ! e = 0 \<Longrightarrow> p \<le> e
    \<Longrightarrow> \<exists>q. nextEmpty infos p = Some q \<and> p \<le> q \<and> q \<le> e \<and> infos ! q = 0 \<and> (\<forall>j. p \<le> j \<and> j < q \<longrightarrow> infos ! j \<noteq> 0)"
proof (induction "e - p" arbitrary: p)
  case 0
  then show ?case by (simp add: nextEmpty.simps [of infos p])
next
  case (Suc d)
  show ?case
  proof (cases "infos ! p = 0")
    case True
    with Suc.prems show ?thesis by (intro exI [of _ p]) (simp add: nextEmpty.simps [of infos p])
  next
    case False
    have "d = e - Suc p" "Suc p \<le> e" using Suc.hyps(2) by simp_all
    from Suc.hyps(1) [OF this(1) Suc.prems(1,2) this(2)] obtain q where q: "nextEmpty infos (Suc p) = Some q"
      "Suc p \<le> q" "q \<le> e" "infos ! q = 0" "\<forall>j. Suc p \<le> j \<and> j < q \<longrightarrow> infos ! j \<noteq> 0" by blast
    have "infos ! j \<noteq> 0" if "p \<le> j" "j < q" for j
      using q(5) False that by (cases "j = p") auto
    with q False Suc.prems show ?thesis by (intro exI [of _ q]) (simp add: nextEmpty.simps [of infos p])
  qed
qed

text \<open>
  The buffer behind the buckets is never used up: either it has more slots than there are entries,
  or an entry at its end would be too far from home for its info byte.
\<close>

lemma room:
  assumes ok: "slots_ok hm ib inc n infos kvs" and p: "insertion_point hm ib inc infos kvs k p"
    and space: "card (occupied infos kvs) \<le> length kvs - n \<or> n + 255 \<le> length kvs"
  shows "\<exists>q. nextEmpty infos p = Some q \<and> p \<le> q \<and> q < length kvs \<and> infos ! q = 0
    \<and> (\<forall>j. p \<le> j \<and> j < q \<longrightarrow> infos ! j \<noteq> 0)"
proof -
  note pr = probingD [OF slots_okD(1) [OF ok]]
  have "\<exists>e. p \<le> e \<and> e < length kvs \<and> infos ! e = 0"
  proof (rule ccontr)
    assume none: "\<not> (\<exists>e. p \<le> e \<and> e < length kvs \<and> infos ! e = 0)"
    have occ: "infos ! j \<noteq> 0" if "hm k \<le> j" "j < length kvs" for j
    proof (cases "p \<le> j")
      case True then show ?thesis using none that by auto
    next
      case False
      then have "probe_info hm ib inc k j \<le> infos ! j" using p that unfolding insertion_point_def by (meson linorder_not_less)
      moreover have "inc \<le> probe_info hm ib inc k j" using pr(3) [of k] by (simp add: probe_info_def)
      ultimately show ?thesis using pr(1) by linarith
    qed
    have hn: "hm k < n" "n \<le> length kvs" using pr(2) slots_okD(2) [OF ok] by auto
    from space show False
    proof
      assume le: "card (occupied infos kvs) \<le> length kvs - n"
      have "{hm k..<length kvs} \<subseteq> occupied infos kvs" using occ by (auto simp: occupied_def)
      from card_mono [OF finite_occupied this] le hn show False by simp
    next
      assume far: "n + 255 \<le> length kvs"
      let ?l = "length kvs - 1"
      from far hn have l: "?l < length kvs" "hm k \<le> ?l" by auto
      from entriesE [OF slots_okD(4) [OF ok] l(1) occ [OF l(2,1)]] obtain k' v' where
        e: "infos ! ?l = ib k' + inc * (?l - hm k')" "infos ! ?l \<le> 255" by metis
      have "255 \<le> ?l - hm k'" using far pr(2) [of k'] by simp
      with pr(1) have "2 * 255 \<le> inc * (?l - hm k')" by (rule mult_le_mono)
      with e show False by linarith
    qed
  qed
  then obtain e where e: "p \<le> e" "e < length kvs" "infos ! e = 0" by blast
  then show ?thesis
    using nextEmpty_first [of e infos p] sentinelD(1) [OF slots_okD(3) [OF ok]] by fastforce
qed

section \<open>Shifting up\<close>

lemma shiftUpNodes_nth:
  "q < length kvs \<Longrightarrow> length (shiftUpNodes kvs q p) = length kvs
    \<and> (\<forall>j. shiftUpNodes kvs q p ! j = (if p < j \<and> j \<le> q then kvs ! (j - 1) else kvs ! j))"
proof (induction kvs q p rule: shiftUpNodes.induct)
  case (1 kvs q p)
  show ?case
  proof (cases "q \<le> p")
    case True then show ?thesis by (auto simp: shiftUpNodes.simps [of kvs q p])
  next
    case False
    with 1 show ?thesis
      by (auto simp: shiftUpNodes.simps [of kvs q p] nth_list_update)
  qed
qed

lemma shiftUpInfo_nth:
  "q < length infos \<Longrightarrow> (\<forall>j. p \<le> j \<and> j < q \<longrightarrow> infos ! j + inc \<le> 255)
    \<Longrightarrow> \<exists>infos'. shiftUpInfo inc infos q p full = (infos', full \<or> (\<exists>j. p \<le> j \<and> j < q \<and> infos ! j + inc + inc > 255))
      \<and> length infos' = length infos
      \<and> (\<forall>j. infos' ! j = (if p < j \<and> j \<le> q then infos ! (j - 1) + inc else infos ! j))"
proof (induction q arbitrary: infos full)
  case 0
  then show ?case by (simp add: shiftUpInfo.simps)
next
  case (Suc q)
  show ?case
  proof (cases "Suc q \<le> p")
    case True then show ?thesis by (auto simp: shiftUpInfo.simps [of inc infos "Suc q" p full])
  next
    case False
    let ?b = "infos ! q + inc"
    let ?infos = "infos[Suc q := ?b]"
    have le: "?b \<le> 255" using Suc.prems(2) False by simp
    have pre: "q < length ?infos" "\<forall>j. p \<le> j \<and> j < q \<longrightarrow> ?infos ! j + inc \<le> 255"
      using Suc.prems by auto
    from Suc.IH [OF pre, of "full \<or> ?b + inc > 255"] obtain infos' where i:
      "shiftUpInfo inc ?infos q p (full \<or> ?b + inc > 255)
        = (infos', (full \<or> ?b + inc > 255) \<or> (\<exists>j. p \<le> j \<and> j < q \<and> ?infos ! j + inc + inc > 255))"
      "length infos' = length infos"
      "\<forall>j. infos' ! j = (if p < j \<and> j \<le> q then ?infos ! (j - 1) + inc else ?infos ! j)" by auto
    have ex: "(\<exists>j. p \<le> j \<and> j < Suc q \<and> infos ! j + inc + inc > 255)
        \<longleftrightarrow> ?b + inc > 255 \<or> (\<exists>j. p \<le> j \<and> j < q \<and> ?infos ! j + inc + inc > 255)"
      using False by (auto simp: less_Suc_eq intro: exI [of _ q])
    have "\<forall>j. infos' ! j = (if p < j \<and> j \<le> Suc q then infos ! (j - 1) + inc else infos ! j)"
      using i(3) False Suc.prems(1) by (auto simp: nth_list_update le_Suc_eq)
    moreover have "shiftUpInfo inc infos (Suc q) p full = shiftUpInfo inc ?infos q p (full \<or> ?b + inc > 255)"
      using False le by (simp add: shiftUpInfo.simps [of inc infos "Suc q" p full] Let_def)
    ultimately show ?thesis using i(1,2) ex by (intro exI [of _ infos']) (simp add: disj_assoc)
  qed
qed

section \<open>Inserting\<close>

text \<open>The lists after an entry is put at \<open>p\<close> and the slots from \<open>p\<close> to the empty \<open>q\<close> move up by one.\<close>

definition moved_up :: "nat \<Rightarrow> nat \<Rightarrow> nat \<Rightarrow> nat \<Rightarrow> 'k \<times> 'v \<Rightarrow> nat list \<Rightarrow> ('k \<times> 'v) option list
    \<Rightarrow> nat list \<Rightarrow> ('k \<times> 'v) option list \<Rightarrow> bool" where
  "moved_up inc info p q kv infos kvs infos' kvs' \<longleftrightarrow>
     length infos' = length infos \<and> length kvs' = length kvs
     \<and> (\<forall>j. infos' ! j = (if j = p then info else if p < j \<and> j \<le> q then infos ! (j - 1) + inc else infos ! j))
     \<and> (\<forall>j. kvs' ! j = (if j = p then Some kv else if p < j \<and> j \<le> q then kvs ! (j - 1) else kvs ! j))"

lemma moved_upD:
  assumes "moved_up inc info p q kv infos kvs infos' kvs'"
  shows "length infos' = length infos" "length kvs' = length kvs"
    "infos' ! j = (if j = p then info else if p < j \<and> j \<le> q then infos ! (j - 1) + inc else infos ! j)"
    "kvs' ! j = (if j = p then Some kv else if p < j \<and> j \<le> q then kvs ! (j - 1) else kvs ! j)"
  using assms unfolding moved_up_def by blast+

definition empty_slot :: "nat list \<Rightarrow> ('k \<times> 'v) option list \<Rightarrow> nat \<Rightarrow> nat \<Rightarrow> bool" where
  "empty_slot infos kvs p q \<longleftrightarrow> p \<le> q \<and> q < length kvs \<and> infos ! q = 0 \<and> (\<forall>j. p \<le> j \<and> j < q \<longrightarrow> infos ! j \<noteq> 0)"

lemma empty_slotD:
  assumes "empty_slot infos kvs p q"
  shows "p \<le> q" "q < length kvs" "infos ! q = 0" "p \<le> j \<Longrightarrow> j < q \<Longrightarrow> infos ! j \<noteq> 0"
  using assms unfolding empty_slot_def by blast+

lemma moved_up_stored:
  assumes m: "moved_up inc info p q (k, v) infos kvs infos' kvs'" and e: "empty_slot infos kvs p q"
    and i: "info \<noteq> 0"
  shows "stored infos' kvs' j k' v' \<longleftrightarrow>
    (if j = p then k' = k \<and> v' = v else if p < j \<and> j \<le> q then stored infos kvs (j - 1) k' v' else stored infos kvs j k' v')"
proof -
  note e = empty_slotD [OF e] and m = moved_upD [OF m]
  show ?thesis
  proof (cases "p < j \<and> j \<le> q")
    case True
    have "p \<le> j - 1" "j - 1 < q" using True by linarith+
    then have "infos ! (j - 1) \<noteq> 0" by (rule e(4))
    with True e(1,2) m(2) m(3) [of j] m(4) [of j] show ?thesis by (auto simp: stored_def)
  next
    case False
    with i e(1,2) m(2) m(3) [of j] m(4) [of j] show ?thesis by (auto simp: stored_def)
  qed
qed

lemma moved_up_occupied:
  assumes m: "moved_up inc info p q kv infos kvs infos' kvs'" and e: "empty_slot infos kvs p q"
    and i: "info \<noteq> 0"
  shows "occupied infos' kvs' = insert q (occupied infos kvs)"
proof (rule set_eqI)
  fix j
  note e = empty_slotD [OF e] and m = moved_upD [OF m]
  show "j \<in> occupied infos' kvs' \<longleftrightarrow> j \<in> insert q (occupied infos kvs)"
  proof (cases "p \<le> j \<and> j \<le> q")
    case True
    then consider "j = p" | "p < j" "j \<le> q" "infos ! (j - 1) \<noteq> 0" using e(4) [of "j - 1"] by fastforce
    moreover have "infos ! j \<noteq> 0 \<or> j = q" using True e(4) [of j] by fastforce
    ultimately show ?thesis using True i e(1,2) m(2) m(3) [of j] by cases (auto simp: occupied_def)
  next
    case False
    then show ?thesis using e(1) m(2) m(3) [of j] by (auto simp: occupied_def)
  qed
qed

lemma moved_up_slots_ok:
  assumes ok: "slots_ok hm ib inc n infos kvs" and p: "insertion_point hm ib inc infos kvs k p"
    and absent: "\<forall>j v. \<not> stored infos kvs j k v" and e: "empty_slot infos kvs p q"
    and fits: "\<forall>j < length kvs. infos ! j + inc \<le> 255" and info: "info = probe_info hm ib inc k p" "info \<le> 255"
    and m: "moved_up inc info p q (k, v) infos kvs infos' kvs'"
  shows "slots_ok hm ib inc n infos' kvs'"
proof -
  note pr = probingD [OF slots_okD(1) [OF ok]]
  note ed = empty_slotD [OF e] and md = moved_upD [OF m]
  have i0: "inc \<le> info" using info pr(3) [of k] by (simp add: probe_info_def)
  then have i1: "info \<noteq> 0" using pr(1) by linarith
  note st = moved_up_stored [OF m e i1]
  have sent: "sentinel_ok infos' kvs'"
    using slots_okD(3) [OF ok] ed(1,2) md(1,2) md(3) by (auto simp: sentinel_ok_def)
  have ent: "entries_ok hm ib inc infos' kvs'"
    unfolding entries_ok_def
  proof (intro allI impI)
    fix j assume j: "j < length kvs'" "infos' ! j \<noteq> 0"
    show "\<exists>k v. kvs' ! j = Some (k, v) \<and> hm k \<le> j \<and> infos' ! j = ib k + inc * (j - hm k) \<and> infos' ! j \<le> 255"
    proof (cases "j = p")
      case True
      with p info md(3) [of j] md(4) [of j] show ?thesis by (auto simp: insertion_point_def probe_info_def)
    next
      case np: False
      show ?thesis
      proof (cases "p < j \<and> j \<le> q")
        case True
        have l: "j - 1 < length kvs" "infos ! (j - 1) \<noteq> 0" using True ed(2) ed(4) [of "j - 1"] by auto
        from entriesE [OF slots_okD(4) [OF ok] l] obtain k' v' where kv: "kvs ! (j - 1) = Some (k', v')"
          "hm k' \<le> j - 1" "infos ! (j - 1) = ib k' + inc * (j - 1 - hm k')" by metis
        have "infos ! (j - 1) + inc \<le> 255" "hm k' \<le> j" using fits l(1) kv(2) by simp_all
        moreover have "j - hm k' = Suc (j - 1 - hm k')" using kv(2) True by linarith
        ultimately show ?thesis using kv True np md(3) [of j] md(4) [of j] by simp
      next
        case False
        with j np ok md(2) md(3) [of j] md(4) [of j] show ?thesis
          using slots_okD(4) [OF ok] by (auto simp: entries_ok_def)
      qed
    qed
  qed
  have steps: "steps_ok inc infos' kvs'"
    unfolding steps_ok_def
  proof (intro allI impI)
    fix i assume i: "Suc i < length kvs'" and g: "2 * inc \<le> infos' ! Suc i"
    have old: "infos ! Suc i \<le> infos ! i + inc \<or> infos ! Suc i < 2 * inc"
      using slots_okD(5) [OF ok] i md(2) by (auto simp: steps_ok_def)
    consider (before) "Suc i < p \<or> i > q" | (at) "Suc i = p" | (first) "i = p" "i < q" | (mid) "p < i" "i < q" | (last) "i = q"
      using ed(1) by linarith
    then show "infos' ! Suc i \<le> infos' ! i + inc"
    proof cases
      case before
      then show ?thesis using old g md(3) [of i] md(3) [of "Suc i"] ed(1) by auto
    next
      case at
      have "hm k \<noteq> p"
      proof
        assume "hm k = p"
        then have "info < 2 * inc" using info pr(4) [of k] by (simp add: probe_info_def)
        with g at md(3) [of "Suc i"] show False by simp
      qed
      with p at have "hm k \<le> i" "probe_info hm ib inc k i \<le> infos ! i" by (auto simp: insertion_point_def)
      then show ?thesis using at info md(3) [of i] md(3) [of "Suc i"] by auto
    next
      case first
      have "infos ! p \<le> info" using p info by (simp add: insertion_point_def)
      then show ?thesis using first md(3) [of i] md(3) [of "Suc i"] by simp
    next
      case mid
      have "steps_ok inc infos kvs" by (rule slots_okD(5) [OF ok])
      then have "infos ! i \<le> infos ! (i - 1) + inc \<or> infos ! i < 2 * inc"
        using mid ed(2) unfolding steps_ok_def by (cases i) auto
      moreover have "inc \<le> infos ! (i - 1)" using occupied_ge [OF ok, of "i - 1"] mid ed(2) ed(4) [of "i - 1"] by simp
      ultimately show ?thesis using mid md(3) [of i] md(3) [of "Suc i"] by auto
    next
      case last
      have "infos' ! Suc i = infos ! Suc i" using last ed(1) md(3) [of "Suc i"] by simp
      with old g last ed(3) pr(1) show ?thesis by simp
    qed
  qed
  have dist: "keys_distinct infos' kvs'"
    unfolding keys_distinct_def
  proof (intro allI impI)
    fix i j k' v w assume s: "stored infos' kvs' i k' v" "stored infos' kvs' j k' w"
    have old: "k' \<noteq> k \<and> stored infos kvs (if p < l \<and> l \<le> q then l - 1 else l) k' u"
      if "stored infos' kvs' l k' u" "l \<noteq> p" for l u
      using that absent unfolding st [of l] by (auto split: if_splits)
    show "i = j"
    proof (cases "i = p \<or> j = p")
      case True
      then have "k' = k" using s unfolding st [of i] st [of j] by (auto split: if_splits)
      then have "i = p" "j = p" using old [OF s(1)] old [OF s(2)] by blast+
      then show ?thesis by simp
    next
      case False
      then have "(if p < i \<and> i \<le> q then i - 1 else i) = (if p < j \<and> j \<le> q then j - 1 else j)"
        using old [OF s(1)] old [OF s(2)] slots_okD(6) [OF ok] unfolding keys_distinct_def by blast
      with False show ?thesis by (auto split: if_splits)
    qed
  qed
  show ?thesis using ok sent ent steps dist md(2) by (simp add: slots_ok_def)
qed

section \<open>Erasing\<close>

text \<open>The lists after the entry at \<open>p\<close> is gone and the slots after it, up to \<open>q\<close>, move down by one.\<close>

definition moved_down :: "nat \<Rightarrow> nat \<Rightarrow> nat \<Rightarrow> nat list \<Rightarrow> ('k \<times> 'v) option list
    \<Rightarrow> nat list \<Rightarrow> ('k \<times> 'v) option list \<Rightarrow> bool" where
  "moved_down inc p q infos kvs infos' kvs' \<longleftrightarrow>
     length infos' = length infos \<and> length kvs' = length kvs
     \<and> (\<forall>j. infos' ! j = (if j = q then 0 else if p \<le> j \<and> j < q then infos ! Suc j - inc else infos ! j))
     \<and> (\<forall>j. kvs' ! j = (if j = q then None else if p \<le> j \<and> j < q then kvs ! Suc j else kvs ! j))"

lemma moved_downD:
  assumes "moved_down inc p q infos kvs infos' kvs'"
  shows "length infos' = length infos" "length kvs' = length kvs"
    "infos' ! j = (if j = q then 0 else if p \<le> j \<and> j < q then infos ! Suc j - inc else infos ! j)"
    "kvs' ! j = (if j = q then None else if p \<le> j \<and> j < q then kvs ! Suc j else kvs ! j)"
  using assms unfolding moved_down_def by blast+

text \<open>The run of displaced entries behind \<open>p\<close> ends at \<open>q\<close>.\<close>

definition displaced_run :: "nat \<Rightarrow> nat list \<Rightarrow> ('k \<times> 'v) option list \<Rightarrow> nat \<Rightarrow> nat \<Rightarrow> bool" where
  "displaced_run inc infos kvs p q \<longleftrightarrow> p \<le> q \<and> q < length kvs \<and> infos ! Suc q < 2 * inc
     \<and> (\<forall>j. p \<le> j \<and> j < q \<longrightarrow> 2 * inc \<le> infos ! Suc j)"

lemma displaced_runD:
  assumes "displaced_run inc infos kvs p q"
  shows "p \<le> q" "q < length kvs" "infos ! Suc q < 2 * inc" "p \<le> j \<Longrightarrow> j < q \<Longrightarrow> 2 * inc \<le> infos ! Suc j"
  using assms unfolding displaced_run_def by blast+

lemma shiftDownLoop_run:
  "p < length kvs \<Longrightarrow> length infos = length kvs + 8
    \<Longrightarrow> \<forall>j. p < j \<and> j < length infos \<and> 2 * inc \<le> infos ! j \<longrightarrow> j < length kvs \<and> infos ! j \<le> 255
    \<Longrightarrow> \<exists>q infos' kvs'. shiftDownLoop inc infos kvs p = Some (infos', kvs')
      \<and> displaced_run inc infos kvs p q \<and> moved_down inc p q infos kvs infos' kvs'"
proof (induction "length kvs - p" arbitrary: infos kvs p rule: less_induct)
  case less
  note unf = shiftDownLoop.simps [of inc infos kvs p]
  show ?case
  proof (cases "2 * inc \<le> infos ! Suc p")
    case False
    have "moved_down inc p p infos kvs (infos[p := 0]) (kvs[p := None])"
      using less.prems(1,2) by (auto simp: moved_down_def nth_list_update)
    moreover have "displaced_run inc infos kvs p p" using False less.prems(1) by (simp add: displaced_run_def)
    ultimately show ?thesis using unf False less.prems(1,2) by auto
  next
    case True
    let ?i = "infos[p := infos ! Suc p - inc]" and ?k = "kvs[p := kvs ! Suc p]"
    from less.prems True have S: "Suc p < length kvs" "infos ! Suc p \<le> 255" by auto
    have rec: "shiftDownLoop inc infos kvs p = shiftDownLoop inc ?i ?k (Suc p)"
      using unf True S less.prems(2) by simp
    have pre: "Suc p < length ?k" "length ?i = length ?k + 8"
      "\<forall>j. Suc p < j \<and> j < length ?i \<and> 2 * inc \<le> ?i ! j \<longrightarrow> j < length ?k \<and> ?i ! j \<le> 255"
      using S less.prems by auto
    have "length ?k - Suc p < length kvs - p" using S by simp
    from less.hyps [OF this pre] obtain q infos' kvs' where
      ih: "shiftDownLoop inc ?i ?k (Suc p) = Some (infos', kvs')" "displaced_run inc ?i ?k (Suc p) q"
        "moved_down inc (Suc p) q ?i ?k infos' kvs'" by blast
    note r = displaced_runD [OF ih(2)] and m = moved_downD [OF ih(3)]
    have "displaced_run inc infos kvs p q"
      unfolding displaced_run_def
    proof (intro conjI allI impI)
      fix j assume j: "p \<le> j \<and> j < q"
      then show "2 * inc \<le> infos ! Suc j" using True r(4) [of j] by (cases "j = p") auto
    qed (use r in simp_all)
    moreover have "moved_down inc p q infos kvs infos' kvs'"
      unfolding moved_down_def
    proof (intro conjI allI)
      fix j
      show "infos' ! j = (if j = q then 0 else if p \<le> j \<and> j < q then infos ! Suc j - inc else infos ! j)"
        using r(1) m(3) [of j] S less.prems(2) by (cases "j = p") auto
      show "kvs' ! j = (if j = q then None else if p \<le> j \<and> j < q then kvs ! Suc j else kvs ! j)"
        using r(1) m(4) [of j] S by (cases "j = p") auto
    qed (use m(1,2) in simp_all)
    ultimately show ?thesis using ih(1) rec by auto
  qed
qed

lemma moved_down_stored:
  assumes m: "moved_down inc p q infos kvs infos' kvs'" and r: "displaced_run inc infos kvs p q" and i: "0 < inc"
  shows "stored infos' kvs' j k v \<longleftrightarrow>
    j \<noteq> q \<and> (if p \<le> j \<and> j < q then stored infos kvs (Suc j) k v else stored infos kvs j k v)"
proof -
  note r = displaced_runD [OF r] and m = moved_downD [OF m]
  show ?thesis
  proof (cases "p \<le> j \<and> j < q")
    case True
    from r(4) [of j] True i have "infos ! Suc j - inc \<noteq> 0" "infos ! Suc j \<noteq> 0" by auto
    with True r(1,2) m(2) m(3) [of j] m(4) [of j] show ?thesis by (auto simp: stored_def)
  next
    case False
    with r(1,2) m(2) m(3) [of j] m(4) [of j] show ?thesis by (auto simp: stored_def)
  qed
qed

lemma moved_down_occupied:
  assumes m: "moved_down inc p q infos kvs infos' kvs'" and r: "displaced_run inc infos kvs p q" and i: "0 < inc"
    and p: "infos ! p \<noteq> 0"
  shows "occupied infos' kvs' = occupied infos kvs - {q} \<and> q \<in> occupied infos kvs"
proof (intro conjI set_eqI)
  note r = displaced_runD [OF r] and m = moved_downD [OF m]
  have nz: "infos ! j \<noteq> 0" if "p \<le> j" "j \<le> q" for j
  proof (cases "j = p")
    case False
    then have "p \<le> j - 1" "j - 1 < q" "Suc (j - 1) = j" using that by linarith+
    with r(4) [of "j - 1"] i show ?thesis by simp
  qed (use p in simp)
  then show "q \<in> occupied infos kvs" using r(1,2) by (simp add: occupied_def)
  fix j
  show "j \<in> occupied infos' kvs' \<longleftrightarrow> j \<in> occupied infos kvs - {q}"
  proof (cases "p \<le> j \<and> j < q")
    case True
    from r(4) [of j] True i have "infos ! Suc j - inc \<noteq> 0" by auto
    with True r(2) nz [of j] m(2) m(3) [of j] show ?thesis by (auto simp: occupied_def)
  next
    case False
    with m(2) m(3) [of j] show ?thesis by (auto simp: occupied_def)
  qed
qed

lemma moved_down_slots_ok:
  assumes ok: "slots_ok hm ib inc n infos kvs" and r: "displaced_run inc infos kvs p q"
    and p: "infos ! p \<noteq> 0" and m: "moved_down inc p q infos kvs infos' kvs'"
  shows "slots_ok hm ib inc n infos' kvs'"
proof -
  note pr = probingD [OF slots_okD(1) [OF ok]]
  note rd = displaced_runD [OF r] and md = moved_downD [OF m]
  have i0: "0 < inc" using pr(1) by simp
  note st = moved_down_stored [OF m r i0]
  have sent: "sentinel_ok infos' kvs'"
    using slots_okD(3) [OF ok] rd(1,2) md(1,2) md(3) by (auto simp: sentinel_ok_def)
  have ent: "entries_ok hm ib inc infos' kvs'"
    unfolding entries_ok_def
  proof (intro allI impI)
    fix j assume j: "j < length kvs'" "infos' ! j \<noteq> 0"
    then have jq: "j \<noteq> q" using md(3) [of j] by auto
    show "\<exists>k v. kvs' ! j = Some (k, v) \<and> hm k \<le> j \<and> infos' ! j = ib k + inc * (j - hm k) \<and> infos' ! j \<le> 255"
    proof (cases "p \<le> j \<and> j < q")
      case True
      from rd(4) [of j] True have g: "2 * inc \<le> infos ! Suc j" by simp
      have l: "Suc j < length kvs" "infos ! Suc j \<noteq> 0" using True rd(2) g i0 by auto
      from entriesE [OF slots_okD(4) [OF ok] l] obtain k v where kv: "kvs ! Suc j = Some (k, v)"
        "hm k \<le> Suc j" "infos ! Suc j = ib k + inc * (Suc j - hm k)" "infos ! Suc j \<le> 255" by metis
      have "hm k \<noteq> Suc j" using kv(3) g pr(4) [of k] by auto
      then have "hm k \<le> j" "Suc j - hm k = Suc (j - hm k)" using kv(2) by auto
      with kv True jq md(3) [of j] md(4) [of j] show ?thesis by auto
    next
      case False
      with j jq md(2) md(3) [of j] md(4) [of j] slots_okD(4) [OF ok] show ?thesis by (auto simp: entries_ok_def)
    qed
  qed
  have steps: "steps_ok inc infos' kvs'"
    unfolding steps_ok_def
  proof (intro allI impI)
    fix i assume i: "Suc i < length kvs'" and g: "2 * inc \<le> infos' ! Suc i"
    have S: "infos ! Suc j \<le> infos ! j + inc" if "Suc j < length kvs" "2 * inc \<le> infos ! Suc j" for j
      using slots_okD(5) [OF ok] that by (auto simp: steps_ok_def)
    consider (out) "Suc i < p \<or> q < i" | (at) "Suc i = p" "p < q" | (mid) "p \<le> i" "Suc i < q" | (z) "Suc i = q" | (last) "i = q"
      using rd(1) by linarith
    then show "infos' ! Suc i \<le> infos' ! i + inc"
    proof cases
      case out
      then show ?thesis using S [of i] i g md(2) md(3) [of i] md(3) [of "Suc i"] rd(1) by auto
    next
      case at
      have e: "infos' ! Suc i = infos ! Suc p - inc" "infos' ! i = infos ! i"
        using at md(3) [of i] md(3) [of "Suc i"] by auto
      have "infos ! Suc p \<le> infos ! p + inc" using S [of p] rd(2) rd(4) [of p] at by simp
      with e g S [of i] at rd(1,2) show ?thesis by fastforce
    next
      case mid
      then have "infos ! Suc (Suc i) \<le> infos ! Suc i + inc" using S [of "Suc i"] rd(2) rd(4) [of "Suc i"] by simp
      with mid md(3) [of i] md(3) [of "Suc i"] show ?thesis by auto
    next
      case z
      then show ?thesis using g md(3) [of "Suc i"] i0 by simp
    next
      case last
      then show ?thesis using rd(1,3) g md(3) [of "Suc i"] by simp
    qed
  qed
  have dist: "keys_distinct infos' kvs'"
    unfolding keys_distinct_def
  proof (intro allI impI)
    fix i j k v w assume s: "stored infos' kvs' i k v" "stored infos' kvs' j k w"
    then have ne: "i \<noteq> q" "j \<noteq> q"
      and "stored infos kvs (if p \<le> i \<and> i < q then Suc i else i) k v"
        "stored infos kvs (if p \<le> j \<and> j < q then Suc j else j) k w"
      unfolding st [of i] st [of j] by (auto split: if_splits)
    then have "(if p \<le> i \<and> i < q then Suc i else i) = (if p \<le> j \<and> j < q then Suc j else j)"
      using slots_okD(6) [OF ok] unfolding keys_distinct_def by blast
    with ne show "i = j" by (auto split: if_splits)
  qed
  show ?thesis using ok sent ent steps dist md(2) by (simp add: slots_ok_def)
qed

end
