(* ===== verification/Robin_Table.thy ===== *)
theory Robin_Table
  imports Robin_Probe
begin

text \<open>
  The hash map as a whole: its invariant, the finite map it stands for, and what its operations do
  to that map.
\<close>

section \<open>Sizes\<close>

lemma calcMax_le: "calcMaxNumElementsAllowed n \<le> n"
  by (auto simp: calcMaxNumElementsAllowed_def)

lemma calcMax_pos: "8 \<le> n \<Longrightarrow> 0 < calcMaxNumElementsAllowed n"
  by (auto simp: calcMaxNumElementsAllowed_def)

lemma calcMax_double: "calcMaxNumElementsAllowed n \<le> calcMaxNumElementsAllowed (n * 2)"
  by (auto simp: calcMaxNumElementsAllowed_def)

section \<open>Home slots\<close>

definition home :: "('k \<Rightarrow> u64) \<Rightarrow> ('k, 'v) table \<Rightarrow> 'k \<Rightarrow> nat" where
  "home hash t k = fst (keyToIdx hash t k)"

definition home_info :: "('k \<Rightarrow> u64) \<Rightarrow> ('k, 'v) table \<Rightarrow> 'k \<Rightarrow> nat" where
  "home_info hash t k = snd (keyToIdx hash t k)"

lemma keyToIdx_home: "keyToIdx hash t k = (home hash t k, home_info hash t k)"
  by (simp add: home_def home_info_def)

definition same_hashing :: "('k, 'v) table \<Rightarrow> ('k, 'v) table \<Rightarrow> bool" where
  "same_hashing t u \<longleftrightarrow> mHashMultiplier t = mHashMultiplier u \<and> mMask t = mMask u
     \<and> mInfoInc t = mInfoInc u \<and> mInfoHashShift t = mInfoHashShift u"

lemma home_same:
  assumes "same_hashing t u"
  shows "home hash t = home hash u" "home_info hash t = home_info hash u"
  using assms by (auto simp: home_def home_info_def keyToIdx_def same_hashing_def Let_def)

lemma unat_and_le: "unat (x AND y :: 'a :: len word) \<le> unat y"
proof -
  have "x AND y \<le> y" by (rule word_and_le1)
  then show ?thesis by (simp add: word_le_nat_alt)
qed

lemma home_less: "home hash t k < mMask t + 1"
proof -
  have "unat (of_nat (mMask t) :: u64) \<le> mMask t" by (simp add: unat_of_nat)
  then show ?thesis using unat_and_le [of _ "of_nat (mMask t) :: u64"]
    by (simp add: home_def keyToIdx_def Let_def) (meson le_imp_less_Suc le_trans)
qed

definition hash_bits :: "('k \<Rightarrow> u64) \<Rightarrow> ('k, 'v) table \<Rightarrow> 'k \<Rightarrow> nat" where
  "hash_bits hash t k = (let h0 = hash k * mHashMultiplier t; h = h0 XOR drop_bit 33 h0 in unat (h AND InfoMask))"

lemma hash_bits_less: "hash_bits hash t k < 32"
proof -
  have "unat InfoMask = 31" by (simp add: InfoMask_def InitialInfoInc_def InitialInfoNumBits_def)
  moreover have "hash_bits hash t k \<le> unat InfoMask" by (simp add: hash_bits_def Let_def unat_and_le)
  ultimately show ?thesis by linarith
qed

lemma unat_drop_bit: "unat (drop_bit n w) = unat w div 2 ^ n"
  by (simp only: unat_drop_bit_eq drop_bit_eq_div [where 'a = nat])

lemma home_info_bits: "home_info hash t k = mInfoInc t + hash_bits hash t k div 2 ^ mInfoHashShift t"
  by (simp only: home_info_def keyToIdx_def hash_bits_def Let_def snd_conv unat_drop_bit)

lemma table_probing:
  assumes "mInfoInc t * 2 ^ mInfoHashShift t = 32" "2 \<le> mInfoInc t"
  shows "probing (home hash t) (home_info hash t) (mInfoInc t) (mMask t + 1)"
proof -
  have "hash_bits hash t k div 2 ^ mInfoHashShift t < mInfoInc t" for k
    by (rule less_mult_imp_div_less) (simp add: assms hash_bits_less)
  then show ?thesis using assms(2) home_less [of hash t] by (simp add: probing_def home_info_bits)
qed

section \<open>The invariant and the finite map\<close>

definition info_fits :: "('k, 'v) table \<Rightarrow> bool" where
  "info_fits t \<longleftrightarrow> (\<forall>j < length (mKeyVals t). mInfo t ! j + mInfoInc t \<le> 255)"

definition storage_inv :: "('k \<Rightarrow> u64) \<Rightarrow> ('k, 'v) table \<Rightarrow> bool" where
  "storage_inv hash t \<longleftrightarrow> 8 \<le> mMask t + 1 \<and> mInfoInc t * 2 ^ mInfoHashShift t = 32 \<and> 2 \<le> mInfoInc t
     \<and> length (mKeyVals t) = calcNumElementsWithBuffer (mMask t + 1)
     \<and> slots_ok (home hash t) (home_info hash t) (mInfoInc t) (mMask t + 1) (mInfo t) (mKeyVals t)
     \<and> mNumElements t = card (occupied (mInfo t) (mKeyVals t))
     \<and> mNumElements t \<le> calcMaxNumElementsAllowed (mMask t + 1)
     \<and> (mMaxNumElementsAllowed t = 0 \<or> mMaxNumElementsAllowed t = calcMaxNumElementsAllowed (mMask t + 1) \<and> info_fits t)"

definition no_storage :: "('k, 'v) table \<Rightarrow> bool" where
  "no_storage t \<longleftrightarrow> mMask t = 0 \<and> mKeyVals t = [] \<and> mInfo t = replicate 8 0 \<and> mNumElements t = 0
     \<and> mMaxNumElementsAllowed t = 0 \<and> mInfoInc t = InitialInfoInc \<and> mInfoHashShift t = InitialInfoHashShift"

definition table_inv :: "('k \<Rightarrow> u64) \<Rightarrow> ('k, 'v) table \<Rightarrow> bool" where
  "table_inv hash t \<longleftrightarrow> no_storage t \<or> storage_inv hash t"

definition live :: "(nat \<times> ('k \<times> 'v) option) list \<Rightarrow> ('k \<times> 'v) list" where
  "live xs = map (\<lambda>(b, kv). the kv) (filter (\<lambda>(b, kv). b \<noteq> 0) xs)"

definition table_map :: "('k, 'v) table \<Rightarrow> 'k \<Rightarrow> 'v option" where
  "table_map t = map_of (live (zip (mInfo t) (mKeyVals t)))"

lemma storage_invD:
  assumes "storage_inv hash t"
  shows "8 \<le> mMask t + 1" "mInfoInc t * 2 ^ mInfoHashShift t = 32" "2 \<le> mInfoInc t"
    "length (mKeyVals t) = calcNumElementsWithBuffer (mMask t + 1)"
    "slots_ok (home hash t) (home_info hash t) (mInfoInc t) (mMask t + 1) (mInfo t) (mKeyVals t)"
    "mNumElements t = card (occupied (mInfo t) (mKeyVals t))"
    "mNumElements t \<le> calcMaxNumElementsAllowed (mMask t + 1)"
    "mMaxNumElementsAllowed t \<noteq> 0 \<Longrightarrow> mMaxNumElementsAllowed t = calcMaxNumElementsAllowed (mMask t + 1) \<and> info_fits t"
  using assms unfolding storage_inv_def by auto

abbreviation stored_at :: "('k, 'v) table \<Rightarrow> nat \<Rightarrow> 'k \<Rightarrow> 'v \<Rightarrow> bool" where
  "stored_at t \<equiv> stored (mInfo t) (mKeyVals t)"

lemma live_zip:
  assumes "length kvs \<le> length infos"
  shows "live (zip infos kvs) = map (\<lambda>i. the (kvs ! i)) (filter (\<lambda>i. infos ! i \<noteq> 0) [0..<length kvs])"
proof -
  have "zip infos kvs = map (\<lambda>i. (infos ! i, kvs ! i)) [0..<length kvs]"
    using assms by (intro nth_equalityI) auto
  then show ?thesis by (simp add: live_def filter_map comp_def)
qed

lemma live_facts:
  assumes ok: "slots_ok hm ib inc n infos kvs"
  shows "set (live (zip infos kvs)) = {(k, v). \<exists>i. stored infos kvs i k v}"
    "distinct (map fst (live (zip infos kvs)))" "length (live (zip infos kvs)) = card (occupied infos kvs)"
proof -
  have len: "length kvs \<le> length infos" using sentinelD(1) [OF slots_okD(3) [OF ok]] by simp
  note lz = live_zip [OF len]
  have st: "stored infos kvs i (fst (the (kvs ! i))) (snd (the (kvs ! i)))"
    if "i < length kvs" "infos ! i \<noteq> 0" for i
    using entriesE [OF slots_okD(4) [OF ok] that] by (metis fst_conv option.sel snd_conv)
  have occ: "set (filter (\<lambda>i. infos ! i \<noteq> 0) [0..<length kvs]) = occupied infos kvs"
    by (auto simp: occupied_def)
  show "set (live (zip infos kvs)) = {(k, v). \<exists>i. stored infos kvs i k v}"
    unfolding lz using st by (fastforce simp: stored_def image_iff)
  have "inj_on (\<lambda>i. fst (the (kvs ! i))) (occupied infos kvs)"
  proof (rule inj_onI)
    fix i j assume "i \<in> occupied infos kvs" "j \<in> occupied infos kvs" "fst (the (kvs ! i)) = fst (the (kvs ! j))"
    then have "stored infos kvs i (fst (the (kvs ! j))) (snd (the (kvs ! i)))"
      "stored infos kvs j (fst (the (kvs ! j))) (snd (the (kvs ! j)))"
      using st [of i] st [of j] by (auto simp: occupied_def)
    with slots_okD(6) [OF ok] show "i = j" unfolding keys_distinct_def by blast
  qed
  then show "distinct (map fst (live (zip infos kvs)))"
    unfolding lz by (simp add: distinct_map comp_def occ [simplified])
  show "length (live (zip infos kvs)) = card (occupied infos kvs)"
    unfolding lz using distinct_card [of "filter (\<lambda>i. infos ! i \<noteq> 0) [0..<length kvs]"] occ by simp
qed

lemma table_map_stored:
  assumes "slots_ok hm ib inc n (mInfo t) (mKeyVals t)"
  shows "table_map t k = Some v \<longleftrightarrow> (\<exists>i. stored_at t i k v)"
  using live_facts(1,2) [OF assms] by (simp add: table_map_def)

lemma table_map_None:
  assumes "slots_ok hm ib inc n (mInfo t) (mKeyVals t)"
  shows "table_map t k = None \<longleftrightarrow> (\<forall>i v. \<not> stored_at t i k v)"
  using table_map_stored [OF assms, of k] by (metis not_None_eq)

lemma no_storage_map: "no_storage t \<Longrightarrow> table_map t = Map.empty"
  by (simp add: no_storage_def table_map_def live_def)

lemma table_inv_size:
  assumes "table_inv hash t"
  shows "mNumElements t = card (dom (table_map t))"
proof (cases "no_storage t")
  case True
  then show ?thesis by (simp add: no_storage_map) (simp add: no_storage_def)
next
  case False
  with assms have s: "storage_inv hash t" by (simp add: table_inv_def)
  note l = live_facts [OF storage_invD(5) [OF s]]
  have "card (dom (table_map t)) = card (set (map fst (live (zip (mInfo t) (mKeyVals t)))))"
    by (simp add: table_map_def dom_map_of_conv_image_fst)
  with l(2,3) storage_invD(6) [OF s] show ?thesis by (metis distinct_card length_map)
qed

section \<open>Lookup\<close>

lemma findIdx_found:
  assumes "table_inv hash t"
  shows "\<exists>idx. findIdx hash k t = Some idx
    \<and> (case table_map t k of Some v \<Rightarrow> stored_at t idx k v | None \<Rightarrow> idx = endIdx t)"
proof (cases "no_storage t")
  case True
  then have "home hash t k = 0" using home_less [of hash t k] by (simp add: no_storage_def)
  moreover have "home_info hash t k \<ge> 32"
    using True by (simp add: home_info_bits no_storage_def InitialInfoInc_def InitialInfoNumBits_def)
  ultimately show ?thesis using True
    by (auto simp: findIdx_def keyToIdx_home no_storage_map findLoop.simps entry_matches_def endIdx_def
        no_storage_def InitialInfoInc_def InitialInfoNumBits_def)
next
  case False
  with assms have s: "storage_inv hash t" by (simp add: table_inv_def)
  note ok = storage_invD(5) [OF s]
  have "home hash t k < length (mKeyVals t) + 1"
    using home_less [of hash t k] slots_okD(2) [OF ok] by simp
  moreover have "\<forall>j v. stored_at t j k v \<longrightarrow> home hash t k \<le> j" using stored_info(2) [OF ok] by blast
  ultimately obtain r where r: "findLoop (mInfoInc t) (mInfo t) (mKeyVals t) k (home_info hash t k) (home hash t k) = Some r"
    "case r of Some j \<Rightarrow> \<exists>v. stored_at t j k v | None \<Rightarrow> \<forall>j v. \<not> stored_at t j k v"
    using findLoop_stored [OF ok order_refl, of k] by auto
  show ?thesis
  proof (cases r)
    case None
    then show ?thesis using r table_map_None [OF ok, of k] by (simp add: findIdx_def keyToIdx_home)
  next
    case (Some j)
    then obtain v where v: "stored_at t j k v" using r by auto
    then have "table_map t k = Some v" using table_map_stored [OF ok] by blast
    then show ?thesis using r(1) Some v by (simp add: findIdx_def keyToIdx_home)
  qed
qed

lemma option_eqI: "(\<And>v. a = Some v \<longleftrightarrow> b = Some v) \<Longrightarrow> a = b"
  by (cases a; cases b) auto

section \<open>Placing a new entry\<close>

text \<open>What a state after the insertion of an entry at slot \<open>p\<close> is.\<close>

definition placed :: "('k \<Rightarrow> u64) \<Rightarrow> nat \<Rightarrow> 'k \<Rightarrow> 'v \<Rightarrow> ('k, 'v) table \<Rightarrow> ('k, 'v) table \<Rightarrow> bool" where
  "placed hash p k v t u \<longleftrightarrow> storage_inv hash u \<and> mMask u = mMask t \<and> mNumElements u = mNumElements t + 1
     \<and> table_map u = (table_map t)(k \<mapsto> v) \<and> stored_at u p k v"

lemma table_room:
  assumes s: "storage_inv hash t"
  shows "card (occupied (mInfo t) (mKeyVals t)) \<le> length (mKeyVals t) - (mMask t + 1)
    \<or> mMask t + 1 + 255 \<le> length (mKeyVals t)"
  using storage_invD(4,6,7) [OF s] by (auto simp: calcNumElementsWithBuffer_def min_def)

lemma new_info_fits:
  assumes s: "storage_inv hash t" and fit: "info_fits t"
    and p: "insertion_point (home hash t) (home_info hash t) (mInfoInc t) (mInfo t) (mKeyVals t) k p"
  shows "probe_info (home hash t) (home_info hash t) (mInfoInc t) k p \<le> 255"
proof (cases "p = home hash t k")
  case True
  have "mInfoInc t \<le> 32" using storage_invD(2) [OF s] by (metis dvd_imp_le dvd_triv_left zero_less_numeral)
  moreover have "home_info hash t k < 2 * mInfoInc t" by (rule probingD(4) [OF slots_okD(1) [OF storage_invD(5) [OF s]]])
  ultimately show ?thesis using True by simp
next
  case False
  with p obtain q where q: "p = Suc q" "home hash t k \<le> q" by (cases p) (auto simp: insertion_point_def)
  with p have "probe_info (home hash t) (home_info hash t) (mInfoInc t) k q \<le> mInfo t ! q" "q < length (mKeyVals t)"
    by (auto simp: insertion_point_def)
  with fit q show ?thesis by (fastforce simp: info_fits_def)
qed

text \<open>What \<open>openSpot\<close> leaves in the arrays, once the new entry is put at \<open>p\<close>.\<close>

lemma openSpot_lists:
  assumes s: "storage_inv hash t" and fit: "info_fits t" and e: "empty_slot (mInfo t) (mKeyVals t) p e"
    and next_e: "nextEmpty (mInfo t) p = Some e" and info: "info \<le> 255"
  shows "\<exists>u. openSpot info p t = Some (e, u) \<and> same_hashing u t \<and> mNumElements u = mNumElements t + 1
    \<and> moved_up (mInfoInc t) info p e (k, v) (mInfo t) (mKeyVals t) (mInfo u) ((mKeyVals u)[p := Some (k, v)])
    \<and> (mMaxNumElementsAllowed u \<noteq> 0 \<longrightarrow> mMaxNumElementsAllowed u = mMaxNumElementsAllowed t
        \<and> (\<forall>j < length (mKeyVals t). mInfo u ! j + mInfoInc t \<le> 255))"
proof -
  note ok = storage_invD(5) [OF s]
  note len = sentinelD(1) [OF slots_okD(3) [OF ok]]
  note ed = empty_slotD [OF e]
  have im: "info mod 256 = info" using info by simp
  show ?thesis
  proof (cases "e = p")
    case True
    have "moved_up (mInfoInc t) info p e (k, v) (mInfo t) (mKeyVals t) ((mInfo t)[p := info]) ((mKeyVals t)[p := Some (k, v)])"
      using True ed(2) len by (auto simp: moved_up_def nth_list_update)
    with True next_e ed(2) im fit len show ?thesis
      by (auto simp: openSpot_def Let_def same_hashing_def info_fits_def nth_list_update)
  next
    case False
    then have pe: "p < e" using ed(1) by simp
    have le: "e < length (mInfo t)" using ed(2) len by simp
    have "\<forall>j. p \<le> j \<and> j < e \<longrightarrow> mInfo t ! j + mInfoInc t \<le> 255" using fit ed(2) by (auto simp: info_fits_def)
    from shiftUpInfo_nth [OF le this, of False] obtain infos' where i:
      "shiftUpInfo (mInfoInc t) (mInfo t) e p False
        = (infos', \<exists>j. p \<le> j \<and> j < e \<and> mInfo t ! j + mInfoInc t + mInfoInc t > 255)"
      "length infos' = length (mInfo t)"
      "\<forall>j. infos' ! j = (if p < j \<and> j \<le> e then mInfo t ! (j - 1) + mInfoInc t else mInfo t ! j)" by auto
    note n = shiftUpNodes_nth [OF ed(2), of p]
    define full where "full \<longleftrightarrow> (\<exists>j. p \<le> j \<and> j < e \<and> mInfo t ! j + mInfoInc t + mInfoInc t > 255)"
    define u where "u = t\<lparr> mMaxNumElementsAllowed :=
         (if full then 0
          else if info + mInfoInc t > 255 then 0 else mMaxNumElementsAllowed t),
       mKeyVals := shiftUpNodes (mKeyVals t) e p, mInfo := infos'[p := info], mNumElements := mNumElements t + 1 \<rparr>"
    have "openSpot info p t = Some (e, u)"
      using False next_e ed(2) pe im i(1) [folded full_def]
      by (cases full; cases "info + mInfoInc t > 255") (simp_all add: openSpot_def Let_def shiftUp_def u_def)
    moreover have "moved_up (mInfoInc t) info p e (k, v) (mInfo t) (mKeyVals t) (mInfo u) ((mKeyVals u)[p := Some (k, v)])"
      unfolding moved_up_def using i(2,3) n pe le ed(2) by (simp add: u_def nth_list_update)
    moreover have "mInfo u ! j + mInfoInc t \<le> 255" if "mMaxNumElementsAllowed u \<noteq> 0" "j < length (mKeyVals t)" for j
    proof -
      have c: "\<not> (\<exists>j. p \<le> j \<and> j < e \<and> mInfo t ! j + mInfoInc t + mInfoInc t > 255)" "info + mInfoInc t \<le> 255"
        using that(1) by (auto simp: u_def full_def split: if_splits)
      have uj: "mInfo u ! j = (if j = p then info else if p < j \<and> j \<le> e then mInfo t ! (j - 1) + mInfoInc t else mInfo t ! j)"
        using i(2,3) pe le by (simp add: u_def nth_list_update)
      show ?thesis
      proof (cases "p < j \<and> j \<le> e")
        case True
        then have "p \<le> j - 1" "j - 1 < e" by linarith+
        with c(1) have "mInfo t ! (j - 1) + mInfoInc t + mInfoInc t \<le> 255" by (meson linorder_not_le)
        with True uj show ?thesis by simp
      next
        case False
        with uj c(2) fit that(2) show ?thesis by (auto simp: info_fits_def)
      qed
    qed
    ultimately show ?thesis by (intro exI [of _ u]) (simp add: u_def same_hashing_def)
  qed
qed

lemma openSpot_placed:
  assumes s: "storage_inv hash t" and max: "mMaxNumElementsAllowed t \<noteq> 0"
    and num: "mNumElements t < calcMaxNumElementsAllowed (mMask t + 1)"
    and p: "insertion_point (home hash t) (home_info hash t) (mInfoInc t) (mInfo t) (mKeyVals t) k p"
    and absent: "\<forall>j v. \<not> stored_at t j k v"
    and info: "info = probe_info (home hash t) (home_info hash t) (mInfoInc t) k p"
  shows "\<exists>e u. openSpot info p t = Some (e, u) \<and> (\<forall>v. placed hash p k v t (putNode p k v u))"
proof -
  note ok = storage_invD(5) [OF s]
  have fit: "info_fits t" and max': "mMaxNumElementsAllowed t = calcMaxNumElementsAllowed (mMask t + 1)"
    using storage_invD(8) [OF s max] by auto
  from room [OF ok p table_room [OF s]] obtain e where e:
    "nextEmpty (mInfo t) p = Some e" "empty_slot (mInfo t) (mKeyVals t) p e"
    by (auto simp: empty_slot_def)
  have le: "info \<le> 255" using new_info_fits [OF s fit p] info by simp
  have ge: "info \<noteq> 0" using probingD(1,3) [OF slots_okD(1) [OF ok]] info
    by (metis add_is_0 le_zero_eq not_numeral_le_zero probe_info_def)
  from openSpot_lists [OF s fit e(2,1) le] obtain u where u: "openSpot info p t = Some (e, u)" by blast
  have "placed hash p k v t (putNode p k v u)" for v
  proof -
    let ?w = "putNode p k v u"
    from openSpot_lists [OF s fit e(2,1) le, of k v] u have w: "same_hashing ?w t" "mNumElements ?w = mNumElements t + 1"
      "moved_up (mInfoInc t) info p e (k, v) (mInfo t) (mKeyVals t) (mInfo ?w) (mKeyVals ?w)"
      "mMaxNumElementsAllowed ?w \<noteq> 0 \<Longrightarrow> mMaxNumElementsAllowed ?w = mMaxNumElementsAllowed t
        \<and> (\<forall>j < length (mKeyVals t). mInfo ?w ! j + mInfoInc t \<le> 255)"
      by (auto simp: putNode_def same_hashing_def)
    have ok': "slots_ok (home hash t) (home_info hash t) (mInfoInc t) (mMask t + 1) (mInfo ?w) (mKeyVals ?w)"
      by (rule moved_up_slots_ok [OF ok p absent e(2) _ info le w(3)]) (use fit in \<open>simp add: info_fits_def\<close>)
    note st = moved_up_stored [OF w(3) e(2) ge]
    have "card (occupied (mInfo ?w) (mKeyVals ?w)) = card (occupied (mInfo t) (mKeyVals t)) + 1"
      unfolding moved_up_occupied [OF w(3) e(2) ge] using empty_slotD(3) [OF e(2)] by (simp add: occupied_def)
    then have "storage_inv hash ?w"
      using w(1,2,4) ok' home_same [OF w(1), of hash] storage_invD [OF s] num max' moved_upD(2) [OF w(3)]
      unfolding storage_inv_def by (auto simp: same_hashing_def info_fits_def)
    moreover have "stored_at ?w p k v" using st [of p k v] by simp
    moreover have "table_map ?w = (table_map t)(k \<mapsto> v)"
    proof (rule ext)
      fix k'
      show "table_map ?w k' = ((table_map t)(k \<mapsto> v)) k'"
      proof (cases "k' = k")
        case True
        then show ?thesis using table_map_stored [OF ok'] \<open>stored_at ?w p k v\<close> by auto
      next
        case False
        have "(\<exists>i. stored_at ?w i k' v') \<longleftrightarrow> (\<exists>i. stored_at t i k' v')" for v'
        proof
          assume "\<exists>i. stored_at ?w i k' v'"
          then show "\<exists>i. stored_at t i k' v'" using False st by (metis (full_types))
        next
          assume "\<exists>i. stored_at t i k' v'"
          then obtain i where i: "stored_at t i k' v'" by blast
          show "\<exists>i. stored_at ?w i k' v'"
          proof (cases "p \<le> i \<and> i < e")
            case True
            then show ?thesis using i st [of "Suc i" k' v'] by (intro exI [of _ "Suc i"]) simp
          next
            case no: False
            have "i \<noteq> e" using i empty_slotD(3) [OF e(2)] by (auto simp: stored_def)
            with no have "i < p \<or> e < i" by linarith
            with i st [of i k' v'] empty_slotD(1) [OF e(2)] show ?thesis by (intro exI [of _ i]) auto
          qed
        qed
        then have "table_map ?w k' = Some v' \<longleftrightarrow> table_map t k' = Some v'" for v'
          unfolding table_map_stored [OF ok'] table_map_stored [OF ok] by blast
        then have "table_map ?w k' = table_map t k'" by (rule option_eqI)
        then show ?thesis using False by simp
      qed
    qed
    ultimately show ?thesis using w(1,2) by (simp add: placed_def same_hashing_def)
  qed
  with u show ?thesis by blast
qed

section \<open>Fresh storage\<close>

lemma initData_inv:
  assumes n: "8 \<le> n"
  shows "storage_inv hash (initData n t)" "table_map (initData n t) = Map.empty"
    "mMask (initData n t) = n - 1" "mNumElements (initData n t) = 0"
proof -
  let ?u = "initData n t" and ?b = "calcNumElementsWithBuffer n"
  have u: "mMask ?u = n - 1" "mKeyVals ?u = replicate ?b None" "mInfo ?u = (replicate (?b + 8) 0)[?b := 1]"
    "mNumElements ?u = 0" "mInfoInc ?u = 32" "mInfoHashShift ?u = 0"
    "mMaxNumElementsAllowed ?u = calcMaxNumElementsAllowed n"
    by (simp_all add: initData_def Let_def calcNumBytesInfo_def InitialInfoInc_def InitialInfoNumBits_def
        InitialInfoHashShift_def)
  have z: "mInfo ?u ! i = 0" if "i < ?b" for i using that u by simp
  have o: "occupied (mInfo ?u) (mKeyVals ?u) = {}" using z u(2) by (auto simp: occupied_def)
  have "slots_ok (home hash ?u) (home_info hash ?u) (mInfoInc ?u) (mMask ?u + 1) (mInfo ?u) (mKeyVals ?u)"
    unfolding slots_ok_def
  proof (intro conjI)
    show "probing (home hash ?u) (home_info hash ?u) (mInfoInc ?u) (mMask ?u + 1)"
      by (rule table_probing) (simp_all add: u)
    show "mMask ?u + 1 \<le> length (mKeyVals ?u)" using n by (simp add: u calcNumElementsWithBuffer_def)
    show "sentinel_ok (mInfo ?u) (mKeyVals ?u)" by (simp add: sentinel_ok_def u)
    show "entries_ok (home hash ?u) (home_info hash ?u) (mInfoInc ?u) (mInfo ?u) (mKeyVals ?u)"
      using z u(2) by (simp add: entries_ok_def)
    show "steps_ok (mInfoInc ?u) (mInfo ?u) (mKeyVals ?u)" using z u(2,5) by (simp add: steps_ok_def)
    show "keys_distinct (mInfo ?u) (mKeyVals ?u)" using z u(2) by (auto simp: keys_distinct_def stored_def)
  qed
  then show i: "storage_inv hash ?u"
    using n o z by (simp add: storage_inv_def u info_fits_def)
  show "table_map ?u = Map.empty"
  proof
    fix k
    show "table_map ?u k = None"
      unfolding table_map_None [OF storage_invD(5) [OF i]] using z u(2) by (auto simp: stored_def)
  qed
  show "mMask ?u = n - 1" "mNumElements ?u = 0" by (simp_all add: u)
qed

section \<open>Halving the info values\<close>

lemma halveInfo_nth:
  "i < length infos \<Longrightarrow> halveInfo b infos ! i = (if i < 8 * ((b + 7) div 8) then infos ! i div 2 else infos ! i)"
  by (simp add: halveInfo_def)

lemma block_covers: "(i :: nat) < b \<Longrightarrow> i < 8 * ((b + 7) div 8)"
  by presburger

lemma power_of_two_even:
  assumes "a * 2 ^ s = (32 :: nat)" "2 < a"
  shows "a = 2 * (a div 2)" "2 \<le> a div 2" "(a div 2) * 2 ^ (s + 1) = 32"
proof -
  have "s \<le> 5"
  proof (rule ccontr)
    assume "\<not> s \<le> 5"
    then have "(2 :: nat) ^ 6 \<le> 2 ^ s" by (intro power_increasing) auto
    moreover have "2 ^ s \<le> a * 2 ^ s" using assms(2) by simp
    ultimately show False using assms(1) by simp
  qed
  then have "s \<in> {0, 1, 2, 3, 4, 5}" by auto
  then have "a = 32 \<and> s = 0 \<or> a = 16 \<and> s = 1 \<or> a = 8 \<and> s = 2 \<or> a = 4 \<and> s = 3" using assms by auto
  then show "a = 2 * (a div 2)" "2 \<le> a div 2" "(a div 2) * 2 ^ (s + 1) = 32" by auto
qed

lemma try_increase_info_ok:
  assumes s: "storage_inv hash t" and inc: "2 < mInfoInc t"
  shows "\<exists>u. try_increase_info t = Some u \<and> storage_inv hash u \<and> table_map u = table_map t
    \<and> mMask u = mMask t \<and> mNumElements u = mNumElements t
    \<and> mMaxNumElementsAllowed u = calcMaxNumElementsAllowed (mMask t + 1)"
proof -
  let ?b = "calcNumElementsWithBuffer (mMask t + 1)"
  define u where "u = t\<lparr> mInfoInc := mInfoInc t div 2, mInfoHashShift := mInfoHashShift t + 1,
                       mInfo := (halveInfo ?b (mInfo t))[?b := 1],
                       mMaxNumElementsAllowed := calcMaxNumElementsAllowed (mMask t + 1) \<rparr>"
  have t: "try_increase_info t = Some u" using inc by (simp add: try_increase_info_def u_def Let_def)
  note ok = storage_invD(5) [OF s]
  note sd = sentinelD [OF slots_okD(3) [OF ok]]
  note pw = power_of_two_even [OF storage_invD(2) [OF s] inc]
  have f: "mKeyVals u = mKeyVals t" "mMask u = mMask t" "mInfoInc u = mInfoInc t div 2" by (simp_all add: u_def)
  have L: "length (mKeyVals t) = ?b" by (rule storage_invD(4) [OF s])
  have nth: "mInfo u ! i = mInfo t ! i div 2" if "i < ?b" for i
    using that sd(1) L block_covers [OF that] by (simp add: u_def halveInfo_nth)
  have nz: "mInfo u ! i \<noteq> 0 \<longleftrightarrow> mInfo t ! i \<noteq> 0" if "i < ?b" for i
    using nth [OF that] occupied_ge [OF ok, of i] that L inc by auto
  have st: "stored_at u = stored_at t"
    using nz by (intro ext) (auto simp: stored_def f L)
  have h: "home hash u = home hash t" by (rule ext) (simp add: home_def keyToIdx_def u_def Let_def)
  have hb: "hash_bits hash u = hash_bits hash t" by (rule ext) (simp add: hash_bits_def u_def)
  have hi: "home_info hash u k = home_info hash t k div 2" for k
  proof -
    have "(2 * a + y) div 2 = a + y div 2" for a y :: nat by simp
    from this [of "mInfoInc t div 2" "hash_bits hash t k div 2 ^ mInfoHashShift t"] pw(1)
    show ?thesis by (simp add: home_info_bits hb) (simp add: u_def div_mult2_eq [symmetric] mult.commute)
  qed
  have prob: "probing (home hash u) (home_info hash u) (mInfoInc u) (mMask u + 1)"
    by (rule table_probing) (use pw in \<open>simp_all add: u_def\<close>)
  have half: "(x + mInfoInc t * d) div 2 = x div 2 + mInfoInc u * d" for x d
  proof -
    have d2: "mInfoInc t * d = 2 * (mInfoInc u * d)" using pw(1) f(3) by (metis mult.assoc)
    show ?thesis unfolding d2 by simp
  qed
  have ok': "slots_ok (home hash u) (home_info hash u) (mInfoInc u) (mMask u + 1) (mInfo u) (mKeyVals u)"
    unfolding slots_ok_def
  proof (intro conjI)
    show "mMask u + 1 \<le> length (mKeyVals u)" using slots_okD(2) [OF ok] f by simp
    have "mInfo u ! i = 0" if "?b < i" "i < ?b + 8" for i
      using that sd(1) sd(3) [of i] L by (simp add: u_def halveInfo_nth)
    then show "sentinel_ok (mInfo u) (mKeyVals u)"
      using sd(1) L by (simp add: sentinel_ok_def f) (simp add: u_def halveInfo_def)
    show "entries_ok (home hash u) (home_info hash u) (mInfoInc u) (mInfo u) (mKeyVals u)"
      unfolding entries_ok_def f L
    proof (intro allI impI)
      fix i assume i: "i < ?b" "mInfo u ! i \<noteq> 0"
      then have "i < length (mKeyVals t)" "mInfo t ! i \<noteq> 0" using nz L by auto
      from entriesE [OF slots_okD(4) [OF ok] this] obtain k v where kv: "mKeyVals t ! i = Some (k, v)"
        "home hash t k \<le> i" "mInfo t ! i = home_info hash t k + mInfoInc t * (i - home hash t k)" "mInfo t ! i \<le> 255"
        by metis
      have "mInfo u ! i = home_info hash t k div 2 + mInfoInc t div 2 * (i - home hash t k)"
        unfolding nth [OF i(1)] kv(3) half f(3) ..
      moreover have "mInfo u ! i \<le> 255" using nth [OF i(1)] kv(4) by linarith
      ultimately show "\<exists>k v. mKeyVals t ! i = Some (k, v) \<and> home hash u k \<le> i
          \<and> mInfo u ! i = home_info hash u k + mInfoInc t div 2 * (i - home hash u k) \<and> mInfo u ! i \<le> 255"
        using kv(1,2) by (simp add: h hi)
    qed
    show "steps_ok (mInfoInc u) (mInfo u) (mKeyVals u)"
      unfolding steps_ok_def f L
    proof (intro allI impI)
      fix i assume i: "Suc i < ?b" "2 * (mInfoInc t div 2) \<le> mInfo u ! Suc i"
      have "2 * mInfoInc t \<le> mInfo t ! Suc i" using i nth [OF i(1)] pw(1) by linarith
      with slots_okD(5) [OF ok] i(1) L have "mInfo t ! Suc i \<le> mInfo t ! i + mInfoInc t" by (simp add: steps_ok_def)
      then show "mInfo u ! Suc i \<le> mInfo u ! i + mInfoInc t div 2"
        using nth [of i] nth [of "Suc i"] i(1) pw(1) by simp
    qed
    show "keys_distinct (mInfo u) (mKeyVals u)" using slots_okD(6) [OF ok] unfolding keys_distinct_def st .
  qed (rule prob)
  have "occupied (mInfo u) (mKeyVals u) = occupied (mInfo t) (mKeyVals t)" using nz by (auto simp: occupied_def f L)
  moreover have "info_fits u"
    unfolding info_fits_def
  proof (intro allI impI)
    fix j assume j: "j < length (mKeyVals u)"
    have "mInfo t ! j \<le> 255" using j f slots_okD(4) [OF ok] unfolding entries_ok_def
      by (cases "mInfo t ! j = 0") auto
    moreover have "mInfoInc t \<le> 32" using storage_invD(2) [OF s] by (metis dvd_imp_le dvd_triv_left zero_less_numeral)
    ultimately show "mInfo u ! j + mInfoInc u \<le> 255" using j f nth [of j] L by simp
  qed
  ultimately have "storage_inv hash u"
    using storage_invD [OF s] ok' pw by (simp add: storage_inv_def f) (simp add: u_def)
  moreover have "table_map u = table_map t"
    by (intro ext option_eqI) (simp add: table_map_stored [OF ok'] table_map_stored [OF ok] st)
  ultimately show ?thesis using t by (simp add: u_def)
qed

section \<open>Growing\<close>

text \<open>An outcome that is an exception or a result with a property.\<close>

definition throws_or :: "('a \<Rightarrow> bool) \<Rightarrow> 'a outcome \<Rightarrow> bool" where
  "throws_or P r \<longleftrightarrow> r = Throws \<or> (\<exists>x. r = Done x \<and> P x)"

lemma throws_or_simps [simp]:
  "throws_or P Throws" "throws_or P (Done x) \<longleftrightarrow> P x" "\<not> throws_or P Undefined"
  by (auto simp: throws_or_def)

lemma throws_or_and_then:
  "throws_or P r \<Longrightarrow> (\<And>x. P x \<Longrightarrow> throws_or Q (f x)) \<Longrightarrow> throws_or Q (and_then r f)"
  by (cases r) auto

lemma throws_or_mono: "throws_or P r \<Longrightarrow> (\<And>x. P x \<Longrightarrow> Q x) \<Longrightarrow> throws_or Q r"
  by (auto simp: throws_or_def)

text \<open>The part of \<open>insert_move\<close> behind the look at the limit.\<close>

definition insert_at_spot :: "('k \<Rightarrow> u64) \<Rightarrow> 'k \<times> 'v \<Rightarrow> ('k, 'v) table \<Rightarrow> ('k, 'v) table outcome" where
  "insert_at_spot hash keyval t =
     (let (idx, info) = keyToIdx hash t (fst keyval) in
      defined (do {
        (info1, insertion_idx) \<leftarrow> nextWhileLessEq (mInfoInc t) (mInfo t) info idx;
        (e, t2) \<leftarrow> openSpot (info1 mod 256) insertion_idx t;
        Some (putNode insertion_idx (fst keyval) (snd keyval) t2)
      }))"

lemma insert_move_spot:
  "insert_move hash kv t =
     (if mMaxNumElementsAllowed t = 0
      then (case try_increase_info t of Some t1 \<Rightarrow> insert_at_spot hash kv t1 | None \<Rightarrow> Throws)
      else insert_at_spot hash kv t)"
  by (simp add: insert_move_def insert_at_spot_def Let_def split: option.splits)

lemma insert_at_spot_ok:
  assumes s: "storage_inv hash t" "mMaxNumElementsAllowed t \<noteq> 0"
    and num: "mNumElements t < calcMaxNumElementsAllowed (mMask t + 1)" and absent: "table_map t k = None"
  shows "\<exists>p e u. insert_at_spot hash (k, v) t = Done (putNode p k v u) \<and> placed hash p k v t (putNode p k v u)
    \<and> insertion_point (home hash t) (home_info hash t) (mInfoInc t) (mInfo t) (mKeyVals t) k p
    \<and> openSpot (probe_info (home hash t) (home_info hash t) (mInfoInc t) k p) p t = Some (e, u)"
proof -
  note ok = storage_invD(5) [OF s(1)]
  have le: "home hash t k \<le> length (mKeyVals t)" using home_less [of hash t k] slots_okD(2) [OF ok] by simp
  from nextWhileLessEq_probe [OF ok order_refl le] obtain p where p:
    "nextWhileLessEq (mInfoInc t) (mInfo t) (home_info hash t k) (home hash t k)
      = Some (probe_info (home hash t) (home_info hash t) (mInfoInc t) k p, p)"
    "insertion_point (home hash t) (home_info hash t) (mInfoInc t) (mInfo t) (mKeyVals t) k p"
    by (auto simp: insertion_point_def)
  have "\<forall>j v. \<not> stored_at t j k v" using absent table_map_None [OF ok, of k] by simp
  from openSpot_placed [OF s num p(2) this refl] obtain e u where u:
    "openSpot (probe_info (home hash t) (home_info hash t) (mInfoInc t) k p) p t = Some (e, u)"
    "placed hash p k v t (putNode p k v u)" by auto
  moreover have "probe_info (home hash t) (home_info hash t) (mInfoInc t) k p mod 256
      = probe_info (home hash t) (home_info hash t) (mInfoInc t) k p"
    using new_info_fits [OF s(1) _ p(2)] storage_invD(8) [OF s] by simp
  ultimately have "insert_at_spot hash (k, v) t = Done (putNode p k v u)"
    using p(1) by (simp add: insert_at_spot_def keyToIdx_home defined_def)
  with u p(2) show ?thesis by blast
qed

lemma insert_move_ok:
  assumes s: "storage_inv hash t" and num: "mNumElements t < calcMaxNumElementsAllowed (mMask t + 1)"
    and absent: "table_map t k = None"
  shows "throws_or (\<lambda>u. \<exists>p. placed hash p k v t u) (insert_move hash (k, v) t)"
proof -
  show ?thesis
  proof (cases "mMaxNumElementsAllowed t = 0")
    case False
    with insert_at_spot_ok [OF s False num absent, of v] show ?thesis by (auto simp: insert_move_spot)
  next
    case True
    show ?thesis
    proof (cases "2 < mInfoInc t")
      case False
      then show ?thesis using True by (simp add: insert_move_spot try_increase_info_def)
    next
      case inc: True
      from try_increase_info_ok [OF s inc] obtain t1 where t1: "try_increase_info t = Some t1" "storage_inv hash t1"
        "table_map t1 = table_map t" "mMask t1 = mMask t" "mNumElements t1 = mNumElements t"
        "mMaxNumElementsAllowed t1 = calcMaxNumElementsAllowed (mMask t + 1)" by blast
      have "mMaxNumElementsAllowed t1 \<noteq> 0" using t1(6) num by simp
      from insert_at_spot_ok [OF t1(2) this] num absent t1(3-5) obtain p u where
        "insert_at_spot hash (k, v) t1 = Done (putNode p k v u)" "placed hash p k v t1 (putNode p k v u)" by metis
      with True t1(1,3-5) show ?thesis by (auto simp: insert_move_spot placed_def)
    qed
  qed
qed

lemma live_simps [simp]:
  "live [] = []" "live ((b, kv) # xs) = (if b = 0 then live xs else the kv # live xs)"
  by (simp_all add: live_def)

lemma moveNodes_ok:
  assumes "storage_inv hash t" "\<forall>(b, kv) \<in> set xs. b \<noteq> 0 \<longrightarrow> kv \<noteq> None" "distinct (map fst (live xs))"
    and "\<forall>k \<in> fst ` set (live xs). table_map t k = None"
    and "mNumElements t + length (live xs) \<le> calcMaxNumElementsAllowed (mMask t + 1)"
  shows "throws_or (\<lambda>u. storage_inv hash u \<and> mMask u = mMask t \<and> table_map u = table_map t ++ map_of (live xs))
    (moveNodes hash xs t)"
  using assms
proof (induction xs arbitrary: t)
  case Nil
  then show ?case by simp
next
  case (Cons x xs)
  obtain b kv where x: "x = (b, kv)" by (cases x)
  show ?case
  proof (cases "b = 0")
    case True
    with Cons.IH [OF Cons.prems(1)] Cons.prems(2-5) x show ?thesis by simp
  next
    case False
    with Cons.prems(2) x obtain k v where kv: "kv = Some (k, v)" by auto
    have "throws_or (\<lambda>u. \<exists>p. placed hash p k v t u) (insert_move hash (k, v) t)"
      by (rule insert_move_ok [OF Cons.prems(1)]) (use Cons.prems(4,5) x kv False in auto)
    then have "throws_or (\<lambda>u. storage_inv hash u \<and> mMask u = mMask t \<and> table_map u = table_map t ++ map_of (live (x # xs)))
        (and_then (insert_move hash (k, v) t) (moveNodes hash xs))"
    proof (rule throws_or_and_then)
      fix u assume "\<exists>p. placed hash p k v t u"
      then have u: "storage_inv hash u" "mMask u = mMask t" "mNumElements u = mNumElements t + 1"
        "table_map u = (table_map t)(k \<mapsto> v)" by (auto simp: placed_def)
      have d: "k \<notin> fst ` set (live xs)" "distinct (map fst (live xs))" using Cons.prems(3) x kv False by auto
      have "throws_or (\<lambda>w. storage_inv hash w \<and> mMask w = mMask u \<and> table_map w = table_map u ++ map_of (live xs))
          (moveNodes hash xs u)"
        by (rule Cons.IH [OF u(1) _ d(2)]) (use Cons.prems(2,4,5) x kv False d u in auto)
      then show "throws_or (\<lambda>w. storage_inv hash w \<and> mMask w = mMask t
          \<and> table_map w = table_map t ++ map_of (live (x # xs))) (moveNodes hash xs u)"
        by (rule throws_or_mono) (use x kv False u d in \<open>simp add: map_add_upd_left dom_map_of_conv_image_fst\<close>)
    qed
    moreover have "moveNodes hash (x # xs) t = and_then (insert_move hash (k, v) t) (moveNodes hash xs)"
      using x kv False by simp
    ultimately show ?thesis by (simp only:)
  qed
qed

lemma rehash_moves:
  assumes s: "storage_inv hash t" and t': "mInfo t' = mInfo t" "mKeyVals t' = mKeyVals t" "mMask t' = mMask t"
  shows "rehashPowerOfTwo hash n t' = moveNodes hash (zip (mInfo t) (mKeyVals t)) (initData n t')"
proof -
  let ?xs = "zip (take (calcNumElementsWithBuffer (mMask t + 1)) (mInfo t)) (mKeyVals t)"
  have L: "calcNumElementsWithBuffer (mMask t + 1) = length (mKeyVals t)" using storage_invD(4) [OF s] by simp
  have xs: "?xs = zip (mInfo t) (mKeyVals t)" unfolding L
    by (intro nth_equalityI) auto
  have "1 < calcNumElementsWithBuffer (mMask t + 1)" using storage_invD(1) [OF s] by (simp add: calcNumElementsWithBuffer_def)
  then show ?thesis using t' xs by (simp add: rehashPowerOfTwo_def Let_def)
qed

text \<open>
  Rehashing keeps the map; the multiplier of the hash function may have changed before.
\<close>

lemma rehash_ok:
  assumes s: "storage_inv hash t" and n: "8 \<le> n" "mNumElements t \<le> calcMaxNumElementsAllowed n"
    and t': "mInfo t' = mInfo t" "mKeyVals t' = mKeyVals t" "mMask t' = mMask t"
  shows "throws_or (\<lambda>u. storage_inv hash u \<and> mMask u + 1 = n \<and> table_map u = table_map t) (rehashPowerOfTwo hash n t')"
proof -
  note ok = storage_invD(5) [OF s] and i = initData_inv [OF n(1), where t = t']
  note rehash_moves [OF s t', of n]
  moreover have "throws_or (\<lambda>u. storage_inv hash u \<and> mMask u = mMask (initData n t')
      \<and> table_map u = table_map (initData n t') ++ map_of (live (zip (mInfo t) (mKeyVals t))))
      (moveNodes hash (zip (mInfo t) (mKeyVals t)) (initData n t'))"
  proof (rule moveNodes_ok [OF i(1)])
    show "\<forall>(b, kv) \<in> set (zip (mInfo t) (mKeyVals t)). b \<noteq> 0 \<longrightarrow> kv \<noteq> None"
      using slots_okD(4) [OF ok] by (auto simp: set_zip entries_ok_def)
    show "mNumElements (initData n t') + length (live (zip (mInfo t) (mKeyVals t)))
        \<le> calcMaxNumElementsAllowed (mMask (initData n t') + 1)"
      using i(3,4) n live_facts(3) [OF ok] storage_invD(6) [OF s] by simp
  qed (use i(2) live_facts(2) [OF ok] in auto)
  ultimately show ?thesis
    using i(2,3) n(1) by (auto simp: table_map_def [of t] elim!: throws_or_mono)
qed

lemma increase_size_ok:
  assumes inv: "table_inv hash t"
  shows "throws_or (\<lambda>u. storage_inv hash u \<and> table_map u = table_map t) (increase_size hash t)"
proof (cases "mMask t = 0")
  case True
  then have "no_storage t" using inv storage_invD(1) [of hash t] by (auto simp: table_inv_def)
  with True initData_inv(1) [of 8 hash t] initData_inv(2) [of 8 t] show ?thesis
    by (simp add: increase_size_def InitialNumElements_def no_storage_map)
next
  case False
  with inv have s: "storage_inv hash t" by (auto simp: table_inv_def no_storage_def)
  note num = storage_invD(7) [OF s]
  have re: "throws_or (\<lambda>u. storage_inv hash u \<and> table_map u = table_map t)
     (if mNumElements t * 2 < calcMaxNumElementsAllowed (mMask t + 1)
      then rehashPowerOfTwo hash (mMask t + 1) (nextHashMultiplier t)
      else rehashPowerOfTwo hash ((mMask t + 1) * 2) t)"
  proof (cases "mNumElements t * 2 < calcMaxNumElementsAllowed (mMask t + 1)")
    case True
    have "throws_or (\<lambda>u. storage_inv hash u \<and> mMask u + 1 = mMask t + 1 \<and> table_map u = table_map t)
        (rehashPowerOfTwo hash (mMask t + 1) (nextHashMultiplier t))"
      by (rule rehash_ok [OF s storage_invD(1) [OF s] num]) (simp_all add: nextHashMultiplier_def)
    with True show ?thesis by (auto elim: throws_or_mono)
  next
    case no: False
    have "throws_or (\<lambda>u. storage_inv hash u \<and> mMask u + 1 = (mMask t + 1) * 2 \<and> table_map u = table_map t)
        (rehashPowerOfTwo hash ((mMask t + 1) * 2) t)"
      by (rule rehash_ok [OF s]) (use storage_invD(1) [OF s] num calcMax_double [of "mMask t + 1"] in auto)
    with no show ?thesis by (auto elim: throws_or_mono)
  qed
  show ?thesis
  proof (cases "mNumElements t < calcMaxNumElementsAllowed (mMask t + 1) \<and> 2 < mInfoInc t")
    case True
    with try_increase_info_ok [OF s] False show ?thesis by (auto simp: increase_size_def Let_def)
  next
    case no: False
    then have "(if mNumElements t < calcMaxNumElementsAllowed (mMask t + 1) then try_increase_info t else None) = None"
      by (auto simp: try_increase_info_def)
    with re False show ?thesis by (simp add: increase_size_def Let_def)
  qed
qed

section \<open>Preparing a slot\<close>

text \<open>What the callers of \<open>insertKeyPrepareEmptySpot\<close> rely on.\<close>

definition prepared :: "('k \<Rightarrow> u64) \<Rightarrow> 'k \<Rightarrow> ('k, 'v) table \<Rightarrow> (nat \<times> insertion_state) \<times> ('k, 'v) table \<Rightarrow> bool" where
  "prepared hash k t r \<longleftrightarrow> (case r of ((idx, state), u) \<Rightarrow> case state of
       overflow_error \<Rightarrow> True
     | key_found \<Rightarrow> table_inv hash u \<and> table_map u = table_map t \<and> (\<exists>v. table_map t k = Some v \<and> stored_at u idx k v)
     | _ \<Rightarrow> table_map t k = None \<and> (\<forall>v. storage_inv hash (putNode idx k v u) \<and> stored_at (putNode idx k v u) idx k v
              \<and> table_map (putNode idx k v u) = (table_map t)(k \<mapsto> v)))"

lemma probe_step:
  assumes inv: "table_inv hash t"
  shows "\<exists>found info p. (do {
           (info1, idx1) \<leftarrow> nextWhileLess (mInfoInc t) (mInfo t) (home_info hash t k) (home hash t k);
           matchLoop (mInfoInc t) (mInfo t) (mKeyVals t) k info1 idx1 }) = Some (found, info, p)
    \<and> (if found then \<exists>v. stored_at t p k v \<and> table_map t k = Some v
       else table_map t k = None \<and> (storage_inv hash t \<longrightarrow>
           insertion_point (home hash t) (home_info hash t) (mInfoInc t) (mInfo t) (mKeyVals t) k p
           \<and> info = probe_info (home hash t) (home_info hash t) (mInfoInc t) k p))"
proof (cases "no_storage t")
  case True
  then have h: "home hash t k = 0" using home_less [of hash t k] by (simp add: no_storage_def)
  have i: "home_info hash t k \<ge> 32"
    using True by (simp add: home_info_bits no_storage_def InitialInfoInc_def InitialInfoNumBits_def)
  have "\<not> storage_inv hash t" using True by (auto simp: storage_inv_def no_storage_def)
  with True h i show ?thesis
    by (intro exI [of _ False]) (simp add: no_storage_map, simp add: nextWhileLess.simps matchLoop.simps no_storage_def)
next
  case False
  with inv have s: "storage_inv hash t" by (simp add: table_inv_def)
  note ok = storage_invD(5) [OF s]
  let ?p = "probe_info (home hash t) (home_info hash t) (mInfoInc t) k"
  have le: "home hash t k \<le> length (mKeyVals t)" using home_less [of hash t k] slots_okD(2) [OF ok] by simp
  from nextWhileLess_probe [OF ok order_refl le] obtain q where q:
    "nextWhileLess (mInfoInc t) (mInfo t) (home_info hash t k) (home hash t k) = Some (?p q, q)"
    "home hash t k \<le> q" "q \<le> length (mKeyVals t)" "mInfo t ! q \<le> ?p q"
    "\<forall>j. home hash t k \<le> j \<and> j < q \<longrightarrow> ?p j < mInfo t ! j" by auto
  have "\<forall>j v. stored_at t j k v \<longrightarrow> q \<le> j"
  proof (intro allI impI, rule ccontr)
    fix j v assume st: "stored_at t j k v" and "\<not> q \<le> j"
    with q(5) stored_info(2,3) [OF ok st] show False by (auto simp: probe_info_def)
  qed
  moreover have "\<forall>j. home hash t k \<le> j \<and> j < q \<longrightarrow> ?p j \<le> mInfo t ! j" using q(5) by (meson less_imp_le)
  ultimately obtain found p where p: "matchLoop (mInfoInc t) (mInfo t) (mKeyVals t) k (?p q) q = Some (found, ?p p, p)"
    "if found then \<exists>v. stored_at t p k v
     else insertion_point (home hash t) (home_info hash t) (mInfoInc t) (mInfo t) (mKeyVals t) k p
       \<and> (\<forall>j v. \<not> stored_at t j k v)"
    using matchLoop_probe [OF ok q(2-4)] by blast
  show ?thesis
  proof (cases found)
    case True
    with p(2) obtain v where v: "stored_at t p k v" by auto
    with table_map_stored [OF ok] have "table_map t k = Some v" by blast
    with v True p(1) q(1) show ?thesis by (intro exI [of _ True]) auto
  next
    case False
    with p q(1) table_map_None [OF ok, of k] show ?thesis by (intro exI [of _ False]) auto
  qed
qed

lemma prepareLoop_ok:
  assumes "table_inv hash t"
  shows "throws_or (prepared hash k t) (prepareLoop n hash k t)
    \<and> (n \<noteq> 0 \<and> (table_map t k \<noteq> None \<or> mNumElements t < mMaxNumElementsAllowed t) \<longrightarrow>
        (\<exists>idx state u. prepareLoop n hash k t = Done ((idx, state), u) \<and> state \<noteq> overflow_error))"
  using assms
proof (induction n arbitrary: t)
  case 0
  then show ?case by (simp add: prepared_def)
next
  case (Suc n)
  from probe_step [OF Suc.prems, of k] obtain found info p where pr: "(do {
           (info1, idx1) \<leftarrow> nextWhileLess (mInfoInc t) (mInfo t) (home_info hash t k) (home hash t k);
           matchLoop (mInfoInc t) (mInfo t) (mKeyVals t) k info1 idx1 }) = Some (found, info, p)"
    and cond: "if found then \<exists>v. stored_at t p k v \<and> table_map t k = Some v
       else table_map t k = None \<and> (storage_inv hash t \<longrightarrow>
           insertion_point (home hash t) (home_info hash t) (mInfoInc t) (mInfo t) (mKeyVals t) k p
           \<and> info = probe_info (home hash t) (home_info hash t) (mInfoInc t) k p)" by blast
  have unf: "prepareLoop (Suc n) hash k t =
     (if found then Done ((p, key_found), t)
      else if mNumElements t \<ge> mMaxNumElementsAllowed t then and_then (increase_size hash t) (prepareLoop n hash k)
      else and_then (defined (openSpot info p t))
             (\<lambda>(e, t1). Done ((p, if e = p then new_node else overwrite_node), t1)))"
    using pr by (simp add: keyToIdx_home defined_def)
  consider (found) "found" | (grow) "\<not> found" "mNumElements t \<ge> mMaxNumElementsAllowed t"
    | (place) "\<not> found" "mNumElements t < mMaxNumElementsAllowed t" by linarith
  then show ?case
  proof cases
    case found
    then show ?thesis using unf cond Suc.prems by (auto simp: prepared_def)
  next
    case grow
    have "throws_or (prepared hash k t) (and_then (increase_size hash t) (prepareLoop n hash k))"
    proof (rule throws_or_and_then [OF increase_size_ok [OF Suc.prems]])
      fix u assume u: "storage_inv hash u \<and> table_map u = table_map t"
      then have "throws_or (prepared hash k u) (prepareLoop n hash k u)" using Suc.IH [of u] by (simp add: table_inv_def)
      then show "throws_or (prepared hash k t) (prepareLoop n hash k u)"
        by (rule throws_or_mono) (use u in \<open>simp add: prepared_def split: prod.splits insertion_state.splits\<close>)
    qed
    then show ?thesis using unf grow cond by simp
  next
    case place
    then have s: "storage_inv hash t" using Suc.prems by (auto simp: table_inv_def no_storage_def)
    note ok = storage_invD(5) [OF s]
    have abs: "table_map t k = None" using cond place by simp
    then have abs': "\<forall>j v. \<not> stored_at t j k v" using table_map_None [OF ok] by blast
    have mx: "mMaxNumElementsAllowed t \<noteq> 0" using place by simp
    have num: "mNumElements t < calcMaxNumElementsAllowed (mMask t + 1)"
      using place storage_invD(8) [OF s mx] by simp
    have ip: "insertion_point (home hash t) (home_info hash t) (mInfoInc t) (mInfo t) (mKeyVals t) k p"
      "info = probe_info (home hash t) (home_info hash t) (mInfoInc t) k p" using cond place s by auto
    from openSpot_placed [OF s mx num ip(1) abs' ip(2)] obtain e u where
      u: "openSpot info p t = Some (e, u)" "\<forall>v. placed hash p k v t (putNode p k v u)" by blast
    with unf place abs show ?thesis by (auto simp: defined_def prepared_def placed_def)
  qed
qed

end
