(* ===== verification/Table_Interface.thy ===== *)
theory Table_Interface
  imports Robin_Table
begin

text \<open>
  What the order book needs of the table of its identifiers: an empty table, assigning, erasing
  and clearing, each known by its effect on a finite map. Assigning may throw, but only for a new key
  in a table that has at least \<open>limit\<close> keys.
\<close>

datatype ('k, 'v) command = Assign 'k 'v | Erase 'k | Clear

fun run_commands ::
  "('k \<Rightarrow> 'v \<Rightarrow> 't \<Rightarrow> 't outcome) \<Rightarrow> ('k \<Rightarrow> 't \<Rightarrow> 't outcome) \<Rightarrow> ('t \<Rightarrow> 't)
    \<Rightarrow> ('k, 'v) command list \<Rightarrow> 't \<Rightarrow> 't outcome" where
  "run_commands put del clr [] t = Done t"
| "run_commands put del clr (Assign k v # cs) t = and_then (put k v t) (run_commands put del clr cs)"
| "run_commands put del clr (Erase k # cs) t = and_then (del k t) (run_commands put del clr cs)"
| "run_commands put del clr (Clear # cs) t = run_commands put del clr cs (clr t)"

fun map_commands :: "('k, 'v) command list \<Rightarrow> ('k \<Rightarrow> 'v option) \<Rightarrow> 'k \<Rightarrow> 'v option" where
  "map_commands [] m = m"
| "map_commands (Assign k v # cs) m = map_commands cs (m(k \<mapsto> v))"
| "map_commands (Erase k # cs) m = map_commands cs (m(k := None))"
| "map_commands (Clear # cs) m = map_commands cs Map.empty"

text \<open>Does the sequence assign a new key when there are already so many keys?\<close>

fun adds_beyond :: "nat \<Rightarrow> ('k, 'v) command list \<Rightarrow> ('k \<Rightarrow> 'v option) \<Rightarrow> bool" where
  "adds_beyond n [] m \<longleftrightarrow> False"
| "adds_beyond n (Assign k v # cs) m \<longleftrightarrow> m k = None \<and> n \<le> card (dom m) \<or> adds_beyond n cs (m(k \<mapsto> v))"
| "adds_beyond n (Erase k # cs) m \<longleftrightarrow> adds_beyond n cs (m(k := None))"
| "adds_beyond n (Clear # cs) m \<longleftrightarrow> adds_beyond n cs Map.empty"

text \<open>A sequence that is no longer than \<open>n\<close> does not.\<close>

lemma adds_beyond_short:
  "finite (dom m) \<Longrightarrow> card (dom m) + length cs \<le> n \<Longrightarrow> \<not> adds_beyond n cs m"
proof (induction n cs m rule: adds_beyond.induct)
  case (2 n k v cs m)
  have "card (dom (m(k \<mapsto> v))) \<le> Suc (card (dom m))" using 2(2) by (simp add: card_insert_if)
  with 2 show ?case by (simp del: fun_upd_apply)
next
  case (3 n k cs m)
  have "card (dom (m(k := None))) \<le> card (dom m)" using 3(2) by (intro card_mono) auto
  with 3 show ?case by (simp del: fun_upd_apply)
qed auto

locale finite_table =
  fixes ok :: "'t \<Rightarrow> bool" and abs :: "'t \<Rightarrow> 'k \<Rightarrow> 'v option" and empty :: 't
    and put :: "'k \<Rightarrow> 'v \<Rightarrow> 't \<Rightarrow> 't outcome" and del :: "'k \<Rightarrow> 't \<Rightarrow> 't outcome" and clr :: "'t \<Rightarrow> 't"
    and limit :: nat
  assumes empty_ok: "ok empty" and empty_abs: "abs empty = Map.empty"
    and put_law: "ok t \<Longrightarrow> throws_or (\<lambda>u. ok u \<and> abs u = (abs t)(k \<mapsto> v)) (put k v t)"
    and put_throws: "ok t \<Longrightarrow> put k v t = Throws \<Longrightarrow> abs t k = None \<and> limit \<le> card (dom (abs t))"
    and del_law: "ok t \<Longrightarrow> \<exists>u. del k t = Done u \<and> ok u \<and> abs u = (abs t)(k := None)"
    and clr_law: "ok t \<Longrightarrow> ok (clr t) \<and> abs (clr t) = Map.empty"
begin

lemma run_refines:
  "ok t \<Longrightarrow> case run_commands put del clr cs t of
     Done u \<Rightarrow> ok u \<and> abs u = map_commands cs (abs t)
   | Throws \<Rightarrow> adds_beyond limit cs (abs t)
   | Undefined \<Rightarrow> False"
proof (induction cs arbitrary: t)
  case Nil
  then show ?case by simp
next
  case (Cons c cs)
  show ?case
  proof (cases c)
    case (Assign k v)
    show ?thesis
    proof (cases "put k v t")
      case (Done u)
      with put_law [OF Cons.prems, of k v] have u: "ok u" "abs u = (abs t)(k \<mapsto> v)" by auto
      show ?thesis using Cons.IH [OF u(1)] unfolding Assign Done u(2)
        by (cases "run_commands put del clr cs u") (simp_all add: Done)
    next
      case Throws
      with put_throws [OF Cons.prems, of k v] show ?thesis unfolding Assign by simp
    next
      case Undefined
      with put_law [OF Cons.prems, of k v] show ?thesis by simp
    qed
  next
    case (Erase k)
    from del_law [OF Cons.prems, of k] obtain u where "del k t = Done u" "ok u" "abs u = (abs t)(k := None)" by blast
    then show ?thesis using Cons.IH [of u] unfolding Erase by (simp del: fun_upd_apply split: outcome.splits)
  next
    case Clear
    then show ?thesis using Cons.IH [of "clr t"] clr_law [OF Cons.prems] by (simp split: outcome.splits)
  qed
qed

lemma run_from_empty:
  "case run_commands put del clr cs empty of
     Done u \<Rightarrow> ok u \<and> abs u = map_commands cs Map.empty
   | Throws \<Rightarrow> adds_beyond limit cs Map.empty
   | Undefined \<Rightarrow> False"
  using run_refines [OF empty_ok] unfolding empty_abs .

end

end
