(* ===== verification/Robin_Growth.thy ===== *)
theory Robin_Growth
  imports Robin_Table
begin

text \<open>
  When the hash map can give up. An info byte holds the distance of an entry from home, and an entry
  is at most as far from home as there are entries; so with at most 126 entries the info bytes
  never run out of values, growing succeeds, and an insertion does not throw, whatever the hash function.
\<close>

section \<open>Distances\<close>

lemma entry_distance:
  assumes ok: "slots_ok hm ib inc n infos kvs" and s: "stored infos kvs i k v"
  shows "i - hm k < card (occupied infos kvs)"
proof -
  have pr: "2 \<le> inc" "inc \<le> ib k" using slots_okD(1) [OF ok] by (auto simp: probing_def)
  have "{hm k..i} \<subseteq> occupied infos kvs"
  proof
    fix j assume j: "j \<in> {hm k..i}"
    have "ib k + inc * (j - hm k) \<le> infos ! j" using prefix_infos [OF ok s] j by simp
    then show "j \<in> occupied infos kvs"
      using j stored_info(1) [OF ok s] pr by (auto simp: occupied_def)
  qed
  from card_mono [OF finite_occupied this] stored_info(2) [OF ok s] show ?thesis by simp
qed

lemma info_bound:
  assumes ok: "slots_ok hm ib inc n infos kvs" and i: "i < length kvs"
  shows "infos ! i < inc * (card (occupied infos kvs) + 1)"
proof (cases "infos ! i = 0")
  case True
  then show ?thesis using probingD(1) [OF slots_okD(1) [OF ok]] by simp
next
  case False
  from entriesE [OF slots_okD(4) [OF ok] i False] obtain k v where
    k: "stored infos kvs i k v" "infos ! i = ib k + inc * (i - hm k)" by metis
  have "inc * (i - hm k + 1) \<le> inc * card (occupied infos kvs)"
    using entry_distance [OF ok k(1)] by (intro mult_le_mono2) simp
  moreover have "ib k < 2 * inc" by (rule probingD(4) [OF slots_okD(1) [OF ok]])
  ultimately show ?thesis unfolding k(2) by simp
qed

lemma new_info_bound:
  assumes ok: "slots_ok hm ib inc n infos kvs" and p: "insertion_point hm ib inc infos kvs k p"
  shows "probe_info hm ib inc k p < inc * (card (occupied infos kvs) + 2)"
proof -
  have pr: "2 \<le> inc" "inc \<le> ib k" using slots_okD(1) [OF ok] by (auto simp: probing_def)
  have "{hm k..<p} \<subseteq> occupied infos kvs"
  proof
    fix j assume j: "j \<in> {hm k..<p}"
    then have "probe_info hm ib inc k j \<le> infos ! j" using p by (auto simp: insertion_point_def)
    then show "j \<in> occupied infos kvs"
      using j p pr by (auto simp: occupied_def insertion_point_def probe_info_def)
  qed
  from card_mono [OF finite_occupied this] have "p - hm k \<le> card (occupied infos kvs)" by simp
  then have "inc * (p - hm k) \<le> inc * card (occupied infos kvs)" by (rule mult_le_mono2)
  moreover have "ib k < 2 * inc" by (rule probingD(4) [OF slots_okD(1) [OF ok]])
  ultimately show ?thesis unfolding probe_info_def distrib_left by linarith
qed

section \<open>Info values are left\<close>

definition info_left :: "('k, 'v) table \<Rightarrow> bool" where
  "info_left t \<longleftrightarrow> (mMaxNumElementsAllowed t = 0 \<longrightarrow> 2 < mInfoInc t)"

lemma openSpot_info_left:
  assumes s: "storage_inv hash t" "mMaxNumElementsAllowed t \<noteq> 0" and num: "mNumElements t \<le> 125"
    and p: "insertion_point (home hash t) (home_info hash t) (mInfoInc t) (mInfo t) (mKeyVals t) k p"
    and u: "openSpot (probe_info (home hash t) (home_info hash t) (mInfoInc t) k p) p t = Some (e, u)"
  shows "info_left u"
proof (cases "mInfoInc t = 2")
  case False
  then have "2 < mInfoInc t" using storage_invD(3) [OF s(1)] by simp
  moreover have "mInfoInc u = mInfoInc t"
    using u by (auto simp: openSpot_def Let_def shiftUp_def split: if_splits option.splits prod.splits bind_splits)
  ultimately show ?thesis by (simp add: info_left_def)
next
  case True
  note ok = storage_invD(5) [OF s(1)]
  have card: "card (occupied (mInfo t) (mKeyVals t)) \<le> 125" using num storage_invD(6) [OF s(1)] by simp
  let ?i = "probe_info (home hash t) (home_info hash t) (mInfoInc t) k p"
  have new: "?i + mInfoInc t \<le> 255" using new_info_bound [OF ok p] card True by simp
  have old: "mInfo t ! j + mInfoInc t + mInfoInc t \<le> 255" if "j < length (mKeyVals t)" for j
    using info_bound [OF ok that] card True by simp
  from u obtain e' where e: "nextEmpty (mInfo t) p = Some e'" "e' < length (mKeyVals t)"
    by (auto simp: openSpot_def Let_def split: if_splits bind_splits)
  have "e' < length (mInfo t)" using e(2) sentinelD(1) [OF slots_okD(3) [OF ok]] by simp
  moreover have "\<forall>j. p \<le> j \<and> j < e' \<longrightarrow> mInfo t ! j + mInfoInc t \<le> 255" using old e(2) by (meson add_leD1 less_trans)
  ultimately obtain infos' where "shiftUpInfo (mInfoInc t) (mInfo t) e' p False
      = (infos', \<exists>j. p \<le> j \<and> j < e' \<and> mInfo t ! j + mInfoInc t + mInfoInc t > 255)"
    using shiftUpInfo_nth [of e' "mInfo t" p "mInfoInc t" False] by auto
  moreover have "\<not> (\<exists>j. p \<le> j \<and> j < e' \<and> mInfo t ! j + mInfoInc t + mInfoInc t > 255)"
    using old e(2) by (meson less_trans linorder_not_le)
  ultimately have "shiftUpInfo (mInfoInc t) (mInfo t) e' p False = (infos', False)" by simp
  then have "mMaxNumElementsAllowed u = mMaxNumElementsAllowed t"
    using u e new by (auto simp: openSpot_def Let_def shiftUp_def split: if_splits)
  then show ?thesis using s(2) by (simp add: info_left_def)
qed

lemma info_left_putNode [simp]: "info_left (putNode p k v u) = info_left u"
  by (simp add: info_left_def putNode_def)

lemma insert_move_done:
  assumes s: "storage_inv hash t" and num: "mNumElements t < calcMaxNumElementsAllowed (mMask t + 1)"
    and few: "mNumElements t \<le> 125" and absent: "table_map t k = None" and left: "info_left t"
  shows "\<exists>p u. insert_move hash (k, v) t = Done u \<and> placed hash p k v t u \<and> info_left u"
proof (cases "mMaxNumElementsAllowed t = 0")
  case False
  from insert_at_spot_ok [OF s False num absent, of v] False openSpot_info_left [OF s False few]
  show ?thesis by (fastforce simp: insert_move_spot)
next
  case True
  then have "2 < mInfoInc t" using left by (simp add: info_left_def)
  from try_increase_info_ok [OF s this] obtain t1 where t1: "try_increase_info t = Some t1" "storage_inv hash t1"
    "table_map t1 = table_map t" "mMask t1 = mMask t" "mNumElements t1 = mNumElements t"
    "mMaxNumElementsAllowed t1 = calcMaxNumElementsAllowed (mMask t + 1)" by blast
  have nz: "mMaxNumElementsAllowed t1 \<noteq> 0" using t1(6) num by simp
  from insert_at_spot_ok [OF t1(2) nz, of k v] num absent t1(3-5) obtain p e u where
    "insert_at_spot hash (k, v) t1 = Done (putNode p k v u)" "placed hash p k v t1 (putNode p k v u)"
    "insertion_point (home hash t1) (home_info hash t1) (mInfoInc t1) (mInfo t1) (mKeyVals t1) k p"
    "openSpot (probe_info (home hash t1) (home_info hash t1) (mInfoInc t1) k p) p t1 = Some (e, u)" by metis
  moreover from openSpot_info_left [OF t1(2) nz _ this(3,4)] few t1(5) have "info_left u" by simp
  ultimately show ?thesis using True t1(1,3-5) by (auto simp: insert_move_spot placed_def)
qed

section \<open>Growing succeeds\<close>

lemma moveNodes_done:
  assumes "storage_inv hash t" "\<forall>(b, kv) \<in> set xs. b \<noteq> 0 \<longrightarrow> kv \<noteq> None" "distinct (map fst (live xs))"
    and "\<forall>k \<in> fst ` set (live xs). table_map t k = None"
    and "mNumElements t + length (live xs) \<le> calcMaxNumElementsAllowed (mMask t + 1)"
    and "mNumElements t + length (live xs) \<le> 126" "info_left t"
  shows "\<exists>u. moveNodes hash xs t = Done u \<and> info_left u"
  using assms
proof (induction xs arbitrary: t)
  case Nil
  then show ?case by simp
next
  case (Cons x xs)
  obtain b kv where x: "x = (b, kv)" by (cases x)
  show ?case
  proof (cases "b = 0")
    case True
    with Cons.IH [OF Cons.prems(1)] Cons.prems(2-7) x show ?thesis by simp
  next
    case False
    with Cons.prems(2) x obtain k v where kv: "kv = Some (k, v)" by auto
    have d: "k \<notin> fst ` set (live xs)" "distinct (map fst (live xs))" using Cons.prems(3) x kv False by auto
    from insert_move_done [OF Cons.prems(1) _ _ _ Cons.prems(7), of k v] Cons.prems(4-6) x kv False
    obtain p u where u: "insert_move hash (k, v) t = Done u" "placed hash p k v t u" "info_left u" by auto
    then have pl: "storage_inv hash u" "mMask u = mMask t" "mNumElements u = mNumElements t + 1"
      "table_map u = (table_map t)(k \<mapsto> v)" by (auto simp: placed_def)
    have "\<exists>w. moveNodes hash xs u = Done w \<and> info_left w"
      by (rule Cons.IH [OF pl(1) _ d(2)]) (use Cons.prems(2,4-6) x kv False d pl u(3) in auto)
    then show ?thesis using x kv False u(1) by simp
  qed
qed

lemma initData_info_left: "8 \<le> n \<Longrightarrow> info_left (initData n t)"
  using calcMax_pos [of n] by (simp add: info_left_def initData_def Let_def)

lemma rehash_done:
  assumes s: "storage_inv hash t" and n: "8 \<le> n" "mNumElements t \<le> calcMaxNumElementsAllowed n"
    and few: "mNumElements t \<le> 126"
    and t': "mInfo t' = mInfo t" "mKeyVals t' = mKeyVals t" "mMask t' = mMask t"
  shows "\<exists>u. rehashPowerOfTwo hash n t' = Done u \<and> info_left u"
proof -
  note ok = storage_invD(5) [OF s] and i = initData_inv [OF n(1), where t = t']
  note moved = rehash_moves [OF s t', of n]
  show ?thesis unfolding moved
  proof (rule moveNodes_done [OF i(1)])
    show "\<forall>(b, kv) \<in> set (zip (mInfo t) (mKeyVals t)). b \<noteq> 0 \<longrightarrow> kv \<noteq> None"
      using slots_okD(4) [OF ok] by (auto simp: set_zip entries_ok_def)
  qed (use i(2-4) n few live_facts(2,3) [OF ok] storage_invD(6) [OF s] initData_info_left [OF n(1)] in auto)
qed

lemma calcMax_double_less: "8 \<le> n \<Longrightarrow> calcMaxNumElementsAllowed n < calcMaxNumElementsAllowed (n * 2)"
proof -
  assume n: "8 \<le> n"
  have "n * 80 div 100 < n * 2 * 80 div 100" using n by linarith
  moreover have "n * 80 div 100 < (n * 2 div 100) * 80" if "100000 < n" using that by linarith
  moreover have "(n div 100) * 80 < (n * 2 div 100) * 80" if "100000 < n" using that by linarith
  ultimately show ?thesis by (simp only: calcMaxNumElementsAllowed_def split: if_split) (intro impI conjI; simp)
qed

text \<open>A table that is full grows, and then has room, perhaps after halving its info values.\<close>

lemma increase_size_done:
  assumes inv: "table_inv hash t" and few: "mNumElements t \<le> 125"
  shows "\<exists>u. increase_size hash t = Done u \<and> info_left u \<and> mNumElements u < calcMaxNumElementsAllowed (mMask u + 1)"
proof (cases "mMask t = 0")
  case True
  with initData_info_left [of 8 t] initData_inv(3,4) [of 8 t] calcMax_pos [of 8] show ?thesis
    by (simp add: increase_size_def InitialNumElements_def)
next
  case False
  with inv have s: "storage_inv hash t" by (auto simp: table_inv_def no_storage_def)
  note num = storage_invD(7) [OF s] and n8 = storage_invD(1) [OF s]
  show ?thesis
  proof (cases "mNumElements t < calcMaxNumElementsAllowed (mMask t + 1) \<and> 2 < mInfoInc t")
    case True
    with try_increase_info_ok [OF s] False show ?thesis by (auto simp: increase_size_def Let_def info_left_def)
  next
    case no: False
    then have "(if mNumElements t < calcMaxNumElementsAllowed (mMask t + 1) then try_increase_info t else None) = None"
      by (auto simp: try_increase_info_def)
    then have inc: "increase_size hash t =
       (if mNumElements t * 2 < calcMaxNumElementsAllowed (mMask t + 1)
        then rehashPowerOfTwo hash (mMask t + 1) (nextHashMultiplier t)
        else rehashPowerOfTwo hash ((mMask t + 1) * 2) t)" using False by (simp add: increase_size_def Let_def)
    have size: "mNumElements u = mNumElements t" if "storage_inv hash u" "table_map u = table_map t" for u
      using table_inv_size [of hash u] table_inv_size [OF inv] that by (simp add: table_inv_def)
    have grown: "\<exists>u. rehashPowerOfTwo hash n t' = Done u \<and> info_left u \<and> mNumElements u < calcMaxNumElementsAllowed (mMask u + 1)"
      if n: "8 \<le> n" "mNumElements t < calcMaxNumElementsAllowed n"
        and t': "mInfo t' = mInfo t" "mKeyVals t' = mKeyVals t" "mMask t' = mMask t" for n t'
    proof -
      from rehash_done [OF s n(1) less_imp_le [OF n(2)] _ t'] few obtain u where
        u: "rehashPowerOfTwo hash n t' = Done u" "info_left u" by auto
      with rehash_ok [OF s n(1) less_imp_le [OF n(2)] t'] size n(2) show ?thesis by auto
    qed
    show ?thesis
    proof (cases "mNumElements t * 2 < calcMaxNumElementsAllowed (mMask t + 1)")
      case True
      then show ?thesis unfolding inc using grown [OF n8, of "nextHashMultiplier t"] by (simp add: nextHashMultiplier_def)
    next
      case False
      have "mNumElements t < calcMaxNumElementsAllowed ((mMask t + 1) * 2)"
        using num calcMax_double_less [OF n8] by simp
      with False show ?thesis unfolding inc using grown [of "(mMask t + 1) * 2" t] n8 by simp
    qed
  qed
qed

section \<open>Preparing a slot succeeds\<close>

lemma prepareLoop_grows:
  assumes inv: "table_inv hash t" and new: "table_map t k = None" and full: "mMaxNumElementsAllowed t \<le> mNumElements t"
  shows "prepareLoop (Suc n) hash k t = and_then (increase_size hash t) (prepareLoop n hash k)"
proof -
  from probe_step [OF inv, of k] new obtain info p where "(do {
           (info1, idx1) \<leftarrow> nextWhileLess (mInfoInc t) (mInfo t) (home_info hash t k) (home hash t k);
           matchLoop (mInfoInc t) (mInfo t) (mKeyVals t) k info1 idx1 }) = Some (False, info, p)"
    by (auto split: if_splits)
  then show ?thesis using full by (simp add: keyToIdx_home defined_def)
qed

abbreviation prepares :: "nat \<Rightarrow> ('k \<Rightarrow> u64) \<Rightarrow> 'k \<Rightarrow> ('k, 'v) table \<Rightarrow> bool" where
  "prepares n hash k t \<equiv> \<exists>idx state u. prepareLoop n hash k t = Done ((idx, state), u) \<and> state \<noteq> overflow_error"

lemma prepares_after_growing:
  assumes s: "storage_inv hash t" and new: "table_map t k = None"
    and room: "info_left t" "mNumElements t < calcMaxNumElementsAllowed (mMask t + 1)"
  shows "prepares (Suc (Suc n)) hash k t"
proof -
  have inv: "table_inv hash t" using s by (simp add: table_inv_def)
  show ?thesis
proof (cases "mNumElements t < mMaxNumElementsAllowed t")
  case True
  with prepareLoop_ok [OF inv, of k "Suc (Suc n)"] show ?thesis by blast
next
  case False
    have mx: "mMaxNumElementsAllowed t = 0" using False room(2) storage_invD(8) [OF s] by auto
    with room(1) have "2 < mInfoInc t" by (simp add: info_left_def)
    with try_increase_info_ok [OF s] room(2) storage_invD(1) [OF s] obtain u where
      u: "increase_size hash t = Done u" "storage_inv hash u" "table_map u = table_map t"
      "mNumElements u = mNumElements t" "mMaxNumElementsAllowed u = calcMaxNumElementsAllowed (mMask t + 1)"
      by (auto simp: increase_size_def Let_def)
    have "prepares (Suc n) hash k u"
      using prepareLoop_ok [of hash u k "Suc n"] u(2,4,5) room(2) by (simp add: table_inv_def)
    then show ?thesis using prepareLoop_grows [OF inv new] False u(1) by simp
qed
qed

lemma prepares_few:
  assumes inv: "table_inv hash t" and few: "mNumElements t \<le> 125"
  shows "prepares (Suc (Suc (Suc n))) hash k t"
proof (cases "table_map t k \<noteq> None \<or> mNumElements t < mMaxNumElementsAllowed t")
  case True
  with prepareLoop_ok [OF inv, of k "Suc (Suc (Suc n))"] show ?thesis by blast
next
  case False
  from increase_size_done [OF inv few] increase_size_ok [OF inv] obtain u where
    u: "increase_size hash t = Done u" "info_left u" "mNumElements u < calcMaxNumElementsAllowed (mMask u + 1)"
    "storage_inv hash u" "table_map u = table_map t" by auto
  from prepares_after_growing [OF u(4) _ u(2,3), of k] False u(5) have "prepares (Suc (Suc n)) hash k u" by simp
  then show ?thesis using prepareLoop_grows [OF inv] False u(1) by simp
qed

end
