(* ===== verification/Robin_Properties.thy ===== *)
theory Robin_Properties
  imports Table_Interface Robin_Growth
begin

text \<open>
  The operations of the hash map refine those of a finite map, and none has undefined behaviour.
  A \<open>Throws\<close> is the exception \<open>overflow_error\<close>, or \<open>out_of_range\<close> of \<open>at\<close>.
\<close>

section \<open>Queries\<close>

lemma stored_not_end:
  assumes inv: "table_inv hash t" and s: "stored_at t i k v"
  shows "i \<noteq> endIdx t" "i < length (mKeyVals t)" "mKeyVals t ! i = Some (k, v)"
  using assms by (auto simp: stored_def endIdx_def table_inv_def no_storage_def storage_inv_def)

lemma table_count_map: "table_inv hash t \<Longrightarrow> table_count hash k t = Done (if table_map t k = None then 0 else 1)"
  using findIdx_found [of hash t k] stored_not_end(1) [of hash t _ k]
  by (cases "table_map t k") (auto simp: table_count_def defined_def)

lemma contains_map: "table_inv hash t \<Longrightarrow> contains hash k t = Done (table_map t k \<noteq> None)"
  by (simp add: contains_def table_count_map)

lemma table_at_map:
  "table_inv hash t \<Longrightarrow> table_at hash k t = (case table_map t k of Some v \<Rightarrow> Done v | None \<Rightarrow> Throws)"
  using findIdx_found [of hash t k] stored_not_end [of hash t _ k]
  by (cases "table_map t k") (auto simp: table_at_def defined_def)

section \<open>Assigning\<close>

lemma setSecond_ok:
  assumes inv: "table_inv hash t" and st: "stored_at t idx k w"
  shows "\<exists>u. setSecond idx val t = Done u \<and> table_inv hash u \<and> table_map u = (table_map t)(k \<mapsto> val)
    \<and> mNumElements u = mNumElements t \<and> stored_at u idx k val"
proof -
  have s: "storage_inv hash t" using inv st by (auto simp: table_inv_def no_storage_def stored_def)
  note ok = storage_invD(5) [OF s]
  define u where "u = t\<lparr> mKeyVals := (mKeyVals t)[idx := Some (k, val)] \<rparr>"
  have set: "setSecond idx val t = Done u" using stored_not_end(2,3) [OF inv st] by (simp add: setSecond_def u_def)
  have f: "mInfo u = mInfo t" "length (mKeyVals u) = length (mKeyVals t)" "mMask u = mMask t" "mInfoInc u = mInfoInc t"
    "mNumElements u = mNumElements t" "mMaxNumElementsAllowed u = mMaxNumElementsAllowed t"
    "mInfoHashShift u = mInfoHashShift t"
    and h: "home hash u = home hash t" "home_info hash u = home_info hash t"
    by (auto simp: u_def same_hashing_def intro: home_same)
  have su: "stored_at u i k' v' \<longleftrightarrow> (if i = idx then k' = k \<and> v' = val else stored_at t i k' v')" for i k' v'
    using st by (auto simp: u_def stored_def)
  have nth: "mKeyVals u ! i = (if i = idx then Some (k, val) else mKeyVals t ! i)" if "i < length (mKeyVals t)" for i
    using that by (simp add: u_def)
  have d: "i = j" if "stored_at t i k' v'" "stored_at t j k' w'" for i j k' v' w'
    using slots_okD(6) [OF ok] that unfolding keys_distinct_def by blast
  have ok': "slots_ok (home hash u) (home_info hash u) (mInfoInc u) (mMask u + 1) (mInfo u) (mKeyVals u)"
    unfolding slots_ok_def f h
  proof (intro conjI)
    show "sentinel_ok (mInfo t) (mKeyVals u)" using slots_okD(3) [OF ok] by (simp add: sentinel_ok_def f)
    show "steps_ok (mInfoInc t) (mInfo t) (mKeyVals u)" using slots_okD(5) [OF ok] by (simp add: steps_ok_def f)
    show "entries_ok (home hash t) (home_info hash t) (mInfoInc t) (mInfo t) (mKeyVals u)"
      using slots_okD(4) [OF ok] stored_info(2,3,4) [OF ok st] nth by (auto simp: entries_ok_def f)
    have "stored_at u i k' v' \<Longrightarrow> \<exists>w'. stored_at t i k' w'" for i k' v' using su st by (auto split: if_splits)
    then show "keys_distinct (mInfo t) (mKeyVals u)" using d unfolding keys_distinct_def f [symmetric] by blast
  qed (use slots_okD [OF ok] in simp_all)
  have "occupied (mInfo u) (mKeyVals u) = occupied (mInfo t) (mKeyVals t)" by (simp add: occupied_def f)
  then have su': "storage_inv hash u"
    using storage_invD [OF s] ok' unfolding storage_inv_def info_fits_def f by auto
  moreover have "table_map u = (table_map t)(k \<mapsto> val)"
  proof (intro ext option_eqI)
    fix k' v'
    show "table_map u k' = Some v' \<longleftrightarrow> ((table_map t)(k \<mapsto> val)) k' = Some v'"
    proof (cases "k' = k")
      case True
      have "stored_at u i k v' \<longleftrightarrow> i = idx \<and> v' = val" for i using su d st by metis
      then show ?thesis using True by (auto simp: table_map_stored [OF ok'])
    next
      case False
      then have "i \<noteq> idx" if "stored_at t i k' v'" for i using st that by (auto simp: stored_def)
      then show ?thesis using su False by (auto simp: table_map_stored [OF ok'] table_map_stored [OF ok])
    qed
  qed
  ultimately show ?thesis using set su [of idx k val] by (simp add: table_inv_def) (simp add: u_def)
qed

text \<open>
  The insertions share this step: they prepare a slot and put the entry there if the key is new.
\<close>

lemma prepared_new:
  assumes "throws_or (prepared hash k t) (insertKeyPrepareEmptySpot hash k t)"
    and "\<And>idx u. table_inv hash u \<Longrightarrow> table_map u = table_map t \<Longrightarrow> \<exists>v. table_map t k = Some v \<and> stored_at u idx k v
      \<Longrightarrow> throws_or Q (f ((idx, key_found), u))"
    and "\<And>idx u st. st \<in> {new_node, overwrite_node} \<Longrightarrow> table_map t k = None
      \<Longrightarrow> \<forall>v. storage_inv hash (putNode idx k v u) \<and> stored_at (putNode idx k v u) idx k v
            \<and> table_map (putNode idx k v u) = (table_map t)(k \<mapsto> v)
      \<Longrightarrow> throws_or Q (f ((idx, st), u))"
    and "\<And>idx u. f ((idx, overflow_error), u) = Throws"
  shows "throws_or Q (and_then (insertKeyPrepareEmptySpot hash k t) f)"
proof (rule throws_or_and_then [OF assms(1)])
  fix r assume p: "prepared hash k t r"
  obtain idx st u where r: "r = ((idx, st), u)" by (metis prod.collapse)
  show "throws_or Q (f r)"
    using p assms(2-4) unfolding r prepared_def by (cases st) simp_all
qed

lemma prepare_ok:
  assumes "table_inv hash t"
  shows "throws_or (prepared hash k t) (insertKeyPrepareEmptySpot hash k t)"
    "table_map t k \<noteq> None \<or> mNumElements t < mMaxNumElementsAllowed t
      \<Longrightarrow> \<exists>idx st u. insertKeyPrepareEmptySpot hash k t = Done ((idx, st), u) \<and> st \<noteq> overflow_error"
  using prepareLoop_ok [OF assms, of k 256] by (auto simp: insertKeyPrepareEmptySpot_def)

lemma subscript_ok:
  assumes inv: "table_inv hash t"
  shows "throws_or (\<lambda>(idx, u). table_inv hash u \<and> (\<exists>v. stored_at u idx k v)
      \<and> table_map u = (case table_map t k of Some v \<Rightarrow> table_map t | None \<Rightarrow> (table_map t)(k \<mapsto> dflt)))
    (subscript hash dflt k t)"
  unfolding subscript_def
proof (rule prepared_new [OF prepare_ok(1) [OF inv]], goal_cases)
  case (2 idx u st)
  then have "\<exists>v. stored_at (putNode idx k dflt u) idx k v" by blast
  with 2 show ?case by (auto simp: table_inv_def)
qed auto

lemma subscript_assign_ok:
  assumes inv: "table_inv hash t"
  shows "throws_or (\<lambda>u. table_inv hash u \<and> table_map u = (table_map t)(k \<mapsto> v)) (subscript_assign hash dflt k v t)"
  unfolding subscript_assign_def
proof (rule throws_or_and_then [OF subscript_ok [OF inv]])
  fix r assume "case r of (idx, u) \<Rightarrow> table_inv hash u \<and> (\<exists>v. stored_at u idx k v)
      \<and> table_map u = (case table_map t k of Some v \<Rightarrow> table_map t | None \<Rightarrow> (table_map t)(k \<mapsto> dflt))"
  then obtain idx u w where r: "r = (idx, u)" "table_inv hash u" "stored_at u idx k w"
    "table_map u = (case table_map t k of Some v \<Rightarrow> table_map t | None \<Rightarrow> (table_map t)(k \<mapsto> dflt))" by auto
  have "(table_map u)(k \<mapsto> v) = (table_map t)(k \<mapsto> v)" using r(4) by (simp split: option.splits)
  with setSecond_ok [OF r(2,3), of v] r(1)
  show "throws_or (\<lambda>u. table_inv hash u \<and> table_map u = (table_map t)(k \<mapsto> v))
      (case r of (idx, t1) \<Rightarrow> setSecond idx v t1)" by auto
qed

lemma subscript_assign_done:
  assumes inv: "table_inv hash t" and room: "table_map t k \<noteq> None \<or> mNumElements t < mMaxNumElementsAllowed t"
  shows "subscript_assign hash dflt k v t \<noteq> Throws"
proof -
  from prepare_ok(2) [OF inv room] obtain idx st u where
    p: "insertKeyPrepareEmptySpot hash k t = Done ((idx, st), u)" "st \<noteq> overflow_error" by blast
  then show ?thesis
    by (cases st) (auto simp: subscript_assign_def subscript_def setSecond_def split: option.splits)
qed

lemma subscript_assign_few:
  assumes inv: "table_inv hash t" and throws: "subscript_assign hash dflt k v t = Throws"
  shows "126 \<le> mNumElements t"
proof (rule ccontr)
  assume "\<not> 126 \<le> mNumElements t"
  then have "mNumElements t \<le> 125" by simp
  from prepares_few [OF inv this, of 253 k] obtain idx st u where
    "insertKeyPrepareEmptySpot hash k t = Done ((idx, st), u)" "st \<noteq> overflow_error"
    by (auto simp: insertKeyPrepareEmptySpot_def eval_nat_numeral)
  with throws show False
    by (cases st) (auto simp: subscript_assign_def subscript_def setSecond_def split: option.splits if_splits)
qed

lemma emplace_ok:
  assumes inv: "table_inv hash t"
  shows "throws_or (\<lambda>((idx, new), u). table_inv hash u \<and> (new \<longleftrightarrow> table_map t k = None)
      \<and> table_map u = (if new then (table_map t)(k \<mapsto> v) else table_map t)) (emplace hash (k, v) t)"
  unfolding emplace_def fst_conv snd_conv
  by (rule prepared_new [OF prepare_ok(1) [OF inv]]) (auto simp: table_inv_def)

lemma try_emplace_ok:
  assumes inv: "table_inv hash t"
  shows "throws_or (\<lambda>((idx, new), u). table_inv hash u \<and> (new \<longleftrightarrow> table_map t k = None)
      \<and> table_map u = (if new then (table_map t)(k \<mapsto> v) else table_map t)) (try_emplace_impl hash k v t)"
  unfolding try_emplace_impl_def
  by (rule prepared_new [OF prepare_ok(1) [OF inv]]) (auto simp: table_inv_def)

lemma insertOrAssign_ok:
  assumes inv: "table_inv hash t"
  shows "throws_or (\<lambda>((idx, new), u). table_inv hash u \<and> (new \<longleftrightarrow> table_map t k = None)
      \<and> table_map u = (table_map t)(k \<mapsto> v)) (insertOrAssignImpl hash k v t)"
  unfolding insertOrAssignImpl_def
proof (rule prepared_new [OF prepare_ok(1) [OF inv]], goal_cases)
  case (1 idx u)
  then obtain w where "stored_at u idx k w" by blast
  from setSecond_ok [OF 1(1) this, of v] 1 show ?case by auto
qed (auto simp: table_inv_def)

section \<open>Erasing\<close>

lemma erase_pos_ok:
  assumes s: "storage_inv hash t" and st: "stored_at t p k v"
  shows "\<exists>u. erase_pos p t = Some u \<and> storage_inv hash u \<and> table_map u = (table_map t)(k := None)"
proof -
  note ok = storage_invD(5) [OF s]
  note len = sentinelD(1) [OF slots_okD(3) [OF ok]]
  have p: "p < length (mKeyVals t)" "mInfo t ! p \<noteq> 0" using st by (auto simp: stored_def)
  have inc: "2 \<le> mInfoInc t" by (rule storage_invD(3) [OF s])
  have small: "mInfo t ! j \<le> 255" if "j < length (mKeyVals t)" for j
    using slots_okD(4) [OF ok] that unfolding entries_ok_def by (cases "mInfo t ! j = 0") auto
  have "\<forall>j. p < j \<and> j < length (mInfo t) \<and> 2 * mInfoInc t \<le> mInfo t ! j
      \<longrightarrow> j < length (mKeyVals t) \<and> mInfo t ! j \<le> 255"
  proof (intro allI impI)
    fix j assume j: "p < j \<and> j < length (mInfo t) \<and> 2 * mInfoInc t \<le> mInfo t ! j"
    then have "j < length (mKeyVals t)" using occupied_ge_all [OF ok, of j] by simp
    with small show "j < length (mKeyVals t) \<and> mInfo t ! j \<le> 255" by simp
  qed
  from shiftDownLoop_run [OF p(1) len this] obtain q infos' kvs' where q:
    "shiftDownLoop (mInfoInc t) (mInfo t) (mKeyVals t) p = Some (infos', kvs')"
    "displaced_run (mInfoInc t) (mInfo t) (mKeyVals t) p q"
    "moved_down (mInfoInc t) p q (mInfo t) (mKeyVals t) infos' kvs'" by blast
  define u where "u = t\<lparr> mInfo := infos', mKeyVals := kvs', mNumElements := mNumElements t - 1 \<rparr>"
  have e: "erase_pos p t = Some u" using q(1) by (simp add: erase_pos_def shiftDown_def u_def)
  note md = moved_downD [OF q(3)] and rd = displaced_runD [OF q(2)]
  have f: "mInfo u = infos'" "mKeyVals u = kvs'" "mMask u = mMask t" "mInfoInc u = mInfoInc t"
    "mNumElements u = mNumElements t - 1" "mMaxNumElementsAllowed u = mMaxNumElementsAllowed t"
    "mInfoHashShift u = mInfoHashShift t"
    and h: "home hash u = home hash t" "home_info hash u = home_info hash t"
    by (auto simp: u_def same_hashing_def intro: home_same)
  have ok': "slots_ok (home hash u) (home_info hash u) (mInfoInc u) (mMask u + 1) (mInfo u) (mKeyVals u)"
    unfolding f h by (rule moved_down_slots_ok [OF ok q(2) p(2) q(3)])
  have i0: "0 < mInfoInc t" using inc by simp
  note st' = moved_down_stored [OF q(3,2) i0] and oc = moved_down_occupied [OF q(3,2) i0 p(2)]
  have "card (occupied infos' kvs') = card (occupied (mInfo t) (mKeyVals t)) - 1" using oc by simp
  moreover have "info_fits u" if "info_fits t"
    unfolding info_fits_def f
  proof (intro allI impI)
    fix j assume j: "j < length kvs'"
    have "mInfo t ! Suc j - mInfoInc t + mInfoInc t \<le> 255" if "p \<le> j" "j < q"
      using rd(2) rd(4) [OF that] small [of "Suc j"] that by simp
    then show "infos' ! j + mInfoInc t \<le> 255"
      using j md(2) md(3) [of j] \<open>info_fits t\<close> unfolding info_fits_def by (cases "j = q") fastforce+
  qed
  ultimately have "storage_inv hash u"
    using storage_invD [OF s] ok' md(2) unfolding storage_inv_def f by auto
  moreover have "table_map u = (table_map t)(k := None)"
  proof (intro ext option_eqI)
    fix k' v'
    have d: "i = j" if "stored_at t i k' v'" "stored_at t j k' w'" for i j k' v' w'
      using slots_okD(6) [OF ok] that unfolding keys_distinct_def by blast
    show "table_map u k' = Some v' \<longleftrightarrow> ((table_map t)(k := None)) k' = Some v'"
    proof (cases "k' = k")
      case True
      have "\<not> stored infos' kvs' j k v'" for j
      proof
        assume a: "stored infos' kvs' j k v'"
        then show False using st' [of j k v'] d [OF _ st] rd(1) by (auto split: if_splits)
      qed
      then show ?thesis using True by (simp add: table_map_stored [OF ok'] f)
    next
      case False
      have "(\<exists>j. stored infos' kvs' j k' v') \<longleftrightarrow> (\<exists>i. stored_at t i k' v')"
      proof
        assume "\<exists>j. stored infos' kvs' j k' v'"
        then show "\<exists>i. stored_at t i k' v'" using st' by (metis (full_types))
      next
        assume "\<exists>i. stored_at t i k' v'"
        then obtain i where i: "stored_at t i k' v'" by blast
        then have ip: "i \<noteq> p" using st False by (auto simp: stored_def)
        have "stored infos' kvs' (if p < i \<and> i \<le> q then i - 1 else i) k' v'"
          using st' [of "i - 1" k' v'] st' [of i k' v'] i ip rd(1) by auto
        then show "\<exists>j. stored infos' kvs' j k' v'" by blast
      qed
      then show ?thesis using False by (simp add: table_map_stored [OF ok'] table_map_stored [OF ok] f)
    qed
  qed
  ultimately show ?thesis using e by blast
qed

lemma eraseLoop_ok:
  assumes s: "storage_inv hash t"
  shows "home hash t k \<le> i \<Longrightarrow> i \<le> length (mKeyVals t) \<Longrightarrow> (\<forall>j v. stored_at t j k v \<longrightarrow> i \<le> j)
    \<Longrightarrow> eraseLoop t k (probe_info (home hash t) (home_info hash t) (mInfoInc t) k i) i
      = (if table_map t k = None then Some (0, t)
         else map_option (\<lambda>u. (1, u)) (erase_pos (SOME p. \<exists>v. stored_at t p k v) t))"
proof (induction "length (mInfo t) - i" arbitrary: i rule: less_induct)
  case less
  note ok = storage_invD(5) [OF s]
  note len = sentinelD(1) [OF slots_okD(3) [OF ok]]
  let ?p = "probe_info (home hash t) (home_info hash t) (mInfoInc t) k"
  have li: "i < length (mInfo t)" "i + 1 < length (mInfo t)" using less.prems(2) len by auto
  note unf = eraseLoop.simps [of t k "?p i" i] entry_matches_stored [OF ok li(1) less.prems(1)]
  show ?case
  proof (cases "\<exists>v. stored_at t i k v")
    case True
    then obtain v where v: "stored_at t i k v" by blast
    have "(SOME p. \<exists>v. stored_at t p k v) = i"
      using v slots_okD(6) [OF ok] unfolding keys_distinct_def by (intro some_equality) blast+
    moreover have "table_map t k \<noteq> None" using v table_map_None [OF ok] by blast
    ultimately show ?thesis unfolding unf using True by simp
  next
    case False
    have ge: "\<forall>j v. stored_at t j k v \<longrightarrow> i + 1 \<le> j"
    proof (intro allI impI)
      fix j v assume "stored_at t j k v"
      with False less.prems(3) have "i \<le> j" "j \<noteq> i" by auto
      then show "i + 1 \<le> j" by simp
    qed
    have no: "(\<exists>v. stored_at t i k v) = False" using False by simp
    have step: "?p i + mInfoInc t = ?p (i + 1)" using less.prems(1) by simp
    show ?thesis
    proof (cases "?p (i + 1) \<le> mInfo t ! (i + 1)")
      case True
      from probe_in_range [OF ok True li(2)] have l: "i + 1 \<le> length (mKeyVals t)" by simp
      have "length (mInfo t) - (i + 1) < length (mInfo t) - i" using li by simp
      from less.hyps [OF this _ l ge] less.prems(1) show ?thesis
        unfolding unf no step using True li(2) by simp
    next
      case stop: False
      have "\<not> stored_at t j k v" for j v
        using absent_from [OF ok, of k "i + 1" j v] stop ge less.prems(1) by fastforce
      then have "table_map t k = None" using table_map_None [OF ok] by blast
      then show ?thesis unfolding unf no step using stop li(2) by simp
    qed
  qed
qed

lemma erase_key_ok:
  assumes inv: "table_inv hash t"
  shows "\<exists>u. erase_key hash k t = Some (if table_map t k = None then 0 else 1, u)
    \<and> table_inv hash u \<and> table_map u = (table_map t)(k := None)"
proof (cases "no_storage t")
  case True
  then have h: "home hash t k = 0" using home_less [of hash t k] by (simp add: no_storage_def)
  have "home_info hash t k \<ge> 32"
    using True by (simp add: home_info_bits no_storage_def InitialInfoInc_def InitialInfoNumBits_def)
  with True h have "erase_key hash k t = Some (0, t)"
    by (simp add: erase_key_def keyToIdx_home eraseLoop.simps entry_matches_def no_storage_def)
  with inv True show ?thesis by (simp add: no_storage_map)
next
  case False
  with inv have s: "storage_inv hash t" by (simp add: table_inv_def)
  note ok = storage_invD(5) [OF s]
  have "home hash t k \<le> length (mKeyVals t)" using home_less [of hash t k] slots_okD(2) [OF ok] by simp
  moreover have "\<forall>j v. stored_at t j k v \<longrightarrow> home hash t k \<le> j" using stored_info(2) [OF ok] by blast
  ultimately have e: "erase_key hash k t = (if table_map t k = None then Some (0, t)
         else map_option (\<lambda>u. (1, u)) (erase_pos (SOME p. \<exists>v. stored_at t p k v) t))"
    using eraseLoop_ok [OF s order_refl, of k] by (simp add: erase_key_def keyToIdx_home)
  show ?thesis
  proof (cases "table_map t k")
    case None
    then have "(table_map t)(k := None) = table_map t" by auto
    with e None inv show ?thesis by simp
  next
    case (Some w)
    then have "\<exists>p v. stored_at t p k v" using table_map_stored [OF ok] by blast
    then have "\<exists>v. stored_at t (SOME p. \<exists>v. stored_at t p k v) k v" by (rule someI_ex)
    then obtain v where "stored_at t (SOME p. \<exists>v. stored_at t p k v) k v" by (rule exE)
    from erase_pos_ok [OF s this] e Some show ?thesis by (auto simp: table_inv_def)
  qed
qed

section \<open>Clearing, reserving, compacting\<close>

lemma occupied_empty_map:
  assumes s: "storage_inv hash t"
  shows "mNumElements t = 0 \<longleftrightarrow> table_map t = Map.empty"
  using table_inv_size [of hash t] s
  by (auto simp: table_inv_def table_map_def finite_dom_map_of)

lemma clear_ok:
  assumes inv: "table_inv hash t"
  shows "table_inv hash (clear t)" "table_map (clear t) = Map.empty"
proof -
  have "table_inv hash (clear t) \<and> table_map (clear t) = Map.empty"
  proof (cases "table_empty t")
    case True
    then have "mNumElements t = 0" by (simp add: table_empty_def)
    then have "table_map t = Map.empty" using inv occupied_empty_map [of hash t] no_storage_map
      by (auto simp: table_inv_def)
    with True inv show ?thesis by (simp add: clear_def)
  next
    case False
    with inv have s: "storage_inv hash t" by (auto simp: table_inv_def no_storage_def table_empty_def)
    let ?u = "clear t" and ?b = "calcNumElementsWithBuffer (mMask t + 1)"
    have u: "mMask ?u = mMask t" "mKeyVals ?u = mKeyVals t" "mInfo ?u = (replicate (?b + 8) 0)[?b := 1]"
      "mNumElements ?u = 0" "mInfoInc ?u = 32" "mInfoHashShift ?u = 0"
      "mMaxNumElementsAllowed ?u = mMaxNumElementsAllowed t"
      using False by (simp_all add: clear_def Let_def calcNumBytesInfo_def InitialInfoInc_def
          InitialInfoNumBits_def InitialInfoHashShift_def)
    have L: "length (mKeyVals t) = ?b" by (rule storage_invD(4) [OF s])
    have z: "mInfo ?u ! i = 0" if "i < ?b" for i using that u by simp
    have o: "occupied (mInfo ?u) (mKeyVals ?u) = {}" using z u(2) L by (auto simp: occupied_def)
    have ok: "slots_ok (home hash ?u) (home_info hash ?u) (mInfoInc ?u) (mMask ?u + 1) (mInfo ?u) (mKeyVals ?u)"
      unfolding slots_ok_def
    proof (intro conjI)
      show "probing (home hash ?u) (home_info hash ?u) (mInfoInc ?u) (mMask ?u + 1)"
        by (rule table_probing) (simp_all add: u)
      show "mMask ?u + 1 \<le> length (mKeyVals ?u)" using slots_okD(2) [OF storage_invD(5) [OF s]] by (simp add: u)
      show "sentinel_ok (mInfo ?u) (mKeyVals ?u)" using L by (simp add: sentinel_ok_def u)
      show "entries_ok (home hash ?u) (home_info hash ?u) (mInfoInc ?u) (mInfo ?u) (mKeyVals ?u)"
        using z u(2) L by (simp add: entries_ok_def)
      show "steps_ok (mInfoInc ?u) (mInfo ?u) (mKeyVals ?u)" using z u(2,5) L by (simp add: steps_ok_def)
      show "keys_distinct (mInfo ?u) (mKeyVals ?u)" using z u(2) L by (auto simp: keys_distinct_def stored_def)
    qed
    have "info_fits ?u" using z L u by (simp add: info_fits_def)
    then have i: "storage_inv hash ?u"
      using storage_invD [OF s] ok o unfolding storage_inv_def by (auto simp: u)
    with occupied_empty_map [OF i] u(4) show ?thesis by (simp add: table_inv_def)
  qed
  then show "table_inv hash (clear t)" "table_map (clear t) = Map.empty" by auto
qed


lemma growSize_some:
  assumes "e \<le> 64"
  shows "\<exists>n. growSize (Suc (64 - e)) m (2 ^ e mod 2 ^ 64) = Some n \<and> (n = 0 \<or> m \<le> calcMaxNumElementsAllowed n \<and> 2 ^ e \<le> n)"
  using assms
proof (induction "64 - e" arbitrary: e)
  case 0
  then show ?case by simp
next
  case (Suc d)
  then have e: "e < 64" "d = 64 - Suc e" "Suc e \<le> 64" by auto
  have p: "(2 :: nat) ^ e mod 2 ^ 64 = 2 ^ e" using e(1) by (intro mod_less power_strict_increasing) auto
  show ?case
  proof (cases "calcMaxNumElementsAllowed (2 ^ e) < m")
    case False
    then show ?thesis using p by auto
  next
    case True
    have "64 - e = Suc (64 - Suc e)" using e by simp
    then have "growSize (Suc (64 - e)) m (2 ^ e mod 2 ^ 64) = growSize (Suc (64 - Suc e)) m (2 ^ Suc e mod 2 ^ 64)"
      using True unfolding p by (simp add: mult.commute)
    with Suc.hyps(1) [OF e(2,3)] show ?thesis by (auto intro: order_trans)
  qed
qed

lemma growSize_initial:
  "\<exists>n. growSize 62 m InitialNumElements = Some n \<and> (n = 0 \<or> m \<le> calcMaxNumElementsAllowed n \<and> 8 \<le> n)"
  using growSize_some [of 3 m] by (simp add: InitialNumElements_def)

lemma rehash_empty: "no_storage t \<Longrightarrow> rehashPowerOfTwo hash n t = Done (initData n t)"
  by (simp add: rehashPowerOfTwo_def no_storage_def calcNumElementsWithBuffer_def calcMaxNumElementsAllowed_def)

lemma rehash_map:
  assumes inv: "table_inv hash t" and n: "8 \<le> n" "mNumElements t \<le> calcMaxNumElementsAllowed n"
  shows "throws_or (\<lambda>u. table_inv hash u \<and> table_map u = table_map t) (rehashPowerOfTwo hash n t)"
proof (cases "no_storage t")
  case True
  then show ?thesis using initData_inv(1) [OF n(1), of hash t] initData_inv(2) [OF n(1), of t]
    by (simp add: rehash_empty no_storage_map table_inv_def)
next
  case False
  with inv have "storage_inv hash t" by (simp add: table_inv_def)
  from rehash_ok [OF this n, of t] show ?thesis by (auto elim!: throws_or_mono simp: table_inv_def)
qed

lemma reserve_impl_ok:
  assumes inv: "table_inv hash t"
  shows "throws_or (\<lambda>u. table_inv hash u \<and> table_map u = table_map t) (reserve_impl hash c force t)"
  using growSize_initial [of "max c (mNumElements t)"] rehash_map [OF inv] inv
  by (auto simp: reserve_impl_def defined_def)

lemma compact_table_ok:
  assumes inv: "table_inv hash t"
  shows "throws_or (\<lambda>u. table_inv hash u \<and> table_map u = table_map t) (compact_table hash t)"
  using growSize_initial [of "mNumElements t"] rehash_map [OF inv] inv
  by (auto simp: compact_table_def defined_def)

section \<open>Whole tables\<close>

lemma empty_table_ok: "no_storage empty_table" "table_map empty_table = Map.empty"
proof -
  show n: "no_storage empty_table"
    by (simp add: no_storage_def empty_table_def)
  show "table_map empty_table = Map.empty" by (rule no_storage_map [OF n])
qed

lemma init_table_ok: "no_storage (init_table t)" "table_map (init_table t) = Map.empty"
proof -
  show n: "no_storage (init_table t)" by (simp add: no_storage_def init_table_def)
  show "table_map (init_table t) = Map.empty" by (rule no_storage_map [OF n])
qed

lemma mask_storage: "table_inv hash t \<Longrightarrow> mMask t = 0 \<longleftrightarrow> no_storage t"
  by (auto simp: table_inv_def no_storage_def storage_inv_def)

lemma table_empty_map: "table_inv hash t \<Longrightarrow> table_empty t \<longleftrightarrow> table_map t = Map.empty"
  using occupied_empty_map [of hash t] no_storage_map [of t]
  by (auto simp: table_inv_def table_empty_def no_storage_def)

lemma move_construct_ok:
  assumes "table_inv hash s" "move_construct s = (u, s')"
  shows "table_inv hash u \<and> table_map u = table_map s \<and> table_inv hash s' \<and> table_map s' = Map.empty"
  using assms mask_storage [OF assms(1)] init_table_ok [of s] empty_table_ok no_storage_map [of s]
  by (auto simp: move_construct_def table_inv_def split: if_splits)

lemma move_assign_ok:
  assumes "table_inv hash t" "table_inv hash s" "move_assign t s = (u, s')"
  shows "table_inv hash u \<and> table_map u = table_map s \<and> table_inv hash s' \<and> table_map s' = Map.empty"
  using assms mask_storage [OF assms(2)] init_table_ok [of s] clear_ok [OF assms(1)] no_storage_map [of s]
  by (auto simp: move_assign_def table_inv_def split: if_splits)

lemma copy_construct_ok:
  assumes "table_inv hash s"
  shows "table_inv hash (copy_construct s) \<and> table_map (copy_construct s) = table_map s"
  using assms table_empty_map [OF assms] empty_table_ok by (auto simp: copy_construct_def table_inv_def)

lemma copy_assign_ok:
  assumes "table_inv hash t" "table_inv hash s"
  shows "table_inv hash (copy_assign t s) \<and> table_map (copy_assign t s) = table_map s"
  using assms table_empty_map [OF assms(2)] mask_storage [OF assms(1)] init_table_ok [of t] no_storage_map [of t]
  by (auto simp: copy_assign_def table_inv_def)

section \<open>Iterating\<close>

lemma fastForward_first:
  assumes s: "sentinel_ok infos kvs"
  shows "i \<le> length kvs \<Longrightarrow> \<exists>j. fastForward infos i = Some j \<and> i \<le> j \<and> j \<le> length kvs \<and> infos ! j \<noteq> 0
    \<and> (\<forall>l. i \<le> l \<and> l < j \<longrightarrow> infos ! l = 0)"
proof (induction "length infos - i" arbitrary: i rule: less_induct)
  case less
  note sd = sentinelD [OF s]
  let ?w = "take 8 (drop i infos)"
  have i8: "i + 8 \<le> length infos" using less.prems sd(1) by simp
  have nth: "?w ! l = infos ! (i + l)" if "l < 8" for l using that i8 by simp
  have lw: "length ?w = 8" using i8 by simp
  show ?case
  proof (cases "\<forall>b \<in> set ?w. b = 0")
    case True
    then have z: "infos ! (i + l) = 0" if "l < 8" for l using that nth lw by (metis nth_mem)
    have i8k: "i + 8 \<le> length kvs"
    proof (rule ccontr)
      assume "\<not> i + 8 \<le> length kvs"
      then have "infos ! (i + (length kvs - i)) = 0" using less.prems by (intro z) simp
      with less.prems sd(2) show False by simp
    qed
    have "length infos - (i + 8) < length infos - i" using i8 by simp
    from less.hyps [OF this i8k] obtain j where j: "fastForward infos (i + 8) = Some j" "i + 8 \<le> j" "j \<le> length kvs"
      "infos ! j \<noteq> 0" "\<forall>l. i + 8 \<le> l \<and> l < j \<longrightarrow> infos ! l = 0" by blast
    have "infos ! l = 0" if "i \<le> l" "l < j" for l
      using that j(5) z [of "l - i"] by (cases "i + 8 \<le> l") auto
    with j True i8 show ?thesis by (intro exI [of _ j]) (auto simp: fastForward.simps [of infos i])
  next
    case False
    let ?n = "length (takeWhile (\<lambda>b. b = 0) ?w)"
    have n: "?n < 8" "?w ! ?n \<noteq> 0"
    proof -
      have "dropWhile (\<lambda>b. b = 0) ?w \<noteq> []" using False by (auto simp: dropWhile_eq_Nil_conv)
      moreover have "?n + length (dropWhile (\<lambda>b. b = 0) ?w) = length ?w"
        by (metis length_append takeWhile_dropWhile_id)
      ultimately show "?n < 8" using lw by (cases "dropWhile (\<lambda>b. b = 0) ?w") auto
      then show "?w ! ?n \<noteq> 0" using nth_length_takeWhile [of "\<lambda>b. b = 0" ?w] lw by simp
    qed
    have z: "infos ! l = 0" if "i \<le> l" "l < i + ?n" for l
    proof -
      have l: "l - i < ?n" using that by linarith
      then have "takeWhile (\<lambda>b. b = 0) ?w ! (l - i) \<in> set (takeWhile (\<lambda>b. b = 0) ?w)" by (rule nth_mem)
      then have "takeWhile (\<lambda>b. b = 0) ?w ! (l - i) = 0" by (auto dest: set_takeWhileD)
      then have "?w ! (l - i) = 0" using takeWhile_nth [OF l] by simp
      with nth [of "l - i"] l n(1) that show ?thesis by simp
    qed
    have "i + ?n \<le> length kvs"
    proof (rule ccontr)
      assume "\<not> i + ?n \<le> length kvs"
      then have "infos ! length kvs = 0" using less.prems by (intro z) auto
      with sd(2) show False by simp
    qed
    moreover have "fastForward infos i = Some (i + ?n)"
      by (subst fastForward.simps) (simp only: False i8 if_True if_False)
    moreover have "infos ! (i + ?n) \<noteq> 0" using n nth [of ?n] by simp
    ultimately show ?thesis using z by (intro exI [of _ "i + ?n"]) simp
  qed
qed

lemma all_entries_ok:
  assumes s: "storage_inv hash t" and P: "\<And>e. P e = Done (p e)"
  shows "idx \<le> length (mKeyVals t) \<Longrightarrow> idx < length (mKeyVals t) \<longrightarrow> mInfo t ! idx \<noteq> 0
    \<Longrightarrow> length (mKeyVals t) - idx < fuel
    \<Longrightarrow> all_entries fuel P t idx = Done (\<forall>j k v. idx \<le> j \<longrightarrow> stored_at t j k v \<longrightarrow> p (k, v))"
proof (induction fuel arbitrary: idx)
  case 0
  then show ?case by simp
next
  case (Suc fuel)
  note ok = storage_invD(5) [OF s]
  have ei: "endIdx t = length (mKeyVals t)" using storage_invD(1) [OF s] by (simp add: endIdx_def)
  show ?case
  proof (cases "idx = length (mKeyVals t)")
    case True
    then have "\<not> (idx \<le> j \<and> stored_at t j k v)" for j k v by (auto simp: stored_def)
    then show ?thesis using True ei by auto
  next
    case False
    then have i: "idx < length (mKeyVals t)" "mInfo t ! idx \<noteq> 0" using Suc.prems by auto
    from entriesE [OF slots_okD(4) [OF ok] i] obtain k v where kv: "mKeyVals t ! idx = Some (k, v)"
      "stored_at t idx k v" by metis
    have "idx + 1 \<le> length (mKeyVals t)" using i by simp
    from fastForward_first [OF slots_okD(3) [OF ok] this] obtain j where j: "next_idx t idx = Some j"
      "idx + 1 \<le> j" "j \<le> length (mKeyVals t)" "mInfo t ! j \<noteq> 0" "\<forall>l. idx + 1 \<le> l \<and> l < j \<longrightarrow> mInfo t ! l = 0"
      by (auto simp: next_idx_def)
    have rec: "all_entries fuel P t j = Done (\<forall>l k v. j \<le> l \<longrightarrow> stored_at t l k v \<longrightarrow> p (k, v))"
      by (rule Suc.IH [OF j(3)]) (use j Suc.prems(3) i in auto)
    have split: "(\<forall>l k' v'. idx \<le> l \<longrightarrow> stored_at t l k' v' \<longrightarrow> p (k', v'))
        \<longleftrightarrow> p (k, v) \<and> (\<forall>l k v. j \<le> l \<longrightarrow> stored_at t l k v \<longrightarrow> p (k, v))" (is "?l \<longleftrightarrow> ?r")
    proof
      assume ?l
      have "idx \<le> l" if "j \<le> l" for l using that j(2) by simp
      with \<open>?l\<close> kv(2) show ?r by blast
    next
      assume r: ?r
      show ?l
      proof (intro allI impI)
        fix l k' v' assume l: "idx \<le> l" "stored_at t l k' v'"
        then have "l = idx \<or> j \<le> l" using j(5) by (cases "l = idx"; cases "l < j") (auto simp: stored_def)
        then consider "l = idx" | "j \<le> l" by blast
        then show "p (k', v')" using r l(2) kv(1) by cases (auto simp: stored_def)
      qed
    qed
    show ?thesis unfolding split using False ei i(1) kv(1) P [of "(k, v)"] j(1) rec by (simp add: defined_def)
  qed
qed

lemma has_map: "table_inv hash t \<Longrightarrow> has hash t e = Done (table_map t (fst e) = Some (snd e))"
  using findIdx_found [of hash t "fst e"] stored_not_end [of hash t _ "fst e"]
  by (cases "table_map t (fst e)") (auto simp: has_def defined_def)

lemma table_equal_map:
  assumes t: "table_inv hash t" and other: "table_inv hash' other"
  shows "table_equal hash t other = Done (table_map t = table_map other)"
proof (cases "table_size other = table_size t")
  case False
  then have "table_map t \<noteq> table_map other"
    using table_inv_size [OF t] table_inv_size [OF other] by (auto simp: table_size_def)
  with False show ?thesis by (simp add: table_equal_def)
next
  case size: True
  have fin: "finite (dom (table_map u))" for u by (simp add: table_map_def finite_dom_map_of)
  have card: "card (dom (table_map other)) = card (dom (table_map t))"
    using size table_inv_size [OF t] table_inv_size [OF other] by (simp add: table_size_def)
  show ?thesis
  proof (cases "table_empty other")
    case True
    then have "table_empty t" using size by (simp add: table_empty_def table_size_def)
    with True have "table_map t = table_map other" using table_empty_map [OF t] table_empty_map [OF other] by simp
    moreover have "table_equal hash t other = Done True"
      using True size by (simp add: table_equal_def begin_idx_def defined_def)
    ultimately show ?thesis by simp
  next
    case False
    with other have s: "storage_inv hash' other" by (auto simp: table_inv_def no_storage_def table_empty_def)
    note ok = storage_invD(5) [OF s]
    from fastForward_first [OF slots_okD(3) [OF ok], of 0] obtain j where j: "begin_idx other = Some j"
      "j \<le> length (mKeyVals other)" "mInfo other ! j \<noteq> 0" "\<forall>l < j. mInfo other ! l = 0"
      using False by (auto simp: begin_idx_def)
    have "all_entries (length (mKeyVals other) + 1) (has hash t) other j
        = Done (\<forall>l k v. j \<le> l \<longrightarrow> stored_at other l k v \<longrightarrow> table_map t (fst (k, v)) = Some (snd (k, v)))"
      by (rule all_entries_ok [OF s has_map [OF t] j(2)]) (use j in auto)
    moreover have "(\<forall>l k v. j \<le> l \<longrightarrow> stored_at other l k v \<longrightarrow> table_map t (fst (k, v)) = Some (snd (k, v)))
        \<longleftrightarrow> table_map other \<subseteq>\<^sub>m table_map t"
    proof -
      have "j \<le> l" if "stored_at other l k v" for l k v
        using j(4) that by (auto simp: stored_def linorder_not_less [symmetric])
      then have "(\<forall>l k v. j \<le> l \<longrightarrow> stored_at other l k v \<longrightarrow> table_map t (fst (k, v)) = Some (snd (k, v)))
        \<longleftrightarrow> (\<forall>k v. table_map other k = Some v \<longrightarrow> table_map t k = Some v)"
        unfolding table_map_stored [OF ok] fst_conv snd_conv by blast
      then show ?thesis by (auto simp: map_le_def dom_def)
    qed
    moreover have "table_map other \<subseteq>\<^sub>m table_map t \<longleftrightarrow> table_map t = table_map other"
    proof
      assume le: "table_map other \<subseteq>\<^sub>m table_map t"
      then have "dom (table_map other) = dom (table_map t)"
        by (intro card_subset_eq fin card map_le_implies_dom_le)
      with le show "table_map t = table_map other" by (metis map_le_antisym map_le_def)
    qed simp
    ultimately show ?thesis using size j(1) by (simp add: table_equal_def defined_def)
  qed
qed

section \<open>The interface of the table of identifiers\<close>

definition erase_done :: "('k \<Rightarrow> u64) \<Rightarrow> 'k \<Rightarrow> ('k, 'v) table \<Rightarrow> ('k, 'v) table outcome" where
  "erase_done hash k t = and_then (defined (erase_key hash k t)) (\<lambda>(n, u). Done u)"

interpretation rh: finite_table "table_inv hash" table_map empty_table "subscript_assign hash dflt" "erase_done hash" clear 126
  for hash :: "'k \<Rightarrow> u64" and dflt :: 'v
proof unfold_locales
  show "table_inv hash (empty_table :: ('k, 'v) table)" by (simp add: table_inv_def empty_table_ok(1))
  show "table_map (empty_table :: ('k, 'v) table) = Map.empty" by (rule empty_table_ok(2))
next
  fix t :: "('k, 'v) table" and k and v :: 'v
  assume inv: "table_inv hash t"
  show "throws_or (\<lambda>u. table_inv hash u \<and> table_map u = (table_map t)(k \<mapsto> v)) (subscript_assign hash dflt k v t)"
    by (rule subscript_assign_ok [OF inv])
  show "table_map t k = None \<and> 126 \<le> card (dom (table_map t))" if "subscript_assign hash dflt k v t = Throws"
    using subscript_assign_done [OF inv, of k dflt v] subscript_assign_few [OF inv that] table_inv_size [OF inv] that
    by force
  show "\<exists>u. erase_done hash k t = Done u \<and> table_inv hash u \<and> table_map u = (table_map t)(k := None)"
    using erase_key_ok [OF inv, of k] by (auto simp: erase_done_def defined_def)
  show "table_inv hash (clear t) \<and> table_map (clear t) = Map.empty" using clear_ok [OF inv] by simp
qed

section \<open>Properties\<close>

text \<open>
  C10: a hash map that starts empty and goes through any sequence of assignments, erasures and
  \<open>clear\<close>s never has undefined behaviour, whatever the hash function. Either it answers \<open>contains\<close>,
  \<open>at\<close> and \<open>size\<close> like a finite map that went through the same sequence, or it threw
  \<open>overflow_error\<close>, which can happen only in an assignment of a new key to a map of at least 126 keys:
  with fewer keys growing succeeds even if all keys have the same hash value.
\<close>

theorem hash_map_refines_map:
  "case run_commands (subscript_assign hash dflt) (erase_done hash) clear cs empty_table of
     Done t \<Rightarrow> (\<forall>k. contains hash k t = Done (map_commands cs Map.empty k \<noteq> None)
         \<and> table_at hash k t = (case map_commands cs Map.empty k of Some v \<Rightarrow> Done v | None \<Rightarrow> Throws))
       \<and> table_size t = card (dom (map_commands cs Map.empty))
   | Throws \<Rightarrow> adds_beyond 126 cs Map.empty
   | Undefined \<Rightarrow> False"
  using rh.run_from_empty [where hash = hash and dflt = dflt and cs = cs]
  by (auto simp: table_size_def contains_map table_at_map split: outcome.splits) (metis table_inv_size)

text \<open>A hundred keys with the same hash value.\<close>

theorem hash_map_refines_map_witness:
  "\<exists>t. run_commands (subscript_assign (\<lambda>k. 0) 0) (erase_done (\<lambda>k. 0)) clear
      (map (\<lambda>k. Assign k (k + 1)) [0..<100 :: nat]) empty_table = Done t
    \<and> table_size t = card (dom (map_commands (map (\<lambda>k. Assign k (k + 1)) [0..<100 :: nat]) Map.empty))"
  using hash_map_refines_map [where hash = "\<lambda>k. 0" and dflt = 0 and cs = "map (\<lambda>k. Assign k (k + 1)) [0..<100 :: nat]"]
    adds_beyond_short [of Map.empty "map (\<lambda>k. Assign k (k + 1)) [0..<100 :: nat]" 126]
  by (auto split: outcome.splits)

text \<open>
  C29: assigning through \<open>operator[]\<close> maps the key to the value and nothing else changes, whether the
  key is new, its slot has to be made by moving entries, or the table has to grow first. The
  exception is possible only for a new key in a table that is at its limit and has at least 126 keys.
\<close>

theorem table_assign_correct:
  assumes "table_inv hash t"
  shows "case subscript_assign hash dflt k v t of
     Done u \<Rightarrow> table_inv hash u \<and> table_map u = (table_map t)(k \<mapsto> v)
   | Throws \<Rightarrow> table_map t k = None \<and> mMaxNumElementsAllowed t \<le> mNumElements t \<and> 126 \<le> mNumElements t
   | Undefined \<Rightarrow> False"
  using subscript_assign_ok [OF assms, of k v dflt] subscript_assign_done [OF assms, of k dflt v]
    subscript_assign_few [OF assms, of dflt k v]
  by (cases "subscript_assign hash dflt k v t") (simp_all, metis not_None_eq not_le)

theorem table_assign_correct_witness:
  "case subscript_assign (\<lambda>k. of_nat k) ''none'' (7 :: nat) ''x'' empty_table of
     Done u \<Rightarrow> table_inv (\<lambda>k. of_nat k) u \<and> table_map u = (table_map empty_table)(7 \<mapsto> ''x'')
   | Throws \<Rightarrow> table_map (empty_table :: (nat, string) table) 7 = None
       \<and> mMaxNumElementsAllowed (empty_table :: (nat, string) table) \<le> mNumElements (empty_table :: (nat, string) table)
       \<and> 126 \<le> mNumElements (empty_table :: (nat, string) table)
   | Undefined \<Rightarrow> False"
  by (rule table_assign_correct [OF rh.empty_ok])

text \<open>
  Two hash maps compare equal exactly if they hold the same entries, whatever the sizes of
  their arrays, the places of their entries and their hash functions; the iteration over the
  other map terminates and stays within its arrays.
\<close>

theorem table_equal_correct:
  assumes "table_inv hash t" and "table_inv hash' other"
  shows "table_equal hash t other = Done (table_map t = table_map other)"
  by (rule table_equal_map [OF assms])

theorem table_equal_correct_witness:
  "table_equal (\<lambda>k. of_nat k) (empty_table :: (nat, string) table) empty_table
    = Done (table_map (empty_table :: (nat, string) table) = table_map empty_table)"
  by (rule table_equal_correct [OF rh.empty_ok rh.empty_ok])

end
