(* ===== verification/Json_Lexer.thy ===== *)
theory Json_Lexer
  imports Prelude
begin

unbundle bit_operations_syntax

text \<open>
  The lexer of the JSON library the replay client reads its event lines with
  (includes/nlohmann/detail/input/lexer.hpp).

  The input is a list of bytes; \<open>None\<close> as the current character is the end of the input. Error
  messages are HOL strings. The counters do not wrap. The conversion of a decimal text to a
  floating point number (\<open>strtod\<close> of the C library, which rounds) is an argument, as is the type
  of the floating point values.
\<close>

section \<open>Tokens and state\<close>

datatype token_type =
  uninitialized | literal_true | literal_false | literal_null | value_string | tt_unsigned | tt_integer
| tt_float | begin_array | begin_object | end_array | end_object | name_separator | value_separator
| parse_error | end_of_input | literal_or_value

definition quoted :: "string \<Rightarrow> string" where
  "quoted s = CHR 0x27 # s @ [CHR 0x27]"

fun token_type_name :: "token_type \<Rightarrow> string" where
  "token_type_name uninitialized = ''<uninitialized>''"
| "token_type_name literal_true = ''true literal''"
| "token_type_name literal_false = ''false literal''"
| "token_type_name literal_null = ''null literal''"
| "token_type_name value_string = ''string literal''"
| "token_type_name tt_unsigned = ''number literal''"
| "token_type_name tt_integer = ''number literal''"
| "token_type_name tt_float = ''number literal''"
| "token_type_name begin_array = quoted ''[''"
| "token_type_name begin_object = quoted ''{''"
| "token_type_name end_array = quoted '']''"
| "token_type_name end_object = quoted ''}''"
| "token_type_name name_separator = quoted '':''"
| "token_type_name value_separator = quoted '',''"
| "token_type_name parse_error = ''<parse error>''"
| "token_type_name end_of_input = ''end of input''"
| "token_type_name literal_or_value =
     quoted ''['' @ '', '' @ quoted ''{'' @ '', or a literal''"

record 'f lexer =
  lx_input :: "u8 list"
  lx_current :: "u8 option"
  next_unget :: bool
  chars_read_total :: nat
  chars_read_current_line :: nat
  lines_read :: nat
  token_string :: "u8 list"
  token_buffer :: "u8 list"
  error_message :: string
  value_integer :: int
  value_unsigned :: nat
  value_float :: 'f
  decimal_point_char :: u8
  decimal_point_position :: "nat option"
  ignore_comments :: bool

definition lexer_new :: "u8 \<Rightarrow> 'f \<Rightarrow> bool \<Rightarrow> u8 list \<Rightarrow> 'f lexer" where
  "lexer_new decimal_point zero ignoring bytes =
     \<lparr> lx_input = bytes, lx_current = None, next_unget = False, chars_read_total = 0,
       chars_read_current_line = 0, lines_read = 0, token_string = [], token_buffer = [],
       error_message = '''', value_integer = 0, value_unsigned = 0, value_float = zero,
       decimal_point_char = decimal_point, decimal_point_position = None, ignore_comments = ignoring \<rparr>"

section \<open>Input management\<close>

definition reset_token :: "'f lexer \<Rightarrow> 'f lexer" where
  "reset_token s =
     s\<lparr> token_buffer := [], token_string := (case lx_current s of Some c \<Rightarrow> [c] | None \<Rightarrow> [255]),
        decimal_point_position := None \<rparr>"

definition get_char :: "'f lexer \<Rightarrow> 'f lexer" where
  "get_char s =
     (let s1 = s\<lparr> chars_read_total := chars_read_total s + 1, chars_read_current_line := chars_read_current_line s + 1 \<rparr>;
          s2 = (if next_unget s1 then s1\<lparr> next_unget := False \<rparr>
                else case lx_input s1 of
                  [] \<Rightarrow> s1\<lparr> lx_current := None \<rparr>
                | c # cs \<Rightarrow> s1\<lparr> lx_current := Some c, lx_input := cs \<rparr>);
          s3 = (case lx_current s2 of
                  Some c \<Rightarrow> s2\<lparr> token_string := token_string s2 @ [c] \<rparr>
                | None \<Rightarrow> s2)
      in if lx_current s3 = Some 10
         then s3\<lparr> lines_read := lines_read s3 + 1, chars_read_current_line := 0 \<rparr> else s3)"

definition unget_char :: "'f lexer \<Rightarrow> 'f lexer" where
  "unget_char s =
     (let s1 = s\<lparr> next_unget := True, chars_read_total := chars_read_total s - 1 \<rparr>;
          s2 = (if chars_read_current_line s1 = 0 then s1\<lparr> lines_read := lines_read s1 - 1 \<rparr>
                else s1\<lparr> chars_read_current_line := chars_read_current_line s1 - 1 \<rparr>)
      in if lx_current s2 \<noteq> None then s2\<lparr> token_string := butlast (token_string s2) \<rparr> else s2)"

definition add_byte :: "u8 \<Rightarrow> 'f lexer \<Rightarrow> 'f lexer" where
  "add_byte c s = s\<lparr> token_buffer := token_buffer s @ [c] \<rparr>"

definition error :: "string \<Rightarrow> 'f lexer \<Rightarrow> 'f lexer" where
  "error msg s = s\<lparr> error_message := msg \<rparr>"

text \<open>How many characters can still be read; the loops below take a character in each round.\<close>

definition remaining :: "'f lexer \<Rightarrow> nat" where
  "remaining s = length (lx_input s) + (if next_unget s \<and> lx_current s \<noteq> None then 1 else 0)"

lemma remaining_get: "remaining (get_char s) \<le> remaining s"
  by (auto simp: remaining_def get_char_def Let_def split: list.splits option.splits)

lemma remaining_get_Some: "lx_current (get_char s) = Some c \<Longrightarrow> remaining (get_char s) < remaining s"
  by (auto simp: remaining_def get_char_def Let_def split: list.splits option.splits if_splits)

lemma remaining_simps [simp]:
  "remaining (add_byte c s) = remaining s" "remaining (error m s) = remaining s"
  "remaining (reset_token s) = remaining s"
  by (simp_all add: remaining_def add_byte_def error_def reset_token_def)

lemma next_unget_get [simp]: "\<not> next_unget (get_char s)"
  by (auto simp: get_char_def Let_def split: list.splits option.splits)

lemma remaining_unget: "\<not> next_unget s \<Longrightarrow> remaining (unget_char s) = remaining s + (if lx_current s = None then 0 else 1)"
  by (simp add: remaining_def unget_char_def Let_def)

section \<open>Strings\<close>

text \<open>The code point of four hexadecimal digits, or \<open>None\<close> for the -1 of an error.\<close>

fun codepoint_digits :: "nat list \<Rightarrow> nat \<Rightarrow> 'f lexer \<Rightarrow> nat option \<times> 'f lexer" where
  "codepoint_digits [] codepoint s = (Some codepoint, s)"
| "codepoint_digits (factor # factors) codepoint s =
     (let s1 = get_char s in
      case lx_current s1 of
        Some c \<Rightarrow>
          if 0x30 \<le> c \<and> c \<le> 0x39 then codepoint_digits factors (codepoint + push_bit factor (unat c - 0x30)) s1
          else if 0x41 \<le> c \<and> c \<le> 0x46 then codepoint_digits factors (codepoint + push_bit factor (unat c - 0x37)) s1
          else if 0x61 \<le> c \<and> c \<le> 0x66 then codepoint_digits factors (codepoint + push_bit factor (unat c - 0x57)) s1
          else (None, s1)
      | None \<Rightarrow> (None, s1))"

definition get_codepoint :: "'f lexer \<Rightarrow> nat option \<times> 'f lexer" where
  "get_codepoint s = codepoint_digits [12, 8, 4, 0] 0 s"

fun bytes_in_range :: "(u8 \<times> u8) list \<Rightarrow> 'f lexer \<Rightarrow> bool \<times> 'f lexer" where
  "bytes_in_range [] s = (True, s)"
| "bytes_in_range ((lo, hi) # ranges) s =
     (let s1 = get_char s in
      case lx_current s1 of
        Some c \<Rightarrow> if lo \<le> c \<and> c \<le> hi then bytes_in_range ranges (add_byte c s1)
                  else (False, error ''invalid string: ill-formed UTF-8 byte'' s1)
      | None \<Rightarrow> (False, error ''invalid string: ill-formed UTF-8 byte'' s1))"

definition next_byte_in_range :: "(u8 \<times> u8) list \<Rightarrow> u8 \<Rightarrow> 'f lexer \<Rightarrow> bool \<times> 'f lexer" where
  "next_byte_in_range ranges current s = bytes_in_range ranges (add_byte current s)"

text \<open>The bytes of a code point.\<close>

definition codepoint_bytes :: "nat \<Rightarrow> u8 list" where
  "codepoint_bytes cp =
     (if cp < 0x80 then [of_nat cp]
      else if cp \<le> 0x7FF then [of_nat (0xC0 OR drop_bit 6 cp), of_nat (0x80 OR (cp AND 0x3F))]
      else if cp \<le> 0xFFFF then
        [of_nat (0xE0 OR drop_bit 12 cp), of_nat (0x80 OR (drop_bit 6 cp AND 0x3F)), of_nat (0x80 OR (cp AND 0x3F))]
      else
        [of_nat (0xF0 OR drop_bit 18 cp), of_nat (0x80 OR (drop_bit 12 cp AND 0x3F)),
         of_nat (0x80 OR (drop_bit 6 cp AND 0x3F)), of_nat (0x80 OR (cp AND 0x3F))])"

definition add_bytes :: "u8 list \<Rightarrow> 'f lexer \<Rightarrow> 'f lexer" where
  "add_bytes bs s = foldl (\<lambda>s b. add_byte b s) s bs"

text \<open>
  What a character of a string does to the scanner: \<open>None\<close> to go on with the next character, or
  the token that \<open>scan_string\<close> returns.
\<close>

definition msg_hex_digits :: string where
  "msg_hex_digits = ''invalid string: '' @ quoted [CHR 0x5C, CHR ''u''] @ '' must be followed by 4 hex digits''"

definition msg_low_surrogate :: string where
  "msg_low_surrogate = ''invalid string: surrogate U+D800..U+DBFF must be followed by U+DC00..U+DFFF''"

definition scan_low_surrogate :: "nat \<Rightarrow> 'f lexer \<Rightarrow> token_type option \<times> 'f lexer" where
  "scan_low_surrogate codepoint1 s =
     (let s1 = get_char s in
      if lx_current s1 = Some 0x5C then
        let s2 = get_char s1 in
        if lx_current s2 = Some 0x75 then
          (case get_codepoint s2 of
             (None, s3) \<Rightarrow> (Some parse_error, error msg_hex_digits s3)
           | (Some codepoint2, s3) \<Rightarrow>
               if 0xDC00 \<le> codepoint2 \<and> codepoint2 \<le> 0xDFFF
               then (None, add_bytes (codepoint_bytes (push_bit 10 codepoint1 + codepoint2 - 0x35FDC00)) s3)
               else (Some parse_error, error msg_low_surrogate s3))
        else (Some parse_error, error msg_low_surrogate s2)
      else (Some parse_error, error msg_low_surrogate s1))"

definition scan_unicode_escape :: "'f lexer \<Rightarrow> token_type option \<times> 'f lexer" where
  "scan_unicode_escape s =
     (case get_codepoint s of
        (None, s1) \<Rightarrow> (Some parse_error, error msg_hex_digits s1)
      | (Some codepoint1, s1) \<Rightarrow>
          if 0xD800 \<le> codepoint1 \<and> codepoint1 \<le> 0xDBFF then scan_low_surrogate codepoint1 s1
          else if 0xDC00 \<le> codepoint1 \<and> codepoint1 \<le> 0xDFFF
          then (Some parse_error,
                error ''invalid string: surrogate U+DC00..U+DFFF must follow U+D800..U+DBFF'' s1)
          else (None, add_bytes (codepoint_bytes codepoint1) s1))"

definition scan_escape :: "'f lexer \<Rightarrow> token_type option \<times> 'f lexer" where
  "scan_escape s =
     (let s1 = get_char s in
      case lx_current s1 of
        Some c \<Rightarrow>
          if c = 0x22 then (None, add_byte 0x22 s1)
          else if c = 0x5C then (None, add_byte 0x5C s1)
          else if c = 0x2F then (None, add_byte 0x2F s1)
          else if c = 0x62 then (None, add_byte 0x08 s1)
          else if c = 0x66 then (None, add_byte 0x0C s1)
          else if c = 0x6E then (None, add_byte 0x0A s1)
          else if c = 0x72 then (None, add_byte 0x0D s1)
          else if c = 0x74 then (None, add_byte 0x09 s1)
          else if c = 0x75 then scan_unicode_escape s1
          else (Some parse_error, error ''invalid string: forbidden character after backslash'' s1)
      | None \<Rightarrow> (Some parse_error, error ''invalid string: forbidden character after backslash'' s1))"

text \<open>Control characters are rejected with a message each.\<close>

definition control_names_00 :: "string list" where
  "control_names_00 =
     [''NUL'', ''SOH'', ''STX'', ''ETX'', ''EOT'', ''ENQ'', ''ACK'', ''BEL'', ''BS'', ''HT'', ''LF'', ''VT'', ''FF'',
      ''CR'', ''SO'', ''SI'']"

definition control_names_10 :: "string list" where
  "control_names_10 =
     [''DLE'', ''DC1'', ''DC2'', ''DC3'', ''DC4'', ''NAK'', ''SYN'', ''ETB'', ''CAN'', ''EM'', ''SUB'', ''ESC'', ''FS'',
      ''GS'', ''RS'', ''US'']"

definition control_message :: "nat \<Rightarrow> string" where
  "control_message c =
     (let hex = ''00'' @ [''01'' ! (c div 16), ''0123456789ABCDEF'' ! (c mod 16)];
          short = (case map_of [(8, CHR ''b''), (9, CHR ''t''), (10, CHR ''n''), (12, CHR ''f''), (13, CHR ''r'')] c of
                     Some letter \<Rightarrow> '' or '' @ [CHR 0x5C, letter]
                   | None \<Rightarrow> '''')
      in ''invalid string: control character U+'' @ hex @ '' ('' @ (control_names_00 @ control_names_10) ! c
         @ '') must be escaped to '' @ [CHR 0x5C, CHR ''u''] @ hex @ short)"

definition plain_character :: "u8 \<Rightarrow> bool" where
  "plain_character c \<longleftrightarrow> 0x20 \<le> c \<and> c \<le> 0x7F \<and> c \<noteq> 0x22 \<and> c \<noteq> 0x5C"

text \<open>The ranges of the bytes that must follow a leading byte, or \<open>None\<close> for an ill-formed one.\<close>

definition following_ranges :: "u8 \<Rightarrow> (u8 \<times> u8) list option" where
  "following_ranges c =
     (if 0xC2 \<le> c \<and> c \<le> 0xDF then Some [(0x80, 0xBF)]
      else if c = 0xE0 then Some [(0xA0, 0xBF), (0x80, 0xBF)]
      else if 0xE1 \<le> c \<and> c \<le> 0xEC \<or> c = 0xEE \<or> c = 0xEF then Some [(0x80, 0xBF), (0x80, 0xBF)]
      else if c = 0xED then Some [(0x80, 0x9F), (0x80, 0xBF)]
      else if c = 0xF0 then Some [(0x90, 0xBF), (0x80, 0xBF), (0x80, 0xBF)]
      else if 0xF1 \<le> c \<and> c \<le> 0xF3 then Some [(0x80, 0xBF), (0x80, 0xBF), (0x80, 0xBF)]
      else if c = 0xF4 then Some [(0x80, 0x8F), (0x80, 0xBF), (0x80, 0xBF)]
      else None)"

definition scan_string_char :: "'f lexer \<Rightarrow> token_type option \<times> 'f lexer" where
  "scan_string_char s =
     (case lx_current s of
        None \<Rightarrow> (Some parse_error, error ''invalid string: missing closing quote'' s)
      | Some c \<Rightarrow>
          if c = 0x22 then (Some value_string, s)
          else if c = 0x5C then scan_escape s
          else if c < 0x20 then (Some parse_error, error (control_message (unat c)) s)
          else if plain_character c then (None, add_byte c s)
          else (case following_ranges c of
                  Some ranges \<Rightarrow>
                    (case next_byte_in_range ranges c s of (ok, s1) \<Rightarrow> (if ok then None else Some parse_error, s1))
                | None \<Rightarrow> (Some parse_error, error ''invalid string: ill-formed UTF-8 byte'' s)))"

lemma remaining_codepoint: "remaining (snd (codepoint_digits fs cp s)) \<le> remaining s"
proof (induction fs arbitrary: cp s)
  case (Cons f fs)
  then show ?case using remaining_get [of s] by (auto simp: Let_def split: option.splits intro: order_trans)
qed simp

lemma remaining_get_codepoint: "remaining (snd (get_codepoint s)) \<le> remaining s"
  unfolding get_codepoint_def by (rule remaining_codepoint)

lemma remaining_bytes: "remaining (snd (bytes_in_range rs s)) \<le> remaining s"
proof (induction rs arbitrary: s)
  case (Cons r rs)
  obtain lo hi where r: "r = (lo, hi)" by (cases r)
  have "remaining (snd (bytes_in_range rs (add_byte c (get_char s)))) \<le> remaining s" for c
    using Cons.IH [of "add_byte c (get_char s)"] remaining_get [of s] by simp
  then show ?case using r remaining_get [of s] by (auto simp: Let_def split: option.splits)
qed simp

lemma remaining_add_bytes [simp]: "remaining (add_bytes bs s) = remaining s"
  by (induction bs arbitrary: s) (simp_all add: add_bytes_def)

lemma remaining_low: "remaining (snd (scan_low_surrogate cp s)) \<le> remaining s"
proof -
  let ?s2 = "get_char (get_char s)"
  have "remaining (snd (get_codepoint ?s2)) \<le> remaining s" "remaining ?s2 \<le> remaining s" "remaining (get_char s) \<le> remaining s"
    using remaining_get_codepoint [of ?s2] remaining_get [of s] remaining_get [of "get_char s"] by linarith+
  then show ?thesis
    by (cases "get_codepoint ?s2") (auto simp: scan_low_surrogate_def Let_def split: option.splits)
qed

lemma remaining_unicode: "remaining (snd (scan_unicode_escape s)) \<le> remaining s"
proof -
  show ?thesis using remaining_get_codepoint [of s] remaining_low [of _ "snd (get_codepoint s)"]
    by (cases "get_codepoint s") (auto simp: scan_unicode_escape_def split: option.splits intro: order_trans)
qed

lemma remaining_escape: "remaining (snd (scan_escape s)) \<le> remaining s"
  using remaining_get [of s] remaining_unicode [of "get_char s"]
  by (auto simp: scan_escape_def Let_def split: option.splits intro: order_trans)

lemma remaining_next_byte: "remaining (snd (next_byte_in_range rs c s)) \<le> remaining s"
  using remaining_bytes [of rs "add_byte c s"] by (simp add: next_byte_in_range_def)

lemma remaining_string_char: "remaining (snd (scan_string_char s)) \<le> remaining s"
  using remaining_escape [of s] remaining_next_byte
  by (auto simp: scan_string_char_def split_def split: option.splits)

function scan_string_loop :: "'f lexer \<Rightarrow> token_type \<times> 'f lexer" where
  "scan_string_loop s =
     (case scan_string_char (get_char s) of
        (Some t, s1) \<Rightarrow> (t, s1)
      | (None, s1) \<Rightarrow> scan_string_loop s1)"
  by pat_completeness auto

lemma string_char_None: "fst (scan_string_char s) = None \<Longrightarrow> lx_current s \<noteq> None"
  by (cases "lx_current s") (simp_all add: scan_string_char_def)

lemma string_char_decreases:
  assumes "scan_string_char (get_char s) = (None, s1)"
  shows "remaining s1 < remaining s"
proof -
  from assms string_char_None [of "get_char s"] obtain c where "lx_current (get_char s) = Some c" by auto
  then show ?thesis using assms remaining_get_Some [of s c] remaining_string_char [of "get_char s"] by simp
qed

termination scan_string_loop
  by (relation "measure remaining") (simp_all add: string_char_decreases [OF sym])

definition scan_string :: "'f lexer \<Rightarrow> token_type \<times> 'f lexer" where
  "scan_string s = scan_string_loop (reset_token s)"

section \<open>Comments\<close>

function line_comment :: "'f lexer \<Rightarrow> bool \<times> 'f lexer" where
  "line_comment s =
     (let s1 = get_char s in
      if lx_current s1 \<in> {Some 10, Some 13, None, Some 0} then (True, s1) else line_comment s1)"
  by pat_completeness auto
termination line_comment
  by (relation "measure remaining") (auto simp: Let_def intro: remaining_get_Some)

function block_comment :: "'f lexer \<Rightarrow> bool \<times> 'f lexer" where
  "block_comment s =
     (let s1 = get_char s in
      if lx_current s1 \<in> {None, Some 0}
      then (False, error (''invalid comment; missing closing '' @ quoted ''*/'') s1)
      else if lx_current s1 = Some 0x2A then
        let s2 = get_char s1 in
        if lx_current s2 = Some 0x2F then (True, s2) else block_comment (unget_char s2)
      else block_comment s1)"
  by pat_completeness auto
termination block_comment
proof (relation "measure remaining", simp)
  fix s s1 s2 :: "'f lexer"
  assume "s1 = get_char s" "lx_current s1 \<notin> {None, Some 0}" "s2 = get_char s1"
  then show "(unget_char s2, s) \<in> measure remaining"
    using remaining_get_Some [of s] remaining_get_Some [of s1] remaining_get [of s1] remaining_unget [of s2]
    by (cases "lx_current s2") auto
next
  fix s s1 :: "'f lexer"
  assume "s1 = get_char s" "lx_current s1 \<notin> {None, Some 0}"
  then show "(s1, s) \<in> measure remaining" using remaining_get_Some [of s] by auto
qed

definition scan_comment :: "'f lexer \<Rightarrow> bool \<times> 'f lexer" where
  "scan_comment s =
     (let s1 = get_char s in
      if lx_current s1 = Some 0x2F then line_comment s1
      else if lx_current s1 = Some 0x2A then block_comment s1
      else (False, error (''invalid comment; expecting '' @ quoted ''/'' @ '' or '' @ quoted ''*'' @ '' after '' @ quoted ''/'') s1))"

section \<open>Numbers\<close>

text \<open>
  The labels of \<open>scan_number\<close> are states; each reads a character and says where to go on. The type
  of the number is changed on entry of some states.
\<close>

datatype number_state =
  Minus | Zero | Any1 | Decimal1 | Decimal2 | Exponent | Exponent_sign | Any2 | Number_done | Number_error

definition digit :: "u8 \<Rightarrow> bool" where "digit c \<longleftrightarrow> 0x30 \<le> c \<and> c \<le> 0x39"

definition digit1 :: "u8 \<Rightarrow> bool" where "digit1 c \<longleftrightarrow> 0x31 \<le> c \<and> c \<le> 0x39"

definition number_minus :: "'f lexer \<Rightarrow> number_state \<times> 'f lexer" where
  "number_minus s =
     (let s1 = get_char s in
      case lx_current s1 of
        Some c \<Rightarrow>
          if c = 0x30 then (Zero, add_byte c s1)
          else if digit1 c then (Any1, add_byte c s1)
          else (Number_error, error (''invalid number; expected digit after '' @ quoted ''-'') s1)
      | None \<Rightarrow> (Number_error, error (''invalid number; expected digit after '' @ quoted ''-'') s1))"

definition add_decimal_point :: "'f lexer \<Rightarrow> 'f lexer" where
  "add_decimal_point s =
     (let s1 = add_byte (decimal_point_char s) s
      in s1\<lparr> decimal_point_position := Some (length (token_buffer s1) - 1) \<rparr>)"

definition number_zero :: "'f lexer \<Rightarrow> number_state \<times> 'f lexer" where
  "number_zero s =
     (let s1 = get_char s in
      case lx_current s1 of
        Some c \<Rightarrow>
          if c = 0x2E then (Decimal1, add_decimal_point s1)
          else if c = 0x65 \<or> c = 0x45 then (Exponent, add_byte c s1)
          else (Number_done, s1)
      | None \<Rightarrow> (Number_done, s1))"

definition number_any1 :: "'f lexer \<Rightarrow> number_state \<times> 'f lexer" where
  "number_any1 s =
     (let s1 = get_char s in
      case lx_current s1 of
        Some c \<Rightarrow>
          if digit c then (Any1, add_byte c s1)
          else if c = 0x2E then (Decimal1, add_decimal_point s1)
          else if c = 0x65 \<or> c = 0x45 then (Exponent, add_byte c s1)
          else (Number_done, s1)
      | None \<Rightarrow> (Number_done, s1))"

definition number_decimal1 :: "'f lexer \<Rightarrow> number_state \<times> 'f lexer" where
  "number_decimal1 s =
     (let s1 = get_char s in
      case lx_current s1 of
        Some c \<Rightarrow>
          if digit c then (Decimal2, add_byte c s1)
          else (Number_error, error (''invalid number; expected digit after '' @ quoted ''.'') s1)
      | None \<Rightarrow> (Number_error, error (''invalid number; expected digit after '' @ quoted ''.'') s1))"

definition number_decimal2 :: "'f lexer \<Rightarrow> number_state \<times> 'f lexer" where
  "number_decimal2 s =
     (let s1 = get_char s in
      case lx_current s1 of
        Some c \<Rightarrow>
          if digit c then (Decimal2, add_byte c s1)
          else if c = 0x65 \<or> c = 0x45 then (Exponent, add_byte c s1)
          else (Number_done, s1)
      | None \<Rightarrow> (Number_done, s1))"

definition msg_exponent :: string where
  "msg_exponent =
     ''invalid number; expected '' @ quoted ''+'' @ '', '' @ quoted ''-'' @ '', or digit after exponent''"

definition number_exponent :: "'f lexer \<Rightarrow> number_state \<times> 'f lexer" where
  "number_exponent s =
     (let s1 = get_char s in
      case lx_current s1 of
        Some c \<Rightarrow>
          if c = 0x2B \<or> c = 0x2D then (Exponent_sign, add_byte c s1)
          else if digit c then (Any2, add_byte c s1)
          else (Number_error, error msg_exponent s1)
      | None \<Rightarrow> (Number_error, error msg_exponent s1))"

definition number_sign :: "'f lexer \<Rightarrow> number_state \<times> 'f lexer" where
  "number_sign s =
     (let s1 = get_char s in
      case lx_current s1 of
        Some c \<Rightarrow>
          if digit c then (Any2, add_byte c s1)
          else (Number_error, error ''invalid number; expected digit after exponent sign'' s1)
      | None \<Rightarrow> (Number_error, error ''invalid number; expected digit after exponent sign'' s1))"

definition number_any2 :: "'f lexer \<Rightarrow> number_state \<times> 'f lexer" where
  "number_any2 s =
     (let s1 = get_char s in
      case lx_current s1 of
        Some c \<Rightarrow> if digit c then (Any2, add_byte c s1) else (Number_done, s1)
      | None \<Rightarrow> (Number_done, s1))"

fun number_step :: "number_state \<Rightarrow> 'f lexer \<Rightarrow> number_state \<times> 'f lexer" where
  "number_step Minus s = number_minus s"
| "number_step Zero s = number_zero s"
| "number_step Any1 s = number_any1 s"
| "number_step Decimal1 s = number_decimal1 s"
| "number_step Decimal2 s = number_decimal2 s"
| "number_step Exponent s = number_exponent s"
| "number_step Exponent_sign s = number_sign s"
| "number_step Any2 s = number_any2 s"
| "number_step Number_done s = (Number_done, s)"
| "number_step Number_error s = (Number_error, s)"

definition type_at :: "number_state \<Rightarrow> token_type \<Rightarrow> token_type" where
  "type_at st ty =
     (if st = Minus then tt_integer else if st = Decimal1 \<or> st = Exponent then tt_float else ty)"

lemmas number_defs = number_minus_def number_zero_def number_any1_def number_decimal1_def number_decimal2_def
  number_exponent_def number_sign_def number_any2_def

lemma remaining_decimal [simp]: "remaining (add_decimal_point s) = remaining s"
  by (simp add: add_decimal_point_def add_byte_def remaining_def Let_def)

lemma number_step_decreases:
  assumes "number_step st s = (st1, s1)" and "st1 \<noteq> Number_done" and "st1 \<noteq> Number_error"
  shows "remaining s1 < remaining s"
  using assms remaining_get_Some [of s]
  by (cases st) (auto simp: number_defs Let_def split: option.splits if_splits)

function number_loop :: "number_state \<Rightarrow> token_type \<Rightarrow> 'f lexer \<Rightarrow> number_state \<times> token_type \<times> 'f lexer" where
  "number_loop st ty s =
     (if st = Number_done \<or> st = Number_error then (st, ty, s)
      else case number_step st s of (st1, s1) \<Rightarrow>
        if st1 = Number_done \<or> st1 = Number_error then (st1, type_at st ty, s1)
        else number_loop st1 (type_at st ty) s1)"
  by pat_completeness auto
termination number_loop
  by (relation "measure (\<lambda>(st, ty, s). remaining s)") (auto intro: number_step_decreases [OF sym])

text \<open>
  The conversions of the C library: the value of the digits, and what is out of range of an
  unsigned or signed 64-bit integer.
\<close>

definition digits_value :: "u8 list \<Rightarrow> nat" where
  "digits_value ds = foldl (\<lambda>v d. 10 * v + (unat d - 0x30)) 0 ds"

definition strtoull :: "u8 list \<Rightarrow> nat option" where
  "strtoull text = (if digits_value text < 2 ^ 64 then Some (digits_value text) else None)"

definition strtoll :: "u8 list \<Rightarrow> int option" where
  "strtoll text =
     (case text of
        c # ds \<Rightarrow>
          if c = 0x2D then (if digits_value ds \<le> 2 ^ 63 then Some (- int (digits_value ds)) else None)
          else (if digits_value text < 2 ^ 63 then Some (int (digits_value text)) else None)
      | [] \<Rightarrow> Some 0)"

definition number_finish :: "(u8 list \<Rightarrow> 'f) \<Rightarrow> token_type \<Rightarrow> 'f lexer \<Rightarrow> token_type \<times> 'f lexer" where
  "number_finish strtod number_type s =
     (let s1 = unget_char s;
          as_float = (tt_float, s1\<lparr> value_float := strtod (token_buffer s1) \<rparr>)
      in if number_type = tt_unsigned then
           (case strtoull (token_buffer s1) of
              Some x \<Rightarrow> (tt_unsigned, s1\<lparr> value_unsigned := x \<rparr>)
            | None \<Rightarrow> as_float)
         else if number_type = tt_integer then
           (case strtoll (token_buffer s1) of
              Some x \<Rightarrow> (tt_integer, s1\<lparr> value_integer := x \<rparr>)
            | None \<Rightarrow> as_float)
         else as_float)"

text \<open>
  A first character that starts no number is excluded by an assertion of the source, behind which
  the control falls through to the next label.
\<close>

definition scan_number :: "(u8 list \<Rightarrow> 'f) \<Rightarrow> 'f lexer \<Rightarrow> token_type \<times> 'f lexer" where
  "scan_number strtod s =
     (let s1 = reset_token s;
          (st, s2) = (case lx_current s1 of
             Some c \<Rightarrow>
               if c = 0x2D then (Minus, add_byte c s1)
               else if c = 0x30 then (Zero, add_byte c s1)
               else if digit1 c then (Any1, add_byte c s1)
               else (Minus, s1)
           | None \<Rightarrow> (Minus, s1))
      in case number_loop st tt_unsigned s2 of (st1, number_type, s3) \<Rightarrow>
           if st1 = Number_done then number_finish strtod number_type s3 else (parse_error, s3))"

section \<open>Literals and tokens\<close>

fun literal_rest :: "u8 list \<Rightarrow> 'f lexer \<Rightarrow> bool \<times> 'f lexer" where
  "literal_rest [] s = (True, s)"
| "literal_rest (c # cs) s =
     (let s1 = get_char s in
      if lx_current s1 = Some c then literal_rest cs s1 else (False, error ''invalid literal'' s1))"

definition scan_literal :: "string \<Rightarrow> token_type \<Rightarrow> 'f lexer \<Rightarrow> token_type \<times> 'f lexer" where
  "scan_literal text return_type s =
     (case literal_rest (map of_char (tl text)) s of (ok, s1) \<Rightarrow> (if ok then return_type else parse_error, s1))"

definition get_string :: "'f lexer \<Rightarrow> u8 list" where
  "get_string s =
     (case decimal_point_position s of
        Some i \<Rightarrow> if decimal_point_char s \<noteq> 0x2E then (token_buffer s)[i := 0x2E] else token_buffer s
      | None \<Rightarrow> token_buffer s)"

definition skip_bom :: "'f lexer \<Rightarrow> bool \<times> 'f lexer" where
  "skip_bom s =
     (let s1 = get_char s in
      if lx_current s1 = Some 0xEF then
        let s2 = get_char s1 in
        if lx_current s2 = Some 0xBB then
          let s3 = get_char s2 in (lx_current s3 = Some 0xBF, s3)
        else (False, s2)
      else (True, unget_char s1))"

definition whitespace :: "u8 \<Rightarrow> bool" where
  "whitespace c \<longleftrightarrow> c = 0x20 \<or> c = 0x09 \<or> c = 0x0A \<or> c = 0x0D"

function skip_whitespace :: "'f lexer \<Rightarrow> 'f lexer" where
  "skip_whitespace s =
     (let s1 = get_char s in
      case lx_current s1 of Some c \<Rightarrow> if whitespace c then skip_whitespace s1 else s1 | None \<Rightarrow> s1)"
  by pat_completeness auto
termination skip_whitespace
  by (relation "measure remaining") (auto simp: Let_def intro: remaining_get_Some)

declare line_comment.simps [simp del] block_comment.simps [simp del] skip_whitespace.simps [simp del]
  scan_string_loop.simps [simp del] number_loop.simps [simp del]

lemma remaining_whitespace: "remaining (skip_whitespace s) \<le> remaining s"
proof (induction s rule: skip_whitespace.induct)
  case (1 s)
  then show ?case using remaining_get [of s]
    by (subst skip_whitespace.simps) (auto simp: Let_def split: option.splits intro: order_trans)
qed

lemma remaining_line: "remaining (snd (line_comment s)) \<le> remaining s"
proof (induction s rule: line_comment.induct)
  case (1 s)
  then show ?case using remaining_get [of s]
    by (subst line_comment.simps) (auto simp: Let_def intro: order_trans)
qed

lemma remaining_block: "remaining (snd (block_comment s)) \<le> remaining s"
proof (induction s rule: block_comment.induct)
  case (1 s)
  let ?s1 = "get_char s" and ?s2 = "get_char (get_char s)"
  have "remaining (unget_char ?s2) \<le> remaining s"
    using remaining_unget [of ?s2] remaining_get [of s] remaining_get [of ?s1] remaining_get_Some [of ?s1]
    by (cases "lx_current ?s2") fastforce+
  then show ?case using 1 remaining_get [of s] remaining_get [of ?s1]
    by (subst block_comment.simps) (auto simp: Let_def intro: order_trans)
qed

lemma comment_decreases:
  assumes "scan_comment s = (True, s1)"
  shows "remaining (skip_whitespace s1) < remaining s"
proof -
  from assms have "lx_current (get_char s) \<noteq> None" by (auto simp: scan_comment_def Let_def split: if_splits)
  then have "remaining (get_char s) < remaining s" using remaining_get_Some by blast
  moreover have "remaining s1 \<le> remaining (get_char s)"
    using assms remaining_line [of "get_char s"] remaining_block [of "get_char s"]
    by (auto simp: scan_comment_def Let_def split: if_splits)
  ultimately show ?thesis using remaining_whitespace [of s1] by linarith
qed

function skip_comments :: "'f lexer \<Rightarrow> bool \<times> 'f lexer" where
  "skip_comments s =
     (if ignore_comments s \<and> lx_current s = Some 0x2F then
        (case scan_comment s of
           (True, s1) \<Rightarrow> skip_comments (skip_whitespace s1)
         | (False, s1) \<Rightarrow> (False, s1))
      else (True, s))"
  by pat_completeness auto
termination skip_comments
  by (relation "measure remaining") (auto intro: comment_decreases [OF sym])

declare skip_comments.simps [simp del]

definition scan_token :: "(u8 list \<Rightarrow> 'f) \<Rightarrow> 'f lexer \<Rightarrow> token_type \<times> 'f lexer" where
  "scan_token strtod s =
     (case lx_current s of
        None \<Rightarrow> (end_of_input, s)
      | Some c \<Rightarrow>
          if c = 0x5B then (begin_array, s)
          else if c = 0x5D then (end_array, s)
          else if c = 0x7B then (begin_object, s)
          else if c = 0x7D then (end_object, s)
          else if c = 0x3A then (name_separator, s)
          else if c = 0x2C then (value_separator, s)
          else if c = 0x74 then scan_literal ''true'' literal_true s
          else if c = 0x66 then scan_literal ''false'' literal_false s
          else if c = 0x6E then scan_literal ''null'' literal_null s
          else if c = 0x22 then scan_string s
          else if c = 0x2D \<or> digit c then scan_number strtod s
          else if c = 0 then (end_of_input, s)
          else (parse_error, error ''invalid literal'' s))"

definition scan :: "(u8 list \<Rightarrow> 'f) \<Rightarrow> 'f lexer \<Rightarrow> token_type \<times> 'f lexer" where
  "scan strtod s =
     (let (bom, s1) = (if chars_read_total s = 0 then skip_bom s else (True, s)) in
      if \<not> bom then (parse_error, error ''invalid BOM; must be 0xEF 0xBB 0xBF if given'' s1)
      else
        (case skip_comments (skip_whitespace s1) of
           (True, s2) \<Rightarrow> scan_token strtod s2
         | (False, s2) \<Rightarrow> (parse_error, s2)))"

text \<open>The text of the current token for error messages, with control characters escaped.\<close>

definition escaped_control :: "u8 \<Rightarrow> string" where
  "escaped_control c =
     (if unat c \<le> 0x1F then ''<U+00'' @ [''01'' ! (unat c div 16), ''0123456789ABCDEF'' ! (unat c mod 16)] @ ''>''
      else [char_of (unat c)])"

definition get_token_string :: "'f lexer \<Rightarrow> string" where
  "get_token_string s = concat (map escaped_control (token_string s))"

section \<open>Progress of the lexer\<close>

lemma remaining_unget_get: "remaining (unget_char (get_char s)) \<le> remaining s"
  using remaining_unget [of "get_char s"] remaining_get [of s] remaining_get_Some [of s]
  by (cases "lx_current (get_char s)") fastforce+

lemma number_step_final:
  assumes "number_step st s = (Number_done, s1)" and "st \<noteq> Number_done"
  shows "remaining (unget_char s1) \<le> remaining s"
  using assms remaining_unget_get [of s]
  by (cases st) (auto simp: number_defs Let_def split: option.splits if_splits)

lemma number_step_le: "number_step st s = (st1, s1) \<Longrightarrow> remaining s1 \<le> remaining s"
  using remaining_get [of s]
  by (cases st) (auto simp: number_defs Let_def split: option.splits if_splits)

lemma number_loop_remaining:
  "st \<noteq> Number_done \<Longrightarrow> number_loop st ty s = (st1, ty1, s1)
    \<Longrightarrow> remaining s1 \<le> remaining s \<and> (st1 = Number_done \<longrightarrow> remaining (unget_char s1) \<le> remaining s)"
proof (induction st ty s rule: number_loop.induct)
  case (1 st ty s)
  show ?case
  proof (cases "st = Number_error")
    case True
    then show ?thesis using 1(3) by (auto simp: number_loop.simps)
  next
    case False
    obtain st2 s2 where step: "number_step st s = (st2, s2)" by (cases "number_step st s")
    show ?thesis
    proof (cases "st2 = Number_done \<or> st2 = Number_error")
      case True
      then show ?thesis using 1(2,3) False step number_step_final number_step_le [OF step]
        by (auto simp: number_loop.simps)
    next
      case no: False
      have "number_loop st2 (type_at st ty) s2 = (st1, ty1, s1)"
        using 1(2,3) False step no by (simp add: number_loop.simps [of st])
      from 1(1) [OF _ step [symmetric] no _ this] number_step_le [OF step] 1(2) False no show ?thesis by auto
    qed
  qed
qed

lemma remaining_finish: "remaining (snd (number_finish strtod ty s)) = remaining (unget_char s)"
  by (auto simp: number_finish_def Let_def remaining_def split: option.splits)

lemma remaining_number: "remaining (snd (scan_number strtod s)) \<le> remaining s"
proof -
  define first where "first = (case lx_current (reset_token s) of
             Some c \<Rightarrow>
               if c = 0x2D then (Minus, add_byte c (reset_token s))
               else if c = 0x30 then (Zero, add_byte c (reset_token s))
               else if digit1 c then (Any1, add_byte c (reset_token s))
               else (Minus, reset_token s)
           | None \<Rightarrow> (Minus, reset_token s))"
  obtain st s2 where f: "first = (st, s2)" by (cases first)
  have st: "st \<noteq> Number_done" "remaining s2 = remaining s"
    using f by (auto simp: first_def split: option.splits if_splits)
  obtain st1 ty s3 where l: "number_loop st tt_unsigned s2 = (st1, ty, s3)" by (cases "number_loop st tt_unsigned s2")
  have "scan_number strtod s = (if st1 = Number_done then number_finish strtod ty s3 else (parse_error, s3))"
    using f l unfolding scan_number_def Let_def first_def by simp
  with number_loop_remaining [OF st(1) l] st(2) remaining_finish [of strtod ty s3] show ?thesis by auto
qed

lemma remaining_literal: "remaining (snd (literal_rest cs s)) \<le> remaining s"
proof (induction cs arbitrary: s)
  case (Cons c cs)
  then show ?case using remaining_get [of s] by (auto simp: Let_def intro: order_trans)
qed simp

lemma remaining_scan_string: "remaining (snd (scan_string_loop s)) \<le> remaining s"
proof (induction s rule: scan_string_loop.induct)
  case (1 s)
  obtain r s1 where c: "scan_string_char (get_char s) = (r, s1)" by (cases "scan_string_char (get_char s)")
  have "remaining s1 \<le> remaining s"
    using remaining_string_char [of "get_char s"] remaining_get [of s] c by simp
  then show ?case using 1 [OF c [symmetric]] c
    by (cases r) (auto simp: scan_string_loop.simps [of s])
qed

lemma remaining_scan_literal: "remaining (snd (scan_literal text t s)) \<le> remaining s"
  using remaining_literal [of "map of_char (tl text)" s] by (simp add: scan_literal_def split_def)

lemma remaining_scan_token: "remaining (snd (scan_token strtod s)) \<le> remaining s"
  using remaining_number [of strtod s] remaining_scan_string [of "reset_token s"] remaining_scan_literal [of _ _ s]
  by (auto simp: scan_token_def scan_string_def split: option.splits)

lemma whitespace_stop:
  "remaining (skip_whitespace s) < remaining s \<or> lx_current (skip_whitespace s) = None"
proof (induction s rule: skip_whitespace.induct)
  case (1 s)
  show ?case
  proof (cases "lx_current (get_char s)")
    case None
    then show ?thesis by (simp add: skip_whitespace.simps [of s])
  next
    case (Some c)
    with remaining_get_Some [OF Some] 1 [OF refl Some] show ?thesis
      by (auto simp: skip_whitespace.simps [of s] Let_def)
  qed
qed

lemma comments_le: "remaining (snd (skip_comments s)) \<le> remaining s
  \<and> (fst (skip_comments s) \<longrightarrow> remaining (snd (skip_comments s)) < remaining s
      \<or> lx_current (snd (skip_comments s)) = lx_current s \<or> lx_current (snd (skip_comments s)) = None)"
proof (induction s rule: skip_comments.induct)
  case (1 s)
  show ?case
  proof (cases "ignore_comments s \<and> lx_current s = Some 0x2F")
    case False
    have "skip_comments s = (True, s)" by (subst skip_comments.simps) (simp only: False if_False)
    then show ?thesis by simp
  next
    case True
    obtain b s1 where c: "scan_comment s = (b, s1)" by (cases "scan_comment s")
    show ?thesis
    proof (cases b)
      case b: True
      have c': "scan_comment s = (True, s1)" using c b by simp
      have "remaining (skip_whitespace s1) < remaining s" using c' by (rule comment_decreases)
      moreover have "skip_comments s = skip_comments (skip_whitespace s1)"
        using True c' by (simp add: skip_comments.simps [of s])
      ultimately show ?thesis using 1 [OF True c' [symmetric]] by auto
    next
      case False
      have "remaining s1 \<le> remaining s"
        using c remaining_line [of "get_char s"] remaining_block [of "get_char s"] remaining_get [of s]
        by (auto simp: scan_comment_def Let_def split: if_splits)
      moreover have "scan_comment s = (False, s1)" using c False by simp
      ultimately show ?thesis using True by (simp add: skip_comments.simps [of s])
    qed
  qed
qed

lemma lexer_progress:
  "remaining (snd (scan strtod s)) \<le> remaining s"
  "fst (scan strtod s) \<noteq> end_of_input \<Longrightarrow> fst (scan strtod s) \<noteq> parse_error
    \<Longrightarrow> remaining (snd (scan strtod s)) < remaining s"
proof -
  define b where "b = (if chars_read_total s = 0 then skip_bom s else (True, s))"
  have b: "remaining (snd b) \<le> remaining s"
    using remaining_get [of s] remaining_get [of "get_char s"] remaining_get [of "get_char (get_char s)"]
      remaining_unget_get [of s] by (auto simp: b_def skip_bom_def Let_def)
  let ?w = "skip_whitespace (snd b)"
  obtain ok s2 where c: "skip_comments ?w = (ok, s2)" by (cases "skip_comments ?w")
  have s2: "remaining s2 \<le> remaining s"
    using comments_le [of ?w] remaining_whitespace [of "snd b"] b c by simp
  have unf: "scan strtod s = (if \<not> fst b then (parse_error, error ''invalid BOM; must be 0xEF 0xBB 0xBF if given'' (snd b))
      else if ok then scan_token strtod s2 else (parse_error, s2))"
    using c unfolding scan_def b_def [symmetric] Let_def by (cases b) (auto split: bool.splits)
  show "remaining (snd (scan strtod s)) \<le> remaining s"
    unfolding unf using b s2 remaining_scan_token [of strtod s2] by auto
  assume t: "fst (scan strtod s) \<noteq> end_of_input" "fst (scan strtod s) \<noteq> parse_error"
  then have ok: "ok" "fst b" "fst (scan_token strtod s2) \<noteq> end_of_input" unfolding unf by (auto split: if_splits)
  then have cur: "lx_current s2 \<noteq> None" by (cases "lx_current s2") (simp_all add: scan_token_def)
  have "remaining s2 < remaining s"
    using comments_le [of ?w] whitespace_stop [of "snd b"] remaining_whitespace [of "snd b"] b c cur ok(1) by auto
  then show "remaining (snd (scan strtod s)) < remaining s"
    unfolding unf using ok remaining_scan_token [of strtod s2] by auto
qed

end
