(* ===== verification/Json_Parser.thy ===== *)
theory Json_Parser
  imports Json_Lexer Ordered_Map "HOL-Library.List_Lexorder"
begin

text \<open>
  The parser of the JSON library (includes/nlohmann/detail/input/parser.hpp) and the handler that
  builds the value (\<open>json_sax_dom_parser\<close> of includes/nlohmann/detail/input/json_sax.hpp).

  The parser keeps no call stack: it loops over tokens with a stack of flags, true for an array
  and false for an object. What it tells its handler is a list of events here. The handler accepts
  every event, so only a syntax error or a number that is not finite ends the parse early; the
  exception the handler then throws is the event \<open>Sax_error\<close> and the result false. Whether a
  floating point number is finite is an argument.
\<close>

section \<open>Events and state\<close>

datatype 'f sax_event =
  Sax_null | Sax_boolean bool | Sax_integer int | Sax_unsigned nat | Sax_float 'f "u8 list"
| Sax_string "u8 list" | Sax_key "u8 list" | Sax_start_object | Sax_end_object | Sax_start_array | Sax_end_array
| Sax_error nat string string

record 'f parser =
  m_lexer :: "'f lexer"
  last_token :: token_type
  states :: "bool list"
  events :: "'f sax_event list"

definition get_token :: "(u8 list \<Rightarrow> 'f) \<Rightarrow> 'f parser \<Rightarrow> 'f parser" where
  "get_token strtod p = (let (t, l) = scan strtod (m_lexer p) in p\<lparr> m_lexer := l, last_token := t \<rparr>)"

definition parser_new :: "(u8 list \<Rightarrow> 'f) \<Rightarrow> 'f lexer \<Rightarrow> 'f parser" where
  "parser_new strtod l =
     get_token strtod \<lparr> m_lexer = l, last_token = uninitialized, states = [], events = [] \<rparr>"

definition emit :: "'f sax_event \<Rightarrow> 'f parser \<Rightarrow> 'f parser" where
  "emit e p = p\<lparr> events := events p @ [e] \<rparr>"

definition push_state :: "bool \<Rightarrow> 'f parser \<Rightarrow> 'f parser" where
  "push_state b p = p\<lparr> states := b # states p \<rparr>"

definition pop_state :: "'f parser \<Rightarrow> 'f parser" where
  "pop_state p = p\<lparr> states := tl (states p) \<rparr>"

definition exception_message :: "token_type \<Rightarrow> string \<Rightarrow> 'f parser \<Rightarrow> string" where
  "exception_message expected context p =
     ''syntax error '' @ (if context \<noteq> '''' then ''while parsing '' @ context @ '' '' else '''') @ ''- ''
     @ (if last_token p = parse_error
        then error_message (m_lexer p) @ ''; last read: '' @ quoted (get_token_string (m_lexer p))
        else ''unexpected '' @ token_type_name (last_token p))
     @ (if expected \<noteq> uninitialized then ''; expected '' @ token_type_name expected else '''')"

definition sax_error :: "string \<Rightarrow> 'f parser \<Rightarrow> 'f parser" where
  "sax_error msg p = emit (Sax_error (chars_read_total (m_lexer p)) (get_token_string (m_lexer p)) msg) p"

section \<open>The loop\<close>

text \<open>
  How the body of the loop ends: it goes on to evaluate the state, starts over, starts over with
  the evaluation, or returns.
\<close>

datatype parse_next = Evaluate | Again | Again_evaluate | Return bool

definition syntax_error :: "token_type \<Rightarrow> string \<Rightarrow> 'f parser \<Rightarrow> parse_next \<times> 'f parser" where
  "syntax_error expected context p = (Return False, sax_error (exception_message expected context p) p)"

text \<open>The current token has to be a key; it is followed by a colon and the token of a value.\<close>

definition parse_key :: "(u8 list \<Rightarrow> 'f) \<Rightarrow> bool \<Rightarrow> 'f parser \<Rightarrow> parse_next \<times> 'f parser" where
  "parse_key strtod first p =
     (if last_token p \<noteq> value_string then syntax_error value_string ''object key'' p
      else
        let p1 = get_token strtod (emit (Sax_key (get_string (m_lexer p))) p) in
        if last_token p1 \<noteq> name_separator then syntax_error name_separator ''object separator'' p1
        else (Again, get_token strtod (if first then push_state False p1 else p1)))"

definition parse_object :: "(u8 list \<Rightarrow> 'f) \<Rightarrow> 'f parser \<Rightarrow> parse_next \<times> 'f parser" where
  "parse_object strtod p =
     (let p1 = get_token strtod (emit Sax_start_object p) in
      if last_token p1 = end_object then (Evaluate, emit Sax_end_object p1)
      else parse_key strtod True p1)"

definition parse_array :: "(u8 list \<Rightarrow> 'f) \<Rightarrow> 'f parser \<Rightarrow> parse_next \<times> 'f parser" where
  "parse_array strtod p =
     (let p1 = get_token strtod (emit Sax_start_array p) in
      if last_token p1 = end_array then (Evaluate, emit Sax_end_array p1)
      else (Again, push_state True p1))"

definition parse_float :: "('f \<Rightarrow> bool) \<Rightarrow> 'f parser \<Rightarrow> parse_next \<times> 'f parser" where
  "parse_float isfinite p =
     (let res = value_float (m_lexer p) in
      if \<not> isfinite res
      then (Return False, sax_error (''number overflow parsing '' @ quoted (get_token_string (m_lexer p))) p)
      else (Evaluate, emit (Sax_float res (get_string (m_lexer p))) p))"

definition parse_end_of_input :: "'f parser \<Rightarrow> parse_next \<times> 'f parser" where
  "parse_end_of_input p =
     (if chars_read_total (m_lexer p) = 1
      then (Return False, sax_error (''attempting to parse an empty input; check that your input string ''
             @ ''or stream contains the expected JSON'') p)
      else syntax_error literal_or_value ''value'' p)"

definition parse_value :: "(u8 list \<Rightarrow> 'f) \<Rightarrow> ('f \<Rightarrow> bool) \<Rightarrow> 'f parser \<Rightarrow> parse_next \<times> 'f parser" where
  "parse_value strtod isfinite p =
     (case last_token p of
        begin_object \<Rightarrow> parse_object strtod p
      | begin_array \<Rightarrow> parse_array strtod p
      | tt_float \<Rightarrow> parse_float isfinite p
      | literal_false \<Rightarrow> (Evaluate, emit (Sax_boolean False) p)
      | literal_null \<Rightarrow> (Evaluate, emit Sax_null p)
      | literal_true \<Rightarrow> (Evaluate, emit (Sax_boolean True) p)
      | tt_integer \<Rightarrow> (Evaluate, emit (Sax_integer (value_integer (m_lexer p))) p)
      | value_string \<Rightarrow> (Evaluate, emit (Sax_string (get_string (m_lexer p))) p)
      | tt_unsigned \<Rightarrow> (Evaluate, emit (Sax_unsigned (value_unsigned (m_lexer p))) p)
      | parse_error \<Rightarrow> syntax_error uninitialized ''value'' p
      | end_of_input \<Rightarrow> parse_end_of_input p
      | _ \<Rightarrow> syntax_error literal_or_value ''value'' p)"

definition evaluate_array :: "(u8 list \<Rightarrow> 'f) \<Rightarrow> 'f parser \<Rightarrow> parse_next \<times> 'f parser" where
  "evaluate_array strtod p =
     (let p1 = get_token strtod p in
      if last_token p1 = value_separator then (Again, get_token strtod p1)
      else if last_token p1 = end_array then (Again_evaluate, pop_state (emit Sax_end_array p1))
      else syntax_error end_array ''array'' p1)"

definition evaluate_object :: "(u8 list \<Rightarrow> 'f) \<Rightarrow> 'f parser \<Rightarrow> parse_next \<times> 'f parser" where
  "evaluate_object strtod p =
     (let p1 = get_token strtod p in
      if last_token p1 = value_separator then parse_key strtod False (get_token strtod p1)
      else if last_token p1 = end_object then (Again_evaluate, pop_state (emit Sax_end_object p1))
      else syntax_error end_object ''object'' p1)"

definition evaluate :: "(u8 list \<Rightarrow> 'f) \<Rightarrow> 'f parser \<Rightarrow> parse_next \<times> 'f parser" where
  "evaluate strtod p =
     (case states p of
        [] \<Rightarrow> (Return True, p)
      | True # _ \<Rightarrow> evaluate_array strtod p
      | False # _ \<Rightarrow> evaluate_object strtod p)"

section \<open>Termination\<close>

text \<open>What decreases in every round of the parser.\<close>

definition parse_measure :: "'f parser \<Rightarrow> nat" where
  "parse_measure p = 2 * remaining (m_lexer p) + (if last_token p = end_of_input \<or> last_token p = parse_error then 0 else 1)"

lemma measure_simps [simp]:
  "parse_measure (emit e p) = parse_measure p" "parse_measure (push_state b p) = parse_measure p"
  "parse_measure (pop_state p) = parse_measure p"
  "last_token (emit e p) = last_token p" "last_token (push_state b p) = last_token p"
  by (simp_all add: parse_measure_def emit_def push_state_def pop_state_def)

lemma measure_token:
  "last_token p \<noteq> end_of_input \<Longrightarrow> last_token p \<noteq> parse_error \<Longrightarrow> parse_measure (get_token strtod p) < parse_measure p"
  "parse_measure (get_token strtod p) \<le> Suc (2 * remaining (m_lexer p))"
  "last_token (get_token strtod p) \<noteq> end_of_input \<Longrightarrow> last_token (get_token strtod p) \<noteq> parse_error
    \<Longrightarrow> parse_measure (get_token strtod p) < 2 * remaining (m_lexer p)"
  using lexer_progress [of strtod "m_lexer p"]
  by (auto simp: parse_measure_def get_token_def split_def Let_def)

lemma measure_ge: "2 * remaining (m_lexer p) \<le> parse_measure p"
  by (simp add: parse_measure_def)

lemma parse_key_decreases:
  assumes "parse_key strtod first p = (Again, p1)"
  shows "parse_measure p1 < parse_measure p"
proof -
  let ?p1 = "get_token strtod (emit (Sax_key (get_string (m_lexer p))) p)"
  from assms have t: "last_token p = value_string" "last_token ?p1 = name_separator"
    "p1 = get_token strtod (if first then push_state False ?p1 else ?p1)"
    by (auto simp: parse_key_def syntax_error_def Let_def split: if_splits)
  have "parse_measure ?p1 < parse_measure p" using measure_token(1) [of "emit (Sax_key (get_string (m_lexer p))) p"] t by simp
  moreover have "parse_measure p1 < parse_measure ?p1"
    using measure_token(1) [of "if first then push_state False ?p1 else ?p1" strtod] t by (cases first) simp_all
  ultimately show ?thesis by simp
qed

lemma parse_key_result: "parse_key strtod first p = (r, p1) \<Longrightarrow> r = Again \<or> r = Return False"
  by (auto simp: parse_key_def syntax_error_def Let_def split: if_splits)

lemma parse_value_measure:
  assumes "parse_value strtod isfinite p = (r, p1)"
  shows "r = Again \<Longrightarrow> parse_measure p1 < parse_measure p" "r = Evaluate \<Longrightarrow> parse_measure p1 \<le> parse_measure p"
    "r \<noteq> Again_evaluate"
proof -
  let ?o = "get_token strtod (emit Sax_start_object p)" and ?a = "get_token strtod (emit Sax_start_array p)"
  have o: "parse_measure ?o < parse_measure p" if "last_token p = begin_object"
    using measure_token(1) [of "emit Sax_start_object p" strtod] that by simp
  have a: "parse_measure ?a < parse_measure p" if "last_token p = begin_array"
    using measure_token(1) [of "emit Sax_start_array p" strtod] that by simp
  show "r = Again \<Longrightarrow> parse_measure p1 < parse_measure p"
    using assms o a parse_key_decreases [of strtod True ?o p1]
    by (auto simp: parse_value_def parse_object_def parse_array_def parse_float_def parse_end_of_input_def
        syntax_error_def Let_def split: token_type.splits if_splits)
  show "r = Evaluate \<Longrightarrow> parse_measure p1 \<le> parse_measure p"
    using assms o a parse_key_result [of strtod True ?o]
    by (auto simp: parse_value_def parse_object_def parse_array_def parse_float_def parse_end_of_input_def
        syntax_error_def Let_def split: token_type.splits if_splits)
  show "r \<noteq> Again_evaluate"
    using assms parse_key_result [of strtod True ?o]
    by (auto simp: parse_value_def parse_object_def parse_array_def parse_float_def parse_end_of_input_def
        syntax_error_def Let_def split: token_type.splits if_splits)
qed

lemma evaluate_measure:
  assumes "evaluate strtod p = (r, p1)" and "r = Again \<or> r = Again_evaluate"
  shows "parse_measure p1 < parse_measure p"
proof -
  let ?p = "get_token strtod p"
  note g = measure_ge [of p]
  have f: "parse_measure ?p < parse_measure p" if "last_token ?p \<noteq> end_of_input" "last_token ?p \<noteq> parse_error"
    using measure_token(3) [OF that] g by simp
  have n: "parse_measure (get_token strtod ?p) < parse_measure ?p" if "last_token ?p = value_separator"
    using measure_token(1) [of ?p strtod] that by simp
  from assms consider "evaluate_array strtod p = (r, p1)" | "evaluate_object strtod p = (r, p1)"
    by (auto simp: evaluate_def split: list.splits bool.splits)
  then show ?thesis
  proof cases
    case 1
    then show ?thesis using assms(2) f n by (auto simp: evaluate_array_def syntax_error_def Let_def split: if_splits)
  next
    case 2
    then show ?thesis using assms(2) f n parse_key_decreases [of strtod False "get_token strtod ?p" p1]
        parse_key_result [of strtod False "get_token strtod ?p" r p1]
      by (auto simp: evaluate_object_def syntax_error_def Let_def split: if_splits)
  qed
qed

function parse_loop :: "(u8 list \<Rightarrow> 'f) \<Rightarrow> ('f \<Rightarrow> bool) \<Rightarrow> bool \<Rightarrow> 'f parser \<Rightarrow> bool \<times> 'f parser" where
  "parse_loop strtod isfinite skip_to_state_evaluation p =
     (case (if skip_to_state_evaluation then (Evaluate, p) else parse_value strtod isfinite p) of
        (Evaluate, p1) \<Rightarrow>
          (case evaluate strtod p1 of
             (Return b, p2) \<Rightarrow> (b, p2)
           | (Again, p2) \<Rightarrow> parse_loop strtod isfinite False p2
           | (Again_evaluate, p2) \<Rightarrow> parse_loop strtod isfinite True p2
           | (Evaluate, p2) \<Rightarrow> (False, p2))
      | (Again, p1) \<Rightarrow> parse_loop strtod isfinite False p1
      | (Again_evaluate, p1) \<Rightarrow> (False, p1)
      | (Return b, p1) \<Rightarrow> (b, p1))"
  by pat_completeness auto

lemma evaluate_after:
  assumes "(if sk then (Evaluate, p) else parse_value strtod isfinite p) = (Evaluate, p1)"
    and "evaluate strtod p1 = (r, p2)" and "r = Again \<or> r = Again_evaluate"
  shows "parse_measure p2 < parse_measure p"
  using assms evaluate_measure [OF assms(2,3)] parse_value_measure(2) [of strtod isfinite p Evaluate p1]
  by (auto split: if_splits)

termination parse_loop
proof (relation "measure (\<lambda>(strtod, isfinite, sk, p). parse_measure p)", goal_cases)
  case (2 strtod isfinite sk p x p1 y p2)
  then show ?case using evaluate_after [of sk p strtod isfinite p1 Again p2] by simp
next
  case (3 strtod isfinite sk p x p1 y p2)
  then show ?case using evaluate_after [of sk p strtod isfinite p1 Again_evaluate p2] by simp
next
  case (4 strtod isfinite sk p x p1)
  then show ?case using parse_value_measure(1) [of strtod isfinite p Again p1] by (simp split: if_splits)
qed simp

declare parse_loop.simps [simp del]

definition sax_parse_internal :: "(u8 list \<Rightarrow> 'f) \<Rightarrow> ('f \<Rightarrow> bool) \<Rightarrow> 'f parser \<Rightarrow> bool \<times> 'f parser" where
  "sax_parse_internal strtod isfinite p = parse_loop strtod isfinite False p"

definition sax_parse :: "(u8 list \<Rightarrow> 'f) \<Rightarrow> ('f \<Rightarrow> bool) \<Rightarrow> bool \<Rightarrow> 'f parser \<Rightarrow> bool \<times> 'f parser" where
  "sax_parse strtod isfinite strict p =
     (let (result, p1) = sax_parse_internal strtod isfinite p in
      if result \<and> strict then
        let p2 = get_token strtod p1 in
        if last_token p2 \<noteq> end_of_input
        then (False, sax_error (exception_message end_of_input ''value'' p2) p2) else (True, p2)
      else (result, p1))"

end
