(* ===== verification/Json_Document.thy ===== *)
theory Json_Document
  imports Json_Parser
begin

text \<open>
  The JSON value the parser builds (\<open>json_sax_dom_parser\<close>), and what the parser does with the
  tokens of a value: the loop with its stack of flags accepts exactly the tokens that the grammar
  derives, and the handler builds the value they describe.
\<close>

section \<open>Building the value\<close>

text \<open>
  \<open>basic_json\<close>: an object is a \<open>std::map\<close>, so its keys are in ascending order and unique.
\<close>

datatype 'f json =
  JNull_value | JBoolean bool | JInteger int | JUnsigned nat | JFloat 'f | JText "u8 list"
| JArray "'f json list" | JObject "(u8 list, 'f json) omap"

text \<open>
  The handler points into the value under construction: at the open containers and at the element
  of an object that the last key has created. A pointer is a path from the root here.
\<close>

datatype path_step = At_index nat | At_key "u8 list"

fun json_update :: "path_step list \<Rightarrow> ('f json \<Rightarrow> 'f json) \<Rightarrow> 'f json \<Rightarrow> 'f json" where
  "json_update [] f v = f v"
| "json_update (At_index i # ps) f (JArray vs) = JArray (vs[i := json_update ps f (vs ! i)])"
| "json_update (At_key k # ps) f (JObject m) =
     JObject (case omap_find k m of Some v \<Rightarrow> omap_put k (json_update ps f v) m | None \<Rightarrow> m)"
| "json_update _ f v = v"

fun json_at :: "path_step list \<Rightarrow> 'f json \<Rightarrow> 'f json option" where
  "json_at [] v = Some v"
| "json_at (At_index i # ps) (JArray vs) = (if i < length vs then json_at ps (vs ! i) else None)"
| "json_at (At_key k # ps) (JObject m) = (case omap_find k m of Some v \<Rightarrow> json_at ps v | None \<Rightarrow> None)"
| "json_at _ v = None"

record 'f dom_parser =
  root :: "'f json"
  ref_stack :: "path_step list list"
  object_element :: "path_step list"
  errored :: bool

definition dom_new :: "'f dom_parser" where
  "dom_new = \<lparr> root = JNull_value, ref_stack = [], object_element = [], errored = False \<rparr>"

text \<open>Storing a value where the next one belongs; the result points at it.\<close>

definition handle_value :: "'f json \<Rightarrow> 'f dom_parser \<Rightarrow> path_step list \<times> 'f dom_parser" where
  "handle_value v d =
     (case ref_stack d of
        [] \<Rightarrow> ([], d\<lparr> root := v \<rparr>)
      | ref # _ \<Rightarrow>
          (case json_at ref (root d) of
             Some (JArray vs) \<Rightarrow>
               (ref @ [At_index (length vs)], d\<lparr> root := json_update ref (\<lambda>_. JArray (vs @ [v])) (root d) \<rparr>)
           | _ \<Rightarrow> (object_element d, d\<lparr> root := json_update (object_element d) (\<lambda>_. v) (root d) \<rparr>)))"

definition start_container :: "'f json \<Rightarrow> 'f dom_parser \<Rightarrow> 'f dom_parser" where
  "start_container v d = (let (ref, d1) = handle_value v d in d1\<lparr> ref_stack := ref # ref_stack d1 \<rparr>)"

definition end_container :: "'f dom_parser \<Rightarrow> 'f dom_parser" where
  "end_container d = d\<lparr> ref_stack := tl (ref_stack d) \<rparr>"

text \<open>\<open>operator[]\<close> of the object creates a null at a new key.\<close>

definition handle_key :: "u8 list \<Rightarrow> 'f dom_parser \<Rightarrow> 'f dom_parser" where
  "handle_key k d =
     (case ref_stack d of
        [] \<Rightarrow> d
      | ref # _ \<Rightarrow>
          d\<lparr> root := json_update ref (\<lambda>v. case v of
                 JObject m \<Rightarrow> JObject (case omap_find k m of Some _ \<Rightarrow> m | None \<Rightarrow> omap_put k JNull_value m)
               | _ \<Rightarrow> v) (root d),
             object_element := ref @ [At_key k] \<rparr>)"

fun handle_event :: "'f sax_event \<Rightarrow> 'f dom_parser \<Rightarrow> 'f dom_parser" where
  "handle_event Sax_null d = snd (handle_value JNull_value d)"
| "handle_event (Sax_boolean b) d = snd (handle_value (JBoolean b) d)"
| "handle_event (Sax_integer i) d = snd (handle_value (JInteger i) d)"
| "handle_event (Sax_unsigned n) d = snd (handle_value (JUnsigned n) d)"
| "handle_event (Sax_float x t) d = snd (handle_value (JFloat x) d)"
| "handle_event (Sax_string t) d = snd (handle_value (JText t) d)"
| "handle_event (Sax_key k) d = handle_key k d"
| "handle_event Sax_start_object d = start_container (JObject []) d"
| "handle_event Sax_end_object d = end_container d"
| "handle_event Sax_start_array d = start_container (JArray []) d"
| "handle_event Sax_end_array d = end_container d"
| "handle_event (Sax_error pos tok msg) d = d\<lparr> errored := True \<rparr>"

definition handle_events :: "'f sax_event list \<Rightarrow> 'f dom_parser \<Rightarrow> 'f dom_parser" where
  "handle_events es d = fold handle_event es d"

text \<open>
  \<open>parser::parse\<close> without a callback: the value, or \<open>None\<close> for the discarded value after an
  error. (When exceptions are allowed, the first error is thrown and there is no value either.)
\<close>

definition parse_json :: "(u8 list \<Rightarrow> 'f) \<Rightarrow> ('f \<Rightarrow> bool) \<Rightarrow> bool \<Rightarrow> 'f lexer \<Rightarrow> 'f json option" where
  "parse_json strtod isfinite strict l =
     (let (_, p1) = sax_parse_internal strtod isfinite (parser_new strtod l);
          p2 = (if strict then get_token strtod p1 else p1);
          p3 = (if strict \<and> last_token p2 \<noteq> end_of_input
                then sax_error (exception_message end_of_input ''value'' p2) p2 else p2);
          d = handle_events (events p3) dom_new
      in if errored d then None else Some (root d))"

text \<open>\<open>parser::accept\<close>: its handler ignores the values.\<close>

definition accept :: "(u8 list \<Rightarrow> 'f) \<Rightarrow> ('f \<Rightarrow> bool) \<Rightarrow> bool \<Rightarrow> 'f lexer \<Rightarrow> bool" where
  "accept strtod isfinite strict l = fst (sax_parse strtod isfinite strict (parser_new strtod l))"

section \<open>Syntax trees\<close>

text \<open>
  The abstract syntax of a JSON text: its values in the order of the text, members with equal keys
  included.
\<close>

datatype 'f json_tree =
  S_null | S_boolean bool | S_integer int | S_unsigned nat | S_float 'f "u8 list" | S_string "u8 list"
| S_array "'f json_tree list" | S_object "(u8 list \<times> 'f json_tree) list"

datatype 'f token =
  Plain token_type | Text "u8 list" | Integer int | Unsigned nat | Float 'f "u8 list"

definition token_of :: "token_type \<Rightarrow> 'f lexer \<Rightarrow> 'f token" where
  "token_of t l =
     (case t of
        value_string \<Rightarrow> Text (get_string l)
      | tt_integer \<Rightarrow> Integer (value_integer l)
      | tt_unsigned \<Rightarrow> Unsigned (value_unsigned l)
      | tt_float \<Rightarrow> Float (value_float l) (get_string l)
      | _ \<Rightarrow> Plain t)"

fun separated :: "'f token list list \<Rightarrow> 'f token list" where
  "separated [] = []"
| "separated [ts] = ts"
| "separated (ts # tss) = ts @ Plain value_separator # separated tss"

fun tokens :: "'f json_tree \<Rightarrow> 'f token list" where
  "tokens S_null = [Plain literal_null]"
| "tokens (S_boolean b) = [Plain (if b then literal_true else literal_false)]"
| "tokens (S_integer i) = [Integer i]"
| "tokens (S_unsigned n) = [Unsigned n]"
| "tokens (S_float x t) = [Float x t]"
| "tokens (S_string t) = [Text t]"
| "tokens (S_array vs) = Plain begin_array # separated (map tokens vs) @ [Plain end_array]"
| "tokens (S_object ms) =
     Plain begin_object # separated (map (\<lambda>(k, v). Text k # Plain name_separator # tokens v) ms) @ [Plain end_object]"

fun sax_events :: "'f json_tree \<Rightarrow> 'f sax_event list" where
  "sax_events S_null = [Sax_null]"
| "sax_events (S_boolean b) = [Sax_boolean b]"
| "sax_events (S_integer i) = [Sax_integer i]"
| "sax_events (S_unsigned n) = [Sax_unsigned n]"
| "sax_events (S_float x t) = [Sax_float x t]"
| "sax_events (S_string t) = [Sax_string t]"
| "sax_events (S_array vs) = Sax_start_array # concat (map sax_events vs) @ [Sax_end_array]"
| "sax_events (S_object ms) = Sax_start_object # concat (map (\<lambda>(k, v). Sax_key k # sax_events v) ms) @ [Sax_end_object]"

text \<open>The value a syntax tree denotes: a later member replaces an earlier one with its key.\<close>

fun value_of :: "'f json_tree \<Rightarrow> 'f json" where
  "value_of S_null = JNull_value"
| "value_of (S_boolean b) = JBoolean b"
| "value_of (S_integer i) = JInteger i"
| "value_of (S_unsigned n) = JUnsigned n"
| "value_of (S_float x t) = JFloat x"
| "value_of (S_string t) = JText t"
| "value_of (S_array vs) = JArray (map value_of vs)"
| "value_of (S_object ms) = JObject (fold (\<lambda>(k, v) m. omap_put k v m) (map (\<lambda>(k, v). (k, value_of v)) ms) [])"

fun finite_floats :: "('f \<Rightarrow> bool) \<Rightarrow> 'f json_tree \<Rightarrow> bool" where
  "finite_floats isfinite (S_float x t) = isfinite x"
| "finite_floats isfinite (S_array vs) = (\<forall>v \<in> set vs. finite_floats isfinite v)"
| "finite_floats isfinite (S_object ms) = (\<forall>(k, v) \<in> set ms. finite_floats isfinite v)"
| "finite_floats isfinite _ = True"

text \<open>Scanning from a lexer gives these tokens and leaves this lexer.\<close>

inductive scans :: "(u8 list \<Rightarrow> 'f) \<Rightarrow> 'f lexer \<Rightarrow> 'f token list \<Rightarrow> 'f lexer \<Rightarrow> bool" for strtod where
  scans_none: "scans strtod l [] l"
| scans_token: "scan strtod l = (t, l1) \<Longrightarrow> scans strtod l1 ts l2 \<Longrightarrow> scans strtod l (token_of t l1 # ts) l2"

inductive_cases scans_nilE: "scans strtod l [] l'"
inductive_cases scans_consE: "scans strtod l (t # ts) l'"

section \<open>Updating through a path\<close>

lemma omap_find_put_same [simp]: "omap_find k (omap_put k v m) = Some v"
  by (induction k v m rule: omap_put.induct) auto

lemma omap_put_put_same [simp]: "omap_put k w (omap_put k v m) = omap_put k w m"
  by (induction k v m rule: omap_put.induct) auto

lemma json_update_append: "json_update (ps @ qs) f v = json_update ps (json_update qs f) v"
proof (induction ps arbitrary: v)
  case (Cons p ps)
  show ?case
  proof (cases p)
    case (At_index i)
    then show ?thesis using Cons by (cases v) auto
  next
    case (At_key k)
    then show ?thesis using Cons by (cases v) (auto split: option.splits)
  qed
qed simp

lemma json_at_update: "json_at ps v = Some w \<Longrightarrow> json_at ps (json_update ps f v) = Some (f w)"
proof (induction ps arbitrary: v)
  case (Cons p ps)
  show ?case
  proof (cases p)
    case (At_index i)
    then show ?thesis using Cons by (cases v) (auto split: if_splits)
  next
    case (At_key k)
    then show ?thesis using Cons by (cases v) (auto split: option.splits)
  qed
qed simp

lemma json_update_fuse: "json_update ps f (json_update ps g v) = json_update ps (\<lambda>x. f (g x)) v"
proof (induction ps arbitrary: v)
  case (Cons p ps)
  show ?case
  proof (cases p)
    case (At_index i)
    have "vs[i := json_update ps f (vs[i := json_update ps g (vs ! i)] ! i)]
        = vs[i := json_update ps (\<lambda>x. f (g x)) (vs ! i)]" for vs
      using Cons by (cases "i < length vs") (auto simp: list_update_beyond)
    then show ?thesis using At_index by (cases v) auto
  next
    case (At_key k)
    then show ?thesis using Cons by (cases v) (auto split: option.splits)
  qed
qed simp

lemma json_update_cong: "json_at ps v = Some w \<Longrightarrow> f w = g w \<Longrightarrow> json_update ps f v = json_update ps g v"
proof (induction ps arbitrary: v)
  case (Cons p ps)
  show ?case
  proof (cases p)
    case (At_index i)
    then show ?thesis using Cons by (cases v) (auto split: if_splits)
  next
    case (At_key k)
    then show ?thesis using Cons by (cases v) (auto split: option.splits)
  qed
qed simp

lemma omap_put_found: "omap_find k m = Some v \<Longrightarrow> omap_put k v m = m"
  by (induction k m rule: omap_find.induct) (auto split: if_splits)

lemma json_update_same: "json_at ps v = Some w \<Longrightarrow> json_update ps (\<lambda>_. w) v = v"
proof (induction ps arbitrary: v)
  case (Cons p ps)
  show ?case
  proof (cases p)
    case (At_index i)
    then show ?thesis using Cons by (cases v) (auto split: if_splits)
  next
    case (At_key k)
    then show ?thesis using Cons by (cases v) (auto simp: omap_put_found split: option.splits)
  qed
qed simp

lemma json_at_append: "json_at (ps @ qs) v = (case json_at ps v of Some w \<Rightarrow> json_at qs w | None \<Rightarrow> None)"
proof (induction ps arbitrary: v)
  case (Cons p ps)
  show ?case
  proof (cases p)
    case (At_index i)
    then show ?thesis using Cons by (cases v) auto
  next
    case (At_key k)
    then show ?thesis using Cons by (cases v) (auto split: option.splits)
  qed
qed simp

section \<open>The handler builds the value\<close>

text \<open>The handler can take a value: at the root, in an array, or as the element of an object.\<close>

definition expects_value :: "'f dom_parser \<Rightarrow> bool" where
  "expects_value d \<longleftrightarrow> (case ref_stack d of
       [] \<Rightarrow> True
     | ref # _ \<Rightarrow> (\<exists>vs. json_at ref (root d) = Some (JArray vs))
         \<or> (\<exists>m k w. json_at ref (root d) = Some (JObject m) \<and> object_element d = ref @ [At_key k] \<and> omap_find k m = Some w))"

lemma handle_value_cases:
  assumes "expects_value d"
  obtains (top) "ref_stack d = []" "\<And>v. handle_value v d = ([], d\<lparr> root := v \<rparr>)"
  | (element) ref refs vs where "ref_stack d = ref # refs" "json_at ref (root d) = Some (JArray vs)"
      "\<And>v. handle_value v d = (ref @ [At_index (length vs)], d\<lparr> root := json_update ref (\<lambda>_. JArray (vs @ [v])) (root d) \<rparr>)"
  | (member) ref refs m k w where "ref_stack d = ref # refs" "json_at ref (root d) = Some (JObject m)"
      "object_element d = ref @ [At_key k]" "omap_find k m = Some w"
      "\<And>v. handle_value v d = (object_element d, d\<lparr> root := json_update (object_element d) (\<lambda>_. v) (root d) \<rparr>)"
proof (cases "ref_stack d")
  case Nil
  then show ?thesis by (intro top) (auto simp: handle_value_def)
next
  case (Cons ref refs)
  with assms consider (a) vs where "json_at ref (root d) = Some (JArray vs)"
    | (b) m k w where "json_at ref (root d) = Some (JObject m)" "object_element d = ref @ [At_key k]" "omap_find k m = Some w"
    by (auto simp: expects_value_def)
  then show ?thesis
  proof cases
    case a
    with Cons show ?thesis by (intro element [OF Cons a]) (simp add: handle_value_def)
  next
    case b
    with Cons show ?thesis by (intro member [OF Cons b]) (simp add: handle_value_def)
  qed
qed

text \<open>The place of the value does not depend on it, and can be updated later.\<close>

lemma handle_value_place:
  assumes e: "expects_value d" and h: "handle_value v d = (ref, d1)"
  shows "json_at ref (root d1) = Some v" "json_update ref (\<lambda>_. w) (root d1) = root (snd (handle_value w d))"
    "fst (handle_value w d) = ref" "ref_stack d1 = ref_stack d" "errored d1 = errored d" "object_element d1 = object_element d"
proof -
  have "json_at ref (root d1) = Some v \<and> json_update ref (\<lambda>_. w) (root d1) = root (snd (handle_value w d))
    \<and> fst (handle_value w d) = ref \<and> ref_stack d1 = ref_stack d \<and> errored d1 = errored d \<and> object_element d1 = object_element d"
  using e
  proof (cases rule: handle_value_cases)
    case top
    then show ?thesis using h by auto
  next
    case (element r refs vs)
    have "json_update (r @ [At_index (length vs)]) (\<lambda>_. w) (json_update r (\<lambda>_. JArray (vs @ [v])) (root d))
        = json_update r (\<lambda>_. JArray (vs @ [w])) (root d)"
      by (simp add: json_update_append json_update_fuse)
    then show ?thesis using h element json_at_update [OF element(2)] by (auto simp: json_at_append)
  next
    case (member r refs m k x)
    have at: "json_at (object_element d) (root d) = Some x" using member by (simp add: json_at_append)
    show ?thesis using h member(1,5) json_at_update [OF at] by (auto simp: json_update_fuse)
  qed
  then show "json_at ref (root d1) = Some v" "json_update ref (\<lambda>_. w) (root d1) = root (snd (handle_value w d))"
    "fst (handle_value w d) = ref" "ref_stack d1 = ref_stack d" "errored d1 = errored d" "object_element d1 = object_element d"
    by blast+
qed

definition stores :: "'f sax_event list \<Rightarrow> 'f json \<Rightarrow> bool" where
  "stores es v \<longleftrightarrow> (\<forall>d. expects_value d \<longrightarrow>
     root (handle_events es d) = root (snd (handle_value v d)) \<and> ref_stack (handle_events es d) = ref_stack d
     \<and> errored (handle_events es d) = errored d)"

lemma handle_events_append [simp]: "handle_events (es @ fs) d = handle_events fs (handle_events es d)"
  by (simp add: handle_events_def)

lemma handle_events_Cons [simp]: "handle_events (e # es) d = handle_events es (handle_event e d)"
  "handle_events [] d = d"
  by (simp_all add: handle_events_def)

lemma stores_plain:
  assumes "\<And>d. handle_event e d = snd (handle_value v d)"
  shows "stores [e] v"
  unfolding stores_def
proof (intro allI impI)
  fix d :: "'a dom_parser" assume d: "expects_value d"
  obtain r d1 where h: "handle_value v d = (r, d1)" by (cases "handle_value v d")
  from handle_value_place(4,5) [OF d h] assms [of d] h
  show "root (handle_events [e] d) = root (snd (handle_value v d)) \<and> ref_stack (handle_events [e] d) = ref_stack d
     \<and> errored (handle_events [e] d) = errored d" by simp
qed

text \<open>Inside an array, the values of its elements are appended one after the other.\<close>

lemma store_elements:
  assumes "\<forall>v \<in> set vs. stores (sax_events v) (value_of v)"
    and "ref_stack d = ref # refs" and "json_at ref (root d) = Some (JArray ws)"
  shows "root (handle_events (concat (map sax_events vs)) d) = json_update ref (\<lambda>_. JArray (ws @ map value_of vs)) (root d)
    \<and> ref_stack (handle_events (concat (map sax_events vs)) d) = ref # refs
    \<and> errored (handle_events (concat (map sax_events vs)) d) = errored d"
  using assms
proof (induction vs arbitrary: d ws)
  case Nil
  then show ?case by (simp add: json_update_same)
next
  case (Cons v vs)
  let ?d = "handle_events (sax_events v) d"
  have ev: "expects_value d" using Cons.prems by (simp add: expects_value_def)
  have h: "handle_value (value_of v) d
      = (ref @ [At_index (length ws)], d\<lparr> root := json_update ref (\<lambda>_. JArray (ws @ [value_of v])) (root d) \<rparr>)"
    using Cons.prems by (simp add: handle_value_def)
  have s: "root ?d = json_update ref (\<lambda>_. JArray (ws @ [value_of v])) (root d)" "ref_stack ?d = ref # refs" "errored ?d = errored d"
    using Cons.prems(1,2) ev h by (simp_all add: stores_def)
  have "json_at ref (root ?d) = Some (JArray (ws @ [value_of v]))"
    unfolding s(1) using json_at_update [OF Cons.prems(3)] by simp
  with Cons.IH [OF _ s(2) this] Cons.prems(1) s show ?case by (simp add: json_update_fuse)
qed

text \<open>Inside an object, each member is put at its key.\<close>

lemma store_member:
  assumes v: "stores es v" and d: "ref_stack d = ref # refs" "json_at ref (root d) = Some (JObject m)"
  shows "root (handle_events (Sax_key k # es) d) = json_update ref (\<lambda>_. JObject (omap_put k v m)) (root d)
    \<and> ref_stack (handle_events (Sax_key k # es) d) = ref # refs
    \<and> errored (handle_events (Sax_key k # es) d) = errored d"
proof -
  let ?m = "case omap_find k m of Some _ \<Rightarrow> m | None \<Rightarrow> omap_put k JNull_value m"
  let ?d = "handle_key k d"
  have r: "root ?d = json_update ref (\<lambda>_. JObject ?m) (root d)"
    using d by (auto simp: handle_key_def intro: json_update_cong)
  have at: "json_at ref (root ?d) = Some (JObject ?m)" unfolding r using json_at_update [OF d(2)] by simp
  obtain w where w: "omap_find k ?m = Some w" by (cases "omap_find k m") auto
  have f: "ref_stack ?d = ref # refs" "object_element ?d = ref @ [At_key k]" "errored ?d = errored d"
    using d by (simp_all add: handle_key_def)
  have ev: "expects_value ?d" using f at w by (auto simp: expects_value_def)
  have "handle_value v ?d = (ref @ [At_key k], ?d\<lparr> root := json_update (ref @ [At_key k]) (\<lambda>_. v) (root ?d) \<rparr>)"
    using f at by (simp add: handle_value_def)
  moreover have "json_update (ref @ [At_key k]) (\<lambda>_. v) (root ?d) = json_update ref (\<lambda>_. JObject (omap_put k v m)) (root d)"
  proof -
    have "omap_put k v ?m = omap_put k v m" by (simp split: option.splits)
    then show ?thesis unfolding r using w by (simp add: json_update_append json_update_fuse)
  qed
  ultimately show ?thesis using v ev f by (simp add: stores_def)
qed

lemma store_members:
  assumes "\<forall>(k, v) \<in> set ms. stores (sax_events v) (value_of v)"
    and "ref_stack d = ref # refs" and "json_at ref (root d) = Some (JObject m)"
  shows "root (handle_events (concat (map (\<lambda>(k, v). Sax_key k # sax_events v) ms)) d)
      = json_update ref (\<lambda>_. JObject (fold (\<lambda>(k, v) m. omap_put k v m) (map (\<lambda>(k, v). (k, value_of v)) ms) m)) (root d)
    \<and> ref_stack (handle_events (concat (map (\<lambda>(k, v). Sax_key k # sax_events v) ms)) d) = ref # refs
    \<and> errored (handle_events (concat (map (\<lambda>(k, v). Sax_key k # sax_events v) ms)) d) = errored d"
  using assms
proof (induction ms arbitrary: d m)
  case Nil
  then show ?case by (simp add: json_update_same)
next
  case (Cons e ms)
  obtain k v where e: "e = (k, v)" by (cases e)
  let ?es = "Sax_key k # sax_events v"
  have v: "stores (sax_events v) (value_of v)" using Cons.prems(1) e by simp
  note m = store_member [OF v Cons.prems(2,3), of k]
  have at: "json_at ref (root (handle_events ?es d)) = Some (JObject (omap_put k (value_of v) m))"
    using m json_at_update [OF Cons.prems(3)] by simp
  have "handle_events (concat (map (\<lambda>(k, v). Sax_key k # sax_events v) (e # ms))) d
      = handle_events (concat (map (\<lambda>(k, v). Sax_key k # sax_events v) ms)) (handle_events ?es d)"
    using e by (simp add: handle_events_def)
  moreover note Cons.IH [OF _ _ at] m Cons.prems(1)
  ultimately show ?case using e by (simp add: json_update_fuse)
qed

lemma stores_value: "stores (sax_events v) (value_of v)"
proof (induction v)
  case (S_array vs)
  show ?case
    unfolding stores_def
  proof (intro allI impI)
    fix d :: "'a dom_parser" assume d: "expects_value d"
    obtain ref d1 where h: "handle_value (JArray []) d = (ref, d1)" by (cases "handle_value (JArray []) d")
    note hp = handle_value_place [OF d h]
    let ?d = "d1\<lparr> ref_stack := ref # ref_stack d1 \<rparr>"
    have s: "handle_event Sax_start_array d = ?d" using h by (simp add: start_container_def)
    have "ref_stack ?d = ref # ref_stack d1" "json_at ref (root ?d) = Some (JArray [])" using hp(1) by simp_all
    from store_elements [OF _ this, of vs] S_array hp
    show "root (handle_events (sax_events (S_array vs)) d) = root (snd (handle_value (value_of (S_array vs)) d))
      \<and> ref_stack (handle_events (sax_events (S_array vs)) d) = ref_stack d
      \<and> errored (handle_events (sax_events (S_array vs)) d) = errored d"
      by (simp add: s del: handle_event.simps(10)) (simp add: end_container_def)
  qed
next
  case (S_object ms)
  show ?case
    unfolding stores_def
  proof (intro allI impI)
    fix d :: "'a dom_parser" assume d: "expects_value d"
    obtain ref d1 where h: "handle_value (JObject []) d = (ref, d1)" by (cases "handle_value (JObject []) d")
    note hp = handle_value_place [OF d h]
    let ?d = "d1\<lparr> ref_stack := ref # ref_stack d1 \<rparr>"
    have s: "handle_event Sax_start_object d = ?d" using h by (simp add: start_container_def)
    have ms: "\<forall>(k, v) \<in> set ms. stores (sax_events v) (value_of v)" using S_object by fastforce
    have "ref_stack ?d = ref # ref_stack d1" "json_at ref (root ?d) = Some (JObject [])" using hp(1) by simp_all
    from store_members [OF ms this] hp
    show "root (handle_events (sax_events (S_object ms)) d) = root (snd (handle_value (value_of (S_object ms)) d))
      \<and> ref_stack (handle_events (sax_events (S_object ms)) d) = ref_stack d
      \<and> errored (handle_events (sax_events (S_object ms)) d) = errored d"
      by (simp add: s del: handle_event.simps(8)) (simp add: end_container_def)
  qed
qed (simp_all add: stores_plain)

lemma handle_events_value:
  "root (handle_events (sax_events v) dom_new) = value_of v" "\<not> errored (handle_events (sax_events v) dom_new)"
  using stores_value [of v] unfolding stores_def
  by (auto simp: expects_value_def dom_new_def handle_value_def dest: spec [of _ "dom_new :: 'a dom_parser"])

end
