(* ===== verification/Json_Serializer.thy ===== *)
theory Json_Serializer
  imports Json_Document
begin

text \<open>
  The serializer of the JSON library (includes/nlohmann/detail/output/serializer.hpp), which writes a
  value as text: \<open>dump\<close> with its indentation, the escaping of strings through a buffer of 512 bytes and
  a decoder of UTF-8, and the printing of integers.

  \<open>Overrun\<close> is a read or write beyond a buffer, undefined behaviour of the source; \<open>Type_error\<close> is the
  exception of the strict error handler. The shortest text of a floating point number (\<open>to_chars\<close>) is an
  argument; binary values are not modelled.
\<close>

datatype 'a dumped = Overrun | Type_error string | Dumped 'a

definition and_then :: "'a dumped \<Rightarrow> ('a \<Rightarrow> 'b dumped) \<Rightarrow> 'b dumped" where
  "and_then r f = (case r of Overrun \<Rightarrow> Overrun | Type_error m \<Rightarrow> Type_error m | Dumped x \<Rightarrow> f x)"

lemma and_then_simps [simp]:
  "and_then Overrun f = Overrun" "and_then (Type_error m) f = Type_error m" "and_then (Dumped x) f = f x"
  by (simp_all add: and_then_def)

lemma and_then_cong [fundef_cong]:
  "r = r' \<Longrightarrow> (\<And>x. r' = Dumped x \<Longrightarrow> f x = g x) \<Longrightarrow> and_then r f = and_then r' g"
  by (cases r') auto

definition ascii :: "string \<Rightarrow> u8 list" where
  "ascii s = map of_char s"

section \<open>Decoding UTF-8\<close>

definition UTF8_ACCEPT :: nat where "UTF8_ACCEPT = 0"

definition UTF8_REJECT :: nat where "UTF8_REJECT = 1"

definition utf8d :: "nat list" where
  "utf8d =
     replicate 128 0
     @ replicate 16 1 @ replicate 16 9
     @ replicate 32 7
     @ [8, 8] @ replicate 30 2
     @ [0xA, 0x3, 0x3, 0x3, 0x3, 0x3, 0x3, 0x3, 0x3, 0x3, 0x3, 0x3, 0x3, 0x4, 0x3, 0x3]
     @ [0xB, 0x6, 0x6, 0x6, 0x5, 0x8, 0x8, 0x8, 0x8, 0x8, 0x8, 0x8, 0x8, 0x8, 0x8, 0x8]
     @ [0x0, 0x1, 0x2, 0x3, 0x5, 0x8, 0x7, 0x1, 0x1, 0x1, 0x4, 0x6, 0x1, 0x1, 0x1, 0x1]
     @ [1, 1, 1, 1, 1, 1, 1, 1, 1, 1, 1, 1, 1, 1, 1, 1, 1, 0, 1, 1, 1, 1, 1, 0, 1, 0, 1, 1, 1, 1, 1, 1]
     @ [1, 2, 1, 1, 1, 1, 1, 2, 1, 2, 1, 1, 1, 1, 1, 1, 1, 1, 1, 1, 1, 1, 1, 2, 1, 1, 1, 1, 1, 1, 1, 1]
     @ [1, 2, 1, 1, 1, 1, 1, 1, 1, 2, 1, 1, 1, 1, 1, 1, 1, 1, 1, 1, 1, 1, 1, 3, 1, 3, 1, 1, 1, 1, 1, 1]
     @ [1, 3, 1, 1, 1, 1, 1, 3, 1, 3, 1, 1, 1, 1, 1, 1, 1, 3, 1, 1, 1, 1, 1, 1, 1, 1, 1, 1, 1, 1, 1, 1]"

definition decode :: "nat \<Rightarrow> u32 \<Rightarrow> u8 \<Rightarrow> nat \<times> u32" where
  "decode state codep byte =
     (let type = utf8d ! unat byte;
          codep1 = (if state \<noteq> UTF8_ACCEPT then (ucast byte AND 0x3F) OR push_bit 6 codep
                    else drop_bit type 0xFF AND ucast byte)
      in (utf8d ! (256 + state * 16 + type), codep1))"

section \<open>Escaping strings\<close>

datatype error_handler = strict_handler | replace_handler | ignore_handler

text \<open>
  The buffer is the list of the bytes written to it; \<open>written\<close> is what the output has got of this
  string.
\<close>

record escaper =
  string_buffer :: "u8 list"
  bytes_after_last_accept :: nat
  undumped_chars :: nat
  written :: "u8 list"

definition escaper_new :: escaper where
  "escaper_new = \<lparr> string_buffer = [], bytes_after_last_accept = 0, undumped_chars = 0, written = [] \<rparr>"

text \<open>Writing into the buffer; \<open>snprintf\<close> stores a null byte behind its text.\<close>

definition put_bytes :: "u8 list \<Rightarrow> nat \<Rightarrow> escaper \<Rightarrow> escaper dumped" where
  "put_bytes bs null e =
     (if length (string_buffer e) + length bs + null \<le> 512
      then Dumped (e\<lparr> string_buffer := string_buffer e @ bs \<rparr>) else Overrun)"

definition flush_buffer :: "escaper \<Rightarrow> escaper" where
  "flush_buffer e =
     (if 512 - length (string_buffer e) < 13
      then e\<lparr> written := written e @ string_buffer e, string_buffer := [] \<rparr> else e)"

definition hex_lower :: "u16 \<Rightarrow> u8 list" where
  "hex_lower w = map (\<lambda>i. ascii ''0123456789abcdef'' ! (unat w div 16 ^ i mod 16)) [3, 2, 1, 0]"

definition unicode_escape :: "u32 \<Rightarrow> u8 list" where
  "unicode_escape w = [0x5C, 0x75] @ hex_lower (ucast w)"

definition put_codepoint :: "bool \<Rightarrow> u32 \<Rightarrow> u8 \<Rightarrow> escaper \<Rightarrow> escaper dumped" where
  "put_codepoint ensure_ascii codepoint byte e =
     (if codepoint = 0x08 then put_bytes [0x5C, 0x62] 0 e
      else if codepoint = 0x09 then put_bytes [0x5C, 0x74] 0 e
      else if codepoint = 0x0A then put_bytes [0x5C, 0x6E] 0 e
      else if codepoint = 0x0C then put_bytes [0x5C, 0x66] 0 e
      else if codepoint = 0x0D then put_bytes [0x5C, 0x72] 0 e
      else if codepoint = 0x22 then put_bytes [0x5C, 0x22] 0 e
      else if codepoint = 0x5C then put_bytes [0x5C, 0x5C] 0 e
      else if codepoint \<le> 0x1F \<or> ensure_ascii \<and> 0x7F \<le> codepoint then
        if codepoint \<le> 0xFFFF then put_bytes (unicode_escape codepoint) 1 e
        else put_bytes (unicode_escape (0xD7C0 + drop_bit 10 codepoint)
               @ unicode_escape (0xDC00 + (codepoint AND 0x3FF))) 1 e
      else put_bytes [byte] 0 e)"

definition accepted_codepoint :: "bool \<Rightarrow> u32 \<Rightarrow> u8 \<Rightarrow> escaper \<Rightarrow> escaper dumped" where
  "accepted_codepoint ensure_ascii codepoint byte e =
     and_then (put_codepoint ensure_ascii codepoint byte e) (\<lambda>e1.
       let e2 = flush_buffer e1
       in Dumped (e2\<lparr> bytes_after_last_accept := length (string_buffer e2), undumped_chars := 0 \<rparr>))"

definition replacement :: "bool \<Rightarrow> u8 list" where
  "replacement ensure_ascii = (if ensure_ascii then [0x5C, 0x75, 0x66, 0x66, 0x66, 0x64] else [0xEF, 0xBF, 0xBD])"

definition rejected_byte :: "error_handler \<Rightarrow> bool \<Rightarrow> escaper \<Rightarrow> escaper dumped" where
  "rejected_byte handler ensure_ascii e =
     (let e1 = e\<lparr> string_buffer := take (bytes_after_last_accept e) (string_buffer e) \<rparr>
      in and_then
           (if handler = replace_handler then
              and_then (put_bytes (replacement ensure_ascii) 0 e1) (\<lambda>e2.
                let e3 = flush_buffer e2 in Dumped (e3\<lparr> bytes_after_last_accept := length (string_buffer e3) \<rparr>))
            else Dumped e1)
           (\<lambda>e4. Dumped (e4\<lparr> undumped_chars := 0 \<rparr>)))"

definition incomplete_byte :: "bool \<Rightarrow> u8 \<Rightarrow> escaper \<Rightarrow> escaper dumped" where
  "incomplete_byte ensure_ascii byte e =
     and_then (if ensure_ascii then Dumped e else put_bytes [byte] 0 e) (\<lambda>e1.
       Dumped (e1\<lparr> undumped_chars := undumped_chars e1 + 1 \<rparr>))"

fun show_decimal :: "nat \<Rightarrow> string" where
  "show_decimal n = (if n < 10 then [char_of (48 + n)] else show_decimal (n div 10) @ [char_of (48 + n mod 10)])"

declare show_decimal.simps [simp del]

definition hex_bytes :: "u8 \<Rightarrow> string" where
  "hex_bytes byte = [''0123456789ABCDEF'' ! (unat byte div 16), ''0123456789ABCDEF'' ! (unat byte mod 16)]"

text \<open>The loop over the string; an invalid byte behind an incomplete sequence is read again.\<close>

function escape_loop :: "error_handler \<Rightarrow> bool \<Rightarrow> nat \<Rightarrow> u32 \<Rightarrow> nat \<Rightarrow> u8 list \<Rightarrow> escaper \<Rightarrow> (nat \<times> escaper) dumped" where
  "escape_loop handler ensure_ascii state codepoint i [] e = Dumped (state, e)"
| "escape_loop handler ensure_ascii state codepoint i (byte # bs) e =
     (case decode state codepoint byte of (state1, codepoint1) \<Rightarrow>
        if state1 = UTF8_ACCEPT then
          and_then (accepted_codepoint ensure_ascii codepoint1 byte e)
            (\<lambda>e1. escape_loop handler ensure_ascii state1 codepoint1 (i + 1) bs e1)
        else if state1 = UTF8_REJECT then
          if handler = strict_handler
          then Type_error (''invalid UTF-8 byte at index '' @ show_decimal i @ '': 0x'' @ hex_bytes byte)
          else and_then (rejected_byte handler ensure_ascii e)
                 (\<lambda>e1. if undumped_chars e > 0 then escape_loop handler ensure_ascii UTF8_ACCEPT codepoint1 i (byte # bs) e1
                       else escape_loop handler ensure_ascii UTF8_ACCEPT codepoint1 (i + 1) bs e1)
        else
          and_then (incomplete_byte ensure_ascii byte e)
            (\<lambda>e1. escape_loop handler ensure_ascii state1 codepoint1 (i + 1) bs e1))"
  by pat_completeness auto

lemma put_bytes_undumped: "put_bytes bs n e = Dumped e1 \<Longrightarrow> undumped_chars e1 = undumped_chars e"
  by (auto simp: put_bytes_def split: if_splits)

lemma rejected_undumped: "rejected_byte handler ensure_ascii e = Dumped e1 \<Longrightarrow> undumped_chars e1 = 0"
  by (auto simp: rejected_byte_def and_then_def Let_def split: dumped.splits if_splits)

lemma incomplete_undumped: "incomplete_byte ensure_ascii byte e = Dumped e1 \<Longrightarrow> undumped_chars e1 = Suc (undumped_chars e)"
  by (auto simp: incomplete_byte_def and_then_def put_bytes_undumped split: dumped.splits if_splits)

termination escape_loop
  by (relation "measure (\<lambda>(h, a, st, cp, i, bs, e). 2 * length bs + (if undumped_chars e > 0 then 1 else 0))")
    (auto dest: rejected_undumped)

definition dump_escaped :: "error_handler \<Rightarrow> bool \<Rightarrow> u8 list \<Rightarrow> u8 list dumped" where
  "dump_escaped handler ensure_ascii s =
     and_then (escape_loop handler ensure_ascii UTF8_ACCEPT 0 0 s escaper_new) (\<lambda>(state, e).
       if state = UTF8_ACCEPT then Dumped (written e @ string_buffer e)
       else (case handler of
           strict_handler \<Rightarrow> Type_error (''incomplete UTF-8 string; last byte: 0x'' @ hex_bytes (last s))
         | ignore_handler \<Rightarrow> Dumped (written e @ take (bytes_after_last_accept e) (string_buffer e))
         | replace_handler \<Rightarrow>
             Dumped (written e @ take (bytes_after_last_accept e) (string_buffer e) @ replacement ensure_ascii)))"

section \<open>Integers\<close>

function count_digits_loop :: "nat \<Rightarrow> nat \<Rightarrow> nat" where
  "count_digits_loop n_digits x =
     (if x < 10 then n_digits
      else if x < 100 then n_digits + 1
      else if x < 1000 then n_digits + 2
      else if x < 10000 then n_digits + 3
      else count_digits_loop (n_digits + 4) (x div 10000))"
  by pat_completeness auto
termination count_digits_loop by (relation "measure snd") auto

declare count_digits_loop.simps [simp del]

definition count_digits :: "nat \<Rightarrow> nat" where
  "count_digits x = count_digits_loop 1 x"

definition digits_to_99 :: "nat \<Rightarrow> u8 \<times> u8" where
  "digits_to_99 i = (of_nat (48 + i div 10), of_nat (48 + i mod 10))"

text \<open>Two digits are stored in front of the pointer, the second one first.\<close>

definition store_pair :: "nat \<Rightarrow> nat \<times> u8 list \<Rightarrow> nat \<times> u8 list" where
  "store_pair digits_index = (\<lambda>(ptr, buf).
     (ptr - 2, (buf[ptr - 1 := snd (digits_to_99 digits_index)])[ptr - 2 := fst (digits_to_99 digits_index)]))"

function store_digits :: "nat \<Rightarrow> nat \<times> u8 list \<Rightarrow> nat \<times> u8 list" where
  "store_digits abs_value pb =
     (if 100 \<le> abs_value then store_digits (abs_value div 100) (store_pair (abs_value mod 100) pb)
      else if 10 \<le> abs_value then store_pair abs_value pb
      else (case pb of (ptr, buf) \<Rightarrow> (ptr - 1, buf[ptr - 1 := of_nat (48 + abs_value)])))"
  by pat_completeness auto
termination store_digits by (relation "measure fst") auto

declare store_digits.simps [simp del]

definition remove_sign :: "int \<Rightarrow> nat" where
  "remove_sign x = nat (- (x + 1)) + 1"

definition dump_integer :: "int \<Rightarrow> u8 list" where
  "dump_integer x =
     (if x = 0 then [0x30]
      else
        let number_buffer = replicate 64 0;
            (abs_value, n_chars, buf) =
              (if x < 0 then (remove_sign x, 1 + count_digits (remove_sign x), number_buffer[0 := 0x2D])
               else (nat x, count_digits (nat x), number_buffer))
        in take n_chars (snd (store_digits abs_value (n_chars, buf))))"

section \<open>Values\<close>

text \<open>
  The indentation string ends in a null byte. It starts with 512 indentation characters; when it is too short it is doubled,
  once, with spaces. It is a member of the serializer and keeps its length.
\<close>

definition grow_indent :: "nat \<Rightarrow> u8 list \<Rightarrow> u8 list" where
  "grow_indent new_indent indent_string =
     (if length indent_string < new_indent then indent_string @ replicate (length indent_string) 0x20 else indent_string)"

definition indentation :: "nat \<Rightarrow> u8 list \<Rightarrow> u8 list dumped" where
  "indentation n indent_string =
     (if n \<le> length indent_string + 1 then Dumped (take n (indent_string @ [0])) else Overrun)"

record 'f dump_options =
  to_chars :: "'f \<Rightarrow> u8 list"
  finite_float :: "'f \<Rightarrow> bool"
  handler :: error_handler
  pretty_print :: bool
  ensure_ascii :: bool
  indent_step :: nat

definition dump_float :: "'f dump_options \<Rightarrow> 'f \<Rightarrow> u8 list" where
  "dump_float opt x = (if \<not> finite_float opt x then ascii ''null'' else to_chars opt x)"

definition dump_string :: "'f dump_options \<Rightarrow> u8 list \<Rightarrow> u8 list dumped" where
  "dump_string opt s =
     and_then (dump_escaped (handler opt) (ensure_ascii opt) s) (\<lambda>bs. Dumped ([0x22] @ bs @ [0x22]))"

definition new_indent :: "'f dump_options \<Rightarrow> nat \<Rightarrow> nat" where
  "new_indent opt current_indent = (current_indent + indent_step opt) mod 2 ^ 32"

text \<open>The text between two elements, before the first and behind the last.\<close>

definition open_container :: "'f dump_options \<Rightarrow> u8 \<Rightarrow> nat \<Rightarrow> u8 list \<Rightarrow> (u8 list \<times> u8 list) dumped" where
  "open_container opt bracket current ind =
     (if pretty_print opt
      then let ind1 = grow_indent (new_indent opt current) ind
           in and_then (indentation (new_indent opt current) ind1) (\<lambda>sp. Dumped ([bracket, 0x0A] @ sp, ind1))
      else Dumped ([bracket], ind))"

definition next_element :: "'f dump_options \<Rightarrow> nat \<Rightarrow> u8 list \<Rightarrow> u8 list dumped" where
  "next_element opt current ind =
     (if pretty_print opt
      then and_then (indentation (new_indent opt current) ind) (\<lambda>sp. Dumped ([0x2C, 0x0A] @ sp))
      else Dumped [0x2C])"

definition close_container :: "'f dump_options \<Rightarrow> u8 \<Rightarrow> nat \<Rightarrow> u8 list \<Rightarrow> u8 list dumped" where
  "close_container opt bracket current ind =
     (if pretty_print opt
      then and_then (indentation current ind) (\<lambda>sp. Dumped ([0x0A] @ sp @ [bracket]))
      else Dumped [bracket])"

definition key_separator :: "'f dump_options \<Rightarrow> u8 list" where
  "key_separator opt = (if pretty_print opt then [0x3A, 0x20] else [0x3A])"

definition inner_indent :: "'f dump_options \<Rightarrow> nat \<Rightarrow> nat" where
  "inner_indent opt current = (if pretty_print opt then new_indent opt current else current)"

text \<open>\<open>dump\<close> of a value, of the elements of an array and of the members of an object.\<close>

fun dump :: "'f dump_options \<Rightarrow> nat \<Rightarrow> 'f json \<Rightarrow> u8 list \<Rightarrow> (u8 list \<times> u8 list) dumped"
and dump_elements :: "'f dump_options \<Rightarrow> nat \<Rightarrow> 'f json list \<Rightarrow> u8 list \<Rightarrow> (u8 list \<times> u8 list) dumped"
and dump_members :: "'f dump_options \<Rightarrow> nat \<Rightarrow> (u8 list \<times> 'f json) list \<Rightarrow> u8 list \<Rightarrow> (u8 list \<times> u8 list) dumped" where
  "dump opt current JNull_value ind = Dumped (ascii ''null'', ind)"
| "dump opt current (JBoolean b) ind = Dumped (ascii (if b then ''true'' else ''false''), ind)"
| "dump opt current (JInteger x) ind = Dumped (dump_integer x, ind)"
| "dump opt current (JUnsigned n) ind = Dumped (dump_integer (int n), ind)"
| "dump opt current (JFloat x) ind = Dumped (dump_float opt x, ind)"
| "dump opt current (JText s) ind = and_then (dump_string opt s) (\<lambda>bs. Dumped (bs, ind))"
| "dump opt current (JArray vs) ind =
     (if vs = [] then Dumped (ascii ''[]'', ind)
      else
        and_then (open_container opt 0x5B current ind) (\<lambda>(a, ind1).
        and_then (dump_elements opt current vs ind1) (\<lambda>(b, ind2).
        and_then (close_container opt 0x5D current ind2) (\<lambda>c. Dumped (a @ b @ c, ind2)))))"
| "dump opt current (JObject ms) ind =
     (if ms = [] then Dumped (ascii ''{}'', ind)
      else
        and_then (open_container opt 0x7B current ind) (\<lambda>(a, ind1).
        and_then (dump_members opt current ms ind1) (\<lambda>(b, ind2).
        and_then (close_container opt 0x7D current ind2) (\<lambda>c. Dumped (a @ b @ c, ind2)))))"
| "dump_elements opt current [] ind = Dumped ([], ind)"
| "dump_elements opt current (v # vs) ind =
     and_then (dump opt (inner_indent opt current) v ind) (\<lambda>(a, ind1).
       if vs = [] then Dumped (a, ind1)
       else and_then (next_element opt current ind1) (\<lambda>b.
            and_then (dump_elements opt current vs ind1) (\<lambda>(c, ind2). Dumped (a @ b @ c, ind2))))"
| "dump_members opt current [] ind = Dumped ([], ind)"
| "dump_members opt current ((k, v) # ms) ind =
     and_then (dump_string opt k) (\<lambda>key.
     and_then (dump opt (inner_indent opt current) v ind) (\<lambda>(a, ind1).
       if ms = [] then Dumped (key @ key_separator opt @ a, ind1)
       else and_then (next_element opt current ind1) (\<lambda>b.
            and_then (dump_members opt current ms ind1) (\<lambda>(c, ind2). Dumped (key @ key_separator opt @ a @ b @ c, ind2)))))"

text \<open>\<open>basic_json::dump\<close> with its arguments; a negative \<open>indent\<close> selects the compact text.\<close>

definition json_dump :: "('f \<Rightarrow> u8 list) \<Rightarrow> ('f \<Rightarrow> bool) \<Rightarrow> int \<Rightarrow> u8 \<Rightarrow> bool \<Rightarrow> error_handler \<Rightarrow> 'f json \<Rightarrow> u8 list dumped" where
  "json_dump float_text isfinite indent indent_char ensure handling v =
     (let opt = \<lparr> to_chars = float_text, finite_float = isfinite, handler = handling, pretty_print = (indent \<ge> 0),
                  ensure_ascii = ensure, indent_step = nat indent \<rparr>
      in and_then (dump opt 0 v (replicate 512 indent_char)) (\<lambda>(bs, _). Dumped bs))"

end
