(* ===== verification/Json_Utf8.thy ===== *)
theory Json_Utf8
  imports Json_Lexer
begin

text \<open>
  UTF-8 as the standard defines it: the bytes of a code point. The lexer copies and produces
  exactly these encodings: its table of the bytes that may follow a leading byte, and its
  translation of a code point with shifts and masks, are those of the definition.
\<close>

section \<open>The encoding\<close>

definition scalar :: "nat \<Rightarrow> bool" where
  "scalar cp \<longleftrightarrow> cp < 0x110000 \<and> \<not> (0xD800 \<le> cp \<and> cp \<le> 0xDFFF)"

definition utf8 :: "nat \<Rightarrow> u8 list" where
  "utf8 cp =
     (if cp < 0x80 then [of_nat cp]
      else if cp < 0x800 then [of_nat (0xC0 + cp div 64), of_nat (0x80 + cp mod 64)]
      else if cp < 0x10000 then
        [of_nat (0xE0 + cp div 4096), of_nat (0x80 + cp div 64 mod 64), of_nat (0x80 + cp mod 64)]
      else
        [of_nat (0xF0 + cp div 262144), of_nat (0x80 + cp div 4096 mod 64), of_nat (0x80 + cp div 64 mod 64),
         of_nat (0x80 + cp mod 64)])"

section \<open>The translation of the lexer\<close>

lemma and_63: "(x::nat) AND 0x3F = x mod 64"
  using take_bit_eq_mask [of 6 x] by (simp add: take_bit_eq_mod mask_eq_exp_minus_1)

lemma or_high: "x < 2 ^ n \<Longrightarrow> (k * 2 ^ n) OR x = k * 2 ^ n + (x::nat)"
proof -
  assume x: "x < 2 ^ n"
  have "\<not> bit (k * 2 ^ n) i \<or> \<not> bit x i" for i
  proof (cases "i < n")
    case True
    then have "\<not> bit (push_bit n k) i" by (simp add: bit_push_bit_iff)
    then show ?thesis by (simp add: push_bit_eq_mult)
  next
    case False
    have "take_bit n x = x" using x by (simp add: take_bit_nat_eq_self)
    then have "\<not> bit x i" using False by (metis bit_take_bit_iff)
    then show ?thesis by simp
  qed
  then show ?thesis by (simp add: disjunctive_add [symmetric])
qed

lemma codepoint_bytes_utf8:
  assumes "cp < 0x110000"
  shows "codepoint_bytes cp = utf8 cp"
proof -
  have or: "0x80 OR x = 0x80 + x" if "x < 64" for x :: nat using or_high [of x 6 2] that by simp
  have c0: "0xC0 OR x = 0xC0 + x" if "x < 64" for x :: nat using or_high [of x 6 3] that by simp
  have e0: "0xE0 OR x = 0xE0 + x" if "x < 32" for x :: nat using or_high [of x 5 7] that by simp
  have f0: "0xF0 OR x = 0xF0 + x" if "x < 16" for x :: nat using or_high [of x 4 15] that by simp
  have q: "cp < 0x800 \<Longrightarrow> cp div 64 < 64" "cp < 0x10000 \<Longrightarrow> cp div 4096 < 32" "cp div 262144 < 16"
    using assms by simp_all
  show ?thesis
    by (simp add: codepoint_bytes_def utf8_def and_63 drop_bit_eq_div or c0 e0 f0 q)
qed

section \<open>Leading and following bytes\<close>

definition in_range :: "u8 \<times> u8 \<Rightarrow> u8 \<Rightarrow> bool" where
  "in_range r b \<longleftrightarrow> fst r \<le> b \<and> b \<le> snd r"

lemma u8_range: "(lo::u8) \<le> b \<and> b \<le> hi \<longleftrightarrow> unat lo \<le> unat b \<and> unat b \<le> unat hi"
  by (simp add: word_le_nat_alt)

lemma unat_less_256: "unat (b :: u8) < 256"
  using unsigned_less [of b] by simp

lemma of_nat_u8: "n = unat (b::u8) \<Longrightarrow> of_nat n = b"
  by simp

text \<open>Numbers in base 64.\<close>

lemma base64:
  "c < 64 \<Longrightarrow> (m * 64 + c) div 64 = m" "c < 64 \<Longrightarrow> (m * 64 + c) mod 64 = (c::nat)"
  by (simp_all add: div_mult_self3)

lemma base64_3:
  fixes a b c :: nat
  assumes "b < 64" "c < 64"
  shows "(a * 4096 + b * 64 + c) div 4096 = a" "(a * 4096 + b * 64 + c) div 64 mod 64 = b" "(a * 4096 + b * 64 + c) mod 64 = c"
proof -
  have n: "a * 4096 + b * 64 + c = (a * 64 + b) * 64 + c" by simp
  have d: "(a * 4096 + b * 64 + c) div 4096 = (a * 4096 + b * 64 + c) div 64 div 64" by (simp add: div_mult2_eq [symmetric])
  show "(a * 4096 + b * 64 + c) div 4096 = a" unfolding d unfolding n using assms by (simp only: base64)
  show "(a * 4096 + b * 64 + c) div 64 mod 64 = b" unfolding n using assms by (simp only: base64)
  show "(a * 4096 + b * 64 + c) mod 64 = c" unfolding n using assms by (simp only: base64)
qed

lemma base64_4:
  fixes a b c d :: nat
  assumes "b < 64" "c < 64" "d < 64"
  shows "(a * 262144 + b * 4096 + c * 64 + d) div 262144 = a" "(a * 262144 + b * 4096 + c * 64 + d) div 4096 mod 64 = b"
    "(a * 262144 + b * 4096 + c * 64 + d) div 64 mod 64 = c" "(a * 262144 + b * 4096 + c * 64 + d) mod 64 = d"
proof -
  have n: "a * 262144 + b * 4096 + c * 64 + d = (a * 64 + b) * 4096 + c * 64 + d" by simp
  have e: "n div 262144 = n div 4096 div 64" for n :: nat by (simp add: div_mult2_eq [symmetric])
  show "(a * 262144 + b * 4096 + c * 64 + d) div 262144 = a" unfolding e unfolding n using assms by (simp only: base64 base64_3)
  show "(a * 262144 + b * 4096 + c * 64 + d) div 4096 mod 64 = b" unfolding n using assms by (simp only: base64 base64_3)
  show "(a * 262144 + b * 4096 + c * 64 + d) div 64 mod 64 = c" unfolding n using assms by (simp only: base64_3)
  show "(a * 262144 + b * 4096 + c * 64 + d) mod 64 = d" unfolding n using assms by (simp only: base64_3)
qed

lemma split_base64:
  "(n::nat) = n div 4096 * 4096 + n div 64 mod 64 * 64 + n mod 64"
  "n = n div 262144 * 262144 + n div 4096 mod 64 * 4096 + n div 64 mod 64 * 64 + n mod 64"
proof -
  have e: "n div 4096 = n div 64 div 64" "n div 262144 = n div 64 div 64 div 64" by (simp_all add: div_mult2_eq [symmetric])
  have m: "n = n div 64 * 64 + n mod 64" "n div 64 = n div 64 div 64 * 64 + n div 64 mod 64"
    "n div 64 div 64 = n div 64 div 64 div 64 * 64 + n div 64 div 64 mod 64" by simp_all
  show "n = n div 4096 * 4096 + n div 64 mod 64 * 64 + n mod 64" unfolding e using m(1,2) by linarith
  show "n = n div 262144 * 262144 + n div 4096 mod 64 * 4096 + n div 64 mod 64 * 64 + n mod 64" unfolding e using m by linarith
qed

lemma utf8_2:
  fixes a b :: nat
  assumes "2 \<le> a" "a < 32" "b < 64"
  shows "utf8 (a * 64 + b) = [of_nat (0xC0 + a), of_nat (0x80 + b)]" "scalar (a * 64 + b)" "0x80 \<le> a * 64 + b"
  using assms by (simp_all add: utf8_def scalar_def)

lemma utf8_3:
  fixes a b c :: nat
  assumes "a < 16" "b < 64" "c < 64" "a = 0 \<longrightarrow> 32 \<le> b" "a = 13 \<longrightarrow> b < 32"
  shows "utf8 (a * 4096 + b * 64 + c) = [of_nat (0xE0 + a), of_nat (0x80 + b), of_nat (0x80 + c)]"
    "scalar (a * 4096 + b * 64 + c)" "0x80 \<le> a * 4096 + b * 64 + c"
proof -
  note d = base64_3 [OF assms(2,3), of a]
  have r: "\<not> a * 4096 + b * 64 + c < 0x800" "a * 4096 + b * 64 + c < 0x10000"
    using assms by (cases "a = 0"; simp)+
  then show "utf8 (a * 4096 + b * 64 + c) = [of_nat (0xE0 + a), of_nat (0x80 + b), of_nat (0x80 + c)]"
    unfolding utf8_def d by simp
  show "scalar (a * 4096 + b * 64 + c)" using r assms unfolding scalar_def by (cases a "13 :: nat" rule: linorder_cases) simp_all
  show "0x80 \<le> a * 4096 + b * 64 + c" using r by simp
qed

lemma utf8_4:
  fixes a b c d :: nat
  assumes "a < 5" "b < 64" "c < 64" "d < 64" "a = 0 \<longrightarrow> 16 \<le> b" "a = 4 \<longrightarrow> b < 16"
  shows "utf8 (a * 262144 + b * 4096 + c * 64 + d)
      = [of_nat (0xF0 + a), of_nat (0x80 + b), of_nat (0x80 + c), of_nat (0x80 + d)]"
    "scalar (a * 262144 + b * 4096 + c * 64 + d)" "0x80 \<le> a * 262144 + b * 4096 + c * 64 + d"
proof -
  let ?n = "a * 262144 + b * 4096 + c * 64 + d"
  note e = base64_4 [OF assms(2-4), of a]
  have r: "0x10000 \<le> ?n" "?n < 0x110000"
  proof -
    show "0x10000 \<le> ?n" using assms by (cases "a = 0") auto
    have "a * 262144 + b * 4096 < 0x110000 - 4096 + 1" using assms by (cases "a = 4") auto
    then show "?n < 0x110000" using assms(3,4) by linarith
  qed
  then show "utf8 ?n = [of_nat (0xF0 + a), of_nat (0x80 + b), of_nat (0x80 + c), of_nat (0x80 + d)]"
    unfolding utf8_def e by simp
  show "scalar ?n" "0x80 \<le> ?n" using r by (simp_all add: scalar_def)
qed

lemma unat_u8: "n < 256 \<Longrightarrow> unat (of_nat n :: u8) = n"
  by (simp add: unat_of_nat)

lemma in_range_of_nat: "n < 256 \<Longrightarrow> in_range (lo, hi) (of_nat n) \<longleftrightarrow> unat lo \<le> n \<and> n \<le> unat hi"
  by (simp add: in_range_def word_le_nat_alt unat_u8)

lemma following_of_nat:
  assumes "n < 256"
  shows "following_ranges (of_nat n) =
     (if 0xC2 \<le> n \<and> n \<le> 0xDF then Some [(0x80, 0xBF)]
      else if n = 0xE0 then Some [(0xA0, 0xBF), (0x80, 0xBF)]
      else if 0xE1 \<le> n \<and> n \<le> 0xEC \<or> n = 0xEE \<or> n = 0xEF then Some [(0x80, 0xBF), (0x80, 0xBF)]
      else if n = 0xED then Some [(0x80, 0x9F), (0x80, 0xBF)]
      else if n = 0xF0 then Some [(0x90, 0xBF), (0x80, 0xBF), (0x80, 0xBF)]
      else if 0xF1 \<le> n \<and> n \<le> 0xF3 then Some [(0x80, 0xBF), (0x80, 0xBF), (0x80, 0xBF)]
      else if n = 0xF4 then Some [(0x80, 0x8F), (0x80, 0xBF), (0x80, 0xBF)]
      else None)"
  using assms unfolding following_ranges_def
  by (simp add: word_le_nat_alt unat_u8 word_unat_eq_iff)

lemma following_sound:
  assumes f: "following_ranges c = Some rs" and m: "list_all2 in_range rs bs"
  shows "\<exists>cp. scalar cp \<and> 0x80 \<le> cp \<and> utf8 cp = c # bs"
proof -
  have cont: "\<exists>x < 64. b = of_nat (0x80 + x) \<and> x + 0x80 = unat b" if "0x80 \<le> b" "b \<le> 0xBF" for b :: u8
    using that by (intro exI [of _ "unat b - 0x80"]) (simp add: word_le_nat_alt of_nat_u8)
  have lead: "\<exists>x. c = of_nat (unat k + x) \<and> x + unat k = unat c" if "unat k \<le> unat c" for k :: u8
    using that by (intro exI [of _ "unat c - unat k"]) (simp add: of_nat_u8)
  consider (two) "0xC2 \<le> unat c" "unat c \<le> 0xDF" "rs = [(0x80, 0xBF)]"
    | (three) "0xE0 \<le> unat c" "unat c \<le> 0xEF"
        "rs = [(if unat c = 0xE0 then 0xA0 else 0x80, if unat c = 0xED then 0x9F else 0xBF), (0x80, 0xBF)]"
    | (four) "0xF0 \<le> unat c" "unat c \<le> 0xF4"
        "rs = [(if unat c = 0xF0 then 0x90 else 0x80, if unat c = 0xF4 then 0x8F else 0xBF), (0x80, 0xBF), (0x80, 0xBF)]"
    using f following_of_nat [OF unat_less_256 [of c]] by (auto split: if_splits)
  then show ?thesis
  proof cases
    case two
    then obtain b where b: "bs = [b]" "0x80 \<le> b" "b \<le> 0xBF" using m by (auto simp: list_all2_Cons1 in_range_def)
    obtain x where x: "x < 64" "b = of_nat (0x80 + x)" using cont [OF b(2,3)] by blast
    obtain a where a: "c = of_nat (0xC0 + a)" "a + 0xC0 = unat c" using lead [of "0xC0"] two(1) by force
    have "2 \<le> a" "a < 32" using a(2) two(1,2) by (simp_all add: word_le_nat_alt)
    from utf8_2 [OF this x(1)] show ?thesis unfolding b(1) x(2) a(1) by blast
  next
    case three
    then obtain b1 b2 where b: "bs = [b1, b2]" "0x80 \<le> b1" "b1 \<le> 0xBF" "unat c = 0xE0 \<longrightarrow> 0xA0 \<le> b1" "unat c = 0xED \<longrightarrow> b1 \<le> 0x9F"
      "0x80 \<le> b2" "b2 \<le> 0xBF"
      using m by (auto simp: list_all2_Cons1 in_range_def word_le_nat_alt split: if_splits)
    obtain x where x: "x < 64" "b1 = of_nat (0x80 + x)" "x + 0x80 = unat b1" using cont [OF b(2,3)] by blast
    obtain y where y: "y < 64" "b2 = of_nat (0x80 + y)" using cont [OF b(6,7)] by blast
    obtain a where a: "c = of_nat (0xE0 + a)" "a + 0xE0 = unat c" using lead [of "0xE0"] three(1) by force
    have "a < 16" using a(2) three(2) by (simp add: word_le_nat_alt)
    moreover have "a = 0 \<longrightarrow> 32 \<le> x" "a = 13 \<longrightarrow> x < 32"
      using b(4,5) a(2) x(3) by (auto simp: word_le_nat_alt)
    ultimately show ?thesis using utf8_3 [OF _ x(1) y(1)] unfolding b(1) x(2) y(2) a(1) by blast
  next
    case four
    then obtain b1 b2 b3 where b: "bs = [b1, b2, b3]" "0x80 \<le> b1" "b1 \<le> 0xBF" "unat c = 0xF0 \<longrightarrow> 0x90 \<le> b1" "unat c = 0xF4 \<longrightarrow> b1 \<le> 0x8F"
      "0x80 \<le> b2" "b2 \<le> 0xBF" "0x80 \<le> b3" "b3 \<le> 0xBF"
      using m by (auto simp: list_all2_Cons1 in_range_def word_le_nat_alt split: if_splits)
    obtain x where x: "x < 64" "b1 = of_nat (0x80 + x)" "x + 0x80 = unat b1" using cont [OF b(2,3)] by blast
    obtain y where y: "y < 64" "b2 = of_nat (0x80 + y)" using cont [OF b(6,7)] by blast
    obtain z where z: "z < 64" "b3 = of_nat (0x80 + z)" using cont [OF b(8,9)] by blast
    obtain a where a: "c = of_nat (0xF0 + a)" "a + 0xF0 = unat c" using lead [of "0xF0"] four(1) by force
    have "a < 5" using a(2) four(2) by (simp add: word_le_nat_alt)
    moreover have "a = 0 \<longrightarrow> 16 \<le> x" "a = 4 \<longrightarrow> x < 16"
      using b(4,5) a(2) x(3) by (auto simp: word_le_nat_alt)
    ultimately show ?thesis using utf8_4 [OF _ x(1) y(1) z(1)] unfolding b(1) x(2) y(2) z(2) a(1) by blast
  qed
qed

lemma following_complete:
  assumes "scalar cp" and "0x80 \<le> cp"
  obtains c rs bs where "utf8 cp = c # bs" "following_ranges c = Some rs" "list_all2 in_range rs bs"
proof -
  consider (two) "cp < 0x800" | (three) "0x800 \<le> cp" "cp < 0x10000" | (four) "0x10000 \<le> cp" by linarith
  then show ?thesis
  proof cases
    case two
    let ?a = "cp div 64" and ?b = "cp mod 64"
    have r: "2 \<le> ?a" "?a < 32" "?b < 64" using two assms(2) by simp_all
    then have "following_ranges (of_nat (0xC0 + ?a)) = Some [(0x80, 0xBF)]" by (simp add: following_of_nat del: of_nat_add)
    moreover have "utf8 cp = of_nat (0xC0 + ?a) # [of_nat (0x80 + ?b)]" using two assms(2) by (simp add: utf8_def)
    ultimately show ?thesis using that r(3) by (simp add: in_range_of_nat del: of_nat_add)
  next
      case three
    define a b c where abc: "a = cp div 4096" "b = cp div 64 mod 64" "c = cp mod 64"
    have d: "b < 64" "c < 64" by (simp_all add: abc)
    have r: "a < 16" "a = 0 \<longrightarrow> 32 \<le> b" "a = 13 \<longrightarrow> b < 32"
      using three assms(1) split_base64(1) [of cp] d unfolding scalar_def abc by linarith+
    have "utf8 cp = of_nat (0xE0 + a) # [of_nat (0x80 + b), of_nat (0x80 + c)]"
      using three by (simp add: utf8_def abc)
    moreover have "following_ranges (of_nat (0xE0 + a))
        = Some [(if a = 0 then 0xA0 else 0x80, if a = 13 then 0x9F else 0xBF), (0x80, 0xBF)]"
      using r(1) by (simp add: following_of_nat del: of_nat_add)
    ultimately show ?thesis by (rule that) (use r d in \<open>auto simp: in_range_of_nat simp del: of_nat_add\<close>)
  next
    case four
    define a b c e where abc: "a = cp div 262144" "b = cp div 4096 mod 64" "c = cp div 64 mod 64" "e = cp mod 64"
    have d: "b < 64" "c < 64" "e < 64" by (simp_all add: abc)
    have r: "a < 5" "a = 0 \<longrightarrow> 16 \<le> b" "a = 4 \<longrightarrow> b < 16"
      using four assms(1) split_base64(2) [of cp] d unfolding scalar_def abc by linarith+
    have "utf8 cp = of_nat (0xF0 + a) # [of_nat (0x80 + b), of_nat (0x80 + c), of_nat (0x80 + e)]"
      using four by (simp add: utf8_def abc)
    moreover have "following_ranges (of_nat (0xF0 + a))
        = Some [(if a = 0 then 0x90 else 0x80, if a = 4 then 0x8F else 0xBF), (0x80, 0xBF), (0x80, 0xBF)]"
      using r(1) by (simp add: following_of_nat del: of_nat_add)
    ultimately show ?thesis by (rule that) (use r d in \<open>auto simp: in_range_of_nat simp del: of_nat_add\<close>)
  qed
qed

end
