(* ===== verification/Json_Strings.thy ===== *)
theory Json_Strings
  imports Json_Utf8
begin

text \<open>
  The strings of a JSON text: \<open>scan_string\<close> accepts exactly the strings of the grammar (RFC 8259,
  section 7) over well-formed UTF-8, and its buffer holds the UTF-8 encoding of the code points
  they denote.
\<close>

section \<open>What the lexer reads\<close>

text \<open>The bytes still to be read, the one put back included.\<close>

definition upcoming :: "'f lexer \<Rightarrow> u8 list \<Rightarrow> bool" where
  "upcoming s xs \<longleftrightarrow>
     (if next_unget s
      then (case lx_current s of Some c \<Rightarrow> xs = c # lx_input s | None \<Rightarrow> xs = [] \<and> lx_input s = [])
      else xs = lx_input s)"

lemma upcoming_new: "upcoming (lexer_new dp z ic bs) bs"
  by (simp add: upcoming_def lexer_new_def)

lemma upcoming_unique: "upcoming s xs \<Longrightarrow> upcoming s ys \<Longrightarrow> xs = ys"
  by (auto simp: upcoming_def split: if_splits option.splits)

lemma get_Cons:
  "upcoming s (c # xs) \<Longrightarrow> lx_current (get_char s) = Some c"
  "upcoming s (c # xs) \<Longrightarrow> upcoming (get_char s) xs"
  by (auto simp: upcoming_def get_char_def Let_def split: if_splits option.splits list.splits)

lemma get_Nil:
  "upcoming s [] \<Longrightarrow> lx_current (get_char s) = None"
  "upcoming s [] \<Longrightarrow> upcoming (get_char s) []"
  by (auto simp: upcoming_def get_char_def Let_def split: if_splits option.splits list.splits)

lemma get_Some:
  assumes "upcoming s xs" and "lx_current (get_char s) = Some c"
  obtains ys where "xs = c # ys" "upcoming (get_char s) ys"
  using assms get_Cons [of s] get_Nil [of s] by (cases xs) auto

lemma get_buffer [simp]: "token_buffer (get_char s) = token_buffer s"
  by (auto simp: get_char_def Let_def split: list.splits option.splits)

lemma upcoming_simps [simp]:
  "upcoming (add_byte c s) xs = upcoming s xs" "upcoming (error m s) xs = upcoming s xs"
  "upcoming (reset_token s) xs = upcoming s xs"
  by (auto simp: upcoming_def add_byte_def error_def reset_token_def split: option.splits)

lemma buffer_simps [simp]:
  "token_buffer (add_byte c s) = token_buffer s @ [c]" "token_buffer (error m s) = token_buffer s"
  "token_buffer (reset_token s) = []"
  by (simp_all add: add_byte_def error_def reset_token_def)

lemma add_bytes_simps [simp]:
  "upcoming (add_bytes bs s) xs = upcoming s xs" "token_buffer (add_bytes bs s) = token_buffer s @ bs"
proof -
  have "upcoming (add_bytes bs s) xs = upcoming s xs \<and> token_buffer (add_bytes bs s) = token_buffer s @ bs"
    unfolding add_bytes_def by (induction bs arbitrary: s) auto
  then show "upcoming (add_bytes bs s) xs = upcoming s xs" "token_buffer (add_bytes bs s) = token_buffer s @ bs" by auto
qed

section \<open>The grammar of strings\<close>

definition hex_digit :: "u8 \<Rightarrow> nat option" where
  "hex_digit c =
     (if 0x30 \<le> c \<and> c \<le> 0x39 then Some (unat c - 0x30)
      else if 0x41 \<le> c \<and> c \<le> 0x46 then Some (unat c - 0x41 + 10)
      else if 0x61 \<le> c \<and> c \<le> 0x66 then Some (unat c - 0x61 + 10)
      else None)"

fun hex4 :: "u8 list \<Rightarrow> nat option" where
  "hex4 [a, b, c, d] =
     (case (hex_digit a, hex_digit b, hex_digit c, hex_digit d) of
        (Some v, Some w, Some x, Some y) \<Rightarrow> Some (v * 4096 + w * 256 + x * 16 + y)
      | _ \<Rightarrow> None)"
| "hex4 _ = None"

definition short_escape :: "u8 \<Rightarrow> nat option" where
  "short_escape =
     map_of [(0x22, 0x22), (0x5C, 0x5C), (0x2F, 0x2F), (0x62, 8), (0x66, 12), (0x6E, 10), (0x72, 13), (0x74, 9)]"

text \<open>
  A character of a string: an unescaped code point, an escape of one letter, four hexadecimal
  digits, or a surrogate pair.
\<close>

datatype string_item = Raw nat | Short u8 | Hex "u8 list" | Pair "u8 list" "u8 list"

fun item_text :: "string_item \<Rightarrow> u8 list" where
  "item_text (Raw cp) = utf8 cp"
| "item_text (Short c) = [0x5C, c]"
| "item_text (Hex h) = [0x5C, 0x75] @ h"
| "item_text (Pair h k) = [0x5C, 0x75] @ h @ [0x5C, 0x75] @ k"

text \<open>The code point it denotes.\<close>

fun item_code :: "string_item \<Rightarrow> nat" where
  "item_code (Raw cp) = cp"
| "item_code (Short c) = the (short_escape c)"
| "item_code (Hex h) = the (hex4 h)"
| "item_code (Pair h k) = 0x10000 + (the (hex4 h) - 0xD800) * 0x400 + (the (hex4 k) - 0xDC00)"

definition surrogate :: "nat \<Rightarrow> bool" where
  "surrogate cp \<longleftrightarrow> 0xD800 \<le> cp \<and> cp \<le> 0xDFFF"

fun item_ok :: "string_item \<Rightarrow> bool" where
  "item_ok (Raw cp) = (scalar cp \<and> 0x20 \<le> cp \<and> cp \<noteq> 0x22 \<and> cp \<noteq> 0x5C)"
| "item_ok (Short c) = (short_escape c \<noteq> None)"
| "item_ok (Hex h) = (case hex4 h of Some cp \<Rightarrow> \<not> surrogate cp | None \<Rightarrow> False)"
| "item_ok (Pair h k) =
     (case (hex4 h, hex4 k) of (Some a, Some b) \<Rightarrow> 0xD800 \<le> a \<and> a \<le> 0xDBFF \<and> 0xDC00 \<le> b \<and> b \<le> 0xDFFF | _ \<Rightarrow> False)"

definition string_text :: "string_item list \<Rightarrow> u8 list" where
  "string_text its = concat (map item_text its)"

definition string_value :: "string_item list \<Rightarrow> u8 list" where
  "string_value its = concat (map (\<lambda>it. utf8 (item_code it)) its)"

section \<open>Escapes\<close>

lemma codepoint_digits_Cons:
  "codepoint_digits (f # fs) cp s =
     (case lx_current (get_char s) of
        Some c \<Rightarrow> (case hex_digit c of
            Some d \<Rightarrow> codepoint_digits fs (cp + push_bit f d) (get_char s) | None \<Rightarrow> (None, get_char s))
      | None \<Rightarrow> (None, get_char s))"
proof -
  have "unat c - 0x41 + 10 = unat c - 0x37" if "0x41 \<le> c" for c :: u8 using that by (simp add: word_le_nat_alt)
  moreover have "unat c - 0x61 + 10 = unat c - 0x57" if "0x61 \<le> c" for c :: u8 using that by (simp add: word_le_nat_alt)
  ultimately show ?thesis by (auto simp: hex_digit_def Let_def split: option.splits)
qed

lemma hex_digit_less: "hex_digit c = Some d \<Longrightarrow> d < 16"
  by (auto simp: hex_digit_def word_le_nat_alt split: if_splits)

lemma hex4_less: "hex4 h = Some cp \<Longrightarrow> cp < 0x10000"
  by (cases h rule: hex4.cases) (auto dest!: hex_digit_less split: option.splits)

lemma codepoint_digits_read:
  assumes "codepoint_digits fs cp s = (Some v, s1)" and "upcoming s xs"
  obtains h ys where "xs = h @ ys" "length h = length fs" "upcoming s1 ys" "token_buffer s1 = token_buffer s"
    "list_all (\<lambda>c. hex_digit c \<noteq> None) h"
    "v = cp + sum_list (map2 (\<lambda>f c. push_bit f (the (hex_digit c))) fs h)"
proof -
  have "\<exists>h ys. xs = h @ ys \<and> length h = length fs \<and> upcoming s1 ys \<and> token_buffer s1 = token_buffer s
    \<and> list_all (\<lambda>c. hex_digit c \<noteq> None) h \<and> v = cp + sum_list (map2 (\<lambda>f c. push_bit f (the (hex_digit c))) fs h)"
    using assms
  proof (induction fs arbitrary: cp s xs)
    case (Cons f fs)
    from Cons.prems obtain c d where c: "lx_current (get_char s) = Some c" "hex_digit c = Some d"
      "codepoint_digits fs (cp + push_bit f d) (get_char s) = (Some v, s1)"
      by (auto simp: codepoint_digits_Cons simp del: codepoint_digits.simps split: option.splits)
    obtain ys where ys: "xs = c # ys" "upcoming (get_char s) ys" by (rule get_Some [OF Cons.prems(2) c(1)])
    from Cons.IH [OF c(3) ys(2)] obtain h zs where "ys = h @ zs" "length h = length fs" "upcoming s1 zs"
      "token_buffer s1 = token_buffer s" "list_all (\<lambda>c. hex_digit c \<noteq> None) h"
      "v = cp + push_bit f d + sum_list (map2 (\<lambda>f c. push_bit f (the (hex_digit c))) fs h)" by auto
    then show ?case using ys(1) c(2) by (intro exI [of _ "c # h"] exI [of _ zs]) auto
  qed auto
  with that show ?thesis by blast
qed

lemma codepoint_digits_reads:
  assumes "upcoming s (h @ ys)" and "length h = length fs" and "list_all (\<lambda>c. hex_digit c \<noteq> None) h"
  obtains s1 where "codepoint_digits fs cp s = (Some (cp + sum_list (map2 (\<lambda>f c. push_bit f (the (hex_digit c))) fs h)), s1)"
    "upcoming s1 ys" "token_buffer s1 = token_buffer s"
proof -
  have "\<exists>s1. codepoint_digits fs cp s = (Some (cp + sum_list (map2 (\<lambda>f c. push_bit f (the (hex_digit c))) fs h)), s1)
    \<and> upcoming s1 ys \<and> token_buffer s1 = token_buffer s"
    using assms(2,1,3)
  proof (induction h fs arbitrary: cp s rule: list_induct2)
    case (Cons c h f fs)
    then have c: "lx_current (get_char s) = Some c" "upcoming (get_char s) (h @ ys)" using get_Cons by auto
    obtain d where d: "hex_digit c = Some d" using Cons.prems(2) by auto
    have "list_all (\<lambda>c. hex_digit c \<noteq> None) h" using Cons.prems(2) by simp
    from Cons.IH [OF c(2) this, of "cp + push_bit f d"] show ?case
      using c d by (simp add: codepoint_digits_Cons add.assoc del: codepoint_digits.simps)
  qed auto
  with that show ?thesis by blast
qed

lemma hex4_sum:
  assumes "length h = 4" and "list_all (\<lambda>c. hex_digit c \<noteq> None) h"
  shows "hex4 h = Some (sum_list (map2 (\<lambda>f c. push_bit f (the (hex_digit c))) [12, 8, 4, 0] h))"
proof -
  from assms(1) obtain a b c d where h: "h = [a, b, c, d]" by (cases h rule: hex4.cases) simp_all
  with assms(2) obtain v w x y where "hex_digit a = Some v" "hex_digit b = Some w" "hex_digit c = Some x" "hex_digit d = Some y"
    by auto
  then show ?thesis unfolding h by (simp add: push_bit_nat_def)
qed

lemma hex4_digits: "hex4 h = Some cp \<Longrightarrow> length h = 4 \<and> list_all (\<lambda>c. hex_digit c \<noteq> None) h"
  by (cases h rule: hex4.cases) (auto split: option.splits)

lemma get_codepoint_read:
  assumes "get_codepoint s = (Some cp, s1)" and "upcoming s xs"
  obtains h ys where "hex4 h = Some cp" "xs = h @ ys" "upcoming s1 ys" "token_buffer s1 = token_buffer s"
proof -
  from codepoint_digits_read [OF assms [unfolded get_codepoint_def]] obtain h ys where h:
    "xs = h @ ys" "length h = length [12, 8, 4, 0 :: nat]" "upcoming s1 ys" "token_buffer s1 = token_buffer s"
    "list_all (\<lambda>c. hex_digit c \<noteq> None) h" "cp = 0 + sum_list (map2 (\<lambda>f c. push_bit f (the (hex_digit c))) [12, 8, 4, 0] h)" .
  then have "hex4 h = Some cp" using hex4_sum [of h] by simp
  with h that show ?thesis by blast
qed

lemma get_codepoint_reads:
  assumes "upcoming s (h @ ys)" and "hex4 h = Some cp"
  obtains s1 where "get_codepoint s = (Some cp, s1)" "upcoming s1 ys" "token_buffer s1 = token_buffer s"
proof -
  have h: "length h = length [12, 8, 4, 0 :: nat]" "list_all (\<lambda>c. hex_digit c \<noteq> None) h" using hex4_digits [OF assms(2)] by auto
  from codepoint_digits_reads [OF assms(1) h, of 0] obtain s1 where s1:
    "codepoint_digits [12, 8, 4, 0] 0 s = (Some (0 + sum_list (map2 (\<lambda>f c. push_bit f (the (hex_digit c))) [12, 8, 4, 0] h)), s1)"
    "upcoming s1 ys" "token_buffer s1 = token_buffer s" by blast
  moreover have "0 + sum_list (map2 (\<lambda>f c. push_bit f (the (hex_digit c))) [12, 8, 4, 0] h) = cp"
    using hex4_sum [of h] hex4_digits [OF assms(2)] assms(2) by simp
  ultimately show ?thesis using that unfolding get_codepoint_def by metis
qed

text \<open>What an accepted item does to the lexer.\<close>

definition item_read :: "'f lexer \<Rightarrow> u8 list \<Rightarrow> string_item \<Rightarrow> u8 list \<Rightarrow> 'f lexer \<Rightarrow> bool" where
  "item_read s xs it ys s1 \<longleftrightarrow>
     item_ok it \<and> xs = item_text it @ ys \<and> upcoming s1 ys \<and> token_buffer s1 = token_buffer s @ utf8 (item_code it)"

lemma hex_bytes_code: "hex4 h = Some cp \<Longrightarrow> codepoint_bytes cp = utf8 cp"
  using hex4_less [of h cp] by (simp add: codepoint_bytes_utf8)

lemma pair_bytes:
  assumes "0xD800 \<le> a" "a \<le> 0xDBFF" "0xDC00 \<le> b" "b \<le> 0xDFFF"
  shows "codepoint_bytes (push_bit 10 a + b - 0x35FDC00) = utf8 (0x10000 + (a - 0xD800) * 0x400 + (b - 0xDC00))"
proof -
  have "push_bit 10 a + b - 0x35FDC00 = 0x10000 + (a - 0xD800) * 0x400 + (b - 0xDC00)"
    using assms by (simp add: push_bit_nat_def diff_mult_distrib)
  moreover have "0x10000 + (a - 0xD800) * 0x400 + (b - 0xDC00) < 0x110000" using assms by linarith
  ultimately show ?thesis by (simp add: codepoint_bytes_utf8)
qed

lemma low_surrogate_read:
  assumes "scan_low_surrogate a s = (None, s1)" and "upcoming s xs" and "0xD800 \<le> a" "a \<le> 0xDBFF"
  obtains k b ys where "hex4 k = Some b" "0xDC00 \<le> b" "b \<le> 0xDFFF" "xs = [0x5C, 0x75] @ k @ ys" "upcoming s1 ys"
    "token_buffer s1 = token_buffer s @ utf8 (0x10000 + (a - 0xD800) * 0x400 + (b - 0xDC00))"
proof -
  from assms(1) have c: "lx_current (get_char s) = Some 0x5C" "lx_current (get_char (get_char s)) = Some 0x75"
    by (auto simp: scan_low_surrogate_def Let_def split: if_splits)
  obtain xs1 where x1: "xs = 0x5C # xs1" "upcoming (get_char s) xs1" by (rule get_Some [OF assms(2) c(1)])
  obtain xs2 where x2: "xs1 = 0x75 # xs2" "upcoming (get_char (get_char s)) xs2" by (rule get_Some [OF x1(2) c(2)])
  from assms(1) c obtain b s2 where b: "get_codepoint (get_char (get_char s)) = (Some b, s2)" "0xDC00 \<le> b" "b \<le> 0xDFFF"
    "s1 = add_bytes (codepoint_bytes (push_bit 10 a + b - 0x35FDC00)) s2"
    by (auto simp: scan_low_surrogate_def Let_def split: prod.splits option.splits if_splits)
  from get_codepoint_read [OF b(1) x2(2)] obtain k ys where "hex4 k = Some b" "xs2 = k @ ys" "upcoming s2 ys"
    "token_buffer s2 = token_buffer s" by auto
  then show ?thesis using that [of k b ys] b x1(1) x2(1) pair_bytes [OF assms(3,4) b(2,3)] by simp
qed

lemma unicode_escape_read:
  assumes "scan_unicode_escape s = (None, s1)" and "upcoming s xs"
  obtains it ys where "item_read s ([0x5C, 0x75] @ xs) it ys s1"
proof -
  from assms(1) obtain a s2 where a: "get_codepoint s = (Some a, s2)"
    by (auto simp: scan_unicode_escape_def split: prod.splits option.splits)
  obtain h ys where h: "hex4 h = Some a" "xs = h @ ys" "upcoming s2 ys" "token_buffer s2 = token_buffer s"
    by (rule get_codepoint_read [OF a assms(2)])
  show ?thesis
  proof (cases "0xD800 \<le> a \<and> a \<le> 0xDBFF")
    case True
    then have "scan_low_surrogate a s2 = (None, s1)" using assms(1) a by (simp add: scan_unicode_escape_def)
    from low_surrogate_read [OF this h(3)] True obtain k b zs where "hex4 k = Some b" "0xDC00 \<le> b" "b \<le> 0xDFFF"
      "ys = [0x5C, 0x75] @ k @ zs" "upcoming s1 zs"
      "token_buffer s1 = token_buffer s @ utf8 (0x10000 + (a - 0xD800) * 0x400 + (b - 0xDC00))"
      using h(4) by auto
    then have "item_read s ([0x5C, 0x75] @ xs) (Pair h k) zs s1" using h True by (simp add: item_read_def)
    with that show ?thesis .
  next
    case False
    then have "s1 = add_bytes (codepoint_bytes a) s2" "\<not> (0xDC00 \<le> a \<and> a \<le> 0xDFFF)"
      using assms(1) a by (auto simp: scan_unicode_escape_def split: if_splits)
    then have "item_read s ([0x5C, 0x75] @ xs) (Hex h) ys s1"
      using h False hex_bytes_code [OF h(1)] by (auto simp: item_read_def surrogate_def)
    with that show ?thesis .
  qed
qed

lemma escape_read:
  assumes "scan_escape s = (None, s1)" and "upcoming s xs"
  obtains it ys where "item_read s (0x5C # xs) it ys s1"
proof -
  from assms(1) obtain c where c: "lx_current (get_char s) = Some c"
    by (auto simp: scan_escape_def Let_def split: option.splits)
  obtain ys where ys: "xs = c # ys" "upcoming (get_char s) ys" by (rule get_Some [OF assms(2) c])
  show ?thesis
  proof (cases "c = 0x75")
    case True
    then have "scan_unicode_escape (get_char s) = (None, s1)" using assms(1) c by (simp add: scan_escape_def)
    from unicode_escape_read [OF this ys(2)] obtain it zs where "item_read (get_char s) ([0x5C, 0x75] @ ys) it zs s1" .
    then have "item_read s (0x5C # xs) it zs s1" using ys(1) True by (simp add: item_read_def)
    with that show ?thesis .
  next
    case False
    then have "\<exists>v. short_escape c = Some v \<and> v < 0x80 \<and> s1 = add_byte (of_nat v) (get_char s)"
      using assms(1) c by (auto simp: scan_escape_def short_escape_def Let_def split: if_splits)
    then have "item_read s (0x5C # xs) (Short c) ys s1" using ys by (auto simp: item_read_def utf8_def)
    with that show ?thesis .
  qed
qed

section \<open>Characters\<close>

lemma bytes_read:
  assumes "bytes_in_range rs s = (True, s1)" and "upcoming s xs"
  obtains bs ys where "list_all2 in_range rs bs" "xs = bs @ ys" "upcoming s1 ys" "token_buffer s1 = token_buffer s @ bs"
proof -
  have "\<exists>bs ys. list_all2 in_range rs bs \<and> xs = bs @ ys \<and> upcoming s1 ys \<and> token_buffer s1 = token_buffer s @ bs"
    using assms
  proof (induction rs arbitrary: s xs)
    case (Cons r rs)
    obtain lo hi where r: "r = (lo, hi)" by (cases r)
    from Cons.prems(1) r obtain c where c: "lx_current (get_char s) = Some c" "lo \<le> c" "c \<le> hi"
      "bytes_in_range rs (add_byte c (get_char s)) = (True, s1)"
      by (auto simp: Let_def split: option.splits if_splits)
    obtain ys where ys: "xs = c # ys" "upcoming (get_char s) ys" by (rule get_Some [OF Cons.prems(2) c(1)])
    from Cons.IH [OF c(4)] ys(2) obtain bs zs where "list_all2 in_range rs bs" "ys = bs @ zs" "upcoming s1 zs"
      "token_buffer s1 = token_buffer s @ c # bs" by fastforce
    then show ?case using c r ys(1) by - (rule exI [of _ "c # bs"], rule exI [of _ zs], simp add: in_range_def [of "(lo, hi)"])
  qed auto
  with that show ?thesis by blast
qed

lemma bytes_reads:
  assumes "upcoming s (bs @ ys)" and "list_all2 in_range rs bs"
  obtains s1 where "bytes_in_range rs s = (True, s1)" "upcoming s1 ys" "token_buffer s1 = token_buffer s @ bs"
proof -
  have "\<exists>s1. bytes_in_range rs s = (True, s1) \<and> upcoming s1 ys \<and> token_buffer s1 = token_buffer s @ bs"
    using assms(2,1)
  proof (induction rs bs arbitrary: s rule: list_all2_induct)
    case (Cons r rs b bs)
    then have "lx_current (get_char s) = Some b" "upcoming (get_char s) (bs @ ys)" using get_Cons by auto
    with Cons show ?case
      using Cons.IH [of "add_byte b (get_char s)"] by (cases r) (simp add: in_range_def)
  qed auto
  with that show ?thesis by blast
qed

lemma plain_utf8: "plain_character c \<Longrightarrow> utf8 (unat c) = [c] \<and> item_ok (Raw (unat c))"
  by (simp add: plain_character_def utf8_def scalar_def word_le_nat_alt word_unat_eq_iff)

lemma string_char_read:
  assumes "scan_string_char (get_char s) = (None, s1)" and "upcoming s xs"
  obtains it ys where "item_read s xs it ys s1"
proof -
  from assms(1) obtain c where c: "lx_current (get_char s) = Some c" by (auto simp: scan_string_char_def split: option.splits)
  obtain ys where ys: "xs = c # ys" "upcoming (get_char s) ys" by (rule get_Some [OF assms(2) c])
  have q: "c \<noteq> 0x22" using assms(1) c by (auto simp: scan_string_char_def)
  show ?thesis
  proof (cases "c = 0x5C")
    case True
    then have "scan_escape (get_char s) = (None, s1)" using assms(1) c by (simp add: scan_string_char_def)
    from escape_read [OF this ys(2)] obtain it zs where "item_read (get_char s) (0x5C # ys) it zs s1" .
    then have "item_read s xs it zs s1" using ys(1) True by (simp add: item_read_def)
    with that show ?thesis .
  next
    case False
    then have n: "\<not> c < 0x20" using assms(1) c q by (auto simp: scan_string_char_def)
    show ?thesis
    proof (cases "plain_character c")
      case True
      then have "s1 = add_byte c (get_char s)" using assms(1) c q False n by (simp add: scan_string_char_def)
      then have "item_read s xs (Raw (unat c)) ys s1" using plain_utf8 [OF True] ys unfolding item_read_def by simp
      with that show ?thesis .
    next
      case p: False
      then obtain rs where rs: "following_ranges c = Some rs" "next_byte_in_range rs c (get_char s) = (True, s1)"
        using assms(1) c q False n by (auto simp: scan_string_char_def split: option.splits prod.splits if_splits)
      have "upcoming (add_byte c (get_char s)) ys" using ys(2) by simp
      from bytes_read [OF rs(2) [unfolded next_byte_in_range_def] this] obtain bs zs where
        b: "list_all2 in_range rs bs" "ys = bs @ zs" "upcoming s1 zs" "token_buffer s1 = token_buffer s @ [c] @ bs" by auto
      from following_sound [OF rs(1) b(1)] obtain cp where "scalar cp" "0x80 \<le> cp" "utf8 cp = c # bs" by blast
      then have "item_read s xs (Raw cp) zs s1" using b ys(1) by (simp add: item_read_def)
      with that show ?thesis .
    qed
  qed
qed

text \<open>Conversely, the text of every item is accepted.\<close>

lemma low_surrogate_reads:
  assumes "upcoming s ([0x5C, 0x75] @ k @ ys)" and "hex4 k = Some b" "0xDC00 \<le> b" "b \<le> 0xDFFF" and "0xD800 \<le> a" "a \<le> 0xDBFF"
  obtains s1 where "scan_low_surrogate a s = (None, s1)" "upcoming s1 ys"
    "token_buffer s1 = token_buffer s @ utf8 (0x10000 + (a - 0xD800) * 0x400 + (b - 0xDC00))"
proof -
  let ?s2 = "get_char (get_char s)"
  have c: "lx_current (get_char s) = Some 0x5C" "upcoming (get_char s) (0x75 # k @ ys)" using assms(1) get_Cons by auto
  then have d: "lx_current ?s2 = Some 0x75" "upcoming ?s2 (k @ ys)" using get_Cons by blast+
  obtain s3 where s3: "get_codepoint ?s2 = (Some b, s3)" "upcoming s3 ys" "token_buffer s3 = token_buffer s"
    using get_codepoint_reads [OF d(2) assms(2)] by auto
  then show ?thesis using that [of "add_bytes (codepoint_bytes (push_bit 10 a + b - 0x35FDC00)) s3"] c(1) d(1) assms(3,4)
      pair_bytes [OF assms(5,6,3,4)] by (simp add: scan_low_surrogate_def Let_def)
qed

lemma unicode_escape_reads:
  assumes "upcoming s xs" and "item_ok it" and "[0x5C, 0x75] @ xs = item_text it @ ys" and "(\<exists>h. it = Hex h) \<or> (\<exists>h k. it = Pair h k)"
  obtains s1 where "scan_unicode_escape s = (None, s1)" "upcoming s1 ys" "token_buffer s1 = token_buffer s @ utf8 (item_code it)"
proof (cases it)
  case (Hex h)
  then obtain cp where h: "hex4 h = Some cp" "\<not> surrogate cp" "xs = h @ ys" using assms(2,3) by (auto split: option.splits)
  obtain s2 where s2: "get_codepoint s = (Some cp, s2)" "upcoming s2 ys" "token_buffer s2 = token_buffer s"
    using get_codepoint_reads [of s h ys cp] assms(1) h by auto
  show ?thesis
    by (rule that [of "add_bytes (codepoint_bytes cp) s2"])
      (use s2 h Hex hex_bytes_code [OF h(1)] in \<open>auto simp: scan_unicode_escape_def surrogate_def\<close>)
next
  case (Pair h k)
  then obtain a b where h: "hex4 h = Some a" "hex4 k = Some b" "0xD800 \<le> a" "a \<le> 0xDBFF" "0xDC00 \<le> b" "b \<le> 0xDFFF"
    "xs = h @ [0x5C, 0x75] @ k @ ys" using assms(2,3) by (auto split: option.splits)
  have x: "upcoming s (h @ [0x5C, 0x75] @ k @ ys)" using assms(1) h(7) by simp
  obtain s2 where s2: "get_codepoint s = (Some a, s2)" "upcoming s2 ([0x5C, 0x75] @ k @ ys)" "token_buffer s2 = token_buffer s"
    by (rule get_codepoint_reads [OF x h(1)])
  obtain s3 where s3: "scan_low_surrogate a s2 = (None, s3)" "upcoming s3 ys"
    "token_buffer s3 = token_buffer s2 @ utf8 (0x10000 + (a - 0xD800) * 0x400 + (b - 0xDC00))"
    by (rule low_surrogate_reads [OF s2(2) h(2,5,6,3,4)])
  show ?thesis by (rule that [of s3]) (use s2 s3 h Pair in \<open>simp_all add: scan_unicode_escape_def\<close>)
qed (use assms(4) in auto)

lemma string_char_reads:
  assumes u: "upcoming s (item_text it @ ys)" and ok: "item_ok it"
  obtains s1 where "scan_string_char (get_char s) = (None, s1)" "upcoming s1 ys" "token_buffer s1 = token_buffer s @ utf8 (item_code it)"
proof (cases it)
  case (Raw cp)
  show ?thesis
  proof (cases "cp < 0x80")
    case True
    let ?c = "of_nat cp :: u8"
    have c: "lx_current (get_char s) = Some ?c" "upcoming (get_char s) ys" using u Raw True get_Cons by (auto simp: utf8_def)
    have n: "unat ?c = cp" using True by (simp add: unat_of_nat)
    have "plain_character ?c" "?c \<noteq> 0x22" "?c \<noteq> 0x5C" "\<not> ?c < 0x20"
      using ok Raw True n by (auto simp: plain_character_def word_le_nat_alt word_less_nat_alt word_unat_eq_iff)
    then show ?thesis using c Raw True by (intro that [of "add_byte ?c (get_char s)"]) (simp_all add: scan_string_char_def utf8_def)
  next
    case False
    then have cp: "scalar cp" "0x80 \<le> cp" using ok Raw by auto
    obtain c rs bs where b: "utf8 cp = c # bs" "following_ranges c = Some rs" "list_all2 in_range rs bs"
      by (rule following_complete [OF cp])
    have c: "lx_current (get_char s) = Some c" "upcoming (get_char s) (bs @ ys)" using u Raw b(1) get_Cons by auto
    have n: "c \<noteq> 0x22" "c \<noteq> 0x5C" "\<not> c < 0x20" "\<not> plain_character c"
      using b(2) by (auto simp: following_ranges_def plain_character_def word_le_nat_alt word_less_nat_alt split: if_splits)
    have c2: "upcoming (add_byte c (get_char s)) (bs @ ys)" using c(2) by simp
    obtain s1 where "bytes_in_range rs (add_byte c (get_char s)) = (True, s1)" "upcoming s1 ys"
      "token_buffer s1 = token_buffer s @ c # bs" using bytes_reads [OF c2 b(3)] by auto
    then show ?thesis using c(1) n b Raw by (intro that [of s1]) (simp_all add: scan_string_char_def next_byte_in_range_def)
  qed
next
  case (Short c)
  then have c: "lx_current (get_char s) = Some 0x5C" "upcoming (get_char s) (c # ys)" using u get_Cons by auto
  then have d: "lx_current (get_char (get_char s)) = Some c" "upcoming (get_char (get_char s)) ys" using get_Cons by blast+
  obtain v where v: "short_escape c = Some v" using ok Short by auto
  then have "v < 0x80" "scan_escape (get_char s) = (None, add_byte (of_nat v) (get_char (get_char s)))"
    using d(1) by (auto simp: short_escape_def scan_escape_def Let_def split: if_splits)
  then show ?thesis using c(1) d(2) v Short
    by (intro that [of "add_byte (of_nat v) (get_char (get_char s))"]) (simp_all add: scan_string_char_def utf8_def)
next
  case (Hex h)
  then have c: "lx_current (get_char s) = Some 0x5C" "upcoming (get_char s) (0x75 # h @ ys)" using u get_Cons by auto
  then have d: "lx_current (get_char (get_char s)) = Some 0x75" "upcoming (get_char (get_char s)) (h @ ys)" using get_Cons by blast+
  obtain s1 where "scan_unicode_escape (get_char (get_char s)) = (None, s1)" "upcoming s1 ys"
    "token_buffer s1 = token_buffer s @ utf8 (item_code it)"
    using unicode_escape_reads [OF d(2) ok, of ys] Hex by auto
  then show ?thesis using c(1) d(1) by (intro that [of s1]) (simp_all add: scan_string_char_def scan_escape_def Let_def)
next
  case (Pair h k)
  then have c: "lx_current (get_char s) = Some 0x5C" "upcoming (get_char s) (0x75 # h @ [0x5C, 0x75] @ k @ ys)" using u get_Cons by auto
  then have d: "lx_current (get_char (get_char s)) = Some 0x75" "upcoming (get_char (get_char s)) (h @ [0x5C, 0x75] @ k @ ys)"
    using get_Cons by blast+
  obtain s1 where "scan_unicode_escape (get_char (get_char s)) = (None, s1)" "upcoming s1 ys"
    "token_buffer s1 = token_buffer s @ utf8 (item_code it)"
    using unicode_escape_reads [OF d(2) ok, of ys] Pair by auto
  then show ?thesis using c(1) d(1) by (intro that [of s1]) (simp_all add: scan_string_char_def scan_escape_def Let_def)
qed

section \<open>Strings\<close>

lemma string_char_Some:
  assumes "scan_string_char (get_char s) = (Some value_string, s1)" and "upcoming s xs"
  shows "\<exists>ys. xs = 0x22 # ys \<and> upcoming s1 ys \<and> token_buffer s1 = token_buffer s"
proof -
  have n: "fst (scan_escape t) \<noteq> Some value_string" for t :: "'a lexer"
    by (auto simp: scan_escape_def scan_unicode_escape_def scan_low_surrogate_def Let_def split: option.splits prod.splits)
  from assms(1) n [of "get_char s"] have c: "lx_current (get_char s) = Some 0x22" "s1 = get_char s"
    by (auto simp: scan_string_char_def split: option.splits prod.splits if_splits)
  with get_Some [OF assms(2) c(1)] show ?thesis by auto
qed

lemma string_loop_read:
  "scan_string_loop s = (value_string, s1) \<Longrightarrow> upcoming s xs
    \<Longrightarrow> \<exists>its ys. list_all item_ok its \<and> xs = string_text its @ 0x22 # ys \<and> upcoming s1 ys
      \<and> token_buffer s1 = token_buffer s @ string_value its"
proof (induction s arbitrary: xs rule: scan_string_loop.induct)
  case (1 s)
  obtain r s2 where c: "scan_string_char (get_char s) = (r, s2)" by (cases "scan_string_char (get_char s)")
  show ?case
  proof (cases r)
    case (Some t)
    then have "scan_string_char (get_char s) = (Some value_string, s1)" using 1(2) c by (simp add: scan_string_loop.simps [of s])
    from string_char_Some [OF this 1(3)] show ?thesis
      by (intro exI [of _ "[] :: string_item list"]) (simp add: string_text_def string_value_def)
  next
    case None
    then have l: "scan_string_loop s2 = (value_string, s1)" using 1(2) c by (simp add: scan_string_loop.simps [of s])
    have c': "scan_string_char (get_char s) = (None, s2)" using c None by simp
    obtain it ys where it: "item_read s xs it ys s2" by (rule string_char_read [OF c' 1(3)])
    have "upcoming s2 ys" using it by (simp add: item_read_def)
    from 1(1) [OF c [symmetric] None l this] obtain its zs where "list_all item_ok its" "ys = string_text its @ 0x22 # zs"
      "upcoming s1 zs" "token_buffer s1 = token_buffer s2 @ string_value its" by blast
    then show ?thesis using it
      by (intro exI [of _ "it # its"] exI [of _ zs]) (simp add: item_read_def string_text_def string_value_def)
  qed
qed

lemma string_loop_reads:
  "upcoming s (string_text its @ 0x22 # ys) \<Longrightarrow> list_all item_ok its
    \<Longrightarrow> \<exists>s1. scan_string_loop s = (value_string, s1) \<and> upcoming s1 ys \<and> token_buffer s1 = token_buffer s @ string_value its"
proof (induction its arbitrary: s)
  case Nil
  then have "lx_current (get_char s) = Some 0x22" "upcoming (get_char s) ys" using get_Cons by (auto simp: string_text_def)
  then show ?case by (auto simp: scan_string_loop.simps [of s] scan_string_char_def string_value_def)
next
  case (Cons it its)
  then have u: "upcoming s (item_text it @ string_text its @ 0x22 # ys)" "item_ok it" by (simp_all add: string_text_def)
  obtain s1 where s1: "scan_string_char (get_char s) = (None, s1)" "upcoming s1 (string_text its @ 0x22 # ys)"
    "token_buffer s1 = token_buffer s @ utf8 (item_code it)" by (rule string_char_reads [OF u])
  from Cons.IH [OF s1(2)] Cons.prems(2) s1 show ?case by (auto simp: scan_string_loop.simps [of s] string_value_def)
qed

text \<open>
  C13: \<open>scan_string\<close> implements the string grammar. With the bytes \<open>xs\<close> behind the opening quote it returns a
  string token exactly when \<open>xs\<close> starts with a sequence of characters of the grammar (well-formed UTF-8
  without control characters, the short escapes, four hexadecimal digits that are no lone surrogate,
  surrogate pairs) and a closing quote; its buffer is then the UTF-8 encoding of the code points they
  denote, and the bytes behind the quote are next.
\<close>

theorem scan_string_implements_grammar:
  assumes "upcoming s xs"
  shows "(\<exists>s1. scan_string s = (value_string, s1) \<and> upcoming s1 ys \<and> token_buffer s1 = bs)
    \<longleftrightarrow> (\<exists>its. list_all item_ok its \<and> xs = string_text its @ 0x22 # ys \<and> bs = string_value its)"
proof -
  have u: "upcoming (reset_token s) xs" using assms by simp
  show ?thesis
  proof
    assume "\<exists>s1. scan_string s = (value_string, s1) \<and> upcoming s1 ys \<and> token_buffer s1 = bs"
    then obtain s1 where s1: "scan_string_loop (reset_token s) = (value_string, s1)" "upcoming s1 ys" "token_buffer s1 = bs"
      by (auto simp: scan_string_def)
    from string_loop_read [OF s1(1) u] obtain its zs where i: "list_all item_ok its" "xs = string_text its @ 0x22 # zs"
      "upcoming s1 zs" "token_buffer s1 = string_value its" by auto
    moreover have "zs = ys" using i(3) s1(2) by (rule upcoming_unique)
    ultimately show "\<exists>its. list_all item_ok its \<and> xs = string_text its @ 0x22 # ys \<and> bs = string_value its" using s1(3) by blast
  next
    assume "\<exists>its. list_all item_ok its \<and> xs = string_text its @ 0x22 # ys \<and> bs = string_value its"
    then obtain its where i: "list_all item_ok its" "xs = string_text its @ 0x22 # ys" "bs = string_value its" by blast
    from u have "upcoming (reset_token s) (string_text its @ 0x22 # ys)" unfolding i(2) .
    from string_loop_reads [OF this i(1)] i(3)
    show "\<exists>s1. scan_string s = (value_string, s1) \<and> upcoming s1 ys \<and> token_buffer s1 = bs" by (simp add: scan_string_def)
  qed
qed

text \<open>The escape of a line feed, and a letter.\<close>

theorem scan_string_implements_grammar_witness:
  "\<exists>s1. scan_string (lexer_new 0x2E () False [0x5C, 0x6E, 0x41, 0x22, 0x2C]) = (value_string, s1) \<and> upcoming s1 [0x2C]
    \<and> token_buffer s1 = [0x0A, 0x41]"
proof -
  have "list_all item_ok [Short 0x6E, Raw 0x41]" by (simp add: short_escape_def scalar_def)
  moreover have "[0x5C, 0x6E, 0x41, 0x22, 0x2C] = string_text [Short 0x6E, Raw 0x41] @ 0x22 # [0x2C]"
    by (simp add: string_text_def utf8_def)
  moreover have "[0x0A, 0x41] = string_value [Short 0x6E, Raw 0x41]" by (simp add: string_value_def short_escape_def utf8_def)
  ultimately show ?thesis
    unfolding scan_string_implements_grammar [OF upcoming_new] by blast
qed

end
