(* ===== verification/Json_Decoder.thy ===== *)
theory Json_Decoder
  imports Json_Serializer Json_Strings
begin

text \<open>
  The decoder of the serializer is a table of 400 numbers: the class of each byte and the transitions
  of an automaton. It is the decoder of UTF-8 as the standard defines it, with the ranges of the lexer.
\<close>

section \<open>The automaton\<close>

definition byte_class :: "nat \<Rightarrow> nat" where
  "byte_class n =
     (if n < 0x80 then 0 else if n < 0x90 then 1 else if n < 0xA0 then 9 else if n < 0xC0 then 7 else if n < 0xC2 then 8
      else if n < 0xE0 then 2 else if n = 0xE0 then 10 else if n = 0xED then 4 else if n < 0xF0 then 3 else if n = 0xF0 then 11
      else if n < 0xF4 then 6 else if n = 0xF4 then 5 else 8)"

lemma nth_Cons_numeral: "(x # xs) ! numeral k = xs ! (numeral k - 1)"
  by (simp add: nth_Cons')

lemma utf8d_high: "list_all (\<lambda>n. utf8d ! n = byte_class n) [0xE0..<256]"
  by (simp add: utf8d_def nth_append nth_Cons_numeral byte_class_def upt_rec)

lemma utf8d_classes:
  assumes "n < 256"
  shows "utf8d ! n = byte_class n"
proof -
  consider "n < 0x80" | "0x80 \<le> n" "n < 0x90" | "0x90 \<le> n" "n < 0xA0" | "0xA0 \<le> n" "n < 0xC0" | "n = 0xC0" | "n = 0xC1"
    | "0xC2 \<le> n" "n < 0xE0" | (high) "0xE0 \<le> n" using assms by linarith
  then show ?thesis
  proof cases
    case high
    then have "n \<in> set [0xE0..<256]" using assms by (simp only: set_upt atLeastLessThan_iff simp_thms)
    then show ?thesis using utf8d_high unfolding list_all_iff by blast
  qed (auto simp: utf8d_def nth_append byte_class_def nth_Cons')
qed

text \<open>The rows of the transitions, for the states that occur.\<close>

definition transition :: "nat \<Rightarrow> nat \<Rightarrow> nat" where
  "transition st c =
     ([[0, 1, 2, 3, 5, 8, 7, 1, 1, 1, 4, 6],
       [1, 1, 1, 1, 1, 1, 1, 1, 1, 1, 1, 1],
       [1, 0, 1, 1, 1, 1, 1, 0, 1, 0, 1, 1],
       [1, 2, 1, 1, 1, 1, 1, 2, 1, 2, 1, 1],
       [1, 1, 1, 1, 1, 1, 1, 2, 1, 1, 1, 1],
       [1, 2, 1, 1, 1, 1, 1, 1, 1, 2, 1, 1],
       [1, 1, 1, 1, 1, 1, 1, 3, 1, 3, 1, 1],
       [1, 3, 1, 1, 1, 1, 1, 3, 1, 3, 1, 1],
       [1, 3, 1, 1, 1, 1, 1, 1, 1, 1, 1, 1]] ! st) ! c"

lemma utf8d_transitions:
  "list_all (\<lambda>st. list_all (\<lambda>c. utf8d ! (256 + st * 16 + c) = transition st c) [0..<12]) [0..<9]"
  by (simp add: utf8d_def nth_append nth_Cons_numeral transition_def upt_rec)

text \<open>The states are the bytes that are still to come.\<close>

definition state_of :: "(u8 \<times> u8) list \<Rightarrow> nat" where
  "state_of rs =
     (if rs = [] then 0
      else if length rs = 1 then 2
      else if length rs = 2 then (if fst (hd rs) = 0xA0 then 4 else if snd (hd rs) = 0x9F then 5 else 3)
      else (if fst (hd rs) = 0x90 then 6 else if snd (hd rs) = 0x8F then 8 else 7))"

definition pending_ranges :: "(u8 \<times> u8) list \<Rightarrow> bool" where
  "pending_ranges rs \<longleftrightarrow> rs \<in> {[(0x80, 0xBF)], [(0xA0, 0xBF), (0x80, 0xBF)], [(0x80, 0xBF), (0x80, 0xBF)], [(0x80, 0x9F), (0x80, 0xBF)],
     [(0x90, 0xBF), (0x80, 0xBF), (0x80, 0xBF)], [(0x80, 0xBF), (0x80, 0xBF), (0x80, 0xBF)], [(0x80, 0x8F), (0x80, 0xBF), (0x80, 0xBF)]}"

lemma class_bound: "n < 256 \<Longrightarrow> byte_class n < 12"
  by (simp add: byte_class_def)

lemma decode_state:
  assumes "st < 9"
  shows "fst (decode st cp b) = transition st (byte_class (unat b))"
proof -
  have "byte_class (unat b) \<in> set [0..<12]" "st \<in> set [0..<9]" using assms class_bound unat_less_256 [of b] by auto
  then show ?thesis using utf8d_transitions utf8d_classes [OF unat_less_256 [of b]]
    unfolding list_all_iff decode_def Let_def by simp
qed

lemma transition_start:
  "transition 0 0 = 0" "transition 0 (Suc 0) = 1" "transition 0 7 = 1" "transition 0 8 = 1" "transition 0 9 = 1" "transition 0 2 = 2"
  "transition 0 10 = 4" "transition 0 3 = 3" "transition 0 4 = 5" "transition 0 11 = 6" "transition 0 6 = 7" "transition 0 5 = 8"
  by (simp_all add: transition_def nth_Cons_numeral)

lemma following_transition:
  assumes "n < 256"
  shows "transition 0 (byte_class n) = (if n < 0x80 then 0 else case following_ranges (of_nat n) of Some rs \<Rightarrow> state_of rs | None \<Rightarrow> 1)"
proof -
  consider "n < 0x80" | "0x80 \<le> n" "n < 0x90" | "0x90 \<le> n" "n < 0xA0" | "0xA0 \<le> n" "n < 0xC0" | "0xC0 \<le> n" "n < 0xC2"
    | "0xC2 \<le> n" "n < 0xE0" | (high) "0xE0 \<le> n" using assms by linarith
  then show ?thesis
    unfolding following_of_nat [OF assms]
  proof cases
    case high
    consider "n = 0xE0" | "0xE0 < n" "n < 0xED" | "n = 0xED" | "n = 0xEE" | "n = 0xEF" | (rest) "0xF0 \<le> n" using high by linarith
    then show "transition 0 (byte_class n) =
      (if n < 0x80 then 0 else case if 0xC2 \<le> n \<and> n \<le> 0xDF then Some [(0x80, 0xBF)]
      else if n = 0xE0 then Some [(0xA0, 0xBF), (0x80, 0xBF)]
      else if 0xE1 \<le> n \<and> n \<le> 0xEC \<or> n = 0xEE \<or> n = 0xEF then Some [(0x80, 0xBF), (0x80, 0xBF)]
      else if n = 0xED then Some [(0x80, 0x9F), (0x80, 0xBF)]
      else if n = 0xF0 then Some [(0x90, 0xBF), (0x80, 0xBF), (0x80, 0xBF)]
      else if 0xF1 \<le> n \<and> n \<le> 0xF3 then Some [(0x80, 0xBF), (0x80, 0xBF), (0x80, 0xBF)]
      else if n = 0xF4 then Some [(0x80, 0x8F), (0x80, 0xBF), (0x80, 0xBF)]
      else None of Some rs \<Rightarrow> state_of rs | None \<Rightarrow> 1)"
    proof cases
      case rest
      consider "n = 0xF0" | "0xF0 < n" "n < 0xF4" | "n = 0xF4" | "0xF4 < n" using rest by linarith
      then show ?thesis by cases (simp_all add: byte_class_def transition_start state_of_def)
    qed (simp_all add: byte_class_def transition_start state_of_def)
  qed (simp_all add: byte_class_def transition_start state_of_def)
qed

lemma decode_first:
  "fst (decode 0 cp b) = (if b < 0x80 then 0 else case following_ranges b of Some rs \<Rightarrow> state_of rs | None \<Rightarrow> 1)"
  using following_transition [OF unat_less_256 [of b]] decode_state [of 0 cp b] by (simp add: word_less_nat_alt)

lemma transition_other:
  "list_all (\<lambda>st. list_all (\<lambda>c. c \<in> {1, 7, 9} \<or> transition st c = 1) [0..<12]) [2..<9]"
  by (simp add: transition_def nth_Cons_numeral upt_rec)

lemma byte_class_next:
  assumes "n < 256"
  obtains (low) "0x80 \<le> n" "n < 0x90" "byte_class n = 1" | (mid) "0x90 \<le> n" "n < 0xA0" "byte_class n = 9"
    | (high) "0xA0 \<le> n" "n < 0xC0" "byte_class n = 7" | (other) "n < 0x80 \<or> 0xC0 \<le> n" "byte_class n \<notin> {1, 7, 9}"
proof -
  have "byte_class n \<notin> {1, 7, 9}" if "n < 0x80 \<or> 0xC0 \<le> n" using that by (auto simp: byte_class_def)
  moreover have "0x80 \<le> n \<Longrightarrow> n < 0x90 \<Longrightarrow> byte_class n = 1" "0x90 \<le> n \<Longrightarrow> n < 0xA0 \<Longrightarrow> byte_class n = 9"
    "0xA0 \<le> n \<Longrightarrow> n < 0xC0 \<Longrightarrow> byte_class n = 7" by (simp_all add: byte_class_def)
  ultimately show ?thesis using low mid high other by (meson not_le)
qed

lemma decode_next:
  assumes "pending_ranges (r # rs)"
  shows "fst (decode (state_of (r # rs)) cp b) = (if in_range r b then state_of rs else 1)" "rs = [] \<or> pending_ranges rs"
    "2 \<le> state_of (r # rs)"
proof -
  consider "r # rs = [(0x80, 0xBF)]" | "r # rs = [(0xA0, 0xBF), (0x80, 0xBF)]" | "r # rs = [(0x80, 0xBF), (0x80, 0xBF)]"
      | "r # rs = [(0x80, 0x9F), (0x80, 0xBF)]" | "r # rs = [(0x90, 0xBF), (0x80, 0xBF), (0x80, 0xBF)]"
      | "r # rs = [(0x80, 0xBF), (0x80, 0xBF), (0x80, 0xBF)]" | "r # rs = [(0x80, 0x8F), (0x80, 0xBF), (0x80, 0xBF)]"
    using assms unfolding pending_ranges_def by blast
  note c = this
  have s: "state_of (r # rs) < 9" by (simp add: state_of_def)
  show s2: "2 \<le> state_of (r # rs)" by (simp add: state_of_def)
  show "rs = [] \<or> pending_ranges rs" using c by cases (simp_all add: pending_ranges_def)
  show "fst (decode (state_of (r # rs)) cp b) = (if in_range r b then state_of rs else 1)"
    unfolding decode_state [OF s]
    using unat_less_256 [of b]
  proof (cases rule: byte_class_next)
    case low
    with c show "transition (state_of (r # rs)) (byte_class (unat b)) = (if in_range r b then state_of rs else 1)"
      by cases (simp_all add: state_of_def transition_def nth_Cons_numeral in_range_def word_le_nat_alt)
  next
    case mid
    with c show "transition (state_of (r # rs)) (byte_class (unat b)) = (if in_range r b then state_of rs else 1)"
      by cases (simp_all add: state_of_def transition_def nth_Cons_numeral in_range_def word_le_nat_alt)
  next
    case high
    with c show "transition (state_of (r # rs)) (byte_class (unat b)) = (if in_range r b then state_of rs else 1)"
      by cases (simp_all add: state_of_def transition_def nth_Cons_numeral in_range_def word_le_nat_alt)
  next
    case other
    have "byte_class (unat b) \<in> set [0..<12]" "state_of (r # rs) \<in> set [2..<9]"
      using s s2 class_bound [OF unat_less_256 [of b]] by auto
    then have "transition (state_of (r # rs)) (byte_class (unat b)) = 1"
      using transition_other other(2) unfolding list_all_iff by blast
    moreover have "\<not> in_range r b" using c other(1) by cases (auto simp: in_range_def word_le_nat_alt)
    ultimately show "transition (state_of (r # rs)) (byte_class (unat b)) = (if in_range r b then state_of rs else 1)" by simp
  qed
qed

lemma following_pending: "following_ranges b = Some rs \<Longrightarrow> pending_ranges rs"
  by (auto simp: following_ranges_def pending_ranges_def split: if_splits)

section \<open>The code point\<close>

lemma mask_FF: "t < 12 \<Longrightarrow> drop_bit t (0xFF :: u32) = mask (8 - t)"
proof -
  have "list_all (\<lambda>t. drop_bit t (0xFF :: u32) = mask (8 - t)) [0..<12]" by (simp add: upt_rec mask_eq_exp_minus_1)
  then show "t < 12 \<Longrightarrow> drop_bit t (0xFF :: u32) = mask (8 - t)" by (simp add: list_all_iff)
qed

lemma unat_ucast_8_32: "unat (ucast (b :: u8) :: u32) = unat b"
  using unat_less_256 [of b] by (simp add: unsigned_ucast_eq take_bit_nat_eq_self)

lemma decode_lead: "unat (snd (decode 0 cp b)) = unat b mod 2 ^ (8 - byte_class (unat b))"
proof -
  let ?t = "byte_class (unat b)"
  have "snd (decode 0 cp b) = drop_bit ?t 0xFF AND ucast b"
    using utf8d_classes [OF unat_less_256 [of b]] by (simp add: decode_def Let_def UTF8_ACCEPT_def)
  then have "snd (decode 0 cp b) = take_bit (8 - ?t) (ucast b)"
    unfolding mask_FF [OF class_bound [OF unat_less_256]] by (simp add: take_bit_eq_mask and.commute)
  then have "unat (snd (decode 0 cp b)) = take_bit (8 - ?t) (unat b)" by (simp only: unsigned_take_bit_eq unat_ucast_8_32)
  then show ?thesis by (simp only: take_bit_eq_mod)
qed

lemma decode_more:
  assumes "st \<noteq> 0" and "unat cp < 2 ^ 26"
  shows "unat (snd (decode st cp b)) = unat cp * 64 + unat b mod 64"
proof -
  have "snd (decode st cp b) = (ucast b AND 0x3F) OR push_bit 6 cp"
    using assms(1) by (simp add: decode_def Let_def UTF8_ACCEPT_def)
  moreover have "unat (ucast b AND 0x3F :: u32) = unat b mod 64"
    unfolding unsigned_and_eq unat_ucast_8_32 by (simp add: and_63)
  moreover have "unat (push_bit 6 cp) = unat cp * 2 ^ 6"
    unfolding unsigned_push_bit_eq using assms(2) by (simp add: push_bit_eq_mult take_bit_nat_eq_self)
  ultimately have "unat (snd (decode st cp b)) = (unat cp * 2 ^ 6) OR (unat b mod 64)"
    by (simp only: unsigned_or_eq or.commute)
  then show ?thesis using or_high [of "unat b mod 64" 6 "unat cp"] by simp
qed

end
