(* ===== verification/Json_Escape.thy ===== *)
theory Json_Escape
  imports Json_Decoder
begin

text \<open>
  The escaping of strings: for well-formed UTF-8 it writes the characters of the string grammar, and
  for any input it stays within its buffer.
\<close>

section \<open>A code point\<close>

text \<open>The bytes of an incomplete sequence are already in the buffer, unless they will be escaped.\<close>

definition pended :: "bool \<Rightarrow> u8 list \<Rightarrow> escaper \<Rightarrow> escaper" where
  "pended ea xs e = e\<lparr> string_buffer := string_buffer e @ (if ea then [] else xs), undumped_chars := undumped_chars e + length xs \<rparr>"

lemma pended_simps [simp]:
  "pended ea [] e = e" "pended ea ys (pended ea xs e) = pended ea (xs @ ys) e"
  "string_buffer (pended ea xs e) = string_buffer e @ (if ea then [] else xs)" "written (pended ea xs e) = written e"
  by (simp_all add: pended_def)

lemma incomplete_pended:
  "length (string_buffer e) < 512 \<Longrightarrow> incomplete_byte ea b e = Dumped (pended ea [b] e)"
  by (simp add: incomplete_byte_def put_bytes_def pended_def)

lemma state_of_pending: "pending_ranges rs \<Longrightarrow> state_of rs \<noteq> 0 \<and> state_of rs \<noteq> 1"
  by (auto simp: pending_ranges_def state_of_def)

definition decoded :: "nat \<Rightarrow> u8 list \<Rightarrow> nat" where
  "decoded v bs = foldl (\<lambda>v b. v * 64 + unat b mod 64) v bs"

lemma le_mult_one: "(n::nat) \<le> n * 64 ^ k"
  by simp

lemma le_64: "(r::nat) < 64 \<Longrightarrow> u * 64 + r + 1 \<le> (u + 1) * 64"
  by simp

lemma escape_pending:
  assumes "list_all2 in_range rs bs" and "pending_ranges rs" and "(unat c + 1) * 64 ^ length bs \<le> 2 ^ 26"
    and "length (string_buffer e) + length bs \<le> 512"
  shows "escape_loop h ea (state_of rs) c i (bs @ rest) e =
    and_then (accepted_codepoint ea (of_nat (decoded (unat c) bs)) (last bs) (pended ea (butlast bs) e))
      (\<lambda>e1. escape_loop h ea 0 (of_nat (decoded (unat c) bs)) (i + length bs) rest e1)"
  using assms
proof (induction rs bs arbitrary: c i e rule: list_all2_induct)
  case Nil
  then show ?case by (simp add: pending_ranges_def)
next
  case (Cons r rs b bs)
  note n = decode_next(1) [OF Cons.prems(1), of c b] decode_next(2) [OF Cons.prems(1)] and s = state_of_pending [OF Cons.prems(1)]
  obtain c1 where d: "decode (state_of (r # rs)) c b = (state_of rs, c1)"
    using n(1) Cons.hyps(1) by (cases "decode (state_of (r # rs)) c b") simp
  have le: "unat c + 1 \<le> (unat c + 1) * 64 ^ length (b # bs)" by (rule le_mult_one)
  then have "unat c < 2 ^ 26" using Cons.prems(2) by linarith
  from decode_more [OF conjunct1 [OF s] this, of b] d have c1: "unat c1 = unat c * 64 + unat b mod 64" by simp
  show ?case
  proof (cases bs)
    case Nil
    then have rs: "rs = []" using Cons.hyps(2) by simp
    have "of_nat (unat c * 64 + unat b mod 64) = c1" unfolding c1 [symmetric] by simp
    then show ?thesis using d Nil rs by (simp add: state_of_def UTF8_ACCEPT_def decoded_def)
  next
    case (Cons b' bs')
    then have p: "pending_ranges rs" using n(2) Cons.hyps(2) by auto
    have b0: "state_of rs \<noteq> 0" "state_of rs \<noteq> 1" using state_of_pending [OF p] by auto
    have b64: "unat b mod 64 < 64" by simp
    have "(unat c1 + 1) * 64 ^ length bs \<le> (unat c + 1) * 64 * 64 ^ length bs"
      unfolding c1 by (rule mult_le_mono1, rule le_64 [OF b64])
    also have "\<dots> = (unat c + 1) * 64 ^ length (b # bs)" by (simp add: algebra_simps)
    finally have m: "(unat c1 + 1) * 64 ^ length bs \<le> 2 ^ 26" using Cons.prems(2) by (rule le_trans)
    have l: "length (string_buffer (pended ea [b] e)) + length bs \<le> 512" "length (string_buffer e) < 512"
      using Cons.prems(3) by simp_all
    have v: "decoded (unat c1) bs = decoded (unat c) (b # bs)" by (simp add: decoded_def c1)
    have "escape_loop h ea (state_of (r # rs)) c i ((b # bs) @ rest) e
        = escape_loop h ea (state_of rs) c1 (i + 1) (bs @ rest) (pended ea [b] e)"
      using d b0 incomplete_pended [OF l(2), of ea b] in_range_def by (simp add: UTF8_ACCEPT_def UTF8_REJECT_def)
    also have "\<dots> = and_then (accepted_codepoint ea (of_nat (decoded (unat c1) bs)) (last bs) (pended ea (butlast bs) (pended ea [b] e)))
      (\<lambda>e1. escape_loop h ea 0 (of_nat (decoded (unat c1) bs)) (i + 1 + length bs) rest e1)"
      by (rule Cons.IH [OF p m l(1)])
    also have "\<dots> = and_then (accepted_codepoint ea (of_nat (decoded (unat c) (b # bs))) (last (b # bs)) (pended ea (butlast (b # bs)) e))
      (\<lambda>e1. escape_loop h ea 0 (of_nat (decoded (unat c) (b # bs))) (i + length (b # bs)) rest e1)"
      unfolding v using Cons by simp
    finally show ?thesis .
  qed
qed

text \<open>The bytes of a code point in base 64.\<close>

lemma decoded_utf8:
  assumes "scalar cp" and "0x80 \<le> cp" and "utf8 cp = b # bs"
  shows "decoded (unat b mod 2 ^ (8 - byte_class (unat b))) bs = cp"
    "(unat b mod 2 ^ (8 - byte_class (unat b)) + 1) * 64 ^ length bs \<le> 2 ^ 26"
proof -
  have m: "k < 64 \<Longrightarrow> unat (of_nat (0x80 + k) :: u8) mod 64 = k" for k :: nat using mod_mult_self3 [of 2 64 k] by (subst unat_u8) simp_all
  consider (two) "cp < 0x800" | (three) "0x800 \<le> cp" "cp < 0x10000" | (four) "0x10000 \<le> cp" by linarith
  then have "decoded (unat b mod 2 ^ (8 - byte_class (unat b))) bs = cp \<and>
    (unat b mod 2 ^ (8 - byte_class (unat b)) + 1) * 64 ^ length bs \<le> 2 ^ 26"
  proof cases
    case two
    then have b: "b = of_nat (0xC0 + cp div 64)" "bs = [of_nat (0x80 + cp mod 64)]" and q: "2 \<le> cp div 64" "cp div 64 < 32"
      using assms by (auto simp: utf8_def)
    have u: "unat b = 0xC0 + cp div 64" unfolding b(1) using q by (subst unat_u8) simp_all
    have "byte_class (unat b) = 2" "unat b mod 2 ^ 6 = cp div 64" unfolding u using q mod_mult_self3 [of 3 64 "cp div 64"] by (simp_all add: byte_class_def)
    then show ?thesis unfolding b(2) decoded_def using q by (simp add: m del: of_nat_add)
  next
    case three
    define x y z where xyz: "x = cp div 4096" "y = cp div 64 mod 64" "z = cp mod 64"
    have b: "b = of_nat (0xE0 + x)" "bs = [of_nat (0x80 + y), of_nat (0x80 + z)]" and q: "x < 16" "y < 64" "z < 64"
      using assms three by (auto simp: utf8_def xyz)
    have u: "unat b = 0xE0 + x" unfolding b(1) using q by (subst unat_u8) simp_all
    have cp: "cp = x * 4096 + y * 64 + z" unfolding xyz by (rule split_base64)
    have "x \<noteq> 0 \<Longrightarrow> x \<noteq> 13 \<Longrightarrow> byte_class (unat b) = 3" "x = 13 \<Longrightarrow> byte_class (unat b) = 4" "x = 0 \<Longrightarrow> byte_class (unat b) = 10"
      unfolding u using q by (simp_all add: byte_class_def)
    then have "unat b mod 2 ^ (8 - byte_class (unat b)) = x" unfolding u using q mod_mult_self3 [of 7 32 x] by (cases "x = 0"; cases "x = 13") simp_all
    then show ?thesis unfolding b(2) decoded_def cp using q by (simp add: m del: of_nat_add)
  next
    case four
    define w x y z where xyz: "w = cp div 262144" "x = cp div 4096 mod 64" "y = cp div 64 mod 64" "z = cp mod 64"
    have b: "b = of_nat (0xF0 + w)" "bs = [of_nat (0x80 + x), of_nat (0x80 + y), of_nat (0x80 + z)]" and q: "w < 5" "x < 64" "y < 64" "z < 64"
      using assms four by (auto simp: utf8_def xyz scalar_def)
    have u: "unat b = 0xF0 + w" unfolding b(1) using q by (subst unat_u8) simp_all
    have cp: "cp = w * 262144 + x * 4096 + y * 64 + z" unfolding xyz by (rule split_base64)
    have "w \<noteq> 0 \<Longrightarrow> w \<noteq> 4 \<Longrightarrow> byte_class (unat b) = 6" "w = 4 \<Longrightarrow> byte_class (unat b) = 5" "w = 0 \<Longrightarrow> byte_class (unat b) = 11"
      unfolding u using q by (simp_all add: byte_class_def)
    then have "unat b mod 2 ^ (8 - byte_class (unat b)) = w" unfolding u using q mod_mult_self3 [of 60 4 w] by (cases "w = 0"; cases "w = 4") simp_all
    then show ?thesis unfolding b(2) decoded_def cp using q by (simp add: m del: of_nat_add)
  qed
  then show "decoded (unat b mod 2 ^ (8 - byte_class (unat b))) bs = cp"
    "(unat b mod 2 ^ (8 - byte_class (unat b)) + 1) * 64 ^ length bs \<le> 2 ^ 26" by auto
qed

lemma pending_length: "pending_ranges rs \<Longrightarrow> rs \<noteq> [] \<and> length rs \<le> 3"
  by (auto simp: pending_ranges_def)

lemma escape_codepoint:
  assumes cp: "scalar cp" and e: "length (string_buffer e) \<le> 499"
  shows "escape_loop h ea 0 c i (utf8 cp @ rest) e =
    and_then (accepted_codepoint ea (of_nat cp) (last (utf8 cp)) (pended ea (butlast (utf8 cp)) e))
      (\<lambda>e1. escape_loop h ea 0 (of_nat cp) (i + length (utf8 cp)) rest e1)"
proof (cases "cp < 0x80")
  case True
  let ?b = "of_nat cp :: u8"
  have b: "?b < 0x80" "unat ?b = cp" using True by (simp_all add: word_less_nat_alt unat_u8)
  have k: "byte_class cp = 0" using True by (simp add: byte_class_def)
  have "unat (snd (decode 0 c ?b)) = cp" unfolding decode_lead b(2) k using True by simp
  then have "snd (decode 0 c ?b) = of_nat cp" by (metis of_nat_unat ucast_id)
  then have "decode 0 c ?b = (0, of_nat cp)" using decode_first [of c ?b] b(1) by (cases "decode 0 c ?b") simp
  then show ?thesis using True by (simp add: utf8_def UTF8_ACCEPT_def)
next
  case False
  then have c80: "0x80 \<le> cp" by simp
  obtain b rs bs where u: "utf8 cp = b # bs" "following_ranges b = Some rs" "list_all2 in_range rs bs"
    by (rule following_complete [OF cp c80])
  have p: "pending_ranges rs" by (rule following_pending [OF u(2)])
  then have bs: "bs \<noteq> []" "length bs \<le> 3" using pending_length [OF p] list_all2_lengthD [OF u(3)] by auto
  note d = decoded_utf8 [OF cp c80 u(1), folded decode_lead [of c b]]
  have "\<not> b < 0x80" using u(2) by (auto simp: following_ranges_def word_le_nat_alt word_less_nat_alt split: if_splits)
  then have f: "fst (decode 0 c b) = state_of rs" using decode_first [of c b] u(2) by simp
  have s: "state_of rs \<noteq> 0" "state_of rs \<noteq> 1" using state_of_pending [OF p] by auto
  have l: "length (string_buffer (pended ea [b] e)) + length bs \<le> 512" "length (string_buffer e) < 512" using e bs by simp_all
  have "escape_loop h ea 0 c i (utf8 cp @ rest) e
      = escape_loop h ea (state_of rs) (snd (decode 0 c b)) (i + 1) (bs @ rest) (pended ea [b] e)"
    using f s incomplete_pended [OF l(2), of ea b] u(1)
    by (cases "decode 0 c b") (simp add: UTF8_ACCEPT_def UTF8_REJECT_def)
  also have "\<dots> = and_then (accepted_codepoint ea (of_nat cp) (last bs) (pended ea (butlast bs) (pended ea [b] e)))
      (\<lambda>e1. escape_loop h ea 0 (of_nat cp) (i + 1 + length bs) rest e1)"
    using escape_pending [OF u(3) p d(2) l(1)] unfolding d(1) .
  finally show ?thesis using bs(1) u(1) by simp
qed

section \<open>The text of a code point\<close>

definition escaped :: "bool \<Rightarrow> nat \<Rightarrow> string_item" where
  "escaped ea cp =
     (case map_of [(8, 0x62), (9, 0x74), (10, 0x6E), (12, 0x66), (13, 0x72), (0x22, 0x22), (0x5C, 0x5C)] cp of
        Some c \<Rightarrow> Short c
      | None \<Rightarrow>
          if cp \<le> 0x1F \<or> ea \<and> 0x7F \<le> cp then
            if cp \<le> 0xFFFF then Hex (hex_lower (of_nat cp))
            else Pair (hex_lower (of_nat (0xD7C0 + cp div 1024))) (hex_lower (of_nat (0xDC00 + cp mod 1024)))
          else Raw cp)"

lemma hex_lower_nat:
  assumes "n < 65536"
  shows "hex_lower (of_nat n)
    = map (\<lambda>k. ascii ''0123456789abcdef'' ! k) [n div 4096, n div 256 mod 16, n div 16 mod 16, n mod 16]"
proof -
  have "unat (of_nat n :: u16) = n" using assms by (simp add: unat_of_nat)
  moreover have "n div 4096 mod 16 = n div 4096" using assms by simp
  ultimately show ?thesis by (simp add: hex_lower_def)
qed

lemma hex_digit_lower: "k < 16 \<Longrightarrow> hex_digit (ascii ''0123456789abcdef'' ! k) = Some k"
proof -
  have "list_all (\<lambda>k. hex_digit (ascii ''0123456789abcdef'' ! k) = Some k) [0..<16]"
    by (simp add: upt_rec ascii_def hex_digit_def)
  then show "k < 16 \<Longrightarrow> hex_digit (ascii ''0123456789abcdef'' ! k) = Some k" by (simp add: list_all_iff)
qed

lemma base16:
  fixes n q1 q2 q3 r0 r1 r2 :: nat
  assumes "q1 * 16 + r0 = n" "q2 * 16 + r1 = q1" "q3 * 16 + r2 = q2"
  shows "q3 * 4096 + r2 * 256 + r1 * 16 + r0 = n"
  using assms by linarith

lemma hex4_lower:
  assumes "n < 65536"
  shows "hex4 (hex_lower (of_nat n)) = Some n"
proof -
  have "n div 4096 < 16" "n div 256 mod 16 < 16" "n div 16 mod 16 < 16" "n mod 16 < 16" using assms by simp_all
  note d = this [THEN hex_digit_lower]
  have q: "n div 256 = n div 16 div 16" "n div 4096 = n div 16 div 16 div 16" by (simp_all add: div_mult2_eq [symmetric])
  have "n div 4096 * 4096 + n div 256 mod 16 * 256 + n div 16 mod 16 * 16 + n mod 16 = n"
    unfolding q by (rule base16) (rule div_mult_mod_eq)+
  then show ?thesis unfolding hex_lower_nat [OF assms] list.map hex4.simps d prod.case option.case by (rule arg_cong)
qed

lemma escaped_item:
  assumes "scalar cp"
  shows "item_ok (escaped ea cp)" "item_code (escaped ea cp) = cp"
proof -
  have "item_ok (escaped ea cp) \<and> item_code (escaped ea cp) = cp"
  proof (cases "map_of [(8, 0x62), (9, 0x74), (10, 0x6E), (12, 0x66), (13, 0x72), (0x22, 0x22), (0x5C, 0x5C)] cp :: u8 option")
    case (Some c)
    then have "escaped ea cp = Short c" unfolding escaped_def by simp
    moreover have "short_escape c = Some cp" using Some by (auto simp: short_escape_def split: if_splits)
    ultimately show ?thesis by simp
  next
    case None
    then have q: "cp \<noteq> 0x22" "cp \<noteq> 0x5C" by auto
    show ?thesis
    proof (cases "cp \<le> 0x1F \<or> ea \<and> 0x7F \<le> cp")
      case esc: True
      show ?thesis
      proof (cases "cp \<le> 0xFFFF")
        case True
        then have "escaped ea cp = Hex (hex_lower (of_nat cp))" unfolding escaped_def None using esc by simp
        moreover have "\<not> surrogate cp" using assms by (auto simp: scalar_def surrogate_def)
        ultimately show ?thesis using True by (simp add: hex4_lower)
      next
        case False
        let ?h = "0xD7C0 + cp div 1024" and ?l = "0xDC00 + cp mod 1024"
        have r: "0x10000 \<le> cp" "cp < 0x110000" using False assms by (auto simp: scalar_def)
        have "escaped ea cp = Pair (hex_lower (of_nat ?h)) (hex_lower (of_nat ?l))"
          unfolding escaped_def None using esc False by simp
        moreover have h: "?h < 65536" "?l < 65536" "0xD800 \<le> ?h" "?h \<le> 0xDBFF" "?l \<le> 0xDFFF" using r by simp_all
        moreover have "0x10000 + (?h - 0xD800) * 0x400 + (?l - 0xDC00) = cp"
        proof -
          have "64 \<le> cp div 1024" using r(1) by simp
          then obtain q where q: "cp div 1024 = 64 + q" using le_Suc_ex by blast
          then show ?thesis using div_mult_mod_eq [of cp 1024] by simp
        qed
        ultimately show ?thesis by (simp add: hex4_lower del: of_nat_add)
      qed
    next
      case False
      then have "escaped ea cp = Raw cp" unfolding escaped_def None by auto
      then show ?thesis using False q assms by simp
    qed
  qed
  then show "item_ok (escaped ea cp)" "item_code (escaped ea cp) = cp" by auto
qed

text \<open>Between two code points the buffer has room for the longest text of one.\<close>

definition output_of :: "escaper \<Rightarrow> u8 list" where
  "output_of e = written e @ string_buffer e"

definition roomy :: "escaper \<Rightarrow> bool" where
  "roomy e \<longleftrightarrow> length (string_buffer e) \<le> 499 \<and> bytes_after_last_accept e = length (string_buffer e) \<and> undumped_chars e = 0"

lemma flush_output [simp]: "output_of (flush_buffer e) = output_of e"
  by (simp add: flush_buffer_def output_of_def)

lemma flush_room: "length (string_buffer e) \<le> 512 \<Longrightarrow> length (string_buffer (flush_buffer e)) \<le> 499"
  by (auto simp: flush_buffer_def)

lemma flush_undumped [simp]: "undumped_chars (flush_buffer e) = undumped_chars e"
  by (simp add: flush_buffer_def)

lemma put_accepted:
  assumes "put_codepoint ea w b e = put_bytes T n e" and "length (string_buffer e) + length T + n \<le> 512"
  obtains e1 where "accepted_codepoint ea w b e = Dumped e1" "roomy e1" "output_of e1 = output_of e @ T"
proof -
  let ?e = "e\<lparr> string_buffer := string_buffer e @ T \<rparr>"
  have p: "put_codepoint ea w b e = Dumped ?e" using assms by (simp add: put_bytes_def)
  have "length (string_buffer ?e) \<le> 512" using assms(2) by simp
  from flush_room [OF this] p show ?thesis
    by (intro that [of "(flush_buffer ?e)\<lparr> bytes_after_last_accept := length (string_buffer (flush_buffer ?e)), undumped_chars := 0 \<rparr>"])
      (simp_all add: accepted_codepoint_def Let_def roomy_def output_of_def, simp add: flush_buffer_def)
qed

lemma u32_of_nat:
  assumes "cp < 2 ^ 32"
  shows "unat (of_nat cp :: u32) = cp" "(ucast (of_nat cp :: u32) :: u16) = of_nat cp"
    "drop_bit 10 (of_nat cp :: u32) = of_nat (cp div 1024)" "(of_nat cp :: u32) AND 0x3FF = of_nat (cp mod 1024)"
proof -
  show u: "unat (of_nat cp :: u32) = cp" using assms by (simp add: unsigned_of_nat take_bit_nat_eq_self)
  then show "(ucast (of_nat cp :: u32) :: u16) = of_nat cp" by (metis of_nat_unat)
  show "drop_bit 10 (of_nat cp :: u32) = of_nat (cp div 1024)"
  proof (rule word_unat_eq_iff [THEN iffD2])
    have "unat (drop_bit 10 (of_nat cp :: u32)) = cp div 1024" unfolding unsigned_drop_bit_eq u
      using assms by (simp add: take_bit_nat_eq_self drop_bit_eq_div)
    moreover have "unat (of_nat (cp div 1024) :: u32) = cp div 1024" using assms by (simp add: unsigned_of_nat take_bit_nat_eq_self)
    ultimately show "unat (drop_bit 10 (of_nat cp :: u32)) = unat (of_nat (cp div 1024) :: u32)" by simp
  qed
  show "(of_nat cp :: u32) AND 0x3FF = of_nat (cp mod 1024)"
  proof (rule word_unat_eq_iff [THEN iffD2])
    have "unat ((of_nat cp :: u32) AND 0x3FF) = cp mod 1024" unfolding unsigned_and_eq u
      using take_bit_eq_mask [of 10 cp] by (simp add: take_bit_eq_mod mask_eq_exp_minus_1)
    moreover have "unat (of_nat (cp mod 1024) :: u32) = cp mod 1024" by (simp add: unsigned_of_nat take_bit_nat_eq_self)
    ultimately show "unat ((of_nat cp :: u32) AND 0x3FF) = unat (of_nat (cp mod 1024) :: u32)" by simp
  qed
qed

lemma unicode_escape_nat: "n < 2 ^ 32 \<Longrightarrow> unicode_escape (of_nat n) = [0x5C, 0x75] @ hex_lower (of_nat n)"
  by (simp only: unicode_escape_def u32_of_nat(2))

lemma hex_lower_length [simp]: "length (hex_lower w) = 4"
  by (simp add: hex_lower_def)

lemma utf8_nonempty [simp]: "utf8 cp \<noteq> []"
  by (simp add: utf8_def)

lemma utf8_length: "length (utf8 cp) \<le> 4"
  by (simp add: utf8_def)

lemma utf8_ascii: "cp < 0x80 \<Longrightarrow> butlast (utf8 cp) = []"
  by (simp add: utf8_def)

lemma put_escaped:
  assumes cp: "scalar cp"
  shows "\<exists>T n. put_codepoint ea (of_nat cp) (last (utf8 cp)) e1 = put_bytes T n e1
    \<and> (if ea then [] else butlast (utf8 cp)) @ T = item_text (escaped ea cp) \<and> length T + n \<le> (if ea then 13 else 9)"
proof -
  let ?w = "of_nat cp :: u32"
  have r: "cp < 0x110000" using cp by (simp add: scalar_def)
  then have b: "cp < 2 ^ 32" by simp
  have u: "unat ?w = cp" by (rule u32_of_nat(1) [OF b])
  have eq: "(?w = k) = (cp = unat k)" for k using u by (metis word_unat_eq_iff)
  have le: "(?w \<le> k) = (cp \<le> unat k)" "(k \<le> ?w) = (unat k \<le> cp)" for k by (simp_all add: word_le_nat_alt u)
  show ?thesis
  proof (cases "cp \<in> {8, 9, 10, 12, 13, 0x22, 0x5C}")
    case True
    then show ?thesis
      by (elim insertE emptyE) (simp_all add: put_codepoint_def escaped_def utf8_def, fastforce+)
  next
    case short: False
    then have none: "map_of [(8, 0x62), (9, 0x74), (10, 0x6E), (12, 0x66), (13, 0x72), (0x22, 0x22), (0x5C, 0x5C)] cp = (None :: u8 option)"
      by simp
    have txt_def: "escaped ea cp = (if cp \<le> 0x1F \<or> ea \<and> 0x7F \<le> cp then
        if cp \<le> 0xFFFF then Hex (hex_lower (of_nat cp))
        else Pair (hex_lower (of_nat (0xD7C0 + cp div 1024))) (hex_lower (of_nat (0xDC00 + cp mod 1024))) else Raw cp)"
      by (simp only: escaped_def none option.case)
    have put: "put_codepoint ea ?w b e1 =
      (if cp \<le> 0x1F \<or> ea \<and> 0x7F \<le> cp then
        if cp \<le> 0xFFFF then put_bytes (unicode_escape ?w) 1 e1
        else put_bytes (unicode_escape (0xD7C0 + drop_bit 10 ?w) @ unicode_escape (0xDC00 + (?w AND 0x3FF))) 1 e1
      else put_bytes [b] 0 e1)" for b
      unfolding put_codepoint_def eq le using short by simp
    show ?thesis
    proof (cases "cp \<le> 0x1F \<or> ea \<and> 0x7F \<le> cp")
      case esc: True
      show ?thesis
      proof (cases "cp \<le> 0xFFFF")
        case True
        have "(if ea then [] else butlast (utf8 cp)) = []" using esc utf8_ascii [of cp] by auto
        then show ?thesis using esc True unicode_escape_nat [OF b]
          by (intro exI [of _ "unicode_escape ?w"] exI [of _ 1]) (simp add: put txt_def)
      next
        case False
        let ?T = "unicode_escape (0xD7C0 + drop_bit 10 ?w) @ unicode_escape (0xDC00 + (?w AND 0x3FF))"
        have ea: "ea" using esc False by simp
        have n: "0xD7C0 + drop_bit 10 ?w = of_nat (0xD7C0 + cp div 1024)" "0xDC00 + (?w AND 0x3FF) = of_nat (0xDC00 + cp mod 1024)"
          unfolding u32_of_nat(3,4) [OF b] by simp_all
        have m: "0xD7C0 + cp div 1024 < 2 ^ 32" "0xDC00 + cp mod 1024 < 2 ^ 32" using r by simp_all
        have T: "?T = [0x5C, 0x75] @ hex_lower (of_nat (0xD7C0 + cp div 1024)) @ [0x5C, 0x75] @ hex_lower (of_nat (0xDC00 + cp mod 1024))"
          unfolding n m [THEN unicode_escape_nat] by simp
        have p: "put_codepoint ea ?w (last (utf8 cp)) e1 = put_bytes ?T 1 e1" unfolding put using esc False by simp
        have i: "escaped ea cp = Pair (hex_lower (of_nat (0xD7C0 + cp div 1024))) (hex_lower (of_nat (0xDC00 + cp mod 1024)))"
          unfolding txt_def using esc False by simp
        show ?thesis unfolding p i using ea T
          by - (rule exI [of _ ?T], rule exI [of _ 1], simp only: if_True item_text.simps append.simps append_assoc T simp_thms, simp)
      qed
    next
      case False
      then have "(if ea then [] else butlast (utf8 cp)) @ [last (utf8 cp)] = utf8 cp" using utf8_ascii [of cp]
        by (cases ea) (simp_all add: utf8_def)
      then show ?thesis using False
        by (intro exI [of _ "[last (utf8 cp)]"] exI [of _ 0]) (simp add: put txt_def)
    qed
  qed
qed

lemma accepted_escaped:
  assumes cp: "scalar cp" and e: "roomy e"
  obtains e1 where "accepted_codepoint ea (of_nat cp) (last (utf8 cp)) (pended ea (butlast (utf8 cp)) e) = Dumped e1"
    "roomy e1" "output_of e1 = output_of e @ item_text (escaped ea cp)"
proof -
  let ?e = "pended ea (butlast (utf8 cp)) e"
  obtain T n where T: "put_codepoint ea (of_nat cp) (last (utf8 cp)) ?e = put_bytes T n ?e"
    "(if ea then [] else butlast (utf8 cp)) @ T = item_text (escaped ea cp)" "length T + n \<le> (if ea then 13 else 9)"
    using put_escaped [OF cp] by blast
  have "length (string_buffer ?e) + length T + n \<le> 512"
    using e T(3) utf8_length [of cp] by (auto simp: roomy_def)
  from put_accepted [OF T(1) this] obtain e1 where e1: "accepted_codepoint ea (of_nat cp) (last (utf8 cp)) ?e = Dumped e1" "roomy e1"
    "output_of e1 = output_of ?e @ T" .
  have "output_of ?e @ T = output_of e @ item_text (escaped ea cp)" unfolding T(2) [symmetric] by (simp add: output_of_def)
  with e1 that show ?thesis by simp
qed

lemma escape_codepoints:
  assumes "list_all scalar cps" and "roomy e"
  shows "\<exists>e1 c1 j. escape_loop h ea 0 c i (concat (map utf8 cps) @ rest) e = escape_loop h ea 0 c1 j rest e1
    \<and> roomy e1 \<and> output_of e1 = output_of e @ string_text (map (escaped ea) cps)"
  using assms
proof (induction cps arbitrary: c i e)
  case Nil
  then show ?case by (auto simp: string_text_def)
next
  case (Cons cp cps)
  then have cp: "scalar cp" and cps: "list_all scalar cps" by simp_all
  obtain e1 where e1: "accepted_codepoint ea (of_nat cp) (last (utf8 cp)) (pended ea (butlast (utf8 cp)) e) = Dumped e1"
    "roomy e1" "output_of e1 = output_of e @ item_text (escaped ea cp)" by (rule accepted_escaped [OF cp Cons.prems(2)])
  have "escape_loop h ea 0 c i (concat (map utf8 (cp # cps)) @ rest) e
      = escape_loop h ea 0 (of_nat cp) (i + length (utf8 cp)) (concat (map utf8 cps) @ rest) e1"
    using escape_codepoint [OF cp, of e h ea c i "concat (map utf8 cps) @ rest"] e1(1) Cons.prems(2) by (simp add: roomy_def)
  with Cons.IH [OF cps e1(2)] e1(3) show ?case by (simp add: string_text_def)
qed

lemma dump_escaped_codepoints:
  assumes "list_all scalar cps"
  shows "dump_escaped h ea (concat (map utf8 cps)) = Dumped (string_text (map (escaped ea) cps))"
proof -
  have r: "roomy escaper_new" by (simp add: roomy_def escaper_new_def)
  obtain e1 c1 j where "escape_loop h ea 0 0 0 (concat (map utf8 cps) @ []) escaper_new = escape_loop h ea 0 c1 j [] e1"
    "output_of e1 = output_of escaper_new @ string_text (map (escaped ea) cps)"
    using escape_codepoints [OF assms r] by blast
  then show ?thesis by (simp add: dump_escaped_def UTF8_ACCEPT_def output_of_def escaper_new_def)
qed

section \<open>Any input\<close>

text \<open>The bytes of an incomplete sequence that a state allows.\<close>

definition pend :: "nat \<Rightarrow> nat" where
  "pend st = (if st = 0 then 0 else if st \<in> {6, 7, 8} then 1 else if st \<in> {3, 4, 5} then 2 else 3)"

definition within :: "bool \<Rightarrow> nat \<Rightarrow> escaper \<Rightarrow> bool" where
  "within ea st e \<longleftrightarrow> st < 9 \<and> st \<noteq> 1 \<and> bytes_after_last_accept e \<le> 499
     \<and> length (string_buffer e) \<le> bytes_after_last_accept e + (if ea then 0 else pend st)"

lemma transition_pend:
  "list_all (\<lambda>st. list_all (\<lambda>c. transition st c < 9
     \<and> (transition st c \<noteq> 0 \<and> transition st c \<noteq> 1 \<and> st \<noteq> 1 \<longrightarrow> pend st < pend (transition st c))) [0..<12]) [0..<9]"
  by (simp add: transition_def nth_Cons_numeral upt_rec pend_def)

lemma decode_pend:
  assumes "st < 9" and "st \<noteq> 1" and "decode st c b = (st1, c1)"
  shows "st1 < 9" "st1 \<noteq> 0 \<Longrightarrow> st1 \<noteq> 1 \<Longrightarrow> pend st < pend st1"
proof -
  have t: "st1 = transition st (byte_class (unat b))" using decode_state [OF assms(1), of c b] assms(3) by simp
  have "byte_class (unat b) \<in> set [0..<12]" "st \<in> set [0..<9]"
    using class_bound [OF unat_less_256 [of b]] assms(1) by auto
  then show "st1 < 9" "st1 \<noteq> 0 \<Longrightarrow> st1 \<noteq> 1 \<Longrightarrow> pend st < pend st1"
    using transition_pend assms(2) unfolding list_all_iff t by blast+
qed

lemma pend_le: "pend st \<le> 3"
  by (simp add: pend_def)

lemma put_codepoint_room:
  assumes "length (string_buffer e) + (if ea then 13 else 7) \<le> 512"
  shows "\<exists>e1. put_codepoint ea w b e = Dumped e1 \<and> length (string_buffer e1) \<le> 512"
proof -
  have "w \<le> 0x1F \<Longrightarrow> w \<le> 0xFFFF" by (simp add: word_le_nat_alt)
  with assms show ?thesis
    by (cases "w \<le> 0x1F"; cases ea) (simp_all add: put_codepoint_def put_bytes_def unicode_escape_def)
qed

lemma accepted_within:
  assumes "within ea st e"
  shows "\<exists>e1. accepted_codepoint ea w b e = Dumped e1 \<and> within ea 0 e1"
proof -
  have "length (string_buffer e) + (if ea then 13 else 7) \<le> 512"
    using assms pend_le [of st] by (auto simp: within_def)
  from put_codepoint_room [OF this] obtain e1 where "put_codepoint ea w b e = Dumped e1" "length (string_buffer e1) \<le> 512" by blast
  with flush_room [of e1] show ?thesis by (simp add: accepted_codepoint_def within_def Let_def)
qed

lemma rejected_within:
  assumes "within ea st e"
  shows "\<exists>e1. rejected_byte h ea e = Dumped e1 \<and> within ea 0 e1"
proof -
  let ?e = "e\<lparr> string_buffer := take (bytes_after_last_accept e) (string_buffer e) \<rparr>"
  have l: "length (string_buffer ?e) \<le> 499" using assms by (auto simp: within_def min_def)
  show ?thesis
  proof (cases "h = replace_handler")
    case True
    let ?f = "?e\<lparr> string_buffer := string_buffer ?e @ replacement ea \<rparr>"
    have p: "put_bytes (replacement ea) 0 ?e = Dumped ?f" "length (string_buffer ?f) \<le> 512"
      using l by (simp_all add: put_bytes_def replacement_def)
    with flush_room [OF p(2)] True show ?thesis by (simp add: rejected_byte_def within_def Let_def)
  next
    case False
    then show ?thesis using assms by (simp add: rejected_byte_def within_def Let_def)
  qed
qed

lemma incomplete_within:
  assumes "within ea st e" and "pend st < pend st1" and "st1 < 9" "st1 \<noteq> 1"
  shows "\<exists>e1. incomplete_byte ea b e = Dumped e1 \<and> within ea st1 e1"
proof -
  have "length (string_buffer e) < 512" using assms(1) pend_le [of st] unfolding within_def by (simp split: if_splits)
  from incomplete_pended [OF this] assms show ?thesis by (auto simp: within_def pended_def)
qed

lemma escape_within:
  "within ea st e \<Longrightarrow> escape_loop h ea st c i bs e \<noteq> Overrun"
proof (induction h ea st c i bs e rule: escape_loop.induct)
  case (2 h ea st c i b bs e)
  have st: "st < 9" "st \<noteq> 1" using 2(5) by (simp_all add: within_def)
  obtain st1 c1 where d: "decode st c b = (st1, c1)" by (cases "decode st c b")
  note p = decode_pend [OF st d]
  consider (accept) "st1 = 0" | (reject) "st1 = 1" | (more) "st1 \<noteq> 0" "st1 \<noteq> 1" by blast
  then show ?case
  proof cases
    case accept
    obtain e1 where e1: "accepted_codepoint ea c1 b e = Dumped e1" "within ea 0 e1" using accepted_within [OF 2(5)] by blast
    with 2(1) [OF d [symmetric]] accept d show ?thesis by (simp add: UTF8_ACCEPT_def)
  next
    case reject
    obtain e1 where e1: "rejected_byte h ea e = Dumped e1" "within ea 0 e1" using rejected_within [OF 2(5)] by blast
    with 2(2,3) [OF d [symmetric]] reject d show ?thesis by (simp add: UTF8_ACCEPT_def UTF8_REJECT_def)
  next
    case more
    obtain e1 where e1: "incomplete_byte ea b e = Dumped e1" "within ea st1 e1"
      using incomplete_within [OF 2(5) p(2)] more p(1) by blast
    with 2(4) [OF d [symmetric]] more d show ?thesis by (simp add: UTF8_ACCEPT_def UTF8_REJECT_def)
  qed
qed simp

lemma dump_escaped_within: "dump_escaped h ea s \<noteq> Overrun"
proof -
  have "within ea 0 escaper_new" by (simp add: within_def escaper_new_def)
  from escape_within [OF this, of h 0 0 s] show ?thesis
    by (cases "escape_loop h ea UTF8_ACCEPT 0 0 s escaper_new") (auto simp: dump_escaped_def UTF8_ACCEPT_def split: error_handler.splits if_splits)
qed

section \<open>The strict handler\<close>

definition valid_utf8 :: "u8 list \<Rightarrow> bool" where
  "valid_utf8 s \<longleftrightarrow> (\<exists>cps. list_all scalar cps \<and> s = concat (map utf8 cps))"

lemma valid_utf8_Nil [simp]: "valid_utf8 []"
  unfolding valid_utf8_def by (rule exI [of _ "[]"]) simp

lemma valid_utf8_append: "scalar cp \<Longrightarrow> valid_utf8 s \<Longrightarrow> valid_utf8 (utf8 cp @ s)"
proof -
  assume cp: "scalar cp" and "valid_utf8 s"
  then obtain cps where "list_all scalar cps" "s = concat (map utf8 cps)" by (auto simp: valid_utf8_def)
  with cp show "valid_utf8 (utf8 cp @ s)" unfolding valid_utf8_def by (intro exI [of _ "cp # cps"]) simp
qed

lemma and_then_Dumped: "and_then r f = Dumped y \<longleftrightarrow> (\<exists>x. r = Dumped x \<and> f x = Dumped y)"
  by (cases r) auto

lemma strict_Cons:
  assumes "escape_loop strict_handler ea st c i (b # bs) e = Dumped (0, e')"
  obtains st1 c1 e1 where "decode st c b = (st1, c1)" "st1 \<noteq> 1" "escape_loop strict_handler ea st1 c1 (i + 1) bs e1 = Dumped (0, e')"
proof -
  obtain st1 c1 where d: "decode st c b = (st1, c1)" by (cases "decode st c b")
  with assms that [of st1 c1] show ?thesis
    by (auto simp: and_then_Dumped UTF8_ACCEPT_def UTF8_REJECT_def split: if_splits)
qed

lemma strict_loop_valid:
  "escape_loop strict_handler ea st c i bs e = Dumped (0, e') \<Longrightarrow>
    (st = 0 \<longrightarrow> valid_utf8 bs) \<and>
    (\<forall>rs. pending_ranges rs \<longrightarrow> st = state_of rs \<longrightarrow> (\<exists>xs ys. bs = xs @ ys \<and> list_all2 in_range rs xs \<and> valid_utf8 ys))"
proof (induction bs arbitrary: st c i e)
  case Nil
  then show ?case by (auto dest: state_of_pending)
next
  case (Cons b bs)
  obtain st1 c1 e1 where n: "decode st c b = (st1, c1)" "st1 \<noteq> 1" "escape_loop strict_handler ea st1 c1 (i + 1) bs e1 = Dumped (0, e')"
    by (rule strict_Cons [OF Cons.prems])
  note ih = Cons.IH [OF n(3)]
  have "valid_utf8 (b # bs)" if st: "st = 0"
  proof (cases "b < 0x80")
    case True
    then have "st1 = 0" using n(1) st decode_first [of c b] by simp
    moreover have "scalar (unat b)" "utf8 (unat b) = [b]" using True by (simp_all add: scalar_def utf8_def word_less_nat_alt)
    ultimately show ?thesis using ih valid_utf8_append [of "unat b" bs] by simp
  next
    case False
    then obtain rs where rs: "following_ranges b = Some rs" "st1 = state_of rs"
      using n(1,2) st decode_first [of c b] by (auto split: option.splits)
    from following_pending [OF rs(1)] ih rs(2) obtain xs ys where x: "bs = xs @ ys" "list_all2 in_range rs xs" "valid_utf8 ys" by blast
    from following_sound [OF rs(1) x(2)] obtain cp where "scalar cp" "utf8 cp = b # xs" by blast
    with valid_utf8_append [of cp ys] x show ?thesis by simp
  qed
  moreover have "\<exists>xs ys. b # bs = xs @ ys \<and> list_all2 in_range rs xs \<and> valid_utf8 ys" if rs: "pending_ranges rs" "st = state_of rs" for rs
  proof -
    obtain r rs' where r: "rs = r # rs'" using pending_length [OF rs(1)] by (cases rs) auto
    note d = decode_next [OF rs(1) [unfolded r]]
    have b: "in_range r b" "st1 = state_of rs'" using d(1) [of c b] n(1,2) rs(2) r by (auto split: if_splits)
    have "\<exists>xs ys. bs = xs @ ys \<and> list_all2 in_range rs' xs \<and> valid_utf8 ys"
    proof (cases "rs' = []")
      case True
      then show ?thesis using ih b(2) by (auto simp: state_of_def)
    next
      case False
      then show ?thesis using ih b(2) d(2) by blast
    qed
    then obtain xs ys where x: "bs = xs @ ys" "list_all2 in_range rs' xs" "valid_utf8 ys" by blast
    show ?thesis unfolding r by (rule exI [of _ "b # xs"], rule exI [of _ ys]) (use x b in simp)
  qed
  ultimately show ?case by blast
qed

lemma dump_escaped_valid:
  "(\<exists>bs. dump_escaped strict_handler ea s = Dumped bs) \<longleftrightarrow> valid_utf8 s"
proof
  assume "\<exists>bs. dump_escaped strict_handler ea s = Dumped bs"
  then obtain st e where "escape_loop strict_handler ea 0 0 0 s escaper_new = Dumped (st, e)" "st = 0"
    by (auto simp: dump_escaped_def and_then_Dumped UTF8_ACCEPT_def split: if_splits)
  then show "valid_utf8 s" using strict_loop_valid by blast
next
  assume "valid_utf8 s"
  then show "\<exists>bs. dump_escaped strict_handler ea s = Dumped bs" using dump_escaped_codepoints by (auto simp: valid_utf8_def)
qed

text \<open>
  C33: escaping a string never writes beyond the buffer of 512 bytes, whatever the bytes of the string, the error
  handler and the escaping of non-ASCII characters: between two code points at least 13 bytes are free, enough for
  a surrogate pair with the null byte of \<open>snprintf\<close> or for the bytes of an incomplete sequence and a replacement.
\<close>

theorem escape_stays_in_buffer: "dump_escaped h ea s \<noteq> Overrun"
  by (rule dump_escaped_within)

text \<open>
  C32: the strict error handler. Escaping succeeds exactly for well-formed UTF-8, and then writes for each code
  point its item: a short escape, four hexadecimal digits, a surrogate pair, or the code point itself.
\<close>

theorem escape_strict:
  "dump_escaped strict_handler ea s = Dumped bs \<longleftrightarrow>
     (\<exists>cps. list_all scalar cps \<and> s = concat (map utf8 cps) \<and> bs = string_text (map (escaped ea) cps))"
proof
  assume d: "dump_escaped strict_handler ea s = Dumped bs"
  then obtain cps where "list_all scalar cps" "s = concat (map utf8 cps)" using dump_escaped_valid unfolding valid_utf8_def by blast
  with dump_escaped_codepoints [of cps strict_handler ea] d
  show "\<exists>cps. list_all scalar cps \<and> s = concat (map utf8 cps) \<and> bs = string_text (map (escaped ea) cps)"
    by (intro exI [of _ cps]) simp
qed (auto simp: dump_escaped_codepoints)

end
