(* ===== verification/Json_Numbers.thy ===== *)
theory Json_Numbers
  imports Json_Strings Json_Document
begin

text \<open>
  The numbers of a JSON text: the labels of \<open>scan_number\<close> form a deterministic automaton, which
  accepts the longest number of the grammar (RFC 8259, section 6) and leaves the next character.
\<close>

section \<open>The automaton\<close>

text \<open>The table of states in the comment of the source; no entry is its done or error.\<close>

fun next_state :: "number_state \<Rightarrow> u8 \<Rightarrow> number_state option" where
  "next_state Minus c = (if c = 0x30 then Some Zero else if digit1 c then Some Any1 else None)"
| "next_state Zero c = (if c = 0x2E then Some Decimal1 else if c = 0x65 \<or> c = 0x45 then Some Exponent else None)"
| "next_state Any1 c =
     (if digit c then Some Any1 else if c = 0x2E then Some Decimal1 else if c = 0x65 \<or> c = 0x45 then Some Exponent else None)"
| "next_state Decimal1 c = (if digit c then Some Decimal2 else None)"
| "next_state Decimal2 c = (if digit c then Some Decimal2 else if c = 0x65 \<or> c = 0x45 then Some Exponent else None)"
| "next_state Exponent c = (if c = 0x2B \<or> c = 0x2D then Some Exponent_sign else if digit c then Some Any2 else None)"
| "next_state Exponent_sign c = (if digit c then Some Any2 else None)"
| "next_state Any2 c = (if digit c then Some Any2 else None)"
| "next_state _ c = None"

definition final :: "number_state \<Rightarrow> bool" where
  "final st \<longleftrightarrow> st = Zero \<or> st = Any1 \<or> st = Decimal2 \<or> st = Any2"

text \<open>The run from a state: what it consumes and what it leaves.\<close>

fun number_run :: "number_state \<Rightarrow> u8 list \<Rightarrow> (u8 list \<times> u8 list) option" where
  "number_run st [] = (if final st then Some ([], []) else None)"
| "number_run st (c # cs) =
     (case next_state st c of
        Some st1 \<Rightarrow> (case number_run st1 cs of Some (w, r) \<Rightarrow> Some (c # w, r) | None \<Rightarrow> None)
      | None \<Rightarrow> if final st then Some ([], c # cs) else None)"

definition running :: "number_state \<Rightarrow> bool" where
  "running st \<longleftrightarrow> st \<noteq> Number_done \<and> st \<noteq> Number_error"

lemma next_running: "next_state st c = Some st1 \<Longrightarrow> running st \<and> running st1"
  by (cases st) (auto simp: running_def split: if_splits)

text \<open>The byte that the buffer gets for a character, and the position it records.\<close>

definition stored :: "u8 \<Rightarrow> u8 \<Rightarrow> u8" where
  "stored dp c = (if c = 0x2E then dp else c)"

fun point_at :: "nat \<Rightarrow> nat option \<Rightarrow> u8 list \<Rightarrow> nat option" where
  "point_at n pos [] = pos"
| "point_at n pos (c # cs) = point_at (Suc n) (if c = 0x2E then Some n else pos) cs"

definition put_byte :: "u8 \<Rightarrow> 'f lexer \<Rightarrow> 'f lexer" where
  "put_byte c s = (if c = 0x2E then add_decimal_point s else add_byte c s)"

lemma digit_other [simp]:
  "digit c \<Longrightarrow> c \<noteq> 0x2E" "digit c \<Longrightarrow> c \<noteq> 0x65" "digit c \<Longrightarrow> c \<noteq> 0x45" "digit c \<Longrightarrow> c \<noteq> 0x2B" "digit c \<Longrightarrow> c \<noteq> 0x2D"
  "digit1 c \<Longrightarrow> c \<noteq> 0x30" "digit1 c \<Longrightarrow> digit c" "digit 0x30"
  "\<not> digit1 0x30" "\<not> digit 0x2B" "\<not> digit 0x2D" "\<not> digit 0x2E" "\<not> digit 0x45" "\<not> digit 0x65"
  by (auto simp: digit_def digit1_def word_le_nat_alt)

lemma step_next:
  "lx_current (get_char s) = Some c \<Longrightarrow> next_state st c = Some st1 \<Longrightarrow> number_step st s = (st1, put_byte c (get_char s))"
  by (cases st) (auto simp: number_defs put_byte_def Let_def split: if_splits)

lemma step_done:
  "final st \<Longrightarrow> (case lx_current (get_char s) of Some c \<Rightarrow> next_state st c = None | None \<Rightarrow> True)
    \<Longrightarrow> number_step st s = (Number_done, get_char s)"
  by (auto simp: final_def number_defs Let_def split: option.splits if_splits)

lemma step_error:
  "running st \<Longrightarrow> \<not> final st \<Longrightarrow> (case lx_current (get_char s) of Some c \<Rightarrow> next_state st c = None | None \<Rightarrow> True)
    \<Longrightarrow> fst (number_step st s) = Number_error"
  by (cases st) (auto simp: running_def final_def number_defs Let_def split: option.splits if_splits)

lemma put_byte_fields:
  "upcoming (put_byte c s) xs = upcoming s xs" "token_buffer (put_byte c s) = token_buffer s @ [stored (decimal_point_char s) c]"
  "decimal_point_char (put_byte c s) = decimal_point_char s"
  "decimal_point_position (put_byte c s) = (if c = 0x2E then Some (length (token_buffer s)) else decimal_point_position s)"
  by (auto simp: put_byte_def stored_def add_decimal_point_def add_byte_def upcoming_def Let_def split: option.splits)

lemma get_number_fields [simp]:
  "decimal_point_char (get_char s) = decimal_point_char s"
  "decimal_point_position (get_char s) = decimal_point_position s"
  by (auto simp: get_char_def Let_def split: list.splits option.splits)

text \<open>The type after a run.\<close>

definition run_type :: "token_type \<Rightarrow> u8 list \<Rightarrow> token_type" where
  "run_type ty w = (if 0x2E \<in> set w \<or> 0x65 \<in> set w \<or> 0x45 \<in> set w then tt_float else ty)"

lemma unget_fields [simp]:
  "token_buffer (unget_char s) = token_buffer s" "decimal_point_char (unget_char s) = decimal_point_char s"
  "decimal_point_position (unget_char s) = decimal_point_position s"
  "lx_current (unget_char s) = lx_current s" "lx_input (unget_char s) = lx_input s" "next_unget (unget_char s)"
  by (simp_all add: unget_char_def Let_def)

lemma unget_get_upcoming: "upcoming s xs \<Longrightarrow> upcoming (unget_char (get_char s)) xs"
  using get_Cons [of s] get_Nil [of s]
  by (cases xs) (simp_all add: upcoming_def [of "unget_char (get_char s)"] upcoming_def [of "get_char s"])

lemma loop_unfold:
  assumes "running st" and "number_step st s = (st1, s1)"
  shows "number_loop st ty s = (if running st1 then number_loop st1 (type_at st ty) s1 else (st1, type_at st ty, s1))"
  using assms by (subst number_loop.simps) (auto simp: running_def)

lemma final_run_type: "final st \<Longrightarrow> type_at st ty = ty"
  by (auto simp: final_def type_at_def)

lemma next_type:
  "next_state st c = Some st1 \<Longrightarrow> type_at st1 (type_at st ty)
    = (if c = 0x2E \<or> c = 0x65 \<or> c = 0x45 then tt_float else type_at st ty)"
  by (cases st) (auto simp: type_at_def split: if_splits)

lemma number_loop_done:
  assumes "final st" and "case lx_current (get_char s) of Some c \<Rightarrow> next_state st c = None | None \<Rightarrow> True"
  shows "number_loop st ty s = (Number_done, ty, get_char s)"
proof -
  have "running st" using assms(1) by (auto simp: final_def running_def)
  from loop_unfold [OF this step_done [OF assms]] final_run_type [OF assms(1)] show ?thesis by (simp add: running_def)
qed

lemma number_loop_error:
  assumes "running st" "\<not> final st" and "case lx_current (get_char s) of Some c \<Rightarrow> next_state st c = None | None \<Rightarrow> True"
  shows "fst (number_loop st ty s) = Number_error"
proof -
  obtain s1 where "number_step st s = (Number_error, s1)" using step_error [OF assms] by (metis prod.collapse)
  from loop_unfold [OF assms(1) this] show ?thesis by (simp add: running_def)
qed

text \<open>What a run leaves in the lexer.\<close>

definition ran :: "'f lexer \<Rightarrow> u8 list \<Rightarrow> u8 list \<Rightarrow> 'f lexer \<Rightarrow> bool" where
  "ran s w r s1 \<longleftrightarrow> upcoming (unget_char s1) r
     \<and> token_buffer s1 = token_buffer s @ map (stored (decimal_point_char s)) w
     \<and> decimal_point_char s1 = decimal_point_char s
     \<and> decimal_point_position s1 = point_at (length (token_buffer s)) (decimal_point_position s) w"

lemma ran_step: "ran (put_byte c (get_char s)) w r s1 \<Longrightarrow> ran s (c # w) r s1"
  by (simp add: ran_def put_byte_fields)

lemma ran_here: "upcoming s r \<Longrightarrow> ran s [] r (get_char s)"
  by (simp add: ran_def unget_get_upcoming)

lemma number_loop_run:
  "running st \<Longrightarrow> upcoming s xs \<Longrightarrow>
     (case number_run st xs of
        Some (w, r) \<Rightarrow> (\<exists>s1. number_loop st ty s = (Number_done, run_type (type_at st ty) w, s1) \<and> ran s w r s1)
      | None \<Rightarrow> fst (number_loop st ty s) = Number_error)"
proof (induction st xs arbitrary: s ty rule: number_run.induct)
  case (1 st)
  then have c: "lx_current (get_char s) = None" using get_Nil by blast
  then show ?case using 1 ran_here [OF 1(2)] number_loop_done [of st s ty] number_loop_error [of st s ty] final_run_type [of st ty]
    by (simp add: run_type_def)
next
  case (2 st c cs)
  have c: "lx_current (get_char s) = Some c" "upcoming (get_char s) cs" using get_Cons [OF 2(3)] by auto
  show ?case
  proof (cases "next_state st c")
    case None
    then show ?thesis using 2(2) c ran_here [OF 2(3)] number_loop_done [of st s ty] number_loop_error [of st s ty] final_run_type [of st ty]
      by (simp add: run_type_def)
  next
    case (Some st1)
    let ?s = "put_byte c (get_char s)"
    have r: "running st1" using next_running [OF Some] by simp
    have loop: "number_loop st ty s = number_loop st1 (type_at st ty) ?s"
      using loop_unfold [OF 2(2) step_next [OF c(1) Some]] r by simp
    have u: "upcoming ?s cs" using c(2) by (simp add: put_byte_fields)
    note ih = 2(1) [OF Some r u, of "type_at st ty"]
    have ty: "run_type (type_at st1 (type_at st ty)) w = run_type (type_at st ty) (c # w)" for w
      using next_type [OF Some, of ty] by (simp add: run_type_def)
    show ?thesis
    proof (cases "number_run st1 cs")
      case None
      then show ?thesis using ih Some loop by simp
    next
      case w: (Some wr)
      obtain w r where wr: "wr = (w, r)" by (cases wr)
      then obtain s1 where "number_loop st1 (type_at st ty) ?s = (Number_done, run_type (type_at st ty) (c # w), s1)" "ran ?s w r s1"
        using ih w ty by auto
      then show ?thesis using loop Some w wr ran_step by auto
    qed
  qed
qed

section \<open>The grammar of numbers\<close>

record number =
  n_minus :: bool
  n_int :: "u8 list"
  n_frac :: "u8 list option"
  n_exp :: "(u8 \<times> u8 list \<times> u8 list) option"

definition digits :: "u8 list \<Rightarrow> bool" where
  "digits ds \<longleftrightarrow> ds \<noteq> [] \<and> list_all digit ds"

definition number_ok :: "number \<Rightarrow> bool" where
  "number_ok n \<longleftrightarrow> digits (n_int n) \<and> (hd (n_int n) = 0x30 \<longrightarrow> tl (n_int n) = [])
     \<and> (case n_frac n of Some ds \<Rightarrow> digits ds | None \<Rightarrow> True)
     \<and> (case n_exp n of Some (e, sg, ds) \<Rightarrow> (e = 0x65 \<or> e = 0x45) \<and> sg \<in> {[], [0x2B], [0x2D]} \<and> digits ds | None \<Rightarrow> True)"

definition frac_text :: "u8 list option \<Rightarrow> u8 list" where
  "frac_text f = (case f of Some ds \<Rightarrow> 0x2E # ds | None \<Rightarrow> [])"

definition exp_text :: "(u8 \<times> u8 list \<times> u8 list) option \<Rightarrow> u8 list" where
  "exp_text x = (case x of Some (e, sg, ds) \<Rightarrow> e # sg @ ds | None \<Rightarrow> [])"

definition number_text :: "number \<Rightarrow> u8 list" where
  "number_text n = (if n_minus n then [0x2D] else []) @ n_int n @ frac_text (n_frac n) @ exp_text (n_exp n)"

text \<open>A next byte that the number cannot take.\<close>

fun starts :: "(u8 \<Rightarrow> bool) \<Rightarrow> u8 list \<Rightarrow> bool" where
  "starts P [] = False"
| "starts P (c # cs) = P c"

definition exp_letter :: "u8 \<Rightarrow> bool" where
  "exp_letter c \<longleftrightarrow> c = 0x65 \<or> c = 0x45"

definition stops :: "number \<Rightarrow> u8 list \<Rightarrow> bool" where
  "stops n ys \<longleftrightarrow>
     (n_int n = [0x30] \<and> n_frac n = None \<and> n_exp n = None \<or> \<not> starts digit ys)
     \<and> (n_exp n = None \<longrightarrow> \<not> starts exp_letter ys)
     \<and> (n_frac n = None \<and> n_exp n = None \<longrightarrow> \<not> starts (\<lambda>c. c = 0x2E) ys)"

section \<open>The automaton accepts the grammar\<close>

definition consumed :: "u8 list \<Rightarrow> (u8 list \<times> u8 list) option \<Rightarrow> (u8 list \<times> u8 list) option" where
  "consumed u res = (case res of Some (w, r) \<Rightarrow> Some (u @ w, r) | None \<Rightarrow> None)"

lemma consumed_simps [simp]:
  "consumed u None = None" "consumed u (Some (w, r)) = Some (u @ w, r)" "consumed [] res = res"
  "consumed u (consumed v res) = consumed (u @ v) res"
  by (auto simp: consumed_def split: option.splits)

lemma run_Cons:
  "number_run st (c # cs) = (case next_state st c of Some st1 \<Rightarrow> consumed [c] (number_run st1 cs)
     | None \<Rightarrow> if final st then Some ([], c # cs) else None)"
  by (auto simp: consumed_def split: option.splits)

lemma run_any2: "number_run Any2 xs = Some (takeWhile digit xs, dropWhile digit xs)"
  by (induction xs) (auto simp: final_def)

lemma run_sign: "number_run Exponent_sign xs =
    (if takeWhile digit xs = [] then None else Some (takeWhile digit xs, dropWhile digit xs))"
  by (cases xs) (auto simp: final_def run_any2)

lemma run_exponent: "number_run Exponent xs =
    (case xs of c # cs \<Rightarrow> if c = 0x2B \<or> c = 0x2D then consumed [c] (number_run Exponent_sign cs) else number_run Exponent_sign xs
     | [] \<Rightarrow> None)"
  by (cases xs) (auto simp: final_def run_any2 consumed_def split: option.splits)

text \<open>An exponent, if there is one.\<close>

definition run_opt_exp :: "u8 list \<Rightarrow> (u8 list \<times> u8 list) option" where
  "run_opt_exp xs = (case xs of c # cs \<Rightarrow> if c = 0x65 \<or> c = 0x45 then consumed [c] (number_run Exponent cs) else Some ([], xs)
     | [] \<Rightarrow> Some ([], xs))"

lemma run_decimal2: "number_run Decimal2 xs = consumed (takeWhile digit xs) (run_opt_exp (dropWhile digit xs))"
  by (induction xs) (auto simp: final_def run_opt_exp_def run_Cons simp del: number_run.simps(2))

lemma run_decimal1: "number_run Decimal1 xs =
    (if takeWhile digit xs = [] then None else consumed (takeWhile digit xs) (run_opt_exp (dropWhile digit xs)))"
  by (cases xs) (auto simp: final_def run_Cons run_decimal2 simp del: number_run.simps(2))

lemma run_zero: "number_run Zero xs =
    (case xs of c # cs \<Rightarrow> if c = 0x2E then consumed [c] (number_run Decimal1 cs) else run_opt_exp xs | [] \<Rightarrow> Some ([], []))"
  by (cases xs) (auto simp: final_def run_Cons run_opt_exp_def simp del: number_run.simps(2))

lemma run_any1: "number_run Any1 xs = consumed (takeWhile digit xs) (number_run Zero (dropWhile digit xs))"
  by (induction xs) (auto simp: final_def run_Cons simp del: number_run.simps(2))

lemma digit1_split: "digit c \<longleftrightarrow> c = 0x30 \<or> digit1 c"
  by (auto simp: digit_def digit1_def word_le_nat_alt word_unat_eq_iff)

lemma run_minus: "number_run Minus xs =
    (case xs of c # cs \<Rightarrow> if c = 0x30 then consumed [c] (number_run Zero cs) else if digit1 c then number_run Any1 xs else None
     | [] \<Rightarrow> None)"
  by (cases xs) (auto simp: final_def consumed_def split: option.splits)

declare number_run.simps [simp del]

text \<open>The run of the whole number, from the first character on.\<close>

definition run_number :: "u8 list \<Rightarrow> (u8 list \<times> u8 list) option" where
  "run_number xs = (case xs of c # cs \<Rightarrow> if c = 0x2D then consumed [c] (number_run Minus cs) else number_run Minus xs | [] \<Rightarrow> None)"

lemma span_digits:
  "takeWhile digit xs = ds \<and> dropWhile digit xs = r \<longleftrightarrow> list_all digit ds \<and> \<not> starts digit r \<and> xs = ds @ r"
proof (induction xs arbitrary: ds)
  case Nil
  then show ?case by auto
next
  case (Cons c cs)
  show ?case
  proof (cases "digit c")
    case True
    then show ?thesis using Cons [of "tl ds"] by (cases ds) auto
  next
    case False
    then show ?thesis by (cases ds) auto
  qed
qed

lemma consumed_Some: "consumed u res = Some (w, r) \<longleftrightarrow> (\<exists>v. res = Some (v, r) \<and> w = u @ v)"
  by (auto simp: consumed_def split: option.splits)

definition sign_ok :: "u8 list \<Rightarrow> bool" where
  "sign_ok sg \<longleftrightarrow> sg = [] \<or> sg = [0x2B] \<or> sg = [0x2D]"

lemma exponent_grammar:
  "number_run Exponent xs = Some (w, r) \<longleftrightarrow>
     (\<exists>sg ds. sign_ok sg \<and> digits ds \<and> w = sg @ ds \<and> xs = w @ r \<and> \<not> starts digit r)"
proof -
  have sign: "number_run Exponent_sign ys = Some (v, r) \<longleftrightarrow> digits v \<and> ys = v @ r \<and> \<not> starts digit r" for ys v
  proof -
    have "number_run Exponent_sign ys = Some (v, r) \<longleftrightarrow> v \<noteq> [] \<and> (takeWhile digit ys = v \<and> dropWhile digit ys = r)"
      by (auto simp: run_sign)
    then show ?thesis unfolding span_digits by (auto simp: digits_def)
  qed
  show ?thesis
  proof (cases xs)
    case Nil
    then show ?thesis by (auto simp: run_exponent digits_def)
  next
    case (Cons c cs)
    show ?thesis
    proof (cases "c = 0x2B \<or> c = 0x2D")
      case True
      have "number_run Exponent xs = Some (w, r) \<longleftrightarrow> (\<exists>v. digits v \<and> w = c # v \<and> cs = v @ r \<and> \<not> starts digit r)"
        using Cons sign True by (simp add: run_exponent consumed_Some) blast
      also have "\<dots> \<longleftrightarrow> (\<exists>sg ds. sign_ok sg \<and> digits ds \<and> w = sg @ ds \<and> xs = w @ r \<and> \<not> starts digit r)"
      proof
        assume "\<exists>v. digits v \<and> w = c # v \<and> cs = v @ r \<and> \<not> starts digit r"
        then obtain v where "digits v" "w = c # v" "cs = v @ r" "\<not> starts digit r" by blast
        then show "\<exists>sg ds. sign_ok sg \<and> digits ds \<and> w = sg @ ds \<and> xs = w @ r \<and> \<not> starts digit r"
          using True Cons by (intro exI [of _ "[c]"] exI [of _ v]) (auto simp: sign_ok_def)
      next
        assume "\<exists>sg ds. sign_ok sg \<and> digits ds \<and> w = sg @ ds \<and> xs = w @ r \<and> \<not> starts digit r"
        then obtain sg ds where d: "sign_ok sg" "digits ds" "w = sg @ ds" "xs = w @ r" "\<not> starts digit r" by blast
        have "sg \<noteq> []" using d(2-4) Cons True by (cases ds) (auto simp: digits_def)
        then have "sg = [c]" using d(1,3,4) Cons by (auto simp: sign_ok_def)
        then show "\<exists>v. digits v \<and> w = c # v \<and> cs = v @ r \<and> \<not> starts digit r" using d Cons by auto
      qed
      finally show ?thesis .
    next
      case False
      then have "number_run Exponent xs = Some (w, r) \<longleftrightarrow> digits w \<and> xs = w @ r \<and> \<not> starts digit r"
        using Cons sign by (simp add: run_exponent)
      moreover have "sg = []" if "sign_ok sg" "xs = (sg @ ds) @ r" for sg ds
        using that False Cons by (auto simp: sign_ok_def)
      ultimately show ?thesis by (metis append_Nil sign_ok_def)
    qed
  qed
qed

definition exp_ok :: "(u8 \<times> u8 list \<times> u8 list) option \<Rightarrow> bool" where
  "exp_ok x \<longleftrightarrow> (case x of Some (e, sg, ds) \<Rightarrow> exp_letter e \<and> sign_ok sg \<and> digits ds | None \<Rightarrow> True)"

lemma opt_exp_grammar:
  "run_opt_exp xs = Some (w, r) \<longleftrightarrow>
     (\<exists>x. exp_ok x \<and> w = exp_text x \<and> xs = w @ r \<and> (if x = None then \<not> starts exp_letter r else \<not> starts digit r))"
proof (cases xs)
  case Nil
  then show ?thesis by (auto simp: run_opt_exp_def exp_text_def exp_ok_def intro: exI [of _ None] split: option.splits)
next
  case (Cons c cs)
  show ?thesis
  proof (cases "exp_letter c")
    case True
    have "run_opt_exp xs = consumed [c] (number_run Exponent cs)"
      using True Cons by (simp add: run_opt_exp_def exp_letter_def)
    then have "run_opt_exp xs = Some (w, r) \<longleftrightarrow>
        (\<exists>sg ds. sign_ok sg \<and> digits ds \<and> w = c # sg @ ds \<and> cs = sg @ ds @ r \<and> \<not> starts digit r)"
      by (simp add: consumed_Some exponent_grammar) (metis append.assoc)
    also have "\<dots> \<longleftrightarrow> (\<exists>sg ds. exp_ok (Some (c, sg, ds)) \<and> w = exp_text (Some (c, sg, ds)) \<and> xs = w @ r \<and> \<not> starts digit r)"
      using True Cons by (auto simp: exp_ok_def exp_text_def)
    also have "\<dots> \<longleftrightarrow> (\<exists>x. exp_ok x \<and> w = exp_text x \<and> xs = w @ r \<and> (if x = None then \<not> starts exp_letter r else \<not> starts digit r))"
      (is "?L \<longleftrightarrow> ?R")
    proof
      assume ?L
      then show ?R by (metis option.distinct(1))
    next
      assume ?R
      then obtain x where x: "exp_ok x" "w = exp_text x" "xs = w @ r" "if x = None then \<not> starts exp_letter r else \<not> starts digit r"
        by blast
      show ?L
      proof (cases x)
        case None
        then have "xs = r" "\<not> starts exp_letter r" using x by (simp_all add: exp_text_def)
        then show ?thesis using Cons True by auto
      next
        case (Some t)
        obtain e sg ds where "t = (e, sg, ds)" by (cases t)
        then show ?thesis using x Some Cons by (auto simp: exp_text_def)
      qed
    qed
    finally show ?thesis .
  next
    case False
    then have "run_opt_exp xs = Some ([], xs)" using Cons by (auto simp: run_opt_exp_def exp_letter_def)
    moreover have "x = None" if "exp_ok x" "xs = exp_text x @ r" for x
      using that False Cons by (cases x) (auto simp: exp_ok_def exp_text_def)
    ultimately show ?thesis using False Cons by (fastforce simp: exp_text_def exp_ok_def)
  qed
qed

lemma opt_exp_digits: "run_opt_exp xs = Some (w, r) \<Longrightarrow> \<not> starts digit xs \<Longrightarrow> \<not> starts digit r"
  by (auto simp: opt_exp_grammar exp_text_def split: option.splits if_splits)

definition frac_ok :: "u8 list option \<Rightarrow> bool" where
  "frac_ok f \<longleftrightarrow> (case f of Some ds \<Rightarrow> digits ds | None \<Rightarrow> True)"

text \<open>What may not follow a fraction and an exponent.\<close>

definition tail_stops :: "u8 list option \<Rightarrow> (u8 \<times> u8 list \<times> u8 list) option \<Rightarrow> u8 list \<Rightarrow> bool" where
  "tail_stops f x r \<longleftrightarrow> (f = None \<and> x = None \<or> \<not> starts digit r) \<and> (x = None \<longrightarrow> \<not> starts exp_letter r)
     \<and> (f = None \<and> x = None \<longrightarrow> \<not> starts (\<lambda>c. c = 0x2E) r)"

lemma exp_not_digit: "exp_ok x \<Longrightarrow> x \<noteq> None \<Longrightarrow> \<not> starts digit (exp_text x @ r) \<and> \<not> starts (\<lambda>c. c = 0x2E) (exp_text x @ r)"
  by (auto simp: exp_ok_def exp_text_def exp_letter_def)

lemma decimal1_grammar:
  "number_run Decimal1 xs = Some (w, r) \<longleftrightarrow>
     (\<exists>ds x. digits ds \<and> exp_ok x \<and> w = ds @ exp_text x \<and> xs = w @ r \<and> tail_stops (Some ds) x r)"
  (is "?L \<longleftrightarrow> ?R")
proof
  assume L: ?L
  let ?ds = "takeWhile digit xs" and ?r = "dropWhile digit xs"
  from L obtain v where v: "?ds \<noteq> []" "run_opt_exp ?r = Some (v, r)" "w = ?ds @ v"
    by (auto simp: run_decimal1 consumed_Some split: if_splits)
  then obtain x where x: "exp_ok x" "v = exp_text x" "?r = v @ r" "if x = None then \<not> starts exp_letter r else \<not> starts digit r"
    by (auto simp: opt_exp_grammar)
  have "digits ?ds" "\<not> starts digit ?r" "xs = ?ds @ ?r" using v(1) span_digits [of xs ?ds ?r] by (auto simp: digits_def)
  moreover have "\<not> starts digit r" using opt_exp_digits [OF v(2)] calculation by simp
  ultimately show ?R using x v(3)
    by (intro exI [of _ ?ds] exI [of _ x]) (auto simp: tail_stops_def split: if_splits)
next
  assume ?R
  then obtain ds x where d: "digits ds" "exp_ok x" "w = ds @ exp_text x" "xs = w @ r" "tail_stops (Some ds) x r" by blast
  have "\<not> starts digit (exp_text x @ r)"
    using d(2,5) exp_not_digit [of x r] by (cases x) (auto simp: tail_stops_def exp_text_def)
  then have "takeWhile digit xs = ds \<and> dropWhile digit xs = exp_text x @ r"
    unfolding span_digits using d by (simp add: digits_def)
  moreover have "run_opt_exp (exp_text x @ r) = Some (exp_text x, r)"
    unfolding opt_exp_grammar using d(2,5) by (intro exI [of _ x]) (auto simp: tail_stops_def)
  ultimately show ?L using d(1,3) by (auto simp: run_decimal1 digits_def)
qed

lemma zero_grammar:
  "number_run Zero xs = Some (w, r) \<longleftrightarrow>
     (\<exists>f x. frac_ok f \<and> exp_ok x \<and> w = frac_text f @ exp_text x \<and> xs = w @ r \<and> tail_stops f x r)"
  (is "?L \<longleftrightarrow> ?R")
proof (cases "starts (\<lambda>c. c = 0x2E) xs")
  case True
  then obtain cs where xs: "xs = 0x2E # cs" by (cases xs) auto
  have none: "f \<noteq> None" if "exp_ok x" "w = frac_text f @ exp_text x" "xs = w @ r" "tail_stops f x r" for f x
  proof
    assume f: "f = None"
    show False
    proof (cases "x = None")
      case True
      then show False using that f xs by (auto simp: frac_text_def exp_text_def tail_stops_def)
    next
      case False
      then show False using exp_not_digit [of x r] that(1-3) f \<open>starts (\<lambda>c. c = 0x2E) xs\<close> by (simp add: frac_text_def)
    qed
  qed
  have "?L \<longleftrightarrow> (\<exists>ds x. digits ds \<and> exp_ok x \<and> w = 0x2E # ds @ exp_text x \<and> xs = w @ r \<and> tail_stops (Some ds) x r)"
  proof -
    have "?L \<longleftrightarrow> (\<exists>v. number_run Decimal1 cs = Some (v, r) \<and> w = 0x2E # v)" unfolding xs by (simp add: run_zero consumed_Some)
    also have "\<dots> \<longleftrightarrow> (\<exists>ds x. digits ds \<and> exp_ok x \<and> w = 0x2E # ds @ exp_text x \<and> xs = w @ r \<and> tail_stops (Some ds) x r)"
      (is "?A \<longleftrightarrow> ?B")
    proof
      assume ?A
      then obtain ds x where "digits ds" "exp_ok x" "w = 0x2E # ds @ exp_text x" "cs = ds @ exp_text x @ r" "tail_stops (Some ds) x r"
        unfolding decimal1_grammar by auto
      then show ?B using xs by (intro exI [of _ ds] exI [of _ x]) simp
    next
      assume ?B
      then obtain ds x where "digits ds" "exp_ok x" "w = 0x2E # ds @ exp_text x" "xs = w @ r" "tail_stops (Some ds) x r" by blast
      then show ?A unfolding decimal1_grammar using xs
        by (intro exI [of _ "ds @ exp_text x"] conjI exI [of _ ds] exI [of _ x]) simp_all
    qed
    finally show ?thesis .
  qed
  also have "\<dots> \<longleftrightarrow> ?R"
  proof
    assume "\<exists>ds x. digits ds \<and> exp_ok x \<and> w = 0x2E # ds @ exp_text x \<and> xs = w @ r \<and> tail_stops (Some ds) x r"
    then obtain ds x where "digits ds" "exp_ok x" "w = 0x2E # ds @ exp_text x" "xs = w @ r" "tail_stops (Some ds) x r" by blast
    then show ?R by (intro exI [of _ "Some ds"] exI [of _ x]) (simp add: frac_ok_def frac_text_def)
  next
    assume ?R
    then obtain f x where f: "frac_ok f" "exp_ok x" "w = frac_text f @ exp_text x" "xs = w @ r" "tail_stops f x r" by blast
    with none obtain ds where "f = Some ds" by blast
    with f show "\<exists>ds x. digits ds \<and> exp_ok x \<and> w = 0x2E # ds @ exp_text x \<and> xs = w @ r \<and> tail_stops (Some ds) x r"
      by (intro exI [of _ ds] exI [of _ x]) (simp add: frac_ok_def frac_text_def)
  qed
  finally show ?thesis .
next
  case False
  have "number_run Zero xs = run_opt_exp xs" using False by (cases xs) (auto simp: run_zero run_opt_exp_def)
  then have "?L \<longleftrightarrow> (\<exists>x. exp_ok x \<and> w = exp_text x \<and> xs = w @ r \<and> (if x = None then \<not> starts exp_letter r else \<not> starts digit r))"
    by (simp add: opt_exp_grammar)
  also have "\<dots> \<longleftrightarrow> ?R"
  proof
    assume "\<exists>x. exp_ok x \<and> w = exp_text x \<and> xs = w @ r \<and> (if x = None then \<not> starts exp_letter r else \<not> starts digit r)"
    then obtain x where "exp_ok x" "w = exp_text x" "xs = w @ r" "if x = None then \<not> starts exp_letter r else \<not> starts digit r" by blast
    then show ?R using False
      by (intro exI [of _ None] exI [of _ x]) (auto simp: frac_ok_def frac_text_def tail_stops_def exp_text_def)
  next
    assume ?R
    then obtain f x where f: "frac_ok f" "exp_ok x" "w = frac_text f @ exp_text x" "xs = w @ r" "tail_stops f x r" by blast
    have "f = None" using f(3,4) False by (cases f) (auto simp: frac_text_def)
    then show "\<exists>x. exp_ok x \<and> w = exp_text x \<and> xs = w @ r \<and> (if x = None then \<not> starts exp_letter r else \<not> starts digit r)"
      using f by (intro exI [of _ x]) (auto simp: frac_text_def tail_stops_def)
  qed
  finally show ?thesis .
qed

definition int_ok :: "u8 list \<Rightarrow> bool" where
  "int_ok ds \<longleftrightarrow> digits ds \<and> (hd ds = 0x30 \<longrightarrow> tl ds = [])"

lemma minus_grammar:
  "number_run Minus xs = Some (w, r) \<longleftrightarrow>
     (\<exists>i f x. int_ok i \<and> frac_ok f \<and> exp_ok x \<and> w = i @ frac_text f @ exp_text x \<and> xs = w @ r
        \<and> tail_stops f x r \<and> (i = [0x30] \<and> f = None \<and> x = None \<or> \<not> starts digit r))"
  (is "?L \<longleftrightarrow> ?R")
proof
  assume L: ?L
  then obtain c cs where xs: "xs = c # cs" by (cases xs) (auto simp: run_minus)
  show ?R
  proof (cases "c = 0x30")
    case True
    then obtain v where "number_run Zero cs = Some (v, r)" "w = 0x30 # v" using L xs by (auto simp: run_minus consumed_Some)
    then obtain f x where "frac_ok f" "exp_ok x" "v = frac_text f @ exp_text x" "cs = v @ r" "tail_stops f x r"
      by (auto simp: zero_grammar)
    then show ?R using True xs \<open>w = 0x30 # v\<close>
      by (intro exI [of _ "[0x30]"] exI [of _ f] exI [of _ x]) (auto simp: int_ok_def digits_def tail_stops_def)
  next
    case False
    then have c: "digit1 c" "number_run Any1 xs = Some (w, r)" using L xs by (auto simp: run_minus split: if_splits)
    let ?i = "takeWhile digit xs" and ?r = "dropWhile digit xs"
    obtain v where v: "number_run Zero ?r = Some (v, r)" "w = ?i @ v" using c(2) by (auto simp: run_any1 consumed_Some)
    then obtain f x where f: "frac_ok f" "exp_ok x" "v = frac_text f @ exp_text x" "?r = v @ r" "tail_stops f x r"
      by (auto simp: zero_grammar)
    have i: "list_all digit ?i" "\<not> starts digit ?r" "xs = ?i @ ?r" using span_digits [of xs ?i ?r] by auto
    have "int_ok ?i" using c(1) xs i(1) by (simp add: int_ok_def digits_def)
    moreover have "\<not> starts digit r"
    proof (cases "f = None \<and> x = None")
      case True
      then show ?thesis using f(3,4) i(2) by (simp add: frac_text_def exp_text_def)
    next
      case False
      then show ?thesis using f(5) by (auto simp: tail_stops_def)
    qed
    ultimately show ?R using f i(3) v(2)
      by (intro exI [of _ ?i] exI [of _ f] exI [of _ x]) auto
  qed
next
  assume ?R
  then obtain i f x where f: "int_ok i" "frac_ok f" "exp_ok x" "w = i @ frac_text f @ exp_text x" "xs = w @ r" "tail_stops f x r"
    "i = [0x30] \<and> f = None \<and> x = None \<or> \<not> starts digit r" by blast
  have z: "number_run Zero (frac_text f @ exp_text x @ r) = Some (frac_text f @ exp_text x, r)"
    unfolding zero_grammar using f by (intro exI [of _ f] exI [of _ x]) simp
  obtain c i' where i: "i = c # i'" using f(1) by (cases i) (auto simp: int_ok_def digits_def)
  show ?L
  proof (cases "c = 0x30")
    case True
    then have "i' = []" using f(1) i by (simp add: int_ok_def)
    then show ?L using z True f(4,5) i by (simp add: run_minus)
  next
    case False
    then have c: "digit1 c" using f(1) i digit1_split [of c] by (auto simp: int_ok_def digits_def)
    have "\<not> starts digit (frac_text f @ exp_text x @ r)"
      using f(3,6,7) False i exp_not_digit [of x r] by (cases f; cases x) (auto simp: frac_text_def exp_text_def)
    then have "takeWhile digit xs = i \<and> dropWhile digit xs = frac_text f @ exp_text x @ r"
      unfolding span_digits using f by (simp add: int_ok_def digits_def)
    then have "number_run Any1 xs = Some (w, r)" using z f(4) by (simp add: run_any1)
    then show ?L using c False f(4,5) i by (simp add: run_minus)
  qed
qed

lemma number_ok_parts: "number_ok n \<longleftrightarrow> int_ok (n_int n) \<and> frac_ok (n_frac n) \<and> exp_ok (n_exp n)"
  by (simp add: number_ok_def int_ok_def frac_ok_def exp_ok_def exp_letter_def sign_ok_def split: option.splits)

lemma stops_parts:
  "stops n r \<longleftrightarrow> tail_stops (n_frac n) (n_exp n) r
     \<and> (n_int n = [0x30] \<and> n_frac n = None \<and> n_exp n = None \<or> \<not> starts digit r)"
  by (auto simp: stops_def tail_stops_def)

lemma run_number_grammar:
  "run_number xs = Some (w, r) \<longleftrightarrow> (\<exists>n. number_ok n \<and> w = number_text n \<and> xs = w @ r \<and> stops n r)"
  (is "?L \<longleftrightarrow> ?R")
proof (cases "starts (\<lambda>c. c = 0x2D) xs")
  case True
  then obtain cs where xs: "xs = 0x2D # cs" by (cases xs) auto
  show ?thesis
  proof
    assume ?L
    then obtain v where "number_run Minus cs = Some (v, r)" "w = 0x2D # v" using xs by (auto simp: run_number_def consumed_Some)
    then obtain i f x where "int_ok i" "frac_ok f" "exp_ok x" "v = i @ frac_text f @ exp_text x" "cs = v @ r"
      "tail_stops f x r" "i = [0x30] \<and> f = None \<and> x = None \<or> \<not> starts digit r" by (auto simp: minus_grammar)
    then show ?R using xs \<open>w = 0x2D # v\<close>
      by (intro exI [of _ "\<lparr> n_minus = True, n_int = i, n_frac = f, n_exp = x \<rparr>"])
        (simp add: number_ok_parts stops_parts number_text_def)
  next
    assume ?R
    then obtain n where n: "number_ok n" "w = number_text n" "xs = w @ r" "stops n r" by blast
    have m: "n_minus n"
    proof (rule ccontr)
      assume "\<not> n_minus n"
      then show False using n(1-3) xs by (cases "n_int n") (auto simp: number_text_def number_ok_parts int_ok_def digits_def)
    qed
    have "number_run Minus cs = Some (n_int n @ frac_text (n_frac n) @ exp_text (n_exp n), r)"
      unfolding minus_grammar using n m xs
      by (intro exI [of _ "n_int n"] exI [of _ "n_frac n"] exI [of _ "n_exp n"])
        (simp add: number_ok_parts stops_parts number_text_def)
    then show ?L using n(2) m xs by (simp add: run_number_def number_text_def)
  qed
next
  case False
  then have run: "run_number xs = number_run Minus xs" by (cases xs) (auto simp: run_number_def run_minus)
  show ?thesis
  proof
    assume ?L
    then obtain i f x where "int_ok i" "frac_ok f" "exp_ok x" "w = i @ frac_text f @ exp_text x" "xs = w @ r"
      "tail_stops f x r" "i = [0x30] \<and> f = None \<and> x = None \<or> \<not> starts digit r" by (auto simp: run minus_grammar)
    then show ?R
      by (intro exI [of _ "\<lparr> n_minus = False, n_int = i, n_frac = f, n_exp = x \<rparr>"])
        (simp add: number_ok_parts stops_parts number_text_def)
  next
    assume ?R
    then obtain n where n: "number_ok n" "w = number_text n" "xs = w @ r" "stops n r" by blast
    have m: "\<not> n_minus n" using n(2,3) False by (auto simp: number_text_def)
    show ?L
      unfolding run minus_grammar using n m
      by (intro exI [of _ "n_int n"] exI [of _ "n_frac n"] exI [of _ "n_exp n"])
        (simp add: number_ok_parts stops_parts number_text_def)
  qed
qed

section \<open>The scanner\<close>

text \<open>The token of a number; \<open>dp\<close> is the decimal point of the locale, which \<open>strtod\<close> expects.\<close>

definition float_token :: "(u8 list \<Rightarrow> 'f) \<Rightarrow> u8 \<Rightarrow> number \<Rightarrow> 'f token" where
  "float_token strtod dp n = Float (strtod (map (stored dp) (number_text n))) (number_text n)"

definition number_token :: "(u8 list \<Rightarrow> 'f) \<Rightarrow> u8 \<Rightarrow> number \<Rightarrow> 'f token" where
  "number_token strtod dp n =
     (let v = digits_value (n_int n) in
      if n_frac n \<noteq> None \<or> n_exp n \<noteq> None then float_token strtod dp n
      else if n_minus n then (if v \<le> 2 ^ 63 then Integer (- int v) else float_token strtod dp n)
      else (if v < 2 ^ 64 then Unsigned v else float_token strtod dp n))"

definition number_start :: "u8 \<Rightarrow> bool" where
  "number_start c \<longleftrightarrow> c = 0x2D \<or> digit c"

text \<open>The decimal point in the buffer.\<close>

lemma digits_no_point: "list_all digit ds \<Longrightarrow> 0x2E \<notin> set ds \<and> 0x65 \<notin> set ds \<and> 0x45 \<notin> set ds"
  by (induction ds) auto

lemma exp_no_point: "exp_ok x \<Longrightarrow> 0x2E \<notin> set (exp_text x)"
  using digits_no_point by (auto simp: exp_ok_def exp_text_def exp_letter_def sign_ok_def digits_def split: option.splits)

lemma point_at_none: "0x2E \<notin> set w \<Longrightarrow> point_at n pos w = pos"
  by (induction n pos w rule: point_at.induct) auto

lemma point_at_append: "point_at n pos (u @ v) = point_at (n + length u) (point_at n pos u) v"
  by (induction u arbitrary: n pos) auto

lemma map_stored_id: "0x2E \<notin> set w \<Longrightarrow> map (stored dp) w = w"
  by (induction w) (auto simp: stored_def)

lemma get_string_number:
  assumes n: "number_ok n" and b: "token_buffer s = map (stored (decimal_point_char s)) (number_text n)"
    and p: "decimal_point_position s = point_at 0 None (number_text n)"
  shows "get_string s = number_text n"
proof -
  let ?m = "if n_minus n then [0x2D] else [] :: u8 list"
  have i: "0x2E \<notin> set (n_int n)" "0x2E \<notin> set (exp_text (n_exp n))"
    using n digits_no_point exp_no_point by (auto simp: number_ok_parts int_ok_def digits_def)
  show ?thesis
  proof (cases "n_frac n")
    case None
    then have "0x2E \<notin> set (number_text n)" using i by (auto simp: number_text_def frac_text_def)
    then show ?thesis using b p by (simp add: get_string_def point_at_none map_stored_id)
  next
    case (Some ds)
    let ?u = "?m @ n_int n" and ?v = "ds @ exp_text (n_exp n)"
    have t: "number_text n = ?u @ 0x2E # ?v" using Some by (simp add: number_text_def frac_text_def)
    have u: "0x2E \<notin> set ?u" using i by auto
    have v: "0x2E \<notin> set ?v" using Some n i digits_no_point [of ds] by (auto simp: number_ok_parts frac_ok_def digits_def)
    have "decimal_point_position s = Some (length ?u)"
      unfolding p t point_at_append using u v by (simp add: point_at_none)
    moreover have "token_buffer s = ?u @ stored (decimal_point_char s) 0x2E # ?v"
      unfolding b t map_append [of _ ?u "0x2E # ?v"] list.map(2) map_stored_id [OF u] map_stored_id [OF v] by (rule refl)
    ultimately show ?thesis unfolding t by (simp add: get_string_def stored_def)
  qed
qed

lemma run_type_number:
  assumes "number_ok n"
  shows "run_type ty (number_text n) = (if n_frac n \<noteq> None \<or> n_exp n \<noteq> None then tt_float else ty)"
proof -
  have i: "0x2E \<notin> set (n_int n) \<and> 0x65 \<notin> set (n_int n) \<and> 0x45 \<notin> set (n_int n)"
    using assms digits_no_point by (simp add: number_ok_parts int_ok_def digits_def)
  show ?thesis
  proof (cases "n_exp n")
    case None
    then show ?thesis using i by (auto simp: run_type_def number_text_def frac_text_def exp_text_def split: option.splits)
  next
    case (Some x)
    obtain e sg ds where "x = (e, sg, ds)" by (cases x)
    then show ?thesis using assms Some
      by (auto simp: run_type_def number_text_def exp_text_def number_ok_parts exp_ok_def exp_letter_def)
  qed
qed

text \<open>The first character and the loop.\<close>

definition first_state :: "u8 \<Rightarrow> number_state" where
  "first_state c = (if c = 0x2D then Minus else if c = 0x30 then Zero else Any1)"

lemma scan_number_start:
  assumes "lx_current s = Some c" and "number_start c"
  shows "scan_number strtod s =
    (case number_loop (first_state c) tt_unsigned (add_byte c (reset_token s)) of (st1, ty, s3) \<Rightarrow>
       if st1 = Number_done then number_finish strtod ty s3 else (parse_error, s3))"
proof -
  have "lx_current (reset_token s) = Some c" using assms(1) by (simp add: reset_token_def)
  moreover have "c = 0x2D \<or> c = 0x30 \<or> digit1 c" using assms(2) digit1_split by (auto simp: number_start_def)
  ultimately show ?thesis by (auto simp: scan_number_def first_state_def Let_def)
qed

lemma run_number_start:
  assumes "number_start c"
  shows "run_number (c # xs) = consumed [c] (number_run (first_state c) xs)"
proof -
  have "c = 0x2D \<or> c = 0x30 \<or> digit1 c" using assms digit1_split by (auto simp: number_start_def)
  then show ?thesis
    by (auto simp: run_number_def first_state_def run_minus run_any1 simp del: consumed_simps(4)) (auto simp: consumed_def split: option.splits)
qed

lemma number_finish_token:
  assumes n: "number_ok n" and b: "token_buffer s = map (stored (decimal_point_char s)) (number_text n)"
    and p: "decimal_point_position s = point_at 0 None (number_text n)"
    and f: "number_finish strtod (if n_frac n \<noteq> None \<or> n_exp n \<noteq> None then tt_float else if n_minus n then tt_integer else tt_unsigned) s = (t, s1)"
  shows "t \<noteq> parse_error \<and> token_of t s1 = number_token strtod (decimal_point_char s) n \<and> (\<forall>xs. upcoming s1 xs = upcoming (unget_char s) xs)"
proof -
  let ?u = "unget_char s"
  let ?x = "strtod (map (stored (decimal_point_char s)) (number_text n))"
  have g: "get_string (?u\<lparr> value_float := x \<rparr>) = number_text n" for x
    using get_string_number [OF n, of "?u\<lparr> value_float := x \<rparr>"] b p by simp
  have plain: "token_buffer s = (if n_minus n then [0x2D] else []) @ n_int n" if "n_frac n = None" "n_exp n = None"
  proof -
    have "0x2E \<notin> set (number_text n)" using that n digits_no_point
      by (auto simp: number_text_def frac_text_def exp_text_def number_ok_parts int_ok_def digits_def)
    then show ?thesis unfolding b using that by (simp add: map_stored_id number_text_def frac_text_def exp_text_def)
  qed
  have d: "n_int n \<noteq> []" "hd (n_int n) \<noteq> 0x2D" using n by (cases "n_int n"; auto simp: number_ok_parts int_ok_def digits_def)+
  have up: "upcoming (?u\<lparr> value_float := x \<rparr>) xs = upcoming ?u xs" "upcoming (?u\<lparr> value_unsigned := v \<rparr>) xs = upcoming ?u xs"
    "upcoming (?u\<lparr> value_integer := i \<rparr>) xs = upcoming ?u xs" for x v i xs
    by (auto simp: upcoming_def split: option.splits)
  consider (float) "n_frac n \<noteq> None \<or> n_exp n \<noteq> None" | (int) "n_frac n = None" "n_exp n = None" "n_minus n"
    | (nat) "n_frac n = None" "n_exp n = None" "\<not> n_minus n" by blast
  then show ?thesis
  proof cases
    case float
    then show ?thesis using f b g up by (auto simp: number_finish_def token_of_def number_token_def float_token_def Let_def)
  next
    case int
    then have "strtoll (token_buffer s) = (if digits_value (n_int n) \<le> 2 ^ 63 then Some (- int (digits_value (n_int n))) else None)"
      using plain by (simp add: strtoll_def)
    then show ?thesis using f b g up int
      by (auto simp: number_finish_def token_of_def number_token_def float_token_def Let_def split: if_splits)
  next
    case nat
    then have "strtoull (token_buffer s) = (if digits_value (n_int n) < 2 ^ 64 then Some (digits_value (n_int n)) else None)"
      using plain by (simp add: strtoull_def)
    then show ?thesis using f b g up nat
      by (auto simp: number_finish_def token_of_def number_token_def float_token_def Let_def split: if_splits)
  qed
qed

lemma scan_number_run:
  assumes c: "lx_current s = Some c" "number_start c" and u: "upcoming s xs"
  shows "case run_number (c # xs) of
      Some (w, ys) \<Rightarrow> (\<forall>n. number_ok n \<longrightarrow> w = number_text n \<longrightarrow> (\<exists>t s1. scan_number strtod s = (t, s1) \<and> t \<noteq> parse_error
          \<and> token_of t s1 = number_token strtod (decimal_point_char s) n \<and> upcoming s1 ys))
    | None \<Rightarrow> fst (scan_number strtod s) = parse_error"
proof -
  let ?s = "add_byte c (reset_token s)"
  have f: "running (first_state c)" "upcoming ?s xs" using u by (auto simp: first_state_def running_def)
  note run = number_loop_run [OF f, of tt_unsigned]
  show ?thesis
  proof (cases "number_run (first_state c) xs")
    case None
    then show ?thesis using run scan_number_start [OF c, of strtod] run_number_start [OF c(2), of xs]
      by (auto simp: split_def)
  next
    case (Some wr)
    obtain v ys where v: "wr = (v, ys)" by (cases wr)
    with run Some obtain s1 where s1: "number_loop (first_state c) tt_unsigned ?s
        = (Number_done, run_type (type_at (first_state c) tt_unsigned) v, s1)" "ran ?s v ys s1" by auto
    have scan: "scan_number strtod s = number_finish strtod (run_type (type_at (first_state c) tt_unsigned) v) s1"
      using scan_number_start [OF c, of strtod] s1(1) by simp
    have dp: "decimal_point_char (reset_token s) = decimal_point_char s" "decimal_point_position (reset_token s) = None"
      "decimal_point_char ?s = decimal_point_char s" "decimal_point_position ?s = None"
      by (simp_all add: reset_token_def add_byte_def)
    have nc: "c \<noteq> 0x2E" "c \<noteq> 0x65" "c \<noteq> 0x45" using c(2) by (auto simp: number_start_def)
    have r: "upcoming (unget_char s1) ys" "token_buffer s1 = map (stored (decimal_point_char s1)) (c # v)"
      "decimal_point_char s1 = decimal_point_char s" "decimal_point_position s1 = point_at 0 None (c # v)"
      using s1(2) nc dp unfolding ran_def by (auto simp: stored_def)
    have "\<exists>t s2. scan_number strtod s = (t, s2) \<and> t \<noteq> parse_error
          \<and> token_of t s2 = number_token strtod (decimal_point_char s) n \<and> upcoming s2 ys"
      if n: "number_ok n" "c # v = number_text n" for n
    proof -
      have i: "n_int n \<noteq> []" "hd (n_int n) \<noteq> 0x2D" using n(1) by (cases "n_int n"; auto simp: number_ok_parts int_ok_def digits_def)+
      have "c = 0x2D \<longleftrightarrow> n_minus n" using n(2) i by (cases "n_int n") (auto simp: number_text_def split: if_splits)
      then have "run_type (type_at (first_state c) tt_unsigned) v
          = (if n_frac n \<noteq> None \<or> n_exp n \<noteq> None then tt_float else if n_minus n then tt_integer else tt_unsigned)"
        using run_type_number [OF n(1), of "type_at (first_state c) tt_unsigned"] nc
        unfolding n(2) [symmetric] by (auto simp: run_type_def type_at_def first_state_def)
      with scan have "scan_number strtod s = number_finish strtod
          (if n_frac n \<noteq> None \<or> n_exp n \<noteq> None then tt_float else if n_minus n then tt_integer else tt_unsigned) s1" by simp
      moreover obtain t s2 where ts: "number_finish strtod
          (if n_frac n \<noteq> None \<or> n_exp n \<noteq> None then tt_float else if n_minus n then tt_integer else tt_unsigned) s1 = (t, s2)"
        by (metis surj_pair)
      ultimately show ?thesis using number_finish_token [OF n(1) _ _ ts] r n(2) by auto
    qed
    then show ?thesis using Some v run_number_start [OF c(2), of xs] by simp
  qed
qed

text \<open>
  C14: \<open>scan_number\<close> implements the number grammar. With the first character \<open>c\<close> of a number read and \<open>xs\<close> next,
  it returns a token exactly when the text starts with a number of the grammar that the byte behind it
  cannot continue, and the bytes behind the number are next again. The token is unsigned or integer when the
  number has neither fraction nor exponent and fits into 64 bits, and otherwise a float: the text with the
  decimal point of the locale, as \<open>strtod\<close> reads it. The string of the token is the text itself.
\<close>

theorem scan_number_implements_grammar:
  assumes "lx_current s = Some c" and "number_start c" and "upcoming s xs"
  shows "(\<exists>t s1. scan_number strtod s = (t, s1) \<and> t \<noteq> parse_error \<and> token_of t s1 = tok \<and> upcoming s1 ys)
    \<longleftrightarrow> (\<exists>n. number_ok n \<and> c # xs = number_text n @ ys \<and> stops n ys \<and> tok = number_token strtod (decimal_point_char s) n)"
    (is "?L \<longleftrightarrow> ?R")
proof
  assume ?R
  then obtain n where n: "number_ok n" "c # xs = number_text n @ ys" "stops n ys" "tok = number_token strtod (decimal_point_char s) n" by blast
  have "run_number (c # xs) = Some (number_text n, ys)" unfolding run_number_grammar using n by blast
  then show ?L using scan_number_run [OF assms, of strtod] n by auto
next
  assume L: ?L
  then obtain w zs where w: "run_number (c # xs) = Some (w, zs)" using scan_number_run [OF assms, of strtod] by (cases "run_number (c # xs)") auto
  then obtain n where n: "number_ok n" "w = number_text n" "c # xs = w @ zs" "stops n zs" unfolding run_number_grammar by blast
  then show ?R using scan_number_run [OF assms, of strtod] w L upcoming_unique by fastforce
qed

text \<open>The number -12.5 before a comma.\<close>

definition ex_number :: "unit lexer" where
  "ex_number = get_char (lexer_new 0x2E () False [0x2D, 0x31, 0x32, 0x2E, 0x35, 0x2C])"

theorem scan_number_implements_grammar_witness:
  "\<exists>t s1. scan_number (\<lambda>_. ()) ex_number = (t, s1) \<and> t \<noteq> parse_error
    \<and> token_of t s1 = Float () [0x2D, 0x31, 0x32, 0x2E, 0x35] \<and> upcoming s1 [0x2C]"
proof -
  have u: "upcoming (lexer_new 0x2E () False [0x2D, 0x31, 0x32, 0x2E, 0x35, 0x2C]) [0x2D, 0x31, 0x32, 0x2E, 0x35, 0x2C]"
    by (rule upcoming_new)
  have s: "lx_current ex_number = Some 0x2D" "upcoming ex_number [0x31, 0x32, 0x2E, 0x35, 0x2C]" "number_start 0x2D"
    using get_Cons [OF u] by (simp_all add: ex_number_def number_start_def)
  let ?n = "\<lparr> n_minus = True, n_int = [0x31, 0x32], n_frac = Some [0x35], n_exp = None \<rparr>"
  have "number_ok ?n" "[0x2D, 0x31, 0x32, 0x2E, 0x35, 0x2C] = number_text ?n @ [0x2C]" "stops ?n [0x2C]"
    "Float () [0x2D, 0x31, 0x32, 0x2E, 0x35] = number_token (\<lambda>_. ()) (decimal_point_char ex_number) ?n"
    by (simp_all add: number_ok_def digits_def digit_def number_text_def frac_text_def exp_text_def stops_def exp_letter_def
        number_token_def float_token_def)
  then show ?thesis unfolding scan_number_implements_grammar [OF s(1,3,2)] by blast
qed

end
