(* ===== verification/Json_Integer.thy ===== *)
theory Json_Integer
  imports Json_Serializer Json_Numbers
begin

text \<open>
  The text of an integer: \<open>dump_integer\<close> counts the digits, fills its buffer from the right with two digits
  at a time, and so writes the decimal digits of the grammar.
\<close>

function decimal :: "nat \<Rightarrow> u8 list" where
  "decimal n = (if n < 10 then [of_nat (48 + n)] else decimal (n div 10) @ [of_nat (48 + n mod 10)])"
  by pat_completeness auto
termination decimal by (relation "measure id") auto

declare decimal.simps [simp del]

lemma decimal_small: "n < 10 \<Longrightarrow> decimal n = [of_nat (48 + n)]"
  by (subst decimal.simps) simp

lemma decimal_big: "10 \<le> n \<Longrightarrow> decimal n = decimal (n div 10) @ [of_nat (48 + n mod 10)]"
  by (subst decimal.simps) simp

lemma div_100: "n div 100 = n div 10 div (10::nat)" "n mod 100 div 10 = n div 10 mod (10::nat)" "n mod 100 mod 10 = n mod (10::nat)"
proof -
  show "n div 100 = n div 10 div (10::nat)" by (simp add: div_mult2_eq [symmetric])
  have "n mod (10 * 10) = 10 * (n div 10 mod 10) + n mod (10::nat)" by (rule mod_mult2_eq)
  then show "n mod 100 div 10 = n div 10 mod (10::nat)" "n mod 100 mod 10 = n mod (10::nat)" by simp_all
qed

lemma decimal_two: "100 \<le> n \<Longrightarrow> decimal n = decimal (n div 100) @ [of_nat (48 + n mod 100 div 10), of_nat (48 + n mod 100 mod 10)]"
  unfolding div_100 by (simp add: decimal_big [of n] decimal_big [of "n div 10"] div_mult2_eq [symmetric])

lemma decimal_nonempty [simp]: "decimal n \<noteq> []"
  by (subst decimal.simps) simp

lemma decimal_length_le: "n < 10 ^ k \<Longrightarrow> 0 < k \<Longrightarrow> length (decimal n) \<le> k"
proof (induction k arbitrary: n)
  case (Suc k)
  show ?case
  proof (cases "n < 10")
    case True
    then show ?thesis by (simp add: decimal_small)
  next
    case False
    then have "0 < k" using Suc.prems(1) by (cases k) auto
    moreover have "n div 10 < 10 ^ k" using Suc.prems(1) by (simp add: less_mult_imp_div_less mult.commute)
    ultimately show ?thesis using Suc.IH False by (simp add: decimal_big)
  qed
qed simp

lemma count_digits_decimal: "count_digits_loop k n + 1 = k + length (decimal n)"
proof (induction k n rule: count_digits_loop.induct)
  case (1 k n)
  have d: "n div 10000 = n div 10 div 10 div 10 div 10" by (simp add: div_mult2_eq [symmetric])
  consider "n < 10" | "10 \<le> n" "n < 100" | "100 \<le> n" "n < 1000" | "1000 \<le> n" "n < 10000" | (big) "10000 \<le> n" by linarith
  then show ?case
  proof cases
    case big
    then have "length (decimal n) = length (decimal (n div 10000)) + 4"
      unfolding d by (simp add: decimal_big [of n] decimal_big [of "n div 10"] decimal_big [of "n div 10 div 10"] decimal_big [of "n div 10 div 10 div 10"])
    then show ?thesis using 1 big by (subst count_digits_loop.simps) simp
  qed (simp_all add: count_digits_loop.simps [of k n] decimal_small [of n] decimal_big [of n] decimal_small [of "n div 10"]
      decimal_big [of "n div 10"] decimal_small [of "n div 10 div 10"] decimal_big [of "n div 10 div 10"] decimal_small [of "n div 10 div 10 div 10"])
qed

lemma count_digits_length: "count_digits n = length (decimal n)"
  using count_digits_decimal [of 1 n] by (simp add: count_digits_def)

lemma store_pair_spec:
  assumes "2 \<le> ptr" and "ptr \<le> length buf"
  shows "store_pair k (ptr, buf) = (ptr - 2, take (ptr - 2) buf @ [of_nat (48 + k div 10), of_nat (48 + k mod 10)] @ drop ptr buf)"
proof -
  obtain p where p: "ptr = Suc (Suc p)" using assms(1) by (metis add_2_eq_Suc le_Suc_ex)
  have buf: "buf = take p buf @ buf ! p # buf ! Suc p # drop (Suc (Suc p)) buf"
    using assms(2) p by (simp add: Cons_nth_drop_Suc)
  have "(buf[Suc p := y])[p := x] = take p buf @ [x, y] @ drop (Suc (Suc p)) buf" for x y
    using assms(2) p by (subst (1) buf) (simp add: list_update_append min_def)
  then show ?thesis by (simp add: store_pair_def digits_to_99_def p)
qed

lemma store_digits_spec:
  "length (decimal n) \<le> ptr \<Longrightarrow> ptr \<le> length buf \<Longrightarrow>
     snd (store_digits n (ptr, buf)) = take (ptr - length (decimal n)) buf @ decimal n @ drop ptr buf"
proof (induction n "(ptr, buf)" arbitrary: ptr buf rule: store_digits.induct)
  case (1 n ptr buf)
  consider "n < 10" | "10 \<le> n" "n < 100" | "100 \<le> n" by linarith
  then show ?case
  proof cases
    case 1
    then show ?thesis using "1.prems" by (subst store_digits.simps) (simp add: decimal_small upd_conv_take_nth_drop Suc_diff_Suc)
  next
    case 2
    then have "decimal n = [of_nat (48 + n div 10), of_nat (48 + n mod 10)]" by (simp add: decimal_big decimal_small)
    then show ?thesis using "1.prems" 2 by (subst store_digits.simps) (simp add: store_pair_spec numeral_2_eq_2)
  next
    case 3
    let ?m = "[of_nat (48 + n mod 100 div 10), of_nat (48 + n mod 100 mod 10)] :: u8 list"
    define bf where "bf = take (ptr - 2) buf @ ?m @ drop ptr buf"
    have d: "decimal n = decimal (n div 100) @ ?m" by (rule decimal_two [OF 3])
    then have l: "2 \<le> ptr" "length (decimal (n div 100)) \<le> ptr - 2" "ptr - 2 \<le> length bf" using "1.prems" by (simp_all add: bf_def)
    have p: "store_pair (n mod 100) (ptr, buf) = (ptr - 2, bf)" unfolding bf_def by (rule store_pair_spec [OF l(1) "1.prems"(2)])
    have "snd (store_digits n (ptr, buf)) = snd (store_digits (n div 100) (ptr - 2, bf))"
      using 3 p by (subst store_digits.simps) simp
    also have "\<dots> = take (ptr - 2 - length (decimal (n div 100))) bf @ decimal (n div 100) @ drop (ptr - 2) bf"
      by (rule "1.hyps" [OF 3 p l(2,3)])
    also have "take (ptr - 2 - length (decimal (n div 100))) bf = take (ptr - 2 - length (decimal (n div 100))) buf"
      unfolding bf_def using l(2) "1.prems"(2) by (simp only: take_append take_take length_take) simp
    also have "drop (ptr - 2) bf = ?m @ drop ptr buf"
      unfolding bf_def using "1.prems"(2) by (simp only: drop_append length_take) simp
    finally show ?thesis unfolding d by simp
  qed
qed

text \<open>The digits are a number of the grammar with the value of the integer.\<close>

definition integer_number :: "int \<Rightarrow> number" where
  "integer_number x = \<lparr> n_minus = x < 0, n_int = decimal (nat \<bar>x\<bar>), n_frac = None, n_exp = None \<rparr>"

lemma remove_sign_abs: "x < 0 \<Longrightarrow> remove_sign x = nat \<bar>x\<bar>"
  by (simp add: remove_sign_def)

lemma dump_integer_text:
  assumes "\<bar>x\<bar> < 2 ^ 64"
  shows "dump_integer x = number_text (integer_number x)"
proof -
  let ?d = "decimal (nat \<bar>x\<bar>)"
  have l: "length ?d \<le> 20" using assms by (intro decimal_length_le) simp_all
  consider "x = 0" | "x < 0" | "0 < x" by linarith
  then show ?thesis
  proof cases
    case 1
    then show ?thesis by (simp add: dump_integer_def integer_number_def number_text_def frac_text_def exp_text_def decimal_small)
  next
    case 2
    have m: "(replicate 64 (0 :: u8))[0 := 0x2D] = 0x2D # replicate 63 0" by (simp add: numeral_eq_Suc)
    have "snd (store_digits (nat \<bar>x\<bar>) (1 + length ?d, 0x2D # replicate 63 0)) = 0x2D # ?d @ drop (length ?d) (replicate 63 0)"
      using l by (subst store_digits_spec) simp_all
    then show ?thesis using 2
      by (simp add: dump_integer_def Let_def remove_sign_abs count_digits_length integer_number_def number_text_def frac_text_def
          exp_text_def m)
  next
    case 3
    have "snd (store_digits (nat \<bar>x\<bar>) (length ?d, replicate 64 0)) = ?d @ drop (length ?d) (replicate 64 0)"
      using l by (subst store_digits_spec) simp_all
    then show ?thesis using 3
      by (simp add: dump_integer_def Let_def count_digits_length integer_number_def number_text_def frac_text_def exp_text_def)
  qed
qed

lemma digit_of_nat: "k < 10 \<Longrightarrow> digit (of_nat (48 + k)) \<and> unat (of_nat (48 + k) :: u8) = 48 + k \<and> ((of_nat (48 + k) :: u8) = 0x30 \<longleftrightarrow> k = 0)"
proof -
  assume k: "k < 10"
  then have "unat (of_nat (48 + k) :: u8) = 48 + k" by (subst unat_u8) simp_all
  then show ?thesis using k by (simp add: digit_def word_le_nat_alt word_unat_eq_iff del: of_nat_add)
qed

lemma decimal_digits: "list_all digit (decimal n) \<and> (hd (decimal n) = 0x30 \<longrightarrow> n = 0)"
proof (induction n rule: decimal.induct)
  case (1 n)
  show ?case
  proof (cases "n < 10")
    case True
    then show ?thesis using digit_of_nat [OF True] by (simp add: decimal_small del: of_nat_add)
  next
    case False
    then have "n div 10 \<noteq> 0" by simp
    then show ?thesis using 1 False digit_of_nat [of "n mod 10"] by (simp add: decimal_big del: of_nat_add)
  qed
qed

lemma digits_value_decimal: "digits_value (decimal n) = n"
proof (induction n rule: decimal.induct)
  case (1 n)
  show ?case
  proof (cases "n < 10")
    case True
    then show ?thesis using digit_of_nat [OF True] by (simp add: decimal_small digits_value_def del: of_nat_add)
  next
    case False
    have v: "digits_value (ds @ [d]) = 10 * digits_value ds + (unat d - 0x30)" for ds d by (simp add: digits_value_def)
    have d: "unat (of_nat (48 + n mod 10) :: u8) = 48 + n mod 10" using digit_of_nat [of "n mod 10"] by (simp del: of_nat_add)
    have "decimal n = decimal (n div 10) @ [of_nat (48 + n mod 10)]" using False by (intro decimal_big) simp
    then have "digits_value (decimal n) = 10 * (n div 10) + (48 + n mod 10 - 0x30)" by (simp only: v d 1 [OF False])
    then show ?thesis by simp
  qed
qed

lemma decimal_int: "digits (decimal n)" "hd (decimal n) = 0x30 \<longrightarrow> tl (decimal n) = []"
proof -
  show "digits (decimal n)" using decimal_digits [of n] by (simp add: digits_def)
  show "hd (decimal n) = 0x30 \<longrightarrow> tl (decimal n) = []" using decimal_digits [of n] decimal_small [of 0] by auto
qed

lemma integer_number_ok: "number_ok (integer_number x)"
  unfolding number_ok_def integer_number_def using decimal_int [of "nat \<bar>x\<bar>"]
  by (simp only: number.select_convs option.case simp_thms)

lemma integer_token:
  "- (2 ^ 63) \<le> x \<Longrightarrow> x < 0 \<Longrightarrow> number_token strtod dp (integer_number x) = Integer x"
  "0 \<le> x \<Longrightarrow> x < 2 ^ 64 \<Longrightarrow> number_token strtod dp (integer_number x) = Unsigned (nat x)"
  by (simp_all add: number_token_def integer_number_def digits_value_decimal Let_def nat_le_iff nat_less_iff)

end
