(* ===== verification/Json_Grammar.thy ===== *)
theory Json_Grammar
  imports Json_Document
begin

text \<open>
  The parser accepts exactly the grammar: from the tokens of a syntax tree it makes the tree's
  events, and whatever it accepts are the tokens of a syntax tree.
\<close>

section \<open>The tokens of a value are accepted\<close>

lemma scans_append: "scans strtod l (xs @ ys) l' \<longleftrightarrow> (\<exists>m. scans strtod l xs m \<and> scans strtod m ys l')"
proof
  assume "scans strtod l (xs @ ys) l'"
  then show "\<exists>m. scans strtod l xs m \<and> scans strtod m ys l'"
  proof (induction xs arbitrary: l)
    case Nil
    then show ?case by (auto intro: scans_none)
  next
    case (Cons x xs)
    from Cons.prems have "scans strtod l (x # (xs @ ys)) l'" by simp
    then show ?case by (rule scans_consE) (use Cons.IH in \<open>blast intro: scans_token\<close>)
  qed
next
  assume "\<exists>m. scans strtod l xs m \<and> scans strtod m ys l'"
  then obtain m where "scans strtod l xs m" "scans strtod m ys l'" by blast
  then show "scans strtod l (xs @ ys) l'" by (induction rule: scans.induct) (auto intro: scans_token)
qed

definition current_token :: "'f parser \<Rightarrow> 'f token" where
  "current_token p = token_of (last_token p) (m_lexer p)"

text \<open>The parser has read the first of these tokens, and the others follow up to this lexer.\<close>

definition reads :: "(u8 list \<Rightarrow> 'f) \<Rightarrow> 'f parser \<Rightarrow> 'f token list \<Rightarrow> 'f lexer \<Rightarrow> bool" where
  "reads strtod p ts l' \<longleftrightarrow> (\<exists>t us. ts = t # us \<and> current_token p = t \<and> scans strtod (m_lexer p) us l')"

lemma token_of_plain:
  "token_of t l = Plain u \<longleftrightarrow> t = u \<and> u \<notin> {value_string, tt_integer, tt_unsigned, tt_float}"
  by (cases t; cases u) (simp_all add: token_of_def)

lemma token_of_other:
  "token_of t l = Text s \<longleftrightarrow> t = value_string \<and> get_string l = s"
  "token_of t l = Integer i \<longleftrightarrow> t = tt_integer \<and> value_integer l = i"
  "token_of t l = Unsigned n \<longleftrightarrow> t = tt_unsigned \<and> value_unsigned l = n"
  "token_of t l = Float x s \<longleftrightarrow> t = tt_float \<and> value_float l = x \<and> get_string l = s"
  by (cases t; auto simp: token_of_def)+

lemmas current_simps = current_token_def token_of_plain token_of_other

lemma get_token_fields [simp]:
  "states (get_token strtod p) = states p" "events (get_token strtod p) = events p"
  by (simp_all add: get_token_def split_def Let_def)

lemma update_fields [simp]:
  "m_lexer (emit e p) = m_lexer p" "m_lexer (push_state b p) = m_lexer p" "m_lexer (pop_state p) = m_lexer p"
  "states (emit e p) = states p" "states (push_state b p) = b # states p" "states (pop_state p) = tl (states p)"
  "events (emit e p) = events p @ [e]" "events (push_state b p) = events p" "events (pop_state p) = events p"
  "current_token (emit e p) = current_token p" "current_token (push_state b p) = current_token p"
  by (simp_all add: emit_def push_state_def pop_state_def current_token_def)

lemma reads_get: "scans strtod (m_lexer p) ts l' \<Longrightarrow> ts \<noteq> [] \<Longrightarrow> reads strtod (get_token strtod p) ts l'"
  by (cases ts) (auto simp: reads_def get_token_def current_token_def split_def Let_def elim: scans_consE)

lemma reads_Cons: "reads strtod p (t # ts) l' \<longleftrightarrow> current_token p = t \<and> scans strtod (m_lexer p) ts l'"
  by (auto simp: reads_def)

lemma reads_append:
  "ts \<noteq> [] \<Longrightarrow> reads strtod p (ts @ us) l' \<longleftrightarrow> (\<exists>m. reads strtod p ts m \<and> scans strtod m us l')"
  by (cases ts) (auto simp: reads_Cons scans_append)

lemma reads_fields [simp]:
  "reads strtod (emit e p) ts l' = reads strtod p ts l'" "reads strtod (push_state b p) ts l' = reads strtod p ts l'"
  by (simp_all add: reads_def)

text \<open>The rounds of the loop.\<close>

lemma loop_value: "parse_value strtod isfinite p = (Evaluate, p1) \<Longrightarrow> parse_loop strtod isfinite False p = parse_loop strtod isfinite True p1"
  by (subst (1 2) parse_loop.simps) simp

lemma loop_again: "parse_value strtod isfinite p = (Again, p1) \<Longrightarrow> parse_loop strtod isfinite False p = parse_loop strtod isfinite False p1"
  by (subst parse_loop.simps) simp

lemma loop_next: "evaluate strtod p = (Again, p1) \<Longrightarrow> parse_loop strtod isfinite True p = parse_loop strtod isfinite False p1"
  by (subst parse_loop.simps) simp

lemma loop_close: "evaluate strtod p = (Again_evaluate, p1) \<Longrightarrow> parse_loop strtod isfinite True p = parse_loop strtod isfinite True p1"
  by (subst parse_loop.simps) simp

lemma loop_done: "states p = [] \<Longrightarrow> parse_loop strtod isfinite True p = (True, p)"
  by (subst parse_loop.simps) (simp add: evaluate_def)

text \<open>The tokens of a value bring the loop from its start to the evaluation of the state.\<close>

definition value_round :: "(u8 list \<Rightarrow> 'f) \<Rightarrow> ('f \<Rightarrow> bool) \<Rightarrow> 'f token list \<Rightarrow> 'f sax_event list \<Rightarrow> bool" where
  "value_round strtod isfinite ts es \<longleftrightarrow> (\<forall>p l'. reads strtod p ts l' \<longrightarrow>
     (\<exists>p'. parse_loop strtod isfinite False p = parse_loop strtod isfinite True p' \<and> m_lexer p' = l'
        \<and> states p' = states p \<and> events p' = events p @ es))"

lemma value_roundD:
  assumes "value_round strtod isfinite ts es" "reads strtod p ts l'"
  obtains p' where "parse_loop strtod isfinite False p = parse_loop strtod isfinite True p'" "m_lexer p' = l'"
    "states p' = states p" "events p' = events p @ es"
  using assms unfolding value_round_def by blast

lemma value_round_plain:
  assumes "\<And>p. current_token p = t \<Longrightarrow> parse_value strtod isfinite p = (Evaluate, emit e p)"
  shows "value_round strtod isfinite [t] [e]"
  unfolding value_round_def
proof (intro allI impI)
  fix p l' assume r: "reads strtod p [t] l'"
  then have "m_lexer p = l'" by (auto simp: reads_Cons elim: scans_nilE)
  with r loop_value [OF assms] show "\<exists>p'. parse_loop strtod isfinite False p = parse_loop strtod isfinite True p'
      \<and> m_lexer p' = l' \<and> states p' = states p \<and> events p' = events p @ [e]"
    by (intro exI [of _ "emit e p"]) (auto simp: reads_Cons)
qed

lemma tokens_nonempty [simp]: "tokens v \<noteq> []"
  by (cases v) auto

lemma separated_Cons: "tss \<noteq> [] \<Longrightarrow> separated (ts # tss) = ts @ Plain value_separator # separated tss"
  by (cases tss) auto

lemma elements_round:
  assumes "vs \<noteq> []" and "\<forall>v \<in> set vs. value_round strtod isfinite (tokens v) (sax_events v)"
    and "reads strtod p (separated (map tokens vs) @ [Plain end_array]) l'" and "states p = True # ss"
  shows "\<exists>p'. parse_loop strtod isfinite False p = parse_loop strtod isfinite True p' \<and> m_lexer p' = l'
    \<and> states p' = ss \<and> events p' = events p @ concat (map sax_events vs) @ [Sax_end_array]"
  using assms
proof (induction vs arbitrary: p)
  case (Cons v vs)
  note v = Cons.prems(2) [rule_format, of v]
  show ?case
  proof (cases "vs = []")
    case True
    with Cons.prems(3) obtain m where m: "reads strtod p (tokens v) m" "scans strtod m [Plain end_array] l'"
      by (auto simp: reads_append)
    from value_roundD [OF v m(1)] obtain p1 where p1: "parse_loop strtod isfinite False p = parse_loop strtod isfinite True p1"
      "m_lexer p1 = m" "states p1 = states p" "events p1 = events p @ sax_events v" by auto
    let ?p = "get_token strtod p1"
    have r: "reads strtod ?p [Plain end_array] l'" using reads_get m(2) p1(2) by fastforce
    then have e: "evaluate strtod p1 = (Again_evaluate, pop_state (emit Sax_end_array ?p))" "m_lexer ?p = l'"
      using p1(3) Cons.prems(4)
      by (auto simp: evaluate_def evaluate_array_def Let_def reads_Cons current_simps elim: scans_nilE)
    show ?thesis using p1(1,3,4) loop_close [OF e(1)] e(2) True Cons.prems(4)
      by (intro exI [of _ "pop_state (emit Sax_end_array ?p)"]) simp
  next
    case False
    with Cons.prems(3) obtain m where m: "reads strtod p (tokens v) m"
      "scans strtod m (Plain value_separator # separated (map tokens vs) @ [Plain end_array]) l'"
      by (auto simp: separated_Cons reads_append)
    from value_roundD [OF v m(1)] obtain p1 where p1: "parse_loop strtod isfinite False p = parse_loop strtod isfinite True p1"
      "m_lexer p1 = m" "states p1 = states p" "events p1 = events p @ sax_events v" by auto
    let ?p = "get_token strtod p1"
    have r: "reads strtod ?p (Plain value_separator # separated (map tokens vs) @ [Plain end_array]) l'"
      using reads_get m(2) p1(2) by fastforce
    then have e: "evaluate strtod p1 = (Again, get_token strtod ?p)"
      using p1(3) Cons.prems(4) by (auto simp: evaluate_def evaluate_array_def Let_def reads_Cons current_simps)
    have r2: "reads strtod (get_token strtod ?p) (separated (map tokens vs) @ [Plain end_array]) l'"
      using r by (intro reads_get) (auto simp: reads_Cons)
    from Cons.IH [OF False _ r2] Cons.prems(2,4) p1(3) obtain p' where
      "parse_loop strtod isfinite False (get_token strtod ?p) = parse_loop strtod isfinite True p'" "m_lexer p' = l'"
      "states p' = ss" "events p' = events p1 @ concat (map sax_events vs) @ [Sax_end_array]" by auto
    then show ?thesis using p1(1,4) loop_next [OF e] by (intro exI [of _ p']) simp
  qed
qed simp

lemma key_again:
  assumes r: "reads strtod p (Text k # Plain name_separator # ts) l'" and ts: "ts \<noteq> []"
  shows "\<exists>p'. parse_key strtod first p = (Again, p') \<and> reads strtod p' ts l'
    \<and> states p' = (if first then False # states p else states p) \<and> events p' = events p @ [Sax_key k]"
proof -
  let ?e = "emit (Sax_key (get_string (m_lexer p))) p"
  let ?p = "get_token strtod ?e"
  have t: "last_token p = value_string" "get_string (m_lexer p) = k" using r by (auto simp: reads_Cons current_simps)
  have r1: "reads strtod ?p (Plain name_separator # ts) l'" using r by (intro reads_get) (auto simp: reads_Cons)
  then have n: "last_token ?p = name_separator" by (auto simp: reads_Cons current_simps)
  have "reads strtod (get_token strtod (if first then push_state False ?p else ?p)) ts l'"
    by (rule reads_get [OF _ ts]) (use r1 in \<open>auto simp: reads_Cons\<close>)
  with t n show ?thesis
    by (intro exI [of _ "get_token strtod (if first then push_state False ?p else ?p)"])
      (simp add: parse_key_def Let_def)
qed

abbreviation member_tokens :: "u8 list \<times> 'f json_tree \<Rightarrow> 'f token list" where
  "member_tokens \<equiv> \<lambda>(k, v). Text k # Plain name_separator # tokens v"

abbreviation member_events :: "u8 list \<times> 'f json_tree \<Rightarrow> 'f sax_event list" where
  "member_events \<equiv> \<lambda>(k, v). Sax_key k # sax_events v"

text \<open>The value of the first member, then the other members up to the closing brace.\<close>

lemma members_round:
  assumes "value_round strtod isfinite (tokens v) (sax_events v)"
    and "\<forall>(k, v) \<in> set ms. value_round strtod isfinite (tokens v) (sax_events v)"
    and "reads strtod p (tokens v @ concat (map (\<lambda>m. Plain value_separator # member_tokens m) ms) @ [Plain end_object]) l'"
    and "states p = False # ss"
  shows "\<exists>p'. parse_loop strtod isfinite False p = parse_loop strtod isfinite True p' \<and> m_lexer p' = l'
    \<and> states p' = ss \<and> events p' = events p @ sax_events v @ concat (map member_events ms) @ [Sax_end_object]"
  using assms
proof (induction ms arbitrary: p v)
  case Nil
  then obtain m where m: "reads strtod p (tokens v) m" "scans strtod m [Plain end_object] l'" by (auto simp: reads_append)
  from value_roundD [OF Nil.prems(1) m(1)] obtain p1 where p1:
    "parse_loop strtod isfinite False p = parse_loop strtod isfinite True p1"
    "m_lexer p1 = m" "states p1 = states p" "events p1 = events p @ sax_events v" by auto
  let ?p = "get_token strtod p1"
  have r: "reads strtod ?p [Plain end_object] l'" using reads_get m(2) p1(2) by fastforce
  then have e: "evaluate strtod p1 = (Again_evaluate, pop_state (emit Sax_end_object ?p))" "m_lexer ?p = l'"
    using p1(3) Nil.prems(4)
    by (auto simp: evaluate_def evaluate_object_def Let_def reads_Cons current_simps elim: scans_nilE)
  show ?case using p1(1,3,4) loop_close [OF e(1)] e(2) Nil.prems(4)
    by (intro exI [of _ "pop_state (emit Sax_end_object ?p)"]) simp
next
  case (Cons e ms)
  obtain k w where e: "e = (k, w)" by (cases e)
  let ?rest = "tokens w @ concat (map (\<lambda>m. Plain value_separator # member_tokens m) ms) @ [Plain end_object]"
  from Cons.prems(3) e obtain m where m: "reads strtod p (tokens v) m"
    "scans strtod m (Plain value_separator # Text k # Plain name_separator # ?rest) l'" by (auto simp: reads_append)
  from value_roundD [OF Cons.prems(1) m(1)] obtain p1 where p1:
    "parse_loop strtod isfinite False p = parse_loop strtod isfinite True p1"
    "m_lexer p1 = m" "states p1 = states p" "events p1 = events p @ sax_events v" by auto
  let ?p = "get_token strtod p1"
  have r: "reads strtod ?p (Plain value_separator # Text k # Plain name_separator # ?rest) l'"
    using reads_get m(2) p1(2) by fastforce
  have r2: "reads strtod (get_token strtod ?p) (Text k # Plain name_separator # ?rest) l'"
    using r by (intro reads_get) (auto simp: reads_Cons)
  from key_again [OF r2, of False] obtain p2 where p2: "parse_key strtod False (get_token strtod ?p) = (Again, p2)"
    "reads strtod p2 ?rest l'" "states p2 = states p1" "events p2 = events p1 @ [Sax_key k]" by auto
  have ev: "evaluate strtod p1 = (Again, p2)"
    using r p1(3) Cons.prems(4) p2(1) by (auto simp: evaluate_def evaluate_object_def Let_def reads_Cons current_simps)
  have w: "value_round strtod isfinite (tokens w) (sax_events w)" using Cons.prems(2) e by auto
  from Cons.IH [OF w _ p2(2)] Cons.prems(2,4) p2(3) p1(3) obtain p' where
    "parse_loop strtod isfinite False p2 = parse_loop strtod isfinite True p'" "m_lexer p' = l'"
    "states p' = ss" "events p' = events p2 @ sax_events w @ concat (map member_events ms) @ [Sax_end_object]" by auto
  then show ?case using p1(1,4) p2(4) loop_next [OF ev] e by (intro exI [of _ p']) simp
qed

lemma separated_members:
  "separated (map member_tokens (m # ms)) = member_tokens m @ concat (map (\<lambda>m. Plain value_separator # member_tokens m) ms)"
proof (induction ms arbitrary: m)
  case (Cons n ms)
  then show ?case using separated_Cons [of "map member_tokens (n # ms)" "member_tokens m"] by simp
qed simp

lemma tokens_value_round:
  "finite_floats isfinite v \<Longrightarrow> value_round strtod isfinite (tokens v) (sax_events v)"
proof (induction v)
  case (S_array vs)
  show ?case
    unfolding value_round_def
  proof (intro allI impI)
    fix p l' assume r: "reads strtod p (tokens (S_array vs)) l'"
    let ?p = "get_token strtod (emit Sax_start_array p)"
    have lt: "last_token p = begin_array" using r by (auto simp: reads_Cons current_simps)
    have r1: "reads strtod ?p (separated (map tokens vs) @ [Plain end_array]) l'"
      using r by (intro reads_get) (auto simp: reads_Cons)
    show "\<exists>p'. parse_loop strtod isfinite False p = parse_loop strtod isfinite True p' \<and> m_lexer p' = l'
        \<and> states p' = states p \<and> events p' = events p @ sax_events (S_array vs)"
    proof (cases "vs = []")
      case True
      then have "last_token ?p = end_array" "m_lexer ?p = l'"
        using r1 by (auto simp: reads_Cons current_simps elim: scans_nilE)
      then show ?thesis using True lt loop_value [of strtod isfinite p "emit Sax_end_array ?p"]
        by (intro exI [of _ "emit Sax_end_array ?p"]) (simp add: parse_value_def parse_array_def Let_def)
    next
      case False
      then obtain v ws where vs: "vs = v # ws" by (cases vs) auto
      have "\<exists>us. separated (map tokens vs) @ [Plain end_array] = tokens v @ us" using vs by (cases ws) auto
      with r1 have "current_token ?p = hd (tokens v)" by (cases "tokens v") (auto simp: reads_Cons)
      then have "last_token ?p \<noteq> end_array" by (cases v) (auto simp: current_simps split: if_splits)
      then have "parse_value strtod isfinite p = (Again, push_state True ?p)"
        using lt by (simp add: parse_value_def parse_array_def Let_def)
      moreover have "\<forall>v \<in> set vs. value_round strtod isfinite (tokens v) (sax_events v)" using S_array by auto
      moreover note elements_round [OF False this, of "push_state True ?p" l' "states p"] r1
      ultimately show ?thesis using loop_again by fastforce
    qed
  qed
next
  case (S_object ms)
  show ?case
    unfolding value_round_def
  proof (intro allI impI)
    fix p l' assume r: "reads strtod p (tokens (S_object ms)) l'"
    let ?p = "get_token strtod (emit Sax_start_object p)"
    have lt: "last_token p = begin_object" using r by (auto simp: reads_Cons current_simps)
    have r1: "reads strtod ?p (separated (map member_tokens ms) @ [Plain end_object]) l'"
      using r by (intro reads_get) (auto simp: reads_Cons)
    have all: "\<forall>(k, v) \<in> set ms. value_round strtod isfinite (tokens v) (sax_events v)" using S_object by fastforce
    show "\<exists>p'. parse_loop strtod isfinite False p = parse_loop strtod isfinite True p' \<and> m_lexer p' = l'
        \<and> states p' = states p \<and> events p' = events p @ sax_events (S_object ms)"
    proof (cases ms)
      case Nil
      then have "last_token ?p = end_object" "m_lexer ?p = l'"
        using r1 by (auto simp: reads_Cons current_simps elim: scans_nilE)
      then show ?thesis using Nil lt loop_value [of strtod isfinite p "emit Sax_end_object ?p"]
        by (intro exI [of _ "emit Sax_end_object ?p"]) (simp add: parse_value_def parse_object_def Let_def)
    next
      case (Cons m ns)
      obtain k v where m: "m = (k, v)" by (cases m)
      let ?rest = "tokens v @ concat (map (\<lambda>m. Plain value_separator # member_tokens m) ns) @ [Plain end_object]"
      have r2: "reads strtod ?p (Text k # Plain name_separator # ?rest) l'"
        using r1 unfolding Cons separated_members by (simp add: m)
      then have "last_token ?p \<noteq> end_object" by (auto simp: reads_Cons current_simps)
      from key_again [OF r2, of True] obtain p1 where p1: "parse_key strtod True ?p = (Again, p1)" "reads strtod p1 ?rest l'"
        "states p1 = False # states p" "events p1 = events p @ [Sax_start_object, Sax_key k]" by auto
      have "parse_value strtod isfinite p = (Again, p1)"
        using lt p1(1) \<open>last_token ?p \<noteq> end_object\<close> by (simp add: parse_value_def parse_object_def Let_def)
      moreover have "value_round strtod isfinite (tokens v) (sax_events v)"
        "\<forall>(k, v) \<in> set ns. value_round strtod isfinite (tokens v) (sax_events v)" using all Cons m by auto
      moreover note members_round [OF this p1(2,3)]
      ultimately show ?thesis using loop_again [of strtod isfinite p p1] p1(4) Cons m by auto
    qed
  qed
qed (auto intro!: value_round_plain simp: parse_value_def parse_float_def current_simps split: if_splits)

lemma accepted_value:
  assumes "scans strtod l (tokens v) l'" and "finite_floats isfinite v"
  obtains p where "sax_parse_internal strtod isfinite (parser_new strtod l) = (True, p)" "m_lexer p = l'"
    "events p = sax_events v"
proof -
  let ?p0 = "\<lparr> m_lexer = l, last_token = uninitialized, states = [], events = [] \<rparr> :: 'a parser"
  have r: "reads strtod (parser_new strtod l) (tokens v) l'"
    unfolding parser_new_def using assms(1) by (intro reads_get) simp_all
  from value_roundD [OF tokens_value_round [OF assms(2)] r]
  obtain p where p: "parse_loop strtod isfinite False (parser_new strtod l) = parse_loop strtod isfinite True p"
    "m_lexer p = l'" "states p = states (parser_new strtod l)" "events p = events (parser_new strtod l) @ sax_events v" .
  then have "states p = []" "events p = sax_events v" by (simp_all add: parser_new_def)
  with p(1,2) loop_done [of p strtod isfinite] show ?thesis by (intro that) (simp_all add: sax_parse_internal_def)
qed

section \<open>What is accepted are the tokens of a value\<close>

text \<open>The tokens that close the containers of a stack, with their events.\<close>

inductive closes :: "('f \<Rightarrow> bool) \<Rightarrow> bool list \<Rightarrow> 'f token list \<Rightarrow> 'f sax_event list \<Rightarrow> bool" for isfinite where
  closes_none: "closes isfinite [] [] []"
| closes_array: "closes isfinite ss ts es \<Longrightarrow> closes isfinite (True # ss) (Plain end_array # ts) (Sax_end_array # es)"
| closes_element: "closes isfinite (True # ss) ts es \<Longrightarrow> finite_floats isfinite v
    \<Longrightarrow> closes isfinite (True # ss) (Plain value_separator # tokens v @ ts) (sax_events v @ es)"
| closes_object: "closes isfinite ss ts es \<Longrightarrow> closes isfinite (False # ss) (Plain end_object # ts) (Sax_end_object # es)"
| closes_member: "closes isfinite (False # ss) ts es \<Longrightarrow> finite_floats isfinite v
    \<Longrightarrow> closes isfinite (False # ss) (Plain value_separator # member_tokens (k, v) @ ts) (member_events (k, v) @ es)"

inductive_cases closes_noneE: "closes isfinite [] ts es"

lemma closes_arrayE:
  assumes "closes isfinite (True # ss) ts es"
  obtains vs us fs where "ts = concat (map (\<lambda>v. Plain value_separator # tokens v) vs) @ Plain end_array # us"
    "es = concat (map sax_events vs) @ Sax_end_array # fs" "closes isfinite ss us fs" "\<forall>v \<in> set vs. finite_floats isfinite v"
proof -
  from assms have "\<exists>vs us fs. ts = concat (map (\<lambda>v. Plain value_separator # tokens v) vs) @ Plain end_array # us
    \<and> es = concat (map sax_events vs) @ Sax_end_array # fs \<and> closes isfinite ss us fs \<and> (\<forall>v \<in> set vs. finite_floats isfinite v)"
  proof (induction "True # ss" ts es rule: closes.induct)
    case (closes_array us fs)
    then show ?case by (intro exI [of _ "[]"] exI [of _ us] exI [of _ fs]) auto
  next
    case (closes_element ts es v)
    then obtain vs us fs where "ts = concat (map (\<lambda>v. Plain value_separator # tokens v) vs) @ Plain end_array # us"
      "es = concat (map sax_events vs) @ Sax_end_array # fs" "closes isfinite ss us fs" "\<forall>v \<in> set vs. finite_floats isfinite v"
      by blast
    with closes_element(3) show ?case by (intro exI [of _ "v # vs"] exI [of _ us] exI [of _ fs]) auto
  qed simp_all
  with that show ?thesis by blast
qed

lemma closes_objectE:
  assumes "closes isfinite (False # ss) ts es"
  obtains ms us fs where "ts = concat (map (\<lambda>m. Plain value_separator # member_tokens m) ms) @ Plain end_object # us"
    "es = concat (map member_events ms) @ Sax_end_object # fs" "closes isfinite ss us fs"
    "\<forall>(k, v) \<in> set ms. finite_floats isfinite v"
proof -
  from assms have "\<exists>ms us fs. ts = concat (map (\<lambda>m. Plain value_separator # member_tokens m) ms) @ Plain end_object # us
    \<and> es = concat (map member_events ms) @ Sax_end_object # fs \<and> closes isfinite ss us fs
    \<and> (\<forall>(k, v) \<in> set ms. finite_floats isfinite v)"
  proof (induction "False # ss" ts es rule: closes.induct)
    case (closes_object us fs)
    then show ?case by (intro exI [of _ "[]"] exI [of _ us] exI [of _ fs]) auto
  next
    case (closes_member ts es v k)
    then obtain ms us fs where "ts = concat (map (\<lambda>m. Plain value_separator # member_tokens m) ms) @ Plain end_object # us"
      "es = concat (map member_events ms) @ Sax_end_object # fs" "closes isfinite ss us fs"
      "\<forall>(k, v) \<in> set ms. finite_floats isfinite v"
      by blast
    with closes_member(3) show ?case by (intro exI [of _ "(k, v) # ms"] exI [of _ us] exI [of _ fs]) auto
  qed simp_all
  with that show ?thesis by blast
qed

lemma scans_get:
  "reads strtod (get_token strtod p) ts l' \<Longrightarrow> scans strtod (m_lexer p) ts l'"
  by (auto simp: reads_def get_token_def current_token_def split_def Let_def intro: scans_token)

lemma current_of:
  "last_token p = t \<Longrightarrow> t \<notin> {value_string, tt_integer, tt_unsigned, tt_float} \<Longrightarrow> current_token p = Plain t"
  by (simp add: current_simps)

lemma reads_one: "current_token p = t \<Longrightarrow> scans strtod (m_lexer p) ts l' \<Longrightarrow> reads strtod p (t # ts) l'"
  by (simp add: reads_Cons)

lemma key_reads:
  assumes k: "parse_key strtod first p = (Again, p')" and r: "reads strtod p' ts l'"
  obtains k where "reads strtod p (Text k # Plain name_separator # ts) l'" "events p' = events p @ [Sax_key k]"
    "states p' = (if first then False # states p else states p)"
proof -
  let ?p1 = "get_token strtod (emit (Sax_key (get_string (m_lexer p))) p)"
  from k have t: "last_token p = value_string" "last_token ?p1 = name_separator"
    and p': "p' = get_token strtod (if first then push_state False ?p1 else ?p1)"
    by (auto simp: parse_key_def syntax_error_def Let_def split: if_splits)
  have "scans strtod (m_lexer ?p1) ts l'" using scans_get [of strtod "if first then push_state False ?p1 else ?p1"] r p'
    by (cases first) simp_all
  then have "reads strtod ?p1 (Plain name_separator # ts) l'" using t(2) by (intro reads_one current_of) simp_all
  then have "scans strtod (m_lexer p) (Plain name_separator # ts) l'" using scans_get by fastforce
  then have "reads strtod p (Text (get_string (m_lexer p)) # Plain name_separator # ts) l'"
    using t(1) by (intro reads_one) (simp_all add: current_simps)
  with that p' show ?thesis by simp
qed

text \<open>What the loop has accepted from a parser on.\<close>

definition accepted :: "(u8 list \<Rightarrow> 'f) \<Rightarrow> ('f \<Rightarrow> bool) \<Rightarrow> bool \<Rightarrow> 'f parser \<Rightarrow> 'f parser \<Rightarrow> bool" where
  "accepted strtod isfinite sk p p' \<longleftrightarrow>
     (if sk then (\<exists>ts es. scans strtod (m_lexer p) ts (m_lexer p') \<and> closes isfinite (states p) ts es \<and> events p' = events p @ es)
      else (\<exists>v ts es. reads strtod p (tokens v @ ts) (m_lexer p') \<and> finite_floats isfinite v \<and> closes isfinite (states p) ts es
              \<and> events p' = events p @ sax_events v @ es))"

lemma acceptedI:
  "reads strtod p ts (m_lexer p') \<Longrightarrow> ts = tokens v @ us \<Longrightarrow> finite_floats isfinite v \<Longrightarrow> events p' = events p @ sax_events v @ es
    \<Longrightarrow> closes isfinite (states p) us es \<Longrightarrow> accepted strtod isfinite False p p'"
  unfolding accepted_def by auto

lemma evaluate_accepted:
  "evaluate strtod p = (Return True, p') \<Longrightarrow> accepted strtod isfinite True p p'"
  "evaluate strtod p = (Again, p1) \<Longrightarrow> accepted strtod isfinite False p1 p' \<Longrightarrow> accepted strtod isfinite True p p'"
  "evaluate strtod p = (Again_evaluate, p1) \<Longrightarrow> accepted strtod isfinite True p1 p' \<Longrightarrow> accepted strtod isfinite True p p'"
proof -
  let ?p = "get_token strtod p"
  assume e: "evaluate strtod p = (Return True, p')"
  then have "states p = []" "p' = p"
    by (auto simp: evaluate_def evaluate_array_def evaluate_object_def parse_key_def syntax_error_def Let_def
        split: list.splits bool.splits if_splits)
  then show "accepted strtod isfinite True p p'" by (auto simp: accepted_def intro: scans_none closes_none)
next
  let ?p = "get_token strtod p"
  assume e: "evaluate strtod p = (Again, p1)" and a: "accepted strtod isfinite False p1 p'"
  from a obtain v ts es where v: "reads strtod p1 (tokens v @ ts) (m_lexer p')" "finite_floats isfinite v"
    "closes isfinite (states p1) ts es" "events p' = events p1 @ sax_events v @ es" by (auto simp: accepted_def)
  show "accepted strtod isfinite True p p'"
  proof (cases "states p")
    case Nil
    with e show ?thesis by (simp add: evaluate_def)
  next
    case (Cons b ss)
    have sep: "last_token ?p = value_separator"
      using e Cons by (auto simp: evaluate_def evaluate_array_def evaluate_object_def syntax_error_def Let_def split: bool.splits if_splits)
    show ?thesis
    proof (cases b)
      case True
      then have p1: "p1 = get_token strtod ?p" using e Cons sep by (simp add: evaluate_def evaluate_array_def Let_def)
      have "scans strtod (m_lexer ?p) (tokens v @ ts) (m_lexer p')" using v(1) p1 scans_get by blast
      then have "reads strtod ?p (Plain value_separator # tokens v @ ts) (m_lexer p')"
        using sep by (intro reads_one current_of) simp_all
      then have "scans strtod (m_lexer p) (Plain value_separator # tokens v @ ts) (m_lexer p')" by (rule scans_get)
      moreover have "closes isfinite (states p) (Plain value_separator # tokens v @ ts) (sax_events v @ es)"
        using v(2,3) p1 Cons True by (auto intro: closes_element)
      ultimately show ?thesis using v(4) p1 unfolding accepted_def by auto
    next
      case False
      then have "parse_key strtod False (get_token strtod ?p) = (Again, p1)"
        using e Cons sep by (simp add: evaluate_def evaluate_object_def Let_def)
      from key_reads [OF this v(1)] obtain k where k:
        "reads strtod (get_token strtod ?p) (Text k # Plain name_separator # tokens v @ ts) (m_lexer p')"
        "events p1 = events p @ [Sax_key k]" "states p1 = states p" by auto
      have "scans strtod (m_lexer ?p) (Text k # Plain name_separator # tokens v @ ts) (m_lexer p')" using k(1) by (rule scans_get)
      then have "reads strtod ?p (Plain value_separator # Text k # Plain name_separator # tokens v @ ts) (m_lexer p')"
        using sep by (intro reads_one current_of) simp_all
      then have "scans strtod (m_lexer p) (Plain value_separator # Text k # Plain name_separator # tokens v @ ts) (m_lexer p')"
        by (rule scans_get)
      moreover have "closes isfinite (states p) (Plain value_separator # member_tokens (k, v) @ ts) (member_events (k, v) @ es)"
        using v(2,3) k(3) Cons False closes_member [of isfinite ss ts es v k] by simp
      ultimately show ?thesis using v(4) k(2) unfolding accepted_def by auto
    qed
  qed
next
  let ?p = "get_token strtod p"
  assume e: "evaluate strtod p = (Again_evaluate, p1)" and a: "accepted strtod isfinite True p1 p'"
  from a obtain ts es where v: "scans strtod (m_lexer p1) ts (m_lexer p')" "closes isfinite (states p1) ts es"
    "events p' = events p1 @ es" by (auto simp: accepted_def)
  show "accepted strtod isfinite True p p'"
  proof (cases "states p")
    case Nil
    with e show ?thesis by (simp add: evaluate_def)
  next
    case (Cons b ss)
    obtain t ev where t: "(b \<and> t = end_array \<and> ev = Sax_end_array) \<or> (\<not> b \<and> t = end_object \<and> ev = Sax_end_object)"
      "last_token ?p = t" "p1 = pop_state (emit ev ?p)"
      using e Cons
      by (auto simp: evaluate_def evaluate_array_def evaluate_object_def parse_key_def syntax_error_def Let_def
          split: bool.splits if_splits)
    then have "reads strtod ?p (Plain t # ts) (m_lexer p')" using v(1) by (intro reads_one current_of) auto
    then have "scans strtod (m_lexer p) (Plain t # ts) (m_lexer p')" by (rule scans_get)
    moreover have "closes isfinite (states p) (Plain t # ts) (ev # es)"
      using v(2) t Cons by (auto intro: closes_array closes_object)
    ultimately show ?thesis using v(3) t(3) unfolding accepted_def by auto
  qed
qed

lemma separated_elements:
  "separated (map tokens (v # vs)) = tokens v @ concat (map (\<lambda>v. Plain value_separator # tokens v) vs)"
proof (induction vs arbitrary: v)
  case (Cons n ns)
  then show ?case using separated_Cons [of "map tokens (n # ns)" "tokens v"] by simp
qed simp

lemma reads_leaf:
  assumes "current_token p = t" and "tokens v = [t]" and "scans strtod (m_lexer p) ts l'"
  shows "reads strtod p (tokens v @ ts) l'"
  using assms by (simp add: reads_Cons)

lemma value_accepted_leaf:
  assumes p: "parse_value strtod isfinite p = (Evaluate, p1)" and a: "accepted strtod isfinite True p1 p'"
    and l: "last_token p \<notin> {begin_object, begin_array}"
  shows "accepted strtod isfinite False p p'"
proof -
  have "\<exists>v e. current_token p = hd (tokens v) \<and> tokens v = [hd (tokens v)] \<and> sax_events v = [e]
    \<and> p1 = emit e p \<and> finite_floats isfinite v"
  proof (cases "last_token p")
    case literal_true
    then show ?thesis using p by (intro exI [of _ "S_boolean True"]) (auto simp: parse_value_def current_simps)
  next
    case literal_false
    then show ?thesis using p by (intro exI [of _ "S_boolean False"]) (auto simp: parse_value_def current_simps)
  next
    case literal_null
    then show ?thesis using p by (intro exI [of _ "S_null"]) (auto simp: parse_value_def current_simps)
  next
    case value_string
    then show ?thesis using p
      by (intro exI [of _ "S_string (get_string (m_lexer p))"]) (auto simp: parse_value_def current_simps)
  next
    case tt_unsigned
    then show ?thesis using p
      by (intro exI [of _ "S_unsigned (value_unsigned (m_lexer p))"]) (auto simp: parse_value_def current_simps)
  next
    case tt_integer
    then show ?thesis using p
      by (intro exI [of _ "S_integer (value_integer (m_lexer p))"]) (auto simp: parse_value_def current_simps)
  next
    case tt_float
    then show ?thesis using p
      by (intro exI [of _ "S_float (value_float (m_lexer p)) (get_string (m_lexer p))"])
        (auto simp: parse_value_def parse_float_def current_simps Let_def split: if_splits)
  qed (use p l in \<open>auto simp: parse_value_def parse_end_of_input_def syntax_error_def split: if_splits\<close>)
  then obtain v e where v: "current_token p = hd (tokens v)" "tokens v = [hd (tokens v)]" "sax_events v = [e]"
    "p1 = emit e p" "finite_floats isfinite v" by blast
  from a obtain ts es where ts: "scans strtod (m_lexer p1) ts (m_lexer p')" "closes isfinite (states p1) ts es"
    "events p' = events p1 @ es" by (auto simp: accepted_def)
  then have "reads strtod p (tokens v @ ts) (m_lexer p')" using v by (intro reads_leaf [OF v(1,2)]) simp
  with ts v show ?thesis by (intro acceptedI [where v = v and us = ts and es = es]) auto
qed

lemma value_accepted_empty:
  assumes p: "parse_value strtod isfinite p = (Evaluate, p1)" and a: "accepted strtod isfinite True p1 p'"
    and l: "last_token p \<in> {begin_object, begin_array}"
  shows "accepted strtod isfinite False p p'"
proof -
  obtain v t u e f where v: "tokens v = [Plain t, Plain u]" "sax_events v = [e, f]" "finite_floats isfinite v"
    "t = last_token p" "u = last_token (get_token strtod (emit e p))" "p1 = emit f (get_token strtod (emit e p))"
    "u \<in> {end_array, end_object}"
  proof (cases "last_token p = begin_object")
    case True
    then show ?thesis using p parse_key_result [of strtod True "get_token strtod (emit Sax_start_object p)"]
      by (intro that [of "S_object []"]) (auto simp: parse_value_def parse_object_def Let_def split: if_splits)
  next
    case False
    then show ?thesis using p l
      by (intro that [of "S_array []"]) (auto simp: parse_value_def parse_array_def Let_def split: if_splits)
  qed
  let ?p = "get_token strtod (emit e p)"
  from a obtain ts es where ts: "scans strtod (m_lexer p1) ts (m_lexer p')" "closes isfinite (states p1) ts es"
    "events p' = events p1 @ es" by (auto simp: accepted_def)
  have "reads strtod ?p (Plain u # ts) (m_lexer p')" using ts(1) v(5-7) by (intro reads_one current_of) auto
  then have "scans strtod (m_lexer p) (Plain u # ts) (m_lexer p')" using scans_get by fastforce
  then have "reads strtod p (tokens v @ ts) (m_lexer p')" using v(1,4) l by (auto intro!: reads_one current_of)
  with ts v(2,3,6) show ?thesis by (intro acceptedI [where v = v and us = ts and es = es]) auto
qed

lemma value_accepted_array:
  assumes p: "parse_value strtod isfinite p = (Again, p1)" and a: "accepted strtod isfinite False p1 p'"
    and l: "last_token p = begin_array"
  shows "accepted strtod isfinite False p p'"
proof -
  let ?p = "get_token strtod (emit Sax_start_array p)"
  have p1: "p1 = push_state True ?p"
    using p l by (auto simp: parse_value_def parse_array_def Let_def split: if_splits)
  from a obtain v ts es where v: "reads strtod p1 (tokens v @ ts) (m_lexer p')" "finite_floats isfinite v"
    "closes isfinite (True # states p) ts es" "events p' = events p1 @ sax_events v @ es" by (auto simp: accepted_def p1)
  from closes_arrayE [OF v(3)] obtain vs us fs where c:
    "ts = concat (map (\<lambda>v. Plain value_separator # tokens v) vs) @ Plain end_array # us"
    "es = concat (map sax_events vs) @ Sax_end_array # fs" "closes isfinite (states p) us fs"
    "\<forall>v \<in> set vs. finite_floats isfinite v" .
  have "scans strtod (m_lexer p) (tokens v @ ts) (m_lexer p')" using v(1) p1 scans_get by fastforce
  then have "reads strtod p (Plain begin_array # tokens v @ ts) (m_lexer p')" using l by (intro reads_one current_of) auto
  moreover have "Plain begin_array # tokens v @ ts = tokens (S_array (v # vs)) @ us"
    using separated_elements [of v vs] c(1) by simp
  moreover have "finite_floats isfinite (S_array (v # vs))" using v(2) c(4) by simp
  moreover have "events p' = events p @ sax_events (S_array (v # vs)) @ fs" using v(4) p1 c(2) by simp
  ultimately show ?thesis using c(3) acceptedI by metis
qed

lemma value_accepted_object:
  assumes p: "parse_value strtod isfinite p = (Again, p1)" and a: "accepted strtod isfinite False p1 p'"
    and l: "last_token p = begin_object"
  shows "accepted strtod isfinite False p p'"
proof -
  let ?p = "get_token strtod (emit Sax_start_object p)"
  have k: "parse_key strtod True ?p = (Again, p1)"
    using p l by (auto simp: parse_value_def parse_object_def Let_def split: if_splits)
  from a obtain v ts es where v: "reads strtod p1 (tokens v @ ts) (m_lexer p')" "finite_floats isfinite v"
    "closes isfinite (states p1) ts es" "events p' = events p1 @ sax_events v @ es" by (auto simp: accepted_def)
  from key_reads [OF k v(1)] obtain k where k: "reads strtod ?p (Text k # Plain name_separator # tokens v @ ts) (m_lexer p')"
    "events p1 = events ?p @ [Sax_key k]" "states p1 = False # states p" by auto
  from v(3) have "closes isfinite (False # states p) ts es" using k(3) by simp
  from closes_objectE [OF this] obtain ms us fs where c:
    "ts = concat (map (\<lambda>m. Plain value_separator # member_tokens m) ms) @ Plain end_object # us"
    "es = concat (map member_events ms) @ Sax_end_object # fs" "closes isfinite (states p) us fs"
    "\<forall>(k, v) \<in> set ms. finite_floats isfinite v" .
  have "scans strtod (m_lexer p) (Text k # Plain name_separator # tokens v @ ts) (m_lexer p')"
    using k(1) scans_get by fastforce
  then have "reads strtod p (Plain begin_object # Text k # Plain name_separator # tokens v @ ts) (m_lexer p')"
    using l by (intro reads_one current_of) auto
  moreover have "Plain begin_object # Text k # Plain name_separator # tokens v @ ts = tokens (S_object ((k, v) # ms)) @ us"
    using separated_members [of "(k, v)" ms] c(1) by simp
  moreover have "finite_floats isfinite (S_object ((k, v) # ms))" using v(2) c(4) by simp
  moreover have "events p' = events p @ sax_events (S_object ((k, v) # ms)) @ fs" using v(4) k(2) c(2) by simp
  ultimately show ?thesis using c(3) acceptedI by metis
qed

lemma loop_accepted:
  "parse_loop strtod isfinite sk p = (True, p') \<Longrightarrow> accepted strtod isfinite sk p p'"
proof (induction strtod isfinite sk p rule: parse_loop.induct)
  case (1 strtod isfinite sk p)
  obtain r p1 where r: "(if sk then (Evaluate, p) else parse_value strtod isfinite p) = (r, p1)"
    by (cases "if sk then (Evaluate, p) else parse_value strtod isfinite p")
  note loop = 1(4) [unfolded parse_loop.simps [of strtod isfinite sk p] r]
  note ih = 1(1-3) [OF r [symmetric]]
  show ?case
  proof (cases r)
    case Evaluate
    obtain s p2 where s: "evaluate strtod p1 = (s, p2)" by (cases "evaluate strtod p1")
    have a: "accepted strtod isfinite True p1 p'"
      using loop ih(1,2) [OF Evaluate s [symmetric]] s evaluate_accepted [of strtod p1] Evaluate
      by (cases s) auto
    show ?thesis using r a value_accepted_leaf [of strtod isfinite p p1 p'] value_accepted_empty [of strtod isfinite p p1 p'] Evaluate
      by (cases sk) auto
  next
    case Again
    then have a: "accepted strtod isfinite False p1 p'" "\<not> sk" using loop ih(3) r by auto
    have "last_token p \<in> {begin_array, begin_object}"
      using r a(2) Again
      by (auto simp: parse_value_def parse_float_def parse_end_of_input_def syntax_error_def Let_def split: token_type.splits if_splits)
    then show ?thesis using r a Again value_accepted_array [of strtod isfinite p p1 p'] value_accepted_object [of strtod isfinite p p1 p'] by auto
  next
    case Again_evaluate
    then show ?thesis using loop by simp
  next
    case (Return b)
    then show ?thesis using loop r
        parse_key_result [of strtod True "get_token strtod (emit Sax_start_object p)" "Return b" p1]
      by (auto simp: parse_value_def parse_object_def parse_array_def parse_float_def parse_end_of_input_def syntax_error_def Let_def
          split: token_type.splits if_splits)
  qed
qed

section \<open>The parser\<close>

text \<open>A parse that fails ends with an error, so the handler has seen one.\<close>

lemma parse_value_False: "parse_value strtod isfinite p = (Return b, p') \<Longrightarrow> \<not> b \<and> (\<exists>m q. p' = sax_error m q)"
  by (auto simp: parse_value_def parse_object_def parse_array_def parse_key_def parse_float_def parse_end_of_input_def
      syntax_error_def Let_def split: token_type.splits if_splits)

lemma evaluate_False:
  "evaluate strtod p = (Return False, p') \<Longrightarrow> \<exists>m q. p' = sax_error m q"
  "evaluate strtod p \<noteq> (Evaluate, p')"
  by (auto simp: evaluate_def evaluate_array_def evaluate_object_def parse_key_def syntax_error_def Let_def
      split: list.splits bool.splits if_splits)

lemma loop_False: "parse_loop strtod isfinite sk p = (False, p') \<Longrightarrow> \<exists>m q. p' = sax_error m q"
proof (induction strtod isfinite sk p rule: parse_loop.induct)
  case (1 strtod isfinite sk p)
  obtain r p1 where r: "(if sk then (Evaluate, p) else parse_value strtod isfinite p) = (r, p1)"
    by (cases "if sk then (Evaluate, p) else parse_value strtod isfinite p")
  note loop = 1(4) [unfolded parse_loop.simps [of strtod isfinite sk p] r]
  note ih = 1(1-3) [OF r [symmetric]]
  show ?case
  proof (cases r)
    case Evaluate
    obtain s p2 where s: "evaluate strtod p1 = (s, p2)" by (cases "evaluate strtod p1")
    then show ?thesis using loop ih(1,2) [OF Evaluate s [symmetric]] evaluate_False [of strtod p1] Evaluate
      by (cases s) auto
  next
    case Again
    then show ?thesis using loop ih(3) by auto
  next
    case Again_evaluate
    then show ?thesis using r parse_value_measure(3) [of strtod isfinite p r p1] by (auto split: if_splits)
  next
    case (Return b)
    then show ?thesis using loop r parse_value_False [of strtod isfinite p b p1] by (auto split: if_splits)
  qed
qed

lemma errored_after_error [simp]: "errored (handle_events (events (sax_error m q)) d)"
  by (simp add: sax_error_def)

text \<open>What the parser does with the token after the value.\<close>

definition finished :: "(u8 list \<Rightarrow> 'f) \<Rightarrow> bool \<Rightarrow> 'f parser \<Rightarrow> bool" where
  "finished strtod strict p \<longleftrightarrow> strict \<longrightarrow> last_token (get_token strtod p) = end_of_input"

lemma finished_scans:
  "finished strtod strict p \<longleftrightarrow> (\<exists>l'. scans strtod (m_lexer p) (if strict then [Plain end_of_input] else []) l')"
proof (cases strict)
  case True
  have "last_token (get_token strtod p) = end_of_input \<longleftrightarrow> (\<exists>l'. reads strtod (get_token strtod p) [Plain end_of_input] l')"
    by (auto simp: reads_Cons current_simps intro: scans_none)
  then show ?thesis using True reads_get [of strtod p "[Plain end_of_input]"] scans_get [of strtod p "[Plain end_of_input]"]
    by (auto simp: finished_def)
next
  case False
  then show ?thesis by (auto simp: finished_def intro: scans_none)
qed

text \<open>The parser succeeds exactly when its loop does and nothing follows; then it has made the events of a value.\<close>

lemma internal_value:
  "(\<exists>p. sax_parse_internal strtod isfinite (parser_new strtod l) = (True, p) \<and> events p = es \<and> finished strtod strict p)
    \<longleftrightarrow> (\<exists>v l'. scans strtod l (tokens v @ (if strict then [Plain end_of_input] else [])) l' \<and> finite_floats isfinite v \<and> es = sax_events v)"
  (is "?L \<longleftrightarrow> ?R")
proof
  assume ?L
  then obtain p where p: "sax_parse_internal strtod isfinite (parser_new strtod l) = (True, p)" "events p = es" "finished strtod strict p"
    by blast
  then have "accepted strtod isfinite False (parser_new strtod l) p"
    by (intro loop_accepted) (simp add: sax_parse_internal_def)
  then obtain v ts fs where v: "reads strtod (parser_new strtod l) (tokens v @ ts) (m_lexer p)" "finite_floats isfinite v"
    "closes isfinite [] ts fs" "events p = sax_events v @ fs" by (auto simp: accepted_def parser_new_def)
  then have ts: "ts = []" "fs = []" by (auto elim: closes_noneE)
  then have "scans strtod l (tokens v) (m_lexer p)"
    using v(1) scans_get [of strtod "\<lparr> m_lexer = l, last_token = uninitialized, states = [], events = [] \<rparr>"]
    by (simp add: parser_new_def)
  moreover obtain l' where "scans strtod (m_lexer p) (if strict then [Plain end_of_input] else []) l'"
    using p(3) finished_scans by blast
  ultimately have "scans strtod l (tokens v @ (if strict then [Plain end_of_input] else [])) l'"
    unfolding scans_append by blast
  with v(2,4) ts p(2) show ?R by (intro exI [of _ v] exI [of _ l']) simp
next
  assume ?R
  then obtain v m l' where m: "scans strtod l (tokens v) m" "scans strtod m (if strict then [Plain end_of_input] else []) l'"
    "finite_floats isfinite v" "es = sax_events v" by (auto simp: scans_append)
  from accepted_value [OF m(1,3)] obtain p where "sax_parse_internal strtod isfinite (parser_new strtod l) = (True, p)"
    "m_lexer p = m" "events p = sax_events v" .
  then show ?L using m(2,4) finished_scans [of strtod strict p] by auto
qed

lemma parse_json_internal:
  "parse_json strtod isfinite strict l = Some j \<longleftrightarrow>
     (\<exists>p. sax_parse_internal strtod isfinite (parser_new strtod l) = (True, p) \<and> finished strtod strict p
        \<and> \<not> errored (handle_events (events p) dom_new) \<and> j = root (handle_events (events p) dom_new))"
proof -
  obtain b p where p: "sax_parse_internal strtod isfinite (parser_new strtod l) = (b, p)"
    by (cases "sax_parse_internal strtod isfinite (parser_new strtod l)")
  have more: "errored (handle_events (events (sax_error m q)) d)" "events (sax_error m q) = events q @ [Sax_error (chars_read_total (m_lexer q)) (get_token_string (m_lexer q)) m]" for m q d
    by (simp_all add: sax_error_def)
  have b: "errored (handle_events (events p) dom_new)" if "\<not> b"
    using loop_False [of strtod isfinite False "parser_new strtod l" p] that p by (auto simp: sax_parse_internal_def)
  show ?thesis using p b by (cases strict) (auto simp: parse_json_def finished_def Let_def more(2))
qed

lemma parse_json_scans:
  "parse_json strtod isfinite strict l = Some j \<longleftrightarrow>
     (\<exists>v l'. scans strtod l (tokens v @ (if strict then [Plain end_of_input] else [])) l'
        \<and> finite_floats isfinite v \<and> j = value_of v)"
  (is "_ \<longleftrightarrow> ?R")
proof -
  have "parse_json strtod isfinite strict l = Some j \<longleftrightarrow>
     (\<exists>es. (\<exists>p. sax_parse_internal strtod isfinite (parser_new strtod l) = (True, p) \<and> events p = es \<and> finished strtod strict p)
        \<and> \<not> errored (handle_events es dom_new) \<and> j = root (handle_events es dom_new))"
    unfolding parse_json_internal by blast
  also have "\<dots> \<longleftrightarrow> ?R" unfolding internal_value by (metis handle_events_value)
  finally show ?thesis .
qed

text \<open>
  The parser accepts exactly the JSON grammar. \<open>parser::parse\<close> returns a value exactly when
  the tokens that the lexer finds in the text are those of a syntax tree whose floating point
  numbers are finite, followed by the end of the input in strict mode; and the value is the one the
  tree denotes: arrays keep their elements in order, and of the members of an object with the same
  key the last one counts. Everything else throws a parse error.
\<close>

theorem parser_accepts_grammar:
  "parse_json strtod isfinite strict l = Some j \<longleftrightarrow>
     (\<exists>v l'. scans strtod l (tokens v @ (if strict then [Plain end_of_input] else [])) l'
        \<and> finite_floats isfinite v \<and> j = value_of v)"
  by (rule parse_json_scans)

text \<open>
  \<open>accept\<close>, the parse that ignores the values, says yes exactly when a parse gives a value.
\<close>

theorem accept_iff_parses:
  "accept strtod isfinite strict l \<longleftrightarrow> parse_json strtod isfinite strict l \<noteq> None"
proof -
  have "accept strtod isfinite strict l \<longleftrightarrow>
    (\<exists>p. sax_parse_internal strtod isfinite (parser_new strtod l) = (True, p) \<and> finished strtod strict p)"
    by (cases "sax_parse_internal strtod isfinite (parser_new strtod l)")
      (auto simp: accept_def sax_parse_def finished_def Let_def)
  also have "\<dots> \<longleftrightarrow> (\<exists>j. parse_json strtod isfinite strict l = Some j)"
    unfolding parse_json_internal using internal_value [of strtod isfinite l _ strict] handle_events_value by metis
  finally show ?thesis by auto
qed

end
