(* ===== verification/Json_Text.thy ===== *)
theory Json_Text
  imports Json_Grammar Json_Numbers
begin

text \<open>
  JSON texts: what the lexer as a whole makes of the bytes. With the parser this gives the grammar of
  RFC 8259 over bytes, and the places where the library goes beyond it: a byte order mark in front, and a
  null byte that ends the text like the end of the input.
\<close>

section \<open>What scanning keeps\<close>

definition kept :: "'f lexer \<Rightarrow> 'f lexer \<Rightarrow> bool" where
  "kept s s1 \<longleftrightarrow> decimal_point_char s1 = decimal_point_char s \<and> ignore_comments s1 = ignore_comments s
     \<and> chars_read_total s \<le> chars_read_total s1"

definition same :: "'f lexer \<Rightarrow> 'f lexer \<Rightarrow> bool" where
  "same s s1 \<longleftrightarrow> kept s s1 \<and> decimal_point_position s1 = decimal_point_position s"

lemma same_refl [simp]: "same s s"
  by (simp add: same_def kept_def)

lemma same_trans: "same s t \<Longrightarrow> same t u \<Longrightarrow> same s u"
  by (simp add: same_def kept_def)

lemma kept_trans: "kept s t \<Longrightarrow> kept t u \<Longrightarrow> kept s u"
  by (simp add: kept_def)

lemma get_total: "chars_read_total (get_char s) = chars_read_total s + 1"
  by (auto simp: get_char_def Let_def split: list.splits option.splits)

lemma get_comments [simp]: "ignore_comments (get_char s) = ignore_comments s"
  by (auto simp: get_char_def Let_def split: list.splits option.splits)

lemma same_get [simp]: "same s (get_char s)"
  by (simp add: same_def kept_def get_total)

lemma same_simps [simp]: "same s (add_byte c t) = same s t" "same s (error m t) = same s t"
  by (simp_all add: same_def kept_def add_byte_def error_def)

lemma same_add_bytes [simp]: "same s (add_bytes bs t) = same s t"
  unfolding add_bytes_def by (induction bs arbitrary: t) simp_all

lemma same_get_get: "same (get_char s) t \<Longrightarrow> same s t"
  by (rule same_trans [OF same_get])

lemma same_codepoint: "same s (snd (codepoint_digits fs cp s))"
proof (induction fs arbitrary: cp s)
  case (Cons f fs)
  then show ?case by (auto simp: Let_def intro: same_get_get split: option.splits)
qed simp

lemma same_get_codepoint: "same s (snd (get_codepoint s))"
  unfolding get_codepoint_def by (rule same_codepoint)

lemma same_bytes: "same s (snd (bytes_in_range rs s))"
proof (induction rs arbitrary: s)
  case (Cons r rs)
  have "same s (snd (bytes_in_range rs (add_byte c (get_char s))))" for c
    using same_trans [OF _ Cons.IH [of "add_byte c (get_char s)"]] by simp
  then show ?case by (cases r) (auto simp: Let_def split: option.splits)
qed simp

lemma same_low: "same s (snd (scan_low_surrogate cp s))"
proof -
  have "same s (get_char (get_char s))" "same s (snd (get_codepoint (get_char (get_char s))))"
    by (rule same_get_get, simp, rule same_get_get, rule same_get_get, rule same_get_codepoint)
  then show ?thesis
    by (cases "get_codepoint (get_char (get_char s))") (auto simp: scan_low_surrogate_def Let_def split: option.splits)
qed

lemma same_unicode: "same s (snd (scan_unicode_escape s))"
  using same_get_codepoint [of s] same_trans [OF same_get_codepoint same_low, of s]
  by (cases "get_codepoint s") (auto simp: scan_unicode_escape_def split: option.splits)

lemma same_escape: "same s (snd (scan_escape s))"
  using same_get_get [OF same_unicode, of s] by (auto simp: scan_escape_def Let_def split: option.splits)

lemma same_string_char: "same s (snd (scan_string_char s))"
proof -
  have "same s (snd (next_byte_in_range rs c s))" for rs c
    using same_bytes [of "add_byte c s" rs] by (simp add: next_byte_in_range_def same_def kept_def add_byte_def)
  then show ?thesis using same_escape [of s] by (auto simp: scan_string_char_def split_def split: option.splits)
qed

lemma same_string_loop: "same s (snd (scan_string_loop s))"
proof (induction s rule: scan_string_loop.induct)
  case (1 s)
  have c: "same s (snd (scan_string_char (get_char s)))" by (rule same_get_get, rule same_string_char)
  then show ?case using 1 same_trans
    by (subst scan_string_loop.simps) (cases "scan_string_char (get_char s)"; fastforce split: option.splits)
qed

lemma kept_reset [simp]: "kept (reset_token s) t = kept s t"
  by (simp add: kept_def reset_token_def)

lemma kept_string: "kept s (snd (scan_string s))"
  using same_string_loop [of "reset_token s"] by (simp add: scan_string_def same_def)

lemma string_position: "decimal_point_position (snd (scan_string s)) = None"
  using same_string_loop [of "reset_token s"] by (simp add: scan_string_def same_def reset_token_def)

lemma same_literal: "same s (snd (literal_rest cs s))"
proof (induction cs arbitrary: s)
  case (Cons c cs)
  then show ?case by (auto simp: Let_def intro: same_get_get)
qed simp

lemma kept_literal: "kept s (snd (scan_literal t ty s))"
  using same_literal [of s "map of_char (tl t)"] by (simp add: scan_literal_def split_def same_def)

text \<open>Numbers put one character back, after having read one.\<close>

lemma kept_step: "st \<noteq> Number_done \<Longrightarrow> st \<noteq> Number_error \<Longrightarrow> kept (get_char s) (snd (number_step st s))"
  by (cases st) (auto simp: number_defs kept_def add_byte_def add_decimal_point_def error_def Let_def split: option.splits)

lemma kept_number_loop:
  "st \<noteq> Number_done \<Longrightarrow> st \<noteq> Number_error \<Longrightarrow> kept (get_char s) (snd (snd (number_loop st ty s)))"
proof (induction st ty s rule: number_loop.induct)
  case (1 st ty s)
  obtain st1 s1 where s: "number_step st s = (st1, s1)" by (cases "number_step st s")
  with kept_step [OF 1(2,3), of s] have k: "kept (get_char s) s1" by simp
  show ?case
  proof (cases "st1 = Number_done \<or> st1 = Number_error")
    case True
    then show ?thesis using 1(2,3) s k by (subst number_loop.simps) auto
  next
    case False
    then have "kept (get_char s1) (snd (snd (number_loop st1 (type_at st ty) s1)))" using 1 s by auto
    moreover have "kept s1 (get_char s1)" using same_get same_def by blast
    ultimately have "kept (get_char s) (snd (snd (number_loop st1 (type_at st ty) s1)))" using k kept_trans by blast
    then show ?thesis using 1(2,3) s False by (subst number_loop.simps) auto
  qed
qed

lemma kept_unget: "kept (get_char s) t \<Longrightarrow> kept s (unget_char t)"
  by (auto simp: kept_def get_total unget_char_def Let_def)

lemma kept_finish: "kept s (unget_char t) \<Longrightarrow> kept s (snd (number_finish strtod ty t))"
  by (auto simp: number_finish_def kept_def Let_def split: option.splits)

lemma kept_number: "kept s (snd (scan_number strtod s))"
proof -
  have *: "kept s (snd (case number_loop st tt_unsigned t of (st1, ty, s3) \<Rightarrow>
      if st1 = Number_done then number_finish strtod ty s3 else (parse_error, s3)))"
    if "kept s t" "st \<noteq> Number_done" "st \<noteq> Number_error" for st t
  proof -
    obtain st1 ty s3 where l: "number_loop st tt_unsigned t = (st1, ty, s3)" by (cases "number_loop st tt_unsigned t")
    have k: "kept (get_char t) s3" using kept_number_loop [OF that(2,3), of t tt_unsigned] l by simp
    then have "kept t s3" by (simp add: kept_def get_total)
    then show ?thesis using l kept_trans [OF that(1)] kept_finish [OF kept_unget [OF k]] by auto
  qed
  have k: "kept s (reset_token s)" "kept s (add_byte c (reset_token s))" for c by (simp_all add: kept_def reset_token_def add_byte_def)
  show ?thesis
    by (cases "lx_current (reset_token s)") (auto simp: scan_number_def Let_def intro!: * k)
qed

section \<open>White space and byte order mark\<close>

lemma skip_whitespace_reads:
  "upcoming s (ws @ xs) \<Longrightarrow> list_all whitespace ws \<Longrightarrow> \<not> starts whitespace xs \<Longrightarrow>
     lx_current (skip_whitespace s) = (case xs of c # _ \<Rightarrow> Some c | [] \<Rightarrow> None) \<and> upcoming (skip_whitespace s) (tl xs)
     \<and> kept (get_char s) (skip_whitespace s)"
proof (induction ws arbitrary: s)
  case Nil
  have "kept (get_char s) (get_char s)" by (simp add: kept_def)
  then show ?case using Nil get_Cons [of s] get_Nil [of s]
    by (cases xs) (auto simp: skip_whitespace.simps [of s] Let_def)
next
  case (Cons w ws)
  then have g: "lx_current (get_char s) = Some w" "upcoming (get_char s) (ws @ xs)" using get_Cons by auto
  have "kept (get_char s) (get_char (get_char s))" using same_get same_def by blast
  from kept_trans [OF this] Cons.IH [OF g(2)] g(1) Cons.prems show ?case by (auto simp: skip_whitespace.simps [of s] Let_def)
qed

lemma skip_comments_none: "lx_current s \<noteq> Some 0x2F \<Longrightarrow> skip_comments s = (True, s)"
  by (subst skip_comments.simps) simp

lemma skip_comments_off: "\<not> ignore_comments s \<Longrightarrow> skip_comments s = (True, s)"
  by (subst skip_comments.simps) simp

text \<open>Where a scan starts: behind a byte order mark at the start of the input.\<close>

definition behind_mark :: "'f lexer \<Rightarrow> u8 list \<Rightarrow> u8 list \<Rightarrow> bool" where
  "behind_mark s xs ys \<longleftrightarrow>
     (if chars_read_total s = 0 \<and> starts (\<lambda>c. c = 0xEF) xs then xs = [0xEF, 0xBB, 0xBF] @ ys else ys = xs)"

section \<open>Tokens\<close>

definition fixed_tokens :: "(token_type \<times> u8 list) list" where
  "fixed_tokens =
     [(begin_array, [0x5B]), (end_array, [0x5D]), (begin_object, [0x7B]), (end_object, [0x7D]), (name_separator, [0x3A]),
      (value_separator, [0x2C]), (literal_true, [0x74, 0x72, 0x75, 0x65]), (literal_false, [0x66, 0x61, 0x6C, 0x73, 0x65]),
      (literal_null, [0x6E, 0x75, 0x6C, 0x6C])]"

text \<open>The text of a token, with what follows: a number must not be continued.\<close>

inductive lexeme :: "(u8 list \<Rightarrow> 'f) \<Rightarrow> u8 \<Rightarrow> 'f token \<Rightarrow> u8 list \<Rightarrow> u8 list \<Rightarrow> bool" for strtod dp where
  lex_fixed: "(t, w) \<in> set fixed_tokens \<Longrightarrow> lexeme strtod dp (Plain t) w ys"
| lex_string: "list_all item_ok its \<Longrightarrow> lexeme strtod dp (Text (string_value its)) (0x22 # string_text its @ [0x22]) ys"
| lex_number: "number_ok n \<Longrightarrow> stops n ys \<Longrightarrow> lexeme strtod dp (number_token strtod dp n) (number_text n) ys"

inductive_cases lexeme_plainE: "lexeme strtod dp (Plain t) w ys"

definition end_of_text :: "u8 list \<Rightarrow> bool" where
  "end_of_text xs \<longleftrightarrow> xs = [] \<or> hd xs = 0"

lemma literal_reads: "upcoming s (cs @ ys) \<Longrightarrow> \<exists>s1. literal_rest cs s = (True, s1) \<and> upcoming s1 ys"
proof (induction cs arbitrary: s)
  case (Cons c cs)
  then have "lx_current (get_char s) = Some c" "upcoming (get_char s) (cs @ ys)" using get_Cons by auto
  with Cons.IH [of "get_char s"] show ?case by (simp add: Let_def)
qed simp

lemma literal_read: "literal_rest cs s = (True, s1) \<Longrightarrow> upcoming s xs \<Longrightarrow> \<exists>ys. xs = cs @ ys \<and> upcoming s1 ys"
proof (induction cs arbitrary: s xs)
  case (Cons c cs)
  then have c: "lx_current (get_char s) = Some c" "literal_rest cs (get_char s) = (True, s1)" by (auto simp: Let_def split: if_splits)
  obtain ys where "xs = c # ys" "upcoming (get_char s) ys" by (rule get_Some [OF Cons.prems(2) c(1)])
  with Cons.IH [OF c(2)] show ?case by auto
qed simp

lemma get_string_plain: "decimal_point_position s = None \<Longrightarrow> get_string s = token_buffer s"
  by (simp add: get_string_def)

lemma literal_codes:
  "map of_char (tl ''true'') = [0x72, 0x75, 0x65 :: u8]" "map of_char (tl ''false'') = [0x61, 0x6C, 0x73, 0x65 :: u8]"
  "map of_char (tl ''null'') = [0x75, 0x6C, 0x6C :: u8]"
  by simp_all

lemma number_text_start:
  assumes "number_ok n"
  obtains c r where "number_text n = c # r" "number_start c"
proof -
  have "n_int n \<noteq> []" "digit (hd (n_int n))" using assms by (cases "n_int n"; auto simp: number_ok_parts int_ok_def digits_def)+
  then show ?thesis by (cases "n_int n"; cases "n_minus n") (auto simp: number_text_def number_start_def intro!: that)
qed

lemma token_of_text: "token_of value_string s = Text (get_string s)"
  by (simp add: token_of_def)

lemma number_token_plain: "number_token strtod dp n \<noteq> Plain u"
  by (simp add: number_token_def float_token_def Let_def)

lemma scan_token_punct:
  "lx_current s = Some c \<Longrightarrow> (t, [c]) \<in> set fixed_tokens \<Longrightarrow> scan_token strtod s = (t, s)"
  by (auto simp: fixed_tokens_def scan_token_def)

lemma scan_token_reads:
  assumes "lexeme strtod (decimal_point_char s) tok w ys" and "lx_current s = Some (hd w)" and "upcoming s (tl w @ ys)"
  shows "\<exists>t s1. scan_token strtod s = (t, s1) \<and> t \<noteq> parse_error \<and> t \<noteq> end_of_input \<and> token_of t s1 = tok \<and> upcoming s1 ys"
  using assms
proof cases
  case (lex_fixed t)
  consider (one) c where "w = [c]" | (lit) "t = literal_true \<and> w = 0x74 # map of_char (tl ''true'')
      \<or> t = literal_false \<and> w = 0x66 # map of_char (tl ''false'') \<or> t = literal_null \<and> w = 0x6E # map of_char (tl ''null'')"
    using lex_fixed(2) unfolding literal_codes by (auto simp: fixed_tokens_def)
  then show ?thesis
  proof cases
    case one
    then show ?thesis using lex_fixed assms scan_token_punct [of s c t strtod]
      by (auto simp: fixed_tokens_def token_of_def)
  next
    case lit
    then show ?thesis using lex_fixed(1) assms literal_reads [OF assms(3)]
      by (elim disjE conjE) (auto simp: scan_token_def scan_literal_def token_of_def simp del: list.map)
  qed
next
  case (lex_string its)
  have u: "upcoming s (string_text its @ 0x22 # ys)" using assms(3) lex_string(2) by simp
  obtain s1 where s1: "scan_string s = (value_string, s1)" "upcoming s1 ys" "token_buffer s1 = string_value its"
    using string_loop_reads [of "reset_token s" its ys] u lex_string by (auto simp: scan_string_def)
  have "scan_token strtod s = scan_string s" using assms(2) lex_string(2) by (simp add: scan_token_def digit_def)
  then show ?thesis using s1 lex_string(1) string_position [of s] get_string_plain [of s1] by (simp add: token_of_text)
next
  case (lex_number n)
  obtain c r where c: "number_text n = c # r" "number_start c" by (rule number_text_start [OF lex_number(3)])
  have l: "lx_current s = Some c" "upcoming s (r @ ys)" using assms(2,3) lex_number(2) c(1) by simp_all
  have "scan_token strtod s = scan_number strtod s" using l(1) c(2)
    by (auto simp: scan_token_def number_start_def digit_def word_le_nat_alt)
  moreover have "run_number (c # r @ ys) = Some (number_text n, ys)" unfolding run_number_grammar using c(1) lex_number by auto
  ultimately obtain t s1 where t: "scan_number strtod s = (t, s1)" "t \<noteq> parse_error"
      "token_of t s1 = number_token strtod (decimal_point_char s) n" "upcoming s1 ys"
    using scan_number_run [OF l(1) c(2) l(2), of strtod] lex_number(3) by auto
  have "token_of t s1 \<noteq> Plain end_of_input" unfolding t(3) by (rule number_token_plain)
  then have "t \<noteq> end_of_input" by (auto simp: token_of_plain)
  with t \<open>scan_token strtod s = scan_number strtod s\<close> lex_number(1) show ?thesis by auto
qed

text \<open>The tokens of strings and numbers.\<close>

lemma escape_result: "scan_escape s = (Some t, s1) \<Longrightarrow> t = parse_error"
  by (auto simp: scan_escape_def scan_unicode_escape_def scan_low_surrogate_def Let_def split: option.splits prod.splits if_splits)

lemma string_char_result: "scan_string_char s = (Some t, s1) \<Longrightarrow> t = value_string \<or> t = parse_error"
  using escape_result [of s] by (auto simp: scan_string_char_def split: option.splits prod.splits if_splits)

lemma string_loop_result: "scan_string_loop s = (t, s1) \<Longrightarrow> t = value_string \<or> t = parse_error"
proof (induction s rule: scan_string_loop.induct)
  case (1 s)
  obtain r s2 where c: "scan_string_char (get_char s) = (r, s2)" by (cases "scan_string_char (get_char s)")
  show ?case
  proof (cases r)
    case None
    then show ?thesis using 1(1) [OF c [symmetric] None] 1(2) c by (simp add: scan_string_loop.simps [of s])
  next
    case (Some u)
    then show ?thesis using 1(2) c string_char_result [of "get_char s" u s2] by (simp add: scan_string_loop.simps [of s])
  qed
qed

lemma scan_string_result: "scan_string s = (t, s1) \<Longrightarrow> t = value_string \<or> t = parse_error"
  unfolding scan_string_def by (rule string_loop_result)

lemma number_result: "fst (scan_number strtod s) \<in> {parse_error, tt_unsigned, tt_integer, tt_float}"
proof -
  have f: "fst (number_finish strtod ty t) \<in> {parse_error, tt_unsigned, tt_integer, tt_float}" for ty t
    by (auto simp: number_finish_def Let_def split: option.splits)
  have "fst (case number_loop st tt_unsigned t of (st1, ty, s3) \<Rightarrow>
      if st1 = Number_done then number_finish strtod ty s3 else (parse_error, s3)) \<in> {parse_error, tt_unsigned, tt_integer, tt_float}" for st t
    using f by (auto split: prod.splits)
  then show ?thesis by (cases "lx_current (reset_token s)") (auto simp: scan_number_def Let_def)
qed

lemma scan_token_read:
  assumes t: "scan_token strtod s = (t, s1)" "t \<noteq> parse_error" "t \<noteq> end_of_input" and c: "lx_current s = Some c" "upcoming s xs"
  shows "\<exists>w ys. lexeme strtod (decimal_point_char s) (token_of t s1) w ys \<and> c # xs = w @ ys \<and> upcoming s1 ys"
proof -
  consider (one) "(t, [c]) \<in> set fixed_tokens" "s1 = s"
    | (lit) cs where "literal_rest cs s = (True, s1)" "(t, c # cs) \<in> set fixed_tokens"
    | (string) "c = 0x22" "scan_string s = (t, s1)" | (number) "number_start c" "scan_number strtod s = (t, s1)"
    using t c(1) that unfolding scan_token_def
    by (auto simp: scan_literal_def fixed_tokens_def number_start_def split: prod.splits if_splits)
  then show ?thesis
  proof cases
    case one
    then have "token_of t s1 = Plain t" by (auto simp: fixed_tokens_def token_of_def)
    then show ?thesis using one c(2) by (intro exI [of _ "[c]"] exI [of _ xs]) (auto intro: lex_fixed)
  next
    case lit
    then have "token_of t s1 = Plain t" by (auto simp: fixed_tokens_def token_of_def)
    moreover from literal_read [OF lit(1) c(2)] obtain ys where "xs = cs @ ys" "upcoming s1 ys" by blast
    ultimately show ?thesis using lit(2) by (intro exI [of _ "c # cs"] exI [of _ ys]) (auto intro: lex_fixed)
  next
    case string
    have tv: "t = value_string" using string(2) t(2) scan_string_result [of s] by auto
    have "upcoming (reset_token s) xs" using c(2) by simp
    from string_loop_read [OF _ this] obtain its ys where i: "list_all item_ok its" "xs = string_text its @ 0x22 # ys"
      "upcoming s1 ys" "token_buffer s1 = string_value its" using string(2) tv by (auto simp: scan_string_def)
    have "token_of t s1 = Text (string_value its)"
      using tv i(4) string_position [of s] string(2) get_string_plain [of s1] by (simp add: token_of_text)
    then show ?thesis using i(1,2,3) string(1)
      by - (rule exI [of _ "0x22 # string_text its @ [0x22]"], rule exI [of _ ys], auto intro: lexeme.lex_string)
  next
    case number
    then obtain w ys where w: "run_number (c # xs) = Some (w, ys)"
      using scan_number_run [OF c(1) number(1) c(2), of strtod] t(2) by (cases "run_number (c # xs)") auto
    then obtain n where n: "number_ok n" "w = number_text n" "c # xs = w @ ys" "stops n ys" unfolding run_number_grammar by blast
    then have "token_of t s1 = number_token strtod (decimal_point_char s) n" "upcoming s1 ys"
      using scan_number_run [OF c(1) number(1) c(2), of strtod] w number(2) by fastforce+
    then show ?thesis using n by (auto intro: lexeme.lex_number)
  qed
qed

lemma scan_token_end:
  assumes "lx_current s = (case xs of c # _ \<Rightarrow> Some c | [] \<Rightarrow> None)" and "upcoming s (tl xs)"
  shows "fst (scan_token strtod s) = end_of_input \<longleftrightarrow> end_of_text xs"
proof (cases xs)
  case Nil
  then show ?thesis using assms(1) by (simp add: scan_token_def end_of_text_def)
next
  case (Cons c cs)
  have l: "fst (scan_literal u ty s) \<noteq> end_of_input" if "ty \<noteq> end_of_input" for u ty
    using that by (simp add: scan_literal_def split_def)
  have st: "fst (scan_string s) \<noteq> end_of_input" using scan_string_result [of s] by (cases "scan_string s") auto
  have n: "fst (scan_number strtod s) \<noteq> end_of_input" using number_result [of strtod s] by auto
  show ?thesis using assms(1) Cons l st n by (simp add: scan_token_def end_of_text_def digit_def)
qed

section \<open>A scan\<close>

lemma skip_bom_reads:
  assumes "upcoming s xs" and "\<not> starts (\<lambda>c. c = 0xEF) xs"
  shows "fst (skip_bom s) \<and> upcoming (snd (skip_bom s)) xs \<and> kept s (snd (skip_bom s))"
proof -
  have "lx_current (get_char s) \<noteq> Some 0xEF" using assms get_Cons [of s] get_Nil [of s] by (cases xs) auto
  moreover have "kept s (unget_char (get_char s))" by (rule kept_unget) (simp add: kept_def)
  ultimately show ?thesis using unget_get_upcoming [OF assms(1)] by (simp add: skip_bom_def Let_def)
qed

lemma skip_bom_mark:
  assumes "upcoming s xs" and "starts (\<lambda>c. c = 0xEF) xs"
  shows "fst (skip_bom s) \<longleftrightarrow> (\<exists>ys. xs = [0xEF, 0xBB, 0xBF] @ ys)" "xs = [0xEF, 0xBB, 0xBF] @ ys \<Longrightarrow> upcoming (snd (skip_bom s)) ys"
    "fst (skip_bom s) \<Longrightarrow> kept s (snd (skip_bom s))"
proof -
  obtain as where as: "xs = 0xEF # as" using assms(2) by (cases xs) auto
  have a: "lx_current (get_char s) = Some 0xEF" "upcoming (get_char s) as" using assms(1) as get_Cons by auto
  have k: "kept s (get_char (get_char (get_char s)))" by (simp add: kept_def get_total)
  have "(fst (skip_bom s) \<longleftrightarrow> (\<exists>ys. xs = [0xEF, 0xBB, 0xBF] @ ys)) \<and> (xs = [0xEF, 0xBB, 0xBF] @ ys \<longrightarrow> upcoming (snd (skip_bom s)) ys)
    \<and> (fst (skip_bom s) \<longrightarrow> kept s (snd (skip_bom s)))"
  proof (cases as)
    case Nil
    then show ?thesis using a get_Nil [of "get_char s"] as by (simp add: skip_bom_def Let_def)
  next
    case (Cons b bs)
    have b: "lx_current (get_char (get_char s)) = Some b" "upcoming (get_char (get_char s)) bs" using a(2) Cons get_Cons by auto
    show ?thesis
    proof (cases bs)
      case Nil
      then show ?thesis using a b get_Nil [of "get_char (get_char s)"] as Cons k by (auto simp: skip_bom_def Let_def)
    next
      case (Cons c cs)
      have "lx_current (get_char (get_char (get_char s))) = Some c" "upcoming (get_char (get_char (get_char s))) cs"
        using b(2) Cons get_Cons by auto
      then show ?thesis using a b as Cons \<open>as = b # bs\<close> k by (auto simp: skip_bom_def Let_def)
    qed
  qed
  then show "fst (skip_bom s) \<longleftrightarrow> (\<exists>ys. xs = [0xEF, 0xBB, 0xBF] @ ys)" "xs = [0xEF, 0xBB, 0xBF] @ ys \<Longrightarrow> upcoming (snd (skip_bom s)) ys"
    "fst (skip_bom s) \<Longrightarrow> kept s (snd (skip_bom s))" by auto
qed

lemma kept_token: "kept s (snd (scan_token strtod s))"
proof -
  have r: "kept s s" "kept s (error m s)" for m by (simp_all add: kept_def error_def)
  then show ?thesis using kept_literal [of s] kept_string [of s] kept_number [of s strtod]
    by (auto simp: scan_token_def split: option.splits)
qed

text \<open>A scan without comments: the mark, the white space, and a token.\<close>

lemma scan_start:
  assumes "upcoming s xs" and "\<not> ignore_comments s" and "behind_mark s xs ys"
  obtains s1 where "scan strtod s = scan_token strtod s1" "kept s s1" "0 < chars_read_total s1"
    "lx_current s1 = (case dropWhile whitespace ys of c # _ \<Rightarrow> Some c | [] \<Rightarrow> None)"
    "upcoming s1 (tl (dropWhile whitespace ys))"
proof -
  define b where "b = (if chars_read_total s = 0 then skip_bom s else (True, s))"
  have b: "fst b \<and> upcoming (snd b) ys \<and> kept s (snd b)"
    using assms(1,3) skip_bom_reads [OF assms(1)] skip_bom_mark [OF assms(1)] unfolding b_def behind_mark_def
    by (auto simp: kept_def split: if_splits)
  let ?s = "skip_whitespace (snd b)"
  have n: "\<not> starts whitespace (dropWhile whitespace ys)" by (induction ys) auto
  have u: "upcoming (snd b) (takeWhile whitespace ys @ dropWhile whitespace ys)" using b by simp
  have "list_all whitespace (takeWhile whitespace ys)" by (auto simp: list_all_iff dest: set_takeWhileD)
  note w = skip_whitespace_reads [OF u this n]
  have k: "kept s ?s" "0 < chars_read_total ?s" using b w by (auto simp: kept_def get_total)
  then have "skip_comments ?s = (True, ?s)" using assms(2) by (intro skip_comments_off) (simp add: kept_def)
  then have "scan strtod s = scan_token strtod ?s" using b unfolding scan_def b_def [symmetric] by (cases b) simp
  with w k show ?thesis by (intro that [of ?s]) auto
qed

lemma scan_no_mark:
  assumes "upcoming s xs" and "\<nexists>ys. behind_mark s xs ys"
  shows "fst (scan strtod s) = parse_error"
proof -
  have z: "chars_read_total s = 0" "starts (\<lambda>c. c = 0xEF) xs"
    using assms(2) unfolding behind_mark_def by (metis (full_types))+
  then have "\<not> fst (skip_bom s)" using assms(2) skip_bom_mark(1) [OF assms(1)] unfolding behind_mark_def by simp
  with z(1) show ?thesis by (cases "skip_bom s") (simp add: scan_def)
qed

lemma lexeme_start:
  assumes "lexeme strtod dp tok w ys"
  obtains c r where "w = c # r" "\<not> whitespace c"
  using assms
proof cases
  case (lex_number n)
  obtain c r where c: "number_text n = c # r" "number_start c" by (rule number_text_start [OF lex_number(3)])
  then have "\<not> whitespace c" by (auto simp: number_start_def digit_def whitespace_def word_le_nat_alt)
  with c(1) lex_number(2) that show ?thesis by simp
qed (auto simp: fixed_tokens_def whitespace_def intro: that)

lemma lexeme_token: "lexeme strtod dp tok w ys \<Longrightarrow> tok \<noteq> Plain parse_error \<and> tok \<noteq> Plain end_of_input"
  by (erule lexeme.cases) (auto simp: fixed_tokens_def number_token_plain)

lemma drop_whitespace: "list_all whitespace ws \<Longrightarrow> dropWhile whitespace (ws @ xs) = dropWhile whitespace xs"
  by (simp add: list_all_iff dropWhile_append2)

lemma whitespace_split: "\<exists>ws. list_all whitespace ws \<and> xs = ws @ dropWhile whitespace xs"
  by (rule exI [of _ "takeWhile whitespace xs"]) (auto simp: list_all_iff dest: set_takeWhileD)

lemma scan_lexeme:
  assumes u: "upcoming s xs" and c: "\<not> ignore_comments s" and m: "behind_mark s xs ys"
    and w: "ys = ws @ w @ zs" "list_all whitespace ws" and l: "lexeme strtod (decimal_point_char s) tok w zs"
  shows "\<exists>t s1. scan strtod s = (t, s1) \<and> token_of t s1 = tok \<and> upcoming s1 zs \<and> kept s s1 \<and> 0 < chars_read_total s1"
proof -
  obtain s0 where s0: "scan strtod s = scan_token strtod s0" "kept s s0" "0 < chars_read_total s0"
    "lx_current s0 = (case dropWhile whitespace ys of c # _ \<Rightarrow> Some c | [] \<Rightarrow> None)"
    "upcoming s0 (tl (dropWhile whitespace ys))" by (rule scan_start [OF u c m])
  obtain d r where d: "w = d # r" "\<not> whitespace d" by (rule lexeme_start [OF l])
  then have dw: "dropWhile whitespace ys = d # r @ zs" using w by (simp add: drop_whitespace)
  have l0: "lexeme strtod (decimal_point_char s0) tok w zs" using l s0(2) by (simp add: kept_def)
  have h: "lx_current s0 = Some (hd w)" "upcoming s0 (tl w @ zs)" using s0(4,5) d(1) unfolding dw by simp_all
  obtain t s1 where t: "scan_token strtod s0 = (t, s1)" "token_of t s1 = tok" "upcoming s1 zs"
    using scan_token_reads [OF l0 h] by blast
  have "kept s0 s1" using kept_token [of s0 strtod] t(1) by simp
  then show ?thesis using t s0(1,3) kept_trans [OF s0(2)] by (auto simp: kept_def)
qed

lemma scan_lexeme_read:
  assumes u: "upcoming s xs" and c: "\<not> ignore_comments s" and t: "scan strtod s = (t, s1)" "t \<noteq> parse_error" "t \<noteq> end_of_input"
  shows "\<exists>ys ws w zs. behind_mark s xs ys \<and> ys = ws @ w @ zs \<and> list_all whitespace ws
    \<and> lexeme strtod (decimal_point_char s) (token_of t s1) w zs \<and> upcoming s1 zs \<and> kept s s1 \<and> 0 < chars_read_total s1"
proof -
  obtain ys where ys: "behind_mark s xs ys" using scan_no_mark [OF u, of strtod] t by auto
  obtain s0 where s0: "scan strtod s = scan_token strtod s0" "kept s s0" "0 < chars_read_total s0"
    "lx_current s0 = (case dropWhile whitespace ys of c # _ \<Rightarrow> Some c | [] \<Rightarrow> None)"
    "upcoming s0 (tl (dropWhile whitespace ys))" by (rule scan_start [OF u c ys])
  have t0: "scan_token strtod s0 = (t, s1)" using t(1) s0(1) by simp
  obtain d r where d: "dropWhile whitespace ys = d # r"
    using t0 t(3) s0(4) by (cases "dropWhile whitespace ys") (auto simp: scan_token_def)
  have "lx_current s0 = Some d" "upcoming s0 r" using s0(4,5) unfolding d by simp_all
  from scan_token_read [OF t0 t(2,3) this] obtain w zs where w: "lexeme strtod (decimal_point_char s0) (token_of t s1) w zs"
    "d # r = w @ zs" "upcoming s1 zs" by blast
  obtain ws where ws: "list_all whitespace ws" "ys = ws @ w @ zs" using whitespace_split [of ys] d w(2) by auto
  have "kept s0 s1" using kept_token [of s0 strtod] t0 by simp
  then have "kept s s1" "0 < chars_read_total s1" using kept_trans [OF s0(2)] s0(3) by (auto simp: kept_def)
  then show ?thesis using ys ws w s0(2) by (auto simp: kept_def)
qed

lemma scan_end:
  assumes u: "upcoming s xs" and c: "\<not> ignore_comments s"
  shows "fst (scan strtod s) = end_of_input \<longleftrightarrow> (\<exists>ys ws zs. behind_mark s xs ys \<and> ys = ws @ zs \<and> list_all whitespace ws \<and> end_of_text zs)"
    (is "?L \<longleftrightarrow> ?R")
proof (cases "\<exists>ys. behind_mark s xs ys")
  case False
  then show ?thesis using scan_no_mark [OF u, of strtod] by auto
next
  case True
  then obtain ys where ys: "behind_mark s xs ys" by blast
  then have unique: "behind_mark s xs zs \<Longrightarrow> zs = ys" for zs by (auto simp: behind_mark_def split: if_splits)
  obtain s0 where s0: "scan strtod s = scan_token strtod s0"
    "lx_current s0 = (case dropWhile whitespace ys of c # _ \<Rightarrow> Some c | [] \<Rightarrow> None)"
    "upcoming s0 (tl (dropWhile whitespace ys))" by (rule scan_start [OF u c ys])
  have L: "?L \<longleftrightarrow> end_of_text (dropWhile whitespace ys)" unfolding s0(1) by (rule scan_token_end [OF s0(2,3)])
  have "end_of_text (dropWhile whitespace ys)" if "ys = ws @ zs" "list_all whitespace ws" "end_of_text zs" for ws zs
  proof -
    have "dropWhile whitespace zs = zs" using that(3) by (cases zs) (auto simp: end_of_text_def whitespace_def)
    then show ?thesis using that drop_whitespace [OF that(2), of zs] by simp
  qed
  with L show ?thesis using ys unique whitespace_split [of ys] by metis
qed

section \<open>The grammar of texts\<close>

text \<open>The tokens of a text, with white space in front of each, and what is left.\<close>

inductive spells :: "(u8 list \<Rightarrow> 'f) \<Rightarrow> u8 \<Rightarrow> 'f token list \<Rightarrow> u8 list \<Rightarrow> u8 list \<Rightarrow> bool" for strtod dp where
  spells_none: "spells strtod dp [] xs xs"
| spells_token: "list_all whitespace ws \<Longrightarrow> lexeme strtod dp tok w ys \<Longrightarrow> spells strtod dp toks ys zs
    \<Longrightarrow> spells strtod dp (tok # toks) (ws @ w @ ys) zs"

inductive_cases spells_noneE: "spells strtod dp [] xs zs"
inductive_cases spells_tokenE: "spells strtod dp (tok # toks) xs zs"

definition proper :: "'f token \<Rightarrow> bool" where
  "proper t \<longleftrightarrow> t \<noteq> Plain parse_error \<and> t \<noteq> Plain end_of_input"

lemma spells_scans:
  assumes "spells strtod dp toks ys zs" and "dp = decimal_point_char s" and "behind_mark s xs ys" and "upcoming s xs"
    and "\<not> ignore_comments s" and "toks \<noteq> []"
  shows "\<exists>s1. scans strtod s toks s1 \<and> upcoming s1 zs \<and> 0 < chars_read_total s1 \<and> \<not> ignore_comments s1"
  using assms
proof (induction arbitrary: s xs rule: spells.induct)
  case (spells_token ws tok w ys toks zs)
  have l: "lexeme strtod (decimal_point_char s) tok w ys" using spells_token(2,5) by simp
  obtain t s1 where t: "scan strtod s = (t, s1)" "token_of t s1 = tok" "upcoming s1 ys" "kept s s1" "0 < chars_read_total s1"
    using scan_lexeme [OF spells_token(7,8,6) refl spells_token(1) l] by blast
  have k: "dp = decimal_point_char s1" "\<not> ignore_comments s1" using t(4) spells_token(5,8) by (simp_all add: kept_def)
  show ?case
  proof (cases "toks = []")
    case True
    then have "ys = zs" using spells_token(3) by (auto elim: spells_noneE)
    then show ?thesis using True t k(2) scans_token [OF t(1) scans_none] by auto
  next
    case False
    have "behind_mark s1 ys ys" using t(5) by (simp add: behind_mark_def)
    from spells_token(4) [OF k(1) this t(3) k(2) False] t(1,2) show ?thesis by (auto intro: scans_token)
  qed
qed simp

lemma scans_spells:
  assumes "scans strtod s toks s1" and "upcoming s xs" and "\<not> ignore_comments s" and "toks \<noteq> []" and "\<forall>t \<in> set toks. proper t"
  shows "\<exists>ys zs. behind_mark s xs ys \<and> spells strtod (decimal_point_char s) toks ys zs \<and> upcoming s1 zs
    \<and> 0 < chars_read_total s1 \<and> \<not> ignore_comments s1"
  using assms
proof (induction arbitrary: xs rule: scans.induct)
  case (scans_token s t s1 toks s2)
  have t: "t \<noteq> parse_error" "t \<noteq> end_of_input" using scans_token(7) by (auto simp: proper_def token_of_plain)
  from scan_lexeme_read [OF scans_token(4,5,1) t] obtain ys ws w zs where
    w: "behind_mark s xs ys" "ys = ws @ w @ zs" "list_all whitespace ws" "lexeme strtod (decimal_point_char s) (token_of t s1) w zs"
      "upcoming s1 zs" "kept s s1" "0 < chars_read_total s1" by blast
  have k: "decimal_point_char s1 = decimal_point_char s" "\<not> ignore_comments s1" using w(6) scans_token(5) by (simp_all add: kept_def)
  show ?case
  proof (cases "toks = []")
    case True
    then have "s2 = s1" using scans_token(2) by (auto elim: scans_nilE)
    with spells_token [OF w(3,4) spells_none] w k(2) True show ?thesis by blast
  next
    case False
    with scans_token(3) [OF w(5) k(2)] scans_token(7) obtain ys' zs' where
      i: "behind_mark s1 zs ys'" "spells strtod (decimal_point_char s1) toks ys' zs'" "upcoming s2 zs'" "0 < chars_read_total s2"
        "\<not> ignore_comments s2" by auto
    have "ys' = zs" using i(1) w(7) by (simp add: behind_mark_def)
    then have "spells strtod (decimal_point_char s) (token_of t s1 # toks) ys zs'"
      using spells_token [OF w(3,4)] i(2) k(1) w(2) by simp
    then show ?thesis using w(1) i by blast
  qed
qed simp

lemma tokens_proper: "\<forall>t \<in> set (tokens v). proper t"
proof (induction v)
  case (S_array vs)
  have "t \<in> set (separated tss) \<Longrightarrow> proper t \<or> (\<exists>ts \<in> set tss. t \<in> set ts)" for t and tss :: "'a token list list"
    by (induction tss rule: separated.induct) (auto simp: proper_def)
  with S_array show ?case by (fastforce simp: proper_def)
next
  case (S_object ms)
  have "t \<in> set (separated tss) \<Longrightarrow> proper t \<or> (\<exists>ts \<in> set tss. t \<in> set ts)" for t and tss :: "'a token list list"
    by (induction tss rule: separated.induct) (auto simp: proper_def)
  with S_object show ?case by (fastforce simp: proper_def)
qed (auto simp: proper_def)

text \<open>A JSON text: an optional byte order mark, the tokens of a value, white space, and the end.\<close>

definition byte_order_mark :: "u8 list" where
  "byte_order_mark = [0xEF, 0xBB, 0xBF]"

definition json_text :: "(u8 list \<Rightarrow> 'f) \<Rightarrow> u8 \<Rightarrow> 'f json_tree \<Rightarrow> u8 list \<Rightarrow> bool" where
  "json_text strtod dp v bs \<longleftrightarrow>
     (\<exists>mark xs ws zs. mark \<in> {[], byte_order_mark} \<and> bs = mark @ xs \<and> spells strtod dp (tokens v) xs (ws @ zs)
        \<and> list_all whitespace ws \<and> end_of_text zs)"

lemma spells_start:
  assumes "spells strtod dp toks xs zs" and "toks \<noteq> []"
  shows "\<not> starts (\<lambda>c. c = 0xEF) xs"
  using assms
proof cases
  case (spells_token ws tok w ys toks)
  show ?thesis
  proof (cases ws)
    case Nil
    from spells_token(4) show ?thesis
    proof cases
      case (lex_number n)
      obtain c r where "number_text n = c # r" "number_start c" by (rule number_text_start [OF lex_number(3)])
      then show ?thesis using Nil spells_token(2) lex_number(2) by (auto simp: number_start_def digit_def word_le_nat_alt)
    qed (use Nil spells_token(2) in \<open>auto simp: fixed_tokens_def\<close>)
  next
    case (Cons d ds)
    then show ?thesis using spells_token(2,3) by (auto simp: whitespace_def)
  qed
qed simp

lemma mark_new:
  assumes "spells strtod dp toks xs zs" and "toks \<noteq> []"
  shows "behind_mark (lexer_new dp z False bs) bs xs \<longleftrightarrow> bs = xs \<or> bs = byte_order_mark @ xs"
  using spells_start [OF assms] by (auto simp: behind_mark_def lexer_new_def byte_order_mark_def)

lemma scans_end:
  assumes "upcoming s xs" and "\<not> ignore_comments s" and "0 < chars_read_total s"
  shows "(\<exists>l'. scans strtod s [Plain end_of_input] l') \<longleftrightarrow> (\<exists>ws zs. xs = ws @ zs \<and> list_all whitespace ws \<and> end_of_text zs)"
proof -
  have "(\<exists>l'. scans strtod s [Plain end_of_input] l') \<longleftrightarrow> fst (scan strtod s) = end_of_input"
  proof
    assume "fst (scan strtod s) = end_of_input"
    then obtain l' where "scan strtod s = (end_of_input, l')" by (cases "scan strtod s") auto
    from scans_token [OF this scans_none] show "\<exists>l'. scans strtod s [Plain end_of_input] l'" by (auto simp: token_of_def)
  qed (auto elim!: scans_consE simp: eq_commute [of "Plain end_of_input"] token_of_plain)
  with scan_end [OF assms(1,2), of strtod] assms(3) show ?thesis by (auto simp: behind_mark_def)
qed

lemma parse_json_texts:
  "parse_json strtod isfinite True (lexer_new dp z False bs) = Some j \<longleftrightarrow>
     (\<exists>v. json_text strtod dp v bs \<and> finite_floats isfinite v \<and> j = value_of v)"
proof -
  let ?l = "lexer_new dp z False bs"
  have l: "upcoming ?l bs" "\<not> ignore_comments ?l" "decimal_point_char ?l = dp" by (rule upcoming_new) (simp_all add: lexer_new_def)
  have "(\<exists>l'. scans strtod ?l (tokens v @ [Plain end_of_input]) l') \<longleftrightarrow> json_text strtod dp v bs" for v
  proof
    assume "\<exists>l'. scans strtod ?l (tokens v @ [Plain end_of_input]) l'"
    then obtain m l' where m: "scans strtod ?l (tokens v) m" "scans strtod m [Plain end_of_input] l'" by (auto simp: scans_append)
    from scans_spells [OF m(1) l(1,2) tokens_nonempty tokens_proper] obtain ys zs where
      y: "behind_mark ?l bs ys" "spells strtod dp (tokens v) ys zs" "upcoming m zs" "0 < chars_read_total m" "\<not> ignore_comments m"
      unfolding l(3) by blast
    from scans_end [OF y(3,5,4), of strtod] m(2) obtain ws rs where "zs = ws @ rs" "list_all whitespace ws" "end_of_text rs" by blast
    with y(2) y(1) [unfolded mark_new [OF y(2) tokens_nonempty]]
    show "json_text strtod dp v bs" unfolding json_text_def by (metis append_Nil insertI1 insertI2 singletonI)
  next
    assume "json_text strtod dp v bs"
    then obtain mark xs ws zs where x: "mark \<in> {[], byte_order_mark}" "bs = mark @ xs" "spells strtod dp (tokens v) xs (ws @ zs)"
      "list_all whitespace ws" "end_of_text zs" unfolding json_text_def by blast
    have "bs = xs \<or> bs = byte_order_mark @ xs" using x(1,2) by auto
    then have "behind_mark ?l bs xs" by (simp only: mark_new [OF x(3) tokens_nonempty])
    from spells_scans [OF x(3) l(3) [symmetric] this l(1,2) tokens_nonempty] obtain m where
      m: "scans strtod ?l (tokens v) m" "upcoming m (ws @ zs)" "0 < chars_read_total m" "\<not> ignore_comments m" by blast
    from scans_end [OF m(2,4,3), of strtod] x(4,5) obtain l' where "scans strtod m [Plain end_of_input] l'" by blast
    with m(1) show "\<exists>l'. scans strtod ?l (tokens v @ [Plain end_of_input]) l'" by (auto simp: scans_append)
  qed
  then show ?thesis unfolding parse_json_scans by auto
qed

text \<open>
  C12: \<open>json::parse\<close> of a line. The lexer and the parser together return a value exactly for a JSON text in the
  sense of RFC 8259 over bytes (an optional byte order mark, the tokens of a syntax tree with white space between them,
  each token by its grammar: strings over well-formed UTF-8, numbers that the next byte does not continue; white
  space, and the end) none of whose numbers overflows a floating point number: a text with 1e999 is rejected as out of
  range. The value is the one that the tree denotes. Beyond the standard, a null byte ends the text, so that
  anything may follow it.
\<close>

theorem parse_accepts_texts:
  "parse_json strtod isfinite True (lexer_new dp z False bs) = Some j \<longleftrightarrow>
     (\<exists>v. json_text strtod dp v bs \<and> finite_floats isfinite v \<and> j = value_of v)"
  by (rule parse_json_texts)

end
