(* ===== verification/Json_Roundtrip.thy ===== *)
theory Json_Roundtrip
  imports Json_Escape Json_Integer Json_Text
begin

text \<open>
  What the serializer writes is a JSON text, and parsing it gives the value back.
\<close>

section \<open>Values\<close>

text \<open>
  The values the library makes from JSON texts, without floating point numbers: integers in 64 bits, the
  signed type for the negative ones only, strings and keys in UTF-8, keys in ascending order.
\<close>

fun json_ok :: "'f json \<Rightarrow> bool" where
  "json_ok (JInteger i) = (- (2 ^ 63) \<le> i \<and> i < 0)"
| "json_ok (JUnsigned n) = (n < 2 ^ 64)"
| "json_ok (JFloat x) = False"
| "json_ok (JText s) = valid_utf8 s"
| "json_ok (JArray vs) = (\<forall>v \<in> set vs. json_ok v)"
| "json_ok (JObject ms) = (omap_ok ms \<and> (\<forall>(k, v) \<in> set ms. valid_utf8 k \<and> json_ok v))"
| "json_ok _ = True"

fun tree_of :: "'f json \<Rightarrow> 'f json_tree" where
  "tree_of JNull_value = S_null"
| "tree_of (JBoolean b) = S_boolean b"
| "tree_of (JInteger i) = S_integer i"
| "tree_of (JUnsigned n) = S_unsigned n"
| "tree_of (JFloat x) = S_float x []"
| "tree_of (JText s) = S_string s"
| "tree_of (JArray vs) = S_array (map tree_of vs)"
| "tree_of (JObject ms) = S_object (map (\<lambda>(k, v). (k, tree_of v)) ms)"

lemma omap_put_last: "\<forall>k' \<in> fst ` set m. k' < k \<Longrightarrow> omap_put k v m = m @ [(k, v)]"
  by (induction k v m rule: omap_put.induct) auto

lemma fold_put_sorted:
  "omap_ok (acc @ ms) \<Longrightarrow> fold (\<lambda>(k, v) m. omap_put k v m) ms acc = acc @ ms"
proof (induction ms arbitrary: acc)
  case (Cons e ms)
  obtain k v where e: "e = (k, v)" by (cases e)
  have "\<forall>k' \<in> fst ` set acc. k' < k" using Cons.prems e by (auto simp: omap_ok_def sorted_wrt_append)
  then show ?case using Cons e by (simp add: omap_put_last)
qed simp

lemma value_of_tree: "json_ok v \<Longrightarrow> value_of (tree_of v) = v"
proof (induction v)
  case (JArray vs)
  then show ?case by (simp add: map_idI)
next
  case (JObject ms)
  have "map ((\<lambda>(k, v). (k, value_of v)) \<circ> (\<lambda>(k, v). (k, tree_of v))) ms = ms"
    using JObject by (intro map_idI) fastforce
  then show ?case using fold_put_sorted [of "[]" ms] JObject.prems by simp
qed simp_all

lemma finite_tree: "json_ok v \<Longrightarrow> finite_floats isfinite (tree_of v)"
  by (induction v) fastforce+

fun nesting :: "'f json \<Rightarrow> nat" where
  "nesting (JArray vs) = (if vs = [] then 0 else Suc (Max (nesting ` set vs)))"
| "nesting (JObject ms) = (if ms = [] then 0 else Suc (Max ((\<lambda>(k, v). nesting v) ` set ms)))"
| "nesting _ = 0"

section \<open>Texts\<close>

text \<open>What may follow a value: nothing that continues a number.\<close>

definition ends :: "u8 list \<Rightarrow> bool" where
  "ends ys \<longleftrightarrow> \<not> starts digit ys \<and> \<not> starts exp_letter ys \<and> \<not> starts (\<lambda>c. c = 0x2E) ys"

lemma spells_append: "spells strtod dp ts xs ys \<Longrightarrow> spells strtod dp us ys zs \<Longrightarrow> spells strtod dp (ts @ us) xs zs"
  by (induction rule: spells.induct) (auto intro: spells_token)

lemma spells_whitespace:
  assumes "spells strtod dp (t # ts) xs zs" and "list_all whitespace ws"
  shows "spells strtod dp (t # ts) (ws @ xs) zs"
  using assms(1)
proof cases
  case (spells_token us w ys)
  have "list_all whitespace (ws @ us)" using spells_token(2) assms(2) by simp
  from spells.spells_token [OF this spells_token(3,4)] show ?thesis using spells_token(1) by simp
qed

lemma spells_nonempty: "ts \<noteq> [] \<Longrightarrow> spells strtod dp ts xs zs \<Longrightarrow> list_all whitespace ws \<Longrightarrow> spells strtod dp ts (ws @ xs) zs"
  by (cases ts) (auto intro: spells_whitespace)

lemma spells_one: "lexeme strtod dp t w ys \<Longrightarrow> spells strtod dp [t] (w @ ys) ys"
  using spells_token [of "[]", OF _ _ spells_none] by simp

lemma spells_fixed: "(t, w) \<in> set fixed_tokens \<Longrightarrow> spells strtod dp [Plain t] (w @ ys) ys"
  by (rule spells_one [OF lex_fixed])

lemma fixed_members:
  "(begin_array, [0x5B]) \<in> set fixed_tokens" "(end_array, [0x5D]) \<in> set fixed_tokens" "(begin_object, [0x7B]) \<in> set fixed_tokens"
  "(end_object, [0x7D]) \<in> set fixed_tokens" "(name_separator, [0x3A]) \<in> set fixed_tokens" "(value_separator, [0x2C]) \<in> set fixed_tokens"
  "(literal_true, ascii ''true'') \<in> set fixed_tokens" "(literal_false, ascii ''false'') \<in> set fixed_tokens"
  "(literal_null, ascii ''null'') \<in> set fixed_tokens"
  by (simp_all add: fixed_tokens_def ascii_def)

lemma spells_string:
  assumes "valid_utf8 s"
  obtains w where "dump_string opt s = Dumped w" "\<And>ys. spells strtod dp [Text s] (w @ ys) ys"
proof -
  obtain cps where cps: "list_all scalar cps" "s = concat (map utf8 cps)" using assms by (auto simp: valid_utf8_def)
  let ?its = "map (escaped (ensure_ascii opt)) cps"
  have ok: "list_all item_ok ?its" using cps(1) escaped_item(1) by (auto simp: list_all_iff)
  have "string_value ?its = s" unfolding cps(2) string_value_def
    using cps(1) escaped_item(2) by (intro arg_cong [of _ _ concat]) (auto simp: list_all_iff)
  then have "lexeme strtod dp (Text s) (0x22 # string_text ?its @ [0x22]) ys" for ys using lex_string [OF ok, of strtod dp ys] by simp
  from spells_one [OF this] have "spells strtod dp [Text s] ((0x22 # string_text ?its @ [0x22]) @ ys) ys" for ys .
  moreover have "dump_string opt s = Dumped (0x22 # string_text ?its @ [0x22])"
    unfolding dump_string_def cps(2) dump_escaped_codepoints [OF cps(1)] by simp
  ultimately show ?thesis using that by blast
qed

lemma spells_integer:
  assumes "- (2 ^ 63) \<le> x" "x < 2 ^ 64" "ends ys"
  shows "spells strtod dp [if x < 0 then Integer x else Unsigned (nat x)] (dump_integer x @ ys) ys"
proof -
  have s: "stops (integer_number x) ys" using assms(3) by (simp add: stops_def ends_def integer_number_def)
  have t: "number_token strtod dp (integer_number x) = (if x < 0 then Integer x else Unsigned (nat x))"
    using assms(1,2) integer_token [of x strtod dp] by simp
  have d: "dump_integer x = number_text (integer_number x)" using assms(1,2) by (intro dump_integer_text) simp
  show ?thesis unfolding d t [symmetric] by (rule spells_one [OF lex_number [OF integer_number_ok s]])
qed

section \<open>Serialized values\<close>

text \<open>\<open>dump\<close> writes the tokens of the value and leaves the indentation string as it is.\<close>

definition writes :: "(u8 list \<Rightarrow> 'f) \<Rightarrow> u8 \<Rightarrow> 'f token list \<Rightarrow> u8 list \<Rightarrow> (u8 list \<times> u8 list) dumped \<Rightarrow> bool" where
  "writes strtod dp ts ind r \<longleftrightarrow> (\<exists>bs. r = Dumped (bs, ind) \<and> (\<forall>ys. ends ys \<longrightarrow> spells strtod dp ts (bs @ ys) ys))"

lemma writesE:
  assumes "writes strtod dp ts ind r"
  obtains bs where "r = Dumped (bs, ind)" "\<And>ys. ends ys \<Longrightarrow> spells strtod dp ts (bs @ ys) ys"
  using assms unfolding writes_def by blast

lemma writesI: "r = Dumped (bs, ind) \<Longrightarrow> (\<And>ys. ends ys \<Longrightarrow> spells strtod dp ts (bs @ ys) ys) \<Longrightarrow> writes strtod dp ts ind r"
  unfolding writes_def by blast

text \<open>The indentation string is long enough and white space.\<close>

definition indents :: "'f dump_options \<Rightarrow> nat \<Rightarrow> u8 list \<Rightarrow> bool" where
  "indents opt n ind \<longleftrightarrow> (pretty_print opt \<longrightarrow> list_all whitespace ind \<and> length ind = 512 \<and> n \<le> 512)"

lemma indentation_ok:
  "length ind = 512 \<Longrightarrow> n \<le> 512 \<Longrightarrow> list_all whitespace ind \<Longrightarrow> indentation n ind = Dumped (take n ind) \<and> list_all whitespace (take n ind)"
  by (auto simp: indentation_def list_all_iff dest: in_set_takeD)

lemma ends_simps [simp]: "ends (0x2C # ys)" "ends (0x5D # ys)" "ends (0x7D # ys)" "ends (0x0A # ys)" "ends []"
  by (simp_all add: ends_def exp_letter_def digit_def)

lemma inner_le: "indents opt (cur + indent_step opt) ind \<Longrightarrow> pretty_print opt \<Longrightarrow> new_indent opt cur = cur + indent_step opt \<and> new_indent opt cur \<le> 512"
  by (auto simp: indents_def new_indent_def)

lemma opens:
  assumes "indents opt (cur + indent_step opt) ind"
  obtains ws where "open_container opt b cur ind = Dumped ([b] @ ws, ind)" "list_all whitespace ws"
proof (cases "pretty_print opt")
  case True
  from inner_le [OF assms True] assms True indentation_ok [of ind "new_indent opt cur"]
  show ?thesis by (intro that [of "0x0A # take (new_indent opt cur) ind"])
      (auto simp: open_container_def grow_indent_def indents_def whitespace_def Let_def)
next
  case False
  then show ?thesis by (intro that [of "[]"]) (simp_all add: open_container_def)
qed

lemma nexts:
  assumes "indents opt (cur + indent_step opt) ind"
  obtains ws where "next_element opt cur ind = Dumped ([0x2C] @ ws)" "list_all whitespace ws"
proof (cases "pretty_print opt")
  case True
  from inner_le [OF assms True] assms True indentation_ok [of ind "new_indent opt cur"]
  show ?thesis by (intro that [of "0x0A # take (new_indent opt cur) ind"])
      (auto simp: next_element_def indents_def whitespace_def)
next
  case False
  then show ?thesis by (intro that [of "[]"]) (simp_all add: next_element_def)
qed

lemma closes_text:
  assumes "indents opt (cur + indent_step opt) ind"
  obtains ws where "close_container opt b cur ind = Dumped (ws @ [b])" "list_all whitespace ws" "ws = [] \<or> hd ws = 0x0A"
proof (cases "pretty_print opt")
  case True
  with assms indentation_ok [of ind cur]
  show ?thesis by (intro that [of "0x0A # take cur ind"])
      (auto simp: close_container_def indents_def whitespace_def)
next
  case False
  then show ?thesis by (intro that [of "[]"]) (simp_all add: close_container_def)
qed

lemma ends_ws: "ws = [] \<or> hd ws = 0x0A \<Longrightarrow> b \<in> {0x5D, 0x7D} \<Longrightarrow> ends (ws @ b # ys)"
  by (cases ws) auto

lemma elements_write:
  assumes "vs \<noteq> []" and "\<forall>v \<in> set vs. writes strtod dp (tokens (tree_of v)) ind (dump opt (inner_indent opt cur) v ind)"
    and "indents opt (cur + indent_step opt) ind"
  shows "writes strtod dp (separated (map tokens (map tree_of vs))) ind (dump_elements opt cur vs ind)"
  using assms
proof (induction vs)
  case (Cons v vs)
  from Cons.prems(2) have "writes strtod dp (tokens (tree_of v)) ind (dump opt (inner_indent opt cur) v ind)" by simp
  then obtain a where a: "dump opt (inner_indent opt cur) v ind = Dumped (a, ind)"
    "\<And>ys. ends ys \<Longrightarrow> spells strtod dp (tokens (tree_of v)) (a @ ys) ys" by (rule writesE) blast
  show ?case
  proof (cases "vs = []")
    case True
    then show ?thesis using a by (intro writesI [of _ a]) simp_all
  next
    case False
    with Cons have "writes strtod dp (separated (map tokens (map tree_of vs))) ind (dump_elements opt cur vs ind)" by simp
    then obtain c where c: "dump_elements opt cur vs ind = Dumped (c, ind)"
      "\<And>ys. ends ys \<Longrightarrow> spells strtod dp (separated (map tokens (map tree_of vs))) (c @ ys) ys" by (rule writesE) blast
    obtain ws where ws: "next_element opt cur ind = Dumped ([0x2C] @ ws)" "list_all whitespace ws" by (rule nexts [OF Cons.prems(3)])
    show ?thesis
    proof (rule writesI [of _ "a @ ([0x2C] @ ws) @ c"])
      show "dump_elements opt cur (v # vs) ind = Dumped (a @ ([0x2C] @ ws) @ c, ind)" using a(1) ws(1) c(1) False by simp
      fix ys :: "u8 list" assume ys: "ends ys"
      have ne: "separated (map tokens (map tree_of vs)) \<noteq> []" using False by (cases vs; cases "tl vs") auto
      have "spells strtod dp (separated (map tokens (map tree_of vs))) (ws @ c @ ys) ys"
        by (rule spells_nonempty [OF ne c(2) [OF ys] ws(2)])
      then have "spells strtod dp ([Plain value_separator] @ separated (map tokens (map tree_of vs))) ([0x2C] @ ws @ c @ ys) ys"
        by (rule spells_append [OF spells_fixed [OF fixed_members(6)]])
      then have "spells strtod dp (tokens (tree_of v) @ [Plain value_separator] @ separated (map tokens (map tree_of vs)))
          (a @ [0x2C] @ ws @ c @ ys) ys"
        using spells_append [OF a(2)] by simp
      then show "spells strtod dp (separated (map tokens (map tree_of (v # vs)))) ((a @ ([0x2C] @ ws) @ c) @ ys) ys"
        using separated_Cons [of "map tokens (map tree_of vs)" "tokens (tree_of v)"] False by simp
    qed
  qed
qed simp

abbreviation tree_members :: "(u8 list \<times> 'f json) list \<Rightarrow> (u8 list \<times> 'f json_tree) list" where
  "tree_members \<equiv> map (\<lambda>(k, v). (k, tree_of v))"

lemma member_write:
  assumes "valid_utf8 k" and "writes strtod dp (tokens (tree_of v)) ind r"
  obtains key a where "dump_string opt k = Dumped key" "r = Dumped (a, ind)"
    "\<And>ys. ends ys \<Longrightarrow> spells strtod dp (member_tokens (k, tree_of v)) (key @ key_separator opt @ a @ ys) ys"
proof -
  obtain a where a: "r = Dumped (a, ind)" "\<And>ys. ends ys \<Longrightarrow> spells strtod dp (tokens (tree_of v)) (a @ ys) ys"
    using assms(2) by (rule writesE) blast
  obtain key where key: "dump_string opt k = Dumped key" "\<And>ys. spells strtod dp [Text k] (key @ ys) ys"
    by (rule spells_string [OF assms(1)]) blast
  obtain ws where ws: "key_separator opt = [0x3A] @ ws" "list_all whitespace ws"
    by (cases "pretty_print opt") (auto simp: key_separator_def whitespace_def)
  have "spells strtod dp (member_tokens (k, tree_of v)) (key @ key_separator opt @ a @ ys) ys" if ys: "ends ys" for ys
  proof -
    have "spells strtod dp (tokens (tree_of v)) (ws @ a @ ys) ys" by (rule spells_nonempty [OF tokens_nonempty a(2) [OF ys] ws(2)])
    then have "spells strtod dp ([Plain name_separator] @ tokens (tree_of v)) ([0x3A] @ ws @ a @ ys) ys"
      by (rule spells_append [OF spells_fixed [OF fixed_members(5)]])
    from spells_append [OF key(2) this] show ?thesis unfolding ws(1) by simp
  qed
  with key(1) a(1) that show ?thesis by blast
qed

lemma members_write:
  assumes "ms \<noteq> []" and "\<forall>(k, v) \<in> set ms. valid_utf8 k \<and> writes strtod dp (tokens (tree_of v)) ind (dump opt (inner_indent opt cur) v ind)"
    and "indents opt (cur + indent_step opt) ind"
  shows "writes strtod dp (separated (map member_tokens (tree_members ms))) ind (dump_members opt cur ms ind)"
  using assms
proof (induction ms)
  case (Cons m ms)
  obtain k v where m: "m = (k, v)" by (cases m)
  have "valid_utf8 k" "writes strtod dp (tokens (tree_of v)) ind (dump opt (inner_indent opt cur) v ind)" using Cons.prems(2) m by auto
  from member_write [OF this, of opt] obtain key a where a: "dump_string opt k = Dumped key"
    "dump opt (inner_indent opt cur) v ind = Dumped (a, ind)"
    "\<And>ys. ends ys \<Longrightarrow> spells strtod dp (member_tokens (k, tree_of v)) (key @ key_separator opt @ a @ ys) ys" by blast
  show ?case
  proof (cases "ms = []")
    case True
    then show ?thesis using a m by (intro writesI [of _ "key @ key_separator opt @ a"]) simp_all
  next
    case False
    with Cons have "writes strtod dp (separated (map member_tokens (tree_members ms))) ind (dump_members opt cur ms ind)" by auto
    then obtain c where c: "dump_members opt cur ms ind = Dumped (c, ind)"
      "\<And>ys. ends ys \<Longrightarrow> spells strtod dp (separated (map member_tokens (tree_members ms))) (c @ ys) ys" by (rule writesE) blast
    obtain ws where ws: "next_element opt cur ind = Dumped ([0x2C] @ ws)" "list_all whitespace ws" by (rule nexts [OF Cons.prems(3)])
    show ?thesis
    proof (rule writesI [of _ "(key @ key_separator opt @ a) @ ([0x2C] @ ws) @ c"])
      show "dump_members opt cur (m # ms) ind = Dumped ((key @ key_separator opt @ a) @ ([0x2C] @ ws) @ c, ind)"
        using a(1,2) ws(1) c(1) False m by simp
      fix ys :: "u8 list" assume ys: "ends ys"
      have ne: "separated (map member_tokens (tree_members ms)) \<noteq> []" using False by (cases ms; cases "tl ms") auto
      have "spells strtod dp (separated (map member_tokens (tree_members ms))) (ws @ c @ ys) ys"
        by (rule spells_nonempty [OF ne c(2) [OF ys] ws(2)])
      then have "spells strtod dp ([Plain value_separator] @ separated (map member_tokens (tree_members ms))) ([0x2C] @ ws @ c @ ys) ys"
        by (rule spells_append [OF spells_fixed [OF fixed_members(6)]])
      then have "spells strtod dp (member_tokens (k, tree_of v) @ [Plain value_separator] @ separated (map member_tokens (tree_members ms)))
          ((key @ key_separator opt @ a) @ [0x2C] @ ws @ c @ ys) ys"
        using spells_append [OF a(3)] by simp
      then show "spells strtod dp (separated (map member_tokens (tree_members (m # ms)))) (((key @ key_separator opt @ a) @ ([0x2C] @ ws) @ c) @ ys) ys"
        using separated_Cons [of "map member_tokens (tree_members ms)" "member_tokens (k, tree_of v)"] False m by simp
    qed
  qed
qed simp

text \<open>The brackets around the elements.\<close>

lemma container_write:
  assumes "writes strtod dp ts ind (r ind)" and "ts \<noteq> []" and "indents opt (cur + indent_step opt) ind"
    and "(t, [b]) \<in> set fixed_tokens" "(u, [d]) \<in> set fixed_tokens" "d \<in> {0x5D, 0x7D}"
  shows "writes strtod dp (Plain t # ts @ [Plain u]) ind
    (and_then (open_container opt b cur ind) (\<lambda>(a, ind1). and_then (r ind1) (\<lambda>(b, ind2).
       and_then (close_container opt d cur ind2) (\<lambda>c. Dumped (a @ b @ c, ind2)))))"
proof -
  obtain es where es: "r ind = Dumped (es, ind)" "\<And>ys. ends ys \<Longrightarrow> spells strtod dp ts (es @ ys) ys"
    using assms(1) by (rule writesE) blast
  obtain ws where ws: "open_container opt b cur ind = Dumped ([b] @ ws, ind)" "list_all whitespace ws" by (rule opens [OF assms(3)])
  obtain vs where vs: "close_container opt d cur ind = Dumped (vs @ [d])" "list_all whitespace vs" "vs = [] \<or> hd vs = 0x0A"
    by (rule closes_text [OF assms(3)])
  show ?thesis
  proof (rule writesI [of _ "([b] @ ws) @ es @ (vs @ [d])"])
    show "and_then (open_container opt b cur ind) (\<lambda>(a, ind1). and_then (r ind1) (\<lambda>(b, ind2).
       and_then (close_container opt d cur ind2) (\<lambda>c. Dumped (a @ b @ c, ind2)))) = Dumped (([b] @ ws) @ es @ (vs @ [d]), ind)"
      using es(1) ws(1) vs(1) by simp
    fix ys :: "u8 list"
    have "spells strtod dp [Plain u] (vs @ [d] @ ys) ys" using spells_whitespace [OF spells_fixed [OF assms(5)] vs(2)] by simp
    from spells_append [OF es(2) [OF ends_ws [OF vs(3) assms(6)]]] this
    have "spells strtod dp (ts @ [Plain u]) (es @ vs @ [d] @ ys) ys" by simp
    then have "spells strtod dp (ts @ [Plain u]) (ws @ es @ vs @ [d] @ ys) ys" by (rule spells_nonempty [OF _ _ ws(2), rotated]) simp
    from spells_append [OF spells_fixed [OF assms(4)] this]
    show "spells strtod dp (Plain t # ts @ [Plain u]) ((([b] @ ws) @ es @ (vs @ [d])) @ ys) ys" by simp
  qed
qed

lemma empty_write:
  assumes "(t, [b]) \<in> set fixed_tokens" "(u, [d]) \<in> set fixed_tokens"
  shows "writes strtod dp [Plain t, Plain u] ind (Dumped ([b, d], ind))"
  by (rule writesI [OF refl]) (use spells_append [OF spells_fixed [OF assms(1)] spells_fixed [OF assms(2)]] in simp)

lemma fixed_write: "(t, w) \<in> set fixed_tokens \<Longrightarrow> writes strtod dp [Plain t] ind (Dumped (w, ind))"
  by (rule writesI [OF refl]) (rule spells_fixed)

lemma inner_indents:
  assumes "indents opt (cur + Suc n * indent_step opt) ind" and "m \<le> n"
  shows "indents opt (cur + indent_step opt) ind" "indents opt (inner_indent opt cur + m * indent_step opt) ind"
proof -
  have "m * indent_step opt \<le> n * indent_step opt" using assms(2) by (rule mult_le_mono1)
  then have "cur + Suc n * indent_step opt \<le> 512 \<Longrightarrow> cur + indent_step opt + m * indent_step opt \<le> 512"
    using mult_Suc [of n "indent_step opt"] by linarith
  with assms(1) show "indents opt (cur + indent_step opt) ind" "indents opt (inner_indent opt cur + m * indent_step opt) ind"
    by (auto simp: indents_def inner_indent_def new_indent_def)
qed

lemma dump_writes:
  "json_ok v \<Longrightarrow> indents opt (cur + nesting v * indent_step opt) ind \<Longrightarrow> writes strtod dp (tokens (tree_of v)) ind (dump opt cur v ind)"
proof (induction v arbitrary: cur)
  case (JText s)
  then obtain w where "dump_string opt s = Dumped w" "\<And>ys. spells strtod dp [Text s] (w @ ys) ys"
    by (auto elim: spells_string [of s opt strtod dp])
  then show ?case by (intro writesI [of _ w]) simp_all
next
  case (JInteger i)
  then show ?case using spells_integer [of i] by (intro writesI [of _ "dump_integer i"]) auto
next
  case (JUnsigned n)
  then have "int n < 2 ^ 64" by (simp only: json_ok.simps) (metis of_nat_less_iff of_nat_numeral of_nat_power)
  then show ?case using spells_integer [of "int n"] by (intro writesI [of _ "dump_integer (int n)"]) auto
next
  case (JArray vs)
  show ?case
  proof (cases "vs = []")
    case True
    then show ?thesis using empty_write [OF fixed_members(1,2)] by (simp add: ascii_def)
  next
    case False
    let ?n = "Max (nesting ` set vs)"
    have le: "v \<in> set vs \<Longrightarrow> nesting v \<le> ?n" for v by simp
    have i: "indents opt (cur + Suc ?n * indent_step opt) ind" using JArray.prems(2) False by simp
    have "\<forall>v \<in> set vs. writes strtod dp (tokens (tree_of v)) ind (dump opt (inner_indent opt cur) v ind)"
      using JArray.IH JArray.prems(1) inner_indents(2) [OF i le] by auto
    from elements_write [OF False this inner_indents(1) [OF i order_refl]]
    have "writes strtod dp (separated (map tokens (map tree_of vs))) ind (dump_elements opt cur vs ind)" .
    moreover have "separated (map tokens (map tree_of vs)) \<noteq> []" using False by (cases vs; cases "tl vs") auto
    ultimately show ?thesis
      using container_write [of strtod dp _ ind "dump_elements opt cur vs", OF _ _ inner_indents(1) [OF i order_refl] fixed_members(1,2)] False by simp
  qed
next
  case (JObject ms)
  show ?case
  proof (cases "ms = []")
    case True
    then show ?thesis using empty_write [OF fixed_members(3,4)] by (simp add: ascii_def)
  next
    case False
    let ?n = "Max ((\<lambda>(k, v). nesting v) ` set ms)"
    have le: "(k, v) \<in> set ms \<Longrightarrow> nesting v \<le> ?n" for k v by (intro Max_ge) force+
    have i: "indents opt (cur + Suc ?n * indent_step opt) ind" using JObject.prems(2) False by simp
    have "\<forall>(k, v) \<in> set ms. valid_utf8 k \<and> writes strtod dp (tokens (tree_of v)) ind (dump opt (inner_indent opt cur) v ind)"
      using JObject.IH JObject.prems(1) inner_indents(2) [OF i le] by fastforce
    from members_write [OF False this inner_indents(1) [OF i order_refl]]
    have "writes strtod dp (separated (map member_tokens (tree_members ms))) ind (dump_members opt cur ms ind)" .
    moreover have "separated (map member_tokens (tree_members ms)) \<noteq> []" using False by (cases ms; cases "tl ms") auto
    ultimately show ?thesis
      using container_write [of strtod dp _ ind "dump_members opt cur ms", OF _ _ inner_indents(1) [OF i order_refl] fixed_members(3,4)] False by simp
  qed
qed (auto intro: fixed_write fixed_members)

section \<open>Round trip\<close>

lemma json_dump_text:
  assumes "json_ok v" and "indent < 0 \<or> whitespace indent_char \<and> nesting v * nat indent \<le> 512"
  obtains bs where "json_dump float_text isfin indent indent_char ensure h v = Dumped bs" "json_text strtod dp (tree_of v) bs"
proof -
  define opt where "opt = \<lparr> to_chars = float_text, finite_float = isfin, handler = h, pretty_print = (indent \<ge> 0),
    ensure_ascii = ensure, indent_step = nat indent \<rparr>"
  have "indents opt (0 + nesting v * indent_step opt) (replicate 512 indent_char)"
    using assms(2) by (auto simp: indents_def opt_def list_all_length)
  from dump_writes [OF assms(1) this, of strtod dp] obtain bs where
    d: "dump opt 0 v (replicate 512 indent_char) = Dumped (bs, replicate 512 indent_char)"
    and s: "\<And>ys. ends ys \<Longrightarrow> spells strtod dp (tokens (tree_of v)) (bs @ ys) ys" by (rule writesE) blast
  have "json_text strtod dp (tree_of v) bs"
    unfolding json_text_def
    by (rule exI [of _ "[]"], rule exI [of _ bs], rule exI [of _ "[]"], rule exI [of _ "[]"])
      (use s [of "[]"] in \<open>simp add: end_of_text_def\<close>)
  moreover have "json_dump float_text isfin indent indent_char ensure h v = Dumped bs"
    using d by (simp add: json_dump_def Let_def opt_def)
  ultimately show ?thesis using that by blast
qed

lemma dump_parses:
  assumes "json_ok v" and "indent < 0 \<or> whitespace indent_char \<and> nesting v * nat indent \<le> 512"
  shows "\<exists>bs. json_dump float_text isfin indent indent_char ensure h v = Dumped bs
    \<and> parse_json strtod isfinite True (lexer_new dp z False bs) = Some v"
proof -
  obtain bs where bs: "json_dump float_text isfin indent indent_char ensure h v = Dumped bs" "json_text strtod dp (tree_of v) bs"
    by (rule json_dump_text [OF assms])
  then have "parse_json strtod isfinite True (lexer_new dp z False bs) = Some v"
    unfolding parse_json_texts using finite_tree [OF assms(1)] value_of_tree [OF assms(1)] by (intro exI [of _ "tree_of v"]) simp
  with bs(1) show ?thesis by blast
qed


lemma valid_utf8_ascii: "list_all (\<lambda>b. b < 0x80) s \<Longrightarrow> valid_utf8 s"
proof (induction s)
  case (Cons b s)
  then have "scalar (unat b)" "utf8 (unat b) = [b]" by (simp_all add: scalar_def utf8_def word_less_nat_alt)
  with Cons valid_utf8_append [of "unat b" s] show ?case by simp
qed simp

text \<open>An order event of the client's files, indented by two.\<close>

definition ex_event :: "unit json" where
  "ex_event = JObject [([0x69, 0x64], JText [0x41, 0x0A, 0x22]), ([0x70], JArray [JUnsigned 150, JInteger (- 7), JNull_value, JBoolean True])]"

lemma ex_event_ok: "json_ok ex_event" "nesting ex_event = 2"
  by (simp_all add: ex_event_def omap_ok_def valid_utf8_ascii)


section \<open>Well-typed values\<close>

text \<open>The values that parsing gives; the text \<open>-0\<close> is the integer zero of the signed type.\<close>

fun json_typed :: "('f \<Rightarrow> bool) \<Rightarrow> 'f json \<Rightarrow> bool" where
  "json_typed isfinite (JInteger i) = (- (2 ^ 63) \<le> i \<and> i \<le> 0)"
| "json_typed isfinite (JUnsigned n) = (n < 2 ^ 64)"
| "json_typed isfinite (JFloat x) = isfinite x"
| "json_typed isfinite (JText s) = valid_utf8 s"
| "json_typed isfinite (JArray vs) = (\<forall>v \<in> set vs. json_typed isfinite v)"
| "json_typed isfinite (JObject ms) = (omap_ok ms \<and> (\<forall>(k, v) \<in> set ms. valid_utf8 k \<and> json_typed isfinite v))"
| "json_typed isfinite _ = True"

fun token_typed :: "'f token \<Rightarrow> bool" where
  "token_typed (Integer i) = (- (2 ^ 63) \<le> i \<and> i \<le> 0)"
| "token_typed (Unsigned n) = (n < 2 ^ 64)"
| "token_typed (Text s) = valid_utf8 s"
| "token_typed _ = True"

lemma item_scalar: "item_ok it \<Longrightarrow> scalar (item_code it)"
proof (cases it)
  case (Short c)
  then show "item_ok it \<Longrightarrow> ?thesis" by (auto simp: short_escape_def scalar_def split: if_splits)
next
  case (Hex h)
  then show "item_ok it \<Longrightarrow> ?thesis" using hex4_less [of h] by (auto simp: scalar_def surrogate_def split: option.splits)
next
  case (Pair h k)
  show "item_ok it \<Longrightarrow> ?thesis"
  proof -
    assume "item_ok it"
    then obtain a b where "hex4 h = Some a" "hex4 k = Some b" "0xD800 \<le> a" "a \<le> 0xDBFF" "0xDC00 \<le> b" "b \<le> 0xDFFF"
      using Pair by (auto split: option.splits)
    then show ?thesis using Pair by (simp add: scalar_def)
  qed
qed simp

lemma string_value_valid: "list_all item_ok its \<Longrightarrow> valid_utf8 (string_value its)"
  unfolding valid_utf8_def string_value_def
  by (rule exI [of _ "map item_code its"]) (auto simp: list_all_iff item_scalar comp_def)

lemma lexeme_typed: "lexeme strtod dp tok w ys \<Longrightarrow> token_typed tok"
  by (erule lexeme.cases) (auto simp: string_value_valid number_token_def float_token_def Let_def)

lemma spells_typed: "spells strtod dp toks xs zs \<Longrightarrow> \<forall>t \<in> set toks. token_typed t"
  by (induction rule: spells.induct) (auto intro: lexeme_typed)

lemma set_separated: "ts \<in> set tss \<Longrightarrow> set ts \<subseteq> set (separated tss)"
  by (induction tss rule: separated.induct) auto

lemma fold_put_keys:
  "omap_ok acc \<Longrightarrow> omap_ok (fold (\<lambda>(k, v) m. omap_put k v m) es acc)
    \<and> set (fold (\<lambda>(k, v) m. omap_put k v m) es acc) \<subseteq> set acc \<union> set es"
proof (induction es arbitrary: acc)
  case (Cons e es)
  obtain k v where e: "e = (k, v)" by (cases e)
  have "set (omap_put k v acc) \<subseteq> set acc \<union> {(k, v)}" by (induction k v acc rule: omap_put.induct) auto
  with Cons.IH [OF omap_put_ok [OF Cons.prems], of k v] e show ?case by auto
qed simp

lemma tree_typed:
  "\<forall>t \<in> set (tokens v). token_typed t \<Longrightarrow> finite_floats isfinite v \<Longrightarrow> json_typed isfinite (value_of v)"
proof (induction v)
  case (S_array vs)
  then show ?case using set_separated [of _ "map tokens vs"] by fastforce
next
  case (S_object ms)
  let ?es = "map (\<lambda>(k, v). (k, value_of v)) ms"
  have "valid_utf8 k \<and> json_typed isfinite w" if kw: "(k, w) \<in> set ?es" for k w
  proof -
    obtain v where v: "(k, v) \<in> set ms" "w = value_of v" using kw by auto
    then have "set (member_tokens (k, v)) \<subseteq> set (tokens (S_object ms))"
      using set_separated [of "member_tokens (k, v)" "map member_tokens ms"] by force
    then have "token_typed (Text k :: 'a token)" "\<forall>t \<in> set (tokens v). token_typed t" using S_object.prems(1) by auto
    moreover have "finite_floats isfinite v" using v(1) S_object.prems(2) by auto
    ultimately show ?thesis using S_object.IH v by fastforce
  qed
  moreover have "omap_ok (fold (\<lambda>(k, v) m. omap_put k v m) ?es [])" "set (fold (\<lambda>(k, v) m. omap_put k v m) ?es []) \<subseteq> set ?es"
    using fold_put_keys [of "[]" ?es] by (simp_all add: omap_ok_def)
  ultimately have "\<forall>(k, w) \<in> set (fold (\<lambda>(k, v) m. omap_put k v m) ?es []). valid_utf8 k \<and> json_typed isfinite w" by blast
  with \<open>omap_ok (fold (\<lambda>(k, v) m. omap_put k v m) ?es [])\<close> show ?case by simp
qed simp_all

text \<open>
  C19: what parsing returns is well typed, whatever the bytes are: strings and keys are valid UTF-8, unsigned integers fit
  into 64 bits, signed ones are not positive and fit, floating point numbers are finite, and the keys of objects are
  unique and in ascending order.
\<close>

theorem parse_well_typed:
  assumes "parse_json strtod isfinite True (lexer_new dp z False bs) = Some v"
  shows "json_typed isfinite v"
proof -
  from assms [unfolded parse_json_texts] obtain t where t: "json_text strtod dp t bs" "finite_floats isfinite t" "v = value_of t" by blast
  from t(1) obtain xs zs where "spells strtod dp (tokens t) xs zs" unfolding json_text_def by blast
  from tree_typed [OF spells_typed [OF this] t(2)] t(3) show ?thesis by simp
qed

theorem parse_well_typed_witness:
  "\<exists>bs. parse_json (\<lambda>_. ()) (\<lambda>_. True) True (lexer_new 0x2E () False bs) = Some ex_event \<and> json_typed (\<lambda>_. True) ex_event"
proof -
  have "\<exists>bs. json_dump (\<lambda>_. []) (\<lambda>_. True) (- 1) 0x20 False strict_handler ex_event = Dumped bs
      \<and> parse_json (\<lambda>_. ()) (\<lambda>_. True) True (lexer_new 0x2E () False bs) = Some ex_event"
    by (rule dump_parses) (simp_all add: ex_event_ok)
  then obtain bs where bs: "parse_json (\<lambda>_. ()) (\<lambda>_. True) True (lexer_new 0x2E () False bs) = Some ex_event" by blast
  from bs parse_well_typed [OF bs] show ?thesis by blast
qed

section \<open>Indentation that is too wide\<close>

text \<open>
  The indentation string is doubled once when it is too short, which is not enough for a step of more than 1025
  characters: dumping any non-empty array with such a step reads beyond the string.
\<close>

theorem wide_indent_overruns:
  assumes "1025 < indent" and "indent < 2 ^ 32" and "vs \<noteq> []"
  shows "json_dump float_text isfin indent indent_char ensure h (JArray vs) = Overrun"
proof -
  define opt where "opt = \<lparr> to_chars = float_text, finite_float = isfin, handler = h, pretty_print = (indent \<ge> 0),
    ensure_ascii = ensure, indent_step = nat indent \<rparr>"
  have "1025 < nat indent" "nat indent mod 2 ^ 32 = nat indent" using assms(1,2) by (simp, intro mod_less) (simp add: nat_less_iff)
  moreover have "length (grow_indent (nat indent) (replicate 512 indent_char)) \<le> 1024" by (simp add: grow_indent_def)
  ultimately have "open_container opt 0x5B 0 (replicate 512 indent_char) = Overrun"
    using assms(1) by (simp add: open_container_def new_indent_def indentation_def opt_def Let_def)
  then show ?thesis using assms(3) by (simp add: json_dump_def Let_def opt_def)
qed

theorem wide_indent_overruns_witness:
  "json_dump (\<lambda>_. []) (\<lambda>_. True) 2000 0x20 False strict_handler (JArray [JNull_value :: unit json]) = Overrun"
  by (rule wide_indent_overruns) simp_all

section \<open>A null byte\<close>

lemma starts_null: "starts P ys \<longleftrightarrow> starts P (ys @ 0 # junk)" if "\<not> P 0"
  using that by (cases ys) auto

lemma lexeme_null: "lexeme strtod dp tok w ys \<Longrightarrow> lexeme strtod dp tok w (ys @ 0 # junk)"
proof (induction rule: lexeme.induct)
  case (lex_number n ys)
  have "\<not> digit 0" "\<not> exp_letter 0" by (simp_all add: digit_def exp_letter_def)
  then have "stops n (ys @ 0 # junk)" using lex_number(2) unfolding stops_def
    by (simp add: starts_null [symmetric])
  with lex_number(1) show ?case by (rule lexeme.lex_number)
qed (auto intro: lexeme.intros)

lemma spells_null: "spells strtod dp toks xs zs \<Longrightarrow> spells strtod dp toks (xs @ 0 # junk) (zs @ 0 # junk)"
proof (induction rule: spells.induct)
  case (spells_token ws tok w ys toks zs)
  from spells.spells_token [OF spells_token(1) lexeme_null [OF spells_token(2)] spells_token(4)] show ?case by simp
qed (rule spells_none)

text \<open>
  Strict parsing does not see what stands behind a null byte: when a text parses, it still parses, to the same value,
  with a null byte and anything after it.
\<close>

theorem null_ends_text:
  assumes "parse_json strtod isfinite True (lexer_new dp z False bs) = Some j"
  shows "parse_json strtod isfinite True (lexer_new dp z False (bs @ 0 # junk)) = Some j"
proof -
  from assms [unfolded parse_json_texts] obtain v where v: "json_text strtod dp v bs" "finite_floats isfinite v" "j = value_of v" by blast
  from v(1) obtain mark xs ws zs where x: "mark \<in> {[], byte_order_mark}" "bs = mark @ xs" "spells strtod dp (tokens v) xs (ws @ zs)"
    "list_all whitespace ws" "end_of_text zs" unfolding json_text_def by blast
  have "spells strtod dp (tokens v) (xs @ 0 # junk) (ws @ zs @ 0 # junk)" using spells_null [OF x(3)] by simp
  moreover have "end_of_text (zs @ 0 # junk)" using x(5) by (cases zs) (auto simp: end_of_text_def)
  moreover have "bs @ 0 # junk = mark @ xs @ 0 # junk" using x(2) by simp
  ultimately have "json_text strtod dp v (bs @ 0 # junk)" using x(1,4) unfolding json_text_def by blast
  with v(2,3) show ?thesis unfolding parse_json_texts by blast
qed

theorem null_ends_text_witness:
  "parse_json (\<lambda>_. ()) (\<lambda>_. True) True (lexer_new 0x2E () False ([0x6E, 0x75, 0x6C, 0x6C] @ 0 # [0x7D, 0x7D])) = Some JNull_value"
proof (rule null_ends_text)
  have "spells (\<lambda>_. ()) 0x2E (tokens S_null) ([0x6E, 0x75, 0x6C, 0x6C] @ []) []"
    unfolding tokens.simps by (rule spells_fixed) (simp add: fixed_tokens_def)
  then have "json_text (\<lambda>_. ()) 0x2E S_null [0x6E, 0x75, 0x6C, 0x6C]"
    unfolding json_text_def by - (rule exI [of _ "[]"], rule exI, rule exI [of _ "[]"], rule exI [of _ "[]"], simp add: end_of_text_def)
  then show "parse_json (\<lambda>_. ()) (\<lambda>_. True) True (lexer_new 0x2E () False [0x6E, 0x75, 0x6C, 0x6C]) = Some JNull_value"
    unfolding parse_json_texts by (intro exI [of _ S_null]) simp
qed

end
