(* ===== verification/Byte_Order.thy ===== *)
theory Byte_Order
  imports Prelude
begin

unbundle bit_operations_syntax

text \<open>
  Integers as bytes in memory on the little-endian targets of the build, and the conversions
  to and from network order that the parser (includes/order_parser.h) and the client
  (src/client.cpp) use.
\<close>

section \<open>Memory order\<close>

text \<open>\<open>memcpy\<close> of \<open>k\<close> bytes from an integer, and into one.\<close>

primrec store_le :: "nat \<Rightarrow> 'n::len word \<Rightarrow> u8 list" where
  "store_le 0 x = []"
| "store_le (Suc k) x = ucast x # store_le k (drop_bit 8 x)"

primrec load_le :: "u8 list \<Rightarrow> 'n::len word" where
  "load_le [] = 0"
| "load_le (b # bs) = ucast b OR push_bit 8 (load_le bs)"

lemma store_le_length [simp]: "length (store_le k x) = k"
  by (induction k arbitrary: x) simp_all

lemma load_store_le: "load_le (store_le k x) = take_bit (8 * k) x"
proof (induction k arbitrary: x)
  case (Suc k)
  have "ucast (ucast x :: u8) OR push_bit 8 (take_bit (8 * k) (drop_bit 8 x)) = take_bit (8 + 8 * k) x"
    by (rule bit_word_eqI) (auto simp: bit_simps)
  with Suc show ?case by simp
qed simp

lemma bit_load_le: "bit (load_le bs :: 'n::len word) i \<Longrightarrow> i < 8 * length bs"
proof (induction bs arbitrary: i)
  case (Cons b bs)
  then consider "bit (ucast b :: 'n word) i" | "8 \<le> i" "bit (load_le bs :: 'n word) (i - 8)"
    by (auto simp: bit_simps)
  then show ?case
  proof cases
    case 1
    then have "i < 8" by (auto simp: bit_simps dest: bit_imp_le_length)
    then show ?thesis by simp
  next
    case 2
    with Cons.IH [of "i - 8"] show ?thesis by simp
  qed
qed simp

lemma store_load_le: "8 * length bs \<le> LENGTH('n::len) \<Longrightarrow> store_le (length bs) (load_le bs :: 'n word) = bs"
proof (induction bs)
  case (Cons b bs)
  let ?y = "load_le bs :: 'n word"
  have "8 + 8 * length bs \<le> LENGTH('n)" using Cons.prems by simp
  then have fits: "bit ?y i \<Longrightarrow> i + 8 < LENGTH('n)" for i
    using bit_load_le [of bs i, where 'n = 'n] by linarith
  have "drop_bit 8 (ucast b OR push_bit 8 ?y) = ?y"
  proof (rule bit_word_eqI)
    fix i assume "i < LENGTH('n)"
    have "\<not> bit b (i + 8)" using bit_imp_le_length [of b "i + 8"] by auto
    then show "bit (drop_bit 8 (ucast b OR push_bit 8 ?y)) i = bit ?y i"
      using fits [of i] by (auto simp: bit_simps add.commute)
  qed
  moreover have "ucast (ucast b OR push_bit 8 ?y) = b"
  proof (rule bit_word_eqI)
    fix i assume "i < LENGTH(8)"
    with Cons.prems show "bit (ucast (ucast b OR push_bit 8 ?y) :: u8) i = bit b i"
      by (auto simp: bit_simps)
  qed
  ultimately show ?case using Cons by simp
qed simp

lemma load_le_append:
  "load_le (as @ bs) = load_le as OR push_bit (8 * length as) (load_le bs)"
  by (induction as) (simp_all add: push_bit_or ac_simps)

lemma ucast_load_le:
  "8 * length bs \<le> LENGTH('m::len) \<Longrightarrow> (ucast (load_le bs :: 'm word) :: 'n::len word) = load_le bs"
proof (induction bs)
  case (Cons b bs)
  let ?y = "load_le bs :: 'm word"
  have fits: "bit ?y i \<Longrightarrow> i + 8 < LENGTH('m)" for i
    using bit_load_le [of bs i, where 'n = 'm] Cons.prems by simp
  have "(ucast (ucast b OR push_bit 8 ?y :: 'm word) :: 'n word) = ucast b OR push_bit 8 (ucast ?y)"
  proof (rule bit_word_eqI)
    fix i assume "i < LENGTH('n)"
    have "bit b i \<Longrightarrow> i < LENGTH('m)" using bit_imp_le_length [of b i] Cons.prems by simp
    then show "bit (ucast (ucast b OR push_bit 8 ?y :: 'm word) :: 'n word) i
      = bit (ucast b OR push_bit 8 (ucast ?y) :: 'n word) i"
      using fits [of "i - 8"] \<open>i < LENGTH('n)\<close> by (auto simp: bit_simps)
  qed
  with Cons show ?case by simp
qed simp

section \<open>Network order\<close>

text \<open>\<open>ntohl\<close> and \<open>htonl\<close> of the C library on a little-endian host reverse the four bytes.\<close>

definition ntohl :: "u32 \<Rightarrow> u32" where
  "ntohl v = load_le (rev (store_le 4 v))"

definition htonl :: "u32 \<Rightarrow> u32" where
  "htonl v = load_le (rev (store_le 4 v))"

definition ntohll :: "u64 \<Rightarrow> u64" where
  "ntohll v = push_bit 32 (ucast (ntohl (ucast (v AND 0xFFFFFFFF)))) OR ucast (ntohl (ucast (drop_bit 32 v)))"

definition htonll :: "u64 \<Rightarrow> u64" where
  "htonll v = push_bit 32 (ucast (htonl (ucast (v AND 0xFFFFFFFF)))) OR ucast (htonl (ucast (drop_bit 32 v)))"

lemma store_le_split: "store_le (j + k) x = store_le j x @ store_le k (drop_bit (8 * j) x)"
  by (induction j arbitrary: x) (simp_all add: ac_simps)

lemma store_le_nth: "i < k \<Longrightarrow> store_le k x ! i = ucast (drop_bit (8 * i) x)"
proof (induction k arbitrary: x i)
  case (Suc k)
  then show ?case by (cases i) (simp_all add: add.commute)
qed simp

lemma store_le_cong:
  assumes "\<And>i. i < 8 * k \<Longrightarrow> bit x i = bit y i"
  shows "store_le k (x :: 'n::len word) = store_le k (y :: 'm::len word)"
proof (rule nth_equalityI)
  fix i assume "i < length (store_le k x)"
  then have i: "i < k" by simp
  have "ucast (drop_bit (8 * i) x) = (ucast (drop_bit (8 * i) y) :: u8)"
  proof (rule bit_word_eqI)
    fix j assume "j < LENGTH(8)"
    then have "8 * i + j < 8 * k" using i by simp
    from assms [OF this] \<open>j < LENGTH(8)\<close>
    show "bit (ucast (drop_bit (8 * i) x) :: u8) j = bit (ucast (drop_bit (8 * i) y) :: u8) j"
      by (simp add: bit_simps)
  qed
  with i show "store_le k x ! i = store_le k y ! i" by (simp add: store_le_nth)
qed simp

lemma ntohll_load: "ntohll v = load_le (rev (store_le 8 v))"
proof -
  have "store_le 4 (ucast (v AND 0xFFFFFFFF) :: u32) = store_le 4 v"
  proof (rule store_le_cong)
    fix i assume i: "i < 8 * (4 :: nat)"
    have m: "(0xFFFFFFFF :: u64) = mask 32" by (simp add: mask_eq_exp_minus_1)
    from i show "bit (ucast (v AND 0xFFFFFFFF) :: u32) i = bit v i" unfolding m by (simp add: bit_simps)
  qed
  moreover have "store_le 4 (ucast (drop_bit 32 v) :: u32) = store_le 4 (drop_bit 32 v)"
    by (rule store_le_cong) (auto simp: bit_simps)
  moreover have "(store_le 8 v :: u8 list) = store_le 4 v @ store_le 4 (drop_bit 32 v)"
    using store_le_split [of 4 4 v] by simp
  ultimately show ?thesis
    by (simp add: ntohll_def ntohl_def ucast_load_le load_le_append or.commute)
qed

lemma htonll_ntohll: "htonll v = ntohll v"
  by (simp add: htonll_def ntohll_def htonl_def ntohl_def)

text \<open>
  Reading bytes from memory and converting them to host order reads them as a big-endian
  number, so the two conversions undo each other.
\<close>

lemma ntohl_bytes: "length bs = 4 \<Longrightarrow> ntohl (load_le bs) = load_le (rev bs)"
  using store_load_le [of bs, where 'n = 32] by (simp add: ntohl_def)

lemma ntohll_bytes: "length bs = 8 \<Longrightarrow> ntohll (load_le bs) = load_le (rev bs)"
  using store_load_le [of bs, where 'n = 64] by (simp add: ntohll_load)

lemma ntohl_htonl: "ntohl (htonl v) = v"
proof -
  have "take_bit 32 v = v" by (simp add: take_bit_word_eq_self)
  then show ?thesis using load_store_le [of 4 v] by (simp add: htonl_def ntohl_bytes)
qed

lemma ntohll_htonll: "ntohll (htonll v) = v"
proof -
  have "take_bit 64 v = v" by (simp add: take_bit_word_eq_self)
  then show ?thesis using load_store_le [of 8 v]
    by (simp add: htonll_ntohll ntohll_load [of v] ntohll_bytes)
qed

end
