(* ===== verification/Order_Parser.thy ===== *)
theory Order_Parser
  imports Order_Types Byte_Order
begin

text \<open>
  The wire format (includes/order_parser.h, src/order_parser.cpp). A message is a byte array
  and the number of its bytes; a null pointer is \<open>None\<close>. Reading beyond the array is undefined
  behaviour, the outer \<open>None\<close> of \<open>parse_message\<close>. The parser writes its output parameter
  field by field, also on the paths that reject the message.
\<close>

section \<open>Messages\<close>

record parsed_order =
  p_timestamp :: u64
  p_msg_type :: u8
  p_order_id :: "u8 list"
  p_ticker :: "u8 list"
  p_price :: u32
  p_qty :: u64
  p_is_buy :: bool

definition new_parsed_order :: parsed_order where
  "new_parsed_order =
     \<lparr> p_timestamp = 0, p_msg_type = 0, p_order_id = replicate ORDER_ID_LEN 0,
       p_ticker = replicate TICKER_LEN 0, p_price = 0, p_qty = 0, p_is_buy = False \<rparr>"

abbreviation (input) TYPE_LIMIT_BUY :: u8 where "TYPE_LIMIT_BUY \<equiv> 1"
abbreviation (input) TYPE_LIMIT_SELL :: u8 where "TYPE_LIMIT_SELL \<equiv> 2"
abbreviation (input) TYPE_MARKET_BUY :: u8 where "TYPE_MARKET_BUY \<equiv> 3"
abbreviation (input) TYPE_MARKET_SELL :: u8 where "TYPE_MARKET_SELL \<equiv> 4"
abbreviation (input) TYPE_UPDATE :: u8 where "TYPE_UPDATE \<equiv> 5"
abbreviation (input) TYPE_CANCEL :: u8 where "TYPE_CANCEL \<equiv> 6"

definition BASE_LEN :: nat where
  "BASE_LEN = 9 + ORDER_ID_LEN + TICKER_LEN"

text \<open>Reading \<open>n\<close> bytes at an offset.\<close>

definition read_bytes :: "u8 list \<Rightarrow> nat \<Rightarrow> nat \<Rightarrow> u8 list option" where
  "read_bytes data off n = (if off + n \<le> length data then Some (take n (drop off data)) else None)"

text \<open>Price and quantity, which three of the branches read at \<open>p\<close>.\<close>

definition parse_price_qty :: "u8 list \<Rightarrow> nat \<Rightarrow> parsed_order \<Rightarrow> parsed_order option" where
  "parse_price_qty data p out = do {
     raw_price \<leftarrow> read_bytes data p 4;
     raw_qty \<leftarrow> read_bytes data (p + 4) 4;
     Some (out\<lparr> p_price := ntohl (load_le raw_price), p_qty := ucast (ntohl (load_le raw_qty)) \<rparr>)
   }"

definition parse_body :: "u8 list \<Rightarrow> nat \<Rightarrow> parsed_order \<Rightarrow> (bool \<times> parsed_order) option" where
  "parse_body data p out =
     (if p_msg_type out \<in> {TYPE_LIMIT_BUY, TYPE_LIMIT_SELL, TYPE_MARKET_BUY, TYPE_MARKET_SELL} then
        if length data < p + 8 then Some (False, out)
        else do {
          out1 \<leftarrow> parse_price_qty data p out;
          Some (True, out1\<lparr> p_is_buy := p_msg_type out1 = TYPE_LIMIT_BUY \<or> p_msg_type out1 = TYPE_MARKET_BUY \<rparr>)
        }
      else if p_msg_type out = TYPE_UPDATE then
        if length data < p + 9 then Some (False, out)
        else do {
          out1 \<leftarrow> parse_price_qty data p out;
          side \<leftarrow> read_bytes data (p + 8) 1;
          Some (True, out1\<lparr> p_is_buy := hd side = 0x42 \<rparr>)
        }
      else if p_msg_type out = TYPE_CANCEL then Some (True, out)
      else Some (False, out))"

definition parse_message :: "u8 list option \<Rightarrow> parsed_order \<Rightarrow> (bool \<times> parsed_order) option" where
  "parse_message msg out =
     (case msg of
        None \<Rightarrow> Some (False, out)
      | Some data \<Rightarrow>
          if length data < BASE_LEN then Some (False, out)
          else do {
            raw_ts \<leftarrow> read_bytes data 0 8;
            ty \<leftarrow> read_bytes data 8 1;
            ident \<leftarrow> read_bytes data 9 ORDER_ID_LEN;
            tick \<leftarrow> read_bytes data (9 + ORDER_ID_LEN) TICKER_LEN;
            let out1 = out\<lparr> p_timestamp := ntohll (load_le raw_ts), p_msg_type := hd ty,
                  p_order_id := ident, p_ticker := tick, p_price := 0, p_qty := 0, p_is_buy := False \<rparr>;
            (ok, out2) \<leftarrow> parse_body data (9 + ORDER_ID_LEN + TICKER_LEN) out1;
            Some (if ok \<and> p_msg_type out2 \<noteq> TYPE_CANCEL \<and> (p_price out2 = 0 \<or> p_qty out2 = 0)
                  then (False, out2) else (ok, out2))
          })"

definition convert_to_order :: "parsed_order \<Rightarrow> order_t" where
  "convert_to_order p =
     (let side = (if p_is_buy p then BUY else SELL);
          (kind, status) =
            (if p_msg_type p = TYPE_LIMIT_BUY \<or> p_msg_type p = TYPE_LIMIT_SELL then (LMT, NEW)
             else if p_msg_type p = TYPE_MARKET_BUY \<or> p_msg_type p = TYPE_MARKET_SELL then (MKT, NEW)
             else if p_msg_type p = TYPE_UPDATE then (LMT, PARTIALLY_FILLED)
             else if p_msg_type p = TYPE_CANCEL then (LMT, CANCELLED)
             else (LMT, NEW))
      in make_order_t (p_timestamp p) (p_order_id p) (p_ticker p) kind side status (p_price p) (p_qty p) False)"

section \<open>What the parser accepts\<close>

definition message_types :: "u8 set" where
  "message_types = {TYPE_LIMIT_BUY, TYPE_LIMIT_SELL, TYPE_MARKET_BUY, TYPE_MARKET_SELL, TYPE_UPDATE, TYPE_CANCEL}"

text \<open>The length a message of each type must have at least.\<close>

definition message_length :: "u8 \<Rightarrow> nat" where
  "message_length ty =
     (if ty \<in> {TYPE_LIMIT_BUY, TYPE_LIMIT_SELL, TYPE_MARKET_BUY, TYPE_MARKET_SELL} then 37
      else if ty = TYPE_UPDATE then 38 else 29)"

text \<open>The fields of a message, read as big-endian numbers at fixed offsets.\<close>

definition be :: "u8 list \<Rightarrow> nat \<Rightarrow> nat \<Rightarrow> 'n::len word" where
  "be data off n = load_le (rev (take n (drop off data)))"

definition parsed_fields :: "u8 list \<Rightarrow> parsed_order" where
  "parsed_fields data =
     (let ty = data ! 8; priced = ty \<noteq> TYPE_CANCEL in
      \<lparr> p_timestamp = be data 0 8, p_msg_type = ty,
        p_order_id = take ORDER_ID_LEN (drop 9 data), p_ticker = take TICKER_LEN (drop 25 data),
        p_price = (if priced then be data 29 4 else 0),
        p_qty = (if priced then ucast (be data 33 4 :: u32) else 0),
        p_is_buy = (if ty = TYPE_UPDATE then data ! 37 = 0x42 else ty = TYPE_LIMIT_BUY \<or> ty = TYPE_MARKET_BUY) \<rparr>)"

definition message_ok :: "u8 list \<Rightarrow> bool" where
  "message_ok data \<longleftrightarrow> 29 \<le> length data \<and> data ! 8 \<in> message_types \<and> message_length (data ! 8) \<le> length data
     \<and> (data ! 8 \<noteq> TYPE_CANCEL \<longrightarrow> p_price (parsed_fields data) \<noteq> 0 \<and> p_qty (parsed_fields data) \<noteq> 0)"

lemmas wire_lengths = BASE_LEN_def ORDER_ID_LEN_def TICKER_LEN_def

lemma read_bytes_ok: "off + n \<le> length data \<Longrightarrow> read_bytes data off n = Some (take n (drop off data))"
  by (simp add: read_bytes_def)

lemma read_byte_ok: "off < length data \<Longrightarrow> read_bytes data off (Suc 0) = Some [data ! off]"
  by (simp add: read_bytes_def take_Suc hd_drop_conv_nth)

lemma parse_price_qty_ok:
  "p + 8 \<le> length data \<Longrightarrow>
   parse_price_qty data p out = Some (out\<lparr> p_price := be data p 4, p_qty := ucast (be data (p + 4) 4 :: u32) \<rparr>)"
  by (simp add: parse_price_qty_def read_bytes_ok ntohl_bytes be_def)

lemma parse_body_ok:
  assumes "29 \<le> length data" and "p_msg_type out = data ! 8"
  shows "parse_body data 29 out = Some
    (if data ! 8 \<in> message_types \<and> message_length (data ! 8) \<le> length data then
       (True, if data ! 8 = TYPE_CANCEL then out
              else out\<lparr> p_price := p_price (parsed_fields data), p_qty := p_qty (parsed_fields data),
                     p_is_buy := p_is_buy (parsed_fields data) \<rparr>)
     else (False, out))"
  using assms
  by (auto simp: parse_body_def message_types_def message_length_def parsed_fields_def parse_price_qty_ok read_byte_ok not_less)

text \<open>The value of the parser on a message that has a complete header.\<close>

definition header_fields :: "u8 list \<Rightarrow> parsed_order \<Rightarrow> parsed_order" where
  "header_fields data out = out\<lparr> p_timestamp := be data 0 8, p_msg_type := data ! 8,
     p_order_id := take ORDER_ID_LEN (drop 9 data), p_ticker := take TICKER_LEN (drop 25 data),
     p_price := 0, p_qty := 0, p_is_buy := False \<rparr>"

lemma parse_message_header:
  assumes "29 \<le> length data"
  shows "parse_message (Some data) out = do {
      (ok, out2) \<leftarrow> parse_body data 29 (header_fields data out);
      Some (if ok \<and> p_msg_type out2 \<noteq> TYPE_CANCEL \<and> (p_price out2 = 0 \<or> p_qty out2 = 0)
            then (False, out2) else (ok, out2)) }"
  using assms
  by (simp add: parse_message_def wire_lengths read_bytes_ok ntohll_bytes header_fields_def be_def hd_drop_conv_nth)

lemma header_fields_complete:
  "(header_fields data out)\<lparr> p_price := p_price (parsed_fields data), p_qty := p_qty (parsed_fields data),
     p_is_buy := p_is_buy (parsed_fields data) \<rparr> = parsed_fields data"
  "data ! 8 = TYPE_CANCEL \<Longrightarrow> header_fields data out = parsed_fields data"
  by (simp_all add: header_fields_def parsed_fields_def Let_def)

lemma parsed_fields_type [simp]: "p_msg_type (parsed_fields data) = data ! 8" "p_msg_type (header_fields data out) = data ! 8"
  by (simp_all add: parsed_fields_def header_fields_def Let_def)

lemma parse_message_value:
  assumes "29 \<le> length data"
  shows "parse_message (Some data) out = Some
    (if data ! 8 \<in> message_types \<and> message_length (data ! 8) \<le> length data then (message_ok data, parsed_fields data)
     else (False, header_fields data out))"
  unfolding parse_message_header [OF assms]
  by (auto simp: parse_body_ok [OF assms] header_fields_complete message_ok_def assms)

lemma parse_message_iff:
  "parse_message msg out \<noteq> None
   \<and> (map_option fst (parse_message msg out) = Some True \<longleftrightarrow> (\<exists>data. msg = Some data \<and> message_ok data))
   \<and> (\<forall>data. msg = Some data \<and> message_ok data \<longrightarrow> parse_message msg out = Some (True, parsed_fields data))"
proof (cases msg)
  case None
  then show ?thesis by (simp add: parse_message_def)
next
  case (Some data)
  show ?thesis
  proof (cases "29 \<le> length data")
    case True
    then have "message_ok data \<Longrightarrow> data ! 8 \<in> message_types \<and> message_length (data ! 8) \<le> length data"
      by (simp add: message_ok_def)
    with True Some show ?thesis by (auto simp: parse_message_value)
  next
    case False
    with Some show ?thesis by (simp add: parse_message_def message_ok_def wire_lengths)
  qed
qed

lemma parse_message_accepts:
  "parse_message (Some data) out = Some (True, p) \<longleftrightarrow> message_ok data \<and> p = parsed_fields data"
  using parse_message_iff [of "Some data" out] by auto

lemma convert_to_order_ok:
  assumes "message_ok data" and "x = convert_to_order (parsed_fields data)"
  shows "length (o_order_id x) = ORDER_ID_LEN \<and> length (o_ticker x) = TICKER_LEN
    \<and> o_side x \<in> {BUY, SELL} \<and> o_status x \<in> {NEW, PARTIALLY_FILLED, CANCELLED}
    \<and> o_price x = p_price (parsed_fields data) \<and> o_qty x = p_qty (parsed_fields data)"
proof -
  have "29 \<le> length data" using assms(1) by (simp add: message_ok_def)
  then have "length (p_order_id (parsed_fields data)) = ORDER_ID_LEN" "length (p_ticker (parsed_fields data)) = TICKER_LEN"
    by (simp_all add: parsed_fields_def Let_def wire_lengths)
  then show ?thesis by (auto simp: assms(2) convert_to_order_def make_order_t_def Let_def split: if_splits)
qed

section \<open>Properties\<close>

text \<open>
  C28: the parser never reads beyond the message. It accepts exactly the messages of a known type
  that are long enough for it and, unless they cancel, carry a price and a quantity other than
  zero; the order it then returns has the fields of the wire format, in network order.
\<close>

theorem parse_message_correct:
  "parse_message msg out \<noteq> None
   \<and> (map_option fst (parse_message msg out) = Some True \<longleftrightarrow> (\<exists>data. msg = Some data \<and> message_ok data))
   \<and> (\<forall>data. msg = Some data \<and> message_ok data \<longrightarrow> parse_message msg out = Some (True, parsed_fields data))"
  by (rule parse_message_iff)

definition ex_msg :: "u8 list" where
  "ex_msg = [0, 0, 0, 0, 0, 0, 1, 2] @ [2] @ [65, 66, 67, 68, 69, 70, 71, 72, 73, 74, 75, 76, 77, 78, 79, 0]
     @ [65, 65, 80, 0] @ [0, 0, 39, 16] @ [0, 0, 0, 100]"

lemma ex_msg_ok:
  "message_ok ex_msg" "p_price (parsed_fields ex_msg) = 10000" "p_timestamp (parsed_fields ex_msg) = 258"
  "p_qty (parsed_fields ex_msg) = 100"
  by (simp_all add: message_ok_def ex_msg_def parsed_fields_def be_def message_length_def message_types_def wire_lengths)

theorem parse_message_correct_witness:
  "message_ok ex_msg \<and> parse_message (Some ex_msg) new_parsed_order = Some (True, parsed_fields ex_msg)
   \<and> p_price (parsed_fields ex_msg) = 10000 \<and> p_timestamp (parsed_fields ex_msg) = 258"
  using parse_message_correct [of "Some ex_msg" new_parsed_order] ex_msg_ok by blast

text \<open>
  An order made from a parsed message is one the order book can file: its identifier and
  ticker have the declared lengths, its side is one of the two and its status is one that the
  bucket thread dispatches on.
\<close>

theorem convert_to_order_wf:
  assumes "parse_message (Some data) out = Some (True, p)"
  shows "length (o_order_id (convert_to_order p)) = ORDER_ID_LEN \<and> length (o_ticker (convert_to_order p)) = TICKER_LEN
    \<and> o_side (convert_to_order p) \<in> {BUY, SELL} \<and> o_status (convert_to_order p) \<in> {NEW, PARTIALLY_FILLED, CANCELLED}
    \<and> o_price (convert_to_order p) = p_price p \<and> o_qty (convert_to_order p) = p_qty p"
  using assms convert_to_order_ok [OF _ refl, of data] by (simp add: parse_message_accepts)

theorem convert_to_order_wf_witness:
  "o_side (convert_to_order (parsed_fields ex_msg)) \<in> {BUY, SELL} \<and> o_qty (convert_to_order (parsed_fields ex_msg)) = 100"
proof -
  have "parse_message (Some ex_msg) new_parsed_order = Some (True, parsed_fields ex_msg)"
    by (simp add: parse_message_value ex_msg_ok(1) [unfolded message_ok_def] ex_msg_ok(1))
  from convert_to_order_wf [OF this] have "o_side (convert_to_order (parsed_fields ex_msg)) \<in> {BUY, SELL}"
    "o_qty (convert_to_order (parsed_fields ex_msg)) = p_qty (parsed_fields ex_msg)" by simp_all
  then show ?thesis by (simp add: ex_msg_ok)
qed

end
