(* ===== verification/Client.thy ===== *)
theory Client
  imports Order_Parser Log_Events
begin

text \<open>
  The replay client (src/client.cpp): how a line of the event file becomes a message on the
  wire. The JSON library is represented by its values: a line that parses is a map from keys to
  values, of which the client distinguishes null, strings and the rest. The conversions
  \<open>get_cents\<close> (\<open>uint32_t(get<double>() * 100)\<close>) and \<open>get_u32\<close> (\<open>get<uint32_t>()\<close>) of a value are
  parameters, \<open>None\<close> where the library throws, and so is \<open>timegm\<close> of the C library. Reading
  the file, sorting the events and sending them are in the theory \<open>Replay\<close>, where the conversions
  are those of the JSON library; the timing statistics are not modelled.
\<close>

section \<open>Time stamps\<close>

text \<open>\<open>std::stoi\<close> and \<open>std::stoul\<close> on strings that are too short to overflow; \<open>None\<close> is the
  exception for a string that starts with no number.\<close>

definition is_space :: "char \<Rightarrow> bool" where
  "is_space c \<longleftrightarrow> (of_char c :: nat) = 32 \<or> 9 \<le> (of_char c :: nat) \<and> (of_char c :: nat) \<le> 13"

definition stoi :: "string \<Rightarrow> int option" where
  "stoi s =
     (let s1 = dropWhile is_space s;
          (neg, s2) = (case s1 of c # cs \<Rightarrow> if c = CHR ''-'' then (True, cs) else if c = CHR ''+'' then (False, cs) else (False, s1)
                       | [] \<Rightarrow> (False, s1));
          ds = takeWhile is_digit s2
      in if ds = [] then None else Some (if neg then - int (read_nat ds) else int (read_nat ds)))"

text \<open>\<open>substr\<close> throws when it starts behind the end of the string.\<close>

definition substr :: "string \<Rightarrow> nat \<Rightarrow> nat \<Rightarrow> string option" where
  "substr s pos n = (if pos \<le> length s then Some (take n (drop pos s)) else None)"

record tm =
  tm_year :: int
  tm_mon :: int
  tm_mday :: int
  tm_hour :: int
  tm_min :: int
  tm_sec :: int

definition number_at :: "string \<Rightarrow> nat \<Rightarrow> nat \<Rightarrow> int option" where
  "number_at s pos n = do { t \<leftarrow> substr s pos n; stoi t }"

definition parse_time :: "(tm \<Rightarrow> int) \<Rightarrow> string \<Rightarrow> int option" where
  "parse_time timegm s = do {
     y \<leftarrow> number_at s 0 4;
     mo \<leftarrow> number_at s 5 2;
     d \<leftarrow> number_at s 8 2;
     h \<leftarrow> number_at s 11 2;
     mi \<leftarrow> number_at s 14 2;
     se \<leftarrow> number_at s 17 2;
     Some (timegm \<lparr> tm_year = y - 1900, tm_mon = mo - 1, tm_mday = d, tm_hour = h, tm_min = mi, tm_sec = se \<rparr>)
   }"

definition parse_timestamp_ns :: "(tm \<Rightarrow> int) \<Rightarrow> string \<Rightarrow> u64 option" where
  "parse_timestamp_ns timegm ts =
     (let core = takeWhile (\<lambda>c. c \<noteq> CHR ''.'') ts; rest = dropWhile (\<lambda>c. c \<noteq> CHR ''.'') ts in do {
        sec \<leftarrow> parse_time timegm core;
        let ns = word_of_int sec * 1000000000;
        if rest = [] then Some ns
        else do {
          let frac = take 6 (tl rest);
          let frac1 = frac @ replicate (6 - length frac) CHR ''0'';
          us \<leftarrow> stoi frac1;
          Some (ns + word_of_int us * 1000)
        }
      })"

section \<open>Messages\<close>

definition bytes_of :: "string \<Rightarrow> u8 list" where
  "bytes_of s = map of_char s"

text \<open>An array of \<open>n\<close> zero bytes into which at most \<open>n - 1\<close> bytes of the string are copied.\<close>

definition padded :: "nat \<Rightarrow> string \<Rightarrow> u8 list" where
  "padded n s = (let bs = take (n - 1) (bytes_of s) in bs @ replicate (n - length bs) 0)"

definition client_message :: "u64 \<Rightarrow> u8 \<Rightarrow> string \<Rightarrow> string \<Rightarrow> u32 \<Rightarrow> u32 \<Rightarrow> char \<Rightarrow> u8 list" where
  "client_message ts_ns msg_type oid tick px sz side_ch =
     store_le 8 (htonll ts_ns) @ [msg_type] @ padded ORDER_ID_LEN oid @ padded TICKER_LEN tick
     @ (if msg_type = TYPE_LIMIT_BUY \<or> msg_type = TYPE_LIMIT_SELL \<or> msg_type = TYPE_UPDATE then
          store_le 4 (htonl px) @ store_le 4 (htonl sz)
          @ (if msg_type = TYPE_UPDATE then [of_char side_ch] else [])
        else [])"

section \<open>Events\<close>

datatype 'n json_value = JNull | JString string | JOther 'n

type_synonym 'n json_object = "string \<Rightarrow> 'n json_value option"

text \<open>\<open>contains\<close> a key whose value \<open>is_string\<close>.\<close>

definition string_at :: "'n json_object \<Rightarrow> string \<Rightarrow> string option" where
  "string_at j k = (case j k of Some (JString s) \<Rightarrow> Some s | _ \<Rightarrow> None)"

text \<open>\<open>j[k]\<close>, which is null for a key that is not there.\<close>

definition value_at :: "'n json_object \<Rightarrow> string \<Rightarrow> 'n json_value" where
  "value_at j k = (case j k of Some v \<Rightarrow> v | None \<Rightarrow> JNull)"

fun has_substring :: "string \<Rightarrow> string \<Rightarrow> bool" where
  "has_substring p [] \<longleftrightarrow> p = []"
| "has_substring p (c # cs) \<longleftrightarrow> take (length p) (c # cs) = p \<or> has_substring p cs"

datatype client_outcome = SKIP | THROWS | EVENT u64 "u8 list"

definition client_msg_type :: "string \<Rightarrow> char \<Rightarrow> u8" where
  "client_msg_type type side_ch =
     (if type = ''limit_add'' then (if side_ch = CHR ''B'' then TYPE_LIMIT_BUY else TYPE_LIMIT_SELL)
      else if has_substring ''cancel'' type then TYPE_CANCEL
      else TYPE_UPDATE)"

definition client_build :: "('n json_value \<Rightarrow> u32 option) \<Rightarrow> ('n json_value \<Rightarrow> u32 option) \<Rightarrow> u64 \<Rightarrow> string \<Rightarrow> char
    \<Rightarrow> string \<Rightarrow> 'n json_object \<Rightarrow> client_outcome" where
  "client_build get_cents get_u32 ts_ns type side_ch tick j =
     (let msg_type = client_msg_type type side_ch;
          oid = (case string_at j ''order_id'' of Some s \<Rightarrow> s | None \<Rightarrow> [])
      in if msg_type = TYPE_CANCEL then EVENT ts_ns (client_message ts_ns msg_type oid tick 0 0 side_ch)
         else (case get_cents (value_at j ''price'') of
             None \<Rightarrow> THROWS
           | Some px \<Rightarrow>
               (case get_u32 (value_at j ''size'') of
                  None \<Rightarrow> THROWS
                | Some sz \<Rightarrow> EVENT ts_ns (client_message ts_ns msg_type oid tick px sz side_ch))))"

definition client_event :: "(tm \<Rightarrow> int) \<Rightarrow> ('n json_value \<Rightarrow> u32 option) \<Rightarrow> ('n json_value \<Rightarrow> u32 option)
    \<Rightarrow> 'n json_object \<Rightarrow> client_outcome" where
  "client_event timegm get_cents get_u32 j =
     (case string_at j ''type'' of None \<Rightarrow> SKIP | Some type \<Rightarrow>
        if type = ''modify'' then SKIP
        else (case string_at j ''timestamp'' of None \<Rightarrow> SKIP | Some stamp \<Rightarrow>
          (case parse_timestamp_ns timegm stamp of None \<Rightarrow> THROWS | Some ts_ns \<Rightarrow>
            (case string_at j ''side'' of None \<Rightarrow> SKIP | Some [] \<Rightarrow> SKIP | Some (side_ch # _) \<Rightarrow>
              (case string_at j ''symbol'' of None \<Rightarrow> SKIP | Some tick \<Rightarrow>
                if (type = ''limit_add'' \<or> type = ''update'')
                   \<and> (value_at j ''price'' = JNull \<or> value_at j ''size'' = JNull)
                then SKIP
                else client_build get_cents get_u32 ts_ns type side_ch tick j)))))"

section \<open>What the parser reads from a message\<close>

lemma padded_length [simp]: "0 < n \<Longrightarrow> length (padded n s) = n"
  by (simp add: padded_def Let_def)

definition sent_fields :: "u64 \<Rightarrow> u8 \<Rightarrow> string \<Rightarrow> string \<Rightarrow> u32 \<Rightarrow> u32 \<Rightarrow> char \<Rightarrow> parsed_order" where
  "sent_fields ts_ns msg_type oid tick px sz side_ch =
     \<lparr> p_timestamp = ts_ns, p_msg_type = msg_type, p_order_id = padded ORDER_ID_LEN oid,
       p_ticker = padded TICKER_LEN tick,
       p_price = (if msg_type = TYPE_CANCEL then 0 else px), p_qty = (if msg_type = TYPE_CANCEL then 0 else ucast sz),
       p_is_buy = (msg_type = TYPE_LIMIT_BUY \<or> msg_type = TYPE_UPDATE \<and> side_ch = CHR ''B'') \<rparr>"

lemma be_at: "length as = off \<Longrightarrow> length bs = n \<Longrightarrow> be (as @ bs @ cs) off n = load_le (rev bs)"
  by (simp add: be_def)

lemma load_rev_htonl: "load_le (rev (store_le 4 (htonl v))) = v"
proof -
  have "load_le (rev (store_le 4 (htonl v))) = ntohl (load_le (store_le 4 (htonl v)))" by (simp add: ntohl_bytes)
  also have "load_le (store_le 4 (htonl v)) = htonl v" by (simp add: load_store_le take_bit_word_eq_self)
  finally show ?thesis by (simp add: ntohl_htonl)
qed

lemma load_rev_htonll: "load_le (rev (store_le 8 (htonll v))) = v"
proof -
  have "load_le (rev (store_le 8 (htonll v))) = ntohll (load_le (store_le 8 (htonll v)))" by (simp add: ntohll_bytes)
  also have "load_le (store_le 8 (htonll v)) = htonll v" by (simp add: load_store_le take_bit_word_eq_self)
  finally show ?thesis by (simp add: ntohll_htonll)
qed

lemma client_message_fields:
  assumes "m = client_message ts_ns ty oid tick px sz side_ch" and "ty \<in> {TYPE_LIMIT_BUY, TYPE_LIMIT_SELL, TYPE_UPDATE, TYPE_CANCEL}"
  shows "29 \<le> length m" "m ! 8 = ty" "message_length ty \<le> length m"
    "parsed_fields m = sent_fields ts_ns ty oid tick px sz side_ch"
proof -
  define a where "a = store_le 8 (htonll ts_ns)"
  define i where "i = padded ORDER_ID_LEN oid"
  define t where "t = padded TICKER_LEN tick"
  define r where "r = (if ty = TYPE_LIMIT_BUY \<or> ty = TYPE_LIMIT_SELL \<or> ty = TYPE_UPDATE then
          store_le 4 (htonl px) @ store_le 4 (htonl sz) @ (if ty = TYPE_UPDATE then [of_char side_ch :: u8] else [])
        else [])"
  have len: "length a = 8" "length i = 16" "length t = 4"
    by (simp_all add: a_def i_def t_def wire_lengths)
  have m: "m = a @ [ty] @ i @ t @ r" by (simp add: assms(1) client_message_def a_def i_def t_def r_def)
  show "29 \<le> length m" "m ! 8 = ty" using len by (simp_all add: m nth_append)
  then show "message_length ty \<le> length m" using assms(2) len by (auto simp: m message_length_def r_def)
  have ts: "be m 0 8 = (ts_ns :: u64)" by (simp add: m be_def a_def load_rev_htonll)
  have idt: "take ORDER_ID_LEN (drop 9 m) = i" "take TICKER_LEN (drop 25 m) = t" "drop 29 m = r"
    using len by (simp_all add: m wire_lengths)
  have pq: "be m 29 4 = px \<and> be m 33 4 = sz" if "ty \<noteq> TYPE_CANCEL"
  proof -
    have r': "r = store_le 4 (htonl px) @ store_le 4 (htonl sz) @ (if ty = TYPE_UPDATE then [of_char side_ch] else [])"
      using that assms(2) by (auto simp: r_def)
    have "drop 33 m = drop 4 (drop 29 m)" by simp
    then show ?thesis unfolding be_def idt(3) by (simp add: idt(3) r' load_rev_htonl)
  qed
  have side: "m ! 37 = of_char side_ch" if "ty = TYPE_UPDATE"
  proof -
    have "m ! 37 = drop 29 m ! 8" using \<open>29 \<le> length m\<close> by simp
    then show ?thesis using that by (simp add: idt(3) r_def nth_append)
  qed
  have "(of_char side_ch :: u8) = 0x42 \<longleftrightarrow> side_ch = CHR ''B''"
  proof -
    have "(of_char side_ch :: u8) = of_char (CHR ''B'') \<longleftrightarrow> side_ch = CHR ''B''"
    proof
      assume h: "(of_char side_ch :: u8) = of_char (CHR ''B'')"
      have "unat (of_char c :: u8) = of_char c" for c
        by (cases c) (simp add: of_char_def)
      with h have "(of_char side_ch :: nat) = of_char (CHR ''B'')" by metis
      then show "side_ch = CHR ''B''" by (simp only: of_char_eq_iff)
    qed simp
    then show ?thesis by simp
  qed
  with \<open>m ! 8 = ty\<close> ts idt pq side assms(2)
  show "parsed_fields m = sent_fields ts_ns ty oid tick px sz side_ch"
    by (auto simp: parsed_fields_def sent_fields_def Let_def i_def t_def)
qed

section \<open>Properties\<close>



text \<open>
  The client keeps three characters of a ticker, so two symbols that differ only in the fourth
  are sent as the same message and share an order book.
\<close>

theorem client_merges_tickers:
  "client_message ts_ns ty oid ''AAPL'' px sz side_ch = client_message ts_ns ty oid ''AAPB'' px sz side_ch"
  by (simp add: client_message_def padded_def bytes_of_def TICKER_LEN_def)

lemma read_nat_zeros: "read_nat (ds @ replicate k (CHR ''0'')) = read_nat ds * 10 ^ k"
proof -
  have "foldl (\<lambda>a c. 10 * a + (of_char c - 48)) n (replicate k (CHR ''0'')) = n * 10 ^ k" for n :: nat
    by (induction k arbitrary: n) simp_all
  then show ?thesis by (simp add: read_nat_def)
qed

lemma digit_not_sign: "is_digit c \<Longrightarrow> \<not> is_space c \<and> c \<noteq> CHR ''-'' \<and> c \<noteq> CHR ''+''"
  by (auto simp: is_digit_def is_space_def)

lemma stoi_digits:
  assumes "ds \<noteq> []" and "\<forall>c \<in> set ds. is_digit c"
  shows "stoi ds = Some (int (read_nat ds))"
proof -
  obtain c cs where ds: "ds = c # cs" using assms(1) by (cases ds) auto
  with assms(2) have "is_digit c" by simp
  note n = digit_not_sign [OF this]
  have "takeWhile is_digit ds = ds" using assms(2) by (simp add: takeWhile_eq_all_conv)
  with n show ?thesis by (simp add: stoi_def ds)
qed

text \<open>
  Reading the time stamps of the event file. A fraction of up to six digits is padded to
  microseconds, so it counts with its decimal value whatever its length.
\<close>

theorem client_timestamp_fraction:
  assumes "CHR ''.'' \<notin> set core" and "parse_time timegm core = Some sec"
    and "\<forall>c \<in> set frac. is_digit c" and "frac \<noteq> []" and "length frac \<le> 6"
  shows "parse_timestamp_ns timegm (core @ CHR ''.'' # frac)
    = Some (word_of_int sec * 1000000000 + of_nat (read_nat frac * 10 ^ (6 - length frac)) * 1000)"
proof -
  have c: "takeWhile (\<lambda>c. c \<noteq> CHR ''.'') (core @ CHR ''.'' # frac) = core"
    "dropWhile (\<lambda>c. c \<noteq> CHR ''.'') (core @ CHR ''.'' # frac) = CHR ''.'' # frac"
  proof -
    have "\<forall>c \<in> set core. c \<noteq> CHR ''.''" using assms(1) by auto
    then show "takeWhile (\<lambda>c. c \<noteq> CHR ''.'') (core @ CHR ''.'' # frac) = core"
      "dropWhile (\<lambda>c. c \<noteq> CHR ''.'') (core @ CHR ''.'' # frac) = CHR ''.'' # frac" by simp_all
  qed
  have "stoi (frac @ replicate (6 - length frac) (CHR ''0'')) = Some (int (read_nat frac * 10 ^ (6 - length frac)))"
    using assms(3,4) by (subst stoi_digits) (auto simp: read_nat_zeros is_digit_def)
  with assms(2,5) show ?thesis by (simp add: parse_timestamp_ns_def c)
qed

lemma ex_parse_time: "parse_time timegm ''2024-03-05T09:30:01''
    = Some (timegm \<lparr> tm_year = 124, tm_mon = 2, tm_mday = 5, tm_hour = 9, tm_min = 30, tm_sec = 1 \<rparr>)"
  by (simp add: parse_time_def number_at_def substr_def stoi_def is_space_def is_digit_def read_nat_def)

theorem client_timestamp_fraction_witness:
  "parse_timestamp_ns (\<lambda>t. tm_sec t) (''2024-03-05T09:30:01'' @ CHR ''.'' # ''25'') = Some (1 * 1000000000 + 250000 * 1000)"
  using client_timestamp_fraction [of "''2024-03-05T09:30:01''" "\<lambda>t. tm_sec t" _ "''25''", OF _ ex_parse_time]
  by (simp add: is_digit_def read_nat_def)

text \<open>
  A line of the event file that is neither an addition nor a modification nor a cancellation,
  and has no price, ends the replay: the conversion of the missing value throws, and nothing
  catches it.
\<close>

theorem client_unpriced_event_throws:
  assumes "string_at j ''type'' = Some ''trade''" and "string_at j ''timestamp'' = Some stamp"
    and "parse_timestamp_ns timegm stamp = Some ts" and "string_at j ''side'' = Some (c # cs)"
    and "string_at j ''symbol'' = Some tick" and "j ''price'' = None" and "get_cents JNull = None"
  shows "client_event timegm get_cents get_u32 j = THROWS"
  using assms by (simp add: client_event_def client_build_def client_msg_type_def value_at_def)

definition ex_trade :: "unit json_object" where
  "ex_trade = [''type'' \<mapsto> JString ''trade'', ''timestamp'' \<mapsto> JString ''2024-03-05T09:30:01'',
     ''side'' \<mapsto> JString ''B'', ''symbol'' \<mapsto> JString ''IBM'']"

theorem client_unpriced_event_throws_witness:
  "client_event (\<lambda>t. tm_sec t) (\<lambda>_. None) (\<lambda>_. None) ex_trade = THROWS"
proof (rule client_unpriced_event_throws)
  show "parse_timestamp_ns (\<lambda>t. tm_sec t) ''2024-03-05T09:30:01'' = Some (1 * 1000000000)"
    using ex_parse_time by (simp add: parse_timestamp_ns_def)
qed (simp_all add: ex_trade_def string_at_def)

end
