(* ===== verification/Order_Handling.thy ===== *)
theory Order_Handling
  imports Execution
begin

text \<open>
  What a book thread does with one order (\<open>Exchange::book_loop\<close> of src/local_exchange.cpp and
  src/exchange.cpp): dispatch on the status of the order, then match. \<open>None\<close> stands for
  undefined behaviour, as in the theory \<open>Orderbook\<close>.
\<close>

section \<open>Dispatch\<close>

text \<open>The result is \<open>None\<close> for a status that is none of the enumerators; then nothing happens.\<close>

definition dispatch_order ::
  "(order_t \<Rightarrow> order_t option) \<Rightarrow> order_t \<Rightarrow> orderbook \<Rightarrow> ((order_result option \<times> log_event_t list) \<times> orderbook) option" where
  "dispatch_order dead order ob =
     (let key = key_of order; status = o_status order in
      if status = NEW then (case book_add order ob of ((r, evs), ob1) \<Rightarrow> Some ((Some r, evs), ob1))
      else if status = CANCELLED then
        (case book_cancel dead key ob of Some ((r, evs), ob1) \<Rightarrow> Some ((Some r, evs), ob1) | None \<Rightarrow> None)
      else if status = PARTIALLY_FILLED \<or> status = FILLED then
        (case book_modify dead key order ob of Some ((r, evs), ob1) \<Rightarrow> Some ((Some r, evs), ob1) | None \<Rightarrow> None)
      else Some ((None, []), ob))"

definition process_order ::
  "(order_t \<Rightarrow> order_t option) \<Rightarrow> u64 \<Rightarrow> order_t \<Rightarrow> orderbook \<Rightarrow> (log_event_t list \<times> orderbook) option" where
  "process_order dead match_ts order ob = do {
     ((res, evs), ob1) \<leftarrow> dispatch_order dead order ob;
     (trades, ob2) \<leftarrow> execute match_ts ob1;
     Some (evs @ trades, ob2)
   }"

section \<open>The state of a book between two orders\<close>

definition uncrossed :: "orderbook \<Rightarrow> bool" where
  "uncrossed ob \<longleftrightarrow> (case (best_bid ob, best_ask ob) of (Some b, Some a) \<Rightarrow> b < a | _ \<Rightarrow> True)"

definition book_ready :: "u8 list \<Rightarrow> orderbook \<Rightarrow> bool" where
  "book_ready ticker ob \<longleftrightarrow> book_inv ob \<and> uncrossed ob \<and> (\<forall>x \<in> ran (book_map ob). o_ticker x = ticker)"

text \<open>The abstract effect of an order, before matching.\<close>

definition spec_dispatch :: "order_t \<Rightarrow> book_abs \<Rightarrow> order_result option \<times> book_abs" where
  "spec_dispatch x m =
     (if o_status x = NEW then (Some (fst (spec_add x m)), snd (spec_add x m))
      else if o_status x = CANCELLED then (Some (fst (spec_cancel (key_of x) m)), snd (spec_cancel (key_of x) m))
      else if o_status x = PARTIALLY_FILLED \<or> o_status x = FILLED then
        (Some (fst (spec_modify (key_of x) x m)), snd (spec_modify (key_of x) x m))
      else (None, m))"

lemma spec_dispatch_ran: "y \<in> ran (snd (spec_dispatch x m)) \<Longrightarrow> y = x \<or> y \<in> ran m"
  by (auto simp: spec_dispatch_def spec_add_def spec_cancel_def spec_modify_def ran_def split: if_splits)

text \<open>
  The order whose erased element the book reads for its logger while it handles \<open>x\<close>: there is one
  when a cancellation or a modification succeeds in a book with a logger. Without \<open>dead\<close> for it, and only
  then, the handling is undefined.
\<close>

definition erased_read :: "order_t \<Rightarrow> orderbook \<Rightarrow> order_t option" where
  "erased_read x ob =
     (if log_attached ob \<and> (o_status x = CANCELLED \<or> (o_status x = PARTIALLY_FILLED \<or> o_status x = FILLED) \<and> spec_check x = SUCCESS)
      then book_map ob (key_of x) else None)"

lemma dispatch_order_ok:
  assumes inv: "book_inv ob" and wf: "order_wf x"
  shows "case dispatch_order dead x ob of
      None \<Rightarrow> \<exists>y. erased_read x ob = Some y \<and> dead y = None
    | Some ((r, evs), ob') \<Rightarrow> book_inv ob' \<and> spec_dispatch x (book_map ob) = (r, book_map ob')
        \<and> (\<forall>y. erased_read x ob = Some y \<longrightarrow> dead y \<noteq> None)"
proof -
  consider (new) "o_status x = NEW" | (cancel) "o_status x = CANCELLED"
    | (modify) "o_status x = PARTIALLY_FILLED \<or> o_status x = FILLED"
    | (other) "o_status x \<notin> {NEW, PARTIALLY_FILLED, FILLED, CANCELLED}" by auto
  then show ?thesis
  proof cases
    case new
    obtain r evs ob' where e: "book_add x ob = ((r, evs), ob')" by (metis prod.collapse)
    from book_add_ok(1,2) [OF inv wf e] e new show ?thesis
      by (simp add: dispatch_order_def spec_dispatch_def Let_def erased_read_def)
  next
    case cancel
    from book_cancel_ok [OF inv, where dead = dead and k = "key_of x"] cancel show ?thesis
      by (auto simp: dispatch_order_def spec_dispatch_def Let_def erased_read_def split: option.splits)
  next
    case modify
    then have st: "o_status x \<noteq> NEW" "o_status x \<noteq> CANCELLED" by auto
    have c: "spec_check x = SUCCESS" if "spec_modify (key_of x) x m = (SUCCESS, m')" for m m'
      using that by (auto simp: spec_modify_def split: if_splits)
    have n: "spec_modify (key_of x) x m = (r, m') \<Longrightarrow> m (key_of x) = Some y \<Longrightarrow> spec_check x = SUCCESS \<Longrightarrow> r = SUCCESS" for m m' r y
      by (auto simp: spec_modify_def)
    from book_modify_ok [OF inv wf refl, where dead = dead] modify st show ?thesis
      by (auto simp: dispatch_order_def spec_dispatch_def Let_def erased_read_def n split: option.splits)
  next
    case other
    with inv show ?thesis by (auto simp: dispatch_order_def spec_dispatch_def Let_def erased_read_def)
  qed
qed

lemma keep_open_tickers: "set (map o_ticker (keep_open (reduce_qty m x) xs)) \<subseteq> set (map o_ticker (x # xs))"
  by (auto simp: keep_open_def reduce_qty_def)

lemma match_tickers:
  "match_orders bs ss = (ts, bs', ss') \<Longrightarrow>
   o_ticker ` set bs' \<subseteq> o_ticker ` set bs \<and> o_ticker ` set ss' \<subseteq> o_ticker ` set ss"
proof (induction bs ss arbitrary: ts rule: match_orders.induct)
  case (3 b bs s ss)
  show ?case
  proof (cases "o_price b < o_price s")
    case True
    with 3 show ?thesis by simp
  next
    case False
    let ?m = "min (o_qty b) (o_qty s)"
    obtain ts1 bs1 ss1 where r: "match_orders (keep_open (reduce_qty ?m b) bs) (keep_open (reduce_qty ?m s) ss) = (ts1, bs1, ss1)"
      by (metis prod_cases3)
    with 3 False have "bs1 = bs'" "ss1 = ss'" by (auto simp: Let_def)
    with "3.IH" [OF False refl, of ts1] r
    have h: "o_ticker ` set bs' \<subseteq> o_ticker ` set (keep_open (reduce_qty ?m b) bs)"
      "o_ticker ` set ss' \<subseteq> o_ticker ` set (keep_open (reduce_qty ?m s) ss)" by simp_all
    show ?thesis
      by (intro conjI order_trans [OF h(1) keep_open_tickers [unfolded set_map]]
            order_trans [OF h(2) keep_open_tickers [unfolded set_map]])
  qed
qed auto

lemma book_orders:
  assumes "book_inv ob"
  shows "ran (book_map ob) = set (buy_list ob) \<union> set (sell_list ob)"
  using level_of_order(1) [OF assms] book_lists_ok(1,4) [OF assms] by (auto simp: is_side_def)

lemma process_order_ok:
  assumes "book_ready ticker ob" and "order_wf x" and "o_ticker x = ticker"
  shows "case process_order dead ts x ob of
      None \<Rightarrow> \<exists>y. erased_read x ob = Some y \<and> dead y = None
    | Some (evs, ob') \<Rightarrow> book_ready ticker ob' \<and> (\<forall>y. erased_read x ob = Some y \<longrightarrow> dead y \<noteq> None)"
proof (cases "dispatch_order dead x ob")
  case None
  then show ?thesis using dispatch_order_ok [OF _ assms(2), where ob = ob and dead = dead] assms(1) by (simp add: process_order_def book_ready_def)
next
  case (Some a)
  then obtain r evs ob1 where d: "dispatch_order dead x ob = Some ((r, evs), ob1)" by (metis prod.collapse)
  have inv: "book_inv ob" and t: "\<forall>x \<in> ran (book_map ob). o_ticker x = ticker"
    using assms(1) by (simp_all add: book_ready_def)
  have d1: "book_inv ob1" "spec_dispatch x (book_map ob) = (r, book_map ob1)" "\<forall>y. erased_read x ob = Some y \<longrightarrow> dead y \<noteq> None"
    using dispatch_order_ok [OF inv assms(2), where dead = dead] by (simp_all add: d)
  have t1: "\<forall>x \<in> ran (book_map ob1). o_ticker x = ticker"
    using spec_dispatch_ran [of _ x "book_map ob"] d1(2) t assms(3) by auto
  obtain trades ob2 where e: "execute ts ob1 = Some (if log_attached ob1 then map (trade_event ts) trades else [], ob2)"
    "book_inv ob2" "match_orders (buy_list ob1) (sell_list ob1) = (trades, buy_list ob2, sell_list ob2)"
    using execute_ok [OF d1(1), of ts] by blast
  have "uncrossed ob2"
    using match_uncrossed [OF e(3)] by (auto simp: uncrossed_def best_of_lists [OF e(2)] split: list.splits)
  moreover have "\<forall>x \<in> ran (book_map ob2). o_ticker x = ticker"
    using match_tickers [OF e(3)] t1 unfolding book_orders [OF e(2)] book_orders [OF d1(1)] by fastforce
  ultimately have "book_ready ticker ob2" using e(2) by (simp add: book_ready_def)
  moreover have "process_order dead ts x ob = Some (evs @ (if log_attached ob1 then map (trade_event ts) trades else []), ob2)"
    by (simp add: process_order_def d e(1))
  ultimately show ?thesis using d1(3) by simp
qed

lemma book_ready_new: "book_ready ticker (new_orderbook b)"
proof -
  have "book_inv (new_orderbook b)" by (rule book_inv_new)
  moreover have "ran (book_map (new_orderbook b)) = {}"
    by (auto simp: book_map_def new_orderbook_def ran_def)
  moreover have "uncrossed (new_orderbook b)"
    by (simp add: uncrossed_def best_bid_def new_orderbook_def)
  ultimately show ?thesis by (simp add: book_ready_def)
qed

end
