(* ===== verification/Local_Exchange.thy ===== *)
theory Local_Exchange
  imports Order_Handling Order_Parser Message_Queue
begin

text \<open>
  The exchange with one thread per bucket of tickers (includes/local_exchange.h,
  src/local_exchange.cpp). Any number of threads call the public operations, one call after the other; a
  bucket thread polls the queue of its bucket while the exchange runs. A run is a sequence of labelled steps, so
  every interleaving of the calls and the bucket threads is a trace. The queue keeps one stream of orders for each
  calling thread, in the order of its calls, and the bucket thread takes the next order from any of them
  (theory \<open>Message_Queue\<close>); it may also find none, as \<open>try_dequeue\<close> does while another thread is at work.

  The map of books of a bucket is not synchronised in the source. Inserting a book takes two steps
  here, and a bucket thread that looks up a book of the bucket between them is a data race, which is undefined
  behaviour. Not modelled: calls that overlap, which race on the map of buckets; that an insertion may rehash the
  map while a bucket thread works on a book it has looked up before; debug output.
\<close>

section \<open>Buckets\<close>

definition BUCKETS :: "string list" where
  "BUCKETS = [''A'', ''B'', ''C'', ''D'', ''EA-E'', ''EF-Z'', ''F'', ''G'', ''H'', ''IA-E'', ''IF-Z'',
     ''J'', ''K'', ''L'', ''M'', ''N'', ''O'', ''PA-E'', ''PF-Z'', ''Q'', ''R'', ''SA-E'', ''SF-N'', ''SO-Z'',
     ''T'', ''U'', ''V'', ''W'', ''X'', ''Y'', ''Z'']"

text \<open>\<open>std::toupper\<close> in the C locale.\<close>

definition toupper :: "u8 \<Rightarrow> u8" where
  "toupper c = (if 97 \<le> c \<and> c \<le> 122 then c - 32 else c)"

definition between :: "u8 \<Rightarrow> u8 \<Rightarrow> u8 \<Rightarrow> bool" where
  "between a b c \<longleftrightarrow> a \<le> c \<and> c \<le> b"

text \<open>The characters are compared as numbers: \<open>A\<close> is 65, \<open>E\<close> 69, \<open>F\<close> 70, \<open>N\<close> 78, \<open>Z\<close> 90.\<close>

definition get_bucket :: "u8 list \<Rightarrow> string" where
  "get_bucket ticker =
     (if ticker = [] then ''''
      else
        let c0 = toupper (hd ticker);
            c1 = (if length ticker > 1 then toupper (ticker ! 1) else 0)
        in if c0 = 69 then (if between 65 69 c1 then ''EA-E'' else ''EF-Z'')
           else if c0 = 73 then (if between 65 69 c1 then ''IA-E'' else ''IF-Z'')
           else if c0 = 80 then (if between 65 69 c1 then ''PA-E'' else ''PF-Z'')
           else if c0 = 83 then
             (if between 65 69 c1 then ''SA-E'' else if between 70 78 c1 then ''SF-N'' else ''SO-Z'')
           else if between 65 90 c0 then [char_of (unat c0)]
           else '''')"

section \<open>State\<close>

datatype book_pc = LOOP | POLL | DONE

record bucket_thread =
  bt_books :: "u8 list \<Rightarrow> orderbook option"
  bt_queue :: "order_t cqueue"
  bt_pc :: book_pc
  bt_joinable :: bool

text \<open>
  What a calling thread is in: \<open>INSERTING\<close> is the insertion of a book, with the order that the call will enqueue
  afterwards and the thread that enqueues it.
\<close>

datatype caller_pc =
  IDLE | INSERTING string "u8 list" "(nat \<times> order_t) option" | JOINING | DESTROYED | TERMINATED

record exchange =
  ex_buckets :: "string \<Rightarrow> bucket_thread option"
  ex_running :: bool
  ex_caller :: caller_pc
  ex_logger :: bool
  ex_log :: "log_event_t list"

definition exchange_new :: "bool \<Rightarrow> exchange" where
  "exchange_new logger_ptr = \<lparr> ex_buckets = (\<lambda>_. None), ex_running = False, ex_caller = IDLE,
     ex_logger = logger_ptr, ex_log = [] \<rparr>"

section \<open>Operations of the caller\<close>

text \<open>A bucket is created together with its thread.\<close>

definition new_bucket :: bucket_thread where
  "new_bucket = \<lparr> bt_books = (\<lambda>_. None), bt_queue = cq_empty, bt_pc = LOOP, bt_joinable = True \<rparr>"

definition ensure_bucket :: "string \<Rightarrow> exchange \<Rightarrow> exchange" where
  "ensure_bucket bucket ex =
     (if ex_buckets ex bucket = None then ex\<lparr> ex_buckets := (ex_buckets ex)(bucket \<mapsto> new_bucket) \<rparr> else ex)"

definition update_bucket :: "string \<Rightarrow> (bucket_thread \<Rightarrow> bucket_thread) \<Rightarrow> exchange \<Rightarrow> exchange" where
  "update_bucket bucket f ex =
     (case ex_buckets ex bucket of
        Some bt \<Rightarrow> ex\<lparr> ex_buckets := (ex_buckets ex)(bucket \<mapsto> f bt) \<rparr>
      | None \<Rightarrow> ex)"

definition push_order :: "string \<Rightarrow> (nat \<times> order_t) option \<Rightarrow> exchange \<Rightarrow> exchange" where
  "push_order bucket pending ex =
     (case pending of
        None \<Rightarrow> ex
      | Some (p, order) \<Rightarrow> update_bucket bucket (\<lambda>bt. bt\<lparr> bt_queue := cq_enqueue p order (bt_queue bt) \<rparr>) ex)"

text \<open>
  \<open>emplace\<close> of the book, then the rest of the call. A book that is there is left alone; for a new one the
  insertion begins, and \<open>insert_book\<close> ends it.
\<close>

definition emplace_book :: "string \<Rightarrow> u8 list \<Rightarrow> (nat \<times> order_t) option \<Rightarrow> exchange \<Rightarrow> exchange" where
  "emplace_book bucket ticker pending ex =
     (case ex_buckets ex bucket of
        None \<Rightarrow> ex
      | Some bt \<Rightarrow> if bt_books bt ticker = None then ex\<lparr> ex_caller := INSERTING bucket ticker pending \<rparr>
                  else push_order bucket pending ex)"

definition insert_book :: "exchange \<Rightarrow> exchange option" where
  "insert_book ex =
     (case ex_caller ex of
        INSERTING bucket ticker pending \<Rightarrow>
          Some ((push_order bucket pending (update_bucket bucket
            (\<lambda>bt. bt\<lparr> bt_books := (bt_books bt)(ticker \<mapsto> new_orderbook (ex_logger ex)) \<rparr>) ex))\<lparr> ex_caller := IDLE \<rparr>)
      | _ \<Rightarrow> None)"

definition add_symbol :: "u8 list \<Rightarrow> exchange \<Rightarrow> exchange" where
  "add_symbol symbol ex =
     (let ticker = take TICKER_LEN symbol; bucket = get_bucket ticker in
      if bucket = '''' then ex else emplace_book bucket ticker None (ensure_bucket bucket ex))"

text \<open>\<open>p\<close> is the calling thread.\<close>

definition enqueue_order :: "nat \<Rightarrow> order_t \<Rightarrow> exchange \<Rightarrow> exchange" where
  "enqueue_order p order ex =
     (let ticker = take TICKER_LEN (o_ticker order); bucket = get_bucket ticker in
      if bucket = '''' then ex else emplace_book bucket ticker (Some (p, order)) (ensure_bucket bucket ex))"

text \<open>The order a message carries, if the parser accepts it.\<close>

definition message_order :: "u8 list option \<Rightarrow> order_t option" where
  "message_order data =
     (case parse_message data new_parsed_order of
        Some (True, parsed) \<Rightarrow> Some (convert_to_order parsed)
      | _ \<Rightarrow> None)"

definition on_msg_received :: "nat \<Rightarrow> u8 list option \<Rightarrow> exchange \<Rightarrow> exchange" where
  "on_msg_received p data ex =
     (case message_order data of Some order \<Rightarrow> enqueue_order p order ex | None \<Rightarrow> ex)"

definition exchange_start :: "exchange \<Rightarrow> exchange" where
  "exchange_start ex = ex\<lparr> ex_running := True \<rparr>"

text \<open>\<open>stop\<close> clears the flag and, if it was set, waits for every joinable thread.\<close>

definition exchange_stop :: "exchange \<Rightarrow> exchange" where
  "exchange_stop ex = (if ex_running ex then ex\<lparr> ex_running := False, ex_caller := JOINING \<rparr> else ex)"

definition each_bucket :: "(bucket_thread \<Rightarrow> bool) \<Rightarrow> exchange \<Rightarrow> bool" where
  "each_bucket P ex = list_all (\<lambda>b. case ex_buckets ex b of Some bt \<Rightarrow> P bt | None \<Rightarrow> True) BUCKETS"

definition exchange_joined :: "exchange \<Rightarrow> exchange option" where
  "exchange_joined ex =
     (if each_bucket (\<lambda>bt. bt_joinable bt \<longrightarrow> bt_pc bt = DONE) ex
      then Some (ex\<lparr> ex_caller := IDLE,
             ex_buckets := (\<lambda>b. map_option (\<lambda>bt. bt\<lparr> bt_joinable := False \<rparr>) (ex_buckets ex b)) \<rparr>)
      else None)"

text \<open>
  Destroying an exchange that does not run; one that runs is stopped first. The destructor of a
  thread object that is still joinable ends the program.
\<close>

definition exchange_destroy :: "exchange \<Rightarrow> exchange" where
  "exchange_destroy ex =
     ex\<lparr> ex_caller := (if each_bucket (\<lambda>bt. \<not> bt_joinable bt) ex then DESTROYED else TERMINATED) \<rparr>"

section \<open>Steps of a bucket thread\<close>

text \<open>The test of the loop, and an iteration in which \<open>try_dequeue\<close> finds nothing.\<close>

definition bucket_test :: "string \<Rightarrow> exchange \<Rightarrow> exchange option" where
  "bucket_test b ex = (case ex_buckets ex b of None \<Rightarrow> None | Some bt \<Rightarrow>
     if bt_pc bt = LOOP
     then Some (update_bucket b (\<lambda>bt. bt\<lparr> bt_pc := (if ex_running ex then POLL else DONE) \<rparr>) ex) else None)"

definition bucket_sleep :: "string \<Rightarrow> exchange \<Rightarrow> exchange option" where
  "bucket_sleep b ex = (case ex_buckets ex b of None \<Rightarrow> None | Some bt \<Rightarrow>
     if bt_pc bt = POLL then Some (update_bucket b (\<lambda>bt. bt\<lparr> bt_pc := LOOP \<rparr>) ex) else None)"

text \<open>
  An iteration that takes \<open>order\<close>, the next one of the thread \<open>p\<close>, from the queue. The outer \<open>None\<close> is undefined
  behaviour, the inner \<open>None\<close> a step that is not possible.
\<close>

definition inserting :: "string \<Rightarrow> exchange \<Rightarrow> bool" where
  "inserting b ex = (case ex_caller ex of INSERTING bucket _ _ \<Rightarrow> bucket = b | _ \<Rightarrow> False)"

definition bucket_process ::
  "(order_t \<Rightarrow> order_t option) \<Rightarrow> u64 \<Rightarrow> string \<Rightarrow> nat \<Rightarrow> order_t \<Rightarrow> exchange \<Rightarrow> exchange option option" where
  "bucket_process dead match_ts b p order ex = (case ex_buckets ex b of None \<Rightarrow> Some None | Some bt \<Rightarrow>
     (case cq_dequeue p (bt_queue bt) of None \<Rightarrow> Some None | Some (x, rest) \<Rightarrow>
       if bt_pc bt \<noteq> POLL \<or> x \<noteq> order then Some None
       else if inserting b ex then None
       else
         let ticker = take TICKER_LEN (o_ticker order); bt1 = bt\<lparr> bt_queue := rest, bt_pc := LOOP \<rparr> in
         (case bt_books bt ticker of
            None \<Rightarrow> Some (Some (ex\<lparr> ex_buckets := (ex_buckets ex)(b \<mapsto> bt1) \<rparr>))
          | Some ob \<Rightarrow> do {
              (evs, ob1) \<leftarrow> process_order dead match_ts order ob;
              Some (Some (ex\<lparr> ex_buckets := (ex_buckets ex)(b \<mapsto> bt1\<lparr> bt_books := (bt_books bt1)(ticker \<mapsto> ob1) \<rparr>),
                              ex_log := ex_log ex @ evs \<rparr>))
            })))"

section \<open>Traces\<close>

datatype exchange_label =
    Start | Stop | Joined | Destroy
  | Add_Symbol "u8 list"
  | Message nat "u8 list"
  | Inserted
  | Test string
  | Sleep string
  | Process string nat order_t u64

fun caller_step :: "exchange_label \<Rightarrow> exchange \<Rightarrow> exchange option" where
  "caller_step Start ex = (if ex_caller ex = IDLE then Some (exchange_start ex) else None)"
| "caller_step Stop ex = (if ex_caller ex = IDLE then Some (exchange_stop ex) else None)"
| "caller_step Joined ex = (if ex_caller ex = JOINING then exchange_joined ex else None)"
| "caller_step Destroy ex = (if ex_caller ex = IDLE \<and> \<not> ex_running ex then Some (exchange_destroy ex) else None)"
| "caller_step (Add_Symbol symbol) ex =
     (if ex_caller ex = IDLE \<and> length symbol = TICKER_LEN then Some (add_symbol symbol ex) else None)"
| "caller_step (Message p data) ex = (if ex_caller ex = IDLE then Some (on_msg_received p (Some data) ex) else None)"
| "caller_step Inserted ex = insert_book ex"
| "caller_step _ ex = None"

fun bucket_step :: "(order_t \<Rightarrow> order_t option) \<Rightarrow> exchange_label \<Rightarrow> exchange \<Rightarrow> exchange option" where
  "bucket_step dead (Test b) ex = bucket_test b ex"
| "bucket_step dead (Sleep b) ex = bucket_sleep b ex"
| "bucket_step dead (Process b p order ts) ex =
     (case bucket_process dead ts b p order ex of Some (Some ex1) \<Rightarrow> Some ex1 | _ \<Rightarrow> None)"
| "bucket_step dead _ ex = None"

definition exchange_step :: "(order_t \<Rightarrow> order_t option) \<Rightarrow> exchange_label \<Rightarrow> exchange \<Rightarrow> exchange option" where
  "exchange_step dead l ex =
     (if ex_caller ex \<in> {DESTROYED, TERMINATED} then None
      else case l of
        Test _ \<Rightarrow> bucket_step dead l ex
      | Sleep _ \<Rightarrow> bucket_step dead l ex
      | Process _ _ _ _ \<Rightarrow> bucket_step dead l ex
      | _ \<Rightarrow> caller_step l ex)"

inductive exchange_trace :: "(order_t \<Rightarrow> order_t option) \<Rightarrow> exchange \<Rightarrow> exchange_label list \<Rightarrow> exchange \<Rightarrow> bool"
  for dead ex where
  ex_trace_nil: "exchange_trace dead ex [] ex"
| ex_trace_step: "exchange_trace dead ex ls ex1 \<Longrightarrow> exchange_step dead l ex1 = Some ex2
    \<Longrightarrow> exchange_trace dead ex (ls @ [l]) ex2"

end
