(* ===== verification/Exchange_Properties.thy ===== *)
theory Exchange_Properties
  imports Local_Exchange
begin

text \<open>
  The invariants of the exchange of the theory \<open>Local_Exchange\<close> over its traces, and its properties:
  every book stays well formed and uncrossed, orders are handled in the order of their
  messages, \<open>stop\<close> returns, and what can go wrong when threads are started too early.
\<close>


section \<open>Routing\<close>

lemma letter_buckets: "\<forall>n \<in> set [65..<91]. n \<notin> set [69, 73, 80, 83] \<longrightarrow> [char_of (n :: nat)] \<in> set BUCKETS"
  by code_simp

lemma split_buckets:
  "{''EA-E'', ''EF-Z'', ''IA-E'', ''IF-Z'', ''PA-E'', ''PF-Z'', ''SA-E'', ''SF-N'', ''SO-Z''} \<subseteq> set BUCKETS"
  by code_simp

lemma get_bucket_in:
  assumes "get_bucket ticker \<noteq> ''''"
  shows "get_bucket ticker \<in> set BUCKETS"
proof (cases "toupper (hd ticker) \<in> {69, 73, 80, 83}")
  case True
  with assms have "get_bucket ticker \<in> {''EA-E'', ''EF-Z'', ''IA-E'', ''IF-Z'', ''PA-E'', ''PF-Z'', ''SA-E'', ''SF-N'', ''SO-Z''}"
    by (auto simp: get_bucket_def Let_def split: if_splits)
  with split_buckets show ?thesis by blast
next
  case False
  let ?n = "unat (toupper (hd ticker))"
  have g: "between 65 90 (toupper (hd ticker))" "get_bucket ticker = [char_of ?n]"
    using assms False by (auto simp: get_bucket_def Let_def split: if_splits)
  then have "?n \<in> set [65..<91]" by (auto simp: between_def word_le_nat_alt simp del: upt_rec_numeral)
  moreover have "?n \<notin> set [69, 73, 80, 83]"
  proof
    assume "?n \<in> set [69, 73, 80, 83]"
    then have "toupper (hd ticker) \<in> {69, 73, 80, 83}" by (auto simp: word_unat_eq_iff)
    with False show False by blast
  qed
  ultimately show ?thesis using letter_buckets g(2) by metis
qed

text \<open>A ticker is routed exactly when its first character is a letter.\<close>

lemma get_bucket_none_iff:
  "get_bucket ticker = '''' \<longleftrightarrow> ticker = [] \<or> \<not> between 65 90 (toupper (hd ticker))"
  by (auto simp: get_bucket_def Let_def between_def)

text \<open>The bucket depends on the first two characters only, and not on their case.\<close>

lemma get_bucket_prefix:
  "length t > 1 \<Longrightarrow> length t' > 1 \<Longrightarrow> map toupper (take 2 t) = map toupper (take 2 t') \<Longrightarrow> get_bucket t = get_bucket t'"
  by (cases t; cases t'; cases "tl t"; cases "tl t'") (auto simp: get_bucket_def Let_def numeral_2_eq_2)

section \<open>The invariant\<close>

definition order_routed :: "string \<Rightarrow> order_t \<Rightarrow> bool" where
  "order_routed b x \<longleftrightarrow> order_wf x \<and> length (o_ticker x) = TICKER_LEN \<and> get_bucket (o_ticker x) = b"

definition bucket_inv :: "string \<Rightarrow> bucket_thread \<Rightarrow> bool" where
  "bucket_inv b bt \<longleftrightarrow>
     (\<forall>t ob. bt_books bt t = Some ob \<longrightarrow> get_bucket t = b \<and> book_ready t ob)
     \<and> (\<forall>p. \<forall>x \<in> set (bt_queue bt p). order_routed b x \<and> bt_books bt (o_ticker x) \<noteq> None)"

text \<open>The insertion of a book is into a bucket that is there, and the order that waits for it belongs to the book.\<close>

definition caller_inv :: "exchange \<Rightarrow> bool" where
  "caller_inv ex \<longleftrightarrow>
     (case ex_caller ex of
        INSERTING b t pending \<Rightarrow> ex_buckets ex b \<noteq> None \<and> get_bucket t = b
          \<and> (case pending of Some (p, x) \<Rightarrow> order_routed b x \<and> o_ticker x = t | None \<Rightarrow> True)
      | _ \<Rightarrow> True)"

definition exchange_inv :: "exchange \<Rightarrow> bool" where
  "exchange_inv ex \<longleftrightarrow> (\<forall>b bt. ex_buckets ex b = Some bt \<longrightarrow> b \<in> set BUCKETS \<and> bucket_inv b bt) \<and> caller_inv ex"

text \<open>What the thread \<open>p\<close> has sent to a bucket and is not handled yet: queued, or waiting for a book to be inserted.\<close>

definition pending_of :: "nat \<Rightarrow> string \<Rightarrow> exchange \<Rightarrow> order_t list" where
  "pending_of p b ex =
     (case ex_caller ex of INSERTING bucket t (Some (q, x)) \<Rightarrow> if bucket = b \<and> q = p then [x] else [] | _ \<Rightarrow> [])"

definition queue_of :: "nat \<Rightarrow> string \<Rightarrow> exchange \<Rightarrow> order_t list" where
  "queue_of p b ex = (case ex_buckets ex b of Some bt \<Rightarrow> bt_queue bt p | None \<Rightarrow> []) @ pending_of p b ex"

lemma exchange_invD:
  "exchange_inv ex \<Longrightarrow> ex_buckets ex b = Some bt \<Longrightarrow> b \<in> set BUCKETS \<and> bucket_inv b bt"
  "exchange_inv ex \<Longrightarrow> caller_inv ex"
  by (simp_all add: exchange_inv_def)

lemma exchange_inv_put:
  assumes "exchange_inv ex" and "ex_buckets ex' = (ex_buckets ex)(c \<mapsto> bt)" and "c \<in> set BUCKETS" and "bucket_inv c bt"
    and "ex_caller ex' = ex_caller ex \<or> ex_caller ex' = IDLE"
  shows "exchange_inv ex'"
proof -
  have "caller_inv ex'"
    using assms(5)
  proof
    assume "ex_caller ex' = ex_caller ex"
    with exchange_invD(2) [OF assms(1)] assms(2) show ?thesis by (auto simp: caller_inv_def split: caller_pc.splits)
  qed (simp add: caller_inv_def)
  with assms(1-4) show ?thesis by (auto simp: exchange_inv_def)
qed

lemma bucket_inv_new: "bucket_inv b new_bucket"
  by (simp add: bucket_inv_def new_bucket_def cq_empty_def)

lemma bucket_inv_book:
  "bucket_inv b bt \<Longrightarrow> get_bucket t = b \<Longrightarrow> bucket_inv b (bt\<lparr> bt_books := (bt_books bt)(t \<mapsto> new_orderbook lg) \<rparr>)"
  by (auto simp: bucket_inv_def book_ready_new)

lemma bucket_inv_enqueue:
  "bucket_inv b bt \<Longrightarrow> order_routed b x \<Longrightarrow> bt_books bt (o_ticker x) \<noteq> None
    \<Longrightarrow> bucket_inv b (bt\<lparr> bt_queue := cq_enqueue p x (bt_queue bt) \<rparr>)"
  by (auto simp: bucket_inv_def cq_enqueue_def)

text \<open>The value of the operations that touch one bucket, on the bucket they touch.\<close>

definition bucket_at :: "string \<Rightarrow> exchange \<Rightarrow> bucket_thread" where
  "bucket_at b ex = (case ex_buckets ex b of Some bt \<Rightarrow> bt | None \<Rightarrow> new_bucket)"

lemma push_order_eq:
  "ex_buckets ex b = Some bt \<Longrightarrow> push_order b pending ex = (case pending of None \<Rightarrow> ex
     | Some (p, x) \<Rightarrow> ex\<lparr> ex_buckets := (ex_buckets ex)(b \<mapsto> bt\<lparr> bt_queue := cq_enqueue p x (bt_queue bt) \<rparr>) \<rparr>)"
  by (auto simp: push_order_def update_bucket_def split: option.split)

lemma ensure_bucket_at:
  "ex_buckets (ensure_bucket b ex) = (ex_buckets ex)(b \<mapsto> bucket_at b ex)" "ex_caller (ensure_bucket b ex) = ex_caller ex"
  "ex_running (ensure_bucket b ex) = ex_running ex"
  by (auto simp: ensure_bucket_def bucket_at_def split: option.splits)

lemma emplace_ensured:
  "emplace_book b t pending (ensure_bucket b ex) =
     (if bt_books (bucket_at b ex) t = None then (ensure_bucket b ex)\<lparr> ex_caller := INSERTING b t pending \<rparr>
      else push_order b pending (ensure_bucket b ex))"
  by (simp add: emplace_book_def ensure_bucket_at)

lemma bucket_at_inv: "exchange_inv ex \<Longrightarrow> bucket_inv b (bucket_at b ex)"
  by (auto simp: bucket_at_def bucket_inv_new dest: exchange_invD split: option.splits)

lemma exchange_inv_emplace:
  assumes inv: "exchange_inv ex" and b: "get_bucket t \<noteq> ''''" and idle: "ex_caller ex = IDLE"
    and x: "\<And>p x. pending = Some (p, x) \<Longrightarrow> order_routed (get_bucket t) x \<and> o_ticker x = t"
  shows "exchange_inv (emplace_book (get_bucket t) t pending (ensure_bucket (get_bucket t) ex))"
proof -
  let ?b = "get_bucket t"
  let ?ex = "ensure_bucket ?b ex"
  have bin: "?b \<in> set BUCKETS" by (rule get_bucket_in [OF b])
  have inv1: "exchange_inv ?ex"
    by (rule exchange_inv_put [OF inv _ bin bucket_at_inv [OF inv]]) (simp_all add: ensure_bucket_at)
  show ?thesis
  proof (cases "bt_books (bucket_at ?b ex) t")
    case None
    have "caller_inv (?ex\<lparr> ex_caller := INSERTING ?b t pending \<rparr>)"
      using x by (auto simp: caller_inv_def ensure_bucket_at split: option.split)
    with None inv1 show ?thesis by (simp add: emplace_ensured exchange_inv_def)
  next
    case (Some ob)
    show ?thesis
    proof (cases pending)
      case None
      with Some inv1 show ?thesis by (simp add: emplace_ensured push_order_def)
    next
      case (Some a)
      obtain p y where a: "a = (p, y)" by fastforce
      have "bucket_inv ?b ((bucket_at ?b ex)\<lparr> bt_queue := cq_enqueue p y (bt_queue (bucket_at ?b ex)) \<rparr>)"
        using x [OF Some [unfolded a]] \<open>bt_books (bucket_at ?b ex) t = Some ob\<close>
        by (intro bucket_inv_enqueue bucket_at_inv [OF inv]) auto
      from exchange_inv_put [OF inv1 _ bin this] show ?thesis
        using \<open>bt_books (bucket_at ?b ex) t = Some ob\<close> Some a
        by (simp add: emplace_ensured push_order_eq [OF fun_upd_same [THEN trans [OF fun_cong [OF ensure_bucket_at(1)]]]] ensure_bucket_at)
    qed
  qed
qed

lemma exchange_inv_add_symbol: "exchange_inv ex \<Longrightarrow> ex_caller ex = IDLE \<Longrightarrow> exchange_inv (add_symbol s ex)"
  by (auto simp: add_symbol_def Let_def intro!: exchange_inv_emplace)

lemma exchange_inv_enqueue:
  assumes "exchange_inv ex" and "ex_caller ex = IDLE" and "order_wf x" and "length (o_ticker x) = TICKER_LEN"
  shows "exchange_inv (enqueue_order p x ex)"
  using assms by (auto simp: enqueue_order_def Let_def order_routed_def intro!: exchange_inv_emplace)

lemma insert_book_eq:
  assumes "exchange_inv ex" and "ex_caller ex = INSERTING b t pending"
  shows "\<exists>bt. ex_buckets ex b = Some bt \<and> insert_book ex = Some (ex\<lparr> ex_caller := IDLE, ex_buckets := (ex_buckets ex)(b \<mapsto>
    bt\<lparr> bt_books := (bt_books bt)(t \<mapsto> new_orderbook (ex_logger ex)),
       bt_queue := (case pending of None \<Rightarrow> bt_queue bt | Some (p, x) \<Rightarrow> cq_enqueue p x (bt_queue bt)) \<rparr>) \<rparr>)"
  using exchange_invD(2) [OF assms(1)]
  by (auto simp: caller_inv_def insert_book_def push_order_def update_bucket_def assms(2) split: option.splits)

lemma exchange_inv_insert:
  assumes inv: "exchange_inv ex" and st: "insert_book ex = Some ex'"
  shows "exchange_inv ex'"
proof -
  obtain b t pending where c: "ex_caller ex = INSERTING b t pending" using st by (auto simp: insert_book_def split: caller_pc.splits)
  obtain bt where bt: "ex_buckets ex b = Some bt" "ex' = ex\<lparr> ex_caller := IDLE, ex_buckets := (ex_buckets ex)(b \<mapsto>
    bt\<lparr> bt_books := (bt_books bt)(t \<mapsto> new_orderbook (ex_logger ex)),
       bt_queue := (case pending of None \<Rightarrow> bt_queue bt | Some (p, x) \<Rightarrow> cq_enqueue p x (bt_queue bt)) \<rparr>) \<rparr>"
    using insert_book_eq [OF inv c] st by auto
  have k: "get_bucket t = b" "\<And>p x. pending = Some (p, x) \<Longrightarrow> order_routed b x \<and> o_ticker x = t"
    using exchange_invD(2) [OF inv] by (auto simp: caller_inv_def c)
  let ?bt = "bt\<lparr> bt_books := (bt_books bt)(t \<mapsto> new_orderbook (ex_logger ex)) \<rparr>"
  have b: "b \<in> set BUCKETS" "bucket_inv b ?bt" using exchange_invD(1) [OF inv bt(1)] k(1) by (simp_all add: bucket_inv_book)
  have "bucket_inv b (?bt\<lparr> bt_queue := (case pending of None \<Rightarrow> bt_queue bt | Some (p, x) \<Rightarrow> cq_enqueue p x (bt_queue bt)) \<rparr>)"
  proof (cases pending)
    case None
    with b(2) show ?thesis by simp
  next
    case (Some a)
    obtain p x where a: "a = (p, x)" by fastforce
    from bucket_inv_enqueue [OF b(2), of x p] k(2) [OF Some [unfolded a]] Some a show ?thesis by simp
  qed
  from exchange_inv_put [OF inv _ b(1) this] bt(2) show ?thesis by simp
qed

lemma message_order_ok:
  assumes "message_order data = Some x"
  shows "order_wf x" "length (o_ticker x) = TICKER_LEN" "o_side x \<in> {BUY, SELL}"
proof -
  obtain bs where d: "data = Some bs" "message_ok bs" "x = convert_to_order (parsed_fields bs)"
  proof (cases data)
    case None
    with assms show thesis by (simp add: message_order_def parse_message_def)
  next
    case (Some bs)
    with assms obtain p where "parse_message (Some bs) new_parsed_order = Some (True, p)" "x = convert_to_order p"
      by (auto simp: message_order_def split: option.splits bool.splits prod.splits)
    with Some show thesis using that by (auto simp: parse_message_accepts)
  qed
  from convert_to_order_ok [OF d(2,3)]
  show "order_wf x" "length (o_ticker x) = TICKER_LEN" "o_side x \<in> {BUY, SELL}" by (simp_all add: order_wf_def)
qed

lemma exchange_inv_msg: "exchange_inv ex \<Longrightarrow> ex_caller ex = IDLE \<Longrightarrow> exchange_inv (on_msg_received p data ex)"
  by (auto simp: on_msg_received_def message_order_ok intro: exchange_inv_enqueue split: option.splits)

lemma bucket_process_ok:
  assumes inv: "exchange_inv ex" and b: "ex_buckets ex b = Some bt" and q: "bt_queue bt p = x # rest" and pc: "bt_pc bt = POLL"
  shows "\<exists>ob. bt_books bt (o_ticker x) = Some ob \<and> (case bucket_process dead ts b p x ex of
      None \<Rightarrow> inserting b ex \<or> (\<exists>y. erased_read x ob = Some y \<and> dead y = None)
    | Some r \<Rightarrow> \<not> inserting b ex \<and> (\<forall>y. erased_read x ob = Some y \<longrightarrow> dead y \<noteq> None)
        \<and> (\<exists>evs ob'. book_ready (o_ticker x) ob' \<and> r = Some (ex\<lparr> ex_buckets := (ex_buckets ex)(b \<mapsto>
            bt\<lparr> bt_queue := (bt_queue bt)(p := rest), bt_pc := LOOP, bt_books := (bt_books bt)(o_ticker x \<mapsto> ob') \<rparr>),
            ex_log := ex_log ex @ evs \<rparr>)))"
proof -
  have bi: "bucket_inv b bt" using exchange_invD(1) [OF inv b] by simp
  then have "\<forall>y \<in> set (bt_queue bt p). order_routed b y \<and> bt_books bt (o_ticker y) \<noteq> None" by (simp add: bucket_inv_def)
  then have x: "order_wf x" "length (o_ticker x) = TICKER_LEN" "bt_books bt (o_ticker x) \<noteq> None"
    using q by (auto simp: order_routed_def)
  then obtain ob where ob: "bt_books bt (o_ticker x) = Some ob" by auto
  with bi have r: "book_ready (o_ticker x) ob" by (auto simp: bucket_inv_def)
  have d: "cq_dequeue p (bt_queue bt) = Some (x, (bt_queue bt)(p := rest))" by (simp add: cq_dequeue_def q)
  show ?thesis
  proof (cases "inserting b ex")
    case True
    with ob show ?thesis by (simp add: bucket_process_def b d pc)
  next
    case False
    then have e: "bucket_process dead ts b p x ex = (case process_order dead ts x ob of None \<Rightarrow> None
      | Some (evs, ob') \<Rightarrow> Some (Some (ex\<lparr> ex_buckets := (ex_buckets ex)(b \<mapsto>
            bt\<lparr> bt_queue := (bt_queue bt)(p := rest), bt_pc := LOOP, bt_books := (bt_books bt)(o_ticker x \<mapsto> ob') \<rparr>),
            ex_log := ex_log ex @ evs \<rparr>)))"
      by (simp add: bucket_process_def b d pc x(2) ob split: option.split)
    note P = process_order_ok [OF r x(1) refl, where dead = dead and ts = ts]
    show ?thesis
    proof (cases "process_order dead ts x ob")
      case None
      with P e ob show ?thesis by simp
    next
      case (Some a)
      obtain evs ob' where a: "a = (evs, ob')" by fastforce
      with Some P have "book_ready (o_ticker x) ob'" "\<forall>y. erased_read x ob = Some y \<longrightarrow> dead y \<noteq> None" by simp_all
      moreover note e [unfolded Some a option.case prod.case]
      ultimately show ?thesis using ob False by (intro exI [of _ ob]) (simp, blast)
    qed
  qed
qed

text \<open>The same for a step that is made.\<close>

lemma processE:
  assumes inv: "exchange_inv ex" and "bucket_process dead ts b p x ex = Some (Some ex')"
  obtains bt rest evs ob' where "ex_buckets ex b = Some bt" "bt_queue bt p = x # rest" "bt_pc bt = POLL"
    "bt_books bt (o_ticker x) \<noteq> None" "book_ready (o_ticker x) ob'"
    "ex' = ex\<lparr> ex_buckets := (ex_buckets ex)(b \<mapsto>
            bt\<lparr> bt_queue := (bt_queue bt)(p := rest), bt_pc := LOOP, bt_books := (bt_books bt)(o_ticker x \<mapsto> ob') \<rparr>),
            ex_log := ex_log ex @ evs \<rparr>"
proof -
  obtain bt rest where bt: "ex_buckets ex b = Some bt" "bt_queue bt p = x # rest" "bt_pc bt = POLL"
    using assms(2) by (auto simp: bucket_process_def cq_dequeue_def split: option.splits list.splits if_splits)
  from bucket_process_ok [OF inv bt, where dead = dead and ts = ts] assms(2) bt that show thesis by auto
qed

lemma bucket_inv_pc: "bucket_inv b bt \<Longrightarrow> bucket_inv b (bt\<lparr> bt_pc := pc \<rparr>)" "bucket_inv b bt \<Longrightarrow> bucket_inv b (bt\<lparr> bt_joinable := j \<rparr>)"
  by (simp_all add: bucket_inv_def)

lemma exchange_inv_bucket_step:
  assumes inv: "exchange_inv ex" and st: "bucket_step dead l ex = Some ex'"
  shows "exchange_inv ex'"
proof (cases l)
  case (Test b)
  with st obtain bt where bt: "ex_buckets ex b = Some bt"
    "ex' = ex\<lparr> ex_buckets := (ex_buckets ex)(b \<mapsto> bt\<lparr> bt_pc := (if ex_running ex then POLL else DONE) \<rparr>) \<rparr>"
    by (auto simp: bucket_test_def update_bucket_def split: option.splits if_splits)
  with exchange_invD(1) [OF inv bt(1)] show ?thesis
    by (intro exchange_inv_put [OF inv, of _ b]) (auto intro: bucket_inv_pc)
next
  case (Sleep b)
  with st obtain bt where bt: "ex_buckets ex b = Some bt" "ex' = ex\<lparr> ex_buckets := (ex_buckets ex)(b \<mapsto> bt\<lparr> bt_pc := LOOP \<rparr>) \<rparr>"
    by (auto simp: bucket_sleep_def update_bucket_def split: option.splits if_splits)
  with exchange_invD(1) [OF inv bt(1)] show ?thesis
    by (intro exchange_inv_put [OF inv, of _ b]) (auto intro: bucket_inv_pc)
next
  case (Process b p x ts)
  then have "bucket_process dead ts b p x ex = Some (Some ex')"
    using st by (auto split: option.splits)
  from processE [OF inv this] obtain bt rest evs ob' where
    bt: "ex_buckets ex b = Some bt" "bt_queue bt p = x # rest" "book_ready (o_ticker x) ob'" "bt_books bt (o_ticker x) \<noteq> None"
    and ex': "ex' = ex\<lparr> ex_buckets := (ex_buckets ex)(b \<mapsto>
        bt\<lparr> bt_queue := (bt_queue bt)(p := rest), bt_pc := LOOP, bt_books := (bt_books bt)(o_ticker x \<mapsto> ob') \<rparr>), ex_log := ex_log ex @ evs \<rparr>" .
  from exchange_invD(1) [OF inv bt(1)] have b: "b \<in> set BUCKETS" "bucket_inv b bt" by simp_all
  then have "bucket_inv b (bt\<lparr> bt_queue := (bt_queue bt)(p := rest), bt_pc := LOOP, bt_books := (bt_books bt)(o_ticker x \<mapsto> ob') \<rparr>)"
    using bt(2,3,4) by (auto simp: bucket_inv_def) (metis list.set_intros(2))+
  from exchange_inv_put [OF inv _ b(1) this] show ?thesis by (simp add: ex')
qed (use st in simp_all)

lemma exchange_inv_caller_step:
  assumes inv: "exchange_inv ex" and st: "caller_step l ex = Some ex'"
  shows "exchange_inv ex'"
proof (cases l)
  case (Add_Symbol s)
  with st exchange_inv_add_symbol [OF inv] show ?thesis by (auto split: if_splits)
next
  case (Message p data)
  with st exchange_inv_msg [OF inv] show ?thesis by (auto split: if_splits)
next
  case Inserted
  with st exchange_inv_insert [OF inv] show ?thesis by simp
next
  case Joined
  with st inv show ?thesis
    by (auto simp: exchange_joined_def exchange_inv_def bucket_inv_pc caller_inv_def split: if_splits)
qed (use st inv in \<open>auto simp: exchange_start_def exchange_stop_def exchange_destroy_def exchange_inv_def caller_inv_def
    split: if_splits caller_pc.splits\<close>)

lemma exchange_step_cases:
  assumes "exchange_step dead l ex = Some ex'"
  shows "caller_step l ex = Some ex' \<or> bucket_step dead l ex = Some ex'"
  using assms by (cases l) (auto simp: exchange_step_def split: if_splits)

lemma exchange_inv_step: "exchange_inv ex \<Longrightarrow> exchange_step dead l ex = Some ex' \<Longrightarrow> exchange_inv ex'"
  using exchange_step_cases [of dead l ex ex'] exchange_inv_bucket_step [of ex dead l ex'] exchange_inv_caller_step [of ex l ex'] by blast

lemma exchange_inv_trace: "exchange_trace dead (exchange_new lg) ls ex \<Longrightarrow> exchange_inv ex"
proof (induction rule: exchange_trace.induct)
  case ex_trace_nil
  show ?case by (simp add: exchange_new_def exchange_inv_def caller_inv_def)
qed (rule exchange_inv_step)

section \<open>Orders keep their order\<close>

text \<open>The orders that the messages of the thread \<open>p\<close> carry for a bucket, and the ones of \<open>p\<close> its thread has taken.\<close>

fun sent_to :: "nat \<Rightarrow> string \<Rightarrow> exchange_label list \<Rightarrow> order_t list" where
  "sent_to p b [] = []"
| "sent_to p b (Message q data # ls) =
     (case message_order (Some data) of
        Some x \<Rightarrow> if q = p \<and> get_bucket (o_ticker x) = b then [x] else []
      | None \<Rightarrow> []) @ sent_to p b ls"
| "sent_to p b (_ # ls) = sent_to p b ls"

fun handled_by :: "nat \<Rightarrow> string \<Rightarrow> exchange_label list \<Rightarrow> order_t list" where
  "handled_by p b [] = []"
| "handled_by p b (Process c q x ts # ls) = (if q = p \<and> c = b then [x] else []) @ handled_by p b ls"
| "handled_by p b (_ # ls) = handled_by p b ls"

lemma trace_lists_append [simp]:
  "sent_to p b (ls @ ls') = sent_to p b ls @ sent_to p b ls'"
  "handled_by p b (ls @ ls') = handled_by p b ls @ handled_by p b ls'"
  by (induction ls rule: sent_to.induct) simp_all

lemma queue_of_put:
  "ex_buckets ex' = (ex_buckets ex)(c \<mapsto> bt) \<Longrightarrow> ex_caller ex' = ex_caller ex
    \<Longrightarrow> queue_of p b ex' = (if b = c then bt_queue bt p @ pending_of p b ex else queue_of p b ex)"
  by (auto simp: queue_of_def pending_of_def)

lemma queue_bucket_step:
  assumes "bucket_step dead l ex = Some ex'" and "exchange_inv ex"
  shows "handled_by p b [l] @ queue_of p b ex' = queue_of p b ex \<and> sent_to p b [l] = []"
proof (cases l)
  case (Test c)
  with assms(1) show ?thesis
    by (auto simp: bucket_test_def update_bucket_def queue_of_def pending_of_def split: option.splits if_splits)
next
  case (Sleep c)
  with assms(1) show ?thesis
    by (auto simp: bucket_sleep_def update_bucket_def queue_of_def pending_of_def split: option.splits if_splits)
next
  case (Process c q x ts)
  then have pr: "bucket_process dead ts c q x ex = Some (Some ex')"
    using assms(1) by (auto split: option.splits)
  from processE [OF assms(2) pr] obtain bt rest evs ob' where
    bt: "ex_buckets ex c = Some bt" "bt_queue bt q = x # rest"
    and ex': "ex' = ex\<lparr> ex_buckets := (ex_buckets ex)(c \<mapsto>
        bt\<lparr> bt_queue := (bt_queue bt)(q := rest), bt_pc := LOOP, bt_books := (bt_books bt)(o_ticker x \<mapsto> ob') \<rparr>), ex_log := ex_log ex @ evs \<rparr>" .
  have "queue_of p b ex' = (if b = c then ((bt_queue bt)(q := rest)) p @ pending_of p b ex else queue_of p b ex)"
    using queue_of_put [of ex' ex c] by (simp add: ex')
  with Process bt show ?thesis by (auto simp: queue_of_def)
qed (use assms(1) in simp_all)

lemma queue_ensure: "queue_of p b (ensure_bucket c ex) = queue_of p b ex"
  by (auto simp: queue_of_def ensure_bucket_at pending_of_def bucket_at_def new_bucket_def cq_empty_def split: option.splits)

lemma queue_emplace:
  assumes "ex_caller ex = IDLE"
  shows "queue_of p b (emplace_book c t pending (ensure_bucket c ex)) = queue_of p b ex @
    (case pending of Some (q, x) \<Rightarrow> if c = b \<and> q = p then [x] else [] | None \<Rightarrow> [])"
proof -
  have n: "pending_of p b ex = []" by (simp add: pending_of_def assms)
  have at: "bt_queue (bucket_at c ex) p = queue_of p c ex"
    by (auto simp: queue_of_def bucket_at_def new_bucket_def cq_empty_def pending_of_def assms split: option.split)
  show ?thesis
  proof (cases "bt_books (bucket_at c ex) t")
    case None
    have "queue_of p b ((ensure_bucket c ex)\<lparr> ex_caller := INSERTING c t pending \<rparr>) = queue_of p b (ensure_bucket c ex) @
      (case pending of Some (q, x) \<Rightarrow> if c = b \<and> q = p then [x] else [] | None \<Rightarrow> [])"
      by (auto simp: queue_of_def pending_of_def ensure_bucket_at assms split: option.split)
    with None show ?thesis by (simp add: emplace_ensured queue_ensure)
  next
    case (Some ob)
    have "ex_buckets (ensure_bucket c ex) c = Some (bucket_at c ex)" by (simp add: ensure_bucket_at)
    note push = push_order_eq [OF this]
    show ?thesis
    proof (cases pending)
      case None
      with Some show ?thesis by (simp add: emplace_ensured push queue_ensure)
    next
      case (Some a)
      obtain q x where a: "a = (q, x)" by fastforce
      have "queue_of p b (push_order c pending (ensure_bucket c ex)) = queue_of p b ex @ (if c = b \<and> q = p then [x] else [])"
        unfolding Some a push option.case prod.case
        by (subst queue_of_put [of _ "ensure_bucket c ex" c])
           (auto simp: cq_enqueue_def at queue_ensure ensure_bucket_at pending_of_def assms)
      with Some a \<open>bt_books (bucket_at c ex) t = Some ob\<close> show ?thesis by (simp add: emplace_ensured)
    qed
  qed
qed

lemma queue_add_symbol: "ex_caller ex = IDLE \<Longrightarrow> queue_of p b (add_symbol s ex) = queue_of p b ex"
  by (simp add: add_symbol_def Let_def queue_emplace)

lemma queue_message:
  assumes "b \<noteq> ''''" and "ex_caller ex = IDLE"
  shows "queue_of p b (on_msg_received q (Some data) ex) = queue_of p b ex @ sent_to p b [Message q data]"
proof (cases "message_order (Some data)")
  case None
  then show ?thesis by (simp add: on_msg_received_def)
next
  case (Some x)
  from message_order_ok(2) [OF this] have "take TICKER_LEN (o_ticker x) = o_ticker x" by simp
  with Some assms show ?thesis
    by (auto simp: on_msg_received_def enqueue_order_def Let_def queue_emplace)
qed

lemma queue_insert:
  assumes inv: "exchange_inv ex" and st: "insert_book ex = Some ex'"
  shows "queue_of p b ex' = queue_of p b ex"
proof -
  obtain c t pending where cl: "ex_caller ex = INSERTING c t pending" using st by (auto simp: insert_book_def split: caller_pc.splits)
  obtain bt where bt: "ex_buckets ex c = Some bt" "ex' = ex\<lparr> ex_caller := IDLE, ex_buckets := (ex_buckets ex)(c \<mapsto>
    bt\<lparr> bt_books := (bt_books bt)(t \<mapsto> new_orderbook (ex_logger ex)),
       bt_queue := (case pending of None \<Rightarrow> bt_queue bt | Some (p, x) \<Rightarrow> cq_enqueue p x (bt_queue bt)) \<rparr>) \<rparr>"
    using insert_book_eq [OF inv cl] st by auto
  show ?thesis
    by (cases "b = c"; cases pending)
       (auto simp: bt queue_of_def pending_of_def cl cq_enqueue_def split: prod.split)
qed

lemma queue_caller_step:
  assumes "caller_step l ex = Some ex'" and "b \<noteq> ''''" and inv: "exchange_inv ex"
  shows "queue_of p b ex' = queue_of p b ex @ sent_to p b [l] \<and> handled_by p b [l] = []"
proof (cases l)
  case (Message q data)
  with assms show ?thesis using queue_message [OF assms(2)] by (auto split: if_splits simp del: sent_to.simps)
next
  case (Add_Symbol s)
  with assms show ?thesis by (auto simp: queue_add_symbol split: if_splits)
next
  case Inserted
  with assms show ?thesis by (simp add: queue_insert)
next
  case Joined
  with assms show ?thesis
    by (auto simp: exchange_joined_def queue_of_def pending_of_def split: if_splits option.splits)
qed (use assms in \<open>auto simp: exchange_start_def exchange_stop_def exchange_destroy_def queue_of_def pending_of_def
    split: if_splits option.splits\<close>)

lemma queue_trace:
  assumes "exchange_trace dead (exchange_new lg) ls ex" and "b \<noteq> ''''"
  shows "handled_by p b ls @ queue_of p b ex = sent_to p b ls"
  using assms
proof (induction rule: exchange_trace.induct)
  case ex_trace_nil
  show ?case by (simp add: exchange_new_def queue_of_def pending_of_def)
next
  case (ex_trace_step ls ex1 l ex2)
  note inv = exchange_inv_trace [OF ex_trace_step(1)]
  from exchange_step_cases [OF ex_trace_step(2)] show ?case
  proof
    assume "caller_step l ex1 = Some ex2"
    from queue_caller_step [OF this assms(2) inv, of p] ex_trace_step show ?thesis by simp
  next
    assume "bucket_step dead l ex1 = Some ex2"
    from queue_bucket_step [OF this inv, of p b] ex_trace_step show ?thesis
      by simp
  qed
qed

section \<open>Stopping\<close>

fun pc_rank :: "book_pc \<Rightarrow> nat" where
  "pc_rank LOOP = 1"
| "pc_rank POLL = 2"
| "pc_rank DONE = 0"

definition stop_fuel :: "exchange \<Rightarrow> nat" where
  "stop_fuel ex = (\<Sum>b \<leftarrow> BUCKETS. case ex_buckets ex b of Some bt \<Rightarrow> pc_rank (bt_pc bt) | None \<Rightarrow> 0)"

lemma stop_fuel_bound: "stop_fuel ex \<le> 2 * length BUCKETS"
proof -
  have "(\<Sum>b \<leftarrow> bs. case ex_buckets ex b of Some bt \<Rightarrow> pc_rank (bt_pc bt) | None \<Rightarrow> 0) \<le> 2 * length bs" for bs
  proof (induction bs)
    case (Cons b bs)
    have "(case ex_buckets ex b of Some bt \<Rightarrow> pc_rank (bt_pc bt) | None \<Rightarrow> 0) \<le> 2"
      by (cases "ex_buckets ex b"; simp) (rename_tac bt, case_tac "bt_pc bt"; simp)
    with Cons show ?case by simp
  qed simp
  then show ?thesis by (simp add: stop_fuel_def)
qed

lemma sum_list_one_less:
  fixes f g :: "'a \<Rightarrow> nat"
  assumes "c \<in> set bs" and "g c < f c" and "\<And>b. b \<noteq> c \<Longrightarrow> g b = f b"
  shows "(\<Sum>b \<leftarrow> bs. g b) < (\<Sum>b \<leftarrow> bs. f b)"
proof -
  have le: "g b \<le> f b" for b using assms(2,3) by (cases "b = c") simp_all
  from assms(1) show ?thesis
  proof (induction bs)
    case (Cons b bs)
    show ?case
    proof (cases "b = c")
      case True
      then show ?thesis using assms(2) sum_list_mono [of bs g f] le by (simp add: add_less_le_mono)
    next
      case False
      with Cons assms(3) show ?thesis by simp
    qed
  qed simp
qed

lemma stop_fuel_put:
  assumes "ex_buckets ex' = (ex_buckets ex)(c \<mapsto> bt')" and "ex_buckets ex c = Some bt" and "c \<in> set BUCKETS"
    and "pc_rank (bt_pc bt') < pc_rank (bt_pc bt)"
  shows "stop_fuel ex' < stop_fuel ex"
  unfolding stop_fuel_def by (rule sum_list_one_less [OF assms(3)]) (use assms in simp_all)

lemma stop_fuel_step:
  assumes inv: "exchange_inv ex" and "\<not> ex_running ex" and "bucket_step dead l ex = Some ex'"
  shows "stop_fuel ex' < stop_fuel ex \<and> \<not> ex_running ex' \<and> ex_caller ex' = ex_caller ex"
proof (cases l)
  case (Test b)
  with assms(2,3) obtain bt where bt: "ex_buckets ex b = Some bt" "bt_pc bt = LOOP"
    "ex' = ex\<lparr> ex_buckets := (ex_buckets ex)(b \<mapsto> bt\<lparr> bt_pc := DONE \<rparr>) \<rparr>"
    by (auto simp: bucket_test_def update_bucket_def split: option.splits if_splits)
  with stop_fuel_put [of ex' ex b "bt\<lparr> bt_pc := DONE \<rparr>" bt] exchange_invD(1) [OF inv bt(1)] assms(2) show ?thesis by simp
next
  case (Sleep b)
  with assms(2,3) obtain bt where bt: "ex_buckets ex b = Some bt" "bt_pc bt = POLL"
    "ex' = ex\<lparr> ex_buckets := (ex_buckets ex)(b \<mapsto> bt\<lparr> bt_pc := LOOP \<rparr>) \<rparr>"
    by (auto simp: bucket_sleep_def update_bucket_def split: option.splits if_splits)
  with stop_fuel_put [of ex' ex b "bt\<lparr> bt_pc := LOOP \<rparr>" bt] exchange_invD(1) [OF inv bt(1)] assms(2) show ?thesis by simp
next
  case (Process b p x ts)
  then have "bucket_process dead ts b p x ex = Some (Some ex')"
    using assms(3) by (auto split: option.splits)
  from processE [OF inv this] obtain bt rest evs ob' where
    bt: "ex_buckets ex b = Some bt" "bt_pc bt = POLL"
    and ex': "ex' = ex\<lparr> ex_buckets := (ex_buckets ex)(b \<mapsto>
        bt\<lparr> bt_queue := (bt_queue bt)(p := rest), bt_pc := LOOP, bt_books := (bt_books bt)(o_ticker x \<mapsto> ob') \<rparr>), ex_log := ex_log ex @ evs \<rparr>" .
  have "stop_fuel ex' < stop_fuel ex"
    using exchange_invD(1) [OF inv bt(1)] bt by (intro stop_fuel_put [OF _ bt(1)]) (auto simp: ex')
  with assms(2) show ?thesis by (simp add: ex')
qed (use assms(3) in simp_all)

lemma emplace_flags:
  "ex_running (emplace_book b t pending ex) = ex_running ex"
  "ex_caller (emplace_book b t pending ex) = ex_caller ex \<or> (\<exists>w. ex_caller (emplace_book b t pending ex) = INSERTING b t w)"
  by (auto simp: emplace_book_def push_order_def update_bucket_def split: option.split)

lemma caller_step_joining:
  assumes "caller_step l ex = Some ex'" and "ex_caller ex' = JOINING"
  shows "\<not> ex_running ex'"
proof (cases l)
  case (Message p data)
  have "ex_caller (on_msg_received p (Some data) ex) \<noteq> JOINING" if "ex_caller ex = IDLE"
    using that emplace_flags(2) [where ex = "ensure_bucket b ex" for b]
    by (auto simp: on_msg_received_def enqueue_order_def Let_def ensure_bucket_at split: option.split) (metis caller_pc.distinct)+
  with assms Message show ?thesis by (auto split: if_splits)
next
  case (Add_Symbol s)
  have "ex_caller (add_symbol s ex) \<noteq> JOINING" if "ex_caller ex = IDLE"
    using that emplace_flags(2) [where ex = "ensure_bucket b ex" for b]
    by (auto simp: add_symbol_def Let_def ensure_bucket_at) (metis caller_pc.distinct)+
  with assms Add_Symbol show ?thesis by (auto split: if_splits)
next
  case Inserted
  with assms show ?thesis by (auto simp: insert_book_def split: caller_pc.splits)
qed (use assms in \<open>auto simp: exchange_start_def exchange_stop_def exchange_joined_def exchange_destroy_def split: if_splits\<close>)

lemma joining_stopped: "exchange_trace dead (exchange_new lg) ls ex \<Longrightarrow> ex_caller ex = JOINING \<Longrightarrow> \<not> ex_running ex"
proof (induction rule: exchange_trace.induct)
  case (ex_trace_step ls ex1 l ex2)
  from exchange_step_cases [OF ex_trace_step(2)] show ?case
  proof
    assume "caller_step l ex1 = Some ex2"
    with ex_trace_step(4) show ?thesis using caller_step_joining by blast
  next
    assume b: "bucket_step dead l ex1 = Some ex2"
    have "ex_running ex2 = ex_running ex1 \<and> ex_caller ex2 = ex_caller ex1"
    proof (cases l)
      case (Process c p x ts)
      then have "bucket_process dead ts c p x ex1 = Some (Some ex2)"
        using b by (auto split: option.splits)
      from processE [OF exchange_inv_trace [OF ex_trace_step(1)] this] obtain bs evs where
        "ex2 = ex1\<lparr> ex_buckets := bs, ex_log := evs \<rparr>" by metis
      then show ?thesis by simp
    qed (use b in \<open>auto simp: bucket_test_def bucket_sleep_def update_bucket_def split: option.splits if_splits\<close>)
    with ex_trace_step(4) ex_trace_step.IH show ?thesis by simp
  qed
qed (simp add: exchange_new_def)

lemma exchange_trace_append:
  "exchange_trace dead ex1 ls2 ex2 \<Longrightarrow> exchange_trace dead ex ls1 ex1 \<Longrightarrow> exchange_trace dead ex (ls1 @ ls2) ex2"
proof (induction rule: exchange_trace.induct)
  case (ex_trace_step ls exa l exb)
  from exchange_trace.ex_trace_step [OF ex_trace_step.IH [OF ex_trace_step.prems] ex_trace_step(2)] show ?case by simp
qed simp

text \<open>While the caller waits in \<open>stop\<close>, only bucket threads move, and each step uses up fuel.\<close>

lemma joining_trace:
  assumes "exchange_trace dead ex ls' ex'" and "exchange_trace dead (exchange_new lg) ls ex"
    and "ex_caller ex = JOINING" and "Joined \<notin> set ls'"
  shows "length ls' + stop_fuel ex' \<le> stop_fuel ex \<and> ex_caller ex' = JOINING"
  using assms
proof (induction rule: exchange_trace.induct)
  case (ex_trace_step ls1 ex1 l ex2)
  then have IH: "length ls1 + stop_fuel ex1 \<le> stop_fuel ex" "ex_caller ex1 = JOINING" by simp_all
  note t = exchange_trace_append [OF ex_trace_step(1) assms(2)]
  have "caller_step l ex1 = None" using IH(2) ex_trace_step(6) by (cases l) (simp_all add: insert_book_def)
  with exchange_step_cases [OF ex_trace_step(2)] have "bucket_step dead l ex1 = Some ex2" by simp
  from stop_fuel_step [OF exchange_inv_trace [OF t] joining_stopped [OF t IH(2)] this] IH show ?case by simp
qed simp

lemma bucket_progress:
  assumes "ex_buckets ex b = Some bt" and "bt_pc bt \<noteq> DONE"
  shows "\<exists>l ex'. bucket_step dead l ex = Some ex' \<and> (l = Test b \<or> l = Sleep b)"
proof (cases "bt_pc bt")
  case LOOP
  with assms have "bucket_step dead (Test b) ex \<noteq> None" by (simp add: bucket_test_def)
  then show ?thesis by blast
next
  case POLL
  with assms have "bucket_step dead (Sleep b) ex \<noteq> None" by (simp add: bucket_sleep_def)
  then show ?thesis by blast
qed (use assms in simp)

lemma joining_progress:
  assumes "ex_caller ex = JOINING"
  shows "\<exists>l ex'. exchange_step dead l ex = Some ex'"
proof (cases "each_bucket (\<lambda>bt. bt_joinable bt \<longrightarrow> bt_pc bt = DONE) ex")
  case True
  with assms have "exchange_step dead Joined ex \<noteq> None" by (simp add: exchange_step_def exchange_joined_def)
  then show ?thesis by blast
next
  case False
  then obtain b bt where "ex_buckets ex b = Some bt" "bt_pc bt \<noteq> DONE"
    by (auto simp: each_bucket_def list_all_iff split: option.splits)
  from bucket_progress [OF this, of dead] obtain l ex' where
    "bucket_step dead l ex = Some ex'" "l = Test b \<or> l = Sleep b" by blast
  then have "exchange_step dead l ex = Some ex'" using assms by (auto simp: exchange_step_def)
  then show ?thesis by blast
qed

text \<open>A bucket thread that has ended stays so.\<close>

lemma emplace_other:
  assumes "ex_buckets ex b = Some bt"
  shows "\<exists>bt'. ex_buckets (emplace_book c t pending (ensure_bucket c ex)) b = Some bt' \<and> bt_pc bt' = bt_pc bt"
  using assms
  by (auto simp: emplace_ensured push_order_def update_bucket_def ensure_bucket_at bucket_at_def split: option.split)

lemma ended_bucket_step:
  assumes st: "exchange_step dead l ex = Some ex'" and inv: "exchange_inv ex"
    and "ex_buckets ex b = Some bt" and "bt_pc bt = DONE"
  shows "handled_by p b [l] = [] \<and> (\<exists>bt'. ex_buckets ex' b = Some bt' \<and> bt_pc bt' = DONE)"
proof (cases l)
  case (Process c q x ts)
  then have "bucket_process dead ts c q x ex = Some (Some ex')"
    using st by (auto simp: exchange_step_def split: option.splits if_splits)
  from processE [OF inv this] obtain bt' rest evs ob' where
    bt: "ex_buckets ex c = Some bt'" "bt_pc bt' = POLL" and ex': "ex' = ex\<lparr> ex_buckets := (ex_buckets ex)(c \<mapsto>
        bt'\<lparr> bt_queue := (bt_queue bt')(q := rest), bt_pc := LOOP, bt_books := (bt_books bt')(o_ticker x \<mapsto> ob') \<rparr>),
        ex_log := ex_log ex @ evs \<rparr>" .
  have "c \<noteq> b" using bt assms(3,4) by auto
  with Process assms(3,4) show ?thesis by (simp add: ex')
next
  case (Message q data)
  with st have "ex' = on_msg_received q (Some data) ex" by (auto simp: exchange_step_def split: if_splits)
  with Message assms(3,4) emplace_other [OF assms(3)] show ?thesis
    by (auto simp: on_msg_received_def enqueue_order_def Let_def split: option.splits)
next
  case (Add_Symbol s)
  with st have "ex' = add_symbol s ex" by (auto simp: exchange_step_def split: if_splits)
  with Add_Symbol assms(3,4) emplace_other [OF assms(3)] show ?thesis by (auto simp: add_symbol_def Let_def)
next
  case Inserted
  with st have i: "insert_book ex = Some ex'" by (auto simp: exchange_step_def split: if_splits)
  then obtain c t pending where "ex_caller ex = INSERTING c t pending" by (auto simp: insert_book_def split: caller_pc.splits)
  from insert_book_eq [OF inv this] i assms(3,4) Inserted show ?thesis by auto
next
  case (Test c)
  with st assms(3,4) show ?thesis
    by (auto simp: exchange_step_def bucket_test_def update_bucket_def split: option.splits if_splits)
next
  case (Sleep c)
  with st assms(3,4) show ?thesis
    by (auto simp: exchange_step_def bucket_sleep_def update_bucket_def split: option.splits if_splits)
qed (use assms in \<open>auto simp: exchange_step_def exchange_start_def exchange_stop_def exchange_joined_def
       exchange_destroy_def split: if_splits\<close>)

lemma ended_bucket_trace:
  assumes "exchange_trace dead ex ls' ex'" and "exchange_trace dead (exchange_new lg) ls ex"
    and "ex_buckets ex b = Some bt" and "bt_pc bt = DONE"
  shows "handled_by p b ls' = [] \<and> queue_of p b ex' = queue_of p b ex @ sent_to p b ls'
    \<and> (\<exists>bt'. ex_buckets ex' b = Some bt' \<and> bt_pc bt' = DONE)"
  using assms
proof (induction rule: exchange_trace.induct)
  case (ex_trace_step ls1 ex1 l ex2)
  then obtain bt1 where IH: "handled_by p b ls1 = []" "queue_of p b ex1 = queue_of p b ex @ sent_to p b ls1"
    "ex_buckets ex1 b = Some bt1" "bt_pc bt1 = DONE" by blast
  have inv: "exchange_inv ex1"
    by (rule exchange_inv_trace [OF exchange_trace_append [OF ex_trace_step(1) assms(2)]])
  note e = ended_bucket_step [OF ex_trace_step(2) inv IH(3,4), of p]
  have "b \<in> set BUCKETS" using exchange_invD(1) [OF inv IH(3)] by simp
  then have ne: "b \<noteq> ''''" by (auto simp: BUCKETS_def)
  have "queue_of p b ex2 = queue_of p b ex1 @ sent_to p b [l]"
    using exchange_step_cases [OF ex_trace_step(2)]
  proof
    assume "caller_step l ex1 = Some ex2"
    then show ?thesis using queue_caller_step [OF _ ne inv] by blast
  next
    assume "bucket_step dead l ex1 = Some ex2"
    from queue_bucket_step [OF this inv, of p b] e show ?thesis by simp
  qed
  with IH e show ?case by simp
qed simp

section \<open>Properties\<close>

lemma ex_msg_order:
  "message_order (Some ex_msg) = Some (convert_to_order (parsed_fields ex_msg))"
  "o_ticker (convert_to_order (parsed_fields ex_msg)) = [65, 65, 80, 0]"
proof -
  have "parse_message (Some ex_msg) new_parsed_order = Some (True, parsed_fields ex_msg)"
    by (simp add: parse_message_accepts ex_msg_ok)
  then show "message_order (Some ex_msg) = Some (convert_to_order (parsed_fields ex_msg))"
    by (simp add: message_order_def)
  show "o_ticker (convert_to_order (parsed_fields ex_msg)) = [65, 65, 80, 0]"
    by (simp add: convert_to_order_def make_order_t_def Let_def parsed_fields_def ex_msg_def TICKER_LEN_def)
qed

lemma ex_bucket: "get_bucket [65, 65, 80, 0] = ''A''"
  by code_simp

text \<open>An exchange that has started and received one order; its bucket thread is about to take it.\<close>

definition ex_started :: exchange where
  "ex_started = the (bucket_test ''A'' (the (insert_book (on_msg_received 0 (Some ex_msg) (exchange_start (exchange_new True))))))"

abbreviation ex_labels :: "exchange_label list" where
  "ex_labels \<equiv> [Start, Message 0 ex_msg, Inserted, Test ''A'']"

lemma ex_started_trace:
  "exchange_trace dead (exchange_new True) ex_labels ex_started"
  "ex_started = (exchange_start (exchange_new True))\<lparr> ex_buckets := [''A'' \<mapsto> new_bucket\<lparr>
     bt_books := [[65, 65, 80, 0] \<mapsto> new_orderbook True],
     bt_queue := cq_enqueue 0 (convert_to_order (parsed_fields ex_msg)) cq_empty, bt_pc := POLL \<rparr>] \<rparr>"
proof -
  let ?x = "convert_to_order (parsed_fields ex_msg)"
  let ?ex1 = "exchange_start (exchange_new True)"
  let ?ex2 = "?ex1\<lparr> ex_buckets := [''A'' \<mapsto> new_bucket], ex_caller := INSERTING ''A'' [65, 65, 80, 0] (Some (0, ?x)) \<rparr>"
  let ?ex3 = "?ex1\<lparr> ex_buckets := [''A'' \<mapsto> new_bucket\<lparr> bt_books := [[65, 65, 80, 0] \<mapsto> new_orderbook True],
     bt_queue := cq_enqueue 0 ?x cq_empty \<rparr>] \<rparr>"
  let ?ex4 = "?ex1\<lparr> ex_buckets := [''A'' \<mapsto> new_bucket\<lparr> bt_books := [[65, 65, 80, 0] \<mapsto> new_orderbook True],
     bt_queue := cq_enqueue 0 ?x cq_empty, bt_pc := POLL \<rparr>] \<rparr>"
  have e2: "on_msg_received 0 (Some ex_msg) ?ex1 = ?ex2"
    by (simp add: on_msg_received_def ex_msg_order enqueue_order_def Let_def TICKER_LEN_def ex_bucket emplace_book_def
        ensure_bucket_def exchange_start_def exchange_new_def new_bucket_def)
  have e3: "insert_book ?ex2 = Some ?ex3"
    by (simp add: insert_book_def push_order_def update_bucket_def exchange_start_def exchange_new_def new_bucket_def)
  have e4: "bucket_test ''A'' ?ex3 = Some ?ex4"
    by (simp add: bucket_test_def update_bucket_def exchange_start_def exchange_new_def new_bucket_def)
  show v: "ex_started = ?ex4" by (simp add: ex_started_def e2 e3 e4)
  have "exchange_step dead Start (exchange_new True) = Some ?ex1"
    by (simp add: exchange_step_def exchange_new_def)
  moreover have "exchange_step dead (Message 0 ex_msg) ?ex1 = Some ?ex2"
    by (simp add: exchange_step_def e2) (simp add: exchange_start_def exchange_new_def)
  moreover have "exchange_step dead Inserted ?ex2 = Some ?ex3" by (simp add: exchange_step_def e3)
  moreover have "exchange_step dead (Test ''A'') ?ex3 = Some ex_started"
    unfolding v by (simp add: exchange_step_def e4) (simp add: exchange_start_def exchange_new_def)
  ultimately show "exchange_trace dead (exchange_new True) ex_labels ex_started"
    using ex_trace_step [OF ex_trace_step [OF ex_trace_step [OF ex_trace_step [OF ex_trace_nil]]],
      of dead Start "exchange_new True" ?ex1 "Message 0 ex_msg" ?ex2 Inserted ?ex3 "Test ''A''" ex_started] by simp
qed

lemma ex_started_simps:
  "queue_of 0 ''A'' ex_started = [convert_to_order (parsed_fields ex_msg)]" "ex_caller ex_started = IDLE" "ex_running ex_started"
  by (simp_all add: ex_started_trace(2) queue_of_def pending_of_def exchange_start_def exchange_new_def cq_enqueue_def cq_empty_def)

text \<open>The bucket of this exchange.\<close>

lemma ex_started_bucket:
  "\<exists>bt. ex_buckets ex_started ''A'' = Some bt \<and> bt_queue bt 0 = [convert_to_order (parsed_fields ex_msg)] \<and> bt_pc bt = POLL
    \<and> bt_books bt [65, 65, 80, 0] = Some (new_orderbook True)"
  by (simp add: ex_started_trace(2) cq_enqueue_def cq_empty_def)

text \<open>
  C5: in every state that the exchange can reach, whatever the messages and the interleaving of its
  threads, each order book is well formed and not crossed, holds orders of its own symbol only,
  and is kept in the bucket to which the symbol is routed.
\<close>

theorem exchange_books_ready:
  assumes "exchange_trace dead (exchange_new lg) ls ex" and "ex_buckets ex b = Some bt" and "bt_books bt ticker = Some ob"
  shows "book_inv ob \<and> uncrossed ob \<and> (\<forall>x \<in> ran (book_map ob). o_ticker x = ticker)
    \<and> get_bucket ticker = b \<and> b \<in> set BUCKETS"
  using exchange_invD(1) [OF exchange_inv_trace [OF assms(1)] assms(2)] assms(3)
  by (auto simp: bucket_inv_def book_ready_def)

theorem exchange_books_ready_witness:
  "\<exists>bt ob. ex_buckets ex_started ''A'' = Some bt \<and> bt_books bt [65, 65, 80, 0] = Some ob \<and> book_inv ob \<and> uncrossed ob"
proof -
  obtain bt where b: "ex_buckets ex_started ''A'' = Some bt" "bt_books bt [65, 65, 80, 0] = Some (new_orderbook True)"
    using ex_started_bucket by blast
  with exchange_books_ready [OF ex_started_trace(1) b] show ?thesis by blast
qed

text \<open>
  C24: when a bucket thread takes an order, the book of its symbol is there, and handling it is undefined in exactly
  two cases: a book is being inserted into the same bucket (the source does not synchronise the map of books), or
  the order cancels or modifies an order of a book with a logger, whose erased element cannot be read any
  more. In all other cases the thread handles the order and goes on. (Steps are interleaved, so looking up and
  handling is one step; what an insertion does to a book that was looked up before is not represented.)
\<close>

theorem exchange_processing_outcome:
  assumes "exchange_trace dead (exchange_new lg) ls ex" and "ex_buckets ex b = Some bt"
    and "bt_pc bt = POLL" and "bt_queue bt p = x # rest"
  shows "\<exists>ob. bt_books bt (o_ticker x) = Some ob
    \<and> (bucket_process dead ts b p x ex = None \<longleftrightarrow> inserting b ex \<or> (\<exists>y. erased_read x ob = Some y \<and> dead y = None))
    \<and> (bucket_process dead ts b p x ex \<noteq> None \<and> ex_caller ex \<notin> {DESTROYED, TERMINATED}
        \<longrightarrow> exchange_step dead (Process b p x ts) ex \<noteq> None)"
proof -
  from bucket_process_ok [OF exchange_inv_trace [OF assms(1)] assms(2,4,3), where dead = dead and ts = ts] obtain ob where
    ob: "bt_books bt (o_ticker x) = Some ob" and
    p: "case bucket_process dead ts b p x ex of None \<Rightarrow> inserting b ex \<or> (\<exists>y. erased_read x ob = Some y \<and> dead y = None)
      | Some r \<Rightarrow> \<not> inserting b ex \<and> (\<forall>y. erased_read x ob = Some y \<longrightarrow> dead y \<noteq> None) \<and> r \<noteq> None" by (fastforce split: option.splits)
  show ?thesis
  proof (cases "bucket_process dead ts b p x ex")
    case None
    with ob p show ?thesis by auto
  next
    case (Some r)
    with p obtain ex' where "r = Some ex'" by auto
    with Some have "bucket_step dead (Process b p x ts) ex \<noteq> None" by simp
    with ob p Some show ?thesis by (auto simp: exchange_step_def)
  qed
qed

text \<open>The race: another thread adds a symbol to the bucket while its thread is about to look up a book.\<close>

theorem exchange_processing_outcome_witness:
  "\<exists>ex. exchange_step Some (Add_Symbol [65, 66, 67, 68]) ex_started = Some ex \<and> ex_caller ex = INSERTING ''A'' [65, 66, 67, 68] None
    \<and> bucket_process Some 0 ''A'' 0 (convert_to_order (parsed_fields ex_msg)) ex = None
    \<and> bucket_process Some 0 ''A'' 0 (convert_to_order (parsed_fields ex_msg)) ex_started \<noteq> None"
proof -
  let ?x = "convert_to_order (parsed_fields ex_msg)"
  let ?ex = "ex_started\<lparr> ex_caller := INSERTING ''A'' [65, 66, 67, 68] None \<rparr>"
  have "get_bucket [65, 66, 67, 68] = ''A''" by code_simp
  then have s: "exchange_step Some (Add_Symbol [65, 66, 67, 68]) ex_started = Some ?ex"
    by (simp add: exchange_step_def ex_started_simps TICKER_LEN_def add_symbol_def Let_def emplace_book_def ensure_bucket_def)
       (simp add: ex_started_trace(2) exchange_start_def exchange_new_def)
  obtain bt where bt: "ex_buckets ex_started ''A'' = Some bt" "bt_queue bt 0 = [?x]" "bt_pc bt = POLL" using ex_started_bucket by blast
  then have bt': "ex_buckets ?ex ''A'' = Some bt" by simp
  note t = ex_trace_step [OF ex_started_trace(1) s]
  have "\<not> inserting ''A'' ex_started" "inserting ''A'' ?ex" by (simp_all add: inserting_def ex_started_simps)
  with exchange_processing_outcome [OF ex_started_trace(1) bt(1,3,2), where dead = Some and ts = 0]
    exchange_processing_outcome [OF t bt' bt(3,2), where ts = 0] s
  show ?thesis by auto
qed

text \<open>
  C6: each thread that sends messages has its orders handled in the order in which it sent them: of the orders that
  the thread \<open>p\<close> has sent to a bucket, what the bucket thread has taken, followed by what is still queued or about to be
  queued, is exactly what was sent. Nothing is said of the orders of different threads among each other.
\<close>

theorem exchange_fifo:
  assumes "exchange_trace dead (exchange_new lg) ls ex" and "b \<noteq> ''''"
  shows "handled_by p b ls @ queue_of p b ex = sent_to p b ls"
  by (rule queue_trace [OF assms])

theorem exchange_fifo_witness:
  "handled_by 0 ''A'' ex_labels @ queue_of 0 ''A'' ex_started = sent_to 0 ''A'' ex_labels"
  by (rule exchange_fifo [OF ex_started_trace(1)]) simp

text \<open>
  C25: \<open>stop\<close> returns. While the caller waits for the bucket threads, they can take at most two steps
  per bucket, and until the last one has ended some thread can take a step.
\<close>

theorem exchange_stop_returns:
  assumes "exchange_trace dead (exchange_new lg) ls ex" and "ex_caller ex = JOINING"
    and "exchange_trace dead ex ls' ex'" and "Joined \<notin> set ls'"
  shows "length ls' \<le> 2 * length BUCKETS \<and> (\<exists>l ex''. exchange_step dead l ex' = Some ex'')"
proof -
  note j = joining_trace [OF assms(3,1,2,4)]
  then have "length ls' \<le> 2 * length BUCKETS" using stop_fuel_bound [of ex] by linarith
  moreover note joining_progress [of ex' dead] j
  ultimately show ?thesis by blast
qed

theorem exchange_stop_returns_witness:
  "\<exists>ex. exchange_step Some Stop ex_started = Some ex \<and> ex_caller ex = JOINING \<and> (\<exists>l ex''. exchange_step Some l ex = Some ex'')"
proof -
  let ?ex = "ex_started\<lparr> ex_running := False, ex_caller := JOINING \<rparr>"
  have s: "exchange_step Some Stop ex_started = Some ?ex"
    using ex_started_simps(2,3) by (simp add: exchange_step_def exchange_stop_def)
  from exchange_stop_returns [OF ex_trace_step [OF ex_started_trace(1) s] _ ex_trace_nil] s show ?thesis by simp
qed

text \<open>
  An exchange that was stopped can be destroyed at once: every thread has been joined, so the
  destructors of the thread objects do not end the program.
\<close>

theorem exchange_stop_then_destroy:
  assumes "exchange_trace dead (exchange_new lg) ls ex" and "exchange_step dead Joined ex = Some ex1"
  shows "\<exists>ex2. exchange_step dead Destroy ex1 = Some ex2 \<and> ex_caller ex2 = DESTROYED"
proof -
  have j: "ex_caller ex = JOINING" "exchange_joined ex = Some ex1"
    using assms(2) by (auto simp: exchange_step_def split: if_splits)
  then have e: "ex1 = ex\<lparr> ex_caller := IDLE, ex_buckets := (\<lambda>b. map_option (\<lambda>bt. bt\<lparr> bt_joinable := False \<rparr>) (ex_buckets ex b)) \<rparr>"
    by (auto simp: exchange_joined_def split: if_splits)
  then have "each_bucket (\<lambda>bt. \<not> bt_joinable bt) ex1"
    by (auto simp: each_bucket_def list_all_iff split: option.splits)
  with e joining_stopped [OF assms(1) j(1)] show ?thesis
    by (simp add: exchange_step_def exchange_destroy_def)
qed

theorem exchange_stop_then_destroy_witness:
  "\<exists>ex1 ex2. exchange_step Some Destroy ex1 = Some ex2 \<and> ex_caller ex2 = DESTROYED"
proof -
  have t: "exchange_trace Some (exchange_new True) [Start] (exchange_start (exchange_new True))"
    using ex_trace_step [OF ex_trace_nil, of Some Start "exchange_new True" "exchange_start (exchange_new True)"]
    by (simp add: exchange_step_def exchange_new_def exchange_start_def)
  let ?ex = "exchange_stop (exchange_start (exchange_new True))"
  have s: "exchange_step Some Stop (exchange_start (exchange_new True)) = Some ?ex"
    by (simp add: exchange_step_def exchange_new_def exchange_start_def)
  have "\<exists>ex1. exchange_step Some Joined ?ex = Some ex1"
    by (simp add: exchange_step_def exchange_joined_def exchange_stop_def exchange_start_def exchange_new_def each_bucket_def list_all_iff)
  with exchange_stop_then_destroy [OF ex_trace_step [OF t s]] show ?thesis by blast
qed

text \<open>
  A symbol added before \<open>start\<close> costs the program its life when the exchange is destroyed without
  having been started: its thread ends at once because the exchange does not run, \<open>stop\<close> returns
  early for the same reason, and the thread object is destroyed joinable.
\<close>

definition ex_unstarted :: "bool \<Rightarrow> exchange" where
  "ex_unstarted lg = (exchange_new lg)\<lparr> ex_buckets := [''A'' \<mapsto> new_bucket\<lparr> bt_books := [[65, 65, 80, 0] \<mapsto> new_orderbook lg], bt_pc := DONE \<rparr>] \<rparr>"

lemma ex_unstarted_trace: "exchange_trace dead (exchange_new lg) [Add_Symbol [65, 65, 80, 0], Inserted, Test ''A''] (ex_unstarted lg)"
proof -
  let ?ex1 = "(exchange_new lg)\<lparr> ex_buckets := [''A'' \<mapsto> new_bucket], ex_caller := INSERTING ''A'' [65, 65, 80, 0] None \<rparr>"
  let ?ex2 = "(exchange_new lg)\<lparr> ex_buckets := [''A'' \<mapsto> new_bucket\<lparr> bt_books := [[65, 65, 80, 0] \<mapsto> new_orderbook lg] \<rparr>] \<rparr>"
  have 1: "exchange_step dead (Add_Symbol [65, 65, 80, 0]) (exchange_new lg) = Some ?ex1"
    by (simp add: exchange_step_def exchange_new_def TICKER_LEN_def add_symbol_def Let_def ex_bucket emplace_book_def ensure_bucket_def
        new_bucket_def)
  have 2: "exchange_step dead Inserted ?ex1 = Some ?ex2"
    by (simp add: exchange_step_def exchange_new_def insert_book_def push_order_def update_bucket_def new_bucket_def)
  have 3: "exchange_step dead (Test ''A'') ?ex2 = Some (ex_unstarted lg)"
    by (simp add: exchange_step_def exchange_new_def bucket_test_def update_bucket_def new_bucket_def ex_unstarted_def)
  from ex_trace_step [OF ex_trace_step [OF ex_trace_step [OF ex_trace_nil 1] 2] 3] show ?thesis by simp
qed

theorem exchange_unstarted_terminates:
  "\<exists>ex. exchange_trace dead (exchange_new lg) [Add_Symbol [65, 65, 80, 0], Inserted, Test ''A'', Stop, Destroy] ex
    \<and> ex_caller ex = TERMINATED"
proof -
  have 1: "exchange_step dead Stop (ex_unstarted lg) = Some (ex_unstarted lg)"
    by (simp add: exchange_step_def ex_unstarted_def exchange_new_def exchange_stop_def)
  have 2: "exchange_step dead Destroy (ex_unstarted lg) = Some ((ex_unstarted lg)\<lparr> ex_caller := TERMINATED \<rparr>)"
    by (simp add: exchange_step_def ex_unstarted_def exchange_new_def exchange_destroy_def each_bucket_def BUCKETS_def new_bucket_def)
  from ex_trace_step [OF ex_trace_step [OF ex_unstarted_trace 1] 2] show ?thesis by (intro exI) auto
qed

text \<open>
  C40: orders sent to a bucket whose thread has ended, because the exchange was not running when
  the thread tested the flag, are never handled, whichever thread sends them, even when the exchange is started
  again: the thread is not created anew.
\<close>

theorem exchange_ended_bucket_is_dead:
  assumes "exchange_trace dead (exchange_new lg) ls ex" and "ex_buckets ex b = Some bt" and "bt_pc bt = DONE"
    and "exchange_trace dead ex ls' ex'"
  shows "handled_by p b ls' = [] \<and> queue_of p b ex' = queue_of p b ex @ sent_to p b ls'"
  using ended_bucket_trace [OF assms(4) assms(1-3), of p] by blast

theorem exchange_ended_bucket_is_dead_witness:
  "\<exists>ex ex'. exchange_trace Some ex [Start, Message 0 ex_msg] ex' \<and> handled_by 0 ''A'' [Start, Message 0 ex_msg] = []
    \<and> queue_of 0 ''A'' ex' = queue_of 0 ''A'' ex @ sent_to 0 ''A'' [Start, Message 0 ex_msg]"
proof -
  have bt: "ex_buckets (ex_unstarted True) ''A'' = Some (new_bucket\<lparr> bt_books := [[65, 65, 80, 0] \<mapsto> new_orderbook True], bt_pc := DONE \<rparr>)"
    by (simp add: ex_unstarted_def)
  have 3: "exchange_step Some Start (ex_unstarted True) = Some (exchange_start (ex_unstarted True))"
    by (simp add: exchange_step_def ex_unstarted_def exchange_new_def)
  have 4: "exchange_step Some (Message 0 ex_msg) (exchange_start (ex_unstarted True))
      = Some (on_msg_received 0 (Some ex_msg) (exchange_start (ex_unstarted True)))"
    by (simp add: exchange_step_def ex_unstarted_def exchange_new_def exchange_start_def)
  note t = ex_trace_step [OF ex_trace_step [OF ex_trace_nil 3] 4]
  have "bt_pc (new_bucket\<lparr> bt_books := [[65, 65, 80, 0] \<mapsto> new_orderbook True], bt_pc := DONE \<rparr>) = DONE" by simp
  from exchange_ended_bucket_is_dead [OF ex_unstarted_trace bt this t, of 0] t show ?thesis by auto
qed

text \<open>
  Routing. A ticker has a bucket exactly when its first character is a letter, that bucket is one
  of the table, and tickers that agree in their first two characters up to case are not
  separated.
\<close>

theorem get_bucket_correct:
  "(get_bucket ticker = '''' \<longleftrightarrow> ticker = [] \<or> \<not> between 65 90 (toupper (hd ticker)))
   \<and> (get_bucket ticker \<noteq> '''' \<longrightarrow> get_bucket ticker \<in> set BUCKETS)
   \<and> (\<forall>other. length ticker > 1 \<and> length other > 1 \<and> map toupper (take 2 ticker) = map toupper (take 2 other)
        \<longrightarrow> get_bucket ticker = get_bucket other)"
  using get_bucket_none_iff [of ticker] get_bucket_in [of ticker] get_bucket_prefix [of ticker] by blast

theorem get_bucket_correct_witness:
  "get_bucket [105, 98] = ''IA-E'' \<and> get_bucket [105, 98] = get_bucket [73, 66, 77]"
proof -
  have "get_bucket [105, 98] = get_bucket [73, 66, 77]"
    using get_bucket_correct [of "[105, 98]"] by (simp add: toupper_def)
  moreover have "get_bucket [105, 98] = ''IA-E''" by code_simp
  ultimately show ?thesis by blast
qed

end
