(* ===== verification/Replay.thy ===== *)
theory Replay
  imports Json_Roundtrip Client Exchange_Properties
begin

text \<open>
  The replay as a whole (\<open>main\<close> of src/client.cpp): a file of events is split into lines, each line is
  parsed by the JSON library and becomes a message or is skipped, the messages are sorted by their time
  stamps and handed to the exchange one after the other.

  \<open>std::sort\<close> is an argument, a function that returns the sorted events; so is the arithmetic on floating
  point numbers: the conversions of integers to them, \<open>uint32_t(x * 100)\<close> and \<open>uint32_t(x)\<close>. The statistics
  are not modelled.
\<close>

section \<open>Values of the library\<close>

text \<open>\<open>get_arithmetic_value\<close> for \<open>double\<close>, and \<open>from_json\<close> for \<open>uint32_t\<close>, which takes booleans as well.\<close>

record 'f float_ops =
  float_of_nat :: "nat \<Rightarrow> 'f"
  float_of_int :: "int \<Rightarrow> 'f"
  float_cents :: "'f \<Rightarrow> u32"
  float_u32 :: "'f \<Rightarrow> u32"

definition get_double :: "'f float_ops \<Rightarrow> 'f json \<Rightarrow> 'f option" where
  "get_double fo v =
     (case v of JUnsigned n \<Rightarrow> Some (float_of_nat fo n) | JInteger i \<Rightarrow> Some (float_of_int fo i) | JFloat x \<Rightarrow> Some x | _ \<Rightarrow> None)"

definition get_uint32 :: "'f float_ops \<Rightarrow> 'f json \<Rightarrow> u32 option" where
  "get_uint32 fo v =
     (case v of JUnsigned n \<Rightarrow> Some (of_nat n) | JInteger i \<Rightarrow> Some (of_int i) | JFloat x \<Rightarrow> Some (float_u32 fo x)
      | JBoolean b \<Rightarrow> Some (if b then 1 else 0) | _ \<Rightarrow> None)"

text \<open>The client looks at a value as its kind; an object that is none contains no key.\<close>

definition chars_of :: "u8 list \<Rightarrow> string" where
  "chars_of s = map (\<lambda>b. char_of (unat b)) s"

definition client_value :: "'f json \<Rightarrow> 'f json json_value" where
  "client_value v = (case v of JNull_value \<Rightarrow> JNull | JText s \<Rightarrow> JString (chars_of s) | _ \<Rightarrow> JOther v)"

definition client_object :: "'f json \<Rightarrow> 'f json json_object" where
  "client_object v k = (case v of JObject ms \<Rightarrow> map_option client_value (omap_find (bytes_of k) ms) | _ \<Rightarrow> None)"

definition client_cents :: "'f float_ops \<Rightarrow> 'f json json_value \<Rightarrow> u32 option" where
  "client_cents fo jv = (case jv of JOther v \<Rightarrow> map_option (float_cents fo) (get_double fo v) | _ \<Rightarrow> None)"

definition client_size :: "'f float_ops \<Rightarrow> 'f json json_value \<Rightarrow> u32 option" where
  "client_size fo jv = (case jv of JOther v \<Rightarrow> get_uint32 fo v | _ \<Rightarrow> None)"

section \<open>Reading the file\<close>

record 'f environment =
  env_strtod :: "u8 list \<Rightarrow> 'f"
  env_isfinite :: "'f \<Rightarrow> bool"
  env_point :: u8
  env_zero :: 'f
  env_floats :: "'f float_ops"
  env_timegm :: "tm \<Rightarrow> int"

definition client_json :: "'f environment \<Rightarrow> 'f json \<Rightarrow> client_outcome" where
  "client_json env v = client_event (env_timegm env) (client_cents (env_floats env)) (client_size (env_floats env)) (client_object v)"

definition client_line :: "'f environment \<Rightarrow> u8 list \<Rightarrow> client_outcome" where
  "client_line env line =
     (if line = [] then SKIP
      else (case parse_json (env_strtod env) (env_isfinite env) True (lexer_new (env_point env) (env_zero env) False line) of
              None \<Rightarrow> SKIP
            | Some v \<Rightarrow> client_json env v))"

text \<open>\<open>std::getline\<close> until the end of the file.\<close>

function getlines :: "u8 list \<Rightarrow> u8 list list" where
  "getlines s = (if s = [] then [] else takeWhile (\<lambda>c. c \<noteq> 10) s # getlines (tl (dropWhile (\<lambda>c. c \<noteq> 10) s)))"
  by pat_completeness auto
termination
proof (relation "measure length", simp)
  fix s :: "u8 list" assume "s \<noteq> []"
  then have "length (tl (dropWhile (\<lambda>c. c \<noteq> 10) s)) < length s" by (cases s) (auto simp: less_Suc_eq_le le_diff_conv intro: le_SucI length_dropWhile_le)
  then show "(tl (dropWhile (\<lambda>c. c \<noteq> 10) s), s) \<in> measure length" by simp
qed

declare getlines.simps [simp del]

text \<open>The loop over the lines; an exception that nothing catches ends the program.\<close>

fun collect_events :: "client_outcome list \<Rightarrow> (u64 \<times> u8 list) list option" where
  "collect_events [] = Some []"
| "collect_events (SKIP # os) = collect_events os"
| "collect_events (THROWS # os) = None"
| "collect_events (EVENT ts m # os) = map_option (Cons (ts, m)) (collect_events os)"

definition read_events :: "'f environment \<Rightarrow> u8 list \<Rightarrow> (u64 \<times> u8 list) list option" where
  "read_events env file = collect_events (map (client_line env) (getlines file))"

section \<open>The replay\<close>

text \<open>What \<open>main\<close> calls on the exchange; it is the only calling thread, number 0.\<close>

definition replay_calls :: "((u64 \<times> u8 list) list \<Rightarrow> (u64 \<times> u8 list) list) \<Rightarrow> (u64 \<times> u8 list) list \<Rightarrow> exchange_label list" where
  "replay_calls std_sort evs = Start # map (\<lambda>(ts, buf). Message 0 buf) (std_sort evs) @ [Stop]"

definition client_main :: "((u64 \<times> u8 list) list \<Rightarrow> (u64 \<times> u8 list) list) \<Rightarrow> 'f environment \<Rightarrow> u8 list \<Rightarrow> exchange_label list option" where
  "client_main std_sort env file = map_option (replay_calls std_sort) (read_events env file)"

section \<open>Lines of serialized values\<close>

lemma no_newline_decimal: "10 \<notin> set (decimal n)"
  using decimal_digits [of n] by (auto simp: list_all_iff digit_def word_le_nat_alt)

lemma no_newline_utf8: "cp \<noteq> 10 \<Longrightarrow> scalar cp \<Longrightarrow> 10 \<notin> set (utf8 cp)"
proof (cases "cp < 0x80")
  case True
  assume "cp \<noteq> 10"
  moreover have "unat (of_nat cp :: u8) = cp" using True by (simp add: unat_u8)
  ultimately show ?thesis using True by (auto simp: utf8_def word_unat_eq_iff)
next
  case False
  assume sc: "scalar cp"
  from False have c80: "0x80 \<le> cp" by simp
  obtain c rs bs where u: "utf8 cp = c # bs" "following_ranges c = Some rs" "list_all2 in_range rs bs"
    by (rule following_complete [OF sc c80])
  have c: "c \<noteq> 10" using u(2) by (auto simp: following_ranges_def word_le_nat_alt split: if_splits)
  have r: "\<forall>r \<in> set rs. 0x80 \<le> unat (fst r)" using following_pending [OF u(2)] by (auto simp: pending_ranges_def)
  have "10 \<notin> set bs" using u(3) r by (induction rs bs rule: list_all2_induct) (auto simp: in_range_def word_le_nat_alt)
  with u(1) c show ?thesis by simp
qed

lemma no_newline_hex: "hex4 h = Some n \<Longrightarrow> 10 \<notin> set h"
  using hex4_digits [of h n] by (auto simp: list_all_iff hex_digit_def)

lemma no_newline_item: "item_ok it \<Longrightarrow> 10 \<notin> set (item_text it)"
proof (cases it)
  case (Raw cp)
  then show "item_ok it \<Longrightarrow> ?thesis" using no_newline_utf8 [of cp] by auto
next
  case (Short c)
  then show "item_ok it \<Longrightarrow> ?thesis" by (auto simp: short_escape_def)
qed (auto dest: no_newline_hex split: option.splits)

lemma no_newline_string:
  assumes "valid_utf8 s" and "dump_string opt s = Dumped w"
  shows "10 \<notin> set w"
proof -
  obtain cps where cps: "list_all scalar cps" "s = concat (map utf8 cps)" using assms(1) by (auto simp: valid_utf8_def)
  then have "w = 0x22 # string_text (map (escaped (ensure_ascii opt)) cps) @ [0x22]"
    using assms(2) dump_escaped_codepoints [OF cps(1)] by (simp add: dump_string_def)
  moreover have "10 \<notin> set (item_text (escaped ea cp))" if "cp \<in> set cps" for ea cp
    using that cps(1) escaped_item(1) no_newline_item by (auto simp: list_all_iff)
  ultimately show ?thesis by (auto simp: string_text_def)
qed

lemma no_newline_dump:
  "\<not> pretty_print opt \<longrightarrow> json_ok v \<longrightarrow> (\<forall>bs i. dump opt cur v ind = Dumped (bs, i) \<longrightarrow> 10 \<notin> set bs \<and> bs \<noteq> [])"
  "\<not> pretty_print opt \<longrightarrow> (\<forall>v \<in> set vs. json_ok v) \<longrightarrow> (\<forall>bs i. dump_elements opt cur vs ind = Dumped (bs, i) \<longrightarrow> 10 \<notin> set bs)"
  "\<not> pretty_print opt \<longrightarrow> (\<forall>(k, v) \<in> set ms. valid_utf8 k \<and> json_ok v) \<longrightarrow>
     (\<forall>bs i. dump_members opt cur ms ind = Dumped (bs, i) \<longrightarrow> 10 \<notin> set bs)"
proof (induction opt cur v ind and opt cur vs ind and opt cur ms ind rule: dump_dump_elements_dump_members.induct)
  case (3 opt cur x ind)
  then show ?case using dump_integer_text [of x] no_newline_decimal
    by (auto simp: number_text_def integer_number_def frac_text_def exp_text_def)
next
  case (4 opt cur n ind)
  have "dump_integer (int n) = number_text (integer_number (int n))" if "n < 2 ^ 64"
    using that by (intro dump_integer_text) simp
  then show ?case using no_newline_decimal by (auto simp: number_text_def integer_number_def frac_text_def exp_text_def)
next
  case (6 opt cur s ind)
  then show ?case using no_newline_string by (auto simp: and_then_Dumped dump_string_def)
qed (auto simp: and_then_Dumped open_container_def close_container_def next_element_def key_separator_def ascii_def
    dest: no_newline_string split: if_splits)

lemma getlines_lines: "\<forall>bs \<in> set bss. 10 \<notin> set bs \<Longrightarrow> getlines (concat (map (\<lambda>bs. bs @ [10]) bss)) = bss"
proof (induction bss)
  case Nil
  show ?case by (simp add: getlines.simps)
next
  case (Cons bs bss)
  let ?r = "concat (map (\<lambda>bs. bs @ [10]) bss)"
  have n: "\<And>c. c \<in> set bs \<Longrightarrow> c \<noteq> 10" using Cons.prems by auto
  have "takeWhile (\<lambda>c. c \<noteq> 10) (bs @ 10 # ?r) = bs" "dropWhile (\<lambda>c. c \<noteq> 10) (bs @ 10 # ?r) = 10 # ?r" using n by auto
  with Cons show ?case by (simp add: getlines.simps [of "bs @ 10 # ?r"])
qed

text \<open>The last line need not end with a newline.\<close>

lemma getlines_last: "bs \<noteq> [] \<Longrightarrow> last bs \<noteq> 10 \<Longrightarrow> getlines (bs @ [10]) = getlines bs"
proof (induction bs rule: getlines.induct)
  case (1 s)
  let ?P = "\<lambda>c. c \<noteq> (10 :: u8)"
  show ?case
  proof (cases "10 \<in> set s")
    case True
    then have d: "dropWhile ?P s \<noteq> []" by (auto simp: dropWhile_eq_Nil_conv)
    have t: "takeWhile ?P (s @ [10]) = takeWhile ?P s" using True by (intro takeWhile_append1) auto
    have dr: "dropWhile ?P (s @ [10]) = dropWhile ?P s @ [10]" using True by (intro dropWhile_append1) auto
    have h: "hd (dropWhile ?P s) = 10" using hd_dropWhile [OF d] by simp
    have l: "last (dropWhile ?P s) = last s" using dropWhile_eq_drop [of ?P s] d by (metis last_drop drop_eq_Nil not_le)
    then have ne: "tl (dropWhile ?P s) \<noteq> []" using d h 1(3) by (cases "dropWhile ?P s"; cases "tl (dropWhile ?P s)") auto
    then have "last (tl (dropWhile ?P s)) \<noteq> 10" using l 1(3) d by (simp add: last_tl)
    from 1(1) [OF 1(2) ne this] show ?thesis
      using d by (simp add: getlines.simps [of s] getlines.simps [of "s @ [10]"] t dr 1(2))
  next
    case False
    then have n: "\<And>c. c \<in> set s \<Longrightarrow> c \<noteq> 10" by auto
    then have w: "takeWhile ?P (s @ [10]) = s" "dropWhile ?P (s @ [10]) = [10]" "takeWhile ?P s = s" "dropWhile ?P s = []" by auto
    show ?thesis
      using 1(2) by (simp add: w getlines.simps [of s] getlines.simps [of "s @ [10]"] getlines.simps [of "[]"])
  qed
qed

text \<open>
  What a line means to the client: a JSON text with finite numbers is handled as the value it denotes, any other
  line is skipped.
\<close>

definition line_means :: "'f environment \<Rightarrow> u8 list \<Rightarrow> client_outcome \<Rightarrow> bool" where
  "line_means env line out \<longleftrightarrow>
     (\<exists>t. json_text (env_strtod env) (env_point env) t line \<and> finite_floats (env_isfinite env) t \<and> out = client_json env (value_of t))
     \<or> (\<forall>t. \<not> (json_text (env_strtod env) (env_point env) t line \<and> finite_floats (env_isfinite env) t)) \<and> out = SKIP"

lemma json_text_nonempty: "\<not> json_text strtod dp t []"
proof
  assume "json_text strtod dp t []"
  then obtain zs where "spells strtod dp (tokens t) [] zs" unfolding json_text_def by auto
  then show False
  proof cases
    case (spells_token ws tok w ys toks)
    then have "w = []" by simp
    from spells_token(4) show False
    proof cases
      case (lex_number n)
      with \<open>w = []\<close> number_text_start [OF lex_number(3)] show False by auto
    qed (use \<open>w = []\<close> in \<open>auto simp: fixed_tokens_def\<close>)
  qed (use tokens_nonempty in simp)
qed

lemma line_means_eq:
  assumes "line_means env line out"
  shows "client_line env line = out"
proof -
  let ?p = "parse_json (env_strtod env) (env_isfinite env) True (lexer_new (env_point env) (env_zero env) False line)"
  have iff: "?p = Some j \<longleftrightarrow> (\<exists>t. json_text (env_strtod env) (env_point env) t line \<and> finite_floats (env_isfinite env) t \<and> j = value_of t)" for j
    by (rule parse_json_texts)
  from assms consider t where "json_text (env_strtod env) (env_point env) t line" "finite_floats (env_isfinite env) t" "out = client_json env (value_of t)"
    | "\<forall>t. \<not> (json_text (env_strtod env) (env_point env) t line \<and> finite_floats (env_isfinite env) t)" "out = SKIP"
    unfolding line_means_def by blast
  then show ?thesis
  proof cases
    case 1
    then have "?p = Some (value_of t)" "line \<noteq> []" using iff json_text_nonempty by blast+
    with 1(3) show ?thesis by (simp add: client_line_def)
  next
    case 2
    then have "?p = None" using iff by (metis option.exhaust)
    with 2(2) show ?thesis by (simp add: client_line_def)
  qed
qed

lemma client_line_means: "line_means env line (client_line env line)"
proof (cases "\<exists>t. json_text (env_strtod env) (env_point env) t line \<and> finite_floats (env_isfinite env) t")
  case True
  then obtain t where "line_means env line (client_json env (value_of t))" by (auto simp: line_means_def)
  with line_means_eq [OF this] show ?thesis by simp
next
  case False
  then have "line_means env line SKIP" by (auto simp: line_means_def)
  with line_means_eq [OF this] show ?thesis by simp
qed

lemma dumped_line:
  assumes "json_ok v"
  obtains bs where "json_dump float_text isfin (- 1) 0x20 ensure h v = Dumped bs" "10 \<notin> set bs" "client_line env bs = client_json env v"
proof -
  have "\<exists>bs. json_dump float_text isfin (- 1) 0x20 ensure h v = Dumped bs
    \<and> parse_json (env_strtod env) (env_isfinite env) True (lexer_new (env_point env) (env_zero env) False bs) = Some v"
    by (rule dump_parses [OF assms]) simp
  then obtain bs where bs: "json_dump float_text isfin (- 1) 0x20 ensure h v = Dumped bs"
    "parse_json (env_strtod env) (env_isfinite env) True (lexer_new (env_point env) (env_zero env) False bs) = Some v" by blast
  define opt where "opt = \<lparr> to_chars = float_text, finite_float = isfin, handler = h, pretty_print = False,
                  ensure_ascii = ensure, indent_step = 0 \<rparr>"
  obtain i where "dump opt 0 v (replicate 512 0x20) = Dumped (bs, i)"
    using bs(1) by (auto simp: json_dump_def Let_def opt_def and_then_Dumped)
  then have "10 \<notin> set bs" "bs \<noteq> []" using no_newline_dump(1) [of opt v 0 "replicate 512 0x20"] assms by (simp_all add: opt_def)
  with bs show ?thesis by (intro that [of bs]) (simp_all add: client_line_def)
qed

lemma file_events:
  assumes "\<forall>v \<in> set vs. json_ok v"
  shows "\<exists>bss. list_all2 (\<lambda>v bs. json_dump float_text isfin (- 1) 0x20 ensure h v = Dumped bs) vs bss
    \<and> read_events env (concat (map (\<lambda>bs. bs @ [10]) bss)) = collect_events (map (client_json env) vs)"
proof -
  have "\<exists>bss. list_all2 (\<lambda>v bs. json_dump float_text isfin (- 1) 0x20 ensure h v = Dumped bs) vs bss
    \<and> (\<forall>bs \<in> set bss. 10 \<notin> set bs) \<and> map (client_line env) bss = map (client_json env) vs"
    using assms
  proof (induction vs)
    case (Cons v vs)
    then obtain bss where b: "list_all2 (\<lambda>v bs. json_dump float_text isfin (- 1) 0x20 ensure h v = Dumped bs) vs bss"
      "\<forall>bs \<in> set bss. 10 \<notin> set bs" "map (client_line env) bss = map (client_json env) vs" by auto
    have "json_ok v" using Cons.prems by simp
    then obtain bs where "json_dump float_text isfin (- 1) 0x20 ensure h v = Dumped bs" "10 \<notin> set bs" "client_line env bs = client_json env v"
      by (rule dumped_line)
    with b show ?case by (intro exI [of _ "bs # bss"]) simp
  qed simp
  then obtain bss where b: "list_all2 (\<lambda>v bs. json_dump float_text isfin (- 1) 0x20 ensure h v = Dumped bs) vs bss"
    "\<forall>bs \<in> set bss. 10 \<notin> set bs" "map (client_line env) bss = map (client_json env) vs" by blast
  show ?thesis by (rule exI [of _ bss]) (use b getlines_lines [OF b(2)] in \<open>simp add: read_events_def\<close>)
qed

section \<open>Messages and orders\<close>

lemma client_message_sent:
  assumes "client_event tg gc gu j = EVENT ts m"
  shows "\<exists>ty oid tick px sz side. m = client_message ts ty oid tick px sz side
    \<and> ty \<in> {TYPE_LIMIT_BUY, TYPE_LIMIT_SELL, TYPE_UPDATE, TYPE_CANCEL}"
proof -
  have t: "client_msg_type ty c \<in> {TYPE_LIMIT_BUY, TYPE_LIMIT_SELL, TYPE_UPDATE, TYPE_CANCEL}" for ty c
    by (simp add: client_msg_type_def)
  have b: "\<exists>ty oid tick px sz side. m = client_message ts ty oid tick px sz side \<and> ty \<in> {TYPE_LIMIT_BUY, TYPE_LIMIT_SELL, TYPE_UPDATE, TYPE_CANCEL}"
    if "client_build gc gu t1 type side tick j = EVENT ts m" for t1 type side tick
    using that t [of type side] by (auto simp: client_build_def Let_def split: if_splits option.splits; blast)
  show ?thesis using assms b by (auto simp: client_event_def split: option.splits list.splits if_splits)
qed

lemma collect_events_in: "collect_events os = Some es \<Longrightarrow> (ts, m) \<in> set es \<Longrightarrow> EVENT ts m \<in> set os"
  by (induction os arbitrary: es rule: collect_events.induct) auto

lemma read_events_sent:
  assumes "read_events env file = Some es" and "(ts, m) \<in> set es"
  shows "\<exists>ty oid tick px sz side. m = client_message ts ty oid tick px sz side
    \<and> ty \<in> {TYPE_LIMIT_BUY, TYPE_LIMIT_SELL, TYPE_UPDATE, TYPE_CANCEL}"
proof -
  have "EVENT ts m \<in> client_line env ` set (getlines file)" using collect_events_in assms by (fastforce simp: read_events_def)
  then obtain line where "client_line env line = EVENT ts m" by auto
  then obtain v where "client_json env v = EVENT ts m" by (auto simp: client_line_def split: if_splits option.splits)
  then show ?thesis unfolding client_json_def by (rule client_message_sent)
qed

lemma message_time:
  assumes "m = client_message ts ty oid tick px sz side" and "ty \<in> {TYPE_LIMIT_BUY, TYPE_LIMIT_SELL, TYPE_UPDATE, TYPE_CANCEL}"
    and "message_order (Some m) = Some x"
  shows "o_timestamp x = ts"
proof -
  obtain p where "parse_message (Some m) new_parsed_order = Some (True, p)" "x = convert_to_order p"
    using assms(3) by (auto simp: message_order_def split: option.splits bool.splits prod.splits)
  then have "x = convert_to_order (sent_fields ts ty oid tick px sz side)"
    using client_message_fields(4) [OF assms(1,2)] by (simp add: parse_message_accepts)
  then show ?thesis by (simp add: convert_to_order_def make_order_t_def sent_fields_def Let_def split_def)
qed

section \<open>Properties\<close>

fun messages_of :: "exchange_label list \<Rightarrow> (nat \<times> u8 list) list" where
  "messages_of [] = []"
| "messages_of (Message p data # ls) = (p, data) # messages_of ls"
| "messages_of (_ # ls) = messages_of ls"

text \<open>The orders in a list of messages, and those of one thread.\<close>

definition orders_for :: "string \<Rightarrow> u8 list list \<Rightarrow> order_t list" where
  "orders_for b ms = filter (\<lambda>x. get_bucket (o_ticker x) = b) (List.map_filter (\<lambda>m. message_order (Some m)) ms)"

lemma sent_to_messages: "sent_to p b ls = orders_for b (map snd (filter (\<lambda>m. fst m = p) (messages_of ls)))"
  by (induction p b ls rule: sent_to.induct) (auto simp: orders_for_def List.map_filter_simps split: option.splits)

lemma orders_times:
  assumes "\<forall>(ts, m) \<in> set es. \<forall>x. message_order (Some m) = Some x \<longrightarrow> o_timestamp x = ts" and "sorted (map fst es)"
  shows "sorted (map o_timestamp (orders_for b (map snd es))) \<and> o_timestamp ` set (orders_for b (map snd es)) \<subseteq> fst ` set es"
  using assms
proof (induction es)
  case Nil
  show ?case by (simp add: orders_for_def List.map_filter_simps)
next
  case (Cons e es)
  obtain ts m where e: "e = (ts, m)" by (cases e)
  have IH: "sorted (map o_timestamp (orders_for b (map snd es)))" "o_timestamp ` set (orders_for b (map snd es)) \<subseteq> fst ` set es"
    using Cons by auto
  have o: "orders_for b (map snd (e # es)) = orders_for b [m] @ orders_for b (map snd es)"
    by (simp add: e orders_for_def List.map_filter_simps split: option.splits)
  have t: "\<forall>x \<in> set (orders_for b [m]). o_timestamp x = ts" using Cons.prems(1) e
    by (auto simp: orders_for_def List.map_filter_simps split: option.splits)
  have l: "length (orders_for b [m]) \<le> 1" by (simp add: orders_for_def List.map_filter_simps split: option.splits)
  have m: "\<forall>u \<in> fst ` set es. ts \<le> u" using Cons.prems(2) e by auto
  have "sorted (map o_timestamp (orders_for b [m]))" using l by (cases "orders_for b [m]") auto
  moreover have "\<forall>x \<in> set (orders_for b (map snd es)). ts \<le> o_timestamp x" using IH(2) m by blast
  ultimately show ?case unfolding o using IH t e by (auto simp: sorted_append)
qed

text \<open>
  C17: reading the file. A file gives the client exactly the events of its lines, in the order of the file: a line that is
  a JSON text with finite numbers is handled as the value the text denotes, with all its numbers, strings and floats; every
  other line is skipped. The newline after the last line may be missing.
\<close>

theorem replay_reads_file:
  assumes "list_all2 (\<lambda>line out. 10 \<notin> set line \<and> line_means env line out) lines outs"
    and "file = concat (map (\<lambda>line. line @ [10]) lines)
      \<or> lines \<noteq> [] \<and> last lines \<noteq> [] \<and> file @ [10] = concat (map (\<lambda>line. line @ [10]) lines)"
  shows "read_events env file = collect_events outs"
proof -
  have "map (client_line env) lines = outs"
    using assms(1) by (auto simp: list_all2_conv_all_nth line_means_eq intro!: nth_equalityI)
  moreover have "\<forall>line \<in> set lines. 10 \<notin> set line" using assms(1) by (auto simp: list_all2_conv_all_nth in_set_conv_nth)
  note g = getlines_lines [OF this]
  have "getlines file = lines"
    using assms(2)
  proof
    assume l: "lines \<noteq> [] \<and> last lines \<noteq> [] \<and> file @ [10] = concat (map (\<lambda>line. line @ [10]) lines)"
    then obtain ini la where la: "lines = ini @ [la]" by (metis append_butlast_last_id)
    with l have f: "la \<noteq> []" "file = concat (map (\<lambda>line. line @ [10]) ini) @ la" by simp_all
    have "10 \<notin> set la" using \<open>\<forall>line \<in> set lines. 10 \<notin> set line\<close> la by simp
    then have "last la \<noteq> 10" using f(1) last_in_set by metis
    with f have "file \<noteq> []" "last file \<noteq> 10" by simp_all
    from getlines_last [OF this] g l show ?thesis by simp
  qed (use g in simp)
  ultimately show ?thesis by (simp add: read_events_def)
qed

text \<open>An addition and a modification, as the files have them.\<close>

definition ex_add :: "unit json" where
  "ex_add = JObject [(bytes_of ''order_id'', JText (bytes_of ''a1'')), (bytes_of ''price'', JUnsigned 15), (bytes_of ''side'', JText (bytes_of ''B'')),
     (bytes_of ''size'', JUnsigned 7), (bytes_of ''symbol'', JText (bytes_of ''AAP'')),
     (bytes_of ''timestamp'', JText (bytes_of ''2024-03-05T09:30:01'')), (bytes_of ''type'', JText (bytes_of ''limit_add''))]"

definition ex_modify :: "unit json" where
  "ex_modify = JObject [(bytes_of ''type'', JText (bytes_of ''modify''))]"

definition ex_env :: "unit environment" where
  "ex_env = \<lparr> env_strtod = (\<lambda>_. ()), env_isfinite = (\<lambda>_. True), env_point = 0x2E, env_zero = (),
     env_floats = \<lparr> float_of_nat = (\<lambda>_. ()), float_of_int = (\<lambda>_. ()), float_cents = (\<lambda>_. 1500), float_u32 = (\<lambda>_. 0) \<rparr>,
     env_timegm = (\<lambda>t. tm_sec t) \<rparr>"

lemma ex_values_ok: "json_ok ex_add" "json_ok ex_modify"
  by (simp_all add: ex_add_def ex_modify_def omap_ok_def bytes_of_def valid_utf8_ascii)

definition ex_add_msg :: "u8 list" where
  "ex_add_msg = client_message 1000000000 TYPE_LIMIT_BUY ''a1'' ''AAP'' 1500 7 CHR ''B''"

lemma chars_of_bytes: "chars_of (bytes_of s) = s"
proof -
  have "unat (of_char c :: u8) = of_char c" for c by (cases c) (simp add: of_char_def)
  then show ?thesis by (simp add: chars_of_def bytes_of_def comp_def)
qed

lemma ex_find:
  fixes a b c d e f g :: "unit json"
  defines "ms \<equiv> [(bytes_of ''order_id'', a), (bytes_of ''price'', b), (bytes_of ''side'', c), (bytes_of ''size'', d),
    (bytes_of ''symbol'', e), (bytes_of ''timestamp'', f), (bytes_of ''type'', g)]"
  shows "omap_find (bytes_of ''order_id'') ms = Some a" "omap_find (bytes_of ''price'') ms = Some b"
    "omap_find (bytes_of ''side'') ms = Some c" "omap_find (bytes_of ''size'') ms = Some d" "omap_find (bytes_of ''symbol'') ms = Some e"
    "omap_find (bytes_of ''timestamp'') ms = Some f" "omap_find (bytes_of ''type'') ms = Some g"
  unfolding ms_def by (simp_all add: bytes_of_def)

lemma ex_values_events: "client_json ex_env ex_add = EVENT 1000000000 ex_add_msg" "client_json ex_env ex_modify = SKIP"
proof -
  have o: "client_object ex_add k = map_option client_value (omap_find (bytes_of k)
      [(bytes_of ''order_id'', JText (bytes_of ''a1'')), (bytes_of ''price'', JUnsigned 15), (bytes_of ''side'', JText (bytes_of ''B'')),
     (bytes_of ''size'', JUnsigned 7), (bytes_of ''symbol'', JText (bytes_of ''AAP'')),
     (bytes_of ''timestamp'', JText (bytes_of ''2024-03-05T09:30:01'')), (bytes_of ''type'', JText (bytes_of ''limit_add''))])" for k
    by (simp add: client_object_def ex_add_def)
  have t: "parse_timestamp_ns tm_sec ''2024-03-05T09:30:01'' = Some 1000000000"
    using ex_parse_time [of tm_sec] by (simp add: parse_timestamp_ns_def)
  have v: "client_value (JText (bytes_of s)) = JString s" "client_value (JUnsigned n) = JOther (JUnsigned n)" for s n
    by (simp_all add: client_value_def chars_of_bytes)
  have j: "client_object ex_add ''order_id'' = Some (JString ''a1'')" "client_object ex_add ''price'' = Some (JOther (JUnsigned 15))"
    "client_object ex_add ''side'' = Some (JString ''B'')" "client_object ex_add ''size'' = Some (JOther (JUnsigned 7))"
    "client_object ex_add ''symbol'' = Some (JString ''AAP'')" "client_object ex_add ''timestamp'' = Some (JString ''2024-03-05T09:30:01'')"
    "client_object ex_add ''type'' = Some (JString ''limit_add'')"
    by (simp_all only: o ex_find option.map v)
  show "client_json ex_env ex_add = EVENT 1000000000 ex_add_msg"
    by (simp add: client_json_def client_event_def client_build_def client_msg_type_def string_at_def value_at_def j
        ex_env_def t client_cents_def client_size_def get_double_def get_uint32_def ex_add_msg_def)
  show "client_json ex_env ex_modify = SKIP"
    by (simp add: client_json_def client_event_def string_at_def client_object_def ex_modify_def client_value_def chars_of_bytes)
qed

lemma ex_price_line:
  "parse_json (\<lambda>_. ()) (\<lambda>_. True) True (lexer_new 0x2E () False (bytes_of ''{\"price\":15.5}'')) = Some (JObject [(bytes_of ''price'', JFloat ())])"
  by code_simp

text \<open>A line that is no JSON text, a line with a float that is no event, and an event, the last without a newline.\<close>

theorem replay_reads_file_witness:
  "\<exists>line. read_events ex_env (bytes_of ''x'' @ [10] @ bytes_of ''{\"price\":15.5}'' @ [10] @ line) = Some [(1000000000, ex_add_msg)]"
proof -
  obtain line where l: "10 \<notin> set line" "client_line ex_env line = EVENT 1000000000 ex_add_msg" "line \<noteq> []"
    using dumped_line [OF ex_values_ok(1), of "\<lambda>_. []" "\<lambda>_. True" False strict_handler ex_env] ex_values_events(1)
    by (metis client_line_def client_outcome.distinct(3))
  have "client_line ex_env (bytes_of ''{\"price\":15.5}'') = SKIP"
    using ex_price_line by (simp add: client_line_def ex_env_def client_json_def client_event_def string_at_def client_object_def)
      (simp add: bytes_of_def)
  moreover have "client_line ex_env (bytes_of ''x'') = SKIP"
    by (simp add: client_line_def ex_env_def) code_simp
  ultimately have "list_all2 (\<lambda>line out. 10 \<notin> set line \<and> line_means ex_env line out)
      [bytes_of ''x'', bytes_of ''{\"price\":15.5}'', line] [SKIP, SKIP, EVENT 1000000000 ex_add_msg]"
    using l client_line_means [of ex_env line] client_line_means [of ex_env "bytes_of ''x''"]
      client_line_means [of ex_env "bytes_of ''{\"price\":15.5}''"] by (simp add: bytes_of_def)
  from replay_reads_file [OF this, of "bytes_of ''x'' @ [10] @ bytes_of ''{\"price\":15.5}'' @ [10] @ line"] l(3)
  show ?thesis by auto
qed

text \<open>
  C8: the replay keeps time. When the client has read its events and \<open>std::sort\<close> sorts them by time stamp, then in every
  run of the exchange in which it hands over these messages, whatever the threads of the buckets do in between, each
  bucket gets exactly the orders of its tickers, and their time stamps ascend, in what the thread has handled and in what
  is still queued.
\<close>

theorem replay_in_time_order:
  assumes "read_events env file = Some es" and "mset (std_sort es) = mset es" and "sorted (map fst (std_sort es))"
    and "exchange_trace dead (exchange_new lg) ls ex" and "messages_of ls = messages_of (replay_calls std_sort es)" and "b \<noteq> ''''"
  shows "handled_by 0 b ls @ queue_of 0 b ex = orders_for b (map snd (std_sort es))
    \<and> sorted (map o_timestamp (handled_by 0 b ls @ queue_of 0 b ex))
    \<and> (\<forall>p. p \<noteq> 0 \<longrightarrow> handled_by p b ls @ queue_of p b ex = [])"
proof -
  have "messages_of (map (\<lambda>(ts, buf). Message 0 buf) xs @ [Stop]) = map (\<lambda>m. (0, m)) (map snd xs)" for xs :: "(u64 \<times> u8 list) list"
    by (induction xs) auto
  then have m: "messages_of ls = map (\<lambda>m. (0, m)) (map snd (std_sort es))" using assms(5) by (simp add: replay_calls_def)
  have q: "handled_by p b ls @ queue_of p b ex = (if p = 0 then orders_for b (map snd (std_sort es)) else [])" for p
    using queue_trace [OF assms(4,6), of p]
    by (simp add: sent_to_messages m filter_map comp_def) (simp add: orders_for_def List.map_filter_simps)
  have "o_timestamp x = ts" if e: "(ts, m) \<in> set (std_sort es)" and x: "message_order (Some m) = Some x" for ts m x
  proof -
    have "(ts, m) \<in> set es" using e assms(2) by (metis set_mset_mset)
    from read_events_sent [OF assms(1) this] message_time [OF _ _ x, of ts] show ?thesis by blast
  qed
  then have "\<forall>(ts, m) \<in> set (std_sort es). \<forall>x. message_order (Some m) = Some x \<longrightarrow> o_timestamp x = ts" by blast
  from orders_times [OF this assms(3), of b] q [of 0] q show ?thesis by auto
qed

lemma ex_file:
  obtains fl where "read_events ex_env fl = Some [(1000000000, ex_add_msg)]"
proof -
  have "\<forall>v \<in> set [ex_modify, ex_add]. json_ok v" using ex_values_ok by simp
  from file_events [OF this, of "\<lambda>_. []" "\<lambda>_. True" False strict_handler ex_env] that show ?thesis by (auto simp: ex_values_events)
qed

theorem replay_in_time_order_witness:
  "\<exists>fl ex. read_events ex_env fl = Some [(1000000000, ex_add_msg)]
    \<and> exchange_trace Some (exchange_new True) [Start, Message 0 ex_add_msg] ex
    \<and> handled_by 0 ''A'' [Start, Message 0 ex_add_msg] @ queue_of 0 ''A'' ex = orders_for ''A'' [ex_add_msg]
    \<and> sorted (map o_timestamp (handled_by 0 ''A'' [Start, Message 0 ex_add_msg] @ queue_of 0 ''A'' ex))"
proof -
  obtain fl where f: "read_events ex_env fl = Some [(1000000000, ex_add_msg)]" by (rule ex_file)
  let ?ex1 = "exchange_start (exchange_new True)"
  let ?ex2 = "on_msg_received 0 (Some ex_add_msg) ?ex1"
  have s: "exchange_step Some Start (exchange_new True) = Some ?ex1" "exchange_step Some (Message 0 ex_add_msg) ?ex1 = Some ?ex2"
    by (simp_all add: exchange_step_def exchange_new_def) (simp add: exchange_start_def)
  from ex_trace_step [OF ex_trace_step [OF ex_trace_nil s(1)] s(2)]
  have t: "exchange_trace Some (exchange_new True) [Start, Message 0 ex_add_msg] ?ex2" by simp
  have "messages_of [Start, Message 0 ex_add_msg] = messages_of (replay_calls id [(1000000000, ex_add_msg)])"
    by (simp add: replay_calls_def)
  from replay_in_time_order [OF f _ _ t this, of "''A''"] f t show ?thesis by auto
qed

end
