(* ===== verification/Logger.thy ===== *)
theory Logger
  imports Log_Events Message_Queue
begin

text \<open>
  The asynchronous logger (src/logger.cpp): any thread pushes an event, one worker thread
  takes events from the queue and writes their lines, the destructor stops the worker.

  A run of the logger is a sequence of labelled steps, so every interleaving of the pushing
  threads, the worker and the destructor is a trace. The worker is a state machine over its
  program points. One call of \<open>try_dequeue\<close> is spread over the steps in which it looks at
  the streams of the producers (theory \<open>Message_Queue\<close>), so that a push may fall between
  two of them. A worker that waits on the condition variable may wake at any moment: it waits
  100 ms at most, and \<open>wait_for\<close> may wake without a notification.
\<close>

section \<open>State and steps\<close>

datatype worker_pc =
    DRAIN bool "nat set"  \<comment> \<open>in the loop of \<open>run\<close>: \<open>did_work\<close> and the streams seen empty in this call\<close>
  | CHECK  \<comment> \<open>about to lock and read \<open>running_\<close>\<close>
  | WAIT  \<comment> \<open>in \<open>wait_for\<close>\<close>
  | FINAL "nat set"  \<comment> \<open>in the second loop\<close>
  | EXITED

datatype owner_pc = ALIVE | STOPPING | CLOSED

record logger_state =
  lg_queue :: "log_event_t cqueue"
  lg_running :: bool
  lg_worker :: worker_pc
  lg_owner :: owner_pc
  lg_out :: string  \<comment> \<open>everything written to the stream\<close>
  lg_file :: string  \<comment> \<open>what \<open>flush\<close> has handed to the file\<close>

datatype logger_label =
  Push nat log_event_t | Take nat log_event_t | See nat | Scanned | Check | Wake | Stop | Close

text \<open>The constructor; \<open>None\<close> is the exception it throws when the file cannot be opened.\<close>

definition logger_new :: "bool \<Rightarrow> logger_state option" where
  "logger_new is_open =
     (if is_open then Some \<lparr> lg_queue = cq_empty, lg_running = True, lg_worker = DRAIN False {},
        lg_owner = ALIVE, lg_out = [], lg_file = [] \<rparr>
      else None)"

definition write_line :: "log_event_t \<Rightarrow> logger_state \<Rightarrow> logger_state" where
  "write_line ev s = s\<lparr> lg_out := lg_out s @ event_to_line ev @ [CHR 0x0A] \<rparr>"

definition flush_out :: "logger_state \<Rightarrow> logger_state" where
  "flush_out s = s\<lparr> lg_file := lg_out s \<rparr>"

text \<open>\<open>push\<close>, by the thread with the number \<open>p\<close>, on an object whose destruction has not begun.\<close>

definition logger_push :: "nat \<Rightarrow> nat \<Rightarrow> log_event_t \<Rightarrow> logger_state \<Rightarrow> logger_state option" where
  "logger_push n p ev s =
     (if p < n \<and> lg_owner s = ALIVE then Some (s\<lparr> lg_queue := cq_enqueue p ev (lg_queue s) \<rparr>) else None)"

text \<open>The steps of \<open>run\<close>; \<open>n\<close> is the number of producers.\<close>

fun worker_step :: "nat \<Rightarrow> logger_label \<Rightarrow> worker_pc \<Rightarrow> logger_state \<Rightarrow> logger_state option" where
  "worker_step n (Take p ev) (DRAIN w seen) s =
     (case cq_dequeue p (lg_queue s) of
        Some (x, q) \<Rightarrow> if x = ev then Some (write_line ev (s\<lparr> lg_queue := q, lg_worker := DRAIN True {} \<rparr>)) else None
      | None \<Rightarrow> None)"
| "worker_step n (Take p ev) (FINAL seen) s =
     (case cq_dequeue p (lg_queue s) of
        Some (x, q) \<Rightarrow> if x = ev then Some (write_line ev (s\<lparr> lg_queue := q, lg_worker := FINAL {} \<rparr>)) else None
      | None \<Rightarrow> None)"
| "worker_step n (See p) (DRAIN w seen) s =
     (if p < n \<and> p \<notin> seen \<and> lg_queue s p = [] then Some (s\<lparr> lg_worker := DRAIN w (insert p seen) \<rparr>) else None)"
| "worker_step n (See p) (FINAL seen) s =
     (if p < n \<and> p \<notin> seen \<and> lg_queue s p = [] then Some (s\<lparr> lg_worker := FINAL (insert p seen) \<rparr>) else None)"
| "worker_step n Scanned (DRAIN w seen) s =
     (if seen = {..<n} then Some ((if w then flush_out s else s)\<lparr> lg_worker := CHECK \<rparr>) else None)"
| "worker_step n Scanned (FINAL seen) s =
     (if seen = {..<n} then Some ((flush_out s)\<lparr> lg_worker := EXITED \<rparr>) else None)"
| "worker_step n Check CHECK s = Some (s\<lparr> lg_worker := (if lg_running s then WAIT else FINAL {}) \<rparr>)"
| "worker_step n Wake WAIT s = Some (s\<lparr> lg_worker := DRAIN False {} \<rparr>)"
| "worker_step n _ _ s = None"

text \<open>The destructor: clear the flag and notify, then join the worker, flush and close.\<close>

fun owner_step :: "logger_label \<Rightarrow> logger_state \<Rightarrow> logger_state option" where
  "owner_step Stop s = (if lg_owner s = ALIVE then Some (s\<lparr> lg_running := False, lg_owner := STOPPING \<rparr>) else None)"
| "owner_step Close s =
     (if lg_owner s = STOPPING \<and> lg_worker s = EXITED then Some ((flush_out s)\<lparr> lg_owner := CLOSED \<rparr>) else None)"
| "owner_step _ s = None"

definition logger_step :: "nat \<Rightarrow> logger_label \<Rightarrow> logger_state \<Rightarrow> logger_state option" where
  "logger_step n l s =
     (case l of
        Push p ev \<Rightarrow> logger_push n p ev s
      | Stop \<Rightarrow> owner_step Stop s
      | Close \<Rightarrow> owner_step Close s
      | _ \<Rightarrow> worker_step n l (lg_worker s) s)"

inductive logger_trace :: "nat \<Rightarrow> logger_state \<Rightarrow> logger_label list \<Rightarrow> logger_state \<Rightarrow> bool" for n s where
  trace_nil: "logger_trace n s [] s"
| trace_step: "logger_trace n s ls s1 \<Longrightarrow> logger_step n l s1 = Some s2 \<Longrightarrow> logger_trace n s (ls @ [l]) s2"

section \<open>The invariant\<close>

fun pushed_by :: "nat \<Rightarrow> logger_label list \<Rightarrow> log_event_t list" where
  "pushed_by p [] = []"
| "pushed_by p (Push r ev # ls) = (if r = p then [ev] else []) @ pushed_by p ls"
| "pushed_by p (_ # ls) = pushed_by p ls"

fun taken_from :: "nat \<Rightarrow> logger_label list \<Rightarrow> log_event_t list" where
  "taken_from p [] = []"
| "taken_from p (Take r ev # ls) = (if r = p then [ev] else []) @ taken_from p ls"
| "taken_from p (_ # ls) = taken_from p ls"

fun taken :: "logger_label list \<Rightarrow> log_event_t list" where
  "taken [] = []"
| "taken (Take r ev # ls) = ev # taken ls"
| "taken (_ # ls) = taken ls"

lemma labels_append [simp]:
  "pushed_by p (ls @ ls') = pushed_by p ls @ pushed_by p ls'"
  "taken_from p (ls @ ls') = taken_from p ls @ taken_from p ls'"
  "taken (ls @ ls') = taken ls @ taken ls'"
  by (induction ls rule: taken.induct) simp_all

lemma log_text_append [simp]: "log_text (es @ es') = log_text es @ log_text es'" "log_text [] = []"
  "log_text [e] = event_to_line e @ [CHR 0x0A]"
  by (simp_all add: log_text_def)

fun worker_inv :: "nat \<Rightarrow> worker_pc \<Rightarrow> logger_state \<Rightarrow> bool" where
  "worker_inv n (DRAIN w seen) s \<longleftrightarrow> seen \<subseteq> {..<n} \<and> (w \<or> lg_file s = lg_out s)"
| "worker_inv n CHECK s \<longleftrightarrow> lg_file s = lg_out s"
| "worker_inv n WAIT s \<longleftrightarrow> lg_file s = lg_out s"
| "worker_inv n (FINAL seen) s \<longleftrightarrow> seen \<subseteq> {..<n} \<and> \<not> lg_running s \<and> (\<forall>p \<in> seen. lg_queue s p = [])"
| "worker_inv n EXITED s \<longleftrightarrow> \<not> lg_running s \<and> lg_queue s = cq_empty \<and> lg_file s = lg_out s"

definition logger_inv :: "nat \<Rightarrow> logger_label list \<Rightarrow> logger_state \<Rightarrow> bool" where
  "logger_inv n ls s \<longleftrightarrow>
     (\<forall>p. taken_from p ls @ lg_queue s p = pushed_by p ls) \<and> (\<forall>p. n \<le> p \<longrightarrow> lg_queue s p = [])
     \<and> lg_out s = log_text (taken ls) \<and> lg_running s = (lg_owner s = ALIVE)
     \<and> (lg_owner s = CLOSED \<longrightarrow> lg_worker s = EXITED) \<and> worker_inv n (lg_worker s) s"

lemma logger_inv_new: "logger_new b = Some s \<Longrightarrow> logger_inv n [] s"
  by (auto simp: logger_new_def logger_inv_def cq_empty_def split: if_splits)

lemma logger_inv_push:
  assumes "logger_inv n ls s" and "logger_push n p ev s = Some s'"
  shows "logger_inv n (ls @ [Push p ev]) s'"
  using assms
  by (cases "lg_worker s") (auto simp: logger_inv_def logger_push_def cq_enqueue_def split: if_splits)

lemma worker_step_cases:
  assumes "worker_step n l pc s = Some s'"
  obtains
    (take) p ev w seen xs where "l = Take p ev" "pc = DRAIN w seen" "lg_queue s p = ev # xs"
      "s' = write_line ev (s\<lparr> lg_queue := (lg_queue s)(p := xs), lg_worker := DRAIN True {} \<rparr>)"
  | (take_final) p ev seen xs where "l = Take p ev" "pc = FINAL seen" "lg_queue s p = ev # xs"
      "s' = write_line ev (s\<lparr> lg_queue := (lg_queue s)(p := xs), lg_worker := FINAL {} \<rparr>)"
  | (see) p w seen where "l = See p" "pc = DRAIN w seen" "p < n" "p \<notin> seen" "lg_queue s p = []"
      "s' = s\<lparr> lg_worker := DRAIN w (insert p seen) \<rparr>"
  | (see_final) p seen where "l = See p" "pc = FINAL seen" "p < n" "p \<notin> seen" "lg_queue s p = []"
      "s' = s\<lparr> lg_worker := FINAL (insert p seen) \<rparr>"
  | (scanned) w where "l = Scanned" "pc = DRAIN w {..<n}" "s' = (if w then flush_out s else s)\<lparr> lg_worker := CHECK \<rparr>"
  | (scanned_final) "l = Scanned" "pc = FINAL {..<n}" "s' = (flush_out s)\<lparr> lg_worker := EXITED \<rparr>"
  | (check) "l = Check" "pc = CHECK" "s' = s\<lparr> lg_worker := (if lg_running s then WAIT else FINAL {}) \<rparr>"
  | (wake) "l = Wake" "pc = WAIT" "s' = s\<lparr> lg_worker := DRAIN False {} \<rparr>"
proof (cases l)
  case (Take p ev)
  with assms take take_final show thesis
    by (cases pc) (auto simp: cq_dequeue_def split: list.splits if_splits)
next
  case (See p)
  with assms see see_final show thesis by (cases pc) (auto split: if_splits)
next
  case Scanned
  with assms scanned scanned_final show thesis by (cases pc) (auto split: if_splits)
next
  case Check
  with assms check show thesis by (cases pc) auto
next
  case Wake
  with assms wake show thesis by (cases pc) auto
qed (use assms in simp_all)

lemma take_fifo:
  assumes "\<forall>p. taken_from p ls @ q p = pushed_by p ls" and "q r = ev # xs"
  shows "taken_from p (ls @ [Take r ev]) @ (q(r := xs)) p = pushed_by p (ls @ [Take r ev])"
  using assms(1)[rule_format, of p] assms(2) by (cases "p = r") simp_all

lemma logger_inv_worker:
  assumes "logger_inv n ls s" and "worker_step n l (lg_worker s) s = Some s'"
  shows "logger_inv n (ls @ [l]) s'"
proof -
  have fifo: "\<forall>p. taken_from p ls @ lg_queue s p = pushed_by p ls"
    using assms(1) by (simp add: logger_inv_def)
  show ?thesis using assms(2)
proof (cases rule: worker_step_cases)
  case (take p ev w seen xs)
  then have "\<forall>r. taken_from r (ls @ [l]) @ lg_queue s' r = pushed_by r (ls @ [l])"
    using take_fifo [OF fifo take(3)] by (simp add: write_line_def del: labels_append fun_upd_apply)
  with take assms(1) show ?thesis by (auto simp: logger_inv_def write_line_def)
next
  case (take_final p ev seen xs)
  then have "\<forall>r. taken_from r (ls @ [l]) @ lg_queue s' r = pushed_by r (ls @ [l])"
    using take_fifo [OF fifo take_final(3)] by (simp add: write_line_def del: labels_append fun_upd_apply)
  with take_final assms(1) show ?thesis by (auto simp: logger_inv_def write_line_def)
next
  case scanned_final
  have "lg_queue s p = []" for p
    using assms(1) scanned_final by (cases "p < n") (simp_all add: logger_inv_def)
  with scanned_final assms(1) show ?thesis by (auto simp: logger_inv_def flush_out_def cq_empty_def fun_eq_iff)
qed (use assms(1) in \<open>auto simp: logger_inv_def flush_out_def\<close>)
qed

lemma logger_inv_step:
  assumes "logger_inv n ls s" and "logger_step n l s = Some s'"
  shows "logger_inv n (ls @ [l]) s'"
proof (cases l)
  case (Push p ev)
  with assms logger_inv_push show ?thesis by (simp add: logger_step_def)
next
  case Stop
  with assms show ?thesis
    by (cases "lg_worker s") (auto simp: logger_inv_def logger_step_def split: if_splits)
next
  case Close
  with assms show ?thesis
    by (auto simp: logger_inv_def logger_step_def flush_out_def split: if_splits)
qed (use assms logger_inv_worker in \<open>simp_all add: logger_step_def\<close>)

lemma logger_inv_trace:
  assumes "logger_trace n s0 ls s" and "logger_new b = Some s0"
  shows "logger_inv n ls s"
  using assms by (induction rule: logger_trace.induct) (auto intro: logger_inv_new logger_inv_step)

section \<open>The worker stops\<close>

text \<open>
  Once the destructor has begun, every step uses up some of this number, so it bounds what is
  left to do: each queued event costs a scan of the \<open>n\<close> streams, and the ranks order the
  program points.
\<close>

fun worker_rank :: "nat \<Rightarrow> worker_pc \<Rightarrow> nat" where
  "worker_rank n WAIT = 2 * n + 7"
| "worker_rank n (DRAIN w seen) = (n - card seen) + n + 5"
| "worker_rank n CHECK = n + 4"
| "worker_rank n (FINAL seen) = (n - card seen) + 2"
| "worker_rank n EXITED = 1"

definition logger_fuel :: "nat \<Rightarrow> logger_state \<Rightarrow> nat" where
  "logger_fuel n s = (\<Sum>p<n. length (lg_queue s p)) * (n + 2)
     + (if lg_owner s = CLOSED then 0 else worker_rank n (lg_worker s))"

lemma sum_length_pop:
  assumes "p < (n :: nat)" and "q p = x # xs"
  shows "(\<Sum>r<n. length (q r)) = Suc (\<Sum>r<n. length ((q(p := xs)) r))"
proof -
  have "(\<Sum>r<n. length (q r)) = length (q p) + (\<Sum>r \<in> {..<n} - {p}. length (q r))"
    using assms(1) by (intro sum.remove) auto
  moreover have "(\<Sum>r<n. length ((q(p := xs)) r))
    = length ((q(p := xs)) p) + (\<Sum>r \<in> {..<n} - {p}. length ((q(p := xs)) r))"
    using assms(1) by (intro sum.remove) auto
  moreover have "(\<Sum>r \<in> {..<n} - {p}. length ((q(p := xs)) r)) = (\<Sum>r \<in> {..<n} - {p}. length (q r))"
    by (rule sum.cong) auto
  ultimately show ?thesis using assms(2) by simp
qed

lemma card_seen_less:
  assumes "seen \<subseteq> {..<n :: nat}" and "p < n" and "p \<notin> seen"
  shows "n - card (insert p seen) < n - card seen"
proof -
  have "finite seen" by (rule finite_subset [OF assms(1) finite_lessThan])
  moreover have "card (insert p seen) \<le> card {..<n}"
    by (rule card_mono [OF finite_lessThan]) (use assms(1,2) in auto)
  ultimately show ?thesis using assms(3) by simp
qed

lemma stopping_step_decreases:
  assumes "logger_inv n ls s" and "lg_owner s \<noteq> ALIVE" and "logger_step n l s = Some s'"
  shows "logger_fuel n s' < logger_fuel n s \<and> lg_owner s' \<noteq> ALIVE"
proof (cases "lg_worker s = EXITED")
  case True
  with assms show ?thesis
    by (cases l) (auto simp: logger_step_def logger_push_def logger_fuel_def flush_out_def split: if_splits)
next
  case False
  have o: "lg_owner s = STOPPING"
    using assms(1,2) False by (cases "lg_owner s") (simp_all add: logger_inv_def)
  with assms(1) have inv: "worker_inv n (lg_worker s) s" "lg_owner s = STOPPING" "\<not> lg_running s"
    by (simp_all add: logger_inv_def)
  have bound: "p < n" if "lg_queue s p \<noteq> []" for p
    using assms(1) that by (auto simp: logger_inv_def not_less [symmetric])
  have "worker_step n l (lg_worker s) s = Some s'"
    using assms(3) inv(2) False by (cases l) (auto simp: logger_step_def logger_push_def split: if_splits)
  then show ?thesis
  proof (cases rule: worker_step_cases)
    case (take p ev w seen xs)
    with bound [of p] sum_length_pop [of p n "lg_queue s" ev xs] inv(2) show ?thesis
      by (simp add: logger_fuel_def write_line_def)
  next
    case (take_final p ev seen xs)
    with bound [of p] sum_length_pop [of p n "lg_queue s" ev xs] inv(2) show ?thesis
      by (simp add: logger_fuel_def write_line_def)
  next
    case (see p w seen)
    with inv card_seen_less [of seen n p] show ?thesis by (simp add: logger_fuel_def)
  next
    case (see_final p seen)
    with inv card_seen_less [of seen n p] show ?thesis by (simp add: logger_fuel_def)
  qed (use inv in \<open>simp_all add: logger_fuel_def flush_out_def\<close>)
qed

lemma trace_inv_from:
  assumes "logger_trace n s ls' s'" and "logger_inv n ls s"
  shows "logger_inv n (ls @ ls') s'"
  using assms
proof (induction rule: logger_trace.induct)
  case (trace_step ls1 s1 l s2)
  then have "logger_inv n ((ls @ ls1) @ [l]) s2" by (intro logger_inv_step) simp_all
  then show ?case by simp
qed simp

lemma stopping_trace_bound:
  assumes "logger_trace n s ls' s'" and "logger_inv n ls s" and "lg_owner s \<noteq> ALIVE"
  shows "length ls' + logger_fuel n s' \<le> logger_fuel n s \<and> lg_owner s' \<noteq> ALIVE"
  using assms
proof (induction rule: logger_trace.induct)
  case (trace_step ls1 s1 l s2)
  then have "logger_fuel n s2 < logger_fuel n s1 \<and> lg_owner s2 \<noteq> ALIVE"
    using stopping_step_decreases [OF trace_inv_from] by blast
  with trace_step show ?case by simp
qed simp

lemma scan_progress:
  assumes "seen \<subseteq> {..<n}" and "seen \<noteq> {..<n}"
  obtains p where "p < n" "p \<notin> seen"
  using assms by auto

lemma stopping_progress:
  assumes "logger_inv n ls s" and "lg_owner s = STOPPING"
  shows "\<exists>l s'. logger_step n l s = Some s'"
proof (cases "lg_worker s")
  case (DRAIN w seen)
  show ?thesis
  proof (cases "seen = {..<n}")
    case True
    with DRAIN have "logger_step n Scanned s \<noteq> None" by (simp add: logger_step_def)
    then show ?thesis by blast
  next
    case False
    have "seen \<subseteq> {..<n}" using assms(1) DRAIN by (simp add: logger_inv_def)
    then obtain p where p: "p < n" "p \<notin> seen" using False by (rule scan_progress)
    show ?thesis
    proof (cases "lg_queue s p")
      case Nil
      with DRAIN p have "logger_step n (See p) s \<noteq> None" by (simp add: logger_step_def)
      then show ?thesis by blast
    next
      case (Cons ev xs)
      with DRAIN have "logger_step n (Take p ev) s \<noteq> None" by (simp add: logger_step_def cq_dequeue_def)
      then show ?thesis by blast
    qed
  qed
next
  case (FINAL seen)
  show ?thesis
  proof (cases "seen = {..<n}")
    case True
    with FINAL have "logger_step n Scanned s \<noteq> None" by (simp add: logger_step_def)
    then show ?thesis by blast
  next
    case False
    have "seen \<subseteq> {..<n}" using assms(1) FINAL by (simp add: logger_inv_def)
    then obtain p where p: "p < n" "p \<notin> seen" using False by (rule scan_progress)
    show ?thesis
    proof (cases "lg_queue s p")
      case Nil
      with FINAL p have "logger_step n (See p) s \<noteq> None" by (simp add: logger_step_def)
      then show ?thesis by blast
    next
      case (Cons ev xs)
      with FINAL have "logger_step n (Take p ev) s \<noteq> None" by (simp add: logger_step_def cq_dequeue_def)
      then show ?thesis by blast
    qed
  qed
next
  case CHECK
  then have "logger_step n Check s \<noteq> None" by (simp add: logger_step_def)
  then show ?thesis by blast
next
  case WAIT
  then have "logger_step n Wake s \<noteq> None" by (simp add: logger_step_def)
  then show ?thesis by blast
next
  case EXITED
  with assms(2) have "logger_step n Close s \<noteq> None" by (simp add: logger_step_def)
  then show ?thesis by blast
qed

section \<open>Properties\<close>

text \<open>A run with two producers: each pushes, the worker sleeps, wakes, and is stopped.\<close>

definition ex_event :: "nat \<Rightarrow> log_event_t" where
  "ex_event k = log_cancel_order (of_nat k) (replicate 16 65) 100 5 BUY"

definition ex_run :: "logger_label list" where
  "ex_run = [Push 1 (ex_event 1), See 0, Push 0 (ex_event 2), Take 1 (ex_event 1), Push 1 (ex_event 3),
     Stop, Take 1 (ex_event 3), See 1, Take 0 (ex_event 2), See 0, See 1, Scanned, Check, See 1, See 0, Scanned, Close]"

fun logger_run :: "nat \<Rightarrow> logger_state \<Rightarrow> logger_label list \<Rightarrow> logger_state option" where
  "logger_run n s [] = Some s"
| "logger_run n s (l # ls) = (case logger_step n l s of Some s1 \<Rightarrow> logger_run n s1 ls | None \<Rightarrow> None)"

lemma logger_run_trace: "logger_trace n s0 ls s \<Longrightarrow> logger_run n s ls' = Some s' \<Longrightarrow> logger_trace n s0 (ls @ ls') s'"
proof (induction ls' arbitrary: s ls)
  case (Cons l ls')
  then obtain s1 where "logger_step n l s = Some s1" "logger_run n s1 ls' = Some s'"
    by (auto split: option.splits)
  with Cons.IH [OF trace_step [OF Cons.prems(1)]] show ?case by simp
qed simp

text \<open>
  C9: nothing is lost, duplicated or reordered. When the logger is closed, the file is exactly
  the lines of the events the worker took, and for every thread those are the events it pushed,
  in the order it pushed them. While the logger runs, the events of a thread that are not yet
  written are the ones in its stream.
\<close>

theorem logger_writes_every_event:
  assumes "logger_new is_open = Some s0" and "logger_trace n s0 ls s"
  shows "(\<forall>p. taken_from p ls @ lg_queue s p = pushed_by p ls) \<and> lg_out s = log_text (taken ls)
    \<and> (lg_owner s = CLOSED \<longrightarrow> lg_file s = log_text (taken ls) \<and> (\<forall>p. taken_from p ls = pushed_by p ls))"
proof -
  have inv: "logger_inv n ls s" by (rule logger_inv_trace [OF assms(2,1)])
  then have "lg_file s = lg_out s \<and> (\<forall>p. lg_queue s p = [])" if "lg_owner s = CLOSED"
    using that by (auto simp: logger_inv_def cq_empty_def)
  moreover have "\<forall>p. taken_from p ls @ lg_queue s p = pushed_by p ls" "lg_out s = log_text (taken ls)"
    using inv by (auto simp: logger_inv_def)
  ultimately show ?thesis by (metis append_Nil2)
qed

lemma ex_run_closed:
  "\<exists>s0 s. logger_new True = Some s0 \<and> logger_trace 2 s0 ex_run s \<and> lg_owner s = CLOSED"
proof -
  obtain s0 where s0: "logger_new True = Some s0" by (simp add: logger_new_def)
  have "(case logger_new True of Some s \<Rightarrow> map_option lg_owner (logger_run 2 s ex_run) | None \<Rightarrow> None) = Some CLOSED"
    by code_simp
  with s0 obtain s where "logger_run 2 s0 ex_run = Some s" "lg_owner s = CLOSED" by auto
  with logger_run_trace [OF trace_nil, of 2 s0 ex_run s] s0 show ?thesis by auto
qed

theorem logger_writes_every_event_witness:
  "\<exists>s :: logger_state. lg_file s = log_text (map ex_event [1, 3, 2]) \<and> taken_from 1 ex_run = map ex_event [1, 3]"
proof -
  obtain s0 s where s: "logger_new True = Some s0" "logger_trace 2 s0 ex_run s" "lg_owner s = CLOSED"
    using ex_run_closed by blast
  from logger_writes_every_event [OF s(1,2)] s(3) have "lg_file s = log_text (taken ex_run)"
    "taken_from 1 ex_run = pushed_by 1 ex_run" by simp_all
  moreover have "taken ex_run = map ex_event [1, 3, 2]" "pushed_by 1 ex_run = map ex_event [1, 3]"
    by (simp_all add: ex_run_def)
  ultimately show ?thesis by metis
qed

text \<open>
  C35: the destructor returns. From any moment at which it has begun, the threads can take only
  as many steps as \<open>logger_fuel\<close> says, and they are never stuck before the file is closed: a
  run that cannot be continued has joined the worker and closed the file.
\<close>

theorem logger_destructor_returns:
  assumes "logger_new is_open = Some s0" and "logger_trace n s0 ls s" and "lg_owner s \<noteq> ALIVE"
    and "logger_trace n s ls' s'"
  shows "length ls' \<le> logger_fuel n s \<and> ((\<forall>l. logger_step n l s' = None) \<longrightarrow> lg_owner s' = CLOSED)"
proof -
  have inv: "logger_inv n ls s" by (rule logger_inv_trace [OF assms(2,1)])
  from stopping_trace_bound [OF assms(4) inv assms(3)]
  have "length ls' \<le> logger_fuel n s" "lg_owner s' \<noteq> ALIVE" by simp_all
  moreover have "lg_owner s' = CLOSED" if "\<forall>l. logger_step n l s' = None" "lg_owner s' \<noteq> ALIVE"
    using that stopping_progress [OF trace_inv_from [OF assms(4) inv]] by (cases "lg_owner s'") auto
  ultimately show ?thesis by blast
qed

theorem logger_destructor_returns_witness:
  "\<exists>s0 s. logger_new True = Some s0 \<and> logger_trace 2 s0 ex_run s \<and> lg_owner s = CLOSED
    \<and> length ([] :: logger_label list) \<le> logger_fuel 2 s \<and> ((\<forall>l. logger_step 2 l s = None) \<longrightarrow> lg_owner s = CLOSED)"
proof -
  obtain s0 s where s: "logger_new True = Some s0" "logger_trace 2 s0 ex_run s" "lg_owner s = CLOSED"
    using ex_run_closed by blast
  then have "lg_owner s \<noteq> ALIVE" by simp
  from logger_destructor_returns [OF s(1,2) this trace_nil] s show ?thesis by blast
qed

text \<open>
  A worker that goes to sleep has handed everything it wrote to the file; nothing is held
  back in the buffer of the stream while the logger is idle.
\<close>

theorem logger_idle_flushed:
  assumes "logger_new is_open = Some s0" and "logger_trace n s0 ls s" and "lg_worker s = WAIT"
  shows "lg_file s = log_text (taken ls)"
  using logger_inv_trace [OF assms(2,1)] assms(3) by (auto simp: logger_inv_def)

definition ex_idle :: "logger_label list" where
  "ex_idle = [Push 1 (ex_event 1), Take 1 (ex_event 1), See 0, See 1, Scanned, Check]"

theorem logger_idle_flushed_witness:
  "\<exists>s :: logger_state. lg_worker s = WAIT \<and> lg_file s = log_text [ex_event 1]"
proof -
  obtain s0 where s0: "logger_new True = Some s0" by (simp add: logger_new_def)
  have "(case logger_new True of Some s \<Rightarrow> map_option lg_worker (logger_run 2 s ex_idle) | None \<Rightarrow> None) = Some WAIT"
    by code_simp
  with s0 obtain s where s: "logger_run 2 s0 ex_idle = Some s" "lg_worker s = WAIT" by auto
  have "logger_trace 2 s0 ex_idle s" using logger_run_trace [OF trace_nil s(1)] by simp
  from logger_idle_flushed [OF s0 this s(2)] have "lg_file s = log_text (taken ex_idle)" .
  moreover have "taken ex_idle = [ex_event 1]" by (simp add: ex_idle_def)
  ultimately show ?thesis using s(2) by metis
qed

end
