(* ===== verification/Publisher.thy ===== *)
theory Publisher
  imports Order_Types
begin

text \<open>
  The market data publisher (includes/market_data_publisher.h, src/market_data_publisher.cpp):
  the event types, the queue, and the thread that \<open>start\<close> creates and \<open>stop\<close> joins. Nothing is
  sent: the thread takes events from the queue and drops them. The calls come from one thread;
  the queue is the stream of that thread. The socket and the multicast options, which have no
  definition in the source, are not modelled.
\<close>

section \<open>Events\<close>

record price_level_update_md =
  md_timestamp :: u64
  md_order_id :: "u8 list"
  md_price :: u32
  md_qty :: u64
  md_side :: order_side

type_synonym cancel_md = price_level_update_md

record trade_report_md = price_level_update_md +
  md_order_id_secondary :: "u8 list"
  md_price_secondary :: u32
  md_qty_secondary :: u64
  md_side_secondary :: order_side

type_synonym modify_md = trade_report_md

datatype market_info_type = MD_PRICE_LEVEL_UPDATE | MD_TRADE_REPORT | MD_MODIFY | MD_CANCEL

datatype market_data =
  Price_Level_Update_MD price_level_update_md | Trade_Report_MD trade_report_md | Modify_MD modify_md | Cancel_MD cancel_md

datatype market_data_event = Market_Data_Event (md_type: market_info_type) (md_data: market_data)

section \<open>The publisher\<close>

datatype run_pc = RUN_TEST | RUN_DRAIN | RUN_SLEEP | RUN_FINAL | RUN_END

text \<open>\<open>pb_thread\<close> is the program point of the thread in \<open>thread_\<close>, \<open>None\<close> when no thread is joinable.\<close>

record publisher =
  pb_queue :: "market_data_event list"
  pb_running :: bool
  pb_thread :: "run_pc option"
  pb_joining :: bool

definition publisher_new :: publisher where
  "publisher_new = \<lparr> pb_queue = [], pb_running = False, pb_thread = None, pb_joining = False \<rparr>"

definition publish :: "market_data_event \<Rightarrow> publisher \<Rightarrow> publisher" where
  "publish ev pb = pb\<lparr> pb_queue := pb_queue pb @ [ev] \<rparr>"

definition publish_price_level_update :: "price_level_update_md \<Rightarrow> publisher \<Rightarrow> publisher" where
  "publish_price_level_update plu = publish (Market_Data_Event MD_PRICE_LEVEL_UPDATE (Price_Level_Update_MD plu))"

definition publish_trade_report :: "trade_report_md \<Rightarrow> publisher \<Rightarrow> publisher" where
  "publish_trade_report tr = publish (Market_Data_Event MD_TRADE_REPORT (Trade_Report_MD tr))"

definition publish_modify_event :: "modify_md \<Rightarrow> publisher \<Rightarrow> publisher" where
  "publish_modify_event me = publish (Market_Data_Event MD_MODIFY (Modify_MD me))"

definition publish_cancel_event :: "cancel_md \<Rightarrow> publisher \<Rightarrow> publisher" where
  "publish_cancel_event ce = publish (Market_Data_Event MD_CANCEL (Cancel_MD ce))"

text \<open>
  Assigning to a thread object that is joinable ends the program: \<open>None\<close>. \<open>stop\<close> joins only when it
  is the call that cleared the flag.
\<close>

definition publisher_start :: "publisher \<Rightarrow> publisher option" where
  "publisher_start pb =
     (if pb_running pb then Some pb
      else if pb_thread pb \<noteq> None then None
      else Some (pb\<lparr> pb_running := True, pb_thread := Some RUN_TEST \<rparr>))"

definition publisher_stop :: "publisher \<Rightarrow> publisher" where
  "publisher_stop pb =
     (if pb_running pb then pb\<lparr> pb_running := False, pb_joining := pb_thread pb \<noteq> None \<rparr> else pb)"

definition publisher_joined :: "publisher \<Rightarrow> publisher option" where
  "publisher_joined pb =
     (if pb_joining pb \<and> pb_thread pb = Some RUN_END
      then Some (pb\<lparr> pb_thread := None, pb_joining := False \<rparr>) else None)"

fun publisher_run :: "run_pc \<Rightarrow> publisher \<Rightarrow> publisher" where
  "publisher_run RUN_TEST pb = pb\<lparr> pb_thread := Some (if pb_running pb then RUN_DRAIN else RUN_FINAL) \<rparr>"
| "publisher_run RUN_DRAIN pb =
     (case pb_queue pb of [] \<Rightarrow> pb\<lparr> pb_thread := Some RUN_SLEEP \<rparr> | ev # evs \<Rightarrow> pb\<lparr> pb_queue := evs \<rparr>)"
| "publisher_run RUN_SLEEP pb = pb\<lparr> pb_thread := Some RUN_TEST \<rparr>"
| "publisher_run RUN_FINAL pb =
     (case pb_queue pb of [] \<Rightarrow> pb\<lparr> pb_thread := Some RUN_END \<rparr> | ev # evs \<Rightarrow> pb\<lparr> pb_queue := evs \<rparr>)"
| "publisher_run RUN_END pb = pb"

section \<open>Runs\<close>

text \<open>While a call of \<open>stop\<close> waits, its thread makes no other call.\<close>

inductive publisher_reach :: "publisher \<Rightarrow> bool" where
  pb_new: "publisher_reach publisher_new"
| pb_start: "publisher_reach pb \<Longrightarrow> \<not> pb_joining pb \<Longrightarrow> publisher_start pb = Some pb' \<Longrightarrow> publisher_reach pb'"
| pb_stop: "publisher_reach pb \<Longrightarrow> \<not> pb_joining pb \<Longrightarrow> publisher_reach (publisher_stop pb)"
| pb_joined: "publisher_reach pb \<Longrightarrow> publisher_joined pb = Some pb' \<Longrightarrow> publisher_reach pb'"
| pb_publish: "publisher_reach pb \<Longrightarrow> \<not> pb_joining pb \<Longrightarrow> publisher_reach (publish ev pb)"
| pb_run: "publisher_reach pb \<Longrightarrow> pb_thread pb = Some pc \<Longrightarrow> publisher_reach (publisher_run pc pb)"

definition publisher_inv :: "publisher \<Rightarrow> bool" where
  "publisher_inv pb \<longleftrightarrow> (pb_thread pb \<noteq> None \<longleftrightarrow> pb_running pb \<or> pb_joining pb) \<and> (pb_running pb \<longrightarrow> \<not> pb_joining pb)
     \<and> (pb_thread pb \<in> {Some RUN_FINAL, Some RUN_END} \<longrightarrow> pb_joining pb)
     \<and> (pb_thread pb = Some RUN_END \<longrightarrow> pb_queue pb = [])"

lemma publisher_inv_reach: "publisher_reach pb \<Longrightarrow> publisher_inv pb"
proof (induction rule: publisher_reach.induct)
  case (pb_run pb pc)
  then show ?case by (cases pc) (auto simp: publisher_inv_def split: list.splits)
qed (auto simp: publisher_inv_def publisher_new_def publisher_start_def publisher_stop_def publisher_joined_def publish_def
       split: if_splits)

text \<open>How many steps the thread takes until it ends, once the flag is cleared.\<close>

fun run_rank :: "run_pc \<Rightarrow> nat" where
  "run_rank RUN_DRAIN = 4"
| "run_rank RUN_SLEEP = 3"
| "run_rank RUN_TEST = 2"
| "run_rank RUN_FINAL = 1"
| "run_rank RUN_END = 0"

definition run_fuel :: "publisher \<Rightarrow> nat" where
  "run_fuel pb = (case pb_thread pb of
      Some pc \<Rightarrow> if pc = RUN_END then 0 else length (pb_queue pb) + run_rank pc
    | None \<Rightarrow> 0)"

fun publisher_runs :: "nat \<Rightarrow> publisher \<Rightarrow> publisher" where
  "publisher_runs 0 pb = pb"
| "publisher_runs (Suc n) pb = (case pb_thread pb of Some pc \<Rightarrow> publisher_runs n (publisher_run pc pb) | None \<Rightarrow> pb)"

lemma publisher_runs_end:
  "\<not> pb_running pb \<Longrightarrow> pb_thread pb \<noteq> None \<Longrightarrow> run_fuel pb \<le> n
    \<Longrightarrow> pb_thread (publisher_runs n pb) = Some RUN_END \<and> \<not> pb_running (publisher_runs n pb)
      \<and> pb_joining (publisher_runs n pb) = pb_joining pb"
proof (induction n arbitrary: pb)
  case 0
  then obtain pc where "pb_thread pb = Some pc" "pc = RUN_END \<or> run_rank pc = 0"
    by (auto simp: run_fuel_def split: if_splits)
  with 0 show ?case by (cases pc) simp_all
next
  case (Suc n)
  then obtain pc where pc: "pb_thread pb = Some pc" by auto
  have a: "\<not> pb_running (publisher_run pc pb)" "pb_joining (publisher_run pc pb) = pb_joining pb"
    using Suc.prems(1) by (cases pc; simp split: list.split)+
  have b: "pb_thread (publisher_run pc pb) \<noteq> None" using pc by (cases pc) (simp_all split: list.split)
  have "run_fuel (publisher_run pc pb) \<le> n"
    using Suc.prems(1,3) pc by (cases pc) (auto simp: run_fuel_def split: list.split)
  from Suc.IH [OF a(1) b this] a(2) show ?case by (simp add: pc)
qed

section \<open>Properties\<close>

text \<open>
  Starting and stopping the publisher is safe in any order: \<open>start\<close> never assigns to a thread
  object that is joinable, and whenever no call is waiting a thread exists exactly while the
  publisher runs.
\<close>

theorem publisher_lifecycle:
  assumes "publisher_reach pb" and "\<not> pb_joining pb"
  shows "publisher_start pb \<noteq> None \<and> (pb_thread pb \<noteq> None \<longleftrightarrow> pb_running pb)"
  using publisher_inv_reach [OF assms(1)] assms(2) by (auto simp: publisher_inv_def publisher_start_def)

theorem publisher_lifecycle_witness:
  "publisher_start publisher_new \<noteq> None \<and> (pb_thread publisher_new \<noteq> None \<longleftrightarrow> pb_running publisher_new)"
  by (rule publisher_lifecycle [OF pb_new]) (simp add: publisher_new_def)

text \<open>
  \<open>stop\<close> returns: after the flag is cleared the thread ends within as many steps as there are
  events in the queue and four more, and when it has been joined the queue is empty.
\<close>

theorem publisher_stop_returns:
  assumes "publisher_reach pb" and "pb_running pb" and "length (pb_queue pb) + 4 \<le> n"
  shows "\<exists>pb'. publisher_joined (publisher_runs n (publisher_stop pb)) = Some pb' \<and> pb_queue pb' = [] \<and> pb_thread pb' = None"
proof -
  have inv: "publisher_inv pb" by (rule publisher_inv_reach [OF assms(1)])
  let ?s = "publisher_stop pb"
  have s: "\<not> pb_running ?s" "pb_thread ?s \<noteq> None" "pb_joining ?s" "pb_queue ?s = pb_queue pb"
    using inv assms(2) by (auto simp: publisher_inv_def publisher_stop_def)
  have "run_rank pc \<le> 4" for pc by (cases pc) simp_all
  then have "run_fuel ?s \<le> n"
    using assms(3) s(4) by (auto simp: run_fuel_def split: option.split intro: le_trans [OF add_left_mono])
  note e = publisher_runs_end [OF s(1,2) this]
  have r: "publisher_reach (publisher_runs k pb')" if "publisher_reach pb'" for k pb'
    using that by (induction k arbitrary: pb') (auto split: option.splits intro: pb_run)
  have "publisher_reach ?s" using assms(1,2) inv by (auto intro: pb_stop simp: publisher_inv_def)
  from publisher_inv_reach [OF r [OF this]] e s(3) show ?thesis
    by (auto simp: publisher_inv_def publisher_joined_def)
qed

theorem publisher_stop_returns_witness:
  "\<exists>pb'. publisher_joined (publisher_runs 4 (publisher_stop (the (publisher_start publisher_new)))) = Some pb'"
proof -
  have "publisher_start publisher_new = Some \<lparr> pb_queue = [], pb_running = True, pb_thread = Some RUN_TEST, pb_joining = False \<rparr>"
    by (simp add: publisher_start_def publisher_new_def)
  with publisher_stop_returns [OF pb_start [OF pb_new _ this], of 4] show ?thesis
    by (auto simp: publisher_new_def)
qed

end
