(* ===== verification/Network_Server.thy ===== *)
theory Network_Server
  imports Order_Parser
begin

text \<open>
  The TCP front end (includes/network_server.h, src/network_server.cpp) as the handlers that
  the I/O library calls: the completion of an accept and the completion of a read. What the
  library reports (the error code, how many bytes arrived) is the input; a read returns at most
  as many bytes as the buffer holds.
\<close>

section \<open>Accepting\<close>

record server =
  sv_running :: bool
  sv_open :: bool
  sv_accepts :: nat  \<comment> \<open>accepts that are armed\<close>
  sv_sessions :: nat  \<comment> \<open>sessions that were started\<close>

definition server_new :: server where
  "server_new = \<lparr> sv_running = False, sv_open = True, sv_accepts = 0, sv_sessions = 0 \<rparr>"

definition do_accept :: "server \<Rightarrow> server" where
  "do_accept sv = sv\<lparr> sv_accepts := sv_accepts sv + 1 \<rparr>"

text \<open>The completion of one of the armed accepts; \<open>ec\<close> says whether it failed.\<close>

definition on_accept :: "bool \<Rightarrow> server \<Rightarrow> server" where
  "on_accept ec sv =
     (let sv1 = sv\<lparr> sv_accepts := sv_accepts sv - 1 \<rparr>;
          sv2 = (if \<not> ec \<and> sv_running sv1 then sv1\<lparr> sv_sessions := sv_sessions sv1 + 1 \<rparr> else sv1)
      in if sv_running sv2 then do_accept sv2 else sv2)"

definition server_start :: "server \<Rightarrow> server" where
  "server_start sv = do_accept (sv\<lparr> sv_running := True \<rparr>)"

definition server_stop :: "server \<Rightarrow> server" where
  "server_stop sv = sv\<lparr> sv_running := False, sv_open := False \<rparr>"

section \<open>Sessions\<close>

definition FULL_MSG_LEN :: nat where
  "FULL_MSG_LEN = 8 + 1 + ORDER_ID_LEN + TICKER_LEN + 4 + 4"

text \<open>The result of a read: the bytes in the buffer, the end of the stream, or an error.\<close>

datatype read_result = READ_OK "u8 list" | READ_EOF | READ_ERROR

datatype session_action =
    DISPATCH "u8 list"  \<comment> \<open>hand the message to the exchange and read again\<close>
  | CLOSE
  | REPORT  \<comment> \<open>print the error; the session ends\<close>

definition on_read :: "read_result \<Rightarrow> session_action" where
  "on_read r =
     (case r of
        READ_OK bs \<Rightarrow> if length bs = FULL_MSG_LEN then DISPATCH bs else REPORT
      | READ_EOF \<Rightarrow> CLOSE
      | READ_ERROR \<Rightarrow> REPORT)"

text \<open>
  A session over the results of its reads: the messages it dispatches, and whether it still
  reads afterwards.
\<close>

fun session_run :: "read_result list \<Rightarrow> u8 list list \<times> bool" where
  "session_run [] = ([], True)"
| "session_run (r # rs) =
     (case on_read r of
        DISPATCH m \<Rightarrow> (let (ms, reading) = session_run rs in (m # ms, reading))
      | _ \<Rightarrow> ([], False))"

lemma session_run_eq:
  "session_run (map READ_OK bss) =
     (takeWhile (\<lambda>bs. length bs = FULL_MSG_LEN) bss, \<forall>bs \<in> set bss. length bs = FULL_MSG_LEN)"
  by (induction bss) (auto simp: on_read_def)

lemma session_full: "m \<in> set (fst (session_run rs)) \<Longrightarrow> length m = 37"
proof (induction rs)
  case (Cons r rs)
  then show ?case
    by (auto simp: on_read_def FULL_MSG_LEN_def wire_lengths split: read_result.splits if_splits prod.splits)
qed simp

section \<open>Properties\<close>

text \<open>
  The front end cannot deliver a modification. Every message a session hands to the exchange has
  37 bytes, and of those the parser accepts new orders and padded cancellations only, because
  an update needs 38.
\<close>

theorem session_delivers_no_update:
  assumes "m \<in> set (fst (session_run rs))" and "parse_message (Some m) out = Some (True, p)"
  shows "p_msg_type p \<in> {TYPE_LIMIT_BUY, TYPE_LIMIT_SELL, TYPE_MARKET_BUY, TYPE_MARKET_SELL, TYPE_CANCEL}"
proof -
  have "message_ok m" "p = parsed_fields m" using assms(2) by (simp_all add: parse_message_accepts)
  then have "m ! 8 \<in> message_types" "message_length (m ! 8) \<le> length m" "p_msg_type p = m ! 8"
    by (simp_all add: message_ok_def)
  with session_full [OF assms(1)] show ?thesis by (auto simp: message_types_def message_length_def)
qed

lemma ex_msg_length: "length ex_msg = FULL_MSG_LEN"
  by (simp add: ex_msg_def FULL_MSG_LEN_def wire_lengths)

theorem session_delivers_no_update_witness:
  "p_msg_type (parsed_fields ex_msg) \<in> {TYPE_LIMIT_BUY, TYPE_LIMIT_SELL, TYPE_MARKET_BUY, TYPE_MARKET_SELL, TYPE_CANCEL}"
proof (rule session_delivers_no_update)
  show "ex_msg \<in> set (fst (session_run [READ_OK ex_msg]))" by (simp add: on_read_def ex_msg_length)
  show "parse_message (Some ex_msg) new_parsed_order = Some (True, parsed_fields ex_msg)"
    by (simp add: parse_message_accepts ex_msg_ok)
qed

text \<open>
  A session dispatches the reads that fill its buffer, in order, and nothing after the first
  one that does not; that read ends the session.
\<close>

theorem session_dispatches_prefix:
  "session_run (map READ_OK bss @ rs) =
     (if \<forall>bs \<in> set bss. length bs = FULL_MSG_LEN
      then (bss @ fst (session_run rs), snd (session_run rs))
      else (takeWhile (\<lambda>bs. length bs = FULL_MSG_LEN) bss, False))"
  by (induction bss) (auto simp: on_read_def split: prod.split)

theorem session_dispatches_prefix_witness:
  "session_run (map READ_OK [ex_msg, [1, 2]] @ [READ_OK ex_msg]) = ([ex_msg], False)"
  by (subst session_dispatches_prefix) (simp add: ex_msg_length FULL_MSG_LEN_def)

text \<open>
  A server that was stopped starts no session: whichever way its armed accepts complete, the
  number of sessions stays and no accept is armed again.
\<close>

theorem server_stopped:
  "foldr on_accept ecs (server_stop sv) =
     (server_stop sv)\<lparr> sv_accepts := sv_accepts sv - length ecs \<rparr>"
  by (induction ecs) (simp_all add: on_accept_def server_stop_def Let_def)

end
