(* ===== verification/Net_Exchange.thy ===== *)
theory Net_Exchange
  imports Order_Handling Order_Parser Message_Queue Publisher Network_Server
begin

text \<open>
  The exchange with one thread per symbol, a market data publisher and a network server
  (includes/exchange.h, src/exchange.cpp). It handles an order as the exchange of the theory
  \<open>Local_Exchange\<close> does, and pushes an event of its own to the logger after each success. The
  bucket table and \<open>get_bucket\<close>, which the file repeats and does not use, and the output to the
  console are not modelled. The logger pointer is dereferenced without a test: with a null
  pointer a success is undefined behaviour.
\<close>

section \<open>Handling an order\<close>

text \<open>The event the exchange itself logs after a successful operation.\<close>

definition extra_event :: "order_t \<Rightarrow> log_event_t list" where
  "extra_event order =
     (if o_status order = NEW then
        [log_price_level_update (o_timestamp order) (o_order_id order) (o_price order) (o_qty order) (o_side order)]
      else if o_status order = CANCELLED then
        [log_cancel_order (o_timestamp order) (o_order_id order) (o_price order) (o_qty order) (o_side order)]
      else [log_trade_report (o_timestamp order) (o_order_id order) (o_price order) (o_qty order)
              (o_order_id order) (o_price order)])"

definition net_process_order ::
  "(order_t \<Rightarrow> order_t option) \<Rightarrow> bool \<Rightarrow> u64 \<Rightarrow> order_t \<Rightarrow> orderbook \<Rightarrow> (log_event_t list \<times> orderbook) option" where
  "net_process_order dead logger_ptr match_ts order ob = do {
     ((res, evs), ob1) \<leftarrow> dispatch_order dead order ob;
     extra \<leftarrow> (if res = Some SUCCESS then if logger_ptr then Some (extra_event order) else None else Some []);
     (trades, ob2) \<leftarrow> execute match_ts ob1;
     Some (evs @ extra @ trades, ob2)
   }"

section \<open>State\<close>

datatype thread_pc = T_LOOP | T_POLL | T_DONE

record book_thread =
  bk_book :: orderbook
  bk_queue :: "order_t cqueue"
  bk_pc :: thread_pc
  bk_joinable :: bool

record net_exchange =
  nx_books :: "u8 list \<Rightarrow> book_thread option"
  nx_running :: bool
  nx_logger :: bool
  nx_publisher :: publisher
  nx_network :: "server option"
  nx_log :: "log_event_t list"

definition net_exchange_new :: "bool \<Rightarrow> publisher \<Rightarrow> net_exchange" where
  "net_exchange_new logger_ptr publisher_ptr =
     \<lparr> nx_books = (\<lambda>_. None), nx_running = False, nx_logger = logger_ptr, nx_publisher = publisher_ptr,
       nx_network = None, nx_log = [] \<rparr>"

section \<open>Operations\<close>

definition net_start :: "net_exchange \<Rightarrow> net_exchange option" where
  "net_start nx = do {
     pb \<leftarrow> publisher_start (nx_publisher nx);
     Some (nx\<lparr> nx_running := True, nx_publisher := pb, nx_network := map_option server_start (nx_network nx) \<rparr>)
   }"

text \<open>\<open>stop\<close> up to the joins: the flag is tested and cleared, then network and publisher are stopped.\<close>

definition net_stop :: "net_exchange \<Rightarrow> net_exchange" where
  "net_stop nx =
     (if nx_running nx then
        nx\<lparr> nx_running := False, nx_network := map_option server_stop (nx_network nx),
            nx_publisher := publisher_stop (nx_publisher nx) \<rparr>
      else nx)"

definition net_add_symbol :: "u8 list \<Rightarrow> net_exchange \<Rightarrow> net_exchange" where
  "net_add_symbol symbol nx =
     (let ticker = take TICKER_LEN symbol in
      if nx_books nx ticker \<noteq> None then nx
      else nx\<lparr> nx_books := (nx_books nx)(ticker \<mapsto>
             \<lparr> bk_book = new_orderbook (nx_logger nx), bk_queue = cq_empty, bk_pc = T_LOOP, bk_joinable = True \<rparr>) \<rparr>)"

text \<open>\<open>p\<close> is the calling thread.\<close>

definition net_enqueue_order :: "nat \<Rightarrow> order_t \<Rightarrow> net_exchange \<Rightarrow> net_exchange" where
  "net_enqueue_order p order nx =
     (let ticker = take TICKER_LEN (o_ticker order) in
      case nx_books nx ticker of
        None \<Rightarrow> nx
      | Some bt \<Rightarrow> nx\<lparr> nx_books := (nx_books nx)(ticker \<mapsto> bt\<lparr> bk_queue := cq_enqueue p order (bk_queue bt) \<rparr>) \<rparr>)"

definition net_on_msg_received :: "nat \<Rightarrow> u8 list option \<Rightarrow> net_exchange \<Rightarrow> net_exchange" where
  "net_on_msg_received p data nx =
     (case parse_message data new_parsed_order of
        Some (True, parsed) \<Rightarrow> net_enqueue_order p (convert_to_order parsed) nx
      | _ \<Rightarrow> nx)"

text \<open>
  One step of the thread of a symbol: the test of the loop, then an order or a sleep. \<open>pick\<close> is the thread whose
  stream \<open>try_dequeue\<close> finds an order in; with \<open>None\<close> it finds nothing. The result \<open>None\<close> is undefined behaviour.
\<close>

definition net_book_step :: "(order_t \<Rightarrow> order_t option) \<Rightarrow> u64 \<Rightarrow> nat option \<Rightarrow> u8 list \<Rightarrow> net_exchange \<Rightarrow> net_exchange option" where
  "net_book_step dead match_ts pick ticker nx = (case nx_books nx ticker of None \<Rightarrow> Some nx | Some bt \<Rightarrow>
     (case bk_pc bt of
        T_LOOP \<Rightarrow> Some (nx\<lparr> nx_books := (nx_books nx)(ticker \<mapsto>
                     bt\<lparr> bk_pc := (if nx_running nx then T_POLL else T_DONE) \<rparr>) \<rparr>)
      | T_DONE \<Rightarrow> Some nx
      | T_POLL \<Rightarrow>
          (case (case pick of None \<Rightarrow> None | Some p \<Rightarrow> cq_dequeue p (bk_queue bt)) of
             None \<Rightarrow> Some (nx\<lparr> nx_books := (nx_books nx)(ticker \<mapsto> bt\<lparr> bk_pc := T_LOOP \<rparr>) \<rparr>)
           | Some (order, rest) \<Rightarrow> do {
               (evs, ob1) \<leftarrow> net_process_order dead (nx_logger nx) match_ts order (bk_book bt);
               Some (nx\<lparr> nx_books := (nx_books nx)(ticker \<mapsto> bt\<lparr> bk_book := ob1, bk_queue := rest, bk_pc := T_LOOP \<rparr>),
                         nx_log := nx_log nx @ evs \<rparr>)
             })))"

inductive net_reach :: "(order_t \<Rightarrow> order_t option) \<Rightarrow> net_exchange \<Rightarrow> bool" for dead where
  nr_new: "net_reach dead (net_exchange_new True pb)"
| nr_start: "net_reach dead nx \<Longrightarrow> net_start nx = Some nx' \<Longrightarrow> net_reach dead nx'"
| nr_stop: "net_reach dead nx \<Longrightarrow> net_reach dead (net_stop nx)"
| nr_symbol: "net_reach dead nx \<Longrightarrow> length symbol = TICKER_LEN \<Longrightarrow> net_reach dead (net_add_symbol symbol nx)"
| nr_message: "net_reach dead nx \<Longrightarrow> net_reach dead (net_on_msg_received p data nx)"
| nr_book: "net_reach dead nx \<Longrightarrow> net_book_step dead ts pick ticker nx = Some nx' \<Longrightarrow> net_reach dead nx'"

section \<open>The invariant\<close>

definition net_inv :: "net_exchange \<Rightarrow> bool" where
  "net_inv nx \<longleftrightarrow> nx_logger nx \<and> (\<forall>t bt. nx_books nx t = Some bt \<longrightarrow> book_ready t (bk_book bt)
     \<and> (\<forall>p. \<forall>x \<in> set (bk_queue bt p). order_wf x \<and> o_ticker x = t))"

lemma net_inv_put:
  assumes "net_inv nx" and "nx_logger nx' = nx_logger nx" and "nx_books nx' = (nx_books nx)(t \<mapsto> bt)"
    and "book_ready t (bk_book bt)" and "\<forall>p. \<forall>x \<in> set (bk_queue bt p). order_wf x \<and> o_ticker x = t"
  shows "net_inv nx'"
  using assms by (auto simp: net_inv_def split: if_splits)

lemma net_process_ok:
  assumes "book_ready t ob" and "order_wf x" and "o_ticker x = t"
  shows "case net_process_order dead True ts x ob of
      None \<Rightarrow> \<exists>y. erased_read x ob = Some y \<and> dead y = None
    | Some (evs, ob') \<Rightarrow> book_ready t ob' \<and> (\<forall>y. erased_read x ob = Some y \<longrightarrow> dead y \<noteq> None)"
proof -
  note P = process_order_ok [OF assms, where dead = dead and ts = ts]
  show ?thesis
  proof (cases "process_order dead ts x ob")
    case None
    have inv: "book_inv ob" using assms(1) by (simp add: book_ready_def)
    have "dispatch_order dead x ob = None"
    proof (rule ccontr)
      assume "dispatch_order dead x ob \<noteq> None"
      then obtain res evs ob1 where d: "dispatch_order dead x ob = Some ((res, evs), ob1)" by (metis not_None_eq prod.collapse)
      then have "book_inv ob1" using dispatch_order_ok [OF inv assms(2), where dead = dead] by simp
      from execute_ok [OF this, of ts] None d show False by (auto simp: process_order_def)
    qed
    with None P show ?thesis by (simp add: net_process_order_def)
  next
    case (Some a)
    then obtain evs ob' where a: "process_order dead ts x ob = Some (evs, ob')" by (metis prod.collapse)
    then obtain res evs1 ob1 trades where d: "dispatch_order dead x ob = Some ((res, evs1), ob1)"
      "execute ts ob1 = Some (trades, ob')"
      by (auto simp: process_order_def split: Option.bind_splits)
    with P a show ?thesis by (simp add: net_process_order_def)
  qed
qed

lemma net_inv_reach: "net_reach dead nx \<Longrightarrow> net_inv nx"
proof (induction rule: net_reach.induct)
  case (nr_new pb)
  show ?case by (simp add: net_inv_def net_exchange_new_def)
next
  case (nr_start nx nx')
  then show ?case by (auto simp: net_inv_def net_start_def split: Option.bind_splits)
next
  case (nr_stop nx)
  then show ?case by (simp add: net_inv_def net_stop_def)
next
  case (nr_symbol nx symbol)
  then show ?case by (auto simp: net_inv_def net_add_symbol_def Let_def book_ready_new cq_empty_def)
next
  case (nr_message nx p data)
  show ?case
  proof (cases "\<exists>p. parse_message data new_parsed_order = Some (True, p)")
    case True
    then obtain f where f: "parse_message data new_parsed_order = Some (True, f)" by blast
    then obtain bs where bs: "data = Some bs" by (cases data) (auto simp: parse_message_def)
    with f have "message_ok bs" "f = parsed_fields bs" by (simp_all add: parse_message_accepts)
    from convert_to_order_ok [OF this(1) refl] this(2)
    have "order_wf (convert_to_order f)" "length (o_ticker (convert_to_order f)) = TICKER_LEN"
      by (simp_all add: order_wf_def)
    with f nr_message.IH show ?thesis
      by (auto simp: net_inv_def net_on_msg_received_def net_enqueue_order_def cq_enqueue_def Let_def split: option.splits)
  next
    case False
    then have "net_on_msg_received p data nx = nx"
      by (auto simp: net_on_msg_received_def split: option.splits prod.splits bool.splits)
    with nr_message.IH show ?thesis by simp
  qed
next
  case (nr_book nx ts pick t nx')
  show ?case
  proof (cases "\<exists>bt p x rest. nx_books nx t = Some bt \<and> bk_pc bt = T_POLL \<and> pick = Some p \<and> bk_queue bt p = x # rest")
    case True
    then obtain bt p x rest where bt: "nx_books nx t = Some bt" "bk_pc bt = T_POLL" "pick = Some p" "bk_queue bt p = x # rest" by blast
    with nr_book.IH have qs: "book_ready t (bk_book bt)" "\<forall>p. \<forall>x \<in> set (bk_queue bt p). order_wf x \<and> o_ticker x = t" "nx_logger nx"
      by (auto simp: net_inv_def)
    have x: "order_wf x" "o_ticker x = t" using qs(2) [rule_format, of x p] bt(4) by simp_all
    obtain evs ob' where p: "net_process_order dead True ts x (bk_book bt) = Some (evs, ob')"
      using nr_book.hyps(2) bt qs(3) by (auto simp: net_book_step_def cq_dequeue_def split: Option.bind_splits)
    then have r: "book_ready t ob'" using net_process_ok [OF qs(1) x, where dead = dead and ts = ts] by simp
    from p nr_book.hyps(2) bt qs(3)
    have e: "nx_logger nx' = nx_logger nx"
      "nx_books nx' = (nx_books nx)(t \<mapsto> bt\<lparr> bk_book := ob', bk_queue := (bk_queue bt)(p := rest), bk_pc := T_LOOP \<rparr>)"
      by (auto simp: net_book_step_def cq_dequeue_def)
    have "\<forall>q. \<forall>y \<in> set (((bk_queue bt)(p := rest)) q). order_wf y \<and> o_ticker y = t"
      using qs(2) bt(4) by (metis fun_upd_apply list.set_intros(2))
    with r show ?thesis by (intro net_inv_put [OF nr_book.IH e]) simp_all
  next
    case False
    with nr_book show ?thesis
      by (auto simp: net_book_step_def net_inv_def cq_dequeue_def split: option.splits thread_pc.splits list.splits if_splits)
  qed
qed

section \<open>Properties\<close>

text \<open>
  C37: in every reachable state of this exchange the book of each symbol is well formed, not crossed
  and holds orders of that symbol only. A step of its thread is undefined exactly when the thread takes an order that
  cancels or modifies an order of the book and the erased element of that order, which the book reads for
  its logger, cannot be read any more.
\<close>

theorem net_books_ready:
  assumes "net_reach dead nx" and "nx_books nx ticker = Some bt"
  shows "book_inv (bk_book bt) \<and> uncrossed (bk_book bt) \<and> (\<forall>x \<in> ran (book_map (bk_book bt)). o_ticker x = ticker)
    \<and> (net_book_step dead ts pick ticker nx = None \<longleftrightarrow> bk_pc bt = T_POLL \<and> (\<exists>p x rest y. pick = Some p
        \<and> bk_queue bt p = x # rest \<and> erased_read x (bk_book bt) = Some y \<and> dead y = None))"
proof -
  have inv: "net_inv nx" by (rule net_inv_reach [OF assms(1)])
  then have r: "book_ready ticker (bk_book bt)" "nx_logger nx" "\<forall>p. \<forall>x \<in> set (bk_queue bt p). order_wf x \<and> o_ticker x = ticker"
    using assms(2) by (auto simp: net_inv_def)
  have "net_book_step dead ts pick ticker nx = None \<longleftrightarrow> bk_pc bt = T_POLL \<and> (\<exists>p x rest y. pick = Some p
        \<and> bk_queue bt p = x # rest \<and> erased_read x (bk_book bt) = Some y \<and> dead y = None)"
  proof (cases "\<exists>p x rest. pick = Some p \<and> bk_queue bt p = x # rest")
    case True
    then obtain p x rest where q: "pick = Some p" "bk_queue bt p = x # rest" by blast
    have x: "order_wf x" "o_ticker x = ticker" using r(3) [rule_format, of x p] q(2) by simp_all
    from net_process_ok [OF r(1) x, where dead = dead and ts = ts] r(2) q show ?thesis
      by (auto simp: net_book_step_def assms(2) cq_dequeue_def split: thread_pc.split option.splits Option.bind_split)
  next
    case False
    then show ?thesis
      by (auto simp: net_book_step_def assms(2) cq_dequeue_def split: thread_pc.split option.split list.split)
  qed
  with r(1) show ?thesis by (simp add: book_ready_def)
qed

theorem net_books_ready_witness:
  "\<exists>bt. nx_books (net_add_symbol [65, 65, 80, 76] (net_exchange_new True publisher_new)) [65, 65, 80, 76] = Some bt
    \<and> book_inv (bk_book bt) \<and> uncrossed (bk_book bt)
    \<and> net_book_step Some 0 (Some 0) [65, 65, 80, 76] (net_add_symbol [65, 65, 80, 76] (net_exchange_new True publisher_new)) \<noteq> None"
proof -
  let ?nx = "net_add_symbol [65, 65, 80, 76] (net_exchange_new True publisher_new)"
  obtain bt where bt: "nx_books ?nx [65, 65, 80, 76] = Some bt"
    by (simp add: net_add_symbol_def net_exchange_new_def TICKER_LEN_def)
  have "net_reach Some ?nx" by (rule nr_symbol [OF nr_new]) (simp add: TICKER_LEN_def)
  from net_books_ready [OF this bt, where ts = 0 and pick = "Some 0"] bt show ?thesis by blast
qed

text \<open>
  Every accepted order is logged twice: the book and the exchange push the same event.
\<close>

theorem net_logs_new_twice:
  assumes "book_ready t ob" and "order_wf x" and "o_ticker x = t" and "log_attached ob" and "o_status x = NEW"
    and "fst (fst (book_add x ob)) = SUCCESS"
  shows "\<exists>trades ob'. net_process_order dead True ts x ob = Some (
      [log_price_level_update (o_timestamp x) (o_order_id x) (o_price x) (o_qty x) (o_side x),
       log_price_level_update (o_timestamp x) (o_order_id x) (o_price x) (o_qty x) (o_side x)] @ trades, ob')"
proof -
  obtain r evs ob1 where a: "book_add x ob = ((r, evs), ob1)" by (metis prod.collapse)
  have inv: "book_inv ob" using assms(1) by (simp add: book_ready_def)
  have r: "r = SUCCESS" using assms(6) a by simp
  with book_add_ok(1,3) [OF inv assms(2) a] assms(4)
  have e: "evs = [log_price_level_update (o_timestamp x) (o_order_id x) (o_price x) (o_qty x) (o_side x)]"
    and i: "book_inv ob1" by simp_all
  obtain trades ob2 where "execute ts ob1 = Some (trades, ob2)" using execute_ok [OF i, of ts] by blast
  with a r e assms(5) show ?thesis
    by (simp add: net_process_order_def dispatch_order_def Let_def extra_event_def)
qed

theorem net_logs_new_twice_witness:
  "\<exists>trades ob'. net_process_order Some True 0 (ex_order 1 BUY 100 10) (new_orderbook True) = Some (
      [log_price_level_update 1 (replicate 16 1) 100 10 BUY, log_price_level_update 1 (replicate 16 1) 100 10 BUY] @ trades, ob')"
proof -
  let ?x = "ex_order 1 BUY 100 10"
  have f: "o_timestamp ?x = 1" "o_order_id ?x = replicate 16 1" "o_price ?x = 100" "o_qty ?x = 10" "o_side ?x = BUY"
    "o_status ?x = NEW" by (simp_all add: ex_order_def make_order_t_def ORDER_ID_LEN_def)
  have "fst (fst (book_add ?x (new_orderbook True))) = SUCCESS" by code_simp
  from net_logs_new_twice [OF book_ready_new order_wf_ex refl _ f(6) this, of Some 0] show ?thesis
    by (simp add: f new_orderbook_def)
qed

text \<open>
  A successful modification is logged as a trade: besides the event of the book, the exchange
  pushes a trade report in which the order trades its full quantity with itself.
\<close>

theorem net_logs_modify_as_trade:
  assumes "o_status x = PARTIALLY_FILLED" and "net_process_order dead True ts x ob = Some (evs, ob')"
    and "book_map ob (key_of x) \<noteq> None" and "book_inv ob" and "order_wf x" and "spec_check x = SUCCESS"
  shows "log_trade_report (o_timestamp x) (o_order_id x) (o_price x) (o_qty x) (o_order_id x) (o_price x) \<in> set evs"
proof -
  obtain r evs1 ob1 where d: "dispatch_order dead x ob = Some ((r, evs1), ob1)" "spec_dispatch x (book_map ob) = (r, book_map ob1)"
    using dispatch_order_ok [OF assms(4,5), where dead = dead] assms(2)
    by (auto simp: net_process_order_def split: option.splits Option.bind_splits)
  then have "r = Some SUCCESS" using assms(1,3,6) by (auto simp: spec_dispatch_def spec_modify_def)
  with assms(1,2) d(1) show ?thesis
    by (auto simp: net_process_order_def extra_event_def split: Option.bind_splits)
qed

definition ex_update :: order_t where
  "ex_update = (ex_order 1 BUY 101 7)\<lparr> o_status := PARTIALLY_FILLED \<rparr>"

lemma ex_update_fields: "key_of ex_update = key_of (ex_order 1 BUY 100 10)" "order_wf ex_update" "spec_check ex_update = SUCCESS"
  by (simp_all add: ex_update_def key_of_def order_wf_def ex_order_def make_order_t_def ORDER_ID_LEN_def spec_check_def
      is_side_def MAX_PRICE_def)

definition ex_one_order :: orderbook where
  "ex_one_order = snd (book_add (ex_order 1 BUY 100 10) (new_orderbook True))"

theorem net_logs_modify_as_trade_witness:
  "\<exists>evs ob'. net_process_order Some True 0 ex_update ex_one_order = Some (evs, ob')
    \<and> log_trade_report 1 (replicate 16 1) 101 7 (replicate 16 1) 101 \<in> set evs"
proof -
  have f: "o_timestamp ex_update = 1" "o_order_id ex_update = replicate 16 1" "o_price ex_update = 101" "o_qty ex_update = 7"
    "o_status ex_update = PARTIALLY_FILLED"
    by (simp_all add: ex_update_def ex_order_def make_order_t_def ORDER_ID_LEN_def)
  obtain r evs0 ob0 where a: "book_add (ex_order 1 BUY 100 10) (new_orderbook True) = ((r, evs0), ob0)"
    by (metis prod.collapse)
  then have ob0: "ob0 = ex_one_order" by (simp add: ex_one_order_def)
  have "fst (fst (book_add (ex_order 1 BUY 100 10) (new_orderbook True))) = SUCCESS" by code_simp
  with a have "r = SUCCESS" by simp
  with book_add_ok(1,2) [OF book_inv_new order_wf_ex a] ob0
  have inv: "book_inv ex_one_order"
    and "book_map ex_one_order = (book_map (new_orderbook True))(key_of ex_update \<mapsto> ex_order 1 BUY 100 10)"
    by (auto simp: spec_add_def ex_update_fields split: if_splits)
  then have m: "book_map ex_one_order (key_of ex_update) \<noteq> None" by simp
  obtain r1 evs1 ob1 where d: "dispatch_order Some ex_update ex_one_order = Some ((r1, evs1), ob1)" "book_inv ob1"
    using dispatch_order_ok [OF inv ex_update_fields(2), where dead = Some] by (auto split: option.splits)
  obtain trades ob2 where "execute 0 ob1 = Some (trades, ob2)" using execute_ok [OF d(2), of 0] by blast
  with d(1) have "\<exists>evs ob'. net_process_order Some True 0 ex_update ex_one_order = Some (evs, ob')"
    by (cases "r1 = Some SUCCESS") (simp_all add: net_process_order_def)
  then obtain evs ob' where p: "net_process_order Some True 0 ex_update ex_one_order = Some (evs, ob')" by blast
  from net_logs_modify_as_trade [OF f(5) p m inv ex_update_fields(2,3)] p show ?thesis by (auto simp: f)
qed

end
