(* ===== verification/Sync_Exchange.thy ===== *)
theory Sync_Exchange
  imports Order_Handling
begin

text \<open>
  The exchange without network (includes/exchange_no_net.h): orders are added and matched by
  the caller, under no lock; the thread of a book only sleeps until \<open>stop_all\<close>. The symbols, the
  flag of each book and the results are modelled; \<open>None\<close> is the exception of \<open>at\<close> for an
  unknown symbol, or undefined behaviour of the book.
\<close>

section \<open>State\<close>

record book_data =
  bd_book :: orderbook
  bd_running :: bool
  bd_joinable :: bool

record sync_exchange =
  sx_symbols :: "u8 list list"  \<comment> \<open>the keys of the map\<close>
  sx_books :: "u8 list \<Rightarrow> book_data option"
  sx_logger :: bool

definition sync_exchange_new :: "bool \<Rightarrow> sync_exchange" where
  "sync_exchange_new log = \<lparr> sx_symbols = [], sx_books = (\<lambda>_. None), sx_logger = log \<rparr>"

section \<open>Operations\<close>

definition extract_symbol :: "order_t \<Rightarrow> u8 list" where
  "extract_symbol order = take TICKER_LEN (o_ticker order)"

definition create_book :: "u8 list \<Rightarrow> sync_exchange \<Rightarrow> sync_exchange" where
  "create_book symbol sx =
     (case sx_books sx symbol of
        None \<Rightarrow> sx\<lparr> sx_symbols := sx_symbols sx @ [symbol],
                  sx_books := (sx_books sx)(symbol \<mapsto>
                    \<lparr> bd_book = new_orderbook (sx_logger sx), bd_running = True, bd_joinable = True \<rparr>) \<rparr>
      | Some _ \<Rightarrow> sx)"

definition sync_add_order :: "u64 \<Rightarrow> order_t \<Rightarrow> sync_exchange \<Rightarrow> (log_event_t list \<times> sync_exchange) option" where
  "sync_add_order match_ts order sx =
     (let symbol = extract_symbol order; sx1 = create_book symbol sx in
      do {
        bd \<leftarrow> sx_books sx1 symbol;
        let ((res, evs), ob1) = book_add order (bd_book bd);
        (trades, ob2) \<leftarrow> execute match_ts ob1;
        Some (evs @ trades, sx1\<lparr> sx_books := (sx_books sx1)(symbol \<mapsto> bd\<lparr> bd_book := ob2 \<rparr>) \<rparr>)
      })"

text \<open>\<open>stop_all\<close>: every flag is cleared first, then every thread is joined.\<close>

definition stop_all :: "sync_exchange \<Rightarrow> sync_exchange" where
  "stop_all sx = sx\<lparr> sx_books :=
     (\<lambda>s. map_option (\<lambda>bd. bd\<lparr> bd_running := False, bd_joinable := False \<rparr>) (sx_books sx s)) \<rparr>"

definition bookCount :: "sync_exchange \<Rightarrow> nat" where
  "bookCount sx = length (sx_symbols sx)"

definition hasSymbol :: "u8 list \<Rightarrow> sync_exchange \<Rightarrow> bool" where
  "hasSymbol symbol sx \<longleftrightarrow> sx_books sx symbol \<noteq> None"

definition debug_get_best_bid :: "u8 list \<Rightarrow> sync_exchange \<Rightarrow> u32 option" where
  "debug_get_best_bid symbol sx = do {
     bd \<leftarrow> sx_books sx symbol;
     Some (case best_bid (bd_book bd) of Some p \<Rightarrow> p | None \<Rightarrow> 0)
   }"

definition debug_get_best_ask :: "u8 list \<Rightarrow> sync_exchange \<Rightarrow> u32 option" where
  "debug_get_best_ask symbol sx = do {
     bd \<leftarrow> sx_books sx symbol;
     Some (case best_ask (bd_book bd) of Some p \<Rightarrow> p | None \<Rightarrow> 0)
   }"

section \<open>The invariant\<close>

definition sync_inv :: "sync_exchange \<Rightarrow> bool" where
  "sync_inv sx \<longleftrightarrow> distinct (sx_symbols sx) \<and> set (sx_symbols sx) = dom (sx_books sx)
     \<and> (\<forall>s bd. sx_books sx s = Some bd \<longrightarrow> book_ready s (bd_book bd))"

lemma sync_inv_create: "sync_inv sx \<Longrightarrow> sync_inv (create_book s sx)"
  by (auto simp: sync_inv_def create_book_def book_ready_new dom_def split: option.splits)

lemma create_book_there: "\<exists>bd. sx_books (create_book s sx) s = Some bd"
  by (auto simp: create_book_def split: option.splits)

lemma book_add_ready:
  assumes "book_ready t ob" and "order_wf x" and "o_ticker x = t"
  shows "\<exists>trades ob'. execute ts (snd (book_add x ob)) = Some (trades, ob') \<and> book_ready t ob'"
proof -
  obtain r evs ob1 where a: "book_add x ob = ((r, evs), ob1)" by (metis prod.collapse)
  have inv: "book_inv ob" using assms(1) by (simp add: book_ready_def)
  note A = book_add_ok(1,2) [OF inv assms(2) a]
  have t1: "\<forall>y \<in> ran (book_map ob1). o_ticker y = t"
    using ran_book_add [OF inv assms(2), of "{y. o_ticker y = t}"] assms(1,3) a by (auto simp: book_ready_def)
  obtain trades ob2 where e: "execute ts ob1 = Some (if log_attached ob1 then map (trade_event ts) trades else [], ob2)"
    "book_inv ob2" "match_orders (buy_list ob1) (sell_list ob1) = (trades, buy_list ob2, sell_list ob2)"
    using execute_ok [OF A(1), of ts] by blast
  have "uncrossed ob2"
    using match_uncrossed [OF e(3)] by (auto simp: uncrossed_def best_of_lists [OF e(2)] split: list.splits)
  moreover have "\<forall>y \<in> ran (book_map ob2). o_ticker y = t"
    using match_tickers [OF e(3)] t1 unfolding book_orders [OF e(2)] book_orders [OF A(1)] by fastforce
  ultimately show ?thesis using e(1,2) a by (simp add: book_ready_def)
qed

lemma sync_add_ok:
  assumes "sync_inv sx" and "order_wf x" and "length (o_ticker x) = TICKER_LEN"
  shows "\<exists>evs sx'. sync_add_order ts x sx = Some (evs, sx') \<and> sync_inv sx'
    \<and> sx_symbols sx' = sx_symbols (create_book (o_ticker x) sx)"
proof -
  let ?s = "o_ticker x"
  have s: "extract_symbol x = ?s" using assms(3) by (simp add: extract_symbol_def)
  obtain bd where bd: "sx_books (create_book ?s sx) ?s = Some bd" using create_book_there by blast
  have inv: "sync_inv (create_book ?s sx)" by (rule sync_inv_create [OF assms(1)])
  with bd have "book_ready ?s (bd_book bd)" by (simp add: sync_inv_def)
  from book_add_ready [OF this assms(2) refl, of ts] obtain trades ob' where
    e: "execute ts (snd (book_add x (bd_book bd))) = Some (trades, ob')" "book_ready ?s ob'" by blast
  obtain r evs ob1 where a: "book_add x (bd_book bd) = ((r, evs), ob1)" by (metis prod.collapse)
  let ?sx' = "(create_book ?s sx)\<lparr> sx_books := (sx_books (create_book ?s sx))(?s \<mapsto> bd\<lparr> bd_book := ob' \<rparr>) \<rparr>"
  have "sync_add_order ts x sx = Some (evs @ trades, ?sx')"
    using e(1) a by (simp add: sync_add_order_def Let_def s bd)
  moreover have "sync_inv ?sx'" using inv bd e(2) by (auto simp: sync_inv_def)
  ultimately show ?thesis by fastforce
qed

section \<open>Properties\<close>

text \<open>
  Adding an order always succeeds in defined behaviour, creates the book of its symbol when there
  is none, and leaves every book well formed, uncrossed and of one symbol; the count of books
  is the number of symbols that were seen.
\<close>

theorem sync_add_order_ready:
  assumes "sync_inv sx" and "order_wf x" and "length (o_ticker x) = TICKER_LEN"
  shows "\<exists>evs sx'. sync_add_order ts x sx = Some (evs, sx') \<and> sync_inv sx' \<and> hasSymbol (o_ticker x) sx'
    \<and> bookCount sx' = bookCount sx + (if hasSymbol (o_ticker x) sx then 0 else 1)"
proof -
  obtain evs sx' where r: "sync_add_order ts x sx = Some (evs, sx')" "sync_inv sx'"
    "sx_symbols sx' = sx_symbols (create_book (o_ticker x) sx)"
    using sync_add_ok [OF assms] by blast
  have "o_ticker x \<in> set (sx_symbols (create_book (o_ticker x) sx))"
    using assms(1) by (auto simp: create_book_def sync_inv_def split: option.splits)
  with r(2,3) have "hasSymbol (o_ticker x) sx'" by (auto simp: sync_inv_def hasSymbol_def)
  moreover have "bookCount sx' = bookCount sx + (if hasSymbol (o_ticker x) sx then 0 else 1)"
    by (auto simp: bookCount_def r(3) create_book_def hasSymbol_def split: option.splits)
  ultimately show ?thesis using r(1,2) by blast
qed

theorem sync_add_order_ready_witness:
  "\<exists>evs sx'. sync_add_order 0 (ex_order 1 BUY 100 10) (sync_exchange_new True) = Some (evs, sx') \<and> bookCount sx' = 1"
proof -
  have "sync_inv (sync_exchange_new True)" by (auto simp: sync_inv_def sync_exchange_new_def)
  moreover have "length (o_ticker (ex_order 1 BUY 100 10)) = TICKER_LEN"
    by (simp add: ex_order_def make_order_t_def TICKER_LEN_def)
  ultimately obtain evs sx' where "sync_add_order 0 (ex_order 1 BUY 100 10) (sync_exchange_new True) = Some (evs, sx')"
    "bookCount sx' = bookCount (sync_exchange_new True)
       + (if hasSymbol (o_ticker (ex_order 1 BUY 100 10)) (sync_exchange_new True) then 0 else 1)"
    using sync_add_order_ready [OF _ order_wf_ex] by blast
  then show ?thesis by (simp add: bookCount_def hasSymbol_def sync_exchange_new_def)
qed

end
