(* ===== verification/Spec2Isabelle.thy ===== *)
theory Spec2Isabelle
  imports Queue_Single Free_Properties Book_Runs Container_Properties Robin_Properties Replay Logger Exchange_Properties Net_Exchange Sync_Exchange
begin

text \<open>
  A verification development of the exchange simulator.

  \<^bold>\<open>The program.\<close> A replay client (src/client.cpp) reads a file of events, one JSON text per line,
  and turns each line into a binary message. An order parser (src/order\_parser.cpp) turns the
  message into an order. An exchange routes the order to the thread of its ticker, which adds,
  cancels or modifies it in the order book of the ticker and matches the book
  (src/orderbook.cpp). Order books and exchanges push events to an asynchronous logger
  (src/logger.cpp). There are three exchanges: one thread per bucket of tickers
  (src/local\_exchange.cpp), one thread per symbol behind a TCP server and a market data publisher
  (src/exchange.cpp, src/network\_server.cpp, src/market\_data\_publisher.cpp), and one without threads
  for matching (includes/exchange\_no\_net.h). The books rest on library code kept in the repository:
  the container of a price level (includes/plf\_hive.h), the hash map of order identifiers
  (includes/robin\_hood.h), the queue between threads (includes/concurrentqueue.h) and the JSON library
  (includes/nlohmann).

  \<^bold>\<open>The theories\<close>, from the data up. \<open>Prelude\<close>: machine integers, collections of facts, shared lemmas.

  \<^item> \<open>Order_Types\<close> (includes/types.h): orders, the 16-byte identifier, its comparison and hash.
  \<^item> \<open>Hive_Group\<close>, \<open>Hive\<close>, \<open>Bag_Interface\<close>, \<open>Container_Properties\<close> (plf\_hive.h): one block of the hive with
    its skipfield and the free list threaded through its erased slots; the chain of blocks with insert,
    erase and iteration; the locale of what the order book needs of a level's container, interpreted by
    the hive. The invariant \<open>hive_inv\<close> says that the skipfield describes the runs of erased slots and the
    free lists hold exactly those runs; every operation acts on the sequence \<open>hive_seq\<close> of elements.
  \<^item> \<open>Ordered_Map\<close>: \<open>std::map\<close> as an ascending association list, with its locale.
  \<^item> \<open>Robin_Hood\<close>, \<open>Robin_Probe\<close>, \<open>Robin_Table\<close>, \<open>Robin_Growth\<close>, \<open>Table_Interface\<close>, \<open>Robin_Properties\<close>
    (robin\_hood.h): the operations on info bytes and slots, the theory of robin hood probing on lists, the
    invariant of the table and its finite map, why growing cannot fail with at most 126 keys, the locale of a finite
    table, which may throw beyond a number of keys, and the refinement of that locale.
  \<^item> \<open>Log_Events\<close>, \<open>Message_Queue\<close>, \<open>Logger\<close> (logger.h, logger.cpp, concurrentqueue.h): the event and its line of
    text, the queue as one list per producer with the choice among them, and the logger as
    steps of the pushing threads, the worker and the destructor.
  \<^item> \<open>Queue_Blocks\<close>, \<open>Queue_Producer\<close> (concurrentqueue.h): the blocks and the pool they come from; the queue of one
    implicit producer, with one step for each access to shared memory in \<open>enqueue\<close> and \<open>dequeue\<close>.
    \<open>Queue_Arith\<close>, \<open>Queue_Invariant\<close>: words that wrap, the ring of the block index; the invariant with its auxiliary
    state, which remembers all elements, the fate of every consumer's ticket, and which entry and block serve
    which indices. \<open>Free_List\<close>, \<open>Free_Steps\<close>, \<open>Free_Properties\<close>: the lock-free free list of the blocks with its
    reference counts, step by step, which is a bag; the queues use it as a bag. \<open>Queue_Consumer\<close>, \<open>Queue_Claim\<close>, \<open>Queue_Release\<close>: the consumers' steps keep it.
    \<open>Queue_Owner\<close>, \<open>Queue_Index\<close>, \<open>Queue_Open\<close>, \<open>Queue_Publish\<close>: the owner's steps keep it. \<open>Queue_System\<close>: the queues of all
    producers on one pool, and their runs. \<open>Queue_Properties\<close>, \<open>Queue_Single\<close>: no run has undefined behaviour, all
    runs are runs of the streams of \<open>Message_Queue\<close>, a dequeue has its result after a bounded number of its own
    steps (giving a block back to the free list may take longer), and a single consumer is told that the queue is
    empty only if it was.
  \<^item> \<open>Orderbook\<close>, \<open>Book_Inv\<close>, \<open>Book_Spec\<close>, \<open>Matching\<close>, \<open>Execution\<close>, \<open>Book_Properties\<close>, \<open>Book_Runs\<close> (orderbook.h, orderbook.cpp): the
    operations of the book with the events they log, the invariant, the abstract book (a finite map of
    orders) that add, cancel and modify refine, the reference matcher on two lists of orders that \<open>execute\<close>
    refines, what matching guarantees, the properties of single operations, and those of sequences of operations.
    \<open>cancel\<close> and \<open>modify\<close> read an element for the logger after they have erased it. What such a read gives is an argument
    \<open>dead\<close> of the model, for each erased order its fields as they are read or \<open>None\<close>, undefined behaviour; the
    theorems say exactly when it is reached.
  \<^item> \<open>Byte_Order\<close>, \<open>Order_Parser\<close> (order\_parser.h, order\_parser.cpp): integers in memory, network order, and the
    message format, with reads beyond the buffer as undefined behaviour.
  \<^item> \<open>Json_Lexer\<close>, \<open>Json_Parser\<close>, \<open>Json_Document\<close> (nlohmann/detail/input): the scanner with its position counters and
    messages, the parser's loop with its stack of flags, the handler that builds the value through
    pointers into it (paths here). \<open>Json_Grammar\<close>, \<open>Json_Utf8\<close>, \<open>Json_Strings\<close>, \<open>Json_Numbers\<close>, \<open>Json_Text\<close>: the grammar of
    RFC 8259 from tokens to bytes; the library accepts exactly its texts, up to a byte order mark in
    front and a null byte that ends the text.
  \<^item> \<open>Json_Serializer\<close> (nlohmann/detail/output/serializer.hpp): writing a value with its indentation, escaping
    strings through a buffer of 512 bytes, writing integers two digits at a time. \<open>Json_Decoder\<close>, \<open>Json_Escape\<close>,
    \<open>Json_Integer\<close>: the decoder's table is UTF-8, the escaping stays within its buffer and writes strings of the
    grammar, integers are written in decimal. \<open>Json_Roundtrip\<close>: what is written parses back to the value.
  \<^item> \<open>Client\<close>, \<open>Replay\<close> (client.cpp): from a parsed line to a message; the replay as a whole, from the bytes of
    the file to the messages on the wire in the order of their time stamps.
  \<^item> \<open>Order_Handling\<close>, \<open>Local_Exchange\<close>, \<open>Exchange_Properties\<close> (local\_exchange.h, local\_exchange.cpp): what a thread
    does with one order, the steps of the calling threads and of the bucket threads, and their invariants over
    all interleavings. The queue of a bucket keeps one stream for each calling thread; inserting a book takes two
    steps, between which a look-up in the same bucket is a race.
  \<^item> \<open>Net_Exchange\<close>, \<open>Publisher\<close>, \<open>Network_Server\<close>, \<open>Sync_Exchange\<close>: the other exchanges and the front end.

  \<^bold>\<open>Conventions.\<close> \<open>None\<close> as the result of an operation is undefined behaviour in C++ (a dangling iterator, a
  read beyond a buffer), except where a theory says that it is an error value; most refinement theorems
  include that it does not occur. Events pushed to the logger are returned by the operation that pushes
  them. Concurrency is interleaving of labelled steps. Machine integers are words where they can wrap.

  \<^bold>\<open>Bounds.\<close> Loops are total functions with a measure wherever the source's loop ends. Fuel appears in the
  hash map only: in \<open>reserve\<close> and \<open>compact\<close> 62 doublings reach every capacity a 64-bit size can ask for
  (\<open>growSize\<close>), and the comparison of two tables has a round more than there are slots; the 256 rounds of
  \<open>prepareLoop\<close> are the code's own, after which it reports an overflow. The theorems on the lock-free queue are
  about runs of fewer than 2^56 steps from any starting index, so that its 64-bit indices may wrap around
  during the run, while its block index stays addressable; at a step per nanosecond that is over two years.
  The copy of the block index runs over at most as many entries as the new ring has room for; copying more, or not as
  many as the old ring had, is undefined behaviour there.

  \<^bold>\<open>Not modelled.\<close> The sockets, files and console; of the concurrent queue the memory order (its memory is
  sequentially consistent here), explicit producers and tokens, bulk operations, the hash from thread to producer and the
  destructors; which producer the logger's worker finds first
  is an argument of its steps;
  bulk operations of the hive and of the hash map that the program does not call; the conversion between
  decimal text and floating point numbers (arguments of the JSON definitions), so the round trip of JSON
  values is for values without them; calls on an exchange that overlap, and a rehash of the unsynchronised map of books
  while a thread works on one of them; the binary formats of the JSON library; the order of the replay's sort
  among equal time stamps, which the standard leaves open (the replay is a relation there), and its timing
  statistics; the boost libraries; tests and scripts.
\<close>

end
